(* ===== verification/Prelude.thy ===== *)
theory Prelude
  imports Main "HOL-Library.Word" "HOL-Library.Monad_Syntax"
begin

text \<open>
  Shared vocabulary of the development: names for the machine integer types of the C++
  sources, the collections that carry the component proofs (\<open>limits\<close> for the capacity
  constants, \<open>pool_laws\<close> for object pools, \<open>ring_laws\<close> for linked rings), and generic lemmas on lists,
  option-valued maps and words that several components use.

  Unsigned integers are words (\<open>+\<close> and \<open>-\<close> wrap as in C++). Signed 64-bit
  prices and positions are \<open>int\<close>; the places where they cross the wire convert them with
  \<open>word_of_int\<close> and \<open>sint\<close>, and \<open>i64\<close> is the range that makes those conversions exact.
\<close>

type_synonym u8 = "8 word"
type_synonym u32 = "32 word"
type_synonym u64 = "64 word"

named_theorems limits \<open>capacity limits and sentinel values of common/types.h\<close>
named_theorems pool_laws \<open>heap view of the pool operations\<close>
named_theorems ring_laws \<open>facts about circular doubly linked lists\<close>

definition i64 :: "int \<Rightarrow> bool" where
  "i64 x \<longleftrightarrow> - (2 ^ 63) \<le> x \<and> x < 2 ^ 63"

subsection \<open>Option chains\<close>

lemma bind_Some_conv:
  "(Option.bind m f = Some y) = (\<exists>x. m = Some x \<and> f x = Some y)"
  by (cases m) auto

lemma bind_map_of_Some: "m = Some x \<Longrightarrow> Option.bind m f = f x"
  by simp

subsection \<open>Lists\<close>

lemma butlast_snoc_last: "xs \<noteq> [] \<Longrightarrow> xs = butlast xs @ [last xs]"
  by simp

lemma distinct_last_butlast: "distinct xs \<Longrightarrow> xs \<noteq> [] \<Longrightarrow> last xs \<notin> set (butlast xs)"
  by (induct xs rule: rev_induct) auto

lemma set_butlast_distinct:
  assumes "distinct xs" "xs \<noteq> []"
  shows "set (butlast xs) = set xs - {last xs}"
proof -
  have "set xs = set (butlast xs) \<union> {last xs}"
    using assms(2) by (metis append_butlast_last_id empty_set list.simps(15) set_append)
  then show ?thesis using distinct_last_butlast [OF assms] by auto
qed

lemma filter_neq_id: "x \<notin> set xs \<Longrightarrow> filter (\<lambda>y. y \<noteq> x) xs = xs"
  by (induct xs) auto

lemma filter_eq_single: "distinct xs \<Longrightarrow> k \<in> set xs \<Longrightarrow> filter (\<lambda>x. x = k) xs = [k]"
  by (induct xs) (auto simp: filter_empty_conv)

lemma set_filter_key:
  "distinct (map f xs) \<Longrightarrow> v \<in> set xs \<Longrightarrow> set (filter (\<lambda>y. f y \<noteq> f v) xs) = set xs - {v}"
  by (auto simp: distinct_map dest: inj_onD)

lemma distinct_map_other: "distinct (map f xs) \<Longrightarrow> v \<in> set xs \<Longrightarrow> f v \<notin> f ` (set xs - {v})"
  by (auto simp: distinct_map dest: inj_onD)

lemma find_SomeD: "List.find P xs = Some v \<Longrightarrow> v \<in> set xs \<and> P v"
  by (induct xs) (auto split: if_splits)

lemma last_in_set_conv: "xs \<noteq> [] \<Longrightarrow> last xs \<in> set xs"
  by simp

lemma card_less_length_filter:
  "card {i. i < length xs \<and> P (xs ! i)} = length (filter P xs)"
  by (simp add: length_filter_conv_card)

subsection \<open>Words\<close>

lemma unat_less_64: "unat (x :: u64) < 2 ^ 64"
  using unsigned_less [where ?'a = nat, of x] by simp

lemma unat_less_32: "unat (x :: u32) < 2 ^ 32"
  using unsigned_less [where ?'a = nat, of x] by simp

lemma unat_Suc_u64: "unat (x :: u64) < 2 ^ 64 - 1 \<Longrightarrow> unat (x + 1) = Suc (unat x)"
  by (simp add: unat_word_ariths)

lemma unat_sub_le: "(y :: 'a::len word) \<le> x \<Longrightarrow> unat (x - y) = unat x - unat y"
  by (rule unat_sub)

lemma sint_word_of_int_64: "i64 x \<Longrightarrow> sint (word_of_int x :: u64) = x"
  by (simp add: i64_def sint_sbintrunc' signed_take_bit_int_eq_self)

lemma i64_sint: "i64 (sint (w :: u64))"
  using sint_lt [of w] sint_ge [of w] by (simp add: i64_def)

end
