(* ===== verification/Types.thy ===== *)
theory Types
  imports Prelude
begin

text \<open>
  \<^verbatim>\<open>src/common/types.h\<close>: identifiers, sentinel values, capacity limits, the enumerations
  \<open>Side\<close> and \<open>AlgoType\<close> with their text forms, and the risk and strategy parameters.

  A C++ \<open>enum class\<close> with a fixed underlying type can hold any value of that type, because
  the wire decoder casts a byte to it. Each enumeration therefore has one constructor per
  named enumerator and one constructor for the remaining byte values; \<open>side_ok\<close> says
  that the latter is used for unnamed bytes only, which makes the representation unique.
\<close>

type_synonym OrderId = u64
type_synonym TickerId = u32
type_synonym ClientId = u32
type_synonym Price = int
type_synonym Qty = u32
type_synonym Priority = u64

definition ME_MAX_TICKERS :: nat where [limits]: "ME_MAX_TICKERS = 8"
definition ME_MAX_CLIENT_UPDATES :: nat where [limits]: "ME_MAX_CLIENT_UPDATES = 256 * 1024"
definition ME_MAX_MARKET_UPDATES :: nat where [limits]: "ME_MAX_MARKET_UPDATES = 256 * 1024"
definition ME_MAX_NUM_CLIENTS :: nat where [limits]: "ME_MAX_NUM_CLIENTS = 256"
definition ME_MAX_ORDER_IDS :: nat where [limits]: "ME_MAX_ORDER_IDS = 1024 * 1024"
definition ME_MAX_PRICE_LEVELS :: nat where [limits]: "ME_MAX_PRICE_LEVELS = 256"

definition OrderId_INVALID :: OrderId where [limits]: "OrderId_INVALID = 0xFFFFFFFFFFFFFFFF"
definition TickerId_INVALID :: TickerId where [limits]: "TickerId_INVALID = 0xFFFFFFFF"
definition ClientId_INVALID :: ClientId where [limits]: "ClientId_INVALID = 0xFFFFFFFF"
definition Price_INVALID :: Price where [limits]: "Price_INVALID = 2 ^ 63 - 1"
definition Qty_INVALID :: Qty where [limits]: "Qty_INVALID = 0xFFFFFFFF"
definition Priority_INVALID :: Priority where [limits]: "Priority_INVALID = 0xFFFFFFFFFFFFFFFF"
definition INT32_MAX :: nat where [limits]: "INT32_MAX = 2 ^ 31 - 1"

subsection \<open>Text forms\<close>

text \<open>\<open>std::to_string\<close> on unsigned and signed integers.\<close>

fun nat_to_string :: "nat \<Rightarrow> string" where
  "nat_to_string n =
     (if n < 10 then [char_of (48 + n)]
      else nat_to_string (n div 10) @ [char_of (48 + n mod 10)])"

declare nat_to_string.simps [simp del]

definition int_to_string :: "int \<Rightarrow> string" where
  "int_to_string i =
     (if i < 0 then ''-'' @ nat_to_string (nat (- i)) else nat_to_string (nat i))"

definition orderIdToString :: "OrderId \<Rightarrow> string" where
  "orderIdToString order_id =
     (if order_id = OrderId_INVALID then ''INVALID'' else nat_to_string (unat order_id))"

definition tickerIdToString :: "TickerId \<Rightarrow> string" where
  "tickerIdToString ticker_id =
     (if ticker_id = TickerId_INVALID then ''INVALID'' else nat_to_string (unat ticker_id))"

definition clientIdToString :: "ClientId \<Rightarrow> string" where
  "clientIdToString client_id =
     (if client_id = ClientId_INVALID then ''INVALID'' else nat_to_string (unat client_id))"

definition priceToString :: "Price \<Rightarrow> string" where
  "priceToString price = (if price = Price_INVALID then ''INVALID'' else int_to_string price)"

definition qtyToString :: "Qty \<Rightarrow> string" where
  "qtyToString qty = (if qty = Qty_INVALID then ''INVALID'' else nat_to_string (unat qty))"

definition priorityToString :: "Priority \<Rightarrow> string" where
  "priorityToString priority =
     (if priority = Priority_INVALID then ''INVALID'' else nat_to_string (unat priority))"

subsection \<open>Side\<close>

datatype Side = Side_INVALID | BUY | SELL | Side_MAX | Side_OTHER u8

definition side_to_byte :: "Side \<Rightarrow> u8" where
  "side_to_byte s = (case s of Side_INVALID \<Rightarrow> 0 | BUY \<Rightarrow> 1 | SELL \<Rightarrow> 255 | Side_MAX \<Rightarrow> 2
     | Side_OTHER b \<Rightarrow> b)"

definition side_of_byte :: "u8 \<Rightarrow> Side" where
  "side_of_byte b = (if b = 0 then Side_INVALID else if b = 1 then BUY else if b = 255 then SELL
     else if b = 2 then Side_MAX else Side_OTHER b)"

definition side_ok :: "Side \<Rightarrow> bool" where
  "side_ok s = (case s of Side_OTHER b \<Rightarrow> b \<notin> {0, 1, 2, 255} | _ \<Rightarrow> True)"

definition sideToString :: "Side \<Rightarrow> string" where
  "sideToString s = (case s of BUY \<Rightarrow> ''BUY'' | SELL \<Rightarrow> ''SELL'' | Side_INVALID \<Rightarrow> ''INVALID''
     | Side_MAX \<Rightarrow> ''MAX'' | Side_OTHER _ \<Rightarrow> ''UNKNOWN'')"

type_synonym PriceKey = "Side \<times> Price"

text \<open>\<open>static_cast<size_t>(side) + 1\<close>: the int8 is sign extended to 64 bits, then
  incremented modulo \<open>2\<^sup>64\<close>.\<close>

definition sideToIndex :: "Side \<Rightarrow> nat" where
  "sideToIndex s = unat ((scast (side_to_byte s) :: u64) + 1)"

definition sideToValue :: "Side \<Rightarrow> int" where
  "sideToValue s = sint (side_to_byte s)"

lemma side_byte_roundtrip [simp]: "side_of_byte (side_to_byte s) = s \<longleftrightarrow> side_ok s"
  by (cases s) (auto simp: side_of_byte_def side_to_byte_def side_ok_def)

lemma side_of_byte_ok [simp]: "side_ok (side_of_byte b)"
  by (auto simp: side_of_byte_def side_ok_def)

lemma side_to_byte_of_byte [simp]: "side_to_byte (side_of_byte b) = b"
  by (simp add: side_of_byte_def side_to_byte_def)

lemma sideToValue_simps [simp]:
  "sideToValue BUY = 1" "sideToValue SELL = -1" "sideToValue Side_INVALID = 0"
  by (simp_all add: sideToValue_def side_to_byte_def)

lemma sideToIndex_simps [simp]:
  "sideToIndex SELL = 0" "sideToIndex Side_INVALID = 1" "sideToIndex BUY = 2"
  "sideToIndex Side_MAX = 3"
  by (simp_all add: sideToIndex_def side_to_byte_def)

subsection \<open>AlgoType\<close>

datatype AlgoType = Algo_INVALID | Algo_RANDOM | Algo_MAKER | Algo_TAKER | Algo_MAX

definition algo_of_int :: "int \<Rightarrow> AlgoType option" where
  "algo_of_int i = (if i = 0 then Some Algo_INVALID else if i = 1 then Some Algo_RANDOM
     else if i = 2 then Some Algo_MAKER else if i = 3 then Some Algo_TAKER
     else if i = 4 then Some Algo_MAX else None)"

definition algoTypeToString :: "AlgoType \<Rightarrow> string" where
  "algoTypeToString t = (case t of Algo_RANDOM \<Rightarrow> ''RANDOM'' | Algo_MAKER \<Rightarrow> ''MAKER''
     | Algo_TAKER \<Rightarrow> ''TAKER'' | Algo_INVALID \<Rightarrow> ''INVALID'' | Algo_MAX \<Rightarrow> ''MAX'')"

text \<open>The loop of \<open>stringToAlgoType\<close> runs over the enumerators in numeric order and
  returns the first one whose text form is the argument.\<close>

fun stringToAlgoType_from :: "AlgoType list \<Rightarrow> string \<Rightarrow> AlgoType" where
  "stringToAlgoType_from [] str = Algo_INVALID"
| "stringToAlgoType_from (t # ts) str =
     (if algoTypeToString t = str then t else stringToAlgoType_from ts str)"

definition stringToAlgoType :: "string \<Rightarrow> AlgoType" where
  "stringToAlgoType str =
     stringToAlgoType_from (map (the \<circ> algo_of_int) [0, 1, 2, 3, 4]) str"

lemma stringToAlgoType_roundtrip: "stringToAlgoType (algoTypeToString t) = t"
  by (cases t) (simp_all add: stringToAlgoType_def algo_of_int_def algoTypeToString_def)

subsection \<open>Risk and strategy parameters\<close>

text \<open>The floating point limits have a type parameter: the operations on them are given to the
  definitions that use them.\<close>

record 'd RiskCfg =
  max_order_size :: Qty
  max_position :: Qty
  max_loss :: 'd

record 'd TradeEngineCfg =
  clip :: Qty
  threshold :: 'd
  risk_cfg :: "'d RiskCfg"

end
