(* ===== verification/Messages.thy ===== *)
theory Messages
  imports Types
begin

text \<open>
  The messages the components exchange: requests
  (\<^verbatim>\<open>src/exchange/order_server/client_request.h\<close>), private responses
  (\<^verbatim>\<open>client_response.h\<close>) and public market updates
  (\<^verbatim>\<open>src/exchange/market_data/market_update.h\<close>), with the numeric values of their
  enumerators as the wire carries them.
\<close>

subsection \<open>Requests\<close>

datatype ClientRequestType = Req_INVALID | Req_NEW | Req_CANCEL | Req_QUERY | Req_OTHER u8

definition req_to_byte :: "ClientRequestType \<Rightarrow> u8" where
  "req_to_byte t = (case t of Req_INVALID \<Rightarrow> 0 | Req_NEW \<Rightarrow> 1 | Req_CANCEL \<Rightarrow> 2 | Req_QUERY \<Rightarrow> 3
     | Req_OTHER b \<Rightarrow> b)"

definition req_of_byte :: "u8 \<Rightarrow> ClientRequestType" where
  "req_of_byte b = (if b = 0 then Req_INVALID else if b = 1 then Req_NEW
     else if b = 2 then Req_CANCEL else if b = 3 then Req_QUERY else Req_OTHER b)"

definition req_ok :: "ClientRequestType \<Rightarrow> bool" where
  "req_ok t = (case t of Req_OTHER b \<Rightarrow> b \<notin> {0, 1, 2, 3} | _ \<Rightarrow> True)"

lemma req_byte_roundtrip [simp]: "req_of_byte (req_to_byte t) = t \<longleftrightarrow> req_ok t"
  by (cases t) (auto simp: req_of_byte_def req_to_byte_def req_ok_def)

lemma req_to_byte_of_byte [simp]: "req_to_byte (req_of_byte b) = b"
  by (simp add: req_of_byte_def req_to_byte_def)

lemma req_of_byte_ok [simp]: "req_ok (req_of_byte b)"
  by (auto simp: req_of_byte_def req_ok_def)

definition clientRequestTypeToString :: "ClientRequestType \<Rightarrow> string" where
  "clientRequestTypeToString t = (case t of Req_NEW \<Rightarrow> ''NEW'' | Req_CANCEL \<Rightarrow> ''CANCEL''
     | Req_QUERY \<Rightarrow> ''QUERY'' | Req_INVALID \<Rightarrow> ''INVALID'' | Req_OTHER _ \<Rightarrow> ''UNKNOWN'')"

record MEClientRequest =
  rq_type :: ClientRequestType
  rq_client_id :: ClientId
  rq_ticker_id :: TickerId
  rq_order_id :: OrderId
  rq_side :: Side
  rq_price :: Price
  rq_qty :: Qty
  rq_session_epoch :: u64
  rq_request_seq :: u64

definition MEClientRequest_default :: MEClientRequest where
  "MEClientRequest_default = \<lparr>rq_type = Req_INVALID, rq_client_id = ClientId_INVALID,
     rq_ticker_id = TickerId_INVALID, rq_order_id = OrderId_INVALID, rq_side = Side_INVALID,
     rq_price = Price_INVALID, rq_qty = Qty_INVALID, rq_session_epoch = 0, rq_request_seq = 0\<rparr>"

definition MEClientRequest_toString :: "MEClientRequest \<Rightarrow> string" where
  "MEClientRequest_toString r = ''MEClientRequest ['' @
     ''type:'' @ clientRequestTypeToString (rq_type r) @
     '' client:'' @ clientIdToString (rq_client_id r) @
     '' ticker:'' @ tickerIdToString (rq_ticker_id r) @
     '' oid:'' @ orderIdToString (rq_order_id r) @ '' side:'' @ sideToString (rq_side r) @
     '' qty:'' @ qtyToString (rq_qty r) @ '' price:'' @ priceToString (rq_price r) @ '']''"

record OMClientRequest =
  omq_seq_num :: u64
  omq_request :: MEClientRequest
  omq_session_epoch :: u64

subsection \<open>Responses\<close>

datatype ClientResponseType = Resp_INVALID | Resp_ACCEPTED | Resp_CANCELED | Resp_FILLED
  | Resp_CANCEL_REJECTED | Resp_REJECTED | Resp_STATE | Resp_OTHER u8

definition resp_to_byte :: "ClientResponseType \<Rightarrow> u8" where
  "resp_to_byte t = (case t of Resp_INVALID \<Rightarrow> 0 | Resp_ACCEPTED \<Rightarrow> 1 | Resp_CANCELED \<Rightarrow> 2
     | Resp_FILLED \<Rightarrow> 3 | Resp_CANCEL_REJECTED \<Rightarrow> 4 | Resp_REJECTED \<Rightarrow> 5 | Resp_STATE \<Rightarrow> 6
     | Resp_OTHER b \<Rightarrow> b)"

definition resp_of_byte :: "u8 \<Rightarrow> ClientResponseType" where
  "resp_of_byte b = (if b = 0 then Resp_INVALID else if b = 1 then Resp_ACCEPTED
     else if b = 2 then Resp_CANCELED else if b = 3 then Resp_FILLED
     else if b = 4 then Resp_CANCEL_REJECTED else if b = 5 then Resp_REJECTED
     else if b = 6 then Resp_STATE else Resp_OTHER b)"

definition resp_ok :: "ClientResponseType \<Rightarrow> bool" where
  "resp_ok t = (case t of Resp_OTHER b \<Rightarrow> 6 < b | _ \<Rightarrow> True)"

definition clientResponseTypeToString :: "ClientResponseType \<Rightarrow> string" where
  "clientResponseTypeToString t = (case t of Resp_ACCEPTED \<Rightarrow> ''ACCEPTED''
     | Resp_CANCELED \<Rightarrow> ''CANCELED'' | Resp_FILLED \<Rightarrow> ''FILLED''
     | Resp_CANCEL_REJECTED \<Rightarrow> ''CANCEL_REJECTED'' | Resp_REJECTED \<Rightarrow> ''REJECTED''
     | Resp_STATE \<Rightarrow> ''STATE'' | Resp_INVALID \<Rightarrow> ''INVALID'' | Resp_OTHER _ \<Rightarrow> ''UNKNOWN'')"

datatype RejectReason = Rej_NONE | Rej_INVALID_ID | Rej_INVALID_TYPE | Rej_INVALID_SIDE
  | Rej_INVALID_PRICE | Rej_INVALID_QTY | Rej_DUPLICATE_ID | Rej_CAPACITY | Rej_IDENTITY
  | Rej_SEQUENCE | Rej_SESSION | Rej_VERSION | Rej_OTHER u8

definition rej_to_byte :: "RejectReason \<Rightarrow> u8" where
  "rej_to_byte r = (case r of Rej_NONE \<Rightarrow> 0 | Rej_INVALID_ID \<Rightarrow> 1 | Rej_INVALID_TYPE \<Rightarrow> 2
     | Rej_INVALID_SIDE \<Rightarrow> 3 | Rej_INVALID_PRICE \<Rightarrow> 4 | Rej_INVALID_QTY \<Rightarrow> 5 | Rej_DUPLICATE_ID \<Rightarrow> 6
     | Rej_CAPACITY \<Rightarrow> 7 | Rej_IDENTITY \<Rightarrow> 8 | Rej_SEQUENCE \<Rightarrow> 9 | Rej_SESSION \<Rightarrow> 10
     | Rej_VERSION \<Rightarrow> 11 | Rej_OTHER b \<Rightarrow> b)"

definition rej_of_byte :: "u8 \<Rightarrow> RejectReason" where
  "rej_of_byte b = (if b = 0 then Rej_NONE else if b = 1 then Rej_INVALID_ID
     else if b = 2 then Rej_INVALID_TYPE else if b = 3 then Rej_INVALID_SIDE
     else if b = 4 then Rej_INVALID_PRICE else if b = 5 then Rej_INVALID_QTY
     else if b = 6 then Rej_DUPLICATE_ID else if b = 7 then Rej_CAPACITY
     else if b = 8 then Rej_IDENTITY else if b = 9 then Rej_SEQUENCE
     else if b = 10 then Rej_SESSION else if b = 11 then Rej_VERSION else Rej_OTHER b)"

definition rej_ok :: "RejectReason \<Rightarrow> bool" where
  "rej_ok r = (case r of Rej_OTHER b \<Rightarrow> 11 < b | _ \<Rightarrow> True)"

lemma u8_small_cases:
  "(b :: u8) \<le> 6 \<longleftrightarrow> b = 0 \<or> b = 1 \<or> b = 2 \<or> b = 3 \<or> b = 4 \<or> b = 5 \<or> b = 6"
  "(b :: u8) \<le> 8 \<longleftrightarrow> b = 0 \<or> b = 1 \<or> b = 2 \<or> b = 3 \<or> b = 4 \<or> b = 5 \<or> b = 6 \<or> b = 7 \<or> b = 8"
  "(b :: u8) \<le> 11 \<longleftrightarrow> b = 0 \<or> b = 1 \<or> b = 2 \<or> b = 3 \<or> b = 4 \<or> b = 5 \<or> b = 6 \<or> b = 7
     \<or> b = 8 \<or> b = 9 \<or> b = 10 \<or> b = 11"
  unfolding word_le_nat_alt word_unat_eq_iff by (simp, presburger)+

lemma resp_byte_roundtrip [simp]: "resp_of_byte (resp_to_byte t) = t \<longleftrightarrow> resp_ok t"
  by (cases t) (auto simp: resp_of_byte_def resp_to_byte_def resp_ok_def u8_small_cases not_less
      simp flip: not_le)

lemma rej_byte_roundtrip [simp]: "rej_of_byte (rej_to_byte t) = t \<longleftrightarrow> rej_ok t"
  by (cases t) (auto simp: rej_of_byte_def rej_to_byte_def rej_ok_def u8_small_cases
      simp flip: not_le)

record MEClientResponse =
  rs_type :: ClientResponseType
  rs_client_id :: ClientId
  rs_ticker_id :: TickerId
  rs_client_order_id :: OrderId
  rs_market_order_id :: OrderId
  rs_side :: Side
  rs_price :: Price
  rs_exec_qty :: Qty
  rs_leaves_qty :: Qty
  rs_reject_reason :: RejectReason
  rs_response_id :: u64
  rs_position :: int

text \<open>Aggregate initialisation: the members after the listed ones take their defaults.\<close>

definition mk_response :: "ClientResponseType \<Rightarrow> ClientId \<Rightarrow> TickerId \<Rightarrow> OrderId \<Rightarrow> OrderId \<Rightarrow> Side \<Rightarrow>
    Price \<Rightarrow> Qty \<Rightarrow> Qty \<Rightarrow> RejectReason \<Rightarrow> MEClientResponse" where
  "mk_response type client ticker coid moid side price exec leaves reason =
     \<lparr>rs_type = type, rs_client_id = client, rs_ticker_id = ticker, rs_client_order_id = coid,
      rs_market_order_id = moid, rs_side = side, rs_price = price, rs_exec_qty = exec,
      rs_leaves_qty = leaves, rs_reject_reason = reason, rs_response_id = 0, rs_position = 0\<rparr>"

lemma mk_response_sel [simp]:
  "rs_type (mk_response t c tk co mo s p e l r) = t"
  "rs_client_id (mk_response t c tk co mo s p e l r) = c"
  "rs_ticker_id (mk_response t c tk co mo s p e l r) = tk"
  "rs_client_order_id (mk_response t c tk co mo s p e l r) = co"
  "rs_market_order_id (mk_response t c tk co mo s p e l r) = mo"
  "rs_side (mk_response t c tk co mo s p e l r) = s"
  "rs_price (mk_response t c tk co mo s p e l r) = p"
  "rs_exec_qty (mk_response t c tk co mo s p e l r) = e"
  "rs_leaves_qty (mk_response t c tk co mo s p e l r) = l"
  "rs_reject_reason (mk_response t c tk co mo s p e l r) = r"
  by (simp_all add: mk_response_def)

definition MEClientResponse_toString :: "MEClientResponse \<Rightarrow> string" where
  "MEClientResponse_toString r = ''MEClientResponse ['' @
     ''type:'' @ clientResponseTypeToString (rs_type r) @
     '' client:'' @ clientIdToString (rs_client_id r) @
     '' ticker:'' @ tickerIdToString (rs_ticker_id r) @
     '' coid:'' @ orderIdToString (rs_client_order_id r) @
     '' moid:'' @ orderIdToString (rs_market_order_id r) @
     '' side:'' @ sideToString (rs_side r) @ '' exec_qty:'' @ qtyToString (rs_exec_qty r) @
     '' leaves_qty:'' @ qtyToString (rs_leaves_qty r) @
     '' reason:'' @ nat_to_string (unat (rej_to_byte (rs_reject_reason r))) @
     '' price:'' @ priceToString (rs_price r) @ '']''"

record OMClientResponse =
  oms_seq_num :: u64
  oms_response :: MEClientResponse
  oms_session_epoch :: u64

subsection \<open>Market updates\<close>

datatype MarketUpdateType = Mkt_INVALID | Mkt_CLEAR | Mkt_ADD | Mkt_MODIFY | Mkt_CANCEL | Mkt_TRADE
  | Mkt_SNAPSHOT_START | Mkt_SNAPSHOT_END | Mkt_RECOVERY_COMMIT | Mkt_OTHER u8

definition mkt_to_byte :: "MarketUpdateType \<Rightarrow> u8" where
  "mkt_to_byte t = (case t of Mkt_INVALID \<Rightarrow> 0 | Mkt_CLEAR \<Rightarrow> 1 | Mkt_ADD \<Rightarrow> 2 | Mkt_MODIFY \<Rightarrow> 3
     | Mkt_CANCEL \<Rightarrow> 4 | Mkt_TRADE \<Rightarrow> 5 | Mkt_SNAPSHOT_START \<Rightarrow> 6 | Mkt_SNAPSHOT_END \<Rightarrow> 7
     | Mkt_RECOVERY_COMMIT \<Rightarrow> 8 | Mkt_OTHER b \<Rightarrow> b)"

definition mkt_of_byte :: "u8 \<Rightarrow> MarketUpdateType" where
  "mkt_of_byte b = (if b = 0 then Mkt_INVALID else if b = 1 then Mkt_CLEAR
     else if b = 2 then Mkt_ADD else if b = 3 then Mkt_MODIFY else if b = 4 then Mkt_CANCEL
     else if b = 5 then Mkt_TRADE else if b = 6 then Mkt_SNAPSHOT_START
     else if b = 7 then Mkt_SNAPSHOT_END else if b = 8 then Mkt_RECOVERY_COMMIT else Mkt_OTHER b)"

definition mkt_ok :: "MarketUpdateType \<Rightarrow> bool" where
  "mkt_ok t = (case t of Mkt_OTHER b \<Rightarrow> 8 < b | _ \<Rightarrow> True)"

lemma mkt_byte_roundtrip [simp]: "mkt_of_byte (mkt_to_byte t) = t \<longleftrightarrow> mkt_ok t"
  by (cases t) (auto simp: mkt_of_byte_def mkt_to_byte_def mkt_ok_def u8_small_cases
      simp flip: not_le)

definition marketUpdateTypeToString :: "MarketUpdateType \<Rightarrow> string" where
  "marketUpdateTypeToString t = (case t of Mkt_CLEAR \<Rightarrow> ''CLEAR'' | Mkt_ADD \<Rightarrow> ''ADD''
     | Mkt_MODIFY \<Rightarrow> ''MODIFY'' | Mkt_CANCEL \<Rightarrow> ''CANCEL'' | Mkt_TRADE \<Rightarrow> ''TRADE''
     | Mkt_SNAPSHOT_START \<Rightarrow> ''SNAPSHOT_START'' | Mkt_SNAPSHOT_END \<Rightarrow> ''SNAPSHOT_END''
     | Mkt_INVALID \<Rightarrow> ''INVALID'' | Mkt_RECOVERY_COMMIT \<Rightarrow> ''RECOVERY_COMMIT''
     | Mkt_OTHER _ \<Rightarrow> ''UNKNOWN'')"

record MEMarketUpdate =
  mu_type :: MarketUpdateType
  mu_order_id :: OrderId
  mu_ticker_id :: TickerId
  mu_side :: Side
  mu_price :: Price
  mu_qty :: Qty
  mu_priority :: Priority

definition MEMarketUpdate_default :: MEMarketUpdate where
  "MEMarketUpdate_default = \<lparr>mu_type = Mkt_INVALID, mu_order_id = OrderId_INVALID,
     mu_ticker_id = TickerId_INVALID, mu_side = Side_INVALID, mu_price = Price_INVALID,
     mu_qty = Qty_INVALID, mu_priority = Priority_INVALID\<rparr>"

definition mk_update :: "MarketUpdateType \<Rightarrow> OrderId \<Rightarrow> TickerId \<Rightarrow> Side \<Rightarrow> Price \<Rightarrow> Qty \<Rightarrow>
    Priority \<Rightarrow> MEMarketUpdate" where
  "mk_update type oid ticker side price qty prio =
     \<lparr>mu_type = type, mu_order_id = oid, mu_ticker_id = ticker, mu_side = side, mu_price = price,
      mu_qty = qty, mu_priority = prio\<rparr>"

lemma mk_update_sel [simp]:
  "mu_type (mk_update t oid tk s p q pr) = t"
  "mu_order_id (mk_update t oid tk s p q pr) = oid"
  "mu_ticker_id (mk_update t oid tk s p q pr) = tk"
  "mu_side (mk_update t oid tk s p q pr) = s"
  "mu_price (mk_update t oid tk s p q pr) = p"
  "mu_qty (mk_update t oid tk s p q pr) = q"
  "mu_priority (mk_update t oid tk s p q pr) = pr"
  by (simp_all add: mk_update_def)

definition MEMarketUpdate_toString :: "MEMarketUpdate \<Rightarrow> string" where
  "MEMarketUpdate_toString u = ''MEMarketUpdate [ type:'' @ marketUpdateTypeToString (mu_type u) @
     '' ticker:'' @ tickerIdToString (mu_ticker_id u) @
     '' oid:'' @ orderIdToString (mu_order_id u) @ '' side:'' @ sideToString (mu_side u) @
     '' qty:'' @ qtyToString (mu_qty u) @ '' price:'' @ priceToString (mu_price u) @
     '' priority:'' @ priorityToString (mu_priority u) @ '']''"

record MDPMarketUpdate =
  md_seq_num :: u64
  md_update :: MEMarketUpdate
  md_snapshot_cycle :: u64
  md_watermark :: u64
  md_state_hash :: u64

end
