(* ===== verification/Mem_Pool.thy ===== *)
theory Mem_Pool
  imports Prelude
begin

text \<open>
  \<^verbatim>\<open>src/common/mem_pool.h\<close>: the fixed-capacity object pool. A pointer into a pool is the
  index of its block; a block holds its storage (\<open>None\<close> for raw bytes) and the \<open>used\<close>
  flag, and the free slots are a stack whose top is the vector's last element.

  The locale \<open>object_pool\<close> is the contract the order books rely on, stated over the heap
  view \<open>heap p :: nat \<rightharpoonup> 'a\<close> of the live objects; its client lemmas are proved once, and
  \<open>mp\<close> interprets it on the operations of the source.
\<close>

subsection \<open>The pool\<close>

record 'a Block =
  storage :: "'a option"
  used :: bool

record 'a MemPool =
  blocks :: "'a Block list"
  free :: "nat list"

definition UINT32_MAX :: nat where [limits]: "UINT32_MAX = 2 ^ 32 - 1"

text \<open>\<open>static_cast<Index>\<close> to \<open>uint32_t\<close>.\<close>

definition to_index :: "nat \<Rightarrow> nat" where
  "to_index n = n mod 2 ^ 32"

text \<open>\<open>None\<close> is the \<open>std::invalid_argument\<close> the constructor throws.\<close>

definition checkedCapacity_pool :: "nat \<Rightarrow> nat option" where
  "checkedCapacity_pool capacity =
     (if capacity = 0 \<or> capacity > UINT32_MAX then None else Some capacity)"

definition MemPool_new :: "nat \<Rightarrow> 'a MemPool option" where
  "MemPool_new capacity = do {
     n \<leftarrow> checkedCapacity_pool capacity;
     Some \<lparr>blocks = replicate n \<lparr>storage = None, used = False\<rparr>,
           free = map (\<lambda>i. to_index (capacity - i - 1)) [0..<capacity]\<rparr> }"

definition allocate :: "'a \<Rightarrow> 'a MemPool \<Rightarrow> nat option \<times> 'a MemPool" where
  "allocate x p =
     (if free p = [] then (None, p)
      else let index = last (free p) in
        (Some index,
         p\<lparr>free := butlast (free p),
           blocks := (blocks p)[index := \<lparr>storage = Some x, used = True\<rparr>]\<rparr>))"

datatype PoolError = ForeignPoolPointer | DoublePoolRelease

text \<open>The release of a slot, after the address has been turned into its index.\<close>

definition release :: "nat \<Rightarrow> 'a MemPool \<Rightarrow> PoolError + 'a MemPool" where
  "release index p =
     (if \<not> used (blocks p ! index) then Inl DoublePoolRelease
      else Inr (p\<lparr>blocks := (blocks p)[index := \<lparr>storage = None, used = False\<rparr>],
                  free := free p @ [to_index index]\<rparr>))"

text \<open>\<open>deallocate\<close> on an address: \<open>base\<close> is \<open>blocks_.data()\<close>, \<open>sz\<close> is \<open>sizeof(Block)\<close>.\<close>

definition deallocate_address :: "nat \<Rightarrow> nat \<Rightarrow> nat \<Rightarrow> 'a MemPool \<Rightarrow> PoolError + 'a MemPool" where
  "deallocate_address base sz address p =
     (if \<not> (address \<ge> base \<and> address < base + length (blocks p) * sz \<and> (address - base) mod sz = 0)
      then Inl ForeignPoolPointer
      else release ((address - base) div sz) p)"

text \<open>\<open>deallocate\<close> on a pointer that is given by its block index.\<close>

definition deallocate :: "nat \<Rightarrow> 'a MemPool \<Rightarrow> PoolError + 'a MemPool" where
  "deallocate i p = (if i < length (blocks p) then release i p else Inl ForeignPoolPointer)"

definition available :: "'a MemPool \<Rightarrow> nat" where
  "available p = length (free p)"

text \<open>Access through a pointer: only a live object may be read or written.\<close>

definition deref :: "'a MemPool \<Rightarrow> nat \<Rightarrow> 'a option" where
  "deref p i = (if i < length (blocks p) then storage (blocks p ! i) else None)"

definition modify :: "nat \<Rightarrow> ('a \<Rightarrow> 'a) \<Rightarrow> 'a MemPool \<Rightarrow> 'a MemPool option" where
  "modify i f p = do {
     x \<leftarrow> deref p i;
     Some (p\<lparr>blocks := (blocks p)[i := (blocks p ! i)\<lparr>storage := Some (f x)\<rparr>]\<rparr>) }"

definition dispose :: "nat \<Rightarrow> 'a MemPool \<Rightarrow> 'a MemPool option" where
  "dispose i p = (case deallocate i p of Inl _ \<Rightarrow> None | Inr q \<Rightarrow> Some q)"

definition capacity :: "'a MemPool \<Rightarrow> nat" where
  "capacity p = length (blocks p)"

subsection \<open>Well-formedness\<close>

definition pool_inv :: "'a MemPool \<Rightarrow> bool" where
  "pool_inv p \<longleftrightarrow> 0 < capacity p \<and> capacity p \<le> UINT32_MAX \<and> distinct (free p) \<and>
     set (free p) = {i. i < length (blocks p) \<and> \<not> used (blocks p ! i)} \<and>
     (\<forall>b \<in> set (blocks p). used b \<longleftrightarrow> storage b \<noteq> None)"

lemma to_index_small: "n \<le> UINT32_MAX \<Longrightarrow> to_index n = n"
  by (simp add: to_index_def limits)

lemma pool_inv_free_iff:
  "pool_inv p \<Longrightarrow> i < capacity p \<Longrightarrow> i \<in> set (free p) \<longleftrightarrow> deref p i = None"
  by (auto simp: pool_inv_def deref_def capacity_def all_set_conv_all_nth)

lemma pool_inv_dom: "pool_inv p \<Longrightarrow> dom (deref p) = {i. i < capacity p} - set (free p)"
  by (auto simp: pool_inv_def deref_def capacity_def all_set_conv_all_nth dom_def split: if_splits)

lemma MemPool_new_Some:
  assumes "MemPool_new n = Some p"
  shows "pool_inv p" "free p = rev [0..<n]" "capacity p = n" "deref p = Map.empty"
proof -
  from assms have n: "0 < n" "n \<le> UINT32_MAX"
    and p: "p = \<lparr>blocks = replicate n \<lparr>storage = None, used = False\<rparr>,
           free = map (\<lambda>i. to_index (n - i - 1)) [0..<n]\<rparr>"
    by (auto simp: MemPool_new_def checkedCapacity_pool_def split: if_splits)
  have "map (\<lambda>i. to_index (n - i - 1)) [0..<n] = map (\<lambda>i. n - i - 1) [0..<n]"
    using n(2) by (auto simp: to_index_small)
  also have "\<dots> = rev [0..<n]"
    by (rule nth_equalityI) (auto simp: rev_nth)
  finally show free: "free p = rev [0..<n]" using p by simp
  show cap: "capacity p = n" using p by (simp add: capacity_def)
  show "deref p = Map.empty" using p by (auto simp: deref_def fun_eq_iff)
  show "pool_inv p" using n p free by (auto simp: pool_inv_def capacity_def)
qed

lemma MemPool_new_ok: "0 < n \<Longrightarrow> n \<le> UINT32_MAX \<Longrightarrow> \<exists>p. MemPool_new n = Some p"
  by (simp add: MemPool_new_def checkedCapacity_pool_def)

lemma allocate_empty: "available p = 0 \<Longrightarrow> allocate x p = (None, p)"
  by (simp add: available_def allocate_def)

lemma deref_allocate:
  assumes "pool_inv p" "available p \<noteq> 0"
  shows "allocate x p = (Some i, q) \<Longrightarrow> deref p i = None \<and> deref q = (deref p)(i \<mapsto> x) \<and>
     pool_inv q \<and> capacity q = capacity p \<and> available q = available p - 1"
proof -
  let ?i = "last (free p)"
  from assms(2) have ne: "free p \<noteq> []" by (simp add: available_def)
  then have mem: "?i \<in> set (free p)" by simp
  with assms(1) have len: "?i < length (blocks p)" and unused: "\<not> used (blocks p ! ?i)"
    by (auto simp: pool_inv_def)
  have fr: "set (butlast (free p)) = set (free p) - {?i}" "distinct (butlast (free p))"
    using assms(1) ne by (auto simp: pool_inv_def set_butlast_distinct distinct_butlast)
  assume "allocate x p = (Some i, q)"
  with ne have i: "i = ?i" and q: "q = p\<lparr>free := butlast (free p),
      blocks := (blocks p)[?i := \<lparr>storage = Some x, used = True\<rparr>]\<rparr>"
    by (auto simp: allocate_def Let_def)
  have "deref p i = None"
    using assms(1) mem len i pool_inv_free_iff [OF assms(1)] by (simp add: capacity_def)
  moreover have "deref q = (deref p)(i \<mapsto> x)"
    using len by (auto simp: deref_def fun_eq_iff q i nth_list_update)
  moreover have "pool_inv q"
    using assms(1) len fr unfolding pool_inv_def q capacity_def
    by (auto simp: nth_list_update all_set_conv_all_nth)
  ultimately show ?thesis by (simp add: q capacity_def available_def)
qed

lemma allocate_available:
  assumes "available p \<noteq> 0"
  obtains i q where "allocate x p = (Some i, q)"
  using assms by (simp add: allocate_def available_def Let_def)

lemma deallocate_live:
  assumes "pool_inv p" "deref p i = Some x"
  shows "\<exists>q. deallocate i p = Inr q \<and> deref q = (deref p)(i := None) \<and> pool_inv q \<and>
     capacity q = capacity p \<and> available q = Suc (available p) \<and> free q = free p @ [i]"
proof -
  from assms(2) have len: "i < length (blocks p)" and st: "storage (blocks p ! i) = Some x"
    by (auto simp: deref_def split: if_splits)
  with assms(1) have us: "used (blocks p ! i)" by (auto simp: pool_inv_def)
  then have nf: "i \<notin> set (free p)" using assms(1) by (auto simp: pool_inv_def)
  have ix: "to_index i = i"
    using assms(1) len by (simp add: pool_inv_def capacity_def to_index_small)
  let ?q = "p\<lparr>blocks := (blocks p)[i := \<lparr>storage = None, used = False\<rparr>], free := free p @ [i]\<rparr>"
  have "deallocate i p = Inr ?q" using len us ix by (simp add: deallocate_def release_def)
  moreover have "deref ?q = (deref p)(i := None)"
    using len by (auto simp: deref_def fun_eq_iff nth_list_update)
  moreover have "pool_inv ?q"
    using assms(1) len nf unfolding pool_inv_def capacity_def
    by (auto simp: nth_list_update all_set_conv_all_nth split: if_splits)
  ultimately show ?thesis by (auto simp: capacity_def available_def)
qed

lemma deallocate_dead:
  assumes "pool_inv p" "deref p i = None"
  shows "\<exists>e. deallocate i p = Inl e"
  using assms by (auto simp: deallocate_def release_def deref_def pool_inv_def all_set_conv_all_nth)

lemma deref_modify:
  assumes "deref p i = Some x"
  shows "\<exists>q. modify i f p = Some q \<and> deref q = (deref p)(i \<mapsto> f x) \<and>
     (pool_inv p \<longrightarrow> pool_inv q) \<and> capacity q = capacity p \<and> available q = available p \<and>
     free q = free p"
proof -
  from assms have len: "i < length (blocks p)" and st: "storage (blocks p ! i) = Some x"
    by (auto simp: deref_def split: if_splits)
  let ?q = "p\<lparr>blocks := (blocks p)[i := (blocks p ! i)\<lparr>storage := Some (f x)\<rparr>]\<rparr>"
  have "modify i f p = Some ?q" using assms by (simp add: modify_def)
  moreover have "deref ?q = (deref p)(i \<mapsto> f x)"
    using len by (auto simp: deref_def fun_eq_iff nth_list_update)
  moreover have "pool_inv ?q" if "pool_inv p"
    using that len st unfolding pool_inv_def capacity_def
    by (auto simp: nth_list_update all_set_conv_all_nth split: if_splits)
  ultimately show ?thesis by (auto simp: capacity_def available_def)
qed

lemma modify_dead: "deref p i = None \<Longrightarrow> modify i f p = None"
  by (simp add: modify_def)

subsection \<open>The contract of a pool\<close>

locale object_pool =
  fixes alloc :: "'a \<Rightarrow> 'p \<Rightarrow> nat option \<times> 'p"
    and free_slot :: "nat \<Rightarrow> 'p \<Rightarrow> 'p option"
    and upd :: "nat \<Rightarrow> ('a \<Rightarrow> 'a) \<Rightarrow> 'p \<Rightarrow> 'p option"
    and heap :: "'p \<Rightarrow> nat \<Rightarrow> 'a option"
    and avail :: "'p \<Rightarrow> nat"
    and cap :: "'p \<Rightarrow> nat"
    and pinv :: "'p \<Rightarrow> bool"
  assumes alloc_ok: "pinv p \<Longrightarrow> avail p \<noteq> 0 \<Longrightarrow> \<exists>i q. alloc x p = (Some i, q) \<and> heap p i = None \<and>
      heap q = (heap p)(i \<mapsto> x) \<and> pinv q \<and> cap q = cap p \<and> avail q = avail p - 1"
    and alloc_full: "avail p = 0 \<Longrightarrow> alloc x p = (None, p)"
    and free_ok: "pinv p \<Longrightarrow> heap p i = Some x \<Longrightarrow> \<exists>q. free_slot i p = Some q \<and>
      heap q = (heap p)(i := None) \<and> pinv q \<and> cap q = cap p \<and> avail q = Suc (avail p)"
    and free_dead: "pinv p \<Longrightarrow> heap p i = None \<Longrightarrow> free_slot i p = None"
    and upd_ok: "heap p i = Some x \<Longrightarrow> \<exists>q. upd i f p = Some q \<and> heap q = (heap p)(i \<mapsto> f x) \<and>
      (pinv p \<longrightarrow> pinv q) \<and> cap q = cap p \<and> avail q = avail p"
    and upd_dead: "heap p i = None \<Longrightarrow> upd i f p = None"
    and accounting: "pinv p \<Longrightarrow> finite (dom (heap p)) \<and> card (dom (heap p)) + avail p = cap p"
begin

lemma avail_by_live: "pinv p \<Longrightarrow> avail p = cap p - card (dom (heap p))"
  using accounting [of p] by linarith

lemma alloc_then_free:
  assumes "pinv p" "alloc x p = (Some i, q)"
  obtains r where "free_slot i q = Some r" "heap r = heap p" "pinv r" "avail r = avail p"
proof -
  have av: "avail p \<noteq> 0" using assms(2) alloc_full [of p x] by auto
  with assms alloc_ok [of p x] have q: "heap p i = None" "heap q = (heap p)(i \<mapsto> x)" "pinv q"
    "avail q = avail p - 1" by auto
  then obtain r where r: "free_slot i q = Some r" "heap r = (heap q)(i := None)" "pinv r"
    "avail r = Suc (avail q)" using free_ok [of q i x] by auto
  have "heap r = heap p" using q(1,2) r(2) by (simp add: fun_eq_iff)
  then show ?thesis using that r q(4) av by simp
qed

lemma double_free_detected:
  assumes "pinv p" "free_slot i p = Some q"
  shows "free_slot i q = None"
proof -
  have "heap p i \<noteq> None" using assms free_dead [of p i] by auto
  with assms free_ok [of p i] have "pinv q" "heap q i = None" by auto
  then show ?thesis by (rule free_dead)
qed

end

lemma pool_accounting:
  assumes "pool_inv p"
  shows "finite (dom (deref p)) \<and> card (dom (deref p)) + available p = capacity p"
proof -
  have sub: "set (free p) \<subseteq> {i. i < capacity p}"
    using assms by (auto simp: pool_inv_def capacity_def)
  have "card (set (free p)) = available p"
    using assms by (metis pool_inv_def available_def distinct_card)
  moreover have "card (set (free p)) \<le> card {i. i < capacity p}"
    by (rule card_mono) (use sub in auto)
  ultimately show ?thesis
    using sub by (simp add: pool_inv_dom [OF assms] card_Diff_subset)
qed

interpretation mp: object_pool allocate dispose modify deref available capacity pool_inv
proof
  fix p :: "'a MemPool" and x :: 'a and i :: nat and f :: "'a \<Rightarrow> 'a"
  show "\<exists>i q. allocate x p = (Some i, q) \<and> deref p i = None \<and> deref q = (deref p)(i \<mapsto> x) \<and>
      pool_inv q \<and> capacity q = capacity p \<and> available q = available p - 1"
    if "pool_inv p" "available p \<noteq> 0"
    using that allocate_available [OF that(2), of x] deref_allocate [OF that] by metis
  show "allocate x p = (None, p)" if "available p = 0"
    using that by (rule allocate_empty)
  show "\<exists>q. dispose i p = Some q \<and> deref q = (deref p)(i := None) \<and> pool_inv q \<and>
      capacity q = capacity p \<and> available q = Suc (available p)"
    if "pool_inv p" "deref p i = Some x"
    using deallocate_live [OF that] by (auto simp: dispose_def)
  show "dispose i p = None" if "pool_inv p" "deref p i = None"
    using deallocate_dead [OF that] by (auto simp: dispose_def)
  show "\<exists>q. modify i f p = Some q \<and> deref q = (deref p)(i \<mapsto> f x) \<and>
      (pool_inv p \<longrightarrow> pool_inv q) \<and> capacity q = capacity p \<and> available q = available p"
    if "deref p i = Some x"
    using deref_modify [OF that, of f] by blast
  show "modify i f p = None" if "deref p i = None"
    using that by (rule modify_dead)
  show "finite (dom (deref p)) \<and> card (dom (deref p)) + available p = capacity p" if "pool_inv p"
    using that by (rule pool_accounting)
qed

subsection \<open>Any sequence of pool calls\<close>

text \<open>A client's calls: \<open>Alloc x\<close> constructs an object, \<open>Free i\<close> returns the slot \<open>i\<close>. A failed
  release stops the process, so it ends the run with \<open>None\<close>; an exhausted pool does not.\<close>

datatype 'a PoolCall = Alloc 'a | Free nat

fun pool_run :: "'a PoolCall list \<Rightarrow> 'a MemPool \<Rightarrow> 'a MemPool option" where
  "pool_run [] p = Some p"
| "pool_run (Alloc x # cs) p = pool_run cs (snd (allocate x p))"
| "pool_run (Free i # cs) p = Option.bind (dispose i p) (pool_run cs)"

lemma allocate_inv: "pool_inv p \<Longrightarrow> pool_inv (snd (allocate x p)) \<and>
    capacity (snd (allocate x p)) = capacity p"
  using mp.alloc_ok [of p x] mp.alloc_full [of p x] by fastforce

lemma dispose_inv: "pool_inv p \<Longrightarrow> dispose i p = Some q \<Longrightarrow> pool_inv q \<and> capacity q = capacity p"
  using mp.free_ok [of p i] mp.free_dead [of p i] by (cases "deref p i") auto

lemma pool_run_inv: "pool_run cs p = Some q \<Longrightarrow> pool_inv p \<Longrightarrow> pool_inv q \<and> capacity q = capacity p"
proof (induction cs p rule: pool_run.induct)
  case (2 x cs p)
  then show ?case using allocate_inv [of p x] by auto
next
  case (3 i cs p)
  then show ?case using dispose_inv [of p i] by (auto simp: bind_Some_conv)
qed simp

text \<open>A slot that was just released is the next one handed out (the free stack is LIFO), and
  construction writes the new object there and nowhere else.\<close>

lemma reuse_after_release:
  assumes "pool_inv p" "deref p i = Some x"
  shows "\<exists>q r. deallocate i p = Inr q \<and> allocate y q = (Some i, r) \<and>
     deref r = (deref p)(i \<mapsto> y) \<and> available r = available p"
proof -
  from deallocate_live [OF assms] obtain q where q: "deallocate i p = Inr q"
    "deref q = (deref p)(i := None)" "pool_inv q" "available q = Suc (available p)"
    "free q = free p @ [i]" by auto
  from q(5) obtain r where r: "allocate y q = (Some i, r)"
    by (simp add: allocate_def Let_def)
  with q deref_allocate [OF q(3) _ r] show ?thesis by auto
qed

lemma reuse_after_release_witness:
  "\<exists>q r. deallocate 0 (snd (allocate (7 :: nat) \<lparr>blocks = [\<lparr>storage = None, used = False\<rparr>],
       free = [0]\<rparr>)) = Inr q \<and> allocate 9 q = (Some 0, r) \<and> deref r = [0 \<mapsto> 9] \<and> available r = 0"
proof -
  let ?p = "snd (allocate (7 :: nat) \<lparr>blocks = [\<lparr>storage = None, used = False\<rparr>], free = [0]\<rparr>)"
  have "pool_inv ?p"
    by (auto simp: pool_inv_def capacity_def allocate_def limits nth_Cons split: nat.splits)
  moreover have "deref ?p = [0 \<mapsto> 7]" "available ?p = 0"
    by (auto simp: deref_def allocate_def available_def fun_eq_iff)
  ultimately show ?thesis using reuse_after_release [of ?p 0 7 9] by auto
qed

subsection \<open>Symbolic execution of pool calls\<close>

text \<open>Total forms of the three calls, for rewriting: on a live slot \<open>modify\<close> is \<open>poke\<close>, and on a
  well-formed pool \<open>dispose\<close> is \<open>drop_slot\<close> and \<open>allocate\<close> takes the slot \<open>top_slot\<close>.\<close>

definition poke :: "nat \<Rightarrow> ('a \<Rightarrow> 'a) \<Rightarrow> 'a MemPool \<Rightarrow> 'a MemPool" where
  "poke i f p = (case modify i f p of None \<Rightarrow> p | Some q \<Rightarrow> q)"

definition drop_slot :: "nat \<Rightarrow> 'a MemPool \<Rightarrow> 'a MemPool" where
  "drop_slot i p = (case dispose i p of None \<Rightarrow> p | Some q \<Rightarrow> q)"

definition top_slot :: "'a MemPool \<Rightarrow> nat" where
  "top_slot p = last (free p)"

definition put_slot :: "'a \<Rightarrow> 'a MemPool \<Rightarrow> 'a MemPool" where
  "put_slot x p = snd (allocate x p)"

lemma modify_poke: "modify i f p = (if deref p i = None then None else Some (poke i f p))"
  using mp.upd_dead [of p i f] mp.upd_ok [of p i _ f] by (auto simp: poke_def)

lemma deref_poke [pool_laws]: "deref (poke i f p) = (deref p)(i := map_option f (deref p i))"
  using mp.upd_dead [of p i f] mp.upd_ok [of p i _ f]
  by (cases "deref p i") (auto simp: poke_def fun_eq_iff)

lemma poke_frame [pool_laws]:
  "available (poke i f p) = available p" "capacity (poke i f p) = capacity p"
  "pool_inv p \<Longrightarrow> pool_inv (poke i f p)"
  using mp.upd_dead [of p i f] mp.upd_ok [of p i _ f]
  by (cases "deref p i"; auto simp: poke_def)+

lemma dispose_drop:
  "pool_inv p \<Longrightarrow> dispose i p = (if deref p i = None then None else Some (drop_slot i p))"
  using mp.free_dead [of p i] mp.free_ok [of p i] by (auto simp: drop_slot_def)

lemma drop_slot_laws [pool_laws]:
  assumes "pool_inv p"
  shows "deref (drop_slot i p) = (deref p)(i := None)" "pool_inv (drop_slot i p)"
    "capacity (drop_slot i p) = capacity p"
  using assms mp.free_dead [of p i] mp.free_ok [of p i]
  by (cases "deref p i"; auto simp: drop_slot_def fun_eq_iff)+

lemma allocate_put: "available p \<noteq> 0 \<Longrightarrow> allocate x p = (Some (top_slot p), put_slot x p)"
  by (auto simp: allocate_def put_slot_def top_slot_def available_def Let_def)

lemma put_slot_laws [pool_laws]:
  assumes "pool_inv p" "available p \<noteq> 0"
  shows "deref (put_slot x p) = (deref p)(top_slot p \<mapsto> x)" "pool_inv (put_slot x p)"
    "capacity (put_slot x p) = capacity p" "deref p (top_slot p) = None"
  using mp.alloc_ok [OF assms, of x] allocate_put [OF assms(2), of x] by auto

end
