(* ===== verification/Linked_Ring.thy ===== *)
theory Linked_Ring
  imports Prelude
begin

text \<open>
  Circular doubly linked lists, the structure both order books build twice: price levels from
  best to worst, and the FIFO of the orders of one level. \<open>ring N P xs\<close> says that following
  the successor map \<open>N\<close> visits the distinct nodes \<open>xs\<close> and returns to the first, and
  that the predecessor map \<open>P\<close> goes the other way. The two pointer manipulations of
  the sources, linking a node in front of another and unlinking one, become updates of the two
  maps; a ring may be read from any of its nodes (\<open>ring_rotate\<close>).
\<close>

abbreviation linked :: "(nat \<Rightarrow> nat option) \<Rightarrow> (nat \<Rightarrow> nat option) \<Rightarrow> nat \<Rightarrow> nat \<Rightarrow> bool" where
  "linked N P x y \<equiv> N x = Some y \<and> P y = Some x"

definition ring :: "(nat \<Rightarrow> nat option) \<Rightarrow> (nat \<Rightarrow> nat option) \<Rightarrow> nat list \<Rightarrow> bool" where
  "ring N P xs \<longleftrightarrow> xs \<noteq> [] \<and> distinct xs \<and> successively (linked N P) (xs @ [hd xs])"

lemma successively_linked_cong:
  "successively (linked N P) xs \<Longrightarrow> (\<And>x. x \<in> set (butlast xs) \<Longrightarrow> N' x = N x) \<Longrightarrow>
   (\<And>x. x \<in> set (tl xs) \<Longrightarrow> P' x = P x) \<Longrightarrow> successively (linked N' P') xs"
proof (induction xs rule: induct_list012)
  case (3 x y zs)
  have "successively (linked N' P') (y # zs)"
    by (rule "3.IH"(2)) (use "3.prems" in \<open>auto dest: in_set_butlastD\<close>)
  then show ?case using "3.prems" by auto
qed simp_all

lemma ring_append:
  assumes "xs \<noteq> []" "ys \<noteq> []"
  shows "ring N P (xs @ ys) \<longleftrightarrow> distinct (xs @ ys) \<and> successively (linked N P) xs \<and>
     successively (linked N P) ys \<and> linked N P (last xs) (hd ys) \<and> linked N P (last ys) (hd xs)"
  using assms unfolding ring_def by (auto simp: successively_append_iff hd_append)

lemma ring_rotate: "ring N P (xs @ ys) \<longleftrightarrow> ring N P (ys @ xs)"
proof (cases "xs = [] \<or> ys = []")
  case False
  then show ?thesis by (auto simp: ring_append)
qed auto

lemma ring_singleton [simp]: "ring N P [x] \<longleftrightarrow> N x = Some x \<and> P x = Some x"
  by (simp add: ring_def)

lemma ring_distinct: "ring N P xs \<Longrightarrow> distinct xs"
  by (simp add: ring_def)

lemma ring_not_Nil: "ring N P xs \<Longrightarrow> xs \<noteq> []"
  by (simp add: ring_def)

lemma ring_head:
  assumes "ring N P (x # xs)"
  shows "N x = Some (hd (xs @ [x]))" "P x = Some (last (x # xs))"
proof -
  show "N x = Some (hd (xs @ [x]))" using assms by (cases xs) (auto simp: ring_def)
  have "successively (linked N P) ((x # xs) @ [x])" using assms by (simp add: ring_def)
  then show "P x = Some (last (x # xs))" by (simp only: successively_append_iff) simp
qed

lemma ring_at:
  assumes "ring N P xs" "x \<in> set xs"
  obtains ys where "ring N P (x # ys)" "set (x # ys) = set xs"
proof -
  obtain as bs where xs: "xs = as @ x # bs" using assms(2) by (auto simp: in_set_conv_decomp)
  have "ring N P (x # bs @ as)" using assms(1) ring_rotate [of N P as "x # bs"] xs by simp
  with that [of "bs @ as"] xs show ?thesis by auto
qed

lemma ring_next_in: "ring N P xs \<Longrightarrow> x \<in> set xs \<Longrightarrow> \<exists>y \<in> set xs. N x = Some y"
proof -
  assume "ring N P xs" "x \<in> set xs"
  then obtain ys where ys: "ring N P (x # ys)" "set (x # ys) = set xs" by (rule ring_at)
  have "hd (ys @ [x]) \<in> set (x # ys)" by (cases ys) auto
  with ring_head(1) [OF ys(1)] ys(2) show ?thesis by blast
qed

lemma ring_prev_in: "ring N P xs \<Longrightarrow> x \<in> set xs \<Longrightarrow> \<exists>y \<in> set xs. P x = Some y"
proof -
  assume "ring N P xs" "x \<in> set xs"
  then obtain ys where ys: "ring N P (x # ys)" "set (x # ys) = set xs" by (rule ring_at)
  have "last (x # ys) \<in> set (x # ys)" by (rule last_in_set) simp
  with ring_head(2) [OF ys(1)] ys(2) show ?thesis by blast
qed

lemma ring_cong:
  assumes "ring N P xs" "\<And>x. x \<in> set xs \<Longrightarrow> N' x = N x" "\<And>x. x \<in> set xs \<Longrightarrow> P' x = P x"
  shows "ring N' P' xs"
  unfolding ring_def
proof (intro conjI)
  show "xs \<noteq> []" "distinct xs" using assms(1) by (auto simp: ring_def)
  show "successively (linked N' P') (xs @ [hd xs])"
  proof (rule successively_linked_cong)
    show "successively (linked N P) (xs @ [hd xs])" using assms(1) by (simp add: ring_def)
    fix x assume "x \<in> set (tl (xs @ [hd xs]))"
    then have "x \<in> set xs" using \<open>xs \<noteq> []\<close> by (cases xs) auto
    then show "P' x = P x" by (rule assms(3))
  qed (use assms in simp)
qed

text \<open>Linking a new node in front of the first one, that is, at the end of the ring.\<close>

lemma ring_link_last:
  assumes ring: "ring N P (y # ys)" and z: "z \<notin> set (y # ys)"
    and N': "N' z = Some y" "N' (last (y # ys)) = Some z"
    and P': "P' z = Some (last (y # ys))" "P' y = Some z"
    and frame: "\<And>x. x \<in> set (y # ys) \<Longrightarrow> x \<noteq> last (y # ys) \<Longrightarrow> N' x = N x"
      "\<And>x. x \<in> set (y # ys) \<Longrightarrow> x \<noteq> y \<Longrightarrow> P' x = P x"
  shows "ring N' P' (y # ys @ [z])"
proof -
  have dist: "distinct (y # ys)" using ring by (rule ring_distinct)
  have "successively (linked N' P') (y # ys)"
  proof (rule successively_linked_cong)
    show "successively (linked N P) (y # ys)"
      using ring unfolding ring_def by (simp only: successively_append_iff)
    show "N' x = N x" if "x \<in> set (butlast (y # ys))" for x
      using that distinct_last_butlast [OF dist] frame(1) [OF in_set_butlastD [OF that]] by auto
    show "P' x = P x" if "x \<in> set (tl (y # ys))" for x
      using that dist frame(2) by auto
  qed
  then have "ring N' P' ((y # ys) @ [z])"
    using dist z N' P' by (subst ring_append) auto
  then show ?thesis by simp
qed

lemma ring_link_before:
  assumes ring: "ring N P (xs @ y # ys)" and z: "z \<notin> set (xs @ y # ys)"
    and p: "P y = Some p"
    and N': "N' z = Some y" "N' p = Some z"
    and P': "P' z = Some p" "P' y = Some z"
    and frame: "\<And>x. x \<in> set (xs @ y # ys) \<Longrightarrow> x \<noteq> p \<Longrightarrow> N' x = N x"
      "\<And>x. x \<in> set (xs @ y # ys) \<Longrightarrow> x \<noteq> y \<Longrightarrow> P' x = P x"
  shows "ring N' P' (xs @ z # y # ys)"
proof -
  have r: "ring N P (y # ys @ xs)" using ring ring_rotate by (metis append_Cons)
  then have p_last: "p = last (y # ys @ xs)" using p ring_head(2) by fastforce
  have "ring N' P' (y # (ys @ xs) @ [z])"
    by (rule ring_link_last [OF r]) (use z N' P' frame p_last in auto)
  then have "ring N' P' ((y # ys) @ (xs @ [z]))" by simp
  then have "ring N' P' ((xs @ [z]) @ (y # ys))" by (subst ring_rotate)
  then show ?thesis by simp
qed

text \<open>Unlinking a node of a ring that has another one.\<close>

lemma ring_unlink:
  assumes ring: "ring N P (xs @ y # ys)" and ne: "xs @ ys \<noteq> []"
    and ab: "N y = Some a" "P y = Some b"
    and N': "N' b = Some a" and P': "P' a = Some b"
    and frame: "\<And>x. x \<in> set (xs @ ys) \<Longrightarrow> x \<noteq> b \<Longrightarrow> N' x = N x"
      "\<And>x. x \<in> set (xs @ ys) \<Longrightarrow> x \<noteq> a \<Longrightarrow> P' x = P x"
  shows "ring N' P' (xs @ ys)"
proof -
  let ?zs = "ys @ xs"
  have r: "ring N P (y # ?zs)" using ring ring_rotate by (metis append_Cons)
  have zs: "?zs \<noteq> []" using ne by auto
  have a: "a = hd ?zs" and b: "b = last ?zs"
    using ab ring_head [OF r] zs by (auto simp: hd_append)
  have dist: "distinct ?zs" using ring_distinct [OF r] by simp
  have "successively (linked N' P') ?zs"
  proof (rule successively_linked_cong)
    show "successively (linked N P) ?zs"
      using r zs unfolding ring_def by (auto simp: successively_Cons successively_append_iff)
    show "N' x = N x" if "x \<in> set (butlast ?zs)" for x
      using that zs b distinct_last_butlast [OF dist zs] in_set_butlastD [OF that]
      by (intro frame(1)) auto
    show "P' x = P x" if "x \<in> set (tl ?zs)" for x
    proof (rule frame(2))
      have "x \<in> set ?zs" using that by (rule list.set_sel(2) [OF zs])
      then show "x \<in> set (xs @ ys)" by auto
      show "x \<noteq> a" using that dist a zs by (cases ?zs) auto
    qed
  qed
  then have "successively (linked N' P') (?zs @ [hd ?zs])"
    using a b N' P' by (subst successively_append_iff) simp
  then have "ring N' P' ?zs" using dist zs by (simp only: ring_def simp_thms)
  then show ?thesis by (subst ring_rotate)
qed

end
