(* ===== verification/Price_Ladder.thy ===== *)
theory Price_Ladder
  imports Types Mem_Pool Linked_Ring
begin

text \<open>
  The pointer structure the order books are built on: two rings of price levels (bids from high
  to low, asks from low to high), in each level a ring of orders in arrival order, a map from
  \<open>(side, price)\<close> to the level, and two object pools that hold the nodes. The code is the same, line
  by line, in \<^verbatim>\<open>src/exchange/matcher/me_order_book.h\<close>, in
  \<^verbatim>\<open>unordered_map_me_order_book.h\<close> and in
  \<^verbatim>\<open>src/trading/strategy/market_order_book.h\<close>: the three books extend the record
  \<open>Ladder\<close>, their order types extend \<open>OrderNode\<close>, and the operations here are polymorphic in both.

  Every access through a pointer goes through \<open>deref\<close> or \<open>modify\<close>, so a null pointer, a dangling
  pointer, a release of a dead slot and a walk that does not end all make the operation return
  \<open>None\<close>.
\<close>

subsection \<open>Data\<close>

text \<open>The fields the ladder reads and writes in \<open>MEOrder\<close> and \<open>MarketOrder\<close>.\<close>

record OrderNode =
  mo_side :: Side
  mo_price :: Price
  prev_order :: "nat option"
  next_order :: "nat option"

record OrdersAtPrice =
  lv_side :: Side
  lv_price :: Price
  first_order :: "nat option"
  prev_entry :: "nat option"
  next_entry :: "nat option"

record 'o Ladder =
  orders_at_price_pool :: "OrdersAtPrice MemPool"
  bids_by_price :: "nat option"
  asks_by_price :: "nat option"
  price_orders_at_price :: "PriceKey \<Rightarrow> nat option"
  order_pool :: "'o MemPool"

subsection \<open>Pointer access\<close>

definition upd_order :: "nat \<Rightarrow> ('o \<Rightarrow> 'o) \<Rightarrow> ('o, 'z) Ladder_scheme \<Rightarrow> ('o, 'z) Ladder_scheme option"
  where "upd_order p f b = map_option (\<lambda>q. b\<lparr>order_pool := q\<rparr>) (modify p f (order_pool b))"

definition upd_level :: "nat \<Rightarrow> (OrdersAtPrice \<Rightarrow> OrdersAtPrice) \<Rightarrow> ('o, 'z) Ladder_scheme \<Rightarrow>
    ('o, 'z) Ladder_scheme option" where
  "upd_level p f b =
     map_option (\<lambda>q. b\<lparr>orders_at_price_pool := q\<rparr>) (modify p f (orders_at_price_pool b))"

text \<open>\<open>side == Side::BUY ? bids_by_price_ : asks_by_price_\<close>, read and written.\<close>

definition best_of :: "('o, 'z) Ladder_scheme \<Rightarrow> Side \<Rightarrow> nat option" where
  "best_of b side = (if side = BUY then bids_by_price b else asks_by_price b)"

definition set_best :: "Side \<Rightarrow> nat option \<Rightarrow> ('o, 'z) Ladder_scheme \<Rightarrow> ('o, 'z) Ladder_scheme" where
  "set_best side p b = (if side = BUY then b\<lparr>bids_by_price := p\<rparr> else b\<lparr>asks_by_price := p\<rparr>)"

subsection \<open>Price levels\<close>

definition getOrdersAtPrice :: "Price \<Rightarrow> Side \<Rightarrow> ('o, 'z) Ladder_scheme \<Rightarrow> nat option" where
  "getOrdersAtPrice price side b = price_orders_at_price b (side, price)"

definition better :: "Side \<Rightarrow> Price \<Rightarrow> Price \<Rightarrow> bool" where
  "better side left right = (if side = BUY then left > right else left < right)"

text \<open>The \<open>do ... while\<close> walk of \<open>addOrdersAtPrice\<close> along the price ring.\<close>

partial_function (option) find_target ::
    "Side \<Rightarrow> Price \<Rightarrow> nat \<Rightarrow> nat \<Rightarrow> OrdersAtPrice MemPool \<Rightarrow> nat option" where
  "find_target side price best target pool = do {
     tv \<leftarrow> deref pool target;
     t \<leftarrow> next_entry tv;
     if t = best then Some t
     else do {
       nv \<leftarrow> deref pool t;
       if better side (lv_price nv) price then find_target side price best t pool else Some t } }"

text \<open>The level in front of which the new one is linked. The predecessor of the best level is the
  worst one, so a new best and a new worst level need no walk.\<close>

definition choose_target :: "Side \<Rightarrow> Price \<Rightarrow> nat \<Rightarrow> OrdersAtPrice MemPool \<Rightarrow> nat option" where
  "choose_target side price best pool = do {
     bv \<leftarrow> deref pool best;
     if better side price (lv_price bv) then Some best
     else do {
       tail \<leftarrow> prev_entry bv;
       tailv \<leftarrow> deref pool tail;
       if better side price (lv_price tailv) then find_target side price best best pool
       else Some best } }"

definition addOrdersAtPrice :: "nat \<Rightarrow> ('o, 'z) Ladder_scheme \<Rightarrow> ('o, 'z) Ladder_scheme option" where
  "addOrdersAtPrice level b = do {
     lv \<leftarrow> deref (orders_at_price_pool b) level;
     let side = lv_side lv;
     let b = b\<lparr>price_orders_at_price :=
                 (price_orders_at_price b)((side, lv_price lv) \<mapsto> level)\<rparr>;
     case best_of b side of
       None \<Rightarrow> upd_level level (\<lambda>v. v\<lparr>prev_entry := Some level, next_entry := Some level\<rparr>)
                 (set_best side (Some level) b)
     | Some best \<Rightarrow> do {
         bv \<leftarrow> deref (orders_at_price_pool b) best;
         let new_best = better side (lv_price lv) (lv_price bv);
         target \<leftarrow> choose_target side (lv_price lv) best (orders_at_price_pool b);
         targetv \<leftarrow> deref (orders_at_price_pool b) target;
         before \<leftarrow> prev_entry targetv;
         b \<leftarrow> upd_level level
               (\<lambda>v. v\<lparr>prev_entry := Some before, next_entry := Some target\<rparr>) b;
         b \<leftarrow> upd_level before (\<lambda>v. v\<lparr>next_entry := Some level\<rparr>) b;
         b \<leftarrow> upd_level target (\<lambda>v. v\<lparr>prev_entry := Some level\<rparr>) b;
         Some (if new_best then set_best side (Some level) b else b) } }"

definition removeOrdersAtPrice :: "Side \<Rightarrow> Price \<Rightarrow> ('o, 'z) Ladder_scheme \<Rightarrow>
    ('o, 'z) Ladder_scheme option" where
  "removeOrdersAtPrice side price b = do {
     let best_orders_by_price = best_of b side;
     level \<leftarrow> getOrdersAtPrice price side b;
     lv \<leftarrow> deref (orders_at_price_pool b) level;
     b \<leftarrow> (if next_entry lv = Some level then Some (set_best side None b)
          else do {
            before \<leftarrow> prev_entry lv;
            after \<leftarrow> next_entry lv;
            b \<leftarrow> upd_level before (\<lambda>v. v\<lparr>next_entry := Some after\<rparr>) b;
            b \<leftarrow> upd_level after (\<lambda>v. v\<lparr>prev_entry := Some before\<rparr>) b;
            let b = (if best_orders_by_price = Some level then set_best side (Some after) b else b);
            upd_level level (\<lambda>v. v\<lparr>prev_entry := None, next_entry := None\<rparr>) b });
     let b = b\<lparr>price_orders_at_price := (price_orders_at_price b)((side, price) := None)\<rparr>;
     q \<leftarrow> dispose level (orders_at_price_pool b);
     Some (b\<lparr>orders_at_price_pool := q\<rparr>) }"

subsection \<open>Orders\<close>

text \<open>The part of \<open>removeOrder\<close> before the order leaves the index and the pool, and the part of
  \<open>addOrder\<close> before it enters the index.\<close>

definition unlinkOrder :: "nat \<Rightarrow> ('e OrderNode_scheme, 'z) Ladder_scheme \<Rightarrow>
    ('e OrderNode_scheme, 'z) Ladder_scheme option" where
  "unlinkOrder order b = do {
     ord \<leftarrow> deref (order_pool b) order;
     let orders_at_price = getOrdersAtPrice (mo_price ord) (mo_side ord) b;
     if prev_order ord = Some order
     then removeOrdersAtPrice (mo_side ord) (mo_price ord) b
     else do {
       order_before \<leftarrow> prev_order ord;
       order_after \<leftarrow> next_order ord;
       b \<leftarrow> upd_order order_before (\<lambda>v. v\<lparr>next_order := Some order_after\<rparr>) b;
       b \<leftarrow> upd_order order_after (\<lambda>v. v\<lparr>prev_order := Some order_before\<rparr>) b;
       level \<leftarrow> orders_at_price;
       lv \<leftarrow> deref (orders_at_price_pool b) level;
       b \<leftarrow> (if first_order lv = Some order
            then upd_level level (\<lambda>v. v\<lparr>first_order := Some order_after\<rparr>) b
            else Some b);
       upd_order order (\<lambda>v. v\<lparr>prev_order := None, next_order := None\<rparr>) b } }"

definition linkOrder :: "nat \<Rightarrow> ('e OrderNode_scheme, 'z) Ladder_scheme \<Rightarrow>
    ('e OrderNode_scheme, 'z) Ladder_scheme option" where
  "linkOrder order b = do {
     ord \<leftarrow> deref (order_pool b) order;
     (case getOrdersAtPrice (mo_price ord) (mo_side ord) b of
        None \<Rightarrow> do {
          b \<leftarrow> upd_order order (\<lambda>v. v\<lparr>next_order := Some order, prev_order := Some order\<rparr>) b;
          (case allocate \<lparr>lv_side = mo_side ord, lv_price = mo_price ord,
                          first_order = Some order, prev_entry = None, next_entry = None\<rparr>
                  (orders_at_price_pool b) of
             (None, _) \<Rightarrow> None
           | (Some level, q) \<Rightarrow> addOrdersAtPrice level (b\<lparr>orders_at_price_pool := q\<rparr>)) }
      | Some level \<Rightarrow> do {
          lv \<leftarrow> deref (orders_at_price_pool b) level;
          first \<leftarrow> first_order lv;
          firstv \<leftarrow> deref (order_pool b) first;
          tail \<leftarrow> prev_order firstv;
          b \<leftarrow> upd_order tail (\<lambda>v. v\<lparr>next_order := Some order\<rparr>) b;
          b \<leftarrow> upd_order order (\<lambda>v. v\<lparr>prev_order := Some tail\<rparr>) b;
          b \<leftarrow> upd_order order (\<lambda>v. v\<lparr>next_order := Some first\<rparr>) b;
          upd_order first (\<lambda>v. v\<lparr>prev_order := Some order\<rparr>) b }) }"

end
