(* ===== verification/ME_Order_Book.thy ===== *)
theory ME_Order_Book
  imports Messages Price_Ladder
begin

text \<open>
  The exchange's order book at pointer level: \<^verbatim>\<open>src/exchange/matcher/me_order.h\<close>,
  \<^verbatim>\<open>me_order_book.h\<close> and \<^verbatim>\<open>me_order_book.cpp\<close>, over the ladder of
  \<open>Price_Ladder\<close>. An index past an array (\<open>at\<close>) and a matching loop that does not end return
  \<open>None\<close>, as an invalid pointer does there. The calls of \<open>response_sink_\<close> and
  \<open>market_sink_\<close> are recorded, in order, in the field \<open>sink\<close>.
\<close>

subsection \<open>Data\<close>

text \<open>\<open>side_\<close>, \<open>price_\<close>, \<open>prev_order_\<close> and \<open>next_order_\<close> are the fields of \<open>OrderNode\<close>; the
  level type \<open>MEOrdersAtPrice\<close> is \<open>OrdersAtPrice\<close>.\<close>

record MEOrder = OrderNode +
  mo_ticker_id :: TickerId
  mo_client_id :: ClientId
  mo_client_order_id :: OrderId
  mo_market_order_id :: OrderId
  mo_qty :: Qty
  mo_priority :: Priority

definition MEOrder_make :: "TickerId \<Rightarrow> ClientId \<Rightarrow> OrderId \<Rightarrow> OrderId \<Rightarrow> Side \<Rightarrow> Price \<Rightarrow> Qty \<Rightarrow>
    Priority \<Rightarrow> nat option \<Rightarrow> nat option \<Rightarrow> MEOrder" where
  "MEOrder_make ticker_id client_id client_order_id market_order_id side price qty priority prev nxt =
     \<lparr>mo_side = side, mo_price = price, prev_order = prev, next_order = nxt,
      mo_ticker_id = ticker_id, mo_client_id = client_id, mo_client_order_id = client_order_id,
      mo_market_order_id = market_order_id, mo_qty = qty, mo_priority = priority\<rparr>"

lemma MEOrder_make_sel [simp]:
  "mo_side (MEOrder_make t c i m s p q r pv nx) = s"
  "mo_price (MEOrder_make t c i m s p q r pv nx) = p"
  "prev_order (MEOrder_make t c i m s p q r pv nx) = pv"
  "next_order (MEOrder_make t c i m s p q r pv nx) = nx"
  "mo_ticker_id (MEOrder_make t c i m s p q r pv nx) = t"
  "mo_client_id (MEOrder_make t c i m s p q r pv nx) = c"
  "mo_client_order_id (MEOrder_make t c i m s p q r pv nx) = i"
  "mo_market_order_id (MEOrder_make t c i m s p q r pv nx) = m"
  "mo_qty (MEOrder_make t c i m s p q r pv nx) = q"
  "mo_priority (MEOrder_make t c i m s p q r pv nx) = r"
  by (simp_all add: MEOrder_make_def)

datatype SinkMsg = SinkResponse MEClientResponse | SinkMarket MEMarketUpdate

record MEOrderBook = "MEOrder Ladder" +
  ob_ticker_id :: TickerId
  cid_oid_to_order :: "ClientId \<Rightarrow> OrderId \<Rightarrow> nat option"
  last_order_response :: "ClientId \<Rightarrow> OrderId \<Rightarrow> MEClientResponse option"
  next_market_order_id :: OrderId
  used_client_order_ids :: "ClientId \<Rightarrow> OrderId set"
  sink :: "SinkMsg list"

text \<open>The constructor; the capacities are \<open>ME_MAX_PRICE_LEVELS\<close> and \<open>ME_MAX_ORDER_IDS\<close> in
  \<open>MEOrderBook_new\<close>.\<close>

definition MEOrderBook_make :: "nat \<Rightarrow> nat \<Rightarrow> TickerId \<Rightarrow> MEOrderBook option" where
  "MEOrderBook_make levels orders ticker_id = do {
     lp \<leftarrow> MemPool_new levels;
     op \<leftarrow> MemPool_new orders;
     Some \<lparr>orders_at_price_pool = lp, bids_by_price = None, asks_by_price = None,
       price_orders_at_price = (\<lambda>_. None), order_pool = op, ob_ticker_id = ticker_id,
       cid_oid_to_order = (\<lambda>_ _. None), last_order_response = (\<lambda>_ _. None),
       next_market_order_id = 1, used_client_order_ids = (\<lambda>_. {}), sink = []\<rparr> }"

definition MEOrderBook_new :: "TickerId \<Rightarrow> MEOrderBook option" where
  "MEOrderBook_new ticker_id = MEOrderBook_make ME_MAX_PRICE_LEVELS ME_MAX_ORDER_IDS ticker_id"

subsection \<open>Orders\<close>

definition generateNewMarketOrderId :: "MEOrderBook \<Rightarrow> OrderId \<times> MEOrderBook" where
  "generateNewMarketOrderId b =
     (next_market_order_id b, b\<lparr>next_market_order_id := next_market_order_id b + 1\<rparr>)"

definition getNextPriority :: "Price \<Rightarrow> Side \<Rightarrow> MEOrderBook \<Rightarrow> Priority option" where
  "getNextPriority price side b =
     (case getOrdersAtPrice price side b of
        None \<Rightarrow> Some 1
      | Some level \<Rightarrow> do {
          lv \<leftarrow> deref (orders_at_price_pool b) level;
          first \<leftarrow> first_order lv;
          firstv \<leftarrow> deref (order_pool b) first;
          last \<leftarrow> prev_order firstv;
          lastv \<leftarrow> deref (order_pool b) last;
          Some (mo_priority lastv + 1) })"

definition removeOrder :: "nat \<Rightarrow> MEOrderBook \<Rightarrow> MEOrderBook option" where
  "removeOrder order b = do {
     ord \<leftarrow> deref (order_pool b) order;
     b \<leftarrow> unlinkOrder order b;
     if unat (mo_client_id ord) < ME_MAX_NUM_CLIENTS then do {
       let b = b\<lparr>cid_oid_to_order := (cid_oid_to_order b)(mo_client_id ord :=
                   (cid_oid_to_order b (mo_client_id ord))(mo_client_order_id ord := None))\<rparr>;
       q \<leftarrow> dispose order (order_pool b);
       Some (b\<lparr>order_pool := q\<rparr>) }
     else None }"

definition addOrder :: "nat \<Rightarrow> MEOrderBook \<Rightarrow> MEOrderBook option" where
  "addOrder order b = do {
     ord \<leftarrow> deref (order_pool b) order;
     b \<leftarrow> linkOrder order b;
     if unat (mo_client_id ord) < ME_MAX_NUM_CLIENTS then
       Some (b\<lparr>cid_oid_to_order := (cid_oid_to_order b)(mo_client_id ord :=
                   (cid_oid_to_order b (mo_client_id ord))(mo_client_order_id ord \<mapsto> order))\<rparr>)
     else None }"

subsection \<open>Output\<close>

definition emitResponse :: "MEClientResponse \<Rightarrow> MEOrderBook \<Rightarrow> MEOrderBook" where
  "emitResponse response b =
     (let b = (if unat (rs_client_id response) < ME_MAX_NUM_CLIENTS \<and>
                  rs_type response \<noteq> Resp_REJECTED \<and> rs_type response \<noteq> Resp_CANCEL_REJECTED \<and>
                  rs_type response \<noteq> Resp_STATE
               then b\<lparr>last_order_response := (last_order_response b)(rs_client_id response :=
                        (last_order_response b (rs_client_id response))
                          (rs_client_order_id response \<mapsto> response))\<rparr>
               else b)
      in b\<lparr>sink := sink b @ [SinkResponse response]\<rparr>)"

definition emitMarket :: "MEMarketUpdate \<Rightarrow> MEOrderBook \<Rightarrow> MEOrderBook" where
  "emitMarket update b = b\<lparr>sink := sink b @ [SinkMarket update]\<rparr>"

subsection \<open>Matching\<close>

text \<open>\<open>match\<close> returns the value it leaves in \<open>*leaves_qty\<close>.\<close>

definition match :: "TickerId \<Rightarrow> ClientId \<Rightarrow> Side \<Rightarrow> OrderId \<Rightarrow> OrderId \<Rightarrow> nat \<Rightarrow> Qty \<Rightarrow>
    MEOrderBook \<Rightarrow> (Qty \<times> MEOrderBook) option" where
  "match ticker_id client_id side client_order_id new_market_order_id itr leaves_qty b = do {
     ord \<leftarrow> deref (order_pool b) itr;
     let order_qty = mo_qty ord;
     let fill_qty = min leaves_qty order_qty;
     let leaves_qty = leaves_qty - fill_qty;
     b \<leftarrow> upd_order itr (\<lambda>v. v\<lparr>mo_qty := mo_qty v - fill_qty\<rparr>) b;
     order \<leftarrow> deref (order_pool b) itr;
     let b = emitResponse (mk_response Resp_FILLED client_id ticker_id client_order_id
               new_market_order_id side (mo_price order) fill_qty leaves_qty Rej_NONE) b;
     let b = emitResponse (mk_response Resp_FILLED (mo_client_id order) ticker_id
               (mo_client_order_id order) (mo_market_order_id order) (mo_side order)
               (mo_price order) fill_qty (mo_qty order) Rej_NONE) b;
     let b = emitMarket (mk_update Mkt_TRADE OrderId_INVALID ticker_id side (mo_price order)
               fill_qty Priority_INVALID) b;
     if mo_qty order = 0 then do {
       let b = emitMarket (mk_update Mkt_CANCEL (mo_market_order_id order) ticker_id
                 (mo_side order) (mo_price order) order_qty Priority_INVALID) b;
       b \<leftarrow> removeOrder itr b;
       Some (leaves_qty, b) }
     else
       Some (leaves_qty, emitMarket (mk_update Mkt_MODIFY (mo_market_order_id order) ticker_id
               (mo_side order) (mo_price order) (mo_qty order) (mo_priority order)) b) }"

text \<open>The two \<open>while\<close> loops of \<open>checkForMatch\<close> differ in the opposite best level and in the
  comparison of the limit price with the resting price.\<close>

definition opposite_best :: "Side \<Rightarrow> MEOrderBook \<Rightarrow> nat option" where
  "opposite_best side b = (if side = BUY then asks_by_price b else bids_by_price b)"

definition no_cross :: "Side \<Rightarrow> Price \<Rightarrow> Price \<Rightarrow> bool" where
  "no_cross side price resting = (if side = BUY then price < resting else price > resting)"

partial_function (option) match_loop :: "ClientId \<Rightarrow> OrderId \<Rightarrow> TickerId \<Rightarrow> Side \<Rightarrow> Price \<Rightarrow> OrderId \<Rightarrow>
    Qty \<Rightarrow> MEOrderBook \<Rightarrow> (Qty \<times> MEOrderBook) option" where
  "match_loop client_id client_order_id ticker_id side price new_market_order_id leaves_qty b =
     (if leaves_qty \<noteq> 0 then
        (case opposite_best side b of
           None \<Rightarrow> Some (leaves_qty, b)
         | Some level \<Rightarrow> do {
             lv \<leftarrow> deref (orders_at_price_pool b) level;
             itr \<leftarrow> first_order lv;
             ord \<leftarrow> deref (order_pool b) itr;
             if no_cross side price (mo_price ord) then Some (leaves_qty, b)
             else do {
               res \<leftarrow> match ticker_id client_id side client_order_id new_market_order_id itr
                        leaves_qty b;
               match_loop client_id client_order_id ticker_id side price new_market_order_id
                 (fst res) (snd res) } })
      else Some (leaves_qty, b))"

definition checkForMatch :: "ClientId \<Rightarrow> OrderId \<Rightarrow> TickerId \<Rightarrow> Side \<Rightarrow> Price \<Rightarrow> Qty \<Rightarrow> OrderId \<Rightarrow>
    MEOrderBook \<Rightarrow> (Qty \<times> MEOrderBook) option" where
  "checkForMatch client_id client_order_id ticker_id side price qty new_market_order_id b =
     (if side = BUY \<or> side = SELL
      then match_loop client_id client_order_id ticker_id side price new_market_order_id qty b
      else Some (qty, b))"

subsection \<open>The three requests\<close>

definition add_reject_reason :: "ClientId \<Rightarrow> OrderId \<Rightarrow> TickerId \<Rightarrow> Side \<Rightarrow> Price \<Rightarrow> Qty \<Rightarrow>
    MEOrderBook \<Rightarrow> RejectReason" where
  "add_reject_reason client_id client_order_id ticker_id side price qty b =
     (if unat client_id \<ge> ME_MAX_NUM_CLIENTS \<or> ticker_id \<noteq> ob_ticker_id b \<or> client_order_id = 0 \<or>
         unat client_order_id \<ge> ME_MAX_ORDER_IDS then Rej_INVALID_ID
      else if side \<noteq> BUY \<and> side \<noteq> SELL then Rej_INVALID_SIDE
      else if price \<le> 0 \<or> price = Price_INVALID then Rej_INVALID_PRICE
      else if qty = 0 \<or> qty = Qty_INVALID \<or> unat qty > INT32_MAX then Rej_INVALID_QTY
      else if client_order_id \<in> used_client_order_ids b client_id then Rej_DUPLICATE_ID
      else if available (order_pool b) = 0 \<or> unat (next_market_order_id b) \<ge> ME_MAX_ORDER_IDS \<or>
         (getOrdersAtPrice price side b = None \<and> available (orders_at_price_pool b) = 0)
        then Rej_CAPACITY
      else Rej_NONE)"

definition add :: "ClientId \<Rightarrow> OrderId \<Rightarrow> TickerId \<Rightarrow> Side \<Rightarrow> Price \<Rightarrow> Qty \<Rightarrow> MEOrderBook \<Rightarrow>
    MEOrderBook option" where
  "add client_id client_order_id ticker_id side price qty b =
     (let reason = add_reject_reason client_id client_order_id ticker_id side price qty b in
      if reason \<noteq> Rej_NONE then
        Some (emitResponse (mk_response Resp_REJECTED client_id ticker_id client_order_id
                OrderId_INVALID side price 0 0 reason) b)
      else do {
        let b = b\<lparr>used_client_order_ids := (used_client_order_ids b)(client_id :=
                    insert client_order_id (used_client_order_ids b client_id))\<rparr>;
        let (new_market_order_id, b) = generateNewMarketOrderId b;
        let b = emitResponse (mk_response Resp_ACCEPTED client_id ticker_id client_order_id
                  new_market_order_id side price 0 qty Rej_NONE) b;
        (leaves_qty, b) \<leftarrow> checkForMatch client_id client_order_id ticker_id side price qty
                            new_market_order_id b;
        if leaves_qty \<noteq> 0 then do {
          priority \<leftarrow> getNextPriority price side b;
          (case allocate (MEOrder_make ticker_id client_id client_order_id new_market_order_id side
                 price leaves_qty priority None None) (order_pool b) of
             (None, _) \<Rightarrow> None
           | (Some order, q) \<Rightarrow> do {
               b \<leftarrow> addOrder order (b\<lparr>order_pool := q\<rparr>);
               Some (emitMarket (mk_update Mkt_ADD new_market_order_id ticker_id side price
                       leaves_qty priority) b) }) }
        else Some b })"

definition cancel :: "ClientId \<Rightarrow> OrderId \<Rightarrow> TickerId \<Rightarrow> MEOrderBook \<Rightarrow> MEOrderBook option" where
  "cancel client_id order_id ticker_id b =
     (let exchange_order = (if unat client_id < ME_MAX_NUM_CLIENTS \<and> ticker_id = ob_ticker_id b
                            then cid_oid_to_order b client_id order_id else None)
      in case exchange_order of
           None \<Rightarrow> Some (emitResponse (mk_response Resp_CANCEL_REJECTED client_id ticker_id order_id
                     OrderId_INVALID Side_INVALID Price_INVALID 0 0 Rej_INVALID_ID) b)
         | Some order \<Rightarrow> do {
             ord \<leftarrow> deref (order_pool b) order;
             let client_response = mk_response Resp_CANCELED client_id ticker_id order_id
                   (mo_market_order_id ord) (mo_side ord) (mo_price ord) Qty_INVALID (mo_qty ord)
                   Rej_NONE;
             let market_update = mk_update Mkt_CANCEL (mo_market_order_id ord) ticker_id
                   (mo_side ord) (mo_price ord) 0 (mo_priority ord);
             b \<leftarrow> removeOrder order b;
             Some (emitResponse client_response (emitMarket market_update b)) })"

definition query :: "ClientId \<Rightarrow> OrderId \<Rightarrow> MEOrderBook \<Rightarrow> MEOrderBook" where
  "query client_id order_id b =
     (if unat client_id \<ge> ME_MAX_NUM_CLIENTS then b
      else if order_id = 0 then
        emitResponse (mk_response Resp_STATE client_id (ob_ticker_id b) 0 OrderId_INVALID
          Side_INVALID Price_INVALID 0 0 Rej_NONE) b
      else case last_order_response b client_id order_id of
        None \<Rightarrow> emitResponse (mk_response Resp_REJECTED client_id (ob_ticker_id b) order_id
                  OrderId_INVALID Side_INVALID Price_INVALID 0 0 Rej_INVALID_ID) b
      | Some response \<Rightarrow>
          (let response = (if rs_type response = Resp_CANCELED
                           then response\<lparr>rs_leaves_qty := 0\<rparr> else response)
           in emitResponse (response\<lparr>rs_type := Resp_STATE, rs_exec_qty := 0\<rparr>) b))"

end
