(* ===== verification/Ladder_Invariant.thy ===== *)
theory Ladder_Invariant
  imports Price_Ladder
begin

text \<open>
  What the pointers of a ladder mean. A \<open>rung\<close> is a level pointer, its price and the pointers of its
  orders in queue order; \<open>rungs_ok\<close> says that the heap stores exactly a given list of rungs, best price
  first. The lemmas say which heap updates turn one list of rungs into another; they look at the
  heaps only through the views \<open>oN\<close>, \<open>oP\<close>, \<open>oT\<close> (next, previous, side and price of an order) and
  \<open>lN\<close>, \<open>lP\<close>, \<open>lC\<close> (next, previous and content of a level), so writing another field of an order
  (its quantity) changes nothing.
\<close>

type_synonym rung = "nat \<times> Price \<times> nat list"

abbreviation rprice :: "rung \<Rightarrow> Price" where "rprice e \<equiv> fst (snd e)"
abbreviation rorders :: "rung \<Rightarrow> nat list" where "rorders e \<equiv> snd (snd e)"

definition ptrs :: "rung list \<Rightarrow> nat list" where
  "ptrs ls = concat (map rorders ls)"

definition oN :: "(nat \<Rightarrow> 'e OrderNode_scheme option) \<Rightarrow> nat \<Rightarrow> nat option" where
  "oN oh x = Option.bind (oh x) next_order"

definition oP :: "(nat \<Rightarrow> 'e OrderNode_scheme option) \<Rightarrow> nat \<Rightarrow> nat option" where
  "oP oh x = Option.bind (oh x) prev_order"

definition oT :: "(nat \<Rightarrow> 'e OrderNode_scheme option) \<Rightarrow> nat \<Rightarrow> (Side \<times> Price) option" where
  "oT oh x = map_option (\<lambda>v. (mo_side v, mo_price v)) (oh x)"

definition lN :: "(nat \<Rightarrow> OrdersAtPrice option) \<Rightarrow> nat \<Rightarrow> nat option" where
  "lN lh x = Option.bind (lh x) next_entry"

definition lP :: "(nat \<Rightarrow> OrdersAtPrice option) \<Rightarrow> nat \<Rightarrow> nat option" where
  "lP lh x = Option.bind (lh x) prev_entry"

definition lC :: "(nat \<Rightarrow> OrdersAtPrice option) \<Rightarrow> nat \<Rightarrow> (Side \<times> Price \<times> nat option) option" where
  "lC lh x = map_option (\<lambda>v. (lv_side v, lv_price v, first_order v)) (lh x)"

definition rung_ok :: "(nat \<Rightarrow> OrdersAtPrice option) \<Rightarrow> (nat \<Rightarrow> 'e OrderNode_scheme option) \<Rightarrow> Side \<Rightarrow>
    rung \<Rightarrow> bool" where
  "rung_ok lh oh s e \<longleftrightarrow> lC lh (fst e) = Some (s, rprice e, Some (hd (rorders e))) \<and>
     ring (oN oh) (oP oh) (rorders e) \<and> (\<forall>x \<in> set (rorders e). oT oh x = Some (s, rprice e))"

definition front :: "rung list \<Rightarrow> nat option" where
  "front ls = (case ls of [] \<Rightarrow> None | e # _ \<Rightarrow> Some (fst e))"

definition rung_map :: "rung list \<Rightarrow> Price \<Rightarrow> nat option" where
  "rung_map ls = map_of (map (\<lambda>e. (rprice e, fst e)) ls)"

definition rungs_ok :: "(nat \<Rightarrow> OrdersAtPrice option) \<Rightarrow> (nat \<Rightarrow> 'e OrderNode_scheme option) \<Rightarrow> Side \<Rightarrow>
    nat option \<Rightarrow> (Price \<Rightarrow> nat option) \<Rightarrow> rung list \<Rightarrow> bool" where
  "rungs_ok lh oh s best pm ls \<longleftrightarrow> best = front ls \<and>
     (ls \<noteq> [] \<longrightarrow> ring (lN lh) (lP lh) (map fst ls)) \<and>
     sorted_wrt (better s) (map rprice ls) \<and> (\<forall>e \<in> set ls. rung_ok lh oh s e) \<and>
     pm = rung_map ls \<and> distinct (ptrs ls)"

subsection \<open>Basic facts\<close>

lemma ptrs_simps [simp]:
  "ptrs [] = []" "ptrs (e # ls) = rorders e @ ptrs ls" "ptrs (xs @ ys) = ptrs xs @ ptrs ys"
  by (simp_all add: ptrs_def)

lemma set_ptrs: "x \<in> set (ptrs ls) \<longleftrightarrow> (\<exists>e \<in> set ls. x \<in> set (rorders e))"
  by (auto simp: ptrs_def)

lemma front_simps [simp]: "front [] = None" "front (e # ls) = Some (fst e)"
  "front (xs @ ys) = (if xs = [] then front ys else front xs)"
  by (auto simp: front_def split: list.splits)

lemma front_None [simp]: "front ls = None \<longleftrightarrow> ls = []"
  by (simp add: front_def split: list.splits)

lemma better_irrefl [simp]: "\<not> better s p p"
  by (simp add: better_def)

lemma better_trans: "better s a b \<Longrightarrow> better s b c \<Longrightarrow> better s a c"
  by (auto simp: better_def split: if_splits)

lemma better_asym: "better s a b \<Longrightarrow> \<not> better s b a"
  by (auto simp: better_def split: if_splits)

lemma better_total: "a \<noteq> b \<Longrightarrow> better s a b \<or> better s b a"
  by (auto simp: better_def)

lemma sorted_better_distinct: "sorted_wrt (better s) ps \<Longrightarrow> distinct ps"
  by (induct ps) auto

lemma rungs_okD:
  assumes "rungs_ok lh oh s best pm ls"
  shows "best = front ls" "ls \<noteq> [] \<Longrightarrow> ring (lN lh) (lP lh) (map fst ls)"
    "sorted_wrt (better s) (map rprice ls)" "\<And>e. e \<in> set ls \<Longrightarrow> rung_ok lh oh s e"
    "pm = rung_map ls" "distinct (ptrs ls)" "distinct (map rprice ls)" "distinct (map fst ls)"
proof -
  show "distinct (map fst ls)"
    using assms by (cases "ls = []") (auto simp: rungs_ok_def ring_distinct)
qed (use assms in \<open>auto simp: rungs_ok_def dest: sorted_better_distinct\<close>)

lemma rung_okD:
  assumes "rung_ok lh oh s (l, pr, os)"
  shows "os \<noteq> []" "ring (oN oh) (oP oh) os" "lC lh l = Some (s, pr, Some (hd os))"
    "\<And>x. x \<in> set os \<Longrightarrow> oT oh x = Some (s, pr)"
  using assms by (auto simp: rung_ok_def dest: ring_not_Nil)

lemma rung_map_simps [simp]:
  "rung_map [] = Map.empty" "rung_map (e # ls) = (rung_map ls)(rprice e \<mapsto> fst e)"
  by (auto simp: rung_map_def)

lemma rung_map_append: "rung_map (xs @ ys) = rung_map ys ++ rung_map xs"
  by (simp add: rung_map_def)

lemma dom_rung_map [simp]: "dom (rung_map ls) = rprice ` set ls"
  by (auto simp: rung_map_def dom_map_of_conv_image_fst image_image)

lemma rung_map_None [simp]: "rung_map ls p = None \<longleftrightarrow> p \<notin> rprice ` set ls"
  using dom_rung_map [of ls] by blast

lemma rung_map_Some:
  "distinct (map rprice ls) \<Longrightarrow> rung_map ls p = Some l \<longleftrightarrow> (\<exists>os. (l, p, os) \<in> set ls)"
proof -
  assume d: "distinct (map rprice ls)"
  have "distinct (map fst (map (\<lambda>e. (rprice e, fst e)) ls))" using d by (simp add: comp_def)
  then have "rung_map ls p = Some l \<longleftrightarrow> (p, l) \<in> set (map (\<lambda>e. (rprice e, fst e)) ls)"
    unfolding rung_map_def by (rule map_of_eq_Some_iff)
  then show ?thesis by force
qed

lemma rung_map_insert:
  "pr \<notin> rprice ` set xs \<Longrightarrow> rung_map (xs @ (l, pr, os) # ys) = (rung_map (xs @ ys))(pr \<mapsto> l)"
  by (simp add: rung_map_append map_add_upd_left)

lemma rung_map_same:
  "rung_map (xs @ (l, pr, os) # ys) = rung_map (xs @ (l, pr, os') # ys)"
  by (simp add: rung_map_append)

lemma rung_map_delete:
  "pr \<notin> rprice ` (set xs \<union> set ys) \<Longrightarrow>
   rung_map (xs @ ys) = (rung_map (xs @ (l, pr, os) # ys))(pr := None)"
  by (auto simp: rung_map_insert fun_upd_idem_iff image_Un)

subsection \<open>Frames\<close>

lemma rung_frame:
  assumes "rung_ok lh oh s e" "lC lh' (fst e) = lC lh (fst e)"
    "\<And>y. y \<in> set (rorders e) \<Longrightarrow> oN oh' y = oN oh y \<and> oP oh' y = oP oh y \<and> oT oh' y = oT oh y"
  shows "rung_ok lh' oh' s e"
  using assms(1,2) assms(3) ring_cong [of "oN oh" "oP oh" "rorders e" "oN oh'" "oP oh'"]
  by (auto simp: rung_ok_def)

lemma side_frame:
  assumes "rungs_ok lh oh s best pm ls"
    "\<And>l. l \<in> fst ` set ls \<Longrightarrow> lN lh' l = lN lh l \<and> lP lh' l = lP lh l \<and> lC lh' l = lC lh l"
    "\<And>y. y \<in> set (ptrs ls) \<Longrightarrow> oN oh' y = oN oh y \<and> oP oh' y = oP oh y \<and> oT oh' y = oT oh y"
  shows "rungs_ok lh' oh' s best pm ls"
proof -
  have "ring (lN lh') (lP lh') (map fst ls)" if "ls \<noteq> []"
  proof (rule ring_cong)
    show "ring (lN lh) (lP lh) (map fst ls)" using assms(1) that by (rule rungs_okD)
  qed (use assms(2) in simp_all)
  moreover have "rung_ok lh' oh' s e" if "e \<in> set ls" for e
  proof (rule rung_frame)
    show "rung_ok lh oh s e" using assms(1) that by (rule rungs_okD)
    show "lC lh' (fst e) = lC lh (fst e)" using assms(2) that by blast
  qed (use assms(3) that set_ptrs in blast)
  ultimately show ?thesis using assms(1) by (simp add: rungs_ok_def)
qed

subsection \<open>An order at the back of an existing level\<close>

lemma side_append_order:
  assumes ok: "rungs_ok lh oh s best pm (xs @ (l, pr, os) # ys)"
    and fresh: "x \<notin> set (ptrs (xs @ (l, pr, os) # ys))"
    and new: "oN oh' x = Some (hd os)" "oP oh' x = Some (last os)" "oT oh' x = Some (s, pr)"
    and links: "oN oh' (last os) = Some x" "oP oh' (hd os) = Some x"
    and frame: "\<And>y. y \<noteq> x \<Longrightarrow> y \<noteq> last os \<Longrightarrow> oN oh' y = oN oh y"
      "\<And>y. y \<noteq> x \<Longrightarrow> y \<noteq> hd os \<Longrightarrow> oP oh' y = oP oh y" "\<And>y. y \<noteq> x \<Longrightarrow> oT oh' y = oT oh y"
  shows "rungs_ok lh oh' s best pm (xs @ (l, pr, os @ [x]) # ys)"
proof -
  note D = rungs_okD [OF ok]
  have rl: "rung_ok lh oh s (l, pr, os)" by (rule D(4)) simp
  note R = rung_okD [OF rl]
  have dist: "distinct (ptrs xs @ os @ ptrs ys)" using D(6) by simp
  have hl: "hd os \<in> set os" "last os \<in> set os" using R(1) by auto
  have "ring (oN oh') (oP oh') (hd os # tl os @ [x])"
  proof (rule ring_link_last)
    show "ring (oN oh) (oP oh) (hd os # tl os)" using R by simp
    show "oN oh' y = oN oh y" if "y \<in> set (hd os # tl os)" "y \<noteq> last (hd os # tl os)" for y
      using frame(1) [of y] that R(1) fresh by auto
    show "oP oh' y = oP oh y" if "y \<in> set (hd os # tl os)" "y \<noteq> hd os" for y
      using frame(2) [of y] that R(1) fresh by auto
  qed (use R(1) fresh new links in auto)
  then have "ring (oN oh') (oP oh') (os @ [x])" using R(1) by (cases os) auto
  moreover have "oT oh' y = Some (s, pr)" if "y \<in> set (os @ [x])" for y
    using that R(4) new(3) frame(3) [of y] by (cases "y = x") auto
  ultimately have "rung_ok lh oh' s (l, pr, os @ [x])"
    using R(1,3) by (simp add: rung_ok_def)
  moreover have "rung_ok lh oh' s e" if e: "e \<in> set xs \<union> set ys" for e
  proof (rule rung_frame)
    show "rung_ok lh oh s e" using D(4) e by simp
    fix y assume "y \<in> set (rorders e)"
    then have "y \<in> set (ptrs xs) \<union> set (ptrs ys)" using e by (auto simp: set_ptrs)
    then have "y \<noteq> x" "y \<notin> set os" using dist fresh by auto
    then show "oN oh' y = oN oh y \<and> oP oh' y = oP oh y \<and> oT oh' y = oT oh y"
      using frame hl by metis
  qed simp
  ultimately show ?thesis
    using ok fresh dist by (auto simp: rungs_ok_def rung_map_same [of xs l pr os ys "os @ [x]"])
qed

subsection \<open>An order leaves a level that keeps another one\<close>

lemma side_drop_order:
  assumes ok: "rungs_ok lh oh s best pm (xs @ (l, pr, as @ x # bs) # ys)" and ne: "as @ bs \<noteq> []"
    and ab: "oN oh x = Some a" "oP oh x = Some b"
    and links: "oN oh' b = Some a" "oP oh' a = Some b"
    and frame: "\<And>y. y \<noteq> x \<Longrightarrow> y \<noteq> b \<Longrightarrow> oN oh' y = oN oh y"
      "\<And>y. y \<noteq> x \<Longrightarrow> y \<noteq> a \<Longrightarrow> oP oh' y = oP oh y" "\<And>y. y \<noteq> x \<Longrightarrow> oT oh' y = oT oh y"
    and level: "lN lh' = lN lh" "lP lh' = lP lh"
      "lC lh' = (lC lh)(l \<mapsto> (s, pr, Some (hd (as @ bs))))"
  shows "rungs_ok lh' oh' s best pm (xs @ (l, pr, as @ bs) # ys)"
proof -
  note D = rungs_okD [OF ok]
  have rl: "rung_ok lh oh s (l, pr, as @ x # bs)" by (rule D(4)) simp
  note R = rung_okD [OF rl]
  have dist: "distinct (ptrs xs @ (as @ x # bs) @ ptrs ys)" using D(6) by simp
  have inab: "a \<in> set (as @ x # bs)" "b \<in> set (as @ x # bs)"
    using ring_next_in [OF R(2), of x] ring_prev_in [OF R(2), of x] ab by auto
  have "ring (oN oh') (oP oh') (as @ bs)"
  proof (rule ring_unlink [of "oN oh" "oP oh" as x bs a b "oN oh'" "oP oh'", OF R(2) ne ab links])
    show "oN oh' y = oN oh y" if "y \<in> set (as @ bs)" "y \<noteq> b" for y
      using frame(1) [of y] that dist by auto
    show "oP oh' y = oP oh y" if "y \<in> set (as @ bs)" "y \<noteq> a" for y
      using frame(2) [of y] that dist by auto
  qed
  moreover have "oT oh' y = Some (s, pr)" if "y \<in> set (as @ bs)" for y
    using that R(4) [of y] frame(3) [of y] dist by auto
  ultimately have "rung_ok lh' oh' s (l, pr, as @ bs)"
    using level by (simp add: rung_ok_def)
  moreover have "rung_ok lh' oh' s e" if e: "e \<in> set xs \<union> set ys" for e
  proof (rule rung_frame)
    show "rung_ok lh oh s e" using D(4) e by simp
    have "fst e \<noteq> l" using e D(8) by force
    then show "lC lh' (fst e) = lC lh (fst e)" using level by simp
    fix y assume "y \<in> set (rorders e)"
    then have "y \<in> set (ptrs xs) \<union> set (ptrs ys)" using e by (auto simp: set_ptrs)
    then have "y \<noteq> x" "y \<noteq> a" "y \<noteq> b" using dist inab by auto
    then show "oN oh' y = oN oh y \<and> oP oh' y = oP oh y \<and> oT oh' y = oT oh y"
      using frame by metis
  qed
  ultimately show ?thesis
    using ok dist level(1,2) by (auto simp: rungs_ok_def rung_map_same [of xs l pr "as @ bs" ys "as @ x # bs"])
qed

subsection \<open>A new level\<close>

lemma ring_link_between:
  assumes ring: "ring N P (xs @ ys)" and z: "z \<notin> set (xs @ ys)"
    and N': "N' z = Some (hd (ys @ xs))" "N' (last (ys @ xs)) = Some z"
    and P': "P' z = Some (last (ys @ xs))" "P' (hd (ys @ xs)) = Some z"
    and frame: "\<And>x. x \<in> set (xs @ ys) \<Longrightarrow> x \<noteq> last (ys @ xs) \<Longrightarrow> N' x = N x"
      "\<And>x. x \<in> set (xs @ ys) \<Longrightarrow> x \<noteq> hd (ys @ xs) \<Longrightarrow> P' x = P x"
  shows "ring N' P' (xs @ z # ys)"
proof -
  have r: "ring N P (ys @ xs)" using ring ring_rotate by blast
  then obtain y zs where yz: "ys @ xs = y # zs" using ring_not_Nil by (cases "ys @ xs") auto
  have same: "set (xs @ ys) = set (y # zs)" using yz by (metis set_append sup_commute)
  have "ring N' P' (y # zs @ [z])"
    by (rule ring_link_last [of N P]) (use r z N' P' frame same in \<open>auto simp: yz\<close>)
  then have "ring N' P' (ys @ (xs @ [z]))" using yz by (metis append_Cons append_assoc)
  then have "ring N' P' ((xs @ [z]) @ ys)" using ring_rotate by blast
  then show ?thesis by simp
qed

lemma side_new_rung:
  assumes ok: "rungs_ok lh oh s best pm (xs @ ys)"
    and fresh: "x \<notin> set (ptrs (xs @ ys))" "l \<notin> fst ` set (xs @ ys)"
    and order: "\<And>e. e \<in> set xs \<Longrightarrow> better s (rprice e) pr" "\<And>e. e \<in> set ys \<Longrightarrow> better s pr (rprice e)"
    and new: "oN oh' x = Some x" "oP oh' x = Some x" "oT oh' x = Some (s, pr)"
    and content: "lC lh' = (lC lh)(l \<mapsto> (s, pr, Some x))"
    and ring: "ring (lN lh') (lP lh') (map fst (xs @ (l, pr, [x]) # ys))"
    and frame: "\<And>y. y \<noteq> x \<Longrightarrow> oN oh' y = oN oh y \<and> oP oh' y = oP oh y \<and> oT oh' y = oT oh y"
  shows "rungs_ok lh' oh' s (if xs = [] then Some l else best) (pm(pr \<mapsto> l)) (xs @ (l, pr, [x]) # ys)"
proof -
  note D = rungs_okD [OF ok]
  have "rung_ok lh' oh' s (l, pr, [x])" using new content by (simp add: rung_ok_def)
  moreover have "rung_ok lh' oh' s e" if e: "e \<in> set xs \<union> set ys" for e
  proof (rule rung_frame)
    show "rung_ok lh oh s e" using D(4) e by simp
    show "lC lh' (fst e) = lC lh (fst e)" using e fresh(2) content by auto
    fix y assume "y \<in> set (rorders e)"
    then have "y \<noteq> x" using e fresh(1) set_ptrs by fastforce
    then show "oN oh' y = oN oh y \<and> oP oh' y = oP oh y \<and> oT oh' y = oT oh y" by (rule frame)
  qed
  moreover have "sorted_wrt (better s) (map rprice (xs @ (l, pr, [x]) # ys))"
    using D(3) order by (auto simp: sorted_wrt_append)
  moreover have "pr \<notin> rprice ` set xs" using order(1) by fastforce
  ultimately show ?thesis using D(1,5,6) fresh ring
    by (auto simp: rungs_ok_def rung_map_insert)
qed

subsection \<open>A level disappears\<close>

lemma side_drop_rung:
  assumes ok: "rungs_ok lh oh s best pm (xs @ (l, pr, os) # ys)"
    and ring: "xs @ ys \<noteq> [] \<Longrightarrow> ring (lN lh') (lP lh') (map fst (xs @ ys))"
    and content: "\<And>y. y \<noteq> l \<Longrightarrow> lC lh' y = lC lh y"
    and frame: "\<And>y. y \<notin> set os \<Longrightarrow> oN oh' y = oN oh y \<and> oP oh' y = oP oh y \<and> oT oh' y = oT oh y"
  shows "rungs_ok lh' oh' s (front (xs @ ys)) (pm(pr := None)) (xs @ ys)"
proof -
  note D = rungs_okD [OF ok]
  have "rung_ok lh' oh' s e" if e: "e \<in> set xs \<union> set ys" for e
  proof (rule rung_frame)
    show "rung_ok lh oh s e" using D(4) e by simp
    have "fst e \<noteq> l" using e D(8) by force
    then show "lC lh' (fst e) = lC lh (fst e)" by (rule content)
    fix y assume "y \<in> set (rorders e)"
    then have "y \<in> set (ptrs xs) \<union> set (ptrs ys)" using e by (auto simp: set_ptrs)
    then have "y \<notin> set os" using D(6) by auto
    then show "oN oh' y = oN oh y \<and> oP oh' y = oP oh y \<and> oT oh' y = oT oh y" by (rule frame)
  qed
  moreover have "sorted_wrt (better s) (map rprice (xs @ ys))"
    using D(3) by (auto simp: sorted_wrt_append)
  moreover have "pr \<notin> rprice ` (set xs \<union> set ys)" using D(7) by auto
  ultimately show ?thesis using D(5,6) ring rung_map_delete [of pr xs ys l os]
    by (auto simp: rungs_ok_def)
qed

end
