(* ===== verification/Ladder_Ops.thy ===== *)
theory Ladder_Ops
  imports Ladder_Invariant
begin

text \<open>
  The ladder operations run without touching an invalid pointer and do to the rungs what their
  names say. \<open>ladder_ok b F g\<close> is the invariant of a ladder \<open>b\<close> with rungs \<open>g\<close>, where the orders \<open>F\<close> are
  allocated and not (or no longer) linked.
\<close>

definition sides :: "Side set" where "sides = {BUY, SELL}"

definition strip :: "'e OrderNode_scheme \<Rightarrow> 'e OrderNode_scheme" where
  "strip v = v\<lparr>prev_order := None, next_order := None\<rparr>"

definition oS :: "(nat \<Rightarrow> 'e OrderNode_scheme option) \<Rightarrow> nat \<Rightarrow> 'e OrderNode_scheme option" where
  "oS oh x = map_option strip (oh x)"

abbreviation lheap :: "('o, 'z) Ladder_scheme \<Rightarrow> nat \<Rightarrow> OrdersAtPrice option" where
  "lheap b \<equiv> deref (orders_at_price_pool b)"

abbreviation oheap :: "('o, 'z) Ladder_scheme \<Rightarrow> nat \<Rightarrow> 'o option" where
  "oheap b \<equiv> deref (order_pool b)"

definition ladder_ok :: "('e OrderNode_scheme, 'z) Ladder_scheme \<Rightarrow> nat set \<Rightarrow> (Side \<Rightarrow> rung list) \<Rightarrow> bool" where
  "ladder_ok b F g \<longleftrightarrow> pool_inv (orders_at_price_pool b) \<and> pool_inv (order_pool b) \<and>
     (\<forall>s \<in> sides. rungs_ok (lheap b) (oheap b) s (best_of b s) (\<lambda>p. price_orders_at_price b (s, p)) (g s)) \<and>
     (\<forall>s \<in> sides. \<forall>t \<in> sides. s \<noteq> t \<longrightarrow> set (ptrs (g s)) \<inter> set (ptrs (g t)) = {} \<and>
        fst ` set (g s) \<inter> fst ` set (g t) = {}) \<and>
     dom (lheap b) = (\<Union>s \<in> sides. fst ` set (g s)) \<and>
     dom (oheap b) = (\<Union>s \<in> sides. set (ptrs (g s))) \<union> F \<and>
     F \<inter> (\<Union>s \<in> sides. set (ptrs (g s))) = {}"

named_theorems views \<open>how the views of the two heaps change\<close>

subsection \<open>Views\<close>

lemma order_views [views]:
  "oN (h(y := map_option (next_order_update (\<lambda>_. n)) (h y))) = (oN h)(y := if h y = None then None else n)"
  "oP (h(y := map_option (next_order_update (\<lambda>_. n)) (h y))) = oP h"
  "oT (h(y := map_option (next_order_update (\<lambda>_. n)) (h y))) = oT h"
  "oS (h(y := map_option (next_order_update (\<lambda>_. n)) (h y))) = oS h"
  "oN (h(y := map_option (prev_order_update (\<lambda>_. n)) (h y))) = oN h"
  "oP (h(y := map_option (prev_order_update (\<lambda>_. n)) (h y))) = (oP h)(y := if h y = None then None else n)"
  "oT (h(y := map_option (prev_order_update (\<lambda>_. n)) (h y))) = oT h"
  "oS (h(y := map_option (prev_order_update (\<lambda>_. n)) (h y))) = oS h"
  by (cases "h y"; auto simp: fun_eq_iff oN_def oP_def oT_def oS_def strip_def)+

lemma level_views [views]:
  "lN (h(y := map_option (next_entry_update (\<lambda>_. n)) (h y))) = (lN h)(y := if h y = None then None else n)"
  "lP (h(y := map_option (next_entry_update (\<lambda>_. n)) (h y))) = lP h"
  "lC (h(y := map_option (next_entry_update (\<lambda>_. n)) (h y))) = lC h"
  "lN (h(y := map_option (prev_entry_update (\<lambda>_. n)) (h y))) = lN h"
  "lP (h(y := map_option (prev_entry_update (\<lambda>_. n)) (h y))) = (lP h)(y := if h y = None then None else n)"
  "lC (h(y := map_option (prev_entry_update (\<lambda>_. n)) (h y))) = lC h"
  by (cases "h y"; auto simp: fun_eq_iff lN_def lP_def lC_def)+

lemma level_both_view [views]:
  "lN (h(y := map_option (\<lambda>v. v\<lparr>prev_entry := m, next_entry := n\<rparr>) (h y))) =
     (lN h)(y := if h y = None then None else n)"
  "lP (h(y := map_option (\<lambda>v. v\<lparr>prev_entry := m, next_entry := n\<rparr>) (h y))) =
     (lP h)(y := if h y = None then None else m)"
  "lC (h(y := map_option (\<lambda>v. v\<lparr>prev_entry := m, next_entry := n\<rparr>) (h y))) = lC h"
  by (cases "h y"; auto simp: fun_eq_iff lN_def lP_def lC_def)+

lemma order_both_view [views]:
  "oN (h(y := map_option (\<lambda>v. v\<lparr>next_order := n, prev_order := m\<rparr>) (h y))) =
     (oN h)(y := if h y = None then None else n)"
  "oP (h(y := map_option (\<lambda>v. v\<lparr>next_order := n, prev_order := m\<rparr>) (h y))) =
     (oP h)(y := if h y = None then None else m)"
  "oT (h(y := map_option (\<lambda>v. v\<lparr>next_order := n, prev_order := m\<rparr>) (h y))) = oT h"
  "oS (h(y := map_option (\<lambda>v. v\<lparr>next_order := n, prev_order := m\<rparr>) (h y))) = oS h"
  "oN (h(y := map_option (\<lambda>v. v\<lparr>prev_order := m, next_order := n\<rparr>) (h y))) =
     (oN h)(y := if h y = None then None else n)"
  "oP (h(y := map_option (\<lambda>v. v\<lparr>prev_order := m, next_order := n\<rparr>) (h y))) =
     (oP h)(y := if h y = None then None else m)"
  "oT (h(y := map_option (\<lambda>v. v\<lparr>prev_order := m, next_order := n\<rparr>) (h y))) = oT h"
  "oS (h(y := map_option (\<lambda>v. v\<lparr>prev_order := m, next_order := n\<rparr>) (h y))) = oS h"
  by (cases "h y"; auto simp: fun_eq_iff oN_def oP_def oT_def oS_def strip_def)+

lemma new_level_view [views]:
  "lN (h(y \<mapsto> v)) = (lN h)(y := next_entry v)" "lP (h(y \<mapsto> v)) = (lP h)(y := prev_entry v)"
  "lC (h(y \<mapsto> v)) = (lC h)(y \<mapsto> (lv_side v, lv_price v, first_order v))"
  by (auto simp: fun_eq_iff lN_def lP_def lC_def)

lemma dead_level_view [views]:
  "lN (h(y := None)) = (lN h)(y := None)" "lP (h(y := None)) = (lP h)(y := None)"
  "lC (h(y := None)) = (lC h)(y := None)"
  by (auto simp: fun_eq_iff lN_def lP_def lC_def)

lemma first_order_view [views]:
  "lN (h(y := map_option (first_order_update (\<lambda>_. n)) (h y))) = lN h"
  "lP (h(y := map_option (first_order_update (\<lambda>_. n)) (h y))) = lP h"
  "lC (h(y := map_option (first_order_update (\<lambda>_. n)) (h y))) =
     (lC h)(y := map_option (\<lambda>(s, p, _). (s, p, n)) (lC h y))"
  by (cases "h y"; auto simp: fun_eq_iff lN_def lP_def lC_def)+

lemmas pool_views [views] =
  first_order_view [where h = "deref q" for q, folded deref_poke]
  order_both_view [where h = "deref q" for q, folded deref_poke]
  order_views [where h = "deref q" for q, folded deref_poke]
  level_views [where h = "deref q" for q, folded deref_poke]
  level_both_view [where h = "deref q" for q, folded deref_poke]

lemma poke_None [simp]: "deref (poke y f q) z = None \<longleftrightarrow> deref q z = None"
  by (simp add: deref_poke)

lemma dom_poke [simp]: "dom (deref (poke y f q)) = dom (deref q)"
  by (auto simp: dom_def)

lemma sides_iff: "s \<in> sides \<longleftrightarrow> s = BUY \<or> s = SELL"
  by (auto simp: sides_def)

lemma best_of_set_best [simp]:
  "s \<in> sides \<Longrightarrow> t \<in> sides \<Longrightarrow> best_of (set_best s p b) t = (if t = s then p else best_of b t)"
  by (auto simp: sides_iff best_of_def set_best_def)

lemma set_best_frame [simp]:
  "orders_at_price_pool (set_best s p b) = orders_at_price_pool b"
  "order_pool (set_best s p b) = order_pool b"
  "price_orders_at_price (set_best s p b) = price_orders_at_price b"
  "Ladder.more (set_best s p b) = Ladder.more b"
  by (simp_all add: set_best_def)

lemma best_of_frame [simp]:
  "best_of (b\<lparr>orders_at_price_pool := q\<rparr>) s = best_of b s"
  "best_of (b\<lparr>order_pool := r\<rparr>) s = best_of b s"
  "best_of (b\<lparr>price_orders_at_price := m\<rparr>) s = best_of b s"
  by (simp_all add: best_of_def)

lemma set_best_same: "best_of b s = p \<Longrightarrow> set_best s p b = b"
  by (auto simp: set_best_def best_of_def)

lemma upd_order_eq:
  "oheap b p \<noteq> None \<Longrightarrow> upd_order p f b = Some (b\<lparr>order_pool := poke p f (order_pool b)\<rparr>)"
  by (simp add: upd_order_def modify_poke)

lemma upd_level_eq:
  "lheap b p \<noteq> None \<Longrightarrow>
   upd_level p f b = Some (b\<lparr>orders_at_price_pool := poke p f (orders_at_price_pool b)\<rparr>)"
  by (simp add: upd_level_def modify_poke)

lemma oT_dom: "oT h x \<noteq> None \<longleftrightarrow> h x \<noteq> None"
  by (simp add: oT_def)

subsection \<open>The walk to the insertion point\<close>

lemma ring_next: "ring N P (xs @ x # ys) \<Longrightarrow> N x = Some (hd (ys @ xs @ [x]))"
  using ring_rotate [of N P xs "x # ys"] ring_head(1) [of N P x "ys @ xs"] by simp

lemma ring_hd_prev: "ring N P xs \<Longrightarrow> P (hd xs) = Some (last xs)"
  using ring_not_Nil [of N P xs] ring_head(2) [of N P "hd xs" "tl xs"] by simp

lemma ring_hd_prev_map: "ring N P (map f ls) \<Longrightarrow> P (f (hd ls)) = Some (f (last ls))"
  using ring_hd_prev [of N P "map f ls"] ring_not_Nil [of N P "map f ls"]
  by (simp add: hd_map last_map)

lemma lCD:
  assumes "lC h l = Some (s, pr, Some x)"
  obtains v where "h l = Some v" "lv_side v = s" "lv_price v = pr" "first_order v = Some x"
  using assms by (auto simp: lC_def)

lemma find_target_run:
  assumes "ring (lN (deref q)) (lP (deref q)) (map fst ls)"
    and "\<And>e. e \<in> set ls \<Longrightarrow> \<exists>x. lC (deref q) (fst e) = Some (s, rprice e, Some x)"
  shows "ls = as @ c # bs \<Longrightarrow> find_target s pr (fst (hd ls)) (fst c) q =
     Some (fst (hd (dropWhile (\<lambda>e. better s (rprice e) pr) bs @ ls)))"
proof (induction bs arbitrary: as c)
  case Nil
  have "ring (lN (deref q)) (lP (deref q)) (map fst as @ fst c # [])" using assms(1) Nil by simp
  from ring_next [OF this] have "lN (deref q) (fst c) = Some (fst (hd ls))"
    using Nil by (cases as) auto
  then show ?case by (subst find_target.simps) (auto simp: lN_def bind_Some_conv)
next
  case (Cons d bs)
  have ls: "ls = (as @ [c]) @ d # bs" using Cons.prems by simp
  have "ring (lN (deref q)) (lP (deref q)) (map fst as @ fst c # map fst (d # bs))"
    using assms(1) Cons.prems by simp
  from ring_next [OF this] have n: "lN (deref q) (fst c) = Some (fst d)" by simp
  obtain x where "lC (deref q) (fst d) = Some (s, rprice d, Some x)"
    using assms(2) [of d] ls by auto
  then obtain dv where dv: "deref q (fst d) = Some dv" "lv_price dv = rprice d" by (rule lCD)
  have "fst d \<noteq> fst (hd ls)"
    using ring_distinct [OF assms(1)] ls by (cases as) auto
  with n dv Cons.IH [OF ls] show ?case
    by (cases "deref q (fst c)"; subst find_target.simps) (auto simp: lN_def)
qed

lemma dropWhile_split:
  "(\<And>e. e \<in> set xs \<Longrightarrow> P e) \<Longrightarrow> (\<And>e. e \<in> set ys \<Longrightarrow> \<not> P e) \<Longrightarrow> dropWhile P (xs @ ys) = ys"
  by (induct xs) (auto simp: dropWhile_eq_self_iff)

text \<open>The choice of \<open>target\<close>: the level the new one is linked in front of.\<close>

lemma target_run:
  assumes ring: "ring (lN (deref q)) (lP (deref q)) (map fst (xs @ ys))"
    and cont: "\<And>e. e \<in> set (xs @ ys) \<Longrightarrow> \<exists>x. lC (deref q) (fst e) = Some (s, rprice e, Some x)"
    and order: "\<And>e. e \<in> set xs \<Longrightarrow> better s (rprice e) pr" "\<And>e. e \<in> set ys \<Longrightarrow> better s pr (rprice e)"
    and bv: "deref q (fst (hd (xs @ ys))) = Some bv"
  shows "better s pr (lv_price bv) \<longleftrightarrow> xs = []"
    "choose_target s pr (fst (hd (xs @ ys))) q = Some (fst (hd (ys @ xs)))"
proof -
  have ne: "xs @ ys \<noteq> []" using ring_not_Nil [OF ring] by simp
  have price: "\<exists>v. deref q (fst e) = Some v \<and> lv_price v = rprice e" if "e \<in> set (xs @ ys)" for e
    using cont [OF that] by (auto simp: lC_def)
  have "lv_price bv = rprice (hd (xs @ ys))"
    using price [of "hd (xs @ ys)"] hd_in_set [OF ne] bv by auto
  then show new: "better s pr (lv_price bv) \<longleftrightarrow> xs = []"
    using order ne by (cases xs; cases ys) (auto dest: better_asym)
  let ?last = "last (xs @ ys)"
  have tail: "prev_entry bv = Some (fst ?last)"
    using ring_hd_prev_map [OF ring] bv by (simp add: lP_def)
  obtain tv where tv: "deref q (fst ?last) = Some tv" "lv_price tv = rprice ?last"
    using price [of ?last] last_in_set [OF ne] by auto
  have bt: "better s pr (rprice ?last) \<longleftrightarrow> ys \<noteq> []" if "xs \<noteq> []"
    using that order(1) [of "last xs"] order(2) [of "last ys"] by (auto dest: better_asym)
  have find: "find_target s pr (fst (hd (xs @ ys))) (fst (hd (xs @ ys))) q = Some (fst (hd (ys @ xs)))"
    if "xs \<noteq> []" "ys \<noteq> []"
  proof -
    have "find_target s pr (fst (hd (xs @ ys))) (fst (hd xs)) q =
       Some (fst (hd (dropWhile (\<lambda>e. better s (rprice e) pr) (tl xs @ ys) @ xs @ ys)))"
      by (rule find_target_run [OF ring cont, of "[]"]) (use that in auto)
    also have "dropWhile (\<lambda>e. better s (rprice e) pr) (tl xs @ ys) = ys"
      by (rule dropWhile_split) (use order that in \<open>auto dest: better_asym list.set_sel(2)\<close>)
    finally show ?thesis using that by simp
  qed
  show "choose_target s pr (fst (hd (xs @ ys))) q = Some (fst (hd (ys @ xs)))"
    using new tail tv bt find bv by (cases "xs = []"; cases "ys = []") (auto simp: choose_target_def)
qed

text \<open>Linking the new level into the ring.\<close>

definition link_level :: "nat \<Rightarrow> nat \<Rightarrow> nat \<Rightarrow> OrdersAtPrice MemPool \<Rightarrow> OrdersAtPrice MemPool" where
  "link_level l before target q =
     poke target (\<lambda>v. v\<lparr>prev_entry := Some l\<rparr>) (poke before (\<lambda>v. v\<lparr>next_entry := Some l\<rparr>)
       (poke l (\<lambda>v. v\<lparr>prev_entry := Some before, next_entry := Some target\<rparr>) q))"

lemma addOrdersAtPrice_run:
  assumes ok: "rungs_ok (lheap b) oh s (best_of b s) pm (xs @ ys)" and ne: "xs @ ys \<noteq> []"
    and lv: "lheap b l = Some lv" "lv_side lv = s" "lv_price lv = pr"
    and order: "\<And>e. e \<in> set xs \<Longrightarrow> better s (rprice e) pr" "\<And>e. e \<in> set ys \<Longrightarrow> better s pr (rprice e)"
  defines "b1 \<equiv> b\<lparr>price_orders_at_price := (price_orders_at_price b)((s, pr) \<mapsto> l),
      orders_at_price_pool := link_level l (fst (last (ys @ xs))) (fst (hd (ys @ xs))) (orders_at_price_pool b)\<rparr>"
  shows "addOrdersAtPrice l b = Some (if xs = [] then set_best s (Some l) b1 else b1)"
proof -
  note D = rungs_okD [OF ok]
  let ?q = "orders_at_price_pool b"
  have ring: "ring (lN (deref ?q)) (lP (deref ?q)) (map fst (xs @ ys))" using D(2) ne by simp
  have cont: "\<exists>x. lC (deref ?q) (fst e) = Some (s, rprice e, Some x)" if "e \<in> set (xs @ ys)" for e
    using D(4) [OF that] by (auto simp: rung_ok_def)
  have best: "best_of b s = Some (fst (hd (xs @ ys)))"
    using D(1) ne by (cases "xs @ ys") (auto simp: front_def)
  obtain bv where bv: "deref ?q (fst (hd (xs @ ys))) = Some bv"
    using cont [OF hd_in_set [OF ne]] by (auto simp: lC_def)
  note T = target_run [OF ring cont order bv]
  have ne': "ys @ xs \<noteq> []" using ne by auto
  have same: "set (ys @ xs) = set (xs @ ys)" by auto
  obtain tv where tv: "deref ?q (fst (hd (ys @ xs))) = Some tv"
    using cont [of "hd (ys @ xs)"] hd_in_set [OF ne'] same by (auto simp: lC_def)
  have "ring (lN (deref ?q)) (lP (deref ?q)) (map fst (ys @ xs))"
    using ring ring_rotate [of _ _ "map fst xs" "map fst ys"] by simp
  from ring_hd_prev_map [OF this] have before: "prev_entry tv = Some (fst (last (ys @ xs)))"
    using tv by (simp add: lP_def)
  obtain pv where pv: "deref ?q (fst (last (ys @ xs))) = Some pv"
    using cont [of "last (ys @ xs)"] last_in_set [OF ne'] same by (auto simp: lC_def)
  show ?thesis
    unfolding addOrdersAtPrice_def
    using lv best bv T tv before pv
    by (simp add: upd_level_eq deref_poke b1_def link_level_def)
qed

lemma link_level_views:
  assumes "deref q l \<noteq> None" "deref q bef \<noteq> None" "deref q t \<noteq> None"
  shows "lN (deref (link_level l bef t q)) = (lN (deref q))(l \<mapsto> t, bef \<mapsto> l)"
    "lP (deref (link_level l bef t q)) = (lP (deref q))(l \<mapsto> bef, t \<mapsto> l)"
    "lC (deref (link_level l bef t q)) = lC (deref q)"
    "dom (deref (link_level l bef t q)) = dom (deref q)"
    "pool_inv q \<Longrightarrow> pool_inv (link_level l bef t q)"
    "capacity (link_level l bef t q) = capacity q"
  using assms by (simp_all add: link_level_def poke_frame views del: not_None_eq)

lemma link_level_ring:
  assumes ring: "ring (lN (deref q)) (lP (deref q)) (map fst (xs @ ys))"
    and l: "deref q l \<noteq> None" "l \<notin> fst ` set (xs @ ys)"
    and dom: "fst ` set (xs @ ys) \<subseteq> dom (deref q)"
  defines "q' \<equiv> link_level l (fst (last (ys @ xs))) (fst (hd (ys @ xs))) q"
  shows "ring (lN (deref q')) (lP (deref q')) (map fst (xs @ (l, pr, os) # ys))"
proof -
  have "ys @ xs \<noteq> []" using ring_not_Nil [OF ring] by auto
  then have hl: "hd (ys @ xs) \<in> set (xs @ ys)" "last (ys @ xs) \<in> set (xs @ ys)"
    and eqs: "hd (map fst ys @ map fst xs) = fst (hd (ys @ xs))"
      "last (map fst ys @ map fst xs) = fst (last (ys @ xs))"
    using hd_in_set [of "ys @ xs"] last_in_set [of "ys @ xs"]
      hd_map [of "ys @ xs" fst] last_map [of "ys @ xs" fst] by auto
  have "deref q (fst (last (ys @ xs))) \<noteq> None" "deref q (fst (hd (ys @ xs))) \<noteq> None"
    using hl dom by blast+
  note V = link_level_views [OF l(1) this, folded q'_def]
  have "ring (lN (deref q')) (lP (deref q')) (map fst xs @ l # map fst ys)"
    by (rule ring_link_between [of "lN (deref q)" "lP (deref q)"])
      (use ring l(2) hl in \<open>auto simp: V eqs\<close>)
  then show ?thesis by simp
qed

subsection \<open>Replacing one side\<close>

lemma ladder_okD:
  assumes "ladder_ok b F g"
  shows "pool_inv (orders_at_price_pool b)" "pool_inv (order_pool b)"
    "\<And>s. s \<in> sides \<Longrightarrow> rungs_ok (lheap b) (oheap b) s (best_of b s) (\<lambda>p. price_orders_at_price b (s, p)) (g s)"
    "\<And>s t. s \<in> sides \<Longrightarrow> t \<in> sides \<Longrightarrow> s \<noteq> t \<Longrightarrow> set (ptrs (g s)) \<inter> set (ptrs (g t)) = {}"
    "\<And>s t. s \<in> sides \<Longrightarrow> t \<in> sides \<Longrightarrow> s \<noteq> t \<Longrightarrow> fst ` set (g s) \<inter> fst ` set (g t) = {}"
    "dom (lheap b) = (\<Union>s \<in> sides. fst ` set (g s))"
    "dom (oheap b) = (\<Union>s \<in> sides. set (ptrs (g s))) \<union> F"
    "F \<inter> (\<Union>s \<in> sides. set (ptrs (g s))) = {}"
  using assms unfolding ladder_ok_def by simp_all

lemma ladder_dom:
  assumes "ladder_ok b F g" "s \<in> sides"
  shows "fst ` set (g s) \<subseteq> dom (lheap b)" "set (ptrs (g s)) \<subseteq> dom (oheap b)"
    "F \<subseteq> dom (oheap b)" "F \<inter> set (ptrs (g s)) = {}"
  using ladder_okD(6-8) [OF assms(1)] assms(2) by blast+

lemma ladder_replace:
  assumes ok: "ladder_ok b F g" and s: "s \<in> sides"
    and side: "rungs_ok (lheap b') (oheap b') s (best_of b' s) (\<lambda>p. price_orders_at_price b' (s, p)) ls"
    and inv: "pool_inv (orders_at_price_pool b')" "pool_inv (order_pool b')"
    and other: "\<And>t p. t \<in> sides \<Longrightarrow> t \<noteq> s \<Longrightarrow> best_of b' t = best_of b t \<and>
        price_orders_at_price b' (t, p) = price_orders_at_price b (t, p)"
    and lframe: "\<And>l. l \<notin> fst ` set ls \<union> fst ` set (g s) \<Longrightarrow> lN (lheap b') l = lN (lheap b) l \<and>
        lP (lheap b') l = lP (lheap b) l \<and> lC (lheap b') l = lC (lheap b) l"
    and oframe: "\<And>y. y \<notin> set (ptrs ls) \<union> set (ptrs (g s)) \<Longrightarrow> oN (oheap b') y = oN (oheap b) y \<and>
        oP (oheap b') y = oP (oheap b) y \<and> oT (oheap b') y = oT (oheap b) y"
    and new: "fst ` set ls \<inter> (dom (lheap b) - fst ` set (g s)) = {}" "set (ptrs ls) \<subseteq> set (ptrs (g s)) \<union> F"
    and dom: "dom (lheap b') = (dom (lheap b) - fst ` set (g s)) \<union> fst ` set ls"
      "dom (oheap b') = dom (oheap b)" and F': "F' = (F \<union> set (ptrs (g s))) - set (ptrs ls)"
  shows "ladder_ok b' F' (g(s := ls))"
proof -
  obtain t where t: "t \<in> sides" "t \<noteq> s" "sides = {s, t}" using s by (auto simp: sides_def)
  have disj: "set (ptrs (g t)) \<inter> set (ptrs (g s)) = {}" "fst ` set (g t) \<inter> fst ` set (g s) = {}"
    using ladder_okD(4,5) [OF ok t(1) s t(2)] by simp_all
  have disjF: "F \<inter> set (ptrs (g t)) = {}" "F \<inter> set (ptrs (g s)) = {}"
    and doms: "dom (lheap b) = fst ` set (g s) \<union> fst ` set (g t)"
      "dom (oheap b) = set (ptrs (g s)) \<union> set (ptrs (g t)) \<union> F"
    using ladder_okD(6-8) [OF ok, unfolded t(3)] by auto
  have setlaw: "A = S \<union> T \<Longrightarrow> T \<inter> S = {} \<Longrightarrow> X \<inter> (A - S) = {} \<Longrightarrow> T \<inter> X = {}" for A S T X :: "nat set"
    by blast
  have tnew: "fst ` set (g t) \<inter> fst ` set ls = {}" "set (ptrs (g t)) \<inter> set (ptrs ls) = {}"
    using setlaw [OF doms(1) disj(2) new(1)] new(2) disj(1) disjF(1) by auto
  have "rungs_ok (lheap b') (oheap b') t (best_of b t) (\<lambda>p. price_orders_at_price b (t, p)) (g t)"
    by (rule side_frame [where lh = "lheap b" and oh = "oheap b"])
      (use ladder_okD(3) [OF ok t(1)] lframe oframe disj tnew in blast)+
  then have "rungs_ok (lheap b') (oheap b') t (best_of b' t) (\<lambda>p. price_orders_at_price b' (t, p)) (g t)"
    using other t by simp
  moreover have "dom (lheap b') = fst ` set ls \<union> fst ` set (g t)" using dom(1) doms(1) disj(2) by auto
  moreover have "dom (oheap b') = set (ptrs ls) \<union> set (ptrs (g t)) \<union> F'"
    using dom(2) doms(2) F' disj disjF new(2) by auto
  moreover have "F' \<inter> (set (ptrs ls) \<union> set (ptrs (g t))) = {}" using F' disj disjF by auto
  ultimately show ?thesis using side inv t tnew unfolding ladder_ok_def t(3) by auto
qed

subsection \<open>Linking an order\<close>

lemma rung_split:
  assumes "rungs_ok lh oh s best pm ls" "pm pr = Some l"
  obtains xs os ys where "ls = xs @ (l, pr, os) # ys"
  using assms rungs_okD(5,7) [OF assms(1)] rung_map_Some [of ls pr l]
  by (auto simp: in_set_conv_decomp)

lemma rungs_live:
  assumes "rungs_ok lh oh s best pm ls"
  shows "\<And>y. y \<in> set (ptrs ls) \<Longrightarrow> \<exists>v. oh y = Some v \<and> mo_side v = s"
    "\<And>e. e \<in> set ls \<Longrightarrow> lh (fst e) \<noteq> None"
proof -
  show "\<exists>v. oh y = Some v \<and> mo_side v = s" if "y \<in> set (ptrs ls)" for y
    using that rungs_okD(4) [OF assms] by (fastforce simp: set_ptrs rung_ok_def oT_def)
  show "lh (fst e) \<noteq> None" if "e \<in> set ls" for e
    using rungs_okD(4) [OF assms that] by (auto simp: rung_ok_def lC_def)
qed

lemma linkOrder_existing:
  assumes ok: "ladder_ok b {x} g" and v: "oheap b x = Some v" "mo_side v = s" "mo_price v = pr"
    and s: "s \<in> sides" and g: "g s = xs @ (l, pr, os) # ys"
  shows "\<exists>b'. linkOrder x b = Some b' \<and> ladder_ok b' {} (g(s := xs @ (l, pr, os @ [x]) # ys)) \<and>
     oS (oheap b') = oS (oheap b) \<and> Ladder.more b' = Ladder.more b \<and>
     capacity (orders_at_price_pool b') = capacity (orders_at_price_pool b) \<and>
     capacity (order_pool b') = capacity (order_pool b)"
proof -
  note L = ladder_okD [OF ok]
  note S = L(3) [OF s, unfolded g]
  have R: "rung_ok (lheap b) (oheap b) s (l, pr, os)" by (rule rungs_okD(4) [OF S]) simp
  note R = rung_okD [OF R]
  have level: "getOrdersAtPrice pr s b = Some l"
    using fun_cong [OF rungs_okD(5) [OF S], of pr] rungs_okD(7) [OF S]
    by (simp add: getOrdersAtPrice_def rung_map_insert)
  obtain lv where lv: "lheap b l = Some lv" "first_order lv = Some (hd os)" using R(3) by (rule lCD)
  have live: "oheap b (hd os) \<noteq> None" "oheap b (last os) \<noteq> None"
    using R(4) [of "hd os"] R(4) [of "last os"] R(1) by (auto simp: oT_def)
  then obtain fv where fv: "oheap b (hd os) = Some fv" by auto
  have tail: "prev_order fv = Some (last os)" using ring_hd_prev [OF R(2)] fv by (simp add: oP_def)
  have fresh: "x \<notin> set (ptrs (g s))" using L(8) s by auto
  have xne: "x \<noteq> hd os" "x \<noteq> last os" using fresh R(1) g by auto
  let ?q = "poke (hd os) (\<lambda>v. v\<lparr>prev_order := Some x\<rparr>) (poke x (\<lambda>v. v\<lparr>next_order := Some (hd os)\<rparr>)
     (poke x (\<lambda>v. v\<lparr>prev_order := Some (last os)\<rparr>)
       (poke (last os) (\<lambda>v. v\<lparr>next_order := Some x\<rparr>) (order_pool b))))"
  let ?b = "b\<lparr>order_pool := ?q\<rparr>"
  have run: "linkOrder x b = Some ?b"
    using v level lv fv tail live by (simp add: linkOrder_def upd_order_eq)
  have views: "oN (deref ?q) = (oN (oheap b))(last os \<mapsto> x, x \<mapsto> hd os)"
    "oP (deref ?q) = (oP (oheap b))(x \<mapsto> last os, hd os \<mapsto> x)" "oT (deref ?q) = oT (oheap b)"
    "oS (deref ?q) = oS (oheap b)"
    using live v xne by (simp_all add: views del: not_None_eq)
  have "rungs_ok (lheap b) (deref ?q) s (best_of b s) (\<lambda>p. price_orders_at_price b (s, p))
     (xs @ (l, pr, os @ [x]) # ys)"
    by (rule side_append_order [OF S fresh [unfolded g]]) (use v xne in \<open>auto simp: views oT_def\<close>)
  then have "ladder_ok ?b {} (g(s := xs @ (l, pr, os @ [x]) # ys))"
    by (intro ladder_replace [OF ok s])
      (use L(1,2) ladder_dom(1) [OF ok s] fresh R(1) in \<open>auto simp: g poke_frame views\<close>)
  then show ?thesis using run by (simp add: views poke_frame)
qed

lemma price_split:
  assumes "sorted_wrt (better s) (map rprice ls)" "pr \<notin> rprice ` set ls"
  obtains xs ys where "ls = xs @ ys" "\<And>e. e \<in> set xs \<Longrightarrow> better s (rprice e) pr"
    "\<And>e. e \<in> set ys \<Longrightarrow> better s pr (rprice e)"
proof -
  let ?P = "\<lambda>e. better s (rprice e) pr"
  have "better s pr (rprice e)" if "e \<in> set (dropWhile ?P ls)" for e
  proof -
    have "dropWhile ?P ls \<noteq> []"
    proof
      assume "dropWhile ?P ls = []"
      with that show False by (simp only: list.set empty_iff)
    qed
    then obtain d ds where d: "dropWhile ?P ls = d # ds" unfolding neq_Nil_conv by blast
    then have nd: "\<not> ?P d" using hd_dropWhile [of ?P ls] by simp
    have "d \<in> set ls" using d by (metis list.set_intros(1) set_dropWhileD)
    with nd have "better s pr (rprice d)" using assms(2) better_total [of "rprice d" pr s] by force
    moreover have "sorted_wrt (better s) (map rprice (d # ds))"
      using assms(1) takeWhile_dropWhile_id [of ?P ls] d by (metis map_append sorted_wrt_append)
    ultimately show ?thesis using that d better_trans by auto
  qed
  moreover have "better s (rprice e) pr" if "e \<in> set (takeWhile ?P ls)" for e
    using set_takeWhileD [OF that] by simp
  ultimately show ?thesis by (rule that [OF takeWhile_dropWhile_id [symmetric], rotated])
qed

text \<open>The level pool after \<open>allocate\<close> and \<open>addOrdersAtPrice\<close>.\<close>

definition hang_level :: "nat \<Rightarrow> rung list \<Rightarrow> rung list \<Rightarrow> OrdersAtPrice MemPool \<Rightarrow> OrdersAtPrice MemPool" where
  "hang_level l xs ys q =
     (if xs @ ys = [] then poke l (\<lambda>v. v\<lparr>prev_entry := Some l, next_entry := Some l\<rparr>) q
      else link_level l (fst (last (ys @ xs))) (fst (hd (ys @ xs))) q)"

lemma hang_level_ok:
  assumes ring: "xs @ ys \<noteq> [] \<Longrightarrow> ring (lN (deref q)) (lP (deref q)) (map fst (xs @ ys))"
    and l: "deref q l \<noteq> None" "l \<notin> fst ` set (xs @ ys)" and dom: "fst ` set (xs @ ys) \<subseteq> dom (deref q)"
    and inv: "pool_inv q"
  defines "q' \<equiv> hang_level l xs ys q"
  shows "pool_inv q'" "capacity q' = capacity q" "dom (deref q') = dom (deref q)"
    "lC (deref q') = lC (deref q)"
    "ring (lN (deref q')) (lP (deref q')) (map fst (xs @ (l, pr, os) # ys))"
    "\<And>y. y \<notin> insert l (fst ` set (xs @ ys)) \<Longrightarrow>
       lN (deref q') y = lN (deref q) y \<and> lP (deref q') y = lP (deref q) y"
proof -
  have *: "pool_inv q' \<and> capacity q' = capacity q \<and> dom (deref q') = dom (deref q) \<and>
    lC (deref q') = lC (deref q) \<and> ring (lN (deref q')) (lP (deref q')) (map fst (xs @ (l, pr, os) # ys)) \<and>
    (\<forall>y. y \<notin> insert l (fst ` set (xs @ ys)) \<longrightarrow>
       lN (deref q') y = lN (deref q) y \<and> lP (deref q') y = lP (deref q) y)"
  proof (cases "xs @ ys = []")
    case True
    then show ?thesis using l inv by (simp add: q'_def hang_level_def views poke_frame del: not_None_eq)
  next
    case False
    then have q': "q' = link_level l (fst (last (ys @ xs))) (fst (hd (ys @ xs))) q"
      by (auto simp: q'_def hang_level_def)
    have "ys @ xs \<noteq> []" using False by auto
    then have hl: "hd (ys @ xs) \<in> set (xs @ ys)" "last (ys @ xs) \<in> set (xs @ ys)"
      using hd_in_set [of "ys @ xs"] last_in_set [of "ys @ xs"] by auto
    then have "deref q (fst (last (ys @ xs))) \<noteq> None" "deref q (fst (hd (ys @ xs))) \<noteq> None"
      using dom by blast+
    note V = link_level_views [OF l(1) this, folded q']
    show ?thesis
      using V inv hl link_level_ring [OF ring [OF False] l dom, of pr os, folded q'] by auto
  qed
  then show "pool_inv q'" "capacity q' = capacity q" "dom (deref q') = dom (deref q)"
    "lC (deref q') = lC (deref q)"
    "ring (lN (deref q')) (lP (deref q')) (map fst (xs @ (l, pr, os) # ys))" by simp_all
  show "lN (deref q') y = lN (deref q) y \<and> lP (deref q') y = lP (deref q) y"
    if "y \<notin> insert l (fst ` set (xs @ ys))" for y
    using * that by blast
qed

lemma linkOrder_new:
  assumes ok: "ladder_ok b {x} g" and v: "oheap b x = Some v" "mo_side v = s" "mo_price v = pr"
    and s: "s \<in> sides" and room: "available (orders_at_price_pool b) \<noteq> 0" and g: "g s = xs @ ys"
    and order: "\<And>e. e \<in> set xs \<Longrightarrow> better s (rprice e) pr" "\<And>e. e \<in> set ys \<Longrightarrow> better s pr (rprice e)"
  shows "\<exists>b' l. linkOrder x b = Some b' \<and> ladder_ok b' {} (g(s := xs @ (l, pr, [x]) # ys)) \<and>
     oS (oheap b') = oS (oheap b) \<and> Ladder.more b' = Ladder.more b \<and>
     capacity (orders_at_price_pool b') = capacity (orders_at_price_pool b) \<and>
     capacity (order_pool b') = capacity (order_pool b)"
proof -
  note L = ladder_okD [OF ok]
  note S = L(3) [OF s, unfolded g]
  let ?l = "top_slot (orders_at_price_pool b)"
  let ?lv = "\<lparr>lv_side = s, lv_price = pr, first_order = Some x, prev_entry = None, next_entry = None\<rparr>"
  let ?lp = "put_slot ?lv (orders_at_price_pool b)"
  let ?op = "poke x (\<lambda>v. v\<lparr>next_order := Some x, prev_order := Some x\<rparr>) (order_pool b)"
  let ?b = "b\<lparr>order_pool := ?op, orders_at_price_pool := ?lp\<rparr>"
  note put = put_slot_laws(1-3) [OF L(1) room, where x = ?lv] put_slot_laws(4) [OF L(1) room]
  have l: "?l \<notin> fst ` set (xs @ ys)" using put(4) ladder_dom(1) [OF ok s] g by auto
  have price: "pr \<notin> rprice ` set (xs @ ys)" using order by force
  have none: "getOrdersAtPrice pr s b = None"
    using fun_cong [OF rungs_okD(5) [OF S], of pr] price by (simp add: getOrdersAtPrice_def)
  have run: "linkOrder x b = addOrdersAtPrice ?l ?b"
    using v none room by (simp add: linkOrder_def upd_order_eq allocate_put)
  have fresh: "x \<notin> set (ptrs (xs @ ys))" using ladder_dom(4) [OF ok s] g by simp
  have oviews: "oN (deref ?op) = (oN (oheap b))(x \<mapsto> x)" "oP (deref ?op) = (oP (oheap b))(x \<mapsto> x)"
    "oT (deref ?op) = oT (oheap b)" "oS (deref ?op) = oS (oheap b)"
    using v by (simp_all add: views)
  have tag: "oT (oheap b) x = Some (s, pr)" using v by (simp add: oT_def)
  have S': "rungs_ok (deref ?lp) (oheap b) s (best_of b s) (\<lambda>p. price_orders_at_price b (s, p)) (xs @ ys)"
    by (rule side_frame [OF S]) (use l in \<open>simp_all add: put views\<close>, metis)
  let ?q = "hang_level ?l xs ys ?lp"
  let ?pm = "(price_orders_at_price b)((s, pr) \<mapsto> ?l)"
  let ?b1 = "b\<lparr>order_pool := ?op, price_orders_at_price := ?pm, orders_at_price_pool := ?q\<rparr>"
  let ?b2 = "if xs = [] then set_best s (Some ?l) ?b1 else ?b1"
  have add: "addOrdersAtPrice ?l ?b = Some ?b2"
  proof (cases "xs @ ys = []")
    case True
    then have "best_of b s = None" using rungs_okD(1) [OF S] by simp
    with True show ?thesis
      by (simp add: addOrdersAtPrice_def put upd_level_eq hang_level_def) (simp add: set_best_def)
  next
    case False
    have "addOrdersAtPrice ?l ?b = Some (let b1 = ?b\<lparr>price_orders_at_price := ?pm, orders_at_price_pool := ?q\<rparr>
        in if xs = [] then set_best s (Some ?l) b1 else b1)"
      using addOrdersAtPrice_run [of ?b "oheap b" s _ xs ys ?l ?lv pr] S' False order put
      by (simp add: hang_level_def)
    then show ?thesis by (simp add: Let_def)
  qed
  have live: "fst ` set (xs @ ys) \<subseteq> dom (deref ?lp)"
    using rungs_live(2) [OF S'] by blast
  have lin: "deref ?lp ?l \<noteq> None" by (simp add: put)
  note H = hang_level_ok(1-4,6) [OF rungs_okD(2) [OF S'] lin l live put(2), unfolded put(1,3)]
    hang_level_ok(5) [OF rungs_okD(2) [OF S'] lin l live put(2), of pr "[x]"]
  have cont: "lC (deref ?q) = (lC (lheap b))(?l \<mapsto> (s, pr, Some x))" using H(4) by (simp add: views)
  have dq: "dom (deref ?q) = insert ?l (dom (lheap b))" using H(3) by simp
  have "rungs_ok (deref ?q) (deref ?op) s (if xs = [] then Some ?l else best_of b s)
     ((\<lambda>p. price_orders_at_price b (s, p))(pr \<mapsto> ?l)) (xs @ (?l, pr, [x]) # ys)"
    by (rule side_new_rung [OF S fresh l order _ _ _ cont H(6)]) (simp_all add: oviews tag)
  also have "(if xs = [] then Some ?l else best_of b s) = best_of ?b2 s"
    using s by simp
  also have "(\<lambda>p. price_orders_at_price b (s, p))(pr \<mapsto> ?l) = (\<lambda>p. price_orders_at_price ?b2 (s, p))"
    by (auto simp: fun_eq_iff)
  finally have side: "rungs_ok (deref ?q) (deref ?op) s (best_of ?b2 s)
     (\<lambda>p. price_orders_at_price ?b2 (s, p)) (xs @ (?l, pr, [x]) # ys)" .
  have pools: "orders_at_price_pool ?b2 = ?q" "order_pool ?b2 = ?op" "Ladder.more ?b2 = Ladder.more b"
    by simp_all
  have "ladder_ok ?b2 {} (g(s := xs @ (?l, pr, [x]) # ys))"
  proof (rule ladder_replace [OF ok s, where b' = "?b2"], unfold pools)
    show "lN (deref ?q) y = lN (lheap b) y \<and> lP (deref ?q) y = lP (lheap b) y \<and> lC (deref ?q) y = lC (lheap b) y"
      if "y \<notin> fst ` set (xs @ (?l, pr, [x]) # ys) \<union> fst ` set (g s)" for y
      using H(5) [of y] that g by (simp add: cont views)
    show "fst ` set (xs @ (?l, pr, [x]) # ys) \<inter> (dom (lheap b) - fst ` set (g s)) = {}"
      using put(4) by (auto simp: g)
    show "dom (deref ?q) = (dom (lheap b) - fst ` set (g s)) \<union> fst ` set (xs @ (?l, pr, [x]) # ys)"
      using dq ladder_dom(1) [OF ok s] by (auto simp: g)
  qed (use side H(1) L(2) s fresh in \<open>auto simp: g oviews poke_frame\<close>)
  then show ?thesis using run add H(2) put(3) by (auto simp: oviews poke_frame)
qed

lemma linkOrder_ok:
  assumes ok: "ladder_ok b {x} g" and v: "oheap b x = Some v" "mo_side v = s" "mo_price v = pr"
    and s: "s \<in> sides"
    and room: "getOrdersAtPrice pr s b = None \<Longrightarrow> available (orders_at_price_pool b) \<noteq> 0"
  shows "\<exists>b' ls as bs. linkOrder x b = Some b' \<and> ladder_ok b' {} (g(s := ls)) \<and>
     ptrs (g s) = as @ bs \<and> ptrs ls = as @ x # bs \<and>
     (\<forall>y \<in> set as. \<exists>p. oT (oheap b) y = Some (s, p) \<and> \<not> better s pr p) \<and>
     (\<forall>y \<in> set bs. \<exists>p. oT (oheap b) y = Some (s, p) \<and> better s pr p) \<and>
     oS (oheap b') = oS (oheap b) \<and> Ladder.more b' = Ladder.more b \<and>
     capacity (orders_at_price_pool b') = capacity (orders_at_price_pool b) \<and>
     capacity (order_pool b') = capacity (order_pool b)"
proof -
  note S = ladder_okD(3) [OF ok s]
  note D = rungs_okD [OF S]
  have tag: "\<exists>p. oT (oheap b) y = Some (s, p) \<and> (\<exists>e \<in> set es. p = rprice e)"
    if y: "y \<in> set (ptrs es)" and es: "set es \<subseteq> set (g s)" for y es
  proof -
    obtain e where e: "e \<in> set es" "y \<in> set (rorders e)" using y by (auto simp: set_ptrs)
    then have "rung_ok (lheap b) (oheap b) s e" using D(4) es by blast
    then have "oT (oheap b) y = Some (s, rprice e)" using e(2) by (simp add: rung_ok_def)
    then show ?thesis using e(1) by blast
  qed
  show ?thesis
  proof (cases "getOrdersAtPrice pr s b")
    case (Some l)
    then have "price_orders_at_price b (s, pr) = Some l" by (simp add: getOrdersAtPrice_def)
    with S obtain xs os ys where g: "g s = xs @ (l, pr, os) # ys" by (rule rung_split)
    have srt: "\<forall>e \<in> set xs. better s (rprice e) pr" "\<forall>e \<in> set ys. better s pr (rprice e)"
      using D(3) by (auto simp: g sorted_wrt_append)
    have "\<exists>p. oT (oheap b) y = Some (s, p) \<and> \<not> better s pr p" if "y \<in> set (ptrs xs @ os)" for y
      using tag [of y "xs @ [(l, pr, os)]"] that srt(1) by (auto simp: g dest: better_asym)
    moreover have "\<exists>p. oT (oheap b) y = Some (s, p) \<and> better s pr p" if "y \<in> set (ptrs ys)" for y
      using tag [of y ys] that srt(2) by (auto simp: g)
    moreover have "ptrs (g s) = (ptrs xs @ os) @ ptrs ys"
      "ptrs (xs @ (l, pr, os @ [x]) # ys) = (ptrs xs @ os) @ x # ptrs ys" by (simp_all add: g)
    ultimately show ?thesis using linkOrder_existing [OF ok v s g] by metis
  next
    case None
    then have "pr \<notin> rprice ` set (g s)"
      using fun_cong [OF D(5), of pr] by (simp add: getOrdersAtPrice_def)
    with D(3) obtain xs ys where g: "g s = xs @ ys" and
      srt: "\<And>e. e \<in> set xs \<Longrightarrow> better s (rprice e) pr" "\<And>e. e \<in> set ys \<Longrightarrow> better s pr (rprice e)"
      by (rule price_split) blast
    have "\<exists>p. oT (oheap b) y = Some (s, p) \<and> \<not> better s pr p" if "y \<in> set (ptrs xs)" for y
      using tag [of y xs] that srt(1) by (fastforce simp: g dest: better_asym)
    moreover have "\<exists>p. oT (oheap b) y = Some (s, p) \<and> better s pr p" if "y \<in> set (ptrs ys)" for y
      using tag [of y ys] that srt(2) by (auto simp: g)
    moreover have "ptrs (g s) = ptrs xs @ ptrs ys"
      "\<And>l. ptrs (xs @ (l, pr, [x]) # ys) = ptrs xs @ x # ptrs ys" by (simp_all add: g)
    ultimately show ?thesis using linkOrder_new [OF ok v s room [OF None] g srt] by metis
  qed
qed

subsection \<open>Unlinking an order\<close>

definition unhang_level :: "nat \<Rightarrow> rung list \<Rightarrow> rung list \<Rightarrow> OrdersAtPrice MemPool \<Rightarrow> OrdersAtPrice MemPool" where
  "unhang_level l xs ys q = drop_slot l
     (if xs @ ys = [] then q
      else let bef = fst (last (ys @ xs)); after = fst (hd (ys @ xs)) in
        poke l (\<lambda>v. v\<lparr>prev_entry := None, next_entry := None\<rparr>)
          (poke after (\<lambda>v. v\<lparr>prev_entry := Some bef\<rparr>) (poke bef (\<lambda>v. v\<lparr>next_entry := Some after\<rparr>) q)))"

lemma unhang_level_ok:
  assumes ring: "ring (lN (deref q)) (lP (deref q)) (map fst (xs @ (l, pr, os) # ys))"
    and dom: "fst ` set (xs @ (l, pr, os) # ys) \<subseteq> dom (deref q)" and inv: "pool_inv q"
  defines "q' \<equiv> unhang_level l xs ys q"
  shows "pool_inv q' \<and> capacity q' = capacity q \<and> dom (deref q') = dom (deref q) - {l} \<and>
    lC (deref q') = (lC (deref q))(l := None) \<and>
    (xs @ ys \<noteq> [] \<longrightarrow> ring (lN (deref q')) (lP (deref q')) (map fst (xs @ ys))) \<and>
    (\<forall>y. y \<notin> fst ` set (xs @ (l, pr, os) # ys) \<longrightarrow>
       lN (deref q') y = lN (deref q) y \<and> lP (deref q') y = lP (deref q) y)"
proof (cases "xs @ ys = []")
  case True
  then show ?thesis using inv by (auto simp: q'_def unhang_level_def drop_slot_laws views)
next
  case False
  let ?b = "fst (last (ys @ xs))" and ?a = "fst (hd (ys @ xs))"
  have ne: "ys @ xs \<noteq> []" using False by auto
  then have hl: "hd (ys @ xs) \<in> set (xs @ ys)" "last (ys @ xs) \<in> set (xs @ ys)"
    using hd_in_set [of "ys @ xs"] last_in_set [of "ys @ xs"] by auto
  have al: "deref q ?a \<noteq> None" "deref q ?b \<noteq> None" "deref q l \<noteq> None" using dom hl by auto
  have dist: "distinct (map fst (xs @ (l, pr, os) # ys))" using ring by (rule ring_distinct)
  then have ab: "?a \<noteq> l" "?b \<noteq> l" using hl by force+
  let ?p = "poke l (\<lambda>v. v\<lparr>prev_entry := None, next_entry := None\<rparr>)
          (poke ?a (\<lambda>v. v\<lparr>prev_entry := Some ?b\<rparr>) (poke ?b (\<lambda>v. v\<lparr>next_entry := Some ?a\<rparr>) q))"
  have q': "q' = drop_slot l ?p" using False by (auto simp: q'_def unhang_level_def Let_def)
  have pinv: "pool_inv ?p" using inv by (simp add: poke_frame)
  have V: "lN (deref q') = (lN (deref q))(?b \<mapsto> ?a, l := None)"
    "lP (deref q') = (lP (deref q))(?a \<mapsto> ?b, l := None)" "lC (deref q') = (lC (deref q))(l := None)"
    using al by (simp_all add: q' drop_slot_laws [OF pinv] views del: not_None_eq)
  have "ring (lN (deref q')) (lP (deref q')) (map fst xs @ map fst ys)"
  proof (rule ring_unlink [of "lN (deref q)" "lP (deref q)" "map fst xs" l "map fst ys"])
    show "ring (lN (deref q)) (lP (deref q)) (map fst xs @ l # map fst ys)" using ring by simp
    from ring_next [OF this] show "lN (deref q) l = Some ?a"
      using ne by (cases ys; cases xs) auto
    have "ring (lN (deref q)) (lP (deref q)) (l # map fst (ys @ xs))"
      using ring ring_rotate [of _ _ "map fst xs" "l # map fst ys"] by simp
    from ring_head(2) [OF this] show "lP (deref q) l = Some ?b"
      using ne last_map [of "ys @ xs" fst] by (auto simp del: map_append)
  qed (use False ab dist in \<open>auto simp: V\<close>)
  then have r: "ring (lN (deref q')) (lP (deref q')) (map fst (xs @ ys))" by simp
  have fr: "lN (deref q') y = lN (deref q) y \<and> lP (deref q') y = lP (deref q) y"
    if "y \<notin> fst ` set (xs @ (l, pr, os) # ys)" for y
    using that hl by (auto simp: V)
  have "pool_inv q'" "capacity q' = capacity q" "dom (deref q') = dom (deref q) - {l}"
    using pinv by (simp_all add: q' drop_slot_laws [OF pinv] poke_frame)
  with V(3) r fr show ?thesis by blast
qed

lemma removeOrdersAtPrice_run:
  assumes ok: "rungs_ok (lheap b) oh s (best_of b s) (\<lambda>p. price_orders_at_price b (s, p)) (xs @ (l, pr, os) # ys)"
    and inv: "pool_inv (orders_at_price_pool b)" and s: "s \<in> sides"
  defines "b1 \<equiv> b\<lparr>price_orders_at_price := (price_orders_at_price b)((s, pr) := None),
      orders_at_price_pool := unhang_level l xs ys (orders_at_price_pool b)\<rparr>"
  shows "removeOrdersAtPrice s pr b = Some (set_best s (front (xs @ ys)) b1)"
proof -
  note D = rungs_okD [OF ok]
  let ?q = "orders_at_price_pool b"
  have level: "getOrdersAtPrice pr s b = Some l"
    using fun_cong [OF D(5), of pr] D(7) by (simp add: getOrdersAtPrice_def rung_map_insert)
  have ring: "ring (lN (lheap b)) (lP (lheap b)) (map fst xs @ l # map fst ys)" using D(2) by simp
  have live: "lheap b (fst e) \<noteq> None" if "e \<in> set (xs @ (l, pr, os) # ys)" for e
    using rungs_live(2) [OF ok that] .
  from live [of "(l, pr, os)"] obtain lv where lv: "lheap b l = Some lv" by auto
  show ?thesis
  proof (cases "xs @ ys = []")
    case True
    then have "next_entry lv = Some l" using ring lv by (simp add: lN_def)
    then show ?thesis using True level lv inv
      by (simp add: removeOrdersAtPrice_def dispose_drop b1_def unhang_level_def set_best_def)
  next
    case False
    let ?b = "fst (last (ys @ xs))" and ?a = "fst (hd (ys @ xs))"
    have ne: "ys @ xs \<noteq> []" using False by auto
    then have hl: "hd (ys @ xs) \<in> set (xs @ ys)" "last (ys @ xs) \<in> set (xs @ ys)"
      using hd_in_set [of "ys @ xs"] last_in_set [of "ys @ xs"] by auto
    have al: "lheap b ?a \<noteq> None" "lheap b ?b \<noteq> None" using live hl by auto
    have ab: "?a \<noteq> l" using hl D(8) by force
    have nxt: "next_entry lv = Some ?a"
      using ring_next [OF ring] ne lv by (cases ys; cases xs) (auto simp: lN_def)
    have "ring (lN (lheap b)) (lP (lheap b)) (l # map fst (ys @ xs))"
      using ring ring_rotate [of _ _ "map fst xs" "l # map fst ys"] by simp
    from ring_head(2) [OF this] have prev: "prev_entry lv = Some ?b"
      using ne last_map [of "ys @ xs" fst] lv by (auto simp: lP_def simp del: map_append)
    have best: "best_of b s = Some l \<longleftrightarrow> xs = []"
      using D(1,8) by (cases xs) auto
    have front: "front (xs @ ys) = (if xs = [] then Some ?a else best_of b s)"
      using D(1) ne by (cases ys; cases xs) auto
    show ?thesis
      using level lv nxt prev ab al inv best front False
      by (simp add: removeOrdersAtPrice_def dispose_drop b1_def unhang_level_def upd_level_eq
          Let_def poke_frame set_best_same del: not_None_eq)
        (simp add: set_best_def)
  qed
qed

lemma unlinkOrder_single:
  assumes ok: "ladder_ok b {} g" and s: "s \<in> sides" and g: "g s = xs @ (l, pr, [x]) # ys"
  shows "\<exists>b'. unlinkOrder x b = Some b' \<and> ladder_ok b' {x} (g(s := xs @ ys)) \<and>
     oS (oheap b') = oS (oheap b) \<and> Ladder.more b' = Ladder.more b \<and>
     capacity (orders_at_price_pool b') = capacity (orders_at_price_pool b) \<and>
     capacity (order_pool b') = capacity (order_pool b)"
proof -
  note L = ladder_okD [OF ok]
  note S = L(3) [OF s, unfolded g]
  note D = rungs_okD [OF S]
  have R: "rung_ok (lheap b) (oheap b) s (l, pr, [x])" by (rule D(4)) simp
  obtain v where v: "oheap b x = Some v" "mo_side v = s" "mo_price v = pr" "prev_order v = Some x"
    using rung_okD(2,4) [OF R] by (auto simp: oT_def oP_def)
  let ?q = "unhang_level l xs ys (orders_at_price_pool b)"
  let ?b1 = "b\<lparr>price_orders_at_price := (price_orders_at_price b)((s, pr) := None), orders_at_price_pool := ?q\<rparr>"
  let ?b = "set_best s (front (xs @ ys)) ?b1"
  have run: "unlinkOrder x b = Some ?b"
    using v removeOrdersAtPrice_run [OF S L(1) s] by (simp add: unlinkOrder_def)
  have "fst ` set (xs @ (l, pr, [x]) # ys) \<subseteq> dom (lheap b)" using ladder_dom(1) [OF ok s] g by simp
  with D(2) L(1) have U: "pool_inv ?q" "capacity ?q = capacity (orders_at_price_pool b)"
    "dom (deref ?q) = dom (lheap b) - {l}" "lC (deref ?q) = (lC (lheap b))(l := None)"
    "xs @ ys \<noteq> [] \<Longrightarrow> ring (lN (deref ?q)) (lP (deref ?q)) (map fst (xs @ ys))"
    "\<And>y. y \<notin> fst ` set (xs @ (l, pr, [x]) # ys) \<Longrightarrow>
       lN (deref ?q) y = lN (lheap b) y \<and> lP (deref ?q) y = lP (lheap b) y"
    using unhang_level_ok [of "orders_at_price_pool b" xs l pr "[x]" ys] by blast+
  have "rungs_ok (deref ?q) (oheap b) s (front (xs @ ys)) ((\<lambda>p. price_orders_at_price b (s, p))(pr := None)) (xs @ ys)"
    by (rule side_drop_rung [OF S U(5)]) (simp_all add: U(4))
  also have "(\<lambda>p. price_orders_at_price b (s, p))(pr := None) = (\<lambda>p. price_orders_at_price ?b (s, p))"
    by (auto simp: fun_eq_iff)
  finally have side: "rungs_ok (lheap ?b) (oheap ?b) s (best_of ?b s) (\<lambda>p. price_orders_at_price ?b (s, p)) (xs @ ys)"
    using s by simp
  have dl: "l \<notin> fst ` set (xs @ ys)" using D(8) by auto
  have "ladder_ok ?b {x} (g(s := xs @ ys))"
  proof (rule ladder_replace [OF ok s side])
    show "lN (lheap ?b) y = lN (lheap b) y \<and> lP (lheap ?b) y = lP (lheap b) y \<and> lC (lheap ?b) y = lC (lheap b) y"
      if "y \<notin> fst ` set (xs @ ys) \<union> fst ` set (g s)" for y
      using U(4) U(6) [of y] that g by simp
    show "fst ` set (xs @ ys) \<inter> (dom (lheap b) - fst ` set (g s)) = {}" by (auto simp: g)
    show "dom (lheap ?b) = (dom (lheap b) - fst ` set (g s)) \<union> fst ` set (xs @ ys)"
      using U(3) ladder_dom(1) [OF ok s] dl by (auto simp: g image_Un)
    show "{x} = {} \<union> set (ptrs (g s)) - set (ptrs (xs @ ys))" using D(6) by (auto simp: g)
  qed (use U(1) L(2) s in \<open>auto simp: g\<close>)
  then show ?thesis using run U(2) by auto
qed

lemma unlinkOrder_many:
  assumes ok: "ladder_ok b {} g" and s: "s \<in> sides" and g: "g s = xs @ (l, pr, as @ x # bs) # ys"
    and ne: "as @ bs \<noteq> []"
  shows "\<exists>b'. unlinkOrder x b = Some b' \<and> ladder_ok b' {x} (g(s := xs @ (l, pr, as @ bs) # ys)) \<and>
     oS (oheap b') = oS (oheap b) \<and> Ladder.more b' = Ladder.more b \<and>
     capacity (orders_at_price_pool b') = capacity (orders_at_price_pool b) \<and>
     capacity (order_pool b') = capacity (order_pool b)"
proof -
  note L = ladder_okD [OF ok]
  note S = L(3) [OF s, unfolded g]
  note D = rungs_okD [OF S]
  have R: "rung_ok (lheap b) (oheap b) s (l, pr, as @ x # bs)" by (rule D(4)) simp
  note R = rung_okD [OF R]
  have dist: "distinct (as @ x # bs)" using R(2) by (rule ring_distinct)
  let ?a = "hd (bs @ as)" and ?p = "last (bs @ as)"
  have "bs @ as \<noteq> []" using ne by auto
  then have hl: "?a \<in> set (as @ bs)" "?p \<in> set (as @ bs)"
    using hd_in_set [of "bs @ as"] last_in_set [of "bs @ as"] by auto
  have live: "oheap b y \<noteq> None" if "y \<in> set (as @ x # bs)" for y
    using R(4) [OF that] by (auto simp: oT_def)
  have xne: "?a \<noteq> x" "?p \<noteq> x" using hl dist by auto
  have "oN (oheap b) x = Some ?a" using ring_next [OF R(2)] ne by (cases bs; cases as) auto
  moreover have "ring (oN (oheap b)) (oP (oheap b)) (x # bs @ as)"
    using R(2) ring_rotate [of _ _ as "x # bs"] by simp
  from ring_head(2) [OF this] have "oP (oheap b) x = Some ?p" using ne by auto
  ultimately have nb: "oN (oheap b) x = Some ?a" "oP (oheap b) x = Some ?p" by auto
  then obtain v where v: "oheap b x = Some v" "mo_side v = s" "mo_price v = pr"
    "prev_order v = Some ?p" "next_order v = Some ?a"
    using R(4) [of x] by (auto simp: oT_def oP_def oN_def)
  have level: "getOrdersAtPrice pr s b = Some l"
    using fun_cong [OF D(5), of pr] D(7) by (simp add: getOrdersAtPrice_def rung_map_insert)
  obtain lv where lv: "lheap b l = Some lv" "first_order lv = Some (hd (as @ x # bs))"
    using R(3) by (rule lCD)
  have first: "hd (as @ x # bs) = x \<longleftrightarrow> as = []" using dist by (cases as) auto
  let ?op = "poke x (\<lambda>v. v\<lparr>prev_order := None, next_order := None\<rparr>)
     (poke ?a (\<lambda>v. v\<lparr>prev_order := Some ?p\<rparr>) (poke ?p (\<lambda>v. v\<lparr>next_order := Some ?a\<rparr>) (order_pool b)))"
  let ?lp = "if as = [] then poke l (\<lambda>v. v\<lparr>first_order := Some ?a\<rparr>) (orders_at_price_pool b)
     else orders_at_price_pool b"
  let ?b = "b\<lparr>order_pool := ?op, orders_at_price_pool := ?lp\<rparr>"
  have run: "unlinkOrder x b = Some ?b"
    using v level lv first xne live [of ?a] live [of ?p] hl
    by (simp add: unlinkOrder_def upd_order_eq upd_level_eq del: not_None_eq)
  have oviews: "oN (deref ?op) = (oN (oheap b))(?p \<mapsto> ?a, x := None)"
    "oP (deref ?op) = (oP (oheap b))(?a \<mapsto> ?p, x := None)" "oT (deref ?op) = oT (oheap b)"
    "oS (deref ?op) = oS (oheap b)"
    using live [of ?a] live [of ?p] live [of x] hl by (simp_all add: views del: not_None_eq)
  have lviews: "lN (deref ?lp) = lN (lheap b)" "lP (deref ?lp) = lP (lheap b)"
    "lC (deref ?lp) = (lC (lheap b))(l \<mapsto> (s, pr, Some (hd (as @ bs))))"
    using R(3) ne by (auto simp: views fun_upd_idem)
  have side: "rungs_ok (deref ?lp) (deref ?op) s (best_of b s) (\<lambda>p. price_orders_at_price b (s, p))
     (xs @ (l, pr, as @ bs) # ys)"
    by (rule side_drop_order [OF S ne nb]) (use xne lviews in \<open>auto simp: oviews\<close>)
  have "ladder_ok ?b {x} (g(s := xs @ (l, pr, as @ bs) # ys))"
    by (rule ladder_replace [OF ok s])
      (use side L(1,2) ladder_dom(1) [OF ok s] hl dist D(6) in
        \<open>auto simp: g oviews lviews poke_frame image_Un\<close>)
  then show ?thesis using run by (auto simp: oviews poke_frame)
qed

end
