(* ===== verification/Ladder_Lists.thy ===== *)
theory Ladder_Lists
  imports Ladder_Ops
begin

text \<open>
  The ladder as one list of orders per side, in matching order. \<open>book_list b g s\<close> reads the orders of
  side \<open>s\<close>, without their links, best price first and in arrival order within a price. Linking an order is
  \<open>insert_order\<close>, unlinking one is a filter, and the reads of the books (level at a price, best order, room
  in the pools) are reads of these lists.
\<close>

definition insert_order :: "'e OrderNode_scheme \<Rightarrow> 'e OrderNode_scheme list \<Rightarrow> 'e OrderNode_scheme list" where
  "insert_order x os =
     takeWhile (\<lambda>y. \<not> better (mo_side x) (mo_price x) (mo_price y)) os @
     x # dropWhile (\<lambda>y. \<not> better (mo_side x) (mo_price x) (mo_price y)) os"

definition book_list :: "('e OrderNode_scheme, 'z) Ladder_scheme \<Rightarrow> (Side \<Rightarrow> rung list) \<Rightarrow> Side \<Rightarrow>
    'e OrderNode_scheme list" where
  "book_list b g s = map (\<lambda>x. the (oS (oheap b) x)) (ptrs (g s))"

lemma insert_order_split:
  assumes "\<And>y. y \<in> set as \<Longrightarrow> \<not> better (mo_side x) (mo_price x) (mo_price y)"
    and "\<And>y. y \<in> set bs \<Longrightarrow> better (mo_side x) (mo_price x) (mo_price y)"
  shows "insert_order x (as @ bs) = as @ x # bs"
  using assms by (cases bs) (auto simp: insert_order_def takeWhile_append2 dropWhile_append2)

lemma strip_sel [simp]:
  "mo_side (strip v) = mo_side v" "mo_price (strip v) = mo_price v" "strip (strip v) = strip v"
  by (simp_all add: strip_def)

lemma oT_oS: "oT h y = map_option (\<lambda>v. (mo_side v, mo_price v)) (oS h y)"
  by (simp add: oT_def oS_def option.map_comp comp_def)

subsection \<open>The life of an order\<close>

lemma unlinkOrder_ok:
  assumes ok: "ladder_ok b {} g" and s: "s \<in> sides" and x: "x \<in> set (ptrs (g s))"
  shows "\<exists>b' ls. unlinkOrder x b = Some b' \<and> ladder_ok b' {x} (g(s := ls)) \<and>
     ptrs ls = filter (\<lambda>y. y \<noteq> x) (ptrs (g s)) \<and>
     oS (oheap b') = oS (oheap b) \<and> Ladder.more b' = Ladder.more b \<and>
     capacity (orders_at_price_pool b') = capacity (orders_at_price_pool b) \<and>
     capacity (order_pool b') = capacity (order_pool b)"
proof -
  note D = rungs_okD [OF ladder_okD(3) [OF ok s]]
  obtain e where "e \<in> set (g s)" and xe: "x \<in> set (rorders e)" using x by (auto simp: set_ptrs)
  then obtain xs ys where "g s = xs @ e # ys" by (auto simp: in_set_conv_decomp)
  with xe have "g s = xs @ e # ys" "x \<in> set (rorders e)" by auto
  then obtain l pr as bs where g: "g s = xs @ (l, pr, as @ x # bs) # ys"
    by (cases e) (auto simp: in_set_conv_decomp)
  have dist: "distinct (ptrs xs @ (as @ x # bs) @ ptrs ys)" using D(6) by (simp add: g)
  then have rest: "filter (\<lambda>y. y \<noteq> x) (ptrs (g s)) = ptrs xs @ (as @ bs) @ ptrs ys"
    by (simp add: g filter_neq_id)
  show ?thesis
  proof (cases "as @ bs = []")
    case True
    then show ?thesis using unlinkOrder_single [OF ok s, of xs l pr x ys] g rest by fastforce
  next
    case False
    then show ?thesis using unlinkOrder_many [OF ok s g False] rest by fastforce
  qed
qed

lemma oS_dead [views]: "oS (h(y := None)) = (oS h)(y := None)"
  by (auto simp: fun_eq_iff oS_def)

lemma oS_new [views]: "oS (h(y \<mapsto> v)) = (oS h)(y \<mapsto> strip v)"
  by (auto simp: fun_eq_iff oS_def)

lemma ladder_drop:
  assumes ok: "ladder_ok b {x} g"
  shows "ladder_ok (b\<lparr>order_pool := drop_slot x (order_pool b)\<rparr>) {} g"
proof -
  note L = ladder_okD [OF ok]
  note Q = drop_slot_laws [OF L(2), of x]
  have "rungs_ok (lheap b) (deref (drop_slot x (order_pool b))) s (best_of b s)
      (\<lambda>p. price_orders_at_price b (s, p)) (g s)" if s: "s \<in> sides" for s
    by (rule side_frame [OF L(3) [OF s]])
      (use ladder_dom(4) [OF ok s] in \<open>auto simp: Q oN_def oP_def oT_def\<close>)
  moreover have "dom (oheap b) - {x} = (\<Union>s \<in> sides. set (ptrs (g s)))"
    using L(7,8) by auto
  ultimately show ?thesis using L Q unfolding ladder_ok_def by simp
qed

lemma ladder_put:
  assumes ok: "ladder_ok b {} g" and room: "available (order_pool b) \<noteq> 0"
  shows "ladder_ok (b\<lparr>order_pool := put_slot v (order_pool b)\<rparr>) {top_slot (order_pool b)} g"
    "oheap (b\<lparr>order_pool := put_slot v (order_pool b)\<rparr>) (top_slot (order_pool b)) = Some v"
    "top_slot (order_pool b) \<notin> (\<Union>s \<in> sides. set (ptrs (g s)))"
proof -
  note L = ladder_okD [OF ok]
  let ?x = "top_slot (order_pool b)"
  note Q = put_slot_laws(1-3) [OF L(2) room, of v] put_slot_laws(4) [OF L(2) room]
  show x: "?x \<notin> (\<Union>s \<in> sides. set (ptrs (g s)))" using Q(4) L(7) by blast
  have "rungs_ok (lheap b) (deref (put_slot v (order_pool b))) s (best_of b s)
      (\<lambda>p. price_orders_at_price b (s, p)) (g s)" if s: "s \<in> sides" for s
    by (rule side_frame [OF L(3) [OF s]]) (use x s in \<open>auto simp: Q oN_def oP_def oT_def\<close>)
  then show "ladder_ok (b\<lparr>order_pool := put_slot v (order_pool b)\<rparr>) {?x} g"
    using L Q x unfolding ladder_ok_def by simp
  show "oheap (b\<lparr>order_pool := put_slot v (order_pool b)\<rparr>) ?x = Some v" by (simp add: Q)
qed

lemma ladder_poke:
  assumes ok: "ladder_ok b F g"
    and f: "\<And>v. mo_side (f v) = mo_side v \<and> mo_price (f v) = mo_price v \<and>
      prev_order (f v) = prev_order v \<and> next_order (f v) = next_order v"
  shows "ladder_ok (b\<lparr>order_pool := poke x f (order_pool b)\<rparr>) F g"
proof -
  note L = ladder_okD [OF ok]
  have same: "oN (deref (poke x f (order_pool b))) = oN (oheap b)"
    "oP (deref (poke x f (order_pool b))) = oP (oheap b)"
    "oT (deref (poke x f (order_pool b))) = oT (oheap b)"
    using f by (cases "oheap b x"; auto simp: deref_poke oN_def oP_def oT_def fun_eq_iff)+
  have "rungs_ok (lheap b) (deref (poke x f (order_pool b))) s (best_of b s)
      (\<lambda>p. price_orders_at_price b (s, p)) (g s)" if s: "s \<in> sides" for s
    by (rule side_frame [OF L(3) [OF s]]) (simp_all add: same)
  then show ?thesis using L unfolding ladder_ok_def by (simp add: poke_frame)
qed

subsection \<open>Reading the lists\<close>

lemma book_list_tag:
  assumes ok: "ladder_ok b F g" and s: "s \<in> sides" and v: "v \<in> set (book_list b g s)"
  shows "mo_side v = s" "strip v = v"
proof -
  obtain y where y: "y \<in> set (ptrs (g s))" "v = the (oS (oheap b) y)"
    using v by (auto simp: book_list_def)
  with rungs_live(1) [OF ladder_okD(3) [OF ok s]] show "mo_side v = s" "strip v = v"
    by (fastforce simp: oS_def)+
qed

lemma rungs_prices:
  assumes "rungs_ok lh oh s best pm ls"
  shows "(\<lambda>x. mo_price (the (oS oh x))) ` set (ptrs ls) = rprice ` set ls"
proof -
  have one: "(\<lambda>x. mo_price (the (oS oh x))) ` set (rorders e) = {rprice e}" if "e \<in> set ls" for e
  proof -
    have R: "rung_ok lh oh s (fst e, rprice e, rorders e)" using rungs_okD(4) [OF assms that] by simp
    have "mo_price (the (oS oh x)) = rprice e" if "x \<in> set (rorders e)" for x
      using rung_okD(4) [OF R that] by (auto simp: oT_oS)
    then show ?thesis using rung_okD(1) [OF R] by (cases "rorders e") auto
  qed
  have "(\<lambda>x. mo_price (the (oS oh x))) ` set (ptrs ls) =
      (\<Union>e \<in> set ls. (\<lambda>x. mo_price (the (oS oh x))) ` set (rorders e))"
    by (auto simp: ptrs_def)
  also have "\<dots> = (\<Union>e \<in> set ls. {rprice e})" using one by simp
  finally show ?thesis by auto
qed

lemma book_list_level:
  assumes ok: "ladder_ok b F g" and s: "s \<in> sides"
  shows "getOrdersAtPrice p s b = None \<longleftrightarrow> p \<notin> mo_price ` set (book_list b g s)"
    "length (g s) = card (mo_price ` set (book_list b g s))"
proof -
  note S = ladder_okD(3) [OF ok s]
  have eq: "mo_price ` set (book_list b g s) = rprice ` set (g s)"
    using rungs_prices [OF S] by (simp add: book_list_def image_image)
  show "getOrdersAtPrice p s b = None \<longleftrightarrow> p \<notin> mo_price ` set (book_list b g s)"
    using fun_cong [OF rungs_okD(5) [OF S], of p] by (simp add: getOrdersAtPrice_def eq)
  show "length (g s) = card (mo_price ` set (book_list b g s))"
    using distinct_card [OF rungs_okD(7) [OF S]] by (simp add: eq)
qed

lemma ladder_balance:
  assumes ok: "ladder_ok b {} g"
  shows "length (book_list b g BUY) + length (book_list b g SELL) + available (order_pool b) =
      capacity (order_pool b)"
    "card (mo_price ` set (book_list b g BUY)) + card (mo_price ` set (book_list b g SELL)) +
      available (orders_at_price_pool b) = capacity (orders_at_price_pool b)"
proof -
  note L = ladder_okD [OF ok]
  have sd: "BUY \<in> sides" "SELL \<in> sides" "sides = {BUY, SELL}" by (auto simp: sides_def)
  note B = rungs_okD [OF L(3) [OF sd(1)]] and S = rungs_okD [OF L(3) [OF sd(2)]]
  have "card (dom (oheap b)) = card (set (ptrs (g BUY)) \<union> set (ptrs (g SELL)))"
    using L(7) [unfolded sd(3)] by simp
  also have "\<dots> = length (ptrs (g BUY)) + length (ptrs (g SELL))"
    using L(4) [OF sd(1,2)] distinct_card [OF B(6)] distinct_card [OF S(6)]
    by (simp add: card_Un_disjoint)
  finally show "length (book_list b g BUY) + length (book_list b g SELL) + available (order_pool b) =
      capacity (order_pool b)"
    using pool_accounting [OF L(2)] by (simp add: book_list_def)
  have "card (dom (lheap b)) = card (set (map fst (g BUY)) \<union> set (map fst (g SELL)))"
    using L(6) [unfolded sd(3)] by simp
  also have "\<dots> = card (set (map fst (g BUY))) + card (set (map fst (g SELL)))"
    by (rule card_Un_disjoint) (use L(5) [OF sd(1,2)] in simp_all)
  also have "\<dots> = length (g BUY) + length (g SELL)"
    using distinct_card [OF B(8)] distinct_card [OF S(8)] by simp
  finally show "card (mo_price ` set (book_list b g BUY)) + card (mo_price ` set (book_list b g SELL)) +
      available (orders_at_price_pool b) = capacity (orders_at_price_pool b)"
    using pool_accounting [OF L(1)] book_list_level(2) [OF ok sd(1)] book_list_level(2) [OF ok sd(2)] by simp
qed

lemma ladder_room:
  assumes "ladder_ok b {} g"
  shows "available (order_pool b) = 0 \<longleftrightarrow>
      capacity (order_pool b) \<le> length (book_list b g BUY) + length (book_list b g SELL)"
    "available (orders_at_price_pool b) = 0 \<longleftrightarrow> capacity (orders_at_price_pool b) \<le>
      card (mo_price ` set (book_list b g BUY)) + card (mo_price ` set (book_list b g SELL))"
  using ladder_balance [OF assms] by linarith+

text \<open>The order the matching loop looks at, and the last order of a level.\<close>

lemma best_order:
  assumes ok: "ladder_ok b F g" and s: "s \<in> sides"
  shows "best_of b s = None \<longleftrightarrow> ptrs (g s) = []"
    "best_of b s = Some l \<Longrightarrow> \<exists>lv x v. lheap b l = Some lv \<and> first_order lv = Some x \<and>
       x = hd (ptrs (g s)) \<and> ptrs (g s) \<noteq> [] \<and> oheap b x = Some v"
proof -
  note S = ladder_okD(3) [OF ok s]
  have ne: "rorders e \<noteq> []" if "e \<in> set (g s)" for e
    using rungs_okD(4) [OF S that] by (auto simp: rung_ok_def dest: ring_not_Nil)
  then show "best_of b s = None \<longleftrightarrow> ptrs (g s) = []"
    using rungs_okD(1) [OF S] by (cases "g s") auto
  assume "best_of b s = Some l"
  then obtain pr os ls where g: "g s = (l, pr, os) # ls"
    using rungs_okD(1) [OF S] by (cases "g s") auto
  have R: "rung_ok (lheap b) (oheap b) s (l, pr, os)" by (rule rungs_okD(4) [OF S]) (simp add: g)
  note R = rung_okD [OF R]
  obtain lv where "lheap b l = Some lv" "first_order lv = Some (hd os)" using R(3) by (rule lCD)
  moreover have "\<exists>v. oheap b (hd os) = Some v" using R(1) R(4) [of "hd os"] by (auto simp: oT_def)
  ultimately show "\<exists>lv x v. lheap b l = Some lv \<and> first_order lv = Some x \<and>
       x = hd (ptrs (g s)) \<and> ptrs (g s) \<noteq> [] \<and> oheap b x = Some v"
    using R(1) by (auto simp: g)
qed

end
