(* ===== verification/ME_Book_Spec.thy ===== *)
theory ME_Book_Spec
  imports ME_Order_Book Ladder_Lists
begin

text \<open>
  The reference behaviour of a price-time priority book, with no pointers: each side is one list
  of resting orders, best price first and, within a price, in order of arrival. Matching
  consumes the opposite list from its head while the limit crosses; the remainder is inserted
  behind every order whose price is at least as good. \<open>ME_Book_Refinement\<close> shows that the
  pointer implementation computes exactly this.
\<close>

record SpecBook =
  sb_ticker :: TickerId
  sb_orders :: "Side \<Rightarrow> MEOrder list"
  sb_order_cap :: nat
  sb_level_cap :: nat
  sb_last :: "ClientId \<Rightarrow> OrderId \<Rightarrow> MEClientResponse option"
  sb_next_id :: OrderId
  sb_used :: "ClientId \<Rightarrow> OrderId set"
  sb_out :: "SinkMsg list"

definition spec_new :: "nat \<Rightarrow> nat \<Rightarrow> TickerId \<Rightarrow> SpecBook" where
  "spec_new levels orders ticker = \<lparr>sb_ticker = ticker, sb_orders = (\<lambda>_. []),
     sb_order_cap = orders, sb_level_cap = levels, sb_last = (\<lambda>_ _. None), sb_next_id = 1,
     sb_used = (\<lambda>_. {}), sb_out = []\<rparr>"

definition opp :: "Side \<Rightarrow> Side" where
  "opp s = (if s = BUY then SELL else BUY)"

subsection \<open>Output and the last response per order\<close>

fun spec_record :: "SinkMsg \<Rightarrow> (ClientId \<Rightarrow> OrderId \<Rightarrow> MEClientResponse option) \<Rightarrow>
    ClientId \<Rightarrow> OrderId \<Rightarrow> MEClientResponse option" where
  "spec_record (SinkMarket u) lst = lst"
| "spec_record (SinkResponse r) lst =
     (if unat (rs_client_id r) < ME_MAX_NUM_CLIENTS \<and>
         rs_type r \<notin> {Resp_REJECTED, Resp_CANCEL_REJECTED, Resp_STATE}
      then lst(rs_client_id r := (lst (rs_client_id r))(rs_client_order_id r \<mapsto> r))
      else lst)"

definition spec_emit :: "SinkMsg list \<Rightarrow> SpecBook \<Rightarrow> SpecBook" where
  "spec_emit ms A = A\<lparr>sb_last := fold spec_record ms (sb_last A), sb_out := sb_out A @ ms\<rparr>"

subsection \<open>Matching\<close>

definition fill_msgs :: "ClientId \<Rightarrow> OrderId \<Rightarrow> TickerId \<Rightarrow> Side \<Rightarrow> OrderId \<Rightarrow> Qty \<Rightarrow> Qty \<Rightarrow> MEOrder \<Rightarrow>
    SinkMsg list" where
  "fill_msgs client coid ticker side moid fill leaves ord =
     [SinkResponse (mk_response Resp_FILLED client ticker coid moid side (mo_price ord) fill leaves
        Rej_NONE),
      SinkResponse (mk_response Resp_FILLED (mo_client_id ord) ticker (mo_client_order_id ord)
        (mo_market_order_id ord) (mo_side ord) (mo_price ord) fill (mo_qty ord - fill) Rej_NONE),
      SinkMarket (mk_update Mkt_TRADE OrderId_INVALID ticker side (mo_price ord) fill
        Priority_INVALID),
      (if mo_qty ord - fill = 0
       then SinkMarket (mk_update Mkt_CANCEL (mo_market_order_id ord) ticker (mo_side ord)
              (mo_price ord) (mo_qty ord) Priority_INVALID)
       else SinkMarket (mk_update Mkt_MODIFY (mo_market_order_id ord) ticker (mo_side ord)
              (mo_price ord) (mo_qty ord - fill) (mo_priority ord)))]"

fun spec_match :: "ClientId \<Rightarrow> OrderId \<Rightarrow> TickerId \<Rightarrow> Side \<Rightarrow> Price \<Rightarrow> OrderId \<Rightarrow> Qty \<Rightarrow>
    MEOrder list \<Rightarrow> Qty \<times> MEOrder list \<times> SinkMsg list" where
  "spec_match c i t s p m q [] = (q, [], [])"
| "spec_match c i t s p m q (ord # os) =
     (if q = 0 \<or> no_cross s p (mo_price ord) then (q, ord # os, [])
      else let fill = min q (mo_qty ord); ms = fill_msgs c i t s m fill (q - fill) ord in
        if mo_qty ord - fill = 0 then
          (let (q', os', ms') = spec_match c i t s p m (q - fill) os in (q', os', ms @ ms'))
        else (q - fill, ord\<lparr>mo_qty := mo_qty ord - fill\<rparr> # os, ms))"

definition spec_next_priority :: "Price \<Rightarrow> MEOrder list \<Rightarrow> Priority" where
  "spec_next_priority price os =
     (let same = filter (\<lambda>y. mo_price y = price) os in
      if same = [] then 1 else mo_priority (last same) + 1)"

subsection \<open>Requests\<close>

definition spec_live :: "SpecBook \<Rightarrow> nat" where
  "spec_live A = length (sb_orders A BUY) + length (sb_orders A SELL)"

definition spec_levels :: "SpecBook \<Rightarrow> nat" where
  "spec_levels A = card (mo_price ` set (sb_orders A BUY)) + card (mo_price ` set (sb_orders A SELL))"

definition spec_reject_reason :: "ClientId \<Rightarrow> OrderId \<Rightarrow> TickerId \<Rightarrow> Side \<Rightarrow> Price \<Rightarrow> Qty \<Rightarrow> SpecBook \<Rightarrow>
    RejectReason" where
  "spec_reject_reason client coid ticker side price qty A =
     (if unat client \<ge> ME_MAX_NUM_CLIENTS \<or> ticker \<noteq> sb_ticker A \<or> coid = 0 \<or>
         unat coid \<ge> ME_MAX_ORDER_IDS then Rej_INVALID_ID
      else if side \<notin> {BUY, SELL} then Rej_INVALID_SIDE
      else if price \<le> 0 \<or> price = Price_INVALID then Rej_INVALID_PRICE
      else if qty = 0 \<or> qty = Qty_INVALID \<or> unat qty > INT32_MAX then Rej_INVALID_QTY
      else if coid \<in> sb_used A client then Rej_DUPLICATE_ID
      else if sb_order_cap A \<le> spec_live A \<or> unat (sb_next_id A) \<ge> ME_MAX_ORDER_IDS \<or>
         (price \<notin> mo_price ` set (sb_orders A side) \<and> sb_level_cap A \<le> spec_levels A)
        then Rej_CAPACITY
      else Rej_NONE)"

definition spec_add :: "ClientId \<Rightarrow> OrderId \<Rightarrow> TickerId \<Rightarrow> Side \<Rightarrow> Price \<Rightarrow> Qty \<Rightarrow> SpecBook \<Rightarrow>
    SpecBook" where
  "spec_add client coid ticker side price qty A =
     (let reason = spec_reject_reason client coid ticker side price qty A in
      if reason \<noteq> Rej_NONE then
        spec_emit [SinkResponse (mk_response Resp_REJECTED client ticker coid OrderId_INVALID side
          price 0 0 reason)] A
      else let
        moid = sb_next_id A;
        accepted = SinkResponse (mk_response Resp_ACCEPTED client ticker coid moid side price 0 qty
          Rej_NONE);
        (leaves, rest, ms) = spec_match client coid ticker side price moid qty
          (sb_orders A (opp side));
        A1 = A\<lparr>sb_used := (sb_used A)(client := insert coid (sb_used A client)),
               sb_next_id := moid + 1, sb_orders := (sb_orders A)(opp side := rest)\<rparr>;
        A2 = spec_emit (accepted # ms) A1
      in if leaves = 0 then A2
         else let
           priority = spec_next_priority price (sb_orders A2 side);
           ord = MEOrder_make ticker client coid moid side price leaves priority None None
         in spec_emit [SinkMarket (mk_update Mkt_ADD moid ticker side price leaves priority)]
              (A2\<lparr>sb_orders := (sb_orders A2)(side := insert_order ord (sb_orders A2 side))\<rparr>))"

definition order_key :: "MEOrder \<Rightarrow> ClientId \<times> OrderId" where
  "order_key ord = (mo_client_id ord, mo_client_order_id ord)"

definition spec_find :: "ClientId \<Rightarrow> OrderId \<Rightarrow> SpecBook \<Rightarrow> MEOrder option" where
  "spec_find client coid A =
     List.find (\<lambda>y. order_key y = (client, coid)) (sb_orders A BUY @ sb_orders A SELL)"

definition spec_cancel :: "ClientId \<Rightarrow> OrderId \<Rightarrow> TickerId \<Rightarrow> SpecBook \<Rightarrow> SpecBook" where
  "spec_cancel client coid ticker A =
     (case (if unat client < ME_MAX_NUM_CLIENTS \<and> ticker = sb_ticker A
            then spec_find client coid A else None) of
        None \<Rightarrow> spec_emit [SinkResponse (mk_response Resp_CANCEL_REJECTED client ticker coid
                  OrderId_INVALID Side_INVALID Price_INVALID 0 0 Rej_INVALID_ID)] A
      | Some ord \<Rightarrow>
          spec_emit [SinkMarket (mk_update Mkt_CANCEL (mo_market_order_id ord) ticker (mo_side ord)
                       (mo_price ord) 0 (mo_priority ord)),
                     SinkResponse (mk_response Resp_CANCELED client ticker coid
                       (mo_market_order_id ord) (mo_side ord) (mo_price ord) Qty_INVALID
                       (mo_qty ord) Rej_NONE)]
            (A\<lparr>sb_orders := (\<lambda>s. filter (\<lambda>y. order_key y \<noteq> (client, coid)) (sb_orders A s))\<rparr>))"

definition spec_query :: "ClientId \<Rightarrow> OrderId \<Rightarrow> SpecBook \<Rightarrow> SpecBook" where
  "spec_query client coid A =
     (if unat client \<ge> ME_MAX_NUM_CLIENTS then A
      else if coid = 0 then
        spec_emit [SinkResponse (mk_response Resp_STATE client (sb_ticker A) 0 OrderId_INVALID
          Side_INVALID Price_INVALID 0 0 Rej_NONE)] A
      else case sb_last A client coid of
        None \<Rightarrow> spec_emit [SinkResponse (mk_response Resp_REJECTED client (sb_ticker A) coid
          OrderId_INVALID Side_INVALID Price_INVALID 0 0 Rej_INVALID_ID)] A
      | Some r \<Rightarrow>
          spec_emit [SinkResponse (r\<lparr>rs_type := Resp_STATE, rs_exec_qty := 0,
            rs_leaves_qty := (if rs_type r = Resp_CANCELED then 0 else rs_leaves_qty r)\<rparr>)] A)"

end
