(* ===== verification/ME_Book_Refinement.thy ===== *)
theory ME_Book_Refinement
  imports ME_Book_Spec
begin

text \<open>
  The exchange book refines the price-time priority specification: on every state that satisfies
  \<open>book_ok\<close>, the three requests run without an invalid pointer access and without exhausting a pool, keep
  \<open>book_ok\<close>, and the state and messages they produce are those of the specification.
\<close>

definition book_ok :: "MEOrderBook \<Rightarrow> (Side \<Rightarrow> rung list) \<Rightarrow> bool" where
  "book_ok b g \<longleftrightarrow> ladder_ok b {} g \<and>
     (\<forall>c i x. cid_oid_to_order b c i = Some x \<longleftrightarrow>
        (\<exists>v. oS (oheap b) x = Some v \<and> order_key v = (c, i))) \<and>
     (\<forall>x v. oS (oheap b) x = Some v \<longrightarrow> unat (mo_client_id v) < ME_MAX_NUM_CLIENTS)"

definition abs_book :: "MEOrderBook \<Rightarrow> (Side \<Rightarrow> rung list) \<Rightarrow> SpecBook" where
  "abs_book b g = \<lparr>sb_ticker = ob_ticker_id b,
     sb_orders = (\<lambda>s. if s \<in> sides then book_list b g s else []),
     sb_order_cap = capacity (order_pool b), sb_level_cap = capacity (orders_at_price_pool b),
     sb_last = last_order_response b, sb_next_id = next_market_order_id b,
     sb_used = used_client_order_ids b, sb_out = sink b\<rparr>"

subsection \<open>Fields outside the ladder\<close>

lemma more_eq:
  assumes "Ladder.more b' = Ladder.more (b :: MEOrderBook)"
  shows "ob_ticker_id b' = ob_ticker_id b" "cid_oid_to_order b' = cid_oid_to_order b"
    "last_order_response b' = last_order_response b" "next_market_order_id b' = next_market_order_id b"
    "used_client_order_ids b' = used_client_order_ids b" "sink b' = sink b"
  using assms by (cases b; cases b'; simp)+

lemma ladder_ok_ext [simp]:
  "ladder_ok (b\<lparr>cid_oid_to_order := m\<rparr>) F g = ladder_ok b F g"
  "ladder_ok (b\<lparr>last_order_response := r\<rparr>) F g = ladder_ok b F g"
  "ladder_ok (b\<lparr>next_market_order_id := n\<rparr>) F g = ladder_ok b F g"
  "ladder_ok (b\<lparr>used_client_order_ids := u\<rparr>) F g = ladder_ok b F g"
  "ladder_ok (b\<lparr>sink := k\<rparr>) F g = ladder_ok b F g"
  by (simp_all add: ladder_ok_def best_of_def)

lemma book_ok_ext [simp]:
  "book_ok (b\<lparr>last_order_response := r\<rparr>) g = book_ok b g"
  "book_ok (b\<lparr>next_market_order_id := n\<rparr>) g = book_ok b g"
  "book_ok (b\<lparr>used_client_order_ids := u\<rparr>) g = book_ok b g"
  "book_ok (b\<lparr>sink := k\<rparr>) g = book_ok b g"
  by (simp_all add: book_ok_def)

lemma order_key_strip [simp]: "order_key (strip v) = order_key v" "mo_client_id (strip v) = mo_client_id v"
  "mo_qty (strip v) = mo_qty v" "mo_market_order_id (strip v) = mo_market_order_id v"
  "mo_client_order_id (strip v) = mo_client_order_id v" "mo_priority (strip v) = mo_priority v"
  "mo_ticker_id (strip v) = mo_ticker_id v"
  by (simp_all add: order_key_def strip_def)

lemma emit_ok [simp]: "book_ok (emitResponse r b) g = book_ok b g" "book_ok (emitMarket u b) g = book_ok b g"
  by (simp_all add: emitResponse_def emitMarket_def)

lemma emit_abs [simp]:
  "abs_book (emitResponse r b) g = spec_emit [SinkResponse r] (abs_book b g)"
  "abs_book (emitMarket u b) g = spec_emit [SinkMarket u] (abs_book b g)"
  by (auto simp: emitResponse_def emitMarket_def abs_book_def spec_emit_def book_list_def)

lemma emit_frame [simp]:
  "order_pool (emitResponse r b) = order_pool b" "orders_at_price_pool (emitResponse r b) = orders_at_price_pool b"
  "order_pool (emitMarket u b) = order_pool b" "orders_at_price_pool (emitMarket u b) = orders_at_price_pool b"
  "getOrdersAtPrice p s (emitResponse r b) = getOrdersAtPrice p s b"
  "getOrdersAtPrice p s (emitMarket u b) = getOrdersAtPrice p s b"
  "ob_ticker_id (emitResponse r b) = ob_ticker_id b" "ob_ticker_id (emitMarket u b) = ob_ticker_id b"
  by (simp_all add: emitResponse_def emitMarket_def getOrdersAtPrice_def)

lemma abs_ids:
  "abs_book (b\<lparr>used_client_order_ids := u, next_market_order_id := n\<rparr>) g =
   (abs_book b g)\<lparr>sb_used := u, sb_next_id := n\<rparr>"
  by (auto simp: abs_book_def book_list_def fun_eq_iff)

lemma abs_sel: "used_client_order_ids b = sb_used (abs_book b g)"
  "next_market_order_id b = sb_next_id (abs_book b g)" "ob_ticker_id b = sb_ticker (abs_book b g)"
  by (simp_all add: abs_book_def)

lemma spec_emit_append: "spec_emit ys (spec_emit xs A) = spec_emit (xs @ ys) A"
  by (simp add: spec_emit_def)

lemma spec_emit_orders [simp]:
  "sb_orders (spec_emit ms A) = sb_orders A" "sb_ticker (spec_emit ms A) = sb_ticker A"
  "(spec_emit ms A)\<lparr>sb_orders := f\<rparr> = spec_emit ms (A\<lparr>sb_orders := f\<rparr>)"
  by (simp_all add: spec_emit_def)

subsection \<open>Removing an order\<close>

lemma book_okD:
  assumes "book_ok b g"
  shows "ladder_ok b {} g"
    "\<And>c i x. cid_oid_to_order b c i = Some x \<longleftrightarrow> (\<exists>v. oS (oheap b) x = Some v \<and> order_key v = (c, i))"
    "\<And>x v. oS (oheap b) x = Some v \<Longrightarrow> unat (mo_client_id v) < ME_MAX_NUM_CLIENTS"
  using assms by (simp_all add: book_ok_def)

lemma removeOrder_ok:
  assumes ok: "book_ok b g" and s: "s \<in> sides" and x: "x \<in> set (ptrs (g s))"
  shows "\<exists>b' ls. removeOrder x b = Some b' \<and> book_ok b' (g(s := ls)) \<and>
     ptrs ls = filter (\<lambda>y. y \<noteq> x) (ptrs (g s)) \<and>
     abs_book b' (g(s := ls)) = (abs_book b g)\<lparr>sb_orders := (sb_orders (abs_book b g))
       (s := map (\<lambda>y. the (oS (oheap b) y)) (filter (\<lambda>y. y \<noteq> x) (ptrs (g s))))\<rparr>"
proof -
  note B = book_okD [OF ok]
  obtain b1 ls where u: "unlinkOrder x b = Some b1" "ladder_ok b1 {x} (g(s := ls))"
    and ptrs: "ptrs ls = filter (\<lambda>y. y \<noteq> x) (ptrs (g s))"
    and same: "oS (oheap b1) = oS (oheap b)" and more: "Ladder.more b1 = Ladder.more b"
    and cap: "capacity (orders_at_price_pool b1) = capacity (orders_at_price_pool b)"
      "capacity (order_pool b1) = capacity (order_pool b)"
    using unlinkOrder_ok [OF B(1) s x] by blast
  obtain v where v: "oheap b x = Some v"
    using rungs_live(1) [OF ladder_okD(3) [OF B(1) s] x] by auto
  then have sv: "oS (oheap b) x = Some (strip v)" by (simp add: oS_def)
  have client: "unat (mo_client_id v) < ME_MAX_NUM_CLIENTS" using B(3) [OF sv] by simp
  let ?q = "drop_slot x (order_pool b1)"
  let ?cid = "(cid_oid_to_order b)(mo_client_id v :=
      (cid_oid_to_order b (mo_client_id v))(mo_client_order_id v := None))"
  let ?b = "b1\<lparr>order_pool := ?q, cid_oid_to_order := ?cid\<rparr>"
  have inv: "pool_inv (order_pool b1)" using ladder_okD(2) [OF u(2)] .
  have "oheap b1 x \<noteq> None" using fun_cong [OF same, of x] v by (auto simp: oS_def)
  then have run: "removeOrder x b = Some ?b"
    using u(1) v client more_eq(2) [OF more]
    by (simp add: removeOrder_def dispose_drop [OF inv] del: not_None_eq)
  note Q = drop_slot_laws [OF inv, of x]
  have heap: "oS (oheap ?b) = (oS (oheap b))(x := None)" by (simp add: Q views same)
  have lad: "ladder_ok ?b {} (g(s := ls))" using ladder_drop [OF u(2)] by simp
  have "?cid c i = Some y \<longleftrightarrow> (\<exists>w. oS (oheap ?b) y = Some w \<and> order_key w = (c, i))" for c i y
  proof (cases "order_key v = (c, i)")
    case True
    then have "cid_oid_to_order b c i = Some x" using B(2) [of c i x] sv by simp
    then show ?thesis using True B(2) [of c i y] unfolding heap by (auto simp: order_key_def)
  next
    case False
    then have "?cid c i = cid_oid_to_order b c i" by (auto simp: order_key_def)
    then show ?thesis using False sv B(2) [of c i y] unfolding heap by auto
  qed
  then have ok': "book_ok ?b (g(s := ls))"
    using lad B(3) heap by (simp add: book_ok_def)
  have "x \<notin> set (ptrs (g t))" if "t \<in> sides" "t \<noteq> s" for t
    using ladder_okD(4) [OF B(1) that(1) s that(2)] x by auto
  then have "book_list ?b (g(s := ls)) t = (if t = s then map (\<lambda>y. the (oS (oheap b) y))
      (filter (\<lambda>y. y \<noteq> x) (ptrs (g s))) else book_list b g t)" if "t \<in> sides" for t
    using that unfolding book_list_def heap by (auto simp: ptrs)
  then have "abs_book ?b (g(s := ls)) = (abs_book b g)\<lparr>sb_orders := (sb_orders (abs_book b g))
       (s := map (\<lambda>y. the (oS (oheap b) y)) (filter (\<lambda>y. y \<noteq> x) (ptrs (g s))))\<rparr>"
    using more_eq [OF more] cap s by (auto simp: abs_book_def Q fun_eq_iff)
  with run ok' ptrs show ?thesis by blast
qed

subsection \<open>Matching\<close>

lemma opp_sides [simp]: "opp s \<in> sides" "opp s \<noteq> s" "s \<noteq> opp s"
  by (auto simp: opp_def sides_def)

lemma opposite_best_opp: "s \<in> sides \<Longrightarrow> opposite_best s b = best_of b (opp s)"
  by (auto simp: opposite_best_def best_of_def opp_def sides_iff)

text \<open>Writing the quantity of an order.\<close>

lemma set_qty_ok:
  fixes f :: "MEOrder \<Rightarrow> Qty"
  assumes ok: "book_ok b g" and s: "s \<in> sides" and x: "x \<in> set (ptrs (g s))" and v: "oheap b x = Some v"
  defines "b' \<equiv> b\<lparr>order_pool := poke x (\<lambda>v. v\<lparr>mo_qty := f v\<rparr>) (order_pool b)\<rparr>"
  shows "book_ok b' g" "oheap b' x = Some (v\<lparr>mo_qty := f v\<rparr>)"
    "oS (oheap b') = (oS (oheap b))(x \<mapsto> (strip v)\<lparr>mo_qty := f v\<rparr>)"
    "abs_book b' g = (abs_book b g)\<lparr>sb_orders := (sb_orders (abs_book b g))
       (s := map (\<lambda>y. if y = x then (strip v)\<lparr>mo_qty := f v\<rparr> else the (oS (oheap b) y)) (ptrs (g s)))\<rparr>"
proof -
  note B = book_okD [OF ok]
  show "oheap b' x = Some (v\<lparr>mo_qty := f v\<rparr>)" using v by (simp add: b'_def deref_poke)
  show heap: "oS (oheap b') = (oS (oheap b))(x \<mapsto> (strip v)\<lparr>mo_qty := f v\<rparr>)"
    using v by (auto simp: b'_def deref_poke oS_def strip_def fun_eq_iff)
  have sv: "oS (oheap b) x = Some (strip v)" using v by (simp add: oS_def)
  have key: "order_key ((strip v)\<lparr>mo_qty := f v\<rparr>) = order_key v" "mo_client_id ((strip v)\<lparr>mo_qty := f v\<rparr>) = mo_client_id v"
    by (simp_all add: order_key_def)
  have "ladder_ok b' {} g" unfolding b'_def by (rule ladder_poke [OF B(1)]) simp
  moreover have "cid_oid_to_order b' = cid_oid_to_order b" by (simp add: b'_def)
  ultimately show "book_ok b' g"
    using B(2) B(3) sv B(3) [OF sv] unfolding book_ok_def heap
    by (auto simp: key split: if_splits)
  have "x \<notin> set (ptrs (g t))" if "t \<in> sides" "t \<noteq> s" for t
    using ladder_okD(4) [OF B(1) that(1) s that(2)] x by auto
  then have "book_list b' g t = (if t = s then map (\<lambda>y. if y = x then (strip v)\<lparr>mo_qty := f v\<rparr>
      else the (oS (oheap b) y)) (ptrs (g s)) else book_list b g t)" if "t \<in> sides" for t
    using that unfolding book_list_def heap by auto
  then show "abs_book b' g = (abs_book b g)\<lparr>sb_orders := (sb_orders (abs_book b g))
       (s := map (\<lambda>y. if y = x then (strip v)\<lparr>mo_qty := f v\<rparr> else the (oS (oheap b) y)) (ptrs (g s)))\<rparr>"
    using s by (auto simp: abs_book_def b'_def poke_frame fun_eq_iff)
qed

lemma match_step:
  fixes q :: Qty
  assumes ok: "book_ok b g" and s: "s \<in> sides" and p: "ptrs (g (opp s)) = x # xs"
    and v: "oheap b x = Some v"
  defines "fill \<equiv> min q (mo_qty v)"
  defines "rest \<equiv> map (\<lambda>y. the (oS (oheap b) y)) xs"
  shows "\<exists>b' g'. match t c s i m x q b = Some (q - fill, b') \<and> book_ok b' g' \<and>
     abs_book b' g' = spec_emit (fill_msgs c i t s m fill (q - fill) (strip v))
       ((abs_book b g)\<lparr>sb_orders := (sb_orders (abs_book b g))(opp s :=
          if mo_qty v - fill = 0 then rest else (strip v)\<lparr>mo_qty := mo_qty v - fill\<rparr> # rest)\<rparr>) \<and>
     (mo_qty v - fill = 0 \<longrightarrow> ptrs (g' (opp s)) = xs)"
proof -
  note B = book_okD [OF ok]
  let ?b1 = "b\<lparr>order_pool := poke x (\<lambda>v. v\<lparr>mo_qty := mo_qty v - fill\<rparr>) (order_pool b)\<rparr>"
  have xin: "x \<in> set (ptrs (g (opp s)))" using p by simp
  note Q = set_qty_ok [OF ok opp_sides(1) xin v, of "\<lambda>v. mo_qty v - fill"]
  have nx: "x \<notin> set xs"
    using rungs_okD(6) [OF ladder_okD(3) [OF B(1) opp_sides(1) [of s]]] p by simp
  have keep: "map (\<lambda>y. if y = x then w else the (oS (oheap b) y)) xs = rest" for w
    using nx by (auto simp: rest_def)
  let ?v = "v\<lparr>mo_qty := mo_qty v - fill\<rparr>"
  let ?em = "\<lambda>b. emitMarket (mk_update Mkt_TRADE OrderId_INVALID t s (mo_price v) fill Priority_INVALID)
     (emitResponse (mk_response Resp_FILLED (mo_client_id v) t (mo_client_order_id v) (mo_market_order_id v)
        (mo_side v) (mo_price v) fill (mo_qty v - fill) Rej_NONE)
     (emitResponse (mk_response Resp_FILLED c t i m s (mo_price v) fill (q - fill) Rej_NONE) b))"
  show ?thesis
  proof (cases "mo_qty v - fill = 0")
    case False
    let ?b2 = "emitMarket (mk_update Mkt_MODIFY (mo_market_order_id v) t (mo_side v) (mo_price v)
        (mo_qty v - fill) (mo_priority v)) (?em ?b1)"
    have "match t c s i m x q b = Some (q - fill, ?b2)"
      using v Q(2) False by (simp add: match_def fill_def upd_order_eq Let_def)
    moreover have "book_ok ?b2 g" using Q(1) by simp
    moreover have "abs_book ?b2 g = spec_emit (fill_msgs c i t s m fill (q - fill) (strip v))
       ((abs_book b g)\<lparr>sb_orders := (sb_orders (abs_book b g))(opp s :=
          (strip v)\<lparr>mo_qty := mo_qty v - fill\<rparr> # rest)\<rparr>)"
      using Q(4) False p keep by (simp add: spec_emit_append fill_msgs_def)
    ultimately show ?thesis using False by auto
  next
    case True
    let ?b2 = "emitMarket (mk_update Mkt_CANCEL (mo_market_order_id v) t (mo_side v) (mo_price v)
        (mo_qty v) Priority_INVALID) (?em ?b1)"
    have ok2: "book_ok ?b2 g" using Q(1) by simp
    obtain b' ls where r: "removeOrder x ?b2 = Some b'" "book_ok b' (g(opp s := ls))"
      "ptrs ls = filter (\<lambda>y. y \<noteq> x) (ptrs (g (opp s)))"
      "abs_book b' (g(opp s := ls)) = (abs_book ?b2 g)\<lparr>sb_orders := (sb_orders (abs_book ?b2 g))
         (opp s := map (\<lambda>y. the (oS (oheap ?b2) y)) (filter (\<lambda>y. y \<noteq> x) (ptrs (g (opp s)))))\<rparr>"
      using removeOrder_ok [OF ok2 opp_sides(1) xin] by blast
    have "match t c s i m x q b = Some (q - fill, b')"
      using v Q(2) True r(1) by (simp add: match_def fill_def upd_order_eq Let_def)
    moreover have "ptrs ls = xs" using r(3) p nx by (simp add: filter_neq_id)
    moreover have "map (\<lambda>y. the (oS (oheap ?b2) y)) xs = rest"
      using Q(3) nx by (auto simp: rest_def)
    then have "abs_book b' (g(opp s := ls)) = spec_emit (fill_msgs c i t s m fill (q - fill) (strip v))
       ((abs_book b g)\<lparr>sb_orders := (sb_orders (abs_book b g))(opp s := rest)\<rparr>)"
      using r(4) Q(4) True p nx by (simp add: spec_emit_append fill_msgs_def filter_neq_id)
    ultimately show ?thesis using r(2) True by (intro exI [of _ b'] exI [of _ "g(opp s := ls)"]) simp
  qed
qed

lemma abs_orders: "s \<in> sides \<Longrightarrow> sb_orders (abs_book b g) s = book_list b g s"
  by (simp add: abs_book_def)

lemma match_loop_ok:
  assumes "book_ok b g" "s \<in> sides"
  shows "\<exists>b' g'. match_loop c i t s p m q b =
       Some (fst (spec_match c i t s p m q (book_list b g (opp s))), b') \<and> book_ok b' g' \<and>
     abs_book b' g' = spec_emit (snd (snd (spec_match c i t s p m q (book_list b g (opp s)))))
       ((abs_book b g)\<lparr>sb_orders := (sb_orders (abs_book b g))(opp s :=
          fst (snd (spec_match c i t s p m q (book_list b g (opp s)))))\<rparr>)"
  using assms
proof (induction "ptrs (g (opp s))" arbitrary: b g q)
  case Nil
  note B = book_okD [OF Nil.prems(1)]
  have "best_of b (opp s) = None" using best_order(1) [OF B(1) opp_sides(1)] Nil(1) by simp
  then have "match_loop c i t s p m q b = Some (q, b)"
    using Nil.prems(2) by (subst match_loop.simps) (simp add: opposite_best_opp)
  moreover have "book_list b g (opp s) = []" using Nil(1) by (simp add: book_list_def)
  moreover have "(sb_orders (abs_book b g))(opp s := []) = sb_orders (abs_book b g)"
    using calculation(2) by (simp add: abs_orders fun_upd_idem)
  ultimately show ?case using Nil.prems(1) by (intro exI [of _ b] exI [of _ g]) (simp add: spec_emit_def)
next
  case (Cons x xs)
  note B = book_okD [OF Cons.prems(1)]
  obtain l where l: "best_of b (opp s) = Some l"
    using best_order(1) [OF B(1) opp_sides(1) [of s]] Cons.hyps(2) by (cases "best_of b (opp s)") auto
  then obtain lv v where lv: "lheap b l = Some lv" "first_order lv = Some x" "oheap b x = Some v"
    using best_order(2) [OF B(1) opp_sides(1) l] by (auto simp flip: Cons.hyps(2))
  let ?rest = "map (\<lambda>y. the (oS (oheap b) y)) xs"
  have list: "book_list b g (opp s) = strip v # ?rest"
    using lv(3) by (simp add: book_list_def oS_def flip: Cons.hyps(2))
  show ?case
  proof (cases "q = 0 \<or> no_cross s p (mo_price v)")
    case True
    then have "match_loop c i t s p m q b = Some (q, b)"
      using Cons.prems(2) l lv by (subst match_loop.simps) (auto simp: opposite_best_opp)
    moreover have "(sb_orders (abs_book b g))(opp s := strip v # ?rest) = sb_orders (abs_book b g)"
      using list by (simp add: abs_orders fun_upd_idem)
    ultimately show ?thesis using True Cons.prems(1) list
      by (intro exI [of _ b] exI [of _ g]) (auto simp: spec_emit_def)
  next
    case False
    let ?fill = "min q (mo_qty v)"
    obtain b1 g1 where m1: "match t c s i m x q b = Some (q - ?fill, b1)" "book_ok b1 g1"
      "abs_book b1 g1 = spec_emit (fill_msgs c i t s m ?fill (q - ?fill) (strip v))
         ((abs_book b g)\<lparr>sb_orders := (sb_orders (abs_book b g))(opp s :=
            if mo_qty v - ?fill = 0 then ?rest else (strip v)\<lparr>mo_qty := mo_qty v - ?fill\<rparr> # ?rest)\<rparr>)"
      "mo_qty v - ?fill = 0 \<longrightarrow> ptrs (g1 (opp s)) = xs"
      using match_step [OF Cons.prems(1,2) Cons.hyps(2) [symmetric] lv(3), of t c i m q] by blast
    have step: "match_loop c i t s p m q b = match_loop c i t s p m (q - ?fill) b1"
      using False Cons.prems(2) l lv m1(1) by (subst match_loop.simps) (simp add: opposite_best_opp)
    show ?thesis
    proof (cases "mo_qty v - ?fill = 0")
      case True
      have l1: "book_list b1 g1 (opp s) = ?rest"
        using m1(3) True abs_orders [of "opp s" b1 g1] by simp
      from Cons.hyps(1) [OF _ m1(2) Cons.prems(2), of "q - ?fill"] m1(4) True
      obtain b2 g2 where "match_loop c i t s p m (q - ?fill) b1 =
           Some (fst (spec_match c i t s p m (q - ?fill) ?rest), b2)" "book_ok b2 g2"
         "abs_book b2 g2 = spec_emit (snd (snd (spec_match c i t s p m (q - ?fill) ?rest)))
           ((abs_book b1 g1)\<lparr>sb_orders := (sb_orders (abs_book b1 g1))(opp s :=
              fst (snd (spec_match c i t s p m (q - ?fill) ?rest)))\<rparr>)"
        unfolding l1 by blast
      then show ?thesis using step list True False m1(3)
        by (intro exI [of _ b2] exI [of _ g2])
          (simp add: Let_def spec_emit_append split: prod.splits)
    next
      case part: False
      then have "q - ?fill = 0" by (auto simp: min_def split: if_splits)
      then have "match_loop c i t s p m (q - ?fill) b1 = Some (q - ?fill, b1)"
        by (subst match_loop.simps) simp
      then show ?thesis using step list part False m1(2,3)
        by (intro exI [of _ b1] exI [of _ g1]) (simp add: Let_def)
    qed
  qed
qed

subsection \<open>Adding an order\<close>

lemma reject_reason_ok:
  assumes "book_ok b g"
  shows "add_reject_reason c i t s p q b = spec_reject_reason c i t s p q (abs_book b g)"
proof -
  note L = book_okD(1) [OF assms]
  have "s = BUY \<or> s = SELL \<Longrightarrow> s \<in> sides" by (simp add: sides_iff)
  then show ?thesis
    using ladder_room [OF L] book_list_level(1) [OF L, of s p]
    by (auto simp: add_reject_reason_def spec_reject_reason_def abs_book_def spec_live_def
        spec_levels_def sides_def)
qed

lemma next_priority_ok:
  assumes ok: "book_ok b g" and s: "s \<in> sides"
  shows "getNextPriority p s b = Some (spec_next_priority p (book_list b g s))"
proof -
  note L = book_okD(1) [OF ok]
  note S = ladder_okD(3) [OF L s]
  show ?thesis
  proof (cases "getOrdersAtPrice p s b")
    case None
    then have "filter (\<lambda>y. mo_price y = p) (book_list b g s) = []"
      using book_list_level(1) [OF L s, of p] by (auto simp: filter_empty_conv)
    then show ?thesis using None by (simp add: getNextPriority_def spec_next_priority_def)
  next
    case (Some l)
    then have "price_orders_at_price b (s, p) = Some l" by (simp add: getOrdersAtPrice_def)
    with S obtain xs os ys where g: "g s = xs @ (l, p, os) # ys" by (rule rung_split)
    have R: "rung_ok (lheap b) (oheap b) s (l, p, os)" by (rule rungs_okD(4) [OF S]) (simp add: g)
    note R = rung_okD [OF R]
    obtain lv where lv: "lheap b l = Some lv" "first_order lv = Some (hd os)" using R(3) by (rule lCD)
    obtain fv where fv: "oheap b (hd os) = Some fv" "prev_order fv = Some (last os)"
      using R(4) [of "hd os"] R(1) ring_hd_prev [OF R(2)] by (auto simp: oT_def oP_def)
    obtain v where v: "oheap b (last os) = Some v" using R(4) [of "last os"] R(1) by (auto simp: oT_def)
    let ?f = "\<lambda>x. the (oS (oheap b) x)"
    have "mo_price (?f x) = p" if "x \<in> set os" for x using R(4) [OF that] by (auto simp: oT_oS)
    moreover have "mo_price (?f x) \<noteq> p" if x: "x \<in> set (ptrs xs @ ptrs ys)" for x
    proof -
      obtain e where e: "e \<in> set (xs @ ys)" "x \<in> set (rorders e)" using x by (auto simp: set_ptrs)
      then have "oT (oheap b) x = Some (s, rprice e)"
        using rungs_okD(4) [OF S, of e] by (auto simp: g rung_ok_def)
      moreover have "rprice e \<noteq> p" using rungs_okD(7) [OF S] e(1) by (auto simp: g)
      ultimately show ?thesis by (auto simp: oT_oS)
    qed
    ultimately have "filter (\<lambda>y. mo_price y = p) (book_list b g s) = map ?f os"
      by (auto simp: book_list_def g filter_empty_conv filter_id_conv)
    then show ?thesis using Some lv fv v R(1)
      by (simp add: getNextPriority_def spec_next_priority_def last_map oS_def)
  qed
qed

lemma addOrder_ok:
  assumes ok: "book_ok b g" and s: "s \<in> sides" and room: "available (order_pool b) \<noteq> 0"
    and level: "getOrdersAtPrice (mo_price v) s b = None \<Longrightarrow> available (orders_at_price_pool b) \<noteq> 0"
    and v: "mo_side v = s" "strip v = v" "unat (mo_client_id v) < ME_MAX_NUM_CLIENTS"
    and key: "\<And>x w. oS (oheap b) x = Some w \<Longrightarrow> order_key w \<noteq> order_key v"
  shows "\<exists>b' g'. addOrder (top_slot (order_pool b)) (b\<lparr>order_pool := put_slot v (order_pool b)\<rparr>) = Some b' \<and>
     book_ok b' g' \<and> abs_book b' g' = (abs_book b g)\<lparr>sb_orders := (sb_orders (abs_book b g))
       (s := insert_order v (book_list b g s))\<rparr>"
proof -
  note B = book_okD [OF ok]
  let ?x = "top_slot (order_pool b)" and ?bp = "b\<lparr>order_pool := put_slot v (order_pool b)\<rparr>"
  note P = ladder_put(1,2) [OF B(1) room, of v] ladder_put(3) [OF B(1) room]
  note Q = put_slot_laws(1-3) [OF ladder_okD(2) [OF B(1)] room, of v]
  have level0: "getOrdersAtPrice (mo_price v) s ?bp = None \<Longrightarrow> available (orders_at_price_pool ?bp) \<noteq> 0"
    using level by (simp add: getOrdersAtPrice_def)
  obtain b1 ls as bs where l: "linkOrder ?x ?bp = Some b1" "ladder_ok b1 {} (g(s := ls))"
    "ptrs (g s) = as @ bs" "ptrs ls = as @ ?x # bs"
    "\<forall>y \<in> set as. \<exists>p. oT (oheap ?bp) y = Some (s, p) \<and> \<not> better s (mo_price v) p"
    "\<forall>y \<in> set bs. \<exists>p. oT (oheap ?bp) y = Some (s, p) \<and> better s (mo_price v) p"
    "oS (oheap b1) = oS (oheap ?bp)" "Ladder.more b1 = Ladder.more ?bp"
    "capacity (orders_at_price_pool b1) = capacity (orders_at_price_pool b)"
    "capacity (order_pool b1) = capacity (put_slot v (order_pool b))"
    using linkOrder_ok [OF P(1,2) v(1) refl s level0] by auto
  let ?cid = "(cid_oid_to_order b)(mo_client_id v :=
      (cid_oid_to_order b (mo_client_id v))(mo_client_order_id v \<mapsto> ?x))"
  let ?b = "b1\<lparr>cid_oid_to_order := ?cid\<rparr>"
  have more: "cid_oid_to_order b1 = cid_oid_to_order b" "Ladder.more b1 = Ladder.more b"
    using more_eq(2) [OF l(8)] l(8) by simp_all
  have run: "addOrder ?x ?bp = Some ?b" using P(2) l(1) v(3) more by (simp add: addOrder_def)
  have heap: "oS (oheap ?b) = (oS (oheap b))(?x \<mapsto> v)" using l(7) v(2) by (simp add: Q views)
  have nx: "oS (oheap b) ?x = None"
    using put_slot_laws(4) [OF ladder_okD(2) [OF B(1)] room] by (simp add: oS_def)
  have "?cid c i = Some y \<longleftrightarrow> (\<exists>w. oS (oheap ?b) y = Some w \<and> order_key w = (c, i))" for c i y
  proof (cases "order_key v = (c, i)")
    case True
    then have "?cid c i = Some ?x" by (auto simp: order_key_def)
    then show ?thesis using True key unfolding heap by auto
  next
    case False
    then have "?cid c i = cid_oid_to_order b c i" by (auto simp: order_key_def)
    then show ?thesis using False nx B(2) [of c i y] unfolding heap by auto
  qed
  then have ok': "book_ok ?b (g(s := ls))"
    using l(2) B(3) v(3) heap unfolding book_ok_def by auto
  have old: "the (oS (oheap ?b) y) = the (oS (oheap b) y)" if "y \<in> set (ptrs (g t))" "t \<in> sides" for y t
    using P(3) that unfolding heap by auto
  have tag: "oT (oheap ?bp) y = oT (oheap b) y" if "y \<in> set (as @ bs)" for y
    using P(3) s that l(3) by (auto simp: Q oT_def)
  have as: "map (\<lambda>y. the (oS (oheap ?b) y)) (as @ bs) = map (\<lambda>y. the (oS (oheap b) y)) (as @ bs)"
    using old [of _ s] s l(3) by auto
  have price: "mo_price (the (oS (oheap b) y)) = p" if "oT (oheap ?bp) y = Some (s, p)" "y \<in> set (as @ bs)" for y p
    using that(1) unfolding tag [OF that(2)] by (auto simp: oT_oS)
  have pr: "\<not> better s (mo_price v) (mo_price (the (oS (oheap b) y)))" if "y \<in> set as" for y
    using bspec [OF l(5) that] price that by auto
  have pr': "better s (mo_price v) (mo_price (the (oS (oheap b) y)))" if "y \<in> set bs" for y
    using bspec [OF l(6) that] price that by auto
  have "insert_order v (map (\<lambda>y. the (oS (oheap b) y)) as @ map (\<lambda>y. the (oS (oheap b) y)) bs) =
      map (\<lambda>y. the (oS (oheap b) y)) as @ v # map (\<lambda>y. the (oS (oheap b) y)) bs"
    by (rule insert_order_split) (use pr pr' v(1) in auto)
  then have "book_list ?b (g(s := ls)) s = insert_order v (book_list b g s)"
    using as by (simp add: book_list_def l(3,4) heap [simplified])
  moreover have "book_list ?b (g(s := ls)) t = book_list b g t" if "t \<in> sides" "t \<noteq> s" for t
    using old [of _ t] that by (simp add: book_list_def)
  ultimately have "abs_book ?b (g(s := ls)) = (abs_book b g)\<lparr>sb_orders := (sb_orders (abs_book b g))
       (s := insert_order v (book_list b g s))\<rparr>"
    using more_eq [OF more(2)] l(9,10) Q(3) s by (auto simp: abs_book_def fun_eq_iff)
  with run ok' show ?thesis by blast
qed

lemma spec_match_shrinks:
  "spec_match c i t s p m q os = (q', os', ms) \<Longrightarrow>
   length os' \<le> length os \<and> mo_price ` set os' \<subseteq> mo_price ` set os \<and>
   order_key ` set os' \<subseteq> order_key ` set os"
proof (induction os arbitrary: q q' os' ms)
  case (Cons ord os)
  have key: "order_key (ord\<lparr>mo_qty := x\<rparr>) = order_key ord" for x by (simp add: order_key_def)
  obtain q1 o1 m1 where r: "spec_match c i t s p m (q - min q (mo_qty ord)) os = (q1, o1, m1)"
    by (cases "spec_match c i t s p m (q - min q (mo_qty ord)) os") auto
  note IH = Cons.IH [OF r]
  from Cons.prems r IH show ?case
    by (auto simp: Let_def key split: if_splits)
qed simp

definition keys_used :: "SpecBook \<Rightarrow> bool" where
  "keys_used A \<longleftrightarrow> (\<forall>s \<in> sides. \<forall>v \<in> set (sb_orders A s). mo_client_order_id v \<in> sb_used A (mo_client_id v))"

lemma live_listed:
  assumes "book_ok b g" "oS (oheap b) x = Some w"
  shows "\<exists>s \<in> sides. w \<in> set (book_list b g s)"
proof -
  have "x \<in> dom (oheap b)" using assms(2) by (auto simp: oS_def)
  then obtain s where "s \<in> sides" "x \<in> set (ptrs (g s))"
    using ladder_okD(7) [OF book_okD(1) [OF assms(1)]] by auto
  then show ?thesis using assms(2) by (force simp: book_list_def)
qed

lemma rest_of_add:
  fixes q :: Qty and m :: OrderId and t :: TickerId
  assumes ok: "book_ok b g" and s: "s \<in> sides" and room: "spec_live (abs_book b g) < sb_order_cap (abs_book b g)"
    and level: "p \<in> mo_price ` set (sb_orders (abs_book b g) s) \<or>
      spec_levels (abs_book b g) < sb_level_cap (abs_book b g)"
    and client: "unat c < ME_MAX_NUM_CLIENTS"
    and key: "\<And>t w. t \<in> sides \<Longrightarrow> w \<in> set (sb_orders (abs_book b g) t) \<Longrightarrow> order_key w \<noteq> (c, i)"
  defines "pri \<equiv> spec_next_priority p (sb_orders (abs_book b g) s)"
  defines "v \<equiv> MEOrder_make t c i m s p q pri None None"
  shows "\<exists>b' g' x r. getNextPriority p s b = Some pri \<and> allocate v (order_pool b) = (Some x, r) \<and>
     addOrder x (b\<lparr>order_pool := r\<rparr>) = Some b' \<and> book_ok b' g' \<and>
     abs_book b' g' = (abs_book b g)\<lparr>sb_orders := (sb_orders (abs_book b g))
       (s := insert_order v (sb_orders (abs_book b g) s))\<rparr>"
proof -
  note L = book_okD(1) [OF ok]
  have avail: "available (order_pool b) \<noteq> 0"
    using ladder_room(1) [OF L] room by (simp add: spec_live_def abs_book_def sides_def)
  have lev: "getOrdersAtPrice (mo_price v) s b = None \<Longrightarrow> available (orders_at_price_pool b) \<noteq> 0"
    using ladder_room(2) [OF L] book_list_level(1) [OF L s, of p] level s
    by (auto simp: v_def spec_levels_def abs_book_def sides_def)
  have "order_key w \<noteq> order_key v" if "oS (oheap b) x = Some w" for x w
    using live_listed [OF ok that] key by (auto simp: v_def order_key_def abs_orders)
  with addOrder_ok [OF ok s avail lev] client show ?thesis
    using next_priority_ok [OF ok s, of p] allocate_put [OF avail, of v] s
    by (fastforce simp: v_def pri_def strip_def MEOrder_make_def abs_orders)
qed

lemma add_ok:
  assumes ok: "book_ok b g" and used: "keys_used (abs_book b g)"
  shows "\<exists>b' g'. add c i t s p q b = Some b' \<and> book_ok b' g' \<and>
     abs_book b' g' = spec_add c i t s p q (abs_book b g)"
proof (cases "spec_reject_reason c i t s p q (abs_book b g) = Rej_NONE")
  case False
  then show ?thesis using ok reject_reason_ok [OF ok, of c i t s p q]
    by (auto simp: add_def spec_add_def Let_def)
next
  case True
  let ?A = "abs_book b g"
  have facts: "s \<in> sides" "unat c < ME_MAX_NUM_CLIENTS" "i \<notin> sb_used ?A c"
    "spec_live ?A < sb_order_cap ?A"
    "p \<in> mo_price ` set (sb_orders ?A s) \<or> spec_levels ?A < sb_level_cap ?A"
    using True by (auto simp: spec_reject_reason_def sides_def split: if_splits)
  let ?m = "sb_next_id ?A"
  let ?b1 = "emitResponse (mk_response Resp_ACCEPTED c t i ?m s p 0 q Rej_NONE)
     (b\<lparr>used_client_order_ids := (sb_used ?A)(c := insert i (sb_used ?A c)), next_market_order_id := ?m + 1\<rparr>)"
  have ok1: "book_ok ?b1 g" using ok by simp
  have list: "book_list ?b1 g = book_list b g" by (simp add: book_list_def fun_eq_iff)
  obtain q' os' ms where sm: "spec_match c i t s p ?m q (book_list b g (opp s)) = (q', os', ms)"
    by (cases "spec_match c i t s p ?m q (book_list b g (opp s))") auto
  let ?A1 = "?A\<lparr>sb_used := (sb_used ?A)(c := insert i (sb_used ?A c)), sb_next_id := ?m + 1,
      sb_orders := (sb_orders ?A)(opp s := os')\<rparr>"
  let ?A2 = "spec_emit (SinkResponse (mk_response Resp_ACCEPTED c t i ?m s p 0 q Rej_NONE) # ms) ?A1"
  obtain b2 g2 where m: "match_loop c i t s p ?m q ?b1 = Some (q', b2)" "book_ok b2 g2" "abs_book b2 g2 = ?A2"
    using match_loop_ok [OF ok1 facts(1), of c i t p ?m q] unfolding list sm
    by (auto simp: abs_ids spec_emit_append)
  have head: "add c i t s p q b = (if q' \<noteq> 0 then do {
          priority \<leftarrow> getNextPriority p s b2;
          (case allocate (MEOrder_make t c i ?m s p q' priority None None) (order_pool b2) of
             (None, _) \<Rightarrow> None
           | (Some order, r) \<Rightarrow> do {
               b \<leftarrow> addOrder order (b2\<lparr>order_pool := r\<rparr>);
               Some (emitMarket (mk_update Mkt_ADD ?m t s p q' priority) b) }) }
        else Some b2)"
    using True reject_reason_ok [OF ok, of c i t s p q] m(1) facts(1)
    by (simp add: add_def generateNewMarketOrderId_def checkForMatch_def sides_iff Let_def abs_sel [of b g, symmetric]
        cong: option.case_cong prod.case_cong)
  show ?thesis
  proof (cases "q' = 0")
    case True
    then have "spec_add c i t s p q ?A = ?A2"
      using \<open>spec_reject_reason c i t s p q ?A = Rej_NONE\<close> sm
      by (simp add: spec_add_def Let_def abs_orders)
    with True head m show ?thesis by auto
  next
    case False
    have own: "sb_orders ?A2 s = sb_orders ?A s" by simp
    have shr: "length os' \<le> length (sb_orders ?A (opp s))" "mo_price ` set os' \<subseteq> mo_price ` set (sb_orders ?A (opp s))"
      "order_key ` set os' \<subseteq> order_key ` set (sb_orders ?A (opp s))"
      using spec_match_shrinks [OF sm] by (auto simp: abs_orders)
    have bs: "s = BUY \<and> opp s = SELL \<or> s = SELL \<and> opp s = BUY"
      using facts(1) by (auto simp: sides_iff opp_def)
    have live: "spec_live ?A2 < sb_order_cap ?A2"
      using facts(4) shr(1) bs by (auto simp: spec_live_def spec_emit_def)
    have "card (mo_price ` set os') \<le> card (mo_price ` set (sb_orders ?A (opp s)))"
      using shr(2) by (intro card_mono) auto
    then have lev: "p \<in> mo_price ` set (sb_orders ?A2 s) \<or> spec_levels ?A2 < sb_level_cap ?A2"
      using facts(5) bs by (auto simp: spec_levels_def spec_emit_def)
    have old: "order_key w \<noteq> (c, i)" if "u \<in> sides" "w \<in> set (sb_orders ?A u)" for u w
      using used that facts(3) by (auto simp: keys_used_def order_key_def)
    have key: "order_key w \<noteq> (c, i)" if w: "u \<in> sides" "w \<in> set (sb_orders ?A2 u)" for u w
    proof (cases "u = opp s")
      case True
      then have "order_key w \<in> order_key ` set (sb_orders ?A (opp s))" using w(2) shr(3) by auto
      then show ?thesis using old [of "opp s"] by force
    next
      case False
      then show ?thesis using w old by simp
    qed
    let ?pri = "spec_next_priority p (sb_orders ?A2 s)"
    let ?v = "MEOrder_make t c i ?m s p q' ?pri None None"
    obtain b' g' x r where "getNextPriority p s b2 = Some ?pri" "allocate ?v (order_pool b2) = (Some x, r)"
      "addOrder x (b2\<lparr>order_pool := r\<rparr>) = Some b'" "book_ok b' g'"
      "abs_book b' g' = ?A2\<lparr>sb_orders := (sb_orders ?A2)(s := insert_order ?v (sb_orders ?A2 s))\<rparr>"
      using rest_of_add [OF m(2) facts(1), of p c i t ?m q'] live lev facts(2) key unfolding m(3) by blast
    then show ?thesis
      using head False \<open>spec_reject_reason c i t s p q ?A = Rej_NONE\<close> sm
      by (intro exI [of _ "emitMarket (mk_update Mkt_ADD ?m t s p q' ?pri) b'"] exI [of _ g'])
        (simp add: spec_add_def Let_def abs_orders)
  qed
qed

subsection \<open>Cancelling and querying\<close>

lemma live_key:
  assumes ok: "book_ok b g" and t: "t \<in> sides" "y \<in> set (ptrs (g t))"
  shows "order_key (the (oS (oheap b) y)) = (c, i) \<longleftrightarrow> cid_oid_to_order b c i = Some y"
proof -
  obtain v where "oheap b y = Some v"
    using rungs_live(1) [OF ladder_okD(3) [OF book_okD(1) [OF ok] t(1)] t(2)] by auto
  then show ?thesis using book_okD(2) [OF ok, of c i y] by (simp add: oS_def)
qed

lemma find_ok:
  assumes ok: "book_ok b g"
  shows "spec_find c i (abs_book b g) = Option.bind (cid_oid_to_order b c i) (oS (oheap b))"
proof -
  let ?P = "\<lambda>y. order_key y = (c, i)" and ?L = "book_list b g BUY @ book_list b g SELL"
  have sf: "spec_find c i (abs_book b g) = List.find ?P ?L"
    by (simp add: spec_find_def abs_book_def sides_def)
  have listed: "\<exists>t \<in> sides. \<exists>y \<in> set (ptrs (g t)). v = the (oS (oheap b) y)" if "v \<in> set ?L" for v
    using that by (auto simp: book_list_def sides_def)
  show ?thesis
  proof (cases "cid_oid_to_order b c i")
    case None
    then have "\<not> (\<exists>v \<in> set ?L. ?P v)"
      using listed live_key [OF ok] by fastforce
    then show ?thesis using None sf by (auto simp: find_None_iff)
  next
    case (Some x)
    then obtain w where w: "oS (oheap b) x = Some w" "?P w" using book_okD(2) [OF ok, of c i x] by auto
    have "w \<in> set ?L" using live_listed [OF ok w(1)] by (auto simp: sides_def)
    with w(2) have "List.find ?P ?L \<noteq> None" by (auto simp: find_None_iff)
    then obtain v where v: "List.find ?P ?L = Some v" by auto
    then have "v \<in> set ?L" "?P v" using find_SomeD [OF v] by auto
    then obtain t y where "t \<in> sides" "y \<in> set (ptrs (g t))" "v = the (oS (oheap b) y)"
      using listed by blast
    with live_key [OF ok] \<open>?P v\<close> Some have "y = x" by auto
    with \<open>v = the (oS (oheap b) y)\<close> w(1) v sf Some show ?thesis by simp
  qed
qed

lemma cancel_ok:
  assumes ok: "book_ok b g"
  shows "\<exists>b' g'. cancel c i t b = Some b' \<and> book_ok b' g' \<and>
     abs_book b' g' = spec_cancel c i t (abs_book b g)"
proof (cases "if unat c < ME_MAX_NUM_CLIENTS \<and> t = ob_ticker_id b then cid_oid_to_order b c i else None")
  case None
  then have "(if unat c < ME_MAX_NUM_CLIENTS \<and> t = sb_ticker (abs_book b g)
      then spec_find c i (abs_book b g) else None) = None"
    using find_ok [OF ok, of c i] by (auto simp: abs_book_def split: if_splits)
  with None show ?thesis using ok by (auto simp: cancel_def spec_cancel_def)
next
  case (Some x)
  then have guard: "unat c < ME_MAX_NUM_CLIENTS" "t = ob_ticker_id b" and x: "cid_oid_to_order b c i = Some x"
    by (auto split: if_splits)
  then obtain v where v: "oheap b x = Some v" "order_key v = (c, i)"
    using book_okD(2) [OF ok, of c i x] by (auto simp: oS_def)
  then obtain s where s: "s \<in> sides" "x \<in> set (ptrs (g s))"
    using ladder_okD(7) [OF book_okD(1) [OF ok]] by auto
  have sf: "spec_find c i (abs_book b g) = Some (strip v)"
    using find_ok [OF ok, of c i] x v(1) by (simp add: oS_def)
  obtain b1 ls where r: "removeOrder x b = Some b1" "book_ok b1 (g(s := ls))"
    "abs_book b1 (g(s := ls)) = (abs_book b g)\<lparr>sb_orders := (sb_orders (abs_book b g))
       (s := map (\<lambda>y. the (oS (oheap b) y)) (filter (\<lambda>y. y \<noteq> x) (ptrs (g s))))\<rparr>"
    using removeOrder_ok [OF ok s] by blast
  have "filter (\<lambda>y. order_key y \<noteq> (c, i)) (book_list b g u) =
      map (\<lambda>y. the (oS (oheap b) y)) (filter (\<lambda>y. y \<noteq> x) (ptrs (g u)))" if "u \<in> sides" for u
    using live_key [OF ok that, of _ c i] x
    by (auto simp: book_list_def filter_map intro!: arg_cong [where f = "map _"] filter_cong)
  moreover have "x \<notin> set (ptrs (g u))" if "u \<in> sides" "u \<noteq> s" for u
    using ladder_okD(4) [OF book_okD(1) [OF ok] that(1) s(1) that(2)] s(2) by auto
  ultimately have "(sb_orders (abs_book b g))
       (s := map (\<lambda>y. the (oS (oheap b) y)) (filter (\<lambda>y. y \<noteq> x) (ptrs (g s)))) =
     (\<lambda>u. filter (\<lambda>y. order_key y \<noteq> (c, i)) (sb_orders (abs_book b g) u))"
    using s(1) by (auto simp: abs_book_def fun_eq_iff filter_neq_id book_list_def)
  then show ?thesis using r guard x v sf
    by (auto simp: cancel_def spec_cancel_def spec_emit_append abs_sel [of b g])
qed

lemma query_ok:
  assumes "book_ok b g"
  shows "book_ok (query c i b) g \<and> abs_book (query c i b) g = spec_query c i (abs_book b g)"
proof -
  have sel: "sb_ticker (abs_book b g) = ob_ticker_id b" "sb_last (abs_book b g) = last_order_response b"
    by (simp_all add: abs_book_def)
  show ?thesis
  proof (cases "last_order_response b c i")
    case None
    then show ?thesis using assms by (simp add: query_def spec_query_def sel)
  next
    case (Some r)
    then show ?thesis using assms by (cases r) (simp add: query_def spec_query_def sel Let_def)
  qed
qed

end
