(* ===== verification/ME_Book_Props.thy ===== *)
theory ME_Book_Props
  imports ME_Book_Refinement
begin

text \<open>
  What the exchange book guarantees over any sequence of requests, starting from the constructor. The invariant
  \<open>spec_inv\<close> is proved on the specification and reaches the pointer implementation through the refinement:
  both sides stay in price-time order, the book is never crossed, identifiers are unique, and quantities and
  priorities stay in range, so no counter wraps around.
\<close>

subsection \<open>Sequences of requests\<close>

datatype BookCall =
    CallAdd ClientId OrderId TickerId Side Price Qty
  | CallCancel ClientId OrderId TickerId
  | CallQuery ClientId OrderId

fun book_call :: "BookCall \<Rightarrow> MEOrderBook \<Rightarrow> MEOrderBook option" where
  "book_call (CallAdd c i t s p q) b = add c i t s p q b"
| "book_call (CallCancel c i t) b = cancel c i t b"
| "book_call (CallQuery c i) b = Some (query c i b)"

fun spec_call :: "BookCall \<Rightarrow> SpecBook \<Rightarrow> SpecBook" where
  "spec_call (CallAdd c i t s p q) A = spec_add c i t s p q A"
| "spec_call (CallCancel c i t) A = spec_cancel c i t A"
| "spec_call (CallQuery c i) A = spec_query c i A"

fun book_run :: "BookCall list \<Rightarrow> MEOrderBook \<Rightarrow> MEOrderBook option" where
  "book_run [] b = Some b"
| "book_run (r # rs) b = Option.bind (book_call r b) (book_run rs)"

text \<open>The books the exchange can have: the constructor followed by any requests.\<close>

definition reachable_book :: "TickerId \<Rightarrow> MEOrderBook \<Rightarrow> bool" where
  "reachable_book t b \<longleftrightarrow> (\<exists>rs b0. MEOrderBook_new t = Some b0 \<and> book_run rs b0 = Some b)"

subsection \<open>The invariant\<close>

definition before :: "Side \<Rightarrow> MEOrder \<Rightarrow> MEOrder \<Rightarrow> bool" where
  "before s v w \<longleftrightarrow> better s (mo_price v) (mo_price w) \<or>
     (mo_price v = mo_price w \<and> mo_priority v < mo_priority w \<and>
      mo_market_order_id v < mo_market_order_id w)"

definition order_good :: "SpecBook \<Rightarrow> Side \<Rightarrow> MEOrder \<Rightarrow> bool" where
  "order_good A s v \<longleftrightarrow> mo_side v = s \<and> mo_ticker_id v = sb_ticker A \<and> strip v = v \<and>
     unat (mo_client_id v) < ME_MAX_NUM_CLIENTS \<and> 0 < mo_price v \<and> mo_price v \<noteq> Price_INVALID \<and>
     0 < mo_market_order_id v \<and> mo_market_order_id v < sb_next_id A \<and>
     0 < mo_priority v \<and> mo_priority v \<le> mo_market_order_id v \<and>
     mo_client_order_id v \<in> sb_used A (mo_client_id v)"

definition qty_good :: "MEOrder \<Rightarrow> bool" where
  "qty_good v \<longleftrightarrow> mo_qty v \<noteq> 0 \<and> unat (mo_qty v) \<le> INT32_MAX"

definition spec_inv :: "SpecBook \<Rightarrow> bool" where
  "spec_inv A \<longleftrightarrow>
     (\<forall>s \<in> sides. sorted_wrt (before s) (sb_orders A s) \<and>
        (\<forall>v \<in> set (sb_orders A s). order_good A s v \<and> qty_good v)) \<and>
     (\<forall>v \<in> set (sb_orders A BUY). \<forall>w \<in> set (sb_orders A SELL). mo_price v < mo_price w) \<and>
     distinct (map mo_market_order_id (sb_orders A BUY @ sb_orders A SELL)) \<and>
     distinct (map order_key (sb_orders A BUY @ sb_orders A SELL)) \<and>
     0 < sb_next_id A \<and> unat (sb_next_id A) \<le> ME_MAX_ORDER_IDS"

text \<open>An order without its quantity: the part of a resting order that matching never changes.\<close>

definition ident :: "MEOrder \<Rightarrow> MEOrder" where
  "ident v = v\<lparr>mo_qty := 0\<rparr>"

text \<open>The quantity published as traded.\<close>

fun trade_qty :: "SinkMsg \<Rightarrow> nat" where
  "trade_qty (SinkMarket u) = (if mu_type u = Mkt_TRADE then unat (mu_qty u) else 0)"
| "trade_qty (SinkResponse r) = 0"

definition traded :: "SinkMsg list \<Rightarrow> nat" where
  "traded ms = sum_list (map trade_qty ms)"

definition depth :: "MEOrder list \<Rightarrow> nat" where
  "depth os = sum_list (map (unat \<circ> mo_qty) os)"

subsection \<open>Matching\<close>

lemma traded_fill: "traded (fill_msgs c i t s m f l ord @ ms) = unat f + traded ms"
  by (simp add: traded_def fill_msgs_def)

lemma spec_match_conserves:
  "spec_match c i t s p m q os = (q', os', ms) \<Longrightarrow>
   unat q = unat q' + traded ms \<and> depth os = depth os' + traded ms"
proof (induction os arbitrary: q q' os' ms)
  case Nil
  then show ?case by (simp add: traded_def)
next
  case (Cons ord os)
  let ?f = "min q (mo_qty ord)"
  obtain q1 o1 m1 where r: "spec_match c i t s p m (q - ?f) os = (q1, o1, m1)"
    by (cases "spec_match c i t s p m (q - ?f) os") auto
  note IH = Cons.IH [OF r]
  have f: "unat (q - ?f) = unat q - unat ?f" "unat (mo_qty ord - ?f) = unat (mo_qty ord) - unat ?f"
    "unat ?f \<le> unat q" "unat ?f \<le> unat (mo_qty ord)"
    by (simp_all add: unat_sub word_le_nat_alt [symmetric])
  have z: "mo_qty ord - ?f = 0 \<Longrightarrow> unat (mo_qty ord) = unat ?f" by simp
  have p: "mo_qty ord - ?f \<noteq> 0 \<Longrightarrow> ?f = q" by (auto simp: min_def split: if_splits)
  have d: "depth (w # ws) = unat (mo_qty w) + depth ws" for w ws by (simp add: depth_def)
  show ?case
  proof (cases "q = 0 \<or> no_cross s p (mo_price ord)")
    case True
    then show ?thesis using Cons.prems by (auto simp: traded_def)
  next
    case nocross: False
    show ?thesis
    proof (cases "mo_qty ord - ?f = 0")
      case True
      then have "q' = q1" "os' = o1" "ms = fill_msgs c i t s m ?f (q - ?f) ord @ m1"
        using Cons.prems r nocross by (auto simp: Let_def)
      then show ?thesis using IH f z [OF True] by (auto simp: traded_fill d)
    next
      case False
      then have "q' = q - ?f" "os' = ord\<lparr>mo_qty := mo_qty ord - ?f\<rparr> # os"
        "ms = fill_msgs c i t s m ?f (q - ?f) ord @ []"
        using Cons.prems nocross by (auto simp: Let_def)
      moreover have "traded [] = 0" by (simp add: traded_def)
      ultimately show ?thesis using f by (simp only: traded_fill d MEOrder.simps) simp
    qed
  qed
qed

lemma spec_match_suffix:
  "spec_match c i t s p m q os = (q', os', ms) \<Longrightarrow> \<exists>k \<le> length os. map ident os' = map ident (drop k os) \<and>
     (\<forall>v \<in> set (take k os). \<not> no_cross s p (mo_price v)) \<and>
     (q' \<noteq> 0 \<longrightarrow> os' = drop k os \<and> (os' = [] \<or> no_cross s p (mo_price (hd os')))) \<and>
     ((\<forall>v \<in> set os. qty_good v) \<longrightarrow> (\<forall>v \<in> set os'. qty_good v))"
proof (induction os arbitrary: q q' os' ms)
  case (Cons ord os)
  let ?f = "min q (mo_qty ord)"
  obtain q1 o1 m1 where r: "spec_match c i t s p m (q - ?f) os = (q1, o1, m1)"
    by (cases "spec_match c i t s p m (q - ?f) os") auto
  consider (stop) "q = 0 \<or> no_cross s p (mo_price ord)"
    | (full) "q \<noteq> 0" "\<not> no_cross s p (mo_price ord)" "mo_qty ord - ?f = 0"
    | (part) "q \<noteq> 0" "\<not> no_cross s p (mo_price ord)" "mo_qty ord - ?f \<noteq> 0"
    by blast
  then show ?case
  proof cases
    case stop
    then show ?thesis using Cons.prems by (intro exI [of _ 0]) auto
  next
    case full
    then have e: "q' = q1" "os' = o1" using Cons.prems r by (auto simp: Let_def)
    from Cons.IH [OF r] obtain k where k: "k \<le> length os" "map ident o1 = map ident (drop k os)"
      "\<forall>v \<in> set (take k os). \<not> no_cross s p (mo_price v)"
      "q1 \<noteq> 0 \<longrightarrow> o1 = drop k os \<and> (o1 = [] \<or> no_cross s p (mo_price (hd o1)))"
      "(\<forall>v \<in> set os. qty_good v) \<longrightarrow> (\<forall>v \<in> set o1. qty_good v)" by blast
    then show ?thesis using full e by (intro exI [of _ "Suc k"]) auto
  next
    case part
    then have f: "?f = q" "q \<le> mo_qty ord" by (auto simp: min_def split: if_splits)
    then have e: "q' = 0" "os' = ord\<lparr>mo_qty := mo_qty ord - q\<rparr> # os"
      using Cons.prems part by (auto simp: Let_def)
    have "unat (mo_qty ord - q) \<le> unat (mo_qty ord)" using f(2) by (simp add: unat_sub)
    then show ?thesis using e part f by (intro exI [of _ 0]) (auto simp: ident_def qty_good_def)
  qed
qed simp

lemma ident_sel [simp]:
  "mo_side (ident v) = mo_side v" "mo_price (ident v) = mo_price v" "mo_priority (ident v) = mo_priority v"
  "mo_market_order_id (ident v) = mo_market_order_id v" "order_key (ident v) = order_key v"
  "order_good A s (ident v) = order_good A s v" "before s (ident v) (ident w) = before s v w"
  by (simp_all add: ident_def order_key_def order_good_def before_def strip_def)
    (cases v; auto)

lemma suffix_keeps:
  assumes "map ident os' = map ident (drop k os)"
  shows "sorted_wrt (before s) os \<Longrightarrow> sorted_wrt (before s) os'"
    "(\<And>v. v \<in> set os \<Longrightarrow> order_good A s v) \<Longrightarrow> (\<And>v. v \<in> set os' \<Longrightarrow> order_good A s v)"
    "map mo_market_order_id os' = drop k (map mo_market_order_id os)"
    "map order_key os' = drop k (map order_key os)" "mo_price ` set os' \<subseteq> mo_price ` set os"
proof -
  show "map mo_market_order_id os' = drop k (map mo_market_order_id os)"
    using arg_cong [OF assms, of "map mo_market_order_id"] by (simp add: comp_def drop_map)
  show "map order_key os' = drop k (map order_key os)"
    using arg_cong [OF assms, of "map order_key"] by (simp add: comp_def drop_map)
  show "mo_price ` set os' \<subseteq> mo_price ` set os"
    using arg_cong [OF assms, of "\<lambda>l. mo_price ` set l"] set_drop_subset [of k os] by (auto simp: image_image)
  have "sorted_wrt (before s) (map ident os') = sorted_wrt (before s) (map ident (drop k os))"
    using assms by simp
  then show "sorted_wrt (before s) os'" if "sorted_wrt (before s) os"
    using that by (simp add: sorted_wrt_map sorted_wrt_drop)
  show "order_good A s v" if g: "\<And>v. v \<in> set os \<Longrightarrow> order_good A s v" and v: "v \<in> set os'" for v
  proof -
    have "ident v \<in> ident ` set (drop k os)" using v arg_cong [OF assms, of set] by auto
    then obtain w where "w \<in> set os" "ident v = ident w" using set_drop_subset [of k os] by auto
    then show ?thesis using g [of w] ident_sel(6) by metis
  qed
qed

lemma spec_inv_emit [simp]: "spec_inv (spec_emit ms A) = spec_inv A"
  by (simp add: spec_inv_def spec_emit_def order_good_def)

lemma spec_invD:
  assumes "spec_inv A"
  shows "\<And>s. s \<in> sides \<Longrightarrow> sorted_wrt (before s) (sb_orders A s)"
    "\<And>s v. s \<in> sides \<Longrightarrow> v \<in> set (sb_orders A s) \<Longrightarrow> order_good A s v \<and> qty_good v"
    "\<And>v w. v \<in> set (sb_orders A BUY) \<Longrightarrow> w \<in> set (sb_orders A SELL) \<Longrightarrow> mo_price v < mo_price w"
    "distinct (map mo_market_order_id (sb_orders A BUY @ sb_orders A SELL))"
    "distinct (map order_key (sb_orders A BUY @ sb_orders A SELL))"
    "0 < sb_next_id A" "unat (sb_next_id A) \<le> ME_MAX_ORDER_IDS"
  using assms unfolding spec_inv_def by simp_all

lemma spec_invI:
  assumes "\<And>s. s \<in> sides \<Longrightarrow> sorted_wrt (before s) (sb_orders A s)"
    "\<And>s v. s \<in> sides \<Longrightarrow> v \<in> set (sb_orders A s) \<Longrightarrow> order_good A s v \<and> qty_good v"
    "\<And>v w. v \<in> set (sb_orders A BUY) \<Longrightarrow> w \<in> set (sb_orders A SELL) \<Longrightarrow> mo_price v < mo_price w"
    "distinct (map mo_market_order_id (sb_orders A BUY @ sb_orders A SELL))"
    "distinct (map order_key (sb_orders A BUY @ sb_orders A SELL))"
    "0 < sb_next_id A" "unat (sb_next_id A) \<le> ME_MAX_ORDER_IDS"
  shows "spec_inv A"
  using assms unfolding spec_inv_def by simp

lemma spec_inv_keys: "spec_inv A \<Longrightarrow> keys_used A"
  using spec_invD(2) [of A] unfolding keys_used_def order_good_def by blast

text \<open>The step of \<open>spec_add\<close> up to the end of matching, and the insertion of the remainder.\<close>

lemma next_id_step:
  assumes "unat (n :: OrderId) < ME_MAX_ORDER_IDS"
  shows "unat (n + 1) = Suc (unat n)" "n < n + 1" "\<And>x. x < n \<Longrightarrow> x < n + 1"
proof -
  show u: "unat (n + 1) = Suc (unat n)" using assms by (intro unat_Suc_u64) (simp add: limits)
  then show "n < n + 1" by (simp add: word_less_nat_alt)
  then show "x < n + 1" if "x < n" for x using that by (rule less_trans [rotated])
qed

lemma distinct_two_suffix:
  assumes "distinct (xs @ ys)" "xs' = drop j xs" "ys' = drop k ys"
  shows "distinct (xs' @ ys')"
  using assms set_drop_subset [of j xs] set_drop_subset [of k ys] by auto

lemma spec_inv_matched:
  assumes inv: "spec_inv A" and s: "s \<in> sides" and n: "unat (sb_next_id A) < ME_MAX_ORDER_IDS"
    and sm: "spec_match c i t s p m q (sb_orders A (opp s)) = (q', os', ms)"
  defines "A1 \<equiv> A\<lparr>sb_used := (sb_used A)(c := insert i (sb_used A c)), sb_next_id := sb_next_id A + 1,
      sb_orders := (sb_orders A)(opp s := os')\<rparr>"
  shows "spec_inv A1"
proof -
  note D = spec_invD [OF inv]
  obtain k where k: "map ident os' = map ident (drop k (sb_orders A (opp s)))"
    "(\<forall>v \<in> set (sb_orders A (opp s)). qty_good v) \<longrightarrow> (\<forall>v \<in> set os'. qty_good v)"
    using spec_match_suffix [OF sm] by blast
  note K = suffix_keeps [OF k(1)]
  have up: "order_good A1 u v" if "order_good A u v" for u v
    using that next_id_step(3) [OF n] by (auto simp: order_good_def A1_def)
  have good: "order_good A1 u v \<and> qty_good v" if "u \<in> sides" "v \<in> set (sb_orders A1 u)" for u v
    using that D(2) up k(2) K(2) [of A "opp s"] by (auto simp: A1_def split: if_splits)
  have srt: "sorted_wrt (before u) (sb_orders A1 u)" if "u \<in> sides" for u
    using that D(1) K(1) by (auto simp: A1_def)
  have cases_s: "s = BUY \<and> opp s = SELL \<or> s = SELL \<and> opp s = BUY" using s by (auto simp: sides_iff opp_def)
  have cross: "mo_price v < mo_price w" if "v \<in> set (sb_orders A1 BUY)" "w \<in> set (sb_orders A1 SELL)" for v w
  proof -
    have "mo_price x \<in> mo_price ` set (sb_orders A u)" if "x \<in> set (sb_orders A1 u)" for x u
      using that K(5) by (cases "u = opp s") (auto simp: A1_def)
    from this [OF that(1)] this [OF that(2)] show ?thesis using D(3) by auto
  qed
  have dist: "distinct (map f (sb_orders A1 BUY @ sb_orders A1 SELL))"
    if "map f os' = drop k (map f (sb_orders A (opp s)))" "distinct (map f (sb_orders A BUY @ sb_orders A SELL))"
    for f :: "MEOrder \<Rightarrow> 'b"
    using cases_s
  proof
    assume "s = BUY \<and> opp s = SELL"
    then have e: "sb_orders A1 BUY = sb_orders A BUY" "sb_orders A1 SELL = os'" "opp s = SELL" by (auto simp: A1_def)
    show ?thesis unfolding e map_append
      by (rule distinct_two_suffix [OF that(2) [unfolded map_append], where j = 0 and k = k]) (use that(1) e in auto)
  next
    assume "s = SELL \<and> opp s = BUY"
    then have e: "sb_orders A1 SELL = sb_orders A SELL" "sb_orders A1 BUY = os'" "opp s = BUY" by (auto simp: A1_def)
    show ?thesis unfolding e map_append
      by (rule distinct_two_suffix [OF that(2) [unfolded map_append], where j = k and k = 0]) (use that(1) e in auto)
  qed
  show ?thesis
    using good srt cross dist [OF K(3) D(4)] dist [OF K(4) D(5)] next_id_step [OF n] n
    unfolding spec_inv_def by (auto simp: A1_def word_gt_0)
qed

lemma insert_order_parts:
  assumes "sorted_wrt (before s) os" "mo_side x = s"
  obtains as bs where "os = as @ bs" "insert_order x os = as @ x # bs"
    "\<And>y. y \<in> set as \<Longrightarrow> \<not> better s (mo_price x) (mo_price y)"
    "\<And>y. y \<in> set bs \<Longrightarrow> better s (mo_price x) (mo_price y)"
proof -
  let ?P = "\<lambda>y. \<not> better s (mo_price x) (mo_price y)"
  have "better s (mo_price x) (mo_price y)" if y: "y \<in> set (dropWhile ?P os)" for y
  proof -
    have "dropWhile ?P os \<noteq> []"
    proof
      assume "dropWhile ?P os = []"
      with y show False by (simp only: list.set empty_iff)
    qed
    then obtain d ds where d: "dropWhile ?P os = d # ds" unfolding neq_Nil_conv by blast
    then have hd: "better s (mo_price x) (mo_price d)" using hd_dropWhile [of ?P os] by simp
    have "sorted_wrt (before s) (d # ds)"
      using assms(1) takeWhile_dropWhile_id [of ?P os] d by (metis sorted_wrt_append)
    then show ?thesis using y hd d better_trans by (auto simp: before_def)
  qed
  moreover have "insert_order x os = takeWhile ?P os @ x # dropWhile ?P os"
    using assms(2) by (simp add: insert_order_def)
  moreover have "?P y" if "y \<in> set (takeWhile ?P os)" for y
    using set_takeWhileD [OF that] by simp
  ultimately show ?thesis by (intro that [OF takeWhile_dropWhile_id [symmetric]])
qed

lemma next_priority_max:
  assumes srt: "sorted_wrt (before s) os" and lim: "\<And>v. v \<in> set os \<Longrightarrow> mo_priority v \<le> mo_market_order_id v \<and>
      mo_market_order_id v < n" and n: "0 < n" "unat n \<le> ME_MAX_ORDER_IDS"
  shows "0 < spec_next_priority p os" "spec_next_priority p os \<le> n"
    "\<And>v. v \<in> set os \<Longrightarrow> mo_price v = p \<Longrightarrow> mo_priority v < spec_next_priority p os"
proof -
  let ?same = "filter (\<lambda>y. mo_price y = p) os"
  have srt': "sorted_wrt (before s) ?same" using srt by (rule sorted_wrt_filter)
  have le: "mo_priority v \<le> mo_priority (last ?same)" if "v \<in> set ?same" for v
  proof -
    have ne: "?same \<noteq> []" using that by (auto simp: filter_empty_conv)
    have "v \<in> set (butlast ?same @ [last ?same])" unfolding append_butlast_last_id [OF ne] by (rule that)
    then have "v \<in> set (butlast ?same) \<or> v = last ?same" by auto
    moreover have "sorted_wrt (before s) (butlast ?same @ [last ?same])" using srt' ne by simp
    then have "before s v (last ?same)" if "v \<in> set (butlast ?same)"
      using that by (simp add: sorted_wrt_append)
    moreover have "mo_price (last ?same) = p" using last_in_set [OF ne] by simp
    ultimately show ?thesis using that by (auto simp: before_def)
  qed
  have step: "spec_next_priority p os = mo_priority (last ?same) + 1 \<and> unat (mo_priority (last ?same) + 1) =
      Suc (unat (mo_priority (last ?same))) \<and> mo_priority (last ?same) + 1 \<le> n" if "?same \<noteq> []"
  proof -
    have "last ?same \<in> set os" using last_in_set [OF that] by simp
    from lim [OF this] have "unat (mo_priority (last ?same)) < unat n"
      by (auto simp: word_le_nat_alt word_less_nat_alt)
    moreover from this have "unat (mo_priority (last ?same) + 1) = Suc (unat (mo_priority (last ?same)))"
      using n(2) by (intro unat_Suc_u64) (simp add: limits)
    ultimately show ?thesis using that by (simp add: spec_next_priority_def word_le_nat_alt)
  qed
  have one: "spec_next_priority p os = 1" if "?same = []" using that by (simp add: spec_next_priority_def)
  show "0 < spec_next_priority p os" "spec_next_priority p os \<le> n"
    using step one n(1) by (cases "?same = []"; auto simp: word_less_nat_alt word_le_nat_alt)+
  show "mo_priority v < spec_next_priority p os" if "v \<in> set os" "mo_price v = p" for v
  proof -
    have v: "v \<in> set ?same" using that by simp
    then have "?same \<noteq> []" by (auto simp: filter_empty_conv)
    with step le [OF v] show ?thesis by (auto simp: word_less_nat_alt word_le_nat_alt)
  qed
qed

lemma spec_inv_insert:
  assumes inv: "spec_inv A" and s: "s \<in> sides" and good: "order_good A s v" "qty_good v"
    and pri: "mo_priority v = spec_next_priority (mo_price v) (sb_orders A s)"
    and newest: "\<And>u w. u \<in> sides \<Longrightarrow> w \<in> set (sb_orders A u) \<Longrightarrow> mo_market_order_id w < mo_market_order_id v"
    and key: "\<And>u w. u \<in> sides \<Longrightarrow> w \<in> set (sb_orders A u) \<Longrightarrow> order_key w \<noteq> order_key v"
    and cross: "\<And>w. w \<in> set (sb_orders A (opp s)) \<Longrightarrow> no_cross s (mo_price v) (mo_price w)"
  shows "spec_inv (A\<lparr>sb_orders := (sb_orders A)(s := insert_order v (sb_orders A s))\<rparr>)"
proof -
  note D = spec_invD [OF inv]
  have side: "mo_side v = s" using good(1) by (simp add: order_good_def)
  have lim: "mo_priority w \<le> mo_market_order_id w \<and> mo_market_order_id w < sb_next_id A"
    if "w \<in> set (sb_orders A s)" for w
    using D(2) [OF s that] by (simp add: order_good_def)
  note P = next_priority_max(3) [OF D(1) [OF s] lim D(6,7), where p = "mo_price v", folded pri]
  obtain as bs where ab: "sb_orders A s = as @ bs" "insert_order v (sb_orders A s) = as @ v # bs"
    "\<And>y. y \<in> set as \<Longrightarrow> \<not> better s (mo_price v) (mo_price y)"
    "\<And>y. y \<in> set bs \<Longrightarrow> better s (mo_price v) (mo_price y)"
    using insert_order_parts [OF D(1) [OF s] side] by metis
  have "before s y v" if "y \<in> set as" for y
    using ab(3) [OF that] better_total [of "mo_price y" "mo_price v" s] P [of y] newest [OF s, of y] that ab(1)
    by (cases "mo_price y = mo_price v") (auto simp: before_def)
  moreover have "before s v y" if "y \<in> set bs" for y using ab(4) [OF that] by (simp add: before_def)
  ultimately have srt: "sorted_wrt (before s) (as @ v # bs)"
    using D(1) [OF s] by (auto simp: ab(1) sorted_wrt_append)
  have members: "set (as @ v # bs) = insert v (set (sb_orders A s))" by (auto simp: ab(1))
  have goods: "order_good A u w \<and> qty_good w"
    if "u \<in> sides" "w \<in> set (((sb_orders A)(s := as @ v # bs)) u)" for u w
    using that D(2) good members by (auto split: if_splits)
  have dist: "distinct (map f (((sb_orders A)(s := as @ v # bs)) BUY @ ((sb_orders A)(s := as @ v # bs)) SELL))"
    if "distinct (map f (sb_orders A BUY @ sb_orders A SELL))"
      "\<And>u w. u \<in> sides \<Longrightarrow> w \<in> set (sb_orders A u) \<Longrightarrow> f w \<noteq> f v" for f :: "MEOrder \<Rightarrow> 'b"
  proof (cases "s = BUY")
    case True
    then show ?thesis using that(1) that(2) [of BUY] that(2) [of SELL] ab(1) by (auto simp: sides_def) force+
  next
    case False
    then have "s = SELL" using s by (simp add: sides_iff)
    then show ?thesis using that(1) that(2) [of BUY] that(2) [of SELL] ab(1) by (auto simp: sides_def) force+
  qed
  have uncross: "mo_price x < mo_price y" if "x \<in> set (((sb_orders A)(s := as @ v # bs)) BUY)"
    "y \<in> set (((sb_orders A)(s := as @ v # bs)) SELL)" for x y
  proof (cases "s = BUY")
    case True
    then show ?thesis using that D(3) cross [of y] ab(1) by (auto simp: opp_def no_cross_def)
  next
    case False
    then have "s = SELL" using s by (simp add: sides_iff)
    then show ?thesis using that D(3) cross [of x] ab(1) by (auto simp: opp_def no_cross_def)
  qed
  have og: "order_good (A\<lparr>sb_orders := f\<rparr>) u w = order_good A u w" for f u w by (simp add: order_good_def)
  have "spec_inv (A\<lparr>sb_orders := (sb_orders A)(s := as @ v # bs)\<rparr>)" (is "spec_inv ?A")
  proof (rule spec_invI)
    have f: "sb_orders ?A = (sb_orders A)(s := as @ v # bs)" by simp
    show "sorted_wrt (before u) (sb_orders ?A u)" if "u \<in> sides" for u
      using D(1) [OF that] srt by simp
    show "order_good ?A u w \<and> qty_good w" if "u \<in> sides" "w \<in> set (sb_orders ?A u)" for u w
      using goods [OF that(1)] that(2) unfolding f og by blast
    show "mo_price x < mo_price y" if "x \<in> set (sb_orders ?A BUY)" "y \<in> set (sb_orders ?A SELL)" for x y
      using uncross that unfolding f by blast
    show "distinct (map mo_market_order_id (sb_orders ?A BUY @ sb_orders ?A SELL))"
      unfolding f by (rule dist [OF D(4)]) (use newest in force)
    show "distinct (map order_key (sb_orders ?A BUY @ sb_orders ?A SELL))"
      unfolding f by (rule dist [OF D(5) key])
    show "0 < sb_next_id ?A" "unat (sb_next_id ?A) \<le> ME_MAX_ORDER_IDS" using D(6,7) by simp_all
  qed
  then show ?thesis by (simp only: ab(2))
qed

lemma spec_inv_add:
  assumes inv: "spec_inv A"
  shows "spec_inv (spec_add c i t s p q A)"
proof (cases "spec_reject_reason c i t s p q A = Rej_NONE")
  case False
  then show ?thesis using inv by (simp add: spec_add_def Let_def)
next
  case True
  note D = spec_invD [OF inv]
  have facts: "s \<in> sides" "unat c < ME_MAX_NUM_CLIENTS" "i \<notin> sb_used A c" "t = sb_ticker A"
    "0 < p" "p \<noteq> Price_INVALID" "unat (sb_next_id A) < ME_MAX_ORDER_IDS"
    "q \<noteq> 0" "unat q \<le> INT32_MAX"
    using True by (auto simp: spec_reject_reason_def sides_def split: if_splits)
  let ?m = "sb_next_id A"
  obtain q' os' ms where sm: "spec_match c i t s p ?m q (sb_orders A (opp s)) = (q', os', ms)"
    by (cases "spec_match c i t s p ?m q (sb_orders A (opp s))") auto
  let ?A1 = "A\<lparr>sb_used := (sb_used A)(c := insert i (sb_used A c)), sb_next_id := ?m + 1,
      sb_orders := (sb_orders A)(opp s := os')\<rparr>"
  note I1 = spec_inv_matched [OF inv facts(1,7) sm]
  let ?r = "SinkResponse (mk_response Resp_ACCEPTED c t i ?m s p 0 q Rej_NONE)"
  let ?v = "MEOrder_make t c i ?m s p q' (spec_next_priority p (sb_orders ?A1 s)) None None"
  have eq: "spec_add c i t s p q A = (if q' = 0 then spec_emit (?r # ms) ?A1
     else spec_emit [SinkMarket (mk_update Mkt_ADD ?m t s p q' (mo_priority ?v))] (spec_emit (?r # ms)
       (?A1\<lparr>sb_orders := (sb_orders ?A1)(s := insert_order ?v (sb_orders ?A1 s))\<rparr>)))"
    using True sm by (simp add: spec_add_def Let_def)
  have "spec_inv (?A1\<lparr>sb_orders := (sb_orders ?A1)(s := insert_order ?v (sb_orders ?A1 s))\<rparr>)" if q': "q' \<noteq> 0"
  proof (rule spec_inv_insert [OF I1 facts(1)])
    note D1 = spec_invD [OF I1]
    obtain k where k: "map ident os' = map ident (drop k (sb_orders A (opp s)))"
      "os' = [] \<or> no_cross s p (mo_price (hd os'))"
      using spec_match_suffix [OF sm] q' by blast
    note K = suffix_keeps [OF k(1)]
    have srt: "sorted_wrt (before (opp s)) os'" using K(1) D(1) [OF opp_sides(1)] by blast
    have og: "order_good A (opp s) w" if "w \<in> set os'" for w
      using K(2) [of A "opp s" w] D(2) [OF opp_sides(1)] that by blast
    have old: "order_good A u w" if "u \<in> sides" "w \<in> set (sb_orders ?A1 u)" for u w
      using og D(2) that by (cases "u = opp s") auto
    show "mo_market_order_id w < mo_market_order_id ?v" if "u \<in> sides" "w \<in> set (sb_orders ?A1 u)" for u w
      using old [OF that] by (simp add: order_good_def)
    show "order_key w \<noteq> order_key ?v" if "u \<in> sides" "w \<in> set (sb_orders ?A1 u)" for u w
      using old [OF that] facts(3) by (auto simp: order_good_def order_key_def)
    show "no_cross s (mo_price ?v) (mo_price w)" if "w \<in> set (sb_orders ?A1 (opp s))" for w
      using that srt k(2) facts(1)
      by (cases os') (auto simp: before_def better_def no_cross_def opp_def sides_iff split: if_splits)
    have lim: "mo_priority w \<le> mo_market_order_id w \<and> mo_market_order_id w < ?m" if "w \<in> set (sb_orders ?A1 s)" for w
      using old [OF facts(1) that] by (simp add: order_good_def)
    note P = next_priority_max(1,2) [OF D1(1) [OF facts(1)] lim D(6,7), where p = p]
    show "order_good ?A1 s ?v"
      using facts P D(6) next_id_step(2) [OF facts(7)]
      by (simp add: order_good_def strip_def MEOrder_make_def)
    have "unat q' \<le> unat q" using spec_match_conserves [OF sm] by simp
    then show "qty_good ?v" using facts(9) q' by (simp add: qty_good_def)
  qed simp
  then show ?thesis unfolding eq using I1 by simp
qed

lemma spec_inv_cancel:
  assumes inv: "spec_inv A"
  shows "spec_inv (spec_cancel c i t A)"
proof -
  note D = spec_invD [OF inv]
  let ?f = "\<lambda>y. order_key y \<noteq> (c, i)"
  have "spec_inv (A\<lparr>sb_orders := \<lambda>s. filter ?f (sb_orders A s)\<rparr>)" (is "spec_inv ?A")
  proof (rule spec_invI)
    show "sorted_wrt (before u) (sb_orders ?A u)" if "u \<in> sides" for u
      using D(1) [OF that] by (simp add: sorted_wrt_filter)
    show "order_good ?A u w \<and> qty_good w" if "u \<in> sides" "w \<in> set (sb_orders ?A u)" for u w
      using D(2) [OF that(1), of w] that(2) by (simp add: order_good_def)
    show "mo_price x < mo_price y" if "x \<in> set (sb_orders ?A BUY)" "y \<in> set (sb_orders ?A SELL)" for x y
      using D(3) [of x y] that by simp
    show "distinct (map mo_market_order_id (sb_orders ?A BUY @ sb_orders ?A SELL))"
      using distinct_map_filter [OF D(4), of ?f] by simp
    show "distinct (map order_key (sb_orders ?A BUY @ sb_orders ?A SELL))"
      using distinct_map_filter [OF D(5), of ?f] by simp
    show "0 < sb_next_id ?A" "unat (sb_next_id ?A) \<le> ME_MAX_ORDER_IDS" using D(6,7) by simp_all
  qed
  then show ?thesis using inv by (simp add: spec_cancel_def split: option.splits)
qed

lemma spec_inv_query: "spec_inv A \<Longrightarrow> spec_inv (spec_query c i A)"
  by (simp add: spec_query_def split: option.splits)

lemma spec_inv_call: "spec_inv A \<Longrightarrow> spec_inv (spec_call r A)"
  by (cases r) (simp_all add: spec_inv_add spec_inv_cancel spec_inv_query)

lemma spec_inv_run: "spec_inv A \<Longrightarrow> spec_inv (fold spec_call rs A)"
  by (induct rs arbitrary: A) (simp_all add: spec_inv_call)

subsection \<open>From the constructor\<close>

lemma book_call_ok:
  assumes "book_ok b g" "spec_inv (abs_book b g)"
  shows "\<exists>b' g'. book_call r b = Some b' \<and> book_ok b' g' \<and> abs_book b' g' = spec_call r (abs_book b g)"
proof (cases r)
  case (CallAdd c i t s p q)
  then show ?thesis using add_ok [OF assms(1) spec_inv_keys [OF assms(2)]] by simp
next
  case (CallCancel c i t)
  then show ?thesis using cancel_ok [OF assms(1)] by simp
next
  case (CallQuery c i)
  then show ?thesis using query_ok [OF assms(1)] by auto
qed

lemma book_run_ok:
  assumes "book_ok b g" "spec_inv (abs_book b g)"
  shows "\<exists>b' g'. book_run rs b = Some b' \<and> book_ok b' g' \<and> abs_book b' g' = fold spec_call rs (abs_book b g)"
  using assms
proof (induction rs arbitrary: b g)
  case (Cons r rs)
  from book_call_ok [OF Cons.prems, of r] obtain b1 g1 where
    1: "book_call r b = Some b1" "book_ok b1 g1" "abs_book b1 g1 = spec_call r (abs_book b g)" by blast
  then have "spec_inv (abs_book b1 g1)" using spec_inv_call [OF Cons.prems(2)] by simp
  from Cons.IH [OF 1(2) this] 1 show ?case by auto
qed auto

lemma make_ok:
  assumes "0 < levels" "levels \<le> UINT32_MAX" "0 < orders" "orders \<le> UINT32_MAX"
  shows "\<exists>b. MEOrderBook_make levels orders t = Some b \<and> book_ok b (\<lambda>_. []) \<and>
     abs_book b (\<lambda>_. []) = spec_new levels orders t"
proof -
  obtain lp where lp: "MemPool_new levels = Some (lp :: OrdersAtPrice MemPool)"
    using MemPool_new_ok [OF assms(1,2)] by blast
  obtain op where op: "MemPool_new orders = Some (op :: MEOrder MemPool)"
    using MemPool_new_ok [OF assms(3,4)] by blast
  let ?b = "\<lparr>orders_at_price_pool = lp, bids_by_price = None, asks_by_price = None,
       price_orders_at_price = (\<lambda>_. None), order_pool = op, ob_ticker_id = t,
       cid_oid_to_order = (\<lambda>_ _. None), last_order_response = (\<lambda>_ _. None),
       next_market_order_id = 1, used_client_order_ids = (\<lambda>_. {}), sink = []\<rparr>"
  note N = MemPool_new_Some [OF lp] MemPool_new_Some [OF op]
  have "ladder_ok ?b {} (\<lambda>_. [])"
    using N by (auto simp: ladder_ok_def rungs_ok_def best_of_def)
  then have "book_ok ?b (\<lambda>_. [])" using N by (simp add: book_ok_def oS_def)
  moreover have "abs_book ?b (\<lambda>_. []) = spec_new levels orders t"
    using N by (auto simp: abs_book_def spec_new_def book_list_def fun_eq_iff)
  ultimately show ?thesis using lp op by (simp add: MEOrderBook_make_def)
qed

lemma spec_inv_new: "spec_inv (spec_new levels orders t)"
  by (rule spec_invI) (auto simp: spec_new_def limits)

lemma limits_ok: "0 < ME_MAX_PRICE_LEVELS" "ME_MAX_PRICE_LEVELS \<le> UINT32_MAX" "0 < ME_MAX_ORDER_IDS"
  "ME_MAX_ORDER_IDS \<le> UINT32_MAX"
  by (simp_all add: limits)

lemma reachable_ok:
  assumes "reachable_book t b"
  shows "\<exists>g rs. book_ok b g \<and> spec_inv (abs_book b g) \<and>
     abs_book b g = fold spec_call rs (spec_new ME_MAX_PRICE_LEVELS ME_MAX_ORDER_IDS t)"
proof -
  obtain rs b0 where b0: "MEOrderBook_new t = Some b0" "book_run rs b0 = Some b"
    using assms by (auto simp: reachable_book_def)
  from make_ok [OF limits_ok, of t] b0(1) have
    "book_ok b0 (\<lambda>_. [])" "abs_book b0 (\<lambda>_. []) = spec_new ME_MAX_PRICE_LEVELS ME_MAX_ORDER_IDS t"
    by (auto simp: MEOrderBook_new_def)
  with book_run_ok [of b0 "\<lambda>_. []" rs] spec_inv_new b0(2) show ?thesis
    by (metis option.inject spec_inv_run)
qed

lemma reachable_step:
  assumes "reachable_book t b" "book_run rs b = Some b'"
  shows "reachable_book t b'"
proof -
  have append: "book_run (qs @ rs) b0 = Option.bind (book_run qs b0) (book_run rs)" for qs b0
  proof (induct qs arbitrary: b0)
    case (Cons q qs)
    then show ?case by (cases "book_call q b0") simp_all
  qed simp
  from assms(1) obtain qs b0 where "MEOrderBook_new t = Some b0" "book_run qs b0 = Some b"
    by (auto simp: reachable_book_def)
  then show ?thesis using assms(2) append [of qs b0] by (force simp: reachable_book_def)
qed

lemma reachable_new: "\<exists>b. MEOrderBook_new t = Some b \<and> reachable_book t b"
proof -
  obtain b where "MEOrderBook_new t = Some b" using make_ok [OF limits_ok, of t] by (auto simp: MEOrderBook_new_def)
  moreover have "book_run [] b = Some b" by simp
  ultimately show ?thesis unfolding reachable_book_def by blast
qed

lemma abs_lists: "book_list b g BUY = sb_orders (abs_book b g) BUY"
  "book_list b g SELL = sb_orders (abs_book b g) SELL"
  by (simp_all add: abs_book_def sides_def)

lemma spec_call_frame:
  "sb_ticker (spec_call r A) = sb_ticker A" "sb_order_cap (spec_call r A) = sb_order_cap A"
  "sb_level_cap (spec_call r A) = sb_level_cap A" "sb_used A c \<subseteq> sb_used (spec_call r A) c"
  by (cases r; auto simp: spec_add_def spec_cancel_def spec_query_def spec_emit_def Let_def
        split: option.splits prod.splits)+

lemma spec_run_ticker:
  "sb_ticker (fold spec_call rs A) = sb_ticker A" "sb_order_cap (fold spec_call rs A) = sb_order_cap A"
  "sb_level_cap (fold spec_call rs A) = sb_level_cap A" "sb_used A c \<subseteq> sb_used (fold spec_call rs A) c"
proof -
  show "sb_used A c \<subseteq> sb_used (fold spec_call rs A) c"
  proof (induct rs arbitrary: A)
    case (Cons r rs)
    from Cons [of "spec_call r A"] spec_call_frame(4) [of A c r] show ?case by auto
  qed simp
qed (induct rs arbitrary: A; simp add: spec_call_frame)+

lemma depth_append: "depth (xs @ ys) = depth xs + depth ys"
  by (simp add: depth_def)

lemma depth_insert: "depth (insert_order v os) = depth os + unat (mo_qty v)"
proof -
  let ?P = "\<lambda>y. \<not> better (mo_side v) (mo_price v) (mo_price y)"
  have "depth os = depth (takeWhile ?P os) + depth (dropWhile ?P os)"
    by (simp flip: depth_append)
  then show ?thesis by (simp add: insert_order_def depth_append) (simp add: depth_def)
qed

text \<open>A concrete book for the examples: client 1 bids 10 at 100 under its order id 7.\<close>

lemma sample_book:
  "\<exists>b g. reachable_book 0 b \<and> book_ok b g \<and>
     abs_book b g = spec_add 1 7 0 BUY 100 10 (spec_new ME_MAX_PRICE_LEVELS ME_MAX_ORDER_IDS 0)"
proof -
  obtain b where b: "MEOrderBook_new 0 = Some b" "book_ok b (\<lambda>_. [])"
    "abs_book b (\<lambda>_. []) = spec_new ME_MAX_PRICE_LEVELS ME_MAX_ORDER_IDS 0"
    using make_ok [OF limits_ok, of 0] by (auto simp: MEOrderBook_new_def)
  obtain b' g where 1: "book_run [CallAdd 1 7 0 BUY 100 10] b = Some b'" "book_ok b' g"
    "abs_book b' g = fold spec_call [CallAdd 1 7 0 BUY 100 10] (abs_book b (\<lambda>_. []))"
    using book_run_ok [OF b(2), of "[CallAdd 1 7 0 BUY 100 10]"] spec_inv_new b(3) by metis
  have "reachable_book 0 b'" using b(1) 1(1) unfolding reachable_book_def by blast
  with 1 b(3) show ?thesis by auto
qed

lemmas spec_eval = spec_add_def spec_new_def spec_reject_reason_def spec_live_def spec_levels_def limits
  spec_emit_def opp_def insert_order_def spec_next_priority_def Let_def

lemma sample_accepts:
  "spec_reject_reason 2 9 0 SELL 99 4
     (spec_add 1 7 0 BUY 100 10 (spec_new ME_MAX_PRICE_LEVELS ME_MAX_ORDER_IDS 0)) = Rej_NONE"
  by (simp add: spec_eval)

subsection \<open>Properties of the exchange book\<close>

text \<open>C1: after the constructor and any sequence of add, cancel and query requests the pointer implementation
  has not failed (no null or dangling pointer, no exhausted pool, no endless loop), its heap is well formed, and its
  orders, identifiers, last responses and emitted messages are exactly those of the price-time
  priority specification run on the same requests.\<close>

theorem book_refines_spec:
  "\<exists>b b' g. MEOrderBook_new t = Some b \<and> book_run rs b = Some b' \<and> book_ok b' g \<and>
     abs_book b' g = fold spec_call rs (spec_new ME_MAX_PRICE_LEVELS ME_MAX_ORDER_IDS t)"
proof -
  obtain b where b: "MEOrderBook_new t = Some b" "book_ok b (\<lambda>_. [])"
    "abs_book b (\<lambda>_. []) = spec_new ME_MAX_PRICE_LEVELS ME_MAX_ORDER_IDS t"
    using make_ok [OF limits_ok, of t] by (auto simp: MEOrderBook_new_def)
  with book_run_ok [OF b(2), of rs] spec_inv_new show ?thesis by force
qed

text \<open>C6: in every reachable book each side is in price-time order: walking the levels from the best one and each
  level from its first order, prices only get worse, and at one price both the priorities and the market order
  ids increase. Every order is linked on the side and under the price it carries.\<close>

theorem reachable_price_time:
  assumes "reachable_book t b"
  shows "\<exists>g. book_ok b g \<and> (\<forall>s \<in> sides. sorted_wrt (before s) (book_list b g s) \<and>
     (\<forall>v \<in> set (book_list b g s). mo_side v = s))"
proof -
  obtain g where g: "book_ok b g" "spec_inv (abs_book b g)" using reachable_ok [OF assms] by blast
  then show ?thesis using spec_invD(1,2) [OF g(2)] by (auto simp: abs_orders order_good_def)
qed

lemma reachable_price_time_witness:
  "\<exists>b g. reachable_book 0 b \<and> book_ok b g \<and> (\<forall>s \<in> sides. sorted_wrt (before s) (book_list b g s) \<and>
     (\<forall>v \<in> set (book_list b g s). mo_side v = s))"
  using sample_book reachable_price_time by blast

text \<open>C7: a reachable book is never crossed or locked: every resting bid is below every resting ask.\<close>

theorem reachable_uncrossed:
  assumes "reachable_book t b"
  shows "\<exists>g. book_ok b g \<and> (\<forall>v \<in> set (book_list b g BUY). \<forall>w \<in> set (book_list b g SELL). mo_price v < mo_price w)"
proof -
  obtain g where g: "book_ok b g" "spec_inv (abs_book b g)" using reachable_ok [OF assms] by blast
  then show ?thesis using spec_invD(3) [OF g(2)] by (auto simp: abs_lists)
qed

lemma reachable_uncrossed_witness:
  "\<exists>b g. reachable_book 0 b \<and> book_ok b g \<and>
     (\<forall>v \<in> set (book_list b g BUY). \<forall>w \<in> set (book_list b g SELL). mo_price v < mo_price w)"
  using sample_book reachable_uncrossed by blast

text \<open>C12: identifiers of a reachable book: market order ids and \<open>(client, client order id)\<close> pairs of resting orders are
  pairwise distinct; the id counter stays within \<open>ME_MAX_ORDER_IDS\<close> and above every id and priority in the
  book, so neither counter has wrapped; quantities are positive and fit \<open>int32\<close>.\<close>

theorem reachable_identifiers:
  assumes "reachable_book t b"
  shows "\<exists>g. book_ok b g \<and>
     distinct (map mo_market_order_id (book_list b g BUY @ book_list b g SELL)) \<and>
     distinct (map order_key (book_list b g BUY @ book_list b g SELL)) \<and>
     unat (next_market_order_id b) \<le> ME_MAX_ORDER_IDS \<and>
     (\<forall>v \<in> set (book_list b g BUY @ book_list b g SELL).
        0 < mo_priority v \<and> mo_priority v \<le> mo_market_order_id v \<and>
        mo_market_order_id v < next_market_order_id b \<and> 0 < mo_qty v \<and> unat (mo_qty v) \<le> INT32_MAX)"
proof -
  obtain g where g: "book_ok b g" "spec_inv (abs_book b g)" using reachable_ok [OF assms] by blast
  note D = spec_invD [OF g(2)]
  have "0 < mo_priority v \<and> mo_priority v \<le> mo_market_order_id v \<and>
        mo_market_order_id v < next_market_order_id b \<and> 0 < mo_qty v \<and> unat (mo_qty v) \<le> INT32_MAX"
    if "v \<in> set (book_list b g BUY @ book_list b g SELL)" for v
    using that D(2) [of BUY v] D(2) [of SELL v]
    by (auto simp: abs_lists sides_def order_good_def qty_good_def word_gt_0 abs_sel(2) [of b g])
  then show ?thesis using g(1) D(4,5,7) by (auto simp: abs_lists abs_sel(2) [of b g])
qed

lemma reachable_identifiers_witness:
  "\<exists>b g. reachable_book 0 b \<and> book_ok b g \<and>
     distinct (map mo_market_order_id (book_list b g BUY @ book_list b g SELL))"
  using sample_book reachable_identifiers by blast

text \<open>C8: quantity accounting of an accepted order. The traded quantity leaves the opposite side, never exceeds the
  order's quantity, and what is not traded is exactly what the own side gains.\<close>

theorem add_conserves_quantity:
  assumes "reachable_book t b" "add_reject_reason c i t s p q b = Rej_NONE"
  shows "\<exists>b' g g' ms. add c i t s p q b = Some b' \<and> book_ok b g \<and> book_ok b' g' \<and> sink b' = sink b @ ms \<and>
     traded ms \<le> unat q \<and>
     depth (book_list b' g' (opp s)) + traded ms = depth (book_list b g (opp s)) \<and>
     depth (book_list b' g' s) + traded ms = depth (book_list b g s) + unat q"
proof -
  obtain g where g: "book_ok b g" "spec_inv (abs_book b g)" using reachable_ok [OF assms(1)] by blast
  let ?A = "abs_book b g"
  have rej: "spec_reject_reason c i t s p q ?A = Rej_NONE" using assms(2) reject_reason_ok [OF g(1)] by simp
  then have s: "s \<in> sides" by (auto simp: spec_reject_reason_def sides_def split: if_splits)
  obtain b' g' where b': "add c i t s p q b = Some b'" "book_ok b' g'" "abs_book b' g' = spec_add c i t s p q ?A"
    using add_ok [OF g(1) spec_inv_keys [OF g(2)]] by blast
  obtain q' os' ms where sm: "spec_match c i t s p (sb_next_id ?A) q (sb_orders ?A (opp s)) = (q', os', ms)"
    by (cases "spec_match c i t s p (sb_next_id ?A) q (sb_orders ?A (opp s))") auto
  note C = spec_match_conserves [OF sm]
  let ?acc = "SinkResponse (mk_response Resp_ACCEPTED c t i (sb_next_id ?A) s p 0 q Rej_NONE)"
  let ?add = "if q' = 0 then [] else [SinkMarket (mk_update Mkt_ADD (sb_next_id ?A) t s p q'
      (spec_next_priority p (sb_orders ?A s)))]"
  have out: "sb_out (abs_book b' g') = sb_out ?A @ (?acc # ms @ ?add)"
    "sb_orders (abs_book b' g') (opp s) = os'"
    "depth (sb_orders (abs_book b' g') s) = depth (sb_orders ?A s) + unat q'"
    unfolding b'(3) using rej sm by (simp_all add: spec_add_def Let_def spec_emit_def depth_insert)
  have "traded (?acc # ms @ ?add) = traded ms" by (simp add: traded_def)
  moreover have "sink b' = sink b @ (?acc # ms @ ?add)" using out(1) by (simp add: abs_book_def)
  ultimately show ?thesis using b' g(1) out(2,3) C s abs_orders [OF s, of b g] abs_orders [OF s, of b' g']
      abs_orders [of "opp s" b g] abs_orders [of "opp s" b' g']
    by (intro exI [of _ b'] exI [of _ g] exI [of _ g'] exI [of _ "?acc # ms @ ?add"]) auto
qed

lemma add_conserves_quantity_witness:
  "\<exists>b b' g g' ms. reachable_book 0 b \<and> add_reject_reason 2 9 0 SELL 99 4 b = Rej_NONE \<and>
     add 2 9 0 SELL 99 4 b = Some b' \<and> book_ok b g \<and> book_ok b' g' \<and> sink b' = sink b @ ms \<and>
     depth (book_list b' g' BUY) + traded ms = depth (book_list b g BUY)"
proof -
  obtain b g where b: "reachable_book 0 b" "add_reject_reason 2 9 0 SELL 99 4 b = Rej_NONE"
    using sample_book sample_accepts reject_reason_ok by metis
  have "opp SELL = BUY" by (simp add: opp_def)
  with add_conserves_quantity [OF b] b show ?thesis by metis
qed

lemma spec_match_trades:
  "spec_match c i t s p m q os = (q', os', ms) \<Longrightarrow> SinkMarket u \<in> set ms \<Longrightarrow> mu_type u = Mkt_TRADE \<Longrightarrow>
   \<not> no_cross s p (mu_price u) \<and> mu_price u \<in> mo_price ` set os \<and> 0 < q"
proof (induction os arbitrary: q q' os' ms)
  case (Cons ord os)
  let ?f = "min q (mo_qty ord)"
  obtain q1 o1 m1 where r: "spec_match c i t s p m (q - ?f) os = (q1, o1, m1)"
    by (cases "spec_match c i t s p m (q - ?f) os") auto
  have nc: "q \<noteq> 0" "\<not> no_cross s p (mo_price ord)" using Cons.prems by (auto split: if_splits)
  have fill: "mu_price u = mo_price ord" if "SinkMarket u \<in> set (fill_msgs c i t s m f l ord)" for f l
    using that Cons.prems(3) by (auto simp: fill_msgs_def split: if_splits)
  have "SinkMarket u \<in> set (fill_msgs c i t s m ?f (q - ?f) ord) \<or> SinkMarket u \<in> set m1"
    using Cons.prems(1,2) r nc by (auto simp: Let_def split: if_splits)
  then show ?case
    using fill Cons.IH [OF r _ Cons.prems(3)] nc by (auto simp: word_gt_0)
qed simp

text \<open>C9: an accepted order trades only at prices within its limit, and each trade prints at the price of a
  resting order of the opposite side.\<close>

theorem add_trades_within_limit:
  assumes "reachable_book t b" "add_reject_reason c i t s p q b = Rej_NONE"
  shows "\<exists>b' g ms. add c i t s p q b = Some b' \<and> book_ok b g \<and> sink b' = sink b @ ms \<and>
     (\<forall>u. SinkMarket u \<in> set ms \<and> mu_type u = Mkt_TRADE \<longrightarrow>
        (if s = BUY then mu_price u \<le> p else p \<le> mu_price u) \<and>
        mu_price u \<in> mo_price ` set (book_list b g (opp s)))"
proof -
  obtain g where g: "book_ok b g" "spec_inv (abs_book b g)" using reachable_ok [OF assms(1)] by blast
  let ?A = "abs_book b g"
  have rej: "spec_reject_reason c i t s p q ?A = Rej_NONE" using assms(2) reject_reason_ok [OF g(1)] by simp
  obtain b' g' where b': "add c i t s p q b = Some b'" "abs_book b' g' = spec_add c i t s p q ?A"
    using add_ok [OF g(1) spec_inv_keys [OF g(2)]] by blast
  obtain q' os' ms where sm: "spec_match c i t s p (sb_next_id ?A) q (sb_orders ?A (opp s)) = (q', os', ms)"
    by (cases "spec_match c i t s p (sb_next_id ?A) q (sb_orders ?A (opp s))") auto
  have "\<exists>x y. sb_out (abs_book b' g') = sb_out ?A @ (SinkResponse x # ms @ y) \<and>
      (\<forall>u. SinkMarket u \<in> set y \<longrightarrow> mu_type u = Mkt_ADD)"
    unfolding b'(2) using rej sm
    by (cases "q' = 0") (force simp: spec_add_def Let_def spec_emit_def)+
  then obtain x y where out: "sink b' = sink b @ (SinkResponse x # ms @ y)"
    "\<forall>u. SinkMarket u \<in> set y \<longrightarrow> mu_type u = Mkt_ADD" by (auto simp: abs_book_def)
  have "(if s = BUY then mu_price u \<le> p else p \<le> mu_price u) \<and>
        mu_price u \<in> mo_price ` set (book_list b g (opp s))"
    if "SinkMarket u \<in> set (SinkResponse x # ms @ y)" "mu_type u = Mkt_TRADE" for u
    using that out(2) spec_match_trades [OF sm, of u] by (auto simp: no_cross_def abs_orders split: if_splits)
  with b'(1) g(1) out(1) show ?thesis by blast
qed

lemma add_trades_within_limit_witness:
  "\<exists>b b' ms. reachable_book 0 b \<and> add_reject_reason 2 9 0 SELL 99 4 b = Rej_NONE \<and>
     add 2 9 0 SELL 99 4 b = Some b' \<and> sink b' = sink b @ ms \<and>
     (\<forall>u. SinkMarket u \<in> set ms \<and> mu_type u = Mkt_TRADE \<longrightarrow> 99 \<le> mu_price u)"
proof -
  obtain b g where b: "reachable_book 0 b" "add_reject_reason 2 9 0 SELL 99 4 b = Rej_NONE"
    using sample_book sample_accepts reject_reason_ok by metis
  from add_trades_within_limit [OF b] obtain b' ms where
    "add 2 9 0 SELL 99 4 b = Some b'" "sink b' = sink b @ ms"
    "\<forall>u. SinkMarket u \<in> set ms \<and> mu_type u = Mkt_TRADE \<longrightarrow>
        (if SELL = BUY then mu_price u \<le> 99 else 99 \<le> mu_price u)" by blast
  with b show ?thesis by auto
qed

lemma rejected_add:
  assumes "add_reject_reason c i t s p q b \<noteq> Rej_NONE"
  shows "add c i t s p q b = Some (b\<lparr>sink := sink b @ [SinkResponse (mk_response Resp_REJECTED c t i
     OrderId_INVALID s p 0 0 (add_reject_reason c i t s p q b))]\<rparr>)"
  using assms by (simp add: add_def Let_def emitResponse_def)

text \<open>C11: an accepted client order id is spent for good. Whatever is requested afterwards, and even when the first order
  was filled or cancelled, a later order of the same client with that id is rejected, whatever its side, price and quantity,
  and leaves the book as it was; the reason is a duplicate id when the other fields are valid.\<close>

theorem accepted_id_never_reused:
  assumes "reachable_book t b" "add_reject_reason c i t s p q b = Rej_NONE"
  shows "\<exists>b' b''. add c i t s p q b = Some b' \<and> book_run rs b' = Some b'' \<and>
     (\<forall>s' p' q'. \<exists>r. r \<noteq> Rej_NONE \<and>
        (s' \<in> {BUY, SELL} \<and> 0 < p' \<and> p' \<noteq> Price_INVALID \<and> q' \<noteq> 0 \<and> unat q' \<le> INT32_MAX \<longrightarrow> r = Rej_DUPLICATE_ID) \<and>
        add c i t s' p' q' b'' =
          Some (b''\<lparr>sink := sink b'' @ [SinkResponse (mk_response Resp_REJECTED c t i OrderId_INVALID s' p' 0 0 r)]\<rparr>))"
proof -
  obtain g where g: "book_ok b g" "spec_inv (abs_book b g)" using reachable_ok [OF assms(1)] by blast
  let ?A = "abs_book b g"
  have rej: "spec_reject_reason c i t s p q ?A = Rej_NONE" using assms(2) reject_reason_ok [OF g(1)] by simp
  obtain b' g' where b': "add c i t s p q b = Some b'" "book_ok b' g'" "abs_book b' g' = spec_add c i t s p q ?A"
    using add_ok [OF g(1) spec_inv_keys [OF g(2)]] by blast
  have inv': "spec_inv (abs_book b' g')" unfolding b'(3) by (rule spec_inv_add [OF g(2)])
  obtain b'' g'' where b'': "book_run rs b' = Some b''" "book_ok b'' g''"
    "abs_book b'' g'' = fold spec_call rs (abs_book b' g')" using book_run_ok [OF b'(2) inv'] by blast
  have "i \<in> sb_used (abs_book b' g') c" "sb_ticker (abs_book b' g') = sb_ticker ?A" unfolding b'(3) using rej
    by (auto simp: spec_add_def spec_emit_def Let_def split: prod.splits)
  then have "i \<in> sb_used (abs_book b'' g'') c" "sb_ticker (abs_book b'' g'') = sb_ticker ?A"
    using spec_run_ticker(1,4) [where A = "abs_book b' g'" and rs = rs] b''(3) by auto
  then have "spec_reject_reason c i t s' p' q' (abs_book b'' g'') \<noteq> Rej_NONE \<and>
      (s' \<in> {BUY, SELL} \<and> 0 < p' \<and> p' \<noteq> Price_INVALID \<and> q' \<noteq> 0 \<and> unat q' \<le> INT32_MAX \<longrightarrow>
        spec_reject_reason c i t s' p' q' (abs_book b'' g'') = Rej_DUPLICATE_ID)" for s' p' q'
    using rej by (auto simp: spec_reject_reason_def limits split: if_splits)
  then show ?thesis using b'(1) b''(1) reject_reason_ok [OF b''(2)] rejected_add [of c i t _ _ _ b''] by metis
qed

lemma accepted_id_never_reused_witness:
  "\<exists>b b' b'' b3. reachable_book 0 b \<and> add 2 9 0 SELL 99 4 b = Some b' \<and> book_run [CallCancel 2 9 0] b' = Some b'' \<and>
     add 2 9 0 BUY 50 7 b'' = Some b3 \<and>
     b3 = b''\<lparr>sink := sink b'' @ [SinkResponse (mk_response Resp_REJECTED 2 0 9 OrderId_INVALID BUY 50 0 0 Rej_DUPLICATE_ID)]\<rparr>"
proof -
  obtain b g where b: "reachable_book 0 b" "add_reject_reason 2 9 0 SELL 99 4 b = Rej_NONE"
    using sample_book sample_accepts reject_reason_ok by metis
  from accepted_id_never_reused [OF b, of "[CallCancel 2 9 0]"] obtain b' b'' where
    B: "add 2 9 0 SELL 99 4 b = Some b'" "book_run [CallCancel 2 9 0] b' = Some b''" and
    R: "\<forall>s' p' q'. \<exists>r. r \<noteq> Rej_NONE \<and>
        (s' \<in> {BUY, SELL} \<and> 0 < p' \<and> p' \<noteq> Price_INVALID \<and> q' \<noteq> 0 \<and> unat q' \<le> INT32_MAX \<longrightarrow> r = Rej_DUPLICATE_ID) \<and>
        add 2 9 0 s' p' q' b'' =
          Some (b''\<lparr>sink := sink b'' @ [SinkResponse (mk_response Resp_REJECTED 2 0 9 OrderId_INVALID s' p' 0 0 r)]\<rparr>)" by blast
  obtain r where r: "(BUY \<in> {BUY, SELL} \<and> 0 < (50 :: int) \<and> 50 \<noteq> Price_INVALID \<and> (7 :: Qty) \<noteq> 0 \<and> unat (7 :: Qty) \<le> INT32_MAX \<longrightarrow> r = Rej_DUPLICATE_ID)"
    "add 2 9 0 BUY 50 7 b'' = Some (b''\<lparr>sink := sink b'' @ [SinkResponse (mk_response Resp_REJECTED 2 0 9 OrderId_INVALID BUY 50 0 0 r)]\<rparr>)"
    using R by meson
  have "r = Rej_DUPLICATE_ID" using r(1) by (simp add: limits)
  then show ?thesis using b(1) B r(2) by blast
qed

text \<open>C10: cancelling a resting order removes that order and no other, publishes its removal and answers \<open>CANCELED\<close>
  with the quantity that was still open.\<close>

theorem cancel_removes_exactly:
  assumes "reachable_book t b" "cid_oid_to_order b c i = Some x"
  shows "\<exists>v b' g g'. oheap b x = Some v \<and> cancel c i t b = Some b' \<and> book_ok b g \<and> book_ok b' g' \<and>
     (\<forall>s \<in> sides. book_list b' g' s = filter (\<lambda>w. order_key w \<noteq> (c, i)) (book_list b g s)) \<and>
     cid_oid_to_order b' c i = None \<and>
     sink b' = sink b @ [
       SinkMarket (mk_update Mkt_CANCEL (mo_market_order_id v) t (mo_side v) (mo_price v) 0 (mo_priority v)),
       SinkResponse (mk_response Resp_CANCELED c t i (mo_market_order_id v) (mo_side v) (mo_price v)
         Qty_INVALID (mo_qty v) Rej_NONE)]"
proof -
  obtain g rs where g: "book_ok b g" "spec_inv (abs_book b g)"
    "abs_book b g = fold spec_call rs (spec_new ME_MAX_PRICE_LEVELS ME_MAX_ORDER_IDS t)"
    using reachable_ok [OF assms(1)] by blast
  obtain b' g' where b': "cancel c i t b = Some b'" "book_ok b' g'" "abs_book b' g' = spec_cancel c i t (abs_book b g)"
    using cancel_ok [OF g(1)] by blast
  have tick: "sb_ticker (abs_book b g) = t" unfolding g(3) by (simp add: spec_run_ticker spec_new_def)
  obtain v where v: "oheap b x = Some v" "order_key v = (c, i)" "unat c < ME_MAX_NUM_CLIENTS"
    using book_okD(2,3) [OF g(1)] assms(2) by (fastforce simp: oS_def order_key_def)
  have find: "spec_find c i (abs_book b g) = Some (strip v)"
    using find_ok [OF g(1)] assms(2) v(1) by (simp add: oS_def)
  have eq: "sb_orders (abs_book b' g') = (\<lambda>s. filter (\<lambda>y. order_key y \<noteq> (c, i)) (sb_orders (abs_book b g) s))"
    "sb_out (abs_book b' g') = sb_out (abs_book b g) @ [
       SinkMarket (mk_update Mkt_CANCEL (mo_market_order_id v) t (mo_side v) (mo_price v) 0 (mo_priority v)),
       SinkResponse (mk_response Resp_CANCELED c t i (mo_market_order_id v) (mo_side v) (mo_price v)
         Qty_INVALID (mo_qty v) Rej_NONE)]"
    unfolding b'(3) using v(3) tick find by (simp_all add: spec_cancel_def spec_emit_def)
  have lists: "book_list b' g' s = filter (\<lambda>w. order_key w \<noteq> (c, i)) (book_list b g s)" if "s \<in> sides" for s
    using fun_cong [OF eq(1), of s] that by (simp add: abs_orders)
  have "cid_oid_to_order b' c i = None"
  proof (rule ccontr)
    assume "cid_oid_to_order b' c i \<noteq> None"
    then obtain y w where "oS (oheap b') y = Some w" "order_key w = (c, i)" using book_okD(2) [OF b'(2)] by auto
    with live_listed [OF b'(2)] lists show False by fastforce
  qed
  with v(1) b'(1,2) g(1) lists eq(2) show ?thesis by (auto simp: abs_book_def)
qed

lemma cancel_removes_exactly_witness:
  "\<exists>b x b' g g'. reachable_book 0 b \<and> cid_oid_to_order b 1 7 = Some x \<and> cancel 1 7 0 b = Some b' \<and>
     book_ok b g \<and> book_ok b' g' \<and> book_list b' g' BUY = filter (\<lambda>w. order_key w \<noteq> (1, 7)) (book_list b g BUY)"
proof -
  obtain b g where b: "reachable_book 0 b" "book_ok b g"
    "abs_book b g = spec_add 1 7 0 BUY 100 10 (spec_new ME_MAX_PRICE_LEVELS ME_MAX_ORDER_IDS 0)"
    using sample_book by metis
  have "spec_find 1 7 (abs_book b g) \<noteq> None"
    unfolding b(3) by (simp add: spec_eval spec_find_def order_key_def)
  then obtain x where "cid_oid_to_order b 1 7 = Some x" using find_ok [OF b(2), of 1 7] by (cases "cid_oid_to_order b 1 7") auto
  moreover have "BUY \<in> sides" by (simp add: sides_def)
  ultimately show ?thesis using cancel_removes_exactly [OF b(1), of 1 7 x] b(1) by blast
qed

text \<open>C13: no request leaks or invents a pool slot: in a reachable book the live orders and the free order slots add up to
  \<open>ME_MAX_ORDER_IDS\<close>, the non-empty price levels and the free level slots to \<open>ME_MAX_PRICE_LEVELS\<close>.\<close>

theorem reachable_pools_balance:
  assumes "reachable_book t b"
  shows "\<exists>g. book_ok b g \<and>
     length (book_list b g BUY) + length (book_list b g SELL) + available (order_pool b) = ME_MAX_ORDER_IDS \<and>
     card (mo_price ` set (book_list b g BUY)) + card (mo_price ` set (book_list b g SELL)) +
       available (orders_at_price_pool b) = ME_MAX_PRICE_LEVELS"
proof -
  obtain g rs where g: "book_ok b g"
    "abs_book b g = fold spec_call rs (spec_new ME_MAX_PRICE_LEVELS ME_MAX_ORDER_IDS t)"
    using reachable_ok [OF assms] by blast
  have caps: "capacity (order_pool b) = ME_MAX_ORDER_IDS" "capacity (orders_at_price_pool b) = ME_MAX_PRICE_LEVELS"
    using arg_cong [OF g(2), of sb_order_cap] arg_cong [OF g(2), of sb_level_cap]
    by (simp_all add: spec_run_ticker spec_new_def abs_book_def)
  show ?thesis using g(1) ladder_balance [OF book_okD(1) [OF g(1)]] caps by (intro exI [of _ g]) simp
qed

lemma reachable_pools_balance_witness:
  "\<exists>b g. reachable_book 0 b \<and> book_ok b g \<and>
     length (book_list b g BUY) + length (book_list b g SELL) + available (order_pool b) = ME_MAX_ORDER_IDS"
  using sample_book reachable_pools_balance by blast

text \<open>A query only appends one answer: the book, its indices and its counters stay as they are, the answer is a
  \<open>STATE\<close> (or, for an unknown id, a \<open>REJECTED\<close>) response, and a \<open>CANCELED\<close> order is reported with no open
  quantity.\<close>

theorem query_reports_state:
  assumes "unat c < ME_MAX_NUM_CLIENTS" "i \<noteq> 0" "last_order_response b c i = Some r"
  shows "query c i b = b\<lparr>sink := sink b @ [SinkResponse (r\<lparr>rs_type := Resp_STATE, rs_exec_qty := 0,
     rs_leaves_qty := (if rs_type r = Resp_CANCELED then 0 else rs_leaves_qty r)\<rparr>)]\<rparr>"
  using assms by (cases r) (auto simp: query_def emitResponse_def Let_def)

lemma query_reports_state_witness:
  "\<exists>b r. reachable_book 0 b \<and> last_order_response b 1 7 = Some r \<and> rs_type r = Resp_ACCEPTED \<and>
     query 1 7 b = b\<lparr>sink := sink b @ [SinkResponse (r\<lparr>rs_type := Resp_STATE, rs_exec_qty := 0\<rparr>)]\<rparr>"
proof -
  obtain b g where b: "reachable_book 0 b" "book_ok b g"
    "abs_book b g = spec_add 1 7 0 BUY 100 10 (spec_new ME_MAX_PRICE_LEVELS ME_MAX_ORDER_IDS 0)"
    using sample_book by metis
  have "sb_last (abs_book b g) 1 7 = Some (mk_response Resp_ACCEPTED 1 0 7 1 BUY 100 0 10 Rej_NONE)"
    unfolding b(3) by (simp add: spec_eval)
  then have "last_order_response b 1 7 = Some (mk_response Resp_ACCEPTED 1 0 7 1 BUY 100 0 10 Rej_NONE)"
    by (simp add: abs_book_def)
  with query_reports_state [of 1 7 b] b(1) show ?thesis
    by (intro exI [of _ b] exI [of _ "mk_response Resp_ACCEPTED 1 0 7 1 BUY 100 0 10 Rej_NONE"])
      (simp add: limits mk_response_def)
qed

end
