(* ===== verification/Quotes.thy ===== *)
theory Quotes
  imports Messages
begin

text \<open>
  What a stream of public market updates means. \<open>Quotes\<close> are the resting orders of all tickers, each given by the ADD
  event that would announce it; \<open>quote_step\<close> is the effect of one update, \<open>None\<close> for one that no consistent stream
  contains. The snapshot synthesizer of the exchange, the recovery of the client and the client's order book keep the
  same information in three different structures. The locale \<open>replica\<close> states the contract they share, and each of
  them interprets it: then a stream that is consistent in the sense of \<open>replay\<close> is processed without an error and
  leaves the structure with exactly the quotes of the stream.
\<close>

type_synonym Quotes = "nat \<Rightarrow> OrderId \<Rightarrow> MEMarketUpdate option"

definition no_quotes :: Quotes where
  "no_quotes = (\<lambda>_ _. None)"

definition side_valid :: "Side \<Rightarrow> bool" where
  "side_valid s \<longleftrightarrow> s = BUY \<or> s = SELL"

definition qty_valid :: "Qty \<Rightarrow> bool" where
  "qty_valid q \<longleftrightarrow> q \<noteq> 0 \<and> q \<noteq> Qty_INVALID"

definition price_valid :: "Price \<Rightarrow> bool" where
  "price_valid p \<longleftrightarrow> 0 < p \<and> p \<noteq> Price_INVALID"

definition id_valid :: "OrderId \<Rightarrow> bool" where
  "id_valid i \<longleftrightarrow> i \<noteq> 0 \<and> unat i < ME_MAX_ORDER_IDS"

definition add_valid :: "MEMarketUpdate \<Rightarrow> bool" where
  "add_valid u \<longleftrightarrow> mu_type u = Mkt_ADD \<and> id_valid (mu_order_id u) \<and> side_valid (mu_side u) \<and>
     price_valid (mu_price u) \<and> qty_valid (mu_qty u) \<and> mu_priority u \<noteq> 0 \<and> mu_priority u \<noteq> Priority_INVALID"

definition quote_put :: "nat \<Rightarrow> OrderId \<Rightarrow> MEMarketUpdate option \<Rightarrow> Quotes \<Rightarrow> Quotes" where
  "quote_put t i x Q = Q(t := (Q t)(i := x))"

definition quote_step :: "MEMarketUpdate \<Rightarrow> Quotes \<Rightarrow> Quotes option" where
  "quote_step u Q =
     (let t = unat (mu_ticker_id u); i = mu_order_id u in
      if ME_MAX_TICKERS \<le> t then None
      else if mu_type u = Mkt_CLEAR then Some (Q(t := (\<lambda>_. None)))
      else if mu_type u = Mkt_TRADE then
        (if qty_valid (mu_qty u) \<and> price_valid (mu_price u) \<and> side_valid (mu_side u) then Some Q else None)
      else if mu_type u = Mkt_ADD then
        (if add_valid u \<and> Q t i = None then Some (quote_put t i (Some u) Q) else None)
      else case Q t i of None \<Rightarrow> None
      | Some v \<Rightarrow>
          if \<not> id_valid i \<or> mu_side v \<noteq> mu_side u \<or> mu_price v \<noteq> mu_price u then None
          else if mu_type u = Mkt_CANCEL then Some (quote_put t i None Q)
          else if mu_type u = Mkt_MODIFY \<and> qty_valid (mu_qty u)
            then Some (quote_put t i (Some (v\<lparr>mu_qty := mu_qty u\<rparr>)) Q)
          else None)"

text \<open>What the incremental channel carries.\<close>

definition incremental_type :: "MEMarketUpdate \<Rightarrow> bool" where
  "incremental_type u \<longleftrightarrow> mu_type u \<in> {Mkt_ADD, Mkt_MODIFY, Mkt_CANCEL, Mkt_TRADE}"

fun replay :: "('u \<Rightarrow> 's \<Rightarrow> 's option) \<Rightarrow> 'u list \<Rightarrow> 's \<Rightarrow> 's option" where
  "replay step [] s = Some s"
| "replay step (u # us) s = Option.bind (step u s) (replay step us)"

lemma replay_append: "replay step (us @ vs) s = Option.bind (replay step us s) (replay step vs)"
  by (induct us arbitrary: s) (auto simp: bind_assoc split: bind_splits)

lemma replay_appendI: "replay step us s = Some s' \<Longrightarrow> replay step (us @ vs) s = replay step vs s'"
  by (simp add: replay_append)

lemma replay_take:
  assumes "replay step us s = Some s'" shows "\<exists>m. replay step (take n us) s = Some m \<and> replay step (drop n us) m = Some s'"
  using assms by (metis append_take_drop_id bind_Some_conv replay_append)

text \<open>The quotes a stream produces are well formed: keys are their own ids, and every stored event is a valid ADD.\<close>

definition quotes_ok :: "Quotes \<Rightarrow> bool" where
  "quotes_ok Q \<longleftrightarrow> (\<forall>t i v. Q t i = Some v \<longrightarrow> t < ME_MAX_TICKERS \<and> mu_order_id v = i \<and>
     unat (mu_ticker_id v) = t \<and> add_valid v)"

lemma no_quotes_ok [simp]: "quotes_ok no_quotes"
  by (simp add: quotes_ok_def no_quotes_def)

lemma quote_putE:
  "quote_put t i x Q t' i' = Some v \<Longrightarrow> (t' = t \<and> i' = i \<and> x = Some v) \<or> Q t' i' = Some v"
  by (auto simp: quote_put_def split: if_splits)

lemma quote_stepE:
  assumes s: "quote_step u Q = Some Q'"
  obtains (Clear) "mu_type u = Mkt_CLEAR" "Q' = Q(unat (mu_ticker_id u) := (\<lambda>_. None))"
  | (Trade) "mu_type u = Mkt_TRADE" "Q' = Q"
  | (Add) "mu_type u = Mkt_ADD" "add_valid u" "Q (unat (mu_ticker_id u)) (mu_order_id u) = None"
      "Q' = quote_put (unat (mu_ticker_id u)) (mu_order_id u) (Some u) Q"
  | (Cancel) v where "mu_type u = Mkt_CANCEL" "id_valid (mu_order_id u)" "Q (unat (mu_ticker_id u)) (mu_order_id u) = Some v"
      "mu_side v = mu_side u" "mu_price v = mu_price u"
      "Q' = quote_put (unat (mu_ticker_id u)) (mu_order_id u) None Q"
  | (Modify) v where "mu_type u = Mkt_MODIFY" "id_valid (mu_order_id u)" "Q (unat (mu_ticker_id u)) (mu_order_id u) = Some v"
      "mu_side v = mu_side u" "mu_price v = mu_price u" "qty_valid (mu_qty u)"
      "Q' = quote_put (unat (mu_ticker_id u)) (mu_order_id u) (Some (v\<lparr>mu_qty := mu_qty u\<rparr>)) Q"
proof (cases "mu_type u")
  case Mkt_CLEAR with s show ?thesis by (intro that(1)) (auto simp: quote_step_def Let_def split: if_splits)
next
  case Mkt_TRADE with s show ?thesis by (intro that(2)) (auto simp: quote_step_def Let_def split: if_splits)
next
  case Mkt_ADD with s show ?thesis by (intro that(3)) (auto simp: quote_step_def Let_def split: if_splits)
next
  case Mkt_CANCEL
  with s obtain v where "Q (unat (mu_ticker_id u)) (mu_order_id u) = Some v"
    by (auto simp: quote_step_def Let_def split: if_splits option.splits)
  with s Mkt_CANCEL show ?thesis by (intro that(4) [of v]) (auto simp: quote_step_def Let_def split: if_splits)
next
  case Mkt_MODIFY
  with s obtain v where "Q (unat (mu_ticker_id u)) (mu_order_id u) = Some v"
    by (auto simp: quote_step_def Let_def split: if_splits option.splits)
  with s Mkt_MODIFY show ?thesis by (intro that(5) [of v]) (auto simp: quote_step_def Let_def split: if_splits)
qed (use s in \<open>auto simp: quote_step_def Let_def split: if_splits option.splits\<close>)

lemma quote_step_ticker: "quote_step u Q = Some Q' \<Longrightarrow> unat (mu_ticker_id u) < ME_MAX_TICKERS"
  by (simp add: quote_step_def Let_def split: if_split_asm)

lemma quotes_okD:
  assumes "quotes_ok Q" "Q t i = Some v"
  shows "t < ME_MAX_TICKERS" "mu_order_id v = i" "unat (mu_ticker_id v) = t" "add_valid v"
  using assms by (auto simp: quotes_ok_def)

lemma quotes_ok_put:
  assumes "quotes_ok Q" "t < ME_MAX_TICKERS"
    and "\<And>v. x = Some v \<Longrightarrow> mu_order_id v = i \<and> unat (mu_ticker_id v) = t \<and> add_valid v"
  shows "quotes_ok (quote_put t i x Q)"
  unfolding quotes_ok_def using assms by (blast dest: quote_putE quotes_okD)

lemma quote_step_ok:
  assumes s: "quote_step u Q = Some Q'" and q: "quotes_ok Q" shows "quotes_ok Q'"
  using s
proof (cases rule: quote_stepE)
  case Clear with q show ?thesis by (auto simp: quotes_ok_def)
next
  case (Modify v)
  then have "add_valid (v\<lparr>mu_qty := mu_qty u\<rparr>)" using quotes_okD(4) [OF q, OF Modify(3)] by (simp add: add_valid_def)
  with Modify quotes_okD [OF q, OF Modify(3)] show ?thesis
    by (auto intro!: quotes_ok_put [OF q quote_step_ticker [OF s]])
qed (use q in \<open>auto intro!: quotes_ok_put [OF q quote_step_ticker [OF s]]\<close>)

lemma replay_ok: "replay quote_step us Q = Some Q' \<Longrightarrow> quotes_ok Q \<Longrightarrow> quotes_ok Q'"
  by (induct us arbitrary: Q) (auto simp: bind_Some_conv dest: quote_step_ok)

subsection \<open>The contract of a replica\<close>

text \<open>\<open>accepts\<close> are the event types the structure takes; \<open>fits\<close> bounds the quotes it has room for.\<close>

locale replica =
  fixes step :: "MEMarketUpdate \<Rightarrow> 's \<Rightarrow> 's option"
    and view :: "'s \<Rightarrow> Quotes"
    and inv :: "'s \<Rightarrow> bool"
    and accepts :: "MEMarketUpdate \<Rightarrow> bool"
    and fits :: "Quotes \<Rightarrow> bool"
  assumes step_refines: "inv s \<Longrightarrow> quotes_ok (view s) \<Longrightarrow> accepts u \<Longrightarrow> quote_step u (view s) = Some Q \<Longrightarrow> fits Q \<Longrightarrow>
    \<exists>s'. step u s = Some s' \<and> inv s' \<and> view s' = Q"
begin

lemma replay_refines:
  assumes "replay quote_step us (view s) = Some Q" "inv s" "quotes_ok (view s)" "list_all accepts us"
    and "\<And>n R. replay quote_step (take n us) (view s) = Some R \<Longrightarrow> fits R"
  shows "\<exists>s'. replay step us s = Some s' \<and> inv s' \<and> view s' = Q"
  using assms
proof (induct us arbitrary: s)
  case (Cons u us)
  from Cons.prems(1) obtain R where r: "quote_step u (view s) = Some R" "replay quote_step us R = Some Q"
    by (auto simp: bind_Some_conv)
  have "fits R" using Cons.prems(5) [of 1] r(1) by simp
  then obtain s1 where s1: "step u s = Some s1" "inv s1" "view s1 = R"
    using step_refines [OF Cons.prems(2,3)] Cons.prems(4) r(1) by auto
  have "quotes_ok (view s1)" using quote_step_ok [OF r(1) Cons.prems(3)] s1(3) by simp
  moreover have "fits T" if "replay quote_step (take n us) (view s1) = Some T" for n T
    using Cons.prems(5) [of "Suc n"] r(1) s1(3) that by simp
  ultimately show ?case using Cons.hyps [of s1] Cons.prems(4) r(2) s1 by simp
qed simp

end

end
