(* ===== verification/ME_Market_Stream.thy ===== *)
theory ME_Market_Stream
  imports ME_Book_Props Quotes
begin

text \<open>
  The public updates an exchange book emits describe the book: replaying them, in order and next to the updates of the
  other books, gives exactly the resting orders. This is what the synthesizer, the recovery and the client's book
  rely on.
\<close>

definition quote_of :: "MEOrder \<Rightarrow> MEMarketUpdate" where
  "quote_of v = mk_update Mkt_ADD (mo_market_order_id v) (mo_ticker_id v) (mo_side v) (mo_price v) (mo_qty v)
     (mo_priority v)"

definition quotes :: "MEOrder list \<Rightarrow> OrderId \<Rightarrow> MEMarketUpdate option" where
  "quotes os = map_of (map (\<lambda>v. (mo_market_order_id v, quote_of v)) os)"

definition book_quotes :: "SpecBook \<Rightarrow> OrderId \<Rightarrow> MEMarketUpdate option" where
  "book_quotes A = quotes (sb_orders A BUY @ sb_orders A SELL)"

fun update_of :: "SinkMsg \<Rightarrow> MEMarketUpdate option" where
  "update_of (SinkMarket u) = Some u"
| "update_of (SinkResponse r) = None"

definition updates :: "SinkMsg list \<Rightarrow> MEMarketUpdate list" where
  "updates ms = List.map_filter update_of ms"

lemma updates_simps [simp]:
  "updates [] = []" "updates (SinkMarket u # ms) = u # updates ms" "updates (SinkResponse r # ms) = updates ms"
  by (simp_all add: updates_def List.map_filter_def)

lemma updates_append [simp]: "updates (ms @ ms') = updates ms @ updates ms'"
  by (simp add: updates_def List.map_filter_def)

abbreviation ids :: "MEOrder list \<Rightarrow> OrderId list" where
  "ids os \<equiv> map mo_market_order_id os"

lemma quotes_Cons: "quotes (v # os) = (quotes os)(mo_market_order_id v \<mapsto> quote_of v)"
  by (simp add: quotes_def)

lemma quotes_None: "quotes os i = None \<longleftrightarrow> i \<notin> set (ids os)"
  by (simp add: quotes_def map_of_eq_None_iff image_image)

lemma quotes_set: "distinct (ids xs) \<Longrightarrow> distinct (ids ys) \<Longrightarrow> set xs = set ys \<Longrightarrow> quotes xs = quotes ys"
  unfolding quotes_def by (subst map_of_inject_set) (auto simp: comp_def)

lemma quotes_find: "distinct (ids os) \<Longrightarrow> v \<in> set os \<Longrightarrow> quotes os (mo_market_order_id v) = Some (quote_of v)"
  unfolding quotes_def by (rule map_of_is_SomeI) (auto simp: comp_def)

text \<open>A resting order whose quote is a valid ADD of ticker \<open>t\<close>.\<close>

definition quotable :: "TickerId \<Rightarrow> MEOrder \<Rightarrow> bool" where
  "quotable t v \<longleftrightarrow> add_valid (quote_of v) \<and> mo_ticker_id v = t \<and> unat t < ME_MAX_TICKERS"

lemma qty_good_valid: "q \<noteq> 0 \<Longrightarrow> unat (q :: Qty) \<le> INT32_MAX \<Longrightarrow> qty_valid q"
  by (auto simp: qty_valid_def limits)

lemma step_trade:
  "unat t < ME_MAX_TICKERS \<Longrightarrow> qty_valid q \<Longrightarrow> price_valid p \<Longrightarrow> side_valid s \<Longrightarrow>
   quote_step (mk_update Mkt_TRADE i t s p q pr) Q = Some Q"
  by (simp add: quote_step_def Let_def)

lemma step_cancel:
  assumes "quotable t v"
  shows "quote_step (mk_update Mkt_CANCEL (mo_market_order_id v) t (mo_side v) (mo_price v) q pr)
     (Q(unat t := m(mo_market_order_id v \<mapsto> quote_of v))) = Some (Q(unat t := m(mo_market_order_id v := None)))"
  using assms by (auto simp: quote_step_def Let_def quotable_def quote_of_def add_valid_def quote_put_def)

lemma step_modify:
  assumes "quotable t v" "qty_valid q"
  shows "quote_step (mk_update Mkt_MODIFY (mo_market_order_id v) t (mo_side v) (mo_price v) q pr)
     (Q(unat t := m(mo_market_order_id v \<mapsto> quote_of v))) =
     Some (Q(unat t := m(mo_market_order_id v \<mapsto> quote_of (v\<lparr>mo_qty := q\<rparr>))))"
  using assms by (auto simp: quote_step_def Let_def quotable_def quote_of_def add_valid_def quote_put_def mk_update_def)

lemma step_add:
  assumes "quotable t v" "m (mo_market_order_id v) = None"
  shows "quote_step (quote_of v) (Q(unat t := m)) = Some (Q(unat t := m(mo_market_order_id v \<mapsto> quote_of v)))"
proof -
  have "mu_type (quote_of v) = Mkt_ADD" "mu_ticker_id (quote_of v) = t" "mu_order_id (quote_of v) = mo_market_order_id v"
    using assms(1) by (simp_all add: quote_of_def quotable_def)
  then show ?thesis using assms by (simp add: quote_step_def Let_def quotable_def quote_put_def)
qed

subsection \<open>Matching\<close>

lemma quotable_qty: "quotable t v \<Longrightarrow> qty_valid q \<Longrightarrow> quotable t (v\<lparr>mo_qty := q\<rparr>)"
  by (simp add: quotable_def add_valid_def quote_of_def)

lemma fill_replay:
  fixes q :: Qty
  assumes v: "quotable t v" "unat (mo_qty v) \<le> INT32_MAX" and q: "q \<noteq> 0" "unat q \<le> INT32_MAX"
    and s: "side_valid s" and fresh: "m (mo_market_order_id v) = None"
  defines "fill \<equiv> min q (mo_qty v)"
  shows "replay quote_step (updates (fill_msgs c i t s mm fill leaves v)) (Q(unat t := m(mo_market_order_id v \<mapsto> quote_of v)))
     = Some (Q(unat t := (if mo_qty v - fill = 0 then m
                          else m(mo_market_order_id v \<mapsto> quote_of (v\<lparr>mo_qty := mo_qty v - fill\<rparr>)))))"
proof -
  have vq: "mo_qty v \<noteq> 0" "price_valid (mo_price v)" "unat t < ME_MAX_TICKERS"
    using v(1) by (auto simp: quotable_def add_valid_def quote_of_def qty_valid_def)
  have fq: "qty_valid fill"
    unfolding fill_def using vq(1) q v(2) by (intro qty_good_valid) (auto simp: min_def)
  have le: "fill \<le> mo_qty v" by (simp add: fill_def)
  have tr: "quote_step (mk_update Mkt_TRADE OrderId_INVALID t s (mo_price v) fill Priority_INVALID) R = Some R" for R
    using step_trade vq fq s by simp
  have clear: "(m(mo_market_order_id v := None)) = m" using fresh by auto
  show ?thesis
  proof (cases "mo_qty v - fill = 0")
    case True
    then show ?thesis using step_cancel [OF v(1)] clear by (simp add: fill_msgs_def tr)
  next
    case False
    moreover have "unat (mo_qty v - fill) \<le> INT32_MAX" using v(2) unat_sub [OF le] by simp
    ultimately have "qty_valid (mo_qty v - fill)" by (rule qty_good_valid)
    then show ?thesis using False step_modify [OF v(1)] by (simp add: fill_msgs_def tr)
  qed
qed

lemma match_replay:
  assumes "spec_match c i t s p mm q os = (q', os', ms)" "side_valid s" "unat q \<le> INT32_MAX"
    "\<And>v. v \<in> set os \<Longrightarrow> quotable t v \<and> unat (mo_qty v) \<le> INT32_MAX" "distinct (ids (os @ xs))"
  shows "replay quote_step (updates ms) (Q(unat t := quotes (os @ xs))) = Some (Q(unat t := quotes (os' @ xs)))"
  using assms
proof (induct os arbitrary: q q' os' ms)
  case (Cons v os)
  show ?case
  proof (cases "q = 0 \<or> no_cross s p (mo_price v)")
    case True with Cons.prems(1) show ?thesis by auto
  next
    case False
    let ?fill = "min q (mo_qty v)" and ?m = "quotes (os @ xs)"
    have fresh: "?m (mo_market_order_id v) = None" using Cons.prems(5) by (simp add: quotes_None)
    have r: "replay quote_step (updates (fill_msgs c i t s mm ?fill (q - ?fill) v)) (Q(unat t := quotes ((v # os) @ xs)))
     = Some (Q(unat t := (if mo_qty v - ?fill = 0 then ?m
                          else ?m(mo_market_order_id v \<mapsto> quote_of (v\<lparr>mo_qty := mo_qty v - ?fill\<rparr>)))))"
      using fill_replay [of t v q s ?m c i mm "q - ?fill" Q] Cons.prems(2-4) False fresh by (simp add: quotes_Cons)
    show ?thesis
    proof (cases "mo_qty v - ?fill = 0")
      case full: True
      obtain r1 os1 ms1 where m1: "spec_match c i t s p mm (q - ?fill) os = (r1, os1, ms1)" by (cases "spec_match c i t s p mm (q - ?fill) os")
      then have e: "q' = r1" "os' = os1" "ms = fill_msgs c i t s mm ?fill (q - ?fill) v @ ms1"
        using Cons.prems(1) False full by (simp_all add: Let_def)
      have "?fill \<le> q" by simp
      then have "unat (q - ?fill) \<le> INT32_MAX" using Cons.prems(3) unat_sub [of ?fill q] by simp
      then have "replay quote_step (updates ms1) (Q(unat t := ?m)) = Some (Q(unat t := quotes (os1 @ xs)))"
        by (intro Cons.hyps [OF m1]) (use Cons.prems(2,4,5) in auto)
      then show ?thesis unfolding e updates_append by (rule replay_appendI [OF r [unfolded if_P [OF full]], THEN trans])
    next
      case part: False
      then have "os' = v\<lparr>mo_qty := mo_qty v - ?fill\<rparr> # os" "ms = fill_msgs c i t s mm ?fill (q - ?fill) v"
        using Cons.prems(1) False by (auto simp: Let_def)
      then show ?thesis using r part by (simp add: quotes_Cons del: fun_upd_apply)
    qed
  qed
qed auto

subsection \<open>Requests\<close>

lemma opp_lists: "s \<in> sides \<Longrightarrow> set (sb_orders A (opp s) @ sb_orders A s) = set (sb_orders A BUY @ sb_orders A SELL)"
  by (auto simp: sides_def opp_def)

lemma opp_distinct:
  "s \<in> sides \<Longrightarrow> distinct (ids (sb_orders A (opp s) @ sb_orders A s)) = distinct (ids (sb_orders A BUY @ sb_orders A SELL))"
  by (auto simp: sides_def opp_def)

lemma book_quotes_opp: "spec_inv A \<Longrightarrow> s \<in> sides \<Longrightarrow> book_quotes A = quotes (sb_orders A (opp s) @ sb_orders A s)"
  unfolding book_quotes_def using spec_invD(4) [of A] by (intro quotes_set) (simp_all only: opp_distinct opp_lists)

lemma book_quotes_emit [simp]: "book_quotes (spec_emit ms A) = book_quotes A"
  by (simp add: book_quotes_def)

lemma inv_quotable:
  assumes "spec_inv A" "unat (sb_ticker A) < ME_MAX_TICKERS" "s \<in> sides" "v \<in> set (sb_orders A s)"
  shows "quotable (sb_ticker A) v \<and> unat (mo_qty v) \<le> INT32_MAX"
proof -
  have g: "order_good A s v" "qty_good v" using spec_invD(2) [OF assms(1,3,4)] by simp_all
  have i: "unat (mo_market_order_id v) < ME_MAX_ORDER_IDS"
    using g(1) spec_invD(7) [OF assms(1)] by (simp add: order_good_def word_less_nat_alt)
  moreover have "unat (mo_priority v) \<le> unat (mo_market_order_id v)"
    using g(1) by (simp add: order_good_def word_le_nat_alt)
  ultimately have "mo_priority v \<noteq> Priority_INVALID" by (auto simp: limits)
  then show ?thesis using g i assms(2,3) qty_good_valid [of "mo_qty v"]
    by (auto simp: quotable_def quote_of_def add_valid_def id_valid_def side_valid_def price_valid_def order_good_def
        qty_good_def sides_def)
qed

text \<open>The messages of one request.\<close>

definition call_msgs :: "BookCall \<Rightarrow> SpecBook \<Rightarrow> SinkMsg list" where
  "call_msgs r A = drop (length (sb_out A)) (sb_out (spec_call r A))"

lemma cancel_replay:
  assumes inv: "spec_inv A" and t: "unat (sb_ticker A) < ME_MAX_TICKERS"
  shows "replay quote_step (updates (call_msgs (CallCancel c i tk) A)) (Q(unat (sb_ticker A) := book_quotes A)) =
     Some (Q(unat (sb_ticker A) := book_quotes (spec_cancel c i tk A)))"
proof (cases "if unat c < ME_MAX_NUM_CLIENTS \<and> tk = sb_ticker A then spec_find c i A else None")
  case None
  then show ?thesis by (simp add: call_msgs_def spec_cancel_def spec_emit_def book_quotes_def)
next
  case (Some v)
  let ?L = "sb_orders A BUY @ sb_orders A SELL" and ?t = "unat (sb_ticker A)"
  let ?f = "\<lambda>y. order_key y \<noteq> (c, i)"
  have v: "v \<in> set ?L" "order_key v = (c, i)" and tk: "tk = sb_ticker A"
    using Some find_SomeD unfolding spec_find_def by (fastforce split: if_splits)+
  note D = spec_invD [OF inv]
  have q: "quotable (sb_ticker A) v"
    using v(1) inv_quotable [OF inv t] by (auto simp: sides_def)
  have keep: "set (filter ?f ?L) = set ?L - {v}"
    using set_filter_key [OF D(5) v(1)] v(2) by simp
  have dist: "distinct (ids (v # filter ?f ?L))"
  proof -
    have "mo_market_order_id v \<notin> mo_market_order_id ` set (filter ?f ?L)"
      unfolding keep by (rule distinct_map_other [OF D(4) v(1)])
    then show ?thesis using distinct_map_filter [OF D(4), of ?f] by (simp del: filter_append set_filter)
  qed
  have "book_quotes A = (quotes (filter ?f ?L))(mo_market_order_id v \<mapsto> quote_of v)"
    unfolding book_quotes_def quotes_Cons [symmetric] using D(4) dist keep v(1)
    by (intro quotes_set) (auto simp del: filter_append)
  moreover have "(quotes (filter ?f ?L))(mo_market_order_id v := None) = book_quotes (spec_cancel c i tk A)"
    using Some dist quotes_None [of "filter ?f ?L" "mo_market_order_id v"]
    by (simp add: spec_cancel_def book_quotes_def fun_upd_idem)
  ultimately show ?thesis
    using step_cancel [OF q, of 0 "mo_priority v" Q] Some tk
    by (simp add: call_msgs_def spec_cancel_def spec_emit_def del: fun_upd_apply)
qed

text \<open>\<open>spec_add\<close> of an accepted order, taken apart.\<close>

lemma spec_add_parts:
  assumes inv: "spec_inv A" and ok: "spec_reject_reason c i t s p q A = Rej_NONE"
  obtains q' os' ms A1 v where
    "s \<in> sides" "t = sb_ticker A" "unat q \<le> INT32_MAX" "spec_inv A1" "sb_ticker A1 = sb_ticker A"
    "spec_match c i t s p (sb_next_id A) q (sb_orders A (opp s)) = (q', os', ms)"
    "sb_orders A1 (opp s) = os'" "sb_orders A1 s = sb_orders A s"
    "mo_market_order_id v = sb_next_id A" "mo_ticker_id v = t"
    "call_msgs (CallAdd c i t s p q) A = SinkResponse (mk_response Resp_ACCEPTED c t i (sb_next_id A) s p 0 q Rej_NONE) # ms @
       (if q' = 0 then [] else [SinkMarket (quote_of v)])"
    "sb_orders (spec_add c i t s p q A) = (if q' = 0 then sb_orders A1
       else (sb_orders A1)(s := insert_order v (sb_orders A1 s)))"
proof -
  have facts: "s \<in> sides" "t = sb_ticker A" "unat (sb_next_id A) < ME_MAX_ORDER_IDS" "unat q \<le> INT32_MAX"
    using ok by (auto simp: spec_reject_reason_def sides_def split: if_splits)
  let ?m = "sb_next_id A"
  obtain q' os' ms where sm: "spec_match c i t s p ?m q (sb_orders A (opp s)) = (q', os', ms)"
    by (cases "spec_match c i t s p ?m q (sb_orders A (opp s))") auto
  let ?A1 = "A\<lparr>sb_used := (sb_used A)(c := insert i (sb_used A c)), sb_next_id := ?m + 1,
      sb_orders := (sb_orders A)(opp s := os')\<rparr>"
  let ?r = "SinkResponse (mk_response Resp_ACCEPTED c t i ?m s p 0 q Rej_NONE)"
  let ?v = "MEOrder_make t c i ?m s p q' (spec_next_priority p (sb_orders ?A1 s)) None None"
  have v: "quote_of ?v = mk_update Mkt_ADD ?m t s p q' (mo_priority ?v)"
    by (simp add: quote_of_def MEOrder_make_def)
  have eq: "spec_add c i t s p q A = (if q' = 0 then spec_emit (?r # ms) ?A1
     else spec_emit [SinkMarket (quote_of ?v)] (spec_emit (?r # ms)
       (?A1\<lparr>sb_orders := (sb_orders ?A1)(s := insert_order ?v (sb_orders ?A1 s))\<rparr>)))"
    using ok sm unfolding v by (simp add: spec_add_def Let_def)
  show ?thesis
  proof (rule that [OF facts(1,2,4) spec_inv_matched [OF inv facts(1,3) sm] _ sm, of ?v])
    show "call_msgs (CallAdd c i t s p q) A = ?r # ms @ (if q' = 0 then [] else [SinkMarket (quote_of ?v)])"
      unfolding call_msgs_def spec_call.simps eq by (simp add: spec_emit_def)
    show "sb_orders (spec_add c i t s p q A) = (if q' = 0 then sb_orders ?A1
       else (sb_orders ?A1)(s := insert_order ?v (sb_orders ?A1 s)))"
      unfolding eq by (simp add: spec_emit_def)
  qed (simp_all add: MEOrder_make_def)
qed

lemma set_insert_order: "set (insert_order v os) = insert v (set os)"
  using set_takeWhileD [of _ _ os] set_dropWhileD [of _ _ os] takeWhile_dropWhile_id
  by (auto simp: insert_order_def) (metis Un_iff set_append takeWhile_dropWhile_id)

lemma add_replay:
  assumes inv: "spec_inv A" and tk: "unat (sb_ticker A) < ME_MAX_TICKERS"
  shows "replay quote_step (updates (call_msgs (CallAdd c i t s p q) A)) (Q(unat (sb_ticker A) := book_quotes A)) =
     Some (Q(unat (sb_ticker A) := book_quotes (spec_add c i t s p q A)))"
proof (cases "spec_reject_reason c i t s p q A = Rej_NONE")
  case False
  then show ?thesis by (simp add: spec_add_def Let_def call_msgs_def spec_emit_def book_quotes_def del: fun_upd_apply)
next
  case True
  obtain q' os' ms A1 v where P:
    "s \<in> sides" "t = sb_ticker A" "unat q \<le> INT32_MAX" "spec_inv A1" "sb_ticker A1 = sb_ticker A"
    "spec_match c i t s p (sb_next_id A) q (sb_orders A (opp s)) = (q', os', ms)"
    "sb_orders A1 (opp s) = os'" "sb_orders A1 s = sb_orders A s"
    "mo_market_order_id v = sb_next_id A" "mo_ticker_id v = t"
    "call_msgs (CallAdd c i t s p q) A = SinkResponse (mk_response Resp_ACCEPTED c t i (sb_next_id A) s p 0 q Rej_NONE) # ms @
       (if q' = 0 then [] else [SinkMarket (quote_of v)])"
    "sb_orders (spec_add c i t s p q A) = (if q' = 0 then sb_orders A1
       else (sb_orders A1)(s := insert_order v (sb_orders A1 s)))"
    by (rule spec_add_parts [OF inv True])
  let ?t = "unat (sb_ticker A)" and ?B = "spec_add c i t s p q A"
  have invB: "spec_inv ?B" by (rule spec_inv_add [OF inv])
  have tB: "sb_ticker ?B = sb_ticker A" using spec_call_frame(1) [of "CallAdd c i t s p q" A] by simp
  have "distinct (ids (sb_orders A (opp s) @ sb_orders A s))"
    using spec_invD(4) [OF inv] opp_distinct [OF P(1)] by blast
  then have m: "replay quote_step (updates ms) (Q(?t := book_quotes A)) = Some (Q(?t := book_quotes A1))"
    unfolding book_quotes_opp [OF inv P(1)] book_quotes_opp [OF P(4,1)] P(7,8)
    using P(1-3) inv_quotable [OF inv tk opp_sides(1)]
    by (intro match_replay [OF P(6), unfolded P(2)]) (auto simp: sides_def side_valid_def P(2))
  show ?thesis
  proof (cases "q' = 0")
    case True
    then have "book_quotes ?B = book_quotes A1" unfolding book_quotes_def P(12) by simp
    with m True show ?thesis unfolding P(11) by (simp del: fun_upd_apply)
  next
    case False
    have lists: "sb_orders ?B (opp s) = os'" "sb_orders ?B s = insert_order v (sb_orders A s)"
      using P(7,8,12) False by simp_all
    have d: "distinct (ids (os' @ insert_order v (sb_orders A s)))"
      using spec_invD(4) [OF invB] opp_distinct [OF P(1), of ?B] unfolding lists by blast
    have in_v: "v \<in> set (sb_orders ?B s)" unfolding lists set_insert_order by simp
    have fresh: "book_quotes A1 (mo_market_order_id v) = None"
    proof -
      have "order_good A u w \<Longrightarrow> mo_market_order_id w \<noteq> sb_next_id A" for u w by (auto simp: order_good_def)
      then have "sb_next_id A \<notin> set (ids (sb_orders A s))" using spec_invD(2) [OF inv P(1)] by fastforce
      moreover have "sb_next_id A \<notin> set (ids os')"
        using d P(9) set_insert_order [of v] by (auto simp: image_iff)
      ultimately show ?thesis unfolding book_quotes_opp [OF P(4,1)] P(7,8,9) quotes_None by simp
    qed
    have "book_quotes ?B = quotes (v # os' @ sb_orders A s)"
      unfolding book_quotes_opp [OF invB P(1)] lists
    proof (rule quotes_set [OF d])
      have "distinct (ids (os' @ sb_orders A s))"
        using spec_invD(4) [OF P(4)] opp_distinct [OF P(1), of A1] unfolding P(7,8) by blast
      then show "distinct (ids (v # os' @ sb_orders A s))"
        using fresh unfolding book_quotes_opp [OF P(4,1)] P(7,8) quotes_None by simp
    qed (simp add: set_insert_order)
    then have B: "book_quotes ?B = (book_quotes A1)(mo_market_order_id v \<mapsto> quote_of v)"
      unfolding quotes_Cons book_quotes_opp [OF P(4,1)] P(7,8) .
    have "quotable (sb_ticker A) v"
      using inv_quotable [OF invB _ P(1) in_v] tk unfolding tB by blast
    from step_add [OF this, where m = "book_quotes A1" and Q = Q, OF fresh] have "quote_step (quote_of v) (Q(?t := book_quotes A1)) = Some (Q(?t := book_quotes ?B))"
      unfolding B .
    with m False show ?thesis unfolding P(11) by (simp add: replay_append del: fun_upd_apply)
  qed
qed

lemma call_replay:
  assumes inv: "spec_inv A" and tk: "unat (sb_ticker A) < ME_MAX_TICKERS"
  shows "replay quote_step (updates (call_msgs r A)) (Q(unat (sb_ticker A) := book_quotes A)) =
     Some (Q(unat (sb_ticker A) := book_quotes (spec_call r A)))"
proof (cases r)
  case (CallQuery c i)
  have "updates (call_msgs r A) = []" "book_quotes (spec_call r A) = book_quotes A"
    unfolding CallQuery by (simp_all add: call_msgs_def spec_query_def spec_emit_def book_quotes_def split: option.splits)
  then show ?thesis by simp
qed (use add_replay [OF assms] cancel_replay [OF assms] in simp_all)

lemma call_out: "sb_out (spec_call r A) = sb_out A @ call_msgs r A"
proof -
  have "\<exists>ms. sb_out (spec_call r A) = sb_out A @ ms"
    by (cases r) (auto simp: spec_add_def spec_cancel_def spec_query_def spec_emit_def Let_def split: option.splits prod.splits)
  then show ?thesis by (auto simp: call_msgs_def)
qed

end
