(* ===== verification/Wire.thy ===== *)
theory Wire
  imports Messages
begin

text \<open>
  The wire formats of \<^verbatim>\<open>src/common/order_protocol.h\<close> and \<^verbatim>\<open>market_protocol.h\<close>: fixed frames of 50, 79 and 70
  bytes with big-endian fields. A decoder runs in the option monad, where \<open>None\<close> is a read past the input; its result
  is \<open>None\<close> when the C++ function returns \<open>false\<close>. Signed fields cross the wire through their two's complement bits.
\<close>

unbundle bit_operations_syntax

definition Version :: u8 where "Version = 1"
definition RequestSize :: nat where [limits]: "RequestSize = 50"
definition ResponseSize :: nat where [limits]: "ResponseSize = 79"
definition MarketSize :: nat where [limits]: "MarketSize = 70"

primrec put :: "nat \<Rightarrow> 'a::len word \<Rightarrow> u8 list" where
  "put 0 bits = []"
| "put (Suc i) bits = ucast (drop_bit (i * 8) bits) # put i bits"

fun get_loop :: "nat \<Rightarrow> 'a::len word \<Rightarrow> u8 list \<Rightarrow> ('a word \<times> u8 list) option" where
  "get_loop 0 bits p = Some (bits, p)"
| "get_loop (Suc n) bits (b # p) = get_loop n (push_bit 8 bits OR ucast b) p"
| "get_loop (Suc n) bits [] = None"

definition get :: "nat \<Rightarrow> u8 list \<Rightarrow> ('a::len word \<times> u8 list) option" where
  "get n p = get_loop n 0 p"

abbreviation put8 :: "u8 \<Rightarrow> u8 list" where "put8 \<equiv> put 1"
abbreviation put32 :: "u32 \<Rightarrow> u8 list" where "put32 \<equiv> put 4"
abbreviation put64 :: "u64 \<Rightarrow> u8 list" where "put64 \<equiv> put 8"

definition put_i64 :: "int \<Rightarrow> u8 list" where
  "put_i64 x = put64 (word_of_int x)"

definition get_i64 :: "u8 list \<Rightarrow> (int \<times> u8 list) option" where
  "get_i64 p = map_option (\<lambda>(w, r). (sint (w :: u64), r)) (get 8 p)"

subsection \<open>Orders and responses\<close>

definition put_header :: "u8 \<Rightarrow> u64 \<Rightarrow> u64 \<Rightarrow> u8 list" where
  "put_header kind seq epoch =
     put8 84 @ put8 83 @ put8 Version @ put8 kind @ put64 seq @ put64 epoch"

text \<open>The first four bytes, compared one by one as \<open>||\<close> evaluates them.\<close>

fun get_magic :: "u8 list \<Rightarrow> u8 list \<Rightarrow> (u8 list option) option" where
  "get_magic [] p = Some (Some p)"
| "get_magic (m # ms) p = do { (b, p) \<leftarrow> get 1 p; if b \<noteq> m then Some None else get_magic ms p }"

definition get_header :: "u8 \<Rightarrow> u8 list \<Rightarrow> (u64 \<times> u64 \<times> u8 list) option option" where
  "get_header kind p = do {
     r \<leftarrow> get_magic [84, 83, Version, kind] p;
     case r of None \<Rightarrow> Some None
     | Some p \<Rightarrow> do { (seq, p) \<leftarrow> get 8 p; (epoch, p) \<leftarrow> get 8 p; Some (Some (seq, epoch, p)) } }"

definition encode_request :: "OMClientRequest \<Rightarrow> u8 list" where
  "encode_request m = (let r = omq_request m in
     put_header 1 (omq_seq_num m) (omq_session_epoch m) @
     put8 (req_to_byte (rq_type r)) @ put32 (rq_client_id r) @ put32 (rq_ticker_id r) @
     put64 (rq_order_id r) @ put8 (side_to_byte (rq_side r)) @ put_i64 (rq_price r) @ put32 (rq_qty r))"

definition decode_request :: "u8 list \<Rightarrow> OMClientRequest option option" where
  "decode_request p = do {
     h \<leftarrow> get_header 1 p;
     case h of None \<Rightarrow> Some None
     | Some (seq, epoch, p) \<Rightarrow> do {
         (type, p) \<leftarrow> get 1 p; (client, p) \<leftarrow> get 4 p; (ticker, p) \<leftarrow> get 4 p; (order, p) \<leftarrow> get 8 p;
         (side, p) \<leftarrow> get 1 p; (price, p) \<leftarrow> get_i64 p; (qty, p) \<leftarrow> get 4 p;
         Some (Some \<lparr>omq_seq_num = seq, omq_request = \<lparr>rq_type = req_of_byte type, rq_client_id = client,
           rq_ticker_id = ticker, rq_order_id = order, rq_side = side_of_byte side, rq_price = price,
           rq_qty = qty, rq_session_epoch = epoch, rq_request_seq = seq\<rparr>, omq_session_epoch = epoch\<rparr>) } }"

definition encode_response :: "OMClientResponse \<Rightarrow> u8 list" where
  "encode_response m = (let r = oms_response m in
     put_header 2 (oms_seq_num m) (oms_session_epoch m) @
     put8 (resp_to_byte (rs_type r)) @ put32 (rs_client_id r) @ put32 (rs_ticker_id r) @
     put64 (rs_client_order_id r) @ put64 (rs_market_order_id r) @ put8 (side_to_byte (rs_side r)) @
     put_i64 (rs_price r) @ put32 (rs_exec_qty r) @ put32 (rs_leaves_qty r) @
     put8 (rej_to_byte (rs_reject_reason r)) @ put64 (rs_response_id r) @ put_i64 (rs_position r))"

definition decode_response :: "u8 list \<Rightarrow> OMClientResponse option option" where
  "decode_response p = do {
     h \<leftarrow> get_header 2 p;
     case h of None \<Rightarrow> Some None
     | Some (seq, epoch, p) \<Rightarrow> do {
         (type, p) \<leftarrow> get 1 p; (client, p) \<leftarrow> get 4 p; (ticker, p) \<leftarrow> get 4 p; (coid, p) \<leftarrow> get 8 p;
         (moid, p) \<leftarrow> get 8 p; (side, p) \<leftarrow> get 1 p; (price, p) \<leftarrow> get_i64 p; (exec, p) \<leftarrow> get 4 p;
         (leaves, p) \<leftarrow> get 4 p; (reason, p) \<leftarrow> get 1 p; (rid, p) \<leftarrow> get 8 p; (position, p) \<leftarrow> get_i64 p;
         Some (Some \<lparr>oms_seq_num = seq, oms_response = \<lparr>rs_type = resp_of_byte type, rs_client_id = client,
           rs_ticker_id = ticker, rs_client_order_id = coid, rs_market_order_id = moid,
           rs_side = side_of_byte side, rs_price = price, rs_exec_qty = exec, rs_leaves_qty = leaves,
           rs_reject_reason = rej_of_byte reason, rs_response_id = rid, rs_position = position\<rparr>,
           oms_session_epoch = epoch\<rparr>) } }"

definition validate :: "MEClientRequest \<Rightarrow> RejectReason" where
  "validate r =
     (if unat (rq_client_id r) \<ge> ME_MAX_NUM_CLIENTS \<or> unat (rq_ticker_id r) \<ge> ME_MAX_TICKERS \<or>
         unat (rq_order_id r) \<ge> ME_MAX_ORDER_IDS then Rej_INVALID_ID
      else if rq_type r = Req_QUERY then Rej_NONE
      else if rq_type r \<noteq> Req_NEW \<and> rq_type r \<noteq> Req_CANCEL then Rej_INVALID_TYPE
      else if rq_order_id r = 0 then Rej_INVALID_ID
      else if rq_type r = Req_CANCEL then Rej_NONE
      else if rq_side r \<noteq> BUY \<and> rq_side r \<noteq> SELL then Rej_INVALID_SIDE
      else if rq_price r \<le> 0 \<or> rq_price r = Price_INVALID then Rej_INVALID_PRICE
      else if rq_qty r = 0 \<or> rq_qty r = Qty_INVALID \<or> unat (rq_qty r) > INT32_MAX then Rej_INVALID_QTY
      else Rej_NONE)"

subsection \<open>Market data\<close>

definition encode_market :: "MDPMarketUpdate \<Rightarrow> u8 list" where
  "encode_market m = (let r = md_update m in
     put8 84 @ put8 83 @ put8 Version @ put8 3 @
     put64 (md_seq_num m) @ put64 (md_snapshot_cycle m) @ put64 (md_watermark m) @ put64 (md_state_hash m) @
     put8 (mkt_to_byte (mu_type r)) @ put64 (mu_order_id r) @ put32 (mu_ticker_id r) @
     put8 (side_to_byte (mu_side r)) @ put_i64 (mu_price r) @ put32 (mu_qty r) @ put64 (mu_priority r))"

definition decode_market :: "u8 list \<Rightarrow> MDPMarketUpdate option option" where
  "decode_market p = do {
     r \<leftarrow> get_magic [84, 83, Version, 3] p;
     case r of None \<Rightarrow> Some None
     | Some p \<Rightarrow> do {
         (seq, p) \<leftarrow> get 8 p; (cycle, p) \<leftarrow> get 8 p; (watermark, p) \<leftarrow> get 8 p; (hash, p) \<leftarrow> get 8 p;
         (type, p) \<leftarrow> get 1 p; (order, p) \<leftarrow> get 8 p; (ticker, p) \<leftarrow> get 4 p; (side, p) \<leftarrow> get 1 p;
         (price, p) \<leftarrow> get_i64 p; (qty, p) \<leftarrow> get 4 p; (priority, p) \<leftarrow> get 8 p;
         if 1 \<le> type \<and> type \<le> mkt_to_byte Mkt_SNAPSHOT_END then
           Some (Some \<lparr>md_seq_num = seq, md_update = \<lparr>mu_type = mkt_of_byte type, mu_order_id = order,
             mu_ticker_id = ticker, mu_side = side_of_byte side, mu_price = price, mu_qty = qty,
             mu_priority = priority\<rparr>, md_snapshot_cycle = cycle, md_watermark = watermark,
             md_state_hash = hash\<rparr>)
         else Some None } }"

subsection \<open>Fields\<close>

lemma length_put [simp]: "length (put n w) = n"
  by (induct n) auto

lemma get_loop_put:
  fixes w acc :: "'a::len word"
  assumes "8 \<le> LENGTH('a)"
  shows "get_loop n acc (put n w @ p) = Some (push_bit (n * 8) acc OR take_bit (n * 8) w, p)"
proof (induct n arbitrary: acc)
  case (Suc n)
  let ?b = "ucast (ucast (drop_bit (n * 8) w) :: u8) :: 'a word"
  have "push_bit (n * 8) (push_bit 8 acc OR ?b) OR take_bit (n * 8) w =
      push_bit (Suc n * 8) acc OR take_bit (Suc n * 8) w"
    using assms
    by (intro bit_word_eqI)
      (auto simp: bit_push_bit_iff bit_or_iff bit_take_bit_iff bit_ucast_iff bit_drop_bit_eq not_less less_diff_conv2
          add.commute [of 8])
  then show ?case using Suc by simp
qed simp

lemma get_put:
  "get 1 (put 1 (a :: u8) @ p) = Some (a, p)" "get 4 (put 4 (b :: u32) @ p) = Some (b, p)"
  "get 8 (put 8 (c :: u64) @ p) = Some (c, p)"
  by (simp_all only: get_def get_loop_put [of 1] get_loop_put [of 4] get_loop_put [of 8] push_bit_of_0 or.left_neutral
      len_num1 len_of_numeral_defs) (simp_all add: take_bit_word_eq_self)

lemma get_put_i64: "i64 x \<Longrightarrow> get_i64 (put_i64 x @ p) = Some (x, p)"
  by (simp only: get_i64_def put_i64_def get_put) (simp add: sint_word_of_int_64)

lemma length_put_i64 [simp]: "length (put_i64 x) = 8"
  by (simp add: put_i64_def)

lemma get_magic_put: "get_magic ms (concat (map put8 ms) @ p) = Some (Some p)"
  by (induct ms) (simp_all only: get_magic.simps list.map concat.simps append_Nil append_assoc get_put
      Option.bind.bind_lunit prod.case if_False simp_thms)

lemma get_header_put: "get_header kind (put_header kind seq epoch @ p) = Some (Some (seq, epoch, p))"
proof -
  have "put_header kind seq epoch @ p = concat (map put8 [84, 83, Version, kind]) @ put64 seq @ put64 epoch @ p"
    by (simp add: put_header_def)
  then show ?thesis
    by (simp only: get_header_def get_magic_put Option.bind.bind_lunit option.case get_put prod.case)
qed

text \<open>A type byte the market decoder lets through.\<close>

definition market_type_ok :: "MarketUpdateType \<Rightarrow> bool" where
  "market_type_ok t \<longleftrightarrow> t \<in> {Mkt_CLEAR, Mkt_ADD, Mkt_MODIFY, Mkt_CANCEL, Mkt_TRADE, Mkt_SNAPSHOT_START, Mkt_SNAPSHOT_END}"

lemma market_type_byte: "market_type_ok t \<Longrightarrow> mkt_ok t \<and> 1 \<le> mkt_to_byte t \<and> mkt_to_byte t \<le> mkt_to_byte Mkt_SNAPSHOT_END"
  by (auto simp: market_type_ok_def mkt_ok_def mkt_to_byte_def)

subsection \<open>Properties\<close>

lemma request_on_wire:
  assumes "req_ok (rq_type (omq_request m))" "side_ok (rq_side (omq_request m))" "i64 (rq_price (omq_request m))"
  shows "length (encode_request m) = RequestSize \<and>
     decode_request (encode_request m @ rest) = Some (Some (m\<lparr>omq_request := (omq_request m)
       \<lparr>rq_session_epoch := omq_session_epoch m, rq_request_seq := omq_seq_num m\<rparr>\<rparr>))"
proof
  show "length (encode_request m) = RequestSize"
    by (simp add: encode_request_def put_header_def limits Let_def)
  have "req_of_byte (req_to_byte (rq_type (omq_request m))) = rq_type (omq_request m)"
    "side_of_byte (side_to_byte (rq_side (omq_request m))) = rq_side (omq_request m)"
    using assms by simp_all
  then show "decode_request (encode_request m @ rest) = Some (Some (m\<lparr>omq_request := (omq_request m)
       \<lparr>rq_session_epoch := omq_session_epoch m, rq_request_seq := omq_seq_num m\<rparr>\<rparr>))"
    by (simp only: encode_request_def decode_request_def Let_def append_assoc get_header_put get_put
        get_put_i64 [OF assms(3)] Option.bind.bind_lunit option.case prod.case) simp
qed

text \<open>C16: every request whose enumerations are valid and whose price fits \<open>int64\<close> survives the wire: the frame has
  \<open>RequestSize\<close> bytes, and decoding it, whatever follows in the buffer, gives the request back with the session and
  sequence numbers of the envelope copied into it.\<close>

theorem request_roundtrip:
  assumes "req_ok (rq_type (omq_request m))" "side_ok (rq_side (omq_request m))" "i64 (rq_price (omq_request m))"
  shows "length (encode_request m) = RequestSize \<and>
     decode_request (encode_request m @ rest) = Some (Some (m\<lparr>omq_request := (omq_request m)
       \<lparr>rq_session_epoch := omq_session_epoch m, rq_request_seq := omq_seq_num m\<rparr>\<rparr>))"
  using assms by (rule request_on_wire)

lemma request_roundtrip_witness:
  "\<exists>m. rq_type (omq_request m) = Req_NEW \<and> decode_request (encode_request m @ [9, 9]) = Some (Some m)"
proof -
  let ?m = "\<lparr>omq_seq_num = 3, omq_request = \<lparr>rq_type = Req_NEW, rq_client_id = 1, rq_ticker_id = 2, rq_order_id = 7,
     rq_side = SELL, rq_price = 101, rq_qty = 5, rq_session_epoch = 4, rq_request_seq = 3\<rparr>, omq_session_epoch = 4\<rparr>"
  show ?thesis using request_roundtrip [of ?m "[9, 9]"]
    by (intro exI [of _ ?m]) (simp add: req_ok_def side_ok_def i64_def)
qed

lemma response_on_wire:
  assumes "resp_ok (rs_type (oms_response m))" "side_ok (rs_side (oms_response m))"
    "rej_ok (rs_reject_reason (oms_response m))" "i64 (rs_price (oms_response m))" "i64 (rs_position (oms_response m))"
  shows "length (encode_response m) = ResponseSize \<and> decode_response (encode_response m @ rest) = Some (Some m)"
proof
  show "length (encode_response m) = ResponseSize"
    by (simp add: encode_response_def put_header_def limits Let_def)
  have "resp_of_byte (resp_to_byte (rs_type (oms_response m))) = rs_type (oms_response m)"
    "side_of_byte (side_to_byte (rs_side (oms_response m))) = rs_side (oms_response m)"
    "rej_of_byte (rej_to_byte (rs_reject_reason (oms_response m))) = rs_reject_reason (oms_response m)"
    using assms by simp_all
  then show "decode_response (encode_response m @ rest) = Some (Some m)"
    by (simp only: encode_response_def decode_response_def Let_def append_assoc get_header_put get_put
        get_put_i64 [OF assms(4)] get_put_i64 [OF assms(5)] Option.bind.bind_lunit option.case prod.case) simp
qed

text \<open>The same for responses, position and reject reason included.\<close>

theorem response_roundtrip:
  assumes "resp_ok (rs_type (oms_response m))" "side_ok (rs_side (oms_response m))"
    "rej_ok (rs_reject_reason (oms_response m))" "i64 (rs_price (oms_response m))" "i64 (rs_position (oms_response m))"
  shows "length (encode_response m) = ResponseSize \<and> decode_response (encode_response m @ rest) = Some (Some m)"
  using assms by (rule response_on_wire)

lemma response_roundtrip_witness:
  "\<exists>m. rs_position (oms_response m) = -12 \<and> decode_response (encode_response m @ []) = Some (Some m)"
proof -
  let ?m = "\<lparr>oms_seq_num = 3, oms_response = (mk_response Resp_FILLED 1 2 7 9 BUY 101 5 0 Rej_NONE)\<lparr>rs_position := -12\<rparr>,
     oms_session_epoch = 4\<rparr>"
  show ?thesis using response_roundtrip [of ?m "[]"]
    by (intro exI [of _ ?m]) (simp add: resp_ok_def side_ok_def rej_ok_def i64_def mk_response_def)
qed

lemma market_on_wire:
  assumes "side_ok (mu_side (md_update m))" "i64 (mu_price (md_update m))" "mkt_ok (mu_type (md_update m))"
  shows "length (encode_market m) = MarketSize \<and> decode_market (encode_market m @ rest) =
     (if market_type_ok (mu_type (md_update m)) then Some (Some m) else Some None)"
proof
  show "length (encode_market m) = MarketSize"
    by (simp add: encode_market_def limits Let_def)
  let ?t = "mu_type (md_update m)"
  have b: "mkt_of_byte (mkt_to_byte ?t) = ?t" "side_of_byte (side_to_byte (mu_side (md_update m))) = mu_side (md_update m)"
    using assms by simp_all
  have split: "encode_market m @ rest = concat (map put8 [84, 83, Version, 3]) @ (put64 (md_seq_num m) @
     put64 (md_snapshot_cycle m) @ put64 (md_watermark m) @ put64 (md_state_hash m) @
     put8 (mkt_to_byte ?t) @ put64 (mu_order_id (md_update m)) @ put32 (mu_ticker_id (md_update m)) @
     put8 (side_to_byte (mu_side (md_update m))) @ put_i64 (mu_price (md_update m)) @ put32 (mu_qty (md_update m)) @
     put64 (mu_priority (md_update m)) @ rest)"
    by (simp add: encode_market_def Let_def)
  have range: "1 \<le> mkt_to_byte ?t \<and> mkt_to_byte ?t \<le> mkt_to_byte Mkt_SNAPSHOT_END \<longleftrightarrow> market_type_ok ?t"
    using assms(3) by (cases ?t) (auto simp: market_type_ok_def mkt_to_byte_def mkt_ok_def dest: less_le_trans)
  show "decode_market (encode_market m @ rest) =
     (if market_type_ok ?t then Some (Some m) else Some None)"
    unfolding split decode_market_def
    by (simp only: get_magic_put get_put get_put_i64 [OF assms(2)] Option.bind.bind_lunit option.case prod.case range b) simp
qed

text \<open>C17: every public market update whose side and price fit their wire types survives the wire, and the in-process marker \<open>RECOVERY_COMMIT\<close> (like every other
  type that is no public event) is refused by the decoder, so the network cannot open the strategies.\<close>

theorem market_roundtrip:
  assumes "side_ok (mu_side (md_update m))" "i64 (mu_price (md_update m))" "mkt_ok (mu_type (md_update m))"
  shows "length (encode_market m) = MarketSize \<and> decode_market (encode_market m @ rest) =
     (if market_type_ok (mu_type (md_update m)) then Some (Some m) else Some None)"
  using assms by (rule market_on_wire)

lemma market_roundtrip_witness:
  "\<exists>m. decode_market (encode_market m @ []) = Some (Some m) \<and>
     decode_market (encode_market (m\<lparr>md_update := (md_update m)\<lparr>mu_type := Mkt_RECOVERY_COMMIT\<rparr>\<rparr>) @ []) = Some None"
proof -
  let ?m = "\<lparr>md_seq_num = 1, md_update = mk_update Mkt_ADD 5 2 BUY 100 10 1, md_snapshot_cycle = 0, md_watermark = 0,
     md_state_hash = 0\<rparr>"
  show ?thesis
    using market_roundtrip [of ?m "[]"]
      market_roundtrip [of "?m\<lparr>md_update := (md_update ?m)\<lparr>mu_type := Mkt_RECOVERY_COMMIT\<rparr>\<rparr>" "[]"]
    by (intro exI [of _ ?m]) (simp add: side_ok_def i64_def mkt_ok_def market_type_ok_def mk_update_def)
qed

end
