(* ===== verification/LF_Queue.thy ===== *)
theory LF_Queue
  imports Prelude
begin

text \<open>
  \<^verbatim>\<open>src/common/lf_queue.h\<close>: the bounded single-producer single-consumer queue between the threads. Cursors are
  \<open>size_t\<close> values that wrap at twice the capacity, slots are addressed by the cursor masked to the capacity. The
  sequential operations are shown to be those of a bounded list (locale \<open>bounded_fifo\<close>, interpreted as \<open>lfq\<close>); a step
  relation interleaves the atomic accesses of a producer and a consumer, and its invariant gives order
  preservation and freedom from races on the slots.
\<close>

unbundle bit_operations_syntax

subsection \<open>The queue\<close>

record 'a LFQueue =
  store :: "'a list"
  mask_field :: u64
  cursor_mask :: u64
  head :: u64
  tail :: u64
  full_count :: u64
  high_watermark :: u64

definition SIZE_MAX :: u64 where [limits]: "SIZE_MAX = 0xFFFFFFFFFFFFFFFF"

text \<open>\<open>std::has_single_bit\<close>: the argument is a power of two.\<close>

definition has_single_bit :: "u64 \<Rightarrow> bool" where
  "has_single_bit n = list_ex (\<lambda>k. n = 2 ^ k) [0..<64]"

text \<open>\<open>None\<close> is the \<open>std::invalid_argument\<close>.\<close>

definition checkedCapacity_queue :: "u64 \<Rightarrow> u64 option" where
  "checkedCapacity_queue capacity =
     (if \<not> has_single_bit capacity \<or> capacity > SIZE_MAX div 2 then None else Some capacity)"

text \<open>\<open>T()\<close>, the value a slot has before it is first written, is the argument \<open>zero\<close>.\<close>

definition LFQueue_new :: "'a \<Rightarrow> u64 \<Rightarrow> 'a LFQueue option" where
  "LFQueue_new zero capacity = do {
     n \<leftarrow> checkedCapacity_queue capacity;
     Some \<lparr>store = replicate (unat n) zero, mask_field = capacity - 1, cursor_mask = capacity * 2 - 1,
           head = 0, tail = 0, full_count = 0, high_watermark = 0\<rparr> }"

definition store_size :: "'a LFQueue \<Rightarrow> u64" where
  "store_size q = of_nat (length (store q))"

definition next_cursor :: "'a LFQueue \<Rightarrow> u64 \<Rightarrow> u64" where
  "next_cursor q i = (i + 1) AND cursor_mask q"

definition distance :: "'a LFQueue \<Rightarrow> u64 \<Rightarrow> u64 \<Rightarrow> u64" where
  "distance q t h = (t - h) AND cursor_mask q"

definition slot :: "'a LFQueue \<Rightarrow> u64 \<Rightarrow> nat" where
  "slot q i = unat (i AND mask_field q)"

definition recordFull :: "'a LFQueue \<Rightarrow> 'a LFQueue" where
  "recordFull q = q\<lparr>full_count := full_count q + 1\<rparr>"

definition note_used :: "u64 \<Rightarrow> 'a LFQueue \<Rightarrow> 'a LFQueue" where
  "note_used n q = (if n > high_watermark q then q\<lparr>high_watermark := n\<rparr> else q)"

definition try_push :: "'a \<Rightarrow> 'a LFQueue \<Rightarrow> bool \<times> 'a LFQueue" where
  "try_push value q =
     (let t = tail q; used = distance q t (head q) in
      if used = store_size q then (False, recordFull q)
      else (True, note_used (used + 1)
              (q\<lparr>store := (store q)[slot q t := value], tail := next_cursor q t\<rparr>)))"

fun write_all :: "'a list \<Rightarrow> u64 \<Rightarrow> 'a LFQueue \<Rightarrow> u64 \<times> 'a LFQueue" where
  "write_all [] w q = (w, q)"
| "write_all (v # vs) w q = write_all vs (next_cursor q w) (q\<lparr>store := (store q)[slot q w := v]\<rparr>)"

definition try_push_batch :: "'a list \<Rightarrow> 'a LFQueue \<Rightarrow> bool \<times> 'a LFQueue" where
  "try_push_batch values q =
     (if values = [] then (True, q)
      else let t = tail q; used = distance q t (head q); n = of_nat (length values) in
        if length values > unat (store_size q - used) then (False, recordFull q)
        else let (w, q') = write_all values t q in
          (True, note_used (used + n) (q'\<lparr>tail := w\<rparr>)))"

definition peek :: "'a LFQueue \<Rightarrow> 'a option" where
  "peek q = (if head q = tail q then None else Some (store q ! slot q (head q)))"

text \<open>\<open>None\<close> is the failed \<open>ASSERT\<close>.\<close>

definition pop :: "'a LFQueue \<Rightarrow> 'a LFQueue option" where
  "pop q = (if head q = tail q then None else Some (q\<lparr>head := next_cursor q (head q)\<rparr>))"

definition try_pop :: "'a LFQueue \<Rightarrow> 'a option \<times> 'a LFQueue" where
  "try_pop q = (if head q = tail q then (None, q)
     else (Some (store q ! slot q (head q)), q\<lparr>head := next_cursor q (head q)\<rparr>))"

definition queue_size :: "'a LFQueue \<Rightarrow> u64" where
  "queue_size q = min (distance q (tail q) (head q)) (store_size q)"

subsection \<open>Producer and consumer threads\<close>

text \<open>\<open>PChecked v\<close>: the producer has seen room for \<open>v\<close>; \<open>PWritten v\<close>: the slot is written, the tail not yet
  published. \<open>CSeen\<close>: the consumer has seen a non-empty queue; \<open>CRead v\<close>: the slot is read, the head not yet
  released. \<open>sent\<close> and \<open>received\<close> record the completed operations.\<close>

datatype 'a Producer = PIdle | PChecked 'a | PWritten 'a
datatype 'a Consumer = CIdle | CSeen | CRead 'a

record 'a Channel =
  chan :: "'a LFQueue"
  producer :: "'a Producer"
  consumer :: "'a Consumer"
  sent :: "'a list"
  received :: "'a list"

inductive channel_step :: "'a Channel \<Rightarrow> 'a Channel \<Rightarrow> bool" where
  p_check: "producer c = PIdle \<Longrightarrow> distance (chan c) (tail (chan c)) (head (chan c)) \<noteq> store_size (chan c) \<Longrightarrow>
    channel_step c (c\<lparr>producer := PChecked v\<rparr>)"
| p_full: "producer c = PIdle \<Longrightarrow> distance (chan c) (tail (chan c)) (head (chan c)) = store_size (chan c) \<Longrightarrow>
    channel_step c (c\<lparr>chan := recordFull (chan c)\<rparr>)"
| p_write: "producer c = PChecked v \<Longrightarrow> channel_step c (c\<lparr>producer := PWritten v,
    chan := (chan c)\<lparr>store := (store (chan c))[slot (chan c) (tail (chan c)) := v]\<rparr>\<rparr>)"
| p_publish: "producer c = PWritten v \<Longrightarrow> channel_step c (c\<lparr>producer := PIdle, sent := sent c @ [v],
    chan := (chan c)\<lparr>tail := next_cursor (chan c) (tail (chan c))\<rparr>\<rparr>)"
| c_see: "consumer c = CIdle \<Longrightarrow> head (chan c) \<noteq> tail (chan c) \<Longrightarrow> channel_step c (c\<lparr>consumer := CSeen\<rparr>)"
| c_read: "consumer c = CSeen \<Longrightarrow>
    channel_step c (c\<lparr>consumer := CRead (store (chan c) ! slot (chan c) (head (chan c)))\<rparr>)"
| c_release: "consumer c = CRead v \<Longrightarrow> channel_step c (c\<lparr>consumer := CIdle, received := received c @ [v],
    chan := (chan c)\<lparr>head := next_cursor (chan c) (head (chan c))\<rparr>\<rparr>)"

definition channel_start :: "'a LFQueue \<Rightarrow> 'a Channel" where
  "channel_start q = \<lparr>chan = q, producer = PIdle, consumer = CIdle, sent = [], received = []\<rparr>"

inductive_cases channel_stepE: "channel_step c d"

subsection \<open>Sequences of calls\<close>

datatype 'a QueueCall = Push 'a | Take

text \<open>The accepted and the taken elements of a sequence of calls, for any pair of queue operations.\<close>

fun fifo_run :: "('a \<Rightarrow> 'q \<Rightarrow> bool \<times> 'q) \<Rightarrow> ('q \<Rightarrow> 'a option \<times> 'q) \<Rightarrow> 'a QueueCall list \<Rightarrow> 'q \<Rightarrow>
    'a list \<times> 'a list \<times> 'q" where
  "fifo_run psh tk [] q = ([], [], q)"
| "fifo_run psh tk (Push v # cs) q =
     (let (ok, q1) = psh v q; (acc, out, q2) = fifo_run psh tk cs q1
      in (if ok then v # acc else acc, out, q2))"
| "fifo_run psh tk (Take # cs) q =
     (let (r, q1) = tk q; (acc, out, q2) = fifo_run psh tk cs q1
      in (acc, (case r of None \<Rightarrow> out | Some v \<Rightarrow> v # out), q2))"

text \<open>All calls of the interface with their answers; \<open>None\<close> is the failed assertion of \<open>pop\<close> on an empty queue.\<close>

datatype 'a QueueOp = OpPush 'a | OpBatch "'a list" | OpPeek | OpPop | OpTake

datatype 'a QueueAnswer = Admitted bool | Item "'a option" | Done

definition queue_op :: "'a QueueOp \<Rightarrow> 'a LFQueue \<Rightarrow> ('a QueueAnswer \<times> 'a LFQueue) option" where
  "queue_op c q = (case c of
     OpPush v \<Rightarrow> (let (ok, q') = try_push v q in Some (Admitted ok, q'))
   | OpBatch vs \<Rightarrow> (let (ok, q') = try_push_batch vs q in Some (Admitted ok, q'))
   | OpPeek \<Rightarrow> Some (Item (peek q), q)
   | OpPop \<Rightarrow> map_option (\<lambda>q'. (Done, q')) (pop q)
   | OpTake \<Rightarrow> (let (r, q') = try_pop q in Some (Item r, q')))"

text \<open>The specification: a list of at most \<open>n\<close> elements. A push or a batch is admitted exactly when it fits.\<close>

definition list_op :: "nat \<Rightarrow> 'a QueueOp \<Rightarrow> 'a list \<Rightarrow> ('a QueueAnswer \<times> 'a list) option" where
  "list_op n c xs = (case c of
     OpPush v \<Rightarrow> Some (if length xs < n then (Admitted True, xs @ [v]) else (Admitted False, xs))
   | OpBatch vs \<Rightarrow> Some (if length xs + length vs \<le> n then (Admitted True, xs @ vs) else (Admitted False, xs))
   | OpPeek \<Rightarrow> Some (Item (case xs of [] \<Rightarrow> None | x # _ \<Rightarrow> Some x), xs)
   | OpPop \<Rightarrow> (case xs of [] \<Rightarrow> None | _ # ys \<Rightarrow> Some (Done, ys))
   | OpTake \<Rightarrow> Some (case xs of [] \<Rightarrow> (Item None, []) | x # ys \<Rightarrow> (Item (Some x), ys)))"

fun run_ops :: "('c \<Rightarrow> 's \<Rightarrow> ('r \<times> 's) option) \<Rightarrow> 'c list \<Rightarrow> 's \<Rightarrow> ('r list \<times> 's) option" where
  "run_ops step [] s = Some ([], s)"
| "run_ops step (c # cs) s = Option.bind (step c s) (\<lambda>(r, s). map_option (\<lambda>(rs, s). (r # rs, s)) (run_ops step cs s))"

definition contents :: "'a LFQueue \<Rightarrow> 'a list" where
  "contents q = map (\<lambda>i. store q ! ((unat (head q) + i) mod length (store q)))
     [0..<unat (distance q (tail q) (head q))]"

subsection \<open>Representation\<close>

text \<open>\<open>H\<close> counts the elements read so far; \<open>xs\<close> is the content.\<close>

definition shape :: "'a LFQueue \<Rightarrow> nat \<Rightarrow> bool" where
  "shape q k \<longleftrightarrow> k \<le> 62 \<and> length (store q) = 2 ^ k \<and> mask_field q = 2 ^ k - 1 \<and> cursor_mask q = 2 ^ Suc k - 1"

definition queue_rep :: "'a LFQueue \<Rightarrow> nat \<Rightarrow> nat \<Rightarrow> 'a list \<Rightarrow> bool" where
  "queue_rep q k H xs \<longleftrightarrow> shape q k \<and> length xs \<le> 2 ^ k \<and>
     unat (head q) = H mod 2 ^ Suc k \<and> unat (tail q) = (H + length xs) mod 2 ^ Suc k \<and>
     (\<forall>i < length xs. store q ! ((H + i) mod 2 ^ k) = xs ! i)"

lemma unat_and_mask: "unat ((x :: u64) AND (2 ^ n - 1)) = unat x mod 2 ^ n"
proof -
  have e: "x AND (2 ^ n - 1) = take_bit n x"
    by (simp only: take_bit_eq_mask mask_eq_exp_minus_1)
  have "unat (take_bit n x) = take_bit n (unat x)" by (rule unsigned_take_bit_eq)
  also have "\<dots> = unat x mod 2 ^ n" by (rule take_bit_eq_mod)
  finally show ?thesis unfolding e .
qed

lemma unat_exp: "k < 64 \<Longrightarrow> unat (2 ^ k :: u64) = 2 ^ k"
proof -
  assume k: "k < 64"
  have "unat (of_nat (2 ^ k) :: u64) = 2 ^ k mod 2 ^ 64"
    by (simp only: unsigned_of_nat take_bit_eq_mod) simp
  also have "\<dots> = 2 ^ k" using k by (intro mod_less power_strict_increasing) auto
  finally show ?thesis by simp
qed

lemma mod_mod_double: "(n mod 2 ^ Suc k) mod 2 ^ k = n mod (2 ^ k :: nat)"
  by (rule mod_mod_cancel) simp

lemma exp_dvd_64: "n \<le> 64 \<Longrightarrow> (2 ^ n :: nat) dvd 2 ^ 64"
  by (rule le_imp_power_dvd)

lemma rep_step: "unat (x :: u64) = n mod 2 ^ Suc k \<Longrightarrow> k \<le> 62 \<Longrightarrow>
   unat ((x + 1) AND (2 ^ Suc k - 1)) = Suc n mod 2 ^ Suc k"
proof -
  assume x: "unat x = n mod 2 ^ Suc k" and k: "k \<le> 62"
  have "unat ((x + 1) AND (2 ^ Suc k - 1)) = ((unat x + 1) mod 2 ^ 64) mod 2 ^ Suc k"
    unfolding unat_and_mask by (simp add: unat_word_ariths)
  also have "\<dots> = (unat x + 1) mod 2 ^ Suc k"
    by (rule mod_mod_cancel) (use k in \<open>intro exp_dvd_64, simp\<close>)
  also have "\<dots> = Suc n mod 2 ^ Suc k" unfolding x by (simp add: mod_Suc_eq)
  finally show ?thesis .
qed

lemma rep_distance:
  assumes h: "unat (h :: u64) = H mod 2 ^ Suc k" and t: "unat (t :: u64) = (H + n) mod 2 ^ Suc k"
    and n: "n \<le> 2 ^ k" and k: "k \<le> 62"
  shows "unat ((t - h) AND (2 ^ Suc k - 1)) = n"
proof -
  let ?m = "2 ^ Suc k :: int"
  have "int (unat ((t - h) AND (2 ^ Suc k - 1))) = (uint (t - h)) mod ?m"
    unfolding unat_and_mask by (simp add: zmod_int)
  also have "\<dots> = ((uint t - uint h) mod 2 ^ 64) mod ?m" by (simp add: uint_word_ariths)
  also have "\<dots> = (uint t - uint h) mod ?m"
    by (rule mod_mod_cancel) (use k in \<open>intro le_imp_power_dvd, simp\<close>)
  also have "uint t = (int H + int n) mod ?m" using arg_cong [OF t, of int] by (simp add: zmod_int)
  also have "uint h = int H mod ?m" using arg_cong [OF h, of int] by (simp add: zmod_int)
  also have "((int H + int n) mod ?m - int H mod ?m) mod ?m = int n mod ?m"
    by (simp add: mod_diff_eq)
  also have "int n mod ?m = int n"
  proof (rule mod_pos_pos_trivial)
    have "n < 2 ^ Suc k" using n by (rule le_less_trans) simp
    then have "int n < int (2 ^ Suc k)" by (simp only: of_nat_less_iff)
    then show "int n < ?m" by simp
  qed simp
  finally show ?thesis by (simp only: of_nat_eq_iff)
qed

subsection \<open>The sequential operations on the representation\<close>

lemma shapeD:
  assumes "shape q k"
  shows "k \<le> 62" "length (store q) = 2 ^ k" "slot q i = unat i mod 2 ^ k"
    "next_cursor q i = (i + 1) AND (2 ^ Suc k - 1)" "distance q t h = (t - h) AND (2 ^ Suc k - 1)"
    "unat (store_size q) = 2 ^ k"
proof -
  show k: "k \<le> 62" "length (store q) = 2 ^ k" using assms by (auto simp: shape_def)
  show "slot q i = unat i mod 2 ^ k"
    using assms by (simp add: shape_def slot_def unat_and_mask del: power_Suc)
  show "next_cursor q i = (i + 1) AND (2 ^ Suc k - 1)" "distance q t h = (t - h) AND (2 ^ Suc k - 1)"
    using assms by (simp_all add: shape_def next_cursor_def distance_def)
  have "store_size q = 2 ^ k" using k(2) by (simp add: store_size_def)
  then show "unat (store_size q) = 2 ^ k" using k(1) by (simp add: unat_exp)
qed

lemma shape_update [simp]:
  "shape (q\<lparr>store := (store q)[i := v]\<rparr>) k = shape q k" "shape (q\<lparr>head := x\<rparr>) k = shape q k"
  "shape (q\<lparr>tail := x\<rparr>) k = shape q k" "shape (recordFull q) k = shape q k" "shape (note_used n q) k = shape q k"
  by (simp_all add: shape_def recordFull_def note_used_def)

lemma queue_rep_frame [simp]:
  "queue_rep (recordFull q) k H xs = queue_rep q k H xs" "queue_rep (note_used n q) k H xs = queue_rep q k H xs"
  by (simp_all add: queue_rep_def recordFull_def note_used_def shape_def)

lemma rep_slots:
  assumes "queue_rep q k H xs"
  shows "slot q (head q) = H mod 2 ^ k" "slot q (tail q) = (H + length xs) mod 2 ^ k"
    "unat (distance q (tail q) (head q)) = length xs"
proof -
  have s: "shape q k" using assms by (simp add: queue_rep_def)
  show "slot q (head q) = H mod 2 ^ k" "slot q (tail q) = (H + length xs) mod 2 ^ k"
    using assms unfolding shapeD(3) [OF s] queue_rep_def by (simp_all only: mod_mod_double)
  show "unat (distance q (tail q) (head q)) = length xs"
    unfolding shapeD(5) [OF s] by (rule rep_distance [where H = H]) (use assms in \<open>auto simp: queue_rep_def shape_def\<close>)
qed

lemma rep_full: "queue_rep q k H xs \<Longrightarrow> distance q (tail q) (head q) = store_size q \<longleftrightarrow> length xs = 2 ^ k"
proof -
  assume r: "queue_rep q k H xs"
  then have "unat (store_size q) = 2 ^ k" by (intro shapeD(6)) (simp add: queue_rep_def)
  then show ?thesis using rep_slots(3) [OF r] by (metis word_unat_eq_iff)
qed

lemma rep_empty: "queue_rep q k H xs \<Longrightarrow> head q = tail q \<longleftrightarrow> xs = []"
proof -
  assume r: "queue_rep q k H xs"
  then have "unat (head q) = H mod 2 ^ Suc k" "unat (tail q) = (H + length xs) mod 2 ^ Suc k"
    by (simp_all add: queue_rep_def)
  moreover have "head q = tail q \<Longrightarrow> length xs = 0"
    using rep_slots(3) [OF r] shapeD(5) [of q k] r by (simp add: queue_rep_def)
  ultimately show ?thesis by (auto simp: word_unat_eq_iff)
qed

lemma mod_window:
  fixes a i n m :: nat
  assumes "i < n" "n < m" shows "(a + i) mod m \<noteq> (a + n) mod m"
proof
  assume "(a + i) mod m = (a + n) mod m"
  then have "(a + n) mod m = (a + i) mod m" by simp
  moreover have "a + i \<le> a + n" using assms by simp
  ultimately have "m dvd (a + n) - (a + i)" using mod_eq_dvd_iff_nat by blast
  then have "m dvd n - i" by simp
  with assms show False by (auto dest: dvd_imp_le)
qed

text \<open>Writing the slot at the tail, and then publishing it.\<close>

lemma rep_write:
  assumes r: "queue_rep q k H xs" and room: "length xs < 2 ^ k"
  shows "queue_rep (q\<lparr>store := (store q)[slot q (tail q) := v]\<rparr>) k H xs"
    "(store q)[slot q (tail q) := v] ! ((H + length xs) mod 2 ^ k) = v"
proof -
  have len: "length (store q) = 2 ^ k" using r by (intro shapeD(2)) (simp add: queue_rep_def)
  have "(store q)[slot q (tail q) := v] ! ((H + i) mod 2 ^ k) = xs ! i" if "i < length xs" for i
    using mod_window [OF that room, of H] that r unfolding rep_slots(2) [OF r] by (simp add: queue_rep_def)
  then show "queue_rep (q\<lparr>store := (store q)[slot q (tail q) := v]\<rparr>) k H xs"
    using r by (simp add: queue_rep_def)
  show "(store q)[slot q (tail q) := v] ! ((H + length xs) mod 2 ^ k) = v"
    unfolding rep_slots(2) [OF r] using len by simp
qed

lemma rep_publish:
  assumes r: "queue_rep q k H xs" and room: "length xs < 2 ^ k"
    and v: "store q ! ((H + length xs) mod 2 ^ k) = v"
  shows "queue_rep (q\<lparr>tail := next_cursor q (tail q)\<rparr>) k H (xs @ [v])"
proof -
  have s: "shape q k" using r by (simp add: queue_rep_def)
  have "unat (next_cursor q (tail q)) = Suc (H + length xs) mod 2 ^ Suc k"
    unfolding shapeD(4) [OF s] by (rule rep_step) (use r in \<open>auto simp: queue_rep_def shape_def\<close>)
  then show ?thesis using r room v by (auto simp: queue_rep_def nth_append less_Suc_eq)
qed

lemma rep_release:
  assumes r: "queue_rep q k H (x # xs)"
  shows "queue_rep (q\<lparr>head := next_cursor q (head q)\<rparr>) k (Suc H) xs"
proof -
  have s: "shape q k" using r by (simp add: queue_rep_def)
  have "unat (next_cursor q (head q)) = Suc H mod 2 ^ Suc k"
    unfolding shapeD(4) [OF s] by (rule rep_step) (use r in \<open>auto simp: queue_rep_def shape_def\<close>)
  moreover have "store q ! ((Suc H + i) mod 2 ^ k) = xs ! i" if "i < length xs" for i
    using r that unfolding queue_rep_def by (metis Suc_less_eq add_Suc_shift length_Cons nth_Cons_Suc)
  ultimately show ?thesis using r by (simp add: queue_rep_def)
qed

lemma rep_head: "queue_rep q k H (x # xs) \<Longrightarrow> store q ! slot q (head q) = x"
  using rep_slots(1) [of q k H "x # xs"] by (auto simp: queue_rep_def dest!: spec [of _ 0])

text \<open>The functions of the header.\<close>

lemma try_push_rep:
  assumes r: "queue_rep q k H xs"
  shows "length xs = 2 ^ k \<Longrightarrow> fst (try_push v q) = False \<and> queue_rep (snd (try_push v q)) k H xs"
    "length xs < 2 ^ k \<Longrightarrow> fst (try_push v q) = True \<and> queue_rep (snd (try_push v q)) k H (xs @ [v])"
proof -
  show "fst (try_push v q) = False \<and> queue_rep (snd (try_push v q)) k H xs" if "length xs = 2 ^ k"
    using r rep_full [OF r] that by (simp add: try_push_def)
  assume room: "length xs < 2 ^ k"
  let ?q = "q\<lparr>store := (store q)[slot q (tail q) := v]\<rparr>"
  note W = rep_write [OF r room, of v]
  have "queue_rep (?q\<lparr>tail := next_cursor ?q (tail ?q)\<rparr>) k H (xs @ [v])"
    by (rule rep_publish [OF W(1) room]) (use W(2) in simp)
  then show "fst (try_push v q) = True \<and> queue_rep (snd (try_push v q)) k H (xs @ [v])"
    using rep_full [OF r] room by (simp add: try_push_def Let_def next_cursor_def)
qed

lemma try_pop_rep:
  "queue_rep q k H [] \<Longrightarrow> try_pop q = (None, q) \<and> peek q = None \<and> pop q = None"
  "queue_rep q k H (x # xs) \<Longrightarrow> fst (try_pop q) = Some x \<and> queue_rep (snd (try_pop q)) k (Suc H) xs \<and>
     peek q = Some x \<and> pop q = Some (snd (try_pop q))"
  using rep_empty [of q k H "[]"] rep_empty [of q k H "x # xs"] rep_head [of q k H x xs] rep_release [of q k H x xs]
  by (simp_all add: try_pop_def peek_def pop_def)

lemma write_all_rep:
  "queue_rep (q\<lparr>tail := w\<rparr>) k H xs \<Longrightarrow> length xs + length vs \<le> 2 ^ k \<Longrightarrow>
   queue_rep ((snd (write_all vs w q))\<lparr>tail := fst (write_all vs w q)\<rparr>) k H (xs @ vs)"
proof (induction vs arbitrary: xs w q)
  case (Cons v vs)
  let ?q = "q\<lparr>tail := w\<rparr>"
  have room: "length xs < 2 ^ k" using Cons.prems(2) by simp
  note W = rep_write [OF Cons.prems(1) room, of v]
  have "queue_rep (?q\<lparr>store := (store ?q)[slot ?q (tail ?q) := v], tail := next_cursor ?q w\<rparr>) k H (xs @ [v])"
    using rep_publish [OF W(1) room] W(2) by (simp add: next_cursor_def)
  then have "queue_rep ((q\<lparr>store := (store q)[slot q w := v]\<rparr>)\<lparr>tail := next_cursor q w\<rparr>) k H (xs @ [v])"
    by (simp add: slot_def next_cursor_def)
  from Cons.IH [OF this] Cons.prems(2) show ?case by simp
qed simp

lemma try_push_batch_rep:
  assumes r: "queue_rep q k H xs"
  shows "2 ^ k < length xs + length vs \<Longrightarrow> fst (try_push_batch vs q) = False \<and> queue_rep (snd (try_push_batch vs q)) k H xs"
    "length xs + length vs \<le> 2 ^ k \<Longrightarrow>
     fst (try_push_batch vs q) = True \<and> queue_rep (snd (try_push_batch vs q)) k H (xs @ vs)"
proof -
  have s: "shape q k" and len: "length xs \<le> 2 ^ k" using r by (simp_all add: queue_rep_def)
  have "distance q (tail q) (head q) \<le> store_size q"
    using rep_slots(3) [OF r] shapeD(6) [OF s] len by (simp add: word_le_nat_alt)
  then have free: "unat (store_size q - distance q (tail q) (head q)) = 2 ^ k - length xs"
    using rep_slots(3) [OF r] shapeD(6) [OF s] by (simp add: unat_sub)
  show "fst (try_push_batch vs q) = False \<and> queue_rep (snd (try_push_batch vs q)) k H xs"
    if "2 ^ k < length xs + length vs"
    using that len free r by (auto simp: try_push_batch_def Let_def)
  assume fit: "length xs + length vs \<le> 2 ^ k"
  have "queue_rep ((snd (write_all vs (tail q) q))\<lparr>tail := fst (write_all vs (tail q) q)\<rparr>) k H (xs @ vs)"
    by (rule write_all_rep) (use r fit in simp_all)
  then show "fst (try_push_batch vs q) = True \<and> queue_rep (snd (try_push_batch vs q)) k H (xs @ vs)"
    using r fit free by (cases "vs = []") (auto simp: try_push_batch_def Let_def split: prod.splits)
qed

lemma has_single_bit_exp: "has_single_bit n \<Longrightarrow> n \<le> SIZE_MAX div 2 \<Longrightarrow> \<exists>k \<le> 62. n = 2 ^ k"
proof -
  assume "has_single_bit n" "n \<le> SIZE_MAX div 2"
  then obtain k where k: "k < 64" "n = 2 ^ k" by (auto simp: has_single_bit_def list_ex_iff)
  have "unat (SIZE_MAX div 2) = 2 ^ 63 - 1" by (simp add: limits)
  with \<open>n \<le> SIZE_MAX div 2\<close> k have "(2 :: nat) ^ k \<le> 2 ^ 63 - 1" by (simp add: word_le_nat_alt unat_exp)
  then have "(2 :: nat) ^ k < 2 ^ 63" by simp
  then have "k < 63" by (rule power_less_imp_less_exp [rotated]) simp
  with k(2) show ?thesis by (intro exI [of _ k]) auto
qed

lemma LFQueue_new_rep:
  assumes "LFQueue_new z capacity = Some q"
  shows "\<exists>k. queue_rep q k 0 [] \<and> unat capacity = 2 ^ k"
proof -
  from assms have ok: "has_single_bit capacity" "capacity \<le> SIZE_MAX div 2"
    and q: "q = \<lparr>store = replicate (unat capacity) z, mask_field = capacity - 1, cursor_mask = capacity * 2 - 1,
      head = 0, tail = 0, full_count = 0, high_watermark = 0\<rparr>"
    by (auto simp: LFQueue_new_def checkedCapacity_queue_def bind_Some_conv split: if_splits)
  obtain k where k: "k \<le> 62" "capacity = 2 ^ k" using has_single_bit_exp [OF ok] by blast
  then have "unat capacity = 2 ^ k" by (simp add: unat_exp)
  with k show ?thesis by (intro exI [of _ k]) (simp add: q queue_rep_def shape_def mult.commute)
qed

definition queue_ok :: "'a LFQueue \<Rightarrow> bool" where
  "queue_ok q \<longleftrightarrow> (\<exists>k H xs. queue_rep q k H xs)"

lemma contents_rep: "queue_rep q k H xs \<Longrightarrow> contents q = xs \<and> length (store q) = 2 ^ k"
proof -
  assume r: "queue_rep q k H xs"
  then have len: "length (store q) = 2 ^ k" by (intro shapeD(2)) (simp add: queue_rep_def)
  have "(unat (head q) + i) mod 2 ^ k = (H + i) mod 2 ^ k" for i
  proof -
    have "unat (head q) mod 2 ^ k = H mod 2 ^ k"
      using r mod_mod_double [of H k] by (simp only: queue_rep_def)
    then show ?thesis by (metis mod_add_left_eq)
  qed
  then have "contents q = map (\<lambda>i. xs ! i) [0..<length xs]"
    using r rep_slots(3) [OF r] len by (auto simp: contents_def queue_rep_def)
  then show ?thesis using len by (simp add: map_nth)
qed

subsection \<open>The contract of a bounded queue\<close>

locale bounded_fifo =
  fixes psh :: "'a \<Rightarrow> 'q \<Rightarrow> bool \<times> 'q" and tk :: "'q \<Rightarrow> 'a option \<times> 'q"
    and items :: "'q \<Rightarrow> 'a list" and cap :: "'q \<Rightarrow> nat" and qinv :: "'q \<Rightarrow> bool"
  assumes push_ok: "qinv q \<Longrightarrow> length (items q) < cap q \<Longrightarrow> psh v q = (ok, q') \<Longrightarrow>
      ok \<and> qinv q' \<and> items q' = items q @ [v] \<and> cap q' = cap q"
    and push_full: "qinv q \<Longrightarrow> length (items q) = cap q \<Longrightarrow> psh v q = (ok, q') \<Longrightarrow>
      \<not> ok \<and> qinv q' \<and> items q' = items q \<and> cap q' = cap q"
    and take_ok: "qinv q \<Longrightarrow> items q = v # vs \<Longrightarrow> tk q = (r, q') \<Longrightarrow>
      r = Some v \<and> qinv q' \<and> items q' = vs \<and> cap q' = cap q"
    and take_empty: "qinv q \<Longrightarrow> items q = [] \<Longrightarrow> tk q = (None, q)"
    and bound: "qinv q \<Longrightarrow> length (items q) \<le> cap q"
begin

lemma run_fifo:
  "qinv q \<Longrightarrow> fifo_run psh tk cs q = (acc, out, q') \<Longrightarrow>
   qinv q' \<and> cap q' = cap q \<and> items q @ acc = out @ items q'"
proof (induction cs arbitrary: q acc out q')
  case (Cons c cs)
  show ?case
  proof (cases c)
    case (Push v)
    obtain ok q1 where p: "psh v q = (ok, q1)" by (cases "psh v q") auto
    obtain a o2 q2 where r: "fifo_run psh tk cs q1 = (a, o2, q2)" by (cases "fifo_run psh tk cs q1") auto
    have "length (items q) < cap q \<or> length (items q) = cap q" using bound [OF Cons.prems(1)] by auto
    then show ?thesis
      using push_ok [OF Cons.prems(1) _ p] push_full [OF Cons.prems(1) _ p] Cons.IH [OF _ r] Cons.prems(2) Push p r
      by auto
  next
    case Take
    obtain x q1 where p: "tk q = (x, q1)" by (cases "tk q") auto
    obtain a o2 q2 where r: "fifo_run psh tk cs q1 = (a, o2, q2)" by (cases "fifo_run psh tk cs q1") auto
    show ?thesis
      using take_ok [OF Cons.prems(1) _ p] take_empty [OF Cons.prems(1)] Cons.IH [OF _ r] Cons.prems Take p r
      by (cases "items q") auto
  qed
qed simp

end

interpretation lfq: bounded_fifo try_push try_pop contents "\<lambda>q. length (store q)" queue_ok
proof
  fix q q' :: "'a LFQueue" and v ok r
  have ex: "\<exists>k H. queue_rep q k H (contents q) \<and> length (store q) = 2 ^ k" if "queue_ok q"
    using that contents_rep unfolding queue_ok_def by metis
  show "ok \<and> queue_ok q' \<and> contents q' = contents q @ [v] \<and> length (store q') = length (store q)"
    if "queue_ok q" "length (contents q) < length (store q)" "try_push v q = (ok, q')"
    using ex [OF that(1)] that(2,3) try_push_rep(2) [of q _ _ "contents q" v] contents_rep
    unfolding queue_ok_def by (metis fst_conv snd_conv)
  show "\<not> ok \<and> queue_ok q' \<and> contents q' = contents q \<and> length (store q') = length (store q)"
    if "queue_ok q" "length (contents q) = length (store q)" "try_push v q = (ok, q')"
    using ex [OF that(1)] that(2,3) try_push_rep(1) [of q _ _ "contents q" v] contents_rep
    unfolding queue_ok_def by (metis fst_conv snd_conv)
  show "try_pop q = (None, q)" if "queue_ok q" "contents q = []"
    using ex [OF that(1)] that(2) try_pop_rep(1) [of q] by metis
  show "length (contents q) \<le> length (store q)" if "queue_ok q"
    using ex [OF that] by (auto simp: queue_rep_def)
next
  fix q q' :: "'a LFQueue" and v vs r
  assume q: "queue_ok q" "contents q = v # vs" "try_pop q = (r, q')"
  then obtain k H where r: "queue_rep q k H (v # vs)" "length (store q) = 2 ^ k"
    using contents_rep unfolding queue_ok_def by metis
  from try_pop_rep(2) [OF r(1)] q(3) have "r = Some v" "queue_rep q' k (Suc H) vs" by auto
  with contents_rep [OF this(2)] r(2) show "r = Some v \<and> queue_ok q' \<and> contents q' = vs \<and> length (store q') = length (store q)"
    unfolding queue_ok_def by auto
qed

subsection \<open>Interleaved threads\<close>

definition channel_inv :: "nat \<Rightarrow> 'a Channel \<Rightarrow> bool" where
  "channel_inv k c \<longleftrightarrow> (\<exists>xs. queue_rep (chan c) k (length (received c)) xs \<and> sent c = received c @ xs \<and>
     (case producer c of PIdle \<Rightarrow> True | PChecked v \<Rightarrow> length xs < 2 ^ k
      | PWritten v \<Rightarrow> length xs < 2 ^ k \<and>
          store (chan c) ! ((length (received c) + length xs) mod 2 ^ k) = v) \<and>
     (case consumer c of CIdle \<Rightarrow> True | CSeen \<Rightarrow> xs \<noteq> [] | CRead v \<Rightarrow> xs \<noteq> [] \<and> hd xs = v))"

lemma channel_inv_step:
  assumes "channel_step c d" "channel_inv k c"
  shows "channel_inv k d"
proof -
  obtain xs where r: "queue_rep (chan c) k (length (received c)) xs" and sent: "sent c = received c @ xs"
    and p: "case producer c of PIdle \<Rightarrow> True | PChecked v \<Rightarrow> length xs < 2 ^ k
      | PWritten v \<Rightarrow> length xs < 2 ^ k \<and> store (chan c) ! ((length (received c) + length xs) mod 2 ^ k) = v"
    and q: "case consumer c of CIdle \<Rightarrow> True | CSeen \<Rightarrow> xs \<noteq> [] | CRead v \<Rightarrow> xs \<noteq> [] \<and> hd xs = v"
    using assms(2) unfolding channel_inv_def by blast
  have len: "length xs \<le> 2 ^ k" using r by (simp add: queue_rep_def)
  from assms(1) show ?thesis
  proof cases
    case (p_check v)
    then have "length xs < 2 ^ k" using rep_full [OF r] len by simp
    then show ?thesis using p_check r sent q unfolding channel_inv_def by (intro exI [of _ xs]) simp
  next
    case p_full
    then show ?thesis using r sent p q unfolding channel_inv_def by (intro exI [of _ xs]) simp
  next
    case (p_write v)
    then have room: "length xs < 2 ^ k" using p by simp
    note W = rep_write [OF r room, of v]
    show ?thesis using p_write W room sent q unfolding channel_inv_def by (intro exI [of _ xs]) simp
  next
    case (p_publish v)
    then have room: "length xs < 2 ^ k" and v: "store (chan c) ! ((length (received c) + length xs) mod 2 ^ k) = v"
      using p by simp_all
    show ?thesis using p_publish rep_publish [OF r room v] sent q unfolding channel_inv_def
      by (intro exI [of _ "xs @ [v]"]) (auto split: Consumer.splits)
  next
    case c_see
    then have "xs \<noteq> []" using rep_empty [OF r] by simp
    then show ?thesis using c_see r sent p unfolding channel_inv_def
      by (intro exI [of _ xs]) (auto split: Producer.splits)
  next
    case c_read
    then obtain x ys where xs: "xs = x # ys" using q by (cases xs) auto
    then show ?thesis using c_read r sent p rep_head [of "chan c" k _ x ys] unfolding channel_inv_def
      by (intro exI [of _ xs]) (auto split: Producer.splits)
  next
    case (c_release v)
    then obtain ys where xs: "xs = v # ys" using q by (cases xs) auto
    show ?thesis using c_release rep_release [of "chan c" k _ v ys] r sent p xs unfolding channel_inv_def
      by (intro exI [of _ ys]) (auto split: Producer.splits)
  qed
qed

lemma channel_inv_start: "LFQueue_new z n = Some q \<Longrightarrow> \<exists>k. channel_inv k (channel_start q) \<and> unat n = 2 ^ k"
  using LFQueue_new_rep [of z n q] by (auto simp: channel_inv_def channel_start_def)

lemma channel_inv_reachable: "channel_step\<^sup>*\<^sup>* c d \<Longrightarrow> channel_inv k c \<Longrightarrow> channel_inv k d"
  by (induct rule: rtranclp_induct) (auto intro: channel_inv_step)

subsection \<open>Laws for the clients of the queue\<close>

lemma queue_new_ok: "LFQueue_new z n = Some q \<Longrightarrow> queue_ok q \<and> contents q = [] \<and> length (store q) = unat n"
  using LFQueue_new_rep [of z n q] contents_rep unfolding queue_ok_def by metis

lemma push_contents:
  assumes "queue_ok q" "try_push v q = (ok, q')"
  shows "queue_ok q' \<and> length (store q') = length (store q) \<and> ok = (length (contents q) < length (store q)) \<and>
     contents q' = (if ok then contents q @ [v] else contents q)"
proof (cases "length (contents q) < length (store q)")
  case True then show ?thesis using lfq.push_ok [OF assms(1) True assms(2)] by simp
next
  case False
  then have "length (contents q) = length (store q)" using lfq.bound [OF assms(1)] by simp
  then show ?thesis using lfq.push_full [OF assms(1) _ assms(2)] False by simp
qed

lemma pop_contents:
  assumes "queue_ok q" "try_pop q = (r, q')"
  shows "queue_ok q' \<and> length (store q') = length (store q) \<and>
     (case r of None \<Rightarrow> contents q = [] \<and> q' = q | Some v \<Rightarrow> contents q = v # contents q')"
proof (cases "contents q")
  case Nil then show ?thesis using lfq.take_empty [OF assms(1) Nil] assms by auto
next
  case (Cons v vs) then show ?thesis using lfq.take_ok [OF assms(1) Cons assms(2)] by auto
qed

lemma peek_pop:
  assumes "queue_ok q"
  shows "peek q = (case contents q of [] \<Rightarrow> None | v # vs \<Rightarrow> Some v)"
    "contents q \<noteq> [] \<Longrightarrow> \<exists>q'. pop q = Some q' \<and> queue_ok q' \<and> contents q' = tl (contents q) \<and> length (store q') = length (store q)"
proof -
  obtain k H where r: "queue_rep q k H (contents q)" using assms contents_rep unfolding queue_ok_def by metis
  show "peek q = (case contents q of [] \<Rightarrow> None | v # vs \<Rightarrow> Some v)"
    using r try_pop_rep(1) [of q k H] try_pop_rep(2) [of q k H] by (auto split: list.split)
  assume ne: "contents q \<noteq> []"
  then obtain v vs where c: "contents q = v # vs" by (cases "contents q") auto
  then have "pop q = Some (snd (try_pop q))" using r try_pop_rep(2) [of q k H v vs] by simp
  then show "\<exists>q'. pop q = Some q' \<and> queue_ok q' \<and> contents q' = tl (contents q) \<and> length (store q') = length (store q)"
    using lfq.take_ok [OF assms c, of "fst (try_pop q)" "snd (try_pop q)"] c by simp
qed

lemma batch_contents:
  assumes "queue_ok q" "try_push_batch vs q = (ok, q')"
  shows "queue_ok q' \<and> length (store q') = length (store q) \<and>
     ok = (length (contents q) + length vs \<le> length (store q)) \<and> contents q' = (if ok then contents q @ vs else contents q)"
proof -
  obtain k H where r: "queue_rep q k H (contents q)" "length (store q) = 2 ^ k"
    using assms(1) contents_rep unfolding queue_ok_def by metis
  show ?thesis
  proof (cases "length (contents q) + length vs \<le> 2 ^ k")
    case True
    then have "queue_rep q' k H (contents q @ vs)" "ok" using try_push_batch_rep(2) [OF r(1) True] assms(2) by simp_all
    then show ?thesis using contents_rep [of q' k H] True r(2) unfolding queue_ok_def by auto
  next
    case False
    then have "queue_rep q' k H (contents q)" "\<not> ok" using try_push_batch_rep(1) [OF r(1), of vs] assms(2) by simp_all
    then show ?thesis using contents_rep [of q' k H] False r(2) unfolding queue_ok_def by auto
  qed
qed

subsection \<open>Properties\<close>

text \<open>Nothing accepted is lost or handed out twice, for any sequence of pushes and takes.\<close>

lemma accepted_is_taken:
  assumes "LFQueue_new z n = Some q" "fifo_run try_push try_pop cs q = (acc, out, q')"
  shows "acc = out @ contents q' \<and> length (contents q') \<le> unat n"
proof -
  obtain k where k: "queue_rep q k 0 []" "unat n = 2 ^ k" using LFQueue_new_rep [OF assms(1)] by blast
  have ok: "queue_ok q" using k(1) unfolding queue_ok_def by blast
  from lfq.run_fifo [OF ok assms(2)] contents_rep [OF k(1)] k(2) lfq.bound [of q'] show ?thesis by auto
qed

lemma pop_empty: "queue_ok q \<Longrightarrow> contents q = [] \<Longrightarrow> pop q = None"
  using peek_pop(1) [of q] by (simp add: pop_def peek_def split: if_splits)

lemma queue_op_refines:
  assumes ok: "queue_ok q"
  shows "map_option (\<lambda>(r, q'). (r, contents q')) (queue_op c q) = list_op (length (store q)) c (contents q) \<and>
     (\<forall>r q'. queue_op c q = Some (r, q') \<longrightarrow> queue_ok q' \<and> length (store q') = length (store q))"
proof (cases c)
  case (OpPush v)
  obtain b q' where p: "try_push v q = (b, q')" by fastforce
  show ?thesis using push_contents [OF ok p] p OpPush by (simp add: queue_op_def list_op_def)
next
  case (OpBatch vs)
  obtain b q' where p: "try_push_batch vs q = (b, q')" by fastforce
  show ?thesis using batch_contents [OF ok p] p OpBatch by (simp add: queue_op_def list_op_def)
next
  case OpPeek
  then show ?thesis using peek_pop(1) [OF ok] ok by (simp add: queue_op_def list_op_def)
next
  case OpPop
  then show ?thesis using peek_pop(2) [OF ok] pop_empty [OF ok]
    by (cases "contents q") (auto simp: queue_op_def list_op_def)
next
  case OpTake
  obtain r q' where p: "try_pop q = (r, q')" by fastforce
  show ?thesis using pop_contents [OF ok p] p OpTake by (cases r) (auto simp: queue_op_def list_op_def)
qed

lemma run_ops_refines:
  "queue_ok q \<Longrightarrow> map_option (\<lambda>(rs, q'). (rs, contents q')) (run_ops queue_op cs q) = run_ops (list_op (length (store q))) cs (contents q)"
proof (induct cs arbitrary: q)
  case (Cons c cs)
  note R = queue_op_refines [OF Cons.prems, of c]
  show ?case
  proof (cases "queue_op c q")
    case None then show ?thesis using R by (auto simp: eq_commute)
  next
    case (Some x)
    obtain r q' where x: "x = (r, q')" by fastforce
    have q': "queue_ok q'" "length (store q') = length (store q)" "list_op (length (store q)) c (contents q) = Some (r, contents q')"
      using R Some x by (auto simp: eq_commute)
    have "run_ops (list_op (length (store q))) cs (contents q') = map_option (\<lambda>(rs, q'). (rs, contents q')) (run_ops queue_op cs q')"
      using Cons.hyps [OF q'(1)] q'(2) by simp
    then show ?thesis using Some x q'(3) by (cases "run_ops queue_op cs q'") auto
  qed
qed simp

text \<open>C15: the queue is a bounded list. From the constructor on, any sequence of pushes, batches, peeks, pops and takes gets
  exactly the answers of a list of at most \<open>n\<close> elements, and afterwards holds the elements of that list: a push or a batch is
  admitted exactly when it fits, an element comes out exactly when there is one, in order, and the only failure is the
  assertion of \<open>pop\<close> on an empty queue.\<close>

theorem queue_is_fifo:
  assumes "LFQueue_new z n = Some q"
  shows "map_option (\<lambda>(rs, q'). (rs, contents q')) (run_ops queue_op cs q) = run_ops (list_op (unat n)) cs []"
proof -
  obtain k where k: "queue_rep q k 0 []" "unat n = 2 ^ k" using LFQueue_new_rep [OF assms] by blast
  have "queue_ok q" using k(1) unfolding queue_ok_def by blast
  from run_ops_refines [OF this, of cs] contents_rep [OF k(1)] k(2) show ?thesis by simp
qed

lemma queue_is_fifo_witness:
  "\<exists>q rs q'. LFQueue_new (0 :: int) 2 = Some q \<and>
     run_ops queue_op [OpPush 7, OpBatch [8, 9], OpPush 8, OpPush 9, OpPeek, OpPop, OpTake, OpTake, OpPush 10] q = Some (rs, q') \<and>
     rs = [Admitted True, Admitted False, Admitted True, Admitted False, Item (Some 7), Done, Item (Some 8), Item None, Admitted True] \<and>
     contents q' = [10]"
proof -
  let ?cs = "[OpPush 7, OpBatch [8, 9], OpPush 8, OpPush 9, OpPeek, OpPop, OpTake, OpTake, OpPush 10] :: int QueueOp list"
  have "case LFQueue_new (0 :: int) 2 of None \<Rightarrow> False | Some _ \<Rightarrow> True" by code_simp
  then obtain q where q: "LFQueue_new (0 :: int) 2 = Some q" by (auto split: option.splits)
  have "run_ops (list_op 2) ?cs [] = Some ([Admitted True, Admitted False, Admitted True, Admitted False, Item (Some 7), Done,
      Item (Some 8), Item None, Admitted True], [10])" by (simp add: list_op_def)
  with queue_is_fifo [OF q, of ?cs] q show ?thesis by auto
qed

text \<open>A batch is admitted whole or not at all, and exactly when it fits.\<close>

theorem batch_is_atomic:
  assumes "queue_ok q"
  shows "if length (contents q) + length vs \<le> length (store q)
     then fst (try_push_batch vs q) \<and> contents (snd (try_push_batch vs q)) = contents q @ vs
     else \<not> fst (try_push_batch vs q) \<and> contents (snd (try_push_batch vs q)) = contents q"
proof -
  obtain k H where r: "queue_rep q k H (contents q)" "length (store q) = 2 ^ k"
    using assms contents_rep unfolding queue_ok_def by metis
  then show ?thesis using try_push_batch_rep [OF r(1), of vs] contents_rep by (metis not_le)
qed

lemma batch_is_atomic_witness:
  "\<exists>q. LFQueue_new (0 :: int) 4 = Some q \<and> fst (try_push_batch [1, 2, 3] q) \<and>
     contents (snd (try_push_batch [1, 2, 3] q)) = [1, 2, 3] \<and>
     \<not> fst (try_push_batch [4, 5] (snd (try_push_batch [1, 2, 3] q)))"
proof -
  have "case LFQueue_new (0 :: int) 4 of None \<Rightarrow> False | Some _ \<Rightarrow> True" by code_simp
  then obtain q where q: "LFQueue_new (0 :: int) 4 = Some q" by (auto split: option.splits)
  then obtain k where k: "queue_rep q k 0 []" "(4 :: nat) = 2 ^ k" using LFQueue_new_rep [of 0 4 q] by auto
  let ?q = "snd (try_push_batch [1, 2, 3] q)"
  have c: "contents q = []" "length (store q) = 4" using contents_rep [OF k(1)] k(2) by auto
  have q1: "queue_rep ?q k 0 [1, 2, 3]" using try_push_batch_rep(2) [OF k(1), of "[1, 2, 3]"] k(2) by simp
  then have c1: "contents ?q = [1, 2, 3]" "length (store ?q) = 4" using contents_rep [OF q1] k(2) by auto
  have "queue_ok q" "queue_ok ?q" using k(1) q1 unfolding queue_ok_def by blast+
  from batch_is_atomic [OF this(1), of "[1, 2, 3]"] batch_is_atomic [OF this(2), of "[4, 5]"] q c c1
  show ?thesis by simp
qed

text \<open>C14: under every interleaving of the producer's and the consumer's atomic accesses the consumer receives a prefix of
  what the producer published, at most a capacity behind, and when the producer is about to write a slot while the
  consumer is about to read one, the two slots are different.\<close>

theorem channel_order_and_no_race:
  assumes "LFQueue_new z n = Some q" "channel_step\<^sup>*\<^sup>* (channel_start q) c"
  shows "\<exists>xs. sent c = received c @ xs \<and> length xs \<le> unat n \<and>
     (producer c = PChecked v \<and> consumer c = CSeen \<longrightarrow>
        slot (chan c) (tail (chan c)) \<noteq> slot (chan c) (head (chan c)))"
proof -
  obtain k where k: "channel_inv k (channel_start q)" "unat n = 2 ^ k" using channel_inv_start [OF assms(1)] by blast
  obtain xs where r: "queue_rep (chan c) k (length (received c)) xs" "sent c = received c @ xs"
    and p: "producer c = PChecked v \<Longrightarrow> length xs < 2 ^ k" and e: "consumer c = CSeen \<Longrightarrow> xs \<noteq> []"
    using channel_inv_reachable [OF assms(2) k(1)] unfolding channel_inv_def by fastforce
  have "slot (chan c) (tail (chan c)) \<noteq> slot (chan c) (head (chan c))"
    if "producer c = PChecked v" "consumer c = CSeen"
    using mod_window [of 0 "length xs" "2 ^ k" "length (received c)"] p [OF that(1)] e [OF that(2)]
    by (simp add: rep_slots [OF r(1)])
  with r k(2) show ?thesis by (auto simp: queue_rep_def)
qed

lemma channel_order_and_no_race_witness:
  "\<exists>q c xs. LFQueue_new (0 :: int) 2 = Some q \<and> channel_step\<^sup>*\<^sup>* (channel_start q) c \<and>
     producer c = PChecked 5 \<and> sent c = received c @ xs \<and> length xs \<le> 2"
proof -
  have "case LFQueue_new (0 :: int) 2 of None \<Rightarrow> False | Some _ \<Rightarrow> True" by code_simp
  then obtain q where q: "LFQueue_new (0 :: int) 2 = Some q" by (auto split: option.splits)
  then obtain k where k: "queue_rep q k 0 []" using LFQueue_new_rep [of 0 2 q] by auto
  let ?c = "(channel_start q)\<lparr>producer := PChecked 5\<rparr>"
  have "channel_step (channel_start q) ?c"
    by (rule p_check) (use rep_full [OF k] in \<open>simp_all add: channel_start_def\<close>)
  then have r: "channel_step\<^sup>*\<^sup>* (channel_start q) ?c" by blast
  from channel_order_and_no_race [OF q r, of 5] q r show ?thesis by auto
qed

end
