(* ===== verification/Critical_Journal.thy ===== *)
theory Critical_Journal
  imports Messages
begin

text \<open>
  \<^verbatim>\<open>src/common/critical_journal.h\<close>: the append-only audit file. \<open>sys n\<close> is the result of the \<open>n\<close>-th system call on the
  file, a short write or an interruption included; \<open>None\<close> is \<open>FATAL\<close> or a call that is interrupted for ever. What
  reaches the file is exactly the record and a newline, whatever the kernel splits.
\<close>

text \<open>A positive count, \<open>EINTR\<close>, or any other result (zero and the remaining errors are fatal alike).\<close>

datatype WriteResult = Wrote nat | Wr_Intr | Wr_Fail

record Journal =
  jn_file :: string
  jn_records :: u64
  jn_clock :: nat

partial_function (option) write_loop :: "(nat \<Rightarrow> WriteResult) \<Rightarrow> string \<Rightarrow> Journal \<Rightarrow> Journal option" where
  "write_loop sys rest j =
     (if rest = [] then Some j
      else let j' = j\<lparr>jn_clock := jn_clock j + 1\<rparr> in
        case sys (jn_clock j) of
          Wrote n \<Rightarrow> if 0 < n then write_loop sys (drop n rest) (j'\<lparr>jn_file := jn_file j @ take n rest\<rparr>) else None
        | Wr_Intr \<Rightarrow> write_loop sys rest j'
        | Wr_Fail \<Rightarrow> None)"

text \<open>\<open>fsync\<close> has no count: any \<open>Wrote\<close> stands for its result 0.\<close>

partial_function (option) sync_loop :: "(nat \<Rightarrow> WriteResult) \<Rightarrow> Journal \<Rightarrow> Journal option" where
  "sync_loop sys j =
     (let j' = j\<lparr>jn_clock := jn_clock j + 1\<rparr> in
      case sys (jn_clock j) of
        Wrote n \<Rightarrow> Some j'
      | Wr_Intr \<Rightarrow> sync_loop sys j'
      | Wr_Fail \<Rightarrow> None)"

definition journal_append :: "(nat \<Rightarrow> WriteResult) \<Rightarrow> string \<Rightarrow> Journal \<Rightarrow> Journal option" where
  "journal_append sys text j = do {
     j \<leftarrow> write_loop sys (text @ [CHR 0x0A]) j;
     j \<leftarrow> sync_loop sys j;
     Some (j\<lparr>jn_records := jn_records j + 1\<rparr>) }"

text \<open>Creating the journal: \<open>fd\<close> is the result of \<open>open\<close> with \<open>O_EXCL\<close>, so the file is new and empty; \<open>open_dir\<close> and \<open>synced\<close>
  are the results of opening the directory of the file and of its \<open>fsync\<close>.\<close>

definition parent_directory :: "string \<Rightarrow> string" where
  "parent_directory path =
     (if CHR ''/'' \<in> set path then rev (tl (dropWhile (\<lambda>c. c \<noteq> CHR ''/'') (rev path))) else ''.'')"

definition CriticalJournal_new :: "(nat \<Rightarrow> WriteResult) \<Rightarrow> int \<Rightarrow> (string \<Rightarrow> int) \<Rightarrow> int \<Rightarrow> string \<Rightarrow> Journal option" where
  "CriticalJournal_new sys fd open_dir synced path =
     (if fd < 0 then None
      else do {
        j \<leftarrow> journal_append sys ''TS_AUDIT_V1'' \<lparr>jn_file = [], jn_records = 0, jn_clock = 0\<rparr>;
        let parent = open_dir (parent_directory path);
        if parent < 0 then None else if synced \<noteq> 0 then None else Some j })"

definition request_text :: "string \<Rightarrow> MEClientRequest \<Rightarrow> string" where
  "request_text phase r = phase @ '' '' @ nat_to_string (unat (rq_client_id r)) @ '' '' @
     nat_to_string (unat (rq_session_epoch r)) @ '' '' @ nat_to_string (unat (rq_request_seq r)) @ '' '' @
     nat_to_string (unat (req_to_byte (rq_type r))) @ '' '' @ nat_to_string (unat (rq_ticker_id r)) @ '' '' @
     nat_to_string (unat (rq_order_id r)) @ '' '' @ int_to_string (sideToValue (rq_side r)) @ '' '' @
     int_to_string (rq_price r) @ '' '' @ nat_to_string (unat (rq_qty r))"

definition response_text :: "MEClientResponse \<Rightarrow> string" where
  "response_text r = ''RESPONSE '' @ nat_to_string (unat (rs_response_id r)) @ '' '' @
     nat_to_string (unat (rs_client_id r)) @ '' '' @ nat_to_string (unat (rs_ticker_id r)) @ '' '' @
     nat_to_string (unat (rs_client_order_id r)) @ '' '' @ nat_to_string (unat (rs_market_order_id r)) @ '' '' @
     nat_to_string (unat (resp_to_byte (rs_type r))) @ '' '' @ int_to_string (sideToValue (rs_side r)) @ '' '' @
     int_to_string (rs_price r) @ '' '' @ nat_to_string (unat (rs_exec_qty r)) @ '' '' @
     nat_to_string (unat (rs_leaves_qty r)) @ '' '' @ nat_to_string (unat (rej_to_byte (rs_reject_reason r))) @ '' '' @
     int_to_string (rs_position r)"

definition journal_request :: "(nat \<Rightarrow> WriteResult) \<Rightarrow> string \<Rightarrow> MEClientRequest \<Rightarrow> Journal \<Rightarrow> Journal option" where
  "journal_request sys phase r j = journal_append sys (request_text phase r) j"

definition journal_response :: "(nat \<Rightarrow> WriteResult) \<Rightarrow> MEClientResponse \<Rightarrow> Journal \<Rightarrow> Journal option" where
  "journal_response sys r j = journal_append sys (response_text r) j"

subsection \<open>What reaches the file\<close>

lemma write_loop_file:
  assumes "write_loop sys rest j = Some j'"
  shows "jn_file j' = jn_file j @ rest \<and> jn_records j' = jn_records j"
  using assms
proof (rule write_loop.raw_induct [where P = "\<lambda>sys rest j j'. jn_file j' = jn_file j @ rest \<and> jn_records j' = jn_records j", rotated])
  fix wl :: "(nat \<Rightarrow> WriteResult) \<Rightarrow> string \<Rightarrow> Journal \<Rightarrow> Journal option" and sys rest j j'
  assume IH: "\<And>sys rest j j'. wl sys rest j = Some j' \<Longrightarrow> jn_file j' = jn_file j @ rest \<and> jn_records j' = jn_records j"
  assume r: "(if rest = [] then Some j
      else let j' = j\<lparr>jn_clock := jn_clock j + 1\<rparr> in
        case sys (jn_clock j) of
          Wrote n \<Rightarrow> if 0 < n then wl sys (drop n rest) (j'\<lparr>jn_file := jn_file j @ take n rest\<rparr>) else None
        | Wr_Intr \<Rightarrow> wl sys rest j' | Wr_Fail \<Rightarrow> None) = Some j'"
  show "jn_file j' = jn_file j @ rest \<and> jn_records j' = jn_records j"
    using r by (auto simp: Let_def split: if_splits WriteResult.splits dest!: IH)
qed

lemma sync_loop_file:
  assumes "sync_loop sys j = Some j'" shows "jn_file j' = jn_file j \<and> jn_records j' = jn_records j"
  using assms
proof (rule sync_loop.raw_induct [where P = "\<lambda>sys j j'. jn_file j' = jn_file j \<and> jn_records j' = jn_records j", rotated])
  fix sl :: "(nat \<Rightarrow> WriteResult) \<Rightarrow> Journal \<Rightarrow> Journal option" and sys j j'
  assume IH: "\<And>sys j j'. sl sys j = Some j' \<Longrightarrow> jn_file j' = jn_file j \<and> jn_records j' = jn_records j"
  assume r: "(let j' = j\<lparr>jn_clock := jn_clock j + 1\<rparr> in
      case sys (jn_clock j) of Wrote n \<Rightarrow> Some j'
      | Wr_Intr \<Rightarrow> sl sys j' | Wr_Fail \<Rightarrow> None) = Some j'"
  show "jn_file j' = jn_file j \<and> jn_records j' = jn_records j"
    using r by (auto simp: Let_def split: if_splits WriteResult.splits dest!: IH)
qed

lemma journal_append_file:
  "journal_append sys text j = Some j' \<Longrightarrow>
   jn_file j' = jn_file j @ text @ [CHR 0x0A] \<and> jn_records j' = jn_records j + 1"
  unfolding journal_append_def bind_Some_conv using write_loop_file sync_loop_file by fastforce

lemma journal_new_file:
  assumes "CriticalJournal_new sys fd open_dir synced path = Some j"
  shows "jn_file j = ''TS_AUDIT_V1'' @ [CHR 0x0A]" "jn_records j = 1" "0 \<le> fd"
  using assms by (auto simp: CriticalJournal_new_def bind_Some_conv dest!: journal_append_file split: if_splits)

lemma parent_directory_prefix:
  "CHR ''/'' \<in> set path \<Longrightarrow> \<exists>name. path = parent_directory path @ CHR ''/'' # name \<and> CHR ''/'' \<notin> set name"
proof -
  assume "CHR ''/'' \<in> set path"
  then obtain ys zs where p: "path = ys @ CHR ''/'' # zs" "CHR ''/'' \<notin> set zs" by (auto dest: split_list_last)
  have "dropWhile (\<lambda>c. c \<noteq> CHR ''/'') (rev zs @ CHR ''/'' # rev ys) = CHR ''/'' # rev ys"
    using p(2) by (subst dropWhile_append2) (auto simp del: rev_append)
  then show ?thesis using p by (auto simp: parent_directory_def)
qed

text \<open>Progress: when the kernel keeps writing (\<open>EINTR\<close> apart), the loop ends.\<close>

lemma write_loop_returns:
  assumes "\<And>k. \<exists>m \<ge> k. \<exists>n > 0. sys m = Wrote n" "\<And>k. sys k \<noteq> Wr_Fail" "\<And>k. sys k \<noteq> Wrote 0"
  shows "\<exists>j'. write_loop sys rest j = Some j'"
proof (induct "length rest" arbitrary: rest j rule: less_induct)
  case less
  show ?case
  proof (cases "rest = []")
    case True then show ?thesis by (simp add: write_loop.simps)
  next
    case False
    obtain m where m: "jn_clock j \<le> m" "\<exists>n > 0. sys m = Wrote n" using assms(1) by blast
    then have "\<exists>j'. write_loop sys rest j = Some j'"
    proof (induct "m - jn_clock j" arbitrary: j)
      case 0
      then obtain n where n: "0 < n" "sys (jn_clock j) = Wrote n" by auto
      have "length (drop n rest) < length rest" using False n(1) by (cases rest) auto
      from less [OF this] n False show ?case by (subst write_loop.simps) (simp add: Let_def)
    next
      case (Suc d)
      show ?case
      proof (cases "sys (jn_clock j)")
        case (Wrote n)
        moreover have "0 < n" using Wrote assms(3) by (metis gr0I)
        moreover have "length (drop n rest) < length rest" using False \<open>0 < n\<close> by (cases rest) auto
        ultimately show ?thesis using less False by (subst write_loop.simps) (simp add: Let_def)
      next
        case Wr_Intr
        have "\<exists>j'. write_loop sys rest (j\<lparr>jn_clock := jn_clock j + 1\<rparr>) = Some j'"
          by (rule Suc.hyps(1)) (use Suc in auto)
        with Wr_Intr False show ?thesis by (subst write_loop.simps) (simp add: Let_def)
      qed (use assms(2) in auto)
    qed
    then show ?thesis .
  qed
qed

lemma sync_loop_returns:
  assumes "\<And>k. \<exists>m \<ge> k. \<exists>n > 0. sys m = Wrote n" "\<And>k. sys k \<noteq> Wr_Fail"
  shows "\<exists>j'. sync_loop sys j = Some j'"
proof -
  obtain m where m: "jn_clock j \<le> m" "\<exists>n > 0. sys m = Wrote n" using assms(1) by blast
  then show ?thesis
  proof (induct "m - jn_clock j" arbitrary: j)
    case 0
    then have "jn_clock j = m" by simp
    with 0(3) show ?case by (subst sync_loop.simps) (auto simp: Let_def)
  next
    case (Suc d)
    have "\<exists>j'. sync_loop sys (j\<lparr>jn_clock := jn_clock j + 1\<rparr>) = Some j'"
      by (rule Suc.hyps(1)) (use Suc in auto)
    then show ?case
      by (subst sync_loop.simps) (use assms(2) in \<open>auto simp: Let_def split: WriteResult.splits\<close>)
  qed
qed

text \<open>A kernel that goes on writing, with short writes and interruptions.\<close>

definition kernel_writes :: "(nat \<Rightarrow> WriteResult) \<Rightarrow> bool" where
  "kernel_writes sys \<longleftrightarrow> (\<forall>k. \<exists>m \<ge> k. \<exists>n > 0. sys m = Wrote n) \<and> (\<forall>k. sys k \<noteq> Wr_Fail) \<and> (\<forall>k. sys k \<noteq> Wrote 0)"

lemma journal_append_returns:
  assumes "kernel_writes sys" shows "\<exists>j'. journal_append sys text j = Some j'"
proof -
  obtain j1 where "write_loop sys (text @ [CHR 0x0A]) j = Some j1"
    using write_loop_returns [of sys] assms unfolding kernel_writes_def by blast
  moreover obtain j2 where "sync_loop sys j1 = Some j2"
    using sync_loop_returns [of sys] assms unfolding kernel_writes_def by blast
  ultimately show ?thesis by (simp add: journal_append_def)
qed

text \<open>C27: an audit record is written exactly once and whole, whatever short writes and interruptions the kernel
  reports: as long as the kernel does not fail and keeps making progress, \<open>append\<close> returns, the file grows by the text
  and one newline, and the record counter by one.\<close>

theorem journal_append_whole:
  assumes "\<And>k. \<exists>m \<ge> k. \<exists>n > 0. sys m = Wrote n" "\<And>k. sys k \<noteq> Wr_Fail" "\<And>k. sys k \<noteq> Wrote 0"
  shows "\<exists>j'. journal_append sys text j = Some j' \<and> jn_file j' = jn_file j @ text @ [CHR 0x0A] \<and>
     jn_records j' = jn_records j + 1"
  using journal_append_returns [of sys] journal_append_file [of sys] assms unfolding kernel_writes_def by blast

text \<open>A kernel that interrupts every other call and takes three bytes at a time.\<close>

lemma journal_append_whole_witness:
  "\<exists>j'. journal_append (\<lambda>k. if even k then Wr_Intr else Wrote 3) ''TS_AUDIT_V1'' \<lparr>jn_file = [], jn_records = 0, jn_clock = 0\<rparr>
     = Some j' \<and> jn_file j' = ''TS_AUDIT_V1'' @ [CHR 0x0A] \<and> jn_records j' = 1"
proof -
  let ?sys = "\<lambda>k :: nat. if even k then Wr_Intr else Wrote 3"
  have "\<exists>m \<ge> k. \<exists>n > 0. ?sys m = Wrote n" for k by (rule exI [of _ "2 * k + 1"]) auto
  from journal_append_whole [of ?sys, OF this, of "''TS_AUDIT_V1''" "\<lparr>jn_file = [], jn_records = 0, jn_clock = 0\<rparr>"]
  show ?thesis by (simp split: if_splits)
qed

end
