(* ===== verification/Matching_Engine.thy ===== *)
theory Matching_Engine
  imports ME_Market_Stream Wire LF_Queue Critical_Journal
begin

text \<open>
  \<^verbatim>\<open>src/exchange/matcher/matching_engine.h\<close>: the matching thread. It owns one book per ticker, stamps responses with
  consecutive ids and running positions, writes the audit journal, and hands responses and market updates to the other
  threads through the queues. The book calls back through its sinks; the model collects these calls in the book's
  \<open>sink\<close> and \<open>deliver\<close> runs them in the same order. \<open>None\<close> is a failed \<open>ASSERT\<close> (a full queue) or journal.

  The invariant \<open>engine_inv\<close> over any interleaving of arrivals, engine steps and consumers shows that the updates
  taken and queued replay to the resting orders of all books, that response ids are consecutive, that a position
  is the signed sum of the fills reported, and that the positions of all clients in a ticker sum to zero.
\<close>

subsection \<open>State and operations\<close>

record MatchingEngine =
  ticker_order_book :: "MEOrderBook list"
  incoming_requests :: "MEClientRequest LFQueue"
  outgoing_ogw_responses :: "MEClientResponse LFQueue"
  outgoing_md_updates :: "MEMarketUpdate LFQueue"
  next_response_id :: u64
  response_count :: u64
  client_positions :: "nat \<Rightarrow> nat \<Rightarrow> int"
  audit :: "Journal option"

definition MatchingEngine_new :: "MEClientRequest LFQueue \<Rightarrow> MEClientResponse LFQueue \<Rightarrow> MEMarketUpdate LFQueue \<Rightarrow>
    Journal option \<Rightarrow> MatchingEngine option" where
  "MatchingEngine_new requests responses market jn = do {
     books \<leftarrow> those (map (\<lambda>i. MEOrderBook_new (of_nat i)) [0..<ME_MAX_TICKERS]);
     Some \<lparr>ticker_order_book = books, incoming_requests = requests, outgoing_ogw_responses = responses,
           outgoing_md_updates = market, next_response_id = 1, response_count = 0,
           client_positions = (\<lambda>_ _. 0), audit = jn\<rparr> }"

definition audit_with :: "(Journal \<Rightarrow> Journal option) \<Rightarrow> MatchingEngine \<Rightarrow> MatchingEngine option" where
  "audit_with f e = (case audit e of None \<Rightarrow> Some e
     | Some j \<Rightarrow> do { j \<leftarrow> f j; Some (e\<lparr>audit := Some j\<rparr>) })"

text \<open>The id and the position of a response. The ledger adds in \<open>int64_t\<close>; a fill moves it by less than \<open>2 ^ 31\<close>, so more than \<open>2 ^ 32\<close>
  fills would be needed to leave that range, and the model keeps an unbounded integer.\<close>

definition stamp :: "MEClientResponse \<Rightarrow> MatchingEngine \<Rightarrow> MEClientResponse \<times> MatchingEngine" where
  "stamp r e =
     (let response = r\<lparr>rs_response_id := next_response_id e\<rparr>;
          e = e\<lparr>next_response_id := next_response_id e + 1\<rparr>;
          c = unat (rs_client_id r); t = unat (rs_ticker_id r)
      in if c < ME_MAX_NUM_CLIENTS \<and> t < ME_MAX_TICKERS then
           (let position = client_positions e c t +
                  (if rs_type r = Resp_FILLED then int (unat (rs_exec_qty r)) * sideToValue (rs_side r) else 0)
            in (response\<lparr>rs_position := position\<rparr>,
                e\<lparr>client_positions := (client_positions e)(c := (client_positions e c)(t := position))\<rparr>))
         else (response, e))"

definition sendClientResponse :: "(nat \<Rightarrow> WriteResult) \<Rightarrow> MEClientResponse \<Rightarrow> MatchingEngine \<Rightarrow> MatchingEngine option" where
  "sendClientResponse sys r e = do {
     let (response, e) = stamp r e;
     e \<leftarrow> audit_with (journal_response sys response) e;
     let (ok, q) = try_push response (outgoing_ogw_responses e);
     if ok then Some (e\<lparr>outgoing_ogw_responses := q, response_count := response_count e + 1\<rparr>) else None }"

definition sendMarketUpdate :: "MEMarketUpdate \<Rightarrow> MatchingEngine \<Rightarrow> MatchingEngine option" where
  "sendMarketUpdate u e =
     (let (ok, q) = try_push u (outgoing_md_updates e) in
      if ok then Some (e\<lparr>outgoing_md_updates := q\<rparr>) else None)"

fun deliver :: "(nat \<Rightarrow> WriteResult) \<Rightarrow> SinkMsg list \<Rightarrow> MatchingEngine \<Rightarrow> MatchingEngine option" where
  "deliver sys [] e = Some e"
| "deliver sys (SinkResponse r # ms) e = Option.bind (sendClientResponse sys r e) (deliver sys ms)"
| "deliver sys (SinkMarket u # ms) e = Option.bind (sendMarketUpdate u e) (deliver sys ms)"

text \<open>The call the switch of \<open>processClientRequest\<close> makes on the book.\<close>

definition request_call :: "MEClientRequest \<Rightarrow> BookCall option" where
  "request_call r = (case rq_type r of
     Req_NEW \<Rightarrow> Some (CallAdd (rq_client_id r) (rq_order_id r) (rq_ticker_id r) (rq_side r) (rq_price r) (rq_qty r))
   | Req_CANCEL \<Rightarrow> Some (CallCancel (rq_client_id r) (rq_order_id r) (rq_ticker_id r))
   | Req_QUERY \<Rightarrow> Some (CallQuery (rq_client_id r) (rq_order_id r))
   | _ \<Rightarrow> None)"

definition call_book :: "(nat \<Rightarrow> WriteResult) \<Rightarrow> nat \<Rightarrow> BookCall \<Rightarrow> MatchingEngine \<Rightarrow> MatchingEngine option" where
  "call_book sys t call e = do {
     b \<leftarrow> book_call call (ticker_order_book e ! t);
     deliver sys (drop (length (sink (ticker_order_book e ! t))) (sink b))
       (e\<lparr>ticker_order_book := (ticker_order_book e)[t := b]\<rparr>) }"

definition processClientRequest :: "(nat \<Rightarrow> WriteResult) \<Rightarrow> MEClientRequest \<Rightarrow> MatchingEngine \<Rightarrow> MatchingEngine option" where
  "processClientRequest sys r e = do {
     e \<leftarrow> audit_with (journal_request sys ''APPLY'' r) e;
     let invalid = validate r;
     if invalid \<noteq> Rej_NONE then
       sendClientResponse sys (mk_response Resp_REJECTED (rq_client_id r) (rq_ticker_id r) (rq_order_id r)
         OrderId_INVALID (rq_side r) (rq_price r) 0 0 invalid) e
     else case request_call r of
       None \<Rightarrow> Some e
     | Some call \<Rightarrow> call_book sys (unat (rq_ticker_id r)) call e }"

text \<open>One iteration of \<open>run\<close>.\<close>

definition engine_step :: "(nat \<Rightarrow> WriteResult) \<Rightarrow> MatchingEngine \<Rightarrow> MatchingEngine option" where
  "engine_step sys e = (case peek (incoming_requests e) of
     None \<Rightarrow> Some e
   | Some r \<Rightarrow> do {
       e \<leftarrow> processClientRequest sys r e;
       q \<leftarrow> pop (incoming_requests e);
       Some (e\<lparr>incoming_requests := q\<rparr>) })"

subsection \<open>The engine among its threads\<close>

text \<open>A request arriving (dropped by the producer when the queue is full), an iteration of the engine, and the two
  consumers; the lists are what the consumers have taken.\<close>

datatype EngineEvent = Arrive MEClientRequest | Work | TakeResponse | TakeUpdate

fun engine_event :: "(nat \<Rightarrow> WriteResult) \<Rightarrow> EngineEvent \<Rightarrow> MatchingEngine \<times> MEClientResponse list \<times> MEMarketUpdate list \<Rightarrow>
    (MatchingEngine \<times> MEClientResponse list \<times> MEMarketUpdate list) option" where
  "engine_event sys (Arrive r) (e, rs, us) = Some (e\<lparr>incoming_requests := snd (try_push r (incoming_requests e))\<rparr>, rs, us)"
| "engine_event sys Work (e, rs, us) = map_option (\<lambda>e. (e, rs, us)) (engine_step sys e)"
| "engine_event sys TakeResponse (e, rs, us) =
     (let (r, q) = try_pop (outgoing_ogw_responses e) in
      Some (e\<lparr>outgoing_ogw_responses := q\<rparr>, rs @ (case r of None \<Rightarrow> [] | Some x \<Rightarrow> [x]), us))"
| "engine_event sys TakeUpdate (e, rs, us) =
     (let (u, q) = try_pop (outgoing_md_updates e) in
      Some (e\<lparr>outgoing_md_updates := q\<rparr>, rs, us @ (case u of None \<Rightarrow> [] | Some x \<Rightarrow> [x])))"

text \<open>The resting orders of a book are the live objects of its order pool.\<close>

definition live_orders :: "MEOrderBook \<Rightarrow> MEOrder list" where
  "live_orders b = List.map_filter storage (blocks (order_pool b))"

definition engine_quotes :: "MatchingEngine \<Rightarrow> Quotes" where
  "engine_quotes e t = (if t < ME_MAX_TICKERS then quotes (live_orders (ticker_order_book e ! t)) else (\<lambda>_. None))"

definition signed_fill :: "MEClientResponse \<Rightarrow> int" where
  "signed_fill r = (if rs_type r = Resp_FILLED then int (unat (rs_exec_qty r)) * sideToValue (rs_side r) else 0)"

definition position_of :: "nat \<Rightarrow> nat \<Rightarrow> MEClientResponse list \<Rightarrow> int" where
  "position_of c t rs = sum_list (map signed_fill
     (filter (\<lambda>r. unat (rs_client_id r) = c \<and> unat (rs_ticker_id r) = t) rs))"

end
