(* ===== verification/Matching_Engine_Props.thy ===== *)
theory Matching_Engine_Props
  imports Matching_Engine
begin

text \<open>
  The invariant of the matching engine among its threads, and the properties that rest on it.
\<close>

subsection \<open>Resting orders and the pool\<close>

lemma map_filter_nth:
  "List.map_filter f xs = map (\<lambda>i. the (f (xs ! i))) (filter (\<lambda>i. f (xs ! i) \<noteq> None) [0..<length xs])"
proof (induct xs rule: rev_induct)
  case (snoc x xs)
  have 1: "filter (\<lambda>i. f ((xs @ [x]) ! i) \<noteq> None) [0..<length xs] = filter (\<lambda>i. f (xs ! i) \<noteq> None) [0..<length xs]"
    by (rule filter_cong) (auto simp: nth_append)
  have 2: "map (\<lambda>i. the (f ((xs @ [x]) ! i))) (filter (\<lambda>i. f (xs ! i) \<noteq> None) [0..<length xs]) =
      map (\<lambda>i. the (f (xs ! i))) (filter (\<lambda>i. f (xs ! i) \<noteq> None) [0..<length xs])"
    by (rule map_cong) (auto simp: nth_append)
  have "List.map_filter f (xs @ [x]) = List.map_filter f xs @ (if f x \<noteq> None then [the (f x)] else [])"
    by (simp add: List.map_filter_def)
  then show ?case using snoc 1 2 by (simp add: nth_append)
qed (simp add: List.map_filter_def)

lemma live_orders_ptrs:
  "live_orders b = map (\<lambda>x. the (oheap b x)) (filter (\<lambda>x. oheap b x \<noteq> None) [0..<length (blocks (order_pool b))])"
proof -
  have "filter (\<lambda>i. storage (blocks (order_pool b) ! i) \<noteq> None) [0..<length (blocks (order_pool b))] =
      filter (\<lambda>x. oheap b x \<noteq> None) [0..<length (blocks (order_pool b))]"
    by (rule filter_cong) (auto simp: deref_def)
  then show ?thesis unfolding live_orders_def map_filter_nth by (auto simp: deref_def)
qed

lemma quote_strip [simp]: "quote_of (strip v) = quote_of v" "mo_market_order_id (strip v) = mo_market_order_id v"
  by (simp_all add: quote_of_def strip_def)

text \<open>Quotes of the live objects at a list of slots.\<close>

lemma quotes_slots:
  assumes "distinct xs" "distinct ys" "set xs = set ys" "distinct (ids (map f xs))"
    "\<And>x. x \<in> set xs \<Longrightarrow> quote_of (f x) = quote_of (g x) \<and> mo_market_order_id (f x) = mo_market_order_id (g x)"
  shows "quotes (map f xs) = quotes (map g ys)"
proof -
  let ?h = "\<lambda>f x. (mo_market_order_id (f x), quote_of (f x))"
  have e: "map (?h f) xs = map (?h g) xs" using assms(5) by simp
  have i: "inj_on (\<lambda>x. mo_market_order_id (g x)) (set ys)"
    using assms(3,4,5) by (auto simp: distinct_map inj_on_def)
  then have "distinct (map (\<lambda>x. mo_market_order_id (g x)) ys)" "distinct (map (\<lambda>x. mo_market_order_id (g x)) xs)"
    using assms(1-3) by (simp_all add: distinct_map)
  then have "map_of (map (?h g) xs) = map_of (map (?h g) ys)"
    using assms(3) by (subst map_of_inject_set) (simp_all add: comp_def)
  then show ?thesis unfolding quotes_def map_map comp_def e .
qed

lemma live_quotes:
  assumes ok: "book_ok b g" and inv: "spec_inv (abs_book b g)"
  shows "quotes (live_orders b) = book_quotes (abs_book b g)"
proof -
  note L = ladder_okD [OF book_okD(1) [OF ok]]
  let ?xs = "ptrs (g BUY) @ ptrs (g SELL)" and ?n = "length (blocks (order_pool b))"
  let ?ys = "filter (\<lambda>x. oheap b x \<noteq> None) [0..<?n]"
  have lists: "sb_orders (abs_book b g) BUY @ sb_orders (abs_book b g) SELL = map (\<lambda>x. the (oS (oheap b) x)) ?xs"
    by (simp add: abs_book_def sides_def book_list_def)
  have dom: "dom (oheap b) = set ?xs" using L(7) by (auto simp: sides_def)
  have d: "distinct ?xs"
    using spec_invD(4) [OF inv] unfolding lists map_map by (simp only: distinct_map)
  have set_ys: "set ?ys = set ?xs" using dom by (auto simp: dom_def deref_def split: if_splits)
  have "book_quotes (abs_book b g) = quotes (map (\<lambda>x. the (oheap b x)) ?ys)"
    unfolding book_quotes_def lists
  proof (rule quotes_slots [OF d])
    show "distinct (ids (map (\<lambda>x. the (oS (oheap b) x)) ?xs))" using spec_invD(4) [OF inv] unfolding lists .
    show "quote_of (the (oS (oheap b) x)) = quote_of (the (oheap b x)) \<and>
       mo_market_order_id (the (oS (oheap b) x)) = mo_market_order_id (the (oheap b x))" if x: "x \<in> set ?xs" for x
    proof -
      obtain v where "oheap b x = Some v" using x unfolding dom [symmetric] by blast
      then show ?thesis by (simp add: oS_def)
    qed
  qed (use set_ys in auto)
  then show ?thesis unfolding live_orders_ptrs by simp
qed

subsection \<open>One request on one book\<close>

fun response_of :: "SinkMsg \<Rightarrow> MEClientResponse option" where
  "response_of (SinkResponse r) = Some r"
| "response_of (SinkMarket u) = None"

definition responses :: "SinkMsg list \<Rightarrow> MEClientResponse list" where
  "responses ms = List.map_filter response_of ms"

lemma responses_simps [simp]:
  "responses [] = []" "responses (SinkMarket u # ms) = responses ms" "responses (SinkResponse r # ms) = r # responses ms"
  "responses (ms @ ms') = responses ms @ responses ms'"
  by (simp_all add: responses_def List.map_filter_def)

text \<open>Fills come in pairs: the signed quantities cancel, and every fill belongs to a valid client of ticker \<open>t\<close>.\<close>

definition balanced :: "TickerId \<Rightarrow> MEClientResponse list \<Rightarrow> bool" where
  "balanced t rs \<longleftrightarrow> sum_list (map signed_fill rs) = 0 \<and>
     (\<forall>r \<in> set rs. rs_type r = Resp_FILLED \<longrightarrow> rs_ticker_id r = t \<and> unat (rs_client_id r) < ME_MAX_NUM_CLIENTS)"

lemma balanced_append: "balanced t rs \<Longrightarrow> balanced t rs' \<Longrightarrow> balanced t (rs @ rs')"
  by (auto simp: balanced_def)

lemma balanced_plain: "\<forall>r \<in> set rs. rs_type r \<noteq> Resp_FILLED \<Longrightarrow> balanced t rs"
  by (induct rs) (auto simp: balanced_def signed_fill_def)

lemma match_balanced:
  assumes "spec_match c i t s p m q os = (q', os', ms)" "s \<in> sides" "unat c < ME_MAX_NUM_CLIENTS"
    "\<And>v. v \<in> set os \<Longrightarrow> mo_side v = opp s \<and> unat (mo_client_id v) < ME_MAX_NUM_CLIENTS"
  shows "balanced t (responses ms)"
  using assms
proof (induct os arbitrary: q q' os' ms)
  case (Cons v os)
  have pair: "balanced t (responses (fill_msgs c i t s m f l v))" for f l
    using Cons.prems(2,3) Cons.prems(4) [of v]
    by (auto simp: fill_msgs_def balanced_def signed_fill_def mk_response_def opp_def sides_def)
  show ?case
  proof (cases "q = 0 \<or> no_cross s p (mo_price v)")
    case True with Cons.prems(1) show ?thesis by (auto simp: balanced_def)
  next
    case False
    obtain r1 os1 ms1 where m1: "spec_match c i t s p m (q - min q (mo_qty v)) os = (r1, os1, ms1)"
      by (cases "spec_match c i t s p m (q - min q (mo_qty v)) os")
    have "balanced t (responses ms1)" using Cons.hyps [OF m1] Cons.prems(2-4) by simp
    then show ?thesis using Cons.prems(1) False pair m1 balanced_append
      by (auto simp: Let_def split: if_splits)
  qed
qed (simp add: balanced_def)

lemma call_balanced:
  assumes inv: "spec_inv A" shows "balanced (sb_ticker A) (responses (call_msgs r A))"
proof (cases r)
  case (CallAdd c i t s p q)
  show ?thesis
  proof (cases "spec_reject_reason c i t s p q A = Rej_NONE")
    case False
    then show ?thesis unfolding CallAdd
      by (intro balanced_plain) (simp add: call_msgs_def spec_add_def Let_def spec_emit_def mk_response_def)
  next
    case True
    then have c: "unat c < ME_MAX_NUM_CLIENTS" by (auto simp: spec_reject_reason_def split: if_splits)
    obtain q' os' ms v where P: "s \<in> sides" "t = sb_ticker A"
      "spec_match c i t s p (sb_next_id A) q (sb_orders A (opp s)) = (q', os', ms)"
      "call_msgs r A = SinkResponse (mk_response Resp_ACCEPTED c t i (sb_next_id A) s p 0 q Rej_NONE) # ms @
         (if q' = 0 then [] else [SinkMarket (quote_of v)])"
      unfolding CallAdd by (rule spec_add_parts [OF inv True])
    have "balanced t (responses ms)"
      by (rule match_balanced [OF P(3,1) c]) (use spec_invD(2) [OF inv opp_sides(1)] in \<open>auto simp: order_good_def\<close>)
    then have "balanced t ([mk_response Resp_ACCEPTED c t i (sb_next_id A) s p 0 q Rej_NONE] @ responses ms)"
      by (intro balanced_append [OF balanced_plain]) (simp_all add: mk_response_def)
    then show ?thesis unfolding P(4) using P(2) by simp
  qed
next
  case (CallCancel c i t)
  then show ?thesis
    by (intro balanced_plain)
      (auto simp: call_msgs_def spec_cancel_def spec_emit_def mk_response_def split: option.splits)
next
  case (CallQuery c i)
  then show ?thesis
    by (intro balanced_plain)
      (auto simp: call_msgs_def spec_query_def spec_emit_def mk_response_def split: option.splits)
qed

lemma book_call_stream:
  assumes "reachable_book t b" "unat t < ME_MAX_TICKERS"
  shows "\<exists>b' ms. book_call r b = Some b' \<and> reachable_book t b' \<and> sink b' = sink b @ ms \<and> balanced t (responses ms) \<and>
     (\<forall>Q. replay quote_step (updates ms) (Q(unat t := quotes (live_orders b))) = Some (Q(unat t := quotes (live_orders b'))))"
proof -
  obtain g rs where g: "book_ok b g" "spec_inv (abs_book b g)"
    "abs_book b g = fold spec_call rs (spec_new ME_MAX_PRICE_LEVELS ME_MAX_ORDER_IDS t)"
    using reachable_ok [OF assms(1)] by blast
  have t: "sb_ticker (abs_book b g) = t" unfolding g(3) spec_run_ticker by (simp add: spec_new_def)
  obtain b' g' where b': "book_call r b = Some b'" "book_ok b' g'" "abs_book b' g' = spec_call r (abs_book b g)"
    using book_call_ok [OF g(1,2)] by blast
  have inv': "spec_inv (abs_book b' g')" using spec_inv_call [OF g(2)] b'(3) by simp
  have "sb_out (abs_book b' g') = sb_out (abs_book b g) @ call_msgs r (abs_book b g)"
    unfolding b'(3) by (rule call_out)
  then have "sink b' = sink b @ call_msgs r (abs_book b g)" by (simp add: abs_book_def)
  moreover have "reachable_book t b'" using reachable_step [OF assms(1), of "[r]" b'] b'(1) by simp
  moreover have "replay quote_step (updates (call_msgs r (abs_book b g))) (Q(unat t := quotes (live_orders b))) =
      Some (Q(unat t := quotes (live_orders b')))" for Q
    using call_replay [OF g(2), of r Q] assms(2) unfolding t live_quotes [OF g(1,2)] live_quotes [OF b'(2) inv'] b'(3) by simp
  ultimately show ?thesis using b'(1) call_balanced [OF g(2), of r] unfolding t by blast
qed

subsection \<open>Delivery\<close>

definition unstamp :: "MEClientResponse \<Rightarrow> MEClientResponse" where
  "unstamp r = r\<lparr>rs_response_id := 0, rs_position := 0\<rparr>"

lemma unstamp_sel [simp]: "signed_fill (unstamp r) = signed_fill r" "rs_client_id (unstamp r) = rs_client_id r"
  "rs_ticker_id (unstamp r) = rs_ticker_id r" "rs_type (unstamp r) = rs_type r"
  by (simp_all add: unstamp_def signed_fill_def)

text \<open>The queues and books outside one response or update.\<close>

definition queues_ok :: "MatchingEngine \<Rightarrow> bool" where
  "queues_ok e \<longleftrightarrow> queue_ok (incoming_requests e) \<and> queue_ok (outgoing_ogw_responses e) \<and> queue_ok (outgoing_md_updates e)"

lemma audit_with_frame:
  assumes "audit_with f e = Some e'" shows "\<exists>a. e' = e\<lparr>audit := a\<rparr>"
  using assms by (cases "audit e") (auto simp: audit_with_def bind_Some_conv intro: exI [of _ "audit e"])

lemma position_of_simps [simp]:
  "position_of c t [] = 0"
  "position_of c t (rs @ rs') = position_of c t rs + position_of c t rs'"
  "position_of c t (r # rs) =
     (if unat (rs_client_id r) = c \<and> unat (rs_ticker_id r) = t then signed_fill r else 0) + position_of c t rs"
  by (simp_all add: position_of_def)

lemma send_response:
  assumes "sendClientResponse sys r e = Some e'" "queues_ok e"
  shows "\<exists>x. queues_ok e' \<and> contents (outgoing_ogw_responses e') = contents (outgoing_ogw_responses e) @ [x] \<and>
     outgoing_md_updates e' = outgoing_md_updates e \<and> incoming_requests e' = incoming_requests e \<and>
     ticker_order_book e' = ticker_order_book e \<and>
     unstamp x = unstamp r \<and> rs_response_id x = next_response_id e \<and> next_response_id e' = next_response_id e + 1 \<and>
     (unat (rs_client_id x) < ME_MAX_NUM_CLIENTS \<and> unat (rs_ticker_id x) < ME_MAX_TICKERS \<longrightarrow>
        rs_position x = client_positions e' (unat (rs_client_id x)) (unat (rs_ticker_id x))) \<and>
     (\<forall>c < ME_MAX_NUM_CLIENTS. \<forall>t < ME_MAX_TICKERS.
        client_positions e' c t = client_positions e c t + position_of c t [x])"
proof -
  obtain x e1 where x: "stamp r e = (x, e1)" by fastforce
  obtain e2 where e2: "audit_with (journal_response sys x) e1 = Some e2" and e':
    "(let (ok, q) = try_push x (outgoing_ogw_responses e2) in
     if ok then Some (e2\<lparr>outgoing_ogw_responses := q, response_count := response_count e2 + 1\<rparr>) else None) = Some e'"
    using assms(1) x by (auto simp: sendClientResponse_def bind_Some_conv)
  obtain a where a: "e2 = e1\<lparr>audit := a\<rparr>" using audit_with_frame [OF e2] by blast
  obtain ok q where q: "try_push x (outgoing_ogw_responses e2) = (ok, q)" by fastforce
  have e1: "outgoing_ogw_responses e1 = outgoing_ogw_responses e" "outgoing_md_updates e1 = outgoing_md_updates e"
    "incoming_requests e1 = incoming_requests e" "ticker_order_book e1 = ticker_order_book e"
    "next_response_id e1 = next_response_id e + 1" "unstamp x = unstamp r" "rs_response_id x = next_response_id e"
    using x by (auto simp: stamp_def Let_def unstamp_def split: if_splits)
  have pos: "client_positions e1 c t = client_positions e c t + position_of c t [x]"
    if "c < ME_MAX_NUM_CLIENTS" "t < ME_MAX_TICKERS" for c t
    using x that by (auto simp: stamp_def Let_def signed_fill_def split: if_splits)
  have rep: "unat (rs_client_id x) < ME_MAX_NUM_CLIENTS \<and> unat (rs_ticker_id x) < ME_MAX_TICKERS \<longrightarrow>
      rs_position x = client_positions e1 (unat (rs_client_id x)) (unat (rs_ticker_id x))"
    using x by (auto simp: stamp_def Let_def split: if_splits)
  have ok: "ok" and e'q: "e' = e2\<lparr>outgoing_ogw_responses := q, response_count := response_count e2 + 1\<rparr>"
    using e' q by (auto split: if_splits)
  have "queue_ok q \<and> contents q = contents (outgoing_ogw_responses e) @ [x]"
    using push_contents [OF _ q] assms(2) ok e1(1) by (simp add: queues_ok_def a)
  then show ?thesis using e1 pos rep assms(2) unfolding e'q a queues_ok_def by (intro exI [of _ x]) auto
qed

text \<open>The responses sent so far, given by the list of all of them: consecutive ids from 1, and running positions.\<close>

definition resp_inv :: "MatchingEngine \<Rightarrow> MEClientResponse list \<Rightarrow> bool" where
  "resp_inv e all \<longleftrightarrow> next_response_id e = of_nat (Suc (length all)) \<and>
     map rs_response_id all = map of_nat [1..<Suc (length all)] \<and>
     (\<forall>c < ME_MAX_NUM_CLIENTS. \<forall>t < ME_MAX_TICKERS. client_positions e c t = position_of c t all) \<and>
     (\<forall>k < length all. let r = all ! k; c = unat (rs_client_id r); t = unat (rs_ticker_id r) in
        c < ME_MAX_NUM_CLIENTS \<and> t < ME_MAX_TICKERS \<longrightarrow> rs_position r = position_of c t (take (Suc k) all))"

lemma resp_inv_snoc:
  assumes "resp_inv e all" "rs_response_id x = next_response_id e" "next_response_id e' = next_response_id e + 1"
    "unat (rs_client_id x) < ME_MAX_NUM_CLIENTS \<and> unat (rs_ticker_id x) < ME_MAX_TICKERS \<longrightarrow>
        rs_position x = client_positions e' (unat (rs_client_id x)) (unat (rs_ticker_id x))"
    "\<forall>c < ME_MAX_NUM_CLIENTS. \<forall>t < ME_MAX_TICKERS. client_positions e' c t = client_positions e c t + position_of c t [x]"
  shows "resp_inv e' (all @ [x])"
proof -
  have "let r = (all @ [x]) ! k; c = unat (rs_client_id r); t = unat (rs_ticker_id r) in
        c < ME_MAX_NUM_CLIENTS \<and> t < ME_MAX_TICKERS \<longrightarrow> rs_position r = position_of c t (take (Suc k) (all @ [x]))"
    if "k < length (all @ [x])" for k
  proof (cases "k < length all")
    case True then show ?thesis using assms(1) by (simp add: resp_inv_def nth_append Let_def)
  next
    case False
    then have "k = length all" using that by simp
    then show ?thesis using assms(1,4,5) by (simp add: resp_inv_def Let_def)
  qed
  then show ?thesis using assms by (auto simp: resp_inv_def)
qed

lemma deliver_ok:
  assumes "deliver sys ms e = Some e'" "queues_ok e" "resp_inv e (rs @ contents (outgoing_ogw_responses e))"
  shows "\<exists>ns. queues_ok e' \<and> contents (outgoing_ogw_responses e') = contents (outgoing_ogw_responses e) @ ns \<and>
     contents (outgoing_md_updates e') = contents (outgoing_md_updates e) @ updates ms \<and>
     incoming_requests e' = incoming_requests e \<and> ticker_order_book e' = ticker_order_book e \<and>
     map unstamp ns = map unstamp (responses ms) \<and> resp_inv e' (rs @ contents (outgoing_ogw_responses e'))"
  using assms
proof (induct sys ms e rule: deliver.induct)
  case (2 sys r ms e)
  from 2(2) obtain e1 where e1: "sendClientResponse sys r e = Some e1" "deliver sys ms e1 = Some e'"
    by (auto simp: bind_Some_conv)
  obtain x where x: "queues_ok e1" "contents (outgoing_ogw_responses e1) = contents (outgoing_ogw_responses e) @ [x]"
     "outgoing_md_updates e1 = outgoing_md_updates e" "incoming_requests e1 = incoming_requests e"
     "ticker_order_book e1 = ticker_order_book e" "unstamp x = unstamp r"
     and y: "rs_response_id x = next_response_id e" "next_response_id e1 = next_response_id e + 1"
     "unat (rs_client_id x) < ME_MAX_NUM_CLIENTS \<and> unat (rs_ticker_id x) < ME_MAX_TICKERS \<longrightarrow>
        rs_position x = client_positions e1 (unat (rs_client_id x)) (unat (rs_ticker_id x))"
     "\<forall>c < ME_MAX_NUM_CLIENTS. \<forall>t < ME_MAX_TICKERS. client_positions e1 c t = client_positions e c t + position_of c t [x]"
    using send_response [OF e1(1) 2(3)] by blast
  have "resp_inv e1 (rs @ contents (outgoing_ogw_responses e1))"
    using resp_inv_snoc [OF 2(4) y] x(2) by simp
  from 2(1) [OF e1 x(1) this] obtain ns where
    "queues_ok e' \<and> contents (outgoing_ogw_responses e') = contents (outgoing_ogw_responses e1) @ ns \<and>
     contents (outgoing_md_updates e') = contents (outgoing_md_updates e1) @ updates ms \<and>
     incoming_requests e' = incoming_requests e1 \<and> ticker_order_book e' = ticker_order_book e1 \<and>
     map unstamp ns = map unstamp (responses ms) \<and> resp_inv e' (rs @ contents (outgoing_ogw_responses e'))" by blast
  with x show ?case by (intro exI [of _ "x # ns"]) auto
next
  case (3 sys u ms e)
  from 3(2) obtain e1 where e1: "sendMarketUpdate u e = Some e1" "deliver sys ms e1 = Some e'"
    by (auto simp: bind_Some_conv)
  obtain ok q where q: "try_push u (outgoing_md_updates e) = (ok, q)" by fastforce
  then have ok: "ok" "e1 = e\<lparr>outgoing_md_updates := q\<rparr>" using e1(1) by (auto simp: sendMarketUpdate_def split: if_splits)
  have "queue_ok q" "contents q = contents (outgoing_md_updates e) @ [u]"
    using push_contents [OF _ q] 3(3) ok(1) by (simp_all add: queues_ok_def)
  moreover have "queues_ok e1" using 3(3) calculation(1) ok(2) by (simp add: queues_ok_def)
  moreover have "resp_inv e1 (rs @ contents (outgoing_ogw_responses e1))" using 3(4) ok(2) by (simp add: resp_inv_def)
  ultimately show ?case using 3(1) [OF e1] ok(2) by auto
qed auto

subsection \<open>The invariant\<close>

definition engine_inv :: "MatchingEngine \<times> MEClientResponse list \<times> MEMarketUpdate list \<Rightarrow> bool" where
  "engine_inv s = (case s of (e, rs, us) \<Rightarrow> queues_ok e \<and> length (ticker_order_book e) = ME_MAX_TICKERS \<and>
     (\<forall>t < ME_MAX_TICKERS. reachable_book (of_nat t) (ticker_order_book e ! t)) \<and>
     replay quote_step (us @ contents (outgoing_md_updates e)) no_quotes = Some (engine_quotes e) \<and>
     resp_inv e (rs @ contents (outgoing_ogw_responses e)) \<and>
     (\<forall>t < ME_MAX_TICKERS. (\<Sum>c < ME_MAX_NUM_CLIENTS. position_of c t (rs @ contents (outgoing_ogw_responses e))) = 0))"

lemma position_unstamp: "map unstamp xs = map unstamp ys \<Longrightarrow> position_of c t xs = position_of c t ys"
proof (induct xs arbitrary: ys)
  case (Cons x xs)
  then obtain y ys' where "ys = y # ys'" "unstamp x = unstamp y" by (cases ys) auto
  moreover from this have "signed_fill x = signed_fill y" "rs_client_id x = rs_client_id y" "rs_ticker_id x = rs_ticker_id y"
    by (metis unstamp_sel)+
  ultimately show ?case using Cons by auto
qed simp

lemma balanced_positions:
  assumes "balanced t0 rs" shows "(\<Sum>c < ME_MAX_NUM_CLIENTS. position_of c t rs) = 0"
proof -
  have "(\<Sum>c < ME_MAX_NUM_CLIENTS. position_of c t rs) = (if t = unat t0 then sum_list (map signed_fill rs) else 0)"
    if "\<forall>r \<in> set rs. rs_type r = Resp_FILLED \<longrightarrow> rs_ticker_id r = t0 \<and> unat (rs_client_id r) < ME_MAX_NUM_CLIENTS"
    using that
  proof (induct rs)
    case (Cons r rs)
    have "(\<Sum>c < ME_MAX_NUM_CLIENTS. if unat (rs_client_id r) = c \<and> unat (rs_ticker_id r) = t then signed_fill r else 0) =
       (if t = unat t0 then signed_fill r else 0)"
    proof (cases "rs_type r = Resp_FILLED")
      case True
      then have "rs_ticker_id r = t0" "unat (rs_client_id r) < ME_MAX_NUM_CLIENTS" using Cons.prems by auto
      then show ?thesis by (auto simp: if_if_eq_conj [symmetric] sum.delta' cong: if_cong)
    qed (simp add: signed_fill_def cong: if_cong)
    then show ?case using Cons by (simp add: sum.distrib)
  qed simp
  then show ?thesis using assms by (auto simp: balanced_def)
qed

lemma deliver_inv:
  assumes inv: "engine_inv (e, rs, us)" and t: "t < ME_MAX_TICKERS" and b: "reachable_book (of_nat t) b"
    and r: "\<And>Q. replay quote_step (updates ms) (Q(t := quotes (live_orders (ticker_order_book e ! t)))) =
       Some (Q(t := quotes (live_orders b)))"
    and bal: "balanced t0 (responses ms)"
    and d: "deliver sys ms (e\<lparr>ticker_order_book := (ticker_order_book e)[t := b]\<rparr>) = Some e'"
  shows "engine_inv (e', rs, us) \<and> incoming_requests e' = incoming_requests e"
proof -
  let ?e = "e\<lparr>ticker_order_book := (ticker_order_book e)[t := b]\<rparr>"
  have I: "queues_ok e" "length (ticker_order_book e) = ME_MAX_TICKERS"
    "\<forall>t < ME_MAX_TICKERS. reachable_book (of_nat t) (ticker_order_book e ! t)"
    "replay quote_step (us @ contents (outgoing_md_updates e)) no_quotes = Some (engine_quotes e)"
    "resp_inv e (rs @ contents (outgoing_ogw_responses e))"
    "\<forall>t < ME_MAX_TICKERS. (\<Sum>c < ME_MAX_NUM_CLIENTS. position_of c t (rs @ contents (outgoing_ogw_responses e))) = 0"
    using inv by (simp_all add: engine_inv_def)
  have "queues_ok ?e" "resp_inv ?e (rs @ contents (outgoing_ogw_responses ?e))"
    using I(1,5) by (simp_all add: queues_ok_def resp_inv_def)
  from deliver_ok [OF d this] obtain ns where D: "queues_ok e'"
    "contents (outgoing_ogw_responses e') = contents (outgoing_ogw_responses e) @ ns"
    "contents (outgoing_md_updates e') = contents (outgoing_md_updates e) @ updates ms"
    "incoming_requests e' = incoming_requests e" "ticker_order_book e' = (ticker_order_book e)[t := b]"
    "map unstamp ns = map unstamp (responses ms)" "resp_inv e' (rs @ contents (outgoing_ogw_responses e'))"
    by auto
  have q: "engine_quotes e' = (engine_quotes e)(t := quotes (live_orders b))"
    using t I(2) by (auto simp: engine_quotes_def fun_eq_iff D(5) nth_list_update)
  have "engine_quotes e = (engine_quotes e)(t := quotes (live_orders (ticker_order_book e ! t)))"
    using t by (auto simp: engine_quotes_def)
  with r [of "engine_quotes e"] have "replay quote_step (updates ms) (engine_quotes e) = Some (engine_quotes e')"
    unfolding q by simp
  then have "replay quote_step (us @ contents (outgoing_md_updates e')) no_quotes = Some (engine_quotes e')"
    unfolding D(3) append_assoc [symmetric] by (subst replay_appendI [OF I(4)])
  moreover have "(\<Sum>c < ME_MAX_NUM_CLIENTS. position_of c t (rs @ contents (outgoing_ogw_responses e'))) = 0"
    if "t < ME_MAX_TICKERS" for t
  proof -
    have "position_of c t (rs @ contents (outgoing_ogw_responses e')) =
        position_of c t (rs @ contents (outgoing_ogw_responses e)) + position_of c t (responses ms)" for c
      using position_unstamp [OF D(6)] unfolding D(2) by simp
    then show ?thesis using I(6) that balanced_positions [OF bal, of t] by (simp only: sum.distrib simp_thms add_0_left)
  qed
  moreover have "reachable_book (of_nat u) (ticker_order_book e' ! u)" if "u < ME_MAX_TICKERS" for u
    using I(2,3) b that t unfolding D(5) by (cases "u = t") auto
  ultimately show ?thesis using D(1,4,5,7) I(2) by (simp add: engine_inv_def)
qed

lemma engine_inv_audit [simp]: "engine_inv (e\<lparr>audit := a\<rparr>, rs, us) = engine_inv (e, rs, us)"
proof -
  have "engine_quotes (e\<lparr>audit := a\<rparr>) = engine_quotes e" by (simp add: engine_quotes_def fun_eq_iff)
  then show ?thesis by (simp add: engine_inv_def queues_ok_def resp_inv_def del: position_of_simps)
qed

lemma process_inv:
  assumes inv: "engine_inv (e, rs, us)" and p: "processClientRequest sys r e = Some e'"
  shows "engine_inv (e', rs, us) \<and> incoming_requests e' = incoming_requests e"
proof -
  obtain e1 where e1: "audit_with (journal_request sys ''APPLY'' r) e = Some e1" and p1:
    "(if validate r \<noteq> Rej_NONE then
       sendClientResponse sys (mk_response Resp_REJECTED (rq_client_id r) (rq_ticker_id r) (rq_order_id r)
         OrderId_INVALID (rq_side r) (rq_price r) 0 0 (validate r)) e1
     else case request_call r of None \<Rightarrow> Some e1
     | Some call \<Rightarrow> call_book sys (unat (rq_ticker_id r)) call e1) = Some e'"
    using p by (auto simp: processClientRequest_def bind_Some_conv Let_def)
  obtain a where a: "e1 = e\<lparr>audit := a\<rparr>" using audit_with_frame [OF e1] by blast
  then have inv1: "engine_inv (e1, rs, us)" and rq: "incoming_requests e1 = incoming_requests e" using inv by simp_all
  have I: "length (ticker_order_book e1) = ME_MAX_TICKERS" "0 < ME_MAX_TICKERS"
    "\<And>t. t < ME_MAX_TICKERS \<Longrightarrow> reachable_book (of_nat t) (ticker_order_book e1 ! t)"
    using inv1 by (simp_all add: engine_inv_def limits)
  show ?thesis
  proof (cases "validate r = Rej_NONE")
    case False
    let ?m = "mk_response Resp_REJECTED (rq_client_id r) (rq_ticker_id r) (rq_order_id r)
         OrderId_INVALID (rq_side r) (rq_price r) 0 0 (validate r)"
    have "deliver sys [SinkResponse ?m] (e1\<lparr>ticker_order_book := (ticker_order_book e1)[0 := ticker_order_book e1 ! 0]\<rparr>) = Some e'"
      using p1 False by simp
    moreover have "balanced 0 (responses [SinkResponse ?m])" by (rule balanced_plain) (simp add: mk_response_def)
    ultimately have "engine_inv (e', rs, us) \<and> incoming_requests e' = incoming_requests e1"
      by (intro deliver_inv [OF inv1 I(2) I(3) [OF I(2)], of "[SinkResponse ?m]" 0]) simp_all
    then show ?thesis using rq by simp
  next
    case True
    then have t: "unat (rq_ticker_id r) < ME_MAX_TICKERS" by (auto simp: validate_def split: if_splits)
    show ?thesis
    proof (cases "request_call r")
      case None then show ?thesis using p1 True inv1 rq by simp
    next
      case (Some call)
      let ?b = "ticker_order_book e1 ! unat (rq_ticker_id r)"
      have reach: "reachable_book (rq_ticker_id r) ?b" using I(3) [OF t] by simp
      obtain b ms where b: "book_call call ?b = Some b" "reachable_book (rq_ticker_id r) b" "sink b = sink ?b @ ms"
        "balanced (rq_ticker_id r) (responses ms)"
        "\<forall>Q. replay quote_step (updates ms) (Q(unat (rq_ticker_id r) := quotes (live_orders ?b))) =
           Some (Q(unat (rq_ticker_id r) := quotes (live_orders b)))"
        using book_call_stream [OF reach t] by blast
      have "deliver sys ms (e1\<lparr>ticker_order_book := (ticker_order_book e1)[unat (rq_ticker_id r) := b]\<rparr>) = Some e'"
        using p1 True Some b(1,3) by (simp add: call_book_def)
      then show ?thesis using deliver_inv [OF inv1 t _ _ b(4)] b(2,5) rq by simp
    qed
  qed
qed

lemma engine_inv_frame:
  assumes "engine_inv (e, rs, us)" "queues_ok e'" "ticker_order_book e' = ticker_order_book e"
    "next_response_id e' = next_response_id e" "client_positions e' = client_positions e"
    "rs' @ contents (outgoing_ogw_responses e') = rs @ contents (outgoing_ogw_responses e)"
    "us' @ contents (outgoing_md_updates e') = us @ contents (outgoing_md_updates e)"
  shows "engine_inv (e', rs', us')"
proof -
  have "engine_quotes e' = engine_quotes e" using assms(3) by (simp add: engine_quotes_def fun_eq_iff)
  then show ?thesis using assms(1-5) unfolding engine_inv_def resp_inv_def prod.case assms(6,7) by (simp del: position_of_simps)
qed

lemma event_inv:
  assumes inv: "engine_inv s" and ev: "engine_event sys ev s = Some s'" shows "engine_inv s'"
proof -
  obtain e rs us where s: "s = (e, rs, us)" by (metis prod_cases3)
  note I = inv [unfolded s]
  have Q: "queue_ok (incoming_requests e)" "queue_ok (outgoing_ogw_responses e)" "queue_ok (outgoing_md_updates e)"
    using I by (simp_all add: engine_inv_def queues_ok_def)
  show ?thesis
  proof (cases ev)
    case (Arrive r)
    have "queue_ok (snd (try_push r (incoming_requests e)))" using push_contents [OF Q(1)] by (metis prod.collapse)
    then show ?thesis using ev Q unfolding s Arrive by (auto simp: queues_ok_def intro!: engine_inv_frame [OF I])
  next
    case Work
    show ?thesis
    proof (cases "peek (incoming_requests e)")
      case None then show ?thesis using inv ev unfolding s Work by (simp add: engine_step_def)
    next
      case (Some r)
      then obtain e1 q where p: "processClientRequest sys r e = Some e1" "pop (incoming_requests e1) = Some q"
        "s' = (e1\<lparr>incoming_requests := q\<rparr>, rs, us)"
        using ev unfolding s Work by (auto simp: engine_step_def bind_Some_conv)
      have e1: "engine_inv (e1, rs, us)" "incoming_requests e1 = incoming_requests e"
        using process_inv [OF I p(1)] by simp_all
      have "contents (incoming_requests e) \<noteq> []" using Some peek_pop(1) [OF Q(1)] by auto
      then have "queue_ok q" using peek_pop(2) [OF Q(1)] p(2) e1(2) by auto
      moreover have "queues_ok e1" using e1(1) by (simp add: engine_inv_def)
      ultimately show ?thesis unfolding p(3) by (intro engine_inv_frame [OF e1(1)]) (auto simp: queues_ok_def)
    qed
  next
    case TakeResponse
    obtain r q where q: "try_pop (outgoing_ogw_responses e) = (r, q)" by fastforce
    have "queue_ok q" "(rs @ (case r of None \<Rightarrow> [] | Some x \<Rightarrow> [x])) @ contents q = rs @ contents (outgoing_ogw_responses e)"
      using pop_contents [OF Q(2) q] by (auto split: option.splits)
    then show ?thesis using ev q Q unfolding s TakeResponse by (auto simp: queues_ok_def intro!: engine_inv_frame [OF I])
  next
    case TakeUpdate
    obtain u q where q: "try_pop (outgoing_md_updates e) = (u, q)" by fastforce
    have "queue_ok q" "(us @ (case u of None \<Rightarrow> [] | Some x \<Rightarrow> [x])) @ contents q = us @ contents (outgoing_md_updates e)"
      using pop_contents [OF Q(3) q] by (auto split: option.splits)
    then show ?thesis using ev q Q unfolding s TakeUpdate by (auto simp: queues_ok_def intro!: engine_inv_frame [OF I])
  qed
qed

lemma run_inv: "replay (engine_event sys) evs s = Some s' \<Longrightarrow> engine_inv s \<Longrightarrow> engine_inv s'"
  by (induct evs arbitrary: s) (auto simp: bind_Some_conv dest: event_inv)

text \<open>Three new queues and eight new books.\<close>

definition engine_start :: "u64 \<Rightarrow> u64 \<Rightarrow> u64 \<Rightarrow> Journal option \<Rightarrow> MEClientRequest \<Rightarrow> MEClientResponse \<Rightarrow> MEMarketUpdate \<Rightarrow>
    MatchingEngine option" where
  "engine_start n1 n2 n3 jn z1 z2 z3 = do {
     q1 \<leftarrow> LFQueue_new z1 n1; q2 \<leftarrow> LFQueue_new z2 n2; q3 \<leftarrow> LFQueue_new z3 n3;
     MatchingEngine_new q1 q2 q3 jn }"

lemma those_map_Some: "(\<And>x. x \<in> set xs \<Longrightarrow> f x = Some (g x)) \<Longrightarrow> those (map f xs) = Some (map g xs)"
  by (induct xs) auto

definition new_book :: "TickerId \<Rightarrow> MEOrderBook" where
  "new_book t = the (MEOrderBook_new t)"

lemma new_book: "MEOrderBook_new t = Some (new_book t)" "reachable_book t (new_book t)"
  using reachable_new [of t] by (auto simp: new_book_def)

lemma new_book_empty: "live_orders (new_book t) = []"
proof -
  have "book_ok (new_book t) (\<lambda>_. [])"
    using make_ok [OF limits_ok, of t] new_book(1) [of t] by (auto simp: MEOrderBook_new_def)
  then have "dom (oheap (new_book t)) = {}" using ladder_okD(7) [OF book_okD(1)] by fastforce
  then show ?thesis by (simp add: live_orders_ptrs)
qed

lemma engine_start_inv:
  assumes "engine_start n1 n2 n3 jn z1 z2 z3 = Some e"
  shows "engine_inv (e, [], [])" "audit e = jn" "contents (incoming_requests e) = []" "contents (outgoing_ogw_responses e) = []"
    "contents (outgoing_md_updates e) = []" "length (store (incoming_requests e)) = unat n1"
    "length (store (outgoing_ogw_responses e)) = unat n2" "length (store (outgoing_md_updates e)) = unat n3"
    "\<And>t. t < ME_MAX_TICKERS \<Longrightarrow> ticker_order_book e ! t = new_book (of_nat t)"
proof -
  obtain q1 q2 q3 where q: "LFQueue_new z1 n1 = Some q1" "LFQueue_new z2 n2 = Some q2" "LFQueue_new z3 n3 = Some q3"
    "MatchingEngine_new q1 q2 q3 jn = Some e" using assms by (auto simp: engine_start_def bind_Some_conv)
  have "those (map (\<lambda>i. MEOrderBook_new (of_nat i)) [0..<ME_MAX_TICKERS]) = Some (map (\<lambda>i. new_book (of_nat i)) [0..<ME_MAX_TICKERS])"
    by (rule those_map_Some) (rule new_book)
  then have e: "e = \<lparr>ticker_order_book = map (\<lambda>i. new_book (of_nat i)) [0..<ME_MAX_TICKERS], incoming_requests = q1,
      outgoing_ogw_responses = q2, outgoing_md_updates = q3, next_response_id = 1, response_count = 0,
      client_positions = (\<lambda>_ _. 0), audit = jn\<rparr>"
    using q(4) by (simp add: MatchingEngine_new_def)
  note N = queue_new_ok [OF q(1)] queue_new_ok [OF q(2)] queue_new_ok [OF q(3)]
  have "engine_quotes e = no_quotes" using new_book_empty by (auto simp: engine_quotes_def no_quotes_def e quotes_def)
  then show "engine_inv (e, [], [])"
    using N new_book(2) by (simp add: engine_inv_def queues_ok_def resp_inv_def e)
  show "audit e = jn" "contents (incoming_requests e) = []" "contents (outgoing_ogw_responses e) = []"
    "contents (outgoing_md_updates e) = []" "length (store (incoming_requests e)) = unat n1"
    "length (store (outgoing_ogw_responses e)) = unat n2" "length (store (outgoing_md_updates e)) = unat n3"
    "\<And>t. t < ME_MAX_TICKERS \<Longrightarrow> ticker_order_book e ! t = new_book (of_nat t)"
    using N by (simp_all add: e)
qed

subsection \<open>Progress\<close>

lemma push_room:
  assumes "queue_ok q" "length (contents q) < length (store q)"
  shows "\<exists>q'. try_push v q = (True, q') \<and> queue_ok q' \<and> contents q' = contents q @ [v] \<and> length (store q') = length (store q)"
  using assms push_contents [OF assms(1)] by (cases "try_push v q") fastforce

definition room :: "'a LFQueue \<Rightarrow> nat" where
  "room q = length (store q) - length (contents q)"

text \<open>There is no journal, or the kernel goes on writing it.\<close>

definition audit_live :: "(nat \<Rightarrow> WriteResult) \<Rightarrow> MatchingEngine \<Rightarrow> bool" where
  "audit_live sys e \<longleftrightarrow> audit e = None \<or> kernel_writes sys"

lemma audit_total:
  assumes "audit_live sys e"
  shows "\<exists>a. audit_with (journal_response sys x) e = Some (e\<lparr>audit := a\<rparr>) \<and> audit_live sys (e\<lparr>audit := a\<rparr>)"
    "\<exists>a. audit_with (journal_request sys phase r) e = Some (e\<lparr>audit := a\<rparr>) \<and> audit_live sys (e\<lparr>audit := a\<rparr>)"
proof -
  have "\<exists>a. audit_with (journal_append sys line) e = Some (e\<lparr>audit := a\<rparr>) \<and> audit_live sys (e\<lparr>audit := a\<rparr>)" for line
  proof (cases "audit e")
    case None
    then have "e\<lparr>audit := None\<rparr> = e" by simp
    then show ?thesis using None by (intro exI [of _ None]) (simp add: audit_with_def audit_live_def)
  next
    case (Some j)
    then have k: "kernel_writes sys" using assms by (simp add: audit_live_def)
    then obtain j' where "journal_append sys line j = Some j'" using journal_append_returns by blast
    then show ?thesis using Some k by (intro exI [of _ "Some j'"]) (simp add: audit_with_def audit_live_def)
  qed
  then show "\<exists>a. audit_with (journal_response sys x) e = Some (e\<lparr>audit := a\<rparr>) \<and> audit_live sys (e\<lparr>audit := a\<rparr>)"
    "\<exists>a. audit_with (journal_request sys phase r) e = Some (e\<lparr>audit := a\<rparr>) \<and> audit_live sys (e\<lparr>audit := a\<rparr>)"
    by (simp_all add: journal_response_def [abs_def] journal_request_def [abs_def])
qed

lemma deliver_total:
  assumes "queues_ok e" "audit_live sys e" "length (responses ms) \<le> room (outgoing_ogw_responses e)"
    "length (updates ms) \<le> room (outgoing_md_updates e)"
  shows "\<exists>e'. deliver sys ms e = Some e'"
  using assms
proof (induct ms arbitrary: e)
  case (Cons m ms)
  show ?case
  proof (cases m)
    case (SinkResponse r)
    obtain x e1 where x: "stamp r e = (x, e1)" by fastforce
    have e1: "outgoing_ogw_responses e1 = outgoing_ogw_responses e" "outgoing_md_updates e1 = outgoing_md_updates e"
      "incoming_requests e1 = incoming_requests e" "audit_live sys e1"
      using x Cons.prems(2) by (auto simp: stamp_def Let_def audit_live_def split: if_splits)
    obtain a where a: "audit_with (journal_response sys x) e1 = Some (e1\<lparr>audit := a\<rparr>)" "audit_live sys (e1\<lparr>audit := a\<rparr>)"
      using audit_total(1) [OF e1(4)] by blast
    obtain q where q: "try_push x (outgoing_ogw_responses e) = (True, q)" "queue_ok q"
      "contents q = contents (outgoing_ogw_responses e) @ [x]" "length (store q) = length (store (outgoing_ogw_responses e))"
    proof -
      have "length (contents (outgoing_ogw_responses e)) < length (store (outgoing_ogw_responses e))"
        using Cons.prems(3) SinkResponse by (simp add: room_def)
      then show ?thesis using push_room [of "outgoing_ogw_responses e" x] Cons.prems(1) that by (auto simp: queues_ok_def)
    qed
    let ?e = "e1\<lparr>audit := a, outgoing_ogw_responses := q, response_count := response_count e1 + 1\<rparr>"
    have "sendClientResponse sys r e = Some ?e" using x q(1) e1 a(1) by (simp add: sendClientResponse_def)
    moreover have "\<exists>e'. deliver sys ms ?e = Some e'"
      by (rule Cons.hyps) (use Cons.prems q e1 a(2) SinkResponse in \<open>auto simp: queues_ok_def room_def audit_live_def\<close>)
    ultimately show ?thesis using SinkResponse by simp
  next
    case (SinkMarket u)
    obtain q where q: "try_push u (outgoing_md_updates e) = (True, q)" "queue_ok q"
      "contents q = contents (outgoing_md_updates e) @ [u]" "length (store q) = length (store (outgoing_md_updates e))"
    proof -
      have "length (contents (outgoing_md_updates e)) < length (store (outgoing_md_updates e))"
        using Cons.prems(4) SinkMarket by (simp add: room_def)
      then show ?thesis using push_room [of "outgoing_md_updates e" u] Cons.prems(1) that by (auto simp: queues_ok_def)
    qed
    have "\<exists>e'. deliver sys ms (e\<lparr>outgoing_md_updates := q\<rparr>) = Some e'"
      by (rule Cons.hyps) (use Cons.prems q SinkMarket in \<open>auto simp: queues_ok_def room_def audit_live_def\<close>)
    then show ?thesis using SinkMarket q(1) by (simp add: sendMarketUpdate_def)
  qed
qed simp

lemma match_count:
  "spec_match c i t s p m q os = (q', os', ms) \<Longrightarrow> length (responses ms) \<le> 2 * length os \<and> length (updates ms) \<le> 2 * length os"
proof (induct os arbitrary: q q' os' ms)
  case (Cons v os)
  obtain r1 os1 ms1 where m1: "spec_match c i t s p m (q - min q (mo_qty v)) os = (r1, os1, ms1)"
    by (cases "spec_match c i t s p m (q - min q (mo_qty v)) os")
  show ?case using Cons.prems Cons.hyps [OF m1] m1 by (auto simp: Let_def fill_msgs_def split: if_splits)
qed simp

lemma call_count:
  assumes "spec_inv A" defines "n \<equiv> length (sb_orders A BUY) + length (sb_orders A SELL)"
  shows "length (responses (call_msgs r A)) \<le> 2 * n + 1 \<and> length (updates (call_msgs r A)) \<le> 2 * n + 1"
proof (cases r)
  case (CallAdd c i t s p q)
  show ?thesis
  proof (cases "spec_reject_reason c i t s p q A = Rej_NONE")
    case False
    then show ?thesis unfolding CallAdd by (simp add: call_msgs_def spec_add_def Let_def spec_emit_def)
  next
    case True
    obtain q' os' ms v where P: "s \<in> sides" "spec_match c i t s p (sb_next_id A) q (sb_orders A (opp s)) = (q', os', ms)"
      "call_msgs r A = SinkResponse (mk_response Resp_ACCEPTED c t i (sb_next_id A) s p 0 q Rej_NONE) # ms @
         (if q' = 0 then [] else [SinkMarket (quote_of v)])"
      unfolding CallAdd by (rule spec_add_parts [OF assms(1) True])
    have "length (sb_orders A (opp s)) \<le> n" using P(1) by (auto simp: n_def sides_def opp_def)
    then show ?thesis unfolding P(3) using match_count [OF P(2)] by auto
  qed
qed (auto simp: call_msgs_def spec_cancel_def spec_query_def spec_emit_def split: option.splits)

lemma live_count:
  assumes ok: "book_ok b g" and inv: "spec_inv (abs_book b g)"
  shows "length (live_orders b) = length (sb_orders (abs_book b g) BUY) + length (sb_orders (abs_book b g) SELL)"
proof -
  note L = ladder_okD [OF book_okD(1) [OF ok]]
  let ?xs = "ptrs (g BUY) @ ptrs (g SELL)" and ?ys = "filter (\<lambda>x. oheap b x \<noteq> None) [0..<length (blocks (order_pool b))]"
  have lists: "sb_orders (abs_book b g) BUY @ sb_orders (abs_book b g) SELL = map (\<lambda>x. the (oS (oheap b) x)) ?xs"
    by (simp add: abs_book_def sides_def book_list_def)
  have "dom (oheap b) = set ?xs" using L(7) by (auto simp: sides_def)
  moreover have "set ?ys = dom (oheap b)" by (auto simp: dom_def deref_def split: if_splits)
  moreover have "distinct ?xs" using spec_invD(4) [OF inv] unfolding lists map_map by (simp only: distinct_map)
  ultimately have "length ?ys = length ?xs" by (metis distinct_card distinct_filter distinct_upt)
  then show ?thesis unfolding live_orders_ptrs using arg_cong [OF lists, of length] by simp
qed

lemma call_total:
  assumes inv: "engine_inv (e, rs, us)" "audit_live sys e" and t: "t < ME_MAX_TICKERS"
    and roomy: "2 * length (live_orders (ticker_order_book e ! t)) + 1 \<le> room (outgoing_ogw_responses e)"
      "2 * length (live_orders (ticker_order_book e ! t)) + 1 \<le> room (outgoing_md_updates e)"
  shows "\<exists>e'. call_book sys t r e = Some e'"
proof -
  let ?b = "ticker_order_book e ! t"
  have "reachable_book (of_nat t) ?b" "queues_ok e" using inv(1) t by (simp_all add: engine_inv_def)
  then obtain g where g: "book_ok ?b g" "spec_inv (abs_book ?b g)" using reachable_ok by blast
  obtain b' g' where b': "book_call r ?b = Some b'" "abs_book b' g' = spec_call r (abs_book ?b g)"
    using book_call_ok [OF g] by blast
  have "sb_out (abs_book b' g') = sb_out (abs_book ?b g) @ call_msgs r (abs_book ?b g)"
    unfolding b'(2) by (rule call_out)
  then have ms: "sink b' = sink ?b @ call_msgs r (abs_book ?b g)" by (simp add: abs_book_def)
  have "\<exists>e'. deliver sys (call_msgs r (abs_book ?b g)) (e\<lparr>ticker_order_book := (ticker_order_book e)[t := b']\<rparr>) = Some e'"
    using call_count [OF g(2), of r] live_count [OF g] roomy inv(2) \<open>queues_ok e\<close>
    by (intro deliver_total) (auto simp: queues_ok_def audit_live_def)
  then show ?thesis using b'(1) ms by (simp add: call_book_def)
qed

lemma process_total:
  assumes inv: "engine_inv (e, rs, us)" "audit_live sys e"
    and roomy: "\<And>t. t < ME_MAX_TICKERS \<Longrightarrow> 2 * length (live_orders (ticker_order_book e ! t)) + 1 \<le> room (outgoing_ogw_responses e) \<and>
      2 * length (live_orders (ticker_order_book e ! t)) + 1 \<le> room (outgoing_md_updates e)"
  shows "\<exists>e'. processClientRequest sys r e = Some e'"
proof -
  obtain a where a: "audit_with (journal_request sys ''APPLY'' r) e = Some (e\<lparr>audit := a\<rparr>)" "audit_live sys (e\<lparr>audit := a\<rparr>)"
    using audit_total(2) [OF inv(2)] by blast
  let ?e = "e\<lparr>audit := a\<rparr>"
  have "engine_quotes ?e = engine_quotes e" by (simp add: engine_quotes_def fun_eq_iff)
  then have inv': "engine_inv (?e, rs, us)" using inv(1) by (simp add: engine_inv_def queues_ok_def resp_inv_def)
  show ?thesis
  proof (cases "validate r = Rej_NONE")
    case False
    have "queues_ok ?e" "1 \<le> room (outgoing_ogw_responses ?e)"
      using inv' roomy [of 0] by (simp_all add: engine_inv_def limits)
    then have "\<exists>e'. deliver sys [SinkResponse m] ?e = Some e'" for m by (intro deliver_total) (use a(2) in auto)
    then show ?thesis using False a(1) by (auto simp: processClientRequest_def bind_Some_conv)
  next
    case True
    then have t: "unat (rq_ticker_id r) < ME_MAX_TICKERS" by (auto simp: validate_def split: if_splits)
    show ?thesis using True a(1) call_total [OF inv' a(2) t] roomy [OF t]
      by (auto simp: processClientRequest_def split: option.splits)
  qed
qed

lemma step_total:
  assumes inv: "engine_inv (e, rs, us)" "audit_live sys e"
    and roomy: "\<And>t. t < ME_MAX_TICKERS \<Longrightarrow> 2 * length (live_orders (ticker_order_book e ! t)) + 1 \<le> room (outgoing_ogw_responses e) \<and>
      2 * length (live_orders (ticker_order_book e ! t)) + 1 \<le> room (outgoing_md_updates e)"
  shows "\<exists>e'. engine_step sys e = Some e' \<and> contents (incoming_requests e') = tl (contents (incoming_requests e))"
proof (cases "peek (incoming_requests e)")
  case (Some r)
  have q: "queue_ok (incoming_requests e)" using inv(1) by (simp add: engine_inv_def queues_ok_def)
  obtain e1 where e1: "processClientRequest sys r e = Some e1" using process_total [OF assms] by blast
  have "incoming_requests e1 = incoming_requests e" using process_inv [OF inv(1) e1] by simp
  moreover have "contents (incoming_requests e) \<noteq> []" using Some peek_pop(1) [OF q] by auto
  ultimately obtain q' where "pop (incoming_requests e1) = Some q'" "contents q' = tl (contents (incoming_requests e))"
    using peek_pop(2) [OF q] by auto
  then show ?thesis using Some e1 by (simp add: engine_step_def)
next
  case None
  have "queue_ok (incoming_requests e)" using inv(1) by (simp add: engine_inv_def queues_ok_def)
  then have "contents (incoming_requests e) = []" using None peek_pop(1) [of "incoming_requests e"] by (simp split: list.splits)
  then show ?thesis using None by (simp add: engine_step_def)
qed

text \<open>A new engine with queues of four elements takes and processes any request.\<close>

lemma sample_start:
  assumes "jn = None \<or> kernel_writes sys"
  obtains e0 e1 e2 where "engine_start 4 4 4 jn z1 z2 z3 = Some e0" "audit e0 = jn"
    "replay (engine_event sys) [Arrive r] (e0, [], []) = Some (e1, [], [])" "audit e1 = jn" "contents (incoming_requests e1) = [r]"
    "engine_step sys e1 = Some e2"
    "\<forall>t < ME_MAX_TICKERS. 2 * length (live_orders (ticker_order_book e0 ! t)) + 1 \<le> room (outgoing_ogw_responses e0) \<and>
      2 * length (live_orders (ticker_order_book e0 ! t)) + 1 \<le> room (outgoing_md_updates e0)"
    "\<forall>t < ME_MAX_TICKERS. 2 * length (live_orders (ticker_order_book e1 ! t)) + 1 \<le> room (outgoing_ogw_responses e1) \<and>
      2 * length (live_orders (ticker_order_book e1 ! t)) + 1 \<le> room (outgoing_md_updates e1)"
proof -
  have four: "has_single_bit 4" "\<not> 4 > SIZE_MAX div 2" by code_simp+
  have "those (map (\<lambda>i. MEOrderBook_new (of_nat i)) [0..<ME_MAX_TICKERS]) = Some (map (\<lambda>i. new_book (of_nat i)) [0..<ME_MAX_TICKERS])"
    by (rule those_map_Some) (rule new_book)
  then obtain e0 where e0: "engine_start 4 4 4 jn z1 z2 z3 = Some e0"
    using four by (simp add: engine_start_def LFQueue_new_def checkedCapacity_queue_def MatchingEngine_new_def)
  note S = engine_start_inv [OF e0]
  have roomy: "2 * length (live_orders (ticker_order_book e0 ! t)) + 1 \<le> room (outgoing_ogw_responses e0) \<and>
      2 * length (live_orders (ticker_order_book e0 ! t)) + 1 \<le> room (outgoing_md_updates e0)" if "t < ME_MAX_TICKERS" for t
    using S(4,5,7,8) S(9) [OF that] new_book_empty by (simp add: room_def)
  obtain ok q where q: "try_push r (incoming_requests e0) = (ok, q)" by fastforce
  let ?e = "e0\<lparr>incoming_requests := q\<rparr>"
  have qk: "queue_ok (incoming_requests e0)" using S(1) by (simp add: engine_inv_def queues_ok_def)
  have c: "contents q = [r]" using push_contents [OF qk q] S(3,6) by simp
  have ev: "replay (engine_event sys) [Arrive r] (e0, [], []) = Some (?e, [], [])" using q by simp
  have "engine_inv (?e, [], [])" using event_inv [OF S(1), of sys "Arrive r"] q by simp
  then obtain e where e: "engine_step sys ?e = Some e"
    using step_total [of ?e "[]" "[]" sys] roomy S(2) assms by (auto simp: audit_live_def)
  show thesis by (rule that [OF e0 S(2) ev _ _ e]) (use S(2) c roomy in auto)
qed

lemma sample_engine:
  "\<exists>e0 e. engine_start 4 4 4 None z1 z2 z3 = Some e0 \<and> audit e0 = None \<and>
     replay (engine_event sys) [Arrive r, Work] (e0, [], []) = Some (e, [], []) \<and>
     (\<forall>t < ME_MAX_TICKERS. 2 * length (live_orders (ticker_order_book e0 ! t)) + 1 \<le> room (outgoing_ogw_responses e0) \<and>
      2 * length (live_orders (ticker_order_book e0 ! t)) + 1 \<le> room (outgoing_md_updates e0))"
  by (rule sample_start [of None sys z1 z2 z3 r]) auto

subsection \<open>Properties\<close>

text \<open>C18: the public feed determines the books. After any interleaving of arrivals, matching steps and consumers, the
  market updates taken so far followed by those still queued replay, without an inconsistency, to exactly the resting
  orders of all books.\<close>

theorem engine_feed_replays:
  assumes "engine_start n1 n2 n3 jn z1 z2 z3 = Some e0" "replay (engine_event sys) evs (e0, [], []) = Some (e, rs, us)"
  shows "replay quote_step (us @ contents (outgoing_md_updates e)) no_quotes = Some (engine_quotes e)"
  using run_inv [OF assms(2) engine_start_inv(1) [OF assms(1)]] by (simp add: engine_inv_def)

lemma engine_feed_replays_witness:
  "\<exists>e0 e r. engine_start 4 4 4 None MEClientRequest_default (mk_response Resp_STATE 0 0 0 0 BUY 0 0 0 Rej_NONE) MEMarketUpdate_default = Some e0 \<and>
     rq_type r = Req_NEW \<and> rq_qty r = 10 \<and> replay (engine_event (\<lambda>_. Wr_Fail)) [Arrive r, Work] (e0, [], []) = Some (e, [], []) \<and>
     replay quote_step ([] @ contents (outgoing_md_updates e)) no_quotes = Some (engine_quotes e)"
proof -
  let ?r = "MEClientRequest_default\<lparr>rq_type := Req_NEW, rq_client_id := 1, rq_ticker_id := 2, rq_order_id := 1, rq_side := BUY,
     rq_price := 100, rq_qty := 10\<rparr>"
  obtain e0 e where "engine_start 4 4 4 None MEClientRequest_default (mk_response Resp_STATE 0 0 0 0 BUY 0 0 0 Rej_NONE) MEMarketUpdate_default = Some e0"
    "replay (engine_event (\<lambda>_. Wr_Fail)) [Arrive ?r, Work] (e0, [], []) = Some (e, [], [])"
    using sample_engine by blast
  then show ?thesis using engine_feed_replays [of 4 4 4 None _ _ _ e0 "\<lambda>_. Wr_Fail" "[Arrive ?r, Work]" e "[]" "[]"]
    by (intro exI [of _ e0] exI [of _ e] exI [of _ ?r]) simp
qed

text \<open>C19: the response stream is a ledger. Response ids count from 1 without a gap, each response of a valid client
  and ticker carries the signed sum of the fills sent to that client so far, and the positions of all clients in a ticker
  always sum to zero.\<close>

theorem engine_response_ledger:
  assumes "engine_start n1 n2 n3 jn z1 z2 z3 = Some e0" "replay (engine_event sys) evs (e0, [], []) = Some (e, rs, us)"
  shows "let all = rs @ contents (outgoing_ogw_responses e) in
     map rs_response_id all = map of_nat [1..<Suc (length all)] \<and>
     (\<forall>k < length all. let r = all ! k; c = unat (rs_client_id r); t = unat (rs_ticker_id r) in
        c < ME_MAX_NUM_CLIENTS \<and> t < ME_MAX_TICKERS \<longrightarrow> rs_position r = position_of c t (take (Suc k) all)) \<and>
     (\<forall>t < ME_MAX_TICKERS. (\<Sum>c < ME_MAX_NUM_CLIENTS. client_positions e c t) = 0)"
proof -
  have I: "engine_inv (e, rs, us)" by (rule run_inv [OF assms(2) engine_start_inv(1) [OF assms(1)]])
  have "(\<Sum>c < ME_MAX_NUM_CLIENTS. client_positions e c t) =
     (\<Sum>c < ME_MAX_NUM_CLIENTS. position_of c t (rs @ contents (outgoing_ogw_responses e)))" if "t < ME_MAX_TICKERS" for t
    by (rule sum.cong) (use I that in \<open>auto simp: engine_inv_def resp_inv_def simp del: position_of_simps\<close>)
  then show ?thesis using I by (simp add: engine_inv_def resp_inv_def Let_def del: position_of_simps)
qed

lemma engine_response_ledger_witness:
  "\<exists>e0 e. engine_start 4 4 4 None MEClientRequest_default (mk_response Resp_STATE 0 0 0 0 BUY 0 0 0 Rej_NONE) MEMarketUpdate_default = Some e0 \<and>
     replay (engine_event (\<lambda>_. Wr_Fail)) [Arrive MEClientRequest_default, Work] (e0, [], []) = Some (e, [], []) \<and>
     map rs_response_id (contents (outgoing_ogw_responses e)) = map of_nat [1..<Suc (length (contents (outgoing_ogw_responses e)))]"
proof -
  obtain e0 e where "engine_start 4 4 4 None MEClientRequest_default (mk_response Resp_STATE 0 0 0 0 BUY 0 0 0 Rej_NONE) MEMarketUpdate_default = Some e0"
    "replay (engine_event (\<lambda>_. Wr_Fail)) [Arrive MEClientRequest_default, Work] (e0, [], []) = Some (e, [], [])"
    using sample_engine by blast
  then show ?thesis
    using engine_response_ledger [of 4 4 4 None _ _ _ e0 "\<lambda>_. Wr_Fail" "[Arrive MEClientRequest_default, Work]" e "[]" "[]"]
    by (intro exI [of _ e0] exI [of _ e]) (simp add: Let_def)
qed

text \<open>C20: the engine never stops itself while its environment keeps up: with one slot, and two more per resting order of
  the fullest book, free in both output queues, and a kernel that goes on writing the audit journal, with short writes and
  interruptions at will, a matching step completes, whatever the request, and the request has left the queue.\<close>

theorem engine_makes_progress:
  assumes "engine_start n1 n2 n3 jn z1 z2 z3 = Some e0" "replay (engine_event sys) evs (e0, [], []) = Some (e, rs, us)"
    "kernel_writes sys"
    "\<forall>t < ME_MAX_TICKERS. 2 * length (live_orders (ticker_order_book e ! t)) + 1 \<le> room (outgoing_ogw_responses e) \<and>
      2 * length (live_orders (ticker_order_book e ! t)) + 1 \<le> room (outgoing_md_updates e)"
  shows "\<exists>e'. engine_step sys e = Some e' \<and> contents (incoming_requests e') = tl (contents (incoming_requests e))"
  using step_total [OF run_inv [OF assms(2) engine_start_inv(1) [OF assms(1)]]] assms(3,4) unfolding audit_live_def by blast

lemma engine_makes_progress_witness:
  "\<exists>e0 e e' r. engine_start 4 4 4 (Some \<lparr>jn_file = [], jn_records = 0, jn_clock = 0\<rparr>) MEClientRequest_default
       (mk_response Resp_STATE 0 0 0 0 BUY 0 0 0 Rej_NONE) MEMarketUpdate_default = Some e0 \<and>
     rq_type r = Req_NEW \<and> validate r = Rej_NONE \<and>
     replay (engine_event (\<lambda>k. if even k then Wr_Intr else Wrote 8)) [Arrive r] (e0, [], []) = Some (e, [], []) \<and>
     contents (incoming_requests e) = [r] \<and> engine_step (\<lambda>k. if even k then Wr_Intr else Wrote 8) e = Some e' \<and>
     contents (incoming_requests e') = []"
proof -
  let ?j = "\<lparr>jn_file = [], jn_records = 0, jn_clock = 0\<rparr>" and ?sys = "\<lambda>k :: nat. if even k then Wr_Intr else Wrote 8"
  let ?r = "MEClientRequest_default\<lparr>rq_type := Req_NEW, rq_client_id := 1, rq_ticker_id := 2, rq_order_id := 1, rq_side := BUY,
     rq_price := 100, rq_qty := 10\<rparr>"
  have "\<exists>m \<ge> k. \<exists>n > 0. ?sys m = Wrote n" for k by (rule exI [of _ "2 * k + 1"]) auto
  then have k: "kernel_writes ?sys" by (auto simp: kernel_writes_def)
  obtain e0 e e2 where E: "engine_start 4 4 4 (Some ?j) MEClientRequest_default (mk_response Resp_STATE 0 0 0 0 BUY 0 0 0 Rej_NONE) MEMarketUpdate_default = Some e0"
    "replay (engine_event ?sys) [Arrive ?r] (e0, [], []) = Some (e, [], [])" "contents (incoming_requests e) = [?r]"
    "\<forall>t < ME_MAX_TICKERS. 2 * length (live_orders (ticker_order_book e ! t)) + 1 \<le> room (outgoing_ogw_responses e) \<and>
      2 * length (live_orders (ticker_order_book e ! t)) + 1 \<le> room (outgoing_md_updates e)"
    using sample_start [of "Some ?j" ?sys _ _ _ ?r] k by metis
  obtain e' where "engine_step ?sys e = Some e'" "contents (incoming_requests e') = tl [?r]"
    using engine_makes_progress [OF E(1,2) k E(4)] E(3) by auto
  moreover have "validate ?r = Rej_NONE" by (simp add: validate_def MEClientRequest_default_def limits)
  ultimately show ?thesis using E(1-3) by (intro exI [of _ e0] exI [of _ e] exI [of _ e'] exI [of _ ?r]) simp
qed

end
