(* ===== verification/Ordered_Map.thy ===== *)
theory Ordered_Map
  imports Prelude
begin

text \<open>
  \<open>std::map\<close> as the sources use it: a list of entries with strictly increasing keys (\<open>om_ok\<close>), iterated in that
  order. \<open>om_emplace\<close> is \<open>try_emplace\<close> (an existing entry stays), \<open>om_upper\<close> the range from \<open>upper_bound\<close> to the
  end, \<open>om_put\<close> an assignment through an iterator. The laws connect each operation with \<open>map_of\<close>.
\<close>

type_synonym ('k, 'v) omap = "('k \<times> 'v) list"

fun om_emplace :: "'k::linorder \<Rightarrow> 'v \<Rightarrow> ('k, 'v) omap \<Rightarrow> ('k, 'v) omap" where
  "om_emplace k v [] = [(k, v)]"
| "om_emplace k v ((k', v') # m) =
     (if k < k' then (k, v) # (k', v') # m
      else if k = k' then (k', v') # m
      else (k', v') # om_emplace k v m)"

definition om_erase :: "'k \<Rightarrow> ('k, 'v) omap \<Rightarrow> ('k, 'v) omap" where
  "om_erase k m = filter (\<lambda>e. fst e \<noteq> k) m"

definition om_upper :: "'k::linorder \<Rightarrow> ('k, 'v) omap \<Rightarrow> ('k, 'v) omap" where
  "om_upper k m = dropWhile (\<lambda>e. fst e \<le> k) m"

definition om_put :: "'k \<Rightarrow> ('v \<Rightarrow> 'v) \<Rightarrow> ('k, 'v) omap \<Rightarrow> ('k, 'v) omap" where
  "om_put k f m = map (\<lambda>e. if fst e = k then (k, f (snd e)) else e) m"

definition om_ok :: "('k::linorder, 'v) omap \<Rightarrow> bool" where
  "om_ok m \<longleftrightarrow> sorted_wrt (<) (map fst m)"

named_theorems omap_laws \<open>operations of ordered maps as updates of map_of\<close>

lemma om_ok_Nil [simp, intro]: "om_ok []"
  by (simp add: om_ok_def)

lemma om_ok_Cons [simp]: "om_ok (e # m) \<longleftrightarrow> (\<forall>k \<in> fst ` set m. fst e < k) \<and> om_ok m"
  by (simp add: om_ok_def)

lemma om_emplace_keys: "fst ` set (om_emplace k v m) = insert k (fst ` set m)"
  by (induct m rule: om_emplace.induct) (auto simp: image_iff split: if_splits)

lemma om_emplace_ok [simp]: "om_ok m \<Longrightarrow> om_ok (om_emplace k v m)"
proof (induct m)
  case (Cons e m)
  then show ?case by (cases e) (force simp: om_emplace_keys)
qed simp

lemma om_emplace_old: "om_ok m \<Longrightarrow> map_of m k = Some w \<Longrightarrow> om_emplace k v m = m"
proof (induct m)
  case (Cons e m)
  then show ?case by (cases e) (fastforce split: if_splits dest: map_of_SomeD)
qed simp

lemma om_emplace_map [omap_laws]:
  "om_ok m \<Longrightarrow> map_of m k = None \<Longrightarrow> map_of (om_emplace k v m) = (map_of m)(k \<mapsto> v)"
  by (induct m) (auto split: if_splits)

lemma om_erase_ok [simp]: "om_ok m \<Longrightarrow> om_ok (om_erase k m)"
  by (simp add: om_ok_def om_erase_def sorted_wrt_filter sorted_wrt_map)

lemma om_erase_map [omap_laws]: "map_of (om_erase k m) = (map_of m)(k := None)"
  by (induct m) (auto simp: om_erase_def)

lemma om_put_keys [simp]: "map fst (om_put k f m) = map fst m"
  by (simp add: om_put_def)

lemma om_put_ok [simp]: "om_ok (om_put k f m) = om_ok m"
  by (simp add: om_ok_def)

lemma om_put_map [omap_laws]: "map_of (om_put k f m) = (map_of m)(k := map_option f (map_of m k))"
  by (induct m) (auto simp: om_put_def)

lemma om_upper_filter: "om_ok m \<Longrightarrow> om_upper k m = filter (\<lambda>e. k < fst e) m"
proof (induct m)
  case (Cons e m)
  have "filter (\<lambda>e. k < fst e) m = m" if "k < fst e"
    using Cons.prems that by (intro filter_True) (auto intro: less_trans)
  with Cons show ?case by (auto simp: om_upper_def)
qed (simp add: om_upper_def)

lemma om_upper_ok [simp]: "om_ok m \<Longrightarrow> om_ok (om_upper k m)"
  by (simp add: om_upper_filter om_ok_def sorted_wrt_filter sorted_wrt_map)

lemma om_upper_map [omap_laws]:
  "om_ok m \<Longrightarrow> map_of (om_upper k m) x = (if k < x then map_of m x else None)"
  unfolding om_upper_filter by (induct m) auto

lemma om_distinct: "om_ok m \<Longrightarrow> distinct (map fst m)"
  by (auto simp: om_ok_def strict_sorted_iff)

lemma om_in_set: "om_ok m \<Longrightarrow> (k, v) \<in> set m \<longleftrightarrow> map_of m k = Some v"
  using om_distinct by (metis map_of_eq_Some_iff)

text \<open>An ordered map is determined by its function.\<close>

lemma om_ext: "om_ok m \<Longrightarrow> om_ok m' \<Longrightarrow> map_of m = map_of m' \<Longrightarrow> m = m'"
proof -
  assume a: "om_ok m" "om_ok m'" and e: "map_of m = map_of m'"
  have s: "set m = set m'" using om_in_set a e by (metis set_eqI surj_pair)
  have k: "map fst m = map fst m'"
    using a s by (intro strict_sorted_equal) (auto simp: om_ok_def)
  show ?thesis
  proof (rule map_eq_imp_length_eq [OF k, THEN nth_equalityI])
    fix i assume i: "i < length m"
    then have "i < length m'" using map_eq_imp_length_eq [OF k] by simp
    moreover have "fst (m ! i) = fst (m' ! i)" using k i calculation by (metis nth_map)
    ultimately show "m ! i = m' ! i"
      using i s a om_in_set by (metis nth_mem option.inject prod.collapse)
  qed
qed

end
