(* ===== verification/Book_Hash.thy ===== *)
theory Book_Hash
  imports Messages "HOL-Library.Product_Lexorder" "HOL-Library.Multiset"
begin

text \<open>
  \<^verbatim>\<open>src/common/book_hash.h\<close>: the FNV-1a digest of a set of resting orders that the snapshot publisher and the
  recovering client compare. Orders are sorted by ticker and order id first; where the keys are distinct, as in a book,
  the digest does not depend on the order in which the two sides enumerate their orders.
\<close>

unbundle bit_operations_syntax

definition hash_basis :: u64 where "hash_basis = 14695981039346656037"
definition hash_prime :: u64 where "hash_prime = 1099511628211"

definition mix_byte :: "u64 \<Rightarrow> nat \<Rightarrow> u64 \<Rightarrow> u64" where
  "mix_byte value shift hash = (hash XOR (drop_bit shift value AND 255)) * hash_prime"

definition mix :: "u64 \<Rightarrow> u64 \<Rightarrow> u64" where
  "mix value hash = fold (mix_byte value) [56, 48, 40, 32, 24, 16, 8, 0] hash"

definition mix_order :: "MEMarketUpdate \<Rightarrow> u64 \<Rightarrow> u64" where
  "mix_order u hash =
     mix (mu_priority u) (mix (ucast (mu_qty u)) (mix (word_of_int (mu_price u))
       (mix (scast (side_to_byte (mu_side u))) (mix (mu_order_id u) (mix (ucast (mu_ticker_id u)) hash)))))"

definition hash_key :: "MEMarketUpdate \<Rightarrow> TickerId \<times> OrderId" where
  "hash_key u = (mu_ticker_id u, mu_order_id u)"

definition bookHash :: "MEMarketUpdate list \<Rightarrow> u64" where
  "bookHash orders = fold mix_order (sort_key hash_key orders) hash_basis"

text \<open>The digest reads every field of an order but its event type.\<close>

definition same_quote :: "MEMarketUpdate \<Rightarrow> MEMarketUpdate \<Rightarrow> bool" where
  "same_quote u v \<longleftrightarrow> u\<lparr>mu_type := Mkt_ADD\<rparr> = v\<lparr>mu_type := Mkt_ADD\<rparr>"

lemma mix_order_type [simp]: "mix_order (u\<lparr>mu_type := t\<rparr>) = mix_order u"
  by (simp add: mix_order_def fun_eq_iff)

lemma hash_key_type [simp]: "hash_key (u\<lparr>mu_type := t\<rparr>) = hash_key u"
  by (simp add: hash_key_def)

lemma bookHash_perm:
  assumes "mset xs = mset ys" "distinct (map hash_key xs)"
  shows "bookHash xs = bookHash ys"
proof -
  have "sort_key hash_key ys = sort_key hash_key xs"
  proof (rule properties_for_sort_key)
    show "mset (sort_key hash_key xs) = mset ys" using assms(1) by simp
    have d: "distinct xs" using assms(2) by (simp add: distinct_map)
    have inj: "inj_on hash_key (set xs)" using assms(2) by (simp add: distinct_map)
    show "filter (\<lambda>x. hash_key k = hash_key x) (sort_key hash_key xs) = filter (\<lambda>x. hash_key k = hash_key x) ys"
      if "k \<in> set (sort_key hash_key xs)" for k
    proof -
      have e: "filter (\<lambda>x. hash_key k = hash_key x) zs = [k]" if z: "mset zs = mset xs" for zs
      proof -
        have "set zs = set xs" "distinct zs" using z d mset_eq_setD mset_eq_imp_distinct_iff by blast+
        moreover have "k \<in> set xs" using \<open>k \<in> set (sort_key hash_key xs)\<close> by simp
        ultimately have "filter (\<lambda>x. hash_key k = hash_key x) zs = filter (\<lambda>x. x = k) zs"
          using inj by (intro filter_cong) (auto dest: inj_onD)
        then show ?thesis
          using filter_eq_single [of zs k] \<open>set zs = set xs\<close> \<open>distinct zs\<close> \<open>k \<in> set xs\<close> by simp
      qed
      show ?thesis using e [of "sort_key hash_key xs"] e [of ys] assms(1) by simp
    qed
    show "sorted (map hash_key (sort_key hash_key xs))" by (rule sorted_sort_key)
  qed
  then show ?thesis by (simp add: bookHash_def)
qed

end
