(* ===== verification/Market_Recovery.thy ===== *)
theory Market_Recovery
  imports Quotes Ordered_Map Book_Hash
begin

text \<open>
  \<^verbatim>\<open>src/trading/market_data/market_recovery.h\<close>: the state machine that turns lossy, duplicated and reordered frames
  into a complete snapshot followed by contiguous increments, or detects a gap in the live stream. Frames are cached by
  sequence number in ordered maps; \<open>build\<close> yields a candidate batch, \<open>commit\<close> switches to live operation.
\<close>

subsection \<open>State\<close>

record Batch =
  bt_events :: "MEMarketUpdate list"
  bt_watermark :: u64

record MarketRecovery =
  mr_limit :: nat
  mr_recovering :: bool
  mr_invalid_cycle :: bool
  mr_cycle :: u64
  mr_expected :: u64
  mr_snapshot :: "(u64, MDPMarketUpdate) omap"
  mr_incremental :: "(u64, MDPMarketUpdate) omap"
  mr_gaps :: u64
  mr_duplicates :: u64
  mr_overflows :: u64
  mr_invalid :: u64
  mr_hash_failures :: u64
  mr_recoveries :: u64

text \<open>\<open>None\<close> is the failed \<open>ASSERT\<close>.\<close>

definition MarketRecovery_new :: "nat \<Rightarrow> MarketRecovery option" where
  "MarketRecovery_new limit =
     (if limit \<ge> ME_MAX_TICKERS + 2 then
        Some \<lparr>mr_limit = limit, mr_recovering = True, mr_invalid_cycle = False, mr_cycle = 0, mr_expected = 1,
              mr_snapshot = [], mr_incremental = [], mr_gaps = 0, mr_duplicates = 0, mr_overflows = 0,
              mr_invalid = 0, mr_hash_failures = 0, mr_recoveries = 0\<rparr>
      else None)"

definition restart :: "MarketRecovery \<Rightarrow> MarketRecovery" where
  "restart m = m\<lparr>mr_recovering := True, mr_snapshot := [], mr_incremental := [], mr_invalid_cycle := True\<rparr>"

definition cached :: "MarketRecovery \<Rightarrow> nat" where
  "cached m = length (mr_snapshot m) + length (mr_incremental m)"

definition liveCandidate :: "MDPMarketUpdate \<Rightarrow> MarketRecovery \<Rightarrow> bool \<times> MarketRecovery" where
  "liveCandidate update m =
     (if mr_recovering m then (False, m)
      else if md_seq_num update = mr_expected m then (True, m)
      else if md_seq_num update < mr_expected m then (False, m\<lparr>mr_duplicates := mr_duplicates m + 1\<rparr>)
      else (False, restart (m\<lparr>mr_gaps := mr_gaps m + 1\<rparr>)))"

definition commitLive :: "MarketRecovery \<Rightarrow> MarketRecovery" where
  "commitLive m = m\<lparr>mr_expected := mr_expected m + 1\<rparr>"

definition sameEvent :: "MEMarketUpdate \<Rightarrow> MEMarketUpdate \<Rightarrow> bool" where
  "sameEvent a b \<longleftrightarrow> mu_type a = mu_type b \<and> mu_order_id a = mu_order_id b \<and> mu_ticker_id a = mu_ticker_id b \<and>
     mu_side a = mu_side b \<and> mu_price a = mu_price b \<and> mu_qty a = mu_qty b \<and> mu_priority a = mu_priority b"

subsection \<open>Caching\<close>

text \<open>The head of \<open>ingest\<close> for a snapshot frame; the Boolean says whether the frame is to be cached.\<close>

definition admit_snapshot :: "MDPMarketUpdate \<Rightarrow> MarketRecovery \<Rightarrow> bool \<times> MarketRecovery" where
  "admit_snapshot update m =
     (if md_snapshot_cycle update = 0 \<or> md_snapshot_cycle update < mr_cycle m then (False, m)
      else let m = (if md_snapshot_cycle update > mr_cycle m
                    then m\<lparr>mr_cycle := md_snapshot_cycle update, mr_snapshot := [], mr_invalid_cycle := False,
                           mr_incremental := om_upper (md_watermark update) (mr_incremental m)\<rparr>
                    else m)
           in (\<not> mr_invalid_cycle m, m))"

text \<open>The cache insertion, the comparison with an earlier frame of the same number, and the size limit.\<close>

definition cache_frame :: "bool \<Rightarrow> MDPMarketUpdate \<Rightarrow> MarketRecovery \<Rightarrow> bool \<times> MarketRecovery" where
  "cache_frame snapshot update m =
     (let cache = (if snapshot then mr_snapshot m else mr_incremental m) in
      case map_of cache (md_seq_num update) of
        Some old \<Rightarrow>
          (let same = (sameEvent (md_update old) (md_update update) \<and>
                 (\<not> snapshot \<or> (md_watermark old = md_watermark update \<and> md_state_hash old = md_state_hash update)));
               m = (if snapshot then m else m\<lparr>mr_duplicates := mr_duplicates m + 1\<rparr>)
           in if \<not> same then
                (let m = (if snapshot then m\<lparr>mr_invalid_cycle := True, mr_snapshot := []\<rparr> else restart m)
                 in (False, m\<lparr>mr_invalid := mr_invalid m + 1\<rparr>))
              else if snapshot then (False, m\<lparr>mr_duplicates := mr_duplicates m + 1\<rparr>)
              else if cached m > mr_limit m then
                (False, (restart m)\<lparr>mr_overflows := mr_overflows m + 1\<rparr>)
              else (True, m))
      | None \<Rightarrow>
          (let cache = om_emplace (md_seq_num update) update cache;
               m = (if snapshot then m\<lparr>mr_snapshot := cache\<rparr> else m\<lparr>mr_incremental := cache\<rparr>)
           in if cached m > mr_limit m then (False, (restart m)\<lparr>mr_overflows := mr_overflows m + 1\<rparr>)
              else (True, m)))"

definition ingest :: "bool \<Rightarrow> MDPMarketUpdate \<Rightarrow> MarketRecovery \<Rightarrow> bool \<times> MarketRecovery" where
  "ingest snapshot update m =
     (if \<not> mr_recovering m then (False, m)
      else if snapshot then
        (let (admitted, m) = admit_snapshot update m in
         if admitted then cache_frame snapshot update m else (False, m))
      else cache_frame snapshot update m)"

subsection \<open>Rebuilding the books\<close>

text \<open>\<open>std::array<std::map<OrderId, Event>, ME_MAX_TICKERS>\<close>, indexed by ticker.\<close>

type_synonym BookState = "nat \<Rightarrow> (OrderId, MEMarketUpdate) omap"

definition flatten :: "BookState \<Rightarrow> MEMarketUpdate list" where
  "flatten state = concat (map (\<lambda>t. map snd (state t)) [0..<ME_MAX_TICKERS])"

definition apply_event :: "MEMarketUpdate \<Rightarrow> BookState \<Rightarrow> BookState option" where
  "apply_event event state =
     (if unat (mu_ticker_id event) \<ge> ME_MAX_TICKERS then None
      else let t = unat (mu_ticker_id event); orders = state t in
        if mu_type event = Mkt_CLEAR then Some (state(t := []))
        else if mu_type event = Mkt_TRADE then
          (if mu_qty event > 0 \<and> mu_qty event \<noteq> Qty_INVALID \<and> mu_price event > 0 \<and>
              mu_price event \<noteq> Price_INVALID \<and> (mu_side event = BUY \<or> mu_side event = SELL)
           then Some state else None)
        else if mu_order_id event = 0 \<or> unat (mu_order_id event) \<ge> ME_MAX_ORDER_IDS then None
        else let found = map_of orders (mu_order_id event) in
          if mu_type event = Mkt_ADD then
            (if found \<noteq> None \<or> mu_price event \<le> 0 \<or> mu_price event = Price_INVALID \<or> mu_qty event = 0 \<or>
                mu_qty event = Qty_INVALID \<or> mu_priority event = 0 \<or> mu_priority event = Priority_INVALID \<or>
                (mu_side event \<noteq> BUY \<and> mu_side event \<noteq> SELL)
             then None
             else Some (state(t := om_emplace (mu_order_id event) event orders)))
          else case found of
            None \<Rightarrow> None
          | Some old \<Rightarrow>
              if mu_side old \<noteq> mu_side event \<or> mu_price old \<noteq> mu_price event then None
              else if mu_type event = Mkt_CANCEL then Some (state(t := om_erase (mu_order_id event) orders))
              else if mu_type event = Mkt_MODIFY \<and> mu_qty event > 0 \<and> mu_qty event \<noteq> Qty_INVALID
                then Some (state(t := om_put (mu_order_id event) (\<lambda>v. v\<lparr>mu_qty := mu_qty event\<rparr>) orders))
              else None)"

text \<open>The loop over the snapshot frames of \<open>build\<close>: \<open>cleared\<close> is the set of tickers whose CLEAR was seen.\<close>

fun snapshot_loop :: "u64 \<Rightarrow> u64 \<Rightarrow> u64 \<Rightarrow> u64 \<Rightarrow> (u64, MDPMarketUpdate) omap \<Rightarrow> nat set \<Rightarrow> BookState \<Rightarrow>
    MEMarketUpdate list \<Rightarrow> (nat set \<times> BookState \<times> MEMarketUpdate list) option" where
  "snapshot_loop watermark cycle hash last_seq [] cleared state events = Some (cleared, state, events)"
| "snapshot_loop watermark cycle hash last_seq ((sid, wrapped) # rest) cleared state events =
     (let event = md_update wrapped; t = unat (mu_ticker_id event) in
      if md_watermark wrapped \<noteq> watermark \<or> md_snapshot_cycle wrapped \<noteq> cycle \<or> md_state_hash wrapped \<noteq> hash
        then None
      else if sid = 0 then snapshot_loop watermark cycle hash last_seq rest cleared state events
      else if mu_type event = Mkt_SNAPSHOT_END then
        (if sid \<noteq> last_seq then None else snapshot_loop watermark cycle hash last_seq rest cleared state events)
      else if t \<ge> ME_MAX_TICKERS then None
      else if mu_type event = Mkt_CLEAR \<and> t \<in> cleared then None
      else if mu_type event \<noteq> Mkt_CLEAR \<and> (mu_type event \<noteq> Mkt_ADD \<or> t \<notin> cleared) then None
      else case apply_event event state of
        None \<Rightarrow> None
      | Some state \<Rightarrow> snapshot_loop watermark cycle hash last_seq rest
          (if mu_type event = Mkt_CLEAR then insert t cleared else cleared) state (events @ [event]))"

fun incremental_loop :: "u64 \<Rightarrow> (u64, MDPMarketUpdate) omap \<Rightarrow> BookState \<Rightarrow> MEMarketUpdate list \<Rightarrow>
    (u64 \<times> MEMarketUpdate list) option" where
  "incremental_loop nxt [] state events = Some (nxt, events)"
| "incremental_loop nxt ((sid, wrapped) # rest) state events =
     (if sid \<noteq> nxt then None
      else case apply_event (md_update wrapped) state of
        None \<Rightarrow> None
      | Some state \<Rightarrow> incremental_loop (nxt + 1) rest state (events @ [md_update wrapped]))"

text \<open>The second half of \<open>build\<close>: both caches are applied to empty books, the digest is compared between them.\<close>

definition replay_caches :: "MDPMarketUpdate \<Rightarrow> MDPMarketUpdate \<Rightarrow> MarketRecovery \<Rightarrow> Batch option \<times> MarketRecovery" where
  "replay_caches fst_frame lst_frame m =
     (let watermark = md_watermark fst_frame in
      case snapshot_loop watermark (mr_cycle m) (md_state_hash fst_frame) (md_seq_num lst_frame)
             (mr_snapshot m) {} (\<lambda>_. []) [] of
        None \<Rightarrow> (None, m)
      | Some (cleared, state, events) \<Rightarrow>
          if \<not> list_all (\<lambda>t. t \<in> cleared) [0..<ME_MAX_TICKERS] then (None, m)
          else if bookHash (flatten state) \<noteq> md_state_hash fst_frame
            then (None, m\<lparr>mr_hash_failures := mr_hash_failures m + 1, mr_invalid_cycle := True\<rparr>)
          else case incremental_loop (watermark + 1) (om_upper watermark (mr_incremental m)) state events of
            None \<Rightarrow> (None, m)
          | Some (nxt, events) \<Rightarrow> (Some \<lparr>bt_events = events, bt_watermark = nxt - 1\<rparr>, m))"

definition build :: "MarketRecovery \<Rightarrow> Batch option \<times> MarketRecovery" where
  "build m =
     (if mr_snapshot m = [] \<or> mr_invalid_cycle m then (None, m)
      else let fst_frame = snd (hd (mr_snapshot m)); lst_frame = snd (last (mr_snapshot m)) in
      if md_seq_num fst_frame \<noteq> 0 \<or> mu_type (md_update fst_frame) \<noteq> Mkt_SNAPSHOT_START \<or>
         mu_type (md_update lst_frame) \<noteq> Mkt_SNAPSHOT_END then (None, m)
      else let watermark = md_watermark fst_frame in
      if md_watermark lst_frame \<noteq> watermark \<or> mu_order_id (md_update fst_frame) \<noteq> watermark \<or>
         mu_order_id (md_update lst_frame) \<noteq> watermark \<or> md_state_hash fst_frame \<noteq> md_state_hash lst_frame
        then (None, m\<lparr>mr_invalid_cycle := True, mr_invalid := mr_invalid m + 1\<rparr>)
      else if md_seq_num lst_frame \<noteq> of_nat (length (mr_snapshot m)) - 1 then (None, m)
      else let increments = om_upper watermark (mr_incremental m) in
      if increments \<noteq> [] \<and> fst (hd increments) \<noteq> watermark + 1 then (None, m)
      else replay_caches fst_frame lst_frame m)"

definition commit :: "Batch \<Rightarrow> MarketRecovery \<Rightarrow> MarketRecovery" where
  "commit batch m = m\<lparr>mr_expected := bt_watermark batch + 1, mr_recovering := False, mr_snapshot := [],
     mr_incremental := [], mr_recoveries := mr_recoveries m + 1\<rparr>"

subsection \<open>The rebuilt books are a replica\<close>

definition state_view :: "BookState \<Rightarrow> Quotes" where
  "state_view state t = (if t < ME_MAX_TICKERS then map_of (state t) else (\<lambda>_. None))"

definition state_ok :: "BookState \<Rightarrow> bool" where
  "state_ok state \<longleftrightarrow> (\<forall>t. om_ok (state t))"

lemma state_view_upd: "t < ME_MAX_TICKERS \<Longrightarrow> state_view (state(t := m)) = (state_view state)(t := map_of m)"
  by (auto simp: state_view_def fun_eq_iff)

lemma apply_refines:
  assumes ok: "state_ok state" and s: "quote_step u (state_view state) = Some Q"
  shows "\<exists>state'. apply_event u state = Some state' \<and> state_ok state' \<and> state_view state' = Q"
proof -
  let ?t = "unat (mu_ticker_id u)" and ?i = "mu_order_id u"
  have t: "?t < ME_MAX_TICKERS" by (rule quote_step_ticker [OF s])
  have o: "om_ok (state ?t)" using ok by (simp add: state_ok_def)
  have v: "state_view state ?t = map_of (state ?t)" using t by (simp add: state_view_def)
  note defs = apply_event_def Let_def state_ok_def state_view_upd [OF t] v omap_laws quote_put_def
  show ?thesis using s
  proof (cases rule: quote_stepE)
    case Clear with t ok show ?thesis by (simp add: defs)
  next
    case Trade
    with s have "qty_valid (mu_qty u)" "price_valid (mu_price u)" "side_valid (mu_side u)"
      by (auto simp: quote_step_def Let_def split: if_splits)
    with Trade t ok show ?thesis
      by (auto simp: apply_event_def Let_def qty_valid_def price_valid_def side_valid_def word_gt_0)
  next
    case Add
    with t ok o show ?thesis
      by (auto simp: defs add_valid_def id_valid_def qty_valid_def price_valid_def side_valid_def)
  next
    case (Cancel w) with t ok o show ?thesis by (auto simp: defs id_valid_def)
  next
    case (Modify w) with t ok o show ?thesis by (auto simp: defs id_valid_def qty_valid_def word_gt_0)
  qed
qed

lemma apply_sound:
  assumes ok: "state_ok state" and a: "apply_event u state = Some state'"
  shows "quote_step u (state_view state) = Some (state_view state') \<and> state_ok state'"
proof -
  let ?t = "unat (mu_ticker_id u)"
  have t: "?t < ME_MAX_TICKERS" using a by (simp add: apply_event_def split: if_splits)
  have v: "state_view state ?t = map_of (state ?t)" using t by (simp add: state_view_def)
  have "\<exists>Q. quote_step u (state_view state) = Some Q"
    using a t v
    by (cases "mu_type u")
      (auto simp: apply_event_def quote_step_def Let_def id_valid_def qty_valid_def price_valid_def side_valid_def add_valid_def
        word_gt_0 split: if_splits option.splits)
  then show ?thesis using apply_refines [OF ok] a by fastforce
qed

interpretation rebuilt: replica apply_event state_view state_ok "\<lambda>_. True" "\<lambda>_. True"
  by unfold_locales (auto dest: apply_refines)

end
