(* ===== verification/Mcast_Socket.thy ===== *)
theory Mcast_Socket
  imports Wire
begin

text \<open>
  \<^verbatim>\<open>src/common/mcast_socket.cpp\<close>: the UDP multicast endpoint. The kernel is a parameter of the operations:
  \<open>sys n\<close> gives the results of the \<open>n\<close>-th pair of \<open>::send\<close> and \<open>recvmsg\<close> calls, and the ghost fields \<open>mc_clock\<close> and
  \<open>mc_wire\<close> count the pairs and record the datagrams the kernel accepted. The model keeps the valid prefix of each buffer
  (\<open>mc_out\<close> is \<open>outbound_data_\<close> up to \<open>next_send_valid_index_\<close>). \<open>None\<close> is \<open>FATAL\<close>. The receive callback runs exactly
  when \<open>sendAndRecv_mc\<close> returns \<open>True\<close>, as its last action; the callers in this development run it there.
\<close>

definition McastBufferSize :: nat where [limits]: "McastBufferSize = 65536"
definition MaxMcastDatagram :: nat where [limits]: "MaxMcastDatagram = 1400"

text \<open>The result of a non-blocking \<open>::send\<close>: bytes taken, \<open>EAGAIN\<close>/\<open>EWOULDBLOCK\<close>, \<open>EINTR\<close>, or another error number.\<close>

datatype TxResult = Tx nat | Tx_Again | Tx_Intr | Tx_Error int

text \<open>The result of \<open>recvmsg\<close>: nothing usable, or a datagram with its full content; the kernel copies at most the
  buffer and, with \<open>MSG_TRUNC\<close>, returns the real length.\<close>

datatype RxResult = Rx_None | Rx "u8 list"

type_synonym Kernel = "nat \<Rightarrow> TxResult \<times> RxResult"

record McastSocket =
  mc_open :: bool
  mc_out :: "u8 list"
  mc_in :: "u8 list"
  mc_fault :: bool
  mc_truncated :: u64
  mc_retries :: u64
  mc_sent_bytes :: u64
  mc_received_bytes :: u64
  mc_clock :: nat
  mc_wire :: "u8 list list"

definition McastSocket_open :: McastSocket where
  "McastSocket_open = \<lparr>mc_open = True, mc_out = [], mc_in = [], mc_fault = False, mc_truncated = 0, mc_retries = 0,
     mc_sent_bytes = 0, mc_received_bytes = 0, mc_clock = 0, mc_wire = []\<rparr>"

definition leave :: "McastSocket \<Rightarrow> McastSocket" where
  "leave s = s\<lparr>mc_open := False\<rparr>"

definition mcast_transmit :: "TxResult \<Rightarrow> McastSocket \<Rightarrow> McastSocket option" where
  "mcast_transmit tx s =
     (if mc_out s = [] then Some s
      else case tx of
        Tx n \<Rightarrow> if n = length (mc_out s)
                then Some (s\<lparr>mc_sent_bytes := mc_sent_bytes s + of_nat n, mc_wire := mc_wire s @ [mc_out s], mc_out := []\<rparr>)
                else None
      | Tx_Again \<Rightarrow> Some (s\<lparr>mc_retries := mc_retries s + 1\<rparr>)
      | Tx_Intr \<Rightarrow> Some (s\<lparr>mc_retries := mc_retries s + 1\<rparr>)
      | Tx_Error e \<Rightarrow> None)"

definition mcast_receive :: "RxResult \<Rightarrow> McastSocket \<Rightarrow> bool \<times> McastSocket" where
  "mcast_receive rx s =
     (case rx of Rx_None \<Rightarrow> (False, s)
      | Rx d \<Rightarrow>
          if d = [] then (False, s)
          else if length d > McastBufferSize
            then (True, s\<lparr>mc_fault := True, mc_in := [], mc_truncated := mc_truncated s + 1\<rparr>)
          else (True, s\<lparr>mc_fault := False, mc_in := d, mc_received_bytes := mc_received_bytes s + of_nat (length d)\<rparr>))"

definition sendAndRecv_mc :: "Kernel \<Rightarrow> McastSocket \<Rightarrow> (bool \<times> McastSocket) option" where
  "sendAndRecv_mc sys s =
     (if \<not> mc_open s then Some (False, s)
      else do {
        let (tx, rx) = sys (mc_clock s);
        s \<leftarrow> mcast_transmit tx (s\<lparr>mc_clock := mc_clock s + 1\<rparr>);
        Some (mcast_receive rx s) })"

definition send_mc :: "Kernel \<Rightarrow> u8 list \<Rightarrow> McastSocket \<Rightarrow> (bool \<times> McastSocket) option" where
  "send_mc sys data s =
     (if data = [] \<or> length data > MaxMcastDatagram then Some (False, s)
      else do {
        s \<leftarrow> (if length (mc_out s) + length data > MaxMcastDatagram
              then map_option snd (sendAndRecv_mc sys s) else Some s);
        if length (mc_out s) + length data > MaxMcastDatagram then Some (False, s)
        else Some (True, s\<lparr>mc_out := mc_out s @ data\<rparr>) })"

subsection \<open>Whole frames, in order\<close>

text \<open>\<open>framed n fs s\<close>: the frames \<open>fs\<close>, each of \<open>n\<close> bytes, have been accepted; they lie in order on the wire and in
  the pending datagram, and no datagram splits a frame.\<close>

definition framed :: "nat \<Rightarrow> u8 list list \<Rightarrow> McastSocket \<Rightarrow> bool" where
  "framed n fs s \<longleftrightarrow> (\<exists>gs hs. fs = concat gs @ hs \<and> mc_wire s = map concat gs \<and> mc_out s = concat hs \<and>
     (\<forall>f \<in> set fs. length f = n) \<and> (\<forall>g \<in> set gs. g \<noteq> [] \<and> length g * n \<le> MaxMcastDatagram) \<and>
     length (mc_out s) \<le> MaxMcastDatagram)"

lemma framed_open: "framed n [] McastSocket_open"
  unfolding framed_def by (rule exI [of _ "[]"], rule exI [of _ "[]"]) (simp add: McastSocket_open_def)

lemma length_concat_const: "\<forall>f \<in> set fs. length f = n \<Longrightarrow> length (concat fs) = length fs * n"
  by (induct fs) auto

lemma framed_frame [simp]:
  "framed n fs (s\<lparr>mc_clock := k\<rparr>) = framed n fs s" "framed n fs (s\<lparr>mc_retries := r\<rparr>) = framed n fs s"
  "framed n fs (snd (mcast_receive rx s)) = framed n fs s"
  by (auto simp: framed_def mcast_receive_def split: RxResult.splits)

lemma framed_transmit:
  assumes f: "framed n fs s" and t: "mcast_transmit tx s = Some s'" shows "framed n fs s'"
proof (cases "mc_out s = [] \<or> tx = Tx_Again \<or> tx = Tx_Intr")
  case True with f t show ?thesis by (auto simp: mcast_transmit_def split: if_splits TxResult.splits)
next
  case False
  then have s': "s' = s\<lparr>mc_sent_bytes := mc_sent_bytes s + of_nat (length (mc_out s)), mc_wire := mc_wire s @ [mc_out s],
      mc_out := []\<rparr>" using t by (auto simp: mcast_transmit_def split: if_splits TxResult.splits)
  obtain gs hs where g: "fs = concat gs @ hs" "mc_wire s = map concat gs" "mc_out s = concat hs"
    "\<forall>f \<in> set fs. length f = n" "\<forall>g \<in> set gs. g \<noteq> [] \<and> length g * n \<le> MaxMcastDatagram"
    "length (mc_out s) \<le> MaxMcastDatagram" using f unfolding framed_def by blast
  have "length (concat hs) = length hs * n" using g(1,4) by (intro length_concat_const) auto
  then show ?thesis unfolding framed_def using g False
    by (intro exI [of _ "gs @ [hs]"] exI [of _ "[]"]) (auto simp: s')
qed

lemma framed_sendAndRecv:
  assumes "framed n fs s" "sendAndRecv_mc sys s = Some (b, s')" shows "framed n fs s'"
proof (cases "mc_open s")
  case True
  obtain tx rx where k: "sys (mc_clock s) = (tx, rx)" by fastforce
  then obtain s1 where "mcast_transmit tx (s\<lparr>mc_clock := mc_clock s + 1\<rparr>) = Some s1" "s' = snd (mcast_receive rx s1)"
    using assms(2) True by (auto simp: sendAndRecv_mc_def bind_Some_conv)
  then show ?thesis using framed_transmit [of n fs "s\<lparr>mc_clock := mc_clock s + 1\<rparr>" tx s1] assms(1) by simp
qed (use assms in \<open>simp add: sendAndRecv_mc_def\<close>)

lemma framed_send:
  assumes "framed n fs s" "send_mc sys data s = Some (b, s')" "length data = n"
  shows "framed n (if b then fs @ [data] else fs) s'"
proof (cases "data = [] \<or> length data > MaxMcastDatagram")
  case False
  let ?full = "length (mc_out s) + length data > MaxMcastDatagram"
  obtain s1 where s1: "(if ?full then map_option snd (sendAndRecv_mc sys s) else Some s) = Some s1"
    "(if length (mc_out s1) + length data > MaxMcastDatagram then Some (False, s1)
      else Some (True, s1\<lparr>mc_out := mc_out s1 @ data\<rparr>)) = Some (b, s')"
    using assms(2) False by (auto simp: send_mc_def bind_Some_conv)
  have f: "framed n fs s1"
    using s1(1) assms(1) framed_sendAndRecv by (auto split: if_splits)
  show ?thesis
  proof (cases b)
    case True
    then have s': "s' = s1\<lparr>mc_out := mc_out s1 @ data\<rparr>" "length (mc_out s1) + length data \<le> MaxMcastDatagram"
      using s1(2) by (auto split: if_splits)
    from f obtain gs hs where "fs = concat gs @ hs" "mc_wire s1 = map concat gs" "mc_out s1 = concat hs"
      "\<forall>f \<in> set fs. length f = n" "\<forall>g \<in> set gs. g \<noteq> [] \<and> length g * n \<le> MaxMcastDatagram"
      unfolding framed_def by blast
    then show ?thesis unfolding framed_def using True s' assms(3)
      by (intro exI [of _ gs] exI [of _ "hs @ [data]"]) auto
  next
    case b: False then show ?thesis using f s1(2) by (auto split: if_splits)
  qed
qed (use assms in \<open>auto simp: send_mc_def\<close>)

text \<open>Once the pending datagram has been handed to the kernel, there is room for any frame.\<close>

lemma send_after_flush:
  "mc_out s = [] \<Longrightarrow> data \<noteq> [] \<Longrightarrow> length data \<le> MaxMcastDatagram \<Longrightarrow>
   send_mc sys data s = Some (True, s\<lparr>mc_out := data\<rparr>)"
  by (simp add: send_mc_def)

end
