(* ===== verification/Snapshot_Synthesizer.thy ===== *)
theory Snapshot_Synthesizer
  imports Mcast_Socket Mem_Pool Quotes Book_Hash
begin

text \<open>
  \<^verbatim>\<open>src/exchange/market_data/snapshot_synthesizer.cpp\<close>: the exchange-side copy of all resting orders and the periodic
  publication of complete snapshots. Orders live in an object pool and are addressed by ticker and order id. The
  environment (kernel, clock, the \<open>TRADE_SNAPSHOT_MS\<close> setting) is a parameter.
\<close>

record SnapshotSynthesizer =
  ticker_orders :: "nat \<Rightarrow> OrderId \<Rightarrow> nat option"
  last_inc_seq_num :: u64
  ss_cycle :: u64
  last_snapshot_time :: int
  ss_pool :: "MEMarketUpdate MemPool"
  ss_socket :: McastSocket

text \<open>\<open>snapshot_cycle_\<close> starts at the current time \<open>nanos\<close>.\<close>

definition SnapshotSynthesizer_new :: "u64 \<Rightarrow> SnapshotSynthesizer option" where
  "SnapshotSynthesizer_new nanos = do {
     pool \<leftarrow> MemPool_new ME_MAX_ORDER_IDS;
     Some \<lparr>ticker_orders = (\<lambda>_ _. None), last_inc_seq_num = 0, ss_cycle = nanos, last_snapshot_time = 0,
           ss_pool = pool, ss_socket = McastSocket_open\<rparr> }"

definition set_ticker_order :: "nat \<Rightarrow> OrderId \<Rightarrow> nat option \<Rightarrow> SnapshotSynthesizer \<Rightarrow> SnapshotSynthesizer" where
  "set_ticker_order t i x s = s\<lparr>ticker_orders := (ticker_orders s)(t := (ticker_orders s t)(i := x))\<rparr>"

text \<open>The switch of \<open>addToSnapshot\<close>.\<close>

definition snapshot_apply :: "MEMarketUpdate \<Rightarrow> SnapshotSynthesizer \<Rightarrow> SnapshotSynthesizer option" where
  "snapshot_apply u s =
     (let t = unat (mu_ticker_id u); i = mu_order_id u in
      if \<not> t < ME_MAX_TICKERS then None
      else if mu_type u \<in> {Mkt_ADD, Mkt_MODIFY, Mkt_CANCEL} \<and> \<not> (i > 0 \<and> unat i < ME_MAX_ORDER_IDS) then None
      else if mu_type u = Mkt_ADD then
        (case ticker_orders s t i of Some order \<Rightarrow> None
         | None \<Rightarrow> let (order, pool) = allocate u (ss_pool s) in
             if order = None then None else Some (set_ticker_order t i order (s\<lparr>ss_pool := pool\<rparr>)))
      else if mu_type u = Mkt_MODIFY then do {
        order \<leftarrow> ticker_orders s t i;
        v \<leftarrow> deref (ss_pool s) order;
        if mu_order_id v \<noteq> i \<or> mu_side v \<noteq> mu_side u then None
        else do {
          pool \<leftarrow> modify order (\<lambda>v. v\<lparr>mu_qty := mu_qty u, mu_price := mu_price u\<rparr>) (ss_pool s);
          Some (s\<lparr>ss_pool := pool\<rparr>) } }
      else if mu_type u = Mkt_CANCEL then do {
        order \<leftarrow> ticker_orders s t i;
        v \<leftarrow> deref (ss_pool s) order;
        if mu_order_id v \<noteq> i \<or> mu_side v \<noteq> mu_side u then None
        else do {
          pool \<leftarrow> dispose order (ss_pool s);
          Some (set_ticker_order t i None (s\<lparr>ss_pool := pool\<rparr>)) } }
      else Some s)"

definition addToSnapshot :: "MDPMarketUpdate \<Rightarrow> SnapshotSynthesizer \<Rightarrow> SnapshotSynthesizer option" where
  "addToSnapshot m s = do {
     s \<leftarrow> snapshot_apply (md_update m) s;
     if md_seq_num m = last_inc_seq_num s + 1 then Some (s\<lparr>last_inc_seq_num := md_seq_num m\<rparr>) else None }"

subsection \<open>Publication\<close>

text \<open>The orders of one ticker in the order of the array, dereferenced.\<close>

definition ticker_live :: "SnapshotSynthesizer \<Rightarrow> nat \<Rightarrow> MEMarketUpdate list option" where
  "ticker_live s t = those (map (\<lambda>order. deref (ss_pool s) order)
     (List.map_filter (\<lambda>i. ticker_orders s t (of_nat i)) [0..<ME_MAX_ORDER_IDS]))"

definition marker :: "MarketUpdateType \<Rightarrow> OrderId \<Rightarrow> MEMarketUpdate" where
  "marker type oid = MEMarketUpdate_default\<lparr>mu_type := type, mu_order_id := oid\<rparr>"

definition clear_event :: "nat \<Rightarrow> MEMarketUpdate" where
  "clear_event t = (marker Mkt_CLEAR OrderId_INVALID)\<lparr>mu_ticker_id := of_nat t\<rparr>"

text \<open>The frames of one cycle, for given orders per ticker: \<open>sequence++\<close> numbers them from 0.\<close>

definition cycle_events :: "u64 \<Rightarrow> (nat \<Rightarrow> MEMarketUpdate list) \<Rightarrow> MEMarketUpdate list" where
  "cycle_events watermark live =
     marker Mkt_SNAPSHOT_START watermark #
     concat (map (\<lambda>t. clear_event t # live t) [0..<ME_MAX_TICKERS]) @ [marker Mkt_SNAPSHOT_END watermark]"

definition cycle_frames :: "u64 \<Rightarrow> u64 \<Rightarrow> (nat \<Rightarrow> MEMarketUpdate list) \<Rightarrow> MDPMarketUpdate list" where
  "cycle_frames cycle watermark live =
     (let hash = bookHash (concat (map live [0..<ME_MAX_TICKERS]));
          events = cycle_events watermark live
      in map (\<lambda>(k, event). \<lparr>md_seq_num = of_nat k, md_update = event, md_snapshot_cycle = cycle,
                md_watermark = watermark, md_state_hash = hash\<rparr>) (enumerate 0 events))"

text \<open>\<open>publish\<close>: a refused frame is fatal; each frame is followed by one round of socket I/O.\<close>

fun publish_frames :: "Kernel \<Rightarrow> MDPMarketUpdate list \<Rightarrow> McastSocket \<Rightarrow> McastSocket option" where
  "publish_frames sys [] k = Some k"
| "publish_frames sys (f # fs) k = do {
     (ok, k) \<leftarrow> send_mc sys (encode_market f) k;
     if ok then do { (_, k) \<leftarrow> sendAndRecv_mc sys k; publish_frames sys fs k } else None }"

definition publishSnapshot :: "Kernel \<Rightarrow> SnapshotSynthesizer \<Rightarrow> SnapshotSynthesizer option" where
  "publishSnapshot sys s = do {
     lives \<leftarrow> those (map (ticker_live s) [0..<ME_MAX_TICKERS]);
     let cycle = ss_cycle s + 1;
     socket \<leftarrow> publish_frames sys (cycle_frames cycle (last_inc_seq_num s) ((!) lives)) (ss_socket s);
     (_, socket) \<leftarrow> sendAndRecv_mc sys socket;
     Some (s\<lparr>ss_cycle := cycle, ss_socket := socket\<rparr>) }"

subsection \<open>One round of the thread\<close>

text \<open>\<open>configured\<close> is the parsed value of \<open>TRADE_SNAPSHOT_MS\<close> where it is set.\<close>

definition snapshot_period :: "int option \<Rightarrow> int option" where
  "snapshot_period configured =
     (let milliseconds = (case configured of None \<Rightarrow> 60000 | Some ms \<Rightarrow> ms) in
      if 0 < milliseconds \<and> milliseconds \<le> 3600000 then Some (milliseconds * 1000000) else None)"

text \<open>The body of the loop of \<open>run\<close>: the queued updates are applied, then a snapshot is published when the period is
  over. \<open>now\<close> is the time both clock reads give.\<close>

definition run_round :: "Kernel \<Rightarrow> int \<Rightarrow> int \<Rightarrow> MDPMarketUpdate list \<Rightarrow> SnapshotSynthesizer \<Rightarrow> SnapshotSynthesizer option" where
  "run_round sys period now updates s = do {
     s \<leftarrow> replay addToSnapshot updates s;
     if now - last_snapshot_time s > period
       then publishSnapshot sys (s\<lparr>last_snapshot_time := now\<rparr>) else Some s }"

subsection \<open>The synthesizer is a replica\<close>

definition synth_view :: "SnapshotSynthesizer \<Rightarrow> Quotes" where
  "synth_view s t i = Option.bind (ticker_orders s t i) (deref (ss_pool s))"

definition live_keys :: "Quotes \<Rightarrow> (nat \<times> OrderId) set" where
  "live_keys Q = {(t, i). Q t i \<noteq> None}"

text \<open>Every live object is pointed to from exactly one place.\<close>

definition synth_ok :: "SnapshotSynthesizer \<Rightarrow> bool" where
  "synth_ok s \<longleftrightarrow> pool_inv (ss_pool s) \<and> capacity (ss_pool s) = ME_MAX_ORDER_IDS \<and>
     (\<forall>t i x. ticker_orders s t i = Some x \<longrightarrow> deref (ss_pool s) x \<noteq> None) \<and>
     (\<forall>x. deref (ss_pool s) x \<noteq> None \<longrightarrow> (\<exists>t i. ticker_orders s t i = Some x)) \<and>
     (\<forall>t i t' i' x. ticker_orders s t i = Some x \<and> ticker_orders s t' i' = Some x \<longrightarrow> t = t' \<and> i = i')"

lemma synth_okD:
  assumes "synth_ok s"
  shows "pool_inv (ss_pool s)" "capacity (ss_pool s) = ME_MAX_ORDER_IDS"
    "ticker_orders s t i = Some x \<Longrightarrow> \<exists>v. deref (ss_pool s) x = Some v"
    "deref (ss_pool s) x = Some v \<Longrightarrow> \<exists>t i. ticker_orders s t i = Some x"
    "ticker_orders s t i = Some x \<Longrightarrow> ticker_orders s t' i' = Some x \<Longrightarrow> t = t' \<and> i = i'"
  using assms unfolding synth_ok_def by blast+

lemma synth_keys: "synth_ok s \<Longrightarrow> synth_view s t i = None \<longleftrightarrow> ticker_orders s t i = None"
  using synth_okD(3) [of s t i] by (cases "ticker_orders s t i") (auto simp: synth_view_def)

text \<open>The number of live objects is the number of quotes.\<close>

lemma synth_available:
  assumes ok: "synth_ok s" shows "available (ss_pool s) = ME_MAX_ORDER_IDS - card (live_keys (synth_view s))"
proof -
  let ?f = "\<lambda>(t, i). the (ticker_orders s t i)"
  have "inj_on ?f (live_keys (synth_view s))"
  proof (rule inj_onI)
    fix p p' assume "p \<in> live_keys (synth_view s)" "p' \<in> live_keys (synth_view s)" "?f p = ?f p'"
    then show "p = p'" using synth_okD(5) [OF ok, of "fst p" "snd p" _ "fst p'" "snd p'"]
      by (cases p; cases p') (auto simp: live_keys_def synth_keys [OF ok])
  qed
  moreover have "?f ` live_keys (synth_view s) = dom (deref (ss_pool s))"
  proof (intro equalityI subsetI)
    fix x assume "x \<in> dom (deref (ss_pool s))"
    then obtain t i where "ticker_orders s t i = Some x" using synth_okD(4) [OF ok] by blast
    then show "x \<in> ?f ` live_keys (synth_view s)"
      using synth_keys [OF ok] by (intro image_eqI [of _ _ "(t, i)"]) (auto simp: live_keys_def)
  next
    fix x assume "x \<in> ?f ` live_keys (synth_view s)"
    then show "x \<in> dom (deref (ss_pool s))"
      using synth_keys [OF ok] synth_okD(3) [OF ok] by (fastforce simp: live_keys_def)
  qed
  ultimately have "card (dom (deref (ss_pool s))) = card (live_keys (synth_view s))" by (metis card_image)
  then show ?thesis using mp.avail_by_live [OF synth_okD(1) [OF ok]] synth_okD(2) [OF ok] by simp
qed

definition synth_fits :: "Quotes \<Rightarrow> bool" where
  "synth_fits Q \<longleftrightarrow> card (live_keys Q) \<le> ME_MAX_ORDER_IDS"

lemma live_keys_put: "Q t i = None \<Longrightarrow> live_keys (quote_put t i (Some u) Q) = insert (t, i) (live_keys Q)"
  by (auto simp: live_keys_def quote_put_def split: if_splits)

lemma finite_live_keys: "quotes_ok Q \<Longrightarrow> finite (live_keys Q)"
  by (rule finite_subset [of _ "{..< ME_MAX_TICKERS} \<times> UNIV"]) (auto simp: live_keys_def quotes_ok_def)

lemma synth_add:
  assumes ok: "synth_ok s" and q: "quotes_ok (synth_view s)" and fresh: "synth_view s t i = None"
    and fits: "synth_fits (quote_put t i (Some u) (synth_view s))"
  shows "\<exists>x p. allocate u (ss_pool s) = (Some x, p) \<and> synth_ok (set_ticker_order t i (Some x) (s\<lparr>ss_pool := p\<rparr>)) \<and>
     synth_view (set_ticker_order t i (Some x) (s\<lparr>ss_pool := p\<rparr>)) = quote_put t i (Some u) (synth_view s)"
proof -
  have "card (live_keys (quote_put t i (Some u) (synth_view s))) = Suc (card (live_keys (synth_view s)))"
    unfolding live_keys_put [of "synth_view s", OF fresh] using fresh finite_live_keys [OF q] by (simp add: live_keys_def)
  then have a: "available (ss_pool s) \<noteq> 0" using fits synth_available [OF ok] by (simp add: synth_fits_def)
  note P = put_slot_laws [OF synth_okD(1) [OF ok] a]
  have none: "ticker_orders s t' i' \<noteq> Some (top_slot (ss_pool s))" for t' i' using synth_okD(3) [OF ok, of t' i'] P(4) by auto
  have nf: "ticker_orders s t i = None" using fresh synth_keys [OF ok] by simp
  let ?s = "set_ticker_order t i (Some (top_slot (ss_pool s))) (s\<lparr>ss_pool := put_slot u (ss_pool s)\<rparr>)"
  have v: "synth_view ?s = quote_put t i (Some u) (synth_view s)"
    using P(1) [of u] none
    by (auto simp: synth_view_def set_ticker_order_def quote_put_def fun_eq_iff bind_eq_None_conv split: bind_split)
  moreover have "synth_ok ?s"
    unfolding synth_ok_def
  proof (intro conjI allI impI)
    show "pool_inv (ss_pool ?s)" "capacity (ss_pool ?s) = ME_MAX_ORDER_IDS"
      using P(2,3) [of u] synth_okD(2) [OF ok] by (simp_all add: set_ticker_order_def)
    show "deref (ss_pool ?s) x \<noteq> None" if "ticker_orders ?s t' i' = Some x" for t' i' x
      using that synth_okD(3) [OF ok, of t' i' x] P(1) [of u] by (auto simp: set_ticker_order_def split: if_splits)
    show "\<exists>t i. ticker_orders ?s t i = Some x" if d: "deref (ss_pool ?s) x \<noteq> None" for x
    proof (cases "x = top_slot (ss_pool s)")
      case True then show ?thesis by (intro exI [of _ t] exI [of _ i]) (simp add: set_ticker_order_def)
    next
      case False
      then obtain t' i' where "ticker_orders s t' i' = Some x"
        using d P(1) [of u] synth_okD(4) [OF ok, of x] by (auto simp: set_ticker_order_def)
      then show ?thesis using nf by (intro exI [of _ t'] exI [of _ i']) (auto simp: set_ticker_order_def)
    qed
    show "t1 = t2" "i1 = i2" if "ticker_orders ?s t1 i1 = Some x \<and> ticker_orders ?s t2 i2 = Some x" for t1 i1 t2 i2 x
      using that none synth_okD(5) [OF ok, of t1 i1 x t2 i2] by (auto simp: set_ticker_order_def split: if_splits)
  qed
  ultimately show ?thesis using allocate_put [OF a, of u] by blast
qed

lemma synth_cancel:
  assumes ok: "synth_ok s" and x: "ticker_orders s t i = Some x"
  shows "synth_ok (set_ticker_order t i None (s\<lparr>ss_pool := drop_slot x (ss_pool s)\<rparr>)) \<and>
     synth_view (set_ticker_order t i None (s\<lparr>ss_pool := drop_slot x (ss_pool s)\<rparr>)) = quote_put t i None (synth_view s)"
proof -
  note P = drop_slot_laws [OF synth_okD(1) [OF ok], of x]
  let ?s = "set_ticker_order t i None (s\<lparr>ss_pool := drop_slot x (ss_pool s)\<rparr>)"
  have other: "y \<noteq> x" if "ticker_orders s t' i' = Some y" "(t', i') \<noteq> (t, i)" for t' i' y
    using that synth_okD(5) [OF ok x, of t' i'] by auto
  have "synth_view ?s t' i' = quote_put t i None (synth_view s) t' i'" for t' i'
    using other [of t' i'] P(1) by (auto simp: synth_view_def set_ticker_order_def quote_put_def split: bind_split)
  moreover have "synth_ok ?s"
    unfolding synth_ok_def
  proof (intro conjI allI impI)
    show "pool_inv (ss_pool ?s)" "capacity (ss_pool ?s) = ME_MAX_ORDER_IDS"
      using P(2,3) synth_okD(2) [OF ok] by (simp_all add: set_ticker_order_def)
    show "deref (ss_pool ?s) y \<noteq> None" if "ticker_orders ?s t' i' = Some y" for t' i' y
      using that other [of t' i' y] synth_okD(3) [OF ok, of t' i' y] P(1)
      by (auto simp: set_ticker_order_def split: if_splits)
    show "\<exists>t i. ticker_orders ?s t i = Some y" if d: "deref (ss_pool ?s) y \<noteq> None" for y
    proof -
      obtain v where y: "y \<noteq> x" "deref (ss_pool s) y = Some v" using d P(1) by (auto simp: set_ticker_order_def split: if_splits)
      then obtain t' i' where "ticker_orders s t' i' = Some y" using synth_okD(4) [OF ok] by blast
      then show ?thesis using x y(1) by (intro exI [of _ t'] exI [of _ i']) (auto simp: set_ticker_order_def)
    qed
    show "t1 = t2" "i1 = i2" if "ticker_orders ?s t1 i1 = Some y \<and> ticker_orders ?s t2 i2 = Some y" for t1 i1 t2 i2 y
      using that synth_okD(5) [OF ok, of t1 i1 y t2 i2] by (auto simp: set_ticker_order_def split: if_splits)
  qed
  ultimately show ?thesis by (simp add: fun_eq_iff)
qed

lemma synth_modify:
  assumes ok: "synth_ok s" and x: "ticker_orders s t i = Some x" "deref (ss_pool s) x = Some v"
  shows "synth_ok (s\<lparr>ss_pool := poke x f (ss_pool s)\<rparr>) \<and>
     synth_view (s\<lparr>ss_pool := poke x f (ss_pool s)\<rparr>) = quote_put t i (Some (f v)) (synth_view s)"
proof -
  have d: "deref (poke x f (ss_pool s)) = (deref (ss_pool s))(x \<mapsto> f v)" using x(2) by (simp add: deref_poke)
  have other: "y \<noteq> x" if "ticker_orders s t' i' = Some y" "(t', i') \<noteq> (t, i)" for t' i' y
    using that synth_okD(5) [OF ok x(1), of t' i'] by auto
  have "synth_view (s\<lparr>ss_pool := poke x f (ss_pool s)\<rparr>) t' i' = quote_put t i (Some (f v)) (synth_view s) t' i'" for t' i'
    using other [of t' i'] x(1) d by (auto simp: synth_view_def quote_put_def split: bind_split)
  moreover have "synth_ok (s\<lparr>ss_pool := poke x f (ss_pool s)\<rparr>)"
    using ok poke_frame(2) [of x f "ss_pool s"] poke_frame(3) [of "ss_pool s" x f] x(1) unfolding synth_ok_def by (auto simp: d)
  ultimately show ?thesis by (simp add: fun_eq_iff)
qed

lemma snapshot_apply_refines:
  assumes ok: "synth_ok s" and q: "quotes_ok (synth_view s)" and inc: "incremental_type u"
    and st: "quote_step u (synth_view s) = Some Q" and fits: "synth_fits Q"
  shows "\<exists>s'. snapshot_apply u s = Some s' \<and> synth_ok s' \<and> synth_view s' = Q"
proof -
  let ?t = "unat (mu_ticker_id u)" and ?i = "mu_order_id u"
  have t: "?t < ME_MAX_TICKERS" by (rule quote_step_ticker [OF st])
  show ?thesis using st
  proof (cases rule: quote_stepE)
    case Clear with inc show ?thesis by (simp add: incremental_type_def)
  next
    case Trade with t ok show ?thesis by (simp add: snapshot_apply_def Let_def)
  next
    case Add
    then have id: "?i > 0 \<and> unat ?i < ME_MAX_ORDER_IDS" by (auto simp: add_valid_def id_valid_def word_gt_0)
    obtain x p where x: "allocate u (ss_pool s) = (Some x, p)" "synth_ok (set_ticker_order ?t ?i (Some x) (s\<lparr>ss_pool := p\<rparr>))"
      "synth_view (set_ticker_order ?t ?i (Some x) (s\<lparr>ss_pool := p\<rparr>)) = quote_put ?t ?i (Some u) (synth_view s)"
      using synth_add [OF ok q Add(3)] fits Add(4) by blast
    have "ticker_orders s ?t ?i = None" using Add(3) synth_keys [OF ok] by simp
    then have "snapshot_apply u s = Some (set_ticker_order ?t ?i (Some x) (s\<lparr>ss_pool := p\<rparr>))"
      using t id Add(1) x(1) by (simp add: snapshot_apply_def Let_def)
    then show ?thesis using x(2,3) Add(4) by simp
  next
    case (Cancel v)
    then have id: "?i > 0 \<and> unat ?i < ME_MAX_ORDER_IDS" by (auto simp: id_valid_def word_gt_0)
    obtain x where x: "ticker_orders s ?t ?i = Some x" "deref (ss_pool s) x = Some v"
      using Cancel(3) by (auto simp: synth_view_def bind_Some_conv)
    have "dispose x (ss_pool s) = Some (drop_slot x (ss_pool s))"
      using dispose_drop [OF synth_okD(1) [OF ok]] x(2) by simp
    then have "snapshot_apply u s = Some (set_ticker_order ?t ?i None (s\<lparr>ss_pool := drop_slot x (ss_pool s)\<rparr>))"
      using t id Cancel(1,4) x quotes_okD(2) [OF q Cancel(3)] by (simp add: snapshot_apply_def Let_def)
    then show ?thesis using synth_cancel [OF ok x(1)] Cancel(6) by simp
  next
    case (Modify v)
    then have id: "?i > 0 \<and> unat ?i < ME_MAX_ORDER_IDS" by (auto simp: id_valid_def word_gt_0)
    obtain x where x: "ticker_orders s ?t ?i = Some x" "deref (ss_pool s) x = Some v"
      using Modify(3) by (auto simp: synth_view_def bind_Some_conv)
    let ?f = "\<lambda>v. v\<lparr>mu_qty := mu_qty u, mu_price := mu_price u\<rparr>"
    have "snapshot_apply u s = Some (s\<lparr>ss_pool := poke x ?f (ss_pool s)\<rparr>)"
      using t id Modify(1,4) x quotes_okD(2) [OF q Modify(3)] by (simp add: snapshot_apply_def Let_def modify_poke)
    moreover have "?f v = v\<lparr>mu_qty := mu_qty u\<rparr>" using Modify(5) by (cases v) simp
    ultimately show ?thesis using synth_modify [OF ok x, of ?f] Modify(7) by simp
  qed
qed

interpretation synth: replica snapshot_apply synth_view synth_ok incremental_type synth_fits
  by unfold_locales (rule snapshot_apply_refines)

subsection \<open>Numbered updates\<close>

text \<open>The frames of an incremental stream: numbers from 1, no snapshot fields.\<close>

definition inc_frame :: "nat \<Rightarrow> MEMarketUpdate \<Rightarrow> MDPMarketUpdate" where
  "inc_frame k u = \<lparr>md_seq_num = of_nat k, md_update = u, md_snapshot_cycle = 0, md_watermark = 0, md_state_hash = 0\<rparr>"

definition numbered :: "nat \<Rightarrow> MEMarketUpdate list \<Rightarrow> MDPMarketUpdate list" where
  "numbered k us = map (\<lambda>(i, u). inc_frame i u) (enumerate k us)"

lemma numbered_simps [simp]:
  "numbered k [] = []" "numbered k (u # us) = inc_frame k u # numbered (Suc k) us"
  "numbered k (us @ vs) = numbered k us @ numbered (k + length us) vs"
  by (simp_all add: numbered_def enumerate_append_eq)

lemma length_numbered [simp]: "length (numbered k us) = length us"
  by (simp add: numbered_def)

lemma nth_numbered: "n < length us \<Longrightarrow> numbered k us ! n = inc_frame (k + n) (us ! n)"
  by (simp add: numbered_def nth_enumerate_eq)

lemma snapshot_apply_seq: "snapshot_apply u s = Some s' \<Longrightarrow> last_inc_seq_num s' = last_inc_seq_num s"
  by (auto simp: snapshot_apply_def Let_def set_ticker_order_def bind_Some_conv split: if_splits option.splits prod.splits)

lemma synth_seq [simp]:
  "synth_view (s\<lparr>last_inc_seq_num := n\<rparr>) = synth_view s" "synth_ok (s\<lparr>last_inc_seq_num := n\<rparr>) = synth_ok s"
  by (simp_all add: synth_view_def synth_ok_def fun_eq_iff)

lemma add_numbered:
  assumes "replay snapshot_apply us s = Some s'" "last_inc_seq_num s = of_nat k"
  shows "\<exists>r. replay addToSnapshot (numbered (Suc k) us) s = Some r \<and> last_inc_seq_num r = of_nat (k + length us) \<and>
     synth_view r = synth_view s' \<and> synth_ok r = synth_ok s' \<and> ss_cycle r = ss_cycle s'"
  using assms
proof (induct us arbitrary: s s' k)
  case Nil then show ?case by simp
next
  case (Cons u us)
  then obtain s1 where s1: "snapshot_apply u s = Some s1" "replay snapshot_apply us s1 = Some s'"
    by (auto simp: bind_Some_conv)
  let ?s = "s1\<lparr>last_inc_seq_num := of_nat (Suc k)\<rparr>"
  have a: "addToSnapshot (inc_frame (Suc k) u) s = Some ?s"
    using s1(1) snapshot_apply_seq [OF s1(1)] Cons.prems(2) by (simp add: addToSnapshot_def inc_frame_def)
  have frame: "snapshot_apply u (s\<lparr>last_inc_seq_num := n\<rparr>) = map_option (\<lambda>s. s\<lparr>last_inc_seq_num := n\<rparr>) (snapshot_apply u s)"
    for u s n
    by (cases "mu_type u") (auto simp: snapshot_apply_def Let_def set_ticker_order_def split: option.splits prod.splits bind_splits)
  have run: "replay snapshot_apply us (s\<lparr>last_inc_seq_num := n\<rparr>) = map_option (\<lambda>s. s\<lparr>last_inc_seq_num := n\<rparr>) (replay snapshot_apply us s)"
    for us s n
    by (induct us arbitrary: s) (auto simp: frame map_option_bind option.map_comp split: bind_split)
  have "replay snapshot_apply us ?s = Some (s'\<lparr>last_inc_seq_num := of_nat (Suc k)\<rparr>)" using run s1(2) by simp
  from Cons.hyps [OF this, of "Suc k"] a show ?case by simp
qed

lemma synth_new:
  assumes "SnapshotSynthesizer_new nanos = Some s"
  shows "synth_ok s" "synth_view s = no_quotes" "last_inc_seq_num s = 0" "ss_cycle s = nanos" "ss_socket s = McastSocket_open"
proof -
  obtain p where p: "MemPool_new ME_MAX_ORDER_IDS = Some p" and s: "s = \<lparr>ticker_orders = (\<lambda>_ _. None), last_inc_seq_num = 0,
      ss_cycle = nanos, last_snapshot_time = 0, ss_pool = p, ss_socket = McastSocket_open\<rparr>"
    using assms by (auto simp: SnapshotSynthesizer_new_def bind_Some_conv)
  show "synth_ok s" using MemPool_new_Some [OF p] by (auto simp: s synth_ok_def)
  show "synth_view s = no_quotes" by (simp add: s synth_view_def no_quotes_def fun_eq_iff)
qed (use assms in \<open>auto simp: SnapshotSynthesizer_new_def bind_Some_conv\<close>)

lemma synth_new_ok: "\<exists>s. SnapshotSynthesizer_new nanos = Some s"
proof -
  obtain p where "MemPool_new ME_MAX_ORDER_IDS = Some (p :: MEMarketUpdate MemPool)"
    using MemPool_new_ok [of ME_MAX_ORDER_IDS] by (auto simp: limits)
  then show ?thesis by (simp add: SnapshotSynthesizer_new_def)
qed

text \<open>Each update adds at most one quote, so short streams always fit.\<close>

lemma step_card:
  assumes "quote_step u Q = Some Q'" "quotes_ok Q" shows "card (live_keys Q') \<le> Suc (card (live_keys Q))"
proof -
  have "live_keys Q' \<subseteq> insert (unat (mu_ticker_id u), mu_order_id u) (live_keys Q)"
    using assms(1) by (cases rule: quote_stepE) (auto simp: live_keys_def quote_put_def split: if_splits)
  then have "card (live_keys Q') \<le> card (insert (unat (mu_ticker_id u), mu_order_id u) (live_keys Q))"
    using finite_live_keys [OF assms(2)] by (intro card_mono) auto
  also have "\<dots> \<le> Suc (card (live_keys Q))" by (rule card_insert_le_m1) simp_all
  finally show ?thesis .
qed

lemma replay_card: "replay quote_step us Q = Some Q' \<Longrightarrow> quotes_ok Q \<Longrightarrow> card (live_keys Q') \<le> card (live_keys Q) + length us"
proof (induct us arbitrary: Q)
  case (Cons u us)
  then obtain R where "quote_step u Q = Some R" "replay quote_step us R = Some Q'" by (auto simp: bind_Some_conv)
  with Cons.hyps [of R] step_card [of u Q R] quote_step_ok [of u Q R] Cons.prems(2) show ?case by simp
qed simp

lemma short_fits: "replay quote_step us no_quotes = Some Q \<Longrightarrow> length us \<le> ME_MAX_ORDER_IDS \<Longrightarrow> synth_fits Q"
  using replay_card [of us no_quotes Q, OF _ no_quotes_ok] by (simp add: synth_fits_def live_keys_def no_quotes_def)

lemma feed_tracked:
  assumes "SnapshotSynthesizer_new nanos = Some s0" "replay quote_step us no_quotes = Some Q" "list_all incremental_type us"
    "\<And>n R. replay quote_step (take n us) no_quotes = Some R \<Longrightarrow> synth_fits R"
  shows "\<exists>s. replay addToSnapshot (numbered 1 us) s0 = Some s \<and> synth_ok s \<and> synth_view s = Q \<and>
     last_inc_seq_num s = of_nat (length us) \<and> ss_cycle s = nanos"
proof -
  note N = synth_new [OF assms(1)]
  have cycle: "snapshot_apply u s = Some s' \<Longrightarrow> ss_cycle s' = ss_cycle s" for u s s'
    by (auto simp: snapshot_apply_def Let_def set_ticker_order_def bind_Some_conv split: if_splits option.splits prod.splits)
  have cycles: "replay snapshot_apply us s = Some s' \<Longrightarrow> ss_cycle s' = ss_cycle s" for us s s'
    by (induct us arbitrary: s) (auto simp: bind_Some_conv dest: cycle)
  obtain s where "replay snapshot_apply us s0 = Some s" "synth_ok s" "synth_view s = Q"
    using synth.replay_refines [of us s0 Q] assms(2-4) N(1,2) no_quotes_ok by auto
  with add_numbered [of us s0 s 0] N(3,4) cycles show ?thesis by auto
qed

subsection \<open>The orders of a snapshot\<close>

definition live_of :: "Quotes \<Rightarrow> nat \<Rightarrow> MEMarketUpdate list" where
  "live_of Q t = List.map_filter (\<lambda>i. Q t (of_nat i)) [0..<ME_MAX_ORDER_IDS]"

lemma those_Some: "(\<And>x. x \<in> set xs \<Longrightarrow> f x \<noteq> None) \<Longrightarrow> those (map f xs) = Some (map (the \<circ> f) xs)"
proof (induct xs)
  case (Cons x xs)
  obtain y where "f x = Some y" using Cons.prems [of x] by auto
  with Cons show ?case by simp
qed simp

lemma ticker_live_view:
  assumes ok: "synth_ok s" shows "ticker_live s t = Some (live_of (synth_view s) t)"
proof -
  let ?xs = "List.map_filter (\<lambda>i. ticker_orders s t (of_nat i)) [0..<ME_MAX_ORDER_IDS]"
  have "deref (ss_pool s) x \<noteq> None" if "x \<in> set ?xs" for x
    using that synth_okD(3) [OF ok] by (auto simp: List.map_filter_def)
  then have "ticker_live s t = Some (map (the \<circ> deref (ss_pool s)) ?xs)"
    unfolding ticker_live_def by (rule those_Some)
  moreover have "map (the \<circ> deref (ss_pool s)) ?xs = live_of (synth_view s) t"
  proof -
    have f: "filter (\<lambda>i. synth_view s t (of_nat i) \<noteq> None) is = filter (\<lambda>i. ticker_orders s t (of_nat i) \<noteq> None) is" for "is"
      by (rule filter_cong) (simp_all add: synth_keys [OF ok])
    show ?thesis unfolding live_of_def List.map_filter_def f map_map
      by (rule map_cong) (auto simp: synth_view_def)
  qed
  ultimately show ?thesis by simp
qed

lemma publish_frames_framed:
  assumes "publish_frames sys fs k = Some k'" "framed MarketSize xs k"
  shows "framed MarketSize (xs @ map encode_market fs) k'"
  using assms
proof (induct fs arbitrary: k xs)
  case (Cons f fs)
  then obtain k1 b k2 where k: "send_mc sys (encode_market f) k = Some (True, k1)" "sendAndRecv_mc sys k1 = Some (b, k2)"
    "publish_frames sys fs k2 = Some k'" by (auto simp: bind_Some_conv split: if_splits)
  have "length (encode_market f) = MarketSize" by (simp add: encode_market_def limits Let_def put_i64_def)
  then have "framed MarketSize (xs @ [encode_market f]) k1" using framed_send [OF Cons.prems(2) k(1)] by simp
  from Cons.hyps [OF k(3) framed_sendAndRecv [OF this k(2)]] show ?case by simp
qed simp

lemma publish_framed:
  assumes "publishSnapshot sys s = Some s'" "synth_ok s" "framed MarketSize xs (ss_socket s)"
  shows "framed MarketSize (xs @ map encode_market (cycle_frames (ss_cycle s + 1) (last_inc_seq_num s) (live_of (synth_view s)))) (ss_socket s')
     \<and> ss_cycle s' = ss_cycle s + 1"
proof -
  have l: "those (map (ticker_live s) [0..<ME_MAX_TICKERS]) = Some (map (live_of (synth_view s)) [0..<ME_MAX_TICKERS])"
    using ticker_live_view [OF assms(2)] by (subst those_Some) (auto simp: comp_def)
  have c: "cycle_frames c w ((!) (map (live_of Q) [0..<ME_MAX_TICKERS])) = cycle_frames c w (live_of Q)" for c w Q
  proof -
    have "map ((!) (map (live_of Q) [0..<ME_MAX_TICKERS])) [0..<ME_MAX_TICKERS] = map (live_of Q) [0..<ME_MAX_TICKERS]"
      "map (\<lambda>t. clear_event t # (map (live_of Q) [0..<ME_MAX_TICKERS]) ! t) [0..<ME_MAX_TICKERS] =
       map (\<lambda>t. clear_event t # live_of Q t) [0..<ME_MAX_TICKERS]" by (rule map_cong; simp)+
    then show ?thesis unfolding cycle_frames_def cycle_events_def by (simp only:)
  qed
  obtain k b k' where k: "publish_frames sys (cycle_frames (ss_cycle s + 1) (last_inc_seq_num s) (live_of (synth_view s))) (ss_socket s) = Some k"
    "sendAndRecv_mc sys k = Some (b, k')" "s' = s\<lparr>ss_cycle := ss_cycle s + 1, ss_socket := k'\<rparr>"
    using assms(1) by (auto simp: publishSnapshot_def l c bind_Some_conv Let_def)
  show ?thesis using framed_sendAndRecv [OF publish_frames_framed [OF k(1) assms(3)] k(2)] k(3) by simp
qed

text \<open>A kernel that takes every frame at once.\<close>

lemma publish_frames_total:
  assumes "\<And>n. sys n = (Tx MarketSize, Rx_None)" "mc_open k" "mc_out k = []"
  shows "\<exists>k'. publish_frames sys fs k = Some k' \<and> mc_open k' \<and> mc_out k' = []"
  using assms(2,3)
proof (induct fs arbitrary: k)
  case (Cons f fs)
  have l: "length (encode_market f) = MarketSize" by (simp add: encode_market_def limits Let_def put_i64_def)
  then have s: "send_mc sys (encode_market f) k = Some (True, k\<lparr>mc_out := encode_market f\<rparr>)"
    using Cons.prems(2) by (intro send_after_flush) (auto simp: limits)
  have ne: "encode_market f \<noteq> []" using l by (auto simp: limits)
  obtain k1 where k1: "sendAndRecv_mc sys (k\<lparr>mc_out := encode_market f\<rparr>) = Some (False, k1)" "mc_open k1" "mc_out k1 = []"
    using Cons.prems(1) assms(1) l ne by (simp add: sendAndRecv_mc_def mcast_transmit_def mcast_receive_def)
  from Cons.hyps [OF k1(2,3)] s k1(1) show ?case by simp
qed simp

subsection \<open>Properties\<close>

text \<open>C25: the synthesizer follows the public feed. A consistent stream of incremental updates, numbered from 1, whose
  resting orders never exceed the pool is applied without a failed assertion, and afterwards the synthesizer holds
  exactly the quotes the stream describes, with the last number as its watermark.\<close>

theorem snapshot_tracks_feed:
  assumes "SnapshotSynthesizer_new nanos = Some s0" "replay quote_step us no_quotes = Some Q" "list_all incremental_type us"
    "\<forall>n R. replay quote_step (take n us) no_quotes = Some R \<longrightarrow> synth_fits R"
  shows "\<exists>s. replay addToSnapshot (numbered 1 us) s0 = Some s \<and> synth_view s = Q \<and> last_inc_seq_num s = of_nat (length us)"
  using feed_tracked [OF assms(1-3)] assms(4) by blast

lemma snapshot_tracks_feed_witness:
  "\<exists>s0 s. SnapshotSynthesizer_new 7 = Some s0 \<and>
     replay addToSnapshot (numbered 1 [mk_update Mkt_ADD 1 2 BUY 100 10 1, mk_update Mkt_MODIFY 1 2 BUY 100 4 1]) s0 = Some s \<and>
     synth_view s 2 1 = Some (mk_update Mkt_ADD 1 2 BUY 100 4 1) \<and> last_inc_seq_num s = 2"
proof -
  let ?us = "[mk_update Mkt_ADD 1 2 BUY 100 10 1, mk_update Mkt_MODIFY 1 2 BUY 100 4 1]"
  let ?Q = "quote_put 2 1 (Some (mk_update Mkt_ADD 1 2 BUY 100 4 1)) (quote_put 2 1 (Some (mk_update Mkt_ADD 1 2 BUY 100 10 1)) no_quotes)"
  obtain s0 where s0: "SnapshotSynthesizer_new 7 = Some s0" using synth_new_ok by blast
  have r: "replay quote_step ?us no_quotes = Some ?Q"
    by (simp add: quote_step_def Let_def add_valid_def id_valid_def qty_valid_def price_valid_def side_valid_def limits
        no_quotes_def quote_put_def mk_update_def)
  have fits: "synth_fits R" if "replay quote_step (take n ?us) no_quotes = Some R" for n R
  proof (rule short_fits [OF that])
    have "length (take n ?us) \<le> 2" by simp
    then show "length (take n ?us) \<le> ME_MAX_ORDER_IDS" unfolding limits by (rule order_trans) simp
  qed
  have "list_all incremental_type ?us" by (simp add: incremental_type_def)
  with snapshot_tracks_feed [OF s0 r] fits obtain s where "replay addToSnapshot (numbered 1 ?us) s0 = Some s"
    "synth_view s = ?Q" "last_inc_seq_num s = of_nat (length ?us)" by blast
  with s0 show ?thesis by (intro exI [of _ s0] exI [of _ s]) (simp add: quote_put_def)
qed

text \<open>C26: the pool bound is real. With as many resting orders, over all tickers, as the pool has slots
  (\<open>ME_MAX_ORDER_IDS\<close>, which is what a single book may hold), the next valid ADD ends the process.\<close>

theorem snapshot_pool_exhausted:
  assumes "synth_ok s" "card (live_keys (synth_view s)) = ME_MAX_ORDER_IDS" "mu_type u = Mkt_ADD"
  shows "addToSnapshot \<lparr>md_seq_num = last_inc_seq_num s + 1, md_update = u, md_snapshot_cycle = 0, md_watermark = 0, md_state_hash = 0\<rparr> s = None"
proof -
  have "available (ss_pool s) = 0" using synth_available [OF assms(1)] assms(2) by simp
  then have "allocate u (ss_pool s) = (None, ss_pool s)" by (rule allocate_empty)
  then have "snapshot_apply u s = None" using assms(3) by (auto simp: snapshot_apply_def Let_def split: option.splits)
  then show ?thesis by (simp add: addToSnapshot_def)
qed

text \<open>A feed of plain ADDs that fills the pool.\<close>

definition plain_add :: "nat \<times> nat \<Rightarrow> MEMarketUpdate" where
  "plain_add k = mk_update Mkt_ADD (of_nat (snd k)) (of_nat (fst k)) BUY 100 1 1"

lemma plain_adds_replay:
  assumes "distinct ks" "\<forall>k \<in> set ks. fst k < ME_MAX_TICKERS \<and> 0 < snd k \<and> snd k < ME_MAX_ORDER_IDS"
    "\<forall>k \<in> set ks. (fst k, of_nat (snd k)) \<notin> live_keys Q"
  shows "\<exists>Q'. replay quote_step (map plain_add ks) Q = Some Q' \<and>
     live_keys Q' = live_keys Q \<union> (\<lambda>k. (fst k, of_nat (snd k))) ` set ks"
  using assms
proof (induct ks arbitrary: Q)
  case (Cons k ks)
  let ?t = "fst k" and ?i = "of_nat (snd k) :: OrderId"
  have k: "?t < ME_MAX_TICKERS" "0 < snd k" "snd k < ME_MAX_ORDER_IDS" "Q ?t ?i = None"
    using Cons.prems(2,3) by (auto simp: live_keys_def)
  have u: "unat (of_nat ?t :: TickerId) = ?t" using k(1) by (simp add: limits unsigned_of_nat take_bit_nat_eq_self)
  have i: "unat ?i = snd k" using k(3) by (simp add: limits unsigned_of_nat take_bit_nat_eq_self)
  then have v: "id_valid ?i" using k(2,3) by (auto simp: id_valid_def)
  let ?Q = "quote_put ?t ?i (Some (plain_add k)) Q"
  have s: "quote_step (plain_add k) Q = Some ?Q"
    using k(1,4) u v by (simp add: plain_add_def quote_step_def Let_def add_valid_def qty_valid_def price_valid_def side_valid_def limits)
  have l: "live_keys ?Q = insert (?t, ?i) (live_keys Q)" using k(4) by (rule live_keys_put)
  have "(fst k', of_nat (snd k')) \<notin> live_keys ?Q" if k': "k' \<in> set ks" for k'
  proof -
    have "k' \<noteq> k" "snd k' < ME_MAX_ORDER_IDS" using Cons.prems(1,2) k' by auto
    moreover from this have "unat (of_nat (snd k') :: OrderId) = snd k'" by (simp add: limits unsigned_of_nat take_bit_nat_eq_self)
    ultimately have "(fst k', of_nat (snd k') :: OrderId) \<noteq> (?t, ?i)" using i by (metis prod_eqI Pair_inject)
    then show ?thesis using Cons.prems(3) k' l by auto
  qed
  from Cons.hyps [OF _ _ ballI [OF this]] Cons.prems(1,2) s l show ?case by auto
qed simp

lemma snapshot_pool_exhausted_witness:
  "\<exists>s. synth_ok s \<and> card (live_keys (synth_view s)) = ME_MAX_ORDER_IDS \<and>
     addToSnapshot \<lparr>md_seq_num = last_inc_seq_num s + 1, md_update = mk_update Mkt_ADD 2 1 BUY 100 1 1, md_snapshot_cycle = 0,
       md_watermark = 0, md_state_hash = 0\<rparr> s = None"
proof -
  define ks where "ks = map (Pair (0 :: nat)) [1..<ME_MAX_ORDER_IDS] @ [(1, 1)]"
  have ks: "distinct ks" "\<forall>k \<in> set ks. fst k < ME_MAX_TICKERS \<and> 0 < snd k \<and> snd k < ME_MAX_ORDER_IDS"
    "length ks = ME_MAX_ORDER_IDS"
    by (auto simp: ks_def distinct_map inj_on_def) (auto simp: limits)
  have "live_keys no_quotes = {}" by (simp add: live_keys_def no_quotes_def)
  with plain_adds_replay [OF ks(1,2)] obtain Q where Q: "replay quote_step (map plain_add ks) no_quotes = Some Q"
    "live_keys Q = (\<lambda>k. (fst k, of_nat (snd k))) ` set ks" by fastforce
  have "inj_on (\<lambda>k. (fst k, of_nat (snd k) :: OrderId)) (set ks)"
  proof (rule inj_onI)
    fix k k' assume "k \<in> set ks" "k' \<in> set ks" "(fst k, of_nat (snd k) :: OrderId) = (fst k', of_nat (snd k'))"
    moreover from this(1,2) have "snd k < 2 ^ 64" "snd k' < 2 ^ 64" using ks(2) by (auto simp: limits)
    then have "unat (of_nat (snd k) :: OrderId) = snd k" "unat (of_nat (snd k') :: OrderId) = snd k'"
      by (simp_all add: unsigned_of_nat take_bit_nat_eq_self)
    ultimately show "k = k'" by (metis prod_eqI Pair_inject)
  qed
  then have card: "card (live_keys Q) = ME_MAX_ORDER_IDS" unfolding Q(2) using ks(1,3) by (simp add: card_image distinct_card)
  obtain s0 where s0: "SnapshotSynthesizer_new 7 = Some s0" using synth_new_ok by blast
  have inc: "list_all incremental_type (map plain_add ks)" by (simp add: list_all_iff plain_add_def incremental_type_def)
  have "synth_fits R" if "replay quote_step (take n (map plain_add ks)) no_quotes = Some R" for n R
    by (rule short_fits [OF that]) (use ks(3) in simp)
  with feed_tracked [OF s0 Q(1) inc] obtain s where "synth_ok s" "synth_view s = Q" by blast
  then show ?thesis using snapshot_pool_exhausted [of s "mk_update Mkt_ADD 2 1 BUY 100 1 1"] card by (intro exI [of _ s]) simp
qed

text \<open>A published snapshot is complete. When \<open>publishSnapshot\<close> returns, everything accepted by the socket before is
  followed by the frames of one whole cycle, in order and never split over datagrams: start marker, for every ticker a
  CLEAR and its resting orders, end marker, all with the new cycle number, the watermark and the digest.\<close>

theorem snapshot_cycle_on_wire:
  assumes "publishSnapshot sys s = Some s'" "synth_ok s" "framed MarketSize xs (ss_socket s)"
  shows "framed MarketSize (xs @ map encode_market (cycle_frames (ss_cycle s + 1) (last_inc_seq_num s) (live_of (synth_view s)))) (ss_socket s')
     \<and> ss_cycle s' = ss_cycle s + 1"
  by (rule publish_framed [OF assms])

lemma snapshot_cycle_on_wire_witness:
  "\<exists>s s'. SnapshotSynthesizer_new 7 = Some s \<and> publishSnapshot (\<lambda>_. (Tx MarketSize, Rx_None)) s = Some s' \<and>
     framed MarketSize ([] @ map encode_market (cycle_frames 8 0 (live_of no_quotes))) (ss_socket s') \<and> ss_cycle s' = 8"
proof -
  let ?sys = "\<lambda>_ :: nat. (Tx MarketSize, Rx_None)"
  obtain s where s: "SnapshotSynthesizer_new 7 = Some s" using synth_new_ok by blast
  note N = synth_new [OF s]
  have "those (map (ticker_live s) [0..<ME_MAX_TICKERS]) = Some (map (the \<circ> ticker_live s) [0..<ME_MAX_TICKERS])"
    by (rule those_Some) (simp add: ticker_live_view [OF N(1)])
  moreover obtain k where "publish_frames ?sys (cycle_frames 8 0 ((!) (map (the \<circ> ticker_live s) [0..<ME_MAX_TICKERS]))) McastSocket_open = Some k"
    "mc_open k" "mc_out k = []"
    using publish_frames_total [of ?sys McastSocket_open] by (force simp: McastSocket_open_def)
  ultimately obtain s' where s': "publishSnapshot ?sys s = Some s'"
    using N(3,4,5) by (simp add: publishSnapshot_def sendAndRecv_mc_def mcast_transmit_def mcast_receive_def)
  from snapshot_cycle_on_wire [OF s' N(1), of "[]"] framed_open [of MarketSize] N(2-5) s s' show ?thesis by auto
qed

end
