(* ===== verification/Market_Recovery_Props.thy ===== *)
theory Market_Recovery_Props
  imports Market_Recovery Snapshot_Synthesizer
begin

text \<open>
  Recovery against the feed of the exchange. \<open>U\<close> is its incremental stream, \<open>W c\<close> the number of updates that snapshot cycle
  \<open>c\<close> covers. Frames may be lost, repeated and reordered. Each increment that arrives is one that was published
  (\<open>frame_ok\<close>); a snapshot frame may also be damaged (\<open>received_ok\<close>), as long as the digest of the snapshot shows it
  (\<open>damage_ok\<close>). Then whatever \<open>build\<close> returns replays to the state of the exchange at its watermark. From authentic frames,
  once a cycle and the increments after it are cached, \<open>build\<close> does return.
\<close>

subsection \<open>The feed\<close>

definition state_at :: "MEMarketUpdate list \<Rightarrow> nat \<Rightarrow> Quotes" where
  "state_at U n = the (replay quote_step (take n U) no_quotes)"

definition snap_frames :: "MEMarketUpdate list \<Rightarrow> (u64 \<Rightarrow> nat) \<Rightarrow> u64 \<Rightarrow> MDPMarketUpdate list" where
  "snap_frames U W c = cycle_frames c (of_nat (W c)) (live_of (state_at U (W c)))"

definition feed_ok :: "MEMarketUpdate list \<Rightarrow> (u64 \<Rightarrow> nat) \<Rightarrow> bool" where
  "feed_ok U W \<longleftrightarrow> replay quote_step U no_quotes \<noteq> None \<and> length U < 2 ^ 63 \<and> (\<forall>c. W c \<le> length U)"

definition frame_ok :: "MEMarketUpdate list \<Rightarrow> (u64 \<Rightarrow> nat) \<Rightarrow> bool \<Rightarrow> MDPMarketUpdate \<Rightarrow> bool" where
  "frame_ok U W snapshot f =
     (if snapshot then f \<in> set (snap_frames U W (md_snapshot_cycle f))
      else \<exists>k < length U. f = inc_frame (Suc k) (U ! k))"

text \<open>The resting orders as the digest takes them.\<close>

definition resting :: "MEMarketUpdate list \<Rightarrow> nat \<Rightarrow> MEMarketUpdate list" where
  "resting U n = concat (map (live_of (state_at U n)) [0..<ME_MAX_TICKERS])"

text \<open>Damage that decodes: \<open>D\<close> are snapshot frames that arrive though they were never published. Any field may be wrong, except
  that a frame numbered 0 carries the watermark and the digest of its cycle. The digest is assumed to do its work on what
  arrives: no choice of the orders in the frames of a damaged cycle has the digest of the resting orders by accident.\<close>

definition cycle_orders :: "MEMarketUpdate list \<Rightarrow> (u64 \<Rightarrow> nat) \<Rightarrow> MDPMarketUpdate set \<Rightarrow> u64 \<Rightarrow> MEMarketUpdate set" where
  "cycle_orders U W D c = {u \<in> md_update ` (set (snap_frames U W c) \<union> {g \<in> D. md_snapshot_cycle g = c}). mu_type u = Mkt_ADD}"

definition damage_ok :: "MEMarketUpdate list \<Rightarrow> (u64 \<Rightarrow> nat) \<Rightarrow> MDPMarketUpdate set \<Rightarrow> bool" where
  "damage_ok U W D \<longleftrightarrow> (\<forall>f \<in> D. let c = md_snapshot_cycle f in
     (md_seq_num f = 0 \<longrightarrow> md_watermark f = of_nat (W c) \<and> md_state_hash f = bookHash (resting U (W c))) \<and>
     (\<forall>xs. distinct xs \<and> set xs \<subseteq> cycle_orders U W D c \<and>
        bookHash xs = bookHash (resting U (W c)) \<longrightarrow> xs = resting U (W c)))"

definition received_ok :: "MEMarketUpdate list \<Rightarrow> (u64 \<Rightarrow> nat) \<Rightarrow> MDPMarketUpdate set \<Rightarrow> bool \<Rightarrow> MDPMarketUpdate \<Rightarrow> bool" where
  "received_ok U W D snapshot f \<longleftrightarrow> frame_ok U W snapshot f \<or> (snapshot \<and> f \<in> D)"

lemma received_simps [simp]:
  "received_ok U W D False f = frame_ok U W False f" "received_ok U W {} snapshot f = frame_ok U W snapshot f" "damage_ok U W {}"
  by (simp_all add: received_ok_def damage_ok_def)

definition channels_ok :: "MEMarketUpdate list \<Rightarrow> (u64 \<Rightarrow> nat) \<Rightarrow> MDPMarketUpdate set \<Rightarrow> bool" where
  "channels_ok U W D \<longleftrightarrow> feed_ok U W \<and> damage_ok U W D"

lemma channels_okD: "channels_ok U W D \<Longrightarrow> feed_ok U W" "channels_ok U W D \<Longrightarrow> damage_ok U W D"
  by (simp_all add: channels_ok_def)

lemma damage_detected:
  assumes "damage_ok U W D" "f \<in> D" "distinct xs" "set xs \<subseteq> cycle_orders U W D (md_snapshot_cycle f)"
    "bookHash xs = bookHash (resting U (W (md_snapshot_cycle f)))"
  shows "xs = resting U (W (md_snapshot_cycle f))"
  using assms unfolding damage_ok_def Let_def by blast

lemma state_at_step:
  assumes "feed_ok U W" "m \<le> n" "n \<le> length U"
  shows "replay quote_step (drop m (take n U)) (state_at U m) = Some (state_at U n)"
    "quotes_ok (state_at U n)"
proof -
  obtain Q where Q: "replay quote_step U no_quotes = Some Q" using assms(1) by (auto simp: feed_ok_def)
  have at: "replay quote_step (take n U) no_quotes = Some (state_at U n)" for n
    using replay_take [OF Q, of n] by (auto simp: state_at_def)
  have "take n U = take m U @ drop m (take n U)" using assms(2) by (metis append_take_drop_id min.absorb1 take_take)
  then show "replay quote_step (drop m (take n U)) (state_at U m) = Some (state_at U n)"
    using at [of n] replay_appendI [OF at [of m], of "drop m (take n U)"] by simp
  show "quotes_ok (state_at U n)" using replay_ok [OF at no_quotes_ok] .
qed

subsection \<open>Replaying a snapshot\<close>

lemma adds_replay:
  assumes Q: "quotes_ok Q" and t: "t < ME_MAX_TICKERS" and m: "m \<le> ME_MAX_ORDER_IDS"
  shows "replay quote_step (List.map_filter (\<lambda>i. Q t (of_nat i)) [0..<m]) (Q0(t := (\<lambda>_. None))) =
     Some (Q0(t := (\<lambda>i. if unat i < m then Q t i else None)))"
  using m
proof (induct m)
  case (Suc m)
  let ?R = "\<lambda>m. Q0(t := (\<lambda>i. if unat i < m then Q t i else None))"
  let ?i = "of_nat m :: OrderId"
  have i: "unat ?i = m" using Suc.prems by (simp add: limits unsigned_of_nat take_bit_nat_eq_self)
  have IH: "replay quote_step (List.map_filter (\<lambda>i. Q t (of_nat i)) [0..<m]) (Q0(t := (\<lambda>_. None))) = Some (?R m)"
    by (rule Suc.hyps) (use Suc.prems in simp)
  have split: "List.map_filter (\<lambda>i. Q t (of_nat i)) [0..<Suc m] = List.map_filter (\<lambda>i. Q t (of_nat i)) [0..<m] @
      (case Q t ?i of None \<Rightarrow> [] | Some v \<Rightarrow> [v])"
    by (simp add: List.map_filter_def split: option.split)
  have eqi: "unat j < Suc m \<longleftrightarrow> unat j < m \<or> j = ?i" for j :: OrderId using i by (metis less_Suc_eq word_unat_eq_iff)
  have "replay quote_step (case Q t ?i of None \<Rightarrow> [] | Some v \<Rightarrow> [v]) (?R m) = Some (?R (Suc m))"
  proof (cases "Q t ?i")
    case None then show ?thesis using eqi by (auto simp: fun_eq_iff)
  next
    case (Some v)
    note v = quotes_okD [OF Q Some]
    have "mu_type v = Mkt_ADD" using v(4) by (simp add: add_valid_def)
    then have "quote_step v (?R m) = Some (quote_put t ?i (Some v) (?R m))"
      using v t i by (simp add: quote_step_def Let_def)
    moreover have "quote_put t ?i (Some v) (?R m) = ?R (Suc m)"
      using eqi Some by (auto simp: quote_put_def fun_eq_iff)
    ultimately show ?thesis using Some by simp
  qed
  then show ?case unfolding split replay_appendI [OF IH] .
qed simp

lemma live_replay:
  assumes Q: "quotes_ok Q" and t: "t < ME_MAX_TICKERS"
  shows "replay quote_step (clear_event t # live_of Q t) Q0 = Some (Q0(t := Q t))"
proof -
  have u: "unat (of_nat t :: TickerId) = t" using t by (simp add: limits unsigned_of_nat take_bit_nat_eq_self)
  have c: "quote_step (clear_event t) Q0 = Some (Q0(t := (\<lambda>_. None)))"
    using t u by (simp add: quote_step_def Let_def clear_event_def marker_def MEMarketUpdate_default_def)
  have "(\<lambda>i. if unat i < ME_MAX_ORDER_IDS then Q t i else None) = Q t"
  proof
    fix i show "(if unat i < ME_MAX_ORDER_IDS then Q t i else None) = Q t i"
      using quotes_okD(2,4) [OF Q, of t i] by (cases "Q t i") (auto simp: add_valid_def id_valid_def)
  qed
  then show ?thesis using adds_replay [OF Q t, of ME_MAX_ORDER_IDS Q0] c by (simp add: live_of_def)
qed

lemma snapshot_replay:
  assumes Q: "quotes_ok Q" and n: "n \<le> ME_MAX_TICKERS"
  shows "replay quote_step (concat (map (\<lambda>t. clear_event t # live_of Q t) [0..<n])) Q0 = Some (\<lambda>t. if t < n then Q t else Q0 t)"
  using n
proof (induct n)
  case (Suc n)
  have IH: "replay quote_step (concat (map (\<lambda>t. clear_event t # live_of Q t) [0..<n])) Q0 = Some (\<lambda>t. if t < n then Q t else Q0 t)"
    using Suc by simp
  have "concat (map (\<lambda>t. clear_event t # live_of Q t) [0..<Suc n]) =
      concat (map (\<lambda>t. clear_event t # live_of Q t) [0..<n]) @ (clear_event n # live_of Q n)" by simp
  moreover have "(\<lambda>t. if t < n then Q t else Q0 t)(n := Q n) = (\<lambda>t. if t < Suc n then Q t else Q0 t)"
    by (auto simp: fun_eq_iff less_Suc_eq)
  ultimately show ?case using live_replay [OF Q, of n "\<lambda>t. if t < n then Q t else Q0 t"] Suc.prems
    by (simp only: replay_appendI [OF IH] Suc_le_eq)
qed simp

text \<open>Where quotes beyond the last ticker do not exist, a snapshot replaces every earlier state, consistent or not.\<close>

definition listed :: "Quotes \<Rightarrow> bool" where
  "listed Q \<longleftrightarrow> (\<forall>t. ME_MAX_TICKERS \<le> t \<longrightarrow> Q t = (\<lambda>_. None))"

lemma quotes_ok_listed: "quotes_ok Q \<Longrightarrow> listed Q"
  unfolding listed_def by (meson ext not_None_eq not_le quotes_okD(1))

lemma snapshot_replaces:
  assumes "quotes_ok Q" "listed Q0"
  shows "replay quote_step (concat (map (\<lambda>t. clear_event t # live_of Q t) [0..<ME_MAX_TICKERS])) Q0 = Some Q"
proof -
  have "(\<lambda>t. if t < ME_MAX_TICKERS then Q t else Q0 t) = Q"
    using quotes_ok_listed [OF assms(1)] assms(2) by (intro ext) (simp add: listed_def)
  then show ?thesis using snapshot_replay [OF assms(1) order_refl, of Q0] by simp
qed

subsection \<open>The frames of a cycle\<close>

definition snap_events :: "Quotes \<Rightarrow> MEMarketUpdate list" where
  "snap_events Q = concat (map (\<lambda>t. clear_event t # live_of Q t) [0..<ME_MAX_TICKERS])"

lemma clear_event_simps [simp]:
  "mu_type (clear_event t) = Mkt_CLEAR" "t < ME_MAX_TICKERS \<Longrightarrow> unat (mu_ticker_id (clear_event t)) = t"
  by (simp_all add: clear_event_def marker_def limits unsigned_of_nat take_bit_nat_eq_self)

lemma cycle_events_live: "cycle_events w (live_of Q) = marker Mkt_SNAPSHOT_START w # snap_events Q @ [marker Mkt_SNAPSHOT_END w]"
  by (simp add: cycle_events_def snap_events_def)

lemma live_of_in: "v \<in> set (live_of Q t) \<Longrightarrow> \<exists>i. Q t i = Some v"
  by (auto simp: live_of_def List.map_filter_def)

lemma snap_events_types:
  assumes "quotes_ok Q" "u \<in> set (snap_events Q)" shows "mu_type u \<in> {Mkt_CLEAR, Mkt_ADD}"
proof -
  from assms(2) obtain t where "u = clear_event t \<or> u \<in> set (live_of Q t)" by (auto simp: snap_events_def)
  then show ?thesis
  proof
    assume "u \<in> set (live_of Q t)"
    then obtain i where "Q t i = Some u" using live_of_in by blast
    then show ?thesis using quotes_okD(4) [OF assms(1)] by (auto simp: add_valid_def)
  qed (simp add: clear_event_def marker_def)
qed

lemma length_map_filter: "length (List.map_filter f xs) \<le> length xs"
  by (simp add: List.map_filter_def)

lemma snap_events_length: "length (snap_events Q) < 2 ^ 32"
proof -
  have "sum_list (map (\<lambda>t. length (clear_event t # live_of Q t)) [0..<ME_MAX_TICKERS]) \<le>
      sum_list (map (\<lambda>t. Suc ME_MAX_ORDER_IDS) [0..<ME_MAX_TICKERS])"
    using length_map_filter [where xs = "[0..<ME_MAX_ORDER_IDS]"] by (intro sum_list_mono) (simp add: live_of_def)
  also have "\<dots> < 2 ^ 32" by (simp add: sum_list_triv limits)
  finally show ?thesis by (simp add: snap_events_def length_concat comp_def)
qed

lemma snap_frames_nth:
  defines "Q \<equiv> \<lambda>U W c. state_at U (W (c :: u64))"
  shows "length (snap_frames U W c) = length (snap_events (Q U W c)) + 2"
    "k < length (snap_frames U W c) \<Longrightarrow> snap_frames U W c ! k =
       \<lparr>md_seq_num = of_nat k, md_update = cycle_events (of_nat (W c)) (live_of (Q U W c)) ! k, md_snapshot_cycle = c,
        md_watermark = of_nat (W c), md_state_hash = bookHash (concat (map (live_of (Q U W c)) [0..<ME_MAX_TICKERS]))\<rparr>"
proof -
  show len: "length (snap_frames U W c) = length (snap_events (Q U W c)) + 2"
    by (simp add: snap_frames_def cycle_frames_def Let_def Q_def cycle_events_live)
  show "k < length (snap_frames U W c) \<Longrightarrow> snap_frames U W c ! k =
       \<lparr>md_seq_num = of_nat k, md_update = cycle_events (of_nat (W c)) (live_of (Q U W c)) ! k, md_snapshot_cycle = c,
        md_watermark = of_nat (W c), md_state_hash = bookHash (concat (map (live_of (Q U W c)) [0..<ME_MAX_TICKERS]))\<rparr>"
    by (simp add: snap_frames_def cycle_frames_def Let_def Q_def nth_enumerate_eq del: enumerate_simps)
qed

lemma snap_frames_cycle: "f \<in> set (snap_frames U W c) \<Longrightarrow> md_snapshot_cycle f = c"
  "f \<in> set (snap_frames U W c) \<Longrightarrow> md_watermark f = of_nat (W c)"
  "f \<in> set (snap_frames U W c) \<Longrightarrow> md_state_hash f = bookHash (resting U (W c))"
  by (auto simp: in_set_conv_nth snap_frames_nth(2) resting_def)

lemma of_nat_inj_64: "m < 2 ^ 64 \<Longrightarrow> n < 2 ^ 64 \<Longrightarrow> (of_nat m :: u64) = of_nat n \<longleftrightarrow> m = n"
  by (simp add: word_unat_eq_iff unsigned_of_nat take_bit_nat_eq_self)

subsection \<open>Caches hold authentic frames\<close>

definition rec_ok :: "MEMarketUpdate list \<Rightarrow> (u64 \<Rightarrow> nat) \<Rightarrow> MDPMarketUpdate set \<Rightarrow> MarketRecovery \<Rightarrow> bool" where
  "rec_ok U W D m \<longleftrightarrow> om_ok (mr_snapshot m) \<and> om_ok (mr_incremental m) \<and>
     (\<forall>(k, f) \<in> set (mr_snapshot m). k = md_seq_num f \<and> (f \<in> set (snap_frames U W (mr_cycle m)) \<or> f \<in> D \<and> md_snapshot_cycle f = mr_cycle m)) \<and>
     (\<forall>(k, f) \<in> set (mr_incremental m). k = md_seq_num f \<and> frame_ok U W False f)"

lemma rec_ok_frame [simp]:
  "rec_ok U W D (m\<lparr>mr_recovering := b\<rparr>) = rec_ok U W D m" "rec_ok U W D (m\<lparr>mr_invalid_cycle := b\<rparr>) = rec_ok U W D m"
  "rec_ok U W D (m\<lparr>mr_expected := x\<rparr>) = rec_ok U W D m" "rec_ok U W D (m\<lparr>mr_duplicates := x\<rparr>) = rec_ok U W D m"
  "rec_ok U W D (m\<lparr>mr_invalid := x\<rparr>) = rec_ok U W D m" "rec_ok U W D (m\<lparr>mr_overflows := x\<rparr>) = rec_ok U W D m"
  "rec_ok U W D (m\<lparr>mr_gaps := x\<rparr>) = rec_ok U W D m" "rec_ok U W D (m\<lparr>mr_hash_failures := x\<rparr>) = rec_ok U W D m"
  "rec_ok U W D (m\<lparr>mr_recoveries := x\<rparr>) = rec_ok U W D m"
  by (simp_all add: rec_ok_def)

lemma rec_ok_drop [simp]: "rec_ok U W D m \<Longrightarrow> rec_ok U W D (m\<lparr>mr_snapshot := []\<rparr>)"
  "rec_ok U W D m \<Longrightarrow> rec_ok U W D (m\<lparr>mr_incremental := []\<rparr>)"
  by (simp_all add: rec_ok_def)

lemma restart_rec [simp]: "rec_ok U W D (restart m)"
  by (simp add: rec_ok_def restart_def)

lemma live_rec: "rec_ok U W D m \<Longrightarrow> rec_ok U W D (snd (liveCandidate f m))"
  by (simp add: liveCandidate_def)

lemma om_emplace_set: "set (om_emplace k v m) \<subseteq> insert (k, v) (set m)"
  by (induct m rule: om_emplace.induct) auto

lemma cache_rec:
  assumes "rec_ok U W D m" "received_ok U W D snapshot f" "snapshot \<Longrightarrow> md_snapshot_cycle f = mr_cycle m"
  shows "rec_ok U W D (snd (cache_frame snapshot f m))"
proof -
  have e: "set (om_emplace (md_seq_num f) f c) \<subseteq> insert (md_seq_num f, f) (set c)" for c by (rule om_emplace_set)
  have ins: "rec_ok U W D (if snapshot then m\<lparr>mr_snapshot := om_emplace (md_seq_num f) f (mr_snapshot m)\<rparr>
      else m\<lparr>mr_incremental := om_emplace (md_seq_num f) f (mr_incremental m)\<rparr>)"
    using assms e [of "mr_snapshot m"] e [of "mr_incremental m"] unfolding rec_ok_def
    by (cases snapshot) (auto simp: received_ok_def frame_ok_def)
  show ?thesis
  proof (cases "map_of (if snapshot then mr_snapshot m else mr_incremental m) (md_seq_num f)")
    case None with ins show ?thesis by (auto simp: cache_frame_def Let_def)
  next
    case (Some old) with assms(1) show ?thesis by (auto simp: cache_frame_def Let_def)
  qed
qed

lemma ingest_rec:
  assumes ok: "rec_ok U W D m" and f: "received_ok U W D snapshot f"
  shows "rec_ok U W D (snd (ingest snapshot f m))"
proof -
  have keep: "rec_ok U W D (m\<lparr>mr_cycle := c, mr_snapshot := [], mr_invalid_cycle := False,
      mr_incremental := om_upper w (mr_incremental m)\<rparr>)" for c w
    using ok om_upper_ok [of "mr_incremental m" w] by (auto simp: rec_ok_def om_upper_filter)
  obtain a m1 where a: "admit_snapshot f m = (a, m1)" by fastforce
  have "rec_ok U W D m1" "a \<Longrightarrow> md_snapshot_cycle f = mr_cycle m1"
    using a ok keep by (auto simp: admit_snapshot_def Let_def split: if_splits)
  then show ?thesis using ok f a cache_rec [of U W D m1 snapshot f] cache_rec [of U W D m snapshot f]
    by (auto simp: ingest_def)
qed

subsection \<open>The digests agree\<close>

lemma flatten_live:
  assumes ok: "state_ok st" and q: "quotes_ok (state_view st)"
  shows "flatten st = concat (map (live_of (state_view st)) [0..<ME_MAX_TICKERS])"
proof -
  have "map snd (st t) = live_of (state_view st) t" if t: "t < ME_MAX_TICKERS" for t
  proof -
    let ?Q = "state_view st t"
    let ?g = "\<lambda>i. map_option (Pair (of_nat i :: OrderId)) (?Q (of_nat i))"
    let ?L = "List.map_filter ?g [0..<ME_MAX_ORDER_IDS]"
    have small: "unat (of_nat i :: OrderId) = i" if "i < ME_MAX_ORDER_IDS" for i
      using that by (simp add: limits unsigned_of_nat take_bit_nat_eq_self)
    have keys: "map fst ?L = map of_nat (filter (\<lambda>i. ?Q (of_nat i) \<noteq> None) [0..<ME_MAX_ORDER_IDS])"
      by (auto simp: List.map_filter_def comp_def intro!: map_cong filter_cong)
    have "sorted_wrt (\<lambda>a b. (of_nat a :: OrderId) < of_nat b) [0..<ME_MAX_ORDER_IDS]"
      by (rule sorted_wrt_mono_rel [OF _ sorted_wrt_upt]) (auto simp: word_less_nat_alt small)
    then have okL: "om_ok ?L" unfolding om_ok_def keys sorted_wrt_map by (rule sorted_wrt_filter)
    have "map_of ?L = ?Q"
    proof
      fix i
      show "map_of ?L i = ?Q i"
      proof (cases "?Q i")
        case None
        have "i \<notin> fst ` set ?L" using None by (auto simp: List.map_filter_def)
        then show ?thesis using None by (simp add: map_of_eq_None_iff)
      next
        case (Some v)
        have "id_valid i" using quotes_okD(2,4) [OF q, of t i v] Some by (auto simp: add_valid_def)
        then have "unat i \<in> set [0..<ME_MAX_ORDER_IDS]" "of_nat (unat i) = i" by (simp_all add: id_valid_def)
        then have "(i, v) \<in> set ?L"
          using Some by (auto simp: List.map_filter_def image_iff intro!: bexI [of _ "unat i"])
        then show ?thesis using Some om_in_set [OF okL] by simp
      qed
    qed
    then have "st t = ?L" using om_ext [OF _ okL] ok t by (simp add: state_ok_def state_view_def)
    then show ?thesis by (auto simp: live_of_def List.map_filter_def comp_def intro!: map_cong filter_cong)
  qed
  then show ?thesis unfolding flatten_def by (intro arg_cong [of _ _ concat] map_cong) auto
qed

subsection \<open>The loops of build\<close>

lemma snapshot_loop_events:
  assumes "snapshot_loop w c h l rest cl st ev = Some (cl', st', ev')" "state_ok st"
  defines "mid \<equiv> map (md_update \<circ> snd) (filter (\<lambda>(k, f). k \<noteq> 0 \<and> mu_type (md_update f) \<noteq> Mkt_SNAPSHOT_END) rest)"
  shows "ev' = ev @ mid \<and> state_ok st' \<and> replay quote_step mid (state_view st) = Some (state_view st')"
  using assms
proof (induct w c h l rest cl st ev arbitrary: mid rule: snapshot_loop.induct)
  case (2 w c h l sid f rest cl st ev)
  let ?e = "md_update f"
  show ?case
  proof (cases "sid = 0 \<or> mu_type ?e = Mkt_SNAPSHOT_END")
    case True
    then have "snapshot_loop w c h l rest cl st ev = Some (cl', st', ev')" using 2(4) by (auto simp: Let_def split: if_splits)
    then show ?thesis using 2(1-3) 2(4,5) True by (auto simp: Let_def split: if_splits)
  next
    case False
    then obtain st1 where st1: "apply_event ?e st = Some st1" and g:
      "\<not> (md_watermark f \<noteq> w \<or> md_snapshot_cycle f \<noteq> c \<or> md_state_hash f \<noteq> h)" "\<not> unat (mu_ticker_id ?e) \<ge> ME_MAX_TICKERS"
      "\<not> (mu_type ?e = Mkt_CLEAR \<and> unat (mu_ticker_id ?e) \<in> cl)"
      "\<not> (mu_type ?e \<noteq> Mkt_CLEAR \<and> (mu_type ?e \<noteq> Mkt_ADD \<or> unat (mu_ticker_id ?e) \<notin> cl))"
      "snapshot_loop w c h l rest (if mu_type ?e = Mkt_CLEAR then insert (unat (mu_ticker_id ?e)) cl else cl) st1 (ev @ [?e]) = Some (cl', st', ev')"
      using 2(4) by (auto simp: Let_def split: if_splits option.splits)
    have a: "quote_step ?e (state_view st) = Some (state_view st1)" "state_ok st1" using apply_sound [OF 2(5) st1] by simp_all
    show ?thesis using 2(3) [OF refl refl g(1)] False g(2-5) a st1 by (auto simp: bind_Some_conv)
  qed
qed simp

text \<open>Each ticker is cleared once, before its orders are added; the result is the set of cleared tickers.\<close>

fun cleared_by :: "nat set \<Rightarrow> MEMarketUpdate list \<Rightarrow> nat set option" where
  "cleared_by cl [] = Some cl"
| "cleared_by cl (e # es) =
     (let t = unat (mu_ticker_id e) in
      if ME_MAX_TICKERS \<le> t then None
      else if mu_type e = Mkt_CLEAR then (if t \<in> cl then None else cleared_by (insert t cl) es)
      else if mu_type e = Mkt_ADD \<and> t \<in> cl then cleared_by cl es else None)"

lemma incremental_loop_events:
  assumes "incremental_loop nxt rest st ev = Some (nxt', ev')" "nxt = of_nat (Suc n)" "n \<le> length U" "length U < 2 ^ 63"
    "\<forall>(k, f) \<in> set rest. k = md_seq_num f \<and> frame_ok U W False f"
  shows "\<exists>p. n \<le> p \<and> p \<le> length U \<and> nxt' = of_nat (Suc p) \<and> ev' = ev @ drop n (take p U)"
  using assms
proof (induct nxt rest st ev arbitrary: n rule: incremental_loop.induct)
  case (1 nxt st ev) then show ?case by (intro exI [of _ n]) simp
next
  case (2 nxt sid f rest st ev)
  obtain k where k: "k < length U" "f = inc_frame (Suc k) (U ! k)" "sid = of_nat (Suc k)"
    using 2(6) by (auto simp: frame_ok_def inc_frame_def)
  have "sid = nxt" using 2(2) by (simp split: if_splits)
  then have kn: "k = n" using of_nat_inj_64 [of "Suc k" "Suc n"] k 2(3-5) by simp
  obtain st1 where st1: "apply_event (md_update f) st = Some st1"
    "incremental_loop (nxt + 1) rest st1 (ev @ [md_update f]) = Some (nxt', ev')"
    using 2(2) by (auto split: if_splits option.splits)
  have "\<exists>p. Suc n \<le> p \<and> p \<le> length U \<and> nxt' = of_nat (Suc p) \<and> ev' = (ev @ [md_update f]) @ drop (Suc n) (take p U)"
  proof (rule 2(1) [OF _ st1(1) st1(2)])
    show "\<not> sid \<noteq> nxt" "Suc n \<le> length U" using \<open>sid = nxt\<close> k(1) kn by simp_all
    show "nxt + 1 = of_nat (Suc (Suc n))" using 2(3) by simp
  qed (use 2(5,6) in auto)
  then obtain p where p: "Suc n \<le> p" "p \<le> length U" "nxt' = of_nat (Suc p)" "ev' = ev @ U ! n # drop (Suc n) (take p U)"
    using k(2) kn by (auto simp: inc_frame_def)
  have "drop n (take p U) = U ! n # drop (Suc n) (take p U)"
    using p(1,2) by (subst Cons_nth_drop_Suc [symmetric]) auto
  then show ?case using p by (intro exI [of _ p]) simp
qed

subsection \<open>A complete cycle\<close>

definition keyed :: "MDPMarketUpdate list \<Rightarrow> (u64, MDPMarketUpdate) omap" where
  "keyed fs = map (\<lambda>f. (md_seq_num f, f)) fs"

lemma snap_frames_small: "length (snap_frames U W c) < 2 ^ 33"
  using snap_events_length [of "state_at U (W c)"] by (simp add: snap_frames_nth(1))

lemma snap_frames_keys: "map md_seq_num (snap_frames U W c) = map of_nat [0..<length (snap_frames U W c)]"
  by (rule nth_equalityI) (simp_all add: snap_frames_nth(2))

lemma keyed_ok: "om_ok (keyed (snap_frames U W c))"
proof -
  have "sorted_wrt (<) (map (of_nat :: nat \<Rightarrow> u64) [0..<n])" if "n < 2 ^ 64" for n
    unfolding sorted_wrt_map
    by (rule sorted_wrt_mono_rel [OF _ sorted_wrt_upt])
      (use that in \<open>auto simp: word_less_nat_alt unsigned_of_nat take_bit_nat_eq_self\<close>)
  moreover have "map fst (keyed (snap_frames U W c)) = map of_nat [0..<length (snap_frames U W c)]"
    using snap_frames_keys [of U W c] by (simp add: keyed_def comp_def)
  ultimately show ?thesis using snap_frames_small [of U W c] by (simp add: om_ok_def)
qed

lemma snap_frame_end:
  assumes "feed_ok U W" "k < length (snap_frames U W c)" "mu_type (md_update (snap_frames U W c ! k)) = Mkt_SNAPSHOT_END"
  shows "Suc k = length (snap_frames U W c)"
proof (rule ccontr)
  let ?Q = "state_at U (W c)"
  assume "Suc k \<noteq> length (snap_frames U W c)"
  then have k: "k < Suc (length (snap_events ?Q))" using assms(2) by (simp add: snap_frames_nth(1))
  have q: "quotes_ok ?Q" using assms(1) by (intro state_at_step(2) [OF assms(1) order_refl]) (simp add: feed_ok_def)
  have "md_update (snap_frames U W c ! k) = (marker Mkt_SNAPSHOT_START (of_nat (W c)) # snap_events ?Q) ! k"
    using k by (simp add: snap_frames_nth cycle_events_live nth_append nth_Cons')
  then have "md_update (snap_frames U W c ! k) \<in> insert (marker Mkt_SNAPSHOT_START (of_nat (W c))) (set (snap_events ?Q))"
    using k by (metis length_Cons list.simps(15) nth_mem)
  then show False using assms(3) snap_events_types [OF q] by (fastforce simp: marker_def)
qed

lemma snapshot_complete:
  assumes feed: "feed_ok U W" and ok: "rec_ok U W {} m" and ne: "mr_snapshot m \<noteq> []"
    and end_frame: "mu_type (md_update (snd (last (mr_snapshot m)))) = Mkt_SNAPSHOT_END"
    and size: "md_seq_num (snd (last (mr_snapshot m))) = of_nat (length (mr_snapshot m)) - 1"
  shows "mr_snapshot m = keyed (snap_frames U W (mr_cycle m))"
proof -
  let ?F = "snap_frames U W (mr_cycle m)" and ?S = "mr_snapshot m"
  have sub: "set ?S \<subseteq> set (keyed ?F)" using ok by (auto simp: rec_ok_def keyed_def)
  have dS: "distinct ?S" and okS: "om_ok ?S" using ok om_distinct by (auto simp: rec_ok_def distinct_map)
  have dK: "distinct (keyed ?F)" using om_distinct [OF keyed_ok] by (auto simp: distinct_map)
  have le: "length ?S \<le> length ?F"
    using card_mono [OF _ sub] distinct_card [OF dS] distinct_card [OF dK] by (simp add: keyed_def)
  obtain j where j: "j < length ?F" "last ?S = (of_nat j, ?F ! j)"
    using sub last_in_set [OF ne] by (fastforce simp: keyed_def in_set_conv_nth snap_frames_nth(2))
  then have Suc_j: "Suc j = length ?F" using snap_frame_end [OF feed j(1)] end_frame by simp
  have "of_nat (Suc j) = (of_nat (length ?S) :: u64)" using size j snap_frames_nth(2) [OF j(1)] by simp
  then have "length ?S = length ?F"
    using of_nat_inj_64 [of "Suc j" "length ?S"] snap_frames_small [of U W "mr_cycle m"] le Suc_j by simp
  moreover have "length (keyed ?F) = length ?F" by (simp add: keyed_def)
  ultimately have "set ?S = set (keyed ?F)"
    using sub distinct_card [OF dS] distinct_card [OF dK] by (intro card_subset_eq) simp_all
  then have "map_of ?S = map_of (keyed ?F)"
    using okS keyed_ok by (subst map_of_inject_set) (simp_all add: om_distinct)
  then show ?thesis using om_ext [OF okS keyed_ok] by blast
qed

lemma keyed_events:
  assumes "feed_ok U W"
  shows "map (md_update \<circ> snd) (filter (\<lambda>(k, f). k \<noteq> 0 \<and> mu_type (md_update f) \<noteq> Mkt_SNAPSHOT_END) (keyed (snap_frames U W c)))
     = snap_events (state_at U (W c))"
proof -
  let ?F = "snap_frames U W c" and ?Q = "state_at U (W c)"
  let ?P = "\<lambda>(k :: u64, f). k \<noteq> 0 \<and> mu_type (md_update f) \<noteq> Mkt_SNAPSHOT_END"
  let ?n = "length (snap_events ?Q)"
  have q: "quotes_ok ?Q" using assms by (intro state_at_step(2) [OF assms order_refl]) (simp add: feed_ok_def)
  have "keyed ?F = map (\<lambda>k. (of_nat k, ?F ! k)) [0..<length ?F]"
    by (rule nth_equalityI) (simp_all add: keyed_def snap_frames_nth(2))
  then have keyed: "keyed ?F = map (\<lambda>k. (of_nat k, ?F ! k)) [0..<?n + 2]" unfolding snap_frames_nth(1) .
  have upd: "md_update (?F ! Suc k) = snap_events ?Q ! k" if "k < ?n" for k
    using that by (simp add: snap_frames_nth cycle_events_live nth_append)
  have split: "[0..<?n + 2] = 0 # map Suc [0..<?n] @ [Suc ?n]"
    using upt_conv_Cons [of 0 "Suc (Suc ?n)"] upt_Suc_append [of "Suc 0" "Suc ?n"] by (simp add: map_Suc_upt del: upt_Suc)
  have first: "filter ?P (map (\<lambda>k. (of_nat k, ?F ! k)) [0]) = []" by simp
  have last: "filter ?P (map (\<lambda>k. (of_nat k, ?F ! k)) [Suc ?n]) = []"
    by (simp add: snap_frames_nth cycle_events_live marker_def nth_append)
  have keep: "filter ?P (map (\<lambda>k. (of_nat k, ?F ! k)) (map Suc [0..<?n])) = map (\<lambda>k. (of_nat k, ?F ! k)) (map Suc [0..<?n])"
  proof (rule filter_True, rule ballI)
    fix x assume "x \<in> set (map (\<lambda>k. (of_nat k :: u64, ?F ! k)) (map Suc [0..<?n]))"
    then obtain k where k: "k < ?n" "x = (of_nat (Suc k), ?F ! Suc k)" by auto
    have "(of_nat (Suc k) :: u64) \<noteq> of_nat 0"
      using k(1) snap_events_length [of ?Q] by (subst of_nat_inj_64) simp_all
    moreover have "mu_type (snap_events ?Q ! k) \<noteq> Mkt_SNAPSHOT_END"
      using snap_events_types [OF q nth_mem [OF k(1)]] by auto
    ultimately show "?P x" using k upd by simp
  qed
  have "map (md_update \<circ> snd) (filter ?P (keyed ?F)) = map (\<lambda>k. md_update (?F ! Suc k)) [0..<?n]"
    unfolding keyed split using first last keep by (simp add: comp_def)
  also have "\<dots> = snap_events ?Q" by (rule nth_equalityI) (simp_all add: upd)
  finally show ?thesis .
qed

subsection \<open>A damaged cycle\<close>

text \<open>What the loop over the snapshot has checked: every ticker is cleared once, before its orders are added, and nothing else
  happens. So the orders added are the orders of the result, and the result does not depend on the state before.\<close>

lemma snapshot_loop_cleared:
  assumes "snapshot_loop w c h l rest cl st ev = Some (cl', st', ev')"
  shows "cleared_by cl (map (md_update \<circ> snd) (filter (\<lambda>(k, f). k \<noteq> 0 \<and> mu_type (md_update f) \<noteq> Mkt_SNAPSHOT_END) rest)) = Some cl'"
  using assms
proof (induct w c h l rest cl st ev rule: snapshot_loop.induct)
  case (2 w c h l sid f rest cl st ev)
  let ?e = "md_update f"
  show ?case
  proof (cases "sid = 0 \<or> mu_type ?e = Mkt_SNAPSHOT_END")
    case True
    then show ?thesis using 2 by (auto simp: Let_def split: if_splits)
  next
    case False
    then show ?thesis using 2(3,4) by (auto simp: Let_def split: if_splits option.splits)
  qed
qed simp

lemma cleared_grows: "cleared_by cl es = Some cl' \<Longrightarrow> cl \<subseteq> cl'"
  by (induct es arbitrary: cl) (auto simp: Let_def split: if_splits)

lemma cleared_types: "cleared_by cl es = Some cl' \<Longrightarrow> e \<in> set es \<Longrightarrow> mu_type e \<in> {Mkt_CLEAR, Mkt_ADD} \<and> unat (mu_ticker_id e) < ME_MAX_TICKERS"
  by (induct es arbitrary: cl) (auto simp: Let_def split: if_splits)

lemma cleared_replay:
  assumes "cleared_by cl es = Some cl'" "replay quote_step es Q = Some R" "\<forall>t \<in> cl. Q0 t = Q t"
  shows "\<exists>R0. replay quote_step es Q0 = Some R0 \<and> (\<forall>t \<in> cl'. R0 t = R t) \<and> (\<forall>t. t \<notin> cl' \<longrightarrow> R0 t = Q0 t)"
  using assms
proof (induct es arbitrary: cl Q Q0)
  case (Cons e es)
  let ?t = "unat (mu_ticker_id e)"
  let ?cl = "if mu_type e = Mkt_CLEAR then insert ?t cl else cl"
  obtain Q1 where q: "quote_step e Q = Some Q1" "replay quote_step es Q1 = Some R" using Cons.prems(2) by (auto simp: bind_Some_conv)
  have c: "cleared_by ?cl es = Some cl'" and t: "?t < ME_MAX_TICKERS" "?t \<in> ?cl" and ty: "mu_type e = Mkt_CLEAR \<or> mu_type e = Mkt_ADD"
    using Cons.prems(1) by (auto simp: Let_def split: if_splits)
  obtain Q2 where q2: "quote_step e Q0 = Some Q2" "\<forall>u \<in> ?cl. Q2 u = Q1 u" "\<forall>u. u \<noteq> ?t \<longrightarrow> Q2 u = Q0 u"
  proof (cases "mu_type e = Mkt_CLEAR")
    case True
    then show thesis using that [of "Q0(?t := (\<lambda>_. None))"] q(1) t(1) Cons.prems(3) by (auto simp: quote_step_def Let_def)
  next
    case False
    then have "mu_type e = Mkt_ADD" "Q0 ?t = Q ?t" using ty t(2) Cons.prems(3) by auto
    then show thesis using that [of "quote_put ?t (mu_order_id e) (Some e) Q0"] q(1) t Cons.prems(3)
      by (auto simp: quote_step_def quote_put_def Let_def split: if_splits)
  qed
  obtain R0 where "replay quote_step es Q2 = Some R0" "\<forall>u \<in> cl'. R0 u = R u" "\<forall>u. u \<notin> cl' \<longrightarrow> R0 u = Q2 u"
    using Cons.hyps [OF c q(2) q2(2)] by blast
  moreover have "?t \<in> cl'" using cleared_grows [OF c] t(2) by blast
  ultimately show ?case using q2(1,3) by (intro exI [of _ R0]) (simp, metis)
qed simp

lemma cleared_keeps:
  assumes "cleared_by cl es = Some cl'" "replay quote_step es Q = Some R" "t \<in> cl" "Q t i = Some v"
  shows "R t i = Some v"
  using assms
proof (induct es arbitrary: cl Q)
  case (Cons e es)
  obtain Q1 where q: "quote_step e Q = Some Q1" "replay quote_step es Q1 = Some R" using Cons.prems(2) by (auto simp: bind_Some_conv)
  have "Q1 t i = Some v" using q(1) Cons.prems(1,3,4) by (auto simp: quote_step_def quote_put_def Let_def split: if_splits)
  then show ?case using Cons.hyps [of _ Q1] q(2) Cons.prems(1,3) by (auto simp: Let_def split: if_splits)
qed simp

lemma cleared_adds:
  assumes "cleared_by cl es = Some cl'" "replay quote_step es Q = Some R" "v \<in> set es" "mu_type v = Mkt_ADD"
  shows "\<exists>t i. R t i = Some v"
  using assms
proof (induct es arbitrary: cl Q)
  case (Cons e es)
  let ?t = "unat (mu_ticker_id e)"
  obtain Q1 where q: "quote_step e Q = Some Q1" "replay quote_step es Q1 = Some R" using Cons.prems(2) by (auto simp: bind_Some_conv)
  have c: "cleared_by (if mu_type e = Mkt_CLEAR then insert ?t cl else cl) es = Some cl'"
    using Cons.prems(1) by (auto simp: Let_def split: if_splits)
  show ?case
  proof (cases "v = e")
    case True
    then have "Q1 ?t (mu_order_id e) = Some v" "?t \<in> cl"
      using q(1) Cons.prems(1,4) by (auto simp: quote_step_def quote_put_def Let_def split: if_splits)
    then show ?thesis using cleared_keeps [OF c q(2)] True Cons.prems(4) by fastforce
  qed (use Cons.hyps [OF c q(2)] Cons.prems in auto)
qed simp

lemma cleared_sources:
  assumes "cleared_by cl es = Some cl'" "replay quote_step es Q = Some R" "R t i = Some v"
  shows "v \<in> set es \<or> Q t i = Some v"
  using assms
proof (induct es arbitrary: cl Q)
  case (Cons e es)
  obtain Q1 where q: "quote_step e Q = Some Q1" "replay quote_step es Q1 = Some R" using Cons.prems(2) by (auto simp: bind_Some_conv)
  have "\<exists>c. cleared_by c es = Some cl'" using Cons.prems(1) by (auto simp: Let_def split: if_splits)
  then have "v \<in> set es \<or> Q1 t i = Some v" using Cons.hyps q(2) Cons.prems(3) by blast
  moreover have "mu_type e = Mkt_CLEAR \<or> mu_type e = Mkt_ADD" using Cons.prems(1) by (auto simp: Let_def split: if_splits)
  ultimately show ?case using q(1) by (auto simp: quote_step_def quote_put_def Let_def split: if_splits)
qed simp

text \<open>The list of resting orders determines the quotes.\<close>

lemma live_of_mem:
  assumes "quotes_ok Q" "Q t i = Some v" shows "v \<in> set (live_of Q t)"
proof -
  have "unat i < ME_MAX_ORDER_IDS" using quotes_okD(2,4) [OF assms] by (auto simp: add_valid_def id_valid_def)
  then show ?thesis using assms(2) by (auto simp: live_of_def List.map_filter_def image_iff intro!: bexI [of _ "unat i"])
qed

lemma live_list_set:
  assumes "quotes_ok Q" shows "set (concat (map (live_of Q) [0..<ME_MAX_TICKERS])) = {v. \<exists>t i. Q t i = Some v}"
proof (rule set_eqI, rule iffI)
  fix v
  show "v \<in> {v. \<exists>t i. Q t i = Some v}" if "v \<in> set (concat (map (live_of Q) [0..<ME_MAX_TICKERS]))" using that live_of_in by fastforce
  show "v \<in> set (concat (map (live_of Q) [0..<ME_MAX_TICKERS]))" if "v \<in> {v. \<exists>t i. Q t i = Some v}"
    using that live_of_mem [OF assms] quotes_okD(1) [OF assms] by fastforce
qed

lemma live_list_inject:
  assumes "quotes_ok Q" "quotes_ok R" "concat (map (live_of Q) [0..<ME_MAX_TICKERS]) = concat (map (live_of R) [0..<ME_MAX_TICKERS])"
  shows "Q = R"
proof (intro ext)
  fix t i
  have "{v. \<exists>t i. Q t i = Some v} = {v. \<exists>t i. R t i = Some v}"
    unfolding live_list_set [OF assms(1), symmetric] live_list_set [OF assms(2), symmetric] assms(3) ..
  then have "(\<exists>t i. Q t i = Some v) = (\<exists>t i. R t i = Some v)" for v by (auto simp: set_eq_iff)
  then have "Q t i = Some v \<Longrightarrow> R t i = Some v" "R t i = Some v \<Longrightarrow> Q t i = Some v" for v
    using quotes_okD(2,3) [OF assms(1)] quotes_okD(2,3) [OF assms(2)] by metis+
  then show "Q t i = R t i" by (cases "Q t i"; cases "R t i") force+
qed

lemma live_of_distinct:
  assumes "quotes_ok Q" shows "distinct (live_of Q t)"
proof -
  have "distinct (map mu_order_id (List.map_filter (\<lambda>i. Q t (of_nat i)) [0..<m]))" if "m \<le> ME_MAX_ORDER_IDS" for m
    using that
  proof (induct m)
    case (Suc m)
    let ?L = "List.map_filter (\<lambda>i. Q t (of_nat i)) [0..<m]"
    have "mu_order_id v \<noteq> of_nat m" if v: "v \<in> set ?L" for v
    proof -
      obtain i where i: "i < m" "Q t (of_nat i) = Some v" using v by (auto simp: List.map_filter_def)
      have "unat (of_nat i :: OrderId) = i" "unat (of_nat m :: OrderId) = m"
        using i(1) Suc.prems by (simp_all add: limits unsigned_of_nat take_bit_nat_eq_self)
      then show ?thesis using quotes_okD(2) [OF assms i(2)] i(1) by (metis less_irrefl)
    qed
    moreover have "mu_order_id v = of_nat m" if "Q t (of_nat m) = Some v" for v using quotes_okD(2) [OF assms that] .
    moreover have "List.map_filter (\<lambda>i. Q t (of_nat i)) [0..<Suc m] = ?L @ (case Q t (of_nat m) of None \<Rightarrow> [] | Some v \<Rightarrow> [v])"
      by (simp add: List.map_filter_def split: option.split)
    ultimately show ?case using Suc by (cases "Q t (of_nat m)") fastforce+
  qed (simp add: List.map_filter_def)
  from this [OF order_refl] show ?thesis unfolding live_of_def by (simp add: distinct_map)
qed

lemma live_list_distinct:
  assumes "quotes_ok Q" shows "distinct (concat (map (live_of Q) [0..<n]))"
proof (induct n)
  case (Suc n)
  have "unat (mu_ticker_id v) = t" if "v \<in> set (live_of Q t)" for v t using live_of_in [OF that] quotes_okD(3) [OF assms] by blast
  then have "v \<notin> set (live_of Q n)" if "v \<in> set (live_of Q t)" "t < n" for v t using that by (metis less_irrefl)
  then have "set (concat (map (live_of Q) [0..<n])) \<inter> set (live_of Q n) = {}" by auto
  then show ?case using Suc live_of_distinct [OF assms] by simp
qed simp

text \<open>The events a batch takes over from a snapshot.\<close>

definition snap_replaces :: "MEMarketUpdate list \<Rightarrow> nat \<Rightarrow> MEMarketUpdate list \<Rightarrow> bool" where
  "snap_replaces U n es \<longleftrightarrow> (\<forall>Q. listed Q \<longrightarrow> replay quote_step es Q = Some (state_at U n)) \<and>
     (\<forall>e \<in> set es. mu_type e = Mkt_CLEAR \<and> unat (mu_ticker_id e) < ME_MAX_TICKERS \<or> e \<in> set (resting U n))"

subsection \<open>What build returns\<close>

lemma None_guard: "(if c then (None, x) else r) = (Some b, y) \<longleftrightarrow> \<not> c \<and> r = (Some b, y)"
  by simp

lemma build_guards:
  assumes "build m = (Some batch, m')"
  shows "mr_snapshot m \<noteq> []" "mu_type (md_update (snd (last (mr_snapshot m)))) = Mkt_SNAPSHOT_END"
    "md_seq_num (snd (last (mr_snapshot m))) = of_nat (length (mr_snapshot m)) - 1"
    "replay_caches (snd (hd (mr_snapshot m))) (snd (last (mr_snapshot m))) m = (Some batch, m')"
    "md_seq_num (snd (hd (mr_snapshot m))) = 0"
  using assms unfolding build_def Let_def None_guard de_Morgan_disj not_not by - ((elim conjE, assumption)+)

lemma replay_caches_Some:
  assumes "replay_caches a z m = (Some batch, m')"
  obtains cl st ev nxt evs where
    "snapshot_loop (md_watermark a) (mr_cycle m) (md_state_hash a) (md_seq_num z) (mr_snapshot m) {} (\<lambda>_. []) [] = Some (cl, st, ev)"
    "incremental_loop (md_watermark a + 1) (om_upper (md_watermark a) (mr_incremental m)) st ev = Some (nxt, evs)"
    "batch = \<lparr>bt_events = evs, bt_watermark = nxt - 1\<rparr>" "m' = m" "{..<ME_MAX_TICKERS} \<subseteq> cl" "bookHash (flatten st) = md_state_hash a"
proof -
  obtain cl st ev where l: "snapshot_loop (md_watermark a) (mr_cycle m) (md_state_hash a) (md_seq_num z) (mr_snapshot m) {} (\<lambda>_. []) []
      = Some (cl, st, ev)"
    using assms by (fastforce simp: replay_caches_def Let_def split: option.split_asm)
  note r = assms [unfolded replay_caches_def Let_def l option.case prod.case None_guard]
  then obtain nxt evs where i: "incremental_loop (md_watermark a + 1) (om_upper (md_watermark a) (mr_incremental m)) st ev = Some (nxt, evs)"
    by (fastforce split: option.split_asm)
  show thesis by (rule that [OF l i]) (use r i in \<open>auto simp: list_all_iff\<close>)
qed

lemma build_events:
  assumes feed: "feed_ok U W" and ok: "rec_ok U W {} m" and b: "build m = (Some batch, m')"
  defines "k \<equiv> W (mr_cycle m)"
  shows "\<exists>n. k \<le> n \<and> n \<le> length U \<and> bt_watermark batch = of_nat n \<and> m' = m \<and>
     bt_events batch = snap_events (state_at U k) @ drop k (take n U)"
proof -
  note G = build_guards [OF b]
  let ?S = "mr_snapshot m" and ?c = "mr_cycle m" and ?w = "md_watermark (snd (hd (mr_snapshot m)))"
  let ?inc = "om_upper ?w (mr_incremental m)"
  obtain cl st ev nxt evs where loops:
    "snapshot_loop ?w ?c (md_state_hash (snd (hd ?S))) (md_seq_num (snd (last ?S))) ?S {} (\<lambda>_. []) [] = Some (cl, st, ev)"
    "incremental_loop (?w + 1) ?inc st ev = Some (nxt, evs)"
    "batch = \<lparr>bt_events = evs, bt_watermark = nxt - 1\<rparr>" "m' = m"
    by (rule replay_caches_Some [OF G(4)])
  have S: "?S = keyed (snap_frames U W ?c)" by (rule snapshot_complete [OF feed ok G(1-3)])
  have w: "?w = of_nat (W ?c)"
  proof -
    have "hd ?S = keyed (snap_frames U W ?c) ! 0" using S G(1) by (simp add: hd_conv_nth)
    then show ?thesis using snap_frames_nth(1) [of U W ?c] snap_frames_nth(2) [of 0 U W ?c] by (simp add: keyed_def)
  qed
  have Wc: "W ?c \<le> length U" "length U < 2 ^ 63" using feed by (simp_all add: feed_ok_def)
  have st0: "state_ok (\<lambda>_. [])" by (simp add: state_ok_def)
  have ev: "ev = snap_events (state_at U (W ?c))"
    using snapshot_loop_events [OF loops(1) st0] keyed_events [OF feed, of ?c] S by simp
  have "\<exists>n. W ?c \<le> n \<and> n \<le> length U \<and> nxt = of_nat (Suc n) \<and> evs = ev @ drop (W ?c) (take n U)"
  proof (rule incremental_loop_events [OF loops(2) _ Wc])
    show "?w + 1 = of_nat (Suc (W ?c))" by (simp add: w)
    show "\<forall>(k, f) \<in> set ?inc. k = md_seq_num f \<and> frame_ok U W False f"
      using ok by (auto simp: rec_ok_def om_upper_filter)
  qed
  then obtain n where n: "W ?c \<le> n" "n \<le> length U" "nxt = of_nat (Suc n)" "evs = ev @ drop (W ?c) (take n U)" by blast
  then show ?thesis unfolding k_def using loops(3,4) ev by (intro exI [of _ n]) simp
qed

lemma authentic_replaces:
  assumes feed: "feed_ok U W" and k: "k \<le> length U" shows "snap_replaces U k (snap_events (state_at U k))"
proof -
  have q: "quotes_ok (state_at U k)" by (rule state_at_step(2) [OF feed order_refl k])
  have "mu_type e = Mkt_CLEAR \<and> unat (mu_ticker_id e) < ME_MAX_TICKERS \<or> e \<in> set (resting U k)" if "e \<in> set (snap_events (state_at U k))" for e
    using that by (auto simp: snap_events_def resting_def)
  then show ?thesis using snapshot_replaces [OF q] by (simp add: snap_replaces_def snap_events_def)
qed

lemma damaged_replaces:
  assumes feed: "feed_ok U W" and D: "damage_ok U W D" and ok: "rec_ok U W D m" and g: "g \<in> D" "md_snapshot_cycle g = mr_cycle m"
    and a: "mr_snapshot m \<noteq> []" "md_seq_num (snd (hd (mr_snapshot m))) = 0"
    and loop: "snapshot_loop w c h l (mr_snapshot m) {} (\<lambda>_. []) [] = Some (cl, st, ev)" "{..<ME_MAX_TICKERS} \<subseteq> cl"
    and hash: "bookHash (flatten st) = md_state_hash (snd (hd (mr_snapshot m)))"
  shows "md_watermark (snd (hd (mr_snapshot m))) = of_nat (W (mr_cycle m)) \<and> snap_replaces U (W (mr_cycle m)) ev"
proof -
  let ?S = "mr_snapshot m" and ?c = "mr_cycle m" and ?Q = "state_view st" and ?Z = "\<lambda>_ :: nat. [] :: (OrderId, MEMarketUpdate) omap"
  have frame: "snd x \<in> set (snap_frames U W ?c) \<or> snd x \<in> D \<and> md_snapshot_cycle (snd x) = ?c" if "x \<in> set ?S" for x
    using ok that by (auto simp: rec_ok_def)
  have head: "md_watermark (snd (hd ?S)) = of_nat (W ?c)" "md_state_hash (snd (hd ?S)) = bookHash (resting U (W ?c))"
    using frame [OF hd_in_set [OF a(1)]] snap_frames_cycle(2,3) [of "snd (hd ?S)" U W ?c] D a(2) by (auto simp: damage_ok_def Let_def)
  have st0: "state_ok ?Z" "state_view ?Z = no_quotes" by (auto simp: state_ok_def state_view_def no_quotes_def)
  have E: "state_ok st" "replay quote_step ev no_quotes = Some ?Q" "cleared_by {} ev = Some cl" "set ev \<subseteq> (md_update \<circ> snd) ` set ?S"
    using snapshot_loop_events [OF loop(1) st0(1)] snapshot_loop_cleared [OF loop(1)] st0(2) by auto
  have q: "quotes_ok ?Q" "quotes_ok (state_at U (W ?c))"
    using replay_ok [OF E(2)] feed state_at_step(2) [OF feed order_refl, of "W ?c"] by (simp_all add: feed_ok_def)
  have flat: "flatten st = concat (map (live_of ?Q) [0..<ME_MAX_TICKERS])" by (rule flatten_live [OF E(1) q(1)])
  have from_ev: "v \<in> set ev \<and> mu_type v = Mkt_ADD" if "v \<in> set (flatten st)" for v
  proof -
    obtain t i where v: "?Q t i = Some v" using \<open>v \<in> set (flatten st)\<close> unfolding flat live_list_set [OF q(1)] by blast
    then show ?thesis using cleared_sources [OF E(3,2) v] quotes_okD(4) [OF q(1) v] by (auto simp: no_quotes_def add_valid_def)
  qed
  have "set (flatten st) \<subseteq> cycle_orders U W D ?c"
    using from_ev E(4) frame unfolding cycle_orders_def by fastforce
  moreover have "distinct (flatten st)" unfolding flat by (rule live_list_distinct [OF q(1)])
  ultimately have "flatten st = resting U (W ?c)" using damage_detected [OF D g(1)] hash head(2) unfolding g(2) by simp
  then have eq: "?Q = state_at U (W ?c)" unfolding flat resting_def by (rule live_list_inject [OF q])
  have "replay quote_step ev Q0 = Some ?Q" if Q0: "listed Q0" for Q0
  proof -
    obtain R where R: "replay quote_step ev Q0 = Some R" "\<forall>t \<in> cl. R t = ?Q t" "\<forall>t. t \<notin> cl \<longrightarrow> R t = Q0 t"
      using cleared_replay [OF E(3,2), of Q0] by auto
    have "R t = ?Q t" for t
    proof (cases "t < ME_MAX_TICKERS")
      case True then show ?thesis using R(2) loop(2) by blast
    next
      case False then show ?thesis using R(2,3) Q0 quotes_ok_listed [OF q(1)] unfolding listed_def by (metis not_less)
    qed
    then show ?thesis using R(1) by (simp add: ext)
  qed
  moreover have "mu_type e = Mkt_CLEAR \<and> unat (mu_ticker_id e) < ME_MAX_TICKERS \<or> e \<in> set (resting U (W ?c))" if "e \<in> set ev" for e
    using cleared_types [OF E(3) that] cleared_adds [OF E(3,2) that] live_list_set [OF q(2)] eq by (auto simp: resting_def)
  ultimately show ?thesis using head(1) eq by (simp add: snap_replaces_def)
qed

text \<open>What \<open>build\<close> returns, from authentic and from damaged snapshot frames: an authentic snapshot or nothing of its own.\<close>

lemma build_batch:
  assumes feed: "feed_ok U W" and D: "damage_ok U W D" and ok: "rec_ok U W D m" and b: "build m = (Some batch, m')"
  defines "k \<equiv> W (mr_cycle m)"
  shows "\<exists>n es. k \<le> n \<and> n \<le> length U \<and> bt_watermark batch = of_nat n \<and> m' = m \<and>
     bt_events batch = es @ drop k (take n U) \<and> snap_replaces U k es"
proof (cases "\<exists>g \<in> D. md_snapshot_cycle g = mr_cycle m")
  case False
  then have "rec_ok U W {} m" using ok by (auto simp: rec_ok_def)
  from build_events [OF feed this b] obtain n where "k \<le> n" "n \<le> length U" "bt_watermark batch = of_nat n" "m' = m"
    "bt_events batch = snap_events (state_at U k) @ drop k (take n U)" unfolding k_def by blast
  moreover have "k \<le> length U" using feed by (simp add: feed_ok_def k_def)
  ultimately show ?thesis using authentic_replaces [OF feed] by blast
next
  case True
  then obtain g where g: "g \<in> D" "md_snapshot_cycle g = mr_cycle m" by blast
  let ?S = "mr_snapshot m" and ?w = "md_watermark (snd (hd (mr_snapshot m)))"
  note G = build_guards [OF b]
  obtain cl st ev nxt evs where loops:
    "snapshot_loop ?w (mr_cycle m) (md_state_hash (snd (hd ?S))) (md_seq_num (snd (last ?S))) ?S {} (\<lambda>_. []) [] = Some (cl, st, ev)"
    "incremental_loop (?w + 1) (om_upper ?w (mr_incremental m)) st ev = Some (nxt, evs)"
    "batch = \<lparr>bt_events = evs, bt_watermark = nxt - 1\<rparr>" "m' = m" "{..<ME_MAX_TICKERS} \<subseteq> cl"
    "bookHash (flatten st) = md_state_hash (snd (hd ?S))"
    by (rule replay_caches_Some [OF G(4)])
  note S = damaged_replaces [OF feed D ok g G(1,5) loops(1,5,6)]
  have Wc: "k \<le> length U" "length U < 2 ^ 63" using feed by (simp_all add: feed_ok_def k_def)
  have "\<exists>n. k \<le> n \<and> n \<le> length U \<and> nxt = of_nat (Suc n) \<and> evs = ev @ drop k (take n U)"
  proof (rule incremental_loop_events [OF loops(2) _ Wc])
    show "?w + 1 = of_nat (Suc k)" using S by (simp add: k_def)
    show "\<forall>(k, f) \<in> set (om_upper ?w (mr_incremental m)). k = md_seq_num f \<and> frame_ok U W False f"
      using ok by (auto simp: rec_ok_def om_upper_filter)
  qed
  then show ?thesis using loops(3,4) S unfolding k_def by fastforce
qed

lemma build_sound:
  assumes feed: "feed_ok U W" and D: "damage_ok U W D" and ok: "rec_ok U W D m" and b: "build m = (Some batch, m')"
  shows "m' = m \<and> (\<exists>n \<le> length U. bt_watermark batch = of_nat n \<and>
     (\<forall>Q0. listed Q0 \<longrightarrow> replay quote_step (bt_events batch) Q0 = Some (state_at U n)))"
proof -
  let ?k = "W (mr_cycle m)"
  obtain n es where n: "?k \<le> n" "n \<le> length U" "bt_watermark batch = of_nat n" "m' = m"
    "bt_events batch = es @ drop ?k (take n U)" "snap_replaces U ?k es" using build_batch [OF assms] by blast
  have "replay quote_step (bt_events batch) Q0 = Some (state_at U n)" if "listed Q0" for Q0
    unfolding n(5) using n(6) that state_at_step(1) [OF feed n(1,2)] by (subst replay_appendI) (auto simp: snap_replaces_def)
  with n show ?thesis by auto
qed

lemma build_frame: "rec_ok U W D m \<Longrightarrow> rec_ok U W D (snd (build m)) \<and> mr_recovering (snd (build m)) = mr_recovering m \<and>
   mr_expected (snd (build m)) = mr_expected m"
  unfolding build_def Let_def replay_caches_def by (auto split: option.split)

end
