(* ===== verification/Market_Recovery_Live.thy ===== *)
theory Market_Recovery_Live
  imports Market_Recovery_Props
begin

text \<open>
  The other half of recovery: what has been received is enough. When every frame of a snapshot cycle and the increments
  after its watermark have arrived, in any order and with any repetition, \<open>build\<close> returns a batch; and a batch that
  \<open>build\<close> returns is right.
\<close>

subsection \<open>The snapshot loop succeeds on a complete cycle\<close>

lemma cleared_by_append: "cleared_by cl (es @ fs) = Option.bind (cleared_by cl es) (\<lambda>c. cleared_by c fs)"
  by (induct es arbitrary: cl) (auto simp: Let_def)

lemma cleared_by_adds:
  "\<forall>e \<in> set es. mu_type e = Mkt_ADD \<and> unat (mu_ticker_id e) = t \<Longrightarrow> t \<in> cl \<Longrightarrow> t < ME_MAX_TICKERS \<Longrightarrow> cleared_by cl es = Some cl"
  by (induct es) auto

lemma live_of_adds:
  assumes "quotes_ok Q" "e \<in> set (live_of Q t)" shows "mu_type e = Mkt_ADD \<and> unat (mu_ticker_id e) = t"
proof -
  obtain i where "Q t i = Some e" using live_of_in [OF assms(2)] by blast
  then show ?thesis using quotes_okD [OF assms(1)] by (auto simp: add_valid_def)
qed

lemma cleared_by_tickers:
  assumes "quotes_ok Q" "n \<le> ME_MAX_TICKERS"
  shows "cleared_by {} (concat (map (\<lambda>t. clear_event t # live_of Q t) [0..<n])) = Some {..<n}"
  using assms(2)
proof (induct n)
  case (Suc n)
  have "cleared_by {..<n} (clear_event n # live_of Q n) = Some (insert n {..<n})"
    using Suc.prems cleared_by_adds [of "live_of Q n" n "insert n {..<n}"] live_of_adds [OF assms(1)] by simp
  then show ?case using Suc by (simp add: cleared_by_append lessThan_Suc)
qed simp

lemma cleared_by_snap: "quotes_ok Q \<Longrightarrow> cleared_by {} (snap_events Q) = Some {..<ME_MAX_TICKERS}"
  by (simp add: snap_events_def cleared_by_tickers)

lemma snapshot_loop_succeeds:
  assumes "\<forall>(k, f) \<in> set rest. k \<noteq> 0 \<and> md_watermark f = w \<and> md_snapshot_cycle f = c \<and> md_state_hash f = h \<and>
      mu_type (md_update f) \<noteq> Mkt_SNAPSHOT_END"
    and "cleared_by cl (map (md_update \<circ> snd) rest) = Some cl'" "state_ok st"
    and "replay quote_step (map (md_update \<circ> snd) rest) (state_view st) = Some Q"
  shows "\<exists>st' ev'. snapshot_loop w c h l (rest @ rest2) cl st ev = snapshot_loop w c h l rest2 cl' st' ev' \<and>
     state_ok st' \<and> state_view st' = Q"
  using assms
proof (induct rest arbitrary: cl st ev)
  case Nil then show ?case by auto
next
  case (Cons x rest)
  obtain k f where x: "x = (k, f)" by fastforce
  let ?e = "md_update f"
  let ?cl = "if mu_type ?e = Mkt_CLEAR then insert (unat (mu_ticker_id ?e)) cl else cl"
  obtain R where R: "quote_step ?e (state_view st) = Some R" "replay quote_step (map (md_update \<circ> snd) rest) R = Some Q"
    using Cons.prems(4) x by (auto simp: bind_Some_conv comp_def)
  obtain st1 where st1: "apply_event ?e st = Some st1" "state_ok st1" "state_view st1 = R"
    using apply_refines [OF Cons.prems(3) R(1)] by blast
  have cl: "cleared_by ?cl (map (md_update \<circ> snd) rest) = Some cl'"
    using Cons.prems(2) x by (auto simp: Let_def comp_def split: if_splits)
  have "snapshot_loop w c h l ((x # rest) @ rest2) cl st ev = snapshot_loop w c h l (rest @ rest2) ?cl st1 (ev @ [?e])"
    using Cons.prems(1,2) x st1(1) by (auto simp: Let_def split: if_splits)
  moreover have "\<exists>st' ev'. snapshot_loop w c h l (rest @ rest2) ?cl st1 (ev @ [?e]) = snapshot_loop w c h l rest2 cl' st' ev' \<and>
      state_ok st' \<and> state_view st' = Q"
    by (rule Cons.hyps [OF _ cl st1(2)]) (use Cons.prems(1) R(2) st1(3) in \<open>auto simp: comp_def\<close>)
  ultimately show ?case by (simp only:)
qed

subsection \<open>The incremental loop succeeds on contiguous increments\<close>

definition inc_entries :: "MEMarketUpdate list \<Rightarrow> nat \<Rightarrow> nat \<Rightarrow> (u64, MDPMarketUpdate) omap" where
  "inc_entries U m n = map (\<lambda>k. (of_nat (Suc k), inc_frame (Suc k) (U ! k))) [m..<n]"

lemma inc_entries_ok: "n < 2 ^ 63 \<Longrightarrow> om_ok (inc_entries U m n)"
  unfolding om_ok_def inc_entries_def map_map comp_def fst_conv sorted_wrt_map
  by (rule sorted_wrt_mono_rel [OF _ sorted_wrt_upt]) (auto simp: word_less_nat_alt unsigned_of_nat take_bit_nat_eq_self simp del: of_nat_Suc)

lemma incremental_loop_succeeds:
  assumes feed: "feed_ok U W" and "n \<le> length U" "m \<le> n" "state_ok st" "state_view st = state_at U m"
  shows "\<exists>evs. incremental_loop (of_nat (Suc m)) (inc_entries U m n) st ev = Some (of_nat (Suc n), evs)"
  using assms(2-5)
proof (induct "n - m" arbitrary: m st ev)
  case 0 then show ?case by (simp add: inc_entries_def)
next
  case (Suc d)
  then have m: "m < n" by simp
  have "drop m (take (Suc m) U) = [U ! m]" using m Suc.prems(1) by (simp add: take_Suc_conv_app_nth)
  then have "quote_step (U ! m) (state_view st) = Some (state_at U (Suc m))"
    using state_at_step(1) [OF feed, of m "Suc m"] Suc.prems m by (auto simp: bind_Some_conv)
  then obtain st1 where st1: "apply_event (U ! m) st = Some st1" "state_ok st1" "state_view st1 = state_at U (Suc m)"
    using apply_refines [OF Suc.prems(3)] by blast
  have "inc_entries U m n = (of_nat (Suc m), inc_frame (Suc m) (U ! m)) # inc_entries U (Suc m) n"
    using m by (simp add: inc_entries_def upt_conv_Cons)
  moreover have "\<exists>evs. incremental_loop (of_nat (Suc (Suc m))) (inc_entries U (Suc m) n) st1 (ev @ [U ! m]) = Some (of_nat (Suc n), evs)"
    using Suc.hyps(1) [OF _ Suc.prems(1) _ st1(2,3)] Suc.hyps(2) m by simp
  ultimately show ?case using st1(1) by (simp add: inc_frame_def add.commute)
qed

subsection \<open>build returns\<close>

lemma keyed_snap_frames:
  "keyed (snap_frames U W c) = (0, snap_frames U W c ! 0) #
     map (\<lambda>k. (of_nat k, snap_frames U W c ! k)) [1..<Suc (length (snap_events (state_at U (W c))))] @
     [(of_nat (Suc (length (snap_events (state_at U (W c))))), snap_frames U W c ! Suc (length (snap_events (state_at U (W c)))))]"
proof -
  let ?n = "length (snap_events (state_at U (W c)))"
  have "keyed (snap_frames U W c) = map (\<lambda>k. (of_nat k, snap_frames U W c ! k)) [0..<?n + 2]"
    unfolding snap_frames_nth(1) [symmetric] by (rule nth_equalityI) (simp_all add: keyed_def snap_frames_nth(2))
  also have "[0..<?n + 2] = 0 # [1..<Suc ?n] @ [Suc ?n]" using upt_conv_Cons [of 0 "Suc (Suc ?n)"] upt_Suc_append [of 1 "Suc ?n"] by (simp del: upt_Suc)
  finally show ?thesis by simp
qed

lemma build_succeeds:
  assumes feed: "feed_ok U W" and valid: "\<not> mr_invalid_cycle m" and c: "mr_cycle m = c"
    and snap: "mr_snapshot m = keyed (snap_frames U W c)"
    and inc: "om_upper (of_nat (W c)) (mr_incremental m) = inc_entries U (W c) n" and n: "W c \<le> n" "n \<le> length U"
  shows "\<exists>batch m'. build m = (Some batch, m') \<and> bt_watermark batch = of_nat n"
proof -
  let ?F = "snap_frames U W c" and ?Q = "state_at U (W c)"
  let ?n = "length (snap_events ?Q)" and ?w = "of_nat (W c) :: u64"
  let ?mid = "map (\<lambda>k. (of_nat k :: u64, ?F ! k)) [1..<Suc ?n]"
  let ?h = "bookHash (concat (map (live_of ?Q) [0..<ME_MAX_TICKERS]))"
  have len: "length ?F = ?n + 2" by (rule snap_frames_nth(1))
  have q: "quotes_ok ?Q" using feed by (intro state_at_step(2) [OF feed order_refl]) (simp add: feed_ok_def)
  note F = snap_frames_nth(2) [of _ U W c, unfolded len cycle_events_live]
  have upd: "md_update (?F ! Suc k) = snap_events ?Q ! k" if "k < ?n" for k using that by (simp add: F nth_append)
  have hd: "snd (hd (mr_snapshot m)) = ?F ! 0" and lst: "snd (last (mr_snapshot m)) = ?F ! Suc ?n"
    unfolding snap keyed_snap_frames by simp_all
  have mid_upd: "map (md_update \<circ> snd) ?mid = snap_events ?Q"
    by (rule nth_equalityI) (simp_all add: upd del: upt_Suc)
  have mid_ok: "\<forall>(k, f) \<in> set ?mid. k \<noteq> 0 \<and> md_watermark f = ?w \<and> md_snapshot_cycle f = c \<and> md_state_hash f = ?h \<and>
      mu_type (md_update f) \<noteq> Mkt_SNAPSHOT_END"
  proof
    fix x assume "x \<in> set ?mid"
    then obtain k where k: "k < ?n" "x = (of_nat (Suc k), ?F ! Suc k)" by (auto simp: Suc_le_eq gr0_conv_Suc simp del: upt_Suc)
    have "(of_nat (Suc k) :: u64) \<noteq> of_nat 0"
      using k(1) snap_events_length [of ?Q] by (subst of_nat_inj_64) simp_all
    moreover have "mu_type (snap_events ?Q ! k) \<noteq> Mkt_SNAPSHOT_END"
      using snap_events_types [OF q nth_mem [OF k(1)]] by auto
    ultimately show "case x of (k, f) \<Rightarrow> k \<noteq> 0 \<and> md_watermark f = ?w \<and> md_snapshot_cycle f = c \<and> md_state_hash f = ?h \<and>
        mu_type (md_update f) \<noteq> Mkt_SNAPSHOT_END" using k upd by (simp add: F)
  qed
  have st0: "state_ok (\<lambda>_. [])" "quotes_ok (state_view (\<lambda>_. []))" by (simp_all add: state_ok_def quotes_ok_def state_view_def)
  obtain st ev where loop: "snapshot_loop ?w c ?h (of_nat (Suc ?n)) (mr_snapshot m) {} (\<lambda>_. []) [] = Some ({..<ME_MAX_TICKERS}, st, ev)"
    "state_ok st" "state_view st = ?Q"
  proof -
    obtain st ev where *: "snapshot_loop ?w c ?h (of_nat (Suc ?n)) (?mid @ [(of_nat (Suc ?n), ?F ! Suc ?n)]) {} (\<lambda>_. []) [] =
        snapshot_loop ?w c ?h (of_nat (Suc ?n)) [(of_nat (Suc ?n), ?F ! Suc ?n)] {..<ME_MAX_TICKERS} st ev"
      "state_ok st" "state_view st = ?Q"
      using snapshot_loop_succeeds [OF mid_ok _ st0(1), unfolded mid_upd, OF cleared_by_snap [OF q]
        snapshot_replaces [OF q quotes_ok_listed [OF st0(2)], folded snap_events_def]] by blast
    then show thesis using that unfolding snap keyed_snap_frames by (simp add: Let_def F marker_def nth_append)
  qed
  have hash: "bookHash (flatten st) = ?h" using flatten_live [OF loop(2)] loop(3) q by simp
  have inc_loop: "\<exists>evs. incremental_loop (?w + 1) (inc_entries U (W c) n) st ev = Some (of_nat (Suc n), evs)"
    using incremental_loop_succeeds [OF feed n(2,1) loop(2,3)] by (simp add: add.commute)
  have rep: "\<exists>batch. replay_caches (?F ! 0) (?F ! Suc ?n) m = (Some batch, m) \<and> bt_watermark batch = of_nat n"
    using loop(1) hash inc_loop inc c by (auto simp: replay_caches_def F list_all_iff split: option.split)
  let ?a = "snd (hd (mr_snapshot m))" and ?z = "snd (last (mr_snapshot m))"
  have "md_seq_num ?a = 0" "mu_type (md_update ?a) = Mkt_SNAPSHOT_START" "mu_type (md_update ?z) = Mkt_SNAPSHOT_END"
    "md_watermark ?a = ?w" "md_watermark ?z = ?w" "mu_order_id (md_update ?a) = ?w" "mu_order_id (md_update ?z) = ?w"
    "md_state_hash ?a = ?h" "md_state_hash ?z = ?h" "md_seq_num ?z = of_nat (Suc ?n)"
    unfolding hd lst by (simp_all add: F marker_def nth_append)
  moreover have "mr_snapshot m \<noteq> []" "length (mr_snapshot m) = ?n + 2" using len by (auto simp: snap keyed_def)
  moreover have "inc_entries U (W c) n = [] \<or> fst (hd (inc_entries U (W c) n)) = ?w + 1"
    by (cases "W c < n") (simp_all add: inc_entries_def upt_conv_Cons add.commute)
  ultimately have "build m = replay_caches ?a ?z m" using valid inc unfolding build_def Let_def by auto
  then show ?thesis using rep unfolding hd lst by metis
qed

text \<open>On authentic frames a failing \<open>build\<close> changes nothing: the checks that would spoil the cycle, of the markers and of
  the digest, succeed.\<close>

lemma snap_frame_start:
  assumes "f \<in> set (snap_frames U W c)" "md_seq_num f = 0"
  shows "f = snap_frames U W c ! 0"
proof -
  obtain k where k: "k < length (snap_frames U W c)" "f = snap_frames U W c ! k" using assms(1) by (auto simp: in_set_conv_nth)
  have "md_seq_num f = of_nat k" unfolding k(2) by (simp add: snap_frames_nth(2) [OF k(1)])
  then have "(of_nat k :: u64) = of_nat 0" using assms(2) by simp
  moreover have "k < 2 ^ 64" using k(1) snap_frames_small [of U W c] by simp
  ultimately have "k = 0" by (subst (asm) of_nat_inj_64) simp_all
  then show ?thesis using k(2) by simp
qed

lemma build_pure:
  assumes feed: "feed_ok U W" and ok: "rec_ok U W {} m"
  shows "snd (build m) = m"
proof (rule ccontr)
  let ?S = "mr_snapshot m" let ?c = "mr_cycle m" let ?F = "snap_frames U W ?c"
  let ?a = "snd (hd ?S)" and ?z = "snd (last ?S)" and ?n = "length (snap_events (state_at U (W ?c)))"
  assume bad: "snd (build m) \<noteq> m"
  then have ne: "?S \<noteq> []" and a0: "md_seq_num ?a = 0" and z: "mu_type (md_update ?z) = Mkt_SNAPSHOT_END"
    by (auto simp: build_def Let_def split: if_splits)
  have in_F: "?a \<in> set ?F" "?z \<in> set ?F" using ok hd_in_set [OF ne] last_in_set [OF ne] by (auto simp: rec_ok_def)
  have a: "?a = ?F ! 0" by (rule snap_frame_start [OF in_F(1) a0])
  obtain j where j: "j < length ?F" "?z = ?F ! j" using in_F(2) by (auto simp: in_set_conv_nth)
  have "Suc j = length ?F" using snap_frame_end [OF feed j(1)] z j(2) by simp
  then have zF: "?z = ?F ! Suc ?n" using j(2) snap_frames_nth(1) [of U W ?c] by simp
  note F = snap_frames_nth(2) [of _ U W ?c, unfolded snap_frames_nth(1) cycle_events_live]
  have marks: "md_watermark ?z = md_watermark ?a" "mu_order_id (md_update ?a) = md_watermark ?a"
    "mu_order_id (md_update ?z) = md_watermark ?a" "md_state_hash ?a = md_state_hash ?z"
    unfolding a zF by (simp_all add: F marker_def nth_append)
  have size: "md_seq_num ?z = of_nat (length ?S) - 1" and rep: "snd (replay_caches ?a ?z m) \<noteq> m"
    using bad marks by (auto simp: build_def Let_def split: if_splits)
  have S: "?S = keyed ?F" by (rule snapshot_complete [OF feed ok ne z size])
  obtain cl st ev where loop: "snapshot_loop (md_watermark ?a) ?c (md_state_hash ?a) (md_seq_num ?z) ?S {} (\<lambda>_. []) [] = Some (cl, st, ev)"
    and hash: "bookHash (flatten st) \<noteq> md_state_hash ?a"
    using rep by (auto simp: replay_caches_def Let_def split: if_splits option.splits)
  have st0: "state_ok (\<lambda>_. [])" "quotes_ok (state_view (\<lambda>_. []))" by (simp_all add: state_ok_def quotes_ok_def state_view_def)
  have q: "quotes_ok (state_at U (W ?c))" using feed by (intro state_at_step(2) [OF feed order_refl]) (simp add: feed_ok_def)
  have "state_ok st \<and> replay quote_step (snap_events (state_at U (W ?c))) (state_view (\<lambda>_. [])) = Some (state_view st)"
    using snapshot_loop_events [OF loop st0(1)] keyed_events [OF feed, of ?c] S by simp
  then have "state_ok st" "state_view st = state_at U (W ?c)"
    using snapshot_replaces [OF q quotes_ok_listed [OF st0(2)], folded snap_events_def] by simp_all
  then have "bookHash (flatten st) = md_state_hash ?a" unfolding a using flatten_live [of st] q by (simp add: F)
  then show False using hash by simp
qed

subsection \<open>Caching authentic frames\<close>

text \<open>Two authentic frames of one channel with the same number, and of the same cycle, are the same frame; so the
  comparison with an earlier copy never fails.\<close>

lemma frame_by_number:
  assumes feed: "feed_ok U W" and "frame_ok U W snapshot f" "frame_ok U W snapshot g" "md_seq_num f = md_seq_num g"
    and "snapshot \<Longrightarrow> md_snapshot_cycle f = md_snapshot_cycle g"
  shows "f = g"
proof (cases snapshot)
  case True
  define c where "c = md_snapshot_cycle g"
  let ?F = "snap_frames U W c"
  have "f \<in> set ?F" "g \<in> set ?F" using assms(2,3,5) True by (simp_all add: frame_ok_def c_def)
  then obtain j k where jk: "j < length ?F" "f = ?F ! j" "k < length ?F" "g = ?F ! k" by (auto simp: in_set_conv_nth)
  have "md_seq_num f = of_nat j" "md_seq_num g = of_nat k" unfolding jk(2,4) by (simp_all add: jk(1,3) snap_frames_nth(2))
  then have "(of_nat j :: u64) = of_nat k" using assms(4) by metis
  moreover have "j < 2 ^ 64" "k < 2 ^ 64" using jk(1,3) snap_frames_small [of U W c] by simp_all
  ultimately have "j = k" by (simp only: of_nat_inj_64)
  then show ?thesis using jk(2,4) by simp
next
  case False
  obtain j k where "j < length U" "f = inc_frame (Suc j) (U ! j)" "k < length U" "g = inc_frame (Suc k) (U ! k)"
    using assms False by (auto simp: frame_ok_def)
  moreover then have "j = k"
    using of_nat_inj_64 [of "Suc j" "Suc k"] assms(1,4) by (simp add: inc_frame_def feed_ok_def del: of_nat_Suc)
  ultimately show ?thesis by simp
qed

lemma rec_ok_entry:
  assumes "rec_ok U W {} m" "map_of (if snapshot then mr_snapshot m else mr_incremental m) k = Some f"
  shows "md_seq_num f = k \<and> frame_ok U W snapshot f \<and> (snapshot \<longrightarrow> md_snapshot_cycle f = mr_cycle m)"
  using assms map_of_SomeD [OF assms(2)] snap_frames_cycle(1) [of f U W "mr_cycle m"]
  by (cases snapshot) (auto simp: rec_ok_def frame_ok_def)

definition set_cache :: "bool \<Rightarrow> (u64, MDPMarketUpdate) omap \<Rightarrow> MarketRecovery \<Rightarrow> MarketRecovery" where
  "set_cache snapshot cache m = (if snapshot then m\<lparr>mr_snapshot := cache\<rparr> else m\<lparr>mr_incremental := cache\<rparr>)"

lemma cache_authentic:
  assumes feed: "feed_ok U W" and ok: "rec_ok U W {} m" and f: "frame_ok U W snapshot f"
    and c: "snapshot \<Longrightarrow> md_snapshot_cycle f = mr_cycle m"
    and room: "cached (set_cache snapshot (om_emplace (md_seq_num f) f (if snapshot then mr_snapshot m else mr_incremental m)) m) \<le> mr_limit m"
  shows "\<exists>d. snd (cache_frame snapshot f m) =
     (set_cache snapshot (om_emplace (md_seq_num f) f (if snapshot then mr_snapshot m else mr_incremental m)) m)\<lparr>mr_duplicates := d\<rparr>"
proof (cases "map_of (if snapshot then mr_snapshot m else mr_incremental m) (md_seq_num f)")
  case None
  then show ?thesis using room by (intro exI [of _ "mr_duplicates m"]) (auto simp: cache_frame_def Let_def set_cache_def)
next
  case (Some old)
  have "old = f" using rec_ok_entry [OF ok Some] f c by (intro frame_by_number [OF feed, of snapshot]) auto
  moreover have "om_emplace (md_seq_num f) f (if snapshot then mr_snapshot m else mr_incremental m) =
      (if snapshot then mr_snapshot m else mr_incremental m)"
    using ok by (intro om_emplace_old [OF _ Some]) (simp add: rec_ok_def)
  ultimately show ?thesis using Some room
    by (intro exI [of _ "mr_duplicates m + 1"]) (auto simp: cache_frame_def Let_def set_cache_def sameEvent_def cached_def)
qed

subsection \<open>Received frames are kept\<close>

lemma om_set_ext: "om_ok m \<Longrightarrow> om_ok m' \<Longrightarrow> set m = set m' \<Longrightarrow> m = m'"
  by (rule om_ext) (simp_all add: map_of_inject_set om_distinct)

definition ingest_all :: "(bool \<times> MDPMarketUpdate) list \<Rightarrow> MarketRecovery \<Rightarrow> MarketRecovery" where
  "ingest_all fs m = fold (\<lambda>(snapshot, f) m. snd (ingest snapshot f m)) fs m"

lemma ingest_all_rec:
  "rec_ok U W {} m \<Longrightarrow> \<forall>(s, f) \<in> set fs. frame_ok U W s f \<Longrightarrow> rec_ok U W {} (ingest_all fs m)"
  by (induct fs arbitrary: m) (auto simp: ingest_all_def ingest_rec)

lemma new_rec: "MarketRecovery_new limit = Some m \<Longrightarrow> rec_ok U W D m"
  by (auto simp: MarketRecovery_new_def rec_ok_def split: if_splits)

lemma om_emplace_insert:
  "om_ok m \<Longrightarrow> (\<And>w. map_of m k = Some w \<Longrightarrow> w = v) \<Longrightarrow> set (om_emplace k v m) = insert (k, v) (set m)"
proof (cases "map_of m k")
  case (Some w) then show "om_ok m \<Longrightarrow> (\<And>w. map_of m k = Some w \<Longrightarrow> w = v) \<Longrightarrow> ?thesis"
    using om_emplace_old [of m k w v] map_of_SomeD [of m k w] by auto
next
  case None
  assume ok: "om_ok m"
  show ?thesis
  proof (rule set_eqI)
    fix e show "e \<in> set (om_emplace k v m) \<longleftrightarrow> e \<in> insert (k, v) (set m)"
      using om_in_set [OF om_emplace_ok [OF ok], of "fst e" "snd e" k v] om_in_set [OF ok, of "fst e" "snd e"]
        om_emplace_map [OF ok None, of v] None by (cases e) auto
  qed
qed

lemma inc_cached:
  assumes "rec_ok U W {} m" "(k, f) \<in> set (mr_incremental m)" shows "(k, f) \<in> set (inc_entries U 0 (length U))"
proof -
  have "k = md_seq_num f" "frame_ok U W False f" using assms by (auto simp: rec_ok_def)
  then show ?thesis by (auto simp: frame_ok_def inc_entries_def inc_frame_def)
qed

text \<open>The caches never hold more than a cycle and the increments.\<close>

lemma rec_ok_size:
  assumes feed: "feed_ok U W" and ok: "rec_ok U W {} m"
  shows "length (mr_snapshot m) \<le> length (snap_frames U W (mr_cycle m))" "length (mr_incremental m) \<le> length U"
proof -
  have le: "length (xs :: (u64, MDPMarketUpdate) omap) \<le> length ys" if "om_ok xs" "set xs \<subseteq> set ys" for xs ys
  proof -
    have "distinct xs" using om_distinct [OF that(1)] by (simp add: distinct_map)
    then show ?thesis using card_mono [OF _ that(2)] card_length [of ys] distinct_card [of xs] by simp
  qed
  have "length (mr_snapshot m) \<le> length (keyed (snap_frames U W (mr_cycle m)))"
    using ok by (intro le) (auto simp: rec_ok_def keyed_def)
  moreover have "length (mr_incremental m) \<le> length (inc_entries U 0 (length U))"
  proof (rule le)
    show "om_ok (mr_incremental m)" using ok by (simp add: rec_ok_def)
    show "set (mr_incremental m) \<subseteq> set (inc_entries U 0 (length U))" using inc_cached [OF ok] by auto
  qed
  ultimately show "length (mr_snapshot m) \<le> length (snap_frames U W (mr_cycle m))" "length (mr_incremental m) \<le> length U"
    by (simp_all add: keyed_def inc_entries_def)
qed

lemma cache_collects:
  assumes feed: "feed_ok U W" and ok: "rec_ok U W {} m" and f: "frame_ok U W snapshot f"
    and c: "snapshot \<Longrightarrow> md_snapshot_cycle f = mr_cycle m"
    and room: "(if snapshot then length (snap_frames U W (mr_cycle m)) else length (mr_snapshot m)) + length U \<le> mr_limit m"
  defines "m' \<equiv> snd (cache_frame snapshot f m)"
  shows "mr_recovering m' = mr_recovering m \<and> mr_invalid_cycle m' = mr_invalid_cycle m \<and> mr_cycle m' = mr_cycle m \<and>
     mr_limit m' = mr_limit m \<and>
     set (mr_snapshot m') = (if snapshot then insert (md_seq_num f, f) (set (mr_snapshot m)) else set (mr_snapshot m)) \<and>
     set (mr_incremental m') = (if snapshot then set (mr_incremental m) else insert (md_seq_num f, f) (set (mr_incremental m)))"
proof -
  let ?C = "if snapshot then mr_snapshot m else mr_incremental m"
  let ?s = "set_cache snapshot (om_emplace (md_seq_num f) f ?C) m"
  have old: "w = f" if "map_of ?C (md_seq_num f) = Some w" for w
    using rec_ok_entry [OF ok that] f c by (intro frame_by_number [OF feed, of snapshot]) auto
  have set: "set (om_emplace (md_seq_num f) f ?C) = insert (md_seq_num f, f) (set ?C)"
    using ok by (intro om_emplace_insert old) (auto simp: rec_ok_def)
  have "f \<in> set (snap_frames U W (mr_cycle m))" if snapshot using f c that by (simp add: frame_ok_def)
  then have "rec_ok U W {} ?s"
    using ok f set by (cases snapshot) (auto simp: rec_ok_def set_cache_def)
  then have "cached ?s \<le> mr_limit m" using rec_ok_size [OF feed, of ?s] room by (cases snapshot) (simp_all add: set_cache_def cached_def)
  then obtain d where "m' = ?s\<lparr>mr_duplicates := d\<rparr>" using cache_authentic [OF feed ok f c] unfolding m'_def by blast
  then show ?thesis using set by (cases snapshot) (simp_all add: set_cache_def)
qed

text \<open>Where all snapshot frames are of one cycle \<open>c\<close>: the snapshot cache holds those received, the incremental cache
  at least those received that the cycle does not cover.\<close>

definition collected :: "MEMarketUpdate list \<Rightarrow> (u64 \<Rightarrow> nat) \<Rightarrow> u64 \<Rightarrow> (bool \<times> MDPMarketUpdate) set \<Rightarrow> MarketRecovery \<Rightarrow> bool" where
  "collected U W c R m \<longleftrightarrow> rec_ok U W {} m \<and> mr_recovering m \<and> \<not> mr_invalid_cycle m \<and>
     mr_cycle m = (if \<exists>f. (True, f) \<in> R then c else 0) \<and>
     set (mr_snapshot m) = {(md_seq_num f, f) | f. (True, f) \<in> R} \<and>
     {(md_seq_num f, f) | f. (False, f) \<in> R \<and> of_nat (W c) < md_seq_num f} \<subseteq> set (mr_incremental m) \<and>
     set (mr_incremental m) \<subseteq> {(md_seq_num f, f) | f. (False, f) \<in> R}"

lemma ingest_collects:
  assumes feed: "feed_ok U W" and c: "c \<noteq> 0" and m: "collected U W c R m" and f: "frame_ok U W snapshot f"
    and fc: "snapshot \<Longrightarrow> md_snapshot_cycle f = c"
    and room: "length (snap_frames U W c) + length U \<le> mr_limit m"
  shows "collected U W c (insert (snapshot, f) R) (snd (ingest snapshot f m)) \<and> mr_limit (snd (ingest snapshot f m)) = mr_limit m"
proof -
  note M = m [unfolded collected_def]
  define m1 where "m1 = (if snapshot then snd (admit_snapshot f m) else m)"
  have wm: "md_watermark f = of_nat (W c)" if snapshot
    using f fc that by (intro snap_frames_cycle(2)) (simp add: frame_ok_def)
  have new: "mr_cycle m = c \<or> (mr_cycle m = 0 \<and> (\<forall>f. (True, f) \<notin> R))" using M by (auto split: if_splits)
  have m1: "rec_ok U W {} m1 \<and> mr_recovering m1 \<and> \<not> mr_invalid_cycle m1 \<and> mr_limit m1 = mr_limit m \<and>
      mr_cycle m1 = (if snapshot then c else mr_cycle m) \<and> set (mr_snapshot m1) = set (mr_snapshot m) \<and>
      set (mr_incremental m1) \<subseteq> set (mr_incremental m) \<and>
      (\<forall>(k, g) \<in> set (mr_incremental m). of_nat (W c) < k \<longrightarrow> (k, g) \<in> set (mr_incremental m1))"
  proof (cases "snapshot \<and> mr_cycle m \<noteq> c")
    case True
    then have z: "mr_cycle m = 0" "mr_snapshot m = []" using new M by auto
    have m1: "m1 = m\<lparr>mr_cycle := c, mr_snapshot := [], mr_invalid_cycle := False, mr_incremental := om_upper (of_nat (W c)) (mr_incremental m)\<rparr>"
      using True fc wm c z by (simp add: m1_def admit_snapshot_def word_gt_0)
    have "om_ok (mr_incremental m)" using M by (simp add: rec_ok_def)
    then have "om_ok (filter (\<lambda>e. of_nat (W c) < fst e) (mr_incremental m))"
      using om_upper_ok [of "mr_incremental m" "of_nat (W c)"] by (simp add: om_upper_filter)
    then show ?thesis using M True z by (auto simp: m1 rec_ok_def om_upper_filter)
  next
    case False
    then have "m1 = m" using fc c by (auto simp: m1_def admit_snapshot_def Let_def)
    then show ?thesis using M False by auto
  qed
  have ing: "snd (ingest snapshot f m) = snd (cache_frame snapshot f m1)"
    using M m1 fc c new by (auto simp: ingest_def m1_def admit_snapshot_def Let_def split: if_splits)
  have "length (mr_snapshot m1) \<le> length (snap_frames U W c)"
  proof (cases "mr_cycle m1 = c")
    case True then show ?thesis using rec_ok_size(1) [OF feed conjunct1 [OF m1]] by simp
  next
    case False then show ?thesis using m1 M new by (auto split: if_splits)
  qed
  then have room1: "(if snapshot then length (snap_frames U W (mr_cycle m1)) else length (mr_snapshot m1)) + length U \<le> mr_limit m1"
    using room m1 by auto
  have cyc: "snapshot \<Longrightarrow> md_snapshot_cycle f = mr_cycle m1" using fc m1 by simp
  note C = cache_collects [OF feed conjunct1 [OF m1] f cyc room1]
  have "rec_ok U W {} (snd (cache_frame snapshot f m1))" using cache_rec [OF conjunct1 [OF m1], of snapshot f] f cyc by simp
  then have "collected U W c (insert (snapshot, f) R) (snd (cache_frame snapshot f m1))"
    using C M m1 new unfolding collected_def by (cases snapshot) (auto split: if_splits)
  then show ?thesis unfolding ing using C m1 by simp
qed

lemma new_collected:
  assumes "MarketRecovery_new limit = Some m"
  shows "collected U W c {} m" "mr_limit m = limit" "mr_snapshot m = []"
  using assms new_rec [OF assms] by (auto simp: collected_def MarketRecovery_new_def split: if_splits)

lemma ingest_all_collects:
  assumes feed: "feed_ok U W" and c: "c \<noteq> 0" and m: "collected U W c R m"
    and room: "length (snap_frames U W c) + length U \<le> mr_limit m"
    and fs: "\<forall>(s, f) \<in> set fs. frame_ok U W s f \<and> (s \<longrightarrow> md_snapshot_cycle f = c)"
  shows "collected U W c (R \<union> set fs) (ingest_all fs m)"
  using m room fs
proof (induct fs arbitrary: R m)
  case (Cons x fs)
  obtain s f where x: "x = (s, f)" by fastforce
  have "collected U W c (insert (s, f) R) (snd (ingest s f m)) \<and> mr_limit (snd (ingest s f m)) = mr_limit m"
    using Cons.prems x by (intro ingest_collects [OF feed c]) auto
  then show ?case using Cons.hyps [of "insert (s, f) R" "snd (ingest s f m)"] Cons.prems x by (simp add: ingest_all_def)
qed (simp add: ingest_all_def)

lemma collected_builds:
  assumes feed: "feed_ok U W" and m: "collected U W c R m"
    and snap: "\<forall>f \<in> set (snap_frames U W c). (True, f) \<in> R" "\<forall>f. (True, f) \<in> R \<longrightarrow> f \<in> set (snap_frames U W c)"
    and inc: "\<forall>f. (False, f) \<in> R \<longrightarrow> frame_ok U W False f"
      "\<forall>k. W c \<le> k \<and> k < length U \<longrightarrow> ((False, inc_frame (Suc k) (U ! k)) \<in> R \<longleftrightarrow> k < n)"
    and n: "W c \<le> n" "n \<le> length U"
  shows "\<exists>batch m'. build m = (Some batch, m') \<and> bt_watermark batch = of_nat n"
proof (rule build_succeeds [OF feed _ _ _ _ n])
  note M = m [unfolded collected_def]
  have len: "length U < 2 ^ 63" using feed by (simp add: feed_ok_def)
  have "snap_frames U W c ! 0 \<in> set (snap_frames U W c)" by (rule nth_mem) (simp add: snap_frames_nth(1))
  then have "\<exists>f. (True, f) \<in> R" using snap(1) by blast
  then show "\<not> mr_invalid_cycle m" "mr_cycle m = c" using M by auto
  have "set (mr_snapshot m) = set (keyed (snap_frames U W c))" using M snap by (auto simp: keyed_def)
  then show "mr_snapshot m = keyed (snap_frames U W c)" using M by (intro om_set_ext keyed_ok) (auto simp: rec_ok_def)
  have okI: "om_ok (mr_incremental m)" using M by (simp add: rec_ok_def)
  have lt: "(of_nat (W c) :: u64) < of_nat (Suc j) \<longleftrightarrow> W c \<le> j" if "j < length U" for j
    using that len n by (simp add: word_less_nat_alt unsigned_of_nat take_bit_nat_eq_self less_Suc_eq_le del: of_nat_Suc)
  show "om_upper (of_nat (W c)) (mr_incremental m) = inc_entries U (W c) n"
  proof (rule om_set_ext [OF om_upper_ok [OF okI] inc_entries_ok])
    show "n < 2 ^ 63" using n len by simp
    show "set (om_upper (of_nat (W c)) (mr_incremental m)) = set (inc_entries U (W c) n)"
    proof (intro equalityI subsetI)
      fix x assume "x \<in> set (om_upper (of_nat (W c)) (mr_incremental m))"
      then obtain f where x: "x = (md_seq_num f, f)" "x \<in> set (mr_incremental m)" "(False, f) \<in> R" "of_nat (W c) < md_seq_num f"
        using M okI by (auto simp: om_upper_filter)
      then obtain j where j: "j < length U" "f = inc_frame (Suc j) (U ! j)" using inc(1) by (auto simp: frame_ok_def)
      then have "W c \<le> j" "j < n" using x(3,4) lt [OF j(1)] inc(2) by (auto simp: inc_frame_def)
      then show "x \<in> set (inc_entries U (W c) n)" using x(1) j(2) by (auto simp: inc_entries_def inc_frame_def)
    next
      fix x assume "x \<in> set (inc_entries U (W c) n)"
      then obtain j where j: "W c \<le> j" "j < n" "x = (of_nat (Suc j), inc_frame (Suc j) (U ! j))" by (auto simp: inc_entries_def)
      then have "(False, inc_frame (Suc j) (U ! j)) \<in> R" "(of_nat (W c) :: u64) < of_nat (Suc j)" using inc(2) n lt [of j] by auto
      then have "x \<in> set (mr_incremental m)" using M j(3) by (auto simp: inc_frame_def)
      then show "x \<in> set (om_upper (of_nat (W c)) (mr_incremental m))"
        using okI j(3) \<open>(of_nat (W c) :: u64) < of_nat (Suc j)\<close> by (simp add: om_upper_filter)
    qed
  qed
qed

subsection \<open>Recovery is sound and complete\<close>

text \<open>A stream of one order, and all that a client may receive of it: cycle 1, taken before the order, and the
  increment.\<close>

definition demo_stream :: "MEMarketUpdate list" where
  "demo_stream = [mk_update Mkt_ADD 1 2 BUY 100 10 1]"

definition demo_frames :: "(bool \<times> MDPMarketUpdate) list" where
  "demo_frames = (False, inc_frame 1 (hd demo_stream)) # map (Pair True) (snap_frames demo_stream (\<lambda>_. 0) 1)"

lemma demo_feed: "feed_ok demo_stream (\<lambda>_. 0)"
  by (simp add: feed_ok_def demo_stream_def quote_step_def Let_def add_valid_def id_valid_def qty_valid_def price_valid_def
      side_valid_def limits no_quotes_def mk_update_def)

lemma demo_frames_ok: "\<forall>(s, f) \<in> set demo_frames. frame_ok demo_stream (\<lambda>_. 0) s f \<and> (s \<longrightarrow> md_snapshot_cycle f = 1)"
  using snap_frames_cycle(1) [of _ demo_stream "\<lambda>_. 0" 1]
  by (auto simp: demo_frames_def frame_ok_def demo_stream_def)

lemma demo_size: "length (snap_frames demo_stream (\<lambda>_. 0) 1) + length demo_stream \<le> 16"
  by (simp add: snap_frames_nth(1) state_at_def snap_events_def live_of_def no_quotes_def List.map_filter_def demo_stream_def
      length_concat comp_def sum_list_triv limits del: upt_conv_Cons)

lemma demo_complete:
  "(\<forall>f \<in> set (snap_frames demo_stream (\<lambda>_. 0) 1). (True, f) \<in> set demo_frames) \<and>
   (\<forall>k. 0 \<le> k \<and> k < length demo_stream \<longrightarrow> ((False, inc_frame (Suc k) (demo_stream ! k)) \<in> set demo_frames \<longleftrightarrow> k < 1))"
  by (auto simp: demo_frames_def demo_stream_def)

text \<open>Whatever frames of an exchange feed a recovering client has received, in whatever order, with losses and
  repetitions: a batch that \<open>build\<close> returns takes any earlier state of the books to exactly the state of the exchange
  after \<open>n\<close> updates, where \<open>n\<close> is the watermark of the batch.\<close>

theorem recovery_batch_sound:
  assumes "feed_ok U W" "MarketRecovery_new limit = Some m" "\<forall>(s, f) \<in> set fs. frame_ok U W s f"
    and "build (ingest_all fs m) = (Some batch, m')"
  shows "\<exists>n \<le> length U. bt_watermark batch = of_nat n \<and>
     (\<forall>Q. listed Q \<longrightarrow> replay quote_step (bt_events batch) Q = Some (state_at U n))"
  using build_sound [OF assms(1) received_simps(3) ingest_all_rec [OF new_rec [OF assms(2)] assms(3)] assms(4)] by blast

lemma demo_builds:
  assumes "MarketRecovery_new 16 = Some m"
  shows "\<exists>batch m'. build (ingest_all demo_frames m) = (Some batch, m') \<and> bt_watermark batch = of_nat 1"
proof -
  note start = new_collected [OF assms]
  have c: "collected demo_stream (\<lambda>_. 0) 1 (set demo_frames) (ingest_all demo_frames m)"
    using ingest_all_collects [OF demo_feed _ start(1) _ demo_frames_ok] demo_size start(2) by simp
  show ?thesis
    by (rule collected_builds [OF demo_feed c])
      (use demo_complete demo_frames_ok in \<open>auto simp: frame_ok_def demo_stream_def\<close>)
qed

lemma recovery_batch_sound_witness:
  "\<exists>m batch m'. MarketRecovery_new 16 = Some m \<and> build (ingest_all demo_frames m) = (Some batch, m') \<and>
     replay quote_step (bt_events batch) no_quotes = Some (state_at demo_stream 1)"
proof -
  obtain m where m: "MarketRecovery_new 16 = Some m" by (simp add: MarketRecovery_new_def limits)
  obtain batch m' where b: "build (ingest_all demo_frames m) = (Some batch, m')" "bt_watermark batch = of_nat 1"
    using demo_builds [OF m] by blast
  have "\<forall>(s, f) \<in> set demo_frames. frame_ok demo_stream (\<lambda>_. 0) s f" using demo_frames_ok by auto
  from recovery_batch_sound [OF demo_feed m this b(1)] obtain n where n: "n \<le> length demo_stream" "bt_watermark batch = of_nat n"
    "replay quote_step (bt_events batch) no_quotes = Some (state_at demo_stream n)" using quotes_ok_listed [OF no_quotes_ok] by auto
  have "n = 1" using n(1,2) b(2) of_nat_inj_64 [of n 1] by (simp add: demo_stream_def)
  with m b n show ?thesis by blast
qed

text \<open>Recovery needs no more than one whole cycle. Once every frame of a snapshot cycle and a contiguous run of the
  increments after its watermark have been received, in any order and any number of times, \<open>build\<close> returns a batch up to
  the last of them, and the batch is right. The cache limit must hold the cycle and the stream.\<close>

theorem recovery_completes:
  assumes "feed_ok U W" "c \<noteq> 0" "MarketRecovery_new limit = Some m" "length (snap_frames U W c) + length U \<le> limit"
    and "\<forall>(s, f) \<in> set fs. frame_ok U W s f \<and> (s \<longrightarrow> md_snapshot_cycle f = c)"
    and "\<forall>f \<in> set (snap_frames U W c). (True, f) \<in> set fs"
    and "\<forall>k. W c \<le> k \<and> k < length U \<longrightarrow> ((False, inc_frame (Suc k) (U ! k)) \<in> set fs \<longleftrightarrow> k < n)" "W c \<le> n" "n \<le> length U"
  shows "\<exists>batch m'. build (ingest_all fs m) = (Some batch, m') \<and> bt_watermark batch = of_nat n \<and>
     (\<forall>Q. listed Q \<longrightarrow> replay quote_step (bt_events batch) Q = Some (state_at U n))"
proof -
  note start = new_collected [OF assms(3)]
  have col: "collected U W c (set fs) (ingest_all fs m)"
    using ingest_all_collects [OF assms(1,2) start(1) _ assms(5)] start(2) assms(4) by simp
  obtain batch m' where b: "build (ingest_all fs m) = (Some batch, m')" "bt_watermark batch = of_nat n"
    using collected_builds [OF assms(1) col assms(6) _ _ assms(7-9)] assms(5) by (fastforce simp: frame_ok_def)
  obtain n' where n': "n' \<le> length U" "bt_watermark batch = of_nat n'"
    "\<forall>Q. listed Q \<longrightarrow> replay quote_step (bt_events batch) Q = Some (state_at U n')"
    using build_sound [OF assms(1) received_simps(3) _ b(1)] col by (auto simp: collected_def)
  have "n' = n" using n'(1,2) b(2) assms(1,9) of_nat_inj_64 [of n' n] by (simp add: feed_ok_def)
  with b n' show ?thesis by blast
qed

lemma recovery_completes_witness:
  "\<exists>m batch m'. MarketRecovery_new 16 = Some m \<and> build (ingest_all demo_frames m) = (Some batch, m') \<and> bt_watermark batch = 1"
proof -
  obtain m where m: "MarketRecovery_new 16 = Some m" by (simp add: MarketRecovery_new_def limits)
  have "\<exists>batch m'. build (ingest_all demo_frames m) = (Some batch, m') \<and> bt_watermark batch = of_nat 1 \<and>
     (\<forall>Q. listed Q \<longrightarrow> replay quote_step (bt_events batch) Q = Some (state_at demo_stream 1))"
    by (rule recovery_completes [OF demo_feed _ m demo_size demo_frames_ok])
      (use demo_complete in \<open>auto simp: demo_stream_def\<close>)
  with m show ?thesis by auto
qed

end
