(* ===== verification/Market_Data_Consumer.thy ===== *)
theory Market_Data_Consumer
  imports Market_Recovery_Live LF_Queue
begin

text \<open>
  \<^verbatim>\<open>src/trading/market_data/market_data_consumer.cpp\<close>: the client's network thread. It reads the two multicast channels,
  passes contiguous increments on to the trading engine, and on any gap, damaged datagram or full queue starts a new
  recovery generation and hands over a whole batch closed by a \<open>RECOVERY_COMMIT\<close> marker. \<open>cs_generation\<close> is the atomic
  counter shared with the engine; \<open>MDC_step\<close> interleaves rounds of this thread with the engine taking events and asking
  for a new recovery. The 1 ms pause after a refused batch has no effect on the state.
\<close>

subsection \<open>State and operations\<close>

record MarketDataConsumer =
  cs_output :: "MEMarketUpdate LFQueue"
  cs_incremental :: McastSocket
  cs_snapshot :: McastSocket
  cs_recovery :: MarketRecovery
  cs_candidate :: "Batch option"
  cs_generation :: u64
  cs_observed :: u64

text \<open>The constructor, after both sockets have been opened and joined; \<open>generation\<close> is the value of the counter before.\<close>

definition MarketDataConsumer_new :: "MEMarketUpdate LFQueue \<Rightarrow> u64 \<Rightarrow> MarketDataConsumer option" where
  "MarketDataConsumer_new output generation = do {
     recovery \<leftarrow> MarketRecovery_new ME_MAX_MARKET_UPDATES;
     Some \<lparr>cs_output = output, cs_incremental = McastSocket_open, cs_snapshot = McastSocket_open, cs_recovery = recovery,
           cs_candidate = None, cs_generation = generation + 1, cs_observed = generation + 1\<rparr> }"

definition new_generation :: "MarketDataConsumer \<Rightarrow> MarketDataConsumer" where
  "new_generation c = c\<lparr>cs_generation := cs_generation c + 1, cs_observed := cs_generation c + 1, cs_candidate := None\<rparr>"

definition stale :: "MarketDataConsumer \<Rightarrow> MarketDataConsumer" where
  "stale c = (new_generation c)\<lparr>cs_recovery := restart (cs_recovery c)\<rparr>"

definition publishRecovery :: "MarketDataConsumer \<Rightarrow> MarketDataConsumer" where
  "publishRecovery c =
     (case cs_candidate c of None \<Rightarrow> c
      | Some batch \<Rightarrow>
          let (ok, q) = try_push_batch (bt_events batch) (cs_output c); c = c\<lparr>cs_output := q\<rparr> in
          if ok then c\<lparr>cs_recovery := commit batch (cs_recovery c), cs_candidate := None\<rparr> else c)"

definition commit_marker :: "Batch \<Rightarrow> u64 \<Rightarrow> MEMarketUpdate" where
  "commit_marker batch generation =
     MEMarketUpdate_default\<lparr>mu_type := Mkt_RECOVERY_COMMIT, mu_order_id := bt_watermark batch, mu_priority := generation\<rparr>"

text \<open>The second half of \<open>process\<close>: cache the frame and try to build a batch.\<close>

definition recover_with :: "bool \<Rightarrow> MDPMarketUpdate \<Rightarrow> MarketDataConsumer \<Rightarrow> MarketDataConsumer" where
  "recover_with snapshot update c =
     (let (candidate, recovery) = build (snd (ingest snapshot update (cs_recovery c)));
          c = c\<lparr>cs_recovery := recovery, cs_candidate := candidate\<rparr>
      in case candidate of None \<Rightarrow> c
         | Some batch \<Rightarrow> publishRecovery (c\<lparr>cs_candidate :=
             Some (batch\<lparr>bt_events := bt_events batch @ [commit_marker batch (cs_observed c)]\<rparr>)\<rparr>))"

definition process :: "bool \<Rightarrow> MDPMarketUpdate \<Rightarrow> MarketDataConsumer \<Rightarrow> MarketDataConsumer" where
  "process snapshot update c =
     (if snapshot \<and> \<not> mr_recovering (cs_recovery c) then c
      else if \<not> snapshot \<and> \<not> mr_recovering (cs_recovery c) then
        (let (candidate, recovery) = liveCandidate update (cs_recovery c); c = c\<lparr>cs_recovery := recovery\<rparr> in
         if candidate then
           (let (ok, q) = try_push (md_update update) (cs_output c); c = c\<lparr>cs_output := q\<rparr> in
            if ok then c\<lparr>cs_recovery := commitLive (cs_recovery c)\<rparr>
            else recover_with snapshot update (stale c))
         else if \<not> mr_recovering (cs_recovery c) then c
         else recover_with snapshot update (new_generation c))
      else recover_with snapshot update c)"

text \<open>What the incremental channel must not carry.\<close>

definition bad_increment :: "MDPMarketUpdate \<Rightarrow> bool" where
  "bad_increment update \<longleftrightarrow>
     mkt_to_byte (mu_type (md_update update)) < mkt_to_byte Mkt_CLEAR \<or>
     mkt_to_byte (mu_type (md_update update)) > mkt_to_byte Mkt_TRADE \<or>
     unat (mu_ticker_id (md_update update)) \<ge> ME_MAX_TICKERS \<or>
     md_snapshot_cycle update \<noteq> 0 \<or> md_watermark update \<noteq> 0 \<or> md_state_hash update \<noteq> 0"

text \<open>The loop over the frames of a datagram: the list is what is left from the current offset. Its length is a multiple
  of the frame size, so the read past the end that the outer \<open>None\<close> of \<open>decode_market\<close> stands for does not occur.\<close>

function receive_loop :: "bool \<Rightarrow> u8 list \<Rightarrow> MarketDataConsumer \<Rightarrow> MarketDataConsumer" where
  "receive_loop snapshot data c =
     (if data = [] then c
      else case decode_market data of
        Some (Some update) \<Rightarrow>
          if \<not> snapshot \<and> bad_increment update then stale c
          else receive_loop snapshot (drop MarketSize data) (process snapshot update c)
      | _ \<Rightarrow> stale c)"
  by pat_completeness auto
termination by (relation "measure (\<lambda>(_, data, _). length data)") (auto simp: limits)

declare receive_loop.simps [simp del]

definition set_socket :: "bool \<Rightarrow> McastSocket \<Rightarrow> MarketDataConsumer \<Rightarrow> MarketDataConsumer" where
  "set_socket snapshot s c = (if snapshot then c\<lparr>cs_snapshot := s\<rparr> else c\<lparr>cs_incremental := s\<rparr>)"

text \<open>The datagram is in the socket's buffer; every path empties it.\<close>

definition receive :: "bool \<Rightarrow> MarketDataConsumer \<Rightarrow> MarketDataConsumer" where
  "receive snapshot c =
     (let s = (if snapshot then cs_snapshot c else cs_incremental c);
          done = (\<lambda>c. set_socket snapshot (s\<lparr>mc_in := []\<rparr>) c)
      in if snapshot \<and> \<not> mr_recovering (cs_recovery c) then done c
         else if mc_fault s \<or> length (mc_in s) mod MarketSize \<noteq> 0 then stale (done c)
         else done (receive_loop snapshot (mc_in s) c))"

definition poll :: "Kernel \<Rightarrow> bool \<Rightarrow> MarketDataConsumer \<Rightarrow> MarketDataConsumer option" where
  "poll sys snapshot c = do {
     (got, s) \<leftarrow> sendAndRecv_mc sys (if snapshot then cs_snapshot c else cs_incremental c);
     let c = set_socket snapshot s c;
     Some (if got then receive snapshot c else c) }"

text \<open>The body of the loop of \<open>run\<close>. The engine may bump the counter at any time; a change is seen here.\<close>

definition consumer_round :: "Kernel \<Rightarrow> Kernel \<Rightarrow> MarketDataConsumer \<Rightarrow> MarketDataConsumer option" where
  "consumer_round inc_sys snap_sys c = do {
     let c = (if cs_generation c \<noteq> cs_observed c
              then c\<lparr>cs_observed := cs_generation c, cs_recovery := restart (cs_recovery c), cs_candidate := None\<rparr> else c);
     c \<leftarrow> poll inc_sys False c;
     c \<leftarrow> poll snap_sys True c;
     Some (publishRecovery c) }"

subsection \<open>The thread and the engine\<close>

text \<open>What the network delivers. Truncated, damaged and foreign bytes are allowed wherever they do not decode as a frame. A frame
  of the snapshot channel that does decode was published there or is one of the damaged frames \<open>D\<close>, which the digest is to
  detect; one of the incremental channel was published there, since an increment carries no digest and nothing but the
  checksum of UDP protects it.\<close>

definition datagram_ok :: "MEMarketUpdate list \<Rightarrow> (u64 \<Rightarrow> nat) \<Rightarrow> MDPMarketUpdate set \<Rightarrow> bool \<Rightarrow> u8 list \<Rightarrow> bool" where
  "datagram_ok U W D snapshot d \<longleftrightarrow>
     (\<forall>k f. decode_market (drop (k * MarketSize) d) = Some (Some f) \<longrightarrow> received_ok U W D snapshot f)"

definition kernel_ok :: "MEMarketUpdate list \<Rightarrow> (u64 \<Rightarrow> nat) \<Rightarrow> MDPMarketUpdate set \<Rightarrow> bool \<Rightarrow> Kernel \<Rightarrow> bool" where
  "kernel_ok U W D snapshot sys \<longleftrightarrow> (\<forall>n d. snd (sys n) = Rx d \<longrightarrow> datagram_ok U W D snapshot d)"

text \<open>The state pairs the consumer with the events the engine has taken.\<close>

inductive MDC_step :: "MEMarketUpdate list \<Rightarrow> (u64 \<Rightarrow> nat) \<Rightarrow> MDPMarketUpdate set \<Rightarrow> MarketDataConsumer \<times> MEMarketUpdate list \<Rightarrow>
    MarketDataConsumer \<times> MEMarketUpdate list \<Rightarrow> bool" for U W D where
  round: "consumer_round inc_sys snap_sys c = Some c' \<Longrightarrow> kernel_ok U W D False inc_sys \<Longrightarrow> kernel_ok U W D True snap_sys \<Longrightarrow>
    MDC_step U W D (c, taken) (c', taken)"
| take: "try_pop (cs_output c) = (Some u, q) \<Longrightarrow> MDC_step U W D (c, taken) (c\<lparr>cs_output := q\<rparr>, taken @ [u])"
| request: "MDC_step U W D (c, taken) (c\<lparr>cs_generation := cs_generation c + 1\<rparr>, taken)"

subsection \<open>What has been handed over\<close>

text \<open>The history \<open>h\<close> ends with a batch that takes any state to the state of the exchange after \<open>m\<close> updates, its marker of
  generation \<open>g\<close>, and the updates of the exchange from there to the \<open>n\<close>-th.\<close>

definition synced :: "MEMarketUpdate list \<Rightarrow> MEMarketUpdate list \<Rightarrow> nat \<Rightarrow> u64 \<Rightarrow> bool" where
  "synced U h n g \<longleftrightarrow> n \<le> length U \<and> (\<exists>m \<le> n. \<exists>pre batch mk. h = pre @ batch @ mk # drop m (take n U) \<and>
     mu_type mk = Mkt_RECOVERY_COMMIT \<and> mu_priority mk = g \<and>
     (\<forall>Q. listed Q \<longrightarrow> replay quote_step batch Q = Some (state_at U m)))"

text \<open>What the consumer can hand over beside the markers: updates of the exchange, clearing events and resting orders.\<close>

definition published :: "MEMarketUpdate list \<Rightarrow> MEMarketUpdate set" where
  "published U = set U \<union> {u. mu_type u = Mkt_CLEAR \<and> unat (mu_ticker_id u) < ME_MAX_TICKERS} \<union> (\<Union>k \<in> {..length U}. set (resting U k))"

definition batch_ok :: "MEMarketUpdate list \<Rightarrow> u64 \<Rightarrow> Batch \<Rightarrow> bool" where
  "batch_ok U g b \<longleftrightarrow> (\<exists>evs mk n. bt_events b = evs @ [mk] \<and> mu_type mk = Mkt_RECOVERY_COMMIT \<and> mu_priority mk = g \<and>
     n \<le> length U \<and> bt_watermark b = of_nat n \<and> set evs \<subseteq> published U \<and>
     (\<forall>Q. listed Q \<longrightarrow> replay quote_step evs Q = Some (state_at U n)))"

definition consumer_inv :: "MEMarketUpdate list \<Rightarrow> (u64 \<Rightarrow> nat) \<Rightarrow> MDPMarketUpdate set \<Rightarrow> MEMarketUpdate list \<Rightarrow> MarketDataConsumer \<Rightarrow> bool" where
  "consumer_inv U W D taken c \<longleftrightarrow> queue_ok (cs_output c) \<and> rec_ok U W D (cs_recovery c) \<and>
     (\<forall>b. cs_candidate c = Some b \<longrightarrow> batch_ok U (cs_observed c) b) \<and>
     (mr_recovering (cs_recovery c) \<or> (\<exists>n. mr_expected (cs_recovery c) = of_nat (Suc n) \<and>
        synced U (taken @ contents (cs_output c)) n (cs_observed c)))"

lemma inv_recovering:
  "queue_ok (cs_output c) \<Longrightarrow> rec_ok U W D (cs_recovery c) \<Longrightarrow> mr_recovering (cs_recovery c) \<Longrightarrow>
   (\<And>b. cs_candidate c = Some b \<Longrightarrow> batch_ok U (cs_observed c) b) \<Longrightarrow> consumer_inv U W D taken c"
  by (simp add: consumer_inv_def)

lemma stale_inv: "queue_ok (cs_output c) \<Longrightarrow> consumer_inv U W D taken (stale c)"
  by (rule inv_recovering) (simp_all add: stale_def new_generation_def, simp add: restart_def)

lemma commit_rec [simp]: "rec_ok U W D m \<Longrightarrow> rec_ok U W D (commit b m)"
  by (simp add: commit_def)

lemma publish_inv:
  assumes "consumer_inv U W D taken c" shows "consumer_inv U W D taken (publishRecovery c)"
proof (cases "cs_candidate c")
  case None then show ?thesis using assms by (simp add: publishRecovery_def)
next
  case (Some b)
  note I = assms [unfolded consumer_inv_def]
  obtain evs mk n where b: "bt_events b = evs @ [mk]" "mu_type mk = Mkt_RECOVERY_COMMIT" "mu_priority mk = cs_observed c"
    "n \<le> length U" "bt_watermark b = of_nat n" "\<forall>Q. listed Q \<longrightarrow> replay quote_step evs Q = Some (state_at U n)"
    using I Some unfolding batch_ok_def by blast
  obtain ok q where q: "try_push_batch (bt_events b) (cs_output c) = (ok, q)" by fastforce
  note B = batch_contents [OF conjunct1 [OF I] q]
  show ?thesis
  proof (cases ok)
    case True
    have "synced U ((taken @ contents (cs_output c)) @ evs @ mk # []) n (cs_observed c)"
      unfolding synced_def using b by (intro conjI exI [of _ n] exI [of _ "taken @ contents (cs_output c)"] exI [of _ evs] exI [of _ mk]) simp_all
    then have "synced U (taken @ contents q) n (cs_observed c)" using B True b(1) by simp
    then show ?thesis using I B Some q True b(5)
      by (auto simp: consumer_inv_def publishRecovery_def commit_def add.commute)
  next
    case False
    then show ?thesis using I B Some q by (auto simp: consumer_inv_def publishRecovery_def)
  qed
qed

lemma build_batch_ok:
  assumes feed: "channels_ok U W D" and ok: "rec_ok U W D m" and b: "build m = (Some batch, m')"
  shows "batch_ok U g (batch\<lparr>bt_events := bt_events batch @ [commit_marker batch g]\<rparr>)"
proof -
  note feed = channels_okD [OF feed]
  obtain n where n: "n \<le> length U" "bt_watermark batch = of_nat n"
    "\<forall>Q. listed Q \<longrightarrow> replay quote_step (bt_events batch) Q = Some (state_at U n)"
    using build_sound [OF feed ok b] by blast
  obtain k j es where "k \<le> j" "j \<le> length U" "bt_events batch = es @ drop k (take j U)" "snap_replaces U k es"
    using build_batch [OF feed ok b] by blast
  then have "set (bt_events batch) \<subseteq> published U" unfolding published_def snap_replaces_def
    by (fastforce dest: in_set_dropD in_set_takeD)
  with n show ?thesis unfolding batch_ok_def
    by (intro exI [of _ "bt_events batch"] exI [of _ "commit_marker batch g"] exI [of _ n]) (simp add: commit_marker_def)
qed

text \<open>Recovering is staging a candidate and publishing it.\<close>

lemma recover_staged:
  assumes feed: "channels_ok U W D" and inv: "consumer_inv U W D taken c" and f: "received_ok U W D snapshot f"
    and r: "mr_recovering (cs_recovery c)"
  shows "\<exists>m b. mr_recovering m \<and> recover_with snapshot f c = publishRecovery (c\<lparr>cs_recovery := m, cs_candidate := b\<rparr>) \<and>
     consumer_inv U W D taken (c\<lparr>cs_recovery := m, cs_candidate := b\<rparr>)"
proof -
  let ?m = "snd (ingest snapshot f (cs_recovery c))"
  note I = inv [unfolded consumer_inv_def]
  have m: "rec_ok U W D ?m" using I ingest_rec [OF _ f] by blast
  obtain cand m' where b: "build ?m = (cand, m')" by fastforce
  have m': "rec_ok U W D m'" "mr_recovering m' = mr_recovering ?m" using build_frame [OF m] b by simp_all
  have rm: "mr_recovering ?m" using r
    by (auto simp: ingest_def admit_snapshot_def cache_frame_def Let_def restart_def split: option.split)
  show ?thesis
  proof (cases cand)
    case None
    then show ?thesis using I m' rm b
      by (intro exI [of _ m'] exI [of _ None] conjI inv_recovering) (simp_all add: recover_with_def publishRecovery_def)
  next
    case (Some batch)
    let ?b = "batch\<lparr>bt_events := bt_events batch @ [commit_marker batch (cs_observed c)]\<rparr>"
    have "batch_ok U (cs_observed c) ?b" using build_batch_ok [OF feed m] b Some by simp
    then show ?thesis using I m' rm b Some
      by (intro exI [of _ m'] exI [of _ "Some ?b"] conjI inv_recovering) (simp_all add: recover_with_def)
  qed
qed

lemma recover_inv:
  assumes "channels_ok U W D" "consumer_inv U W D taken c" "received_ok U W D snapshot f" "mr_recovering (cs_recovery c)"
  shows "consumer_inv U W D taken (recover_with snapshot f c)"
  using recover_staged [OF assms] publish_inv by fastforce

lemma process_frame_inv:
  assumes feed: "channels_ok U W D" and inv: "consumer_inv U W D taken c" and f: "received_ok U W D snapshot f"
  shows "consumer_inv U W D taken (process snapshot f c)"
proof (cases "snapshot \<or> mr_recovering (cs_recovery c)")
  case True
  then show ?thesis using inv recover_inv [OF feed inv f] by (auto simp: process_def)
next
  case False
  note I = inv [unfolded consumer_inv_def]
  obtain n where n: "mr_expected (cs_recovery c) = of_nat (Suc n)" "synced U (taken @ contents (cs_output c)) n (cs_observed c)"
    using I False by blast
  obtain cand m where l: "liveCandidate f (cs_recovery c) = (cand, m)" by fastforce
  have m: "rec_ok U W D m" using I live_rec [of U W D "cs_recovery c" f] l by simp
  show ?thesis
  proof (cases cand)
    case True
    obtain ok q where q: "try_push (md_update f) (cs_output c) = (ok, q)" by fastforce
    note B = push_contents [OF conjunct1 [OF I] q]
    have same: "m = cs_recovery c" "md_seq_num f = of_nat (Suc n)"
      using l True n(1) by (auto simp: liveCandidate_def split: if_splits)
    show ?thesis
    proof (cases ok)
      case False
      have "consumer_inv U W D taken (recover_with snapshot f (stale (c\<lparr>cs_recovery := m, cs_output := q\<rparr>)))"
        by (rule recover_inv [OF feed stale_inv f]) (use B in \<open>simp_all add: stale_def new_generation_def restart_def\<close>)
      then show ?thesis using l q True False \<open>\<not> (snapshot \<or> _)\<close> by (simp add: process_def)
    next
      case ok: True
      obtain k where k: "k < length U" "f = inc_frame (Suc k) (U ! k)" using f False by (auto simp: frame_ok_def)
      have "k = n" using same(2) k n(2) channels_okD(1) [OF feed] of_nat_inj_64 [of "Suc k" "Suc n"]
        by (simp add: inc_frame_def synced_def feed_ok_def)
      obtain j pre batch mk where h: "j \<le> n" "taken @ contents (cs_output c) = pre @ batch @ mk # drop j (take n U)"
        "mu_type mk = Mkt_RECOVERY_COMMIT" "mu_priority mk = cs_observed c"
        "\<forall>Q. listed Q \<longrightarrow> replay quote_step batch Q = Some (state_at U j)" using n(2) by (auto simp: synced_def)
      have "drop j (take (Suc n) U) = drop j (take n U) @ [U ! n]"
        using k(1) \<open>k = n\<close> h(1) by (simp add: take_Suc_conv_app_nth)
      moreover have "taken @ contents q = pre @ batch @ mk # drop j (take n U) @ [U ! n]"
        using B ok h(2) k(2) \<open>k = n\<close> by (simp add: inc_frame_def flip: append_assoc)
      ultimately have "synced U (taken @ contents q) (Suc n) (cs_observed c)"
        unfolding synced_def using k(1) \<open>k = n\<close> h(1,3-5)
        by (intro conjI exI [of _ j] exI [of _ pre] exI [of _ batch] exI [of _ mk]) simp_all
      then have "\<exists>n. mr_expected (commitLive (cs_recovery c)) = of_nat (Suc n) \<and> synced U (taken @ contents q) n (cs_observed c)"
        using n(1) by (intro exI [of _ "Suc n"]) (simp add: commitLive_def add.commute)
      moreover have "process snapshot f c = c\<lparr>cs_output := q, cs_recovery := commitLive (cs_recovery c)\<rparr>"
        using l q ok True False same(1) by (simp add: process_def)
      ultimately show ?thesis using I B by (simp add: consumer_inv_def) (simp add: commitLive_def)
    qed
  next
    case cand: False
    show ?thesis
    proof (cases "mr_recovering m")
      case True
      have "consumer_inv U W D taken (new_generation (c\<lparr>cs_recovery := m\<rparr>))"
        using I m True by (intro inv_recovering) (simp_all add: new_generation_def)
      from recover_inv [OF feed this f] show ?thesis
        using l cand True False by (simp add: process_def new_generation_def)
    next
      case nr: False
      have "mr_expected m = mr_expected (cs_recovery c)"
        using l nr cand by (auto simp: liveCandidate_def restart_def split: if_splits)
      then show ?thesis using I m n l nr cand False by (auto simp: process_def consumer_inv_def)
    qed
  qed
qed

subsection \<open>Datagrams and rounds\<close>

lemma datagram_drop: "datagram_ok U W D snapshot d \<Longrightarrow> datagram_ok U W D snapshot (drop MarketSize d)"
  unfolding datagram_ok_def by (metis add.commute drop_drop mult_Suc)

lemma loop_inv:
  "channels_ok U W D \<Longrightarrow> consumer_inv U W D taken c \<Longrightarrow> datagram_ok U W D snapshot data \<Longrightarrow>
   consumer_inv U W D taken (receive_loop snapshot data c)"
proof (induct snapshot data c rule: receive_loop.induct)
  case (1 snapshot data c)
  have q: "queue_ok (cs_output c)" using 1(3) by (simp add: consumer_inv_def)
  show ?case
  proof (cases "data \<noteq> [] \<and> (\<exists>f. decode_market data = Some (Some f) \<and> (snapshot \<or> \<not> bad_increment f))")
    case True
    then obtain f where f: "decode_market data = Some (Some f)" "snapshot \<or> \<not> bad_increment f" by blast
    have "received_ok U W D snapshot f" using 1(4) f(1) unfolding datagram_ok_def by (metis drop_0 mult_0)
    then show ?thesis using 1(1) [OF _ f(1) refl _ 1(2) _ datagram_drop [OF 1(4)]] process_frame_inv [OF 1(2,3)] True f
      by (subst receive_loop.simps) auto
  next
    case False
    then show ?thesis using stale_inv [OF q] 1(3)
      by (subst receive_loop.simps) (auto split: option.split)
  qed
qed

lemma inv_socket [simp]: "consumer_inv U W D taken (set_socket snapshot s c) = consumer_inv U W D taken c"
  by (simp add: consumer_inv_def set_socket_def)

lemma recv_datagram:
  assumes "sendAndRecv_mc sys s = Some (True, s')" shows "\<exists>n d. snd (sys n) = Rx d \<and> (mc_fault s' \<or> mc_in s' = d)"
proof -
  obtain tx rx where k: "sys (mc_clock s) = (tx, rx)" by fastforce
  then obtain s1 where "mcast_receive rx s1 = (True, s')"
    using assms by (auto simp: sendAndRecv_mc_def bind_Some_conv split: if_splits)
  then obtain d where "rx = Rx d" "mc_fault s' \<or> mc_in s' = d"
    by (cases rx) (auto simp: mcast_receive_def split: if_splits)
  then show ?thesis using k by (metis snd_conv)
qed

lemma poll_inv:
  assumes feed: "channels_ok U W D" and inv: "consumer_inv U W D taken c" and k: "kernel_ok U W D snapshot sys"
    and p: "poll sys snapshot c = Some c'"
  shows "consumer_inv U W D taken c'"
proof -
  obtain got s where s: "sendAndRecv_mc sys (if snapshot then cs_snapshot c else cs_incremental c) = Some (got, s)"
    "c' = (if got then receive snapshot (set_socket snapshot s c) else set_socket snapshot s c)"
    using p by (auto simp: poll_def bind_Some_conv Let_def)
  show ?thesis
  proof (cases got)
    case True
    let ?c = "set_socket snapshot s c"
    have "datagram_ok U W D snapshot (mc_in s) \<or> mc_fault s"
      using recv_datagram s(1) True k unfolding kernel_ok_def by metis
    moreover have "(if snapshot then cs_snapshot ?c else cs_incremental ?c) = s" by (simp add: set_socket_def)
    moreover have "queue_ok (cs_output ?c)" using inv by (simp add: consumer_inv_def set_socket_def)
    moreover have "cs_output (set_socket snapshot x ?c) = cs_output ?c" for x by (simp add: set_socket_def)
    ultimately show ?thesis using s(2) True inv loop_inv [OF feed, of taken ?c snapshot "mc_in s"]
      by (auto simp: receive_def Let_def intro!: stale_inv)
  qed (use s inv in simp)
qed

lemma round_inv:
  assumes feed: "channels_ok U W D" and inv: "consumer_inv U W D taken c" and k: "kernel_ok U W D False inc_sys" "kernel_ok U W D True snap_sys"
    and r: "consumer_round inc_sys snap_sys c = Some c'"
  shows "consumer_inv U W D taken c'"
proof -
  define c0 where "c0 = (if cs_generation c \<noteq> cs_observed c
    then c\<lparr>cs_observed := cs_generation c, cs_recovery := restart (cs_recovery c), cs_candidate := None\<rparr> else c)"
  have "consumer_inv U W D taken c0"
  proof (cases "cs_generation c = cs_observed c")
    case False
    then show ?thesis using inv unfolding c0_def by (intro inv_recovering) (simp_all add: consumer_inv_def, simp add: restart_def)
  qed (use inv c0_def in simp)
  moreover obtain c1 c2 where "poll inc_sys False c0 = Some c1" "poll snap_sys True c1 = Some c2" "c' = publishRecovery c2"
    using r unfolding consumer_round_def Let_def c0_def [symmetric] by (auto simp: bind_Some_conv)
  ultimately show ?thesis using poll_inv [OF feed _ k(1)] poll_inv [OF feed _ k(2)] publish_inv by metis
qed

text \<open>A round always returns: the receiving sockets have nothing to send.\<close>

definition sockets_quiet :: "MarketDataConsumer \<Rightarrow> bool" where
  "sockets_quiet c \<longleftrightarrow> mc_out (cs_incremental c) = [] \<and> mc_out (cs_snapshot c) = []"

lemma publish_sockets [simp]:
  "cs_incremental (publishRecovery c) = cs_incremental c" "cs_snapshot (publishRecovery c) = cs_snapshot c"
  by (simp_all add: publishRecovery_def Let_def split: option.split prod.split)

lemma recover_sockets [simp]:
  "cs_incremental (recover_with snapshot f c) = cs_incremental c" "cs_snapshot (recover_with snapshot f c) = cs_snapshot c"
  by (simp_all add: recover_with_def Let_def split: option.split prod.split)

lemma stale_sockets [simp]:
  "cs_incremental (stale c) = cs_incremental c" "cs_snapshot (stale c) = cs_snapshot c"
  "cs_incremental (new_generation c) = cs_incremental c" "cs_snapshot (new_generation c) = cs_snapshot c"
  by (simp_all add: stale_def new_generation_def)

lemma process_sockets [simp]:
  "cs_incremental (process snapshot f c) = cs_incremental c" "cs_snapshot (process snapshot f c) = cs_snapshot c"
  by (simp_all add: process_def Let_def split: prod.split)

lemma loop_sockets [simp]:
  "cs_incremental (receive_loop snapshot data c) = cs_incremental c \<and> cs_snapshot (receive_loop snapshot data c) = cs_snapshot c"
proof (induct snapshot data c rule: receive_loop.induct)
  case (1 snapshot data c)
  then show ?case by (subst (1 2) receive_loop.simps) (auto split: option.split)
qed

lemma recv_quiet:
  assumes "mc_out s = []" shows "\<exists>got s'. sendAndRecv_mc sys s = Some (got, s') \<and> mc_out s' = []"
proof -
  obtain tx rx where "sys (mc_clock s) = (tx, rx)" by fastforce
  then show ?thesis using assms
    by (cases rx) (auto simp: sendAndRecv_mc_def mcast_transmit_def mcast_receive_def)
qed

lemma poll_total:
  assumes "sockets_quiet c" shows "\<exists>c'. poll sys snapshot c = Some c' \<and> sockets_quiet c'"
proof -
  define s where "s = (if snapshot then cs_snapshot c else cs_incremental c)"
  have "mc_out s = []" using assms by (simp add: s_def sockets_quiet_def)
  then obtain got s' where s': "sendAndRecv_mc sys s = Some (got, s')" "mc_out s' = []" using recv_quiet by blast
  have "sockets_quiet (set_socket snapshot s' c)" "sockets_quiet (receive snapshot (set_socket snapshot s' c))"
    using assms s'(2) by (simp_all add: sockets_quiet_def set_socket_def receive_def Let_def)
  then show ?thesis using s'(1) unfolding poll_def s_def [symmetric] by (simp add: Let_def)
qed

lemma round_total:
  assumes "sockets_quiet c" shows "\<exists>c'. consumer_round inc_sys snap_sys c = Some c' \<and> sockets_quiet c'"
proof -
  define c0 where "c0 = (if cs_generation c \<noteq> cs_observed c
    then c\<lparr>cs_observed := cs_generation c, cs_recovery := restart (cs_recovery c), cs_candidate := None\<rparr> else c)"
  have "sockets_quiet c0" using assms by (simp add: c0_def sockets_quiet_def)
  then obtain c1 where c1: "poll inc_sys False c0 = Some c1" "sockets_quiet c1" using poll_total by blast
  then obtain c2 where "poll snap_sys True c1 = Some c2" "sockets_quiet c2" using poll_total by blast
  with c1 show ?thesis unfolding consumer_round_def Let_def c0_def [symmetric] by (simp add: sockets_quiet_def)
qed

subsection \<open>Every reachable state\<close>

lemma MDC_reach:
  assumes feed: "channels_ok U W D" and new: "MarketDataConsumer_new q g = Some c0" and q: "queue_ok q"
    and steps: "(MDC_step U W D)\<^sup>*\<^sup>* (c0, []) (c, taken)"
  shows "consumer_inv U W D taken c \<and> sockets_quiet c"
  using steps
proof (induct "(c, taken)" arbitrary: c taken rule: rtranclp_induct)
  case base
  obtain m where "MarketRecovery_new ME_MAX_MARKET_UPDATES = Some m" "mr_recovering m"
    using new by (auto simp: MarketDataConsumer_new_def MarketRecovery_new_def bind_Some_conv split: if_splits)
  then show ?case using new q new_rec [of _ m U W D]
    by (auto simp: MarketDataConsumer_new_def consumer_inv_def sockets_quiet_def McastSocket_open_def)
next
  case (step y)
  obtain c1 t1 where y: "y = (c1, t1)" by fastforce
  note IH = step(3) [OF y]
  from step(2) show ?case unfolding y
  proof (cases rule: MDC_step.cases)
    case (round inc_sys snap_sys)
    then show ?thesis using IH round_inv [OF feed] round_total [of c1 inc_sys snap_sys] by auto
  next
    case (take u q')
    then show ?thesis using IH pop_contents [of "cs_output c1" "Some u" q'] by (auto simp: consumer_inv_def sockets_quiet_def)
  next
    case request
    then show ?thesis using IH by (auto simp: consumer_inv_def sockets_quiet_def)
  qed
qed

subsection \<open>Published datagrams\<close>

definition frame_wire :: "MDPMarketUpdate \<Rightarrow> bool" where
  "frame_wire f \<longleftrightarrow> side_ok (mu_side (md_update f)) \<and> i64 (mu_price (md_update f)) \<and> market_type_ok (mu_type (md_update f))"

lemma frame_wireD:
  assumes "frame_wire f"
  shows "decode_market (encode_market f @ rest) = Some (Some f)" "length (encode_market f) = MarketSize"
  using market_on_wire [of f rest] assms market_type_byte by (auto simp: frame_wire_def)

text \<open>Datagrams made of published frames are what the network may deliver, and each frame is processed in turn.\<close>

lemma datagram_frames:
  assumes "\<forall>f \<in> set fs. frame_wire f \<and> received_ok U W D snapshot f"
  shows "datagram_ok U W D snapshot (concat (map encode_market fs))"
  unfolding datagram_ok_def
proof (intro allI impI)
  fix k f assume d: "decode_market (drop (k * MarketSize) (concat (map encode_market fs))) = Some (Some f)"
  have "drop (k * MarketSize) (concat (map encode_market fs)) = concat (map encode_market (drop k fs))"
    using assms
  proof (induct fs arbitrary: k)
    case (Cons g fs) then show ?case by (cases k) (simp_all add: frame_wireD)
  qed simp
  then have e: "decode_market (concat (map encode_market (drop k fs))) = Some (Some f)" using d by simp
  show "received_ok U W D snapshot f"
  proof (cases "drop k fs")
    case Nil then show ?thesis using e by (simp add: decode_market_def get_def)
  next
    case (Cons g gs)
    then have g: "g \<in> set fs" by (metis in_set_dropD list.set_intros(1))
    then have "f = g" using e assms Cons by (simp add: frame_wireD(1))
    then show ?thesis using assms g by simp
  qed
qed

lemma socket_frame [simp]:
  "cs_recovery (set_socket b s c) = cs_recovery c" "cs_output (set_socket b s c) = cs_output c"
  "cs_candidate (set_socket b s c) = cs_candidate c" "cs_generation (set_socket b s c) = cs_generation c"
  "cs_observed (set_socket b s c) = cs_observed c"
  by (simp_all add: set_socket_def)

lemma socket_commute [simp]:
  "stale (set_socket b s c) = set_socket b s (stale c)" "new_generation (set_socket b s c) = set_socket b s (new_generation c)"
  "(set_socket b s c)\<lparr>cs_recovery := r\<rparr> = set_socket b s (c\<lparr>cs_recovery := r\<rparr>)"
  "(set_socket b s c)\<lparr>cs_output := q\<rparr> = set_socket b s (c\<lparr>cs_output := q\<rparr>)"
  "(set_socket b s c)\<lparr>cs_candidate := x\<rparr> = set_socket b s (c\<lparr>cs_candidate := x\<rparr>)"
  by (simp_all add: set_socket_def stale_def new_generation_def)

lemma publish_socket [simp]: "publishRecovery (set_socket b s c) = set_socket b s (publishRecovery c)"
  by (simp add: publishRecovery_def Let_def split: option.split prod.split)

lemma recover_socket [simp]: "recover_with snapshot f (set_socket b s c) = set_socket b s (recover_with snapshot f c)"
  by (simp add: recover_with_def Let_def split: option.split prod.split)

lemma process_socket: "process snapshot f (set_socket b s c) = set_socket b s (process snapshot f c)"
  by (simp add: process_def Let_def split: prod.split)

lemma fold_socket: "fold (process snapshot) fs (set_socket b s c) = set_socket b s (fold (process snapshot) fs c)"
  by (induct fs arbitrary: c) (simp_all add: process_socket)

lemma loop_frames:
  assumes "\<forall>f \<in> set fs. frame_wire f \<and> (snapshot \<or> \<not> bad_increment f)"
  shows "receive_loop snapshot (concat (map encode_market fs)) c = fold (process snapshot) fs c"
  using assms
proof (induct fs arbitrary: c)
  case Nil show ?case by (simp add: receive_loop.simps)
next
  case (Cons f fs)
  then have "encode_market f \<noteq> []" using frame_wireD(2) [of f] by (auto simp: limits)
  then show ?case using Cons by (subst receive_loop.simps) (auto simp: frame_wireD)
qed

subsection \<open>Going live\<close>

text \<open>\<open>process_all\<close> receives a list of frames, each with the channel it came on.\<close>

definition process_all :: "(bool \<times> MDPMarketUpdate) list \<Rightarrow> MarketDataConsumer \<Rightarrow> MarketDataConsumer" where
  "process_all fs c = fold (\<lambda>(snapshot, f). process snapshot f) fs c"

lemma recover_progress:
  assumes feed: "feed_ok U W" and col: "collected U W y R (snd (ingest snapshot f (cs_recovery c)))"
    and q: "queue_ok (cs_output c)"
    and room: "length (contents (cs_output c)) + length (snap_events (state_at U (W y))) + length U < length (store (cs_output c))"
  shows "\<not> mr_recovering (cs_recovery (recover_with snapshot f c)) \<or>
     (cs_recovery (recover_with snapshot f c) = snd (ingest snapshot f (cs_recovery c)) \<and>
      fst (build (cs_recovery (recover_with snapshot f c))) = None \<and> cs_output (recover_with snapshot f c) = cs_output c)"
proof -
  let ?m = "snd (ingest snapshot f (cs_recovery c))"
  have ok: "rec_ok U W {} ?m" using col by (simp add: collected_def)
  obtain cand m' where b: "build ?m = (cand, m')" by fastforce
  then have m': "m' = ?m" using build_pure [OF feed ok] by simp
  show ?thesis
  proof (cases cand)
    case None then show ?thesis using b m' by (simp add: recover_with_def)
  next
    case (Some batch)
    have "mr_snapshot ?m \<noteq> []" using b Some by (auto simp: build_def)
    then have cyc: "mr_cycle ?m = y" using col hd_in_set by (fastforce simp: collected_def)
    obtain n where n: "n \<le> length U" "bt_events batch = snap_events (state_at U (W y)) @ drop (W y) (take n U)"
      using build_events [OF feed ok] b Some cyc by blast
    let ?ev = "bt_events batch @ [commit_marker batch (cs_observed c)]"
    obtain ok' q' where p: "try_push_batch ?ev (cs_output c) = (ok', q')" by fastforce
    have "length (contents (cs_output c)) + length ?ev \<le> length (store (cs_output c))" using room n by simp
    then have "ok'" using batch_contents [OF q p] by blast
    then show ?thesis using b Some p by (simp add: recover_with_def publishRecovery_def commit_def)
  qed
qed

lemma process_progress:
  assumes feed: "feed_ok U W" and y: "y \<noteq> 0" and col: "collected U W y R (cs_recovery c)" and q: "queue_ok (cs_output c)"
    and none: "fst (build (cs_recovery c)) = None"
    and limit: "length (snap_frames U W y) + length U \<le> mr_limit (cs_recovery c)"
    and room: "length (contents (cs_output c)) + length (snap_events (state_at U (W y))) + length U < length (store (cs_output c))"
    and fs: "\<forall>(s, f) \<in> set fs. frame_ok U W s f \<and> (s \<longrightarrow> md_snapshot_cycle f = y)"
  shows "(\<exists>k \<le> length fs. \<not> mr_recovering (cs_recovery (process_all (take k fs) c))) \<or>
     (collected U W y (R \<union> set fs) (cs_recovery (process_all fs c)) \<and> fst (build (cs_recovery (process_all fs c))) = None)"
  using col q none limit room fs
proof (induct fs arbitrary: R c)
  case Nil then show ?case by (simp add: process_all_def)
next
  case (Cons x fs)
  obtain s f where x: "x = (s, f)" by fastforce
  have f: "frame_ok U W s f" "s \<Longrightarrow> md_snapshot_cycle f = y" using Cons.prems(6) x by auto
  let ?m = "snd (ingest s f (cs_recovery c))"
  have m: "collected U W y (insert (s, f) R) ?m" "mr_limit ?m = mr_limit (cs_recovery c)"
    using ingest_collects [OF feed y Cons.prems(1) f Cons.prems(4)] by simp_all
  have p: "process s f c = recover_with s f c" using Cons.prems(1) by (simp add: process_def collected_def)
  show ?case
  proof (cases "mr_recovering (cs_recovery (process s f c))")
    case False
    then show ?thesis using x by (intro disjI1 exI [of _ 1]) (simp add: process_all_def)
  next
    case True
    with recover_progress [OF feed m(1) Cons.prems(2,5)] p
    have c': "cs_recovery (process s f c) = ?m" "fst (build (cs_recovery (process s f c))) = None"
      "cs_output (process s f c) = cs_output c" by auto
    have "(\<exists>k \<le> length fs. \<not> mr_recovering (cs_recovery (process_all (take k fs) (process s f c)))) \<or>
     (collected U W y (insert (s, f) R \<union> set fs) (cs_recovery (process_all fs (process s f c))) \<and>
      fst (build (cs_recovery (process_all fs (process s f c)))) = None)"
      using Cons.prems m c' by (intro Cons.hyps) simp_all
    then show ?thesis
    proof
      assume "\<exists>k \<le> length fs. \<not> mr_recovering (cs_recovery (process_all (take k fs) (process s f c)))"
      then obtain k where "k \<le> length fs" "\<not> mr_recovering (cs_recovery (process_all (take k fs) (process s f c)))" by blast
      then show ?thesis using x by (intro disjI1 exI [of _ "Suc k"]) (simp add: process_all_def)
    qed (use x in \<open>simp add: process_all_def\<close>)
  qed
qed

lemma process_goes_live:
  assumes feed: "feed_ok U W" and y: "y \<noteq> 0" and new: "MarketDataConsumer_new q g = Some c" and q: "queue_ok q"
    and limit: "length (snap_frames U W y) + length U \<le> ME_MAX_MARKET_UPDATES"
    and room: "length (contents q) + length (snap_events (state_at U (W y))) + length U < length (store q)"
    and fs: "\<forall>(s, f) \<in> set fs. frame_ok U W s f \<and> (s \<longrightarrow> md_snapshot_cycle f = y)"
    and cycle: "\<forall>f \<in> set (snap_frames U W y). (True, f) \<in> set fs"
    and inc: "\<forall>k. W y \<le> k \<and> k < length U \<longrightarrow> ((False, inc_frame (Suc k) (U ! k)) \<in> set fs \<longleftrightarrow> k < n)" "W y \<le> n" "n \<le> length U"
  shows "\<exists>k \<le> length fs. \<not> mr_recovering (cs_recovery (process_all (take k fs) c))"
proof -
  obtain m where m: "MarketRecovery_new ME_MAX_MARKET_UPDATES = Some m" "cs_recovery c = m" "cs_output c = q"
    using new by (auto simp: MarketDataConsumer_new_def bind_Some_conv)
  note col = new_collected [OF m(1), folded m(2)]
  have none: "fst (build (cs_recovery c)) = None" using col(3) by (simp add: build_def)
  have "fst (build m') \<noteq> None" if "collected U W y ({} \<union> set fs) m'" for m'
    using collected_builds [OF feed that _ _ _ _ inc(2,3)] fs cycle inc(1) by (fastforce simp: frame_ok_def)
  then show ?thesis
    using process_progress [OF feed y col(1) _ none _ _ fs] q limit room m(3) col(2) by metis
qed

subsection \<open>Properties\<close>

text \<open>C28: the client follows the exchange. In every reachable state of the network thread, with datagrams lost, repeated,
  reordered and truncated at will, with bytes that decode as no frame anywhere, and the engine reading and requesting
  recoveries at any time: while the consumer is not recovering, what it has handed over ends with a batch that rebuilds
  the books of the exchange at some point from whatever was there before, the marker of the current generation, and all
  updates of the exchange from that point up to the one it expects next. Snapshot frames may also arrive damaged and still
  decode, with any number, cycle, watermark, digest or order in them (a frame numbered 0 must keep the watermark and the
  digest of its cycle), as long as no choice of the orders received has the digest of the resting orders by accident; the
  increments that decode are those that were published, for they carry no digest.
  A round of the thread never fails.\<close>

theorem consumer_follows_exchange:
  assumes "feed_ok U W" "damage_ok U W D" "MarketDataConsumer_new q g = Some c0" "queue_ok q" "(MDC_step U W D)\<^sup>*\<^sup>* (c0, []) (c, taken)"
  shows "(\<not> mr_recovering (cs_recovery c) \<longrightarrow> (\<exists>n. mr_expected (cs_recovery c) = of_nat (Suc n) \<and>
       synced U (taken @ contents (cs_output c)) n (cs_observed c))) \<and>
     consumer_round inc_sys snap_sys c \<noteq> None"
  using MDC_reach [OF _ assms(3-5)] assms(1,2) round_total [of c inc_sys snap_sys] by (auto simp: consumer_inv_def channels_ok_def)

text \<open>A concrete run: one datagram with the frames of an empty snapshot.\<close>

lemma demo_new: "\<exists>q c. LFQueue_new MEMarketUpdate_default 16 = Some q \<and> MarketDataConsumer_new q 0 = Some c"
  by (simp add: LFQueue_new_def checkedCapacity_queue_def has_single_bit_def MarketDataConsumer_new_def MarketRecovery_new_def
      limits upt_conv_Cons)

lemma demo_cycle:
  "snap_events (state_at [] 0) = map clear_event [0..<ME_MAX_TICKERS]"
  "length (snap_frames [] (\<lambda>_. 0) 1) = 10" "\<forall>f \<in> set (snap_frames [] (\<lambda>_. 0) 1). frame_wire f"
proof -
  show ev: "snap_events (state_at [] 0) = map clear_event [0..<ME_MAX_TICKERS]"
    by (simp add: snap_events_def state_at_def live_of_def no_quotes_def List.map_filter_def concat_map_singleton)
  then show len: "length (snap_frames [] (\<lambda>_. 0) 1) = 10" by (simp add: snap_frames_nth(1) limits)
  have "frame_wire (snap_frames [] (\<lambda>_. 0) 1 ! k)" if k: "k < length (snap_frames [] (\<lambda>_. 0) 1)" for k
  proof -
    let ?es = "marker Mkt_SNAPSHOT_START 0 # map clear_event [0..<ME_MAX_TICKERS] @ [marker Mkt_SNAPSHOT_END 0]"
    have "md_update (snap_frames [] (\<lambda>_. 0) 1 ! k) = ?es ! k" by (simp add: snap_frames_nth(2) [OF k] cycle_events_live ev)
    also have "\<dots> \<in> set ?es" using k len by (intro nth_mem) (simp add: limits)
    finally show ?thesis
      by (auto simp: frame_wire_def marker_def clear_event_def MEMarketUpdate_default_def side_ok_def i64_def market_type_ok_def limits)
  qed
  then show "\<forall>f \<in> set (snap_frames [] (\<lambda>_. 0) 1). frame_wire f" by (auto simp: in_set_conv_nth)
qed

lemma publish_live: "\<not> mr_recovering (cs_recovery c) \<Longrightarrow> \<not> mr_recovering (cs_recovery (publishRecovery c))"
  by (auto simp: publishRecovery_def commit_def Let_def split: option.split prod.split)

text \<open>A damaged frame that the digest detects: an order where the exchange has none.\<close>

definition demo_damage :: "MDPMarketUpdate set" where
  "demo_damage = {\<lparr>md_seq_num = 9, md_update = mk_update Mkt_ADD 5 2 BUY 100 10 1, md_snapshot_cycle = 1, md_watermark = 0, md_state_hash = 7\<rparr>}"

lemma demo_damage_ok: "damage_ok [] (\<lambda>_. 0) demo_damage"
proof -
  let ?u = "mk_update Mkt_ADD 5 2 BUY 100 10 1"
  have r: "resting [] 0 = []" by (simp add: resting_def state_at_def live_of_def no_quotes_def List.map_filter_def)
  have h: "bookHash [?u] \<noteq> bookHash []" by code_simp
  have ty: "mu_type (md_update g) \<noteq> Mkt_ADD" if g: "g \<in> set (snap_frames [] (\<lambda>_. 0) 1)" for g
  proof -
    obtain k where k: "k < length (snap_frames [] (\<lambda>_. 0) 1)" "g = snap_frames [] (\<lambda>_. 0) 1 ! k" using g by (auto simp: in_set_conv_nth)
    have "md_update g = cycle_events 0 (live_of (state_at [] 0)) ! k" unfolding k(2) snap_frames_nth(2) [OF k(1)] by simp
    moreover have "k < length (cycle_events 0 (live_of (state_at [] 0)))" using k(1) snap_frames_nth(1) [of "[]" "\<lambda>_. 0" 1] by (simp add: cycle_events_live)
    ultimately have "md_update g \<in> set (cycle_events 0 (live_of (state_at [] 0)))" by simp
    then show ?thesis using demo_cycle(1) by (auto simp: cycle_events_live marker_def clear_event_def)
  qed
  then have "cycle_orders [] (\<lambda>_. 0) demo_damage 1 \<subseteq> {?u}" by (auto simp: cycle_orders_def demo_damage_def)
  moreover have "xs = []" if "distinct xs" "set xs \<subseteq> {?u}" "bookHash xs = bookHash []" for xs
  proof (cases xs)
    case (Cons x ys)
    then have "xs = [?u]" using that(1,2) by (cases ys) auto
    then show ?thesis using that(3) h by simp
  qed
  ultimately have "xs = []" if "distinct xs" "set xs \<subseteq> cycle_orders [] (\<lambda>_. 0) demo_damage 1" "bookHash xs = bookHash []" for xs
    using that by blast
  then show ?thesis unfolding damage_ok_def using r by (simp add: demo_damage_def)
qed

lemma demo_round:
  assumes q: "LFQueue_new MEMarketUpdate_default 16 = Some q" and c: "MarketDataConsumer_new q g = Some c"
  obtains inc_sys snap_sys c' where "consumer_round inc_sys snap_sys c = Some c'" "kernel_ok [] (\<lambda>_. 0) demo_damage False inc_sys"
    "kernel_ok [] (\<lambda>_. 0) demo_damage True snap_sys" "\<not> mr_recovering (cs_recovery c')"
proof -
  let ?F = "snap_frames [] (\<lambda>_. 0) 1"
  have feed: "feed_ok [] (\<lambda>_. 0)" by (simp add: feed_ok_def)
  note Q = queue_new_ok [OF q]
  have "\<exists>k \<le> length (map (Pair True) ?F). \<not> mr_recovering (cs_recovery (process_all (take k (map (Pair True) ?F)) c))"
    by (rule process_goes_live [OF feed _ c, of 1 _ 0])
      (use Q demo_cycle snap_frames_cycle(1) [of _ "[]" "\<lambda>_. 0" 1] in \<open>auto simp: limits frame_ok_def\<close>)
  then obtain k where k: "k \<le> 10" "\<not> mr_recovering (cs_recovery (process_all (take k (map (Pair True) ?F)) c))"
    using demo_cycle(2) by auto
  have pa: "process_all (map (Pair True) fs) c = fold (process True) fs c" for fs c
    by (induct fs arbitrary: c) (simp_all add: process_all_def)
  define bytes where "bytes = concat (map encode_market (take k ?F))"
  let ?inc = "\<lambda>_ :: nat. (Tx_Again, Rx_None)" and ?snap = "\<lambda>_ :: nat. (Tx_Again, Rx bytes)"
  have wire: "\<forall>f \<in> set (take k ?F). frame_wire f" using demo_cycle(3) by (meson in_set_takeD)
  have d: "length bytes = k * MarketSize"
    unfolding bytes_def using length_concat_const [of "map encode_market (take k ?F)" MarketSize] wire k(1) demo_cycle(2)
    by (simp add: frame_wireD)
  have rc: "mr_recovering (cs_recovery c)" "cs_generation c = cs_observed c" "cs_incremental c = McastSocket_open" "cs_snapshot c = McastSocket_open"
    using c by (auto simp: MarketDataConsumer_new_def MarketRecovery_new_def bind_Some_conv split: if_splits)
  have k0: "k \<noteq> 0" using k(2) rc(1) by (intro notI) (simp add: process_all_def)
  define s1 where "s1 = McastSocket_open\<lparr>mc_clock := 1\<rparr>"
  define s2 where "s2 = McastSocket_open\<lparr>mc_clock := 1, mc_in := bytes, mc_received_bytes := of_nat (length bytes)\<rparr>"
  let ?c = "c\<lparr>cs_incremental := s1\<rparr>"
  have p1: "poll ?inc False c = Some ?c"
    using rc(3) by (simp add: poll_def sendAndRecv_mc_def mcast_transmit_def mcast_receive_def McastSocket_open_def set_socket_def s1_def)
  have r2: "sendAndRecv_mc ?snap McastSocket_open = Some (True, s2)"
    using d k(1) k0 by (auto simp: sendAndRecv_mc_def mcast_transmit_def mcast_receive_def McastSocket_open_def s2_def limits)
  let ?l = "set_socket True (s2\<lparr>mc_in := []\<rparr>) (fold (process True) (take k ?F) (set_socket True s2 ?c))"
  have "receive True (set_socket True s2 ?c) = ?l"
    using d rc(1) loop_frames [of "take k ?F" True, folded bytes_def] wire
    by (simp add: receive_def set_socket_def s2_def McastSocket_open_def)
  then have p2: "poll ?snap True ?c = Some ?l" using r2 rc(4) by (simp add: poll_def)
  have "cs_recovery (fold (process True) (take k ?F) (set_socket True s2 ?c)) = cs_recovery (fold (process True) (take k ?F) c)"
    using fold_socket [of True "take k ?F" True s2 ?c] fold_socket [of True "take k ?F" False s1 c] by (simp add: set_socket_def)
  then have live: "\<not> mr_recovering (cs_recovery ?l)" using k(2) pa [of "take k ?F" c] by (simp add: take_map set_socket_def)
  have "consumer_round ?inc ?snap c = Some (publishRecovery ?l)" using p1 p2 rc(2) by (simp add: consumer_round_def)
  moreover have "kernel_ok [] (\<lambda>_. 0) demo_damage False ?inc" by (simp add: kernel_ok_def)
  moreover have "kernel_ok [] (\<lambda>_. 0) demo_damage True ?snap"
  proof -
    have "frame_ok [] (\<lambda>_. 0) True f" if "f \<in> set (take k ?F)" for f
      using in_set_takeD [OF that] snap_frames_cycle(1) [OF in_set_takeD [OF that]] by (simp add: frame_ok_def)
    then have "datagram_ok [] (\<lambda>_. 0) demo_damage True bytes" unfolding bytes_def using wire by (intro datagram_frames) (simp add: received_ok_def)
    then show ?thesis by (simp add: kernel_ok_def)
  qed
  ultimately show thesis using that publish_live [OF live] by blast
qed

lemma consumer_follows_exchange_witness:
  "damage_ok [] (\<lambda>_. 0) demo_damage \<and> demo_damage \<noteq> {} \<and> (\<exists>q c0 c. MarketDataConsumer_new q 0 = Some c0 \<and> (MDC_step [] (\<lambda>_. 0) demo_damage)\<^sup>*\<^sup>* (c0, []) (c, []) \<and>
     (\<exists>n. mr_expected (cs_recovery c) = of_nat (Suc n) \<and> synced [] ([] @ contents (cs_output c)) n (cs_observed c)))"
proof -
  obtain q c0 where q: "LFQueue_new MEMarketUpdate_default 16 = Some q" "MarketDataConsumer_new q 0 = Some c0" using demo_new by blast
  obtain c where c: "MDC_step [] (\<lambda>_. 0) demo_damage (c0, []) (c, [])" "\<not> mr_recovering (cs_recovery c)"
    using demo_round [OF q] MDC_step.round by metis
  have "feed_ok [] (\<lambda>_. 0)" by (simp add: feed_ok_def)
  moreover have "queue_ok q" using queue_new_ok [OF q(1)] by simp
  moreover have reach: "(MDC_step [] (\<lambda>_. 0) demo_damage)\<^sup>*\<^sup>* (c0, []) (c, [])" using c(1) by (rule r_into_rtranclp)
  ultimately have "\<exists>n. mr_expected (cs_recovery c) = of_nat (Suc n) \<and> synced [] ([] @ contents (cs_output c)) n (cs_observed c)"
    using consumer_follows_exchange [of "[]" "\<lambda>_. 0" demo_damage q 0 c0 c "[]"] demo_damage_ok q(2) c(2) by blast
  with q(2) reach show ?thesis using demo_damage_ok unfolding demo_damage_def by blast
qed

text \<open>C29: a freshly constructed consumer goes live. When it receives published frames, with every frame of one whole snapshot
  cycle and no snapshot frame of another cycle, and of the increments after that snapshot a contiguous run, in any order
  and with repetitions, it has published a recovery batch at some point on the way, provided the caches and the free space
  of the output queue hold the snapshot and the whole stream.\<close>

theorem consumer_goes_live:
  assumes "feed_ok U W" "y \<noteq> 0" "MarketDataConsumer_new q g = Some c" "queue_ok q"
    and "length (snap_frames U W y) + length U \<le> ME_MAX_MARKET_UPDATES"
    and "length (contents q) + length (snap_events (state_at U (W y))) + length U < length (store q)"
    and "\<forall>(s, f) \<in> set fs. frame_ok U W s f \<and> (s \<longrightarrow> md_snapshot_cycle f = y)"
    and "\<forall>f \<in> set (snap_frames U W y). (True, f) \<in> set fs"
    and "\<forall>k. W y \<le> k \<and> k < length U \<longrightarrow> ((False, inc_frame (Suc k) (U ! k)) \<in> set fs \<longleftrightarrow> k < n)" "W y \<le> n" "n \<le> length U"
  shows "\<exists>k \<le> length fs. \<not> mr_recovering (cs_recovery (process_all (take k fs) c))"
  using assms by (rule process_goes_live)

lemma consumer_goes_live_witness:
  "\<exists>q c. LFQueue_new MEMarketUpdate_default 16 = Some q \<and> MarketDataConsumer_new q 0 = Some c \<and>
     (\<exists>k \<le> length demo_frames. \<not> mr_recovering (cs_recovery (process_all (take k demo_frames) c)))"
proof -
  obtain q c where q: "LFQueue_new MEMarketUpdate_default 16 = Some q" "MarketDataConsumer_new q 0 = Some c" using demo_new by blast
  have "\<exists>k \<le> length demo_frames. \<not> mr_recovering (cs_recovery (process_all (take k demo_frames) c))"
    by (rule consumer_goes_live [OF demo_feed _ q(2), of 1 _ 1])
      (use queue_new_ok [OF q(1)] demo_size demo_complete demo_frames_ok in
        \<open>auto simp: limits demo_stream_def snap_frames_nth(1)\<close>)
  with q show ?thesis by blast
qed

end
