(* ===== verification/Market_Data_Publisher.thy ===== *)
theory Market_Data_Publisher
  imports Snapshot_Synthesizer LF_Queue
begin

text \<open>
  \<^verbatim>\<open>src/exchange/market_data/market_data_publisher.cpp\<close>: the publishing thread of the exchange. It numbers the updates of
  the matching engine, puts them on the incremental multicast channel and passes the numbered frames on to the snapshot
  synthesizer. \<open>publish_one\<close> is an iteration of the inner loop; \<open>None\<close> is the failed \<open>ASSERT\<close> on the snapshot queue (or a
  fatal socket error). \<open>MDP_step\<close> interleaves the iterations with the engine, the synthesizer and the socket I/O.
\<close>

record MarketDataPublisher =
  mp_updates :: "MEMarketUpdate LFQueue"
  mp_snapshot_updates :: "MDPMarketUpdate LFQueue"
  mp_socket :: McastSocket
  next_inc_seq_num :: u64

definition MarketDataPublisher_new :: "MEMarketUpdate LFQueue \<Rightarrow> MDPMarketUpdate LFQueue \<Rightarrow> MarketDataPublisher" where
  "MarketDataPublisher_new updates snapshots =
     \<lparr>mp_updates = updates, mp_snapshot_updates = snapshots, mp_socket = McastSocket_open, next_inc_seq_num = 1\<rparr>"

text \<open>\<open>MDPMarketUpdate{seq, update}\<close>: the snapshot fields are zero.\<close>

definition incremental_frame :: "u64 \<Rightarrow> MEMarketUpdate \<Rightarrow> MDPMarketUpdate" where
  "incremental_frame seq update =
     \<lparr>md_seq_num = seq, md_update = update, md_snapshot_cycle = 0, md_watermark = 0, md_state_hash = 0\<rparr>"

text \<open>The Boolean is \<open>False\<close> when the inner loop ends: the queue is empty, or the datagram has no room.\<close>

definition publish_one :: "Kernel \<Rightarrow> MarketDataPublisher \<Rightarrow> (bool \<times> MarketDataPublisher) option" where
  "publish_one sys p =
     (case peek (mp_updates p) of None \<Rightarrow> Some (False, p)
      | Some market_update \<Rightarrow> do {
          (ok, s) \<leftarrow> send_mc sys (encode_market (incremental_frame (next_inc_seq_num p) market_update)) (mp_socket p);
          let p = p\<lparr>mp_socket := s\<rparr>;
          if \<not> ok then Some (False, p)
          else do {
            q \<leftarrow> pop (mp_updates p);
            let p = p\<lparr>mp_updates := q\<rparr>;
            let (pushed, q) = try_push (incremental_frame (next_inc_seq_num p) market_update) (mp_snapshot_updates p);
            if pushed then Some (True, p\<lparr>mp_snapshot_updates := q, next_inc_seq_num := next_inc_seq_num p + 1\<rparr>)
            else None } })"

text \<open>The inner loop, for a queue to which nothing is added meanwhile; the number bounds the iterations.\<close>

primrec publish_loop :: "Kernel \<Rightarrow> nat \<Rightarrow> MarketDataPublisher \<Rightarrow> MarketDataPublisher option" where
  "publish_loop sys 0 p = Some p"
| "publish_loop sys (Suc n) p = do {
     (again, p) \<leftarrow> publish_one sys p;
     if again then publish_loop sys n p else Some p }"

definition flush_incremental :: "Kernel \<Rightarrow> MarketDataPublisher \<Rightarrow> MarketDataPublisher option" where
  "flush_incremental sys p = do { (_, s) \<leftarrow> sendAndRecv_mc sys (mp_socket p); Some (p\<lparr>mp_socket := s\<rparr>) }"

definition publisher_round :: "Kernel \<Rightarrow> MarketDataPublisher \<Rightarrow> MarketDataPublisher option" where
  "publisher_round sys p = do {
     p \<leftarrow> publish_loop sys (unat (queue_size (mp_updates p)) + 1) p;
     flush_incremental sys p }"

text \<open>The loop that drains the socket at shutdown; \<open>None\<close> when the deadline, here a number of attempts, passes.\<close>

primrec drain_incremental :: "Kernel \<Rightarrow> nat \<Rightarrow> MarketDataPublisher \<Rightarrow> MarketDataPublisher option" where
  "drain_incremental sys 0 p = (if mc_out (mp_socket p) = [] then Some p else None)"
| "drain_incremental sys (Suc n) p =
     (if mc_out (mp_socket p) = [] then Some p else do { p \<leftarrow> flush_incremental sys p; drain_incremental sys n p })"

text \<open>The state carries, beside the publisher, the updates the engine has queued and the frames the synthesizer has taken.\<close>

inductive MDP_step :: "MarketDataPublisher \<times> MEMarketUpdate list \<times> MDPMarketUpdate list \<Rightarrow>
    MarketDataPublisher \<times> MEMarketUpdate list \<times> MDPMarketUpdate list \<Rightarrow> bool" where
  arrive: "try_push u (mp_updates p) = (True, q) \<Longrightarrow> MDP_step (p, us, fs) (p\<lparr>mp_updates := q\<rparr>, us @ [u], fs)"
| publish: "publish_one sys p = Some (b, p') \<Longrightarrow> MDP_step (p, us, fs) (p', us, fs)"
| flush: "flush_incremental sys p = Some p' \<Longrightarrow> MDP_step (p, us, fs) (p', us, fs)"
| synthesize: "try_pop (mp_snapshot_updates p) = (Some f, q) \<Longrightarrow> MDP_step (p, us, fs) (p\<lparr>mp_snapshot_updates := q\<rparr>, us, fs @ [f])"

subsection \<open>The published stream\<close>

definition publisher_inv :: "MarketDataPublisher \<Rightarrow> MEMarketUpdate list \<Rightarrow> MDPMarketUpdate list \<Rightarrow> bool" where
  "publisher_inv p us fs \<longleftrightarrow> queue_ok (mp_updates p) \<and> queue_ok (mp_snapshot_updates p) \<and>
     (\<exists>vs. us = vs @ contents (mp_updates p) \<and> fs @ contents (mp_snapshot_updates p) = numbered 1 vs \<and>
        framed MarketSize (map encode_market (numbered 1 vs)) (mp_socket p) \<and> next_inc_seq_num p = of_nat (Suc (length vs)))"

lemma encode_market_length: "length (encode_market f) = MarketSize"
  by (simp add: encode_market_def limits Let_def)

lemma incremental_frame_eq: "incremental_frame (of_nat k) u = inc_frame k u"
  by (simp add: incremental_frame_def inc_frame_def)

lemma publish_one_inv:
  assumes inv: "publisher_inv p us fs" and s: "publish_one sys p = Some (b, p')"
  shows "publisher_inv p' us fs"
proof (cases "peek (mp_updates p)")
  case None then show ?thesis using s inv by (simp add: publish_one_def)
next
  case (Some u)
  from inv obtain vs where vs: "queue_ok (mp_updates p)" "queue_ok (mp_snapshot_updates p)" "us = vs @ contents (mp_updates p)"
    "fs @ contents (mp_snapshot_updates p) = numbered 1 vs" "framed MarketSize (map encode_market (numbered 1 vs)) (mp_socket p)"
    "next_inc_seq_num p = of_nat (Suc (length vs))" unfolding publisher_inv_def by blast
  let ?f = "incremental_frame (next_inc_seq_num p) u"
  have f: "?f = inc_frame (Suc (length vs)) u" unfolding vs(6) by (rule incremental_frame_eq)
  obtain ok k where k: "send_mc sys (encode_market ?f) (mp_socket p) = Some (ok, k)"
    using s Some by (auto simp: publish_one_def bind_Some_conv)
  note fr = framed_send [OF vs(5) k encode_market_length]
  show ?thesis
  proof (cases ok)
    case False
    then have "p' = p\<lparr>mp_socket := k\<rparr>" using s Some k by (simp add: publish_one_def)
    then show ?thesis unfolding publisher_inv_def using vs fr False by (simp del: of_nat_Suc)
  next
    case True
    have c: "contents (mp_updates p) = u # tl (contents (mp_updates p))"
      using Some peek_pop(1) [OF vs(1)] by (cases "contents (mp_updates p)") auto
    obtain q where q: "pop (mp_updates p) = Some q" "queue_ok q" "contents q = tl (contents (mp_updates p))"
      using peek_pop(2) [OF vs(1)] c by fastforce
    obtain pushed r where r: "try_push ?f (mp_snapshot_updates p) = (pushed, r)" by fastforce
    have "pushed" and p': "p' = p\<lparr>mp_socket := k, mp_updates := q, mp_snapshot_updates := r, next_inc_seq_num := next_inc_seq_num p + 1\<rparr>"
      using s Some k True q(1) r by (auto simp: publish_one_def Let_def split: if_splits)
    then have R: "queue_ok r" "contents r = contents (mp_snapshot_updates p) @ [?f]" using push_contents [OF vs(2) r] by simp_all
    have "us = (vs @ [u]) @ contents q" using vs(3) c q(3) by simp
    moreover have "fs @ contents r = numbered 1 (vs @ [u])" unfolding R(2) append_assoc [symmetric] vs(4) f by simp
    moreover have "framed MarketSize (map encode_market (numbered 1 (vs @ [u]))) k" using fr True f by simp
    moreover have "next_inc_seq_num p + 1 = of_nat (Suc (length (vs @ [u])))" using vs(6) by simp
    ultimately show ?thesis unfolding publisher_inv_def p' using q(2) R(1) by (intro conjI exI [of _ "vs @ [u]"]) simp_all
  qed
qed

lemma flush_inv: "publisher_inv p us fs \<Longrightarrow> flush_incremental sys p = Some p' \<Longrightarrow> publisher_inv p' us fs"
  by (auto simp: flush_incremental_def publisher_inv_def bind_Some_conv intro: framed_sendAndRecv)

lemma MDP_reach:
  assumes "queue_ok updates" "contents updates = []" "queue_ok snapshots" "contents snapshots = []"
    and "MDP_step\<^sup>*\<^sup>* (MarketDataPublisher_new updates snapshots, [], []) (p, us, fs)"
  shows "publisher_inv p us fs"
  using assms(5)
proof (induct "(p, us, fs)" arbitrary: p us fs rule: rtranclp_induct)
  case base
  show ?case using assms(1-4) framed_open [of MarketSize]
    by (auto simp: publisher_inv_def MarketDataPublisher_new_def)
next
  case (step y)
  obtain p1 us1 fs1 where y: "y = (p1, us1, fs1)" using prod_cases3 by blast
  note IH = step(3) [OF y]
  from step(2) show ?case unfolding y
  proof (cases rule: MDP_step.cases)
    case (arrive u q)
    then show ?thesis using IH push_contents [of "mp_updates p1" u True q] by (fastforce simp: publisher_inv_def)
  next
    case (publish sys b)
    then show ?thesis using publish_one_inv [OF IH] by simp
  next
    case (flush sys)
    then show ?thesis using flush_inv [OF IH] by simp
  next
    case (synthesize f q)
    then show ?thesis using IH pop_contents [of "mp_snapshot_updates p1" "Some f" q] by (fastforce simp: publisher_inv_def)
  qed
qed

text \<open>C30: the incremental channel. However the threads interleave, a prefix \<open>vs\<close> of the engine's updates has been published,
  the rest is still queued: on the wire and in the pending datagram lie the encodings of exactly these updates, in order,
  numbered from 1, no frame split across datagrams; the synthesizer gets exactly the same frames.\<close>

theorem publisher_stream:
  assumes "queue_ok updates" "contents updates = []" "queue_ok snapshots" "contents snapshots = []"
    and "MDP_step\<^sup>*\<^sup>* (MarketDataPublisher_new updates snapshots, [], []) (p, us, fs)"
  shows "\<exists>vs. us = vs @ contents (mp_updates p) \<and> fs @ contents (mp_snapshot_updates p) = numbered 1 vs \<and>
     framed MarketSize (map encode_market (numbered 1 vs)) (mp_socket p) \<and> next_inc_seq_num p = of_nat (Suc (length vs))"
  using MDP_reach [OF assms] by (auto simp: publisher_inv_def)

lemma publisher_stream_witness:
  "\<exists>updates snapshots p. LFQueue_new MEMarketUpdate_default 4 = Some updates \<and>
     LFQueue_new (inc_frame 0 MEMarketUpdate_default) 4 = Some snapshots \<and>
     MDP_step\<^sup>*\<^sup>* (MarketDataPublisher_new updates snapshots, [], []) (p, [mk_update Mkt_ADD 1 2 BUY 100 10 1], []) \<and>
     next_inc_seq_num p = 2 \<and> (\<exists>vs. framed MarketSize (map encode_market (numbered 1 vs)) (mp_socket p))"
proof -
  let ?u = "mk_update Mkt_ADD 1 2 BUY 100 10 1" and ?sys = "\<lambda>_ :: nat. (Tx_Again, Rx_None)"
  obtain q r where q: "LFQueue_new MEMarketUpdate_default 4 = Some q" "LFQueue_new (inc_frame 0 MEMarketUpdate_default) 4 = Some r"
    by (simp add: LFQueue_new_def checkedCapacity_queue_def has_single_bit_def limits upt_conv_Cons)
  note Q = queue_new_ok [OF q(1)] queue_new_ok [OF q(2)]
  let ?p0 = "MarketDataPublisher_new q r"
  obtain ok q1 where q1: "try_push ?u q = (ok, q1)" by fastforce
  then have ok: "ok" "queue_ok q1" "contents q1 = [?u]" using push_contents [of q ?u ok q1] Q by simp_all
  let ?p1 = "?p0\<lparr>mp_updates := q1\<rparr>"
  obtain q2 where q2: "pop q1 = Some q2" using peek_pop(2) [OF ok(2)] ok(3) by auto
  obtain ok' r1 where r1: "try_push (incremental_frame 1 ?u) r = (ok', r1)" by fastforce
  then have ok': "ok'" using push_contents [of r _ ok' r1] Q by auto
  have "peek q1 = Some ?u" using peek_pop(1) [OF ok(2)] ok(3) by simp
  then have "\<exists>p. publish_one ?sys ?p1 = Some (True, p) \<and> next_inc_seq_num p = 2"
    using q2 r1 ok' encode_market_length [of "incremental_frame 1 ?u"]
    by (auto simp: publish_one_def MarketDataPublisher_new_def send_mc_def McastSocket_open_def limits)
  then obtain p where p: "publish_one ?sys ?p1 = Some (True, p)" "next_inc_seq_num p = 2" by blast
  have first: "MDP_step (?p0, [], []) (?p1, [] @ [?u], [])"
    using q1 ok(1) by (intro MDP_step.arrive) (simp add: MarketDataPublisher_new_def)
  have reach: "MDP_step\<^sup>*\<^sup>* (?p0, [], []) (p, [?u], [])"
    by (rule converse_rtranclp_into_rtranclp [of MDP_step, OF first, unfolded append_Nil], rule r_into_rtranclp,
        rule MDP_step.publish [OF p(1)])
  have a: "queue_ok q" "contents q = []" "queue_ok r" "contents r = []" using Q by simp_all
  have "\<exists>vs. framed MarketSize (map encode_market (numbered 1 vs)) (mp_socket p)"
    by (rule exE [OF publisher_stream [OF a reach]]) (elim conjE, rule exI)
  with q reach p(2) show ?thesis by blast
qed

end
