(* ===== verification/Unordered_Map_Book.thy ===== *)
theory Unordered_Map_Book
  imports ME_Book_Props "HOL-Library.AList"
begin

text \<open>
  \<^verbatim>\<open>src/exchange/matcher/unordered_map_me_order_book.h\<close> and \<^verbatim>\<open>.cpp\<close>: the order book with a hash table as price index,
  kept for comparison with the production book. The table is an association list: the code only finds, overwrites and
  erases single keys. \<open>um_abs\<close> forgets the representation of the index; every operation then equals the operation of the
  production book, so all its properties carry over. The one exception is \<open>query\<close> of a canceled order.
\<close>

subsection \<open>The book\<close>

record UnorderedMapMEOrderBook =
  um_level_pool :: "OrdersAtPrice MemPool"
  um_bids :: "nat option"
  um_asks :: "nat option"
  um_index :: "(PriceKey \<times> nat) list"
  um_order_pool :: "MEOrder MemPool"
  um_ticker_id :: TickerId
  um_cid_oid :: "ClientId \<Rightarrow> OrderId \<Rightarrow> nat option"
  um_last_response :: "ClientId \<Rightarrow> OrderId \<Rightarrow> MEClientResponse option"
  um_next_id :: OrderId
  um_used_ids :: "ClientId \<Rightarrow> OrderId set"
  um_sink :: "SinkMsg list"

definition UnorderedMapMEOrderBook_new :: "TickerId \<Rightarrow> UnorderedMapMEOrderBook option" where
  "UnorderedMapMEOrderBook_new ticker_id = do {
     lp \<leftarrow> MemPool_new ME_MAX_PRICE_LEVELS;
     op \<leftarrow> MemPool_new ME_MAX_ORDER_IDS;
     Some \<lparr>um_level_pool = lp, um_bids = None, um_asks = None, um_index = [], um_order_pool = op, um_ticker_id = ticker_id,
       um_cid_oid = (\<lambda>_ _. None), um_last_response = (\<lambda>_ _. None), um_next_id = 1, um_used_ids = (\<lambda>_. {}), um_sink = []\<rparr> }"

definition um_upd_order :: "nat \<Rightarrow> (MEOrder \<Rightarrow> MEOrder) \<Rightarrow> UnorderedMapMEOrderBook \<Rightarrow> UnorderedMapMEOrderBook option"
  where "um_upd_order p f b = map_option (\<lambda>q. b\<lparr>um_order_pool := q\<rparr>) (modify p f (um_order_pool b))"

definition um_upd_level :: "nat \<Rightarrow> (OrdersAtPrice \<Rightarrow> OrdersAtPrice) \<Rightarrow> UnorderedMapMEOrderBook \<Rightarrow>
    UnorderedMapMEOrderBook option" where
  "um_upd_level p f b =
     map_option (\<lambda>q. b\<lparr>um_level_pool := q\<rparr>) (modify p f (um_level_pool b))"

definition um_best_of :: "UnorderedMapMEOrderBook \<Rightarrow> Side \<Rightarrow> nat option" where
  "um_best_of b side = (if side = BUY then um_bids b else um_asks b)"

definition um_set_best :: "Side \<Rightarrow> nat option \<Rightarrow> UnorderedMapMEOrderBook \<Rightarrow> UnorderedMapMEOrderBook" where
  "um_set_best side p b = (if side = BUY then b\<lparr>um_bids := p\<rparr> else b\<lparr>um_asks := p\<rparr>)"

definition um_getOrdersAtPrice :: "Price \<Rightarrow> Side \<Rightarrow> UnorderedMapMEOrderBook \<Rightarrow> nat option" where
  "um_getOrdersAtPrice price side b = map_of (um_index b) (side, price)"

definition um_addOrdersAtPrice :: "nat \<Rightarrow> UnorderedMapMEOrderBook \<Rightarrow> UnorderedMapMEOrderBook option" where
  "um_addOrdersAtPrice level b = do {
     lv \<leftarrow> deref (um_level_pool b) level;
     let side = lv_side lv;
     let b = b\<lparr>um_index := AList.update (side, lv_price lv) level (um_index b)\<rparr>;
     case um_best_of b side of
       None \<Rightarrow> um_upd_level level (\<lambda>v. v\<lparr>prev_entry := Some level, next_entry := Some level\<rparr>)
                 (um_set_best side (Some level) b)
     | Some best \<Rightarrow> do {
         bv \<leftarrow> deref (um_level_pool b) best;
         let new_best = better side (lv_price lv) (lv_price bv);
         target \<leftarrow> choose_target side (lv_price lv) best (um_level_pool b);
         targetv \<leftarrow> deref (um_level_pool b) target;
         before \<leftarrow> prev_entry targetv;
         b \<leftarrow> um_upd_level level
               (\<lambda>v. v\<lparr>prev_entry := Some before, next_entry := Some target\<rparr>) b;
         b \<leftarrow> um_upd_level before (\<lambda>v. v\<lparr>next_entry := Some level\<rparr>) b;
         b \<leftarrow> um_upd_level target (\<lambda>v. v\<lparr>prev_entry := Some level\<rparr>) b;
         Some (if new_best then um_set_best side (Some level) b else b) } }"

definition um_removeOrdersAtPrice :: "Side \<Rightarrow> Price \<Rightarrow> UnorderedMapMEOrderBook \<Rightarrow>
    UnorderedMapMEOrderBook option" where
  "um_removeOrdersAtPrice side price b = do {
     let best_orders_by_price = um_best_of b side;
     level \<leftarrow> um_getOrdersAtPrice price side b;
     lv \<leftarrow> deref (um_level_pool b) level;
     b \<leftarrow> (if next_entry lv = Some level then Some (um_set_best side None b)
          else do {
            before \<leftarrow> prev_entry lv;
            after \<leftarrow> next_entry lv;
            b \<leftarrow> um_upd_level before (\<lambda>v. v\<lparr>next_entry := Some after\<rparr>) b;
            b \<leftarrow> um_upd_level after (\<lambda>v. v\<lparr>prev_entry := Some before\<rparr>) b;
            let b = (if best_orders_by_price = Some level then um_set_best side (Some after) b else b);
            um_upd_level level (\<lambda>v. v\<lparr>prev_entry := None, next_entry := None\<rparr>) b });
     let b = b\<lparr>um_index := AList.delete (side, price) (um_index b)\<rparr>;
     q \<leftarrow> dispose level (um_level_pool b);
     Some (b\<lparr>um_level_pool := q\<rparr>) }"

definition um_unlinkOrder :: "nat \<Rightarrow> UnorderedMapMEOrderBook \<Rightarrow>
    UnorderedMapMEOrderBook option" where
  "um_unlinkOrder order b = do {
     ord \<leftarrow> deref (um_order_pool b) order;
     let orders_at_price = um_getOrdersAtPrice (mo_price ord) (mo_side ord) b;
     if prev_order ord = Some order
     then um_removeOrdersAtPrice (mo_side ord) (mo_price ord) b
     else do {
       order_before \<leftarrow> prev_order ord;
       order_after \<leftarrow> next_order ord;
       b \<leftarrow> um_upd_order order_before (\<lambda>v. v\<lparr>next_order := Some order_after\<rparr>) b;
       b \<leftarrow> um_upd_order order_after (\<lambda>v. v\<lparr>prev_order := Some order_before\<rparr>) b;
       level \<leftarrow> orders_at_price;
       lv \<leftarrow> deref (um_level_pool b) level;
       b \<leftarrow> (if first_order lv = Some order
            then um_upd_level level (\<lambda>v. v\<lparr>first_order := Some order_after\<rparr>) b
            else Some b);
       um_upd_order order (\<lambda>v. v\<lparr>prev_order := None, next_order := None\<rparr>) b } }"

definition um_linkOrder :: "nat \<Rightarrow> UnorderedMapMEOrderBook \<Rightarrow>
    UnorderedMapMEOrderBook option" where
  "um_linkOrder order b = do {
     ord \<leftarrow> deref (um_order_pool b) order;
     (case um_getOrdersAtPrice (mo_price ord) (mo_side ord) b of
        None \<Rightarrow> do {
          b \<leftarrow> um_upd_order order (\<lambda>v. v\<lparr>next_order := Some order, prev_order := Some order\<rparr>) b;
          (case allocate \<lparr>lv_side = mo_side ord, lv_price = mo_price ord,
                          first_order = Some order, prev_entry = None, next_entry = None\<rparr>
                  (um_level_pool b) of
             (None, _) \<Rightarrow> None
           | (Some level, q) \<Rightarrow> um_addOrdersAtPrice level (b\<lparr>um_level_pool := q\<rparr>)) }
      | Some level \<Rightarrow> do {
          lv \<leftarrow> deref (um_level_pool b) level;
          first \<leftarrow> first_order lv;
          firstv \<leftarrow> deref (um_order_pool b) first;
          tail \<leftarrow> prev_order firstv;
          b \<leftarrow> um_upd_order tail (\<lambda>v. v\<lparr>next_order := Some order\<rparr>) b;
          b \<leftarrow> um_upd_order order (\<lambda>v. v\<lparr>prev_order := Some tail\<rparr>) b;
          b \<leftarrow> um_upd_order order (\<lambda>v. v\<lparr>next_order := Some first\<rparr>) b;
          um_upd_order first (\<lambda>v. v\<lparr>prev_order := Some order\<rparr>) b }) }"

definition um_generateNewMarketOrderId :: "UnorderedMapMEOrderBook \<Rightarrow> OrderId \<times> UnorderedMapMEOrderBook" where
  "um_generateNewMarketOrderId b =
     (um_next_id b, b\<lparr>um_next_id := um_next_id b + 1\<rparr>)"

definition um_getNextPriority :: "Price \<Rightarrow> Side \<Rightarrow> UnorderedMapMEOrderBook \<Rightarrow> Priority option" where
  "um_getNextPriority price side b =
     (case um_getOrdersAtPrice price side b of
        None \<Rightarrow> Some 1
      | Some level \<Rightarrow> do {
          lv \<leftarrow> deref (um_level_pool b) level;
          first \<leftarrow> first_order lv;
          firstv \<leftarrow> deref (um_order_pool b) first;
          last \<leftarrow> prev_order firstv;
          lastv \<leftarrow> deref (um_order_pool b) last;
          Some (mo_priority lastv + 1) })"

definition um_removeOrder :: "nat \<Rightarrow> UnorderedMapMEOrderBook \<Rightarrow> UnorderedMapMEOrderBook option" where
  "um_removeOrder order b = do {
     ord \<leftarrow> deref (um_order_pool b) order;
     b \<leftarrow> um_unlinkOrder order b;
     if unat (mo_client_id ord) < ME_MAX_NUM_CLIENTS then do {
       let b = b\<lparr>um_cid_oid := (um_cid_oid b)(mo_client_id ord :=
                   (um_cid_oid b (mo_client_id ord))(mo_client_order_id ord := None))\<rparr>;
       q \<leftarrow> dispose order (um_order_pool b);
       Some (b\<lparr>um_order_pool := q\<rparr>) }
     else None }"

definition um_addOrder :: "nat \<Rightarrow> UnorderedMapMEOrderBook \<Rightarrow> UnorderedMapMEOrderBook option" where
  "um_addOrder order b = do {
     ord \<leftarrow> deref (um_order_pool b) order;
     b \<leftarrow> um_linkOrder order b;
     if unat (mo_client_id ord) < ME_MAX_NUM_CLIENTS then
       Some (b\<lparr>um_cid_oid := (um_cid_oid b)(mo_client_id ord :=
                   (um_cid_oid b (mo_client_id ord))(mo_client_order_id ord \<mapsto> order))\<rparr>)
     else None }"

definition um_emitResponse :: "MEClientResponse \<Rightarrow> UnorderedMapMEOrderBook \<Rightarrow> UnorderedMapMEOrderBook" where
  "um_emitResponse response b =
     (let b = (if unat (rs_client_id response) < ME_MAX_NUM_CLIENTS \<and>
                  rs_type response \<noteq> Resp_REJECTED \<and> rs_type response \<noteq> Resp_CANCEL_REJECTED \<and>
                  rs_type response \<noteq> Resp_STATE
               then b\<lparr>um_last_response := (um_last_response b)(rs_client_id response :=
                        (um_last_response b (rs_client_id response))
                          (rs_client_order_id response \<mapsto> response))\<rparr>
               else b)
      in b\<lparr>um_sink := um_sink b @ [SinkResponse response]\<rparr>)"

definition um_emitMarket :: "MEMarketUpdate \<Rightarrow> UnorderedMapMEOrderBook \<Rightarrow> UnorderedMapMEOrderBook" where
  "um_emitMarket update b = b\<lparr>um_sink := um_sink b @ [SinkMarket update]\<rparr>"

definition um_match :: "TickerId \<Rightarrow> ClientId \<Rightarrow> Side \<Rightarrow> OrderId \<Rightarrow> OrderId \<Rightarrow> nat \<Rightarrow> Qty \<Rightarrow>
    UnorderedMapMEOrderBook \<Rightarrow> (Qty \<times> UnorderedMapMEOrderBook) option" where
  "um_match ticker_id client_id side client_order_id new_market_order_id itr leaves_qty b = do {
     ord \<leftarrow> deref (um_order_pool b) itr;
     let order_qty = mo_qty ord;
     let fill_qty = min leaves_qty order_qty;
     let leaves_qty = leaves_qty - fill_qty;
     b \<leftarrow> um_upd_order itr (\<lambda>v. v\<lparr>mo_qty := mo_qty v - fill_qty\<rparr>) b;
     order \<leftarrow> deref (um_order_pool b) itr;
     let b = um_emitResponse (mk_response Resp_FILLED client_id ticker_id client_order_id
               new_market_order_id side (mo_price order) fill_qty leaves_qty Rej_NONE) b;
     let b = um_emitResponse (mk_response Resp_FILLED (mo_client_id order) ticker_id
               (mo_client_order_id order) (mo_market_order_id order) (mo_side order)
               (mo_price order) fill_qty (mo_qty order) Rej_NONE) b;
     let b = um_emitMarket (mk_update Mkt_TRADE OrderId_INVALID ticker_id side (mo_price order)
               fill_qty Priority_INVALID) b;
     if mo_qty order = 0 then do {
       let b = um_emitMarket (mk_update Mkt_CANCEL (mo_market_order_id order) ticker_id
                 (mo_side order) (mo_price order) order_qty Priority_INVALID) b;
       b \<leftarrow> um_removeOrder itr b;
       Some (leaves_qty, b) }
     else
       Some (leaves_qty, um_emitMarket (mk_update Mkt_MODIFY (mo_market_order_id order) ticker_id
               (mo_side order) (mo_price order) (mo_qty order) (mo_priority order)) b) }"

definition um_opposite_best :: "Side \<Rightarrow> UnorderedMapMEOrderBook \<Rightarrow> nat option" where
  "um_opposite_best side b = (if side = BUY then um_asks b else um_bids b)"

partial_function (option) um_match_loop :: "ClientId \<Rightarrow> OrderId \<Rightarrow> TickerId \<Rightarrow> Side \<Rightarrow> Price \<Rightarrow> OrderId \<Rightarrow>
    Qty \<Rightarrow> UnorderedMapMEOrderBook \<Rightarrow> (Qty \<times> UnorderedMapMEOrderBook) option" where
  "um_match_loop client_id client_order_id ticker_id side price new_market_order_id leaves_qty b =
     (if leaves_qty \<noteq> 0 then
        (case um_opposite_best side b of
           None \<Rightarrow> Some (leaves_qty, b)
         | Some level \<Rightarrow> do {
             lv \<leftarrow> deref (um_level_pool b) level;
             itr \<leftarrow> first_order lv;
             ord \<leftarrow> deref (um_order_pool b) itr;
             if no_cross side price (mo_price ord) then Some (leaves_qty, b)
             else do {
               res \<leftarrow> um_match ticker_id client_id side client_order_id new_market_order_id itr
                        leaves_qty b;
               um_match_loop client_id client_order_id ticker_id side price new_market_order_id
                 (fst res) (snd res) } })
      else Some (leaves_qty, b))"

definition um_checkForMatch :: "ClientId \<Rightarrow> OrderId \<Rightarrow> TickerId \<Rightarrow> Side \<Rightarrow> Price \<Rightarrow> Qty \<Rightarrow> OrderId \<Rightarrow>
    UnorderedMapMEOrderBook \<Rightarrow> (Qty \<times> UnorderedMapMEOrderBook) option" where
  "um_checkForMatch client_id client_order_id ticker_id side price qty new_market_order_id b =
     (if side = BUY \<or> side = SELL
      then um_match_loop client_id client_order_id ticker_id side price new_market_order_id qty b
      else Some (qty, b))"

definition um_add_reject_reason :: "ClientId \<Rightarrow> OrderId \<Rightarrow> TickerId \<Rightarrow> Side \<Rightarrow> Price \<Rightarrow> Qty \<Rightarrow>
    UnorderedMapMEOrderBook \<Rightarrow> RejectReason" where
  "um_add_reject_reason client_id client_order_id ticker_id side price qty b =
     (if unat client_id \<ge> ME_MAX_NUM_CLIENTS \<or> ticker_id \<noteq> um_ticker_id b \<or> client_order_id = 0 \<or>
         unat client_order_id \<ge> ME_MAX_ORDER_IDS then Rej_INVALID_ID
      else if side \<noteq> BUY \<and> side \<noteq> SELL then Rej_INVALID_SIDE
      else if price \<le> 0 \<or> price = Price_INVALID then Rej_INVALID_PRICE
      else if qty = 0 \<or> qty = Qty_INVALID \<or> unat qty > INT32_MAX then Rej_INVALID_QTY
      else if client_order_id \<in> um_used_ids b client_id then Rej_DUPLICATE_ID
      else if available (um_order_pool b) = 0 \<or> unat (um_next_id b) \<ge> ME_MAX_ORDER_IDS \<or>
         (um_getOrdersAtPrice price side b = None \<and> available (um_level_pool b) = 0)
        then Rej_CAPACITY
      else Rej_NONE)"

definition um_add :: "ClientId \<Rightarrow> OrderId \<Rightarrow> TickerId \<Rightarrow> Side \<Rightarrow> Price \<Rightarrow> Qty \<Rightarrow> UnorderedMapMEOrderBook \<Rightarrow>
    UnorderedMapMEOrderBook option" where
  "um_add client_id client_order_id ticker_id side price qty b =
     (let reason = um_add_reject_reason client_id client_order_id ticker_id side price qty b in
      if reason \<noteq> Rej_NONE then
        Some (um_emitResponse (mk_response Resp_REJECTED client_id ticker_id client_order_id
                OrderId_INVALID side price 0 0 reason) b)
      else do {
        let b = b\<lparr>um_used_ids := (um_used_ids b)(client_id :=
                    insert client_order_id (um_used_ids b client_id))\<rparr>;
        let (new_market_order_id, b) = um_generateNewMarketOrderId b;
        let b = um_emitResponse (mk_response Resp_ACCEPTED client_id ticker_id client_order_id
                  new_market_order_id side price 0 qty Rej_NONE) b;
        (leaves_qty, b) \<leftarrow> um_checkForMatch client_id client_order_id ticker_id side price qty
                            new_market_order_id b;
        if leaves_qty \<noteq> 0 then do {
          priority \<leftarrow> um_getNextPriority price side b;
          (case allocate (MEOrder_make ticker_id client_id client_order_id new_market_order_id side
                 price leaves_qty priority None None) (um_order_pool b) of
             (None, _) \<Rightarrow> None
           | (Some order, q) \<Rightarrow> do {
               b \<leftarrow> um_addOrder order (b\<lparr>um_order_pool := q\<rparr>);
               Some (um_emitMarket (mk_update Mkt_ADD new_market_order_id ticker_id side price
                       leaves_qty priority) b) }) }
        else Some b })"

definition um_cancel :: "ClientId \<Rightarrow> OrderId \<Rightarrow> TickerId \<Rightarrow> UnorderedMapMEOrderBook \<Rightarrow> UnorderedMapMEOrderBook option" where
  "um_cancel client_id order_id ticker_id b =
     (let exchange_order = (if unat client_id < ME_MAX_NUM_CLIENTS \<and> ticker_id = um_ticker_id b
                            then um_cid_oid b client_id order_id else None)
      in case exchange_order of
           None \<Rightarrow> Some (um_emitResponse (mk_response Resp_CANCEL_REJECTED client_id ticker_id order_id
                     OrderId_INVALID Side_INVALID Price_INVALID 0 0 Rej_INVALID_ID) b)
         | Some order \<Rightarrow> do {
             ord \<leftarrow> deref (um_order_pool b) order;
             let client_response = mk_response Resp_CANCELED client_id ticker_id order_id
                   (mo_market_order_id ord) (mo_side ord) (mo_price ord) Qty_INVALID (mo_qty ord)
                   Rej_NONE;
             let market_update = mk_update Mkt_CANCEL (mo_market_order_id ord) ticker_id
                   (mo_side ord) (mo_price ord) 0 (mo_priority ord);
             b \<leftarrow> um_removeOrder order b;
             Some (um_emitResponse client_response (um_emitMarket market_update b)) })"

definition um_query :: "ClientId \<Rightarrow> OrderId \<Rightarrow> UnorderedMapMEOrderBook \<Rightarrow> UnorderedMapMEOrderBook" where
  "um_query client_id order_id b =
     (if unat client_id \<ge> ME_MAX_NUM_CLIENTS then b
      else if order_id = 0 then
        um_emitResponse (mk_response Resp_STATE client_id (um_ticker_id b) 0 OrderId_INVALID
          Side_INVALID Price_INVALID 0 0 Rej_NONE) b
      else case um_last_response b client_id order_id of
        None \<Rightarrow> um_emitResponse (mk_response Resp_REJECTED client_id (um_ticker_id b) order_id
                  OrderId_INVALID Side_INVALID Price_INVALID 0 0 Rej_INVALID_ID) b
      | Some response \<Rightarrow>
          um_emitResponse (response\<lparr>rs_type := Resp_STATE, rs_exec_qty := 0\<rparr>) b)"

subsection \<open>Abstraction\<close>

definition um_abs :: "UnorderedMapMEOrderBook \<Rightarrow> MEOrderBook" where
  "um_abs b = \<lparr>orders_at_price_pool = um_level_pool b, bids_by_price = um_bids b, asks_by_price = um_asks b,
     price_orders_at_price = map_of (um_index b), order_pool = um_order_pool b, ob_ticker_id = um_ticker_id b,
     cid_oid_to_order = um_cid_oid b, last_order_response = um_last_response b, next_market_order_id = um_next_id b,
     used_client_order_ids = um_used_ids b, sink = um_sink b\<rparr>"

named_theorems um_sim \<open>operations of the production book on abstracted books\<close>

lemma um_abs_sel [simp]:
  "orders_at_price_pool (um_abs b) = um_level_pool b" "bids_by_price (um_abs b) = um_bids b" "asks_by_price (um_abs b) = um_asks b"
  "price_orders_at_price (um_abs b) = map_of (um_index b)" "order_pool (um_abs b) = um_order_pool b"
  "ob_ticker_id (um_abs b) = um_ticker_id b" "cid_oid_to_order (um_abs b) = um_cid_oid b"
  "last_order_response (um_abs b) = um_last_response b" "next_market_order_id (um_abs b) = um_next_id b"
  "used_client_order_ids (um_abs b) = um_used_ids b" "sink (um_abs b) = um_sink b"
  by (simp_all add: um_abs_def)

lemma um_abs_upd [simp]:
  "(um_abs b)\<lparr>orders_at_price_pool := lp\<rparr> = um_abs (b\<lparr>um_level_pool := lp\<rparr>)"
  "(um_abs b)\<lparr>bids_by_price := p\<rparr> = um_abs (b\<lparr>um_bids := p\<rparr>)" "(um_abs b)\<lparr>asks_by_price := p\<rparr> = um_abs (b\<lparr>um_asks := p\<rparr>)"
  "(um_abs b)\<lparr>price_orders_at_price := (map_of (um_index b))(k \<mapsto> l)\<rparr> = um_abs (b\<lparr>um_index := AList.update k l (um_index b)\<rparr>)"
  "(um_abs b)\<lparr>price_orders_at_price := (map_of (um_index b))(k := None)\<rparr> = um_abs (b\<lparr>um_index := AList.delete k (um_index b)\<rparr>)"
  "(um_abs b)\<lparr>order_pool := op\<rparr> = um_abs (b\<lparr>um_order_pool := op\<rparr>)"
  "(um_abs b)\<lparr>cid_oid_to_order := ci\<rparr> = um_abs (b\<lparr>um_cid_oid := ci\<rparr>)"
  "(um_abs b)\<lparr>last_order_response := lr\<rparr> = um_abs (b\<lparr>um_last_response := lr\<rparr>)"
  "(um_abs b)\<lparr>next_market_order_id := n\<rparr> = um_abs (b\<lparr>um_next_id := n\<rparr>)"
  "(um_abs b)\<lparr>used_client_order_ids := us\<rparr> = um_abs (b\<lparr>um_used_ids := us\<rparr>)"
  "(um_abs b)\<lparr>sink := sk\<rparr> = um_abs (b\<lparr>um_sink := sk\<rparr>)"
  by (simp_all add: um_abs_def AList.update_conv' AList.delete_conv')

lemma map_option_bind: "map_option f (Option.bind x g) = Option.bind x (\<lambda>y. map_option f (g y))"
  by (cases x) simp_all

lemma bind_map_option: "Option.bind (map_option f x) g = Option.bind x (\<lambda>y. g (f y))"
  by (cases x) simp_all

lemma bind_if: "Option.bind (if c then x else y) g = (if c then Option.bind x g else Option.bind y g)"
  by simp

text \<open>The abstraction moves inwards through the control structure.\<close>

lemmas um_push = Option.bind_assoc map_option_bind bind_map_option bind_if Let_def
  option.case_distrib [of "map_option um_abs"] prod.case_distrib [of "map_option um_abs"] if_distrib [of "map_option um_abs"]
  if_distrib [of um_abs, symmetric]

lemma um_upd_sim [um_sim]:
  "upd_order p f (um_abs b) = map_option um_abs (um_upd_order p f b)"
  "upd_level p g (um_abs b) = map_option um_abs (um_upd_level p g b)"
  by (simp_all add: upd_order_def um_upd_order_def upd_level_def um_upd_level_def option.map_comp comp_def)

lemma um_best_sim [um_sim]:
  "best_of (um_abs b) side = um_best_of b side" "set_best side p (um_abs b) = um_abs (um_set_best side p b)"
  "getOrdersAtPrice price side (um_abs b) = um_getOrdersAtPrice price side b" "opposite_best side (um_abs b) = um_opposite_best side b"
  by (simp_all add: best_of_def um_best_of_def set_best_def um_set_best_def getOrdersAtPrice_def um_getOrdersAtPrice_def
      opposite_best_def um_opposite_best_def)

lemma um_addLevel_sim [um_sim]: "addOrdersAtPrice level (um_abs b) = map_option um_abs (um_addOrdersAtPrice level b)"
  unfolding addOrdersAtPrice_def um_addOrdersAtPrice_def by (simp add: um_sim um_push cong: option.case_cong prod.case_cong if_cong)

lemma um_removeLevel_sim [um_sim]: "removeOrdersAtPrice side price (um_abs b) = map_option um_abs (um_removeOrdersAtPrice side price b)"
  unfolding removeOrdersAtPrice_def um_removeOrdersAtPrice_def by (simp add: um_sim um_push cong: option.case_cong prod.case_cong if_cong)

lemma um_unlink_sim [um_sim]: "unlinkOrder order (um_abs b) = map_option um_abs (um_unlinkOrder order b)"
  unfolding unlinkOrder_def um_unlinkOrder_def by (simp add: um_sim um_push cong: option.case_cong prod.case_cong if_cong)

lemma um_link_sim [um_sim]: "linkOrder order (um_abs b) = map_option um_abs (um_linkOrder order b)"
  unfolding linkOrder_def um_linkOrder_def by (simp add: um_sim um_push cong: option.case_cong prod.case_cong if_cong)

lemma um_priority_sim [um_sim]:
  "getNextPriority price side (um_abs b) = um_getNextPriority price side b"
  "generateNewMarketOrderId (um_abs b) = (let (i, b) = um_generateNewMarketOrderId b in (i, um_abs b))"
  by (simp_all add: getNextPriority_def um_getNextPriority_def generateNewMarketOrderId_def um_generateNewMarketOrderId_def um_sim
      cong: option.case_cong)

lemma um_order_sim [um_sim]:
  "removeOrder order (um_abs b) = map_option um_abs (um_removeOrder order b)"
  "addOrder order (um_abs b) = map_option um_abs (um_addOrder order b)"
  unfolding removeOrder_def um_removeOrder_def addOrder_def um_addOrder_def
  by (simp_all add: um_sim um_push cong: option.case_cong prod.case_cong if_cong)

lemma um_emit_sim [um_sim]:
  "emitResponse r (um_abs b) = um_abs (um_emitResponse r b)" "emitMarket u (um_abs b) = um_abs (um_emitMarket u b)"
  by (simp_all add: emitResponse_def um_emitResponse_def emitMarket_def um_emitMarket_def Let_def)

definition um_abs2 :: "Qty \<times> UnorderedMapMEOrderBook \<Rightarrow> Qty \<times> MEOrderBook" where
  "um_abs2 r = (fst r, um_abs (snd r))"

lemma um_abs2_simps [simp]: "um_abs2 (q, b) = (q, um_abs b)" "fst (um_abs2 r) = fst r" "snd (um_abs2 r) = um_abs (snd r)"
  by (simp_all add: um_abs2_def)

lemma um_match_sim [um_sim]:
  "match t c s i m itr q (um_abs b) = map_option um_abs2 (um_match t c s i m itr q b)"
  unfolding match_def um_match_def
  by (simp add: um_sim um_push if_distrib [of "map_option um_abs2"] cong: if_cong)

lemma um_loop_forward:
  "um_match_loop c i t s p m q b = Some r \<Longrightarrow> match_loop c i t s p m q (um_abs b) = Some (um_abs2 r)"
proof (rule um_match_loop.raw_induct [where P = "\<lambda>c i t s p m q b r. match_loop c i t s p m q (um_abs b) = Some (um_abs2 r)"])
  fix loop c i t s p m q b r
  assume IH: "\<And>c i t s p m q b r. loop c i t s p m q b = Some r \<Longrightarrow> match_loop c i t s p m q (um_abs b) = Some (um_abs2 r)"
    and body: "(if q \<noteq> 0 then case um_opposite_best s b of None \<Rightarrow> Some (q, b)
      | Some level \<Rightarrow> deref (um_level_pool b) level \<bind> (\<lambda>lv. first_order lv \<bind> (\<lambda>itr. deref (um_order_pool b) itr \<bind>
          (\<lambda>ord. if no_cross s p (mo_price ord) then Some (q, b)
            else um_match t c s i m itr q b \<bind> (\<lambda>res. loop c i t s p m (fst res) (snd res)))))
      else Some (q, b)) = Some r"
  show "match_loop c i t s p m q (um_abs b) = Some (um_abs2 r)"
  proof (cases "q = 0 \<or> um_opposite_best s b = None")
    case True then show ?thesis using body by (subst match_loop.simps) (auto simp: um_sim)
  next
    case False
    then obtain level lv itr ord where o: "um_opposite_best s b = Some level" "deref (um_level_pool b) level = Some lv"
      "first_order lv = Some itr" "deref (um_order_pool b) itr = Some ord" using body by (auto simp: bind_Some_conv)
    show ?thesis
    proof (cases "no_cross s p (mo_price ord)")
      case True then show ?thesis using body False o by (subst match_loop.simps) (auto simp: um_sim)
    next
      case step: False
      obtain res where res: "um_match t c s i m itr q b = Some res" "loop c i t s p m (fst res) (snd res) = Some r"
        using body False o step by (auto simp: bind_Some_conv)
      show ?thesis using False o step res(1) IH [OF res(2)] by (subst match_loop.simps) (simp add: um_sim)
    qed
  qed
qed

lemma um_loop_backward:
  "match_loop c i t s p m q a = Some r \<Longrightarrow> \<forall>b. a = um_abs b \<longrightarrow> (\<exists>r'. um_match_loop c i t s p m q b = Some r')"
proof (rule match_loop.raw_induct [where P = "\<lambda>c i t s p m q a r. \<forall>b. a = um_abs b \<longrightarrow> (\<exists>r'. um_match_loop c i t s p m q b = Some r')"])
  fix loop c i t s p m q a r
  assume IH: "\<And>c i t s p m q a r. loop c i t s p m q a = Some r \<Longrightarrow> \<forall>b. a = um_abs b \<longrightarrow> (\<exists>r'. um_match_loop c i t s p m q b = Some r')"
    and body: "(if q \<noteq> 0 then case opposite_best s a of None \<Rightarrow> Some (q, a)
      | Some level \<Rightarrow> deref (orders_at_price_pool a) level \<bind> (\<lambda>lv. first_order lv \<bind> (\<lambda>itr. deref (order_pool a) itr \<bind>
          (\<lambda>ord. if no_cross s p (mo_price ord) then Some (q, a)
            else match t c s i m itr q a \<bind> (\<lambda>res. loop c i t s p m (fst res) (snd res)))))
      else Some (q, a)) = Some r"
  show "\<forall>b. a = um_abs b \<longrightarrow> (\<exists>r'. um_match_loop c i t s p m q b = Some r')"
  proof (intro allI impI)
    fix b assume a: "a = um_abs b"
    show "\<exists>r'. um_match_loop c i t s p m q b = Some r'"
    proof (cases "q = 0 \<or> um_opposite_best s b = None")
      case True then show ?thesis by (subst um_match_loop.simps) auto
    next
      case False
      then obtain level lv itr ord where o: "um_opposite_best s b = Some level" "deref (um_level_pool b) level = Some lv"
        "first_order lv = Some itr" "deref (um_order_pool b) itr = Some ord" using body by (auto simp: a um_sim bind_Some_conv)
      show ?thesis
      proof (cases "no_cross s p (mo_price ord)")
        case True then show ?thesis using False o by (subst um_match_loop.simps) simp
      next
        case step: False
        obtain res where res: "um_match t c s i m itr q b = Some res" "loop c i t s p m (fst res) (um_abs (snd res)) = Some r"
          using body False o step by (auto simp: a um_sim bind_Some_conv)
        show ?thesis using False o step res(1) IH [OF res(2)] by (subst um_match_loop.simps) simp
      qed
    qed
  qed
qed

lemma um_loop_sim [um_sim]:
  "match_loop c i t s p m q (um_abs b) = map_option um_abs2 (um_match_loop c i t s p m q b)"
  using um_loop_forward [of c i t s p m q b] um_loop_backward [of c i t s p m q "um_abs b"]
  by (cases "um_match_loop c i t s p m q b"; cases "match_loop c i t s p m q (um_abs b)") auto

lemma um_check_sim [um_sim]:
  "checkForMatch c i t s p q m (um_abs b) = map_option um_abs2 (um_checkForMatch c i t s p q m b)"
  by (simp add: checkForMatch_def um_checkForMatch_def um_sim)

lemma um_reason_sim [um_sim]: "add_reject_reason c i t s p q (um_abs b) = um_add_reject_reason c i t s p q b"
  by (simp add: add_reject_reason_def um_add_reject_reason_def um_sim)

lemma um_add_sim [um_sim]: "add c i t s p q (um_abs b) = map_option um_abs (um_add c i t s p q b)"
  unfolding add_def um_add_def
  by (simp add: um_sim um_push case_prod_beta cong: if_cong option.case_cong prod.case_cong)

lemma um_cancel_sim [um_sim]: "cancel c i t (um_abs b) = map_option um_abs (um_cancel c i t b)"
  unfolding cancel_def um_cancel_def by (simp add: um_sim um_push cong: if_cong option.case_cong)

lemma um_query_sim:
  assumes "\<forall>r. um_last_response b c i = Some r \<longrightarrow> rs_type r \<noteq> Resp_CANCELED"
  shows "query c i (um_abs b) = um_abs (um_query c i b)"
  using assms by (simp add: query_def um_query_def um_sim split: option.split)

subsection \<open>Request sequences\<close>

fun um_book_call :: "BookCall \<Rightarrow> UnorderedMapMEOrderBook \<Rightarrow> UnorderedMapMEOrderBook option" where
  "um_book_call (CallAdd c i t s p q) b = um_add c i t s p q b"
| "um_book_call (CallCancel c i t) b = um_cancel c i t b"
| "um_book_call (CallQuery c i) b = Some (um_query c i b)"

fun um_book_run :: "BookCall list \<Rightarrow> UnorderedMapMEOrderBook \<Rightarrow> UnorderedMapMEOrderBook option" where
  "um_book_run [] b = Some b"
| "um_book_run (r # rs) b = Option.bind (um_book_call r b) (um_book_run rs)"

fun changes_book :: "BookCall \<Rightarrow> bool" where
  "changes_book (CallQuery c i) = False"
| "changes_book r = True"

lemma um_run_sim: "list_all changes_book rs \<Longrightarrow> book_run rs (um_abs b) = map_option um_abs (um_book_run rs b)"
proof (induct rs arbitrary: b)
  case (Cons r rs)
  have "book_call r (um_abs b) = map_option um_abs (um_book_call r b)" using Cons.prems by (cases r) (simp_all add: um_sim)
  then show ?case using Cons by (simp add: um_push)
qed simp

lemma um_new: "map_option um_abs (UnorderedMapMEOrderBook_new t) = MEOrderBook_new t"
  by (simp add: UnorderedMapMEOrderBook_new_def MEOrderBook_new_def MEOrderBook_make_def um_push um_abs_def fun_eq_iff)

text \<open>C31: the book with the hash-table index does what the production book does: for every sequence of orders and
  cancellations it runs to the end, without a pointer error, and its output and all of its state but the representation of
  the index are those of the production book.\<close>

theorem unordered_book_equivalent:
  assumes "list_all changes_book rs"
  shows "\<exists>b0 b. UnorderedMapMEOrderBook_new t = Some b0 \<and> um_book_run rs b0 = Some b \<and>
     MEOrderBook_new t = Some (um_abs b0) \<and> book_run rs (um_abs b0) = Some (um_abs b)"
proof -
  obtain a where a: "MEOrderBook_new t = Some a" "book_ok a (\<lambda>_. [])"
    "abs_book a (\<lambda>_. []) = spec_new ME_MAX_PRICE_LEVELS ME_MAX_ORDER_IDS t"
    using make_ok [OF limits_ok, of t] by (auto simp: MEOrderBook_new_def)
  obtain b0 where b0: "UnorderedMapMEOrderBook_new t = Some b0" "a = um_abs b0" using um_new [of t] a(1) by auto
  have "\<exists>a'. book_run rs a = Some a'" using book_run_ok [OF a(2), of rs] a(3) spec_inv_new by metis
  then obtain b where "um_book_run rs b0 = Some b" using um_run_sim [OF assms, of b0] b0(2) by auto
  then show ?thesis using a(1) b0 um_run_sim [OF assms, of b0] by auto
qed

lemma unordered_book_equivalent_witness:
  "\<exists>b0 b. UnorderedMapMEOrderBook_new 3 = Some b0 \<and> um_book_run [CallAdd 1 7 3 BUY 100 10, CallCancel 1 7 3] b0 = Some b \<and>
     book_run [CallAdd 1 7 3 BUY 100 10, CallCancel 1 7 3] (um_abs b0) = Some (um_abs b)"
  using unordered_book_equivalent [of "[CallAdd 1 7 3 BUY 100 10, CallCancel 1 7 3]" 3] by (simp del: um_book_run.simps book_run.simps) blast

text \<open>A query is answered alike by both books unless the last report of the order was its cancellation. Then the
  production book reports no open quantity, this one the quantity that was canceled.\<close>

theorem unordered_query_differs:
  assumes "um_last_response b c i = Some r" "unat c < ME_MAX_NUM_CLIENTS" "i \<noteq> 0"
  shows "um_sink (um_query c i b) = um_sink b @ [SinkResponse (r\<lparr>rs_type := Resp_STATE, rs_exec_qty := 0\<rparr>)] \<and>
     sink (query c i (um_abs b)) = um_sink b @ [SinkResponse (if rs_type r = Resp_CANCELED
       then r\<lparr>rs_type := Resp_STATE, rs_exec_qty := 0, rs_leaves_qty := 0\<rparr> else r\<lparr>rs_type := Resp_STATE, rs_exec_qty := 0\<rparr>)]"
  using assms by (simp add: query_def um_query_def um_emitResponse_def emitResponse_def Let_def)

lemma unordered_query_differs_witness:
  "\<exists>b. sink (query 1 7 (um_abs b)) \<noteq> um_sink (um_query 1 7 b)"
proof -
  obtain b0 where "UnorderedMapMEOrderBook_new 3 = Some b0" using um_new [of 3] make_ok [OF limits_ok, of 3]
    by (auto simp: MEOrderBook_new_def)
  let ?r = "mk_response Resp_CANCELED 1 3 7 1 BUY 100 Qty_INVALID 10 Rej_NONE"
  let ?b = "b0\<lparr>um_last_response := (\<lambda>_ _. Some ?r)\<rparr>"
  have "um_last_response ?b 1 7 = Some ?r" "unat (1 :: ClientId) < ME_MAX_NUM_CLIENTS" "(7 :: OrderId) \<noteq> 0" by (simp_all add: limits)
  from unordered_query_differs [OF this] show ?thesis by (intro exI [of _ ?b]) (auto simp: mk_response_def)
qed

end
