(* ===== verification/Diagnostic_Log.thy ===== *)
theory Diagnostic_Log
  imports LF_Queue Types "HOL-Library.Sublist"
begin

text \<open>
  \<^verbatim>\<open>src/common/logging.h\<close>: the diagnostic log. A record is formatted, then taken whole or dropped and counted; a thread of its own
  writes the records to the file. The values of a call are given by their text. \<open>None\<close> is a failed \<open>ASSERT\<close> or \<open>FATAL\<close>.
\<close>

subsection \<open>Formatting\<close>

fun formatTo :: "string \<Rightarrow> string list \<Rightarrow> string option" where
  "formatTo [] vs = (if vs = [] then Some [] else None)"
| "formatTo [c] vs =
     (if c = CHR ''%'' then (case vs of [] \<Rightarrow> None | v # vs' \<Rightarrow> map_option ((@) v) (formatTo [] vs'))
      else map_option ((#) c) (formatTo [] vs))"
| "formatTo (c # d # cs) vs =
     (if c = CHR ''%'' \<and> d = CHR ''%'' then map_option ((#) d) (formatTo cs vs)
      else if c = CHR ''%'' then (case vs of [] \<Rightarrow> None | v # vs' \<Rightarrow> map_option ((@) v) (formatTo (d # cs) vs'))
      else map_option ((#) c) (formatTo (d # cs) vs))"

text \<open>The number of values a format asks for.\<close>

fun holes :: "string \<Rightarrow> nat" where
  "holes [] = 0"
| "holes [c] = (if c = CHR ''%'' then 1 else 0)"
| "holes (c # d # cs) =
     (if c = CHR ''%'' \<and> d = CHR ''%'' then holes cs else (if c = CHR ''%'' then 1 else 0) + holes (d # cs))"

lemma formatTo_defined: "formatTo fmt vs \<noteq> None \<longleftrightarrow> length vs = holes fmt"
proof (induct fmt vs rule: formatTo.induct)
  case (2 c vs)
  then show ?case by (cases vs) auto
next
  case (3 c d cs vs)
  then show ?case by (cases vs) (auto split: if_splits)
qed simp

subsection \<open>Records\<close>

record Logger =
  log_queue :: "string LFQueue"
  log_file :: string
  log_running :: bool
  log_dropped :: u64
  log_done :: bool

definition Logger_new :: "u64 \<Rightarrow> bool \<Rightarrow> Logger option" where
  "Logger_new capacity opened =
     (case LFQueue_new [] capacity of None \<Rightarrow> None
      | Some q \<Rightarrow> if opened then Some \<lparr>log_queue = q, log_file = [], log_running = True, log_dropped = 0, log_done = False\<rparr> else None)"

definition log_record :: "string \<Rightarrow> string list \<Rightarrow> Logger \<Rightarrow> (bool \<times> Logger) option" where
  "log_record fmt vs l = map_option (\<lambda>msg.
     if length msg > 65536 then (False, l\<lparr>log_dropped := log_dropped l + 1\<rparr>)
     else let (ok, q) = try_push msg (log_queue l) in
       if ok then (True, l\<lparr>log_queue := q\<rparr>) else (False, l\<lparr>log_queue := q, log_dropped := log_dropped l + 1\<rparr>)) (formatTo fmt vs)"

text \<open>One record of the worker, and its end once the logger is being destroyed and the queue is empty.\<close>

definition log_write :: "Logger \<Rightarrow> Logger" where
  "log_write l = (case try_pop (log_queue l) of (None, q) \<Rightarrow> l
     | (Some msg, q) \<Rightarrow> l\<lparr>log_queue := q, log_file := log_file l @ msg\<rparr>)"

definition log_finish :: "Logger \<Rightarrow> Logger" where
  "log_finish l = (if log_running l \<or> peek (log_queue l) \<noteq> None \<or> log_done l then l
     else l\<lparr>log_file := log_file l @ ''[LOGGER] dropped_records='' @ nat_to_string (unat (log_dropped l)) @ [CHR 0x0A], log_done := True\<rparr>)"

subsection \<open>The file\<close>

text \<open>The history lists the formatted records with whether they were taken.\<close>

inductive log_step :: "Logger \<times> (string \<times> bool) list \<Rightarrow> Logger \<times> (string \<times> bool) list \<Rightarrow> bool" where
  ls_log: "log_running l \<Longrightarrow> formatTo fmt vs = Some msg \<Longrightarrow> log_record fmt vs l = Some (ok, l') \<Longrightarrow> log_step (l, h) (l', h @ [(msg, ok)])"
| ls_write: "log_step (l, h) (log_write l, h)"
| ls_stop: "log_step (l, h) (l\<lparr>log_running := False\<rparr>, h)"
| ls_finish: "log_step (l, h) (log_finish l, h)"

definition taken :: "(string \<times> bool) list \<Rightarrow> string" where
  "taken h = concat (map fst (filter snd h))"

definition log_inv :: "Logger \<times> (string \<times> bool) list \<Rightarrow> bool" where
  "log_inv = (\<lambda>(l, h). queue_ok (log_queue l) \<and> log_dropped l = of_nat (length (filter (Not \<circ> snd) h)) \<and>
     (if log_done l then \<not> log_running l \<and> contents (log_queue l) = [] \<and>
        log_file l = taken h @ ''[LOGGER] dropped_records='' @ nat_to_string (unat (log_dropped l)) @ [CHR 0x0A]
      else log_file l @ concat (contents (log_queue l)) = taken h))"

lemma log_step_inv:
  assumes "log_step x y" "log_inv x"
  shows "log_inv y"
  using assms
proof (induct rule: log_step.induct)
  case (ls_log l fmt vs msg ok l' h)
  obtain b q where q: "try_push msg (log_queue l) = (b, q)" by fastforce
  have "queue_ok (log_queue l)" using ls_log(4) by (simp add: log_inv_def)
  note P = push_contents [OF this q]
  show ?case using ls_log P q by (auto simp: log_inv_def log_record_def taken_def split: if_splits)
next
  case (ls_write l h)
  obtain r q where q: "try_pop (log_queue l) = (r, q)" by fastforce
  have "queue_ok (log_queue l)" using ls_write by (simp add: log_inv_def)
  note P = pop_contents [OF this q]
  show ?case using ls_write P q by (auto simp: log_inv_def log_write_def split: option.splits if_splits)
next
  case (ls_stop l h)
  then show ?case by (auto simp: log_inv_def)
next
  case (ls_finish l h)
  then have "queue_ok (log_queue l)" by (simp add: log_inv_def)
  from peek_pop(1) [OF this] show ?case using ls_finish by (auto simp: log_inv_def log_finish_def split: list.splits)
qed

text \<open>The finished file holds the records that were taken, whole and in order, and ends with the number of those that were not.\<close>

lemma log_complete:
  assumes "Logger_new capacity True = Some l0" "log_step\<^sup>*\<^sup>* (l0, []) (l, h)" "log_done l"
  shows "log_file l = taken h @ ''[LOGGER] dropped_records='' @
     nat_to_string (unat (of_nat (length (filter (Not \<circ> snd) h)) :: u64)) @ [CHR 0x0A]"
proof -
  have "log_inv (l0, [])"
    using assms(1) queue_new_ok [of "[] :: string" capacity] by (auto simp: Logger_new_def log_inv_def taken_def split: option.splits)
  with assms(2) have "log_inv (l, h)" by (induct rule: rtranclp_induct) (auto intro: log_step_inv)
  then show ?thesis using assms(3) by (simp add: log_inv_def)
qed

end
