(* ===== verification/Market_Order_Book.thy ===== *)
theory Market_Order_Book
  imports Messages Price_Ladder "HOL-Library.Product_Lexorder"
begin

text \<open>
  The client's copy of a book: \<^verbatim>\<open>src/trading/strategy/market_order.h\<close>, \<^verbatim>\<open>market_order_book.h\<close> and
  \<^verbatim>\<open>market_order_book.cpp\<close>. It is built on the same ladder of levels and orders as the exchange's book; the orders are
  indexed by the market order id. The calls of the trading engine's callbacks are the value \<open>Notice\<close> the handler
  returns with its result. \<open>None\<close> is an invalid pointer access or a walk that does not end.
\<close>

subsection \<open>Data\<close>

record MarketOrder = OrderNode +
  mk_order_id :: OrderId
  mk_qty :: Qty
  mk_priority :: Priority

definition MarketOrder_make :: "OrderId \<Rightarrow> Side \<Rightarrow> Price \<Rightarrow> Qty \<Rightarrow> Priority \<Rightarrow> nat option \<Rightarrow> nat option \<Rightarrow> MarketOrder" where
  "MarketOrder_make order_id side price qty priority prev nxt =
     \<lparr>mo_side = side, mo_price = price, prev_order = prev, next_order = nxt, mk_order_id = order_id, mk_qty = qty,
      mk_priority = priority\<rparr>"

type_synonym BookQty = u64

definition BookQty_INVALID :: BookQty where [limits]: "BookQty_INVALID = 0xFFFFFFFFFFFFFFFF"

record BBO =
  bid_price :: Price
  ask_price :: Price
  bid_qty :: BookQty
  ask_qty :: BookQty

definition BBO_default :: BBO where
  "BBO_default = \<lparr>bid_price = Price_INVALID, ask_price = Price_INVALID, bid_qty = BookQty_INVALID, ask_qty = BookQty_INVALID\<rparr>"

record MarketOrderBook = "MarketOrder Ladder" +
  mb_ticker_id :: TickerId
  oid_to_order :: "OrderId \<Rightarrow> nat option"
  live_order_ids :: "OrderId set"
  mb_bbo :: BBO

definition MarketOrderBook_make :: "nat \<Rightarrow> nat \<Rightarrow> TickerId \<Rightarrow> MarketOrderBook option" where
  "MarketOrderBook_make levels orders ticker_id = do {
     lp \<leftarrow> MemPool_new levels;
     op \<leftarrow> MemPool_new orders;
     Some \<lparr>orders_at_price_pool = lp, bids_by_price = None, asks_by_price = None, price_orders_at_price = (\<lambda>_. None),
       order_pool = op, mb_ticker_id = ticker_id, oid_to_order = (\<lambda>_. None), live_order_ids = {}, mb_bbo = BBO_default\<rparr> }"

definition MarketOrderBook_new :: "TickerId \<Rightarrow> MarketOrderBook option" where
  "MarketOrderBook_new ticker_id = MarketOrderBook_make ME_MAX_PRICE_LEVELS ME_MAX_ORDER_IDS ticker_id"

subsection \<open>Orders\<close>

text \<open>\<open>oid_to_order_.at\<close> is bounded by \<open>ME_MAX_ORDER_IDS\<close>.\<close>

definition mb_removeOrder :: "nat \<Rightarrow> MarketOrderBook \<Rightarrow> MarketOrderBook option" where
  "mb_removeOrder order b = do {
     ord \<leftarrow> deref (order_pool b) order;
     b \<leftarrow> unlinkOrder order b;
     if unat (mk_order_id ord) < ME_MAX_ORDER_IDS then do {
       let b = b\<lparr>oid_to_order := (oid_to_order b)(mk_order_id ord := None),
                  live_order_ids := live_order_ids b - {mk_order_id ord}\<rparr>;
       q \<leftarrow> dispose order (order_pool b);
       Some (b\<lparr>order_pool := q\<rparr>) }
     else None }"

definition mb_addOrder :: "nat \<Rightarrow> MarketOrderBook \<Rightarrow> MarketOrderBook option" where
  "mb_addOrder order b = do {
     ord \<leftarrow> deref (order_pool b) order;
     b \<leftarrow> linkOrder order b;
     if unat (mk_order_id ord) < ME_MAX_ORDER_IDS then
       Some (b\<lparr>oid_to_order := (oid_to_order b)(mk_order_id ord \<mapsto> order),
               live_order_ids := insert (mk_order_id ord) (live_order_ids b)\<rparr>)
     else None }"

subsection \<open>Best bid and offer\<close>

partial_function (option) sum_ring :: "MarketOrder MemPool \<Rightarrow> nat \<Rightarrow> nat \<Rightarrow> BookQty \<Rightarrow> BookQty option" where
  "sum_ring pool first order acc =
     (if order = first then Some acc
      else do {
        ord \<leftarrow> deref pool order;
        nxt \<leftarrow> next_order ord;
        sum_ring pool first nxt (acc + ucast (mk_qty ord)) })"

text \<open>Price and total quantity of a best level; the invalid values for an empty side.\<close>

definition best_quote :: "nat option \<Rightarrow> MarketOrderBook \<Rightarrow> (Price \<times> BookQty) option" where
  "best_quote best b =
     (case best of None \<Rightarrow> Some (Price_INVALID, BookQty_INVALID)
      | Some level \<Rightarrow> do {
          lv \<leftarrow> deref (orders_at_price_pool b) level;
          first \<leftarrow> first_order lv;
          firstv \<leftarrow> deref (order_pool b) first;
          nxt \<leftarrow> next_order firstv;
          acc \<leftarrow> sum_ring (order_pool b) first nxt (ucast (mk_qty firstv));
          Some (lv_price lv, acc) })"

definition updateBBO :: "bool \<Rightarrow> bool \<Rightarrow> MarketOrderBook \<Rightarrow> MarketOrderBook option" where
  "updateBBO update_bid update_ask b = do {
     b \<leftarrow> (if update_bid then do {
             (p, q) \<leftarrow> best_quote (bids_by_price b) b;
             Some (b\<lparr>mb_bbo := (mb_bbo b)\<lparr>bid_price := p, bid_qty := q\<rparr>\<rparr>) }
          else Some b);
     if update_ask then do {
       (p, q) \<leftarrow> best_quote (asks_by_price b) b;
       Some (b\<lparr>mb_bbo := (mb_bbo b)\<lparr>ask_price := p, ask_qty := q\<rparr>\<rparr>) }
     else Some b }"

subsection \<open>Market updates\<close>

primrec dispose_all :: "nat list \<Rightarrow> 'a MemPool \<Rightarrow> 'a MemPool option" where
  "dispose_all [] p = Some p"
| "dispose_all (x # xs) p = Option.bind (dispose x p) (dispose_all xs)"

text \<open>The levels in the order of the keys of the map, first by side and then by price. Every key of the map is the key of
  a level in the pool, where the model finds them.\<close>

definition levels_in_order :: "MarketOrderBook \<Rightarrow> nat list" where
  "levels_in_order b = List.map_filter (price_orders_at_price b)
     (sort_key (\<lambda>k. (sideToValue (fst k), snd k))
       (map (\<lambda>lv. (lv_side lv, lv_price lv)) (List.map_filter storage (blocks (orders_at_price_pool b)))))"

definition clear_book :: "MarketOrderBook \<Rightarrow> MarketOrderBook option" where
  "clear_book b = do {
     op \<leftarrow> dispose_all (List.map_filter (\<lambda>i. oid_to_order b (of_nat i)) [0..<ME_MAX_ORDER_IDS]) (order_pool b);
     lp \<leftarrow> dispose_all (levels_in_order b) (orders_at_price_pool b);
     Some (b\<lparr>order_pool := op, oid_to_order := (\<lambda>_. None), live_order_ids := {}, orders_at_price_pool := lp,
             price_orders_at_price := (\<lambda>_. None), bids_by_price := None, asks_by_price := None\<rparr>) }"

text \<open>The checks before anything is changed.\<close>

definition update_rejected :: "MEMarketUpdate \<Rightarrow> MarketOrderBook \<Rightarrow> bool option" where
  "update_rejected u b =
     (if mu_ticker_id u \<noteq> mb_ticker_id b then Some True
      else if mu_type u = Mkt_ADD \<or> mu_type u = Mkt_MODIFY \<or> mu_type u = Mkt_CANCEL then
        (if mu_order_id u = 0 \<or> unat (mu_order_id u) \<ge> ME_MAX_ORDER_IDS then Some True
         else let existing = oid_to_order b (mu_order_id u) in
           if mu_type u = Mkt_ADD then
             Some (existing \<noteq> None \<or> available (order_pool b) = 0 \<or> (mu_side u \<noteq> BUY \<and> mu_side u \<noteq> SELL) \<or>
               mu_price u \<le> 0 \<or> mu_price u = Price_INVALID \<or> mu_qty u = 0 \<or> mu_qty u = Qty_INVALID \<or>
               (getOrdersAtPrice (mu_price u) (mu_side u) b = None \<and> available (orders_at_price_pool b) = 0))
           else case existing of None \<Rightarrow> Some True
             | Some order \<Rightarrow> do {
                 ord \<leftarrow> deref (order_pool b) order;
                 Some (mo_side ord \<noteq> mu_side u \<or> mo_price ord \<noteq> mu_price u \<or>
                   (mu_type u = Mkt_MODIFY \<and> (mu_qty u = 0 \<or> mu_qty u = Qty_INVALID))) })
      else Some False)"

definition apply_update :: "MEMarketUpdate \<Rightarrow> MarketOrderBook \<Rightarrow> MarketOrderBook option" where
  "apply_update u b =
     (case mu_type u of
        Mkt_ADD \<Rightarrow> (case allocate (MarketOrder_make (mu_order_id u) (mu_side u) (mu_price u) (mu_qty u) (mu_priority u) None None)
                           (order_pool b) of
            (None, _) \<Rightarrow> None
          | (Some order, q) \<Rightarrow> mb_addOrder order (b\<lparr>order_pool := q\<rparr>))
      | Mkt_MODIFY \<Rightarrow> do { order \<leftarrow> oid_to_order b (mu_order_id u); upd_order order (\<lambda>v. v\<lparr>mk_qty := mu_qty u\<rparr>) b }
      | Mkt_CANCEL \<Rightarrow> do { order \<leftarrow> oid_to_order b (mu_order_id u); mb_removeOrder order b }
      | Mkt_CLEAR \<Rightarrow> clear_book b
      | _ \<Rightarrow> Some b)"

datatype Notice = NoNotice | TradeSeen | BookChanged

definition onMarketUpdate :: "MEMarketUpdate \<Rightarrow> MarketOrderBook \<Rightarrow> (bool \<times> Notice \<times> MarketOrderBook) option" where
  "onMarketUpdate u b = do {
     rejected \<leftarrow> update_rejected u b;
     if rejected then Some (False, NoNotice, b)
     else if mu_type u = Mkt_TRADE then Some (True, TradeSeen, b)
     else do {
       b \<leftarrow> apply_update u b;
       b \<leftarrow> updateBBO True True b;
       Some (True, BookChanged, b) } }"

end
