(* ===== verification/Market_Book_Props.thy ===== *)
theory Market_Book_Props
  imports Market_Order_Book Ladder_Lists Quotes "HOL-Library.Multiset"
begin

text \<open>
  The client's book is a replica: from any consistent stream of market updates it keeps exactly the quotes of the stream,
  never fails on a pointer, and its best bid and offer are those of the quotes. \<open>mb_ok\<close> is the invariant, \<open>mb_quotes\<close> the
  orders it holds, each as the ADD event that announced it.
\<close>

definition mk_quote :: "TickerId \<Rightarrow> MarketOrder \<Rightarrow> MEMarketUpdate" where
  "mk_quote t v = mk_update Mkt_ADD (mk_order_id v) t (mo_side v) (mo_price v) (mk_qty v) (mk_priority v)"

definition mb_quotes :: "MarketOrderBook \<Rightarrow> OrderId \<Rightarrow> MEMarketUpdate option" where
  "mb_quotes b i = Option.bind (oid_to_order b i) (\<lambda>x. map_option (mk_quote (mb_ticker_id b)) (oheap b x))"

definition mb_ok :: "MarketOrderBook \<Rightarrow> (Side \<Rightarrow> rung list) \<Rightarrow> bool" where
  "mb_ok b g \<longleftrightarrow> ladder_ok b {} g \<and> capacity (order_pool b) = ME_MAX_ORDER_IDS \<and>
     capacity (orders_at_price_pool b) = ME_MAX_PRICE_LEVELS \<and>
     (\<forall>i x. oid_to_order b i = Some x \<longleftrightarrow> (\<exists>v. oS (oheap b) x = Some v \<and> mk_order_id v = i)) \<and>
     (\<forall>x v. oS (oheap b) x = Some v \<longrightarrow> id_valid (mk_order_id v) \<and> mo_side v \<in> sides) \<and>
     live_order_ids b = dom (oid_to_order b)"

lemma mb_okD:
  assumes "mb_ok b g"
  shows "ladder_ok b {} g" "capacity (order_pool b) = ME_MAX_ORDER_IDS" "capacity (orders_at_price_pool b) = ME_MAX_PRICE_LEVELS"
    "\<And>i x. oid_to_order b i = Some x \<longleftrightarrow> (\<exists>v. oS (oheap b) x = Some v \<and> mk_order_id v = i)"
    "\<And>x v. oS (oheap b) x = Some v \<Longrightarrow> id_valid (mk_order_id v) \<and> mo_side v \<in> sides"
    "live_order_ids b = dom (oid_to_order b)"
  using assms by (simp_all add: mb_ok_def)

lemma mk_strip [simp]: "mk_order_id (strip v) = mk_order_id v" "mk_qty (strip v) = mk_qty v" "mk_priority (strip v) = mk_priority v"
  "mk_quote t (strip v) = mk_quote t v"
  by (simp_all add: strip_def mk_quote_def)

lemma mb_quotes_oS: "mb_quotes b i = Option.bind (oid_to_order b i) (\<lambda>x. map_option (mk_quote (mb_ticker_id b)) (oS (oheap b) x))"
  by (simp add: mb_quotes_def oS_def option.map_comp comp_def)

lemma mb_more_eq:
  assumes "Ladder.more b' = Ladder.more (b :: MarketOrderBook)"
  shows "mb_ticker_id b' = mb_ticker_id b" "oid_to_order b' = oid_to_order b" "live_order_ids b' = live_order_ids b"
  using assms by (cases b; cases b'; simp)+

lemma mb_ladder_ext [simp]:
  "ladder_ok (b\<lparr>oid_to_order := m\<rparr>) F g = ladder_ok b F g" "ladder_ok (b\<lparr>live_order_ids := l\<rparr>) F g = ladder_ok b F g"
  "ladder_ok (b\<lparr>mb_bbo := q\<rparr>) F g = ladder_ok b F g"
  by (simp_all add: ladder_ok_def best_of_def)

lemma mb_removeOrder_ok:
  assumes ok: "mb_ok b g" and i: "oid_to_order b i = Some x"
  shows "\<exists>b' g'. mb_removeOrder x b = Some b' \<and> mb_ok b' g' \<and> mb_quotes b' = (mb_quotes b)(i := None) \<and>
     mb_ticker_id b' = mb_ticker_id b"
proof -
  note B = mb_okD [OF ok]
  obtain w where sw: "oS (oheap b) x = Some w" "mk_order_id w = i" using B(4) i by blast
  then obtain v where v: "oheap b x = Some v" "w = strip v" by (auto simp: oS_def)
  have s: "mo_side v \<in> sides" "id_valid i" using B(5) [OF sw(1)] v sw(2) by auto
  have "x \<in> dom (oheap b)" using v by blast
  then obtain t where t: "t \<in> sides" "x \<in> set (ptrs (g t))" using ladder_okD(7) [OF B(1)] by blast
  obtain b1 ls where u: "unlinkOrder x b = Some b1" "ladder_ok b1 {x} (g(t := ls))"
    and same: "oS (oheap b1) = oS (oheap b)" and more: "Ladder.more b1 = Ladder.more b"
    and cap: "capacity (orders_at_price_pool b1) = capacity (orders_at_price_pool b)"
      "capacity (order_pool b1) = capacity (order_pool b)"
    using unlinkOrder_ok [OF B(1) t] by blast
  note M = mb_more_eq [OF more]
  let ?q = "drop_slot x (order_pool b1)"
  let ?b = "b1\<lparr>order_pool := ?q, oid_to_order := (oid_to_order b)(i := None), live_order_ids := live_order_ids b - {i}\<rparr>"
  have inv: "pool_inv (order_pool b1)" using ladder_okD(2) [OF u(2)] .
  have "oheap b1 x \<noteq> None" using fun_cong [OF same, of x] v by (auto simp: oS_def)
  then have run: "mb_removeOrder x b = Some ?b"
    using u(1) v(1) s(2) sw(2) v(2) M
    by (simp add: mb_removeOrder_def dispose_drop [OF inv] id_valid_def del: not_None_eq)
  note Q = drop_slot_laws [OF inv, of x]
  have heap: "oS (deref ?q) = (oS (oheap b))(x := None)" by (simp add: Q views same)
  have lad: "ladder_ok ?b {} (g(t := ls))" using ladder_drop [OF u(2)] by simp
  have idx: "oid_to_order ?b j = Some y \<longleftrightarrow> (\<exists>w. oS (oheap ?b) y = Some w \<and> mk_order_id w = j)" for j y
    using B(4) [of j y] B(4) [of i y] i sw by (auto simp: heap split: if_splits)
  have "mb_ok ?b (g(t := ls))"
    unfolding mb_ok_def using lad cap Q B(2,3) idx B(5,6) heap by (auto split: if_splits)
  moreover have "mb_quotes ?b = (mb_quotes b)(i := None)"
  proof
    fix j
    have "oid_to_order b j = Some y \<Longrightarrow> j \<noteq> i \<Longrightarrow> y \<noteq> x" for y using B(4) [of j y] sw by auto
    then show "mb_quotes ?b j = ((mb_quotes b)(i := None)) j"
      using M(1) by (cases "oid_to_order b j") (auto simp: mb_quotes_oS heap)
  qed
  ultimately show ?thesis using run M(1) by (intro exI [of _ ?b] exI [of _ "g(t := ls)"]) simp
qed

lemma mb_modify_ok:
  assumes ok: "mb_ok b g" and i: "oid_to_order b i = Some x" and q: "mb_quotes b i = Some u"
  shows "\<exists>b'. upd_order x (\<lambda>v. v\<lparr>mk_qty := n\<rparr>) b = Some b' \<and> mb_ok b' g \<and> mb_quotes b' = (mb_quotes b)(i \<mapsto> u\<lparr>mu_qty := n\<rparr>) \<and>
     mb_ticker_id b' = mb_ticker_id b"
proof -
  note B = mb_okD [OF ok]
  let ?f = "\<lambda>v. v\<lparr>mk_qty := n\<rparr>"
  obtain v where v: "oheap b x = Some v" "u = mk_quote (mb_ticker_id b) v" using i q by (auto simp: mb_quotes_def)
  let ?b = "b\<lparr>order_pool := poke x ?f (order_pool b)\<rparr>"
  have run: "upd_order x ?f b = Some ?b" using v by (simp add: upd_order_eq)
  have heap: "oS (deref (poke x ?f (order_pool b))) = (oS (oheap b))(x := map_option ?f (oS (oheap b) x))"
    using v by (auto simp: fun_eq_iff oS_def deref_poke strip_def)
  have lad: "ladder_ok ?b {} g" by (rule ladder_poke [OF B(1)]) simp
  have "mb_ok ?b g"
    unfolding mb_ok_def using lad B by (auto simp: heap poke_frame split: if_splits)
  moreover have "mb_quotes ?b = (mb_quotes b)(i \<mapsto> u\<lparr>mu_qty := n\<rparr>)"
  proof
    fix j
    have "oid_to_order b j = Some y \<Longrightarrow> j \<noteq> i \<Longrightarrow> y \<noteq> x" for y using B(4) [of j y] B(4) [of i x] i by auto
    then show "mb_quotes ?b j = ((mb_quotes b)(i \<mapsto> u\<lparr>mu_qty := n\<rparr>)) j"
      using i v by (cases "oid_to_order b j") (auto simp: mb_quotes_oS heap oS_def mk_quote_def mk_update_def strip_def)
  qed
  ultimately show ?thesis using run by (intro exI [of _ ?b]) simp
qed

text \<open>The pools have room for every book of valid ids whose levels fit.\<close>

definition level_keys :: "(OrderId \<Rightarrow> MEMarketUpdate option) \<Rightarrow> (Side \<times> Price) set" where
  "level_keys q = (\<lambda>v. (mu_side v, mu_price v)) ` ran q"

lemma mb_live_count:
  assumes ok: "mb_ok b g" shows "available (order_pool b) \<noteq> 0"
proof -
  note B = mb_okD [OF ok]
  let ?f = "\<lambda>x. unat (mk_order_id (the (oheap b x)))"
  have id: "oheap b x = Some v \<Longrightarrow> oid_to_order b (mk_order_id v) = Some x \<and> id_valid (mk_order_id v)" for x v
    using B(4) [of "mk_order_id v" x] B(5) [of x "strip v"] by (auto simp: oS_def)
  have "inj_on ?f (dom (oheap b))"
  proof (rule inj_onI)
    fix x y assume "x \<in> dom (oheap b)" "y \<in> dom (oheap b)" "?f x = ?f y"
    then obtain v w where vw: "oheap b x = Some v" "oheap b y = Some w" "mk_order_id v = mk_order_id w"
      by (auto simp flip: word_unat_eq_iff)
    then show "x = y" using id [OF vw(1)] id [OF vw(2)] by simp
  qed
  moreover have "?f ` dom (oheap b) \<subseteq> {1..<ME_MAX_ORDER_IDS}"
  proof
    fix n assume "n \<in> ?f ` dom (oheap b)"
    then obtain x v where xv: "oheap b x = Some v" "n = unat (mk_order_id v)" by auto
    then show "n \<in> {1..<ME_MAX_ORDER_IDS}" using id [OF xv(1)] by (simp add: id_valid_def Suc_le_eq unat_gt_0)
  qed
  ultimately have "card (dom (oheap b)) \<le> card {1..<ME_MAX_ORDER_IDS}"
    by (metis card_image card_mono finite_atLeastLessThan)
  then have "card (dom (oheap b)) < ME_MAX_ORDER_IDS" by (simp add: limits)
  then show ?thesis using pool_accounting [OF ladder_okD(2) [OF B(1)]] B(2) by simp
qed

lemma ran_image: "ran f = (\<lambda>x. the (f x)) ` dom f"
  by (force simp: ran_def dom_def)

lemma mb_keys:
  assumes ok: "mb_ok b g"
  shows "level_keys (mb_quotes b) = (\<Union>s \<in> sides. Pair s ` mo_price ` set (book_list b g s))"
proof -
  note B = mb_okD [OF ok]
  have "ran (mb_quotes b) = mk_quote (mb_ticker_id b) ` ran (oS (oheap b))"
  proof (intro equalityI subsetI)
    fix u assume "u \<in> ran (mb_quotes b)"
    then show "u \<in> mk_quote (mb_ticker_id b) ` ran (oS (oheap b))" by (auto simp: ran_def mb_quotes_oS bind_Some_conv)
  next
    fix u assume "u \<in> mk_quote (mb_ticker_id b) ` ran (oS (oheap b))"
    then obtain x v where xv: "oS (oheap b) x = Some v" "u = mk_quote (mb_ticker_id b) v" by (auto simp: ran_def)
    then have "oid_to_order b (mk_order_id v) = Some x" using B(4) by blast
    then have "mb_quotes b (mk_order_id v) = Some u" using xv by (simp add: mb_quotes_oS)
    then show "u \<in> ran (mb_quotes b)" by (auto simp: ran_def)
  qed
  moreover have "ran (oS (oheap b)) = (\<Union>s \<in> sides. set (book_list b g s))"
  proof -
    have "dom (oS (oheap b)) = (\<Union>s \<in> sides. set (ptrs (g s)))"
    proof -
      have "dom (oS (oheap b)) = dom (oheap b)" by (auto simp: oS_def)
      then show ?thesis using ladder_okD(7) [OF B(1)] by simp
    qed
    then have "ran (oS (oheap b)) = (\<lambda>x. the (oS (oheap b) x)) ` (\<Union>s \<in> sides. set (ptrs (g s)))"
      by (simp only: ran_image)
    then show ?thesis by (simp add: book_list_def image_UN)
  qed
  moreover have "(\<lambda>v. (mu_side v, mu_price v)) \<circ> mk_quote (mb_ticker_id b) = (\<lambda>v. (mo_side v, mo_price v))"
    by (auto simp: mk_quote_def mk_update_def)
  ultimately have "level_keys (mb_quotes b) = (\<Union>s \<in> sides. (\<lambda>v. (mo_side v, mo_price v)) ` set (book_list b g s))"
    by (simp add: level_keys_def image_UN flip: image_comp) (simp add: image_image mk_quote_def mk_update_def)
  also have "\<dots> = (\<Union>s \<in> sides. Pair s ` mo_price ` set (book_list b g s))"
    using book_list_tag(1) [OF B(1)] by (intro SUP_cong refl) (auto simp: image_image intro!: image_cong)
  finally show ?thesis .
qed

lemma mb_level_count:
  assumes ok: "mb_ok b g"
  shows "card (level_keys (mb_quotes b)) + available (orders_at_price_pool b) = ME_MAX_PRICE_LEVELS"
proof -
  note B = mb_okD [OF ok]
  have "card (level_keys (mb_quotes b)) = card (Pair BUY ` mo_price ` set (book_list b g BUY)) + card (Pair SELL ` mo_price ` set (book_list b g SELL))"
    unfolding mb_keys [OF ok] sides_def by (subst card_Un_disjoint [symmetric]) auto
  also have "\<dots> = card (mo_price ` set (book_list b g BUY)) + card (mo_price ` set (book_list b g SELL))"
    by (simp add: card_image inj_on_def)
  finally show ?thesis using ladder_balance(2) [OF B(1)] B(3) by simp
qed

lemma mb_addOrder_ok:
  assumes ok: "mb_ok b g" and s: "mu_side u \<in> sides" "id_valid (mu_order_id u)" "mu_type u = Mkt_ADD"
    and u: "mu_ticker_id u = mb_ticker_id b" and fresh: "oid_to_order b (mu_order_id u) = None"
    and room: "getOrdersAtPrice (mu_price u) (mu_side u) b = None \<Longrightarrow> available (orders_at_price_pool b) \<noteq> 0"
  shows "\<exists>b' g'. apply_update u b = Some b' \<and> mb_ok b' g' \<and> mb_quotes b' = (mb_quotes b)(mu_order_id u \<mapsto> u) \<and>
     mb_ticker_id b' = mb_ticker_id b"
proof -
  note B = mb_okD [OF ok]
  let ?i = "mu_order_id u" and ?v = "MarketOrder_make (mu_order_id u) (mu_side u) (mu_price u) (mu_qty u) (mu_priority u) None None"
  have av: "available (order_pool b) \<noteq> 0" by (rule mb_live_count [OF ok])
  let ?x = "top_slot (order_pool b)"
  define b0 where "b0 = b\<lparr>order_pool := put_slot ?v (order_pool b)\<rparr>"
  have alloc: "allocate ?v (order_pool b) = (Some ?x, put_slot ?v (order_pool b))" by (rule allocate_put [OF av])
  note P = ladder_put(1,2) [OF B(1) av, of ?v, folded b0_def]
  note Q = put_slot_laws(1-3) [OF ladder_okD(2) [OF B(1)] av, of ?v] put_slot_laws(4) [OF ladder_okD(2) [OF B(1)] av]
  have "getOrdersAtPrice (mu_price u) (mu_side u) b0 = None \<Longrightarrow> available (orders_at_price_pool b0) \<noteq> 0"
    using room by (simp add: b0_def getOrdersAtPrice_def)
  with linkOrder_ok [OF P(1,2), of "mu_side u" "mu_price u"] s(1) obtain b1 ls where
    l: "linkOrder ?x b0 = Some b1" "ladder_ok b1 {} (g(mu_side u := ls))" "oS (oheap b1) = oS (oheap b0)"
      "Ladder.more b1 = Ladder.more b0" "capacity (orders_at_price_pool b1) = capacity (orders_at_price_pool b0)"
      "capacity (order_pool b1) = capacity (order_pool b0)"
    by (auto simp: MarketOrder_make_def)
  note M = mb_more_eq [OF l(4)]
  let ?b = "b1\<lparr>oid_to_order := (oid_to_order b)(?i \<mapsto> ?x), live_order_ids := insert ?i (live_order_ids b)\<rparr>"
  have run: "apply_update u b = Some ?b"
    using alloc l(1) P(2) s(2,3) M
    by (simp add: apply_update_def mb_addOrder_def flip: b0_def) (simp add: b0_def MarketOrder_make_def id_valid_def)
  have heap: "oS (oheap b1) = (oS (oheap b))(?x \<mapsto> strip ?v)" using l(3) Q(1) by (simp add: b0_def views)
  have dead: "oS (oheap b) ?x = None" using Q(4) by (simp add: oS_def)
  have idx: "((oid_to_order b)(?i \<mapsto> ?x)) j = Some y \<longleftrightarrow> (\<exists>w. oS (oheap b1) y = Some w \<and> mk_order_id w = j)" for j y
    using B(4) [of j y] fresh dead B(4) [of ?i y] by (auto simp: heap MarketOrder_make_def split: if_splits)
  have "mb_ok ?b (g(mu_side u := ls))"
    unfolding mb_ok_def
  proof (intro conjI allI impI)
    show "ladder_ok ?b {} (g(mu_side u := ls))" using l(2) by simp
    show "capacity (order_pool ?b) = ME_MAX_ORDER_IDS" "capacity (orders_at_price_pool ?b) = ME_MAX_PRICE_LEVELS"
      using l(5,6) B(2,3) Q(3) by (simp_all add: b0_def)
    show "oid_to_order ?b i = Some x \<longleftrightarrow> (\<exists>v. oS (oheap ?b) x = Some v \<and> mk_order_id v = i)" for i x using idx [of i x] by simp
    show "id_valid (mk_order_id v)" "mo_side v \<in> sides" if "oS (oheap ?b) x = Some v" for x v
      using that B(5) [of x v] s by (auto simp: heap MarketOrder_make_def split: if_splits)
    show "live_order_ids ?b = dom (oid_to_order ?b)" using B(6) by simp
  qed
  moreover have "mb_quotes ?b = (mb_quotes b)(?i \<mapsto> u)"
  proof
    fix j
    have "oid_to_order b j = Some y \<Longrightarrow> y \<noteq> ?x" for y using B(4) [of j y] dead by auto
    moreover have "mk_quote (mb_ticker_id b) ?v = u" using s(3) u by (simp add: mk_quote_def mk_update_def MarketOrder_make_def)
    ultimately show "mb_quotes ?b j = ((mb_quotes b)(?i \<mapsto> u)) j"
      using M(1) by (cases "oid_to_order b j") (auto simp: mb_quotes_oS heap b0_def)
  qed
  ultimately show ?thesis using run M(1) by (intro exI [of _ ?b] exI [of _ "g(mu_side u := ls)"]) (simp add: b0_def)
qed

subsection \<open>Clearing\<close>

lemma dispose_all_ok:
  "pool_inv p \<Longrightarrow> distinct xs \<Longrightarrow> set xs \<subseteq> dom (deref p) \<Longrightarrow>
   \<exists>q. dispose_all xs p = Some q \<and> deref q = deref p |` (- set xs) \<and> pool_inv q \<and> capacity q = capacity p"
proof (induct xs arbitrary: p)
  case (Cons x xs)
  have live: "deref p x \<noteq> None" using Cons.prems(3) by auto
  note Q = drop_slot_laws [OF Cons.prems(1), of x]
  have "set xs \<subseteq> dom (deref (drop_slot x p))" using Cons.prems(2,3) by (auto simp: Q)
  then obtain q where "dispose_all xs (drop_slot x p) = Some q" "deref q = deref (drop_slot x p) |` (- set xs)"
    "pool_inv q" "capacity q = capacity p"
    using Cons.hyps [OF Q(2)] Cons.prems(2) Q(3) by auto
  moreover have "(deref p)(x := None) |` (- set xs) = deref p |` (- set (x # xs))"
    by (auto simp: fun_eq_iff restrict_map_def)
  ultimately show ?case using live by (simp add: dispose_drop [OF Cons.prems(1)] Q)
qed (simp add: restrict_map_def)

lemma dispose_all_empty:
  assumes "pool_inv p" "distinct xs" "set xs = dom (deref p)"
  shows "\<exists>q. dispose_all xs p = Some q \<and> deref q = Map.empty \<and> pool_inv q \<and> capacity q = capacity p"
proof -
  have "deref p |` (- dom (deref p)) = Map.empty" by (auto simp: fun_eq_iff restrict_map_def)
  then show ?thesis using dispose_all_ok [OF assms(1,2)] assms(3) by simp
qed

lemma map_filter_mset: "mset xs = mset ys \<Longrightarrow> mset (List.map_filter f xs) = mset (List.map_filter f ys)"
  by (simp add: List.map_filter_def)

lemma mb_levels:
  assumes ok: "mb_ok b g"
  shows "distinct (levels_in_order b)" "set (levels_in_order b) = dom (lheap b)"
proof -
  note L = ladder_okD [OF mb_okD(1) [OF ok]]
  let ?p = "orders_at_price_pool b" and ?key = "\<lambda>lv. (lv_side lv, lv_price lv)"
  define live where "live = filter (\<lambda>i. deref ?p i \<noteq> None) [0..<length (blocks ?p)]"
  have live: "set live = dom (lheap b)" "distinct live" by (auto simp: live_def deref_def split: if_splits)
  have "List.map_filter storage (blocks ?p) = map (the \<circ> deref ?p) live"
  proof -
    have "List.map_filter storage (blocks ?p) = List.map_filter storage (map (nth (blocks ?p)) [0..<length (blocks ?p)])"
      by (simp add: map_nth)
    also have "\<dots> = map (the \<circ> deref ?p) live"
      unfolding List.map_filter_def filter_map map_map live_def
      by (intro arg_cong2 [of _ _ _ _ map] map_cong filter_cong) (auto simp: deref_def)
    finally show ?thesis .
  qed
  moreover have "List.map_filter (price_orders_at_price b) (map ?key (map (the \<circ> deref ?p) live)) = live"
  proof -
    have "price_orders_at_price b (?key (the (lheap b l))) = Some l" if "l \<in> set live" for l
    proof -
      obtain s e where e: "s \<in> sides" "e \<in> set (g s)" "l = fst e" using \<open>l \<in> set live\<close> live L(6) by blast
      note S = L(3) [OF e(1)]
      have "lC (lheap b) l = Some (s, rprice e, Some (hd (rorders e)))" using rungs_okD(4) [OF S e(2)] e(3) by (simp add: rung_ok_def)
      then have "?key (the (lheap b l)) = (s, rprice e)" by (auto simp: lC_def)
      moreover have "rung_map (g s) (rprice e) = Some l"
        using e rungs_okD(7) [OF S] unfolding rung_map_def
        by (intro map_of_is_SomeI) (auto simp: comp_def intro!: image_eqI [of _ _ e])
      ultimately show ?thesis using rungs_okD(5) [OF S] by (metis (mono_tags))
    qed
    then show ?thesis by (simp add: List.map_filter_def filter_map comp_def map_idI)
  qed
  ultimately have "mset (levels_in_order b) = mset live"
    unfolding levels_in_order_def by (metis (mono_tags, lifting) map_filter_mset mset_sort)
  then show "distinct (levels_in_order b)" "set (levels_in_order b) = dom (lheap b)"
    using live by (metis mset_eq_imp_distinct_iff, metis mset_eq_setD)
qed

lemma mb_orders:
  assumes ok: "mb_ok b g"
  defines "xs \<equiv> List.map_filter (\<lambda>i. oid_to_order b (of_nat i)) [0..<ME_MAX_ORDER_IDS]"
  shows "distinct xs" "set xs = dom (oheap b)"
proof -
  note B = mb_okD [OF ok]
  let ?f = "\<lambda>i. oid_to_order b (word_of_nat i)"
  have small: "i < 2 ^ 64" if "i < ME_MAX_ORDER_IDS" for i using that by (simp add: limits)
  have "inj_on (the \<circ> ?f) {i \<in> set [0..<ME_MAX_ORDER_IDS]. ?f i \<noteq> None}"
  proof (rule inj_onI, clarsimp)
    fix i j x assume ij: "i < ME_MAX_ORDER_IDS" "j < ME_MAX_ORDER_IDS" "?f i = Some x" "?f j = Some x"
    then have "word_of_nat i = (word_of_nat j :: OrderId)" using B(4) by (metis option.inject)
    then show "i = j" using small [OF ij(1)] small [OF ij(2)] by (simp add: word_of_nat_eq_iff take_bit_nat_eq_self)
  qed
  then show "distinct xs" by (simp add: xs_def List.map_filter_def distinct_map comp_def)
  have "oheap b x \<noteq> None \<longleftrightarrow> (\<exists>i < ME_MAX_ORDER_IDS. ?f i = Some x)" for x
  proof
    assume "oheap b x \<noteq> None"
    then obtain v where v: "oS (oheap b) x = Some v" by (auto simp: oS_def)
    then have "oid_to_order b (mk_order_id v) = Some x" "unat (mk_order_id v) < ME_MAX_ORDER_IDS"
      using B(4) B(5) [OF v] by (auto simp: id_valid_def)
    then show "\<exists>i < ME_MAX_ORDER_IDS. ?f i = Some x" by (intro exI [of _ "unat (mk_order_id v)"]) simp
  next
    assume "\<exists>i < ME_MAX_ORDER_IDS. ?f i = Some x"
    then show "oheap b x \<noteq> None" using B(4) by (auto simp: oS_def)
  qed
  then show "set xs = dom (oheap b)" by (auto simp: xs_def List.map_filter_def dom_def) force
qed

lemma ladder_ok_empty:
  assumes "pool_inv (orders_at_price_pool b)" "pool_inv (order_pool b)" "lheap b = Map.empty" "oheap b = Map.empty"
    "bids_by_price b = None" "asks_by_price b = None" "price_orders_at_price b = (\<lambda>_. None)"
  shows "ladder_ok b {} (\<lambda>_. [])"
  using assms by (simp add: ladder_ok_def rungs_ok_def best_of_def front_def)

lemma clear_book_ok:
  assumes ok: "mb_ok b g"
  shows "\<exists>b'. clear_book b = Some b' \<and> mb_ok b' (\<lambda>_. []) \<and> mb_quotes b' = (\<lambda>_. None) \<and> mb_ticker_id b' = mb_ticker_id b"
proof -
  note B = mb_okD [OF ok] and L = ladder_okD [OF mb_okD(1) [OF ok]]
  obtain op where op: "dispose_all (List.map_filter (\<lambda>i. oid_to_order b (of_nat i)) [0..<ME_MAX_ORDER_IDS]) (order_pool b) = Some op"
    "deref op = Map.empty" "pool_inv op" "capacity op = ME_MAX_ORDER_IDS"
    using dispose_all_empty [OF L(2) mb_orders [OF ok]] B(2) by auto
  obtain lp where lp: "dispose_all (levels_in_order b) (orders_at_price_pool b) = Some lp"
    "deref lp = Map.empty" "pool_inv lp" "capacity lp = ME_MAX_PRICE_LEVELS"
    using dispose_all_empty [OF L(1) mb_levels [OF ok]] B(3) by auto
  let ?b = "b\<lparr>order_pool := op, oid_to_order := (\<lambda>_. None), live_order_ids := {}, orders_at_price_pool := lp,
             price_orders_at_price := (\<lambda>_. None), bids_by_price := None, asks_by_price := None\<rparr>"
  have "ladder_ok ?b {} (\<lambda>_. [])" by (rule ladder_ok_empty) (use op lp in simp_all)
  then have "mb_ok ?b (\<lambda>_. [])" using op lp by (simp add: mb_ok_def oS_def)
  moreover have "clear_book b = Some ?b" using op(1) lp(1) by (simp add: clear_book_def)
  ultimately show ?thesis by (intro exI [of _ ?b]) (simp add: mb_quotes_def fun_eq_iff)
qed

subsection \<open>Best bid and offer\<close>

text \<open>The best price of a side and the total quantity at it, read off the quotes.\<close>

definition side_prices :: "Side \<Rightarrow> (OrderId \<Rightarrow> MEMarketUpdate option) \<Rightarrow> Price set" where
  "side_prices s q = {mu_price u | u. u \<in> ran q \<and> mu_side u = s}"

definition level_qty :: "Side \<Rightarrow> Price \<Rightarrow> (OrderId \<Rightarrow> MEMarketUpdate option) \<Rightarrow> BookQty" where
  "level_qty s p q = (\<Sum>i | \<exists>u. q i = Some u \<and> mu_side u = s \<and> mu_price u = p. ucast (mu_qty (the (q i))))"

definition best_price :: "Side \<Rightarrow> (OrderId \<Rightarrow> MEMarketUpdate option) \<Rightarrow> Price" where
  "best_price s q = (if s = BUY then Max (side_prices s q) else Min (side_prices s q))"

definition quoted_best :: "Side \<Rightarrow> (OrderId \<Rightarrow> MEMarketUpdate option) \<Rightarrow> Price \<times> BookQty" where
  "quoted_best s q = (if side_prices s q = {} then (Price_INVALID, BookQty_INVALID)
     else (best_price s q, level_qty s (best_price s q) q))"

definition quoted_bbo :: "(OrderId \<Rightarrow> MEMarketUpdate option) \<Rightarrow> BBO" where
  "quoted_bbo q = \<lparr>bid_price = fst (quoted_best BUY q), ask_price = fst (quoted_best SELL q),
     bid_qty = snd (quoted_best BUY q), ask_qty = snd (quoted_best SELL q)\<rparr>"

lemma sum_ring_ok:
  assumes "ring (oN (deref p)) P (f # ys @ zs)"
  shows "sum_ring p f (hd (zs @ [f])) acc = Some (acc + (\<Sum>z \<leftarrow> zs. ucast (mk_qty (the (deref p z)))))"
  using assms
proof (induct zs arbitrary: ys acc)
  case Nil
  then show ?case by (simp add: sum_ring.simps)
next
  case (Cons z zs)
  have "oN (deref p) z = Some (hd (zs @ [f]))" using ring_next [of _ P "f # ys" z zs] Cons.prems by (cases zs) auto
  then obtain v where v: "deref p z = Some v" "next_order v = Some (hd (zs @ [f]))" by (auto simp: oN_def bind_Some_conv)
  have "z \<noteq> f" using ring_distinct [OF Cons.prems] by auto
  moreover have "ring (oN (deref p)) P (f # (ys @ [z]) @ zs)" using Cons.prems by simp
  ultimately show ?case using v Cons.hyps [of "ys @ [z]" "acc + ucast (mk_qty v)"]
    by (subst sum_ring.simps) (simp add: add.assoc)
qed

lemma mb_quote_heap:
  assumes ok: "mb_ok b g"
  shows "mb_quotes b i = Some u \<longleftrightarrow> (\<exists>x v. oheap b x = Some v \<and> mk_order_id v = i \<and> u = mk_quote (mb_ticker_id b) v)"
    "oheap b x = Some v \<Longrightarrow> oid_to_order b (mk_order_id v) = Some x"
  using mb_okD(4) [OF ok] by (fastforce simp: mb_quotes_def oS_def bind_Some_conv)+

lemma mb_side_prices:
  assumes ok: "mb_ok b g" and s: "s \<in> sides"
  shows "side_prices s (mb_quotes b) = rprice ` set (g s)"
proof -
  have "side_prices s (mb_quotes b) = {p. (s, p) \<in> level_keys (mb_quotes b)}"
    by (auto simp: side_prices_def level_keys_def)
  also have "\<dots> = mo_price ` set (book_list b g s)" unfolding mb_keys [OF ok] using s by auto
  also have "\<dots> = rprice ` set (g s)"
    using rungs_prices [OF ladder_okD(3) [OF mb_okD(1) [OF ok] s]] by (simp add: book_list_def image_image)
  finally show ?thesis .
qed

lemma best_price_head:
  assumes "sorted_wrt (better s) (p # ps)" "s \<in> sides" "side_prices s q = set (p # ps)"
  shows "best_price s q = p"
proof -
  have "s = BUY \<and> (\<forall>x \<in> set ps. x < p) \<or> s = SELL \<and> (\<forall>x \<in> set ps. p < x)"
    using assms(1,2) by (auto simp: sides_def better_def)
  then show ?thesis
    using assms(3) by (auto simp: best_price_def intro!: Max_eqI Min_eqI intro: less_imp_le)
qed

lemma mb_level_qty:
  assumes ok: "mb_ok b g" and s: "s \<in> sides" and e: "e \<in> set (g s)"
  shows "level_qty s (rprice e) (mb_quotes b) = (\<Sum>x \<leftarrow> rorders e. ucast (mk_qty (the (oheap b x))))"
proof -
  note B = mb_okD(1) [OF ok] note S = ladder_okD(3) [OF B s] note H = mb_quote_heap [OF ok]
  have R: "rung_ok (lheap b) (oheap b) s (fst e, rprice e, rorders e)" using rungs_okD(4) [OF S e] by simp
  note R = rung_okD [OF R]
  have mem: "x \<in> set (rorders e) \<longleftrightarrow> oT (oheap b) x = Some (s, rprice e)" for x
  proof
    assume t: "oT (oheap b) x = Some (s, rprice e)"
    then have "x \<in> dom (oheap b)" by (auto simp: oT_def)
    then obtain t where t': "t \<in> sides" "x \<in> set (ptrs (g t))" using ladder_okD(7) [OF B] by blast
    then obtain d where d: "d \<in> set (g t)" "x \<in> set (rorders d)" by (auto simp: set_ptrs)
    have "oT (oheap b) x = Some (t, rprice d)" using rungs_okD(4) [OF ladder_okD(3) [OF B t'(1)] d(1)] d(2) by (simp add: rung_ok_def)
    with t have "t = s" "rprice d = rprice e" by auto
    then have "d = e" using d(1) e rungs_okD(7) [OF S] by (auto simp: distinct_map dest: inj_onD)
    then show "x \<in> set (rorders e)" using d by simp
  qed (rule R(4))
  let ?X = "set (rorders e)" and ?I = "{i. \<exists>u. mb_quotes b i = Some u \<and> mu_side u = s \<and> mu_price u = rprice e}"
  have live: "\<exists>v. oheap b x = Some v \<and> mo_side v = s \<and> mo_price v = rprice e" if "x \<in> ?X" for x
    using that mem by (auto simp: oT_def)
  have "level_qty s (rprice e) (mb_quotes b) = (\<Sum>x \<in> ?X. ucast (mk_qty (the (oheap b x))))"
    unfolding level_qty_def
  proof (rule sum.reindex_bij_witness [where j = "\<lambda>i. the (oid_to_order b i)" and i = "\<lambda>x. mk_order_id (the (oheap b x))"])
    fix i assume "i \<in> ?I"
    then obtain u where u: "mb_quotes b i = Some u" "mu_side u = s" "mu_price u = rprice e" by blast
    then obtain x v where "oheap b x = Some v" "mk_order_id v = i" "u = mk_quote (mb_ticker_id b) v" using H(1) by blast
    with u have xv: "oheap b x = Some v" "mk_order_id v = i" "mb_quotes b i = Some (mk_quote (mb_ticker_id b) v)"
      "mo_side v = s" "mo_price v = rprice e"
      by (simp_all add: mk_quote_def mk_update_def)
    then have x: "oid_to_order b i = Some x" using H(2) by blast
    show "mk_order_id (the (oheap b (the (oid_to_order b i)))) = i" using x xv by simp
    show "the (oid_to_order b i) \<in> ?X" using x xv mem by (simp add: oT_def)
    show "ucast (mk_qty (the (oheap b (the (oid_to_order b i))))) = ucast (mu_qty (the (mb_quotes b i)))"
      using x xv by (simp add: mk_quote_def mk_update_def)
  next
    fix x assume "x \<in> ?X"
    then obtain v where v: "oheap b x = Some v" "mo_side v = s" "mo_price v = rprice e" using live by blast
    show "the (oid_to_order b (mk_order_id (the (oheap b x)))) = x" using v(1) H(2) by simp
    have "mb_quotes b (mk_order_id v) = Some (mk_quote (mb_ticker_id b) v)" using v(1) H(1) by blast
    then show "mk_order_id (the (oheap b x)) \<in> ?I" using v by (simp add: mk_quote_def mk_update_def)
  qed
  also have "\<dots> = (\<Sum>x \<leftarrow> rorders e. ucast (mk_qty (the (oheap b x))))"
    using ring_distinct [OF R(2)] by (simp add: sum_list_distinct_conv_sum_set)
  finally show ?thesis .
qed

lemma best_quote_ok:
  assumes ok: "mb_ok b g" and s: "s \<in> sides"
  shows "best_quote (best_of b s) b = Some (quoted_best s (mb_quotes b))"
proof (cases "g s")
  note S = ladder_okD(3) [OF mb_okD(1) [OF ok] s] note SP = mb_side_prices [OF ok s]
  case Nil
  then show ?thesis using rungs_okD(1) [OF S] SP by (simp add: best_quote_def quoted_best_def front_def)
next
  note S = ladder_okD(3) [OF mb_okD(1) [OF ok] s] note SP = mb_side_prices [OF ok s]
  case (Cons e ls)
  have R: "rung_ok (lheap b) (oheap b) s (fst e, rprice e, rorders e)" using rungs_okD(4) [OF S, of e] Cons by simp
  note R = rung_okD [OF R]
  have best: "best_of b s = Some (fst e)" using rungs_okD(1) [OF S] Cons by (simp add: front_def)
  obtain x xs where xs: "rorders e = x # xs" using R(1) by (cases "rorders e") auto
  obtain lv where lv: "lheap b (fst e) = Some lv" "lv_price lv = rprice e" "first_order lv = Some x"
    using R(3) xs by (auto elim: lCD)
  have "oN (oheap b) x = Some (hd (xs @ [x]))" using ring_head(1) R(2) xs by metis
  then obtain v where v: "oheap b x = Some v" "next_order v = Some (hd (xs @ [x]))" by (auto simp: oN_def bind_Some_conv)
  have "sum_ring (order_pool b) x (hd (xs @ [x])) (ucast (mk_qty v)) =
      Some (\<Sum>z \<leftarrow> rorders e. ucast (mk_qty (the (oheap b z))))"
    using sum_ring_ok [of "order_pool b" _ x "[]" xs] R(2) xs v(1) by simp
  moreover have "best_price s (mb_quotes b) = rprice e"
    using best_price_head [of s "rprice e" "map rprice ls", OF _ s] rungs_okD(3) [OF S] SP Cons by simp
  moreover have "quoted_best s (mb_quotes b) = (rprice e, level_qty s (rprice e) (mb_quotes b))"
    using calculation(2) SP Cons by (simp add: quoted_best_def)
  ultimately show ?thesis
    using best lv v mb_level_qty [OF ok s, of e] Cons by (simp add: best_quote_def)
qed

lemma best_quote_frame: "best_quote l (b\<lparr>mb_bbo := q\<rparr>) = best_quote l b"
  by (cases l) (simp_all add: best_quote_def)

lemma mb_ok_bbo: "mb_ok (b\<lparr>mb_bbo := q\<rparr>) g = mb_ok b g" "mb_quotes (b\<lparr>mb_bbo := q\<rparr>) = mb_quotes b"
  by (simp_all add: mb_ok_def mb_quotes_def fun_eq_iff)

lemma updateBBO_ok:
  assumes ok: "mb_ok b g"
  shows "updateBBO True True b = Some (b\<lparr>mb_bbo := quoted_bbo (mb_quotes b)\<rparr>)"
proof -
  have "best_quote (bids_by_price b) b = Some (quoted_best BUY (mb_quotes b))"
    "best_quote (asks_by_price b) b = Some (quoted_best SELL (mb_quotes b))"
    using best_quote_ok [OF ok, of BUY] best_quote_ok [OF ok, of SELL] by (simp_all add: best_of_def sides_def)
  then show ?thesis
    by (simp add: updateBBO_def best_quote_frame quoted_bbo_def split: prod.splits)
qed

subsection \<open>One update\<close>

definition mb_good :: "MarketOrderBook \<Rightarrow> bool" where
  "mb_good b \<longleftrightarrow> (\<exists>g. mb_ok b g) \<and> mb_bbo b = quoted_bbo (mb_quotes b)"

lemma mb_quotes_None:
  assumes ok: "mb_ok b g" shows "mb_quotes b i = None \<longleftrightarrow> oid_to_order b i = None"
  using mb_okD(4) [OF ok, of i] by (cases "oid_to_order b i") (auto simp: mb_quotes_oS)

lemma add_room:
  assumes ok: "mb_ok b g" and s: "mu_side u \<in> sides" and i: "mb_quotes b i = None"
    and fits: "card (level_keys ((mb_quotes b)(i \<mapsto> u))) \<le> ME_MAX_PRICE_LEVELS"
    and new: "getOrdersAtPrice (mu_price u) (mu_side u) b = None"
  shows "available (orders_at_price_pool b) \<noteq> 0"
proof -
  note B = mb_okD(1) [OF ok]
  let ?k = "(mu_side u, mu_price u)"
  have "?k \<notin> level_keys (mb_quotes b)"
    using new book_list_level(1) [OF B s, of "mu_price u"] unfolding mb_keys [OF ok] by auto
  moreover have "level_keys ((mb_quotes b)(i \<mapsto> u)) = insert ?k (level_keys (mb_quotes b))"
    using i by (simp add: level_keys_def ran_map_upd)
  moreover have "finite (level_keys (mb_quotes b))" unfolding mb_keys [OF ok] by (simp add: sides_def)
  ultimately show ?thesis using fits mb_level_count [OF ok] by simp
qed

lemma resting_quote:
  assumes ok: "mb_ok b g" and q: "mb_quotes b i = Some v"
  obtains x w where "oid_to_order b i = Some x" "oheap b x = Some w" "mo_side w = mu_side v" "mo_price w = mu_price v"
  using q by (auto simp: mb_quotes_def bind_Some_conv mk_quote_def mk_update_def)

text \<open>The update is taken by the book; then the best bid and offer are computed afresh.\<close>

lemma finish_update:
  assumes "update_rejected u b = Some False" "mu_type u \<noteq> Mkt_TRADE" "apply_update u b = Some b1" "mb_ok b1 g1"
    "mb_quotes b1 = q" "mb_ticker_id b1 = mb_ticker_id b"
  shows "\<exists>b'. onMarketUpdate u b = Some (True, BookChanged, b') \<and> mb_good b' \<and> mb_quotes b' = q \<and> mb_ticker_id b' = mb_ticker_id b"
  using assms updateBBO_ok [OF assms(4)]
  by (intro exI [of _ "b1\<lparr>mb_bbo := quoted_bbo (mb_quotes b1)\<rparr>"]) (auto simp: onMarketUpdate_def mb_good_def mb_ok_bbo)

text \<open>Whatever arrives, the book either refuses it unchanged or stays in good order.\<close>

lemma onMarketUpdate_total:
  assumes good: "mb_good b"
  shows "\<exists>taken nt b'. onMarketUpdate u b = Some (taken, nt, b') \<and> mb_good b' \<and> mb_ticker_id b' = mb_ticker_id b \<and>
     (\<not> taken \<longrightarrow> b' = b)"
proof -
  obtain g where ok: "mb_ok b g" using good by (auto simp: mb_good_def)
  have "update_rejected u b \<noteq> None"
  proof (cases "oid_to_order b (mu_order_id u)")
    case (Some x)
    then obtain v where "oheap b x = Some v" using mb_okD(4) [OF ok, of "mu_order_id u" x] by (auto simp: oS_def)
    with Some show ?thesis by (simp add: update_rejected_def Let_def del: not_None_eq)
  qed (simp add: update_rejected_def Let_def del: not_None_eq)
  then obtain c where c: "update_rejected u b = Some c" by blast
  show ?thesis
  proof (cases "c \<or> mu_type u = Mkt_TRADE")
    case True
    then show ?thesis using c good by (auto simp: onMarketUpdate_def)
  next
    case False
    then have c: "update_rejected u b = Some False" and nt: "mu_type u \<noteq> Mkt_TRADE" using c by auto
    have "\<exists>b1 g1. apply_update u b = Some b1 \<and> mb_ok b1 g1 \<and> mb_ticker_id b1 = mb_ticker_id b"
    proof (cases "mu_type u = Mkt_ADD \<or> mu_type u = Mkt_MODIFY \<or> mu_type u = Mkt_CANCEL")
      case True
      have id: "id_valid (mu_order_id u)" and t: "mu_ticker_id u = mb_ticker_id b"
        using c True by (auto simp: update_rejected_def id_valid_def split: if_splits)
      show ?thesis
      proof (cases "mu_type u = Mkt_ADD")
        case True
        with c id t have "mu_side u \<in> sides" "oid_to_order b (mu_order_id u) = None"
          "getOrdersAtPrice (mu_price u) (mu_side u) b = None \<Longrightarrow> available (orders_at_price_pool b) \<noteq> 0"
          by (auto simp: update_rejected_def id_valid_def sides_def Let_def split: if_splits)
        from mb_addOrder_ok [OF ok this(1) id True t this(2,3)] show ?thesis by blast
      next
        case False
        then obtain x where x: "oid_to_order b (mu_order_id u) = Some x"
          using c id t True by (auto simp: update_rejected_def id_valid_def Let_def split: if_splits option.splits)
        then obtain q where q: "mb_quotes b (mu_order_id u) = Some q" using mb_quotes_None [OF ok] by (cases "mb_quotes b (mu_order_id u)") auto
        show ?thesis
          using mb_removeOrder_ok [OF ok x] mb_modify_ok [OF ok x q, of "mu_qty u"] x False True
          by (cases "mu_type u = Mkt_CANCEL") (auto simp: apply_update_def)
      qed
    next
      case False
      then show ?thesis using clear_book_ok [OF ok] ok nt by (cases "mu_type u") (auto simp: apply_update_def)
    qed
    then obtain b1 g1 where "apply_update u b = Some b1" "mb_ok b1 g1" "mb_ticker_id b1 = mb_ticker_id b" by blast
    with finish_update [OF c nt this(1,2) refl this(3)] show ?thesis by auto
  qed
qed

lemma consistent_update:
  assumes good: "mb_good b" and t: "mb_ticker_id b = mu_ticker_id u" and q: "mb_quotes b = Q (unat (mu_ticker_id u))"
    and st: "quote_step u Q = Some Q'"
    and room: "mu_type u = Mkt_ADD \<Longrightarrow> getOrdersAtPrice (mu_price u) (mu_side u) b = None \<Longrightarrow> available (orders_at_price_pool b) \<noteq> 0"
  shows "\<exists>nt b'. onMarketUpdate u b = Some (True, nt, b') \<and> mb_good b' \<and> mb_quotes b' = Q' (unat (mu_ticker_id u)) \<and>
     mb_ticker_id b' = mb_ticker_id b"
proof -
  obtain g where ok: "mb_ok b g" using good by (auto simp: mb_good_def)
  show ?thesis using st
  proof (cases rule: quote_stepE)
    case Clear
    from clear_book_ok [OF ok] obtain b1 where b1: "clear_book b = Some b1" "mb_ok b1 (\<lambda>_. [])" "mb_quotes b1 = (\<lambda>_. None)"
      "mb_ticker_id b1 = mb_ticker_id b" by blast
    then show ?thesis using finish_update [of u b b1 "\<lambda>_. []" "\<lambda>_. None"] Clear t
      by (auto simp: update_rejected_def apply_update_def)
  next
    case Trade
    then show ?thesis using good q t by (simp add: onMarketUpdate_def update_rejected_def)
  next
    case Add
    let ?i = "mu_order_id u"
    have s: "mu_side u \<in> sides" using Add(2) by (auto simp: add_valid_def side_valid_def sides_def)
    have none: "mb_quotes b ?i = None" using Add(3) q by simp
    then have fresh: "oid_to_order b ?i = None" by (simp add: mb_quotes_None [OF ok])
    have Q': "Q' (unat (mu_ticker_id u)) = (mb_quotes b)(?i \<mapsto> u)" using Add(4) q by (simp add: quote_put_def)
    note room = room [OF Add(1)]
    obtain b1 g1 where b1: "apply_update u b = Some b1" "mb_ok b1 g1" "mb_quotes b1 = (mb_quotes b)(?i \<mapsto> u)"
      "mb_ticker_id b1 = mb_ticker_id b"
      using mb_addOrder_ok [OF ok s _ Add(1) t [symmetric] fresh room] Add(2) by (auto simp: add_valid_def)
    have "update_rejected u b = Some False"
      using Add(1,2) fresh t mb_live_count [OF ok] room
      by (cases "getOrdersAtPrice (mu_price u) (mu_side u) b")
        (auto simp: update_rejected_def add_valid_def id_valid_def side_valid_def price_valid_def qty_valid_def)
    from finish_update [OF this _ b1] Add(1) show ?thesis unfolding Q' by auto
  next
    case (Cancel v)
    let ?i = "mu_order_id u"
    have some: "mb_quotes b ?i = Some v" using Cancel(3) q by simp
    then obtain x w where xw: "oid_to_order b ?i = Some x" "oheap b x = Some w" "mo_side w = mu_side v" "mo_price w = mu_price v"
      by (rule resting_quote [OF ok])
    obtain b1 g1 where b1: "mb_removeOrder x b = Some b1" "mb_ok b1 g1" "mb_quotes b1 = (mb_quotes b)(?i := None)"
      "mb_ticker_id b1 = mb_ticker_id b"
      using mb_removeOrder_ok [OF ok xw(1)] by blast
    have "update_rejected u b = Some False" using Cancel xw t by (auto simp: update_rejected_def id_valid_def)
    moreover have "apply_update u b = Some b1" using Cancel(1) xw(1) b1(1) by (simp add: apply_update_def)
    ultimately show ?thesis using finish_update [of u b b1 g1, OF _ _ _ b1(2-4)] Cancel q by (auto simp: quote_put_def)
  next
    case (Modify v)
    let ?i = "mu_order_id u"
    have some: "mb_quotes b ?i = Some v" using Modify(3) q by simp
    then obtain x w where xw: "oid_to_order b ?i = Some x" "oheap b x = Some w" "mo_side w = mu_side v" "mo_price w = mu_price v"
      by (rule resting_quote [OF ok])
    obtain b1 where b1: "upd_order x (\<lambda>v. v\<lparr>mk_qty := mu_qty u\<rparr>) b = Some b1" "mb_ok b1 g"
      "mb_quotes b1 = (mb_quotes b)(?i \<mapsto> v\<lparr>mu_qty := mu_qty u\<rparr>)" "mb_ticker_id b1 = mb_ticker_id b"
      using mb_modify_ok [OF ok xw(1) some] by blast
    have "update_rejected u b = Some False" using Modify xw t by (auto simp: update_rejected_def id_valid_def qty_valid_def)
    moreover have "apply_update u b = Some b1" using Modify(1) xw(1) b1(1) by (simp add: apply_update_def)
    ultimately show ?thesis using finish_update [of u b b1 g, OF _ _ _ b1(2-4)] Modify q by (auto simp: quote_put_def)
  qed
qed

definition book_fits :: "Quotes \<Rightarrow> bool" where
  "book_fits Q \<longleftrightarrow> (\<forall>t. card (level_keys (Q t)) \<le> ME_MAX_PRICE_LEVELS)"

lemma onMarketUpdate_ok:
  assumes good: "mb_good b" and t: "mb_ticker_id b = mu_ticker_id u" and q: "mb_quotes b = Q (unat (mu_ticker_id u))"
    and st: "quote_step u Q = Some Q'" and fits: "book_fits Q'"
  shows "\<exists>nt b'. onMarketUpdate u b = Some (True, nt, b') \<and> mb_good b' \<and> mb_quotes b' = Q' (unat (mu_ticker_id u)) \<and>
     mb_ticker_id b' = mb_ticker_id b"
proof (rule consistent_update [OF good t q st])
  assume a: "mu_type u = Mkt_ADD" and new: "getOrdersAtPrice (mu_price u) (mu_side u) b = None"
  have u: "add_valid u" "mb_quotes b (mu_order_id u) = None" "Q' (unat (mu_ticker_id u)) = (mb_quotes b)(mu_order_id u \<mapsto> u)"
    using st a q by (auto simp: quote_step_def quote_put_def Let_def split: if_splits)
  obtain g where ok: "mb_ok b g" using good by (auto simp: mb_good_def)
  have "card (level_keys ((mb_quotes b)(mu_order_id u \<mapsto> u))) \<le> ME_MAX_PRICE_LEVELS"
    using fits unfolding book_fits_def u(3) [symmetric] by blast
  then show "available (orders_at_price_pool b) \<noteq> 0"
    using add_room [OF ok _ u(2) _ new] u(1) by (auto simp: add_valid_def side_valid_def sides_def)
qed

text \<open>The book has its own check for room: an update that it takes has the effect it should have.\<close>

lemma taken_update:
  assumes good: "mb_good b" and t: "mb_ticker_id b = mu_ticker_id u" and q: "mb_quotes b = Q (unat (mu_ticker_id u))"
    and st: "quote_step u Q = Some Q'" and taken: "onMarketUpdate u b = Some (True, nt, b')"
  shows "mb_quotes b' = Q' (unat (mu_ticker_id u))"
proof -
  have "update_rejected u b = Some False" using taken by (auto simp: onMarketUpdate_def bind_Some_conv split: if_splits)
  then have "mu_type u = Mkt_ADD \<Longrightarrow> getOrdersAtPrice (mu_price u) (mu_side u) b = None \<Longrightarrow> available (orders_at_price_pool b) \<noteq> 0"
    by (auto simp: update_rejected_def Let_def split: if_splits)
  from consistent_update [OF good t q st this] taken show ?thesis by auto
qed

subsection \<open>The books of a client\<close>

text \<open>The array of books, one for each ticker; a rejected update is \<open>None\<close>.\<close>

definition client_step :: "MEMarketUpdate \<Rightarrow> (nat \<Rightarrow> MarketOrderBook) \<Rightarrow> (nat \<Rightarrow> MarketOrderBook) option" where
  "client_step u B = (let t = unat (mu_ticker_id u) in
     Option.bind (onMarketUpdate u (B t)) (\<lambda>(taken, _, b). if taken then Some (B(t := b)) else None))"

definition client_view :: "(nat \<Rightarrow> MarketOrderBook) \<Rightarrow> Quotes" where
  "client_view B t = (if t < ME_MAX_TICKERS then mb_quotes (B t) else (\<lambda>_. None))"

definition client_ok :: "(nat \<Rightarrow> MarketOrderBook) \<Rightarrow> bool" where
  "client_ok B \<longleftrightarrow> (\<forall>t < ME_MAX_TICKERS. mb_good (B t) \<and> mb_ticker_id (B t) = of_nat t)"

lemma client_step_refines:
  assumes ok: "client_ok B" and st: "quote_step u (client_view B) = Some Q" and fits: "book_fits Q"
  shows "\<exists>B'. client_step u B = Some B' \<and> client_ok B' \<and> client_view B' = Q"
proof -
  let ?t = "unat (mu_ticker_id u)"
  have t: "?t < ME_MAX_TICKERS" using quote_step_ticker [OF st] .
  have other: "t \<noteq> ?t \<Longrightarrow> Q t = client_view B t" for t using st by (cases rule: quote_stepE) (auto simp: quote_put_def)
  have "mb_good (B ?t)" "mb_ticker_id (B ?t) = mu_ticker_id u" "mb_quotes (B ?t) = client_view B ?t"
    using ok t by (simp_all add: client_ok_def client_view_def)
  from onMarketUpdate_ok [OF this st fits] obtain nt b where
    b: "onMarketUpdate u (B ?t) = Some (True, nt, b)" "mb_good b" "mb_quotes b = Q ?t" "mb_ticker_id b = mb_ticker_id (B ?t)" by blast
  have "client_step u B = Some (B(?t := b))" using b(1) by (simp add: client_step_def)
  moreover have "client_ok (B(?t := b))" using ok b(2,4) by (simp add: client_ok_def)
  moreover have "client_view (B(?t := b)) = Q"
  proof
    fix t show "client_view (B(?t := b)) t = Q t"
      using other [of t] b(3) t by (cases "t = ?t") (simp_all add: client_view_def)
  qed
  ultimately show ?thesis by blast
qed

text \<open>Conversely, books that take a consistent stream hold its quotes afterwards.\<close>

lemma client_step_total:
  assumes "client_ok B" "client_step u B = Some B'" "unat (mu_ticker_id u) < ME_MAX_TICKERS"
  shows "client_ok B'"
proof -
  let ?t = "unat (mu_ticker_id u)"
  obtain nt b where b: "onMarketUpdate u (B ?t) = Some (True, nt, b)" "B' = B(?t := b)"
    using assms(2) by (auto simp: client_step_def Let_def bind_Some_conv split: if_splits)
  have "mb_good (B ?t)" using assms(1,3) by (simp add: client_ok_def)
  from onMarketUpdate_total [OF this, of u] b(1) have "mb_good b" "mb_ticker_id b = mb_ticker_id (B ?t)" by auto
  then show ?thesis using assms(1) unfolding b(2) by (simp add: client_ok_def)
qed

lemma client_step_follows:
  assumes ok: "client_ok B" and st: "quote_step u (client_view B) = Some Q" and c: "client_step u B = Some B'"
  shows "client_view B' = Q"
proof -
  let ?t = "unat (mu_ticker_id u)"
  have t: "?t < ME_MAX_TICKERS" using quote_step_ticker [OF st] .
  obtain nt b where b: "onMarketUpdate u (B ?t) = Some (True, nt, b)" "B' = B(?t := b)"
    using c by (auto simp: client_step_def Let_def bind_Some_conv split: if_splits)
  have "mb_good (B ?t)" "mb_ticker_id (B ?t) = mu_ticker_id u" "mb_quotes (B ?t) = client_view B ?t"
    using ok t by (simp_all add: client_ok_def client_view_def)
  from taken_update [OF this st b(1)] have q: "mb_quotes b = Q ?t" .
  have "r \<noteq> ?t \<Longrightarrow> Q r = client_view B r" for r using st by (cases rule: quote_stepE) (auto simp: quote_put_def)
  then show ?thesis using q t unfolding b(2) by (intro ext) (auto simp: client_view_def)
qed

lemma client_replay_follows:
  "client_ok B \<Longrightarrow> replay quote_step us (client_view B) = Some Q \<Longrightarrow> replay client_step us B = Some B' \<Longrightarrow>
   client_ok B' \<and> client_view B' = Q"
proof (induct us arbitrary: B)
  case (Cons u us)
  then obtain R B1 where "quote_step u (client_view B) = Some R" "replay quote_step us R = Some Q"
    "client_step u B = Some B1" "replay client_step us B1 = Some B'" by (auto simp: bind_Some_conv)
  with Cons.hyps [of B1] show ?case
    using client_step_follows [OF Cons.prems(1)] client_step_total [OF Cons.prems(1)] quote_step_ticker by blast
qed simp

interpretation client: replica client_step client_view client_ok "\<lambda>_. True" book_fits
  by unfold_locales (rule client_step_refines)

lemma MarketOrderBook_new_ok: "\<exists>b. MarketOrderBook_new t = Some b"
proof -
  have "0 < ME_MAX_PRICE_LEVELS" "ME_MAX_PRICE_LEVELS \<le> UINT32_MAX" "0 < ME_MAX_ORDER_IDS" "ME_MAX_ORDER_IDS \<le> UINT32_MAX"
    by (simp_all add: limits)
  then obtain lp op where "MemPool_new ME_MAX_PRICE_LEVELS = Some (lp :: OrdersAtPrice MemPool)"
    "MemPool_new ME_MAX_ORDER_IDS = Some (op :: MarketOrder MemPool)"
    using MemPool_new_ok by meson
  then show ?thesis by (simp add: MarketOrderBook_new_def MarketOrderBook_make_def)
qed

lemma MarketOrderBook_new_good:
  assumes "MarketOrderBook_new t = Some b"
  shows "mb_good b" "mb_quotes b = (\<lambda>_. None)" "mb_ticker_id b = t"
proof -
  obtain lp op where p: "MemPool_new ME_MAX_PRICE_LEVELS = Some lp" "MemPool_new ME_MAX_ORDER_IDS = Some op"
    and b: "b = \<lparr>orders_at_price_pool = lp, bids_by_price = None, asks_by_price = None, price_orders_at_price = (\<lambda>_. None),
       order_pool = op, mb_ticker_id = t, oid_to_order = (\<lambda>_. None), live_order_ids = {}, mb_bbo = BBO_default\<rparr>"
    using assms unfolding MarketOrderBook_new_def MarketOrderBook_make_def by (auto simp: bind_Some_conv)
  note N = MemPool_new_Some [OF p(1)] MemPool_new_Some [OF p(2)]
  have "ladder_ok b {} (\<lambda>_. [])" by (rule ladder_ok_empty) (use N in \<open>simp_all add: b\<close>)
  then have "mb_ok b (\<lambda>_. [])" using N by (simp add: mb_ok_def b oS_def)
  moreover show q: "mb_quotes b = (\<lambda>_. None)" by (simp add: b mb_quotes_def fun_eq_iff)
  moreover have "quoted_bbo (\<lambda>_. None) = BBO_default" by (simp add: quoted_bbo_def quoted_best_def side_prices_def BBO_default_def ran_def)
  ultimately show "mb_good b" unfolding mb_good_def by (auto simp: b)
  show "mb_ticker_id b = t" by (simp add: b)
qed

lemma client_start:
  assumes "\<forall>t < ME_MAX_TICKERS. MarketOrderBook_new (of_nat t) = Some (B t)"
  shows "client_ok B" "client_view B = no_quotes"
  using assms MarketOrderBook_new_good by (auto simp: client_ok_def client_view_def no_quotes_def fun_eq_iff)

text \<open>C32: the client's books follow the feed. From freshly constructed books, a consistent stream of market updates is
  taken without a rejection, a pointer error or an endless walk; afterwards every book holds exactly the quotes of the
  stream for its ticker, and its best bid and offer are the best prices with the total quantities quoted there. The
  stream may use at most \<open>ME_MAX_PRICE_LEVELS\<close> price levels of a book at a time.\<close>

theorem client_books_follow:
  assumes "\<forall>t < ME_MAX_TICKERS. MarketOrderBook_new (of_nat t) = Some (B t)" "replay quote_step us no_quotes = Some Q"
    "\<forall>n R. replay quote_step (take n us) no_quotes = Some R \<longrightarrow> book_fits R"
  shows "\<exists>B'. replay client_step us B = Some B' \<and>
     (\<forall>t < ME_MAX_TICKERS. mb_quotes (B' t) = Q t \<and> mb_bbo (B' t) = quoted_bbo (Q t))"
proof -
  note S = client_start [OF assms(1)]
  have "list_all (\<lambda>_. True) us" by (induct us) auto
  then obtain B' where B': "replay client_step us B = Some B'" "client_ok B'" "client_view B' = Q"
    using client.replay_refines [of us B Q] S assms(2,3) by auto
  have "mb_quotes (B' t) = Q t \<and> mb_bbo (B' t) = quoted_bbo (Q t)" if "t < ME_MAX_TICKERS" for t
    using B'(2,3) that by (auto simp: client_ok_def client_view_def mb_good_def)
  with B'(1) show ?thesis by blast
qed

lemma level_keys_le: "finite (dom q) \<Longrightarrow> card (level_keys q) \<le> card (dom q)"
  unfolding level_keys_def ran_image image_image by (rule card_image_le)

lemma client_books_follow_witness:
  "\<exists>B B'. (\<forall>t < ME_MAX_TICKERS. MarketOrderBook_new (of_nat t) = Some (B t)) \<and>
     replay client_step [mk_update Mkt_ADD 1 2 BUY 100 10 1, mk_update Mkt_MODIFY 1 2 BUY 100 4 1] B = Some B' \<and>
     mb_bbo (B' 2) = \<lparr>bid_price = 100, ask_price = Price_INVALID, bid_qty = 4, ask_qty = BookQty_INVALID\<rparr>"
proof -
  let ?us = "[mk_update Mkt_ADD 1 2 BUY 100 10 1, mk_update Mkt_MODIFY 1 2 BUY 100 4 1]"
  let ?u = "mk_update Mkt_ADD 1 2 BUY 100 4 1"
  let ?Q = "quote_put 2 1 (Some ?u) (quote_put 2 1 (Some (mk_update Mkt_ADD 1 2 BUY 100 10 1)) no_quotes)"
  obtain B where B: "\<forall>t < ME_MAX_TICKERS. MarketOrderBook_new (of_nat t) = Some (B t)"
    using that [of "\<lambda>t. the (MarketOrderBook_new (of_nat t))"] MarketOrderBook_new_ok by (metis option.sel)
  have r: "replay quote_step ?us no_quotes = Some ?Q"
    by (simp add: quote_step_def Let_def add_valid_def id_valid_def qty_valid_def price_valid_def side_valid_def limits
        no_quotes_def quote_put_def mk_update_def)
  have "book_fits R" if "replay quote_step (take n ?us) no_quotes = Some R" for n R
  proof -
    have "R = no_quotes \<or> (\<exists>u. R = no_quotes(2 := [1 \<mapsto> u]))"
      using that r by (cases n; cases "n - 1")
        (auto simp: quote_step_def Let_def add_valid_def id_valid_def qty_valid_def price_valid_def side_valid_def limits
          no_quotes_def quote_put_def mk_update_def)
    then have "finite (dom (R t)) \<and> card (dom (R t)) \<le> 1" for t by (auto simp: no_quotes_def)
    then show ?thesis using level_keys_le by (fastforce simp: book_fits_def limits intro: order_trans)
  qed
  with client_books_follow [OF B r] obtain B' where B': "replay client_step ?us B = Some B'"
    "\<forall>t < ME_MAX_TICKERS. mb_bbo (B' t) = quoted_bbo (?Q t)" by blast
  have "?Q 2 = [1 \<mapsto> ?u]" by (simp add: quote_put_def no_quotes_def)
  then have "mb_bbo (B' 2) = quoted_bbo [1 \<mapsto> ?u]" using B'(2) by (simp add: limits)
  moreover have "side_prices BUY [1 \<mapsto> ?u] = {100}" "side_prices SELL [1 \<mapsto> ?u] = {}"
    "{i. \<exists>u. [1 \<mapsto> ?u] i = Some u \<and> mu_side u = BUY \<and> mu_price u = 100} = {1}"
    by (auto simp: side_prices_def mk_update_def split: if_splits)
  ultimately have "mb_bbo (B' 2) = \<lparr>bid_price = 100, ask_price = Price_INVALID, bid_qty = 4, ask_qty = BookQty_INVALID\<rparr>"
    by (simp add: quoted_bbo_def quoted_best_def best_price_def level_qty_def)
  with B B'(1) show ?thesis by blast
qed

end
