(* ===== verification/Doubles.thy ===== *)
theory Doubles
  imports Prelude Complex_Main "HOL-Library.Log_Nat"
begin

text \<open>
  The \<open>double\<close> of the trading client: IEEE 754 binary64 with rounding to nearest, ties to even. A finite value is the
  rational number it denotes. The sign of a zero is not represented: no expression of the sources divides by a
  floating point zero.
\<close>

datatype double = NaN | Infinite bool | Finite rat

definition pow2 :: "int \<Rightarrow> rat" where
  "pow2 e = (if 0 \<le> e then 2 ^ nat e else 1 / 2 ^ nat (- e))"

definition round_even :: "rat \<Rightarrow> int" where
  "round_even x = (let f = \<lfloor>x\<rfloor>; d = x - of_int f in
     if d < 1 / 2 then f else if 1 / 2 < d then f + 1 else if even f then f else f + 1)"

text \<open>The binary exponent of a non-zero number.\<close>

definition exponent :: "rat \<Rightarrow> int" where
  "exponent x = (let (p, q) = quotient_of \<bar>x\<bar>; d = bitlen p - bitlen q in
     if pow2 d \<le> \<bar>x\<bar> then d else d - 1)"

definition round_double :: "rat \<Rightarrow> double" where
  "round_double x =
     (if x = 0 then Finite 0
      else let ulp = pow2 (max (exponent x) (- 1022) - 52); y = of_int (round_even (x / ulp)) * ulp in
        if pow2 1024 \<le> \<bar>y\<bar> then Infinite (y < 0) else Finite y)"

definition double_of_int :: "int \<Rightarrow> double" where
  "double_of_int i = round_double (of_int i)"

fun dneg :: "double \<Rightarrow> double" where
  "dneg NaN = NaN"
| "dneg (Infinite s) = Infinite (\<not> s)"
| "dneg (Finite x) = Finite (- x)"

fun dadd :: "double \<Rightarrow> double \<Rightarrow> double" where
  "dadd (Finite x) (Finite y) = round_double (x + y)"
| "dadd (Infinite s) (Infinite t) = (if s = t then Infinite s else NaN)"
| "dadd (Infinite s) (Finite _) = Infinite s"
| "dadd (Finite _) (Infinite t) = Infinite t"
| "dadd _ _ = NaN"

definition dsub :: "double \<Rightarrow> double \<Rightarrow> double" where
  "dsub x y = dadd x (dneg y)"

fun dmul :: "double \<Rightarrow> double \<Rightarrow> double" where
  "dmul (Finite x) (Finite y) = round_double (x * y)"
| "dmul (Infinite s) (Infinite t) = Infinite (s \<noteq> t)"
| "dmul (Infinite s) (Finite y) = (if y = 0 then NaN else Infinite (s \<noteq> (y < 0)))"
| "dmul (Finite x) (Infinite t) = (if x = 0 then NaN else Infinite ((x < 0) \<noteq> t))"
| "dmul _ _ = NaN"

fun ddiv :: "double \<Rightarrow> double \<Rightarrow> double" where
  "ddiv (Finite x) (Finite y) = (if y = 0 then (if x = 0 then NaN else Infinite (x < 0)) else round_double (x / y))"
| "ddiv (Infinite s) (Finite y) = Infinite (s \<noteq> (y < 0))"
| "ddiv (Finite _) (Infinite _) = Finite 0"
| "ddiv _ _ = NaN"

fun dless :: "double \<Rightarrow> double \<Rightarrow> bool" where
  "dless (Finite x) (Finite y) = (x < y)"
| "dless (Infinite s) (Infinite t) = (s \<and> \<not> t)"
| "dless (Infinite s) (Finite _) = s"
| "dless (Finite _) (Infinite t) = (\<not> t)"
| "dless _ _ = False"

fun dle :: "double \<Rightarrow> double \<Rightarrow> bool" where
  "dle (Finite x) (Finite y) = (x \<le> y)"
| "dle (Infinite s) (Infinite t) = (s \<or> \<not> t)"
| "dle (Infinite s) (Finite _) = s"
| "dle (Finite _) (Infinite t) = (\<not> t)"
| "dle _ _ = False"

definition is_finite :: "double \<Rightarrow> bool" where
  "is_finite x = (case x of Finite _ \<Rightarrow> True | _ \<Rightarrow> False)"

lemma is_finite_simps [simp]: "\<not> is_finite NaN" "\<not> is_finite (Infinite s)" "is_finite (Finite x)"
  by (simp_all add: is_finite_def)

text \<open>A signed 64-bit result; overflow is undefined behaviour.\<close>

definition int64 :: "int \<Rightarrow> int option" where
  "int64 x = (if - (2 ^ 63) \<le> x \<and> x < 2 ^ 63 then Some x else None)"

lemma int64_small: "\<bar>x\<bar> \<le> 2 ^ 62 \<Longrightarrow> int64 x = Some x"
  by (auto simp: int64_def)

end
