(* ===== verification/Position_Keeper.thy ===== *)
theory Position_Keeper
  imports Market_Order_Book Doubles
begin

text \<open>
  \<^verbatim>\<open>src/trading/strategy/position_keeper.h\<close>: position, volume and profit of each ticker. \<open>None\<close> is a signed overflow, an
  index outside an array, or the \<open>std::out_of_range\<close> of \<open>at\<close>. The pointer \<open>bbo_\<close> is read by the text form only and has
  no field here.
\<close>

record PositionInfo =
  position :: int
  real_pnl :: double
  unreal_pnl :: double
  total_pnl :: double
  open_vwap :: "nat \<Rightarrow> double"
  volume :: u64

definition PositionInfo_default :: PositionInfo where
  "PositionInfo_default = \<lparr>position = 0, real_pnl = Finite 0, unreal_pnl = Finite 0, total_pnl = Finite 0,
     open_vwap = (\<lambda>_. Finite 0), volume = 0\<rparr>"

text \<open>The value of the open position at a price: \<open>(price - vwap / |position|) * |position|\<close>, or the reverse for a short
  position.\<close>

definition unrealized :: "double \<Rightarrow> PositionInfo \<Rightarrow> double option" where
  "unrealized price i = do {
     size \<leftarrow> int64 \<bar>position i\<bar>;
     let n = double_of_int size;
     Some (if position i > 0 then dmul (dsub price (ddiv (open_vwap i (sideToIndex BUY)) n)) n
           else dmul (dsub (ddiv (open_vwap i (sideToIndex SELL)) n) price) n) }"

text \<open>The part of \<open>addFill\<close> for a fill against the open position: the closed part is realized at the average price of
  the position, and a fill larger than the position opens the other side.\<close>

definition reduce_position :: "MEClientResponse \<Rightarrow> int \<Rightarrow> PositionInfo \<Rightarrow> PositionInfo option" where
  "reduce_position r old i = do {
     let side_index = sideToIndex (rs_side r);
     let opp_side_index = sideToIndex (if rs_side r = BUY then SELL else BUY);
     let price = double_of_int (rs_price r);
     old_size \<leftarrow> int64 \<bar>old\<bar>;
     size \<leftarrow> int64 \<bar>position i\<bar>;
     let opp_side_vwap = ddiv (open_vwap i opp_side_index) (double_of_int old_size);
     let reduced = min (uint (rs_exec_qty r)) old_size;
     let i = i\<lparr>open_vwap := (open_vwap i)(opp_side_index := dmul opp_side_vwap (double_of_int size)),
               real_pnl := dadd (real_pnl i) (dmul (dmul (double_of_int reduced) (dsub opp_side_vwap price))
                 (double_of_int (sideToValue (rs_side r))))\<rparr>;
     crossed \<leftarrow> int64 (position i * old);
     if crossed < 0 then
       (if side_index < 4 then
          Some (i\<lparr>open_vwap := (open_vwap i)(side_index := dmul price (double_of_int size), opp_side_index := Finite 0)\<rparr>)
        else None)
     else Some i }"

definition fill_vwap :: "MEClientResponse \<Rightarrow> int \<Rightarrow> PositionInfo \<Rightarrow> PositionInfo option" where
  "fill_vwap r old i = do {
     let side_index = sideToIndex (rs_side r);
     same_side \<leftarrow> int64 (old * sideToValue (rs_side r));
     if same_side \<ge> 0 then
       (if side_index < 4 then
          Some (i\<lparr>open_vwap := (open_vwap i)(side_index := dadd (open_vwap i side_index)
            (dmul (double_of_int (rs_price r)) (double_of_int (uint (rs_exec_qty r)))))\<rparr>)
        else None)
     else reduce_position r old i }"

definition fill_unrealized :: "MEClientResponse \<Rightarrow> PositionInfo \<Rightarrow> PositionInfo option" where
  "fill_unrealized r i =
     (if position i = 0 then
        Some (i\<lparr>open_vwap := (open_vwap i)(sideToIndex BUY := Finite 0, sideToIndex SELL := Finite 0),
                unreal_pnl := Finite 0\<rparr>)
      else do { u \<leftarrow> unrealized (double_of_int (rs_price r)) i; Some (i\<lparr>unreal_pnl := u\<rparr>) })"

definition addFill :: "MEClientResponse \<Rightarrow> PositionInfo \<Rightarrow> PositionInfo option" where
  "addFill r i = do {
     new \<leftarrow> int64 (position i + uint (rs_exec_qty r) * sideToValue (rs_side r));
     j \<leftarrow> fill_vwap r (position i) (i\<lparr>position := new, volume := volume i + ucast (rs_exec_qty r)\<rparr>);
     j \<leftarrow> fill_unrealized r j;
     Some (j\<lparr>total_pnl := dadd (unreal_pnl j) (real_pnl j)\<rparr>) }"

definition position_updateBBO :: "BBO \<Rightarrow> PositionInfo \<Rightarrow> PositionInfo option" where
  "position_updateBBO bbo i =
     (if position i \<noteq> 0 \<and> bid_price bbo \<noteq> Price_INVALID \<and> ask_price bbo \<noteq> Price_INVALID then do {
        let mid_price = dmul (dadd (double_of_int (bid_price bbo)) (double_of_int (ask_price bbo))) (Finite (1 / 2));
        u \<leftarrow> unrealized mid_price i;
        let i = i\<lparr>unreal_pnl := u\<rparr>;
        Some (i\<lparr>total_pnl := dadd (unreal_pnl i) (real_pnl i)\<rparr>) }
      else Some i)"

type_synonym PositionKeeper = "nat \<Rightarrow> PositionInfo"

definition PositionKeeper_new :: PositionKeeper where
  "PositionKeeper_new = (\<lambda>_. PositionInfo_default)"

definition pk_addFill :: "MEClientResponse \<Rightarrow> PositionKeeper \<Rightarrow> PositionKeeper option" where
  "pk_addFill r k = (let t = unat (rs_ticker_id r) in
     if t < ME_MAX_TICKERS then map_option (\<lambda>i. k(t := i)) (addFill r (k t)) else None)"

definition pk_updateBBO :: "TickerId \<Rightarrow> BBO \<Rightarrow> PositionKeeper \<Rightarrow> PositionKeeper option" where
  "pk_updateBBO ticker bbo k = (let t = unat ticker in
     if t < ME_MAX_TICKERS then map_option (\<lambda>i. k(t := i)) (position_updateBBO bbo (k t)) else None)"

subsection \<open>Positions and volumes\<close>

lemma unrealized_ok: "\<bar>position i\<bar> \<le> 2 ^ 62 \<Longrightarrow> \<exists>u. unrealized p i = Some u"
  by (simp add: unrealized_def int64_small Let_def)

lemma reduce_position_ok:
  assumes "\<bar>position i\<bar> \<le> 2 ^ 31" "\<bar>old\<bar> \<le> 2 ^ 31" "sideToIndex (rs_side r) < 4"
  shows "\<exists>j. reduce_position r old i = Some j \<and> position j = position i \<and> volume j = volume i"
proof -
  have "\<bar>position i\<bar> * \<bar>old\<bar> \<le> 2 ^ 31 * 2 ^ 31" using assms by (intro mult_mono) auto
  then have "int64 (position i * old) = Some (position i * old)" by (intro int64_small) (simp add: abs_mult)
  then show ?thesis using assms by (simp add: reduce_position_def int64_small Let_def)
qed

lemma fill_vwap_ok:
  assumes "\<bar>position i\<bar> \<le> 2 ^ 31" "\<bar>old\<bar> \<le> 2 ^ 31" "rs_side r \<in> {BUY, SELL}"
  shows "\<exists>j. fill_vwap r old i = Some j \<and> position j = position i \<and> volume j = volume i"
proof -
  have "\<bar>old * sideToValue (rs_side r)\<bar> \<le> 2 ^ 62" using assms(2,3) by (auto simp: abs_mult)
  moreover have "sideToIndex (rs_side r) < 4" using assms(3) by auto
  ultimately show ?thesis using reduce_position_ok [OF assms(1,2)] by (simp add: fill_vwap_def int64_small Let_def)
qed

lemma fill_unrealized_ok:
  assumes "\<bar>position i\<bar> \<le> 2 ^ 62"
  shows "\<exists>j. fill_unrealized r i = Some j \<and> position j = position i \<and> volume j = volume i"
proof -
  obtain u where "unrealized (double_of_int (rs_price r)) i = Some u" using unrealized_ok [OF assms] by blast
  then show ?thesis by (simp add: fill_unrealized_def)
qed

text \<open>With positions of at most 31 bits a fill cannot overflow, and moves the position by its signed quantity.\<close>

lemma addFill_ok:
  assumes i: "\<bar>position i\<bar> \<le> 2 ^ 31" and s: "rs_side r \<in> {BUY, SELL}"
    and new: "\<bar>position i + uint (rs_exec_qty r) * sideToValue (rs_side r)\<bar> \<le> 2 ^ 31"
  shows "\<exists>j. addFill r i = Some j \<and> position j = position i + uint (rs_exec_qty r) * sideToValue (rs_side r) \<and>
     volume j = volume i + ucast (rs_exec_qty r)"
proof -
  let ?n = "position i + uint (rs_exec_qty r) * sideToValue (rs_side r)"
  let ?i = "i\<lparr>position := ?n, volume := volume i + ucast (rs_exec_qty r)\<rparr>"
  obtain j where j: "fill_vwap r (position i) ?i = Some j" "position j = ?n" "volume j = volume i + ucast (rs_exec_qty r)"
    using fill_vwap_ok [of ?i "position i" r] assms by auto
  obtain k where k: "fill_unrealized r j = Some k" "position k = ?n" "volume k = volume j"
    using fill_unrealized_ok [of j r] j(2) new by fastforce
  have "int64 ?n = Some ?n" using new by (auto intro: int64_small)
  then show ?thesis using j k by (simp add: addFill_def)
qed

lemma position_updateBBO_ok:
  assumes "\<bar>position i\<bar> \<le> 2 ^ 62"
  shows "\<exists>j. position_updateBBO bbo i = Some j \<and> position j = position i \<and> volume j = volume i"
  using unrealized_ok [OF assms, of "dmul (dadd (double_of_int (bid_price bbo)) (double_of_int (ask_price bbo))) (Finite (1 / 2))"]
  by (auto simp: position_updateBBO_def Let_def)

end
