(* ===== verification/Risk_Manager.thy ===== *)
theory Risk_Manager
  imports Position_Keeper Ordered_Map Wire
begin

text \<open>
  \<^verbatim>\<open>src/trading/strategy/risk_manager.h\<close> and \<^verbatim>\<open>risk_manager.cpp\<close>: the checks before an order leaves the client and the
  reservations that keep the limits while orders are outstanding. A position the code reads through \<open>position_info_\<close> is
  an argument. Sums of a position and a quantity are plain integers: the invariant bounds them by 33 bits.
\<close>

datatype RiskCheckResult = Risk_INVALID | ORDER_TOO_LARGE | POSITION_TOO_LARGE | LOSS_TOO_LARGE | ALLOWED

definition riskCheckResultToString :: "RiskCheckResult \<Rightarrow> string" where
  "riskCheckResultToString result = (case result of Risk_INVALID \<Rightarrow> ''INVALID'' | ORDER_TOO_LARGE \<Rightarrow> ''ORDER_TOO_LARGE''
     | POSITION_TOO_LARGE \<Rightarrow> ''POSITION_TOO_LARGE'' | LOSS_TOO_LARGE \<Rightarrow> ''LOSS_TOO_LARGE'' | ALLOWED \<Rightarrow> ''ALLOWED'')"

definition info_checkPreTradeRisk :: "double RiskCfg \<Rightarrow> PositionInfo \<Rightarrow> Side \<Rightarrow> Qty \<Rightarrow> RiskCheckResult" where
  "info_checkPreTradeRisk cfg i side qty =
     (if (side \<noteq> BUY \<and> side \<noteq> SELL) \<or> qty = 0 \<or> unat qty > INT32_MAX then Risk_INVALID
      else if qty > max_order_size cfg then ORDER_TOO_LARGE
      else if \<bar>position i + sideToValue side * uint qty\<bar> > uint (max_position cfg) then POSITION_TOO_LARGE
      else if dless (total_pnl i) (max_loss cfg) then LOSS_TOO_LARGE
      else ALLOWED)"

record Reservation =
  rv_side :: Side
  rv_qty :: Qty
  rv_price :: Price

type_synonym Reservations = "(TickerId \<times> OrderId, Reservation) omap"

record RiskManager =
  ticker_risk :: "nat \<Rightarrow> double RiskCfg"
  reservations :: Reservations
  pending_buy :: "nat \<Rightarrow> u64"
  pending_sell :: "nat \<Rightarrow> u64"

definition RiskManager_new :: "(nat \<Rightarrow> double TradeEngineCfg) \<Rightarrow> RiskManager" where
  "RiskManager_new ticker_cfg = \<lparr>ticker_risk = (\<lambda>t. risk_cfg (ticker_cfg t)), reservations = [], pending_buy = (\<lambda>_. 0),
     pending_sell = (\<lambda>_. 0)\<rparr>"

text \<open>\<open>(side == Side::BUY ? pending_buy_ : pending_sell_)[ticker]\<close>, read and written.\<close>

definition pending :: "TickerId \<Rightarrow> Side \<Rightarrow> RiskManager \<Rightarrow> u64" where
  "pending ticker side m = (if side = BUY then pending_buy m else pending_sell m) (unat ticker)"

definition set_pending :: "TickerId \<Rightarrow> Side \<Rightarrow> u64 \<Rightarrow> RiskManager \<Rightarrow> RiskManager" where
  "set_pending ticker side n m =
     (if side = BUY then m\<lparr>pending_buy := (pending_buy m)(unat ticker := n)\<rparr>
      else m\<lparr>pending_sell := (pending_sell m)(unat ticker := n)\<rparr>)"

definition checkPreTradeRisk :: "PositionKeeper \<Rightarrow> TickerId \<Rightarrow> Side \<Rightarrow> Qty \<Rightarrow> RiskManager \<Rightarrow> RiskCheckResult" where
  "checkPreTradeRisk k ticker side qty m =
     (let t = unat ticker; cfg = ticker_risk m t in
      if t \<ge> ME_MAX_TICKERS then Risk_INVALID
      else let result = info_checkPreTradeRisk cfg (k t) side qty in
        if result \<noteq> ALLOWED then result
        else let buys = pending_buy m t + (if side = BUY then ucast qty else 0);
                 sells = pending_sell m t + (if side = SELL then ucast qty else 0) in
          if position (k t) + sint buys > uint (max_position cfg) \<or>
             position (k t) - sint sells < - uint (max_position cfg) then POSITION_TOO_LARGE
          else if \<not> is_finite (total_pnl (k t)) then LOSS_TOO_LARGE
          else ALLOWED)"

definition reserve :: "PositionKeeper \<Rightarrow> MEClientRequest \<Rightarrow> RiskManager \<Rightarrow> RiskCheckResult \<times> RiskManager" where
  "reserve k r m =
     (if rq_type r \<noteq> Req_NEW then (ALLOWED, m)
      else let key = (rq_ticker_id r, rq_order_id r) in
        if map_of (reservations m) key \<noteq> None then (Risk_INVALID, m)
        else let result = checkPreTradeRisk k (rq_ticker_id r) (rq_side r) (rq_qty r) m in
          if result \<noteq> ALLOWED then (result, m)
          else (result, set_pending (rq_ticker_id r) (rq_side r) (pending (rq_ticker_id r) (rq_side r) m + ucast (rq_qty r))
            (m\<lparr>reservations := om_emplace key \<lparr>rv_side = rq_side r, rv_qty = rq_qty r, rv_price = rq_price r\<rparr>
              (reservations m)\<rparr>)))"

definition rollback :: "MEClientRequest \<Rightarrow> RiskManager \<Rightarrow> RiskManager" where
  "rollback r m =
     (if rq_type r \<noteq> Req_NEW then m
      else let key = (rq_ticker_id r, rq_order_id r) in
        case map_of (reservations m) key of None \<Rightarrow> m
        | Some v \<Rightarrow> set_pending (rq_ticker_id r) (rv_side v) (pending (rq_ticker_id r) (rv_side v) m - ucast (rv_qty v))
            (m\<lparr>reservations := om_erase key (reservations m)\<rparr>))"

definition risk_onResponse :: "MEClientResponse \<Rightarrow> RiskManager \<Rightarrow> bool \<times> RiskManager" where
  "risk_onResponse r m =
     (if unat (rs_ticker_id r) \<ge> ME_MAX_TICKERS then (False, m)
      else let key = (rs_ticker_id r, rs_client_order_id r) in
        case map_of (reservations m) key of None \<Rightarrow> (rs_type r \<noteq> Resp_FILLED, m)
        | Some v \<Rightarrow>
            let n = pending (rs_ticker_id r) (rv_side v) m in
            if rs_type r = Resp_FILLED then
              (if rs_side r \<noteq> rv_side v \<or> rs_exec_qty r = 0 \<or> rs_exec_qty r > rv_qty v \<or>
                  (ucast (rs_exec_qty r) :: u64) + ucast (rs_leaves_qty r) \<noteq> ucast (rv_qty v) then (False, m)
               else (True, set_pending (rs_ticker_id r) (rv_side v) (n - ucast (rs_exec_qty r))
                 (m\<lparr>reservations := (if rs_leaves_qty r = 0 then om_erase key (reservations m)
                     else om_put key (\<lambda>v. v\<lparr>rv_qty := rs_leaves_qty r\<rparr>) (reservations m))\<rparr>)))
            else if rs_type r = Resp_CANCEL_REJECTED then (rs_leaves_qty r = rv_qty v, m)
            else if rs_type r = Resp_REJECTED \<and> rs_reject_reason r = Rej_DUPLICATE_ID then (False, m)
            else if rs_type r = Resp_CANCELED \<or> rs_type r = Resp_REJECTED then
              (True, set_pending (rs_ticker_id r) (rv_side v) (n - ucast (rv_qty v))
                 (m\<lparr>reservations := om_erase key (reservations m)\<rparr>))
            else (True, m))"

definition mk_request :: "ClientRequestType \<Rightarrow> ClientId \<Rightarrow> TickerId \<Rightarrow> OrderId \<Rightarrow> Side \<Rightarrow> Price \<Rightarrow> Qty \<Rightarrow> MEClientRequest" where
  "mk_request type client ticker order side price qty =
     \<lparr>rq_type = type, rq_client_id = client, rq_ticker_id = ticker, rq_order_id = order, rq_side = side, rq_price = price,
      rq_qty = qty, rq_session_epoch = 0, rq_request_seq = 0\<rparr>"

definition cancellations :: "ClientId \<Rightarrow> RiskManager \<Rightarrow> MEClientRequest list" where
  "cancellations client m =
     map (\<lambda>((ticker, order), v). mk_request Req_CANCEL client ticker order (rv_side v) (rv_price v) (rv_qty v)) (reservations m)"

subsection \<open>Outstanding quantities\<close>

definition share :: "Side \<Rightarrow> nat \<Rightarrow> TickerId \<times> OrderId \<Rightarrow> Reservation \<Rightarrow> nat" where
  "share s t key v = (if unat (fst key) = t \<and> rv_side v = s then unat (rv_qty v) else 0)"

definition outstanding :: "Side \<Rightarrow> nat \<Rightarrow> Reservations \<Rightarrow> nat" where
  "outstanding s t m = (\<Sum>(key, v) \<leftarrow> m. share s t key v)"

lemma outstanding_simps [simp]:
  "outstanding s t [] = 0" "outstanding s t ((key, v) # m) = share s t key v + outstanding s t m"
  by (simp_all add: outstanding_def)

lemma outstanding_emplace:
  "map_of m key = None \<Longrightarrow> outstanding s t (om_emplace key v m) = outstanding s t m + share s t key v"
  by (induct m) (auto split: if_splits)

lemma outstanding_erase:
  assumes "om_ok m" "map_of m key = Some v"
  shows "outstanding s t m = outstanding s t (om_erase key m) + share s t key v"
  using assms
proof (induct m)
  case (Cons e m)
  obtain k w where e: "e = (k, w)" by (cases e)
  show ?case
  proof (cases "k = key")
    case True
    then have "filter (\<lambda>e. fst e \<noteq> key) m = m" using Cons.prems(1) by (intro filter_True) (auto simp: e)
    with True Cons.prems(2) show ?thesis by (simp add: e om_erase_def)
  next
    case False
    then show ?thesis using Cons by (simp add: e om_erase_def)
  qed
qed simp

lemma outstanding_put:
  assumes "om_ok m" "map_of m key = Some v"
  shows "outstanding s t (om_put key f m) + share s t key v = outstanding s t m + share s t key (f v)"
  using assms
proof (induct m)
  case (Cons e m)
  obtain k w where e: "e = (k, w)" by (cases e)
  show ?case
  proof (cases "k = key")
    case True
    then have "om_put key f m = m" unfolding om_put_def using Cons.prems(1) by (intro map_idI) (auto simp: e)
    with True Cons.prems(2) show ?thesis by (simp add: e om_put_def)
  next
    case False
    then show ?thesis using Cons by (simp add: e om_put_def)
  qed
qed simp

text \<open>The invariant of the risk manager: the pending counters are the outstanding quantities, and no fill of outstanding
  orders can take a position over its limit.\<close>

definition entries_ok :: "Reservations \<Rightarrow> bool" where
  "entries_ok m \<longleftrightarrow> om_ok m \<and>
     (\<forall>key v. map_of m key = Some v \<longrightarrow> unat (fst key) < ME_MAX_TICKERS \<and> rv_side v \<in> {BUY, SELL} \<and> rv_qty v \<noteq> 0)"

definition limit_ok :: "PositionKeeper \<Rightarrow> RiskManager \<Rightarrow> nat \<Rightarrow> bool" where
  "limit_ok k m t \<longleftrightarrow> position (k t) + outstanding BUY t (reservations m) \<le> uint (max_position (ticker_risk m t)) \<and>
     - uint (max_position (ticker_risk m t)) \<le> position (k t) - outstanding SELL t (reservations m)"

definition risk_ok :: "PositionKeeper \<Rightarrow> RiskManager \<Rightarrow> bool" where
  "risk_ok k m \<longleftrightarrow> entries_ok (reservations m) \<and>
     (\<forall>t < ME_MAX_TICKERS. unat (pending_buy m t) = outstanding BUY t (reservations m) \<and>
        unat (pending_sell m t) = outstanding SELL t (reservations m) \<and> limit_ok k m t)"

lemma risk_okD:
  assumes "risk_ok k m"
  shows "entries_ok (reservations m)" "om_ok (reservations m)"
    "\<And>t. t < ME_MAX_TICKERS \<Longrightarrow> unat (pending_buy m t) = outstanding BUY t (reservations m)"
    "\<And>t. t < ME_MAX_TICKERS \<Longrightarrow> unat (pending_sell m t) = outstanding SELL t (reservations m)"
    "\<And>t. t < ME_MAX_TICKERS \<Longrightarrow> limit_ok k m t"
  using assms by (auto simp: risk_ok_def entries_ok_def)

lemma risk_ok_new: "(\<And>t. position (k t) = 0) \<Longrightarrow> risk_ok k (RiskManager_new cfg)"
  by (simp add: risk_ok_def entries_ok_def limit_ok_def RiskManager_new_def)

lemma limit_bounds:
  assumes "limit_ok k m t"
  shows "\<bar>position (k t)\<bar> \<le> uint (max_position (ticker_risk m t))"
    "outstanding BUY t (reservations m) \<le> 2 * unat (max_position (ticker_risk m t))"
    "outstanding SELL t (reservations m) \<le> 2 * unat (max_position (ticker_risk m t))"
proof -
  define n where "n = unat (max_position (ticker_risk m t))"
  then have n: "uint (max_position (ticker_risk m t)) = int n" by simp
  show "\<bar>position (k t)\<bar> \<le> uint (max_position (ticker_risk m t))" "outstanding BUY t (reservations m) \<le> 2 * unat (max_position (ticker_risk m t))"
    "outstanding SELL t (reservations m) \<le> 2 * unat (max_position (ticker_risk m t))"
    using assms unfolding limit_ok_def n n_def [symmetric] by linarith+
qed

lemma entries_emplace:
  "entries_ok m \<Longrightarrow> map_of m key = None \<Longrightarrow> unat (fst key) < ME_MAX_TICKERS \<Longrightarrow> rv_side v \<in> {BUY, SELL} \<Longrightarrow> rv_qty v \<noteq> 0 \<Longrightarrow>
   entries_ok (om_emplace key v m)"
  by (auto simp: entries_ok_def omap_laws)

lemma entries_erase: "entries_ok m \<Longrightarrow> entries_ok (om_erase key m)"
  by (auto simp: entries_ok_def omap_laws)

lemma entries_put: "entries_ok m \<Longrightarrow> n \<noteq> 0 \<Longrightarrow> entries_ok (om_put key (\<lambda>v. v\<lparr>rv_qty := n\<rparr>) m)"
  by (fastforce simp: entries_ok_def omap_laws split: if_splits)

lemma set_pending_sel [simp]:
  "ticker_risk (set_pending t s n m) = ticker_risk m" "reservations (set_pending t s n m) = reservations m"
  "pending_buy (set_pending t s n m) = (if s = BUY then (pending_buy m)(unat t := n) else pending_buy m)"
  "pending_sell (set_pending t s n m) = (if s = BUY then pending_sell m else (pending_sell m)(unat t := n))"
  by (simp_all add: set_pending_def)

text \<open>A change of one reservation that moves its counter by the same amount.\<close>

lemma risk_ok_change:
  assumes ok: "risk_ok k m" and e: "entries_ok R" and s: "s \<in> {BUY, SELL}" and t: "unat ticker < ME_MAX_TICKERS"
    and new: "unat n = outstanding s (unat ticker) R"
    and frame: "\<And>s' t'. (s', t') \<noteq> (s, unat ticker) \<Longrightarrow> outstanding s' t' R = outstanding s' t' (reservations m)"
    and k: "\<And>t'. t' \<noteq> unat ticker \<Longrightarrow> position (k' t') = position (k t')"
    and lim: "limit_ok k' (m\<lparr>reservations := R\<rparr>) (unat ticker)"
  shows "risk_ok k' (set_pending ticker s n (m\<lparr>reservations := R\<rparr>))"
proof -
  note D = risk_okD [OF ok]
  have "unat (pending_buy (set_pending ticker s n (m\<lparr>reservations := R\<rparr>)) t') = outstanding BUY t' R \<and>
      unat (pending_sell (set_pending ticker s n (m\<lparr>reservations := R\<rparr>)) t') = outstanding SELL t' R \<and>
      limit_ok k' (set_pending ticker s n (m\<lparr>reservations := R\<rparr>)) t'" if t': "t' < ME_MAX_TICKERS" for t'
  proof (cases "t' = unat ticker")
    case True
    have "limit_ok k' (set_pending ticker s n (m\<lparr>reservations := R\<rparr>)) (unat ticker)" using lim by (simp add: limit_ok_def)
    then show ?thesis using True D(3,4) [OF t] new s frame [of BUY t'] frame [of SELL t'] by auto
  next
    case False
    have "limit_ok k' (set_pending ticker s n (m\<lparr>reservations := R\<rparr>)) t'"
      using D(5) [OF t'] k [OF False] frame [of BUY t'] frame [of SELL t'] False by (simp add: limit_ok_def)
    then show ?thesis using False D(3,4) [OF t'] frame [of BUY t'] frame [of SELL t'] by auto
  qed
  then show ?thesis using e by (simp add: risk_ok_def)
qed

lemma pending_unat:
  assumes "risk_ok k m" "unat t < ME_MAX_TICKERS" "s \<in> {BUY, SELL}"
  shows "unat (pending t s m) = outstanding s (unat t) (reservations m)"
  using risk_okD(3,4) [OF assms(1,2)] assms(3) by (auto simp: pending_def)

lemma qty_word: "unat (ucast (q :: Qty) :: u64) = unat q"
  using unsigned_less [of q, where ?'a = nat] by (simp add: unsigned_ucast_eq take_bit_nat_eq_self)

lemma qty_bound: "unat (q :: Qty) < 2 ^ 32"
  using unsigned_less [of q, where ?'a = nat] by simp

lemma sint_small:
  assumes "unat (w :: u64) < 2 ^ 63" shows "sint w = int (unat w)"
proof -
  have "i64 (int n)" if "n < 2 ^ 63" for n using that by (simp add: i64_def)
  from this [OF assms] have "i64 (int (unat w))" .
  from sint_word_of_int_64 [OF this] show ?thesis by simp
qed

lemma pending_plus:
  assumes "risk_ok k m" "unat t < ME_MAX_TICKERS" "s \<in> {BUY, SELL}"
  shows "unat (pending t s m + ucast (q :: Qty)) = outstanding s (unat t) (reservations m) + unat q"
    "sint (pending t s m + ucast (q :: Qty)) = outstanding s (unat t) (reservations m) + unat q"
    "sint (pending t s m) = outstanding s (unat t) (reservations m)"
proof -
  note P = pending_unat [OF assms]
  have "outstanding s (unat t) (reservations m) \<le> 2 * 2 ^ 32"
    using limit_bounds(2,3) [OF risk_okD(5) [OF assms(1,2)]] qty_bound [of "max_position (ticker_risk m (unat t))"] assms(3)
    by (auto intro: le_trans)
  then have b: "unat (pending t s m) + unat (ucast q :: u64) < 2 ^ 63"
    using P qty_bound [of q] by (simp add: qty_word)
  then show u: "unat (pending t s m + ucast q) = outstanding s (unat t) (reservations m) + unat q"
    using P by (simp add: unat_word_ariths qty_word)
  show "sint (pending t s m + ucast q) = outstanding s (unat t) (reservations m) + unat q"
    using b u P sint_small [of "pending t s m + ucast q"] by (simp add: qty_word)
  show "sint (pending t s m) = outstanding s (unat t) (reservations m)"
    using b P sint_small [of "pending t s m"] by simp
qed

subsection \<open>The operations keep the invariant\<close>

lemma check_allowed:
  assumes "checkPreTradeRisk k ticker s q m = ALLOWED" and ok: "risk_ok k m"
  shows "unat ticker < ME_MAX_TICKERS" "s \<in> {BUY, SELL}" "q \<noteq> 0"
    "s = BUY \<Longrightarrow> position (k (unat ticker)) + outstanding BUY (unat ticker) (reservations m) + unat q \<le>
       uint (max_position (ticker_risk m (unat ticker)))"
    "s = SELL \<Longrightarrow> - uint (max_position (ticker_risk m (unat ticker))) \<le>
       position (k (unat ticker)) - outstanding SELL (unat ticker) (reservations m) - unat q"
proof -
  show t: "unat ticker < ME_MAX_TICKERS" and s: "s \<in> {BUY, SELL}" and "q \<noteq> 0"
    using assms(1) by (auto simp: checkPreTradeRisk_def info_checkPreTradeRisk_def Let_def split: if_splits)
  note P = pending_plus(2) [OF ok t, of _ q]
  show "position (k (unat ticker)) + outstanding BUY (unat ticker) (reservations m) + unat q \<le>
       uint (max_position (ticker_risk m (unat ticker)))" if "s = BUY"
    using assms(1) P [of BUY] that
    by (simp add: checkPreTradeRisk_def Let_def pending_def split: if_splits)
  show "- uint (max_position (ticker_risk m (unat ticker))) \<le>
       position (k (unat ticker)) - outstanding SELL (unat ticker) (reservations m) - unat q" if "s = SELL"
    using assms(1) P [of SELL] that
    by (simp add: checkPreTradeRisk_def Let_def pending_def split: if_splits)
qed

lemma reserve_ok:
  assumes ok: "risk_ok k m" and r: "reserve k r m = (c, m')"
  shows "risk_ok k m'" "ticker_risk m' = ticker_risk m"
    "c \<noteq> ALLOWED \<Longrightarrow> m' = m"
    "c = ALLOWED \<Longrightarrow> rq_type r = Req_NEW \<Longrightarrow> map_of (reservations m) (rq_ticker_id r, rq_order_id r) = None"
    "c = ALLOWED \<Longrightarrow> rq_type r = Req_NEW \<Longrightarrow> reservations m' = om_emplace (rq_ticker_id r, rq_order_id r)
       \<lparr>rv_side = rq_side r, rv_qty = rq_qty r, rv_price = rq_price r\<rparr> (reservations m)"
    "rq_type r \<noteq> Req_NEW \<Longrightarrow> m' = m"
proof -
  show "ticker_risk m' = ticker_risk m" "c \<noteq> ALLOWED \<Longrightarrow> m' = m" "rq_type r \<noteq> Req_NEW \<Longrightarrow> m' = m"
    "c = ALLOWED \<Longrightarrow> rq_type r = Req_NEW \<Longrightarrow> map_of (reservations m) (rq_ticker_id r, rq_order_id r) = None"
    "c = ALLOWED \<Longrightarrow> rq_type r = Req_NEW \<Longrightarrow> reservations m' = om_emplace (rq_ticker_id r, rq_order_id r)
       \<lparr>rv_side = rq_side r, rv_qty = rq_qty r, rv_price = rq_price r\<rparr> (reservations m)"
    using r by (auto simp: reserve_def Let_def split: if_splits)
  show "risk_ok k m'"
  proof (cases "m' = m")
    case False
    let ?t = "rq_ticker_id r" and ?key = "(rq_ticker_id r, rq_order_id r)"
    let ?v = "\<lparr>rv_side = rq_side r, rv_qty = rq_qty r, rv_price = rq_price r\<rparr>"
    let ?R = "om_emplace ?key ?v (reservations m)"
    from False r have new: "map_of (reservations m) ?key = None"
      and chk: "checkPreTradeRisk k ?t (rq_side r) (rq_qty r) m = ALLOWED"
      and m': "m' = set_pending ?t (rq_side r) (pending ?t (rq_side r) m + ucast (rq_qty r)) (m\<lparr>reservations := ?R\<rparr>)"
      by (auto simp: reserve_def Let_def split: if_splits)
    note C = check_allowed [OF chk ok]
    note O = outstanding_emplace [OF new, of _ _ ?v]
    show ?thesis unfolding m'
    proof (rule risk_ok_change [OF ok])
      show "entries_ok ?R" using entries_emplace [OF risk_okD(1) [OF ok] new] C by auto
      show "unat (pending ?t (rq_side r) m + ucast (rq_qty r)) = outstanding (rq_side r) (unat ?t) ?R"
        using pending_plus(1) [OF ok C(1,2)] O by (simp add: share_def)
      show "limit_ok k (m\<lparr>reservations := ?R\<rparr>) (unat ?t)"
        using risk_okD(5) [OF ok C(1)] C(2,4,5) O by (auto simp: limit_ok_def share_def)
    qed (use C O in \<open>auto simp: share_def\<close>)
  qed (use ok in simp)
qed

lemma entry_ok:
  assumes "risk_ok k m" "map_of (reservations m) (ticker, i) = Some v"
  shows "unat ticker < ME_MAX_TICKERS" "rv_side v \<in> {BUY, SELL}" "rv_qty v \<noteq> 0"
    "unat (rv_qty v) \<le> outstanding (rv_side v) (unat ticker) (reservations m)"
    "limit_ok k m (unat ticker)"
  using risk_okD(1) [OF assms(1)] risk_okD(5) [OF assms(1)] assms(2) outstanding_erase [OF risk_okD(2) [OF assms(1)] assms(2)]
  by (fastforce simp: entries_ok_def share_def)+

lemma unat_minus_le: "unat (b :: u64) \<le> unat a \<Longrightarrow> unat (a - b) = unat a - unat b"
  by (rule unat_sub) (simp add: word_le_nat_alt)

text \<open>Dropping a reservation, as a rollback, a cancellation and a rejection do.\<close>

lemma release_ok:
  assumes ok: "risk_ok k m" and v: "map_of (reservations m) (ticker, i) = Some v"
  shows "risk_ok k (set_pending ticker (rv_side v) (pending ticker (rv_side v) m - ucast (rv_qty v))
     (m\<lparr>reservations := om_erase (ticker, i) (reservations m)\<rparr>))"
proof (rule risk_ok_change [OF ok])
  note E = entry_ok [OF ok v] note O = outstanding_erase [OF risk_okD(2) [OF ok] v]
  show "entries_ok (om_erase (ticker, i) (reservations m))" by (rule entries_erase [OF risk_okD(1) [OF ok]])
  show "unat (pending ticker (rv_side v) m - ucast (rv_qty v)) =
      outstanding (rv_side v) (unat ticker) (om_erase (ticker, i) (reservations m))"
    using pending_unat [OF ok E(1,2)] E(4) O [of "rv_side v" "unat ticker"] by (simp add: unat_minus_le qty_word share_def)
  show "limit_ok k (m\<lparr>reservations := om_erase (ticker, i) (reservations m)\<rparr>) (unat ticker)"
    using E(5) O [of BUY "unat ticker"] O [of SELL "unat ticker"] by (auto simp: limit_ok_def)
qed (use entry_ok [OF ok v] outstanding_erase [OF risk_okD(2) [OF ok] v] in \<open>auto simp: share_def\<close>)

lemma rollback_ok:
  assumes ok: "risk_ok k m"
  shows "risk_ok k (rollback r m)" "ticker_risk (rollback r m) = ticker_risk m"
  using release_ok [OF ok] ok by (auto simp: rollback_def Let_def split: option.splits)

lemma response_frame:
  assumes "risk_onResponse r m = (taken, m')"
  shows "ticker_risk m' = ticker_risk m" "\<not> taken \<Longrightarrow> m' = m"
  using assms by (auto simp: risk_onResponse_def Let_def split: if_splits option.splits)

lemma response_keeps:
  assumes ok: "risk_ok k m" and r: "risk_onResponse r m = (taken, m')" and nf: "rs_type r \<noteq> Resp_FILLED"
  shows "risk_ok k m'"
  using r nf ok release_ok [OF ok]
  by (auto simp: risk_onResponse_def Let_def split: if_splits option.splits)

lemma fill_sum:
  assumes "(ucast (e :: Qty) :: u64) + ucast (l :: Qty) = ucast (q :: Qty)"
  shows "unat e + unat l = unat q"
proof -
  have "unat (ucast e :: u64) + unat (ucast l :: u64) < 2 ^ 64" using qty_bound [of e] qty_bound [of l] by (simp add: qty_word)
  then have "unat ((ucast e :: u64) + ucast l) = unat e + unat l" by (simp add: unat_word_ariths qty_word)
  then show ?thesis using assms by (simp add: qty_word)
qed

text \<open>A fill the risk manager takes: the limit holds afterwards for the position moved by the fill.\<close>

lemma response_fill:
  assumes ok: "risk_ok k m" and r: "risk_onResponse r m = (True, m')" "rs_type r = Resp_FILLED"
    and k: "position (k' (unat (rs_ticker_id r))) = position (k (unat (rs_ticker_id r))) + uint (rs_exec_qty r) * sideToValue (rs_side r)"
      "\<And>t. t \<noteq> unat (rs_ticker_id r) \<Longrightarrow> position (k' t) = position (k t)"
  shows "rs_side r \<in> {BUY, SELL}" "unat (rs_ticker_id r) < ME_MAX_TICKERS" "risk_ok k' m'"
proof -
  let ?t = "rs_ticker_id r" and ?key = "(rs_ticker_id r, rs_client_order_id r)"
  from r obtain v where v: "map_of (reservations m) ?key = Some v" by (auto simp: risk_onResponse_def Let_def split: if_splits option.splits)
  let ?R = "if rs_leaves_qty r = 0 then om_erase ?key (reservations m)
      else om_put ?key (\<lambda>v. v\<lparr>rv_qty := rs_leaves_qty r\<rparr>) (reservations m)"
  note E = entry_ok [OF ok v]
  from r v have side: "rs_side r = rv_side v"
    and sum: "(ucast (rs_exec_qty r) :: u64) + ucast (rs_leaves_qty r) = ucast (rv_qty v)"
    and m': "m' = set_pending ?t (rv_side v) (pending ?t (rv_side v) m - ucast (rs_exec_qty r)) (m\<lparr>reservations := ?R\<rparr>)"
    by (auto simp: risk_onResponse_def Let_def split: if_splits)
  note F = fill_sum [OF sum]
  have O: "outstanding s t' ?R + (if s = rv_side v \<and> t' = unat ?t then unat (rs_exec_qty r) else 0) = outstanding s t' (reservations m)"
    for s t'
    using outstanding_erase [OF risk_okD(2) [OF ok] v, of s t'] F
      outstanding_put [OF risk_okD(2) [OF ok] v, of s t' "\<lambda>v. v\<lparr>rv_qty := rs_leaves_qty r\<rparr>"]
    by (auto simp: share_def split: if_splits)
  show "rs_side r \<in> {BUY, SELL}" "unat ?t < ME_MAX_TICKERS" using E(1,2) side by auto
  show "risk_ok k' m'" unfolding m'
  proof (rule risk_ok_change [OF ok])
    show "entries_ok ?R" using entries_erase entries_put risk_okD(1) [OF ok] by simp
    show "unat (pending ?t (rv_side v) m - ucast (rs_exec_qty r)) = outstanding (rv_side v) (unat ?t) ?R"
      using pending_unat [OF ok E(1,2)] O [of "rv_side v" "unat ?t"] by (simp add: unat_minus_le qty_word)
    show "outstanding s' t' ?R = outstanding s' t' (reservations m)" if "(s', t') \<noteq> (rv_side v, unat ?t)" for s' t'
      using O [of s' t'] that by (auto split: if_splits)
    show "position (k' t') = position (k t')" if "t' \<noteq> unat ?t" for t' using k(2) that by simp
    define n where "n = unat (rs_exec_qty r)"
    then have n: "uint (rs_exec_qty r) = int n" by simp
    have "rv_side v = BUY \<or> rv_side v = SELL" using E(2) by simp
    then show "limit_ok k' (m\<lparr>reservations := ?R\<rparr>) (unat ?t)"
      using E(5) O [of BUY "unat ?t"] O [of SELL "unat ?t"] k(1) side unfolding n n_def [symmetric] limit_ok_def
      by (elim disjE) (simp_all del: uint_nat)
  qed (use E in auto)
qed

lemma fill_bounded:
  assumes "risk_ok k m" "t < ME_MAX_TICKERS" "max_position (ticker_risk m t) \<le> 0x7FFFFFFF"
  shows "\<bar>position (k t)\<bar> \<le> 2 ^ 31"
proof -
  have "uint (max_position (ticker_risk m t)) \<le> 2 ^ 31" using assms(3) by (simp add: word_le_def)
  then show ?thesis using limit_bounds(1) [OF risk_okD(5) [OF assms(1,2)]] by simp
qed

end
