(* ===== verification/Order_Manager.thy ===== *)
theory Order_Manager
  imports Risk_Manager
begin

text \<open>
  \<^verbatim>\<open>src/trading/strategy/order_manager.h\<close>, \<^verbatim>\<open>order_manager.cpp\<close> and \<^verbatim>\<open>om_order.h\<close>: the orders of the strategy, one slot for each
  ticker and side. A slot is named by its two indices. The trading engine the manager sends through is a function
  \<open>send\<close> on a state \<open>'e\<close> that travels along; \<open>None\<close> is the \<open>std::out_of_range\<close> of \<open>at\<close>.
\<close>

datatype OMOrderState = OM_INVALID | PENDING_NEW | LIVE | PENDING_CANCEL | DEAD

definition OMOrderStateToString :: "OMOrderState \<Rightarrow> string" where
  "OMOrderStateToString s = (case s of PENDING_NEW \<Rightarrow> ''PENDING_NEW'' | LIVE \<Rightarrow> ''LIVE''
     | PENDING_CANCEL \<Rightarrow> ''PENDING_CANCEL'' | DEAD \<Rightarrow> ''DEAD'' | OM_INVALID \<Rightarrow> ''INVALID'')"

record OMOrder =
  om_ticker_id :: TickerId
  om_order_id :: OrderId
  om_side :: Side
  om_price :: Price
  om_qty :: Qty
  om_state :: OMOrderState

definition OMOrder_default :: OMOrder where
  "OMOrder_default = \<lparr>om_ticker_id = TickerId_INVALID, om_order_id = OrderId_INVALID, om_side = Side_INVALID,
     om_price = Price_INVALID, om_qty = Qty_INVALID, om_state = OM_INVALID\<rparr>"

definition OMOrder_toString :: "OMOrder \<Rightarrow> string" where
  "OMOrder_toString ord = ''OMOrder[tid:'' @ tickerIdToString (om_ticker_id ord) @ '' oid:'' @ orderIdToString (om_order_id ord) @
     '' side:'' @ sideToString (om_side ord) @ '' price:'' @ priceToString (om_price ord) @ '' qty:'' @ qtyToString (om_qty ord) @
     '' state:'' @ OMOrderStateToString (om_state ord) @ '']''"

record OrderManager =
  ticker_side_order :: "nat \<Rightarrow> nat \<Rightarrow> OMOrder"
  next_order_id :: OrderId

definition OrderManager_new :: OrderManager where
  "OrderManager_new = \<lparr>ticker_side_order = (\<lambda>_ _. OMOrder_default), next_order_id = 1\<rparr>"

definition set_slot :: "nat \<Rightarrow> nat \<Rightarrow> OMOrder \<Rightarrow> OrderManager \<Rightarrow> OrderManager" where
  "set_slot t i ord m = m\<lparr>ticker_side_order := (ticker_side_order m)(t := (ticker_side_order m t)(i := ord))\<rparr>"

subsection \<open>Responses\<close>

definition om_transition :: "MEClientResponse \<Rightarrow> OMOrder \<Rightarrow> OMOrder" where
  "om_transition r ord =
     (case rs_type r of
        Resp_ACCEPTED \<Rightarrow> if om_state ord = PENDING_NEW then ord\<lparr>om_state := LIVE\<rparr> else ord
      | Resp_FILLED \<Rightarrow>
          let ord = (if rs_leaves_qty r < om_qty ord then ord\<lparr>om_qty := rs_leaves_qty r\<rparr> else ord) in
          if om_qty ord = 0 then ord\<lparr>om_state := DEAD\<rparr> else ord
      | Resp_CANCELED \<Rightarrow> ord\<lparr>om_qty := 0, om_state := DEAD\<rparr>
      | Resp_REJECTED \<Rightarrow> ord\<lparr>om_qty := 0, om_state := DEAD\<rparr>
      | Resp_CANCEL_REJECTED \<Rightarrow>
          if om_state ord = PENDING_CANCEL then ord\<lparr>om_state := (if rs_leaves_qty r \<noteq> 0 then LIVE else DEAD)\<rparr> else ord
      | Resp_STATE \<Rightarrow> ord\<lparr>om_qty := rs_leaves_qty r, om_state := (if rs_leaves_qty r \<noteq> 0 then LIVE else DEAD)\<rparr>
      | _ \<Rightarrow> ord)"

definition om_onOrderUpdate :: "MEClientResponse \<Rightarrow> OrderManager \<Rightarrow> OrderManager" where
  "om_onOrderUpdate r m = (let t = unat (rs_ticker_id r) in
     if t \<ge> ME_MAX_TICKERS then m
     else case find (\<lambda>i. om_order_id (ticker_side_order m t i) = rs_client_order_id r \<and>
                         om_order_id (ticker_side_order m t i) \<noteq> OrderId_INVALID) [0..<4] of
       None \<Rightarrow> m
     | Some i \<Rightarrow> set_slot t i (om_transition r (ticker_side_order m t i)) m)"

subsection \<open>Orders\<close>

type_synonym 'e sender = "MEClientRequest \<Rightarrow> 'e \<Rightarrow> bool \<times> 'e"

definition newOrder :: "'e sender \<Rightarrow> ClientId \<Rightarrow> nat \<Rightarrow> nat \<Rightarrow> TickerId \<Rightarrow> Price \<Rightarrow> Side \<Rightarrow> Qty \<Rightarrow>
    OrderManager \<times> 'e \<Rightarrow> OrderManager \<times> 'e" where
  "newOrder send client t i ticker price side qty = (\<lambda>(m, e).
     case send (mk_request Req_NEW client ticker (next_order_id m) side price qty) e of
       (False, e) \<Rightarrow> (m, e)
     | (True, e) \<Rightarrow>
         ((set_slot t i \<lparr>om_ticker_id = ticker, om_order_id = next_order_id m, om_side = side, om_price = price, om_qty = qty,
             om_state = PENDING_NEW\<rparr> m)\<lparr>next_order_id := next_order_id m + 1\<rparr>, e))"

definition cancelOrder :: "'e sender \<Rightarrow> ClientId \<Rightarrow> nat \<Rightarrow> nat \<Rightarrow> OrderManager \<times> 'e \<Rightarrow> OrderManager \<times> 'e" where
  "cancelOrder send client t i = (\<lambda>(m, e).
     let ord = ticker_side_order m t i in
     case send (mk_request Req_CANCEL client (om_ticker_id ord) (om_order_id ord) (om_side ord) (om_price ord) (om_qty ord)) e of
       (False, e) \<Rightarrow> (m, e)
     | (True, e) \<Rightarrow> (set_slot t i (ord\<lparr>om_state := PENDING_CANCEL\<rparr>) m, e))"

definition moveOrder :: "'e sender \<Rightarrow> ClientId \<Rightarrow> nat \<Rightarrow> nat \<Rightarrow> TickerId \<Rightarrow> Price \<Rightarrow> Side \<Rightarrow> Qty \<Rightarrow>
    OrderManager \<times> 'e \<Rightarrow> OrderManager \<times> 'e" where
  "moveOrder send client t i ticker price side qty = (\<lambda>(m, e).
     case om_state (ticker_side_order m t i) of
       LIVE \<Rightarrow> if om_price (ticker_side_order m t i) \<noteq> price then cancelOrder send client t i (m, e) else (m, e)
     | OM_INVALID \<Rightarrow> if price \<noteq> Price_INVALID then newOrder send client t i ticker price side qty (m, e) else (m, e)
     | DEAD \<Rightarrow> if price \<noteq> Price_INVALID then newOrder send client t i ticker price side qty (m, e) else (m, e)
     | PENDING_NEW \<Rightarrow> (m, e)
     | PENDING_CANCEL \<Rightarrow> (m, e))"

definition moveOrders :: "'e sender \<Rightarrow> ClientId \<Rightarrow> TickerId \<Rightarrow> Price \<Rightarrow> Price \<Rightarrow> Qty \<Rightarrow>
    OrderManager \<times> 'e \<Rightarrow> (OrderManager \<times> 'e) option" where
  "moveOrders send client ticker bid ask qty me = (let t = unat ticker in
     if t \<ge> ME_MAX_TICKERS then None
     else Some (moveOrder send client t (sideToIndex SELL) ticker ask SELL qty
       (moveOrder send client t (sideToIndex BUY) ticker bid BUY qty me)))"

end
