(* ===== verification/Feature_Engine.thy ===== *)
theory Feature_Engine
  imports Market_Order_Book Doubles
begin

text \<open>
  \<^verbatim>\<open>src/trading/strategy/feature_engine.h\<close>: the weighted price of a book and the share of a trade in the opposite best
  quantity, NaN where they are not defined.
\<close>

definition Feature_INVALID :: double where
  "Feature_INVALID = NaN"

record FeatureEngine =
  prices :: "nat \<Rightarrow> double"
  ratios :: "nat \<Rightarrow> double"

definition FeatureEngine_new :: FeatureEngine where
  "FeatureEngine_new = \<lparr>prices = (\<lambda>_. Feature_INVALID), ratios = (\<lambda>_. Feature_INVALID)\<rparr>"

definition bbo_valid :: "BBO \<Rightarrow> bool" where
  "bbo_valid bbo \<longleftrightarrow> bid_price bbo > 0 \<and> ask_price bbo > 0 \<and> bid_price bbo \<noteq> Price_INVALID \<and> ask_price bbo \<noteq> Price_INVALID \<and>
     bid_qty bbo > 0 \<and> ask_qty bbo > 0 \<and> bid_qty bbo \<noteq> BookQty_INVALID \<and> ask_qty bbo \<noteq> BookQty_INVALID"

definition finite_or_invalid :: "double \<Rightarrow> double" where
  "finite_or_invalid x = (if is_finite x then x else Feature_INVALID)"

definition weighted_price :: "BBO \<Rightarrow> double" where
  "weighted_price bbo = ddiv
     (dadd (dmul (double_of_int (bid_price bbo)) (double_of_int (uint (ask_qty bbo))))
           (dmul (double_of_int (ask_price bbo)) (double_of_int (uint (bid_qty bbo)))))
     (dadd (double_of_int (uint (bid_qty bbo))) (double_of_int (uint (ask_qty bbo))))"

definition fe_onOrderBookUpdate :: "TickerId \<Rightarrow> BBO \<Rightarrow> FeatureEngine \<Rightarrow> FeatureEngine" where
  "fe_onOrderBookUpdate ticker bbo f = (let t = unat ticker in
     if t \<ge> ME_MAX_TICKERS then f
     else if bbo_valid bbo then f\<lparr>prices := (prices f)(t := finite_or_invalid (weighted_price bbo))\<rparr>
     else f\<lparr>prices := (prices f)(t := Feature_INVALID), ratios := (ratios f)(t := Feature_INVALID)\<rparr>)"

definition fe_onTradeUpdate :: "MEMarketUpdate \<Rightarrow> BBO \<Rightarrow> FeatureEngine \<Rightarrow> FeatureEngine" where
  "fe_onTradeUpdate event bbo f = (let t = unat (mu_ticker_id event) in
     if t \<ge> ME_MAX_TICKERS then f
     else if bbo_valid bbo \<and> mu_qty event > 0 \<and> mu_qty event \<noteq> Qty_INVALID \<and> (mu_side event = BUY \<or> mu_side event = SELL) then
       f\<lparr>ratios := (ratios f)(t := finite_or_invalid (ddiv (double_of_int (uint (mu_qty event)))
         (double_of_int (uint (if mu_side event = BUY then ask_qty bbo else bid_qty bbo)))))\<rparr>
     else f\<lparr>ratios := (ratios f)(t := Feature_INVALID)\<rparr>)"

definition getMktPrice :: "TickerId \<Rightarrow> FeatureEngine \<Rightarrow> double" where
  "getMktPrice ticker f = (if unat ticker < ME_MAX_TICKERS then prices f (unat ticker) else Feature_INVALID)"

definition getAggTradeQtyRatio :: "TickerId \<Rightarrow> FeatureEngine \<Rightarrow> double" where
  "getAggTradeQtyRatio ticker f = (if unat ticker < ME_MAX_TICKERS then ratios f (unat ticker) else Feature_INVALID)"

end
