(* ===== verification/Trade_Engine.thy ===== *)
theory Trade_Engine
  imports Market_Book_Props Order_Manager Feature_Engine LF_Queue Critical_Journal
begin

text \<open>
  The trading client: \<^verbatim>\<open>src/trading/strategy/trade_engine.h\<close>, \<^verbatim>\<open>trade_engine.cpp\<close>, the strategies \<^verbatim>\<open>market_maker.h\<close>,
  \<^verbatim>\<open>liquidity_taker.h\<close> and \<^verbatim>\<open>strategy_factory.cpp\<close>. The atomics other threads write, the generation of the market data
  and the state of the order session, are fields the environment may change between two iterations of the loop
  (\<open>order_session_\<close> is \<open>None\<close> while it is null). \<open>None\<close> as a result is a failed assertion, an invalid access or a signed
  overflow. Logging, timing and \<open>last_event_time_\<close> are left out.
\<close>

record TradeEngine =
  te_client_id :: ClientId
  ticker_order_book :: "nat \<Rightarrow> MarketOrderBook"
  outgoing_ogw_requests :: "MEClientRequest LFQueue"
  incoming_ogw_responses :: "MEClientResponse LFQueue"
  incoming_md_updates :: "MEMarketUpdate LFQueue"
  admitting :: bool
  market_generation :: u64
  applied_generation :: u64
  order_session :: "bool option"
  reconciled :: bool
  last_response_id :: u64
  accepted_requests :: u64
  rejected_requests :: u64
  duplicate_responses :: u64
  feature_engine :: FeatureEngine
  position_keeper :: PositionKeeper
  order_manager :: OrderManager
  risk_manager :: RiskManager
  strategy :: AlgoType
  ticker_cfg :: "nat \<Rightarrow> double TradeEngineCfg"

text \<open>\<open>createStrategy\<close>: the algorithm is the strategy object; \<open>None\<close> is \<open>std::invalid_argument\<close>.\<close>

definition createStrategy :: "AlgoType \<Rightarrow> AlgoType option" where
  "createStrategy type = (case type of Algo_MAKER \<Rightarrow> Some Algo_MAKER | Algo_TAKER \<Rightarrow> Some Algo_TAKER
     | Algo_RANDOM \<Rightarrow> Some Algo_RANDOM | _ \<Rightarrow> None)"

definition TradeEngine_new :: "ClientId \<Rightarrow> AlgoType \<Rightarrow> (nat \<Rightarrow> double TradeEngineCfg) \<Rightarrow> MEClientRequest LFQueue \<Rightarrow>
    MEClientResponse LFQueue \<Rightarrow> MEMarketUpdate LFQueue \<Rightarrow> TradeEngine option" where
  "TradeEngine_new client_id algo_type cfg requests responses updates = do {
     books \<leftarrow> those (map (\<lambda>i. MarketOrderBook_new (of_nat i)) [0..<ME_MAX_TICKERS]);
     s \<leftarrow> createStrategy algo_type;
     Some \<lparr>te_client_id = client_id, ticker_order_book = nth books, outgoing_ogw_requests = requests,
       incoming_ogw_responses = responses, incoming_md_updates = updates, admitting = True, market_generation = 1,
       applied_generation = 0, order_session = None, reconciled = True, last_response_id = 0, accepted_requests = 0,
       rejected_requests = 0, duplicate_responses = 0, feature_engine = FeatureEngine_new, position_keeper = PositionKeeper_new,
       order_manager = OrderManager_new, risk_manager = RiskManager_new cfg, strategy = s, ticker_cfg = cfg\<rparr> }"

subsection \<open>Sending\<close>

definition marketReady :: "TradeEngine \<Rightarrow> bool" where
  "marketReady e \<longleftrightarrow> applied_generation e = market_generation e"

definition setMarketTrusted :: "bool \<Rightarrow> TradeEngine \<Rightarrow> TradeEngine" where
  "setMarketTrusted trusted e = e\<lparr>applied_generation := (if trusted then market_generation e else 0)\<rparr>"

definition admission_refused :: "MEClientRequest \<Rightarrow> TradeEngine \<Rightarrow> bool" where
  "admission_refused r e \<longleftrightarrow> (\<not> admitting e \<and> rq_type r = Req_NEW) \<or> validate r \<noteq> Rej_NONE \<or>
     rq_client_id r \<noteq> te_client_id e \<or> \<not> reconciled e \<or> order_session e = Some False \<or> (rq_type r = Req_NEW \<and> \<not> marketReady e)"

definition sendClientRequest :: "MEClientRequest \<Rightarrow> TradeEngine \<Rightarrow> bool \<times> TradeEngine" where
  "sendClientRequest r e =
     (if admission_refused r e then (False, e\<lparr>rejected_requests := rejected_requests e + 1\<rparr>)
      else let (risk, m) = reserve (position_keeper e) r (risk_manager e) in
        if risk \<noteq> ALLOWED then (False, e\<lparr>risk_manager := m, rejected_requests := rejected_requests e + 1\<rparr>)
        else let (pushed, q) = try_push r (outgoing_ogw_requests e) in
          if pushed then (True, e\<lparr>risk_manager := m, outgoing_ogw_requests := q, accepted_requests := accepted_requests e + 1\<rparr>)
          else (False, e\<lparr>risk_manager := rollback r m, outgoing_ogw_requests := q, rejected_requests := rejected_requests e + 1\<rparr>))"

subsection \<open>Strategies\<close>

definition move_orders :: "TickerId \<Rightarrow> Price \<Rightarrow> Price \<Rightarrow> Qty \<Rightarrow> TradeEngine \<Rightarrow> TradeEngine option" where
  "move_orders ticker bid ask qty e =
     map_option (\<lambda>(m, e). e\<lparr>order_manager := m\<rparr>)
       (moveOrders sendClientRequest (te_client_id e) ticker bid ask qty (order_manager e, e))"

text \<open>\<open>ticker_cfg_.at\<close> fails outside the array.\<close>

definition maker_onOrderBookUpdate :: "TickerId \<Rightarrow> BBO \<Rightarrow> TradeEngine \<Rightarrow> TradeEngine option" where
  "maker_onOrderBookUpdate ticker bbo e =
     (let fair_price = getMktPrice ticker (feature_engine e); cfg = ticker_cfg e (unat ticker) in
      if bid_price bbo \<noteq> Price_INVALID \<and> ask_price bbo \<noteq> Price_INVALID \<and> is_finite fair_price then
        if unat ticker \<ge> ME_MAX_TICKERS then None
        else let bid = bid_price bbo - (if dle (threshold cfg) (dsub fair_price (double_of_int (bid_price bbo))) then 0 else 1) in
          if bid_price bbo \<le> 1 \<or> ask_price bbo \<ge> Price_INVALID - 1 then Some e
          else let ask = ask_price bbo + (if dle (threshold cfg) (dsub (double_of_int (ask_price bbo)) fair_price) then 0 else 1) in
            move_orders ticker bid ask (clip cfg) e
      else Some e)"

definition taker_onTradeUpdate :: "MEMarketUpdate \<Rightarrow> BBO \<Rightarrow> TradeEngine \<Rightarrow> TradeEngine option" where
  "taker_onTradeUpdate u bbo e =
     (let ratio = getAggTradeQtyRatio (mu_ticker_id u) (feature_engine e); cfg = ticker_cfg e (unat (mu_ticker_id u)) in
      if bid_price bbo \<noteq> Price_INVALID \<and> ask_price bbo \<noteq> Price_INVALID \<and> is_finite ratio then
        if unat (mu_ticker_id u) \<ge> ME_MAX_TICKERS then None
        else if dle (threshold cfg) ratio then
          (if mu_side u = BUY then move_orders (mu_ticker_id u) (ask_price bbo) Price_INVALID (clip cfg) e
           else move_orders (mu_ticker_id u) Price_INVALID (bid_price bbo) (clip cfg) e)
        else Some e
      else Some e)"

text \<open>The dispatch of the virtual calls; the passive strategy only logs.\<close>

definition strategy_onOrderBookUpdate :: "TickerId \<Rightarrow> BBO \<Rightarrow> TradeEngine \<Rightarrow> TradeEngine option" where
  "strategy_onOrderBookUpdate ticker bbo e =
     (if strategy e = Algo_MAKER then maker_onOrderBookUpdate ticker bbo e else Some e)"

definition strategy_onTradeUpdate :: "MEMarketUpdate \<Rightarrow> BBO \<Rightarrow> TradeEngine \<Rightarrow> TradeEngine option" where
  "strategy_onTradeUpdate u bbo e = (if strategy e = Algo_TAKER then taker_onTradeUpdate u bbo e else Some e)"

definition strategy_onOrderUpdate :: "MEClientResponse \<Rightarrow> TradeEngine \<Rightarrow> TradeEngine" where
  "strategy_onOrderUpdate r e =
     (if strategy e = Algo_MAKER \<or> strategy e = Algo_TAKER then e\<lparr>order_manager := om_onOrderUpdate r (order_manager e)\<rparr> else e)"

subsection \<open>Events\<close>

definition onOrderBookUpdate :: "TickerId \<Rightarrow> BBO \<Rightarrow> TradeEngine \<Rightarrow> TradeEngine option" where
  "onOrderBookUpdate ticker bbo e = do {
     k \<leftarrow> pk_updateBBO ticker bbo (position_keeper e);
     let e = e\<lparr>position_keeper := k, feature_engine := fe_onOrderBookUpdate ticker bbo (feature_engine e)\<rparr>;
     if marketReady e then strategy_onOrderBookUpdate ticker bbo e else Some e }"

definition onTradeUpdate :: "MEMarketUpdate \<Rightarrow> BBO \<Rightarrow> TradeEngine \<Rightarrow> TradeEngine option" where
  "onTradeUpdate u bbo e =
     (let e = e\<lparr>feature_engine := fe_onTradeUpdate u bbo (feature_engine e)\<rparr> in
      if marketReady e then strategy_onTradeUpdate u bbo e else Some e)"

text \<open>A response with an id is taken once, in increasing order.\<close>

definition response_duplicate :: "MEClientResponse \<Rightarrow> TradeEngine \<Rightarrow> bool" where
  "response_duplicate r e \<longleftrightarrow> rs_response_id r \<noteq> 0 \<and> rs_response_id r \<le> last_response_id e"

definition note_response_id :: "MEClientResponse \<Rightarrow> TradeEngine \<Rightarrow> TradeEngine" where
  "note_response_id r e = (if rs_response_id r \<noteq> 0 then e\<lparr>last_response_id := rs_response_id r\<rparr> else e)"

definition book_fill :: "MEClientResponse \<Rightarrow> PositionKeeper \<Rightarrow> PositionKeeper option" where
  "book_fill r k = (if rs_type r = Resp_FILLED then pk_addFill r k else Some k)"

definition settle_response :: "MEClientResponse \<Rightarrow> TradeEngine \<Rightarrow> TradeEngine option" where
  "settle_response r e = (let (taken, m) = risk_onResponse r (risk_manager e) in
     if \<not> taken then Some (e\<lparr>risk_manager := m, reconciled := False\<rparr>)
     else do {
       k \<leftarrow> book_fill r (position_keeper e);
       let e = e\<lparr>risk_manager := m, position_keeper := k\<rparr>;
       Some (if rs_type r = Resp_STATE \<and> rs_position r \<noteq> position (k (unat (rs_ticker_id r))) then e\<lparr>reconciled := False\<rparr>
             else strategy_onOrderUpdate r e) })"

definition onOrderUpdate :: "MEClientResponse \<Rightarrow> TradeEngine \<Rightarrow> TradeEngine option" where
  "onOrderUpdate r e =
     (if rs_client_id r \<noteq> te_client_id e \<or> unat (rs_ticker_id r) \<ge> ME_MAX_TICKERS then Some (e\<lparr>reconciled := False\<rparr>)
      else if response_duplicate r e then Some (e\<lparr>duplicate_responses := duplicate_responses e + 1\<rparr>)
      else if rs_response_id r = 0 \<and> rs_type r = Resp_FILLED then Some (e\<lparr>reconciled := False\<rparr>)
      else settle_response r (note_response_id r e))"

subsection \<open>The loop\<close>

text \<open>One pass through the inner loops of \<open>run\<close>: a response, or a market update.\<close>

definition response_iteration :: "TradeEngine \<Rightarrow> TradeEngine option" where
  "response_iteration e =
     (case peek (incoming_ogw_responses e) of None \<Rightarrow> Some e
      | Some r \<Rightarrow> do {
          e \<leftarrow> onOrderUpdate r e;
          q \<leftarrow> pop (incoming_ogw_responses e);
          Some (e\<lparr>incoming_ogw_responses := q\<rparr>) })"

definition market_event :: "MEMarketUpdate \<Rightarrow> TradeEngine \<Rightarrow> TradeEngine option" where
  "market_event u e =
     (if mu_type u = Mkt_RECOVERY_COMMIT then
        Some (if mu_priority u = market_generation e then e\<lparr>applied_generation := mu_priority u\<rparr> else e)
      else let t = unat (mu_ticker_id u) in
        if t \<ge> ME_MAX_TICKERS then None
        else do {
          (taken, notice, b) \<leftarrow> onMarketUpdate u (ticker_order_book e t);
          let e = e\<lparr>ticker_order_book := (ticker_order_book e)(t := b)\<rparr>;
          e \<leftarrow> (case notice of NoNotice \<Rightarrow> Some e
                | TradeSeen \<Rightarrow> onTradeUpdate u (mb_bbo b) e
                | BookChanged \<Rightarrow> onOrderBookUpdate (mu_ticker_id u) (mb_bbo b) e);
          Some (if taken then e else e\<lparr>market_generation := market_generation e + 1\<rparr>) })"

definition market_iteration :: "TradeEngine \<Rightarrow> TradeEngine option" where
  "market_iteration e =
     (case peek (incoming_md_updates e) of None \<Rightarrow> Some e
      | Some u \<Rightarrow> do {
          e \<leftarrow> market_event u e;
          q \<leftarrow> pop (incoming_md_updates e);
          Some (e\<lparr>incoming_md_updates := q\<rparr>) })"

subsection \<open>Shutdown\<close>

text \<open>\<open>quiesce\<close> retries each cancellation until it is queued, the session is lost or the deadline has passed. During a
  sleep the other threads run: \<open>env n\<close> is what the \<open>n\<close>-th sleep does to the engine, \<open>late n\<close> whether the deadline has passed
  at the \<open>n\<close>-th check. \<open>None\<close> is a loop that does not end.\<close>

partial_function (option) quiesce_send :: "(nat \<Rightarrow> TradeEngine \<Rightarrow> TradeEngine) \<Rightarrow> (nat \<Rightarrow> bool) \<Rightarrow> MEClientRequest \<Rightarrow> nat \<Rightarrow>
    TradeEngine \<Rightarrow> (bool \<times> nat \<times> TradeEngine) option" where
  "quiesce_send env late r n e =
     (let (sent, e) = sendClientRequest r e in
      if sent then Some (True, n, e)
      else if order_session e = Some False \<or> late n then Some (False, n, e)
      else quiesce_send env late r (n + 1) (env n e))"

primrec quiesce_all :: "(nat \<Rightarrow> TradeEngine \<Rightarrow> TradeEngine) \<Rightarrow> (nat \<Rightarrow> bool) \<Rightarrow> MEClientRequest list \<Rightarrow> nat \<Rightarrow>
    TradeEngine \<Rightarrow> TradeEngine option" where
  "quiesce_all env late [] n e = Some e"
| "quiesce_all env late (r # rs) n e = do {
     (sent, n, e) \<leftarrow> quiesce_send env late r n e;
     if sent then quiesce_all env late rs n e else Some e }"

definition quiesce :: "(nat \<Rightarrow> TradeEngine \<Rightarrow> TradeEngine) \<Rightarrow> (nat \<Rightarrow> bool) \<Rightarrow> TradeEngine \<Rightarrow> TradeEngine option" where
  "quiesce env late e = (let e = e\<lparr>admitting := False\<rparr> in
     quiesce_all env late (cancellations (te_client_id e) (risk_manager e)) 0 e)"

primrec append_all :: "(nat \<Rightarrow> WriteResult) \<Rightarrow> string list \<Rightarrow> Journal \<Rightarrow> Journal option" where
  "append_all sys [] j = Some j"
| "append_all sys (x # xs) j = Option.bind (journal_append sys x j) (append_all sys xs)"

definition account_text :: "ClientId \<Rightarrow> u64 \<Rightarrow> bool \<Rightarrow> string" where
  "account_text client epoch healthy = ''ACCOUNT '' @ nat_to_string (unat client) @ '' '' @ nat_to_string (unat epoch) @ '' '' @
     (if healthy then ''1'' else ''0'')"

definition position_text :: "nat \<Rightarrow> PositionInfo \<Rightarrow> string" where
  "position_text t i = ''POSITION '' @ nat_to_string t @ '' '' @ int_to_string (position i) @ '' '' @ nat_to_string (unat (volume i))"

definition writeCheckpoint :: "(nat \<Rightarrow> WriteResult) \<Rightarrow> u64 \<Rightarrow> bool \<Rightarrow> TradeEngine \<Rightarrow> Journal \<Rightarrow> Journal option" where
  "writeCheckpoint sys epoch healthy e j = do {
     j \<leftarrow> append_all sys [account_text (te_client_id e) epoch healthy] j;
     j \<leftarrow> append_all sys (map (\<lambda>t. position_text t (position_keeper e t)) [0..<ME_MAX_TICKERS]) j;
     append_all sys (map (request_text ''UNRESOLVED'') (cancellations (te_client_id e) (risk_manager e))) j }"

end
