(* ===== verification/Trade_Engine_Props.thy ===== *)
theory Trade_Engine_Props
  imports Trade_Engine "HOL-Library.Sublist"
begin

text \<open>
  The trading client among its threads: a list of events runs the engine against arbitrary arrivals of responses and
  market updates, a gateway that takes the queued requests, changes of the market data generation and of the session,
  and requests sent from another thread. Whatever happens, positions stay within their limits, every request that
  leaves the client is well formed, and the orders of the strategy carry consecutive ids.
\<close>

datatype TradeEvent = ArriveResponse MEClientResponse | ArriveUpdate MEMarketUpdate | WorkResponse | WorkMarket
  | SendRequest MEClientRequest | TakeRequest | NewGeneration | SetSession "bool option" | StopAdmitting

text \<open>The list is what the gateway has taken.\<close>

fun trade_event :: "TradeEvent \<Rightarrow> TradeEngine \<times> MEClientRequest list \<Rightarrow> (TradeEngine \<times> MEClientRequest list) option" where
  "trade_event (ArriveResponse r) (e, out) = Some (e\<lparr>incoming_ogw_responses := snd (try_push r (incoming_ogw_responses e))\<rparr>, out)"
| "trade_event (ArriveUpdate u) (e, out) = Some (e\<lparr>incoming_md_updates := snd (try_push u (incoming_md_updates e))\<rparr>, out)"
| "trade_event WorkResponse (e, out) = map_option (\<lambda>e. (e, out)) (response_iteration e)"
| "trade_event WorkMarket (e, out) = map_option (\<lambda>e. (e, out)) (market_iteration e)"
| "trade_event (SendRequest r) (e, out) = Some (snd (sendClientRequest r e), out)"
| "trade_event TakeRequest (e, out) =
     (let (r, q) = try_pop (outgoing_ogw_requests e) in
      Some (e\<lparr>outgoing_ogw_requests := q\<rparr>, out @ (case r of None \<Rightarrow> [] | Some x \<Rightarrow> [x])))"
| "trade_event NewGeneration (e, out) = Some (e\<lparr>market_generation := market_generation e + 1\<rparr>, out)"
| "trade_event (SetSession s) (e, out) = Some (e\<lparr>order_session := s\<rparr>, out)"
| "trade_event StopAdmitting (e, out) = Some (e\<lparr>admitting := False\<rparr>, out)"

fun trade_run :: "TradeEvent list \<Rightarrow> TradeEngine \<times> MEClientRequest list \<Rightarrow> (TradeEngine \<times> MEClientRequest list) option" where
  "trade_run [] s = Some s"
| "trade_run (v # vs) s = Option.bind (trade_event v s) (trade_run vs)"

subsection \<open>The invariant\<close>

text \<open>Whom the engine trades for, and its limits.\<close>

type_synonym Account = "ClientId \<times> (nat \<Rightarrow> double RiskCfg)"

definition limits_small :: "(nat \<Rightarrow> double RiskCfg) \<Rightarrow> RiskManager \<Rightarrow> bool" where
  "limits_small L m \<longleftrightarrow> ticker_risk m = L \<and> (\<forall>t < ME_MAX_TICKERS. max_position (L t) \<le> 0x7FFFFFFF)"

definition update_known :: "MEMarketUpdate \<Rightarrow> bool" where
  "update_known u \<longleftrightarrow> mu_type u = Mkt_RECOVERY_COMMIT \<or> unat (mu_ticker_id u) < ME_MAX_TICKERS"

definition request_ok :: "Account \<Rightarrow> MEClientRequest \<Rightarrow> bool" where
  "request_ok client r \<longleftrightarrow> validate r = Rej_NONE \<and> rq_client_id r = fst client"

definition new_ids :: "MEClientRequest list \<Rightarrow> OrderId list" where
  "new_ids rs = map rq_order_id (filter (\<lambda>r. rq_type r = Req_NEW) rs)"

definition te_ok :: "Account \<Rightarrow> TradeEngine \<Rightarrow> bool" where
  "te_ok client e \<longleftrightarrow> risk_ok (position_keeper e) (risk_manager e) \<and> limits_small (snd client) (risk_manager e) \<and>
     client_ok (ticker_order_book e) \<and> te_client_id e = fst client \<and> queue_ok (outgoing_ogw_requests e) \<and>
     queue_ok (incoming_ogw_responses e) \<and> queue_ok (incoming_md_updates e) \<and>
     list_all update_known (contents (incoming_md_updates e))"

text \<open>\<open>own\<close>: every request is sent by the order manager, so the ids of new orders are 1, 2, 3, ...\<close>

definition ids_ok :: "bool \<Rightarrow> OrderManager \<Rightarrow> MEClientRequest list \<Rightarrow> bool" where
  "ids_ok own m rs \<longleftrightarrow> (own \<longrightarrow> 1 \<le> unat (next_order_id m) \<and> new_ids rs = map of_nat [1..<unat (next_order_id m)])"

subsection \<open>Sending\<close>

text \<open>What a call of \<open>sendClientRequest\<close> leaves alone; the queue of requests only grows.\<close>

definition send_frame :: "TradeEngine \<Rightarrow> TradeEngine \<Rightarrow> bool" where
  "send_frame e e' \<longleftrightarrow> ticker_order_book e' = ticker_order_book e \<and> position_keeper e' = position_keeper e \<and>
     incoming_ogw_responses e' = incoming_ogw_responses e \<and> incoming_md_updates e' = incoming_md_updates e \<and>
     te_client_id e' = te_client_id e \<and> strategy e' = strategy e \<and> ticker_cfg e' = ticker_cfg e \<and>
     feature_engine e' = feature_engine e \<and> market_generation e' = market_generation e \<and>
     applied_generation e' = applied_generation e \<and> order_manager e' = order_manager e \<and>
     reconciled e' = reconciled e \<and> last_response_id e' = last_response_id e \<and>
     prefix (contents (outgoing_ogw_requests e)) (contents (outgoing_ogw_requests e'))"

definition sent_ok :: "Account \<Rightarrow> bool \<Rightarrow> MEClientRequest list \<Rightarrow> TradeEngine \<Rightarrow> OrderManager \<times> TradeEngine \<Rightarrow> bool" where
  "sent_ok client own out e0 = (\<lambda>(m, e). send_frame e0 e \<and> te_ok client e \<and>
     list_all (request_ok client) (out @ contents (outgoing_ogw_requests e)) \<and>
     ids_ok own m (out @ contents (outgoing_ogw_requests e)))"

lemma send_frame_refl [simp]: "send_frame e e"
  by (simp add: send_frame_def)

lemma send_frame_trans: "send_frame a b \<Longrightarrow> send_frame b c \<Longrightarrow> send_frame a c"
  by (auto simp: send_frame_def intro: prefix_order.trans)

lemma send_spec:
  assumes ok: "te_ok client e" and s: "sendClientRequest r e = (b, e')"
  shows "te_ok client e'" "send_frame e e'"
    "contents (outgoing_ogw_requests e') = contents (outgoing_ogw_requests e) @ (if b then [r] else [])"
    "b \<Longrightarrow> request_ok client r"
proof -
  obtain c m where rv: "reserve (position_keeper e) r (risk_manager e) = (c, m)" by fastforce
  obtain p q where pu: "try_push r (outgoing_ogw_requests e) = (p, q)" by fastforce
  have ok': "risk_ok (position_keeper e) (risk_manager e)" "queue_ok (outgoing_ogw_requests e)" using ok by (auto simp: te_ok_def)
  note R = reserve_ok [OF ok'(1) rv] and Q = push_contents [OF ok'(2) pu]
  have rb: "risk_ok (position_keeper e) (rollback r m)" "ticker_risk (rollback r m) = ticker_risk m"
    using rollback_ok [OF R(1)] by auto
  note D = te_ok_def send_frame_def limits_small_def request_ok_def
  have "te_ok client e' \<and> send_frame e e' \<and>
      contents (outgoing_ogw_requests e') = contents (outgoing_ogw_requests e) @ (if b then [r] else []) \<and> (b \<longrightarrow> request_ok client r)"
  proof (cases "admission_refused r e")
    case True
    with s have "b = False" "e' = e\<lparr>rejected_requests := rejected_requests e + 1\<rparr>" by (simp_all add: sendClientRequest_def)
    with ok show ?thesis by (simp add: D)
  next
    case adm: False
    show ?thesis
    proof (cases "c = ALLOWED")
      case False
      with s adm have "b = False" "e' = e\<lparr>risk_manager := m, rejected_requests := rejected_requests e + 1\<rparr>"
        by (simp_all add: sendClientRequest_def rv)
      with ok R(1,2) show ?thesis by (simp add: D)
    next
      case c: True
      show ?thesis
      proof (cases p)
        case True
        with s adm c have "b = True"
          "e' = e\<lparr>risk_manager := m, outgoing_ogw_requests := q, accepted_requests := accepted_requests e + 1\<rparr>"
          by (simp_all add: sendClientRequest_def rv pu)
        with ok R(1,2) Q adm True show ?thesis by (simp add: D admission_refused_def)
      next
        case False
        with s adm c have "b = False"
          "e' = e\<lparr>risk_manager := rollback r m, outgoing_ogw_requests := q, rejected_requests := rejected_requests e + 1\<rparr>"
          by (simp_all add: sendClientRequest_def rv pu)
        with ok R(1,2) Q rb False show ?thesis by (simp add: D)
      qed
    qed
  qed
  then show "te_ok client e'" "send_frame e e'"
    "contents (outgoing_ogw_requests e') = contents (outgoing_ogw_requests e) @ (if b then [r] else [])"
    "b \<Longrightarrow> request_ok client r" by auto
qed

lemma valid_id: "validate r = Rej_NONE \<Longrightarrow> unat (rq_order_id r) < ME_MAX_ORDER_IDS"
  by (auto simp: validate_def split: if_splits)

lemma ids_new:
  assumes "ids_ok own m rs" "rq_type r = Req_NEW" "rq_order_id r = next_order_id m" "unat (next_order_id m) < ME_MAX_ORDER_IDS"
  shows "ids_ok own (m'\<lparr>next_order_id := next_order_id m + 1\<rparr>) (rs @ [r])"
proof -
  have "unat (next_order_id m + 1) = Suc (unat (next_order_id m))"
    using assms(4) by (simp add: limits unat_word_ariths)
  then show ?thesis using assms(1-3) by (auto simp: ids_ok_def new_ids_def)
qed

lemma ids_other: "ids_ok own m rs \<Longrightarrow> rq_type r \<noteq> Req_NEW \<Longrightarrow> next_order_id m' = next_order_id m \<Longrightarrow> ids_ok own m' (rs @ [r])"
  by (auto simp: ids_ok_def new_ids_def)

lemma mk_request_sel [simp]:
  "rq_type (mk_request ty c t i s p q) = ty" "rq_order_id (mk_request ty c t i s p q) = i"
  by (simp_all add: mk_request_def)

lemma set_slot_next [simp]: "next_order_id (set_slot t i ord m) = next_order_id m"
  by (simp add: set_slot_def)

lemma newOrder_ok:
  assumes "sent_ok client own out e0 (m, e)"
  shows "sent_ok client own out e0 (newOrder sendClientRequest c t i ticker price side qty (m, e))"
proof -
  let ?r = "mk_request Req_NEW c ticker (next_order_id m) side price qty"
  obtain b e' where s: "sendClientRequest ?r e = (b, e')" by fastforce
  have ok: "te_ok client e" using assms by (simp add: sent_ok_def)
  note S = send_spec [OF ok s]
  show ?thesis
  proof (cases b)
    case True
    have "unat (next_order_id m) < ME_MAX_ORDER_IDS" using S(4) [OF True] valid_id [of ?r] by (simp add: request_ok_def)
    from ids_new [OF _ _ _ this, of own "out @ contents (outgoing_ogw_requests e)" ?r] True S assms s show ?thesis
      by (auto simp: newOrder_def sent_ok_def intro: send_frame_trans)
  next
    case False
    then show ?thesis using S assms s by (auto simp: newOrder_def sent_ok_def intro: send_frame_trans)
  qed
qed

lemma cancelOrder_ok:
  assumes "sent_ok client own out e0 (m, e)"
  shows "sent_ok client own out e0 (cancelOrder sendClientRequest c t i (m, e))"
proof -
  let ?o = "ticker_side_order m t i"
  let ?r = "mk_request Req_CANCEL c (om_ticker_id ?o) (om_order_id ?o) (om_side ?o) (om_price ?o) (om_qty ?o)"
  obtain b e' where s: "sendClientRequest ?r e = (b, e')" by fastforce
  have ok: "te_ok client e" using assms by (simp add: sent_ok_def)
  note S = send_spec [OF ok s]
  show ?thesis using S assms s ids_other [of own m "out @ contents (outgoing_ogw_requests e)" ?r "set_slot t i (?o\<lparr>om_state := PENDING_CANCEL\<rparr>) m"]
    by (cases b) (auto simp: cancelOrder_def sent_ok_def intro: send_frame_trans)
qed

lemma moveOrder_ok:
  assumes "sent_ok client own out e0 me"
  shows "sent_ok client own out e0 (moveOrder sendClientRequest c t i ticker price side qty me)"
  using assms newOrder_ok [of client own out e0 "fst me" "snd me"] cancelOrder_ok [of client own out e0 "fst me" "snd me"]
  by (cases me) (auto simp: moveOrder_def split: OMOrderState.splits)

subsection \<open>Strategies\<close>

definition eng_ok :: "Account \<Rightarrow> bool \<Rightarrow> MEClientRequest list \<Rightarrow> TradeEngine \<Rightarrow> bool" where
  "eng_ok client own out e \<longleftrightarrow> sent_ok client own out e (order_manager e, e)"

text \<open>The two input queues and the generation are left alone by everything the strategy does.\<close>

definition quiet :: "TradeEngine \<Rightarrow> TradeEngine \<Rightarrow> bool" where
  "quiet e e' \<longleftrightarrow> incoming_ogw_responses e' = incoming_ogw_responses e \<and> incoming_md_updates e' = incoming_md_updates e \<and>
     position_keeper e' = position_keeper e \<and> ticker_order_book e' = ticker_order_book e \<and> strategy e' = strategy e \<and>
     reconciled e' = reconciled e \<and> last_response_id e' = last_response_id e \<and>
     market_generation e' = market_generation e \<and> applied_generation e' = applied_generation e \<and>
     prefix (contents (outgoing_ogw_requests e)) (contents (outgoing_ogw_requests e'))"

lemma move_orders_ok:
  assumes ok: "eng_ok client own out e" and t: "unat ticker < ME_MAX_TICKERS"
  shows "\<exists>e'. move_orders ticker bid ask qty e = Some e' \<and> eng_ok client own out e' \<and> quiet e e'"
proof -
  obtain m e1 where r: "moveOrder sendClientRequest (te_client_id e) (unat ticker) (sideToIndex SELL) ticker ask SELL qty
      (moveOrder sendClientRequest (te_client_id e) (unat ticker) (sideToIndex BUY) ticker bid BUY qty (order_manager e, e)) = (m, e1)"
    by fastforce
  have s: "sent_ok client own out e (m, e1)"
    unfolding r [symmetric] by (intro moveOrder_ok) (use ok in \<open>simp add: eng_ok_def\<close>)
  have "move_orders ticker bid ask qty e = Some (e1\<lparr>order_manager := m\<rparr>)"
    using t r by (simp add: move_orders_def moveOrders_def Let_def)
  moreover have "eng_ok client own out (e1\<lparr>order_manager := m\<rparr>)" using s by (simp add: eng_ok_def sent_ok_def te_ok_def)
  moreover have "quiet e (e1\<lparr>order_manager := m\<rparr>)" using s by (simp add: sent_ok_def send_frame_def quiet_def)
  ultimately show ?thesis by blast
qed

lemma quiet_refl [simp]: "quiet e e"
  by (simp add: quiet_def)

lemma strategy_book_ok:
  assumes ok: "eng_ok client own out e" and t: "unat ticker < ME_MAX_TICKERS"
  shows "\<exists>e'. strategy_onOrderBookUpdate ticker bbo e = Some e' \<and> eng_ok client own out e' \<and> quiet e e'"
  using move_orders_ok [OF ok t] ok t
  by (auto simp: strategy_onOrderBookUpdate_def maker_onOrderBookUpdate_def Let_def)

lemma strategy_trade_ok:
  assumes ok: "eng_ok client own out e" and t: "unat (mu_ticker_id u) < ME_MAX_TICKERS"
  shows "\<exists>e'. strategy_onTradeUpdate u bbo e = Some e' \<and> eng_ok client own out e' \<and> quiet e e'"
  using move_orders_ok [OF ok t] ok t
  by (auto simp: strategy_onTradeUpdate_def taker_onTradeUpdate_def Let_def)

lemma eng_ok_frame:
  assumes "eng_ok client own out e" and "te_ok client e'"
    and "outgoing_ogw_requests e' = outgoing_ogw_requests e" "next_order_id (order_manager e') = next_order_id (order_manager e)"
  shows "eng_ok client own out e'"
  using assms by (simp add: eng_ok_def sent_ok_def ids_ok_def)

lemma eng_okD:
  assumes "eng_ok client own out e"
  shows "te_ok client e" "risk_ok (position_keeper e) (risk_manager e)" "limits_small (snd client) (risk_manager e)"
    "client_ok (ticker_order_book e)" "queue_ok (incoming_ogw_responses e)" "queue_ok (incoming_md_updates e)"
    "list_all update_known (contents (incoming_md_updates e))"
  using assms by (simp_all add: eng_ok_def sent_ok_def te_ok_def)

lemma bounded_positions:
  assumes "eng_ok client own out e" "t < ME_MAX_TICKERS"
  shows "\<bar>position (position_keeper e t)\<bar> \<le> 2 ^ 31"
  using fill_bounded [OF eng_okD(2) [OF assms(1)] assms(2)] eng_okD(3) [OF assms(1)] assms(2) by (simp add: limits_small_def)

subsection \<open>Events\<close>

definition same_inputs :: "TradeEngine \<Rightarrow> TradeEngine \<Rightarrow> bool" where
  "same_inputs e e' \<longleftrightarrow> incoming_ogw_responses e' = incoming_ogw_responses e \<and> incoming_md_updates e' = incoming_md_updates e \<and>
     prefix (contents (outgoing_ogw_requests e)) (contents (outgoing_ogw_requests e'))"

lemma same_inputs_trans: "same_inputs a b \<Longrightarrow> same_inputs b c \<Longrightarrow> same_inputs a c"
  by (auto simp: same_inputs_def intro: prefix_order.trans)

text \<open>Market data moves no position and does not touch the bookkeeping of responses.\<close>

definition same_account :: "TradeEngine \<Rightarrow> TradeEngine \<Rightarrow> bool" where
  "same_account e e' \<longleftrightarrow> (\<forall>t. position (position_keeper e' t) = position (position_keeper e t)) \<and> reconciled e' = reconciled e \<and>
     last_response_id e' = last_response_id e"

lemma same_account_refl [simp]: "same_account e e"
  by (simp add: same_account_def)

text \<open>The books, and what the engine holds of the market data.\<close>

definition same_market :: "TradeEngine \<Rightarrow> TradeEngine \<Rightarrow> bool" where
  "same_market e e' \<longleftrightarrow> ticker_order_book e' = ticker_order_book e \<and> market_generation e' = market_generation e \<and>
     applied_generation e' = applied_generation e"

lemma same_market_refl [simp]: "same_market e e"
  by (simp add: same_market_def)

definition market_moves :: "MEMarketUpdate \<Rightarrow> TradeEngine \<Rightarrow> TradeEngine \<Rightarrow> bool" where
  "market_moves u e e' \<longleftrightarrow>
     (if mu_type u = Mkt_RECOVERY_COMMIT then ticker_order_book e' = ticker_order_book e \<and> market_generation e' = market_generation e \<and>
        applied_generation e' = (if mu_priority u = market_generation e then mu_priority u else applied_generation e)
      else applied_generation e' = applied_generation e \<and> (\<exists>taken nt b.
        onMarketUpdate u (ticker_order_book e (unat (mu_ticker_id u))) = Some (taken, nt, b) \<and>
        ticker_order_book e' = (ticker_order_book e)(unat (mu_ticker_id u) := b) \<and>
        market_generation e' = market_generation e + (if taken then 0 else 1)))"

lemma risk_ok_cong: "(\<And>t. position (k' t) = position (k t)) \<Longrightarrow> risk_ok k' m = risk_ok k m"
  by (simp add: risk_ok_def limit_ok_def)

lemma onOrderBookUpdate_ok:
  assumes ok: "eng_ok client own out e" and t: "unat ticker < ME_MAX_TICKERS"
  shows "\<exists>e'. onOrderBookUpdate ticker bbo e = Some e' \<and> eng_ok client own out e' \<and> same_inputs e e' \<and> same_account e e' \<and> same_market e e'"
proof -
  let ?t = "unat ticker"
  have "\<bar>position (position_keeper e ?t)\<bar> \<le> 2 ^ 62" using bounded_positions [OF ok t] by simp
  then obtain j where j: "position_updateBBO bbo (position_keeper e ?t) = Some j" "position j = position (position_keeper e ?t)"
    using position_updateBBO_ok by blast
  let ?k = "(position_keeper e)(?t := j)"
  define e1 where "e1 = e\<lparr>position_keeper := ?k, feature_engine := fe_onOrderBookUpdate ticker bbo (feature_engine e)\<rparr>"
  have "risk_ok ?k (risk_manager e) = risk_ok (position_keeper e) (risk_manager e)" by (rule risk_ok_cong) (simp add: j)
  then have "te_ok client e1" using eng_okD(1) [OF ok] by (simp add: te_ok_def e1_def)
  then have e1: "eng_ok client own out e1" by (rule eng_ok_frame [OF ok]) (simp_all add: e1_def)
  have run: "onOrderBookUpdate ticker bbo e = (if marketReady e1 then strategy_onOrderBookUpdate ticker bbo e1 else Some e1)"
    using t j(1) by (simp add: onOrderBookUpdate_def pk_updateBBO_def e1_def Let_def)
  show ?thesis using strategy_book_ok [OF e1 t, of bbo] e1
    by (auto simp: run same_inputs_def same_account_def same_market_def quiet_def) (auto simp: e1_def j)
qed

lemma onTradeUpdate_ok:
  assumes ok: "eng_ok client own out e" and t: "unat (mu_ticker_id u) < ME_MAX_TICKERS"
  shows "\<exists>e'. onTradeUpdate u bbo e = Some e' \<and> eng_ok client own out e' \<and> same_inputs e e' \<and> same_account e e' \<and> same_market e e'"
proof -
  define e1 where "e1 = e\<lparr>feature_engine := fe_onTradeUpdate u bbo (feature_engine e)\<rparr>"
  have "te_ok client e1" using eng_okD(1) [OF ok] by (simp add: te_ok_def e1_def)
  then have e1: "eng_ok client own out e1" by (rule eng_ok_frame [OF ok]) (simp_all add: e1_def)
  have run: "onTradeUpdate u bbo e = (if marketReady e1 then strategy_onTradeUpdate u bbo e1 else Some e1)"
    by (simp add: onTradeUpdate_def e1_def Let_def)
  show ?thesis using strategy_trade_ok [OF e1 t, of bbo] e1
    by (auto simp: run same_inputs_def same_account_def same_market_def quiet_def) (auto simp: e1_def)
qed

lemma market_event_ok:
  assumes ok: "eng_ok client own out e" and u: "update_known u"
  shows "\<exists>e'. market_event u e = Some e' \<and> eng_ok client own out e' \<and> same_inputs e e' \<and> same_account e e' \<and> market_moves u e e'"
proof (cases "mu_type u = Mkt_RECOVERY_COMMIT")
  case True
  define e' where "e' = (if mu_priority u = market_generation e then e\<lparr>applied_generation := mu_priority u\<rparr> else e)"
  have "te_ok client e'" using eng_okD(1) [OF ok] by (simp add: te_ok_def e'_def)
  then have "eng_ok client own out e'" by (rule eng_ok_frame [OF ok]) (simp_all add: e'_def)
  then show ?thesis using True by (simp add: market_event_def e'_def same_inputs_def same_account_def market_moves_def)
next
  case False
  let ?t = "unat (mu_ticker_id u)"
  have t: "?t < ME_MAX_TICKERS" using u False by (simp add: update_known_def)
  have "mb_good (ticker_order_book e ?t)" using eng_okD(4) [OF ok] t by (simp add: client_ok_def)
  from onMarketUpdate_total [OF this, of u] obtain taken nt b where b: "onMarketUpdate u (ticker_order_book e ?t) = Some (taken, nt, b)"
    "mb_good b" "mb_ticker_id b = mb_ticker_id (ticker_order_book e ?t)" by blast
  define e1 where "e1 = e\<lparr>ticker_order_book := (ticker_order_book e)(?t := b)\<rparr>"
  have "client_ok ((ticker_order_book e)(?t := b))" using eng_okD(4) [OF ok] b(2,3) by (simp add: client_ok_def)
  then have "te_ok client e1" using eng_okD(1) [OF ok] by (simp add: te_ok_def e1_def)
  then have e1: "eng_ok client own out e1" by (rule eng_ok_frame [OF ok]) (simp_all add: e1_def)
  obtain e2 where e2: "(case nt of NoNotice \<Rightarrow> Some e1 | TradeSeen \<Rightarrow> onTradeUpdate u (mb_bbo b) e1
      | BookChanged \<Rightarrow> onOrderBookUpdate (mu_ticker_id u) (mb_bbo b) e1) = Some e2" "eng_ok client own out e2" "same_inputs e1 e2" "same_account e1 e2"
      "same_market e1 e2"
    using onTradeUpdate_ok [OF e1 t] onOrderBookUpdate_ok [OF e1 t] e1 by (cases nt) (auto simp: same_inputs_def)
  define e3 where "e3 = (if taken then e2 else e2\<lparr>market_generation := market_generation e2 + 1\<rparr>)"
  have "te_ok client e3" using eng_okD(1) [OF e2(2)] by (simp add: te_ok_def e3_def)
  then have "eng_ok client own out e3" by (rule eng_ok_frame [OF e2(2)]) (simp_all add: e3_def)
  moreover have "market_event u e = Some e3"
    using False t b(1) e2(1) [unfolded e1_def] by (simp add: market_event_def Let_def e3_def)
  moreover have "same_inputs e e3" "same_account e e3" using e2(3,4) by (simp_all add: same_inputs_def same_account_def e3_def e1_def)
  moreover have "market_moves u e e3" using e2(5) False b(1) by (auto simp: market_moves_def same_market_def e3_def e1_def)
  ultimately show ?thesis by blast
qed

lemma om_onOrderUpdate_next [simp]: "next_order_id (om_onOrderUpdate r m) = next_order_id m"
  by (simp add: om_onOrderUpdate_def Let_def split: option.splits)

lemma strategy_onOrderUpdate_ok:
  assumes ok: "eng_ok client own out e"
  shows "eng_ok client own out (strategy_onOrderUpdate r e)" "same_inputs e (strategy_onOrderUpdate r e)"
proof -
  have "te_ok client (strategy_onOrderUpdate r e)" using eng_okD(1) [OF ok] by (simp add: te_ok_def strategy_onOrderUpdate_def)
  then show "eng_ok client own out (strategy_onOrderUpdate r e)"
    by (rule eng_ok_frame [OF ok]) (simp_all add: strategy_onOrderUpdate_def)
  show "same_inputs e (strategy_onOrderUpdate r e)" by (simp add: same_inputs_def strategy_onOrderUpdate_def)
qed

text \<open>A fill the risk manager has accepted can be booked.\<close>

lemma fill_booked:
  assumes ok: "risk_ok k m" and lim: "limits_small L m" and r: "risk_onResponse r m = (True, m')" "rs_type r = Resp_FILLED"
  shows "\<exists>k'. pk_addFill r k = Some k' \<and> risk_ok k' m'"
proof -
  let ?t = "unat (rs_ticker_id r)" and ?n = "position (k (unat (rs_ticker_id r))) + uint (rs_exec_qty r) * sideToValue (rs_side r)"
  let ?k = "k(?t := (k ?t)\<lparr>position := ?n\<rparr>)"
  note F = response_fill [OF ok r, of ?k]
  have t: "?t < ME_MAX_TICKERS" and s: "rs_side r \<in> {BUY, SELL}" and ok': "risk_ok ?k m'" using F by simp_all
  have lim': "limits_small L m'" using lim response_frame(1) [OF r(1)] by (simp add: limits_small_def)
  have "\<bar>position (k ?t)\<bar> \<le> 2 ^ 31" "\<bar>?n\<bar> \<le> 2 ^ 31"
    using fill_bounded [OF ok t] fill_bounded [OF ok' t] lim lim' t by (simp_all add: limits_small_def)
  then obtain j where j: "addFill r (k ?t) = Some j" "position j = ?n" using addFill_ok [of "k ?t" r] s by blast
  have "risk_ok (k(?t := j)) m' = risk_ok ?k m'" by (rule risk_ok_cong) (simp add: j)
  then show ?thesis using j(1) t ok' by (simp add: pk_addFill_def Let_def)
qed

lemma settle_response_ok:
  assumes ok: "eng_ok client own out e"
  shows "\<exists>e'. settle_response r e = Some e' \<and> eng_ok client own out e' \<and> same_inputs e e'"
proof -
  note te = eng_okD(1) [OF ok]
  obtain taken m where r: "risk_onResponse r (risk_manager e) = (taken, m)" by fastforce
  note R = response_frame [OF r]
  have lim: "limits_small (snd client) m" using eng_okD(3) [OF ok] R(1) by (simp add: limits_small_def)
  show ?thesis
  proof (cases taken)
    case False
    let ?e = "e\<lparr>risk_manager := m, reconciled := False\<rparr>"
    have "te_ok client ?e" using te R(2) [OF False] by (simp add: te_ok_def)
    then have "eng_ok client own out ?e" by (rule eng_ok_frame [OF ok]) simp_all
    then show ?thesis using r False by (simp add: settle_response_def same_inputs_def)
  next
    case True
    obtain k where k: "book_fill r (position_keeper e) = Some k" "risk_ok k m"
      using fill_booked [OF eng_okD(2,3) [OF ok], of r m] response_keeps [OF eng_okD(2) [OF ok] r] r True
      by (cases "rs_type r = Resp_FILLED") (auto simp: book_fill_def)
    define e2 where "e2 = e\<lparr>risk_manager := m, position_keeper := k\<rparr>"
    have "te_ok client e2" using te k(2) lim by (simp add: te_ok_def e2_def)
    then have e2: "eng_ok client own out e2" by (rule eng_ok_frame [OF ok]) (simp_all add: e2_def)
    have i2: "same_inputs e e2" by (simp add: same_inputs_def e2_def)
    define bad where "bad \<longleftrightarrow> rs_type r = Resp_STATE \<and> rs_position r \<noteq> position (k (unat (rs_ticker_id r)))"
    have run: "settle_response r e = Some (if bad then e2\<lparr>reconciled := False\<rparr> else strategy_onOrderUpdate r e2)"
      using True r k(1) by (simp add: settle_response_def e2_def bad_def Let_def)
    have "te_ok client (e2\<lparr>reconciled := False\<rparr>)" using eng_okD(1) [OF e2] by (simp add: te_ok_def)
    then have "eng_ok client own out (e2\<lparr>reconciled := False\<rparr>)" by (rule eng_ok_frame [OF e2]) simp_all
    then show ?thesis using run strategy_onOrderUpdate_ok [OF e2, of r] i2 same_inputs_trans [OF i2]
      by (cases bad) (auto simp: same_inputs_def)
  qed
qed

lemma onOrderUpdate_ok:
  assumes ok: "eng_ok client own out e"
  shows "\<exists>e'. onOrderUpdate r e = Some e' \<and> eng_ok client own out e' \<and> same_inputs e e'"
proof -
  note te = eng_okD(1) [OF ok]
  let ?n = "note_response_id r e"
  have "te_ok client (e\<lparr>reconciled := False\<rparr>)" "te_ok client (e\<lparr>duplicate_responses := duplicate_responses e + 1\<rparr>)"
    "te_ok client ?n" using te by (simp_all add: te_ok_def note_response_id_def)
  then have "eng_ok client own out (e\<lparr>reconciled := False\<rparr>)"
    "eng_ok client own out (e\<lparr>duplicate_responses := duplicate_responses e + 1\<rparr>)" "eng_ok client own out ?n"
    by (auto intro!: eng_ok_frame [OF ok] simp: note_response_id_def)
  moreover have "same_inputs e ?n" by (simp add: same_inputs_def note_response_id_def)
  moreover obtain e' where "settle_response r ?n = Some e'" "eng_ok client own out e'" "same_inputs ?n e'"
    using settle_response_ok [OF calculation(3)] by blast
  ultimately show ?thesis unfolding onOrderUpdate_def using same_inputs_trans [of e ?n e'] by (simp add: same_inputs_def)
qed

subsection \<open>Runs\<close>

lemma response_iteration_ok:
  assumes ok: "eng_ok client own out e"
  shows "\<exists>e'. response_iteration e = Some e' \<and> eng_ok client own out e'"
proof (cases "contents (incoming_ogw_responses e)")
  case Nil
  then show ?thesis using peek_pop(1) [OF eng_okD(5) [OF ok]] ok by (simp add: response_iteration_def)
next
  case (Cons r rs)
  have p: "peek (incoming_ogw_responses e) = Some r" using peek_pop(1) [OF eng_okD(5) [OF ok]] Cons by simp
  obtain e1 where e1: "onOrderUpdate r e = Some e1" "eng_ok client own out e1" "same_inputs e e1" using onOrderUpdate_ok [OF ok] by blast
  have q1: "incoming_ogw_responses e1 = incoming_ogw_responses e" using e1(3) by (simp add: same_inputs_def)
  obtain q where q: "pop (incoming_ogw_responses e1) = Some q" "queue_ok q"
    using peek_pop(2) [OF eng_okD(5) [OF ok]] Cons q1 by auto
  have "te_ok client (e1\<lparr>incoming_ogw_responses := q\<rparr>)" using eng_okD(1) [OF e1(2)] q(2) by (simp add: te_ok_def)
  then have "eng_ok client own out (e1\<lparr>incoming_ogw_responses := q\<rparr>)" by (rule eng_ok_frame [OF e1(2)]) simp_all
  then show ?thesis using p e1(1) q(1) by (simp add: response_iteration_def)
qed

lemma market_iteration_moves:
  assumes ok: "eng_ok client own out e" and c: "contents (incoming_md_updates e) = u # us"
  shows "\<exists>e'. market_iteration e = Some e' \<and> eng_ok client own out e' \<and> same_account e e' \<and> market_moves u e e' \<and>
     incoming_ogw_responses e' = incoming_ogw_responses e \<and> contents (incoming_md_updates e') = us \<and>
     prefix (contents (outgoing_ogw_requests e)) (contents (outgoing_ogw_requests e'))"
proof -
  have p: "peek (incoming_md_updates e) = Some u" using peek_pop(1) [OF eng_okD(6) [OF ok]] c by simp
  have "update_known u" "list_all update_known us" using eng_okD(7) [OF ok] c by simp_all
  then obtain e1 where e1: "market_event u e = Some e1" "eng_ok client own out e1" "same_inputs e e1" "same_account e e1" "market_moves u e e1"
    using market_event_ok [OF ok] by blast
  have q1: "incoming_md_updates e1 = incoming_md_updates e" using e1(3) by (simp add: same_inputs_def)
  obtain q where q: "pop (incoming_md_updates e1) = Some q" "queue_ok q" "contents q = us"
    using peek_pop(2) [OF eng_okD(6) [OF ok]] c q1 by auto
  let ?e = "e1\<lparr>incoming_md_updates := q\<rparr>"
  have "te_ok client ?e" using eng_okD(1) [OF e1(2)] q(2,3) \<open>list_all update_known us\<close> by (simp add: te_ok_def)
  then have "eng_ok client own out ?e" by (rule eng_ok_frame [OF e1(2)]) simp_all
  moreover have "market_moves u e ?e" using e1(5) by (simp add: market_moves_def split: if_splits)
  ultimately show ?thesis using p e1(1,3,4) q(1,3) by (simp add: market_iteration_def same_inputs_def same_account_def)
qed

lemma market_iteration_ok:
  assumes ok: "eng_ok client own out e"
  shows "\<exists>e'. market_iteration e = Some e' \<and> eng_ok client own out e' \<and> same_account e e' \<and>
     incoming_ogw_responses e' = incoming_ogw_responses e \<and>
     prefix (contents (outgoing_ogw_requests e)) (contents (outgoing_ogw_requests e'))"
proof (cases "contents (incoming_md_updates e)")
  case Nil
  then show ?thesis using peek_pop(1) [OF eng_okD(6) [OF ok]] ok by (simp add: market_iteration_def)
next
  case (Cons u us)
  then show ?thesis using market_iteration_moves [OF ok] by blast
qed

text \<open>What may happen: updates of unknown tickers never arrive, and with \<open>own\<close> nobody else sends.\<close>

definition event_ok :: "bool \<Rightarrow> TradeEvent \<Rightarrow> bool" where
  "event_ok own v = (case v of ArriveUpdate u \<Rightarrow> update_known u | SendRequest r \<Rightarrow> \<not> own | _ \<Rightarrow> True)"

lemma trade_event_ok:
  assumes ok: "eng_ok client own out e" and v: "event_ok own v"
  shows "\<exists>e' out'. trade_event v (e, out) = Some (e', out') \<and> eng_ok client own out' e'"
proof -
  note te = eng_okD(1) [OF ok]
  have step: "eng_ok client own out e'"
    if "te_ok client e'" "outgoing_ogw_requests e' = outgoing_ogw_requests e" "order_manager e' = order_manager e" for e'
    using eng_ok_frame [OF ok that(1,2)] that(3) by simp
  show ?thesis
  proof (cases v)
    case (ArriveResponse r)
    have "queue_ok (snd (try_push r (incoming_ogw_responses e)))" using push_contents [OF eng_okD(5) [OF ok]] by (metis prod.collapse)
    then show ?thesis using ArriveResponse step te by (simp add: te_ok_def)
  next
    case (ArriveUpdate u)
    obtain p q where pq: "try_push u (incoming_md_updates e) = (p, q)" by fastforce
    have "queue_ok q" "list_all update_known (contents q)"
      using push_contents [OF eng_okD(6) [OF ok] pq] eng_okD(7) [OF ok] v ArriveUpdate by (auto simp: event_ok_def)
    then show ?thesis using ArriveUpdate pq step te by (simp add: te_ok_def)
  next
    case WorkResponse
    then show ?thesis using response_iteration_ok [OF ok] by auto
  next
    case WorkMarket
    then show ?thesis using market_iteration_ok [OF ok] by auto
  next
    case (SendRequest r)
    obtain b e1 where s: "sendClientRequest r e = (b, e1)" by fastforce
    note S = send_spec [OF te s]
    have "eng_ok client own out e1"
      using S ok v SendRequest by (auto simp: eng_ok_def sent_ok_def ids_ok_def event_ok_def)
    then show ?thesis using SendRequest s by simp
  next
    case TakeRequest
    obtain r q where rq: "try_pop (outgoing_ogw_requests e) = (r, q)" by fastforce
    have "queue_ok (outgoing_ogw_requests e)" using te by (simp add: te_ok_def)
    note P = pop_contents [OF this rq]
    let ?out = "out @ (case r of None \<Rightarrow> [] | Some x \<Rightarrow> [x])"
    have "?out @ contents q = out @ contents (outgoing_ogw_requests e)" using P by (auto split: option.splits)
    then have "eng_ok client own ?out (e\<lparr>outgoing_ogw_requests := q\<rparr>)"
      using ok P by (simp add: eng_ok_def sent_ok_def te_ok_def flip: list_all_append)
    then show ?thesis using TakeRequest rq by simp
  qed (use step te in \<open>simp_all add: te_ok_def\<close>)
qed

lemma trade_run_ok:
  "eng_ok client own out e \<Longrightarrow> list_all (event_ok own) vs \<Longrightarrow>
   \<exists>e' out'. trade_run vs (e, out) = Some (e', out') \<and> eng_ok client own out' e'"
proof (induct vs arbitrary: e out)
  case (Cons v vs)
  from trade_event_ok [OF Cons.prems(1), of v] Cons.prems(2) obtain e1 out1 where
    "trade_event v (e, out) = Some (e1, out1)" "eng_ok client own out1 e1" by auto
  with Cons.hyps [of out1 e1] Cons.prems(2) show ?case by simp
qed simp

text \<open>The constructor, with empty queues.\<close>

definition queue_empty :: "'a LFQueue \<Rightarrow> bool" where
  "queue_empty q \<longleftrightarrow> queue_ok q \<and> contents q = []"

lemma those_map: "those (map f xs) = Some ys \<Longrightarrow> length ys = length xs \<and> (\<forall>i < length xs. f (xs ! i) = Some (ys ! i))"
proof (induct xs arbitrary: ys)
  case (Cons x xs)
  then obtain y zs where "f x = Some y" "those (map f xs) = Some zs" "ys = y # zs"
    by (auto simp: bind_Some_conv split: option.splits)
  with Cons.hyps [of zs] show ?case by (auto simp: nth_Cons split: nat.splits)
qed simp

lemma TradeEngine_new_ok:
  assumes n: "TradeEngine_new c algo cfg q1 q2 q3 = Some e" and q: "queue_empty q1" "queue_empty q2" "queue_empty q3"
    and lim: "\<forall>t < ME_MAX_TICKERS. max_position (risk_cfg (cfg t)) \<le> 0x7FFFFFFF"
  shows "eng_ok (c, \<lambda>t. risk_cfg (cfg t)) own [] e"
proof -
  obtain books s where b: "those (map (\<lambda>i. MarketOrderBook_new (of_nat i)) [0..<ME_MAX_TICKERS]) = Some books"
    and e: "ticker_order_book e = nth books" "position_keeper e = PositionKeeper_new" "risk_manager e = RiskManager_new cfg"
      "te_client_id e = c" "outgoing_ogw_requests e = q1" "incoming_ogw_responses e = q2" "incoming_md_updates e = q3"
      "order_manager e = OrderManager_new"
    using n by (auto simp: TradeEngine_new_def bind_Some_conv)
  have "\<forall>t < ME_MAX_TICKERS. MarketOrderBook_new (of_nat t) = Some (ticker_order_book e t)"
    using those_map [OF b] by (simp add: e)
  then have "client_ok (ticker_order_book e)" by (rule client_start)
  moreover have "risk_ok PositionKeeper_new (RiskManager_new cfg)"
    by (rule risk_ok_new) (simp add: PositionKeeper_new_def PositionInfo_default_def)
  ultimately show ?thesis
    using q lim by (simp add: eng_ok_def sent_ok_def te_ok_def e limits_small_def queue_empty_def RiskManager_new_def
      ids_ok_def new_ids_def OrderManager_new_def)
qed

text \<open>Started with empty queues and limits of at most 31 bits, as the configuration check admits them.\<close>

definition trade_start :: "ClientId \<Rightarrow> AlgoType \<Rightarrow> (nat \<Rightarrow> double TradeEngineCfg) \<Rightarrow> TradeEngine \<Rightarrow> bool" where
  "trade_start c algo cfg e \<longleftrightarrow> (\<exists>q1 q2 q3. TradeEngine_new c algo cfg q1 q2 q3 = Some e \<and> queue_empty q1 \<and>
     queue_empty q2 \<and> queue_empty q3) \<and> (\<forall>t < ME_MAX_TICKERS. max_position (risk_cfg (cfg t)) \<le> 0x7FFFFFFF)"

lemma trade_start_ok: "trade_start c algo cfg e \<Longrightarrow> eng_ok (c, \<lambda>t. risk_cfg (cfg t)) own [] e"
  using TradeEngine_new_ok by (auto simp: trade_start_def)

lemma om_erase_emplace: "om_ok m \<Longrightarrow> map_of m key = None \<Longrightarrow> om_erase key (om_emplace key v m) = m"
  by (rule om_ext) (auto simp: omap_laws fun_eq_iff)

text \<open>Taking back a reservation just made restores the risk manager exactly.\<close>

lemma rollback_reserve:
  assumes "om_ok (reservations m)" "reserve k r m = (ALLOWED, m')"
  shows "rollback r m' = m"
proof (cases "rq_type r = Req_NEW")
  case False
  then show ?thesis using assms(2) by (simp add: reserve_def rollback_def)
next
  case True
  let ?key = "(rq_ticker_id r, rq_order_id r)" and ?v = "\<lparr>rv_side = rq_side r, rv_qty = rq_qty r, rv_price = rq_price r\<rparr>"
  let ?n = "pending (rq_ticker_id r) (rq_side r) m"
  from True assms(2) have new: "map_of (reservations m) ?key = None"
    and m': "m' = set_pending (rq_ticker_id r) (rq_side r) (?n + ucast (rq_qty r)) (m\<lparr>reservations := om_emplace ?key ?v (reservations m)\<rparr>)"
    by (auto simp: reserve_def Let_def split: if_splits)
  have "map_of (reservations m') ?key = Some ?v" using new by (simp add: m' omap_laws assms(1))
  moreover have "pending (rq_ticker_id r) (rq_side r) m' = ?n + ucast (rq_qty r)" by (simp add: m' pending_def)
  ultimately have "rollback r m' = set_pending (rq_ticker_id r) (rq_side r) ?n (m'\<lparr>reservations := om_erase ?key (reservations m')\<rparr>)"
    using True by (simp add: rollback_def)
  also have "om_erase ?key (reservations m') = reservations m" using om_erase_emplace [OF assms(1) new] by (simp add: m')
  also have "set_pending (rq_ticker_id r) (rq_side r) ?n (m'\<lparr>reservations := reservations m\<rparr>) = m"
    by (simp add: m' set_pending_def pending_def)
  finally show ?thesis .
qed

text \<open>A small account: at most 100 a piece, at most 1000 in all.\<close>

definition demo_cfg :: "nat \<Rightarrow> double TradeEngineCfg" where
  "demo_cfg t = \<lparr>clip = 10, threshold = Finite 1, risk_cfg = \<lparr>max_order_size = 100, max_position = 1000, max_loss = Finite (- 100)\<rparr>\<rparr>"

definition demo_events :: "TradeEvent list" where
  "demo_events = [ArriveUpdate (mk_update Mkt_RECOVERY_COMMIT 0 0 Side_INVALID 0 0 1), WorkMarket,
     SendRequest (mk_request Req_NEW 1 0 1 BUY 100 50), TakeRequest,
     ArriveResponse ((mk_response Resp_FILLED 1 0 1 1 BUY 100 50 0 Rej_NONE)\<lparr>rs_response_id := 1\<rparr>), WorkResponse]"

lemma demo_events_ok: "list_all (event_ok False) demo_events"
  by (simp add: demo_events_def event_ok_def update_known_def mk_update_def)

lemma empty_queue_ex: "\<exists>q :: 'a LFQueue. queue_empty q"
proof -
  have "has_single_bit 4" by code_simp
  then obtain q :: "'a LFQueue" where "LFQueue_new undefined 4 = Some q"
    by (simp add: LFQueue_new_def checkedCapacity_queue_def limits)
  then show ?thesis using queue_new_ok [of undefined 4] by (auto simp: queue_empty_def)
qed

lemma demo_start: "\<exists>e. trade_start 1 Algo_MAKER demo_cfg e"
proof -
  have "MarketOrderBook_new (of_nat i) \<noteq> None" for i using MarketOrderBook_new_ok by simp
  then have "those (map (\<lambda>i. MarketOrderBook_new (of_nat i)) xs) \<noteq> None" for xs
    by (induct xs) (auto split: option.splits)
  then obtain books where "those (map (\<lambda>i. MarketOrderBook_new (of_nat i)) [0..<ME_MAX_TICKERS]) = Some books" by blast
  then have "\<exists>e. TradeEngine_new 1 Algo_MAKER demo_cfg q1 q2 q3 = Some e" for q1 q2 q3
    by (simp add: TradeEngine_new_def createStrategy_def)
  moreover obtain q1 :: "MEClientRequest LFQueue" where "queue_empty q1" using empty_queue_ex by blast
  moreover obtain q2 :: "MEClientResponse LFQueue" where "queue_empty q2" using empty_queue_ex by blast
  moreover obtain q3 :: "MEMarketUpdate LFQueue" where "queue_empty q3" using empty_queue_ex by blast
  ultimately show ?thesis unfolding trade_start_def by (simp add: demo_cfg_def) blast
qed

subsection \<open>Shutdown ends\<close>

lemma quiesce_send_ends:
  assumes "late N" "n \<le> N"
  shows "\<exists>sent n' e'. quiesce_send env late r n e = Some (sent, n', e') \<and> n \<le> n' \<and> n' \<le> N"
  using assms(2)
proof (induct "N - n" arbitrary: n e rule: less_induct)
  case less
  obtain b e1 where s: "sendClientRequest r e = (b, e1)" by fastforce
  show ?case
  proof (cases "b \<or> order_session e1 = Some False \<or> late n")
    case True
    then show ?thesis using s less.prems by (subst quiesce_send.simps) auto
  next
    case False
    then have "n < N" using assms(1) less.prems le_neq_implies_less by metis
    then obtain x n' e' where "quiesce_send env late r (n + 1) (env n e1) = Some (x, n', e')" "n + 1 \<le> n'" "n' \<le> N"
      using less.hyps [of "n + 1" "env n e1"] by (metis Suc_eq_plus1 Suc_leI diff_less_mono2 lessI)
    then show ?thesis using s False by (subst quiesce_send.simps) auto
  qed
qed

lemma quiesce_all_ends:
  assumes "late N" shows "n \<le> N \<Longrightarrow> \<exists>e'. quiesce_all env late rs n e = Some e'"
proof (induct rs arbitrary: n e)
  case (Cons r rs)
  obtain x n' e' where "quiesce_send env late r n e = Some (x, n', e')" "n' \<le> N" using quiesce_send_ends [of late N n env r e] assms Cons.prems by blast
  then show ?case using Cons.hyps [of n' e'] by (cases x) simp_all
qed simp

subsection \<open>Properties\<close>

text \<open>C33: positions stay within their limits. Whatever responses and market updates arrive, wrong, repeated or out of order,
  and however the threads interleave, the client never fails: no pointer error, no signed overflow, no array index out
  of range. At every moment the position of a ticker is within \<open>max_position\<close>, and it would still be if every outstanding
  buy order, or every outstanding sell order, were filled. (Updates for unknown tickers are excluded: the engine ends the
  process on them.)\<close>

theorem positions_within_limits:
  assumes "trade_start c algo cfg e0" "list_all (event_ok False) vs"
  shows "\<exists>e out. trade_run vs (e0, []) = Some (e, out) \<and> (\<forall>t < ME_MAX_TICKERS.
     let p = position (position_keeper e t); m = uint (max_position (risk_cfg (cfg t))); R = reservations (risk_manager e) in
     \<bar>p\<bar> \<le> m \<and> p + outstanding BUY t R \<le> m \<and> - m \<le> p - outstanding SELL t R)"
proof -
  obtain e out where r: "trade_run vs (e0, []) = Some (e, out)" "eng_ok (c, \<lambda>t. risk_cfg (cfg t)) False out e"
    using trade_run_ok [OF trade_start_ok [OF assms(1)] assms(2)] by blast
  have L: "ticker_risk (risk_manager e) = (\<lambda>t. risk_cfg (cfg t))" using eng_okD(3) [OF r(2)] by (simp add: limits_small_def)
  have "let p = position (position_keeper e t); m = uint (max_position (risk_cfg (cfg t))); R = reservations (risk_manager e) in
     \<bar>p\<bar> \<le> m \<and> p + outstanding BUY t R \<le> m \<and> - m \<le> p - outstanding SELL t R" if "t < ME_MAX_TICKERS" for t
    using risk_okD(5) [OF eng_okD(2) [OF r(2)] that] limit_bounds(1) [OF risk_okD(5) [OF eng_okD(2) [OF r(2)] that]]
    unfolding limit_ok_def L Let_def by simp
  with r(1) show ?thesis by blast
qed

lemma positions_within_limits_witness:
  "\<exists>e0 e out. trade_start 1 Algo_MAKER demo_cfg e0 \<and> trade_run demo_events (e0, []) = Some (e, out) \<and>
     \<bar>position (position_keeper e 0)\<bar> \<le> 1000"
proof -
  obtain e0 where e0: "trade_start 1 Algo_MAKER demo_cfg e0" using demo_start by blast
  have t: "0 < ME_MAX_TICKERS" by (simp add: limits)
  obtain e out where e: "trade_run demo_events (e0, []) = Some (e, out)"
    and l: "\<forall>t < ME_MAX_TICKERS. let p = position (position_keeper e t); m = uint (max_position (risk_cfg (demo_cfg t)));
      R = reservations (risk_manager e) in \<bar>p\<bar> \<le> m \<and> p + outstanding BUY t R \<le> m \<and> - m \<le> p - outstanding SELL t R"
    using positions_within_limits [OF e0 demo_events_ok] by (elim exE conjE)
  have "\<bar>position (position_keeper e 0)\<bar> \<le> 1000" using l [rule_format, OF t] by (simp add: Let_def demo_cfg_def)
  with e0 e show ?thesis by blast
qed

text \<open>C34: everything the client sends is well formed. Every request the gateway takes, and every request still queued,
  passes the validation of the protocol and carries the client's own id, whoever sent it and whatever happened before.\<close>

theorem requests_well_formed:
  assumes "trade_start c algo cfg e0" "list_all (event_ok False) vs" "trade_run vs (e0, []) = Some (e, out)"
  shows "list_all (\<lambda>r. validate r = Rej_NONE \<and> rq_client_id r = c) (out @ contents (outgoing_ogw_requests e))"
proof -
  have "eng_ok (c, \<lambda>t. risk_cfg (cfg t)) False out e"
    using trade_run_ok [OF trade_start_ok [OF assms(1)] assms(2)] assms(3) by auto
  moreover have "request_ok (c, \<lambda>t. risk_cfg (cfg t)) = (\<lambda>r. validate r = Rej_NONE \<and> rq_client_id r = c)"
    by (simp add: request_ok_def fun_eq_iff)
  ultimately show ?thesis by (simp add: eng_ok_def sent_ok_def)
qed

lemma requests_well_formed_witness:
  "\<exists>e0 e out. trade_start 1 Algo_MAKER demo_cfg e0 \<and> trade_run demo_events (e0, []) = Some (e, out) \<and>
     list_all (\<lambda>r. validate r = Rej_NONE \<and> rq_client_id r = 1) (out @ contents (outgoing_ogw_requests e))"
proof -
  obtain e0 where e0: "trade_start 1 Algo_MAKER demo_cfg e0" using demo_start by blast
  obtain e out where "trade_run demo_events (e0, []) = Some (e, out)"
    using trade_run_ok [OF trade_start_ok [OF e0] demo_events_ok] by blast
  with requests_well_formed [OF e0 demo_events_ok this] e0 show ?thesis by blast
qed

text \<open>C35: orders of a strategy are numbered without a gap. When all requests come from the strategy, the new orders that
  have left the client or are queued carry the ids 1, 2, 3, ... in the order they were sent: no id is skipped, and none
  is used twice, also when requests are refused by the checks or by a full queue.\<close>

theorem new_order_ids_consecutive:
  assumes "trade_start c algo cfg e0" "list_all (event_ok True) vs" "trade_run vs (e0, []) = Some (e, out)"
  shows "new_ids (out @ contents (outgoing_ogw_requests e)) = map of_nat [1..<unat (next_order_id (order_manager e))]"
proof -
  have "eng_ok (c, \<lambda>t. risk_cfg (cfg t)) True out e"
    using trade_run_ok [OF trade_start_ok [OF assms(1)] assms(2)] assms(3) by auto
  then show ?thesis by (simp add: eng_ok_def sent_ok_def ids_ok_def)
qed

lemma new_order_ids_consecutive_witness:
  "\<exists>e0 e out. trade_start 1 Algo_MAKER demo_cfg e0 \<and> trade_run (take 2 demo_events) (e0, []) = Some (e, out) \<and>
     new_ids (out @ contents (outgoing_ogw_requests e)) = map of_nat [1..<unat (next_order_id (order_manager e))]"
proof -
  obtain e0 where e0: "trade_start 1 Algo_MAKER demo_cfg e0" using demo_start by blast
  have ev: "list_all (event_ok True) (take 2 demo_events)" by (simp add: demo_events_def event_ok_def update_known_def mk_update_def)
  obtain e out where "trade_run (take 2 demo_events) (e0, []) = Some (e, out)"
    using trade_run_ok [OF trade_start_ok [OF e0] ev] by blast
  with new_order_ids_consecutive [OF e0 ev this] e0 show ?thesis by blast
qed

text \<open>C36: a refused request leaves no trace. When a request is not sent, because it is not admitted, because a limit
  forbids it or because the queue is full, the reservations, the pending counters, the queue and the orders are exactly
  as before; only the refusal is counted.\<close>

theorem refused_request_leaves_no_trace:
  assumes "om_ok (reservations (risk_manager e))" "queue_ok (outgoing_ogw_requests e)" "sendClientRequest r e = (False, e')"
  shows "risk_manager e' = risk_manager e \<and> contents (outgoing_ogw_requests e') = contents (outgoing_ogw_requests e) \<and>
     order_manager e' = order_manager e \<and> position_keeper e' = position_keeper e \<and>
     accepted_requests e' = accepted_requests e \<and> rejected_requests e' = rejected_requests e + 1"
proof -
  obtain c m where rv: "reserve (position_keeper e) r (risk_manager e) = (c, m)" by fastforce
  obtain p q where pu: "try_push r (outgoing_ogw_requests e) = (p, q)" by fastforce
  note Q = push_contents [OF assms(2) pu]
  consider "admission_refused r e" | "\<not> admission_refused r e" "c \<noteq> ALLOWED" | "\<not> admission_refused r e" "c = ALLOWED" "\<not> p"
    using assms(3) unfolding sendClientRequest_def rv pu by (cases p) (simp_all split: if_splits)
  then show ?thesis
  proof cases
    case 1
    then have "e' = e\<lparr>rejected_requests := rejected_requests e + 1\<rparr>" using assms(3) by (simp add: sendClientRequest_def)
    then show ?thesis by simp
  next
    case 2
    then have "e' = e\<lparr>risk_manager := m, rejected_requests := rejected_requests e + 1\<rparr>" using assms(3) by (simp add: sendClientRequest_def rv)
    moreover have "m = risk_manager e" using rv 2(2) by (auto simp: reserve_def Let_def split: if_splits)
    ultimately show ?thesis by simp
  next
    case 3
    then have "e' = e\<lparr>risk_manager := rollback r m, outgoing_ogw_requests := q, rejected_requests := rejected_requests e + 1\<rparr>"
      using assms(3) by (simp add: sendClientRequest_def rv pu)
    moreover have "rollback r m = risk_manager e" using rollback_reserve [OF assms(1)] rv 3(2) by blast
    ultimately show ?thesis using Q 3(3) by simp
  qed
qed

lemma refused_request_leaves_no_trace_witness:
  "\<exists>e0 e'. trade_start 1 Algo_MAKER demo_cfg e0 \<and> sendClientRequest MEClientRequest_default e0 = (False, e') \<and>
     risk_manager e' = risk_manager e0 \<and> contents (outgoing_ogw_requests e') = contents (outgoing_ogw_requests e0)"
proof -
  obtain e0 where e0: "trade_start 1 Algo_MAKER demo_cfg e0" using demo_start by blast
  have ok: "eng_ok (1, \<lambda>t. risk_cfg (demo_cfg t)) False [] e0" by (rule trade_start_ok [OF e0])
  have "validate MEClientRequest_default \<noteq> Rej_NONE"
    by (simp add: validate_def MEClientRequest_default_def limits)
  then have "sendClientRequest MEClientRequest_default e0 = (False, e0\<lparr>rejected_requests := rejected_requests e0 + 1\<rparr>)"
    by (simp add: sendClientRequest_def admission_refused_def)
  with refused_request_leaves_no_trace [OF _ _ this] risk_okD(2) [OF eng_okD(2) [OF ok]] eng_okD(1) [OF ok] e0
  show ?thesis by (auto simp: te_ok_def)
qed

text \<open>A response is taken once. Processing a numbered response again changes nothing but the count of duplicates.\<close>

theorem response_replay_ignored:
  assumes "onOrderUpdate r e = Some e1" "rs_client_id r = te_client_id e" "unat (rs_ticker_id r) < ME_MAX_TICKERS"
    "rs_response_id r \<noteq> 0"
  shows "onOrderUpdate r e1 = Some (e1\<lparr>duplicate_responses := duplicate_responses e1 + 1\<rparr>)"
proof -
  have frame: "map_option (\<lambda>e. (last_response_id e, te_client_id e)) (settle_response r e) \<in> {None, Some (last_response_id e, te_client_id e)}" for e
    by (cases "risk_onResponse r (risk_manager e)"; cases "book_fill r (position_keeper e)")
      (simp_all add: settle_response_def strategy_onOrderUpdate_def Let_def)
  have settle: "last_response_id e2 = last_response_id e1 \<and> te_client_id e2 = te_client_id e1" if "settle_response r e1 = Some e2" for e1 e2
    using frame [of e1] that by simp
  have "response_duplicate r e1 \<and> te_client_id e1 = te_client_id e"
  proof (cases "response_duplicate r e")
    case True
    then have "e1 = e\<lparr>duplicate_responses := duplicate_responses e + 1\<rparr>" using assms by (simp add: onOrderUpdate_def)
    then show ?thesis using True by (simp add: response_duplicate_def)
  next
    case False
    then have "settle_response r (note_response_id r e) = Some e1" using assms by (simp add: onOrderUpdate_def)
    from settle [OF this] assms(4) show ?thesis by (simp add: note_response_id_def response_duplicate_def)
  qed
  then show ?thesis using assms(2,3) by (simp add: onOrderUpdate_def)
qed

lemma response_replay_ignored_witness:
  "\<exists>e0 e1. trade_start 1 Algo_MAKER demo_cfg e0 \<and>
     onOrderUpdate ((mk_response Resp_ACCEPTED 1 0 1 1 BUY 100 0 50 Rej_NONE)\<lparr>rs_response_id := 1\<rparr>) e0 = Some e1 \<and>
     onOrderUpdate ((mk_response Resp_ACCEPTED 1 0 1 1 BUY 100 0 50 Rej_NONE)\<lparr>rs_response_id := 1\<rparr>) e1 =
       Some (e1\<lparr>duplicate_responses := duplicate_responses e1 + 1\<rparr>)"
proof -
  let ?r = "(mk_response Resp_ACCEPTED 1 0 1 1 BUY 100 0 50 Rej_NONE)\<lparr>rs_response_id := 1\<rparr>"
  obtain e0 where e0: "trade_start 1 Algo_MAKER demo_cfg e0" using demo_start by blast
  have ok: "eng_ok (1, \<lambda>t. risk_cfg (demo_cfg t)) False [] e0" by (rule trade_start_ok [OF e0])
  have "te_client_id e0 = 1" using eng_okD(1) [OF ok] by (simp add: te_ok_def)
  moreover obtain e1 where "onOrderUpdate ?r e0 = Some e1" using onOrderUpdate_ok [OF ok] by blast
  moreover have "onOrderUpdate ?r e1 = Some (e1\<lparr>duplicate_responses := duplicate_responses e1 + 1\<rparr>)"
    by (rule response_replay_ignored [OF calculation(2)]) (simp_all add: calculation(1) limits)
  ultimately show ?thesis using e0 by blast
qed

text \<open>Shutting down ends. Whatever the other threads do while the client waits, and however many cancellations are
  outstanding, \<open>quiesce\<close> returns at the latest when the deadline has passed.\<close>

theorem quiesce_terminates:
  assumes "late N"
  shows "\<exists>e'. quiesce env late e = Some e'"
  using quiesce_all_ends [of late N 0] assms by (simp add: quiesce_def Let_def)

lemma quiesce_terminates_witness: "\<exists>e e'. trade_start 1 Algo_MAKER demo_cfg e \<and> quiesce (\<lambda>_ e. e) (\<lambda>n. n = 5000) e = Some e'"
  using demo_start quiesce_terminates [of "\<lambda>n. n = 5000" 5000 "\<lambda>_ e. e"] by blast

end
