(* ===== verification/Runtime_Config.thy ===== *)
theory Runtime_Config
  imports Types Doubles "HOL-Library.Char_ord"
begin

text \<open>
  The configuration of the two programs: \<^verbatim>\<open>src/common/runtime_config.h\<close> and \<^verbatim>\<open>src/common/startup_options.h\<close>. The JSON
  reader is the third-party library Glaze, an argument of the functions that read a file. A \<open>ConfigError\<close> names the
  check that failed; \<open>None\<close> is a configuration that passed. The address of a network interface is a question to the
  operating system and an argument.
\<close>

record NetworkEndpoint =
  address :: string
  port :: u32

record MarketDataConfig =
  interface :: string
  incremental :: NetworkEndpoint
  snapshot :: NetworkEndpoint

record ExchangeConfig =
  ex_market_data :: MarketDataConfig
  ex_tcp :: NetworkEndpoint

record RuntimeRiskConfig =
  rr_max_order_size :: u32
  rr_max_position :: u32
  rr_max_loss :: double

record StrategyParameters =
  sp_clip :: u32
  sp_threshold :: double
  sp_risk :: RuntimeRiskConfig

record TickerStrategyConfig =
  ts_ticker_id :: u32
  ts_parameters :: StrategyParameters

record StrategyConfig =
  sc_type :: string
  default_parameters :: StrategyParameters
  tickers :: "TickerStrategyConfig list"

record RuntimeConfig =
  run_seconds :: u64
  random_orders :: u64
  random_delay_us :: u64

record ClientConfig =
  cc_client_id :: u32
  cc_market_data :: MarketDataConfig
  cc_tcp :: NetworkEndpoint
  cc_strategy :: StrategyConfig
  cc_runtime :: "RuntimeConfig option"

definition RuntimeConfig_default :: RuntimeConfig where
  "RuntimeConfig_default = \<lparr>run_seconds = 0, random_orders = 10000, random_delay_us = 20000\<rparr>"

definition runtimeConfig :: "ClientConfig \<Rightarrow> RuntimeConfig" where
  "runtimeConfig c = (case cc_runtime c of None \<Rightarrow> RuntimeConfig_default | Some r \<Rightarrow> r)"

subsection \<open>Checks\<close>

datatype ConfigError = BadInterface | BadAddress string | BadPort string | NotMulticast string | SamePort | NotUnicast
  | AnyAddress | BadClip | BadPosition | BadThreshold | BadLoss | BadClientId | BadStrategy | BadTicker | TickerTwice
  | BadRunSeconds | BadRandomOrders | BadRandomDelay | BadOption | BadNumber string
  | BadJson | CannotOpen string | CannotRead string | InFile string ConfigError | BadUsage

text \<open>A sequence of \<open>require\<close> calls: the first condition that fails ends it.\<close>

fun require :: "(bool \<times> ConfigError) list \<Rightarrow> ConfigError option" where
  "require [] = None"
| "require ((condition, message) # cs) = (if condition then require cs else Some message)"

text \<open>\<open>inet_pton\<close> for \<open>AF_INET\<close>: four decimal numbers up to 255 without leading zeros, separated by dots, as the address in
  host byte order. \<open>saw\<close> says that the current number has a digit.\<close>

definition digit :: "char \<Rightarrow> nat option" where
  "digit c = (let n = (of_char c :: nat) in if 48 \<le> n \<and> n \<le> 57 then Some (n - 48) else None)"

fun pton :: "string \<Rightarrow> bool \<Rightarrow> nat \<Rightarrow> nat list \<Rightarrow> nat list option" where
  "pton [] saw n octets = (if saw then Some (octets @ [n]) else None)"
| "pton (c # cs) saw n octets =
     (case digit c of
        Some d \<Rightarrow> if saw \<and> n = 0 \<or> n * 10 + d > 255 then None else pton cs True (n * 10 + d) octets
      | None \<Rightarrow> if c = CHR ''.'' \<and> saw \<and> length octets < 3 then pton cs False 0 (octets @ [n]) else None)"

definition inet_pton :: "string \<Rightarrow> nat option" where
  "inet_pton text = (case pton text False 0 [] of
     Some [a, b, c, d] \<Rightarrow> Some (((a * 256 + b) * 256 + c) * 256 + d) | _ \<Rightarrow> None)"

definition IN_MULTICAST :: "nat \<Rightarrow> bool" where
  "IN_MULTICAST host \<longleftrightarrow> host div 2 ^ 28 = 14"

definition ipv4_checks :: "NetworkEndpoint \<Rightarrow> string \<Rightarrow> (bool \<times> ConfigError) list" where
  "ipv4_checks endpoint field =
     [(inet_pton (address endpoint) \<noteq> None, BadAddress field), (1 \<le> port endpoint \<and> port endpoint \<le> 65535, BadPort field)]"

definition host_of :: "NetworkEndpoint \<Rightarrow> nat" where
  "host_of endpoint = (case inet_pton (address endpoint) of None \<Rightarrow> 0 | Some h \<Rightarrow> h)"

definition market_checks :: "(string \<Rightarrow> string) \<Rightarrow> MarketDataConfig \<Rightarrow> (bool \<times> ConfigError) list" where
  "market_checks getIfaceIP market =
     [(interface market \<noteq> [] \<and> getIfaceIP (interface market) \<noteq> [], BadInterface)] @
     ipv4_checks (incremental market) ''market_data.incremental'' @ ipv4_checks (snapshot market) ''market_data.snapshot'' @
     [(IN_MULTICAST (host_of (incremental market)), NotMulticast ''incremental''),
      (IN_MULTICAST (host_of (snapshot market)), NotMulticast ''snapshot''),
      (port (incremental market) \<noteq> port (snapshot market), SamePort)]"

definition tcp_checks :: "NetworkEndpoint \<Rightarrow> bool \<Rightarrow> (bool \<times> ConfigError) list" where
  "tcp_checks endpoint server = ipv4_checks endpoint ''tcp'' @
     [(\<not> IN_MULTICAST (host_of endpoint) \<and> host_of endpoint \<noteq> 0xFFFFFFFF, NotUnicast),
      (server \<or> host_of endpoint \<noteq> 0, AnyAddress)]"

definition parameter_checks :: "StrategyParameters \<Rightarrow> (bool \<times> ConfigError) list" where
  "parameter_checks p =
     [(0 < sp_clip p \<and> sp_clip p \<le> rr_max_order_size (sp_risk p) \<and> rr_max_order_size (sp_risk p) \<le> 0x7FFFFFFF, BadClip),
      (rr_max_position (sp_risk p) \<le> 0x7FFFFFFF, BadPosition),
      (is_finite (sp_threshold p) \<and> dle (Finite 0) (sp_threshold p), BadThreshold),
      (is_finite (rr_max_loss (sp_risk p)) \<and> dle (rr_max_loss (sp_risk p)) (Finite 0), BadLoss)]"

text \<open>\<open>std::toupper\<close> in the default locale.\<close>

definition to_upper :: "char \<Rightarrow> char" where
  "to_upper c = (let n = (of_char c :: nat) in if 97 \<le> n \<and> n \<le> 122 then char_of (n - 32) else c)"

definition strategyType :: "ClientConfig \<Rightarrow> AlgoType" where
  "strategyType c = (let algo = stringToAlgoType (map to_upper (sc_type (cc_strategy c))) in
     if algo = Algo_MAKER \<or> algo = Algo_TAKER \<or> algo = Algo_RANDOM then algo else Algo_INVALID)"

fun ticker_checks :: "u32 list \<Rightarrow> TickerStrategyConfig list \<Rightarrow> (bool \<times> ConfigError) list" where
  "ticker_checks seen [] = []"
| "ticker_checks seen (t # ts) =
     [(unat (ts_ticker_id t) < ME_MAX_TICKERS, BadTicker), (ts_ticker_id t \<notin> set seen, TickerTwice)] @
     parameter_checks (ts_parameters t) @ ticker_checks (ts_ticker_id t # seen) ts"

definition validateExchangeConfig :: "(string \<Rightarrow> string) \<Rightarrow> ExchangeConfig \<Rightarrow> ConfigError option" where
  "validateExchangeConfig getIfaceIP c = require (market_checks getIfaceIP (ex_market_data c) @ tcp_checks (ex_tcp c) True)"

definition validateClientConfig :: "(string \<Rightarrow> string) \<Rightarrow> ClientConfig \<Rightarrow> ConfigError option" where
  "validateClientConfig getIfaceIP c = require (
     [(cc_client_id c > 0 \<and> unat (cc_client_id c) < ME_MAX_NUM_CLIENTS, BadClientId)] @
     market_checks getIfaceIP (cc_market_data c) @ tcp_checks (cc_tcp c) False @
     [(strategyType c \<noteq> Algo_INVALID, BadStrategy)] @ parameter_checks (default_parameters (cc_strategy c)) @
     ticker_checks [] (tickers (cc_strategy c)) @
     [(run_seconds (runtimeConfig c) \<le> 86400, BadRunSeconds), (random_orders (runtimeConfig c) \<le> 900000, BadRandomOrders),
      (random_delay_us (runtimeConfig c) \<le> 1000000, BadRandomDelay)])"

subsection \<open>Parameters of the engine\<close>

definition ticker_config :: "StrategyParameters \<Rightarrow> double TradeEngineCfg" where
  "ticker_config p = \<lparr>clip = sp_clip p, threshold = sp_threshold p,
     risk_cfg = \<lparr>max_order_size = rr_max_order_size (sp_risk p), max_position = rr_max_position (sp_risk p),
       max_loss = rr_max_loss (sp_risk p)\<rparr>\<rparr>"

definition tickerConfig :: "ClientConfig \<Rightarrow> nat \<Rightarrow> double TradeEngineCfg" where
  "tickerConfig c = fold (\<lambda>t config. config(unat (ts_ticker_id t) := ticker_config (ts_parameters t)))
     (tickers (cc_strategy c)) (\<lambda>_. ticker_config (default_parameters (cc_strategy c)))"

subsection \<open>Reading a configuration\<close>

text \<open>\<open>glz\<close> is the strict JSON reader of Glaze on the text (\<open>None\<close> for any error it reports). A file is given by what
  opening and reading it gives: it cannot be opened, it fails while it is read, or its bytes.\<close>

datatype FileResult = NoFile | ReadError | Bytes string

definition strip_bom :: "string \<Rightarrow> string" where
  "strip_bom buffer = (if take 3 buffer = [CHR 0xEF, CHR 0xBB, CHR 0xBF] then drop 3 buffer else buffer)"

definition parse :: "(string \<Rightarrow> 'c option) \<Rightarrow> ('c \<Rightarrow> ConfigError option) \<Rightarrow> string \<Rightarrow> ConfigError + 'c" where
  "parse glz check buffer = (case glz (strip_bom buffer) of
     None \<Rightarrow> Inl BadJson
   | Some config \<Rightarrow> (case check config of Some e \<Rightarrow> Inl e | None \<Rightarrow> Inr config))"

definition load :: "(string \<Rightarrow> 'c option) \<Rightarrow> ('c \<Rightarrow> ConfigError option) \<Rightarrow> (string \<Rightarrow> FileResult) \<Rightarrow> string \<Rightarrow> ConfigError + 'c" where
  "load glz check files path = (case files path of
     NoFile \<Rightarrow> Inl (CannotOpen path)
   | ReadError \<Rightarrow> Inl (CannotRead path)
   | Bytes buffer \<Rightarrow> (case parse glz check buffer of Inl e \<Rightarrow> Inl (InFile path e) | Inr config \<Rightarrow> Inr config))"

definition parseExchangeConfig :: "(string \<Rightarrow> ExchangeConfig option) \<Rightarrow> (string \<Rightarrow> string) \<Rightarrow> string \<Rightarrow> ConfigError + ExchangeConfig" where
  "parseExchangeConfig glz getIfaceIP = parse glz (validateExchangeConfig getIfaceIP)"

definition parseClientConfig :: "(string \<Rightarrow> ClientConfig option) \<Rightarrow> (string \<Rightarrow> string) \<Rightarrow> string \<Rightarrow> ConfigError + ClientConfig" where
  "parseClientConfig glz getIfaceIP = parse glz (validateClientConfig getIfaceIP)"

definition loadExchangeConfig :: "(string \<Rightarrow> ExchangeConfig option) \<Rightarrow> (string \<Rightarrow> string) \<Rightarrow> (string \<Rightarrow> FileResult) \<Rightarrow> string \<Rightarrow>
    ConfigError + ExchangeConfig" where
  "loadExchangeConfig glz getIfaceIP = load glz (validateExchangeConfig getIfaceIP)"

definition loadClientConfig :: "(string \<Rightarrow> ClientConfig option) \<Rightarrow> (string \<Rightarrow> string) \<Rightarrow> (string \<Rightarrow> FileResult) \<Rightarrow> string \<Rightarrow>
    ConfigError + ClientConfig" where
  "loadClientConfig glz getIfaceIP = load glz (validateClientConfig getIfaceIP)"

subsection \<open>Command line and environment\<close>

record StartupOptions =
  config_path :: string
  first_positional :: nat
  check_only :: bool

text \<open>The loop over the arguments from index \<open>i\<close> on; \<open>beside\<close> is the file beside the executable.\<close>

fun startup_loop :: "nat \<Rightarrow> string list \<Rightarrow> StartupOptions \<Rightarrow> ConfigError + StartupOptions" where
  "startup_loop i [] r = Inr r"
| "startup_loop i (option # args) r =
     (if option = ''--config'' then
        (case args of [] \<Rightarrow> Inl BadOption
         | path # rest \<Rightarrow> if config_path r \<noteq> [] \<or> path = [] then Inl BadOption
             else startup_loop (i + 2) rest (r\<lparr>config_path := path, first_positional := i + 2\<rparr>))
      else if option = ''--check-config'' then startup_loop (i + 1) args (r\<lparr>check_only := True, first_positional := i + 1\<rparr>)
      else Inr (r\<lparr>first_positional := i\<rparr>))"

definition startupOptions :: "string \<Rightarrow> string list \<Rightarrow> ConfigError + StartupOptions" where
  "startupOptions beside args =
     (case startup_loop 1 args \<lparr>config_path = [], first_positional = 1, check_only = False\<rparr> of
        Inl e \<Rightarrow> Inl e
      | Inr r \<Rightarrow> Inr (if config_path r = [] then r\<lparr>config_path := beside\<rparr> else r))"

text \<open>\<open>std::from_chars\<close> on the whole text: digits only, at least one, at most \<open>2\<^sup>64 - 1\<close>.\<close>

fun from_chars :: "string \<Rightarrow> nat \<Rightarrow> nat option" where
  "from_chars [] n = Some n"
| "from_chars (c # cs) n = (case digit c of None \<Rightarrow> None | Some d \<Rightarrow> from_chars cs (n * 10 + d))"

definition unsignedSetting :: "string \<Rightarrow> u64 \<Rightarrow> string \<Rightarrow> ConfigError + u64" where
  "unsignedSetting text maximum field =
     (case (if text = [] then None else from_chars text 0) of
        Some n \<Rightarrow> if n < 2 ^ 64 \<and> n \<le> unat maximum then Inr (of_nat n) else Inl (BadNumber field)
      | None \<Rightarrow> Inl (BadNumber field))"

text \<open>\<open>std::from_chars\<close> for \<open>double\<close> on the whole text: an optional minus, digits with an optional point, an optional exponent.
  The words for infinity and NaN, which it also reads, fail the test for a finite value, as does a number out of range.\<close>

definition digits_of :: "string \<Rightarrow> string \<times> string" where
  "digits_of s = (takeWhile (\<lambda>c. digit c \<noteq> None) s, dropWhile (\<lambda>c. digit c \<noteq> None) s)"

definition digits_value :: "string \<Rightarrow> nat" where
  "digits_value ds = (case from_chars ds 0 of Some n \<Rightarrow> n | None \<Rightarrow> 0)"

definition exponent_part :: "string \<Rightarrow> int option" where
  "exponent_part s = (case s of [] \<Rightarrow> Some 0
   | c # r \<Rightarrow> if c \<noteq> CHR ''e'' \<and> c \<noteq> CHR ''E'' then None
       else let (sign, r) = (case r of CHR ''-'' # r' \<Rightarrow> (- 1, r') | CHR ''+'' # r' \<Rightarrow> (1, r') | _ \<Rightarrow> (1, r));
                (ds, rest) = digits_of r
         in if ds = [] \<or> rest \<noteq> [] then None else Some (sign * int (digits_value ds)))"

definition decimal :: "string \<Rightarrow> rat option" where
  "decimal text =
     (let (sign, s) = (case text of CHR ''-'' # r \<Rightarrow> (- 1, r) | _ \<Rightarrow> (1, text));
          (whole, r) = digits_of s;
          (frac, r) = (case r of CHR ''.'' # r' \<Rightarrow> digits_of r' | _ \<Rightarrow> ([], r))
      in if whole @ frac = [] then None
         else map_option (\<lambda>e. let k = e - int (length frac); v = of_nat (digits_value (whole @ frac)) in
           sign * (if 0 \<le> k then v * 10 ^ nat k else v / 10 ^ nat (- k))) (exponent_part r))"

definition floatingSetting :: "string \<Rightarrow> string \<Rightarrow> ConfigError + double" where
  "floatingSetting text field = (case decimal text of
     None \<Rightarrow> Inl (BadNumber field)
   | Some x \<Rightarrow> let value = round_double x in
       if is_finite value \<and> (x = 0 \<or> value \<noteq> Finite 0) then Inr value else Inl (BadNumber field))"

definition environmentSetting :: "(string \<Rightarrow> string option) \<Rightarrow> string \<Rightarrow> u64 \<Rightarrow> u64 \<Rightarrow> ConfigError + u64" where
  "environmentSetting getenv key fallback maximum =
     (case getenv key of Some text \<Rightarrow> unsignedSetting text maximum key | None \<Rightarrow> Inr fallback)"

subsection \<open>What a validated configuration guarantees\<close>

lemma require_None: "require cs = None \<longleftrightarrow> (\<forall>c \<in> set cs. fst c)"
  by (induct cs rule: require.induct) auto

definition parameters_ok :: "StrategyParameters \<Rightarrow> bool" where
  "parameters_ok p \<longleftrightarrow> (\<forall>c \<in> set (parameter_checks p). fst c)"

lemma ticker_checks_ok:
  "(\<forall>c \<in> set (ticker_checks seen ts). fst c) \<Longrightarrow> t \<in> set ts \<Longrightarrow>
   unat (ts_ticker_id t) < ME_MAX_TICKERS \<and> parameters_ok (ts_parameters t)"
  by (induct ts arbitrary: seen) (auto simp: parameters_ok_def)

lemma validated_client:
  assumes "validateClientConfig getIfaceIP c = None"
  shows "strategyType c \<noteq> Algo_INVALID" "parameters_ok (default_parameters (cc_strategy c))"
    "\<And>t. t \<in> set (tickers (cc_strategy c)) \<Longrightarrow> parameters_ok (ts_parameters t)"
proof -
  note C = assms [unfolded validateClientConfig_def require_None set_append ball_Un]
  show "strategyType c \<noteq> Algo_INVALID" using C by simp
  show "parameters_ok (default_parameters (cc_strategy c))" unfolding parameters_ok_def using C by blast
  show "parameters_ok (ts_parameters t)" if "t \<in> set (tickers (cc_strategy c))" for t
    using C ticker_checks_ok [of "[]" "tickers (cc_strategy c)" t] that by blast
qed

lemma tickerConfig_from:
  "\<exists>p \<in> insert (default_parameters (cc_strategy c)) (ts_parameters ` set (tickers (cc_strategy c))). tickerConfig c t = ticker_config p"
proof -
  have "\<exists>p \<in> insert d (ts_parameters ` set ts). fold (\<lambda>t config. config(unat (ts_ticker_id t) := ticker_config (ts_parameters t)))
     ts f u = ticker_config p" if "f u = ticker_config d" for ts f d u
    using that
  proof (induct ts arbitrary: f d)
    case (Cons x ts)
    show ?case
    proof (cases "u = unat (ts_ticker_id x)")
      case True
      then show ?thesis using Cons.hyps [of "f(unat (ts_ticker_id x) := ticker_config (ts_parameters x))" "ts_parameters x"] by auto
    next
      case False
      then show ?thesis
        using Cons.hyps [of "f(unat (ts_ticker_id x) := ticker_config (ts_parameters x))" d] Cons.prems by auto
    qed
  qed simp
  from this [of "\<lambda>_. ticker_config (default_parameters (cc_strategy c))" t "default_parameters (cc_strategy c)"]
  show ?thesis by (simp add: tickerConfig_def)
qed

lemma validated_parameters:
  assumes "validateClientConfig getIfaceIP c = None"
  shows "\<exists>p. parameters_ok p \<and> tickerConfig c t = ticker_config p"
  using tickerConfig_from [of c t] validated_client(2,3) [OF assms] by auto

end
