(* ===== verification/Trade_Startup.thy ===== *)
theory Trade_Startup
  imports Trade_Engine_Props Runtime_Config
begin

text \<open>
  From the configuration file to the running client: what the checks of \<^verbatim>\<open>src/common/runtime_config.h\<close> promise is what the
  trading engine needs.
\<close>

lemma books_exist: "\<exists>books. those (map (\<lambda>i. MarketOrderBook_new (of_nat i)) xs) = Some books"
proof (induct xs)
  case (Cons x xs)
  then show ?case using MarketOrderBook_new_ok [of "of_nat x"] by auto
qed simp

lemma validated_starts:
  assumes v: "validateClientConfig getIfaceIP c = None" and q: "queue_empty q1" "queue_empty q2" "queue_empty q3"
  shows "\<exists>e. TradeEngine_new (cc_client_id c) (strategyType c) (tickerConfig c) q1 q2 q3 = Some e \<and>
     trade_start (cc_client_id c) (strategyType c) (tickerConfig c) e"
proof -
  have "createStrategy (strategyType c) \<noteq> None"
    using validated_client(1) [OF v] by (auto simp: strategyType_def Let_def createStrategy_def split: if_splits)
  then obtain e where e: "TradeEngine_new (cc_client_id c) (strategyType c) (tickerConfig c) q1 q2 q3 = Some e"
    using books_exist [of "[0..<ME_MAX_TICKERS]"] by (auto simp: TradeEngine_new_def)
  have "max_position (risk_cfg (tickerConfig c t)) \<le> 0x7FFFFFFF" for t
    using validated_parameters [OF v, of t] by (auto simp: ticker_config_def parameters_ok_def parameter_checks_def)
  with e q show ?thesis unfolding trade_start_def by blast
qed

definition demo_parameters :: StrategyParameters where
  "demo_parameters = \<lparr>sp_clip = 10, sp_threshold = Finite 1,
     sp_risk = \<lparr>rr_max_order_size = 100, rr_max_position = 1000, rr_max_loss = Finite (- 100)\<rparr>\<rparr>"

definition demo_config :: ClientConfig where
  "demo_config = \<lparr>cc_client_id = 1,
     cc_market_data = \<lparr>interface = ''lo'', incremental = \<lparr>address = ''239.0.0.1'', port = 20001\<rparr>,
       snapshot = \<lparr>address = ''239.0.0.2'', port = 20002\<rparr>\<rparr>,
     cc_tcp = \<lparr>address = ''127.0.0.1'', port = 12345\<rparr>,
     cc_strategy = \<lparr>sc_type = ''maker'', default_parameters = demo_parameters, tickers = []\<rparr>, cc_runtime = None\<rparr>"

lemma demo_addresses:
  "inet_pton ''239.0.0.1'' = Some 4009754625" "inet_pton ''239.0.0.2'' = Some 4009754626" "inet_pton ''127.0.0.1'' = Some 2130706433"
  by (simp_all add: inet_pton_def digit_def Let_def)

lemma demo_type: "strategyType demo_config = Algo_MAKER"
  by code_simp

lemma demo_validated: "validateClientConfig (\<lambda>_. ''127.0.0.1'') demo_config = None"
  using demo_type [unfolded demo_config_def demo_parameters_def]
  by (simp add: validateClientConfig_def demo_config_def demo_parameters_def market_checks_def ipv4_checks_def tcp_checks_def
      host_of_def demo_addresses IN_MULTICAST_def parameter_checks_def runtimeConfig_def RuntimeConfig_default_def limits Let_def)

text \<open>From a configuration that passes the checks and empty queues the trading engine starts, and whatever then happens, it
  never fails and every position stays within its limit.\<close>

lemma validated_safe:
  assumes "validateClientConfig getIfaceIP c = None" "queue_empty q1" "queue_empty q2" "queue_empty q3"
    "list_all (event_ok False) vs"
  shows "\<exists>e0 e out. TradeEngine_new (cc_client_id c) (strategyType c) (tickerConfig c) q1 q2 q3 = Some e0 \<and>
     trade_run vs (e0, []) = Some (e, out) \<and>
     (\<forall>t < ME_MAX_TICKERS. \<bar>position (position_keeper e t)\<bar> \<le> uint (max_position (risk_cfg (tickerConfig c t))))"
proof -
  obtain e0 where e0: "TradeEngine_new (cc_client_id c) (strategyType c) (tickerConfig c) q1 q2 q3 = Some e0"
    "trade_start (cc_client_id c) (strategyType c) (tickerConfig c) e0"
    using validated_starts [OF assms(1-4)] by blast
  let ?L = "\<lambda>t. risk_cfg (tickerConfig c t)"
  obtain e out where e: "trade_run vs (e0, []) = Some (e, out)" "eng_ok (cc_client_id c, ?L) False out e"
    using trade_run_ok [OF trade_start_ok [OF e0(2)] assms(5)] by blast
  have L: "ticker_risk (risk_manager e) = ?L" using eng_okD(3) [OF e(2)] by (simp add: limits_small_def)
  have "\<bar>position (position_keeper e t)\<bar> \<le> uint (max_position (?L t))" if "t < ME_MAX_TICKERS" for t
    using limit_bounds(1) [OF risk_okD(5) [OF eng_okD(2) [OF e(2)] that]] unfolding L .
  with e0(1) e(1) show ?thesis by blast
qed

end
