(* ===== verification/Program_Start.thy ===== *)
theory Program_Start
  imports Trade_Startup
begin

text \<open>
  How the two programs start: \<^verbatim>\<open>main\<close> of \<^verbatim>\<open>src/exchange/exchange_main.cpp\<close> and of \<^verbatim>\<open>src/trading/trading_main.cpp\<close> up to the
  point where the threads are built, and the load generator of the strategy RANDOM. The file system, the environment, the
  interfaces, the JSON reader and the random numbers are arguments.
\<close>

text \<open>An exception ends the sequence of calls.\<close>

definition attempt :: "'e + 'a \<Rightarrow> ('a \<Rightarrow> 'e + 'b) \<Rightarrow> 'e + 'b" where
  "attempt r k = (case r of Inl e \<Rightarrow> Inl e | Inr x \<Rightarrow> k x)"

lemma attempt_Inr [simp]: "attempt r k = Inr y \<longleftrightarrow> (\<exists>x. r = Inr x \<and> k x = Inr y)"
  by (auto simp: attempt_def split: sum.splits)

lemma attempt_value [simp]: "attempt (Inr x) k = k x" "attempt (Inl e) k = Inl e"
  by (simp_all add: attempt_def)

text \<open>\<open>main\<close> returns with an exit code, aborts in an \<open>ASSERT\<close>, or goes on with its configuration.\<close>

datatype 'c Startup = Exit nat | Aborted | Run 'c

subsection \<open>The exchange\<close>

definition exchange_settings :: "(string \<Rightarrow> ExchangeConfig option) \<Rightarrow> (string \<Rightarrow> string) \<Rightarrow> (string \<Rightarrow> FileResult) \<Rightarrow> string \<Rightarrow>
    string list \<Rightarrow> ConfigError + StartupOptions \<times> ExchangeConfig" where
  "exchange_settings glz getIfaceIP files beside args =
     attempt (startupOptions beside args) (\<lambda>options.
       if first_positional options \<noteq> length args + 1 then Inl BadUsage
       else attempt (loadExchangeConfig glz getIfaceIP files (config_path options)) (\<lambda>config. Inr (options, config)))"

definition exchange_startup :: "(string \<Rightarrow> ExchangeConfig option) \<Rightarrow> (string \<Rightarrow> string) \<Rightarrow> (string \<Rightarrow> FileResult) \<Rightarrow> string \<Rightarrow>
    string list \<Rightarrow> ExchangeConfig Startup" where
  "exchange_startup glz getIfaceIP files beside args = (case exchange_settings glz getIfaceIP files beside args of
     Inl _ \<Rightarrow> Exit 2
   | Inr (options, config) \<Rightarrow> if check_only options then Exit 0 else Run config)"

subsection \<open>The trading client\<close>

text \<open>The positional arguments: client, strategy, and five values per ticker.\<close>

definition legacy_parameters :: "string \<Rightarrow> string \<Rightarrow> string \<Rightarrow> string \<Rightarrow> string \<Rightarrow> ConfigError + StrategyParameters" where
  "legacy_parameters a1 a2 a3 a4 a5 =
     attempt (unsignedSetting a1 0x7FFFFFFF ''CLIP'') (\<lambda>clip.
     attempt (floatingSetting a2 ''THRESH'') (\<lambda>threshold.
     attempt (unsignedSetting a3 0x7FFFFFFF ''MAX_ORDER_SIZE'') (\<lambda>order_size.
     attempt (unsignedSetting a4 0x7FFFFFFF ''MAX_POSITION'') (\<lambda>pos.
     attempt (floatingSetting a5 ''MAX_LOSS'') (\<lambda>loss.
       Inr \<lparr>sp_clip = ucast clip, sp_threshold = threshold,
         sp_risk = \<lparr>rr_max_order_size = ucast order_size, rr_max_position = ucast pos, rr_max_loss = loss\<rparr>\<rparr>)))))"

fun set_ticker :: "u32 \<Rightarrow> StrategyParameters \<Rightarrow> TickerStrategyConfig list \<Rightarrow> TickerStrategyConfig list" where
  "set_ticker t p [] = [\<lparr>ts_ticker_id = t, ts_parameters = p\<rparr>]"
| "set_ticker t p (x # xs) = (if ts_ticker_id x = t then x\<lparr>ts_parameters := p\<rparr> # xs else x # set_ticker t p xs)"

fun legacy_groups :: "nat \<Rightarrow> string list \<Rightarrow> TickerStrategyConfig list \<Rightarrow> ConfigError + TickerStrategyConfig list" where
  "legacy_groups k (a1 # a2 # a3 # a4 # a5 # rest) ts =
     attempt (legacy_parameters a1 a2 a3 a4 a5) (\<lambda>p. legacy_groups (k + 1) rest (set_ticker (of_nat k) p ts))"
| "legacy_groups k rest ts = Inr ts"

definition applyLegacyArguments :: "ClientConfig \<Rightarrow> string list \<Rightarrow> ConfigError + ClientConfig" where
  "applyLegacyArguments config args =
     (let remaining = length args in
      if remaining = 0 then Inr config
      else if remaining < 2 \<or> (remaining - 2) mod 5 \<noteq> 0 \<or> (remaining - 2) div 5 > ME_MAX_TICKERS then Inl BadUsage
      else attempt (unsignedSetting (args ! 0) (of_nat (ME_MAX_NUM_CLIENTS - 1)) ''CLIENT_ID'') (\<lambda>client.
        attempt (legacy_groups 0 (drop 2 args) (tickers (cc_strategy config))) (\<lambda>ts.
          Inr (config\<lparr>cc_client_id := ucast client, cc_strategy := (cc_strategy config)\<lparr>sc_type := args ! 1, tickers := ts\<rparr>\<rparr>))))"

definition client_settings :: "(string \<Rightarrow> ClientConfig option) \<Rightarrow> (string \<Rightarrow> string) \<Rightarrow> (string \<Rightarrow> FileResult) \<Rightarrow>
    (string \<Rightarrow> string option) \<Rightarrow> string \<Rightarrow> string list \<Rightarrow> ConfigError + StartupOptions \<times> ClientConfig" where
  "client_settings glz getIfaceIP files getenv beside args =
     attempt (startupOptions beside args) (\<lambda>options.
     attempt (loadClientConfig glz getIfaceIP files (config_path options)) (\<lambda>config.
     attempt (applyLegacyArguments config (drop (first_positional options - 1) args)) (\<lambda>startup.
     let runtime = runtimeConfig startup in
     attempt (environmentSetting getenv ''TRADE_RUN_SECONDS'' (run_seconds runtime) 86400) (\<lambda>seconds.
     attempt (environmentSetting getenv ''TRADE_RANDOM_ORDERS'' (random_orders runtime) 900000) (\<lambda>orders.
     attempt (environmentSetting getenv ''TRADE_RANDOM_DELAY_US'' (random_delay_us runtime) 1000000) (\<lambda>delay.
     let startup = startup\<lparr>cc_runtime := Some \<lparr>run_seconds = seconds, random_orders = orders, random_delay_us = delay\<rparr>\<rparr> in
     case validateClientConfig getIfaceIP startup of Some e \<Rightarrow> Inl e | None \<Rightarrow> Inr (options, startup)))))))"

definition checkpoint_path :: "ClientConfig \<Rightarrow> string" where
  "checkpoint_path c = ''trading_account_'' @ nat_to_string (unat (cc_client_id c)) @ ''.journal''"

definition client_startup :: "(string \<Rightarrow> ClientConfig option) \<Rightarrow> (string \<Rightarrow> string) \<Rightarrow> (string \<Rightarrow> FileResult) \<Rightarrow>
    (string \<Rightarrow> string option) \<Rightarrow> (string \<Rightarrow> bool) \<Rightarrow> string \<Rightarrow> string list \<Rightarrow> ClientConfig Startup" where
  "client_startup glz getIfaceIP files getenv exists beside args =
     (case client_settings glz getIfaceIP files getenv beside args of
        Inl _ \<Rightarrow> Exit 2
      | Inr (options, startup) \<Rightarrow>
          if check_only options then Exit 0 else if exists (checkpoint_path startup) then Aborted else Run startup)"

subsection \<open>Started means validated\<close>

lemma client_started:
  assumes "client_startup glz getIfaceIP files getenv exists beside args = Run c"
  shows "validateClientConfig getIfaceIP c = None" "\<not> exists (checkpoint_path c)"
    "\<exists>options. client_settings glz getIfaceIP files getenv beside args = Inr (options, c) \<and> \<not> check_only options"
proof -
  from assms obtain options where o: "client_settings glz getIfaceIP files getenv beside args = Inr (options, c)"
      "\<not> check_only options" "\<not> exists (checkpoint_path c)"
    by (auto simp: client_startup_def split: sum.splits if_splits)
  then show "\<not> exists (checkpoint_path c)"
    "\<exists>options. client_settings glz getIfaceIP files getenv beside args = Inr (options, c) \<and> \<not> check_only options" by blast+
  show "validateClientConfig getIfaceIP c = None" using o(1) by (auto simp: client_settings_def Let_def split: option.splits)
qed

lemma exchange_started:
  assumes "exchange_startup glz getIfaceIP files beside args = Run c"
  shows "validateExchangeConfig getIfaceIP c = None"
  using assms
  by (auto simp: exchange_startup_def exchange_settings_def loadExchangeConfig_def load_def parse_def
      split: sum.splits if_splits option.splits FileResult.splits)

subsection \<open>Positional arguments override the file\<close>

definition ticker_parameters :: "TickerStrategyConfig list \<Rightarrow> nat \<Rightarrow> StrategyParameters option" where
  "ticker_parameters ts = map_of (map (\<lambda>t. (unat (ts_ticker_id t), ts_parameters t)) ts)"

lemma ticker_parameters_simps [simp]:
  "ticker_parameters [] = Map.empty"
  "ticker_parameters (t # ts) = (ticker_parameters ts)(unat (ts_ticker_id t) \<mapsto> ts_parameters t)"
  by (simp_all add: ticker_parameters_def)

lemma ticker_parameters_None: "u \<notin> unat ` ts_ticker_id ` set ts \<Longrightarrow> ticker_parameters ts u = None"
  by (induct ts) auto

lemma tickerConfig_lookup:
  assumes "distinct (map ts_ticker_id (tickers (cc_strategy c)))"
  shows "tickerConfig c u = ticker_config (case ticker_parameters (tickers (cc_strategy c)) u of
     Some p \<Rightarrow> p | None \<Rightarrow> default_parameters (cc_strategy c))"
proof -
  have "fold (\<lambda>t config. config(unat (ts_ticker_id t) := ticker_config (ts_parameters t))) ts f u =
      (case ticker_parameters ts u of Some p \<Rightarrow> ticker_config p | None \<Rightarrow> f u)" if "distinct (map ts_ticker_id ts)" for ts f
    using that
  proof (induct ts arbitrary: f)
    case (Cons t ts)
    then have "ticker_parameters ts (unat (ts_ticker_id t)) = None" by (intro ticker_parameters_None) (auto simp flip: word_unat_eq_iff)
    with Cons show ?case by (auto split: option.splits)
  qed simp
  then show ?thesis using assms by (simp add: tickerConfig_def split: option.splits)
qed

lemma set_ticker_ids: "set (map ts_ticker_id (set_ticker t p ts)) = insert t (set (map ts_ticker_id ts))"
  by (induct ts) auto

lemma set_ticker_effect:
  "distinct (map ts_ticker_id ts) \<Longrightarrow> distinct (map ts_ticker_id (set_ticker t p ts)) \<and>
   ticker_parameters (set_ticker t p ts) = (ticker_parameters ts)(unat t \<mapsto> p)"
proof (induct ts)
  case (Cons x xs)
  have "ts_ticker_id x \<notin> set (map ts_ticker_id (set_ticker t p xs))" if "ts_ticker_id x \<noteq> t"
    using that Cons.prems unfolding set_ticker_ids by simp
  with Cons show ?case by (auto simp: fun_eq_iff simp flip: word_unat_eq_iff)
qed simp

definition group_parameters :: "string list \<Rightarrow> ConfigError + StrategyParameters" where
  "group_parameters g = legacy_parameters (g ! 0) (g ! 1) (g ! 2) (g ! 3) (g ! 4)"

lemma legacy_groups_effect:
  assumes "legacy_groups k (concat gs) ts = Inr ts'" "list_all (\<lambda>g. length g = 5) gs" "distinct (map ts_ticker_id ts)"
    "k + length gs \<le> 2 ^ 32"
  shows "distinct (map ts_ticker_id ts') \<and>
     (\<forall>i < length gs. \<exists>p. group_parameters (gs ! i) = Inr p \<and> ticker_parameters ts' (k + i) = Some p) \<and>
     (\<forall>u. \<not> (k \<le> u \<and> u < k + length gs) \<longrightarrow> ticker_parameters ts' u = ticker_parameters ts u)"
  using assms
proof (induct gs arbitrary: k ts)
  case (Cons g gs)
  have "length g = Suc (Suc (Suc (Suc (Suc 0))))" using Cons.prems(2) by simp
  then obtain a1 a2 a3 a4 a5 where g: "g = [a1, a2, a3, a4, a5]" by (auto simp: length_Suc_conv)
  from Cons.prems(1) obtain p where p: "group_parameters g = Inr p"
      "legacy_groups (k + 1) (concat gs) (set_ticker (of_nat k) p ts) = Inr ts'"
    by (auto simp: g group_parameters_def)
  have k: "unat (of_nat k :: u32) = k" using Cons.prems(4) by (simp add: unsigned_of_nat take_bit_nat_eq_self)
  note S = set_ticker_effect [OF Cons.prems(3), of "of_nat k" p]
  have IH: "distinct (map ts_ticker_id ts')"
    "\<And>i. i < length gs \<Longrightarrow> \<exists>p. group_parameters (gs ! i) = Inr p \<and> ticker_parameters ts' (k + 1 + i) = Some p"
    "\<And>u. \<not> (k + 1 \<le> u \<and> u < k + 1 + length gs) \<Longrightarrow> ticker_parameters ts' u = ((ticker_parameters ts)(k \<mapsto> p)) u"
    using Cons.hyps [OF p(2)] Cons.prems S by (auto simp: k)
  show ?case
  proof (intro conjI allI impI)
    show "\<exists>q. group_parameters ((g # gs) ! i) = Inr q \<and> ticker_parameters ts' (k + i) = Some q" if "i < length (g # gs)" for i
      using that IH(2) [of "i - 1"] IH(3) [of k] p(1) by (cases i) auto
    show "ticker_parameters ts' u = ticker_parameters ts u" if "\<not> (k \<le> u \<and> u < k + length (g # gs))" for u
      using that IH(3) [of u] by auto
  qed (rule IH(1))
qed simp

lemma ticker_checks_distinct:
  "\<forall>c \<in> set (ticker_checks seen ts). fst c \<Longrightarrow> distinct (map ts_ticker_id ts) \<and> set (map ts_ticker_id ts) \<inter> set seen = {}"
proof (induct ts arbitrary: seen)
  case (Cons t ts)
  then show ?case using Cons.hyps [of "ts_ticker_id t # seen"] by auto
qed simp

lemma validated_distinct:
  assumes "validateClientConfig getIfaceIP c = None"
  shows "distinct (map ts_ticker_id (tickers (cc_strategy c)))"
  using assms ticker_checks_distinct [of "[]" "tickers (cc_strategy c)"]
  unfolding validateClientConfig_def require_None set_append ball_Un by blast

lemma loaded_validated: "loadClientConfig glz getIfaceIP files path = Inr c \<Longrightarrow> validateClientConfig getIfaceIP c = None"
  by (auto simp: loadClientConfig_def load_def parse_def split: sum.splits option.splits FileResult.splits)

lemma legacy_effect:
  assumes "applyLegacyArguments c (client # algo # concat gs) = Inr c'" "list_all (\<lambda>g. length g = 5) gs"
    "distinct (map ts_ticker_id (tickers (cc_strategy c)))"
  shows "\<exists>n. unsignedSetting client (of_nat (ME_MAX_NUM_CLIENTS - 1)) ''CLIENT_ID'' = Inr n \<and> cc_client_id c' = ucast n"
    "sc_type (cc_strategy c') = algo" "cc_market_data c' = cc_market_data c" "cc_tcp c' = cc_tcp c" "cc_runtime c' = cc_runtime c"
    "i < length gs \<Longrightarrow> \<exists>p. group_parameters (gs ! i) = Inr p \<and> tickerConfig c' i = ticker_config p"
    "length gs \<le> u \<Longrightarrow> tickerConfig c' u = tickerConfig c u"
proof -
  have "length (concat gs) = 5 * length gs" using assms(2) by (induct gs) auto
  with assms(1) obtain n ts where n: "unsignedSetting client (of_nat (ME_MAX_NUM_CLIENTS - 1)) ''CLIENT_ID'' = Inr n"
    and ts: "legacy_groups 0 (concat gs) (tickers (cc_strategy c)) = Inr ts" and small: "length gs \<le> ME_MAX_TICKERS"
    and c': "c' = c\<lparr>cc_client_id := ucast n, cc_strategy := (cc_strategy c)\<lparr>sc_type := algo, tickers := ts\<rparr>\<rparr>"
    by (auto simp: applyLegacyArguments_def Let_def split: if_splits)
  then show "\<exists>n. unsignedSetting client (of_nat (ME_MAX_NUM_CLIENTS - 1)) ''CLIENT_ID'' = Inr n \<and> cc_client_id c' = ucast n"
    "sc_type (cc_strategy c') = algo" "cc_market_data c' = cc_market_data c" "cc_tcp c' = cc_tcp c" "cc_runtime c' = cc_runtime c" by simp_all
  have "0 + length gs \<le> 2 ^ 32" using small by (simp add: limits)
  note E = legacy_groups_effect [OF ts assms(2,3) this, simplified]
  have d: "distinct (map ts_ticker_id (tickers (cc_strategy c')))" using E by (simp add: c')
  have s: "tickers (cc_strategy c') = ts" "default_parameters (cc_strategy c') = default_parameters (cc_strategy c)" by (simp_all add: c')
  show "\<exists>p. group_parameters (gs ! i) = Inr p \<and> tickerConfig c' i = ticker_config p" if "i < length gs"
    using E that tickerConfig_lookup [OF d, of i] by (auto simp: s)
  show "tickerConfig c' u = tickerConfig c u" if "length gs \<le> u"
    using E that tickerConfig_lookup [OF d, of u] tickerConfig_lookup [OF assms(3), of u] unfolding s by simp
qed

subsection \<open>Properties\<close>

text \<open>C37: a client that starts is safe to trade with. Whatever the command line, the configuration file, the environment and
  the file system give, if \<open>main\<close> gets past its checks then no checkpoint of an earlier run exists, the trading engine starts
  on empty queues, and whatever then happens, it never fails and every position stays within the \<open>max_position\<close> in force
  for its ticker.\<close>

theorem started_client_is_safe:
  assumes "client_startup glz getIfaceIP files getenv exists beside args = Run c" "queue_empty q1" "queue_empty q2" "queue_empty q3"
    "list_all (event_ok False) vs"
  shows "\<not> exists (checkpoint_path c) \<and> (\<exists>e0 e out. TradeEngine_new (cc_client_id c) (strategyType c) (tickerConfig c) q1 q2 q3 = Some e0 \<and>
     trade_run vs (e0, []) = Some (e, out) \<and>
     (\<forall>t < ME_MAX_TICKERS. \<bar>position (position_keeper e t)\<bar> \<le> uint (max_position (risk_cfg (tickerConfig c t)))))"
  using validated_safe [OF client_started(1) [OF assms(1)] assms(2-5)] client_started(2) [OF assms(1)] by blast

text \<open>The command lines that start a client: an optional \<open>--config FILE\<close>, then the positional arguments. Without the option the
  file is the one beside the executable.\<close>

definition config_args :: "string option \<Rightarrow> string list" where
  "config_args path = (case path of None \<Rightarrow> [] | Some f \<Rightarrow> [''--config'', f])"

lemma positional_options:
  assumes "client \<notin> {''--config'', ''--check-config''}" "startupOptions beside (config_args path @ client # rest) = Inr options"
  shows "options = \<lparr>config_path = (case path of None \<Rightarrow> beside | Some f \<Rightarrow> f), first_positional = length (config_args path) + 1, check_only = False\<rparr>"
  using assms by (cases path) (auto simp: config_args_def startupOptions_def split: if_splits)

text \<open>C38: positional arguments win over the file. Started with or without \<open>--config FILE\<close>, and then a client id, a strategy and
  groups of five values, the client runs under that id and strategy, ticker \<open>k\<close> has the parameters of group \<open>k\<close>, every further
  ticker those of the file, and the addresses are those of the file. Run time, number and spacing of the orders of the load
  generator are those of the environment where it sets them, else those of the file.\<close>

theorem positional_arguments_win:
  assumes "client_startup glz getIfaceIP files getenv exists beside (config_args path @ client # algo # concat gs) = Run c"
    "client \<notin> {''--config'', ''--check-config''}" "list_all (\<lambda>g. length g = 5) gs"
  shows "\<exists>base n. loadClientConfig glz getIfaceIP files (case path of None \<Rightarrow> beside | Some f \<Rightarrow> f) = Inr base \<and>
     unsignedSetting client 255 ''CLIENT_ID'' = Inr n \<and>
     cc_client_id c = ucast n \<and> sc_type (cc_strategy c) = algo \<and> cc_market_data c = cc_market_data base \<and> cc_tcp c = cc_tcp base \<and>
     (\<forall>k < length gs. \<exists>p. group_parameters (gs ! k) = Inr p \<and> tickerConfig c k = ticker_config p) \<and>
     (\<forall>k \<ge> length gs. tickerConfig c k = tickerConfig base k) \<and>
     environmentSetting getenv ''TRADE_RUN_SECONDS'' (run_seconds (runtimeConfig base)) 86400 = Inr (run_seconds (runtimeConfig c)) \<and>
     environmentSetting getenv ''TRADE_RANDOM_ORDERS'' (random_orders (runtimeConfig base)) 900000 = Inr (random_orders (runtimeConfig c)) \<and>
     environmentSetting getenv ''TRADE_RANDOM_DELAY_US'' (random_delay_us (runtimeConfig base)) 1000000 = Inr (random_delay_us (runtimeConfig c))"
proof -
  let ?args = "config_args path @ client # algo # concat gs" and ?file = "case path of None \<Rightarrow> beside | Some f \<Rightarrow> f"
  from client_started(3) [OF assms(1)] obtain options where
    o: "startupOptions beside ?args = Inr options" and s: "client_settings glz getIfaceIP files getenv beside ?args = Inr (options, c)"
    by (auto simp: client_settings_def Let_def split: option.splits)
  note P = positional_options [OF assms(2) o]
  obtain base c1 n1 n2 n3 where f: "loadClientConfig glz getIfaceIP files ?file = Inr base"
    and l: "applyLegacyArguments base (client # algo # concat gs) = Inr c1"
    and e: "environmentSetting getenv ''TRADE_RUN_SECONDS'' (run_seconds (runtimeConfig c1)) 86400 = Inr n1"
      "environmentSetting getenv ''TRADE_RANDOM_ORDERS'' (random_orders (runtimeConfig c1)) 900000 = Inr n2"
      "environmentSetting getenv ''TRADE_RANDOM_DELAY_US'' (random_delay_us (runtimeConfig c1)) 1000000 = Inr n3"
    and c: "c = c1\<lparr>cc_runtime := Some \<lparr>run_seconds = n1, random_orders = n2, random_delay_us = n3\<rparr>\<rparr>"
    using s by (auto simp: client_settings_def o P Let_def split: option.splits)
  note E = legacy_effect [OF l assms(3) validated_distinct [OF loaded_validated [OF f]]]
  have t: "tickerConfig c k = tickerConfig c1 k" for k by (simp add: c tickerConfig_def)
  have r: "runtimeConfig c1 = runtimeConfig base" using E(5) by (simp add: runtimeConfig_def)
  have "runtimeConfig c = \<lparr>run_seconds = n1, random_orders = n2, random_delay_us = n3\<rparr>" by (simp add: c runtimeConfig_def)
  moreover have "\<exists>n. unsignedSetting client 255 ''CLIENT_ID'' = Inr n \<and> cc_client_id c = ucast n" using E(1) by (simp add: c limits)
  ultimately show ?thesis using f E(2-7) e by (auto simp: c r t [unfolded c])
qed

subsection \<open>Witnesses\<close>

definition demo_groups :: "string list list" where
  "demo_groups = [[''5'', ''0'', ''50'', ''300'', ''0'']]"

definition demo_group_parameters :: StrategyParameters where
  "demo_group_parameters = \<lparr>sp_clip = 5, sp_threshold = Finite 0,
     sp_risk = \<lparr>rr_max_order_size = 50, rr_max_position = 300, rr_max_loss = Finite 0\<rparr>\<rparr>"

definition demo_for :: "string \<Rightarrow> ClientConfig" where
  "demo_for algo = demo_config\<lparr>cc_client_id := 7, cc_strategy := (cc_strategy demo_config)\<lparr>sc_type := algo,
     tickers := [\<lparr>ts_ticker_id = 0, ts_parameters = demo_group_parameters\<rparr>]\<rparr>, cc_runtime := Some RuntimeConfig_default\<rparr>"

definition demo_started :: ClientConfig where
  "demo_started = demo_for ''taker''"

lemma demo_group: "legacy_parameters ''5'' ''0'' ''50'' ''300'' ''0'' = Inr demo_group_parameters"
proof -
  have "floatingSetting ''0'' f = Inr (Finite 0)" for f
    by (simp add: floatingSetting_def decimal_def digits_of_def digit_def digits_value_def exponent_part_def round_double_def Let_def)
  moreover have "unsignedSetting ''5'' 0x7FFFFFFF f = Inr 5" "unsignedSetting ''50'' 0x7FFFFFFF f = Inr 50"
    "unsignedSetting ''300'' 0x7FFFFFFF f = Inr 300" for f
    by (simp_all add: unsignedSetting_def digit_def)
  ultimately show ?thesis by (simp add: legacy_parameters_def demo_group_parameters_def)
qed

lemma demo_for_validated:
  assumes "strategyType (demo_for algo) \<in> {Algo_TAKER, Algo_RANDOM}"
  shows "validateClientConfig (\<lambda>_. ''127.0.0.1'') (demo_for algo) = None"
  using assms unfolding demo_for_def
  by (auto simp: validateClientConfig_def demo_config_def demo_parameters_def demo_group_parameters_def market_checks_def ipv4_checks_def
      tcp_checks_def host_of_def demo_addresses IN_MULTICAST_def parameter_checks_def runtimeConfig_def RuntimeConfig_default_def limits Let_def)

lemma demo_starts:
  assumes "path \<noteq> Some []" "strategyType (demo_for algo) \<in> {Algo_TAKER, Algo_RANDOM}"
  shows "client_startup (\<lambda>_. Some demo_config) (\<lambda>_. ''127.0.0.1'') (\<lambda>_. Bytes ''{}'') (\<lambda>_. None) (\<lambda>_. False) ''client.json''
     (config_args path @ ''7'' # algo # concat demo_groups) = Run (demo_for algo)"
proof -
  let ?args = "''7'' # algo # concat demo_groups"
  have o: "startupOptions ''client.json'' (config_args path @ ?args) = Inr \<lparr>config_path = (case path of None \<Rightarrow> ''client.json'' | Some f \<Rightarrow> f),
      first_positional = length (config_args path) + 1, check_only = False\<rparr>"
    using assms(1) by (cases path) (simp_all add: startupOptions_def config_args_def)
  have f: "loadClientConfig (\<lambda>_. Some demo_config) (\<lambda>_. ''127.0.0.1'') (\<lambda>_. Bytes ''{}'') name = Inr demo_config" for name
    using demo_validated by (simp add: loadClientConfig_def load_def parse_def)
  have u: "unsignedSetting ''7'' 255 ''CLIENT_ID'' = Inr 7" by (simp add: unsignedSetting_def digit_def)
  have l: "applyLegacyArguments demo_config ?args = Inr ((demo_for algo)\<lparr>cc_runtime := None\<rparr>)"
    using u demo_group by (simp add: applyLegacyArguments_def demo_groups_def demo_for_def limits Let_def demo_config_def)
  show ?thesis using o f l demo_for_validated [OF assms(2)]
    by (simp add: client_startup_def client_settings_def environmentSetting_def runtimeConfig_def RuntimeConfig_default_def demo_for_def Let_def)
qed

lemma demo_algos: "strategyType (demo_for ''taker'') = Algo_TAKER" "strategyType (demo_for ''random'') = Algo_RANDOM"
  by code_simp+

lemma demo_client_starts:
  assumes "path \<noteq> Some []"
  shows "client_startup (\<lambda>_. Some demo_config) (\<lambda>_. ''127.0.0.1'') (\<lambda>_. Bytes ''{}'') (\<lambda>_. None) (\<lambda>_. False) ''client.json''
     (config_args path @ ''7'' # ''taker'' # concat demo_groups) = Run demo_started"
  unfolding demo_started_def using demo_starts [OF assms] demo_algos(1) by simp

lemma started_client_is_safe_witness:
  "\<exists>q1 q2 q3 e0 e out. TradeEngine_new 7 Algo_TAKER (tickerConfig demo_started) q1 q2 q3 = Some e0 \<and>
     trade_run demo_events (e0, []) = Some (e, out) \<and> \<bar>position (position_keeper e 0)\<bar> \<le> 300"
proof -
  obtain q1 :: "MEClientRequest LFQueue" where q1: "queue_empty q1" using empty_queue_ex by blast
  obtain q2 :: "MEClientResponse LFQueue" where q2: "queue_empty q2" using empty_queue_ex by blast
  obtain q3 :: "MEMarketUpdate LFQueue" where q3: "queue_empty q3" using empty_queue_ex by blast
  have c: "cc_client_id demo_started = 7" "max_position (risk_cfg (tickerConfig demo_started 0)) = 300"
    by (simp_all add: demo_started_def demo_for_def demo_group_parameters_def tickerConfig_def ticker_config_def)
  have t: "strategyType demo_started = Algo_TAKER" by code_simp
  obtain e0 e out where "TradeEngine_new 7 Algo_TAKER (tickerConfig demo_started) q1 q2 q3 = Some e0"
    "trade_run demo_events (e0, []) = Some (e, out)"
    and l: "\<forall>t < ME_MAX_TICKERS. \<bar>position (position_keeper e t)\<bar> \<le> uint (max_position (risk_cfg (tickerConfig demo_started t)))"
    using started_client_is_safe [OF demo_client_starts [of None, OF option.distinct(1)] q1 q2 q3 demo_events_ok] unfolding c t by (elim exE conjE)
  moreover have "\<bar>position (position_keeper e 0)\<bar> \<le> 300" using l [rule_format, of 0] by (simp add: c limits)
  ultimately show ?thesis by blast
qed

lemma positional_arguments_win_witness:
  "client_startup (\<lambda>_. Some demo_config) (\<lambda>_. ''127.0.0.1'') (\<lambda>_. Bytes ''{}'') (\<lambda>_. None) (\<lambda>_. False) ''client.json''
      ([''--config'', ''other.json''] @ ''7'' # ''taker'' # concat demo_groups) = Run demo_started \<and>
   cc_client_id demo_started = 7 \<and> (\<exists>p. group_parameters (demo_groups ! 0) = Inr p \<and> tickerConfig demo_started 0 = ticker_config p)"
proof -
  note S = demo_client_starts [of "Some ''other.json''"]
  have g: "list_all (\<lambda>g. length g = 5) demo_groups" "0 < length demo_groups" by (simp_all add: demo_groups_def)
  have u: "unsignedSetting ''7'' 255 ''CLIENT_ID'' = Inr 7" by (simp add: unsignedSetting_def digit_def)
  show ?thesis using positional_arguments_win [OF S _ g(1)] S g(2) u by (fastforce simp: config_args_def)
qed

end
