(* ===== verification/Random_Load.thy ===== *)
theory Random_Load
  imports Program_Start
begin

text \<open>
  The main thread of \<^verbatim>\<open>src/trading/trading_main.cpp\<close> for the strategy RANDOM: it waits for the first complete market data, then
  draws orders at random, sends them through the trading engine, and after each one tries to cancel an order it has sent.
  \<open>rand k\<close> is the \<open>k\<close>-th value of \<open>std::rand\<close>; what the other threads do during a sleep is a list of events of the engine,
  and a \<open>Look\<close> is what the thread reads at a check: the stop flag and the monotonic clock in nanoseconds. The health of the
  session is the flag the engine shares with the gateway. The lists of waits and rounds are as long as the run is observed.
\<close>

subsection \<open>Running and waiting\<close>

type_synonym Look = "bool \<times> int"

definition run_deadline :: "u64 \<Rightarrow> int \<Rightarrow> int" where
  "run_deadline seconds now = (if seconds \<noteq> 0 then now + uint seconds * 10 ^ 9 else 2 ^ 63 - 1)"

definition client_active :: "Look \<Rightarrow> int \<Rightarrow> TradeEngine \<Rightarrow> bool" where
  "client_active look deadline e \<longleftrightarrow> \<not> fst look \<and> snd look < deadline \<and> order_session e = Some True"

text \<open>The first wait ends after 75 seconds at the latest.\<close>

definition awaits_market :: "Look \<Rightarrow> int \<Rightarrow> int \<Rightarrow> TradeEngine \<Rightarrow> bool" where
  "awaits_market look deadline started e \<longleftrightarrow> client_active look deadline e \<and> \<not> marketReady e \<and> snd look < started + 75 * 10 ^ 9"

fun await_market :: "int \<Rightarrow> int \<Rightarrow> (Look \<times> TradeEvent list) list \<Rightarrow> TradeEngine \<times> MEClientRequest list \<Rightarrow>
    (TradeEngine \<times> MEClientRequest list) option" where
  "await_market deadline started ((look, vs) # waits) (e, out) =
     (if awaits_market look deadline started e then do { x \<leftarrow> trade_run vs (e, out); await_market deadline started waits x }
      else Some (e, out))"
| "await_market deadline started [] x = Some x"

subsection \<open>Generating orders\<close>

record RandomLoad =
  next_order :: OrderId
  sent :: "MEClientRequest list"
  draws :: nat

definition random_base :: "(nat \<Rightarrow> nat) \<Rightarrow> Price list" where
  "random_base rand = map (\<lambda>k. 100 + int (rand k mod 100)) [0..<ME_MAX_TICKERS]"

text \<open>\<open>client * 1000\<close> is computed in 32 bits.\<close>

definition RandomLoad_new :: "ClientId \<Rightarrow> RandomLoad" where
  "RandomLoad_new client = \<lparr>next_order = ucast (client * 1000), sent = [], draws = ME_MAX_TICKERS\<rparr>"

definition random_request :: "(nat \<Rightarrow> nat) \<Rightarrow> ClientId \<Rightarrow> RandomLoad \<Rightarrow> MEClientRequest" where
  "random_request rand client l =
     (let ticker = rand (draws l) mod ME_MAX_TICKERS in
      mk_request Req_NEW client (of_nat ticker) (next_order l) (if rand (draws l + 1) mod 2 \<noteq> 0 then BUY else SELL)
        (random_base rand ! ticker + 1 + int (rand (draws l + 2) mod 10)) (of_nat (2 + rand (draws l + 3) mod 100)))"

definition random_place :: "(nat \<Rightarrow> nat) \<Rightarrow> ClientId \<Rightarrow> RandomLoad \<times> TradeEngine \<Rightarrow> RandomLoad \<times> TradeEngine" where
  "random_place rand client = (\<lambda>(l, e).
     let request = random_request rand client l; (ok, e) = sendClientRequest request e in
     (l\<lparr>next_order := next_order l + 1, draws := draws l + 4, sent := (if ok then sent l @ [request] else sent l)\<rparr>, e))"

definition random_cancel :: "(nat \<Rightarrow> nat) \<Rightarrow> RandomLoad \<times> TradeEngine \<Rightarrow> RandomLoad \<times> TradeEngine" where
  "random_cancel rand = (\<lambda>(l, e).
     if sent l = [] then (l, e)
     else let cancel = (sent l ! (rand (draws l) mod length (sent l)))\<lparr>rq_type := Req_CANCEL\<rparr> in
       (l\<lparr>draws := draws l + 1\<rparr>, snd (sendClientRequest cancel e)))"

fun random_loop :: "(nat \<Rightarrow> nat) \<Rightarrow> ClientId \<Rightarrow> int \<Rightarrow> nat \<Rightarrow> (Look \<times> TradeEvent list \<times> TradeEvent list) list \<Rightarrow>
    RandomLoad \<times> TradeEngine \<times> MEClientRequest list \<Rightarrow> (RandomLoad \<times> TradeEngine \<times> MEClientRequest list) option" where
  "random_loop rand client deadline (Suc n) ((look, vs, ws) # rounds) (l, e, out) =
     (if client_active look deadline e then do {
        let (l, e) = random_place rand client (l, e);
        (e, out) \<leftarrow> trade_run vs (e, out);
        let (l, e) = random_cancel rand (l, e);
        (e, out) \<leftarrow> trade_run ws (e, out);
        random_loop rand client deadline n rounds (l, e, out) }
      else Some (l, e, out))"
| "random_loop rand client deadline n rounds x = Some x"

text \<open>From the start of the threads to the end of the generator: the engine knows the session of the gateway, \<open>vs\<close> happens before
  the first check.\<close>

definition random_main :: "(nat \<Rightarrow> nat) \<Rightarrow> ClientConfig \<Rightarrow> int \<Rightarrow> int \<Rightarrow> TradeEvent list \<Rightarrow> (Look \<times> TradeEvent list) list \<Rightarrow>
    (Look \<times> TradeEvent list \<times> TradeEvent list) list \<Rightarrow> TradeEngine \<Rightarrow> (RandomLoad \<times> TradeEngine \<times> MEClientRequest list) option" where
  "random_main rand c deadline started vs waits rounds e = do {
     x \<leftarrow> trade_run vs (e\<lparr>order_session := Some True\<rparr>, []);
     (e, out) \<leftarrow> await_market deadline started waits x;
     random_loop rand (cc_client_id c) deadline (unat (random_orders (runtimeConfig c))) rounds (RandomLoad_new (cc_client_id c), e, out) }"

subsection \<open>What is generated\<close>

lemma unat_small: "n < 2 ^ LENGTH('a) \<Longrightarrow> unat (of_nat n :: 'a :: len word) = n"
  by (simp add: unsigned_of_nat take_bit_nat_eq_self)

lemma random_base_nth: "t < ME_MAX_TICKERS \<Longrightarrow> 100 \<le> random_base rand ! t \<and> random_base rand ! t < 200"
  by (simp add: random_base_def)

text \<open>A generated order is well formed exactly as long as its id is one the exchange accepts.\<close>

lemma random_request_valid:
  assumes "unat client < ME_MAX_NUM_CLIENTS" "next_order l \<noteq> 0"
  shows "validate (random_request rand client l) = (if unat (next_order l) < ME_MAX_ORDER_IDS then Rej_NONE else Rej_INVALID_ID)"
proof -
  let ?t = "rand (draws l) mod ME_MAX_TICKERS" and ?q = "2 + rand (draws l + 3) mod 100"
  have t: "?t < ME_MAX_TICKERS" by (simp add: limits)
  then have tw: "unat (of_nat ?t :: TickerId) = ?t" by (intro unat_small) (simp add: limits)
  have p: "100 \<le> random_base rand ! ?t" "random_base rand ! ?t < 200" using random_base_nth [OF t] by simp_all
  have q: "2 \<le> ?q" "?q < 102" by simp_all
  then have qw: "unat (of_nat ?q :: Qty) = ?q" by (intro unat_small) simp
  define r where "r = random_request rand client l"
  have r: "rq_type r = Req_NEW" "rq_client_id r = client" "unat (rq_ticker_id r) = ?t" "rq_order_id r = next_order l"
      "rq_side r = BUY \<or> rq_side r = SELL" "0 < rq_price r" "rq_price r < 300" "2 \<le> unat (rq_qty r)" "unat (rq_qty r) < 102"
    using p q tw qw by (simp_all add: r_def random_request_def mk_request_def Let_def del: of_nat_add)
  have "rq_qty r \<noteq> 0" "rq_qty r \<noteq> Qty_INVALID" "unat (rq_qty r) \<le> INT32_MAX" using r(8,9) by (auto simp: limits)
  then show ?thesis using r assms t by (auto simp: validate_def limits r_def [symmetric])
qed

subsection \<open>The loop\<close>

text \<open>The requests that have entered the queue of the gateway: those taken and those still inside.\<close>

abbreviation queued :: "TradeEngine \<Rightarrow> MEClientRequest list \<Rightarrow> MEClientRequest list" where
  "queued e out \<equiv> out @ contents (outgoing_ogw_requests e)"

lemma trade_event_queued:
  assumes ok: "eng_ok client own out e" and v: "trade_event v (e, out) = Some (e', out')"
  shows "prefix (queued e out) (queued e' out')"
proof (cases v)
  case WorkResponse
  then have "response_iteration e = Some e'" "out' = out" using v by auto
  moreover have "prefix (contents (outgoing_ogw_requests e)) (contents (outgoing_ogw_requests e1))"
    if "response_iteration e = Some e1" for e1
  proof (cases "peek (incoming_ogw_responses e)")
    case (Some r)
    with that obtain e2 q where "onOrderUpdate r e = Some e2" "e1 = e2\<lparr>incoming_ogw_responses := q\<rparr>"
      unfolding response_iteration_def by (auto simp: bind_Some_conv)
    then show ?thesis using onOrderUpdate_ok [OF ok, of r] by (auto simp: same_inputs_def)
  qed (use that in \<open>simp add: response_iteration_def\<close>)
  ultimately show ?thesis by simp
next
  case WorkMarket
  then show ?thesis using v market_iteration_ok [OF ok] by auto
next
  case (SendRequest r)
  obtain b e1 where s: "sendClientRequest r e = (b, e1)" by fastforce
  then show ?thesis using v SendRequest send_spec(3) [OF eng_okD(1) [OF ok] s] by auto
next
  case TakeRequest
  obtain r q where p: "try_pop (outgoing_ogw_requests e) = (r, q)" by fastforce
  have "queue_ok (outgoing_ogw_requests e)" using eng_okD(1) [OF ok] by (simp add: te_ok_def)
  from pop_contents [OF this p] show ?thesis using v TakeRequest p by (auto split: option.splits)
qed (use v in auto)

lemma trade_run_queued:
  "eng_ok client own out e \<Longrightarrow> list_all (event_ok own) vs \<Longrightarrow>
   \<exists>e' out'. trade_run vs (e, out) = Some (e', out') \<and> eng_ok client own out' e' \<and> prefix (queued e out) (queued e' out')"
proof (induct vs arbitrary: e out)
  case (Cons v vs)
  from trade_event_ok [OF Cons.prems(1), of v] Cons.prems(2) obtain e1 out1 where
    v: "trade_event v (e, out) = Some (e1, out1)" "eng_ok client own out1 e1" by auto
  with Cons.hyps [of out1 e1] Cons.prems(2) trade_event_queued [OF Cons.prems(1) v(1)] show ?case
    by (auto intro: prefix_order.trans)
qed simp

text \<open>After at most \<open>k\<close> iterations: the orders sent are well formed, their ids increase from the first one on, and each of them is in
  the queue of the gateway or has been taken from it.\<close>

definition load_inv :: "nat \<Rightarrow> nat \<Rightarrow> RandomLoad \<Rightarrow> MEClientRequest list \<Rightarrow> bool" where
  "load_inv first k l qs \<longleftrightarrow> next_order l = of_nat (first + k) \<and> sorted_wrt (<) (map (unat \<circ> rq_order_id) (sent l)) \<and>
     (\<forall>r \<in> set (sent l). rq_type r = Req_NEW \<and> first \<le> unat (rq_order_id r) \<and> unat (rq_order_id r) < first + k \<and> validate r = Rej_NONE) \<and>
     subseq (sent l) qs"

lemma load_inv_grow: "load_inv first k l qs \<Longrightarrow> prefix qs qs' \<Longrightarrow> load_inv first k l qs'"
  by (auto simp: load_inv_def prefix_def intro: list_emb_append2)

lemma eng_ok_sent:
  assumes "eng_ok client False out e" "sendClientRequest r e = (b, e')"
  shows "eng_ok client False out e'" "b \<Longrightarrow> validate r = Rej_NONE" "queued e' out = queued e out @ (if b then [r] else [])"
  using trade_event_ok [OF assms(1), of "SendRequest r"] send_spec(3,4) [OF eng_okD(1) [OF assms(1)] assms(2)] assms(2)
  by (auto simp: event_ok_def request_ok_def)

lemma random_place_inv:
  assumes l: "load_inv first k l (queued e out)" and e: "eng_ok account False out e" and b: "first + k < 2 ^ 32"
    and p: "random_place rand client (l, e) = (l', e')"
  shows "load_inv first (Suc k) l' (queued e' out)" "eng_ok account False out e'"
proof -
  let ?r = "random_request rand client l"
  obtain ok e1 where s: "sendClientRequest ?r e = (ok, e1)" by fastforce
  note S = eng_ok_sent [OF e s]
  have l': "l' = l\<lparr>next_order := next_order l + 1, draws := draws l + 4, sent := (if ok then sent l @ [?r] else sent l)\<rparr>" "e' = e1"
    using p s by (auto simp: random_place_def Let_def)
  show "eng_ok account False out e'" using S(1) l'(2) by simp
  have "unat (of_nat (first + k) :: OrderId) = first + k" using b by (intro unat_small) simp
  then have r: "rq_type ?r = Req_NEW" "unat (rq_order_id ?r) = first + k"
    using l by (simp_all add: random_request_def mk_request_def Let_def load_inv_def del: of_nat_add)
  have "next_order l + 1 = of_nat (first + Suc k)" using l by (simp add: load_inv_def)
  moreover have "subseq (sent l') (queued e' out)"
    using l S(3) list_emb_append_mono [of "(=)" "sent l" "queued e out" "[?r]" "[?r]"] unfolding l' load_inv_def by (cases ok) simp_all
  ultimately show "load_inv first (Suc k) l' (queued e' out)" using l r S(2) unfolding load_inv_def l'(1)
    by (auto simp: sorted_wrt_append)
qed

lemma random_cancel_inv:
  assumes l: "load_inv first k l (queued e out)" and e: "eng_ok account False out e" and p: "random_cancel rand (l, e) = (l', e')"
  shows "load_inv first k l' (queued e' out)" "eng_ok account False out e'"
proof -
  let ?c = "(sent l ! (rand (draws l) mod length (sent l)))\<lparr>rq_type := Req_CANCEL\<rparr>"
  obtain ok e1 where s: "sendClientRequest ?c e = (ok, e1)" by fastforce
  note S = eng_ok_sent [OF e s]
  have g: "load_inv first k l (queued e1 out)" using load_inv_grow [OF l] S(3) by simp
  show "load_inv first k l' (queued e' out)" "eng_ok account False out e'"
    using p l g e s S(1) by (auto simp: random_cancel_def Let_def load_inv_def split: if_splits)
qed

definition rounds_ok :: "(Look \<times> TradeEvent list \<times> TradeEvent list) list \<Rightarrow> bool" where
  "rounds_ok = list_all (\<lambda>(look, vs, ws). list_all (event_ok False) vs \<and> list_all (event_ok False) ws)"

lemma random_loop_inv:
  assumes "load_inv first k l (queued e out)" "eng_ok account False out e" "first + k + n \<le> 2 ^ 32" "rounds_ok rounds"
  shows "\<exists>l' e' out' m. random_loop rand client deadline n rounds (l, e, out) = Some (l', e', out') \<and> m \<le> min n (length rounds) \<and>
     load_inv first (k + m) l' (queued e' out') \<and> eng_ok account False out' e'"
  using assms
proof (induct n arbitrary: k l e out rounds)
  case 0
  then show ?case by simp
next
  case (Suc n)
  show ?case
  proof (cases rounds)
    case Nil
    then show ?thesis using Suc.prems by simp
  next
    case (Cons round rest)
    obtain look vs ws where r: "round = (look, vs, ws)" using prod_cases3 by blast
    show ?thesis
    proof (cases "client_active look deadline e")
      case False
      then show ?thesis using Suc.prems Cons r by (intro exI [of _ l] exI [of _ e] exI [of _ out] exI [of _ 0]) simp
    next
      case active: True
      have vw: "list_all (event_ok False) vs" "list_all (event_ok False) ws" "rounds_ok rest"
        using Suc.prems(4) Cons r by (auto simp: rounds_ok_def)
      obtain l1 e1 where p: "random_place rand client (l, e) = (l1, e1)" by fastforce
      have "first + k < 2 ^ 32" using Suc.prems(3) by simp
      note P = random_place_inv [OF Suc.prems(1,2) this p]
      obtain e2 out2 where e2: "trade_run vs (e1, out) = Some (e2, out2)" "eng_ok account False out2 e2" "prefix (queued e1 out) (queued e2 out2)"
        using trade_run_queued [OF P(2) vw(1)] by blast
      obtain l3 e3 where c: "random_cancel rand (l1, e2) = (l3, e3)" by fastforce
      note C = random_cancel_inv [OF load_inv_grow [OF P(1) e2(3)] e2(2) c]
      obtain e4 out4 where e4: "trade_run ws (e3, out2) = Some (e4, out4)" "eng_ok account False out4 e4" "prefix (queued e3 out2) (queued e4 out4)"
        using trade_run_queued [OF C(2) vw(2)] by blast
      have "first + Suc k + n \<le> 2 ^ 32" using Suc.prems(3) by simp
      from Suc.hyps [OF load_inv_grow [OF C(1) e4(3)] e4(2) this vw(3)] obtain l' e' out' m where
        L: "random_loop rand client deadline n rest (l3, e4, out4) = Some (l', e', out')" "m \<le> min n (length rest)"
          "load_inv first (Suc k + m) l' (queued e' out')" "eng_ok account False out' e'" by blast
      then show ?thesis using Cons r p e2(1) c e4(1) active
        by (intro exI [of _ l'] exI [of _ e'] exI [of _ out'] exI [of _ "Suc m"]) (simp add: Let_def)
    qed
  qed
qed

definition waits_ok :: "(Look \<times> TradeEvent list) list \<Rightarrow> bool" where
  "waits_ok = list_all (\<lambda>(look, vs). list_all (event_ok False) vs)"

lemma await_market_ok:
  "eng_ok account False out e \<Longrightarrow> waits_ok waits \<Longrightarrow>
   \<exists>e' out'. await_market deadline started waits (e, out) = Some (e', out') \<and> eng_ok account False out' e'"
proof (induct waits arbitrary: e out)
  case (Cons w waits)
  obtain look vs where w: "w = (look, vs)" by fastforce
  have "list_all (event_ok False) vs" "waits_ok waits" using Cons.prems(2) by (auto simp: waits_ok_def w)
  then show ?case using trade_run_ok [OF Cons.prems(1)] Cons.hyps Cons.prems(1) by (fastforce simp: w)
qed simp

lemma validated_start:
  assumes "validateClientConfig getIfaceIP c = None"
  shows "0 < unat (cc_client_id c)" "unat (cc_client_id c) < ME_MAX_NUM_CLIENTS" "random_orders (runtimeConfig c) \<le> 900000"
proof -
  note C = assms [unfolded validateClientConfig_def require_None set_append ball_Un]
  have "(cc_client_id c > 0 \<and> unat (cc_client_id c) < ME_MAX_NUM_CLIENTS)" "random_orders (runtimeConfig c) \<le> 900000" using C by simp_all
  then show "0 < unat (cc_client_id c)" "unat (cc_client_id c) < ME_MAX_NUM_CLIENTS" "random_orders (runtimeConfig c) \<le> 900000"
    by (auto simp: unat_gt_0)
qed

text \<open>C39: the load generator. A client started for the strategy RANDOM from a validated configuration waits for its market data
  and then generates orders, whatever its other threads do before, during the wait and between its calls. It finishes its
  orders or stops when the client does, without failing and within the position limits; the orders it has recorded as sent
  are new orders that pass the validation, with strictly increasing ids from \<open>1000 * client\<close> on, and they have entered the queue
  of the gateway in this order.\<close>

theorem random_load_well_formed:
  assumes "client_startup glz getIfaceIP files getenv exists beside args = Run c" "strategyType c = Algo_RANDOM"
    "queue_empty q1" "queue_empty q2" "queue_empty q3" "list_all (event_ok False) vs" "waits_ok waits" "rounds_ok rounds"
  shows "\<exists>e0 l e out. TradeEngine_new (cc_client_id c) (strategyType c) (tickerConfig c) q1 q2 q3 = Some e0 \<and>
     random_main rand c deadline started vs waits rounds e0 = Some (l, e, out) \<and>
     1000 * unat (cc_client_id c) \<le> unat (next_order l) \<and>
     unat (next_order l) \<le> 1000 * unat (cc_client_id c) + min (unat (random_orders (runtimeConfig c))) (length rounds) \<and>
     sorted_wrt (<) (map (unat \<circ> rq_order_id) (sent l)) \<and>
     (\<forall>r \<in> set (sent l). rq_type r = Req_NEW \<and> 1000 * unat (cc_client_id c) \<le> unat (rq_order_id r) \<and>
        unat (rq_order_id r) < unat (next_order l) \<and> validate r = Rej_NONE) \<and>
     subseq (sent l) (out @ contents (outgoing_ogw_requests e)) \<and>
     (\<forall>t < ME_MAX_TICKERS. \<bar>position (position_keeper e t)\<bar> \<le> uint (max_position (risk_cfg (tickerConfig c t))))"
proof -
  let ?c = "cc_client_id c" and ?n = "unat (random_orders (runtimeConfig c))"
  have v: "validateClientConfig getIfaceIP c = None" by (rule client_started(1) [OF assms(1)])
  note V = validated_start [OF v]
  have n: "?n \<le> 900000" using V(3) by (simp add: word_le_nat_alt)
  obtain e0 where e0: "TradeEngine_new ?c (strategyType c) (tickerConfig c) q1 q2 q3 = Some e0"
    "trade_start ?c (strategyType c) (tickerConfig c) e0" using validated_starts [OF v assms(3-5)] by blast
  let ?a = "(?c, \<lambda>t. risk_cfg (tickerConfig c t))"
  have ok0: "eng_ok ?a False [] e0" by (rule trade_start_ok [OF e0(2)])
  have "te_ok ?a (e0\<lparr>order_session := Some True\<rparr>)" using eng_okD(1) [OF ok0] by (simp add: te_ok_def)
  then have "eng_ok ?a False [] (e0\<lparr>order_session := Some True\<rparr>)" by (rule eng_ok_frame [OF ok0]) simp_all
  then obtain e1 out1 where 1: "trade_run vs (e0\<lparr>order_session := Some True\<rparr>, []) = Some (e1, out1)" "eng_ok ?a False out1 e1"
    using trade_run_ok [OF _ assms(6)] by blast
  obtain e2 out2 where 2: "await_market deadline started waits (e1, out1) = Some (e2, out2)" "eng_ok ?a False out2 e2"
    using await_market_ok [OF 1(2) assms(7)] by blast
  have "unat (?c * 1000) = 1000 * unat ?c" using V(2) by (simp add: limits unat_word_ariths)
  then have "(ucast (?c * 1000) :: OrderId) = of_nat (1000 * unat ?c)" by (metis of_nat_unat)
  then have l0: "load_inv (1000 * unat ?c) 0 (RandomLoad_new ?c) (queued e2 out2)" by (simp add: load_inv_def RandomLoad_new_def)
  have "1000 * unat ?c + 0 + ?n \<le> 2 ^ 32" using V(2) n by (simp add: limits)
  from random_loop_inv [OF l0 2(2) this assms(8), of rand ?c deadline]
  obtain l e out m where L: "random_loop rand ?c deadline ?n rounds (RandomLoad_new ?c, e2, out2) = Some (l, e, out)"
      "m \<le> min ?n (length rounds)" "load_inv (1000 * unat ?c) m l (queued e out)" "eng_ok ?a False out e" by auto
  have "1000 * unat ?c + m < 2 ^ 64" using V(2) n L(2) by (simp add: limits)
  then have "unat (next_order l) = 1000 * unat ?c + m"
    using L(3) unat_small [where 'a = 64, of "1000 * unat ?c + m"] by (simp add: load_inv_def)
  moreover have "\<bar>position (position_keeper e t)\<bar> \<le> uint (max_position (risk_cfg (tickerConfig c t)))" if "t < ME_MAX_TICKERS" for t
    using limit_bounds(1) [OF risk_okD(5) [OF eng_okD(2) [OF L(4)] that]] eng_okD(3) [OF L(4)] by (simp add: limits_small_def)
  moreover have "random_main rand c deadline started vs waits rounds e0 = Some (l, e, out)" using 1(1) 2(1) L(1) by (simp add: random_main_def)
  ultimately show ?thesis using e0(1) L(2,3) by (auto simp: load_inv_def)
qed

text \<open>The bounds on the configuration do not keep the ids within what the exchange accepts: for the largest client id and the
  largest number of orders, the generator ends with orders that every check refuses.\<close>

lemma random_ids_exceed:
  "validate (random_request rand 255 \<lparr>next_order = of_nat (1000 * 255 + 899999), sent = [], draws = n\<rparr>) = Rej_INVALID_ID"
  by (subst random_request_valid) (simp_all add: limits)

text \<open>The generator at work: the recovery of the market data ends during the wait, and the first order is sent.\<close>

lemma roomy_queue: "\<exists>q :: 'a LFQueue. queue_ok q \<and> contents q = [] \<and> 0 < length (store q)"
proof -
  have "has_single_bit 4" by code_simp
  then obtain q :: "'a LFQueue" where "LFQueue_new undefined 4 = Some q"
    by (simp add: LFQueue_new_def checkedCapacity_queue_def limits)
  then show ?thesis using queue_new_ok [of undefined 4] by fastforce
qed

definition recovered_event :: MEMarketUpdate where
  "recovered_event = mk_update Mkt_RECOVERY_COMMIT 0 0 Side_INVALID 0 0 1"

definition first_order :: MEClientRequest where
  "first_order = mk_request Req_NEW 7 0 7000 BUY 101 13"

lemma first_order_drawn: "random_request (\<lambda>k. k) 7 (RandomLoad_new 7) = first_order"
  by (simp add: random_request_def RandomLoad_new_def random_base_def first_order_def limits Let_def)

lemma first_order_allowed:
  "\<exists>m. reserve PositionKeeper_new first_order (RiskManager_new (tickerConfig (demo_for ''random''))) = (ALLOWED, m)"
proof -
  have "risk_cfg (tickerConfig (demo_for ''random'') 0) = \<lparr>max_order_size = 50, max_position = 300, max_loss = Finite 0\<rparr>"
    by (simp add: tickerConfig_def demo_for_def demo_group_parameters_def ticker_config_def)
  then have "checkPreTradeRisk PositionKeeper_new 0 BUY 13 (RiskManager_new (tickerConfig (demo_for ''random''))) = ALLOWED"
    by (simp add: checkPreTradeRisk_def info_checkPreTradeRisk_def RiskManager_new_def PositionKeeper_new_def PositionInfo_default_def
        limits is_finite_def Let_def)
  then show ?thesis by (simp add: reserve_def first_order_def mk_request_def RiskManager_new_def Let_def)
qed

lemma first_order_sent:
  assumes "te_client_id e = 7" "reconciled e" "admitting e" "order_session e = Some True" "marketReady e"
    "position_keeper e = PositionKeeper_new" "risk_manager e = RiskManager_new (tickerConfig (demo_for ''random''))"
    "queue_ok (outgoing_ogw_requests e)" "contents (outgoing_ogw_requests e) = []" "0 < length (store (outgoing_ogw_requests e))"
  shows "fst (sendClientRequest first_order e)"
proof -
  have "validate first_order = Rej_NONE"
    using random_request_valid [of 7 "RandomLoad_new 7" "\<lambda>k. k"] by (simp add: first_order_drawn) (simp add: RandomLoad_new_def limits)
  then have "\<not> admission_refused first_order e" using assms by (simp add: admission_refused_def first_order_def mk_request_def)
  moreover obtain m where "reserve PositionKeeper_new first_order (RiskManager_new (tickerConfig (demo_for ''random''))) = (ALLOWED, m)"
    using first_order_allowed by blast
  moreover obtain q where "try_push first_order (outgoing_ogw_requests e) = (True, q)"
    using push_contents [OF assms(8), of first_order] assms(9,10) by (cases "try_push first_order (outgoing_ogw_requests e)") auto
  ultimately show ?thesis using assms(6,7) by (simp add: sendClientRequest_def)
qed

lemma recovered_run:
  assumes e: "TradeEngine_new 7 Algo_RANDOM cfg q1 q2 q3 = Some e0" and q: "queue_ok q3" "contents q3 = []" "0 < length (store q3)"
  shows "\<exists>q4. trade_run [ArriveUpdate recovered_event, WorkMarket] (e0\<lparr>order_session := Some True\<rparr>, []) =
     Some (e0\<lparr>order_session := Some True, incoming_md_updates := q4, applied_generation := 1\<rparr>, [])"
proof -
  obtain q' where q': "try_push recovered_event q3 = (True, q')" "queue_ok q'" "contents q' = [recovered_event]"
    using push_contents [OF q(1), of recovered_event] q(2,3) by (cases "try_push recovered_event q3") auto
  obtain q4 where q4: "peek q' = Some recovered_event" "pop q' = Some q4" using peek_pop [OF q'(2)] q'(3) by auto
  have "incoming_md_updates e0 = q3" "market_generation e0 = 1" using e by (auto simp: TradeEngine_new_def bind_Some_conv)
  then show ?thesis using q'(1) q4 by (intro exI [of _ q4]) (simp add: market_iteration_def market_event_def recovered_event_def mk_update_def)
qed

definition recovery_waits :: "(Look \<times> TradeEvent list) list" where
  "recovery_waits = [((False, 0), [ArriveUpdate recovered_event, WorkMarket]), ((False, 1), [])]"

lemma random_load_well_formed_witness:
  "\<exists>q1 q2 q3 e0 l e out. TradeEngine_new 7 Algo_RANDOM (tickerConfig (demo_for ''random'')) q1 q2 q3 = Some e0 \<and>
     random_main (\<lambda>k. k) (demo_for ''random'') 9 0 [] recovery_waits [((False, 2), [], [])] e0 = Some (l, e, out) \<and>
     sent l = [first_order] \<and> first_order \<in> set (out @ contents (outgoing_ogw_requests e)) \<and> \<bar>position (position_keeper e 0)\<bar> \<le> 300"
proof -
  let ?c = "demo_for ''random''"
  obtain q1 :: "MEClientRequest LFQueue" where q1: "queue_ok q1" "contents q1 = []" "0 < length (store q1)" using roomy_queue [where 'a = MEClientRequest] by (elim exE conjE)
  obtain q2 :: "MEClientResponse LFQueue" where q2: "queue_ok q2" "contents q2 = []" using roomy_queue [where 'a = MEClientResponse] by (elim exE conjE)
  obtain q3 :: "MEMarketUpdate LFQueue" where q3: "queue_ok q3" "contents q3 = []" "0 < length (store q3)" using roomy_queue [where 'a = MEMarketUpdate] by (elim exE conjE)
  have qe: "queue_empty q1" "queue_empty q2" "queue_empty q3" using q1 q2 q3 by (simp_all add: queue_empty_def)
  have c: "cc_client_id ?c = 7" "max_position (risk_cfg (tickerConfig ?c 0)) = 300" "random_orders (runtimeConfig ?c) = 10000"
    by (simp_all add: demo_for_def demo_group_parameters_def tickerConfig_def ticker_config_def runtimeConfig_def RuntimeConfig_default_def)
  have ok: "waits_ok recovery_waits" "rounds_ok [((False, 2), [], [])]"
    by (simp_all add: waits_ok_def rounds_ok_def recovery_waits_def event_ok_def update_known_def recovered_event_def mk_update_def)
  obtain e0 l e out where e0: "TradeEngine_new 7 Algo_RANDOM (tickerConfig ?c) q1 q2 q3 = Some e0"
    and m: "random_main (\<lambda>k. k) ?c 9 0 [] recovery_waits [((False, 2), [], [])] e0 = Some (l, e, out)"
    and s: "subseq (sent l) (out @ contents (outgoing_ogw_requests e))"
    and p: "\<forall>t < ME_MAX_TICKERS. \<bar>position (position_keeper e t)\<bar> \<le> uint (max_position (risk_cfg (tickerConfig ?c t)))"
    using random_load_well_formed [OF demo_starts [of None "''random''"] demo_algos(2) qe _ ok, of "[]" "\<lambda>k. k" 9 0]
    unfolding c(1) demo_algos(2) by (auto simp: demo_algos)
  obtain q4 where r: "trade_run [ArriveUpdate recovered_event, WorkMarket] (e0\<lparr>order_session := Some True\<rparr>, []) =
     Some (e0\<lparr>order_session := Some True, incoming_md_updates := q4, applied_generation := 1\<rparr>, [])"
    using recovered_run [OF e0 q3] by blast
  let ?e = "e0\<lparr>order_session := Some True, incoming_md_updates := q4, applied_generation := 1\<rparr>"
  have v: "outgoing_ogw_requests e0 = q1" "market_generation e0 = 1" "applied_generation e0 = 0" "reconciled e0" "admitting e0" "te_client_id e0 = 7"
      "position_keeper e0 = PositionKeeper_new" "risk_manager e0 = RiskManager_new (tickerConfig ?c)"
    using e0 by (auto simp: TradeEngine_new_def bind_Some_conv)
  have "fst (sendClientRequest first_order ?e)" by (rule first_order_sent) (use v q1 in \<open>simp_all add: marketReady_def\<close>)
  then obtain e1 where f: "sendClientRequest first_order ?e = (True, e1)" by (cases "sendClientRequest first_order ?e") simp
  have a: "await_market 9 0 recovery_waits (e0\<lparr>order_session := Some True\<rparr>, []) = Some (?e, [])"
    using r v unfolding recovery_waits_def by (simp add: awaits_market_def client_active_def marketReady_def del: trade_run.simps)
  obtain k where k: "(10000 :: nat) = Suc k" by (rule that [of 9999]) simp
  have "random_loop (\<lambda>k. k) 7 9 (Suc k) [((False, 2), [], [])] (RandomLoad_new 7, ?e, []) = Some (l, e, out)"
    using m by (simp add: random_main_def c a k [symmetric] del: random_loop.simps)
  moreover have "RandomLoad.sent (RandomLoad_new 7) = []" by (simp add: RandomLoad_new_def)
  ultimately have "sent l = [first_order]"
    by (auto simp: client_active_def random_place_def random_cancel_def first_order_drawn f Let_def split: prod.splits)
  moreover have "first_order \<in> set (out @ contents (outgoing_ogw_requests e))"
    using list_emb_set [OF s, of first_order] calculation by fastforce
  moreover have "\<bar>position (position_keeper e 0)\<bar> \<le> 300" using p [rule_format, of 0] by (simp add: c limits)
  ultimately show ?thesis using e0 m by blast
qed

end
