(* ===== verification/Socket_Utils.thy ===== *)
theory Socket_Utils
  imports Runtime_Config "HOL-Library.Monad_Syntax"
begin

text \<open>
  \<^verbatim>\<open>src/common/socket_utils.h\<close>: how a socket is created, configured and connected or bound. The kernel is a stream of
  answers: \<open>sys n\<close> is the result of the \<open>n\<close>-th call and the error number it leaves (for \<open>getsockopt\<close> on \<open>SO_ERROR\<close>, on success,
  the value read). The log records every call that took effect. \<open>None\<close> is a failed \<open>ASSERT\<close>, or a \<open>poll\<close> that is interrupted for
  ever. Diagnostic logging is left out.
\<close>

record SocketCfg =
  sock_ip :: string
  sock_iface :: string
  sock_port :: int
  is_udp :: bool
  is_listening :: bool
  needs_so_timestamp :: bool

definition MaxTCPServerBacklog :: nat where
  "MaxTCPServerBacklog = 1024"

datatype SockOp = Opened int | NonBlocking int | NoDelay int | McastIf int string | Joined int string string | Connected int nat
  | ReuseAddr int | BoundAny int int | BoundTo int nat | Listening int nat | Timestamps int | Closed int

record SockWorld =
  sw_clock :: nat
  sw_log :: "SockOp list"

type_synonym SockKernel = "nat \<Rightarrow> int \<times> int"

definition syscall :: "SockKernel \<Rightarrow> SockWorld \<Rightarrow> int \<times> int \<times> SockWorld" where
  "syscall sys w = (fst (sys (sw_clock w)), snd (sys (sw_clock w)), w\<lparr>sw_clock := sw_clock w + 1\<rparr>)"

definition did :: "SockOp \<Rightarrow> SockWorld \<Rightarrow> SockWorld" where
  "did op w = w\<lparr>sw_log := sw_log w @ [op]\<rparr>"

text \<open>\<open>EINTR\<close>, \<open>ENODEV\<close>, \<open>EINVAL\<close>, \<open>ETIMEDOUT\<close>, \<open>EINPROGRESS\<close> on Linux.\<close>

definition EINTR :: int where "EINTR = 4"
definition ENODEV :: int where "ENODEV = 19"
definition EINVAL :: int where "EINVAL = 22"
definition ETIMEDOUT :: int where "ETIMEDOUT = 110"
definition EINPROGRESS :: int where "EINPROGRESS = 115"

subsection \<open>Interfaces and options\<close>

text \<open>The interface records of the system: name, whether the address is IPv4, and its numeric text. \<open>None\<close>: they cannot be
  listed.\<close>

fun first_ipv4 :: "string \<Rightarrow> (string \<times> bool \<times> string) list \<Rightarrow> string" where
  "first_ipv4 iface [] = []"
| "first_ipv4 iface ((name, ipv4, text) # rest) = (if ipv4 \<and> iface = name then text else first_ipv4 iface rest)"

definition getIfaceIP :: "(string \<times> bool \<times> string) list option \<Rightarrow> string \<Rightarrow> string" where
  "getIfaceIP ifaddrs iface = (case ifaddrs of None \<Rightarrow> [] | Some records \<Rightarrow> first_ipv4 iface records)"

text \<open>A call that sets an option, and its check.\<close>

definition set_option :: "SockKernel \<Rightarrow> SockOp \<Rightarrow> SockWorld \<Rightarrow> bool \<times> SockWorld" where
  "set_option sys op w = (let (rc, err, w) = syscall sys w in if rc \<noteq> - 1 then (True, did op w) else (False, w))"

definition setNonBlocking :: "SockKernel \<Rightarrow> int \<Rightarrow> SockWorld \<Rightarrow> bool \<times> SockWorld" where
  "setNonBlocking sys fd w =
     (let (flags, err, w) = syscall sys w in
      if flags = - 1 then (False, w)
      else if bit flags 11 then (True, did (NonBlocking fd) w)
      else set_option sys (NonBlocking fd) w)"

definition disableNagle :: "SockKernel \<Rightarrow> int \<Rightarrow> SockWorld \<Rightarrow> bool \<times> SockWorld" where
  "disableNagle sys fd w = set_option sys (NoDelay fd) w"

definition setSOTimestamp :: "SockKernel \<Rightarrow> int \<Rightarrow> SockWorld \<Rightarrow> bool \<times> SockWorld" where
  "setSOTimestamp sys fd w = set_option sys (Timestamps fd) w"

text \<open>The result of \<open>join\<close> with the error number a failure leaves.\<close>

definition sock_join :: "SockKernel \<Rightarrow> (string \<Rightarrow> string) \<Rightarrow> int \<Rightarrow> string \<Rightarrow> string \<Rightarrow> SockWorld \<Rightarrow> bool \<times> int \<times> SockWorld" where
  "sock_join sys ifip fd ip iface w =
     (if ifip iface = [] then (False, ENODEV, w)
      else if (case inet_pton ip of None \<Rightarrow> True | Some host \<Rightarrow> \<not> IN_MULTICAST host) then (False, EINVAL, w)
      else let (rc, err, w) = syscall sys w in
        if rc \<noteq> - 1 then (True, err, did (Joined fd ip (ifip iface)) w) else (False, err, w))"

subsection \<open>Connecting\<close>

partial_function (option) poll_wait :: "SockKernel \<Rightarrow> SockWorld \<Rightarrow> (int \<times> int \<times> SockWorld) option" where
  "poll_wait sys w =
     (let (ready, err, w) = syscall sys w in if ready < 0 \<and> err = EINTR then poll_wait sys w else Some (ready, err, w))"

text \<open>A connection in progress: the error number once it is writable, refused, or late.\<close>

definition pending_error :: "SockKernel \<Rightarrow> SockWorld \<Rightarrow> (int \<times> SockWorld) option" where
  "pending_error sys w = do {
     (ready, err, w) \<leftarrow> poll_wait sys w;
     Some (if 0 < ready then snd (syscall sys w) else (if ready = 0 then ETIMEDOUT else err, w)) }"

text \<open>The error of an attempt to connect; 0 is success.\<close>

definition connect_error :: "SockKernel \<Rightarrow> int \<Rightarrow> nat \<Rightarrow> SockWorld \<Rightarrow> (int \<times> SockWorld) option" where
  "connect_error sys fd addr w =
     (let (connected, err, w) = syscall sys w in
      if 0 \<le> connected then Some (0, did (Connected fd addr) w)
      else do {
        (err, w) \<leftarrow> (if err = EINPROGRESS then pending_error sys w else Some (err, w));
        Some (err, if err = 0 then did (Connected fd addr) w else w) })"

subsection \<open>Creating a socket\<close>

definition require_ok :: "bool \<times> SockWorld \<Rightarrow> SockWorld option" where
  "require_ok r = (if fst r then Some (snd r) else None)"

text \<open>A call whose result must be 0.\<close>

definition must_zero :: "SockKernel \<Rightarrow> SockOp \<Rightarrow> SockWorld \<Rightarrow> SockWorld option" where
  "must_zero sys op w = (let (rc, err, w) = syscall sys w in if rc = 0 then Some (did op w) else None)"

definition multicast_sender :: "SocketCfg \<Rightarrow> nat \<Rightarrow> bool" where
  "multicast_sender cfg addr \<longleftrightarrow> is_udp cfg \<and> \<not> is_listening cfg \<and> IN_MULTICAST addr"

text \<open>The body of the loop for the candidate \<open>addr\<close>: the descriptor and the error number, \<open>- 1\<close> for the early return.\<close>

definition prepare :: "SockKernel \<Rightarrow> (string \<Rightarrow> string) \<Rightarrow> SocketCfg \<Rightarrow> nat \<Rightarrow> SockWorld \<Rightarrow> (int \<times> SockWorld) option" where
  "prepare sys ifip cfg addr w = do {
     let (fd, err, w) = syscall sys w;
     w \<leftarrow> (if fd \<noteq> - 1 then Some (did (Opened fd) w) else None);
     w \<leftarrow> require_ok (setNonBlocking sys fd w);
     w \<leftarrow> (if \<not> is_udp cfg then require_ok (disableNagle sys fd w) else Some w);
     w \<leftarrow> (if multicast_sender cfg addr then
             (if ifip (sock_iface cfg) \<noteq> [] \<and> inet_pton (ifip (sock_iface cfg)) \<noteq> None
              then must_zero sys (McastIf fd (ifip (sock_iface cfg))) w else None)
           else Some w);
     Some (fd, w) }"

definition attach :: "SockKernel \<Rightarrow> SocketCfg \<Rightarrow> nat \<Rightarrow> int \<Rightarrow> SockWorld \<Rightarrow> SockWorld option" where
  "attach sys cfg addr fd w = do {
     w \<leftarrow> (if is_listening cfg then do {
             w \<leftarrow> must_zero sys (ReuseAddr fd) w;
             w \<leftarrow> must_zero sys (if is_udp cfg then BoundAny fd (sock_port cfg) else BoundTo fd addr) w;
             if \<not> is_udp cfg then must_zero sys (Listening fd MaxTCPServerBacklog) w else Some w }
           else Some w);
     if needs_so_timestamp cfg then require_ok (setSOTimestamp sys fd w) else Some w }"

definition candidate :: "SockKernel \<Rightarrow> (string \<Rightarrow> string) \<Rightarrow> SocketCfg \<Rightarrow> nat \<Rightarrow> SockWorld \<Rightarrow> (int \<times> int \<times> SockWorld) option" where
  "candidate sys ifip cfg addr w = do {
     (fd, w) \<leftarrow> prepare sys ifip cfg addr w;
     (err, w) \<leftarrow> (if \<not> is_listening cfg then connect_error sys fd addr w else Some (0, w));
     if err \<noteq> 0 then Some (- 1, err, did (Closed fd) w)
     else do { w \<leftarrow> attach sys cfg addr fd w; Some (fd, 0, w) } }"

fun candidates :: "SockKernel \<Rightarrow> (string \<Rightarrow> string) \<Rightarrow> SocketCfg \<Rightarrow> nat list \<Rightarrow> int \<Rightarrow> SockWorld \<Rightarrow> (int \<times> int \<times> SockWorld) option" where
  "candidates sys ifip cfg [] fd w = Some (fd, 0, w)"
| "candidates sys ifip cfg (addr # rest) fd w = do {
     (fd, err, w) \<leftarrow> candidate sys ifip cfg addr w;
     if err \<noteq> 0 then Some (fd, err, w) else candidates sys ifip cfg rest fd w }"

text \<open>\<open>resolve\<close> is \<open>getaddrinfo\<close> on a numeric address: the addresses in host order, \<open>None\<close> when it fails.\<close>

definition createSocket :: "SockKernel \<Rightarrow> (string \<Rightarrow> string) \<Rightarrow> (string \<Rightarrow> nat list option) \<Rightarrow> SocketCfg \<Rightarrow> SockWorld \<Rightarrow>
    (int \<times> int \<times> SockWorld) option" where
  "createSocket sys ifip resolve cfg w = do {
     let ip = (if sock_ip cfg = [] then ifip (sock_iface cfg) else sock_ip cfg);
     result \<leftarrow> resolve ip;
     candidates sys ifip cfg result (- 1) w }"

subsection \<open>What a created socket has been through\<close>

definition setup_log :: "(string \<Rightarrow> string) \<Rightarrow> SocketCfg \<Rightarrow> nat \<Rightarrow> int \<Rightarrow> SockOp list" where
  "setup_log ifip cfg addr fd = [Opened fd, NonBlocking fd] @ (if is_udp cfg then [] else [NoDelay fd]) @
     (if multicast_sender cfg addr then [McastIf fd (ifip (sock_iface cfg))] else [])"

definition attach_log :: "SocketCfg \<Rightarrow> nat \<Rightarrow> int \<Rightarrow> SockOp list" where
  "attach_log cfg addr fd =
     (if is_listening cfg then
        (if is_udp cfg then [ReuseAddr fd, BoundAny fd (sock_port cfg)]
         else [ReuseAddr fd, BoundTo fd addr, Listening fd MaxTCPServerBacklog])
      else []) @ (if needs_so_timestamp cfg then [Timestamps fd] else [])"

lemma did_log [simp]: "sw_log (did op w) = sw_log w @ [op]"
  by (simp add: did_def)

lemma syscall_log: "syscall sys w = (a, b, w') \<Longrightarrow> sw_log w' = sw_log w"
  by (auto simp: syscall_def)

lemma syscall_log_snd [simp]: "sw_log (snd (snd (syscall sys w))) = sw_log w"
  by (simp add: syscall_def)

lemma set_option_log: "require_ok (set_option sys op w) = Some w' \<Longrightarrow> sw_log w' = sw_log w @ [op]"
  by (auto simp: set_option_def require_ok_def Let_def split: prod.splits if_splits dest: syscall_log)

lemma must_zero_log: "must_zero sys op w = Some w' \<Longrightarrow> sw_log w' = sw_log w @ [op]"
  by (auto simp: must_zero_def Let_def split: prod.splits if_splits dest: syscall_log)

lemma setNonBlocking_log:
  assumes "require_ok (setNonBlocking sys fd w) = Some w'" shows "sw_log w' = sw_log w @ [NonBlocking fd]"
proof -
  obtain flags err w1 where s: "syscall sys w = (flags, err, w1)" by (cases "syscall sys w")
  then show ?thesis using assms syscall_log [OF s] set_option_log [of sys "NonBlocking fd" w1 w']
    by (auto simp: setNonBlocking_def require_ok_def split: if_splits)
qed

lemma prepare_log:
  assumes "prepare sys ifip cfg addr w = Some (fd, w')"
  shows "fd \<noteq> - 1" "sw_log w' = sw_log w @ setup_log ifip cfg addr fd"
proof -
  obtain fd1 err w1 where s: "syscall sys w = (fd1, err, w1)" by (cases "syscall sys w")
  obtain w2 w3 where fd: "fd1 = fd" "fd \<noteq> - 1" and w2: "require_ok (setNonBlocking sys fd (did (Opened fd) w1)) = Some w2"
    and w3: "(if \<not> is_udp cfg then require_ok (disableNagle sys fd w2) else Some w2) = Some w3"
    and w4: "(if multicast_sender cfg addr then
             (if ifip (sock_iface cfg) \<noteq> [] \<and> inet_pton (ifip (sock_iface cfg)) \<noteq> None
              then must_zero sys (McastIf fd (ifip (sock_iface cfg))) w3 else None)
           else Some w3) = Some w'"
  proof -
    have f1: "fd1 \<noteq> - 1" using assms by (auto simp: prepare_def s)
    from assms that show thesis unfolding prepare_def s Let_def prod.case bind_Some_conv if_P [OF f1] option.inject prod.inject by (metis f1)
  qed
  show "fd \<noteq> - 1" by (rule fd(2))
  have "sw_log w3 = sw_log w2 @ (if is_udp cfg then [] else [NoDelay fd])"
    using w3 set_option_log by (auto simp: disableNagle_def split: if_splits)
  moreover have "sw_log w' = sw_log w3 @ (if multicast_sender cfg addr then [McastIf fd (ifip (sock_iface cfg))] else [])"
    using w4 must_zero_log by (auto split: if_splits)
  ultimately show "sw_log w' = sw_log w @ setup_log ifip cfg addr fd"
    using setNonBlocking_log [OF w2] syscall_log [OF s] by (simp add: setup_log_def)
qed

lemma poll_wait_log:
  assumes "poll_wait sys w = Some (ready, err, w')"
  shows "sw_log w' = sw_log w"
proof -
  have "poll_wait sys w = Some x \<Longrightarrow> sw_log (snd (snd x)) = sw_log w" for x
  proof (rule poll_wait.raw_induct [where P = "\<lambda>sys w x. sw_log (snd (snd x)) = sw_log w"], goal_cases)
    case (1 pw sys w x)
    then show ?case by (auto simp: Let_def split: prod.splits if_splits dest: syscall_log)
  qed
  from this [OF assms] show ?thesis by simp
qed

lemma pending_error_log:
  assumes "pending_error sys w = Some (err, w')" shows "sw_log w' = sw_log w"
proof -
  obtain ready perr w1 where p: "poll_wait sys w = Some (ready, perr, w1)"
    using assms by (cases "poll_wait sys w") (auto simp: pending_error_def)
  then have "(err, w') = (if 0 < ready then snd (syscall sys w1) else (if ready = 0 then ETIMEDOUT else perr, w1))"
    using assms by (simp add: pending_error_def)
  then have "w' = (if 0 < ready then snd (snd (syscall sys w1)) else w1)" by (metis snd_conv)
  then show ?thesis using poll_wait_log [OF p] by simp
qed

lemma connect_error_log:
  assumes "connect_error sys fd addr w = Some (err, w')"
  shows "sw_log w' = sw_log w @ (if err = 0 then [Connected fd addr] else [])"
proof -
  obtain connected cerr w1 where s: "syscall sys w = (connected, cerr, w1)" by (cases "syscall sys w")
  show ?thesis
  proof (cases "0 \<le> connected")
    case True
    then show ?thesis using assms syscall_log [OF s] by (auto simp: connect_error_def s)
  next
    case False
    let ?p = "if cerr = EINPROGRESS then pending_error sys w1 else Some (cerr, w1)"
    obtain w2 where w2: "?p = Some (err, w2)" "w' = (if err = 0 then did (Connected fd addr) w2 else w2)"
      using assms False by (cases ?p) (auto simp: connect_error_def s)
    then show ?thesis using syscall_log [OF s] pending_error_log [of sys w1 err w2] by (auto split: if_splits)
  qed
qed

lemma attach_logged:
  assumes "attach sys cfg addr fd w = Some w'"
  shows "sw_log w' = sw_log w @ attach_log cfg addr fd"
  using assms
  by (auto simp: attach_def attach_log_def setSOTimestamp_def bind_Some_conv split: if_splits dest!: must_zero_log set_option_log)

text \<open>C40: what \<open>createSocket\<close> leaves behind. For a numeric address, which resolves to one candidate, a returned descriptor has been
  made non-blocking, without Nagle for TCP, with its outgoing interface for a multicast sender, and connected, or bound
  (to any address for UDP, to the given one for TCP) and listening, in this order; a failed connection is reported with
  its error number and its descriptor has been closed. No descriptor is left open otherwise.\<close>

theorem createSocket_outcome:
  assumes "createSocket sys ifip resolve cfg w = Some (r, err, w')"
    "resolve (if sock_ip cfg = [] then ifip (sock_iface cfg) else sock_ip cfg) = Some [addr]"
  shows "\<exists>fd. fd \<noteq> - 1 \<and>
     (if err = 0 then r = fd \<and> sw_log w' = sw_log w @ setup_log ifip cfg addr fd @ (if is_listening cfg then [] else [Connected fd addr]) @ attach_log cfg addr fd
      else r = - 1 \<and> \<not> is_listening cfg \<and> sw_log w' = sw_log w @ setup_log ifip cfg addr fd @ [Closed fd])"
proof -
  obtain fd w1 e w2 where p: "prepare sys ifip cfg addr w = Some (fd, w1)"
    and c: "(if \<not> is_listening cfg then connect_error sys fd addr w1 else Some (0, w1)) = Some (e, w2)"
    and a: "(if e \<noteq> 0 then Some (- 1, e, did (Closed fd) w2) else do { w \<leftarrow> attach sys cfg addr fd w2; Some (fd, 0, w) }) = Some (r, err, w')"
  proof -
    from assms have C: "candidate sys ifip cfg addr w = Some (r, err, w')"
      by (auto simp: createSocket_def Let_def bind_Some_conv split: if_splits)
    from C obtain fd w1 where p: "prepare sys ifip cfg addr w = Some (fd, w1)"
      by (cases "prepare sys ifip cfg addr w") (auto simp: candidate_def)
    with C obtain e w2 where c: "(if \<not> is_listening cfg then connect_error sys fd addr w1 else Some (0, w1)) = Some (e, w2)"
      by (cases "if \<not> is_listening cfg then connect_error sys fd addr w1 else Some (0, w1)") (auto simp: candidate_def)
    with C p that show thesis by (simp add: candidate_def)
    qed
  note P = prepare_log [OF p]
  have l: "sw_log w2 = sw_log w1 @ (if is_listening cfg \<or> e \<noteq> 0 then [] else [Connected fd addr])" "is_listening cfg \<Longrightarrow> e = 0"
    using c connect_error_log by (auto split: if_splits)
  show ?thesis
  proof (cases "e = 0")
    case True
    obtain w3 where w3: "attach sys cfg addr fd w2 = Some w3" "r = fd" "err = 0" "w' = w3"
      using a True by (cases "attach sys cfg addr fd w2") auto
    then show ?thesis using attach_logged [OF w3(1)] P l(1) True by (intro exI [of _ fd]) simp
  next
    case False
    then have "r = - 1" "err = e" "w' = did (Closed fd) w2" "\<not> is_listening cfg" using a l(2) by auto
    then show ?thesis using P l(1) False by (intro exI [of _ fd]) simp
  qed
qed

lemma createSocket_outcome_witness:
  "\<exists>w'. createSocket (\<lambda>n. if n = 4 then (- 1, EINPROGRESS) else if n = 5 then (- 1, EINTR) else if n = 6 then (1, 0) else (0, 0))
     (\<lambda>_. []) (\<lambda>s. map_option (\<lambda>a. [a]) (inet_pton s))
     \<lparr>sock_ip = ''127.0.0.1'', sock_iface = ''lo'', sock_port = 12345, is_udp = False, is_listening = False, needs_so_timestamp = True\<rparr>
     \<lparr>sw_clock = 0, sw_log = []\<rparr> = Some (0, 0, w') \<and>
   sw_log w' = [Opened 0, NonBlocking 0, NoDelay 0, Connected 0 2130706433, Timestamps 0]"
proof -
  let ?sys = "\<lambda>n :: nat. if n = 4 then (- 1, EINPROGRESS) else if n = 5 then (- 1, EINTR) else if n = 6 then (1, 0) else (0 :: int, 0 :: int)"
  let ?res = "\<lambda>s. map_option (\<lambda>a. [a]) (inet_pton s)"
  let ?cfg = "\<lparr>sock_ip = ''127.0.0.1'', sock_iface = ''lo'', sock_port = 12345, is_udp = False, is_listening = False, needs_so_timestamp = True\<rparr>"
  have a: "inet_pton ''127.0.0.1'' = Some 2130706433" by (simp add: inet_pton_def digit_def Let_def)
  have p: "poll_wait ?sys \<lparr>sw_clock = 5, sw_log = l\<rparr> = Some (1, 0, \<lparr>sw_clock = 7, sw_log = l\<rparr>)" for l
    by (subst poll_wait.simps, simp add: syscall_def del: One_nat_def, subst poll_wait.simps, simp add: syscall_def del: One_nat_def)
  obtain w' where w: "createSocket ?sys (\<lambda>_. []) ?res ?cfg \<lparr>sw_clock = 0, sw_log = []\<rparr> = Some (0, 0, w')"
    by (simp add: createSocket_def a candidate_def prepare_def syscall_def did_def setNonBlocking_def set_option_def require_ok_def
        disableNagle_def multicast_sender_def connect_error_def pending_error_def p attach_def setSOTimestamp_def del: One_nat_def)
  from createSocket_outcome [OF this, of 2130706433] a w show ?thesis
    by (auto simp: setup_log_def attach_log_def multicast_sender_def)
qed

end
