(* ===== verification/Tcp_Socket.thy ===== *)
theory Tcp_Socket
  imports Prelude
begin

text \<open>
  \<^verbatim>\<open>src/common/tcp_socket.h\<close> and \<^verbatim>\<open>tcp_socket.cpp\<close>: a connection with fixed send and receive buffers. The results of the
  system calls \<open>send\<close> and \<open>recvmsg\<close> are arguments, short counts, interruptions and errors included. The last three
  fields are not members of the C++ object: \<open>wire_out\<close> is what the kernel has taken, \<open>wire_in\<close> what it has delivered,
  \<open>parsed_in\<close> what the owner has removed from the front of the receive buffer. Logging is left out, and the receive
  callback is always set, as the two owners (order server and order gateway) do.

  The locale \<open>socket_owner\<close> is the contract between a connection and its owner: what the owner keeps invariant under
  its callback and under the transport holds after every round of \<open>sendAndRecv\<close>.
\<close>

datatype SendResult = Accepted | Full | Invalid

datatype ConnectionState = Connecting | Open | PeerClosed | ConnError

record TCPSocket =
  socket_fd :: int
  outbound_data :: "u8 list"
  next_send_valid_index :: nat
  inbound_data :: "u8 list"
  next_rcv_valid_index :: nat
  conn_state :: ConnectionState
  last_error :: int
  sent_bytes :: u64
  received_bytes :: u64
  send_would_block :: u64
  send_begin :: nat
  last_receive_time :: int
  wire_out :: "u8 list"
  wire_in :: "u8 list"
  parsed_in :: "u8 list"

definition TCPSocket_new :: "nat \<Rightarrow> TCPSocket option" where
  "TCPSocket_new capacity =
     (if capacity > 0 then Some \<lparr>socket_fd = - 1, outbound_data = replicate capacity 0, next_send_valid_index = 0,
        inbound_data = replicate capacity 0, next_rcv_valid_index = 0, conn_state = Open, last_error = 0, sent_bytes = 0,
        received_bytes = 0, send_would_block = 0, send_begin = 0, last_receive_time = 0, wire_out = [], wire_in = [], parsed_in = []\<rparr>
      else None)"

definition healthy :: "TCPSocket \<Rightarrow> bool" where
  "healthy s \<longleftrightarrow> conn_state s = Open"

definition pending_bytes :: "TCPSocket \<Rightarrow> nat" where
  "pending_bytes s = next_send_valid_index s"

text \<open>\<open>fd\<close> and \<open>err\<close> are the results of \<open>createSocket\<close>, a negative \<open>fd\<close> with the \<open>errno\<close> left behind.\<close>

definition tcp_connect :: "int \<Rightarrow> int \<Rightarrow> TCPSocket \<Rightarrow> int \<times> TCPSocket" where
  "tcp_connect fd err s =
     (let s = s\<lparr>socket_fd := fd, conn_state := (if fd \<ge> 0 then Open else ConnError)\<rparr>;
          s = (if fd < 0 then s\<lparr>last_error := err\<rparr> else s)
      in (fd, s))"

text \<open>\<open>memcpy\<close> and \<open>memmove\<close> into a buffer at an offset.\<close>

definition write_at :: "nat \<Rightarrow> 'a list \<Rightarrow> 'a list \<Rightarrow> 'a list" where
  "write_at i xs buf = take i buf @ xs @ drop (i + length xs) buf"

definition compact :: "nat \<Rightarrow> TCPSocket \<Rightarrow> TCPSocket" where
  "compact len s =
     (if send_begin s + next_send_valid_index s + len > length (outbound_data s) then
        s\<lparr>outbound_data := write_at 0 (take (next_send_valid_index s) (drop (send_begin s) (outbound_data s))) (outbound_data s),
          send_begin := 0\<rparr>
      else s)"

definition tcp_send :: "u8 list \<Rightarrow> TCPSocket \<Rightarrow> SendResult \<times> TCPSocket" where
  "tcp_send data s =
     (if \<not> healthy s \<or> data = [] then (Invalid, s)
      else if length data > length (outbound_data s) - next_send_valid_index s then (Full, s)
      else let s = compact (length data) s in
        (Accepted, s\<lparr>outbound_data := write_at (send_begin s + next_send_valid_index s) data (outbound_data s),
                     next_send_valid_index := next_send_valid_index s + length data\<rparr>))"

text \<open>The result of \<open>::send\<close>: a count (never more than was offered), \<open>EINTR\<close>, \<open>EAGAIN\<close>, or another error.\<close>

datatype IoResult = Io_Count nat | Io_Intr | Io_Again | Io_Error int

definition EPIPE :: int where "EPIPE = 32"

fun flush_loop :: "(nat \<Rightarrow> IoResult) \<Rightarrow> nat \<Rightarrow> TCPSocket \<Rightarrow> bool \<times> TCPSocket" where
  "flush_loop sys 0 s = (True, s)"
| "flush_loop sys (Suc left) s =
     (if next_send_valid_index s = 0 then (True, s)
      else case sys left of
        Io_Count k \<Rightarrow>
          let n = min k (next_send_valid_index s) in
          if n > 0 then
            flush_loop sys left (s\<lparr>send_begin := send_begin s + n, next_send_valid_index := next_send_valid_index s - n,
              sent_bytes := sent_bytes s + of_nat n, wire_out := wire_out s @ take n (drop (send_begin s) (outbound_data s))\<rparr>)
          else (False, s\<lparr>last_error := EPIPE, conn_state := ConnError\<rparr>)
      | Io_Intr \<Rightarrow> flush_loop sys left s
      | Io_Again \<Rightarrow> (True, s\<lparr>send_would_block := send_would_block s + 1\<rparr>)
      | Io_Error e \<Rightarrow> (False, s\<lparr>last_error := e, conn_state := ConnError\<rparr>))"

definition flushSend :: "(nat \<Rightarrow> IoResult) \<Rightarrow> TCPSocket \<Rightarrow> bool \<times> TCPSocket" where
  "flushSend sys s =
     (if \<not> healthy s \<or> socket_fd s < 0 then (False, s)
      else let (ok, s) = flush_loop sys 8 s in
        if \<not> ok then (False, s)
        else let s = (if next_send_valid_index s = 0 then s\<lparr>send_begin := 0\<rparr> else s) in (healthy s, s))"

text \<open>The result of \<open>recvmsg\<close>: bytes (never more than fit) with the time the packet got, the end of the stream,
  \<open>EINTR\<close>, \<open>EAGAIN\<close>, or another error.\<close>

datatype RecvResult = Rc_Data "u8 list" int | Rc_Closed | Rc_Intr | Rc_Again | Rc_Error int

text \<open>The callback is the owner's parser, on the owner's state; \<open>None\<close> is a failed assertion there.\<close>

type_synonym 'st on_recv = "int \<Rightarrow> TCPSocket \<times> 'st \<Rightarrow> (TCPSocket \<times> 'st) option"

text \<open>Bytes that arrived at the end of the receive buffer.\<close>

definition receive_bytes :: "u8 list \<Rightarrow> int \<Rightarrow> TCPSocket \<Rightarrow> TCPSocket" where
  "receive_bytes bytes time s = s\<lparr>inbound_data := write_at (next_rcv_valid_index s) bytes (inbound_data s),
     next_rcv_valid_index := next_rcv_valid_index s + length bytes,
     received_bytes := received_bytes s + of_nat (length bytes), last_receive_time := time,
     wire_in := wire_in s @ bytes\<rparr>"

fun recv_loop :: "'st on_recv \<Rightarrow> (nat \<Rightarrow> RecvResult) \<Rightarrow> nat \<Rightarrow> bool \<Rightarrow> TCPSocket \<times> 'st \<Rightarrow> (bool \<times> TCPSocket \<times> 'st) option" where
  "recv_loop cb sys 0 received (s, st) = Some (received, s, st)"
| "recv_loop cb sys (Suc left) received (s, st) =
     (if \<not> healthy s \<or> next_rcv_valid_index s = length (inbound_data s) then Some (received, s, st)
      else case sys left of
        Rc_Data bytes time \<Rightarrow>
          let bytes = take (length (inbound_data s) - next_rcv_valid_index s) bytes in
          if bytes \<noteq> [] then
            Option.bind (cb time (receive_bytes bytes time s, st)) (recv_loop cb sys left True)
          else Some (received, s\<lparr>conn_state := PeerClosed\<rparr>, st)
      | Rc_Closed \<Rightarrow> Some (received, s\<lparr>conn_state := PeerClosed\<rparr>, st)
      | Rc_Intr \<Rightarrow> recv_loop cb sys left received (s, st)
      | Rc_Again \<Rightarrow> Some (received, s, st)
      | Rc_Error e \<Rightarrow> Some (received, s\<lparr>last_error := e, conn_state := ConnError\<rparr>, st))"

definition sendAndRecv :: "'st on_recv \<Rightarrow> (nat \<Rightarrow> IoResult) \<Rightarrow> (nat \<Rightarrow> RecvResult) \<Rightarrow> TCPSocket \<times> 'st \<Rightarrow>
    (bool \<times> TCPSocket \<times> 'st) option" where
  "sendAndRecv cb out inp = (\<lambda>(s, st).
     let (ok, s) = flushSend out s in
     if \<not> ok then Some (False, s, st)
     else Option.bind (if next_rcv_valid_index s > 0 then cb (last_receive_time s) (s, st) else Some (s, st))
       (recv_loop cb inp 8 False))"

text \<open>Removing parsed frames: the \<open>memmove\<close> at the end of the parsers.\<close>

definition consume :: "nat \<Rightarrow> TCPSocket \<Rightarrow> TCPSocket" where
  "consume n s = (if n > 0 then
     s\<lparr>inbound_data := write_at 0 (take (next_rcv_valid_index s - n) (drop n (inbound_data s))) (inbound_data s),
       next_rcv_valid_index := next_rcv_valid_index s - n, parsed_in := parsed_in s @ take n (inbound_data s)\<rparr> else s)"

subsection \<open>The two byte streams\<close>

definition out_stream :: "TCPSocket \<Rightarrow> u8 list" where
  "out_stream s = wire_out s @ take (next_send_valid_index s) (drop (send_begin s) (outbound_data s))"

definition in_bytes :: "TCPSocket \<Rightarrow> u8 list" where
  "in_bytes s = take (next_rcv_valid_index s) (inbound_data s)"

definition sock_ok :: "TCPSocket \<Rightarrow> bool" where
  "sock_ok s \<longleftrightarrow> send_begin s + next_send_valid_index s \<le> length (outbound_data s) \<and>
     next_rcv_valid_index s \<le> length (inbound_data s) \<and> parsed_in s @ in_bytes s = wire_in s"

text \<open>What the transport may do to a connection without its owner: bytes move to and from the kernel, and an open
  connection may end. With \<open>m\<close> the receive times do not go back.\<close>

definition transport :: "bool \<Rightarrow> TCPSocket \<Rightarrow> TCPSocket \<Rightarrow> bool" where
  "transport m s s' \<longleftrightarrow> (sock_ok s \<longrightarrow> sock_ok s') \<and> out_stream s' = out_stream s \<and> parsed_in s' = parsed_in s \<and>
     (\<exists>bs. wire_in s' = wire_in s @ bs) \<and> (\<exists>bs. wire_out s' = wire_out s @ bs) \<and>
     (conn_state s' = conn_state s \<or> conn_state s' = PeerClosed \<or> conn_state s' = ConnError) \<and>
     length (outbound_data s') = length (outbound_data s) \<and> length (inbound_data s') = length (inbound_data s) \<and>
     (m \<longrightarrow> last_receive_time s \<le> last_receive_time s')"

lemma transport_refl [simp]: "transport m s s"
  by (simp add: transport_def)

lemma transport_trans: "transport m s t \<Longrightarrow> transport m t u \<Longrightarrow> transport m s u"
  unfolding transport_def by auto

lemma transport_state:
  "transport m s (s\<lparr>conn_state := PeerClosed\<rparr>)" "transport m s (s\<lparr>last_error := e, conn_state := ConnError\<rparr>)"
  "transport m s (s\<lparr>send_would_block := w\<rparr>)" "next_send_valid_index s = 0 \<Longrightarrow> transport m s (s\<lparr>send_begin := 0\<rparr>)"
  by (auto simp: transport_def sock_ok_def out_stream_def in_bytes_def)

lemma length_write_at [simp]: "i + length xs \<le> length buf \<Longrightarrow> length (write_at i xs buf) = length buf"
  by (simp add: write_at_def)

lemma take_write_at: "i + length xs \<le> length buf \<Longrightarrow> take (i + length xs) (write_at i xs buf) = take i buf @ xs"
  by (simp add: write_at_def)

lemma transport_receive:
  assumes "length bytes \<le> length (inbound_data s) - next_rcv_valid_index s" "next_rcv_valid_index s < length (inbound_data s)"
    "m \<longrightarrow> last_receive_time s \<le> time"
  shows "transport m s (receive_bytes bytes time s)"
  using assms take_write_at [of "next_rcv_valid_index s" bytes "inbound_data s"]
  by (auto simp: transport_def receive_bytes_def sock_ok_def out_stream_def in_bytes_def)

text \<open>The kernel takes \<open>n\<close> of the pending bytes.\<close>

lemma transport_sent:
  assumes "n \<le> next_send_valid_index s"
  shows "transport m s (s\<lparr>send_begin := send_begin s + n, next_send_valid_index := next_send_valid_index s - n,
     sent_bytes := b, wire_out := wire_out s @ take n (drop (send_begin s) (outbound_data s))\<rparr>)" (is "transport m s ?t")
proof -
  let ?d = "drop (send_begin s) (outbound_data s)"
  have "take (next_send_valid_index s) ?d = take n ?d @ take (next_send_valid_index s - n) (drop n ?d)"
    using assms take_add [of n "next_send_valid_index s - n" ?d] by simp
  then have "out_stream ?t = out_stream s" by (simp add: out_stream_def add.commute)
  then show ?thesis using assms by (auto simp: transport_def sock_ok_def in_bytes_def)
qed

lemma flush_loop_transport: "transport m s (snd (flush_loop sys n s))"
proof (induct sys n s rule: flush_loop.induct)
  case (2 sys left s)
  show ?case
  proof (cases "next_send_valid_index s = 0")
    case False
    show ?thesis
    proof (cases "sys left")
      case (Io_Count k)
      then show ?thesis
        using 2(1) [OF False Io_Count refl] transport_sent [of "min k (next_send_valid_index s)" s m] False
        by (auto simp: Let_def transport_state intro: transport_trans)
    qed (use 2 False in \<open>auto simp: transport_state\<close>)
  qed simp
qed simp

lemma flushSend_transport: "transport m s (snd (flushSend sys s))"
  using flush_loop_transport [of m s sys 8]
  by (auto simp: flushSend_def Let_def split: prod.splits intro: transport_trans transport_state)

lemma flush_loop_time: "last_receive_time (snd (flush_loop sys n s)) = last_receive_time s"
  by (induct sys n s rule: flush_loop.induct) (auto simp: Let_def split: IoResult.split)

lemma flushSend_time: "last_receive_time (snd (flushSend sys s)) = last_receive_time s"
  using flush_loop_time [of sys 8 s] by (auto simp: flushSend_def Let_def split: prod.splits)

lemma flushSend_healthy: "fst (flushSend sys s) \<Longrightarrow> healthy (snd (flushSend sys s))"
  by (auto simp: flushSend_def Let_def split: prod.splits if_splits)

subsection \<open>What the owner does\<close>

lemma compact_ok:
  assumes "sock_ok s" "len \<le> length (outbound_data s) - next_send_valid_index s"
  shows "sock_ok (compact len s)" "out_stream (compact len s) = out_stream s"
    "send_begin (compact len s) + next_send_valid_index (compact len s) + len \<le> length (outbound_data (compact len s))"
    "length (outbound_data (compact len s)) = length (outbound_data s)"
  using assms by (auto simp: compact_def sock_ok_def out_stream_def in_bytes_def write_at_def min_def)

text \<open>A connection is the same to its owner's eyes, up to the send buffer.\<close>

definition same_input :: "TCPSocket \<Rightarrow> TCPSocket \<Rightarrow> bool" where
  "same_input s s' \<longleftrightarrow> inbound_data s' = inbound_data s \<and> next_rcv_valid_index s' = next_rcv_valid_index s \<and>
     wire_in s' = wire_in s \<and> parsed_in s' = parsed_in s \<and> conn_state s' = conn_state s \<and> wire_out s' = wire_out s \<and>
     last_receive_time s' = last_receive_time s \<and> length (outbound_data s') = length (outbound_data s)"

lemma same_input_refl [simp]: "same_input s s"
  by (simp add: same_input_def)

lemma same_input_trans: "same_input s t \<Longrightarrow> same_input t u \<Longrightarrow> same_input s u"
  by (simp add: same_input_def)

lemma tcp_send_accepted:
  assumes "sock_ok s" "tcp_send data s = (Accepted, s')"
  shows "sock_ok s'" "out_stream s' = out_stream s @ data" "same_input s s'"
proof -
  let ?c = "compact (length data) s"
  have len: "length data \<le> length (outbound_data s) - next_send_valid_index s"
    using assms(2) by (auto simp: tcp_send_def Let_def split: if_splits)
  note C = compact_ok [OF assms(1) len]
  have s': "s' = ?c\<lparr>outbound_data := write_at (send_begin ?c + next_send_valid_index ?c) data (outbound_data ?c),
      next_send_valid_index := next_send_valid_index ?c + length data\<rparr>"
    using assms(2) by (auto simp: tcp_send_def Let_def split: if_splits)
  have io: "same_input s ?c" using C(4) by (simp add: same_input_def compact_def)
  have "drop (send_begin ?c) (write_at (send_begin ?c + next_send_valid_index ?c) data (outbound_data ?c)) =
      take (next_send_valid_index ?c) (drop (send_begin ?c) (outbound_data ?c)) @ data @
      drop (send_begin ?c + next_send_valid_index ?c + length data) (outbound_data ?c)"
    using C(3) by (simp add: write_at_def drop_take)
  then show "out_stream s' = out_stream s @ data"
    using C(2,3) by (simp add: s' out_stream_def)
  show "sock_ok s'" using C by (simp add: s' sock_ok_def in_bytes_def)
  show "same_input s s'" using io C(3) by (simp add: s' same_input_def)
qed

lemma tcp_send_refused: "tcp_send data s = (r, s') \<Longrightarrow> r \<noteq> Accepted \<Longrightarrow> s' = s"
  by (auto simp: tcp_send_def Let_def split: if_splits)

lemma tcp_send_healthy: "healthy s \<Longrightarrow> data \<noteq> [] \<Longrightarrow> tcp_send data s = (r, s') \<Longrightarrow> r \<noteq> Invalid"
  by (auto simp: tcp_send_def Let_def split: if_splits)

lemma consume_ok:
  assumes "sock_ok s" "n \<le> next_rcv_valid_index s"
  shows "sock_ok (consume n s)" "in_bytes (consume n s) = drop n (in_bytes s)" "wire_in (consume n s) = wire_in s"
    "parsed_in (consume n s) = parsed_in s @ take n (in_bytes s)" "out_stream (consume n s) = out_stream s"
    "conn_state (consume n s) = conn_state s" "wire_out (consume n s) = wire_out s"
    "last_receive_time (consume n s) = last_receive_time s"
    "length (outbound_data (consume n s)) = length (outbound_data s)"
    "length (inbound_data (consume n s)) = length (inbound_data s)"
proof -
  have i: "in_bytes (consume n s) = drop n (in_bytes s)" and p: "parsed_in (consume n s) = parsed_in s @ take n (in_bytes s)"
    using assms by (auto simp: consume_def sock_ok_def in_bytes_def write_at_def min_def drop_take)
  show "in_bytes (consume n s) = drop n (in_bytes s)" "parsed_in (consume n s) = parsed_in s @ take n (in_bytes s)"
    by (fact i p)+
  show "wire_in (consume n s) = wire_in s" "out_stream (consume n s) = out_stream s" "wire_out (consume n s) = wire_out s"
    "conn_state (consume n s) = conn_state s" "last_receive_time (consume n s) = last_receive_time s"
    "length (outbound_data (consume n s)) = length (outbound_data s)"
    by (simp_all add: consume_def out_stream_def)
  show len: "length (inbound_data (consume n s)) = length (inbound_data s)"
    using assms by (simp add: consume_def sock_ok_def)
  have "next_rcv_valid_index (consume n s) \<le> length (inbound_data (consume n s))"
    using assms unfolding len by (auto simp: consume_def sock_ok_def)
  then show "sock_ok (consume n s)"
    using assms i p by (simp add: sock_ok_def) (simp add: consume_def)
qed

lemma TCPSocket_new_ok:
  assumes "TCPSocket_new cap = Some s"
  shows "sock_ok s" "out_stream s = []" "wire_in s = []" "parsed_in s = []" "wire_out s = []" "healthy s" "in_bytes s = []"
    "length (outbound_data s) = cap" "length (inbound_data s) = cap"
  using assms by (auto simp: TCPSocket_new_def sock_ok_def out_stream_def in_bytes_def healthy_def split: if_splits)

subsection \<open>The contract with the owner\<close>

text \<open>The receive times of one round of \<open>n\<close> attempts do not go back.\<close>

fun clock_ok :: "nat \<Rightarrow> int \<Rightarrow> (nat \<Rightarrow> RecvResult) \<Rightarrow> bool" where
  "clock_ok 0 t sys = True"
| "clock_ok (Suc n) t sys = (case sys n of Rc_Data bs t' \<Rightarrow> t \<le> t' \<and> clock_ok n t' sys | Rc_Intr \<Rightarrow> clock_ok n t sys
     | _ \<Rightarrow> True)"

locale socket_owner =
  fixes cb :: "'st on_recv" and I :: "TCPSocket \<Rightarrow> 'st \<Rightarrow> bool" and m :: bool
  assumes cb_inv: "I s st \<Longrightarrow> healthy s \<Longrightarrow> cb (last_receive_time s) (s, st) = Some (s', st') \<Longrightarrow> I s' st'"
    and cb_time: "I s st \<Longrightarrow> healthy s \<Longrightarrow> cb (last_receive_time s) (s, st) = Some (s', st') \<Longrightarrow>
      last_receive_time s' = last_receive_time s"
    and io_inv: "I s st \<Longrightarrow> transport m s s' \<Longrightarrow> I s' st"
begin

lemma recv_loop_inv:
  assumes "I s st" "m \<Longrightarrow> clock_ok n (last_receive_time s) sys" "recv_loop cb sys n r (s, st) = Some (r', s', st')"
  shows "I s' st'"
  using assms
proof (induct n arbitrary: r s st)
  case (Suc n)
  show ?case
  proof (cases "\<not> healthy s \<or> next_rcv_valid_index s = length (inbound_data s)")
    case True then show ?thesis using Suc.prems by auto
  next
    case False
    then have room: "next_rcv_valid_index s \<noteq> length (inbound_data s)" and hs: "healthy s" by auto
    show ?thesis
    proof (cases "sys n")
      case (Rc_Data bytes time)
      let ?b = "take (length (inbound_data s) - next_rcv_valid_index s) bytes"
      show ?thesis
      proof (cases "?b = []")
        case True
        then show ?thesis using Suc.prems False Rc_Data by (auto simp: Let_def intro: io_inv transport_state)
      next
        case ne: False
        let ?s = "receive_bytes ?b time s"
        have "?b \<noteq> [] \<Longrightarrow> next_rcv_valid_index s < length (inbound_data s)" by (metis diff_is_0_eq not_le take0)
        then have "transport m s ?s"
          using ne Suc.prems(2) Rc_Data by (intro transport_receive) auto
        then have i: "I ?s st" using Suc.prems(1) by (rule io_inv [rotated])
        have h: "healthy ?s" "last_receive_time ?s = time" using hs by (simp_all add: receive_bytes_def healthy_def)
        obtain t st1 where c: "cb time (?s, st) = Some (t, st1)" "recv_loop cb sys n True (t, st1) = Some (r', s', st')"
          using Suc.prems(3) False Rc_Data ne by (auto simp: Let_def bind_Some_conv)
        then show ?thesis
          using Suc.hyps [of t st1 True] cb_inv [OF i h(1), unfolded h(2), OF c(1)]
            cb_time [OF i h(1), unfolded h(2), OF c(1)] Suc.prems(2) Rc_Data by auto
      qed
    next
      case Rc_Intr
      then show ?thesis using Suc.prems False Suc.hyps [of s st r] by auto
    qed (use Suc.prems False in \<open>auto intro: io_inv transport_state\<close>)
  qed
qed simp

lemma sendAndRecv_inv:
  assumes "I s st" "m \<Longrightarrow> clock_ok 8 (last_receive_time s) inp" "sendAndRecv cb out inp (s, st) = Some (r, s', st')"
  shows "I s' st'"
proof -
  obtain ok t where f: "flushSend out s = (ok, t)" by (cases "flushSend out s")
  have i: "I t st" using io_inv [OF assms(1)] flushSend_transport [of m s out] f by simp
  have time: "last_receive_time t = last_receive_time s"
    using flushSend_time [of out s] f by simp
  show ?thesis
  proof (cases ok)
    case True
    then have h: "healthy t" using flushSend_healthy [of out s] f by simp
    obtain u st1 where u: "(if next_rcv_valid_index t > 0 then cb (last_receive_time t) (t, st) else Some (t, st)) = Some (u, st1)"
        "recv_loop cb inp 8 False (u, st1) = Some (r, s', st')"
      using assms(3) f True by (auto simp: sendAndRecv_def bind_Some_conv)
    have "I u st1 \<and> last_receive_time u = last_receive_time t"
      using u(1) i cb_inv [OF i h] cb_time [OF i h] by (auto split: if_splits)
    then show ?thesis using recv_loop_inv [OF _ _ u(2)] assms(2) time by simp
  qed (use assms(3) f i in \<open>simp add: sendAndRecv_def\<close>)
qed

end

text \<open>An owner whose callback never fails.\<close>

locale total_socket_owner = socket_owner +
  assumes cb_total: "I s st \<Longrightarrow> healthy s \<Longrightarrow> cb (last_receive_time s) (s, st) \<noteq> None"
begin

lemma recv_loop_total:
  assumes "I s st" "m \<Longrightarrow> clock_ok n (last_receive_time s) sys"
  shows "recv_loop cb sys n r (s, st) \<noteq> None"
  using assms
proof (induct n arbitrary: r s st)
  case (Suc n)
  show ?case
  proof (cases "\<not> healthy s \<or> next_rcv_valid_index s = length (inbound_data s)")
    case False
    show ?thesis
    proof (cases "sys n")
      case (Rc_Data bytes time)
      let ?b = "take (length (inbound_data s) - next_rcv_valid_index s) bytes"
      show ?thesis
      proof (cases "?b = []")
        case ne: False
        let ?s = "receive_bytes ?b time s"
        have "next_rcv_valid_index s < length (inbound_data s)" using ne by (metis diff_is_0_eq not_le take0)
        then have "transport m s ?s" using Suc.prems(2) Rc_Data by (intro transport_receive) auto
        then have i: "I ?s st" using Suc.prems(1) by (rule io_inv [rotated])
        have h: "healthy ?s" "last_receive_time ?s = time" using False by (simp_all add: receive_bytes_def healthy_def)
        obtain t st1 where c: "cb time (?s, st) = Some (t, st1)"
          using cb_total [OF i h(1)] h(2) by auto
        then have "recv_loop cb sys n True (t, st1) \<noteq> None"
          using Suc.hyps [of t st1 True] cb_inv [OF i h(1), unfolded h(2), OF c(1)]
            cb_time [OF i h(1), unfolded h(2), OF c(1)] Suc.prems(2) Rc_Data by auto
        then show ?thesis using False Rc_Data ne c by (simp add: Let_def)
      qed (use False Rc_Data in \<open>simp add: Let_def\<close>)
    next
      case Rc_Intr
      then show ?thesis using Suc.prems False Suc.hyps [of s st r] by auto
    qed (use Suc.prems False in auto)
  qed auto
qed simp

lemma sendAndRecv_total:
  assumes "I s st" "m \<Longrightarrow> clock_ok 8 (last_receive_time s) inp"
  shows "sendAndRecv cb out inp (s, st) \<noteq> None"
proof -
  obtain ok t where f: "flushSend out s = (ok, t)" by (cases "flushSend out s")
  have i: "I t st" using io_inv [OF assms(1)] flushSend_transport [of m s out] f by simp
  have time: "last_receive_time t = last_receive_time s" using flushSend_time [of out s] f by simp
  show ?thesis
  proof (cases ok)
    case True
    then have h: "healthy t" using flushSend_healthy [of out s] f by simp
    obtain u st1 where u: "(if next_rcv_valid_index t > 0 then cb (last_receive_time t) (t, st) else Some (t, st)) = Some (u, st1)"
      using cb_total [OF i h] by fastforce
    then have "I u st1 \<and> last_receive_time u = last_receive_time t"
      using i cb_inv [OF i h] cb_time [OF i h] by (auto split: if_splits)
    then show ?thesis using recv_loop_total [of u st1 8 inp False] assms(2) time f True u by (simp add: sendAndRecv_def)
  qed (use f in \<open>simp add: sendAndRecv_def\<close>)
qed

end

end
