(* ===== verification/Order_Gateway.thy ===== *)
theory Order_Gateway
  imports Tcp_Socket LF_Queue Wire "HOL-Library.Sublist"
begin

text \<open>
  \<^verbatim>\<open>src/trading/order_gw/order_gateway.h\<close> and \<^verbatim>\<open>order_gateway.cpp\<close>: the network thread of a client. It numbers and encodes the
  requests of the trading engine, and cuts the bytes from the exchange into response frames, which it hands over in
  sequence; a frame of another session, a gap or a malformed response ends the session. The state is the connection
  and the record \<open>OrderGateway\<close>; \<open>now\<close> is the monotonic clock, whose readings within one callback only leave the last one
  behind. Logging and measuring are left out; \<open>None\<close> is a failed \<open>ASSERT\<close>.
\<close>

subsection \<open>State and operations\<close>

record OrderGateway =
  gw_client_id :: ClientId
  session_epoch :: u64
  session_healthy :: bool
  outgoing_requests :: "MEClientRequest LFQueue"
  incoming_responses :: "MEClientResponse LFQueue"
  next_outgoing_seq_num :: u64
  next_exp_seq_num :: u64
  pending_requests :: u64
  last_receive :: int
  gw_run :: bool
  gw_stop_deadline :: int

definition OrderGateway_new :: "ClientId \<Rightarrow> u64 \<Rightarrow> MEClientRequest LFQueue \<Rightarrow> MEClientResponse LFQueue \<Rightarrow> OrderGateway" where
  "OrderGateway_new c epoch requests responses = \<lparr>gw_client_id = c, session_epoch = epoch, session_healthy = True,
     outgoing_requests = requests, incoming_responses = responses, next_outgoing_seq_num = 1, next_exp_seq_num = 1,
     pending_requests = 0, last_receive = 0, gw_run = False, gw_stop_deadline = 2 ^ 63 - 1\<rparr>"

definition gateway_start :: "int \<Rightarrow> int \<Rightarrow> TCPSocket \<times> OrderGateway \<Rightarrow> (TCPSocket \<times> OrderGateway) option" where
  "gateway_start fd err = (\<lambda>(s, g). let (fd, s) = tcp_connect fd err s in if fd \<ge> 0 then Some (s, g\<lparr>gw_run := True\<rparr>) else None)"

definition gateway_stop :: "int \<Rightarrow> OrderGateway \<Rightarrow> OrderGateway" where
  "gateway_stop now g = g\<lparr>gw_stop_deadline := now + 5 * 10 ^ 9, gw_run := False\<rparr>"

text \<open>A response the gateway refuses to hand over.\<close>

definition malformed :: "MEClientResponse \<Rightarrow> bool" where
  "malformed r \<longleftrightarrow> resp_to_byte (rs_type r) < 1 \<or> resp_to_byte (rs_type r) > 6 \<or>
     rs_type r = Resp_FILLED \<and>
       (unat (rs_ticker_id r) \<ge> ME_MAX_TICKERS \<or> rs_side r \<noteq> BUY \<and> rs_side r \<noteq> SELL \<or> rs_exec_qty r = 0 \<or> rs_response_id r = 0 \<or>
        unat (rs_exec_qty r) > INT32_MAX \<or> rs_price r \<le> 0 \<or> rs_price r = Price_INVALID)"

definition session_failed :: "TCPSocket \<times> OrderGateway \<Rightarrow> TCPSocket \<times> OrderGateway" where
  "session_failed = (\<lambda>(s, g). (s\<lparr>conn_state := ConnError\<rparr>, g\<lparr>session_healthy := False\<rparr>))"

definition session_reject :: "RejectReason \<Rightarrow> bool" where
  "session_reject r \<longleftrightarrow> r = Rej_IDENTITY \<or> r = Rej_SEQUENCE \<or> r = Rej_SESSION \<or> r = Rej_VERSION"

text \<open>The response that carries the expected number; \<open>False\<close> is a \<open>break\<close>.\<close>

definition deliver_response :: "int \<Rightarrow> MEClientResponse \<Rightarrow> OrderGateway \<Rightarrow> bool \<times> OrderGateway" where
  "deliver_response now r g =
     (let (ok, q) = try_push r (incoming_responses g); g = g\<lparr>incoming_responses := q\<rparr> in
      if \<not> ok then (False, g)
      else (True, g\<lparr>session_healthy := (if session_reject (rs_reject_reason r) then False else session_healthy g),
             last_receive := now,
             pending_requests := (if rs_type r \<noteq> Resp_FILLED \<and> pending_requests g \<noteq> 0 then pending_requests g - 1
                                  else pending_requests g),
             next_exp_seq_num := next_exp_seq_num g + 1\<rparr>))"

definition response_frame :: "int \<Rightarrow> u8 list \<Rightarrow> TCPSocket \<times> OrderGateway \<Rightarrow> (bool \<times> TCPSocket \<times> OrderGateway) option" where
  "response_frame now bytes x = do {
     d \<leftarrow> decode_response bytes;
     Some (case d of
       None \<Rightarrow> (False, session_failed x)
     | Some m \<Rightarrow>
         if oms_session_epoch m \<noteq> session_epoch (snd x) \<or> rs_client_id (oms_response m) \<noteq> gw_client_id (snd x)
           then (False, session_failed x)
         else if oms_seq_num m < next_exp_seq_num (snd x) then (True, x)
         else if oms_seq_num m \<noteq> next_exp_seq_num (snd x) then (False, session_failed x)
         else if malformed (oms_response m) then (False, session_failed x)
         else let (ok, g) = deliver_response now (oms_response m) (snd x) in (ok, fst x, g)) }"

fun response_frames :: "int \<Rightarrow> nat \<Rightarrow> nat \<Rightarrow> TCPSocket \<times> OrderGateway \<Rightarrow> (nat \<times> TCPSocket \<times> OrderGateway) option" where
  "response_frames now 0 consumed x = Some (consumed, x)"
| "response_frames now (Suc n) consumed x =
     (if consumed + ResponseSize \<le> next_rcv_valid_index (fst x) then do {
        (ok, x) \<leftarrow> response_frame now (drop consumed (inbound_data (fst x))) x;
        if ok then response_frames now n (consumed + ResponseSize) x else Some (consumed, x) }
      else Some (consumed, x))"

definition gateway_recvCallback :: "int \<Rightarrow> OrderGateway on_recv" where
  "gateway_recvCallback now rx_time x = do {
     (consumed, s, g) \<leftarrow> response_frames now (next_rcv_valid_index (fst x)) 0 x;
     Some (consume consumed s, g) }"

text \<open>One request at the head of the queue; \<open>False\<close> is the \<open>break\<close> on a full send buffer.\<close>

definition send_request :: "MEClientRequest \<Rightarrow> TCPSocket \<times> OrderGateway \<Rightarrow> (bool \<times> TCPSocket \<times> OrderGateway) option" where
  "send_request r = (\<lambda>(s, g).
     let frame = encode_request \<lparr>omq_seq_num = next_outgoing_seq_num g, omq_request = r, omq_session_epoch = session_epoch g\<rparr>;
         (status, s) = tcp_send frame s
     in if status = Full then Some (False, s, g)
        else if status \<noteq> Accepted then None
        else map_option (\<lambda>q. (True, s, g\<lparr>outgoing_requests := q, next_outgoing_seq_num := next_outgoing_seq_num g + 1,
               pending_requests := pending_requests g + 1\<rparr>)) (pop (outgoing_requests g)))"

partial_function (option) send_requests :: "TCPSocket \<times> OrderGateway \<Rightarrow> (TCPSocket \<times> OrderGateway) option" where
  "send_requests x = (case peek (outgoing_requests (snd x)) of
     None \<Rightarrow> Some x
   | Some r \<Rightarrow> do { (ok, x) \<leftarrow> send_request r x; if ok then send_requests x else Some x })"

text \<open>The condition of the loop, and one iteration: whether it goes on.\<close>

definition gateway_active :: "int \<Rightarrow> TCPSocket \<times> OrderGateway \<Rightarrow> bool" where
  "gateway_active now = (\<lambda>(s, g). gw_run g \<or> peek (outgoing_requests g) \<noteq> None \<or> pending_bytes s \<noteq> 0 \<or> pending_requests g \<noteq> 0 \<or>
     now - last_receive g < 50 * 10 ^ 6)"

definition gateway_round :: "int \<Rightarrow> (nat \<Rightarrow> IoResult) \<Rightarrow> (nat \<Rightarrow> RecvResult) \<Rightarrow> TCPSocket \<times> OrderGateway \<Rightarrow>
    (bool \<times> TCPSocket \<times> OrderGateway) option" where
  "gateway_round now out inp = (\<lambda>(s, g).
     if \<not> gw_run g \<and> now > gw_stop_deadline g then Some (False, s, g\<lparr>session_healthy := False\<rparr>)
     else do {
       (r, s, g) \<leftarrow> sendAndRecv (gateway_recvCallback now) out inp (s, g);
       if \<not> healthy s \<or> \<not> session_healthy g then Some (False, s, g\<lparr>session_healthy := False, gw_run := False\<rparr>)
       else map_option (\<lambda>x. (True, x)) (send_requests (s, g)) })"

subsection \<open>What a session looks like\<close>

text \<open>The requests as they go on the wire: numbered from 1, with the epoch of the session.\<close>

definition numbered_requests :: "u64 \<Rightarrow> MEClientRequest list \<Rightarrow> OMClientRequest list" where
  "numbered_requests epoch rs =
     map (\<lambda>(n, r). \<lparr>omq_seq_num = of_nat n, omq_request = r, omq_session_epoch = epoch\<rparr>) (enumerate 1 rs)"

text \<open>What a client of an epoch makes of a byte stream: the responses of the frames that carry the next number.\<close>

function session_view :: "nat \<Rightarrow> u8 list \<Rightarrow> MEClientResponse list" where
  "session_view n bs =
     (if length bs < ResponseSize then []
      else case decode_response bs of
        Some (Some m) \<Rightarrow> if oms_seq_num m = of_nat n then oms_response m # session_view (Suc n) (drop ResponseSize bs)
          else session_view n (drop ResponseSize bs)
      | _ \<Rightarrow> session_view n (drop ResponseSize bs))"
  by auto
termination by (relation "measure (length \<circ> snd)") (auto simp: limits)

declare session_view.simps [simp del]

lemma length_numbered_requests [simp]: "length (numbered_requests e rs) = length rs"
  by (simp add: numbered_requests_def)

lemma numbered_snoc_request:
  "numbered_requests e (rs @ [r]) = numbered_requests e rs @ [\<lparr>omq_seq_num = of_nat (Suc (length rs)), omq_request = r, omq_session_epoch = e\<rparr>]"
  by (simp add: numbered_requests_def enumerate_append_eq)

lemma encode_request_length [simp]: "length (encode_request m) = RequestSize"
  by (simp add: encode_request_def put_header_def limits Let_def)

lemma encode_request_ne [simp]: "encode_request m \<noteq> []"
proof
  assume "encode_request m = []"
  then have "length (encode_request m) = 0" by (simp only: list.size)
  then show False by (simp add: limits)
qed

end
