(* ===== verification/Wire_Frames.thy ===== *)
theory Wire_Frames
  imports Wire
begin

text \<open>
  Frames in a byte stream: a decoder looks at the bytes of its own frame only, so a frame means the same in the receive
  buffer, where stale bytes follow, and in the stream; and a stream of encoded messages can be cut into frames.
\<close>

definition val :: "nat \<Rightarrow> u8 list \<Rightarrow> 'a::len word" where
  "val n p = fst (the (get n p))"

lemma get_loop_some: "n \<le> length p \<Longrightarrow> \<exists>v. get_loop n w p = Some (v, drop n p)"
  by (induct n w p rule: get_loop.induct) auto

lemma get_loop_append:
  "n \<le> length p \<Longrightarrow> get_loop n w (p @ q) = map_option (\<lambda>(v, r). (v, r @ q)) (get_loop n w p)"
  by (induct n w p rule: get_loop.induct) auto

lemma get_eq: "n \<le> length p \<Longrightarrow> (get n p :: ('a::len word \<times> u8 list) option) = Some (val n p, drop n p)"
  using get_loop_some [of n p "0 :: 'a word"] by (auto simp: get_def val_def)

lemma val_append: "n \<le> length p \<Longrightarrow> (val n (p @ q) :: 'a::len word) = val n p"
  using get_loop_some [of n p "0 :: 'a word"] get_loop_append [of n p "0 :: 'a word" q] by (auto simp: get_def val_def)

lemma get_magic_append:
  "length ms \<le> length p \<Longrightarrow> get_magic ms (p @ q) = map_option (map_option (\<lambda>r. r @ q)) (get_magic ms p)"
proof (induct ms arbitrary: p)
  case (Cons m ms)
  then have l: "Suc 0 \<le> length p" "Suc 0 \<le> length (p @ q)" by auto
  show ?case using Cons.hyps [of "drop (Suc 0) p"] Cons.prems l
    by (simp add: get_eq [OF l(1)] get_eq [OF l(2)] val_append [OF l(1)])
qed simp

lemma get_magic_cases: "length ms \<le> length p \<Longrightarrow> get_magic ms p = Some None \<or> get_magic ms p = Some (Some (drop (length ms) p))"
proof (induct ms arbitrary: p)
  case (Cons m ms)
  then have l: "Suc 0 \<le> length p" by auto
  show ?case using Cons.hyps [of "drop (Suc 0) p"] Cons.prems by (auto simp: get_eq [OF l])
qed simp

lemma decode_request_append:
  assumes "length p = RequestSize"
  shows "decode_request (p @ q) = decode_request p" "decode_request p \<noteq> None"
proof -
  have l: "length p = 50" using assms by (simp add: limits)
  have m: "get_magic [84, 83, Version, 1] p = Some None \<or> get_magic [84, 83, Version, 1] p = Some (Some (drop 4 p))"
    using get_magic_cases [of "[84, 83, Version, 1]" p] l by (simp add: eval_nat_numeral del: get_magic.simps)
  have a: "get_magic [84, 83, Version, 1] (p @ q) = map_option (map_option (\<lambda>r. r @ q)) (get_magic [84, 83, Version, 1] p)"
    using l by (intro get_magic_append) simp
  show "decode_request (p @ q) = decode_request p" "decode_request p \<noteq> None"
    using m a l by (auto simp: decode_request_def get_header_def get_i64_def get_eq val_append simp del: get_magic.simps)
qed

lemma decode_response_append:
  assumes "length p = ResponseSize"
  shows "decode_response (p @ q) = decode_response p" "decode_response p \<noteq> None"
proof -
  have l: "length p = 79" using assms by (simp add: limits)
  have m: "get_magic [84, 83, Version, 2] p = Some None \<or> get_magic [84, 83, Version, 2] p = Some (Some (drop 4 p))"
    using get_magic_cases [of "[84, 83, Version, 2]" p] l by (simp add: eval_nat_numeral del: get_magic.simps)
  have a: "get_magic [84, 83, Version, 2] (p @ q) = map_option (map_option (\<lambda>r. r @ q)) (get_magic [84, 83, Version, 2] p)"
    using l by (intro get_magic_append) simp
  show "decode_response (p @ q) = decode_response p" "decode_response p \<noteq> None"
    using m a l by (auto simp: decode_response_def get_header_def get_i64_def get_eq val_append simp del: get_magic.simps)
qed

lemma decode_request_take: "RequestSize \<le> length p \<Longrightarrow> decode_request p = decode_request (take RequestSize p)"
  using decode_request_append(1) [of "take RequestSize p" "drop RequestSize p"] by simp

lemma decode_response_take: "ResponseSize \<le> length p \<Longrightarrow> decode_response p = decode_response (take ResponseSize p)"
  using decode_response_append(1) [of "take ResponseSize p" "drop ResponseSize p"] by simp

end
