(* ===== verification/Order_Gateway_Props.thy ===== *)
theory Order_Gateway_Props
  imports Order_Gateway Wire_Frames
begin

text \<open>
  The order gateway among its environment: \<open>gateway_step\<close> interleaves the phases of its thread with the trading engine,
  which puts requests and takes responses (the two lists), and with whatever the network delivers. The gateway is a
  total owner of its connection (interpretation \<open>gwo\<close>). What it has written is the numbered encoding of a prefix of
  the requests; what it has handed over is a function (\<open>session_view\<close>) of the bytes it has parsed.
\<close>

subsection \<open>Cutting a stream\<close>

lemma session_view_short: "length bs < ResponseSize \<Longrightarrow> session_view n bs = []"
  by (subst session_view.simps) simp

lemma session_view_frame:
  assumes "length f = ResponseSize"
  shows "session_view n (f @ bs) = (case decode_response f of
     Some (Some m) \<Rightarrow> if oms_seq_num m = of_nat n then oms_response m # session_view (Suc n) bs else session_view n bs
   | _ \<Rightarrow> session_view n bs)"
proof -
  have "drop ResponseSize (f @ bs) = bs" unfolding assms [symmetric] by simp
  then show ?thesis using decode_response_append(1) [OF assms, of bs] assms
    by (subst session_view.simps) (simp split: option.split)
qed

lemma session_view_one:
  "length f = ResponseSize \<Longrightarrow> session_view n f = (case decode_response f of
     Some (Some m) \<Rightarrow> if oms_seq_num m = of_nat n then [oms_response m] else [] | _ \<Rightarrow> [])"
  using session_view_frame [of f n "[]"] session_view_short [of "[]"] by (auto simp: limits split: option.split)

lemma frame_split:
  assumes "k dvd length bs" "bs \<noteq> []"
  obtains f r where "bs = f @ r" "length f = k" "k dvd length r"
proof -
  have "k \<le> length bs" using assms by (simp add: dvd_imp_le)
  then show thesis using that [of "take k bs" "drop k bs"] assms(1) by (simp add: dvd_diff_nat)
qed

lemma session_view_append:
  assumes "ResponseSize dvd length bs"
  shows "session_view n (bs @ ds) = session_view n bs @ session_view (n + length (session_view n bs)) ds"
  using assms
proof (induct "length bs" arbitrary: bs n rule: less_induct)
  case less
  show ?case
  proof (cases "bs = []")
    case True then show ?thesis by (simp add: session_view_short limits)
  next
    case False
    obtain f r where f: "bs = f @ r" "length f = ResponseSize" "ResponseSize dvd length r"
      using frame_split [OF less.prems False] by blast
    then have "length r < length bs" by (simp add: limits)
    from less.hyps [OF this f(3)] show ?thesis
      by (simp add: f(1) session_view_frame [OF f(2)] split: option.split)
  qed
qed

subsection \<open>The invariant\<close>

definition sent_inv :: "MEClientRequest list \<Rightarrow> TCPSocket \<Rightarrow> OrderGateway \<Rightarrow> bool" where
  "sent_inv qs s g \<longleftrightarrow> (\<exists>k \<le> length qs. out_stream s = concat (map encode_request (numbered_requests (session_epoch g) (take k qs))) \<and>
     contents (outgoing_requests g) = drop k qs \<and> next_outgoing_seq_num g = of_nat (Suc k))"

text \<open>After \<open>n\<close> bytes of the receive buffer have been handled.\<close>

definition handled_view :: "nat \<Rightarrow> TCPSocket \<Rightarrow> MEClientResponse list" where
  "handled_view n s = session_view 1 (parsed_in s @ take n (in_bytes s))"

definition view_inv :: "MEClientResponse list \<Rightarrow> nat \<Rightarrow> TCPSocket \<Rightarrow> OrderGateway \<Rightarrow> bool" where
  "view_inv rs n s g \<longleftrightarrow> rs @ contents (incoming_responses g) = handled_view n s \<and>
     next_exp_seq_num g = of_nat (Suc (length (handled_view n s))) \<and>
     ResponseSize dvd length (parsed_in s) \<and> ResponseSize dvd n \<and> n \<le> next_rcv_valid_index s"

definition gw_base :: "TCPSocket \<Rightarrow> OrderGateway \<Rightarrow> bool" where
  "gw_base s g \<longleftrightarrow> sock_ok s \<and> queue_ok (outgoing_requests g) \<and> queue_ok (incoming_responses g)"

definition gateway_inv :: "ClientId \<Rightarrow> u64 \<Rightarrow> MEClientRequest list \<Rightarrow> MEClientResponse list \<Rightarrow> nat \<Rightarrow> TCPSocket \<Rightarrow> OrderGateway \<Rightarrow> bool" where
  "gateway_inv c e qs rs n s g \<longleftrightarrow> gw_base s g \<and> sent_inv qs s g \<and> view_inv rs n s g \<and> gw_client_id g = c \<and> session_epoch g = e"

lemma sent_inv_cong:
  "sent_inv qs s g \<Longrightarrow> out_stream s' = out_stream s \<Longrightarrow> outgoing_requests g' = outgoing_requests g \<Longrightarrow> session_epoch g' = session_epoch g \<Longrightarrow>
   next_outgoing_seq_num g' = next_outgoing_seq_num g \<Longrightarrow> sent_inv qs s' g'"
  by (simp add: sent_inv_def)

text \<open>What a frame may change: the response queue, the counters and the health.\<close>

lemma deliver_response_effect:
  assumes q: "queue_ok (incoming_responses g)" and d: "deliver_response now r g = (ok, g')"
  shows "queue_ok (incoming_responses g')" "outgoing_requests g' = outgoing_requests g" "session_epoch g' = session_epoch g"
    "gw_client_id g' = gw_client_id g" "next_outgoing_seq_num g' = next_outgoing_seq_num g"
    "contents (incoming_responses g') = (if ok then contents (incoming_responses g) @ [r] else contents (incoming_responses g))"
    "next_exp_seq_num g' = (if ok then next_exp_seq_num g + 1 else next_exp_seq_num g)"
proof -
  obtain b p where p: "try_push r (incoming_responses g) = (b, p)" by (cases "try_push r (incoming_responses g)")
  note P = push_contents [OF q p]
  show "queue_ok (incoming_responses g')" "outgoing_requests g' = outgoing_requests g" "session_epoch g' = session_epoch g"
    "gw_client_id g' = gw_client_id g" "next_outgoing_seq_num g' = next_outgoing_seq_num g"
    "contents (incoming_responses g') = (if ok then contents (incoming_responses g) @ [r] else contents (incoming_responses g))"
    "next_exp_seq_num g' = (if ok then next_exp_seq_num g + 1 else next_exp_seq_num g)"
    using d p P by (auto simp: deliver_response_def Let_def split: if_splits)
qed

lemma session_failed_inv:
  "gateway_inv c e qs rs n s g \<Longrightarrow> session_failed (s, g) = (s', g') \<Longrightarrow> gateway_inv c e qs rs n s' g'"
  by (auto simp: session_failed_def gateway_inv_def gw_base_def view_inv_def handled_view_def sock_ok_def in_bytes_def out_stream_def
      elim!: sent_inv_cong)

lemma view_inv_frame:
  assumes v: "view_inv rs n s g" and ok: "sock_ok s" and n: "n + ResponseSize \<le> next_rcv_valid_index s"
    and d: "decode_response (drop n (inbound_data s)) = Some (Some m)"
  shows "handled_view (n + ResponseSize) s = handled_view n s @
     (if oms_seq_num m = next_exp_seq_num g then [oms_response m] else [])"
proof -
  let ?f = "take ResponseSize (drop n (in_bytes s))"
  have len: "length (in_bytes s) = next_rcv_valid_index s" using ok by (simp add: in_bytes_def sock_ok_def)
  have f: "length ?f = ResponseSize" using len n by simp
  have "take ResponseSize (drop n (inbound_data s)) = ?f" using n by (simp add: in_bytes_def drop_take min_def)
  moreover have "ResponseSize \<le> length (drop n (inbound_data s))" using n ok by (auto simp: sock_ok_def)
  ultimately have df: "decode_response ?f = Some (Some m)" using d decode_response_take by metis
  have dv: "ResponseSize dvd length (parsed_in s @ take n (in_bytes s))" using v n len by (simp add: view_inv_def)
  have "parsed_in s @ take (n + ResponseSize) (in_bytes s) = (parsed_in s @ take n (in_bytes s)) @ ?f" by (simp add: take_add)
  then have "handled_view (n + ResponseSize) s = handled_view n s @ session_view (1 + length (handled_view n s)) ?f"
    using session_view_append [OF dv, of 1 ?f] by (simp only: handled_view_def)
  moreover have "of_nat (1 + length (handled_view n s)) = next_exp_seq_num g" using v unfolding view_inv_def plus_1_eq_Suc by simp
  ultimately show ?thesis using session_view_one [OF f, of "1 + length (handled_view n s)"] df by simp
qed

lemma response_frame_inv:
  assumes I: "gateway_inv c e qs rs n s g" and n: "n + ResponseSize \<le> next_rcv_valid_index s"
    and r: "response_frame now (drop n (inbound_data s)) (s, g) = Some (ok, s', g')"
  shows "gateway_inv c e qs rs (if ok then n + ResponseSize else n) s' g' \<and>
     next_rcv_valid_index s' = next_rcv_valid_index s \<and> inbound_data s' = inbound_data s \<and> last_receive_time s' = last_receive_time s"
proof -
  have b: "gw_base s g" and v: "view_inv rs n s g" and sk: "sock_ok s" using I by (simp_all add: gateway_inv_def gw_base_def)
  have bad: ?thesis if "(ok, s', g') = (False, session_failed (s, g))"
    using session_failed_inv [OF I, of s' g'] that by (auto simp: session_failed_def)
  obtain d where d: "decode_response (drop n (inbound_data s)) = Some d" using r by (auto simp: response_frame_def bind_Some_conv)
  show ?thesis
  proof (cases d)
    case None then show ?thesis using r d by (intro bad) (simp add: response_frame_def)
  next
    case (Some m)
    have d: "decode_response (drop n (inbound_data s)) = Some (Some m)" using d Some by simp
    note V = view_inv_frame [OF v sk n d]
    consider (bad) "(ok, s', g') = (False, session_failed (s, g))"
      | (dup) "oms_seq_num m < next_exp_seq_num g" "ok" "s' = s" "g' = g"
      | (fresh) "oms_seq_num m = next_exp_seq_num g" "deliver_response now (oms_response m) g = (ok, g')" "s' = s"
      using r d by (auto simp: response_frame_def Let_def split: if_splits prod.splits)
    then show ?thesis
    proof cases
      case dup
      then have "view_inv rs (n + ResponseSize) s g" using V v n by (auto simp: view_inv_def)
      then show ?thesis using I dup by (simp add: gateway_inv_def)
    next
      case fresh
      have q: "queue_ok (incoming_responses g)" using b by (simp add: gw_base_def)
      note D = deliver_response_effect [OF q fresh(2)]
      have "view_inv rs (if ok then n + ResponseSize else n) s g'"
        using V v n D(6,7) fresh(1) by (cases ok) (simp_all add: view_inv_def)
      moreover have "sent_inv qs s g'" by (rule sent_inv_cong [of qs s g]) (use I D in \<open>simp_all add: gateway_inv_def\<close>)
      ultimately show ?thesis using I D fresh(3) by (simp add: gateway_inv_def gw_base_def)
    qed (rule bad)
  qed
qed

lemma response_frames_inv:
  assumes "gateway_inv c e qs rs n s g" "response_frames now k n (s, g) = Some (n', s', g')"
  shows "gateway_inv c e qs rs n' s' g' \<and> last_receive_time s' = last_receive_time s"
  using assms
proof (induct k arbitrary: n s g)
  case (Suc k)
  show ?case
  proof (cases "n + ResponseSize \<le> next_rcv_valid_index s")
    case True
    then obtain ok u h where u: "response_frame now (drop n (inbound_data s)) (s, g) = Some (ok, u, h)"
        "(if ok then response_frames now k (n + ResponseSize) (u, h) else Some (n, u, h)) = Some (n', s', g')"
      using Suc.prems(2) by (auto simp: bind_Some_conv)
    note R = response_frame_inv [OF Suc.prems(1) True u(1)]
    show ?thesis using Suc.hyps [of "n + ResponseSize" u h] R u(2) by (cases ok) auto
  qed (use Suc.prems in simp)
qed simp

lemma response_frames_total:
  assumes "sock_ok s"
  shows "response_frames now k n (s, g) \<noteq> None"
  using assms
proof (induct k arbitrary: n s g)
  case (Suc k)
  show ?case
  proof (cases "n + ResponseSize \<le> next_rcv_valid_index s")
    case True
    let ?b = "drop n (inbound_data s)"
    have l: "ResponseSize \<le> length ?b" using True Suc.prems by (auto simp: sock_ok_def)
    have "length (take ResponseSize ?b) = ResponseSize" using l by simp
    then obtain d where d: "decode_response ?b = Some d"
      using decode_response_append(2) [of "take ResponseSize ?b"] decode_response_take [OF l] by auto
    obtain y where y: "response_frame now ?b (s, g) = Some y" using d by (simp add: response_frame_def)
    obtain ok u h where "y = (ok, u, h)" by (cases y)
    with y have u: "response_frame now ?b (s, g) = Some (ok, u, h)" by simp
    have "sock_ok u" using u Suc.prems d
      by (auto simp: response_frame_def session_failed_def sock_ok_def in_bytes_def Let_def split: if_splits option.splits prod.splits)
    then show ?thesis using True u Suc.hyps by auto
  qed simp
qed simp

lemma gateway_consume:
  assumes "gateway_inv c e qs rs n s g"
  shows "gateway_inv c e qs rs 0 (consume n s) g"
proof -
  have sk: "sock_ok s" and n: "n \<le> next_rcv_valid_index s" "ResponseSize dvd n" using assms by (simp_all add: gateway_inv_def gw_base_def view_inv_def)
  note C = consume_ok [OF sk n(1)]
  have "length (take n (in_bytes s)) = n" using sk n(1) by (simp add: in_bytes_def sock_ok_def)
  moreover have "sent_inv qs (consume n s) g" by (rule sent_inv_cong [of qs s g]) (use assms C in \<open>simp_all add: gateway_inv_def\<close>)
  ultimately show ?thesis using assms C n(2) by (simp add: gateway_inv_def gw_base_def view_inv_def handled_view_def)
qed

lemma gateway_transport:
  assumes I: "gateway_inv c e qs rs 0 s g" and t: "transport m s s'"
  shows "gateway_inv c e qs rs 0 s' g"
proof -
  have "sent_inv qs s' g" by (rule sent_inv_cong [of qs s g]) (use assms in \<open>simp_all add: gateway_inv_def transport_def\<close>)
  then show ?thesis using assms by (auto simp: gateway_inv_def gw_base_def view_inv_def transport_def handled_view_def)
qed

interpretation gwo: total_socket_owner "gateway_recvCallback now" "gateway_inv c e qs rs 0" m for now c e qs rs m
proof
  fix s g s' g'
  assume I: "gateway_inv c e qs rs 0 s g" and r: "gateway_recvCallback now (last_receive_time s) (s, g) = Some (s', g')"
  obtain n u where u: "response_frames now (next_rcv_valid_index s) 0 (s, g) = Some (n, u, g')" "s' = consume n u"
    using r by (auto simp: gateway_recvCallback_def bind_Some_conv)
  note R = response_frames_inv [OF I u(1)]
  show "gateway_inv c e qs rs 0 s' g'" unfolding u(2) using gateway_consume R by blast
  show "last_receive_time s' = last_receive_time s" using R by (simp add: u(2) consume_def)
next
  show "gateway_inv c e qs rs 0 s' g" if "gateway_inv c e qs rs 0 s g" "transport m s s'" for s g s'
    using that by (rule gateway_transport)
  show "gateway_recvCallback now (last_receive_time s) (s, g) \<noteq> None" if "gateway_inv c e qs rs 0 s g" for s g
    using that response_frames_total [of s now "next_rcv_valid_index s" 0 g]
    by (auto simp: gateway_recvCallback_def gateway_inv_def gw_base_def bind_eq_None_conv)
qed

subsection \<open>Sending requests\<close>

lemma send_request_effect:
  assumes I: "gateway_inv c e qs rs 0 s g" and p: "peek (outgoing_requests g) = Some r" and x: "send_request r (s, g) = Some (b, s', g')"
  shows "gateway_inv c e qs rs 0 s' g' \<and> conn_state s' = conn_state s \<and>
     (if b then contents (outgoing_requests g) = r # contents (outgoing_requests g') else s' = s \<and> g' = g)"
proof -
  let ?m = "\<lparr>omq_seq_num = next_outgoing_seq_num g, omq_request = r, omq_session_epoch = session_epoch g\<rparr>"
  obtain st u where u: "tcp_send (encode_request ?m) s = (st, u)" by (cases "tcp_send (encode_request ?m) s")
  have base: "sock_ok s" "queue_ok (outgoing_requests g)" using I by (simp_all add: gateway_inv_def gw_base_def)
  show ?thesis
  proof (cases "st = Full")
    case True
    then show ?thesis using x u tcp_send_refused [OF u] I by (simp add: send_request_def Let_def)
  next
    case False
    then have acc: "st = Accepted" using x u by (auto simp: send_request_def Let_def split: if_splits)
    note U = tcp_send_accepted [OF base(1) u [unfolded acc]]
    have ne: "contents (outgoing_requests g) = r # tl (contents (outgoing_requests g))"
      using peek_pop(1) [OF base(2)] p by (auto split: list.splits)
    then obtain q where q: "pop (outgoing_requests g) = Some q" "queue_ok q" "contents q = tl (contents (outgoing_requests g))"
      using peek_pop(2) [OF base(2)] by (metis list.distinct(1))
    have b: "b" "s' = u" "g' = g\<lparr>outgoing_requests := q, next_outgoing_seq_num := next_outgoing_seq_num g + 1,
        pending_requests := pending_requests g + 1\<rparr>"
      using x u acc q(1) by (simp_all add: send_request_def Let_def)
    obtain k where k: "k \<le> length qs" "out_stream s = concat (map encode_request (numbered_requests (session_epoch g) (take k qs)))"
        "contents (outgoing_requests g) = drop k qs" "next_outgoing_seq_num g = of_nat (Suc k)"
      using I by (auto simp: gateway_inv_def sent_inv_def)
    have kl: "k < length qs" "qs ! k = r" "drop (Suc k) qs = contents q"
      using ne k(3) q(3) by (metis drop_eq_Nil2 list.distinct(1) not_le, metis nth_via_drop, metis drop_Suc list.sel(3) tl_drop)
    have t: "take (Suc k) qs = take k qs @ [r]" using kl by (simp add: take_Suc_conv_app_nth)
    have "sent_inv qs s' g'" unfolding sent_inv_def
      using kl U(2) k t by (intro exI [of _ "Suc k"]) (simp add: b numbered_snoc_request)
    moreover have "view_inv rs 0 s' g'" using I U(3) by (simp add: b gateway_inv_def view_inv_def handled_view_def same_input_def)
    ultimately have "gateway_inv c e qs rs 0 s' g'" using I U(1) q(2) by (simp add: gateway_inv_def gw_base_def b)
    then show ?thesis using b ne q(3) U(3) by (simp add: same_input_def)
  qed
qed

lemma send_request_total:
  assumes I: "gateway_inv c e qs rs 0 s g" and p: "peek (outgoing_requests g) = Some r" and h: "healthy s"
  shows "send_request r (s, g) \<noteq> None"
proof -
  let ?m = "\<lparr>omq_seq_num = next_outgoing_seq_num g, omq_request = r, omq_session_epoch = session_epoch g\<rparr>"
  obtain st u where u: "tcp_send (encode_request ?m) s = (st, u)" by (cases "tcp_send (encode_request ?m) s")
  have "st \<noteq> Invalid" by (rule tcp_send_healthy [OF h _ u]) simp
  moreover have q: "queue_ok (outgoing_requests g)" using I by (simp add: gateway_inv_def gw_base_def)
  then have "contents (outgoing_requests g) \<noteq> []" using peek_pop(1) [OF q] p by auto
  then have "pop (outgoing_requests g) \<noteq> None" using peek_pop(2) [OF q] by auto
  ultimately show ?thesis using u by (cases st) (auto simp: send_request_def Let_def)
qed

subsection \<open>The gateway among its threads\<close>

type_synonym GatewayNet = "TCPSocket \<times> OrderGateway \<times> MEClientRequest list \<times> MEClientResponse list"

inductive gateway_step :: "GatewayNet \<Rightarrow> GatewayNet \<Rightarrow> bool" where
  gw_io: "sendAndRecv (gateway_recvCallback now) out inp (s, g) = Some (r, s', g') \<Longrightarrow> gateway_step (s, g, qs, rs) (s', g', qs, rs)"
| gw_send: "peek (outgoing_requests g) = Some r \<Longrightarrow> send_request r (s, g) = Some (b, s', g') \<Longrightarrow>
    gateway_step (s, g, qs, rs) (s', g', qs, rs)"
| gw_lost: "gateway_step (s, g, qs, rs) (s, g\<lparr>session_healthy := False, gw_run := b\<rparr>, qs, rs)"
| gw_stop: "gateway_step (s, g, qs, rs) (s, gateway_stop now g, qs, rs)"
| gw_put: "try_push r (outgoing_requests g) = (True, q) \<Longrightarrow>
    gateway_step (s, g, qs, rs) (s, g\<lparr>outgoing_requests := q\<rparr>, qs @ [r], rs)"
| gw_take: "try_pop (incoming_responses g) = (Some r, q) \<Longrightarrow>
    gateway_step (s, g, qs, rs) (s, g\<lparr>incoming_responses := q\<rparr>, qs, rs @ [r])"

definition gateway_begin :: "nat \<Rightarrow> u64 \<Rightarrow> u64 \<Rightarrow> MEClientRequest \<Rightarrow> MEClientResponse \<Rightarrow> ClientId \<Rightarrow> u64 \<Rightarrow> int \<Rightarrow> GatewayNet option" where
  "gateway_begin cap n1 n2 z1 z2 c epoch fd = do {
     s \<leftarrow> TCPSocket_new cap; q1 \<leftarrow> LFQueue_new z1 n1; q2 \<leftarrow> LFQueue_new z2 n2;
     (s, g) \<leftarrow> gateway_start fd 0 (s, OrderGateway_new c epoch q1 q2);
     Some (s, g, [], []) }"

definition gwn_inv :: "ClientId \<Rightarrow> u64 \<Rightarrow> GatewayNet \<Rightarrow> bool" where
  "gwn_inv c e = (\<lambda>(s, g, qs, rs). gateway_inv c e qs rs 0 s g)"

lemma gateway_begin_inv:
  assumes "gateway_begin cap n1 n2 z1 z2 c e fd = Some x"
  shows "gwn_inv c e x"
proof -
  obtain s q1 q2 where s: "TCPSocket_new cap = Some s" "LFQueue_new z1 n1 = Some q1" "LFQueue_new z2 n2 = Some q2"
    and x: "x = (s\<lparr>socket_fd := fd, conn_state := Open\<rparr>, (OrderGateway_new c e q1 q2)\<lparr>gw_run := True\<rparr>, [], [])"
    using assms by (auto simp: gateway_begin_def bind_Some_conv gateway_start_def tcp_connect_def Let_def split: if_splits)
  note S = TCPSocket_new_ok [OF s(1)]
  have "gw_base (s\<lparr>socket_fd := fd, conn_state := Open\<rparr>) ((OrderGateway_new c e q1 q2)\<lparr>gw_run := True\<rparr>)"
    using S queue_new_ok [OF s(2)] queue_new_ok [OF s(3)]
    by (simp add: gw_base_def OrderGateway_new_def sock_ok_def in_bytes_def)
  moreover have "sent_inv [] (s\<lparr>socket_fd := fd, conn_state := Open\<rparr>) ((OrderGateway_new c e q1 q2)\<lparr>gw_run := True\<rparr>)"
    using S queue_new_ok [OF s(2)] by (simp add: sent_inv_def OrderGateway_new_def numbered_requests_def out_stream_def)
  moreover have "view_inv [] 0 (s\<lparr>socket_fd := fd, conn_state := Open\<rparr>) ((OrderGateway_new c e q1 q2)\<lparr>gw_run := True\<rparr>)"
    using S queue_new_ok [OF s(3)] session_view_short [of "[]" 1]
    by (simp add: view_inv_def OrderGateway_new_def handled_view_def limits)
  ultimately show ?thesis by (simp add: x gwn_inv_def gateway_inv_def OrderGateway_new_def)
qed

lemma sent_inv_frame [simp]:
  "sent_inv qs s (g\<lparr>session_healthy := a, gw_run := b\<rparr>) = sent_inv qs s g" "sent_inv qs s (g\<lparr>incoming_responses := q\<rparr>) = sent_inv qs s g"
  "sent_inv qs s (gateway_stop now g) = sent_inv qs s g"
  by (simp_all add: sent_inv_def gateway_stop_def)

lemma gateway_step_inv:
  assumes "gateway_step x y" "gwn_inv c e x"
  shows "gwn_inv c e y"
  using assms
proof (induct rule: gateway_step.induct)
  case (gw_io now out inp s g r s' g' qs rs)
  then show ?case using gwo.sendAndRecv_inv [of c e qs rs s g False inp now out r s' g'] by (simp add: gwn_inv_def)
next
  case (gw_send g r s b s' g' qs rs)
  then show ?case using send_request_effect [of c e qs rs s g r b s' g'] by (simp add: gwn_inv_def)
next
  case (gw_lost s g qs rs b)
  then show ?case by (simp add: gwn_inv_def gateway_inv_def gw_base_def view_inv_def)
next
  case (gw_stop s g qs rs now)
  then show ?case by (simp add: gwn_inv_def gateway_inv_def gw_base_def view_inv_def) (simp add: gateway_stop_def)
next
  case (gw_put r g q s qs rs)
  then have q: "queue_ok q" "contents q = contents (outgoing_requests g) @ [r]"
    using push_contents [of "outgoing_requests g" r True q] by (simp_all add: gwn_inv_def gateway_inv_def gw_base_def)
  obtain k where "k \<le> length qs" "out_stream s = concat (map encode_request (numbered_requests (session_epoch g) (take k qs)))"
      "contents (outgoing_requests g) = drop k qs" "next_outgoing_seq_num g = of_nat (Suc k)"
    using gw_put by (auto simp: gwn_inv_def gateway_inv_def sent_inv_def)
  then have "sent_inv (qs @ [r]) s (g\<lparr>outgoing_requests := q\<rparr>)"
    unfolding sent_inv_def using q by (intro exI [of _ k]) simp
  then show ?case using gw_put q by (simp add: gwn_inv_def gateway_inv_def gw_base_def view_inv_def)
next
  case (gw_take g r q s qs rs)
  then have q: "queue_ok q" "contents (incoming_responses g) = r # contents q"
    using pop_contents [of "incoming_responses g" "Some r" q] by (simp_all add: gwn_inv_def gateway_inv_def gw_base_def)
  then show ?case using gw_take by (simp add: gwn_inv_def gateway_inv_def gw_base_def view_inv_def)
qed

lemma gateway_steps_inv: "gateway_step\<^sup>*\<^sup>* x y \<Longrightarrow> gwn_inv c e x \<Longrightarrow> gwn_inv c e y"
  by (induct rule: rtranclp_induct) (auto intro: gateway_step_inv)

lemma send_requests_ok:
  assumes "gateway_inv c e qs rs 0 s g" "healthy s"
  shows "\<exists>s' g'. send_requests (s, g) = Some (s', g') \<and> gateway_step\<^sup>*\<^sup>* (s, g, qs, rs) (s', g', qs, rs)"
  using assms
proof (induct "length (contents (outgoing_requests g))" arbitrary: s g rule: less_induct)
  case less
  show ?case
  proof (cases "peek (outgoing_requests g)")
    case None
    then show ?thesis by (subst send_requests.simps) simp
  next
    case (Some r)
    obtain b u h where u: "send_request r (s, g) = Some (b, u, h)" using send_request_total [OF less.prems(1) Some less.prems(2)] by auto
    note E = send_request_effect [OF less.prems(1) Some u]
    have st: "gateway_step (s, g, qs, rs) (u, h, qs, rs)" by (rule gw_send [OF Some u])
    show ?thesis
    proof (cases b)
      case True
      then obtain s' g' where "send_requests (u, h) = Some (s', g')" "gateway_step\<^sup>*\<^sup>* (u, h, qs, rs) (s', g', qs, rs)"
        using less.hyps [of h u] E less.prems(2) by (auto simp: healthy_def)
      then show ?thesis using st Some u True by (subst send_requests.simps) (auto intro: converse_rtranclp_into_rtranclp)
    next
      case False
      then show ?thesis using st Some u by (subst send_requests.simps) auto
    qed
  qed
qed

lemma gateway_round_ok:
  assumes I: "gateway_inv c e qs rs 0 s g"
  shows "\<exists>b s' g'. gateway_round now out inp (s, g) = Some (b, s', g') \<and> gateway_step\<^sup>*\<^sup>* (s, g, qs, rs) (s', g', qs, rs)"
proof (cases "\<not> gw_run g \<and> now > gw_stop_deadline g")
  case True
  have "gateway_step (s, g, qs, rs) (s, g\<lparr>session_healthy := False, gw_run := gw_run g\<rparr>, qs, rs)" by (rule gw_lost)
  then have "gateway_step (s, g, qs, rs) (s, g\<lparr>session_healthy := False\<rparr>, qs, rs)" by simp
  then show ?thesis using True by (auto simp: gateway_round_def)
next
  case False
  have "sendAndRecv (gateway_recvCallback now) out inp (s, g) \<noteq> None"
    by (rule gwo.sendAndRecv_total [OF I, where m = False]) simp
  then obtain r u h where u: "sendAndRecv (gateway_recvCallback now) out inp (s, g) = Some (r, u, h)" by auto
  have st: "gateway_step (s, g, qs, rs) (u, h, qs, rs)" by (rule gw_io [OF u])
  have J: "gateway_inv c e qs rs 0 u h" using gateway_step_inv [OF st, of c e] I by (simp add: gwn_inv_def)
  show ?thesis
  proof (cases "\<not> healthy u \<or> \<not> session_healthy h")
    case True
    have "gateway_step (u, h, qs, rs) (u, h\<lparr>session_healthy := False, gw_run := False\<rparr>, qs, rs)" by (rule gw_lost)
    then have "gateway_step\<^sup>*\<^sup>* (s, g, qs, rs) (u, h\<lparr>session_healthy := False, gw_run := False\<rparr>, qs, rs)" using st by (meson rtranclp.intros)
    then show ?thesis using u True False by (auto simp: gateway_round_def)
  next
    case ok: False
    then obtain s' g' where "send_requests (u, h) = Some (s', g')" "gateway_step\<^sup>*\<^sup>* (u, h, qs, rs) (s', g', qs, rs)"
      using send_requests_ok [OF J] by auto
    then show ?thesis using u ok False st by (auto simp: gateway_round_def intro: converse_rtranclp_into_rtranclp)
  qed
qed

subsection \<open>Properties\<close>

text \<open>Whatever the network and the trading engine do, the bytes the gateway has written are the encodings of the first
  \<open>k\<close> requests put into its queue, numbered from 1 with the epoch of the session, and the others are still in the
  queue, in order: no request is lost, repeated, reordered or cut.\<close>

theorem gateway_requests_numbered:
  assumes "gateway_begin cap n1 n2 z1 z2 c e fd = Some x" "gateway_step\<^sup>*\<^sup>* x (s, g, qs, rs)"
  shows "\<exists>k \<le> length qs. out_stream s = concat (map encode_request (numbered_requests e (take k qs))) \<and>
     contents (outgoing_requests g) = drop k qs"
  using gateway_steps_inv [OF assms(2) gateway_begin_inv [OF assms(1)]]
  by (auto simp: gwn_inv_def gateway_inv_def sent_inv_def)

text \<open>What the gateway hands to the trading engine is a function of the bytes it has parsed: the responses of the frames
  that carry the next number, in order, each once; a repeated frame changes nothing.\<close>

theorem gateway_delivers_view:
  assumes "gateway_begin cap n1 n2 z1 z2 c e fd = Some x" "gateway_step\<^sup>*\<^sup>* x (s, g, qs, rs)"
  shows "rs @ contents (incoming_responses g) = session_view 1 (parsed_in s) \<and> prefix (parsed_in s) (wire_in s)"
proof -
  have "gateway_inv c e qs rs 0 s g" using gateway_steps_inv [OF assms(2) gateway_begin_inv [OF assms(1)]] by (simp add: gwn_inv_def)
  then have "wire_in s = parsed_in s @ in_bytes s" "rs @ contents (incoming_responses g) = session_view 1 (parsed_in s)"
    by (simp_all add: gateway_inv_def view_inv_def handled_view_def gw_base_def sock_ok_def)
  then show ?thesis by simp
qed

text \<open>C24: an iteration of the gateway's loop always completes: no assertion fails and the sending loop ends, for every
  result of the socket calls and every content of the stream.\<close>

theorem gateway_round_completes:
  assumes "gateway_begin cap n1 n2 z1 z2 c e fd = Some x" "gateway_step\<^sup>*\<^sup>* x (s, g, qs, rs)"
  shows "\<exists>b s' g'. gateway_round now out inp (s, g) = Some (b, s', g') \<and> gateway_step\<^sup>*\<^sup>* x (s', g', qs, rs)"
proof -
  have "gateway_inv c e qs rs 0 s g" using gateway_steps_inv [OF assms(2) gateway_begin_inv [OF assms(1)]] by (simp add: gwn_inv_def)
  from gateway_round_ok [OF this, of now out inp] assms(2) show ?thesis by (meson rtranclp_trans)
qed

subsection \<open>Witnesses\<close>

definition sample_request :: MEClientRequest where
  "sample_request = MEClientRequest_default\<lparr>rq_type := Req_NEW, rq_client_id := 3, rq_ticker_id := 1, rq_order_id := 1,
     rq_side := BUY, rq_price := 100, rq_qty := 5\<rparr>"

text \<open>A gateway that has put one request on the wire buffer: a queue of four, a send buffer of 64 bytes.\<close>

definition gateway_sample :: "GatewayNet option" where
  "gateway_sample = do {
     (s, g, qs, rs) \<leftarrow> gateway_begin 64 4 4 MEClientRequest_default (mk_response Resp_INVALID 0 0 0 0 BUY 0 0 0 Rej_NONE) 3 77 5;
     let g = g\<lparr>outgoing_requests := snd (try_push sample_request (outgoing_requests g))\<rparr>;
     r \<leftarrow> peek (outgoing_requests g);
     (b, s, g) \<leftarrow> send_request r (s, g);
     Some (s, g, [sample_request], []) }"

lemma gateway_sample_value:
  "(case gateway_sample of None \<Rightarrow> False | Some (s, g, qs, rs) \<Rightarrow> length (out_stream s) = 50 \<and> wire_in s = [] \<and> healthy s)"
  by code_simp

lemma gateway_sample_reachable:
  obtains x s g where "gateway_begin 64 4 4 MEClientRequest_default (mk_response Resp_INVALID 0 0 0 0 BUY 0 0 0 Rej_NONE) 3 77 5 = Some x"
    "gateway_step\<^sup>*\<^sup>* x (s, g, [sample_request], [])" "length (out_stream s) = 50" "wire_in s = []" "gateway_sample = Some (s, g, [sample_request], [])"
proof -
  obtain s g where v: "gateway_sample = Some (s, g, [sample_request], [])" "length (out_stream s) = 50" "wire_in s = []"
    using gateway_sample_value by (auto simp: gateway_sample_def Let_def bind_Some_conv split: option.splits)
  obtain s0 g0 qs rs where x: "gateway_begin 64 4 4 MEClientRequest_default (mk_response Resp_INVALID 0 0 0 0 BUY 0 0 0 Rej_NONE) 3 77 5 =
      Some (s0, g0, qs, rs)"
    using v(1) by (auto simp: gateway_sample_def bind_Some_conv)
  have e: "qs = []" "rs = []" using x by (auto simp: gateway_begin_def bind_Some_conv)
  obtain b q where q: "try_push sample_request (outgoing_requests g0) = (b, q)" by (cases "try_push sample_request (outgoing_requests g0)")
  obtain r b' where p: "peek q = Some r" and sr: "send_request r (s0, g0\<lparr>outgoing_requests := q\<rparr>) = Some (b', s, g)"
    using v(1) x q by (auto simp: gateway_sample_def bind_Some_conv Let_def)
  have I: "gateway_inv 3 77 [] [] 0 s0 g0" using gateway_begin_inv [OF x] by (simp add: gwn_inv_def e)
  have qk: "queue_ok (outgoing_requests g0)" "contents (outgoing_requests g0) = []"
    using I by (auto simp: gateway_inv_def gw_base_def sent_inv_def)
  note P = push_contents [OF qk(1) q]
  have b
  proof (rule ccontr)
    assume "\<not> b"
    then have "contents q = []" "queue_ok q" using P qk(2) by simp_all
    then show False using p peek_pop(1) [of q] by simp
  qed
  then have "gateway_step (s0, g0, [], []) (s0, g0\<lparr>outgoing_requests := q\<rparr>, [sample_request], [])"
    using gw_put [of sample_request g0 q s0 "[]" "[]"] q by simp
  moreover have "gateway_step (s0, g0\<lparr>outgoing_requests := q\<rparr>, [sample_request], []) (s, g, [sample_request], [])"
    using p sr by (intro gw_send) simp_all
  ultimately have "gateway_step\<^sup>*\<^sup>* (s0, g0, qs, rs) (s, g, [sample_request], [])" unfolding e by (meson rtranclp.intros)
  then show thesis using that [OF x] v by blast
qed

lemma gateway_requests_numbered_witness:
  "\<exists>(s :: TCPSocket) (g :: OrderGateway) k. length (out_stream s) = 50 \<and>
     out_stream s = concat (map encode_request (numbered_requests 77 (take k [sample_request]))) \<and>
     contents (outgoing_requests g) = drop k [sample_request]"
proof -
  obtain x s g where x: "gateway_begin 64 4 4 MEClientRequest_default (mk_response Resp_INVALID 0 0 0 0 BUY 0 0 0 Rej_NONE) 3 77 5 = Some x"
    "gateway_step\<^sup>*\<^sup>* x (s, g, [sample_request], [])" "length (out_stream s) = 50" using gateway_sample_reachable by blast
  from gateway_requests_numbered [OF x(1,2)] x(3) show ?thesis by blast
qed

lemma gateway_delivers_view_witness:
  "\<exists>(s :: TCPSocket) (g :: OrderGateway). length (out_stream s) = 50 \<and> [] @ contents (incoming_responses g) = session_view 1 (parsed_in s)"
proof -
  obtain x s g where x: "gateway_begin 64 4 4 MEClientRequest_default (mk_response Resp_INVALID 0 0 0 0 BUY 0 0 0 Rej_NONE) 3 77 5 = Some x"
    "gateway_step\<^sup>*\<^sup>* x (s, g, [sample_request], [])" "length (out_stream s) = 50" using gateway_sample_reachable by blast
  from gateway_delivers_view [OF x(1,2)] x(3) show ?thesis by blast
qed

lemma gateway_round_completes_witness:
  "\<exists>(s :: TCPSocket) (g :: OrderGateway) b s' g'. length (out_stream s) = 50 \<and>
     gateway_round 7 (\<lambda>_. Io_Intr) (\<lambda>_. Rc_Again) (s, g) = Some (b, s', g')"
proof -
  obtain x s g where x: "gateway_begin 64 4 4 MEClientRequest_default (mk_response Resp_INVALID 0 0 0 0 BUY 0 0 0 Rej_NONE) 3 77 5 = Some x"
    "gateway_step\<^sup>*\<^sup>* x (s, g, [sample_request], [])" "length (out_stream s) = 50" using gateway_sample_reachable by blast
  from gateway_round_completes [OF x(1,2), of 7 "\<lambda>_. Io_Intr" "\<lambda>_. Rc_Again"] x(3) show ?thesis by blast
qed

end
