(* ===== verification/Client_Process.thy ===== *)
theory Client_Process
  imports Program_Start Order_Gateway_Props Matching_Engine
begin

text \<open>
  The trading client as one process, \<^verbatim>\<open>src/trading/trading_main.cpp\<close>: the trading engine and the order gateway on the same
  two queues, with the health of the session visible to the engine. A step is a step of one thread; what it leaves in a
  shared object is what the other thread sees. Market updates arrive from the consumer thread, requests of the main
  thread (strategy RANDOM and the cancellations of a shutdown) are calls of \<open>sendClientRequest\<close>. The two lists are the
  history: requests queued by the engine and responses it has processed.
\<close>

subsection \<open>Composition\<close>

type_synonym ClientNet = "TradeEngine \<times> TCPSocket \<times> OrderGateway \<times> MEClientRequest list \<times> MEClientResponse list"

definition gateway_sees :: "TradeEngine \<Rightarrow> OrderGateway \<Rightarrow> OrderGateway" where
  "gateway_sees e g = g\<lparr>outgoing_requests := outgoing_ogw_requests e, incoming_responses := incoming_ogw_responses e\<rparr>"

definition trader_sees :: "OrderGateway \<Rightarrow> TradeEngine \<Rightarrow> TradeEngine" where
  "trader_sees g e = e\<lparr>outgoing_ogw_requests := outgoing_requests g, incoming_ogw_responses := incoming_responses g,
     order_session := Some (session_healthy g)\<rparr>"

text \<open>The events of the engine that are not those of the gateway.\<close>

definition trader_event :: "TradeEvent \<Rightarrow> bool" where
  "trader_event v = (case v of ArriveUpdate u \<Rightarrow> update_known u | WorkMarket \<Rightarrow> True | SendRequest r \<Rightarrow> True
     | NewGeneration \<Rightarrow> True | StopAdmitting \<Rightarrow> True | _ \<Rightarrow> False)"

inductive trading_step :: "ClientNet \<Rightarrow> ClientNet \<Rightarrow> bool" where
  cl_gateway: "gateway_step (s, g, qs, rs) (s', g', qs, rs) \<Longrightarrow>
    trading_step (e, s, g, qs, rs) (trader_sees g' e, s', g', qs, rs)"
| cl_event: "trader_event v \<Longrightarrow> trade_event v (e, []) = Some (e', []) \<Longrightarrow>
    contents (outgoing_ogw_requests e') = contents (outgoing_ogw_requests e) @ ns \<Longrightarrow>
    trading_step (e, s, g, qs, rs) (e', s, gateway_sees e' g, qs @ ns, rs)"
| cl_response: "peek (incoming_ogw_responses e) = Some r \<Longrightarrow> response_iteration e = Some e' \<Longrightarrow>
    contents (outgoing_ogw_requests e') = contents (outgoing_ogw_requests e) @ ns \<Longrightarrow>
    trading_step (e, s, g, qs, rs) (e', s, gateway_sees e' g, qs @ ns, rs @ [r])"

text \<open>The objects as \<open>main\<close> builds them, the gateway connected; \<open>epoch\<close> is the time that names the session.\<close>

definition client_begin :: "nat \<Rightarrow> u64 \<Rightarrow> u64 \<Rightarrow> u64 \<Rightarrow> MEClientRequest \<Rightarrow> MEClientResponse \<Rightarrow> MEMarketUpdate \<Rightarrow> ClientConfig \<Rightarrow> u64 \<Rightarrow> int \<Rightarrow>
    ClientNet option" where
  "client_begin cap n1 n2 n3 z1 z2 z3 startup epoch fd = do {
     requests \<leftarrow> LFQueue_new z1 n1; responses \<leftarrow> LFQueue_new z2 n2; updates \<leftarrow> LFQueue_new z3 n3;
     e \<leftarrow> TradeEngine_new (cc_client_id startup) (strategyType startup) (tickerConfig startup) requests responses updates;
     s \<leftarrow> TCPSocket_new cap;
     let g = OrderGateway_new (cc_client_id startup) epoch requests responses;
     let e = e\<lparr>order_session := Some (session_healthy g)\<rparr>;
     (s, g) \<leftarrow> gateway_start fd 0 (s, g);
     Some (e, s, g, [], []) }"

text \<open>The end of \<open>main\<close>: the checkpoint is written and the exit code says whether the session was still certain.\<close>

definition client_exit :: "(nat \<Rightarrow> WriteResult) \<Rightarrow> int \<Rightarrow> (string \<Rightarrow> int) \<Rightarrow> int \<Rightarrow> ClientConfig \<Rightarrow> TradeEngine \<Rightarrow> OrderGateway \<Rightarrow>
    (Journal \<times> nat) option" where
  "client_exit sys fd open_dir synced startup e g = do {
     account \<leftarrow> CriticalJournal_new sys fd open_dir synced (checkpoint_path startup);
     account \<leftarrow> writeCheckpoint sys (session_epoch g) (session_healthy g) e account;
     Some (account, if session_healthy g then 0 else 3) }"

definition lines_of :: "string list \<Rightarrow> string" where
  "lines_of xs = concat (map (\<lambda>x. x @ [CHR 0x0A]) xs)"

lemma append_all_file: "append_all sys xs j = Some j' \<Longrightarrow> jn_file j' = jn_file j @ lines_of xs"
  by (induct xs arbitrary: j) (auto simp: lines_of_def bind_Some_conv dest!: journal_append_file)

text \<open>The checkpoint holds the account, a position for every ticker, and every order that may still be working.\<close>

lemma checkpoint_contents:
  assumes "client_exit sys fd open_dir synced startup e g = Some (j, code)"
  shows "jn_file j = lines_of ([''TS_AUDIT_V1'', account_text (te_client_id e) (session_epoch g) (session_healthy g)] @
       map (\<lambda>t. position_text t (position_keeper e t)) [0..<ME_MAX_TICKERS] @
       map (request_text ''UNRESOLVED'') (cancellations (te_client_id e) (risk_manager e)))"
    "code = (if session_healthy g then 0 else 3)"
proof -
  obtain j0 j1 j2 where j: "CriticalJournal_new sys fd open_dir synced (checkpoint_path startup) = Some j0"
    "append_all sys [account_text (te_client_id e) (session_epoch g) (session_healthy g)] j0 = Some j1"
    "append_all sys (map (\<lambda>t. position_text t (position_keeper e t)) [0..<ME_MAX_TICKERS]) j1 = Some j2"
    "append_all sys (map (request_text ''UNRESOLVED'') (cancellations (te_client_id e) (risk_manager e))) j2 = Some j"
    and c: "code = (if session_healthy g then 0 else 3)"
    using assms unfolding client_exit_def writeCheckpoint_def bind_Some_conv option.inject prod.inject by blast
  show "code = (if session_healthy g then 0 else 3)" by (rule c)
  show "jn_file j = lines_of ([''TS_AUDIT_V1'', account_text (te_client_id e) (session_epoch g) (session_healthy g)] @
       map (\<lambda>t. position_text t (position_keeper e t)) [0..<ME_MAX_TICKERS] @
       map (request_text ''UNRESOLVED'') (cancellations (te_client_id e) (risk_manager e)))"
    using append_all_file [OF j(4)] append_all_file [OF j(3)] append_all_file [OF j(2)] journal_new_file(1) [OF j(1)]
    by (simp add: lines_of_def del: append_all.simps upt_Suc)
qed

subsection \<open>Bookkeeping of responses\<close>

lemma reduce_position_kept: "reduce_position r old i = Some j \<Longrightarrow> position j = position i"
  by (auto simp: reduce_position_def Let_def bind_Some_conv split: if_splits)

lemma fill_vwap_kept: "fill_vwap r old i = Some j \<Longrightarrow> position j = position i"
  by (auto simp: fill_vwap_def Let_def bind_Some_conv split: if_splits dest: reduce_position_kept)

lemma fill_unrealized_kept: "fill_unrealized r i = Some j \<Longrightarrow> position j = position i"
  by (auto simp: fill_unrealized_def bind_Some_conv split: if_splits)

lemma addFill_position:
  assumes "addFill r i = Some j"
  shows "position j = position i + int (unat (rs_exec_qty r)) * sideToValue (rs_side r)"
proof -
  let ?n = "position i + uint (rs_exec_qty r) * sideToValue (rs_side r)"
  from assms obtain j1 j2 where "int64 ?n = Some ?n"
    and j: "fill_vwap r (position i) (i\<lparr>position := ?n, volume := volume i + ucast (rs_exec_qty r)\<rparr>) = Some j1"
      "fill_unrealized r j1 = Some j2" "j = j2\<lparr>total_pnl := dadd (unreal_pnl j2) (real_pnl j2)\<rparr>"
    by (auto simp: addFill_def bind_Some_conv int64_def split: if_splits)
  then show ?thesis using fill_vwap_kept [OF j(1)] fill_unrealized_kept [OF j(2)] by simp
qed

lemma book_fill_position:
  assumes "book_fill r k = Some k'"
  shows "position (k' t) = position (k t) + (if t = unat (rs_ticker_id r) then signed_fill r else 0)"
proof (cases "rs_type r = Resp_FILLED")
  case True
  with assms obtain i where i: "addFill r (k (unat (rs_ticker_id r))) = Some i" "k' = k(unat (rs_ticker_id r) := i)"
    by (auto simp: book_fill_def pk_addFill_def Let_def split: if_splits)
  show ?thesis using True addFill_position [OF i(1)] unfolding i(2) by (simp add: signed_fill_def)
qed (use assms in \<open>auto simp: book_fill_def signed_fill_def\<close>)

lemma settle_response_account:
  assumes "settle_response r e = Some e'" "reconciled e'"
  shows "reconciled e" "last_response_id e' = last_response_id e"
    "position (position_keeper e' t) = position (position_keeper e t) + (if t = unat (rs_ticker_id r) then signed_fill r else 0)"
proof -
  obtain taken m where m: "risk_onResponse r (risk_manager e) = (taken, m)" by fastforce
  with assms obtain k where k: "book_fill r (position_keeper e) = Some k"
      "e' = strategy_onOrderUpdate r (e\<lparr>risk_manager := m, position_keeper := k\<rparr>)"
    by (auto simp: settle_response_def Let_def bind_Some_conv split: if_splits)
  then have "position_keeper e' = k" "reconciled e' = reconciled e" "last_response_id e' = last_response_id e"
    by (simp_all add: strategy_onOrderUpdate_def)
  then show "reconciled e" "last_response_id e' = last_response_id e"
    "position (position_keeper e' t) = position (position_keeper e t) + (if t = unat (rs_ticker_id r) then signed_fill r else 0)"
    using assms(2) book_fill_position [OF k(1), of t] by simp_all
qed

text \<open>A response newer than those seen is booked, or the account is marked for reconciliation.\<close>

lemma onOrderUpdate_account:
  assumes "onOrderUpdate r e = Some e'" "reconciled e'" "last_response_id e < rs_response_id r"
  shows "reconciled e" "last_response_id e' = rs_response_id r" "rs_client_id r = te_client_id e"
    "position (position_keeper e' t) = position (position_keeper e t) + (if t = unat (rs_ticker_id r) then signed_fill r else 0)"
proof -
  have n: "rs_response_id r \<noteq> 0" "\<not> response_duplicate r e" using assms(3) by (auto simp: response_duplicate_def)
  then have c: "rs_client_id r = te_client_id e" "settle_response r (e\<lparr>last_response_id := rs_response_id r\<rparr>) = Some e'"
    using assms(1,2) by (auto simp: onOrderUpdate_def note_response_id_def split: if_splits)
  from settle_response_account [OF c(2) assms(2)] c(1)
  show "reconciled e" "last_response_id e' = rs_response_id r" "rs_client_id r = te_client_id e"
    "position (position_keeper e' t) = position (position_keeper e t) + (if t = unat (rs_ticker_id r) then signed_fill r else 0)"
    by simp_all
qed

subsection \<open>The invariant\<close>

text \<open>Responses with increasing identifiers, as the exchange issues them.\<close>

definition fresh_ids :: "MEClientResponse list \<Rightarrow> bool" where
  "fresh_ids rs \<longleftrightarrow> sorted_wrt (<) (0 # map rs_response_id rs)"

lemma fresh_ids_snoc: "fresh_ids (rs @ [r]) \<longleftrightarrow> fresh_ids rs \<and> last (0 # map rs_response_id rs) < rs_response_id r"
proof -
  have "(\<forall>x \<in> set xs. x < (a :: u64)) \<longleftrightarrow> last xs < a" if "sorted_wrt (<) xs" "xs \<noteq> []" for xs a
    using that
  proof (induct xs)
    case (Cons x xs)
    then show ?case by (cases xs) (auto intro: less_trans)
  qed simp
  from this [of "0 # map rs_response_id rs" "rs_response_id r"] show ?thesis
    using sorted_wrt_append [of "(<)" "0 # map rs_response_id rs" "[rs_response_id r]"] by (auto simp: fresh_ids_def)
qed

definition account_inv :: "MEClientResponse list \<Rightarrow> TradeEngine \<Rightarrow> bool" where
  "account_inv rs e \<longleftrightarrow> (fresh_ids rs \<and> reconciled e \<longrightarrow> last_response_id e = last (0 # map rs_response_id rs) \<and>
     (\<forall>t. position (position_keeper e t) = position_of (unat (te_client_id e)) t rs))"

definition client_inv :: "Account \<Rightarrow> u64 \<Rightarrow> ClientNet \<Rightarrow> bool" where
  "client_inv client ep = (\<lambda>(e, s, g, qs, rs). gwn_inv (fst client) ep (s, g, qs, rs) \<and>
     outgoing_ogw_requests e = outgoing_requests g \<and> incoming_ogw_responses e = incoming_responses g \<and>
     (\<exists>out. qs = out @ contents (outgoing_ogw_requests e) \<and> eng_ok client False out e) \<and> account_inv rs e)"

lemma eng_ok_False: "eng_ok client False out e \<longleftrightarrow> te_ok client e \<and> list_all (request_ok client) (out @ contents (outgoing_ogw_requests e))"
  by (auto simp: eng_ok_def sent_ok_def ids_ok_def)

lemma gwn_shared:
  assumes "gwn_inv c ep (s, g, qs, rs)" "queue_ok q1" "contents q1 = contents (outgoing_requests g) @ ns"
    "queue_ok q2" "contents (incoming_responses g) = xs @ contents q2"
  shows "gwn_inv c ep (s, g\<lparr>outgoing_requests := q1, incoming_responses := q2\<rparr>, qs @ ns, rs @ xs)"
proof -
  obtain k where "k \<le> length qs" "out_stream s = concat (map encode_request (numbered_requests (session_epoch g) (take k qs)))"
      "contents (outgoing_requests g) = drop k qs" "next_outgoing_seq_num g = of_nat (Suc k)"
    using assms(1) by (auto simp: gwn_inv_def gateway_inv_def sent_inv_def)
  then have "sent_inv (qs @ ns) s (g\<lparr>outgoing_requests := q1, incoming_responses := q2\<rparr>)"
    unfolding sent_inv_def using assms(3) by (intro exI [of _ k]) simp
  then show ?thesis using assms by (simp add: gwn_inv_def gateway_inv_def gw_base_def view_inv_def)
qed

lemma gwn_queues:
  assumes "gwn_inv c ep (s, g, qs, rs)"
  shows "queue_ok (outgoing_requests g)" "queue_ok (incoming_responses g)" "\<exists>out. qs = out @ contents (outgoing_requests g)"
proof -
  show "queue_ok (outgoing_requests g)" "queue_ok (incoming_responses g)"
    using assms by (simp_all add: gwn_inv_def gateway_inv_def gw_base_def)
  obtain k where "contents (outgoing_requests g) = drop k qs" using assms by (auto simp: gwn_inv_def gateway_inv_def sent_inv_def)
  then show "\<exists>out. qs = out @ contents (outgoing_requests g)" by (metis append_take_drop_id)
qed

lemma trader_event_frame:
  assumes ok: "eng_ok client False out e" and v: "trader_event v" "trade_event v (e, []) = Some (e', x)"
  shows "eng_ok client False out e'" "same_account e e'" "incoming_ogw_responses e' = incoming_ogw_responses e"
    "te_client_id e' = te_client_id e"
proof -
  have "trade_event v (e, out) = Some (e', out)" using v by (cases v) (auto simp: trader_event_def split: prod.splits)
  moreover have "event_ok False v" using v(1) by (auto simp: trader_event_def event_ok_def split: TradeEvent.splits)
  ultimately show ok': "eng_ok client False out e'" using trade_event_ok [OF ok] by fastforce
  show "te_client_id e' = te_client_id e" using eng_okD(1) [OF ok] eng_okD(1) [OF ok'] by (simp add: te_ok_def)
  have "same_account e e' \<and> incoming_ogw_responses e' = incoming_ogw_responses e"
  proof (cases v)
    case WorkMarket
    then show ?thesis using market_iteration_ok [OF ok] v(2) by auto
  next
    case (SendRequest r)
    obtain b e1 where s: "sendClientRequest r e = (b, e1)" by fastforce
    then show ?thesis using send_spec(2) [OF eng_okD(1) [OF ok] s] SendRequest v(2)
      by (simp add: send_frame_def same_account_def)
  qed (use v in \<open>auto simp: trader_event_def same_account_def\<close>)
  then show "same_account e e'" "incoming_ogw_responses e' = incoming_ogw_responses e" by simp_all
qed

lemma account_same: "account_inv rs e \<Longrightarrow> same_account e e' \<Longrightarrow> te_client_id e' = te_client_id e \<Longrightarrow> account_inv rs e'"
  by (simp add: account_inv_def same_account_def)

lemma account_booked:
  assumes "account_inv rs e" "onOrderUpdate r e = Some e'" "te_client_id e' = te_client_id e"
  shows "account_inv (rs @ [r]) e'"
  unfolding account_inv_def
proof (intro impI)
  assume a: "fresh_ids (rs @ [r]) \<and> reconciled e'"
  have pos: "position_of c t (rs @ [r]) = position_of c t rs + (if unat (rs_client_id r) = c \<and> unat (rs_ticker_id r) = t then signed_fill r else 0)" for c t
    by (simp add: position_of_def)
  have f: "fresh_ids rs" "last (0 # map rs_response_id rs) < rs_response_id r" using a by (simp_all add: fresh_ids_snoc)
  have "reconciled e" "last_response_id e < rs_response_id r"
  proof -
    show "reconciled e" using a assms(2) settle_response_account(1) [of r "note_response_id r e" e']
      by (auto simp: onOrderUpdate_def note_response_id_def split: if_splits)
    then show "last_response_id e < rs_response_id r" using assms(1) f by (simp add: account_inv_def)
  qed
  note O = onOrderUpdate_account [OF assms(2) _ this(2)]
  show "last_response_id e' = last (0 # map rs_response_id (rs @ [r])) \<and>
      (\<forall>t. position (position_keeper e' t) = position_of (unat (te_client_id e')) t (rs @ [r]))"
    using O a f(1) assms(1,3) \<open>reconciled e\<close> by (auto simp: account_inv_def pos)
qed

lemma response_iteration_frame:
  assumes ok: "eng_ok client False out e" and p: "peek (incoming_ogw_responses e) = Some r" and i: "response_iteration e = Some e'"
  shows "eng_ok client False out e'" "contents (incoming_ogw_responses e) = r # contents (incoming_ogw_responses e')"
    "account_inv rs e \<Longrightarrow> account_inv (rs @ [r]) e'"
proof -
  obtain e1 q where e1: "onOrderUpdate r e = Some e1" "pop (incoming_ogw_responses e1) = Some q"
      "e' = e1\<lparr>incoming_ogw_responses := q\<rparr>"
    using i p by (auto simp: response_iteration_def bind_Some_conv)
  show "eng_ok client False out e'" using response_iteration_ok [OF ok] i by auto
  have O: "eng_ok client False out e1" "incoming_ogw_responses e1 = incoming_ogw_responses e"
    using onOrderUpdate_ok [OF ok, of r] e1(1) by (auto simp: same_inputs_def)
  then show "contents (incoming_ogw_responses e) = r # contents (incoming_ogw_responses e')"
    using peek_pop [OF eng_okD(5) [OF ok]] p e1(2,3) by (auto split: list.splits)
  have "te_client_id e1 = te_client_id e" using eng_okD(1) [OF ok] eng_okD(1) [OF O(1)] by (simp add: te_ok_def)
  then show "account_inv (rs @ [r]) e'" if "account_inv rs e" using account_booked [OF that e1(1)] by (simp add: e1(3) account_inv_def)
qed

lemma trading_step_inv:
  assumes "trading_step x y" "client_inv client ep x"
  shows "client_inv client ep y"
  using assms
proof (induct rule: trading_step.induct)
  case (cl_gateway s g qs rs s' g' e)
  then obtain out where o: "qs = out @ contents (outgoing_ogw_requests e)" "eng_ok client False out e" "account_inv rs e"
    by (auto simp: client_inv_def)
  have G: "gwn_inv (fst client) ep (s', g', qs, rs)"
    using gateway_step_inv [OF cl_gateway(1)] cl_gateway(2) by (simp add: client_inv_def)
  obtain out' where out': "qs = out' @ contents (outgoing_requests g')" using gwn_queues(3) [OF G] by blast
  have "te_ok client (trader_sees g' e)" using eng_okD(1) [OF o(2)] gwn_queues(1,2) [OF G] by (simp add: te_ok_def trader_sees_def)
  then have "eng_ok client False out' (trader_sees g' e)" using o(1,2) out' by (simp add: eng_ok_False trader_sees_def)
  moreover have "account_inv rs (trader_sees g' e)" using o(3) by (simp add: account_inv_def trader_sees_def)
  ultimately show ?case using G out' by (auto simp: client_inv_def trader_sees_def)
next
  case (cl_event v e e' ns s g qs rs)
  then obtain out where o: "qs = out @ contents (outgoing_ogw_requests e)" "eng_ok client False out e" "account_inv rs e"
    and l: "outgoing_ogw_requests e = outgoing_requests g" "incoming_ogw_responses e = incoming_responses g"
    by (auto simp: client_inv_def)
  note E = trader_event_frame [OF o(2) cl_event(1,2)]
  have q: "queue_ok (outgoing_ogw_requests e')" "queue_ok (incoming_ogw_responses e')" using eng_okD(1) [OF E(1)] by (simp_all add: te_ok_def)
  have "gwn_inv (fst client) ep (s, gateway_sees e' g, qs @ ns, rs @ [])"
    unfolding gateway_sees_def using cl_event(3,4) q E(3) l by (intro gwn_shared [of _ _ s g]) (simp_all add: client_inv_def)
  then show ?case using E(1) o(1) cl_event(3) account_same [OF o(3) E(2,4)] by (auto simp: client_inv_def gateway_sees_def)
next
  case (cl_response e r e' ns s g qs rs)
  then obtain out where o: "qs = out @ contents (outgoing_ogw_requests e)" "eng_ok client False out e" "account_inv rs e"
    and l: "outgoing_ogw_requests e = outgoing_requests g" "incoming_ogw_responses e = incoming_responses g"
    by (auto simp: client_inv_def)
  note E = response_iteration_frame [OF o(2) cl_response(1,2)]
  have q: "queue_ok (outgoing_ogw_requests e')" "queue_ok (incoming_ogw_responses e')" using eng_okD(1) [OF E(1)] by (simp_all add: te_ok_def)
  have "gwn_inv (fst client) ep (s, gateway_sees e' g, qs @ ns, rs @ [r])"
    unfolding gateway_sees_def using cl_response(3,4) q E(2) l by (intro gwn_shared [of _ _ s g]) (simp_all add: client_inv_def)
  then show ?case using E(1) o(1) cl_response(3) E(3) [OF o(3)] by (auto simp: client_inv_def gateway_sees_def)
qed

lemma trading_steps_inv: "trading_step\<^sup>*\<^sup>* x y \<Longrightarrow> client_inv client ep x \<Longrightarrow> client_inv client ep y"
  by (induct rule: rtranclp_induct) (auto intro: trading_step_inv)

abbreviation account_of :: "ClientConfig \<Rightarrow> Account" where
  "account_of c \<equiv> (cc_client_id c, \<lambda>t. risk_cfg (tickerConfig c t))"

lemma client_begin_inv:
  assumes b: "client_begin cap n1 n2 n3 z1 z2 z3 c ep fd = Some x" and v: "validateClientConfig getIfaceIP c = None"
  shows "client_inv (account_of c) ep x"
proof -
  obtain q1 q2 q3 e s s' g where q: "LFQueue_new z1 n1 = Some q1" "LFQueue_new z2 n2 = Some q2" "LFQueue_new z3 n3 = Some q3"
    and e: "TradeEngine_new (cc_client_id c) (strategyType c) (tickerConfig c) q1 q2 q3 = Some e" and s: "TCPSocket_new cap = Some s"
    and g: "gateway_start fd 0 (s, OrderGateway_new (cc_client_id c) ep q1 q2) = Some (s', g)"
    and x: "x = (e\<lparr>order_session := Some True\<rparr>, s', g, [], [])"
    using b by (auto simp: client_begin_def bind_Some_conv OrderGateway_new_def)
  have "gateway_begin cap n1 n2 z1 z2 (cc_client_id c) ep fd = Some (s', g, [], [])" using q s g by (simp add: gateway_begin_def)
  from gateway_begin_inv [OF this] have G: "gwn_inv (cc_client_id c) ep (s', g, [], [])" .
  have qe: "queue_empty q1" "queue_empty q2" "queue_empty q3"
    using queue_new_ok [OF q(1)] queue_new_ok [OF q(2)] queue_new_ok [OF q(3)] by (simp_all add: queue_empty_def)
  then have st: "trade_start (cc_client_id c) (strategyType c) (tickerConfig c) e" using validated_starts [OF v qe] e by auto
  have ok: "eng_ok (account_of c) False [] e" by (rule trade_start_ok [OF st])
  have "te_ok (account_of c) (e\<lparr>order_session := Some True\<rparr>)" using eng_okD(1) [OF ok] by (simp add: te_ok_def)
  then have ok': "eng_ok (account_of c) False [] (e\<lparr>order_session := Some True\<rparr>)" using ok by (simp add: eng_ok_False)
  have gq: "outgoing_requests g = q1" "incoming_responses g = q2"
    using g by (auto simp: gateway_start_def Let_def OrderGateway_new_def split: prod.splits if_splits)
  have eq: "outgoing_ogw_requests e = q1" "incoming_ogw_responses e = q2" "reconciled e" "last_response_id e = 0" "position_keeper e = PositionKeeper_new"
    using e by (auto simp: TradeEngine_new_def bind_Some_conv)
  then have "account_inv [] (e\<lparr>order_session := Some True\<rparr>)"
    by (simp add: account_inv_def position_of_def PositionKeeper_new_def PositionInfo_default_def)
  then show ?thesis using G ok' gq eq qe by (simp add: x client_inv_def queue_empty_def)
qed

end
