(* ===== verification/FIFO_Sequencer.thy ===== *)
theory FIFO_Sequencer
  imports LF_Queue Messages Tcp_Socket "HOL-Library.Multiset"
begin

text \<open>
  \<^verbatim>\<open>src/exchange/order_server/fifo_sequencer.h\<close>: the staging area between the connections and the matching queue. A
  round sorts what is staged by receive time, keeping the order of equal times, and hands over as much as the queue
  takes; the rest stays. \<open>std::stable_sort\<close> is \<open>sort_key\<close> of the library, which is stable. \<open>staged\<close> is the valid
  part of the array. The queue is an argument, logging and measuring are left out.
\<close>

definition ME_MAX_PENDING_REQUESTS :: nat where [limits]: "ME_MAX_PENDING_REQUESTS = 1024"

record RecvTimeClientRequest =
  recv_time :: int
  recv_request :: MEClientRequest

record FIFOSequencer =
  pending_client_requests :: "RecvTimeClientRequest list"
  pending_size :: nat

definition FIFOSequencer_new :: FIFOSequencer where
  "FIFOSequencer_new = \<lparr>pending_client_requests =
     replicate ME_MAX_PENDING_REQUESTS \<lparr>recv_time = 0, recv_request = MEClientRequest_default\<rparr>, pending_size = 0\<rparr>"

definition addClientRequest :: "int \<Rightarrow> MEClientRequest \<Rightarrow> FIFOSequencer \<Rightarrow> bool \<times> FIFOSequencer" where
  "addClientRequest rx_time request f =
     (if pending_size f \<ge> length (pending_client_requests f) then (False, f)
      else (True, f\<lparr>pending_client_requests := (pending_client_requests f)[pending_size f :=
                \<lparr>recv_time = rx_time, recv_request = request\<rparr>], pending_size := pending_size f + 1\<rparr>))"

definition fifo_canAccept :: "FIFOSequencer \<Rightarrow> bool" where
  "fifo_canAccept f \<longleftrightarrow> pending_size f < length (pending_client_requests f)"

definition fifo_pending :: "FIFOSequencer \<Rightarrow> nat" where
  "fifo_pending f = pending_size f"

text \<open>The sort of the valid part, and the loop over it: how many requests the queue took.\<close>

definition sort_pending :: "FIFOSequencer \<Rightarrow> FIFOSequencer" where
  "sort_pending f = (if pending_size f > 1 then f\<lparr>pending_client_requests :=
     sort_key recv_time (take (pending_size f) (pending_client_requests f)) @
     drop (pending_size f) (pending_client_requests f)\<rparr> else f)"

fun push_pending :: "RecvTimeClientRequest list \<Rightarrow> nat \<Rightarrow> MEClientRequest LFQueue \<Rightarrow> nat \<times> MEClientRequest LFQueue" where
  "push_pending [] i q = (i, q)"
| "push_pending (x # xs) i q = (let (ok, q) = try_push (recv_request x) q in if ok then push_pending xs (i + 1) q else (i, q))"

definition sequenceAndPublish :: "FIFOSequencer \<Rightarrow> MEClientRequest LFQueue \<Rightarrow> FIFOSequencer \<times> MEClientRequest LFQueue" where
  "sequenceAndPublish f q =
     (if pending_size f = 0 then (f, q)
      else let f = sort_pending f;
               (i, q) = push_pending (take (pending_size f) (pending_client_requests f)) 0 q
        in if i < pending_size f then
             (f\<lparr>pending_client_requests := (if i > 0 then
                  write_at 0 (drop i (take (pending_size f) (pending_client_requests f))) (pending_client_requests f)
                else pending_client_requests f), pending_size := pending_size f - i\<rparr>, q)
           else (f\<lparr>pending_size := 0\<rparr>, q))"

subsection \<open>The staged requests\<close>

definition staged :: "FIFOSequencer \<Rightarrow> RecvTimeClientRequest list" where
  "staged f = take (pending_size f) (pending_client_requests f)"

definition fifo_ok :: "FIFOSequencer \<Rightarrow> bool" where
  "fifo_ok f \<longleftrightarrow> length (pending_client_requests f) = ME_MAX_PENDING_REQUESTS \<and> pending_size f \<le> ME_MAX_PENDING_REQUESTS"

lemma FIFOSequencer_new_ok: "fifo_ok FIFOSequencer_new" "staged FIFOSequencer_new = []"
  by (simp_all add: FIFOSequencer_new_def fifo_ok_def staged_def)

lemma length_staged: "fifo_ok f \<Longrightarrow> length (staged f) = pending_size f"
  by (simp add: fifo_ok_def staged_def)

lemma addClientRequest_ok:
  assumes "fifo_ok f" "addClientRequest t r f = (ok, f')"
  shows "fifo_ok f'" "ok = fifo_canAccept f" "ok \<Longrightarrow> staged f' = staged f @ [\<lparr>recv_time = t, recv_request = r\<rparr>]" "\<not> ok \<Longrightarrow> f' = f"
  using assms
  by (auto simp: addClientRequest_def fifo_ok_def fifo_canAccept_def staged_def take_Suc_conv_app_nth split: if_splits)

lemma sort_pending_ok:
  assumes "fifo_ok f"
  shows "fifo_ok (sort_pending f)" "staged (sort_pending f) = sort_key recv_time (staged f)"
    "pending_size (sort_pending f) = pending_size f"
proof -
  show "pending_size (sort_pending f) = pending_size f" by (simp add: sort_pending_def)
  show "fifo_ok (sort_pending f)" using assms by (simp add: sort_pending_def fifo_ok_def)
  show "staged (sort_pending f) = sort_key recv_time (staged f)"
  proof (cases "pending_size f > 1")
    case False
    then have "length (staged f) \<le> 1" by (simp add: staged_def)
    then have "sort_key recv_time (staged f) = staged f" by (cases "staged f") auto
    then show ?thesis using False by (simp add: sort_pending_def staged_def)
  qed (use assms in \<open>simp add: sort_pending_def staged_def fifo_ok_def\<close>)
qed

lemma push_pending_ok:
  assumes "queue_ok q" "push_pending xs i q = (j, q')"
  shows "queue_ok q' \<and> length (store q') = length (store q) \<and> i \<le> j \<and> j \<le> i + length xs \<and>
     contents q' = contents q @ map recv_request (take (j - i) xs) \<and>
     (j = i + length xs \<or> length (contents q') = length (store q))"
  using assms
proof (induct xs arbitrary: i q)
  case (Cons x xs)
  obtain ok p where p: "try_push (recv_request x) q = (ok, p)" by (cases "try_push (recv_request x) q")
  note P = push_contents [OF Cons.prems(1) p] lfq.bound [OF Cons.prems(1)]
  show ?case
  proof (cases ok)
    case True
    then have "push_pending xs (i + 1) p = (j, q')" using Cons.prems(2) p by simp
    moreover from this have "i + 1 \<le> j" using Cons.hyps [of p "i + 1"] P by blast
    ultimately show ?thesis using Cons.hyps [of p "i + 1"] P True by (auto simp: take_Cons' Suc_diff_le)
  next
    case False
    then show ?thesis using Cons.prems(2) p P by auto
  qed
qed simp

lemma sequence_ok:
  assumes f: "fifo_ok f" and q: "queue_ok q" and r: "sequenceAndPublish f q = (f', q')"
  shows "\<exists>n \<le> length (staged f). staged f' = drop n (sort_key recv_time (staged f)) \<and>
     contents q' = contents q @ map recv_request (take n (sort_key recv_time (staged f))) \<and>
     (n = length (staged f) \<or> length (contents q') = length (store q))"
    "fifo_ok f'" "queue_ok q'" "length (store q') = length (store q)"
proof -
  let ?s = "sort_key recv_time (staged f)"
  have "(\<exists>n \<le> length (staged f). staged f' = drop n ?s \<and> contents q' = contents q @ map recv_request (take n ?s) \<and>
     (n = length (staged f) \<or> length (contents q') = length (store q))) \<and> fifo_ok f' \<and> queue_ok q' \<and>
     length (store q') = length (store q)"
  proof (cases "pending_size f = 0")
    case True
    then show ?thesis using f q r by (auto simp: sequenceAndPublish_def staged_def)
  next
    case False
    obtain i p where p: "push_pending ?s 0 q = (i, p)" by (cases "push_pending ?s 0 q")
    let ?f = "sort_pending f"
    note S = sort_pending_ok [OF f]
    have len: "length ?s = pending_size f" using length_staged [OF f] by simp
    note P = push_pending_ok [OF q p, unfolded len]
    have t: "take (pending_size ?f) (pending_client_requests ?f) = ?s" using S(2) by (simp add: staged_def)
    show ?thesis
    proof (cases "i < pending_size f")
      case True
      have f': "f' = ?f\<lparr>pending_client_requests := (if i > 0 then write_at 0 (drop i ?s) (pending_client_requests ?f)
          else pending_client_requests ?f), pending_size := pending_size f - i\<rparr>" "q' = p"
        using r False True t p S(3) by (auto simp: sequenceAndPublish_def Let_def)
      have l: "length (pending_client_requests ?f) = ME_MAX_PENDING_REQUESTS" "pending_size f \<le> ME_MAX_PENDING_REQUESTS"
        using S(1,3) f by (auto simp: fifo_ok_def)
      have "staged f' = drop i ?s"
        using t l len S(3) True by (auto simp: f' staged_def write_at_def)
      moreover have "fifo_ok f'" using l len by (auto simp: f' fifo_ok_def)
      ultimately show ?thesis using P True f' length_staged [OF f] by (intro conjI exI [of _ i]) auto
    next
      case gt: False
      then have i: "i = pending_size f" using P by simp
      have f': "f' = ?f\<lparr>pending_size := 0\<rparr>" "q' = p" using r False gt t p S(3) by (auto simp: sequenceAndPublish_def Let_def)
      have "fifo_ok f'" "staged f' = []" using S(1) by (auto simp: f' fifo_ok_def staged_def)
      then show ?thesis using P i f' length_staged [OF f] len by (intro conjI exI [of _ i]) auto
    qed
  qed
  then show "\<exists>n \<le> length (staged f). staged f' = drop n ?s \<and> contents q' = contents q @ map recv_request (take n ?s) \<and>
     (n = length (staged f) \<or> length (contents q') = length (store q))" "fifo_ok f'" "queue_ok q'"
    "length (store q') = length (store q)" by blast+
qed

text \<open>Requests of one kind are neither lost nor repeated, and those staged in time order leave in the order they came.\<close>

lemma sequence_kept:
  assumes f: "fifo_ok f" and q: "queue_ok q" and r: "sequenceAndPublish f q = (f', q')"
  shows "mset (filter P (contents q') @ map recv_request (filter (P \<circ> recv_request) (staged f'))) =
      mset (filter P (contents q) @ map recv_request (filter (P \<circ> recv_request) (staged f)))"
    "set (staged f') \<subseteq> set (staged f)"
proof -
  let ?s = "sort_key recv_time (staged f)" and ?P = "P \<circ> recv_request"
  obtain n where n: "staged f' = drop n ?s" "contents q' = contents q @ map recv_request (take n ?s)"
    using sequence_ok(1) [OF f q r] by blast
  have "mset (filter ?P (take n ?s)) + mset (filter ?P (drop n ?s)) = mset (filter ?P (staged f))"
    by (metis append_take_drop_id filter_append mset_append mset_filter mset_sort)
  then have "image_mset recv_request (mset (filter ?P (take n ?s))) + image_mset recv_request (mset (filter ?P (drop n ?s))) =
      image_mset recv_request (mset (filter ?P (staged f)))" by (metis image_mset_union)
  then show "mset (filter P (contents q') @ map recv_request (filter ?P (staged f'))) =
      mset (filter P (contents q) @ map recv_request (filter ?P (staged f)))"
    unfolding n by (simp add: filter_map)
  show "set (staged f') \<subseteq> set (staged f)" unfolding n using set_drop_subset [of n ?s] by simp
qed

lemma filter_sort_key:
  "sorted (map f (filter P xs)) \<Longrightarrow> filter P (sort_key f xs) = filter P xs"
proof (induct xs)
  case (Cons x xs)
  then show ?case
    by (cases "P x") (auto simp: filter_insort filter_insort_triv insort_is_Cons)
qed simp

lemma sequence_kind:
  assumes f: "fifo_ok f" and q: "queue_ok q" and r: "sequenceAndPublish f q = (f', q')"
    and s: "sorted (map recv_time (filter (P \<circ> recv_request) (staged f)))"
  shows "filter P (contents q') @ map recv_request (filter (P \<circ> recv_request) (staged f')) =
      filter P (contents q) @ map recv_request (filter (P \<circ> recv_request) (staged f))"
    "sorted (map recv_time (filter (P \<circ> recv_request) (staged f')))"
proof -
  let ?s = "sort_key recv_time (staged f)" and ?P = "P \<circ> recv_request"
  obtain n where n: "staged f' = drop n ?s" "contents q' = contents q @ map recv_request (take n ?s)"
    using sequence_ok(1) [OF f q r] by blast
  have "filter ?P (take n ?s) @ filter ?P (drop n ?s) = filter ?P (staged f)"
    using filter_sort_key [OF s] by (metis append_take_drop_id filter_append)
  then show "filter P (contents q') @ map recv_request (filter ?P (staged f')) =
      filter P (contents q) @ map recv_request (filter ?P (staged f))"
    unfolding n by (simp add: filter_map) (metis map_append)
  have "sorted (map recv_time (filter ?P (take n ?s)) @ map recv_time (filter ?P (drop n ?s)))"
    using filter_sort_key [OF s] s by (metis append_take_drop_id filter_append map_append)
  then show "sorted (map recv_time (filter ?P (staged f')))" unfolding n by (simp add: sorted_append)
qed

text \<open>The receive times are wall-clock times, so they can go back; then two requests of one connection change places.\<close>

lemma clock_step_swaps:
  assumes f: "fifo_ok f" and q: "queue_ok q" and r: "sequenceAndPublish f q = (f', q')"
    and st: "staged f = [\<lparr>recv_time = 5, recv_request = a\<rparr>, \<lparr>recv_time = 4, recv_request = b\<rparr>]"
    and room: "length (contents q) + 2 \<le> length (store q)"
  shows "contents q' = contents q @ [b, a]"
proof -
  obtain n where n: "n \<le> length (staged f)" "contents q' = contents q @ map recv_request (take n (sort_key recv_time (staged f)))"
      "n = length (staged f) \<or> length (contents q') = length (store q)"
    using sequence_ok(1) [OF f q r] by blast
  then have "n = 2" using room st by auto
  then show ?thesis using n(2) st by (simp add: numeral_2_eq_2)
qed

lemma max_pending_pos: "0 < ME_MAX_PENDING_REQUESTS"
  by (simp add: limits)

lemma small_queue: "\<exists>q. LFQueue_new z 4 = Some q"
proof -
  have "has_single_bit 4 \<and> \<not> 4 > SIZE_MAX div 2" by code_simp
  then show ?thesis by (simp add: LFQueue_new_def checkedCapacity_queue_def)
qed

text \<open>C23: a round of the sequencer hands the longest prefix the matching queue has room for, in the order of the receive
  times, equal times in the order of arrival, and keeps exactly the rest for the next round: nothing is lost or
  handed over twice.\<close>

theorem sequencer_round:
  assumes "fifo_ok f" "queue_ok q" "sequenceAndPublish f q = (f', q')"
  shows "\<exists>published. contents q' = contents q @ map recv_request published \<and>
     sorted (map recv_time (published @ staged f')) \<and> mset (published @ staged f') = mset (staged f) \<and>
     (\<forall>t. filter (\<lambda>x. recv_time x = t) (published @ staged f') = filter (\<lambda>x. recv_time x = t) (staged f)) \<and>
     (staged f' = [] \<or> length (contents q') = length (store q'))"
proof -
  let ?s = "sort_key recv_time (staged f)"
  obtain n where n: "staged f' = drop n ?s" "contents q' = contents q @ map recv_request (take n ?s)"
      "n = length (staged f) \<or> length (contents q') = length (store q)"
    using sequence_ok(1) [OF assms] by blast
  then show ?thesis using sequence_ok(4) [OF assms]
    by (intro exI [of _ "take n ?s"]) (auto simp: sort_key_stable)
qed

lemma sequencer_round_witness:
  "\<exists>f q f' q' published. staged f = [\<lparr>recv_time = 5, recv_request = MEClientRequest_default\<rparr>] \<and>
     sequenceAndPublish f q = (f', q') \<and> contents q' = contents q @ map recv_request published \<and>
     mset (published @ staged f') = mset (staged f)"
proof -
  obtain q where q: "LFQueue_new MEClientRequest_default 4 = Some q"
    using small_queue [of MEClientRequest_default] by (elim exE)
  define f where "f = snd (addClientRequest 5 MEClientRequest_default FIFOSequencer_new)"
  have a: "addClientRequest 5 MEClientRequest_default FIFOSequencer_new = (True, f)"
    using max_pending_pos by (simp add: f_def addClientRequest_def FIFOSequencer_new_def)
  note A = addClientRequest_ok [OF FIFOSequencer_new_ok(1) a]
  obtain f' q' where r: "sequenceAndPublish f q = (f', q')" by (cases "sequenceAndPublish f q")
  have st: "staged f = [\<lparr>recv_time = 5, recv_request = MEClientRequest_default\<rparr>]" using A(3) FIFOSequencer_new_ok(2) by simp
  obtain published where "contents q' = contents q @ map recv_request published" "mset (published @ staged f') = mset (staged f)"
    using sequencer_round [OF A(1) _ r] queue_new_ok [OF q] by blast
  with st r show ?thesis by blast
qed

end
