(* ===== verification/Tcp_Server.thy ===== *)
theory Tcp_Server
  imports Tcp_Socket Types
begin

text \<open>
  \<^verbatim>\<open>src/common/tcp_server.h\<close> and \<^verbatim>\<open>tcp_server.cpp\<close>: the listener and its accepted connections. A \<open>TCPSocket*\<close> is an index
  into \<open>tcp_conns\<close>, and index 0 is the listening socket, the only one without a receive callback. What \<open>epoll_wait\<close> and
  \<open>accept\<close> return are arguments. The owner's callback works on the server and on the owner's own state.

  The locale \<open>server_owner\<close> extends the contract of one connection to all of them.
\<close>

definition TCPBufferSize :: nat where [limits]: "TCPBufferSize = 1024 * 1024"

record TCPServer =
  epoll_fd :: int
  tcp_conns :: "TCPSocket list"
  receive_sockets :: "nat list"
  send_sockets :: "nat list"

definition TCPServer_new :: "TCPServer option" where
  "TCPServer_new = do {
     listener \<leftarrow> TCPSocket_new TCPBufferSize;
     Some \<lparr>epoll_fd = - 1, tcp_conns = [listener], receive_sockets = [], send_sockets = []\<rparr> }"

definition set_conn :: "nat \<Rightarrow> TCPSocket \<Rightarrow> TCPServer \<Rightarrow> TCPServer" where
  "set_conn i s t = t\<lparr>tcp_conns := (tcp_conns t)[i := s]\<rparr>"

text \<open>\<open>efd\<close> is the result of \<open>epoll_create\<close>, \<open>fd\<close> and \<open>err\<close> that of \<open>createSocket\<close>, \<open>added\<close> that of \<open>epoll_ctl\<close>; \<open>None\<close> is a
  failed \<open>ASSERT\<close>.\<close>

definition tcp_listen :: "int \<Rightarrow> int \<Rightarrow> int \<Rightarrow> bool \<Rightarrow> TCPServer \<Rightarrow> TCPServer option" where
  "tcp_listen efd fd err added t =
     (let t = t\<lparr>epoll_fd := efd\<rparr> in
      if efd < 0 then None
      else let (fd, l) = tcp_connect fd err (tcp_conns t ! 0); t = set_conn 0 l t in
        if fd < 0 \<or> \<not> added then None else Some t)"

definition pendingBytes :: "TCPServer \<Rightarrow> nat" where
  "pendingBytes t = sum_list (map (\<lambda>i. pending_bytes (tcp_conns t ! i)) (receive_sockets t))"

fun flush_conns :: "(nat \<Rightarrow> nat \<Rightarrow> IoResult) \<Rightarrow> nat list \<Rightarrow> TCPServer \<Rightarrow> TCPServer" where
  "flush_conns out [] t = t"
| "flush_conns out (i # is) t = flush_conns out is
     (if pending_bytes (tcp_conns t ! i) > 0 then set_conn i (snd (flushSend (out i) (tcp_conns t ! i))) t else t)"

definition server_flushSend :: "(nat \<Rightarrow> nat \<Rightarrow> IoResult) \<Rightarrow> TCPServer \<Rightarrow> TCPServer" where
  "server_flushSend out t = flush_conns out (receive_sockets t) t"

subsection \<open>New connections\<close>

record EpollEvent =
  ev_socket :: nat
  ev_in :: bool
  ev_out :: bool
  ev_err :: bool

definition note_receive :: "nat \<Rightarrow> TCPServer \<Rightarrow> TCPServer" where
  "note_receive i t = (if i \<in> set (receive_sockets t) then t else t\<lparr>receive_sockets := receive_sockets t @ [i]\<rparr>)"

definition note_send :: "nat \<Rightarrow> TCPServer \<Rightarrow> TCPServer" where
  "note_send i t = (if i \<in> set (send_sockets t) then t else t\<lparr>send_sockets := send_sockets t @ [i]\<rparr>)"

fun poll_events :: "EpollEvent list \<Rightarrow> bool \<times> TCPServer \<Rightarrow> bool \<times> TCPServer" where
  "poll_events [] (new, t) = (new, t)"
| "poll_events (e # es) (new, t) =
     (if ev_in e \<and> ev_socket e = 0 then poll_events es (True, t)
      else let t = (if ev_in e then note_receive (ev_socket e) t else t);
               t = (if ev_out e then note_send (ev_socket e) t else t);
               t = (if ev_err e then note_receive (ev_socket e) t else t)
        in poll_events es (new, t))"

text \<open>The descriptors \<open>accept\<close> returns until it fails, each with the success of the calls that set it up.\<close>

fun accept_loop :: "(int \<times> bool) list \<Rightarrow> TCPServer \<Rightarrow> TCPServer option" where
  "accept_loop [] t = Some t"
| "accept_loop ((fd, ok) # rs) t =
     (if length (receive_sockets t) \<ge> ME_MAX_NUM_CLIENTS then accept_loop rs t
      else if \<not> ok then None
      else do {
        s \<leftarrow> TCPSocket_new TCPBufferSize;
        let i = length (tcp_conns t);
        accept_loop rs (note_receive i (t\<lparr>tcp_conns := tcp_conns t @ [s\<lparr>socket_fd := fd\<rparr>]\<rparr>)) })"

definition server_poll :: "EpollEvent list \<Rightarrow> (int \<times> bool) list \<Rightarrow> TCPServer \<Rightarrow> TCPServer option" where
  "server_poll events accepts t =
     (let max_events = min 1024 (1 + length (receive_sockets t));
          (new, t) = poll_events (take max_events events) (False, t)
      in if new then accept_loop accepts t else Some t)"

subsection \<open>Traffic\<close>

type_synonym 'st on_conn = "nat \<Rightarrow> int \<Rightarrow> TCPServer \<times> 'st \<Rightarrow> (TCPServer \<times> 'st) option"

text \<open>The callback of connection \<open>i\<close>, as the connection sees it.\<close>

definition conn_cb :: "'st on_conn \<Rightarrow> nat \<Rightarrow> (TCPServer \<times> 'st) on_recv" where
  "conn_cb cb i time = (\<lambda>(s, t, st).
     if i = 0 then Some (s, t, st)
     else map_option (\<lambda>(t, st). (tcp_conns t ! i, t, st)) (cb i time (set_conn i s t, st)))"

definition conn_io :: "'st on_conn \<Rightarrow> (nat \<Rightarrow> IoResult) \<Rightarrow> (nat \<Rightarrow> RecvResult) \<Rightarrow> nat \<Rightarrow> TCPServer \<times> 'st \<Rightarrow>
    (TCPServer \<times> 'st) option" where
  "conn_io cb out inp i = (\<lambda>(t, st). map_option (\<lambda>(r, s, t, st). (set_conn i s t, st))
     (sendAndRecv (conn_cb cb i) out inp (tcp_conns t ! i, t, st)))"

fun conns_io :: "'st on_conn \<Rightarrow> (nat \<Rightarrow> nat \<Rightarrow> IoResult) \<Rightarrow> (nat \<Rightarrow> nat \<Rightarrow> RecvResult) \<Rightarrow> nat list \<Rightarrow> TCPServer \<times> 'st \<Rightarrow>
    (TCPServer \<times> 'st) option" where
  "conns_io cb out inp [] x = Some x"
| "conns_io cb out inp (i # is) x = Option.bind (conn_io cb (out i) (inp i) i x) (conns_io cb out inp is)"

text \<open>\<open>fin\<close> is the callback at the end of a round.\<close>

definition server_sendAndRecv :: "'st on_conn \<Rightarrow> (TCPServer \<times> 'st \<Rightarrow> TCPServer \<times> 'st) \<Rightarrow> (nat \<Rightarrow> nat \<Rightarrow> IoResult) \<Rightarrow>
    (nat \<Rightarrow> nat \<Rightarrow> RecvResult) \<Rightarrow> TCPServer \<times> 'st \<Rightarrow> (TCPServer \<times> 'st) option" where
  "server_sendAndRecv cb fin out inp x = map_option fin (conns_io cb out inp (receive_sockets (fst x)) x)"

subsection \<open>Connections are registered once and stay\<close>

definition conns_ok :: "TCPServer \<Rightarrow> bool" where
  "conns_ok t \<longleftrightarrow> tcp_conns t \<noteq> [] \<and> set (receive_sockets t) \<subseteq> {..<length (tcp_conns t)} \<and> distinct (receive_sockets t) \<and>
     (\<forall>i < length (tcp_conns t). sock_ok (tcp_conns t ! i) \<and> length (outbound_data (tcp_conns t ! i)) = TCPBufferSize)"

lemma set_conn_simps [simp]:
  "length (tcp_conns (set_conn i s t)) = length (tcp_conns t)" "receive_sockets (set_conn i s t) = receive_sockets t"
  "send_sockets (set_conn i s t) = send_sockets t" "epoll_fd (set_conn i s t) = epoll_fd t"
  "j \<noteq> i \<Longrightarrow> tcp_conns (set_conn i s t) ! j = tcp_conns t ! j"
  "i < length (tcp_conns t) \<Longrightarrow> tcp_conns (set_conn i s t) ! i = s"
  "set_conn i s (set_conn i s' t) = set_conn i s t" "set_conn i (tcp_conns t ! i) t = t"
  by (simp_all add: set_conn_def)

lemma conns_ok_set_conn:
  "conns_ok t \<Longrightarrow> sock_ok s \<Longrightarrow> length (outbound_data s) = TCPBufferSize \<Longrightarrow> conns_ok (set_conn i s t)"
  by (cases "i < length (tcp_conns t)") (auto simp: conns_ok_def set_conn_def nth_list_update)

lemma conns_ok_note:
  "conns_ok t \<Longrightarrow> i < length (tcp_conns t) \<Longrightarrow> conns_ok (note_receive i t)" "conns_ok t \<Longrightarrow> conns_ok (note_send i t)"
  by (auto simp: conns_ok_def note_receive_def note_send_def)

lemma note_conns [simp]: "tcp_conns (note_receive i t) = tcp_conns t" "tcp_conns (note_send i t) = tcp_conns t"
  by (simp_all add: note_receive_def note_send_def)

lemma poll_events_ok:
  "conns_ok t \<Longrightarrow> \<forall>e \<in> set es. ev_socket e < length (tcp_conns t) \<Longrightarrow>
     conns_ok (snd (poll_events es (new, t))) \<and> tcp_conns (snd (poll_events es (new, t))) = tcp_conns t"
proof (induct es arbitrary: new t)
  case (Cons e es)
  have i: "ev_socket e < length (tcp_conns t)" using Cons.prems(2) by simp
  define t1 where "t1 = (if ev_in e then note_receive (ev_socket e) t else t)"
  define t2 where "t2 = (if ev_out e then note_send (ev_socket e) t1 else t1)"
  define t3 where "t3 = (if ev_err e then note_receive (ev_socket e) t2 else t2)"
  have c: "tcp_conns t1 = tcp_conns t" "tcp_conns t2 = tcp_conns t" "tcp_conns t3 = tcp_conns t"
    by (simp_all add: t1_def t2_def t3_def)
  have "conns_ok t1" using Cons.prems(1) i by (simp add: t1_def conns_ok_note)
  then have "conns_ok t2" by (simp add: t2_def conns_ok_note)
  then have "conns_ok t3" using i c by (simp add: t3_def conns_ok_note)
  moreover have "poll_events (e # es) (new, t) = (if ev_in e \<and> ev_socket e = 0 then poll_events es (True, t) else poll_events es (new, t3))"
    by (simp add: t1_def t2_def t3_def Let_def)
  ultimately show ?case using Cons.hyps [of t True] Cons.hyps [of t3 new] Cons.prems c by simp
qed simp

text \<open>\<open>accept\<close> only appends fresh connections.\<close>

definition fresh_conn :: "TCPSocket \<Rightarrow> bool" where
  "fresh_conn s \<longleftrightarrow> sock_ok s \<and> length (outbound_data s) = TCPBufferSize \<and> out_stream s = [] \<and> wire_in s = [] \<and> wire_out s = [] \<and>
     parsed_in s = [] \<and> healthy s"

lemma accept_loop_ok:
  assumes "accept_loop rs t = Some t'" "conns_ok t"
  shows "conns_ok t' \<and> (\<exists>new. tcp_conns t' = tcp_conns t @ new \<and> (\<forall>s \<in> set new. fresh_conn s))"
  using assms
proof (induct rs t rule: accept_loop.induct)
  case (2 fd ok rs t)
  show ?case
  proof (cases "length (receive_sockets t) \<ge> ME_MAX_NUM_CLIENTS")
    case True then show ?thesis using 2 by simp
  next
    case False
    then have ok: "ok" using "2.prems"(1) by (simp split: if_splits)
    obtain s where s: "TCPSocket_new TCPBufferSize = Some s" using "2.prems"(1) False ok by (auto simp: bind_Some_conv)
    let ?s = "s\<lparr>socket_fd := fd\<rparr>" and ?i = "length (tcp_conns t)"
    let ?t = "t\<lparr>tcp_conns := tcp_conns t @ [?s]\<rparr>"
    have f: "fresh_conn ?s" using TCPSocket_new_ok [OF s]
      by (simp add: fresh_conn_def sock_ok_def out_stream_def in_bytes_def healthy_def)
    have "conns_ok ?t" using "2.prems"(2) f unfolding conns_ok_def fresh_conn_def
      by (auto simp: nth_append less_Suc_eq)
    then have c: "conns_ok (note_receive ?i ?t)" by (intro conns_ok_note) simp_all
    have "accept_loop rs (note_receive ?i ?t) = Some t'" using "2.prems"(1) False ok s by (simp add: Let_def)
    then obtain new where n: "conns_ok t'" "tcp_conns t' = tcp_conns t @ ?s # new" "\<forall>s \<in> set new. fresh_conn s"
      using "2.hyps"(2) [OF False _ s refl] ok c by auto
    then show ?thesis using f by (intro conjI exI [of _ "?s # new"]) auto
  qed
qed (auto intro: exI [of _ "[]"])

text \<open>The number of accepted connections is bounded.\<close>

lemma accept_loop_bound:
  assumes "accept_loop rs t = Some t'" "length (receive_sockets t) \<le> ME_MAX_NUM_CLIENTS"
  shows "length (receive_sockets t') \<le> ME_MAX_NUM_CLIENTS"
  using assms
proof (induct rs t rule: accept_loop.induct)
  case (2 fd ok rs t)
  show ?case
  proof (cases "length (receive_sockets t) \<ge> ME_MAX_NUM_CLIENTS")
    case True then show ?thesis using 2 by simp
  next
    case False
    then have ok: "ok" using "2.prems"(1) by (simp split: if_splits)
    obtain s where s: "TCPSocket_new TCPBufferSize = Some s" using "2.prems"(1) False ok by (auto simp: bind_Some_conv)
    then show ?thesis using 2 False ok by (simp add: Let_def note_receive_def split: if_splits)
  qed
qed simp

lemma server_poll_ok:
  assumes "server_poll es rs t = Some t'" "conns_ok t" "\<forall>e \<in> set es. ev_socket e < length (tcp_conns t)"
  shows "conns_ok t' \<and> (\<exists>new. tcp_conns t' = tcp_conns t @ new \<and> (\<forall>s \<in> set new. fresh_conn s))"
proof -
  let ?es = "take (min 1024 (1 + length (receive_sockets t))) es"
  obtain n u where p: "poll_events ?es (False, t) = (n, u)" by (cases "poll_events ?es (False, t)")
  have "\<forall>e \<in> set ?es. ev_socket e < length (tcp_conns t)" using assms(3) by (auto dest: in_set_takeD)
  then have u: "conns_ok u" "tcp_conns u = tcp_conns t" using poll_events_ok [OF assms(2), of ?es False] p by simp_all
  then show ?thesis using accept_loop_ok [of rs u t'] assms(1) p
    by (auto simp: server_poll_def Let_def split: if_splits intro: exI [of _ "[]"])
qed

subsection \<open>The contract with the owner\<close>

text \<open>The time of the last packet of a connection, and what a callback leaves alone.\<close>

definition conn_time :: "TCPServer \<Rightarrow> nat \<Rightarrow> int" where
  "conn_time t i = last_receive_time (tcp_conns t ! i)"

definition same_frame :: "TCPServer \<Rightarrow> TCPServer \<Rightarrow> bool" where
  "same_frame t t' \<longleftrightarrow> receive_sockets t' = receive_sockets t \<and> length (tcp_conns t') = length (tcp_conns t) \<and>
     conn_time t' = conn_time t"

locale server_owner =
  fixes cb :: "'st on_conn" and I :: "TCPServer \<Rightarrow> 'st \<Rightarrow> bool" and m :: bool
  assumes cb_inv: "I t st \<Longrightarrow> i < length (tcp_conns t) \<Longrightarrow> i \<noteq> 0 \<Longrightarrow> healthy (tcp_conns t ! i) \<Longrightarrow>
      cb i (conn_time t i) (t, st) = Some (t', st') \<Longrightarrow> I t' st'"
    and cb_frame: "I t st \<Longrightarrow> i < length (tcp_conns t) \<Longrightarrow> i \<noteq> 0 \<Longrightarrow> healthy (tcp_conns t ! i) \<Longrightarrow>
      cb i (conn_time t i) (t, st) = Some (t', st') \<Longrightarrow> same_frame t t'"
    and io_inv: "I t st \<Longrightarrow> i < length (tcp_conns t) \<Longrightarrow> transport m (tcp_conns t ! i) s \<Longrightarrow> I (set_conn i s t) st"
begin

text \<open>One connection among the others: the rest of the server is state of its owner.\<close>

definition conn_inv :: "nat \<Rightarrow> nat list \<Rightarrow> nat \<Rightarrow> (nat \<Rightarrow> int) \<Rightarrow> TCPSocket \<Rightarrow> TCPServer \<times> 'st \<Rightarrow> bool" where
  "conn_inv i R L T s = (\<lambda>(t, st). I (set_conn i s t) st \<and> i < length (tcp_conns t) \<and> receive_sockets t = R \<and>
     length (tcp_conns t) = L \<and> (\<forall>j. j \<noteq> i \<longrightarrow> conn_time t j = T j))"

lemma conn_cb_step:
  assumes "conn_inv i R L T s (t, st)" "healthy s" "conn_cb cb i (last_receive_time s) (s, t, st) = Some (s', t', st')"
  shows "conn_inv i R L T s' (t', st') \<and> last_receive_time s' = last_receive_time s"
proof (cases "i = 0")
  case True then show ?thesis using assms by (simp add: conn_cb_def)
next
  case False
  let ?t = "set_conn i s t"
  have I: "I ?t st" "i < length (tcp_conns ?t)" "healthy (tcp_conns ?t ! i)" "conn_time ?t i = last_receive_time s"
    using assms(1,2) by (simp_all add: conn_inv_def conn_time_def)
  have c: "cb i (conn_time ?t i) (?t, st) = Some (t', st')" and s': "s' = tcp_conns t' ! i"
    using assms(3) False I(4) by (auto simp: conn_cb_def)
  have "I t' st'" "same_frame ?t t'" using cb_inv [OF I(1,2) False I(3) c] cb_frame [OF I(1,2) False I(3) c] by simp_all
  moreover have "conn_time ?t j = conn_time t j" if "j \<noteq> i" for j using that by (simp add: conn_time_def)
  moreover have "conn_time t' i = last_receive_time s'" by (simp add: s' conn_time_def)
  ultimately show ?thesis using assms(1) I(4) by (auto simp: conn_inv_def same_frame_def s')
qed

sublocale conn: socket_owner "conn_cb cb i" "conn_inv i R L T" m for i R L T
proof
  fix s x s' x'
  assume "conn_inv i R L T s x" "healthy s" "conn_cb cb i (last_receive_time s) (s, x) = Some (s', x')"
  then show "conn_inv i R L T s' x'" "last_receive_time s' = last_receive_time s"
    using conn_cb_step [of i R L T s "fst x" "snd x" s' "fst x'" "snd x'"] by simp_all
next
  fix s x s'
  assume a: "conn_inv i R L T s x" "transport m s s'"
  obtain t st where x: "x = (t, st)" by (cases x)
  have "I (set_conn i s' (set_conn i s t)) st"
    using a io_inv [of "set_conn i s t" st i s'] by (auto simp: conn_inv_def x simp del: set_conn_simps(7))
  then show "conn_inv i R L T s' x" using a by (simp add: conn_inv_def x)
qed

lemma conn_io_inv:
  assumes "I t st" "i < length (tcp_conns t)" "m \<Longrightarrow> clock_ok 8 (conn_time t i) inp" "conn_io cb out inp i (t, st) = Some (t', st')"
  shows "I t' st' \<and> receive_sockets t' = receive_sockets t \<and> length (tcp_conns t') = length (tcp_conns t) \<and>
     (\<forall>j. j \<noteq> i \<longrightarrow> conn_time t' j = conn_time t j)"
proof -
  let ?J = "conn_inv i (receive_sockets t) (length (tcp_conns t)) (conn_time t)"
  obtain r s u where s: "sendAndRecv (conn_cb cb i) out inp (tcp_conns t ! i, t, st) = Some (r, s, u, st')" "t' = set_conn i s u"
    using assms(4) by (auto simp: conn_io_def)
  have "?J (tcp_conns t ! i) (t, st)" using assms(1,2) by (simp add: conn_inv_def)
  then have "?J s (u, st')" using conn.sendAndRecv_inv [OF _ _ s(1)] assms(3) by (simp add: conn_time_def)
  moreover have "conn_time (set_conn i s u) j = conn_time u j" if "j \<noteq> i" for j using that by (simp add: conn_time_def)
  ultimately show ?thesis by (simp add: conn_inv_def s(2))
qed

lemma conns_io_inv:
  assumes "I t st" "set is \<subseteq> {..<length (tcp_conns t)}" "distinct is"
    "\<And>i. i \<in> set is \<Longrightarrow> m \<Longrightarrow> clock_ok 8 (conn_time t i) (inp i)" "conns_io cb out inp is (t, st) = Some (t', st')"
  shows "I t' st' \<and> receive_sockets t' = receive_sockets t \<and> length (tcp_conns t') = length (tcp_conns t)"
  using assms
proof (induct "is" arbitrary: t st)
  case (Cons i "is")
  obtain u st1 where u: "conn_io cb (out i) (inp i) i (t, st) = Some (u, st1)" "conns_io cb out inp is (u, st1) = Some (t', st')"
    using Cons.prems(5) by (auto simp: bind_Some_conv)
  have U: "I u st1 \<and> receive_sockets u = receive_sockets t \<and> length (tcp_conns u) = length (tcp_conns t) \<and>
      (\<forall>j. j \<noteq> i \<longrightarrow> conn_time u j = conn_time t j)"
    using Cons.prems by (intro conn_io_inv [OF _ _ _ u(1)]) auto
  have "clock_ok 8 (conn_time u j) (inp j)" if "j \<in> set is" m for j
    using Cons.prems(3) Cons.prems(4) [of j] that U by auto
  then show ?case using Cons.hyps [of u st1] Cons.prems(2,3) U u(2) by simp
qed simp

end

end
