(* ===== verification/Order_Server.thy ===== *)
theory Order_Server
  imports FIFO_Sequencer Tcp_Server Wire Critical_Journal
begin

text \<open>
  \<^verbatim>\<open>src/exchange/order_server/order_server.h\<close> and \<^verbatim>\<open>order_server.cpp\<close>: the network thread of the exchange. It cuts the bytes of
  each connection into request frames, checks version, identity, session epoch and sequence number, stages accepted
  requests in the sequencer, answers the others with a rejection, and sends the responses of the matching engine.

  The per-client tables and the two connection maps are grouped in the record \<open>Sessions\<close>. Arrays indexed by the client
  are functions; every access is behind the test of the client id. A failed \<open>ASSERT\<close>, \<open>FATAL\<close> or journal is \<open>None\<close>.
  \<open>sys\<close> are the results of the system calls on the journal. Logging and measuring are left out.
\<close>

subsection \<open>State\<close>

record Sessions =
  cid_next_outgoing_seq_num :: "nat \<Rightarrow> u64"
  cid_next_exp_seq_num :: "nat \<Rightarrow> u64"
  cid_tcp_socket :: "nat \<Rightarrow> nat option"
  cid_session_epoch :: "nat \<Rightarrow> u64"
  cid_session_unknown :: "nat \<Rightarrow> bool"
  anonymous_sequences :: "nat \<rightharpoonup> u64"
  socket_client :: "nat \<rightharpoonup> ClientId"

record OrderServer =
  sessions :: Sessions
  fifo_sequencer :: FIFOSequencer
  client_requests :: "MEClientRequest LFQueue"
  outgoing_responses :: "MEClientResponse LFQueue"
  accepted_frames :: u64
  rejected_frames :: u64
  server_audit :: "Journal option"
  accepting :: bool
  quiesced :: bool
  server_run :: bool
  stop_deadline :: int

definition Sessions_new :: Sessions where
  "Sessions_new = \<lparr>cid_next_outgoing_seq_num = (\<lambda>_. 1), cid_next_exp_seq_num = (\<lambda>_. 1), cid_tcp_socket = (\<lambda>_. None),
     cid_session_epoch = (\<lambda>_. 0), cid_session_unknown = (\<lambda>_. False), anonymous_sequences = Map.empty,
     socket_client = Map.empty\<rparr>"

definition OrderServer_new :: "MEClientRequest LFQueue \<Rightarrow> MEClientResponse LFQueue \<Rightarrow> Journal option \<Rightarrow> OrderServer" where
  "OrderServer_new requests responses jn = \<lparr>sessions = Sessions_new, fifo_sequencer = FIFOSequencer_new,
     client_requests = requests, outgoing_responses = responses, accepted_frames = 0, rejected_frames = 0,
     server_audit = jn, accepting = True, quiesced = False, server_run = False, stop_deadline = 2 ^ 63 - 1\<rparr>"

text \<open>The arguments of \<open>start\<close> are the results of the calls \<open>listen\<close> makes.\<close>

definition server_start :: "int \<Rightarrow> int \<Rightarrow> int \<Rightarrow> bool \<Rightarrow> TCPServer \<times> OrderServer \<Rightarrow> (TCPServer \<times> OrderServer) option" where
  "server_start efd fd err added = (\<lambda>(t, os).
     map_option (\<lambda>t. (t, os\<lparr>server_run := True\<rparr>)) (tcp_listen efd fd err added t))"

definition server_stop :: "int \<Rightarrow> OrderServer \<Rightarrow> OrderServer" where
  "server_stop now os = os\<lparr>accepting := False, stop_deadline := now + 5 * 10 ^ 9, server_run := False\<rparr>"

subsection \<open>Rejections\<close>

text \<open>\<open>try_emplace(socket, 1)\<close>: the number of an anonymous connection, entered when it is missing.\<close>

definition anonymous_number :: "nat \<Rightarrow> Sessions \<Rightarrow> u64 \<times> Sessions" where
  "anonymous_number i ss = (case anonymous_sequences ss i of Some n \<Rightarrow> (n, ss)
     | None \<Rightarrow> (1, ss\<lparr>anonymous_sequences := (anonymous_sequences ss)(i \<mapsto> 1)\<rparr>))"

text \<open>The reference \<open>sequence\<close>: its value, and its increment.\<close>

definition reject_number :: "nat \<Rightarrow> Sessions \<Rightarrow> u64 \<times> Sessions" where
  "reject_number i ss = (case socket_client ss i of Some c \<Rightarrow> (cid_next_outgoing_seq_num ss (unat c), ss)
     | None \<Rightarrow> anonymous_number i ss)"

definition next_number :: "nat \<Rightarrow> u64 \<Rightarrow> Sessions \<Rightarrow> Sessions" where
  "next_number i n ss = (case socket_client ss i of
     Some c \<Rightarrow> ss\<lparr>cid_next_outgoing_seq_num := (cid_next_outgoing_seq_num ss)(unat c := n + 1)\<rparr>
   | None \<Rightarrow> ss\<lparr>anonymous_sequences := (anonymous_sequences ss)(i \<mapsto> n + 1)\<rparr>)"

definition rejection :: "nat \<Rightarrow> MEClientRequest \<Rightarrow> RejectReason \<Rightarrow> Sessions \<Rightarrow> MEClientResponse" where
  "rejection i r reason ss =
     (let response = mk_response Resp_REJECTED (rq_client_id r) (rq_ticker_id r) (rq_order_id r) OrderId_INVALID
        (rq_side r) (rq_price r) 0 0 reason
      in case socket_client ss i of Some c \<Rightarrow> response\<lparr>rs_client_id := c\<rparr> | None \<Rightarrow> response)"

definition server_audit_with :: "(Journal \<Rightarrow> Journal option) \<Rightarrow> OrderServer \<Rightarrow> OrderServer option" where
  "server_audit_with f os = (case server_audit os of None \<Rightarrow> Some os
     | Some j \<Rightarrow> map_option (\<lambda>j. os\<lparr>server_audit := Some j\<rparr>) (f j))"

definition reject :: "(nat \<Rightarrow> WriteResult) \<Rightarrow> nat \<Rightarrow> OMClientRequest \<Rightarrow> RejectReason \<Rightarrow> TCPServer \<times> OrderServer \<Rightarrow>
    (bool \<times> TCPServer \<times> OrderServer) option" where
  "reject sys i request reason = (\<lambda>(t, os).
     let response = rejection i (omq_request request) reason (sessions os);
         (n, ss) = reject_number i (sessions os);
         os = os\<lparr>sessions := ss\<rparr>;
         bytes = encode_response \<lparr>oms_seq_num = n, oms_response = response, oms_session_epoch = omq_session_epoch request\<rparr>;
         (result, s) = tcp_send bytes (tcp_conns t ! i);
         t = set_conn i s t
     in if result = Full then Some (False, t, os)
        else if result \<noteq> Accepted then None
        else do {
          os \<leftarrow> server_audit_with (journal_response sys response) os;
          Some (True, t, os\<lparr>sessions := next_number i n ss, rejected_frames := rejected_frames os + 1\<rparr>) })"

subsection \<open>Admission of a request\<close>

definition bound_elsewhere :: "nat \<Rightarrow> ClientId \<Rightarrow> Sessions \<Rightarrow> bool" where
  "bound_elsewhere i c ss = (case socket_client ss i of None \<Rightarrow> False | Some b \<Rightarrow> b \<noteq> c)"

text \<open>The take-over of a dead session by a query on a new connection.\<close>

definition take_over :: "nat \<Rightarrow> OMClientRequest \<Rightarrow> Sessions \<Rightarrow> Sessions" where
  "take_over i request ss = (let c = unat (rq_client_id (omq_request request)) in
     ss\<lparr>cid_tcp_socket := (cid_tcp_socket ss)(c := Some i),
        socket_client := (socket_client ss)(i \<mapsto> rq_client_id (omq_request request)),
        cid_session_unknown := (cid_session_unknown ss)(c := True),
        cid_next_exp_seq_num := (cid_next_exp_seq_num ss)(c := omq_seq_num request),
        cid_next_outgoing_seq_num := (cid_next_outgoing_seq_num ss)(c := 1)\<rparr>)"

definition check_owner :: "(nat \<Rightarrow> bool) \<Rightarrow> nat \<Rightarrow> OMClientRequest \<Rightarrow> Sessions \<Rightarrow> RejectReason \<times> Sessions" where
  "check_owner alive i request ss =
     (let r = omq_request request; c = unat (rq_client_id r) in
      if bound_elsewhere i (rq_client_id r) ss then (Rej_IDENTITY, ss)
      else case cid_tcp_socket ss c of
        None \<Rightarrow> (Rej_NONE, ss)
      | Some owner \<Rightarrow>
          if owner = i then (Rej_NONE, ss)
          else if \<not> alive owner \<and> rq_type r = Req_QUERY \<and> omq_session_epoch request = cid_session_epoch ss c
            then (Rej_NONE, take_over i request ss)
          else (Rej_IDENTITY, ss))"

definition check_session :: "OMClientRequest \<Rightarrow> Sessions \<Rightarrow> RejectReason" where
  "check_session request ss =
     (let r = omq_request request; c = unat (rq_client_id r); epoch = omq_session_epoch request in
      if cid_tcp_socket ss c \<noteq> None \<and> epoch \<noteq> cid_session_epoch ss c then Rej_SESSION
      else if epoch = 0 then Rej_SESSION
      else if omq_seq_num request \<noteq> cid_next_exp_seq_num ss c then Rej_SEQUENCE
      else if cid_session_unknown ss c \<and> rq_type r \<noteq> Req_QUERY then Rej_SESSION
      else Rej_NONE)"

definition admission :: "(nat \<Rightarrow> bool) \<Rightarrow> nat \<Rightarrow> OMClientRequest \<Rightarrow> Sessions \<Rightarrow> RejectReason \<times> Sessions" where
  "admission alive i request ss =
     (if unat (rq_client_id (omq_request request)) \<ge> ME_MAX_NUM_CLIENTS then (Rej_INVALID_ID, ss)
      else let (reason, ss) = check_owner alive i request ss in
        (if reason = Rej_NONE then check_session request ss else reason, ss))"

definition bind_session :: "nat \<Rightarrow> OMClientRequest \<Rightarrow> Sessions \<Rightarrow> Sessions" where
  "bind_session i request ss =
     (let c = unat (rq_client_id (omq_request request)) in
      if cid_tcp_socket ss c = None then
        (let ss = ss\<lparr>cid_tcp_socket := (cid_tcp_socket ss)(c := Some i),
                  cid_session_epoch := (cid_session_epoch ss)(c := omq_session_epoch request),
                  socket_client := (socket_client ss)(i \<mapsto> rq_client_id (omq_request request))\<rparr>;
             (n, ss) = anonymous_number i ss
         in ss\<lparr>cid_next_outgoing_seq_num := (cid_next_outgoing_seq_num ss)(c := n)\<rparr>)
      else ss)"

definition advance :: "OMClientRequest \<Rightarrow> OrderServer \<Rightarrow> OrderServer" where
  "advance request os = (let c = unat (rq_client_id (omq_request request)); ss = sessions os in
     os\<lparr>sessions := ss\<lparr>cid_next_exp_seq_num := (cid_next_exp_seq_num ss)(c := cid_next_exp_seq_num ss c + 1)\<rparr>\<rparr>)"

text \<open>A request that passes all checks; \<open>False\<close> is the \<open>break\<close> that keeps its frame in the buffer.\<close>

definition stage_request :: "(nat \<Rightarrow> WriteResult) \<Rightarrow> nat \<Rightarrow> int \<Rightarrow> OMClientRequest \<Rightarrow> OrderServer \<Rightarrow> (bool \<times> OrderServer) option" where
  "stage_request sys i rx_time request os =
     (if \<not> fifo_canAccept (fifo_sequencer os) then Some (False, os)
      else do {
        os \<leftarrow> server_audit_with (journal_request sys ''RECEIVED'' (omq_request request)) os;
        let (ok, f) = addClientRequest rx_time (omq_request request) (fifo_sequencer os);
        if \<not> ok then None
        else let os = os\<lparr>fifo_sequencer := f, sessions := bind_session i request (sessions os)\<rparr>;
                 os = advance request os
          in Some (True, os\<lparr>accepted_frames := accepted_frames os + 1\<rparr>) })"

text \<open>One frame of the loop in \<open>recvCallback\<close>. A frame that does not decode leaves the default message.\<close>

definition OMClientRequest_default :: OMClientRequest where
  "OMClientRequest_default = \<lparr>omq_seq_num = 0, omq_request = MEClientRequest_default, omq_session_epoch = 0\<rparr>"

definition handle_request :: "(nat \<Rightarrow> WriteResult) \<Rightarrow> nat \<Rightarrow> int \<Rightarrow> OMClientRequest \<Rightarrow> TCPServer \<times> OrderServer \<Rightarrow>
    (bool \<times> TCPServer \<times> OrderServer) option" where
  "handle_request sys i rx_time request = (\<lambda>(t, os).
     let (reason, ss) = admission (\<lambda>j. healthy (tcp_conns t ! j)) i request (sessions os);
         os = os\<lparr>sessions := ss\<rparr>;
         invalid = validate (omq_request request)
     in if reason = Rej_NONE \<and> invalid \<noteq> Rej_NONE then do {
          (ok, t, os) \<leftarrow> reject sys i request invalid (t, os\<lparr>sessions := bind_session i request ss\<rparr>);
          Some (if ok then (True, t, advance request os) else (False, t, os)) }
        else if reason \<noteq> Rej_NONE then reject sys i request reason (t, os)
        else map_option (\<lambda>(ok, os). (ok, t, os)) (stage_request sys i rx_time request os))"

definition handle_frame :: "(nat \<Rightarrow> WriteResult) \<Rightarrow> nat \<Rightarrow> int \<Rightarrow> u8 list \<Rightarrow> TCPServer \<times> OrderServer \<Rightarrow>
    (bool \<times> TCPServer \<times> OrderServer) option" where
  "handle_frame sys i rx_time bytes x = do {
     request \<leftarrow> decode_request bytes;
     case request of
       None \<Rightarrow> reject sys i OMClientRequest_default Rej_VERSION x
     | Some request \<Rightarrow> handle_request sys i rx_time request x }"

text \<open>The loop over the complete frames; \<open>n\<close> bounds their number.\<close>

fun frame_loop :: "(nat \<Rightarrow> WriteResult) \<Rightarrow> nat \<Rightarrow> int \<Rightarrow> nat \<Rightarrow> nat \<Rightarrow> TCPServer \<times> OrderServer \<Rightarrow>
    (nat \<times> TCPServer \<times> OrderServer) option" where
  "frame_loop sys i rx_time 0 consumed x = Some (consumed, x)"
| "frame_loop sys i rx_time (Suc n) consumed x =
     (let s = tcp_conns (fst x) ! i in
      if consumed + RequestSize \<le> next_rcv_valid_index s then do {
        (ok, x) \<leftarrow> handle_frame sys i rx_time (drop consumed (inbound_data s)) x;
        if ok then frame_loop sys i rx_time n (consumed + RequestSize) x else Some (consumed, x) }
      else Some (consumed, x))"

definition server_recvCallback :: "(nat \<Rightarrow> WriteResult) \<Rightarrow> OrderServer on_conn" where
  "server_recvCallback sys i rx_time x =
     (if \<not> accepting (snd x) then Some x
      else do {
        (consumed, t, os) \<leftarrow> frame_loop sys i rx_time (next_rcv_valid_index (tcp_conns (fst x) ! i)) 0 x;
        Some (set_conn i (consume consumed (tcp_conns t ! i)) t, os) })"

definition recvFinishedCallback :: "OrderServer \<Rightarrow> OrderServer" where
  "recvFinishedCallback os = (let (f, q) = sequenceAndPublish (fifo_sequencer os) (client_requests os) in
     os\<lparr>fifo_sequencer := f, client_requests := q\<rparr>)"

subsection \<open>The loop of the network thread\<close>

definition quiesce_check :: "OrderServer \<Rightarrow> OrderServer" where
  "quiesce_check os = (if \<not> accepting os \<and> fifo_pending (fifo_sequencer os) = 0 then os\<lparr>quiesced := True\<rparr> else os)"

text \<open>One response at the head of the queue; \<open>False\<close> is the \<open>break\<close> on a full send buffer.\<close>

definition send_response :: "MEClientResponse \<Rightarrow> TCPServer \<times> OrderServer \<Rightarrow> (bool \<times> TCPServer \<times> OrderServer) option" where
  "send_response r = (\<lambda>(t, os).
     let c = unat (rs_client_id r); ss = sessions os in
     if c \<ge> ME_MAX_NUM_CLIENTS then None
     else case cid_tcp_socket ss c of
       None \<Rightarrow> None
     | Some i \<Rightarrow>
         let n = cid_next_outgoing_seq_num ss c;
             frame = encode_response \<lparr>oms_seq_num = n, oms_response = r, oms_session_epoch = cid_session_epoch ss c\<rparr>;
             (status, s) = tcp_send frame (tcp_conns t ! i);
             t = set_conn i s t
         in if status = Full then Some (False, t, os)
            else if status \<noteq> Accepted then None
            else map_option (\<lambda>q. (True, t, os\<lparr>outgoing_responses := q,
                   sessions := ss\<lparr>cid_next_outgoing_seq_num := (cid_next_outgoing_seq_num ss)(c := n + 1)\<rparr>\<rparr>))
                 (pop (outgoing_responses os)))"

partial_function (option) response_loop :: "bool \<Rightarrow> TCPServer \<times> OrderServer \<Rightarrow> (bool \<times> TCPServer \<times> OrderServer) option" where
  "response_loop queued x = (case peek (outgoing_responses (snd x)) of
     None \<Rightarrow> Some (queued, x)
   | Some r \<Rightarrow> do {
       (ok, x) \<leftarrow> send_response r x;
       if ok then response_loop True x else Some (queued, x) })"

text \<open>The condition of the loop, and one iteration. \<open>now\<close> is the monotonic clock, \<open>es\<close> and \<open>acc\<close> what \<open>epoll_wait\<close> and
  \<open>accept\<close> return, \<open>out\<close>, \<open>inp\<close> and \<open>out2\<close> the results of the socket calls of each connection.\<close>

definition server_active :: "TCPServer \<times> OrderServer \<Rightarrow> bool" where
  "server_active = (\<lambda>(t, os). server_run os \<or> peek (outgoing_responses os) \<noteq> None \<or> pendingBytes t \<noteq> 0)"

definition server_io :: "(nat \<Rightarrow> WriteResult) \<Rightarrow> (nat \<Rightarrow> nat \<Rightarrow> IoResult) \<Rightarrow> (nat \<Rightarrow> nat \<Rightarrow> RecvResult) \<Rightarrow> TCPServer \<times> OrderServer \<Rightarrow>
    (TCPServer \<times> OrderServer) option" where
  "server_io sys = server_sendAndRecv (server_recvCallback sys) (\<lambda>(t, os). (t, recvFinishedCallback os))"

definition server_round :: "(nat \<Rightarrow> WriteResult) \<Rightarrow> int \<Rightarrow> EpollEvent list \<Rightarrow> (int \<times> bool) list \<Rightarrow> (nat \<Rightarrow> nat \<Rightarrow> IoResult) \<Rightarrow>
    (nat \<Rightarrow> nat \<Rightarrow> RecvResult) \<Rightarrow> (nat \<Rightarrow> nat \<Rightarrow> IoResult) \<Rightarrow> TCPServer \<times> OrderServer \<Rightarrow> (TCPServer \<times> OrderServer) option" where
  "server_round sys now es acc out inp out2 x =
     (if \<not> server_run (snd x) \<and> now > stop_deadline (snd x) then None
      else do {
        t \<leftarrow> (if accepting (snd x) then server_poll es acc (fst x) else Some (fst x));
        (t, os) \<leftarrow> server_io sys out inp (t, snd x);
        (queued, t, os) \<leftarrow> response_loop False (t, quiesce_check os);
        Some (if queued then (server_flushSend out2 t, os) else (t, os)) })"

subsection \<open>Shutting down\<close>

text \<open>\<open>quiesce\<close> on the main thread clears \<open>accepting_\<close> and waits: \<open>seen n\<close> and \<open>clock n\<close> are what its \<open>n\<close>-th test of
  \<open>quiesced_\<close> and reading of the clock give. The result tells whether it returned or failed its assertion; \<open>None\<close> is a
  wait that is not over after \<open>fuel\<close> tests.\<close>

definition quiesce_begin :: "OrderServer \<Rightarrow> OrderServer" where
  "quiesce_begin os = os\<lparr>accepting := False\<rparr>"

fun quiesce_wait :: "(nat \<Rightarrow> bool) \<Rightarrow> (nat \<Rightarrow> int) \<Rightarrow> int \<Rightarrow> nat \<Rightarrow> nat \<Rightarrow> bool option" where
  "quiesce_wait seen clock deadline n 0 = None"
| "quiesce_wait seen clock deadline n (Suc fuel) =
     (if seen n then Some True
      else if \<not> clock n < deadline then Some False
      else quiesce_wait seen clock deadline (n + 1) fuel)"

end
