(* ===== verification/Order_Sessions.thy ===== *)
theory Order_Sessions
  imports Order_Server
begin

text \<open>
  The session tables of the order server. \<open>sess_inv\<close> relates them to what the connections look like from outside: how
  many there are, which are alive and what has been written to each. It says that a connection speaks for at most one
  client, that of two connections of one client only the current one can be alive, and that what a connection carries
  is a sequence of response frames numbered from 1 (until the session is taken over by a query).
\<close>

definition tainted :: "Sessions \<Rightarrow> nat \<Rightarrow> bool" where
  "tainted ss i = (case socket_client ss i of Some c \<Rightarrow> cid_session_unknown ss (unat c) | None \<Rightarrow> False)"

definition number_of :: "Sessions \<Rightarrow> nat \<Rightarrow> u64" where
  "number_of ss i = (case socket_client ss i of Some c \<Rightarrow> cid_next_outgoing_seq_num ss (unat c)
     | None \<Rightarrow> (case anonymous_sequences ss i of None \<Rightarrow> 1 | Some n \<Rightarrow> n))"

text \<open>A byte stream of whole response frames, numbered from 1 up to before \<open>next\<close>.\<close>

definition frames_of :: "u8 list \<Rightarrow> OMClientResponse list \<Rightarrow> bool" where
  "frames_of bs ms \<longleftrightarrow> bs = concat (map encode_response ms)"

definition numbered :: "OMClientResponse list \<Rightarrow> bool" where
  "numbered ms \<longleftrightarrow> map oms_seq_num ms = map of_nat [1..<Suc (length ms)]"

definition binding_inv :: "nat \<Rightarrow> (nat \<Rightarrow> bool) \<Rightarrow> Sessions \<Rightarrow> bool" where
  "binding_inv n alive ss \<longleftrightarrow>
     (\<forall>c i. cid_tcp_socket ss c = Some i \<longrightarrow> c < ME_MAX_NUM_CLIENTS \<and> 0 < i \<and> i < n \<and> socket_client ss i = Some (of_nat c) \<and>
        cid_session_epoch ss c \<noteq> 0) \<and>
     (\<forall>i c. socket_client ss i = Some c \<longrightarrow> unat c < ME_MAX_NUM_CLIENTS \<and> 0 < i \<and> i < n \<and>
        (\<exists>j. cid_tcp_socket ss (unat c) = Some j \<and> (j \<noteq> i \<longrightarrow> \<not> alive i \<and> cid_session_unknown ss (unat c)))) \<and>
     (\<forall>i. anonymous_sequences ss i \<noteq> None \<longrightarrow> i < n)"

definition stream_inv :: "nat \<Rightarrow> (nat \<Rightarrow> u8 list) \<Rightarrow> Sessions \<Rightarrow> bool" where
  "stream_inv n out ss \<longleftrightarrow> (\<forall>i. 0 < i \<and> i < n \<longrightarrow> (\<exists>ms. frames_of (out i) ms \<and>
     (tainted ss i \<or> numbered ms \<and> number_of ss i = of_nat (Suc (length ms)))))"

definition sess_inv :: "nat \<Rightarrow> (nat \<Rightarrow> bool) \<Rightarrow> (nat \<Rightarrow> u8 list) \<Rightarrow> Sessions \<Rightarrow> bool" where
  "sess_inv n alive out ss \<longleftrightarrow> binding_inv n alive ss \<and> stream_inv n out ss"

lemma binding_tcp:
  "binding_inv n alive ss \<Longrightarrow> cid_tcp_socket ss c = Some i \<Longrightarrow> c < ME_MAX_NUM_CLIENTS \<and> 0 < i \<and> i < n \<and>
     socket_client ss i = Some (of_nat c) \<and> cid_session_epoch ss c \<noteq> 0"
  by (simp add: binding_inv_def)

lemma binding_client:
  "binding_inv n alive ss \<Longrightarrow> socket_client ss i = Some c \<Longrightarrow> unat c < ME_MAX_NUM_CLIENTS \<and> 0 < i \<and> i < n \<and>
     (\<exists>j. cid_tcp_socket ss (unat c) = Some j \<and> (j \<noteq> i \<longrightarrow> \<not> alive i \<and> cid_session_unknown ss (unat c)))"
  by (simp add: binding_inv_def)

lemma unat_of_nat_client [simp]: "c < ME_MAX_NUM_CLIENTS \<Longrightarrow> unat (of_nat c :: ClientId) = c"
  by (simp add: limits unat_of_nat)

lemma of_nat_unat_client [simp]: "(of_nat (unat c) :: ClientId) = c"
  by simp

lemma client_eq_iff: "(c :: ClientId) = d \<longleftrightarrow> unat c = unat d"
  by (rule word_unat_eq_iff)

subsection \<open>The start, the transport and new connections\<close>

lemma sess_inv_new: "sess_inv 1 alive out Sessions_new"
  by (simp add: sess_inv_def binding_inv_def stream_inv_def Sessions_new_def)

lemma sess_inv_more:
  assumes "sess_inv n alive out ss" "n \<le> n'" "\<And>i. 0 < i \<Longrightarrow> i < n \<Longrightarrow> alive' i \<Longrightarrow> alive i"
    "\<And>i. 0 < i \<Longrightarrow> i < n \<Longrightarrow> out' i = out i" "\<And>i. n \<le> i \<Longrightarrow> i < n' \<Longrightarrow> out' i = []"
  shows "sess_inv n' alive' out' ss"
proof -
  have b: "binding_inv n alive ss" and s: "stream_inv n out ss" using assms(1) by (simp_all add: sess_inv_def)
  have "binding_inv n' alive' ss" using b assms(2,3) unfolding binding_inv_def
    by (meson less_le_trans)
  moreover have "\<exists>ms. frames_of (out' i) ms \<and> (tainted ss i \<or> numbered ms \<and> number_of ss i = of_nat (Suc (length ms)))"
    if i: "0 < i" "i < n'" for i
  proof (cases "i < n")
    case True then show ?thesis using s i assms(4) by (simp add: stream_inv_def)
  next
    case False
    have "socket_client ss i = None" using binding_client [OF b, of i] False by (cases "socket_client ss i") auto
    moreover have "anonymous_sequences ss i = None" using b False unfolding binding_inv_def by blast
    ultimately have "number_of ss i = 1" by (simp add: number_of_def)
    then show ?thesis using assms(5) [of i] False i
      by (intro exI [of _ "[]"]) (simp add: frames_of_def numbered_def)
  qed
  ultimately show ?thesis by (simp add: sess_inv_def stream_inv_def)
qed

lemma sess_inv_mono:
  assumes "sess_inv n alive out ss" "\<And>i. 0 < i \<Longrightarrow> i < n \<Longrightarrow> alive' i \<Longrightarrow> alive i" "\<And>i. 0 < i \<Longrightarrow> i < n \<Longrightarrow> out' i = out i"
  shows "sess_inv n alive' out' ss"
  using assms by (rule sess_inv_more [OF _ order_refl]) auto

subsection \<open>Numbers\<close>

lemma numbered_snoc: "numbered ms \<Longrightarrow> oms_seq_num m = of_nat (Suc (length ms)) \<Longrightarrow> numbered (ms @ [m])"
  by (simp add: numbered_def)

lemma frames_snoc: "frames_of bs ms \<Longrightarrow> frames_of (bs @ encode_response m) (ms @ [m])"
  by (simp add: frames_of_def)

text \<open>Writing one more frame with the number of the connection, and counting it.\<close>

lemma stream_inv_write:
  assumes s: "stream_inv n out ss" and m: "oms_seq_num m = number_of ss i"
    and eq: "\<And>j. j \<noteq> i \<Longrightarrow> tainted ss' j = tainted ss j \<and> (tainted ss j \<or> number_of ss' j = number_of ss j)"
      "tainted ss' i = tainted ss i" "number_of ss' i = number_of ss i + 1"
  shows "stream_inv n (out(i := out i @ encode_response m)) ss'"
  unfolding stream_inv_def
proof (intro allI impI)
  fix j assume j: "0 < j \<and> j < n"
  obtain ms where ms: "frames_of (out j) ms" "tainted ss j \<or> numbered ms \<and> number_of ss j = of_nat (Suc (length ms))"
    using s j unfolding stream_inv_def by blast
  show "\<exists>ms. frames_of ((out(i := out i @ encode_response m)) j) ms \<and>
      (tainted ss' j \<or> numbered ms \<and> number_of ss' j = of_nat (Suc (length ms)))"
  proof (cases "j = i")
    case True
    then show ?thesis using ms m eq(2,3)
      by (intro exI [of _ "ms @ [m]"]) (auto simp: frames_snoc numbered_snoc)
  next
    case False
    then show ?thesis using ms eq(1) [of j] by auto
  qed
qed

lemma stream_inv_same:
  assumes "stream_inv n out ss" "\<And>j. tainted ss' j = tainted ss j \<or> tainted ss' j" "\<And>j. tainted ss' j \<or> number_of ss' j = number_of ss j"
  shows "stream_inv n out ss'"
  using assms unfolding stream_inv_def by metis

lemma anonymous_number_ok:
  assumes "anonymous_number i ss = (n, ss')"
  shows "number_of ss' j = number_of ss j" "tainted ss' = tainted ss" "socket_client ss' = socket_client ss"
    "cid_tcp_socket ss' = cid_tcp_socket ss" "cid_session_epoch ss' = cid_session_epoch ss"
    "cid_session_unknown ss' = cid_session_unknown ss" "cid_next_exp_seq_num ss' = cid_next_exp_seq_num ss"
    "cid_next_outgoing_seq_num ss' = cid_next_outgoing_seq_num ss"
    "socket_client ss i = None \<Longrightarrow> n = number_of ss i" "anonymous_sequences ss' i = Some n"
    "j \<noteq> i \<Longrightarrow> anonymous_sequences ss' j = anonymous_sequences ss j"
  using assms by (auto simp: anonymous_number_def number_of_def tainted_def fun_eq_iff split: option.splits if_splits)

lemma binding_inv_cong:
  assumes "binding_inv n alive ss" "socket_client ss' = socket_client ss" "cid_tcp_socket ss' = cid_tcp_socket ss"
    "cid_session_epoch ss' = cid_session_epoch ss" "cid_session_unknown ss' = cid_session_unknown ss"
    "\<And>i. anonymous_sequences ss' i \<noteq> None \<Longrightarrow> i < n"
  shows "binding_inv n alive ss'"
  using assms by (auto simp: binding_inv_def)

subsection \<open>The operations on the tables\<close>

text \<open>What the operations of a rejection leave alone.\<close>

definition same_tables :: "Sessions \<Rightarrow> Sessions \<Rightarrow> bool" where
  "same_tables ss ss' \<longleftrightarrow> socket_client ss' = socket_client ss \<and> cid_tcp_socket ss' = cid_tcp_socket ss \<and>
     cid_session_epoch ss' = cid_session_epoch ss \<and> cid_session_unknown ss' = cid_session_unknown ss \<and>
     cid_next_exp_seq_num ss' = cid_next_exp_seq_num ss"

lemma same_tables_tainted: "same_tables ss ss' \<Longrightarrow> tainted ss' = tainted ss"
  by (rule ext) (simp add: same_tables_def tainted_def split: option.split)

lemma same_tables_trans: "same_tables s t \<Longrightarrow> same_tables t u \<Longrightarrow> same_tables s u"
  by (simp add: same_tables_def)

lemma binding_inv_same:
  "binding_inv n alive ss \<Longrightarrow> same_tables ss ss' \<Longrightarrow> (\<And>i. anonymous_sequences ss' i \<noteq> None \<Longrightarrow> i < n) \<Longrightarrow> binding_inv n alive ss'"
  by (rule binding_inv_cong) (auto simp: same_tables_def)

lemma reject_number_ok:
  assumes "reject_number i ss = (n, ss')"
  shows "n = number_of ss i" "number_of ss' j = number_of ss j" "same_tables ss ss'"
    "cid_next_outgoing_seq_num ss' = cid_next_outgoing_seq_num ss"
    "j \<noteq> i \<Longrightarrow> anonymous_sequences ss' j = anonymous_sequences ss j"
proof -
  have "n = number_of ss i \<and> number_of ss' j = number_of ss j \<and> same_tables ss ss' \<and>
      cid_next_outgoing_seq_num ss' = cid_next_outgoing_seq_num ss \<and>
      (j \<noteq> i \<longrightarrow> anonymous_sequences ss' j = anonymous_sequences ss j)"
  proof (cases "socket_client ss i")
    case None
    then have a: "anonymous_number i ss = (n, ss')" using assms by (simp add: reject_number_def)
    show ?thesis using anonymous_number_ok [OF a] None by (simp add: same_tables_def)
  next
    case (Some c)
    then show ?thesis using assms by (auto simp: reject_number_def number_of_def same_tables_def)
  qed
  then show "n = number_of ss i" "number_of ss' j = number_of ss j" "same_tables ss ss'"
    "cid_next_outgoing_seq_num ss' = cid_next_outgoing_seq_num ss"
    "j \<noteq> i \<Longrightarrow> anonymous_sequences ss' j = anonymous_sequences ss j" by simp_all
qed

lemma sess_inv_reject_number:
  assumes "sess_inv n alive out ss" "i < n" "reject_number i ss = (k, ss')"
  shows "sess_inv n alive out ss'"
proof -
  note R = reject_number_ok [OF assms(3)]
  have b: "binding_inv n alive ss" and s: "stream_inv n out ss" using assms(1) by (simp_all add: sess_inv_def)
  have "j < n" if "anonymous_sequences ss' j \<noteq> None" for j
    using that R(5) [of j] b assms(2) unfolding binding_inv_def by (cases "j = i") auto
  then have "binding_inv n alive ss'" using binding_inv_same [OF b R(3)] by blast
  moreover have "stream_inv n out ss'"
    using R(2) same_tables_tainted [OF R(3)] by (intro stream_inv_same [OF s]) auto
  ultimately show ?thesis by (simp add: sess_inv_def)
qed

lemma next_number_tables [simp]:
  "socket_client (next_number i n ss) = socket_client ss" "cid_tcp_socket (next_number i n ss) = cid_tcp_socket ss"
  "cid_session_epoch (next_number i n ss) = cid_session_epoch ss"
  "cid_session_unknown (next_number i n ss) = cid_session_unknown ss"
  "cid_next_exp_seq_num (next_number i n ss) = cid_next_exp_seq_num ss"
  by (simp_all add: next_number_def split: option.split)

lemma next_number_same: "same_tables ss (next_number i n ss)"
  by (simp add: same_tables_def)

text \<open>Two connections of one client, the current one among them: the session was taken over.\<close>

lemma binding_two:
  assumes "binding_inv n alive ss" "socket_client ss i = Some c" "socket_client ss j = Some c" "i \<noteq> j"
  shows "tainted ss j"
proof -
  obtain k where "cid_tcp_socket ss (unat c) = Some k" "k \<noteq> i \<longrightarrow> cid_session_unknown ss (unat c)"
    using binding_client [OF assms(1,2)] by auto
  moreover obtain k' where "cid_tcp_socket ss (unat c) = Some k'" "k' \<noteq> j \<longrightarrow> cid_session_unknown ss (unat c)"
    using binding_client [OF assms(1,3)] by auto
  ultimately show ?thesis using assms(3,4) by (auto simp: tainted_def)
qed

lemma sess_inv_next_number:
  assumes inv: "sess_inv n alive out ss" and i: "0 < i" "i < n" and m: "oms_seq_num m = number_of ss i"
    and k: "k = number_of ss i"
  shows "sess_inv n alive (out(i := out i @ encode_response m)) (next_number i k ss)"
proof -
  have b: "binding_inv n alive ss" and s: "stream_inv n out ss" using inv by (simp_all add: sess_inv_def)
  let ?ss = "next_number i k ss"
  have t: "tainted ?ss = tainted ss" by (rule same_tables_tainted [OF next_number_same])
  have "number_of ?ss i = number_of ss i + 1"
    by (auto simp: k next_number_def number_of_def split: option.split)
  moreover have "tainted ss j \<or> number_of ?ss j = number_of ss j" if "j \<noteq> i" for j
  proof (cases "\<exists>c. socket_client ss i = Some c \<and> socket_client ss j = Some c")
    case True then show ?thesis using binding_two [OF b] that by blast
  next
    case False
    then show ?thesis using that by (auto simp: next_number_def number_of_def client_eq_iff split: option.splits)
  qed
  ultimately have "stream_inv n (out(i := out i @ encode_response m)) ?ss"
    using stream_inv_write [OF s m, of ?ss] t by simp
  moreover have "binding_inv n alive ?ss"
  proof (rule binding_inv_same [OF b next_number_same])
    fix j assume "anonymous_sequences ?ss j \<noteq> None"
    then show "j < n" using b i unfolding binding_inv_def
      by (cases "j = i") (auto simp: next_number_def split: option.splits)
  qed
  ultimately show ?thesis by (simp add: sess_inv_def)
qed

text \<open>A response of the engine goes to the current connection of its client.\<close>

lemma sess_inv_response:
  assumes inv: "sess_inv n alive out ss" and c: "cid_tcp_socket ss c = Some i"
    and m: "oms_seq_num m = cid_next_outgoing_seq_num ss c"
  shows "sess_inv n alive (out(i := out i @ encode_response m))
     (ss\<lparr>cid_next_outgoing_seq_num := (cid_next_outgoing_seq_num ss)(c := cid_next_outgoing_seq_num ss c + 1)\<rparr>)"
proof -
  have b: "binding_inv n alive ss" using inv by (simp add: sess_inv_def)
  note B = binding_tcp [OF b c]
  have "number_of ss i = cid_next_outgoing_seq_num ss c" using B by (simp add: number_of_def)
  moreover have "next_number i (cid_next_outgoing_seq_num ss c) ss =
      ss\<lparr>cid_next_outgoing_seq_num := (cid_next_outgoing_seq_num ss)(c := cid_next_outgoing_seq_num ss c + 1)\<rparr>"
    using B by (simp add: next_number_def)
  ultimately show ?thesis using sess_inv_next_number [OF inv, of i m] B m by simp
qed

subsection \<open>Binding a connection to a client\<close>

text \<open>What holds of a request that passes the admission: the connection may speak for the client.\<close>

definition may_speak :: "nat \<Rightarrow> OMClientRequest \<Rightarrow> Sessions \<Rightarrow> bool" where
  "may_speak i m ss \<longleftrightarrow> (let c = rq_client_id (omq_request m) in unat c < ME_MAX_NUM_CLIENTS \<and>
     (socket_client ss i = None \<or> socket_client ss i = Some c) \<and>
     (cid_tcp_socket ss (unat c) = None \<or> cid_tcp_socket ss (unat c) = Some i) \<and> omq_session_epoch m \<noteq> 0)"

lemma sess_inv_take_over:
  assumes inv: "sess_inv n alive out ss" and i: "0 < i" "i < n" and c: "unat (rq_client_id (omq_request m)) < ME_MAX_NUM_CLIENTS"
    and own: "cid_tcp_socket ss (unat (rq_client_id (omq_request m))) = Some k" "k \<noteq> i" "\<not> alive k"
    and ne: "\<not> bound_elsewhere i (rq_client_id (omq_request m)) ss"
  shows "sess_inv n alive out (take_over i m ss)"
proof -
  let ?c = "rq_client_id (omq_request m)" and ?ss = "take_over i m ss"
  have b: "binding_inv n alive ss" and s: "stream_inv n out ss" using inv by (simp_all add: sess_inv_def)
  have sc: "socket_client ?ss = (socket_client ss)(i \<mapsto> ?c)" "cid_tcp_socket ?ss = (cid_tcp_socket ss)(unat ?c := Some i)"
    "cid_session_unknown ?ss = (cid_session_unknown ss)(unat ?c := True)" "cid_session_epoch ?ss = cid_session_epoch ss"
    "anonymous_sequences ?ss = anonymous_sequences ss"
    "cid_next_outgoing_seq_num ?ss = (cid_next_outgoing_seq_num ss)(unat ?c := 1)"
    by (simp_all add: take_over_def Let_def)
  have bi: "socket_client ss i = None \<or> socket_client ss i = Some ?c"
    using ne by (auto simp: bound_elsewhere_def split: option.splits)
  have B: "binding_inv n alive ?ss"
    unfolding binding_inv_def
  proof (intro conjI allI impI)
    fix d j assume d: "cid_tcp_socket ?ss d = Some j"
    show "d < ME_MAX_NUM_CLIENTS" "0 < j" "j < n" "socket_client ?ss j = Some (of_nat d)" "cid_session_epoch ?ss d \<noteq> 0"
    proof -
      have "d < ME_MAX_NUM_CLIENTS \<and> 0 < j \<and> j < n \<and> socket_client ?ss j = Some (of_nat d) \<and> cid_session_epoch ?ss d \<noteq> 0"
      proof (cases "d = unat ?c")
        case True
        then have "j = i" using d by (simp add: sc)
        then show ?thesis unfolding sc \<open>j = i\<close> using True c i binding_tcp [OF b own(1)] by simp
      next
        case False
        then have "cid_tcp_socket ss d = Some j" using d by (simp add: sc)
        note D = binding_tcp [OF b this]
        then have "j \<noteq> i" using bi False by (auto simp: client_eq_iff)
        then show ?thesis using D by (simp add: sc)
      qed
      then show "d < ME_MAX_NUM_CLIENTS" "0 < j" "j < n" "socket_client ?ss j = Some (of_nat d)" "cid_session_epoch ?ss d \<noteq> 0"
        by simp_all
    qed
  next
    fix j d assume d: "socket_client ?ss j = Some d"
    have "unat d < ME_MAX_NUM_CLIENTS \<and> 0 < j \<and> j < n \<and>
        (\<exists>l. cid_tcp_socket ?ss (unat d) = Some l \<and> (l \<noteq> j \<longrightarrow> \<not> alive j \<and> cid_session_unknown ?ss (unat d)))"
    proof (cases "j = i")
      case True then show ?thesis using d c i by (auto simp: sc)
    next
      case False
      then have sd: "socket_client ss j = Some d" using d by (simp add: sc)
      note D = binding_client [OF b sd]
      show ?thesis
      proof (cases "d = ?c")
        case True
        then have "\<not> alive j" using D own by auto
        then show ?thesis using D True by (auto simp: sc)
      next
        case False
        then have "unat d \<noteq> unat ?c" by (simp add: client_eq_iff)
        then show ?thesis using D by (auto simp: sc)
      qed
    qed
    then show "unat d < ME_MAX_NUM_CLIENTS" "0 < j" "j < n"
        "\<exists>l. cid_tcp_socket ?ss (unat d) = Some l \<and> (l \<noteq> j \<longrightarrow> \<not> alive j \<and> cid_session_unknown ?ss (unat d))" by blast+
  next
    fix j assume "anonymous_sequences ?ss j \<noteq> None"
    then show "j < n" using b unfolding binding_inv_def by (simp add: sc)
  qed
  have ti: "tainted ?ss i" by (simp add: tainted_def sc)
  have "tainted ?ss j \<or> tainted ?ss j = tainted ss j \<and> number_of ?ss j = number_of ss j" for j
    by (cases "j = i") (auto simp: ti tainted_def number_of_def sc split: option.split)
  then have "stream_inv n out ?ss" by (intro stream_inv_same [OF s]) blast+
  then show ?thesis using B by (simp add: sess_inv_def)
qed

lemma sess_inv_bind:
  assumes inv: "sess_inv n alive out ss" and i: "0 < i" "i < n" and ok: "may_speak i m ss"
  shows "sess_inv n alive out (bind_session i m ss)" "cid_tcp_socket (bind_session i m ss) (unat (rq_client_id (omq_request m))) = Some i"
    "socket_client (bind_session i m ss) i = Some (rq_client_id (omq_request m))"
proof -
  let ?c = "rq_client_id (omq_request m)"
  have b: "binding_inv n alive ss" and s: "stream_inv n out ss" using inv by (simp_all add: sess_inv_def)
  have c: "unat ?c < ME_MAX_NUM_CLIENTS" "omq_session_epoch m \<noteq> 0" "socket_client ss i = None \<or> socket_client ss i = Some ?c"
    using ok by (auto simp: may_speak_def Let_def)
  have "sess_inv n alive out (bind_session i m ss) \<and> cid_tcp_socket (bind_session i m ss) (unat ?c) = Some i \<and>
      socket_client (bind_session i m ss) i = Some ?c"
  proof (cases "cid_tcp_socket ss (unat ?c) = None")
    case False
    then have o: "cid_tcp_socket ss (unat ?c) = Some i" using ok by (auto simp: may_speak_def Let_def)
    show ?thesis using binding_tcp [OF b o] inv o by (simp add: bind_session_def Let_def)
  next
    case True
    have sn: "socket_client ss j \<noteq> Some ?c" for j using binding_client [OF b, of j ?c] True by auto
    then have none: "socket_client ss i = None" using c(3) by simp
    obtain k u where u: "anonymous_number i (ss\<lparr>cid_tcp_socket := (cid_tcp_socket ss)(unat ?c := Some i),
        cid_session_epoch := (cid_session_epoch ss)(unat ?c := omq_session_epoch m),
        socket_client := (socket_client ss)(i \<mapsto> ?c)\<rparr>) = (k, u)" (is "anonymous_number i ?ss0 = _") by fastforce
    let ?ss = "u\<lparr>cid_next_outgoing_seq_num := (cid_next_outgoing_seq_num u)(unat ?c := k)\<rparr>"
    have bs: "bind_session i m ss = ?ss" using True u by (simp add: bind_session_def Let_def)
    note A = anonymous_number_ok [OF u]
    have k: "k = number_of ss i" using u none by (auto simp: anonymous_number_def number_of_def split: option.splits)
    have sc: "socket_client ?ss = (socket_client ss)(i \<mapsto> ?c)" "cid_tcp_socket ?ss = (cid_tcp_socket ss)(unat ?c := Some i)"
      "cid_session_unknown ?ss = cid_session_unknown ss"
      "cid_session_epoch ?ss = (cid_session_epoch ss)(unat ?c := omq_session_epoch m)"
      "cid_next_outgoing_seq_num ?ss = (cid_next_outgoing_seq_num ss)(unat ?c := k)"
      using A(3-8) by simp_all
    have an: "anonymous_sequences ?ss j = anonymous_sequences ss j" if "j \<noteq> i" for j using A(11) [OF that] by simp
    have B: "binding_inv n alive ?ss"
      unfolding binding_inv_def sc
    proof (intro conjI allI impI)
      fix d j assume d: "((cid_tcp_socket ss)(unat ?c := Some i)) d = Some j"
      have "d < ME_MAX_NUM_CLIENTS \<and> 0 < j \<and> j < n \<and> ((socket_client ss)(i \<mapsto> ?c)) j = Some (of_nat d) \<and>
          ((cid_session_epoch ss)(unat ?c := omq_session_epoch m)) d \<noteq> 0"
      proof (cases "d = unat ?c")
        case True then show ?thesis using d c i by simp
      next
        case False
        then have "cid_tcp_socket ss d = Some j" using d by simp
        note D = binding_tcp [OF b this]
        then have "j \<noteq> i" using none by auto
        then show ?thesis using D False by simp
      qed
      then show "d < ME_MAX_NUM_CLIENTS" "0 < j" "j < n" "((socket_client ss)(i \<mapsto> ?c)) j = Some (of_nat d)"
          "((cid_session_epoch ss)(unat ?c := omq_session_epoch m)) d \<noteq> 0" by simp_all
    next
      fix j d assume d: "((socket_client ss)(i \<mapsto> ?c)) j = Some d"
      have "unat d < ME_MAX_NUM_CLIENTS \<and> 0 < j \<and> j < n \<and>
          (\<exists>l. ((cid_tcp_socket ss)(unat ?c := Some i)) (unat d) = Some l \<and> (l \<noteq> j \<longrightarrow> \<not> alive j \<and> cid_session_unknown ss (unat d)))"
      proof (cases "j = i")
        case True then show ?thesis using d c i by auto
      next
        case False
        then have sd: "socket_client ss j = Some d" using d by simp
        then have "d \<noteq> ?c" using sn by auto
        then have "unat d \<noteq> unat ?c" by (simp add: client_eq_iff)
        then show ?thesis using binding_client [OF b sd] by auto
      qed
      then show "unat d < ME_MAX_NUM_CLIENTS" "0 < j" "j < n"
          "\<exists>l. ((cid_tcp_socket ss)(unat ?c := Some i)) (unat d) = Some l \<and> (l \<noteq> j \<longrightarrow> \<not> alive j \<and> cid_session_unknown ss (unat d))"
        by blast+
    next
      fix j assume "anonymous_sequences ?ss j \<noteq> None"
      then show "j < n" using an [of j] b i unfolding binding_inv_def by (cases "j = i") auto
    qed
    have "tainted ?ss j \<or> tainted ?ss j = tainted ss j \<and> number_of ?ss j = number_of ss j" for j
    proof (cases "j = i")
      case True
      have "number_of ?ss i = k" unfolding number_of_def sc by simp
      then show ?thesis using True k none by (auto simp: tainted_def)
    next
      case False
      have "socket_client ss j = Some d \<Longrightarrow> unat d \<noteq> unat ?c" for d using sn [of j] by (auto simp: client_eq_iff)
      then show ?thesis using an [OF False] False unfolding tainted_def number_of_def sc by (auto split: option.splits)
    qed
    then have "stream_inv n out ?ss" by (intro stream_inv_same [OF s]) blast+
    then show ?thesis using B by (simp add: bs sess_inv_def sc)
  qed
  then show "sess_inv n alive out (bind_session i m ss)" "cid_tcp_socket (bind_session i m ss) (unat ?c) = Some i"
    "socket_client (bind_session i m ss) i = Some ?c" by simp_all
qed

subsection \<open>What is never undone\<close>

definition keeps :: "Sessions \<Rightarrow> Sessions \<Rightarrow> bool" where
  "keeps ss ss' \<longleftrightarrow> (\<forall>k d. socket_client ss k = Some d \<longrightarrow> socket_client ss' k = Some d) \<and>
     (\<forall>d. cid_tcp_socket ss d \<noteq> None \<longrightarrow> cid_tcp_socket ss' d \<noteq> None \<and> cid_session_epoch ss' d = cid_session_epoch ss d) \<and>
     (\<forall>d. cid_session_unknown ss d \<longrightarrow> cid_session_unknown ss' d)"

lemma keeps_refl [simp]: "keeps ss ss"
  by (simp add: keeps_def)

lemma keeps_trans: "keeps s t \<Longrightarrow> keeps t u \<Longrightarrow> keeps s u"
  unfolding keeps_def by metis

lemma same_tables_keeps: "same_tables ss ss' \<Longrightarrow> keeps ss ss'"
  by (simp add: keeps_def same_tables_def)

lemma keeps_outgoing [simp]: "keeps ss (ss\<lparr>cid_next_outgoing_seq_num := f\<rparr>)" "keeps ss (ss\<lparr>cid_next_exp_seq_num := f\<rparr>)"
  by (simp_all add: keeps_def)

lemma keeps_take_over:
  assumes "\<not> bound_elsewhere i (rq_client_id (omq_request m)) ss"
  shows "keeps ss (take_over i m ss)"
  using assms by (auto simp: keeps_def take_over_def Let_def bound_elsewhere_def split: option.splits)

lemma keeps_bind:
  assumes "may_speak i m ss"
  shows "keeps ss (bind_session i m ss)"
  using assms by (auto simp: keeps_def bind_session_def may_speak_def anonymous_number_def Let_def split: option.splits prod.splits)

lemma admission_ok:
  assumes inv: "sess_inv n alive out ss" and i: "0 < i" "i < n" and a: "admission alive i m ss = (reason, ss')"
  shows "sess_inv n alive out ss'" "keeps ss ss'"
    "reason = Rej_NONE \<Longrightarrow> may_speak i m ss' \<and> omq_seq_num m = cid_next_exp_seq_num ss' (unat (rq_client_id (omq_request m)))"
proof -
  let ?c = "rq_client_id (omq_request m)"
  have b: "binding_inv n alive ss" using inv by (simp add: sess_inv_def)
  have "sess_inv n alive out ss' \<and> keeps ss ss' \<and>
      (reason = Rej_NONE \<longrightarrow> may_speak i m ss' \<and> omq_seq_num m = cid_next_exp_seq_num ss' (unat ?c))"
  proof (cases "unat ?c \<ge> ME_MAX_NUM_CLIENTS")
    case True then show ?thesis using a inv by (simp add: admission_def)
  next
    case False
    obtain r1 where o: "check_owner alive i m ss = (r1, ss')" and r: "reason = (if r1 = Rej_NONE then check_session m ss' else r1)"
      using a False by (auto simp: admission_def split: prod.splits)
    have S: "reason = Rej_NONE \<Longrightarrow> r1 = Rej_NONE \<and> omq_session_epoch m \<noteq> 0 \<and> omq_seq_num m = cid_next_exp_seq_num ss' (unat ?c)"
      using r by (auto simp: check_session_def Let_def split: if_splits)
    show ?thesis
    proof (cases "bound_elsewhere i ?c ss")
      case True
      then show ?thesis using o inv S by (auto simp: check_owner_def Let_def)
    next
      case ne: False
      then have bi: "socket_client ss i = None \<or> socket_client ss i = Some ?c"
        by (auto simp: bound_elsewhere_def split: option.splits)
      show ?thesis
      proof (cases "ss' = ss")
        case True
        then have "r1 = Rej_NONE \<Longrightarrow> cid_tcp_socket ss (unat ?c) = None \<or> cid_tcp_socket ss (unat ?c) = Some i"
          using o ne by (auto simp: check_owner_def Let_def take_over_def split: option.splits if_splits
              dest!: arg_cong [where f = cid_tcp_socket] fun_cong [where x = "unat ?c"])
        then show ?thesis using inv True S bi False by (auto simp: may_speak_def Let_def)
      next
        case chg: False
        then obtain k where k: "cid_tcp_socket ss (unat ?c) = Some k" "k \<noteq> i" "\<not> alive k" and t: "ss' = take_over i m ss"
          using o ne by (auto simp: check_owner_def Let_def split: option.splits if_splits)
        have "sess_inv n alive out ss'" unfolding t using sess_inv_take_over [OF inv i _ k ne] False by simp
        moreover have "keeps ss ss'" unfolding t by (rule keeps_take_over [OF ne])
        moreover have "reason = Rej_NONE \<Longrightarrow> may_speak i m ss'"
          using S False by (auto simp: t may_speak_def take_over_def Let_def)
        ultimately show ?thesis using S by blast
      qed
    qed
  qed
  then show "sess_inv n alive out ss'" "keeps ss ss'"
    "reason = Rej_NONE \<Longrightarrow> may_speak i m ss' \<and> omq_seq_num m = cid_next_exp_seq_num ss' (unat ?c)" by blast+
qed

end
