(* ===== verification/Order_Server_Inv.thy ===== *)
theory Order_Server_Inv
  imports Order_Sessions
begin

text \<open>
  The invariant of the order server: every operation of the network thread keeps it, whatever bytes the connections
  deliver. The receive callback is shown to be an owner of its connections (interpretation \<open>srv\<close>), so that the
  invariant holds after a whole round of traffic.
\<close>

definition conn_alive :: "TCPServer \<Rightarrow> nat \<Rightarrow> bool" where
  "conn_alive t j = healthy (tcp_conns t ! j)"

definition conn_out :: "TCPServer \<Rightarrow> nat \<Rightarrow> u8 list" where
  "conn_out t j = out_stream (tcp_conns t ! j)"

definition tables_inv :: "TCPServer \<Rightarrow> OrderServer \<Rightarrow> bool" where
  "tables_inv t os \<longleftrightarrow> sess_inv (length (tcp_conns t)) (conn_alive t) (conn_out t) (sessions os)"

definition queues_inv :: "OrderServer \<Rightarrow> bool" where
  "queues_inv os \<longleftrightarrow> fifo_ok (fifo_sequencer os) \<and> queue_ok (client_requests os) \<and> queue_ok (outgoing_responses os) \<and>
     (quiesced os \<longrightarrow> \<not> accepting os \<and> staged (fifo_sequencer os) = [])"

definition whole_frames :: "TCPServer \<Rightarrow> bool" where
  "whole_frames t \<longleftrightarrow> (\<forall>j < length (tcp_conns t). RequestSize dvd length (parsed_in (tcp_conns t ! j)))"

definition server_inv :: "TCPServer \<Rightarrow> OrderServer \<Rightarrow> bool" where
  "server_inv t os \<longleftrightarrow> conns_ok t \<and> tables_inv t os \<and> queues_inv os \<and> whole_frames t"

text \<open>The part of the server that only reading, staging and shutting down change.\<close>

definition same_queues :: "OrderServer \<Rightarrow> OrderServer \<Rightarrow> bool" where
  "same_queues os os' \<longleftrightarrow> fifo_sequencer os' = fifo_sequencer os \<and> client_requests os' = client_requests os \<and>
     outgoing_responses os' = outgoing_responses os \<and> accepting os' = accepting os \<and> quiesced os' = quiesced os"

lemma same_queues_inv: "same_queues os os' \<Longrightarrow> queues_inv os \<Longrightarrow> queues_inv os'"
  by (simp add: same_queues_def queues_inv_def)

lemma same_queues_refl [simp]: "same_queues os os"
  by (simp add: same_queues_def)

lemma same_queues_trans: "same_queues s t \<Longrightarrow> same_queues t u \<Longrightarrow> same_queues s u"
  by (simp add: same_queues_def)

lemma same_queues_sessions [simp]: "same_queues os (os\<lparr>sessions := ss\<rparr>)"
  by (simp add: same_queues_def)

text \<open>Less: staging may have changed the sequencer.\<close>

definition same_flags :: "OrderServer \<Rightarrow> OrderServer \<Rightarrow> bool" where
  "same_flags os os' \<longleftrightarrow> client_requests os' = client_requests os \<and> outgoing_responses os' = outgoing_responses os \<and>
     accepting os' = accepting os \<and> quiesced os' = quiesced os"

lemma same_flags_refl [simp]: "same_flags os os"
  by (simp add: same_flags_def)

lemma same_flags_trans: "same_flags s t \<Longrightarrow> same_flags t u \<Longrightarrow> same_flags s u"
  by (simp add: same_flags_def)

lemma same_queues_flags: "same_queues os os' \<Longrightarrow> same_flags os os'"
  by (simp add: same_flags_def same_queues_def)

text \<open>Nothing but send buffers changed.\<close>

definition quiet :: "TCPServer \<Rightarrow> TCPServer \<Rightarrow> bool" where
  "quiet t t' \<longleftrightarrow> receive_sockets t' = receive_sockets t \<and> length (tcp_conns t') = length (tcp_conns t) \<and>
     (\<forall>j. same_input (tcp_conns t ! j) (tcp_conns t' ! j))"

lemma server_quiet_refl [simp]: "quiet t t"
  by (simp add: quiet_def)

lemma quiet_trans: "quiet s t \<Longrightarrow> quiet t u \<Longrightarrow> quiet s u"
  unfolding quiet_def by (metis same_input_trans)

lemma quiet_set: "i < length (tcp_conns t) \<Longrightarrow> same_input (tcp_conns t ! i) s \<Longrightarrow> quiet t (set_conn i s t)"
  by (auto simp: quiet_def set_conn_def nth_list_update)

lemma quiet_same_frame: "quiet t t' \<Longrightarrow> same_frame t t'"
  by (auto simp: quiet_def same_frame_def conn_time_def same_input_def)

lemma quiet_alive: "quiet t t' \<Longrightarrow> conn_alive t' = conn_alive t"
  by (auto simp: quiet_def conn_alive_def same_input_def healthy_def)

lemma quiet_frames: "quiet t t' \<Longrightarrow> whole_frames t \<Longrightarrow> whole_frames t'"
  by (simp add: quiet_def whole_frames_def same_input_def)

subsection \<open>Sending\<close>

text \<open>Appending a frame to the send buffer of a connection.\<close>

lemma encode_response_length [simp]: "length (encode_response m) = ResponseSize"
  by (simp add: encode_response_def put_header_def limits Let_def)

lemma encode_response_ne [simp]: "encode_response m \<noteq> []"
proof
  assume "encode_response m = []"
  then have "length (encode_response m) = 0" by (simp only: list.size)
  then show False by (simp add: limits)
qed

lemma send_frame:
  assumes "conns_ok t" "i < length (tcp_conns t)" "tcp_send bytes (tcp_conns t ! i) = (Accepted, s)"
  shows "conns_ok (set_conn i s t)" "quiet t (set_conn i s t)"
    "conn_out (set_conn i s t) = (conn_out t)(i := conn_out t i @ bytes)"
proof -
  have ok: "sock_ok (tcp_conns t ! i)" "length (outbound_data (tcp_conns t ! i)) = TCPBufferSize"
    using assms(1,2) by (simp_all add: conns_ok_def)
  note S = tcp_send_accepted [OF ok(1) assms(3)]
  show "conns_ok (set_conn i s t)" using S assms(1) ok(2) by (intro conns_ok_set_conn) (simp_all add: same_input_def)
  show "quiet t (set_conn i s t)" by (rule quiet_set [OF assms(2) S(3)])
  show "conn_out (set_conn i s t) = (conn_out t)(i := conn_out t i @ bytes)"
    using S(2) assms(2) by (auto simp: conn_out_def fun_eq_iff set_conn_def nth_list_update)
qed

lemma server_audit_with_ok:
  "server_audit_with f os = Some os' \<Longrightarrow> same_queues os os' \<and> sessions os' = sessions os"
  by (auto simp: server_audit_with_def same_queues_def split: option.splits)

text \<open>What a rejection does: one frame with the next number of the connection, or nothing when the buffer is full.\<close>

lemma reject_effect:
  assumes ok: "conns_ok t" "i < length (tcp_conns t)" and r: "reject sys i m reason (t, os) = Some (b, t', os')"
  obtains ss where "reject_number i (sessions os) = (number_of (sessions os) i, ss)" "same_queues os os'" "conns_ok t'" "quiet t t'"
    "\<not> b \<Longrightarrow> t' = t \<and> sessions os' = ss"
    "b \<Longrightarrow> sessions os' = next_number i (number_of (sessions os) i) ss \<and>
       conn_out t' = (conn_out t)(i := conn_out t i @ encode_response \<lparr>oms_seq_num = number_of (sessions os) i,
         oms_response = rejection i (omq_request m) reason (sessions os), oms_session_epoch = omq_session_epoch m\<rparr>)"
proof -
  let ?resp = "rejection i (omq_request m) reason (sessions os)"
  obtain n ss where n: "reject_number i (sessions os) = (n, ss)" by (cases "reject_number i (sessions os)")
  note N = reject_number_ok(1) [OF n]
  let ?fr = "encode_response \<lparr>oms_seq_num = n, oms_response = ?resp, oms_session_epoch = omq_session_epoch m\<rparr>"
  obtain res s where s: "tcp_send ?fr (tcp_conns t ! i) = (res, s)" by (cases "tcp_send ?fr (tcp_conns t ! i)")
  show thesis
  proof (cases "res = Full")
    case True
    then have "s = tcp_conns t ! i" using tcp_send_refused [OF s] by simp
    then have "b = False" "t' = t" "os' = os\<lparr>sessions := ss\<rparr>" using r n s True by (simp_all add: reject_def Let_def)
    then show thesis using that [of ss] n N ok by simp
  next
    case False
    then have acc: "res = Accepted" using r n s by (auto simp: reject_def Let_def split: if_splits)
    obtain os1 where os1: "server_audit_with (journal_response sys ?resp) (os\<lparr>sessions := ss\<rparr>) = Some os1"
        "b = True" "t' = set_conn i s t" "os' = os1\<lparr>sessions := next_number i n ss, rejected_frames := rejected_frames os1 + 1\<rparr>"
      using r n s acc by (auto simp: reject_def Let_def bind_Some_conv)
    have "same_queues os os'" using server_audit_with_ok [OF os1(1)] by (simp add: os1(4) same_queues_def)
    then show thesis using that [of ss] n N send_frame [OF ok s [unfolded acc]] os1(2,3,4) by simp
  qed
qed

lemma reject_inv:
  assumes inv: "server_inv t os" and i: "0 < i" "i < length (tcp_conns t)" and r: "reject sys i m reason (t, os) = Some (b, t', os')"
  shows "server_inv t' os'" "quiet t t'" "same_queues os os'" "same_tables (sessions os) (sessions os')"
proof -
  have ok: "conns_ok t" and tb: "sess_inv (length (tcp_conns t)) (conn_alive t) (conn_out t) (sessions os)"
    using inv by (simp_all add: server_inv_def tables_inv_def)
  obtain ss where ss: "reject_number i (sessions os) = (number_of (sessions os) i, ss)" "same_queues os os'" "conns_ok t'" "quiet t t'"
    "\<not> b \<Longrightarrow> t' = t \<and> sessions os' = ss"
    "b \<Longrightarrow> sessions os' = next_number i (number_of (sessions os) i) ss \<and>
       conn_out t' = (conn_out t)(i := conn_out t i @ encode_response \<lparr>oms_seq_num = number_of (sessions os) i,
         oms_response = rejection i (omq_request m) reason (sessions os), oms_session_epoch = omq_session_epoch m\<rparr>)"
    using reject_effect [OF ok i(2) r] by metis
  note N = reject_number_ok [OF ss(1)]
  have S: "sess_inv (length (tcp_conns t)) (conn_alive t) (conn_out t) ss" by (rule sess_inv_reject_number [OF tb i(2) ss(1)])
  have len: "length (tcp_conns t') = length (tcp_conns t)" "conn_alive t' = conn_alive t"
    using ss(4) quiet_alive [OF ss(4)] by (simp_all add: quiet_def)
  have "tables_inv t' os'"
  proof (cases b)
    case True
    have "sess_inv (length (tcp_conns t)) (conn_alive t) ((conn_out t)(i := conn_out t i @ encode_response
        \<lparr>oms_seq_num = number_of (sessions os) i, oms_response = rejection i (omq_request m) reason (sessions os),
         oms_session_epoch = omq_session_epoch m\<rparr>)) (next_number i (number_of (sessions os) i) ss)"
      by (rule sess_inv_next_number [OF S i]) (simp_all add: N(2))
    then show ?thesis using ss(6) [OF True] len by (simp add: tables_inv_def)
  next
    case False
    then show ?thesis using ss(5) S by (simp add: tables_inv_def)
  qed
  then show "server_inv t' os'"
    using inv ss(2,3) quiet_frames [OF ss(4)] same_queues_inv by (simp add: server_inv_def)
  show "quiet t t'" "same_queues os os'" by (fact ss)+
  show "same_tables (sessions os) (sessions os')"
    using N(3) ss(5,6) same_tables_trans [OF N(3) next_number_same] by (cases b) auto
qed

subsection \<open>One frame\<close>

lemma server_inv_sessions:
  "server_inv t os \<Longrightarrow> sess_inv (length (tcp_conns t)) (conn_alive t) (conn_out t) ss \<Longrightarrow> server_inv t (os\<lparr>sessions := ss\<rparr>)"
  by (simp add: server_inv_def tables_inv_def queues_inv_def)

lemma advance_simps [simp]:
  "fifo_sequencer (advance m os) = fifo_sequencer os" "client_requests (advance m os) = client_requests os"
  "outgoing_responses (advance m os) = outgoing_responses os" "accepting (advance m os) = accepting os"
  "quiesced (advance m os) = quiesced os" "server_audit (advance m os) = server_audit os"
  "sessions (advance m os) = (sessions os)\<lparr>cid_next_exp_seq_num := (cid_next_exp_seq_num (sessions os))
     (unat (rq_client_id (omq_request m)) := cid_next_exp_seq_num (sessions os) (unat (rq_client_id (omq_request m))) + 1)\<rparr>"
  by (simp_all add: advance_def Let_def)

lemma number_of_exp [simp]:
  "number_of (ss\<lparr>cid_next_exp_seq_num := f\<rparr>) i = number_of ss i" "tainted (ss\<lparr>cid_next_exp_seq_num := f\<rparr>) i = tainted ss i"
  by (simp_all add: number_of_def tainted_def split: option.split)

lemma sess_inv_exp [simp]: "sess_inv n alive out (ss\<lparr>cid_next_exp_seq_num := f\<rparr>) = sess_inv n alive out ss"
  by (simp add: sess_inv_def binding_inv_def stream_inv_def)

lemma server_inv_advance: "server_inv t os \<Longrightarrow> server_inv t (advance m os)"
  by (simp add: server_inv_def tables_inv_def queues_inv_def)

text \<open>Staging a request.\<close>

lemma stage_request_effect:
  assumes f: "fifo_ok (fifo_sequencer os)" and r: "stage_request sys i rx m os = Some (b, os')"
  shows "\<not> b \<Longrightarrow> os' = os"
    "b \<Longrightarrow> fifo_ok (fifo_sequencer os') \<and> staged (fifo_sequencer os') = staged (fifo_sequencer os) @ [\<lparr>recv_time = rx, recv_request = omq_request m\<rparr>] \<and>
       client_requests os' = client_requests os \<and> outgoing_responses os' = outgoing_responses os \<and> accepting os' = accepting os \<and>
       quiesced os' = quiesced os \<and> sessions os' = sessions (advance m (os\<lparr>sessions := bind_session i m (sessions os)\<rparr>))"
proof -
  show "\<not> b \<Longrightarrow> os' = os"
    using r by (auto simp: stage_request_def Let_def bind_Some_conv case_prod_beta split: if_splits)
  assume b: b
  obtain os1 where a: "server_audit_with (journal_request sys ''RECEIVED'' (omq_request m)) os = Some os1"
    using r b by (auto simp: stage_request_def bind_Some_conv split: if_splits)
  note A = server_audit_with_ok [OF a]
  obtain ok g where g: "addClientRequest rx (omq_request m) (fifo_sequencer os1) = (ok, g)"
    by (cases "addClientRequest rx (omq_request m) (fifo_sequencer os1)")
  have ok: ok and os': "os' = (let os = advance m (os1\<lparr>fifo_sequencer := g, sessions := bind_session i m (sessions os1)\<rparr>)
      in os\<lparr>accepted_frames := accepted_frames os + 1\<rparr>)"
    using r b a g by (auto simp: stage_request_def Let_def split: if_splits)
  have fs: "fifo_sequencer os1 = fifo_sequencer os" using A by (simp add: same_queues_def)
  note G = addClientRequest_ok [OF f, OF g [unfolded fs]]
  show "fifo_ok (fifo_sequencer os') \<and> staged (fifo_sequencer os') = staged (fifo_sequencer os) @ [\<lparr>recv_time = rx, recv_request = omq_request m\<rparr>] \<and>
       client_requests os' = client_requests os \<and> outgoing_responses os' = outgoing_responses os \<and> accepting os' = accepting os \<and>
       quiesced os' = quiesced os \<and> sessions os' = sessions (advance m (os\<lparr>sessions := bind_session i m (sessions os)\<rparr>))"
    using G(1,3) ok A by (simp add: os' Let_def same_queues_def)
qed

text \<open>The three ways a frame is handled.\<close>

lemma handle_request_cases:
  assumes "handle_request sys i rx m (t, os) = Some (b, t', os')"
  obtains (invalid) ss os1 where "admission (conn_alive t) i m (sessions os) = (Rej_NONE, ss)" "validate (omq_request m) \<noteq> Rej_NONE"
      "reject sys i m (validate (omq_request m)) (t, os\<lparr>sessions := bind_session i m ss\<rparr>) = Some (b, t', os1)"
      "os' = (if b then advance m os1 else os1)"
  | (refused) reason ss where "admission (conn_alive t) i m (sessions os) = (reason, ss)" "reason \<noteq> Rej_NONE"
      "reject sys i m reason (t, os\<lparr>sessions := ss\<rparr>) = Some (b, t', os')"
  | (staged) ss where "admission (conn_alive t) i m (sessions os) = (Rej_NONE, ss)" "validate (omq_request m) = Rej_NONE"
      "stage_request sys i rx m (os\<lparr>sessions := ss\<rparr>) = Some (b, os')" "t' = t"
proof -
  obtain reason ss where a: "admission (conn_alive t) i m (sessions os) = (reason, ss)"
    by (cases "admission (conn_alive t) i m (sessions os)")
  have h: "handle_request sys i rx m (t, os) = (if reason = Rej_NONE \<and> validate (omq_request m) \<noteq> Rej_NONE then do {
          (ok, t, os) \<leftarrow> reject sys i m (validate (omq_request m)) (t, os\<lparr>sessions := bind_session i m ss\<rparr>);
          Some (if ok then (True, t, advance m os) else (False, t, os)) }
        else if reason \<noteq> Rej_NONE then reject sys i m reason (t, os\<lparr>sessions := ss\<rparr>)
        else map_option (\<lambda>(ok, os). (ok, t, os)) (stage_request sys i rx m (os\<lparr>sessions := ss\<rparr>)))"
    using a by (simp add: handle_request_def conn_alive_def [abs_def] Let_def)
  consider "reason \<noteq> Rej_NONE" | "reason = Rej_NONE" "validate (omq_request m) \<noteq> Rej_NONE"
    | "reason = Rej_NONE" "validate (omq_request m) = Rej_NONE" by blast
  then show thesis
  proof cases
    case 1 then show thesis using refused a assms h by simp
  next
    case 2
    then obtain b1 t1 os1 where "reject sys i m (validate (omq_request m)) (t, os\<lparr>sessions := bind_session i m ss\<rparr>) = Some (b1, t1, os1)"
        "(b, t', os') = (if b1 then (True, t1, advance m os1) else (False, t1, os1))"
      using assms h by (auto simp: bind_Some_conv)
    then show thesis using invalid [of ss os1] a 2 by (cases b1) auto
  next
    case 3 then show thesis using staged [of ss] a assms h by auto
  qed
qed

lemma handle_request_inv:
  assumes inv: "server_inv t os" and i: "0 < i" "i < length (tcp_conns t)" and acc: "accepting os"
    and h: "handle_request sys i rx m (t, os) = Some (b, t', os')"
  shows "server_inv t' os' \<and> quiet t t' \<and> same_flags os os' \<and> keeps (sessions os) (sessions os')"
proof -
  have S: "sess_inv (length (tcp_conns t)) (conn_alive t) (conn_out t) (sessions os)"
    using inv by (simp add: server_inv_def tables_inv_def)
  from h show ?thesis
  proof (cases rule: handle_request_cases)
    case (invalid ss os1)
    note A = admission_ok [OF S i invalid(1)]
    have sp: "may_speak i m ss" using A(3) by simp
    have "server_inv t (os\<lparr>sessions := bind_session i m ss\<rparr>)"
      by (rule server_inv_sessions [OF inv sess_inv_bind(1) [OF A(1) i sp]])
    note R = reject_inv [OF this i invalid(3)]
    have "server_inv t' os'" using R(1) server_inv_advance [OF R(1)] invalid(4) by simp
    moreover have "keeps (sessions os) (sessions os1)"
      using A(2) keeps_bind [OF sp] same_tables_keeps [OF R(4)] by (auto intro: keeps_trans)
    then have "keeps (sessions os) (sessions os')" using invalid(4) by (auto intro: keeps_trans)
    moreover have "same_flags os os'" using R(3) invalid(4) by (simp add: same_queues_def same_flags_def)
    ultimately show ?thesis using R(2) by blast
  next
    case (refused reason ss)
    note A = admission_ok [OF S i refused(1)]
    note R = reject_inv [OF server_inv_sessions [OF inv A(1)] i refused(3)]
    have "keeps (sessions os) (sessions os')" using A(2) same_tables_keeps [OF R(4)] by (auto intro: keeps_trans)
    then show ?thesis using R by (simp add: same_queues_def same_flags_def)
  next
    case (staged ss)
    note A = admission_ok [OF S i staged(1)]
    have sp: "may_speak i m ss" using A(3) by simp
    have f: "fifo_ok (fifo_sequencer (os\<lparr>sessions := ss\<rparr>))" using inv by (simp add: server_inv_def queues_inv_def)
    note F = stage_request_effect [OF f staged(3)]
    show ?thesis
    proof (cases b)
      case False
      then show ?thesis using F(1) A(2) server_inv_sessions [OF inv A(1)] staged(4) by (simp add: same_flags_def)
    next
      case True
      note G = F(2) [OF True]
      have s': "sess_inv (length (tcp_conns t)) (conn_alive t) (conn_out t) (sessions os')"
        using sess_inv_bind(1) [OF A(1) i sp] G by simp
      have q: "queues_inv os'" using inv G acc by (simp add: server_inv_def queues_inv_def)
      have "keeps (sessions os) (sessions os')"
        using G A(2) keeps_bind [OF sp] by (auto intro: keeps_trans)
      then show ?thesis using inv s' q G staged(4) by (simp add: server_inv_def tables_inv_def same_flags_def)
    qed
  qed
qed

lemma handle_frame_inv:
  assumes inv: "server_inv t os" and i: "0 < i" "i < length (tcp_conns t)" and acc: "accepting os"
    and h: "handle_frame sys i rx bytes (t, os) = Some (b, t', os')"
  shows "server_inv t' os' \<and> quiet t t' \<and> same_flags os os' \<and> keeps (sessions os) (sessions os')"
proof -
  obtain d where d: "decode_request bytes = Some d" using h by (auto simp: handle_frame_def bind_Some_conv)
  show ?thesis
  proof (cases d)
    case None
    then have r: "reject sys i OMClientRequest_default Rej_VERSION (t, os) = Some (b, t', os')"
      using h d by (simp add: handle_frame_def)
    note R = reject_inv [OF inv i r]
    then show ?thesis using same_tables_keeps [OF R(4)] same_queues_flags by blast
  next
    case (Some m)
    then show ?thesis using h d handle_request_inv [OF inv i acc] by (simp add: handle_frame_def)
  qed
qed

subsection \<open>The receive callback\<close>

text \<open>A loop invariant over the handled frames.\<close>

lemma frame_loop_rule:
  assumes "\<And>consumed x b x'. P consumed x \<Longrightarrow> consumed + RequestSize \<le> next_rcv_valid_index (tcp_conns (fst x) ! i) \<Longrightarrow>
      handle_frame sys i rx (drop consumed (inbound_data (tcp_conns (fst x) ! i))) x = Some (b, x') \<Longrightarrow>
      P (if b then consumed + RequestSize else consumed) x'"
    and "P consumed x" "frame_loop sys i rx n consumed x = Some (consumed', x')"
  shows "P consumed' x'"
  using assms(2,3)
proof (induct n arbitrary: consumed x)
  case (Suc n)
  let ?s = "tcp_conns (fst x) ! i"
  show ?case
  proof (cases "consumed + RequestSize \<le> next_rcv_valid_index ?s")
    case True
    then obtain b y where y: "handle_frame sys i rx (drop consumed (inbound_data ?s)) x = Some (b, y)"
        "(if b then frame_loop sys i rx n (consumed + RequestSize) y else Some (consumed, y)) = Some (consumed', x')"
      using Suc.prems(2) by (auto simp: Let_def bind_Some_conv)
    then show ?thesis using assms(1) [OF Suc.prems(1) True y(1)] Suc.hyps by (auto split: if_splits)
  qed (use Suc.prems in \<open>simp add: Let_def\<close>)
qed simp

text \<open>After \<open>consumed\<close> bytes of the loop: whole frames, all within the buffer, and the input untouched.\<close>

definition loop_inv :: "nat \<Rightarrow> TCPServer \<times> OrderServer \<Rightarrow> nat \<Rightarrow> TCPServer \<times> OrderServer \<Rightarrow> bool" where
  "loop_inv i x0 consumed x \<longleftrightarrow> server_inv (fst x) (snd x) \<and> quiet (fst x0) (fst x) \<and> same_flags (snd x0) (snd x) \<and>
     keeps (sessions (snd x0)) (sessions (snd x)) \<and> RequestSize dvd consumed \<and>
     consumed \<le> next_rcv_valid_index (tcp_conns (fst x) ! i)"

lemma loop_inv_step:
  assumes "0 < i" "i < length (tcp_conns (fst x0)) \<and> accepting (snd x0)" "loop_inv i x0 consumed x"
    "consumed + RequestSize \<le> next_rcv_valid_index (tcp_conns (fst x) ! i)"
    "handle_frame sys i rx (drop consumed (inbound_data (tcp_conns (fst x) ! i))) x = Some (b, x')"
  shows "loop_inv i x0 (if b then consumed + RequestSize else consumed) x'"
proof -
  obtain t os where x: "x = (t, os)" by (cases x)
  obtain t' os' where x': "x' = (t', os')" by (cases x')
  have L: "server_inv t os" "quiet (fst x0) t" "accepting os" "keeps (sessions (snd x0)) (sessions os)" "RequestSize dvd consumed"
    using assms(2,3) by (simp_all add: loop_inv_def x same_flags_def)
  have "i < length (tcp_conns t)" using L(2) assms(2) by (simp add: quiet_def)
  note H = handle_frame_inv [OF L(1) assms(1) this L(3), of sys rx _ b t' os'] assms(5)
  have "quiet t t'" using H by (simp add: x x')
  then have n: "next_rcv_valid_index (tcp_conns t' ! i) = next_rcv_valid_index (tcp_conns t ! i)"
    by (simp add: quiet_def same_input_def)
  show ?thesis unfolding loop_inv_def
    using H L assms(3,4) n by (auto simp: x x' loop_inv_def intro: quiet_trans keeps_trans same_flags_trans)
qed

lemma tables_inv_set_conn:
  assumes "tables_inv t os" "i < length (tcp_conns t)" "0 < i \<Longrightarrow> healthy s \<Longrightarrow> healthy (tcp_conns t ! i)"
    "out_stream s = out_stream (tcp_conns t ! i)"
  shows "tables_inv (set_conn i s t) os"
proof -
  have "conn_alive t j" if "conn_alive (set_conn i s t) j" "0 < j" for j
    using that assms(2,3) by (cases "j = i") (simp_all add: conn_alive_def)
  moreover have "conn_out (set_conn i s t) j = conn_out t j" for j
    using assms(2,4) by (cases "j = i") (simp_all add: conn_out_def)
  ultimately show ?thesis using assms(1) unfolding tables_inv_def set_conn_simps by (blast intro: sess_inv_mono)
qed

text \<open>Consuming the handled frames of a connection.\<close>

lemma server_inv_consume:
  assumes inv: "server_inv t os" and i: "i < length (tcp_conns t)"
    and n: "RequestSize dvd n" "n \<le> next_rcv_valid_index (tcp_conns t ! i)"
  shows "server_inv (set_conn i (consume n (tcp_conns t ! i)) t) os"
proof -
  let ?s = "tcp_conns t ! i" and ?t = "set_conn i (consume n (tcp_conns t ! i)) t"
  have ok: "sock_ok ?s" "length (outbound_data ?s) = TCPBufferSize" using inv i by (simp_all add: server_inv_def conns_ok_def)
  note C = consume_ok [OF ok(1) n(2)]
  have "conns_ok ?t" using inv C ok by (intro conns_ok_set_conn) (simp_all add: server_inv_def)
  moreover have "tables_inv ?t os"
    using inv C(5,6) by (intro tables_inv_set_conn [OF _ i]) (simp_all add: server_inv_def healthy_def)
  moreover have "length (take n (in_bytes ?s)) = n" using n(2) ok(1) by (simp add: in_bytes_def sock_ok_def)
  then have "whole_frames ?t" using inv i C(4) n(1)
    by (auto simp: server_inv_def whole_frames_def set_conn_def nth_list_update)
  ultimately show ?thesis using inv by (simp add: server_inv_def)
qed

lemma recvCallback_inv:
  assumes inv: "server_inv t os" and i: "0 < i" "i < length (tcp_conns t)"
    and r: "server_recvCallback sys i rx (t, os) = Some (t', os')"
  shows "server_inv t' os' \<and> same_frame t t' \<and> keeps (sessions os) (sessions os') \<and> same_flags os os'"
proof (cases "accepting os")
  case False then show ?thesis using r inv by (simp add: server_recvCallback_def same_frame_def)
next
  case True
  obtain n u where u: "frame_loop sys i rx (next_rcv_valid_index (tcp_conns t ! i)) 0 (t, os) = Some (n, u, os')"
      "t' = set_conn i (consume n (tcp_conns u ! i)) u"
    using r True by (auto simp: server_recvCallback_def bind_Some_conv)
  have "loop_inv i (t, os) 0 (t, os)" using inv True by (simp add: loop_inv_def)
  then have L: "loop_inv i (t, os) n (u, os')"
    using frame_loop_rule [where P = "loop_inv i (t, os)", OF loop_inv_step] u(1) i True by force
  then have q: "quiet t u" "server_inv u os'" by (simp_all add: loop_inv_def)
  have iu: "i < length (tcp_conns u)" using q i by (simp add: quiet_def)
  have ok: "sock_ok (tcp_conns u ! i)" using q(2) iu by (simp add: server_inv_def conns_ok_def)
  have "server_inv t' os'" using server_inv_consume [OF q(2) iu] L by (simp add: u(2) loop_inv_def)
  moreover have "same_frame u t'"
    using consume_ok(8) [OF ok] L iu
    by (auto simp: u(2) same_frame_def conn_time_def fun_eq_iff set_conn_def nth_list_update loop_inv_def)
  then have "same_frame t t'" using quiet_same_frame [OF q(1)] by (simp add: same_frame_def)
  ultimately show ?thesis using L True by (simp add: loop_inv_def)
qed

lemma server_inv_transport:
  assumes inv: "server_inv t os" and i: "i < length (tcp_conns t)" and s: "transport m (tcp_conns t ! i) s"
  shows "server_inv (set_conn i s t) os"
proof -
  have "conns_ok (set_conn i s t)" using inv s i
    by (intro conns_ok_set_conn) (auto simp: server_inv_def conns_ok_def transport_def)
  moreover have "tables_inv (set_conn i s t) os"
    using inv s by (intro tables_inv_set_conn [OF _ i]) (auto simp: server_inv_def healthy_def transport_def)
  moreover have "whole_frames (set_conn i s t)" using inv i s
    by (auto simp: server_inv_def whole_frames_def set_conn_def nth_list_update transport_def)
  ultimately show ?thesis using inv by (simp add: server_inv_def)
qed

text \<open>The order server is an owner of its connections, and what it has bound stays bound.\<close>

interpretation srv: server_owner "server_recvCallback sys" "\<lambda>t os. server_inv t os \<and> keeps (sessions os0) (sessions os) \<and> same_flags os0 os" m
  for sys os0 m
  by unfold_locales (use recvCallback_inv server_inv_transport in \<open>auto intro: keeps_trans same_flags_trans\<close>)

end
