(* ===== verification/Order_Server_Props.thy ===== *)
theory Order_Server_Props
  imports Order_Server_Inv
begin

text \<open>
  The order server among its environment: \<open>server_step\<close> interleaves the phases of the network thread (per connection and
  per response) with the main thread, the matching engine that takes requests and puts responses, and whatever the
  network does; the journal is shared with other threads. A round of the code is a sequence of such steps. The lists are what the matching engine has taken from
  the request queue and put into the response queue. With \<open>m\<close> the receive times of a connection
  never go back; without it they are arbitrary, as wall-clock times can be set back.
\<close>

type_synonym ServerNet = "TCPServer \<times> OrderServer \<times> MEClientRequest list \<times> MEClientResponse list"

inductive server_step :: "bool \<Rightarrow> (nat \<Rightarrow> WriteResult) \<Rightarrow> ServerNet \<Rightarrow> ServerNet \<Rightarrow> bool" for m sys where
  sv_start: "server_start efd fd err added (t, os) = Some (t', os') \<Longrightarrow> server_step m sys (t, os, tk, pt) (t', os', tk, pt)"
| sv_poll: "server_poll es acc t = Some t' \<Longrightarrow> \<forall>e \<in> set es. ev_socket e < length (tcp_conns t) \<Longrightarrow>
    server_step m sys (t, os, tk, pt) (t', os, tk, pt)"
| sv_conn: "i < length (tcp_conns t) \<Longrightarrow> (m \<Longrightarrow> clock_ok 8 (conn_time t i) inp) \<Longrightarrow>
    conn_io (server_recvCallback sys) out inp i (t, os) = Some (t', os') \<Longrightarrow> server_step m sys (t, os, tk, pt) (t', os', tk, pt)"
| sv_sequence: "server_step m sys (t, os, tk, pt) (t, recvFinishedCallback os, tk, pt)"
| sv_check: "server_step m sys (t, os, tk, pt) (t, quiesce_check os, tk, pt)"
| sv_respond: "peek (outgoing_responses os) = Some r \<Longrightarrow> send_response r (t, os) = Some (b, t', os') \<Longrightarrow>
    server_step m sys (t, os, tk, pt) (t', os', tk, pt)"
| sv_flush: "i < length (tcp_conns t) \<Longrightarrow>
    server_step m sys (t, os, tk, pt) (set_conn i (snd (flushSend out (tcp_conns t ! i))) t, os, tk, pt)"
| sv_quiesce: "server_step m sys (t, os, tk, pt) (t, quiesce_begin os, tk, pt)"
| sv_stop: "server_step m sys (t, os, tk, pt) (t, server_stop now os, tk, pt)"
| sv_audit: "server_step m sys (t, os, tk, pt) (t, os\<lparr>server_audit := jn\<rparr>, tk, pt)"
| sv_take: "try_pop (client_requests os) = (Some r, q) \<Longrightarrow>
    server_step m sys (t, os, tk, pt) (t, os\<lparr>client_requests := q\<rparr>, tk @ [r], pt)"
| sv_put: "try_push r (outgoing_responses os) = (True, q) \<Longrightarrow>
    server_step m sys (t, os, tk, pt) (t, os\<lparr>outgoing_responses := q\<rparr>, tk, pt @ [r])"

definition server_begin :: "u64 \<Rightarrow> u64 \<Rightarrow> MEClientRequest \<Rightarrow> MEClientResponse \<Rightarrow> Journal option \<Rightarrow> ServerNet option" where
  "server_begin n1 n2 z1 z2 jn = do {
     t \<leftarrow> TCPServer_new; q1 \<leftarrow> LFQueue_new z1 n1; q2 \<leftarrow> LFQueue_new z2 n2;
     Some (t, OrderServer_new q1 q2 jn, [], []) }"

subsection \<open>A round of the code is a sequence of steps\<close>

lemma response_loop_steps:
  assumes "response_loop q x = Some y"
  shows "(server_step m sys)\<^sup>*\<^sup>* (fst x, snd x, tk, pt) (fst (snd y), snd (snd y), tk, pt)"
  using assms
proof (rule response_loop.raw_induct [where P = "\<lambda>q x y. (server_step m sys)\<^sup>*\<^sup>* (fst x, snd x, tk, pt) (fst (snd y), snd (snd y), tk, pt)"
      and xa = "(q, x)", unfolded prod.case, rotated])
  fix g :: "bool \<Rightarrow> TCPServer \<times> OrderServer \<Rightarrow> (bool \<times> TCPServer \<times> OrderServer) option" and q x y
  assume IH: "\<And>q x y. g q x = Some y \<Longrightarrow> (server_step m sys)\<^sup>*\<^sup>* (fst x, snd x, tk, pt) (fst (snd y), snd (snd y), tk, pt)"
  assume r: "(case peek (outgoing_responses (snd x)) of None \<Rightarrow> Some (q, x)
      | Some r \<Rightarrow> do { (ok, x) \<leftarrow> send_response r x; if ok then g True x else Some (q, x) }) = Some y"
  show "(server_step m sys)\<^sup>*\<^sup>* (fst x, snd x, tk, pt) (fst (snd y), snd (snd y), tk, pt)"
  proof (cases "peek (outgoing_responses (snd x))")
    case None then show ?thesis using r by auto
  next
    case (Some p)
    obtain b t1 os1 where u: "send_response p (fst x, snd x) = Some (b, t1, os1)" "(if b then g True (t1, os1) else Some (q, t1, os1)) = Some y"
      using r Some by (auto simp: bind_Some_conv)
    have s: "server_step m sys (fst x, snd x, tk, pt) (t1, os1, tk, pt)" using sv_respond [OF Some u(1)] .
    show ?thesis
    proof (cases b)
      case True
      then have "(server_step m sys)\<^sup>*\<^sup>* (t1, os1, tk, pt) (fst (snd y), snd (snd y), tk, pt)" using IH [of True "(t1, os1)" y] u(2) by simp
      then show ?thesis using s by (rule converse_rtranclp_into_rtranclp [rotated])
    next
      case False then show ?thesis using s u by auto
    qed
  qed
qed

lemma conns_io_steps:
  assumes "conns_io (server_recvCallback sys) out inp is (t, os) = Some (t', os')" "server_inv t os"
    "set is \<subseteq> {..<length (tcp_conns t)}"
  shows "(server_step False sys)\<^sup>*\<^sup>* (t, os, tk, pt) (t', os', tk, pt)"
  using assms
proof (induct "is" arbitrary: t os)
  case (Cons i "is")
  obtain u os1 where u: "conn_io (server_recvCallback sys) (out i) (inp i) i (t, os) = Some (u, os1)"
      "conns_io (server_recvCallback sys) out inp is (u, os1) = Some (t', os')"
    using Cons.prems(1) by (auto simp: bind_Some_conv)
  have i: "i < length (tcp_conns t)" using Cons.prems(3) by simp
  have "server_inv u os1 \<and> length (tcp_conns u) = length (tcp_conns t)"
    using srv.conn_io_inv [of t os os i False] u(1) i Cons.prems(2) by auto
  then have "(server_step False sys)\<^sup>*\<^sup>* (u, os1, tk, pt) (t', os', tk, pt)" using Cons.hyps [OF u(2)] Cons.prems(3) by auto
  moreover have "server_step False sys (t, os, tk, pt) (u, os1, tk, pt)" by (rule sv_conn [OF i _ u(1)]) simp
  ultimately show ?case by (rule converse_rtranclp_into_rtranclp [rotated])
qed simp

lemma flush_conns_steps:
  "set is \<subseteq> {..<length (tcp_conns t)} \<Longrightarrow> (server_step m sys)\<^sup>*\<^sup>* (t, os, tk, pt) (flush_conns out is t, os, tk, pt)"
proof (induct "is" arbitrary: t)
  case (Cons i "is")
  let ?t = "if pending_bytes (tcp_conns t ! i) > 0 then set_conn i (snd (flushSend (out i) (tcp_conns t ! i))) t else t"
  have "(server_step m sys)\<^sup>*\<^sup>* (t, os, tk, pt) (?t, os, tk, pt)" using sv_flush [of i t m sys] Cons.prems by auto
  moreover have "(server_step m sys)\<^sup>*\<^sup>* (?t, os, tk, pt) (flush_conns out is ?t, os, tk, pt)" using Cons.prems by (intro Cons.hyps) auto
  ultimately show ?case by simp
qed simp

text \<open>The invariant along a step.\<close>

lemma recvFinished_inv:
  assumes "queues_inv os"
  shows "queues_inv (recvFinishedCallback os)" "sessions (recvFinishedCallback os) = sessions os"
proof -
  obtain f q where r: "sequenceAndPublish (fifo_sequencer os) (client_requests os) = (f, q)"
    by (cases "sequenceAndPublish (fifo_sequencer os) (client_requests os)")
  have o: "recvFinishedCallback os = os\<lparr>fifo_sequencer := f, client_requests := q\<rparr>" using r by (simp add: recvFinishedCallback_def)
  have k: "fifo_ok (fifo_sequencer os)" "queue_ok (client_requests os)" using assms by (simp_all add: queues_inv_def)
  note S = sequence_ok [OF k r]
  have "staged (fifo_sequencer os) = [] \<Longrightarrow> staged f = []" using S(1) by auto
  then show "queues_inv (recvFinishedCallback os)" using assms S(2,3) by (simp add: o queues_inv_def)
  show "sessions (recvFinishedCallback os) = sessions os" by (simp add: o)
qed

text \<open>What a response does: one frame for the current connection of its client, or nothing when the buffer is full.\<close>

lemma send_response_effect:
  assumes ok: "server_inv t os" and p: "peek (outgoing_responses os) = Some r" and s: "send_response r (t, os) = Some (b, t', os')"
  obtains i q where "cid_tcp_socket (sessions os) (unat (rs_client_id r)) = Some i" "0 < i" "i < length (tcp_conns t)" "conns_ok t'" "quiet t t'"
    "\<not> b \<Longrightarrow> t' = t \<and> os' = os"
    "b \<Longrightarrow> conn_out t' = (conn_out t)(i := conn_out t i @ encode_response \<lparr>oms_seq_num =
        cid_next_outgoing_seq_num (sessions os) (unat (rs_client_id r)), oms_response = r,
        oms_session_epoch = cid_session_epoch (sessions os) (unat (rs_client_id r))\<rparr>) \<and>
      queue_ok q \<and> contents (outgoing_responses os) = r # contents q \<and>
      os' = os\<lparr>outgoing_responses := q, sessions := (sessions os)\<lparr>cid_next_outgoing_seq_num :=
        (cid_next_outgoing_seq_num (sessions os))(unat (rs_client_id r) := cid_next_outgoing_seq_num (sessions os) (unat (rs_client_id r)) + 1)\<rparr>\<rparr>"
proof -
  let ?c = "unat (rs_client_id r)" and ?ss = "sessions os"
  obtain i where i: "cid_tcp_socket ?ss ?c = Some i" "?c < ME_MAX_NUM_CLIENTS"
    using s by (auto simp: send_response_def Let_def split: if_splits option.splits)
  have ck: "conns_ok t" and b: "binding_inv (length (tcp_conns t)) (conn_alive t) ?ss" and qk: "queue_ok (outgoing_responses os)"
    using ok by (simp_all add: server_inv_def tables_inv_def sess_inv_def queues_inv_def)
  note B = binding_tcp [OF b i(1)]
  let ?fr = "encode_response \<lparr>oms_seq_num = cid_next_outgoing_seq_num ?ss ?c, oms_response = r, oms_session_epoch = cid_session_epoch ?ss ?c\<rparr>"
  obtain res sk where sk: "tcp_send ?fr (tcp_conns t ! i) = (res, sk)" by (cases "tcp_send ?fr (tcp_conns t ! i)")
  show thesis
  proof (cases "res = Full")
    case True
    then have "sk = tcp_conns t ! i" using tcp_send_refused [OF sk] by simp
    then have "b = False \<and> t' = t \<and> os' = os" using s i sk True by (simp add: send_response_def Let_def)
    then show thesis using that [of i] i(1) B ck by simp
  next
    case False
    then have acc: "res = Accepted" using s i sk by (auto simp: send_response_def Let_def split: if_splits)
    have ne: "contents (outgoing_responses os) = r # tl (contents (outgoing_responses os))"
      using peek_pop(1) [OF qk] p by (auto split: list.splits)
    then obtain q where q: "pop (outgoing_responses os) = Some q" "queue_ok q" "contents q = tl (contents (outgoing_responses os))"
      using peek_pop(2) [OF qk] by (metis list.distinct(1))
    have r: "b = True \<and> t' = set_conn i sk t \<and> os' = os\<lparr>outgoing_responses := q, sessions := ?ss\<lparr>cid_next_outgoing_seq_num :=
        (cid_next_outgoing_seq_num ?ss)(?c := cid_next_outgoing_seq_num ?ss ?c + 1)\<rparr>\<rparr>"
      using s i sk acc q(1) by (simp add: send_response_def Let_def)
    have il: "i < length (tcp_conns t)" using B by simp
    show thesis using that [of i q] i(1) B send_frame [OF ck il sk [unfolded acc]] r q ne by simp
  qed
qed

lemma send_response_inv:
  assumes ok: "server_inv t os" and p: "peek (outgoing_responses os) = Some r" and s: "send_response r (t, os) = Some (b, t', os')"
  shows "server_inv t' os' \<and> keeps (sessions os) (sessions os') \<and> length (tcp_conns t') = length (tcp_conns t) \<and>
     quiesced os' = quiesced os \<and> client_requests os' = client_requests os \<and> fifo_sequencer os' = fifo_sequencer os \<and>
     contents (outgoing_responses os') = drop (if b then 1 else 0) (contents (outgoing_responses os))"
proof -
  let ?c = "unat (rs_client_id r)" and ?ss = "sessions os"
  obtain i q where E: "cid_tcp_socket ?ss ?c = Some i" "0 < i" "i < length (tcp_conns t)" "conns_ok t'" "quiet t t'"
    "\<not> b \<Longrightarrow> t' = t \<and> os' = os"
    "b \<Longrightarrow> conn_out t' = (conn_out t)(i := conn_out t i @ encode_response \<lparr>oms_seq_num = cid_next_outgoing_seq_num ?ss ?c,
        oms_response = r, oms_session_epoch = cid_session_epoch ?ss ?c\<rparr>) \<and>
      queue_ok q \<and> contents (outgoing_responses os) = r # contents q \<and>
      os' = os\<lparr>outgoing_responses := q, sessions := ?ss\<lparr>cid_next_outgoing_seq_num :=
        (cid_next_outgoing_seq_num ?ss)(?c := cid_next_outgoing_seq_num ?ss ?c + 1)\<rparr>\<rparr>"
    using send_response_effect [OF ok p s] by metis
  show ?thesis
  proof (cases b)
    case True
    note F = E(7) [OF True]
    have len: "length (tcp_conns t') = length (tcp_conns t)" "conn_alive t' = conn_alive t"
      using E(5) quiet_alive [OF E(5)] by (simp_all add: quiet_def)
    have S: "sess_inv (length (tcp_conns t)) (conn_alive t) (conn_out t) ?ss" using ok by (simp add: server_inv_def tables_inv_def)
    have "tables_inv t' os'" unfolding tables_inv_def len
      using sess_inv_response [OF S E(1), of "\<lparr>oms_seq_num = cid_next_outgoing_seq_num ?ss ?c, oms_response = r,
          oms_session_epoch = cid_session_epoch ?ss ?c\<rparr>"] F by simp
    then show ?thesis using ok F E(4) quiet_frames [OF E(5)] len True by (simp add: server_inv_def queues_inv_def)
  qed (use E(6) ok in simp)
qed

lemma server_poll_inv:
  assumes inv: "server_inv t os" and p: "server_poll es acc t = Some t'" "\<forall>e \<in> set es. ev_socket e < length (tcp_conns t)"
  shows "server_inv t' os" "length (tcp_conns t) \<le> length (tcp_conns t')"
proof -
  have ck: "conns_ok t" using inv by (simp add: server_inv_def)
  obtain new where n: "conns_ok t'" "tcp_conns t' = tcp_conns t @ new" "\<forall>s \<in> set new. fresh_conn s"
    using server_poll_ok [OF p(1) ck p(2)] by blast
  have fr: "fresh_conn (tcp_conns t' ! j)" if "length (tcp_conns t) \<le> j" "j < length (tcp_conns t')" for j
    using that n(2,3) by (auto simp: nth_append)
  have old: "tcp_conns t' ! j = tcp_conns t ! j" if "j < length (tcp_conns t)" for j using that n(2) by (simp add: nth_append)
  show len: "length (tcp_conns t) \<le> length (tcp_conns t')" using n(2) by simp
  have "tables_inv t' os" unfolding tables_inv_def
  proof (rule sess_inv_more [OF _ len])
    show "sess_inv (length (tcp_conns t)) (conn_alive t) (conn_out t) (sessions os)" using inv by (simp add: server_inv_def tables_inv_def)
    show "conn_out t' j = []" if "length (tcp_conns t) \<le> j" "j < length (tcp_conns t')" for j
      using fr [OF that] by (simp add: conn_out_def fresh_conn_def)
  qed (simp_all add: old conn_alive_def conn_out_def)
  moreover have "whole_frames t'" unfolding whole_frames_def
  proof (intro allI impI)
    fix j assume j: "j < length (tcp_conns t')"
    show "RequestSize dvd length (parsed_in (tcp_conns t' ! j))"
      using inv fr [OF _ j] old [of j] by (cases "j < length (tcp_conns t)") (auto simp: server_inv_def whole_frames_def fresh_conn_def)
  qed
  ultimately show "server_inv t' os" using inv n(1) by (simp add: server_inv_def)
qed

lemma server_start_inv:
  assumes inv: "server_inv t os" and s: "server_start efd fd err added (t, os) = Some (t', os')"
  shows "server_inv t' os'" "os' = os\<lparr>server_run := True\<rparr>" "length (tcp_conns t') = length (tcp_conns t)"
proof -
  define l where "l = snd (tcp_connect fd err (tcp_conns t ! 0))"
  define u where "u = t\<lparr>epoll_fd := efd\<rparr>"
  have t': "t' = set_conn 0 l u" and os': "os' = os\<lparr>server_run := True\<rparr>"
    using s by (auto simp: server_start_def tcp_listen_def tcp_connect_def Let_def l_def u_def split: if_splits)
  have u: "tcp_conns u = tcp_conns t" "receive_sockets u = receive_sockets t" by (simp_all add: u_def)
  have iu: "server_inv u os" using inv
    by (simp add: server_inv_def conns_ok_def tables_inv_def whole_frames_def conn_alive_def [abs_def] conn_out_def [abs_def] u)
  have z: "0 < length (tcp_conns u)" using iu by (simp add: server_inv_def conns_ok_def)
  have l: "sock_ok l = sock_ok (tcp_conns u ! 0)" "outbound_data l = outbound_data (tcp_conns u ! 0)"
      "out_stream l = out_stream (tcp_conns u ! 0)" "parsed_in l = parsed_in (tcp_conns u ! 0)"
    by (simp_all add: l_def u tcp_connect_def Let_def sock_ok_def in_bytes_def out_stream_def)
  have "conns_ok t'" unfolding t' using iu z l by (intro conns_ok_set_conn) (auto simp: server_inv_def conns_ok_def)
  moreover have "tables_inv t' os" unfolding t' using iu z l by (intro tables_inv_set_conn) (auto simp: server_inv_def)
  moreover have "whole_frames t'" using iu z l by (auto simp: t' server_inv_def whole_frames_def set_conn_def nth_list_update)
  ultimately show "server_inv t' os'" using iu by (simp add: server_inv_def os' tables_inv_def queues_inv_def)
  show "os' = os\<lparr>server_run := True\<rparr>" "length (tcp_conns t') = length (tcp_conns t)" by (simp_all add: os' t' u)
qed

text \<open>After the confirmation nothing is staged any more, and no request reaches the matching engine that was not in
  its queue already.\<close>

definition drained :: "ServerNet \<Rightarrow> ServerNet \<Rightarrow> bool" where
  "drained = (\<lambda>(t, os, tk, pt) (t', os', tk', pt'). quiesced os \<longrightarrow> quiesced os' \<and>
     tk' @ contents (client_requests os') = tk @ contents (client_requests os))"

definition net_inv :: "ServerNet \<Rightarrow> bool" where
  "net_inv = (\<lambda>(t, os, tk, pt). server_inv t os)"

definition net_keeps :: "ServerNet \<Rightarrow> ServerNet \<Rightarrow> bool" where
  "net_keeps = (\<lambda>(t, os, tk, pt) (t', os', tk', pt'). keeps (sessions os) (sessions os'))"

lemma drained_flags: "same_flags os os' \<Longrightarrow> drained (t, os, tk, pt) (t', os', tk, pt')"
  by (simp add: drained_def same_flags_def)

lemma server_step_inv:
  assumes "server_step m sys x y" "net_inv x"
  shows "net_inv y \<and> net_keeps x y \<and> drained x y"
  using assms
proof (induct rule: server_step.induct)
  case (sv_start efd fd err added t os t' os' tk pt)
  then show ?case using server_start_inv [of t os efd fd err added t' os']
    by (simp add: net_inv_def net_keeps_def drained_def)
next
  case (sv_poll es acc t t' os tk pt)
  then show ?case using server_poll_inv(1) [of t os es acc t'] by (simp add: net_inv_def net_keeps_def drained_def)
next
  case (sv_conn i t inp out os t' os' tk pt)
  then have "server_inv t' os' \<and> keeps (sessions os) (sessions os') \<and> same_flags os os'"
    using srv.conn_io_inv [of t os os i m inp sys out t' os'] by (simp add: net_inv_def)
  then show ?case using drained_flags by (simp add: net_inv_def net_keeps_def)
next
  case (sv_sequence t os tk pt)
  then have q: "queues_inv os" "fifo_ok (fifo_sequencer os)" "queue_ok (client_requests os)"
    by (simp_all add: net_inv_def server_inv_def queues_inv_def)
  note R = recvFinished_inv [OF q(1)]
  obtain f p where r: "sequenceAndPublish (fifo_sequencer os) (client_requests os) = (f, p)"
    by (cases "sequenceAndPublish (fifo_sequencer os) (client_requests os)")
  have "drained (t, os, tk, pt) (t, recvFinishedCallback os, tk, pt)"
    using sequence_ok(1) [OF q(2,3) r] q(1) r by (auto simp: drained_def recvFinishedCallback_def queues_inv_def)
  then show ?case using R sv_sequence by (simp add: net_inv_def net_keeps_def server_inv_def tables_inv_def)
next
  case (sv_check t os tk pt)
  have "length (staged (fifo_sequencer os)) = pending_size (fifo_sequencer os)"
    using sv_check by (simp add: net_inv_def server_inv_def queues_inv_def length_staged)
  then show ?case using sv_check
    by (auto simp: net_inv_def net_keeps_def drained_def quiesce_check_def server_inv_def tables_inv_def queues_inv_def fifo_pending_def)
next
  case (sv_respond os r t b t' os' tk pt)
  then have i: "server_inv t os" by (simp add: net_inv_def)
  show ?case using send_response_inv [OF i sv_respond(1,2)] by (simp add: net_inv_def net_keeps_def drained_def)
next
  case (sv_flush i t os tk pt out)
  then show ?case using server_inv_transport [of t os i False] flushSend_transport [of False "tcp_conns t ! i" out]
    by (simp add: net_inv_def net_keeps_def drained_def)
next
  case (sv_quiesce t os tk pt)
  then show ?case by (simp add: net_inv_def net_keeps_def drained_def quiesce_begin_def server_inv_def tables_inv_def queues_inv_def)
next
  case (sv_stop t os tk pt now)
  then show ?case by (simp add: net_inv_def net_keeps_def drained_def server_stop_def server_inv_def tables_inv_def queues_inv_def)
next
  case (sv_audit t os tk pt jn)
  then show ?case by (simp add: net_inv_def net_keeps_def drained_def server_inv_def tables_inv_def queues_inv_def)
next
  case (sv_take os r q t tk pt)
  then have "queue_ok q \<and> contents (client_requests os) = r # contents q"
    using pop_contents [of "client_requests os" "Some r" q] by (simp add: net_inv_def server_inv_def queues_inv_def)
  then show ?case using sv_take by (simp add: net_inv_def net_keeps_def drained_def server_inv_def tables_inv_def queues_inv_def)
next
  case (sv_put r os q t tk pt)
  then have "queue_ok q" using push_contents [of "outgoing_responses os" r True q] by (simp add: net_inv_def server_inv_def queues_inv_def)
  then show ?case using sv_put by (simp add: net_inv_def net_keeps_def drained_def server_inv_def tables_inv_def queues_inv_def)
qed

subsection \<open>Reachable states\<close>

lemma server_begin_inv:
  assumes "server_begin n1 n2 z1 z2 jn = Some x"
  shows "net_inv x"
proof -
  obtain l q1 q2 where l: "TCPSocket_new TCPBufferSize = Some l" "LFQueue_new z1 n1 = Some q1" "LFQueue_new z2 n2 = Some q2"
    and x: "x = (\<lparr>epoll_fd = - 1, tcp_conns = [l], receive_sockets = [], send_sockets = []\<rparr>, OrderServer_new q1 q2 jn, [], [])"
    using assms by (auto simp: server_begin_def TCPServer_new_def bind_Some_conv)
  note L = TCPSocket_new_ok [OF l(1)]
  show ?thesis using L queue_new_ok [OF l(2)] queue_new_ok [OF l(3)] sess_inv_new FIFOSequencer_new_ok
    by (simp add: x net_inv_def server_inv_def conns_ok_def tables_inv_def queues_inv_def whole_frames_def OrderServer_new_def)
qed

lemma server_steps_inv:
  assumes "(server_step m sys)\<^sup>*\<^sup>* x y" "net_inv x"
  shows "net_inv y \<and> net_keeps x y \<and> drained x y"
  using assms
proof (induct rule: rtranclp_induct)
  case base
  then show ?case by (auto simp: net_keeps_def drained_def split: prod.split)
next
  case (step y z)
  then have "net_inv z \<and> net_keeps y z \<and> drained y z" "net_keeps x y" "drained x y" using server_step_inv by blast+
  then show ?case by (auto simp: net_keeps_def drained_def split: prod.splits intro: keeps_trans)
qed

lemma server_round_steps:
  assumes inv: "server_inv t os" and es: "\<forall>e \<in> set es. ev_socket e < length (tcp_conns t)"
    and r: "server_round sys now es acc out inp out2 (t, os) = Some (t', os')"
  shows "(server_step False sys)\<^sup>*\<^sup>* (t, os, tk, pt) (t', os', tk, pt)"
proof -
  have r: "do { t \<leftarrow> (if accepting os then server_poll es acc t else Some t);
        (t, os) \<leftarrow> server_io sys out inp (t, os);
        (queued, t, os) \<leftarrow> response_loop False (t, quiesce_check os);
        Some (if queued then (server_flushSend out2 t, os) else (t, os)) } = Some (t', os')"
    using r by (simp add: server_round_def split: if_splits)
  obtain t1 where t1: "(if accepting os then server_poll es acc t else Some t) = Some t1"
    using r by (cases "if accepting os then server_poll es acc t else Some t") simp_all
  obtain u os1' where io: "server_io sys out inp (t1, os) = Some (u, os1')"
    using r t1 by (cases "server_io sys out inp (t1, os)") auto
  obtain queued v os2 where v: "response_loop False (u, quiesce_check os1') = Some (queued, v, os2)"
    using r t1 io by (cases "response_loop False (u, quiesce_check os1')") auto
  have e: "(t', os') = (if queued then (server_flushSend out2 v, os2) else (v, os2))"
    using r t1 io v by auto
  obtain os1 where u: "conns_io (server_recvCallback sys) out inp (receive_sockets t1) (t1, os) = Some (u, os1)" "os1' = recvFinishedCallback os1"
    using io by (auto simp: server_io_def server_sendAndRecv_def)
  note v = v [unfolded u(2)]
  have i1: "server_inv t1 os" using t1 inv server_poll_inv(1) [OF inv _ es] by (auto split: if_splits)
  have s1: "(server_step False sys)\<^sup>*\<^sup>* (t, os, tk, pt) (t1, os, tk, pt)" using t1 sv_poll [OF _ es] by (auto split: if_splits)
  have "set (receive_sockets t1) \<subseteq> {..<length (tcp_conns t1)}" using i1 by (simp add: server_inv_def conns_ok_def)
  from conns_io_steps [OF u(1) i1 this] have s2: "(server_step False sys)\<^sup>*\<^sup>* (t1, os, tk, pt) (u, os1, tk, pt)" .
  have s3: "(server_step False sys)\<^sup>*\<^sup>* (u, os1, tk, pt) (u, quiesce_check (recvFinishedCallback os1), tk, pt)"
    by (rule rtranclp_trans [OF r_into_rtranclp [of "server_step False sys", OF sv_sequence] r_into_rtranclp [of "server_step False sys", OF sv_check]])
  have s4: "(server_step False sys)\<^sup>*\<^sup>* (u, quiesce_check (recvFinishedCallback os1), tk, pt) (v, os2, tk, pt)"
    using response_loop_steps [OF v] by simp
  have all: "(server_step False sys)\<^sup>*\<^sup>* (t, os, tk, pt) (v, os2, tk, pt)"
    using s1 s2 s3 s4 by (meson rtranclp_trans)
  have "net_inv (v, os2, tk, pt)" using server_steps_inv [OF all] inv by (simp add: net_inv_def)
  then have "set (receive_sockets v) \<subseteq> {..<length (tcp_conns v)}" by (simp add: net_inv_def server_inv_def conns_ok_def)
  from flush_conns_steps [OF this] all show ?thesis using e by (auto simp: server_flushSend_def split: if_splits intro: rtranclp_trans)
qed

subsection \<open>Properties\<close>

text \<open>C21: identity. Whatever the connections send, a connection that has spoken for a client keeps speaking for that client
  and its session epoch never changes; of two connections of one client at most one is alive, so nobody can act for a
  client beside its live session.\<close>

theorem session_identity:
  assumes "server_begin n1 n2 z1 z2 jn = Some x" "(server_step m sys)\<^sup>*\<^sup>* x (t, os, tk, pt)"
    "(server_step m sys)\<^sup>*\<^sup>* (t, os, tk, pt) (t', os', tk', pt')"
  shows "(\<forall>i c. socket_client (sessions os) i = Some c \<longrightarrow> socket_client (sessions os') i = Some c \<and>
      cid_session_epoch (sessions os') (unat c) = cid_session_epoch (sessions os) (unat c)) \<and>
    (\<forall>i j c. socket_client (sessions os') i = Some c \<and> socket_client (sessions os') j = Some c \<and>
      healthy (tcp_conns t' ! i) \<and> healthy (tcp_conns t' ! j) \<longrightarrow> i = j)"
proof -
  have inv: "net_inv (t, os, tk, pt)" using server_steps_inv [OF assms(2)] server_begin_inv [OF assms(1)] by blast
  note S = server_steps_inv [OF assms(3) inv]
  have b: "binding_inv (length (tcp_conns t)) (conn_alive t) (sessions os)"
    "binding_inv (length (tcp_conns t')) (conn_alive t') (sessions os')"
    using S inv by (simp_all add: net_inv_def server_inv_def tables_inv_def sess_inv_def)
  have k: "keeps (sessions os) (sessions os')" using S by (simp add: net_keeps_def)
  have "socket_client (sessions os') i = Some c \<and> cid_session_epoch (sessions os') (unat c) = cid_session_epoch (sessions os) (unat c)"
    if "socket_client (sessions os) i = Some c" for i c
    using that k binding_client [OF b(1) that] unfolding keeps_def by (metis option.distinct(1))
  moreover have "i = j" if "socket_client (sessions os') i = Some c" "socket_client (sessions os') j = Some c"
    "healthy (tcp_conns t' ! i)" "healthy (tcp_conns t' ! j)" for i j c
    using that binding_client [OF b(2) that(1)] binding_client [OF b(2) that(2)] unfolding conn_alive_def by auto
  ultimately show ?thesis by blast
qed

text \<open>C22: outgoing numbers. What has been written to a connection, sent or still buffered, is a sequence of whole response
  frames, and unless the session was taken over by a query they carry the numbers 1, 2, 3, ... without a gap.\<close>

theorem responses_numbered:
  assumes "server_begin n1 n2 z1 z2 jn = Some x" "(server_step m sys)\<^sup>*\<^sup>* x (t, os, tk, pt)" "0 < i" "i < length (tcp_conns t)"
  shows "\<exists>ms. out_stream (tcp_conns t ! i) = concat (map encode_response ms) \<and>
     (\<not> tainted (sessions os) i \<longrightarrow> map oms_seq_num ms = map of_nat [1..<Suc (length ms)])"
proof -
  have "net_inv (t, os, tk, pt)" using server_steps_inv [OF assms(2)] server_begin_inv [OF assms(1)] by blast
  then have "stream_inv (length (tcp_conns t)) (conn_out t) (sessions os)"
    by (simp add: net_inv_def server_inv_def tables_inv_def sess_inv_def)
  then show ?thesis using assms(3,4) unfolding stream_inv_def conn_out_def frames_of_def numbered_def by blast
qed

text \<open>The shutdown handshake. Once the network thread has confirmed \<open>quiesced_\<close>, nothing is staged, the server accepts
  nothing any more, and the requests the matching engine will ever get are those it has taken or has in its queue.\<close>

theorem quiesced_is_drained:
  assumes "server_begin n1 n2 z1 z2 jn = Some x" "(server_step m sys)\<^sup>*\<^sup>* x (t, os, tk, pt)" "quiesced os"
    "(server_step m sys)\<^sup>*\<^sup>* (t, os, tk, pt) (t', os', tk', pt')"
  shows "\<not> accepting os' \<and> staged (fifo_sequencer os') = [] \<and>
     tk' @ contents (client_requests os') = tk @ contents (client_requests os)"
proof -
  have inv: "net_inv (t, os, tk, pt)" using server_steps_inv [OF assms(2)] server_begin_inv [OF assms(1)] by blast
  then show ?thesis using server_steps_inv [OF assms(4) inv] assms(3)
    by (simp add: net_inv_def drained_def server_inv_def queues_inv_def)
qed

subsection \<open>Witnesses\<close>

text \<open>A server that has been started on small queues and has accepted one connection.\<close>

lemma buffer_size_pos: "0 < TCPBufferSize"
  by (simp add: limits)

lemma server_with_connection:
  obtains x t os where "server_begin 4 4 z1 z2 None = Some x" "(server_step m sys)\<^sup>*\<^sup>* x (t, os, [], [])" "length (tcp_conns t) = 2"
    "accepting os" "fifo_sequencer os = FIFOSequencer_new" "\<not> quiesced os" "wire_in (tcp_conns t ! 1) = []"
proof -
  obtain q1 where q1: "LFQueue_new z1 4 = Some q1" using small_queue [of z1] by (elim exE)
  obtain q2 where q2: "LFQueue_new z2 4 = Some q2" using small_queue [of z2] by (elim exE)
  obtain l where l: "TCPSocket_new TCPBufferSize = Some l" using buffer_size_pos by (simp add: TCPSocket_new_def)
  define t where "t = \<lparr>epoll_fd = - 1, tcp_conns = [l], receive_sockets = [], send_sockets = []\<rparr>"
  define os where "os = OrderServer_new q1 q2 None"
  have x: "server_begin 4 4 z1 z2 None = Some (t, os, [], [])"
    using q1 q2 l by (simp add: server_begin_def TCPServer_new_def t_def os_def)
  have "(0 :: nat) < ME_MAX_NUM_CLIENTS" by (simp add: limits)
  then obtain u where u: "server_poll [\<lparr>ev_socket = 0, ev_in = True, ev_out = False, ev_err = False\<rparr>] [(7, True)] t = Some u"
      "length (tcp_conns u) = 2" "wire_in (tcp_conns u ! 1) = []"
    using l TCPSocket_new_ok(3) [OF l] by (simp add: server_poll_def t_def Let_def note_receive_def)
  have "server_step m sys (t, os, [], []) (u, os, [], [])" using u(1) by (rule sv_poll) (simp add: t_def)
  then show thesis using that [OF x, of u os] u(2,3) by (auto simp: os_def OrderServer_new_def)
qed

lemma session_identity_witness:
  "\<exists>(t :: TCPServer) (os :: OrderServer). length (tcp_conns t) = 2 \<and> (\<forall>i j c. socket_client (sessions os) i = Some c \<and> socket_client (sessions os) j = Some c \<and>
      healthy (tcp_conns t ! i) \<and> healthy (tcp_conns t ! j) \<longrightarrow> i = j)"
proof -
  obtain x t os where x: "server_begin 4 4 MEClientRequest_default (mk_response Resp_INVALID 0 0 0 0 BUY 0 0 0 Rej_NONE) None = Some x"
    "(server_step True (\<lambda>_. Wr_Fail))\<^sup>*\<^sup>* x (t, os, [], [])" "length (tcp_conns t) = 2"
    using server_with_connection by blast
  from session_identity [OF x(1,2) rtranclp.rtrancl_refl] x(3) show ?thesis by blast
qed

lemma responses_numbered_witness:
  "\<exists>(t :: TCPServer) (os :: OrderServer) ms. length (tcp_conns t) = 2 \<and> out_stream (tcp_conns t ! 1) = concat (map encode_response ms) \<and>
     (\<not> tainted (sessions os) 1 \<longrightarrow> map oms_seq_num ms = map of_nat [1..<Suc (length ms)])"
proof -
  obtain x t os where x: "server_begin 4 4 MEClientRequest_default (mk_response Resp_INVALID 0 0 0 0 BUY 0 0 0 Rej_NONE) None = Some x"
    "(server_step True (\<lambda>_. Wr_Fail))\<^sup>*\<^sup>* x (t, os, [], [])" "length (tcp_conns t) = 2"
    using server_with_connection by blast
  have "(0 :: nat) < 1" "1 < length (tcp_conns t)" using x(3) by simp_all
  from responses_numbered [OF x(1,2) this] x(3) show ?thesis by blast
qed

lemma quiesced_is_drained_witness:
  "\<exists>os :: OrderServer. quiesced os \<and> \<not> accepting os \<and> staged (fifo_sequencer os) = []"
proof -
  obtain x t os where x: "server_begin 4 4 MEClientRequest_default (mk_response Resp_INVALID 0 0 0 0 BUY 0 0 0 Rej_NONE) None = Some x"
    "(server_step True (\<lambda>_. Wr_Fail))\<^sup>*\<^sup>* x (t, os, [], [])" "fifo_sequencer os = FIFOSequencer_new"
    using server_with_connection by blast
  let ?os = "quiesce_check (quiesce_begin os)"
  have q: "quiesced ?os" using x(3) by (simp add: quiesce_check_def quiesce_begin_def fifo_pending_def FIFOSequencer_new_def)
  have "(server_step True (\<lambda>_. Wr_Fail))\<^sup>*\<^sup>* x (t, ?os, [], [])"
    using x(2) sv_quiesce [of True "\<lambda>_. Wr_Fail" t os "[]" "[]"] sv_check [of True "\<lambda>_. Wr_Fail" t "quiesce_begin os" "[]" "[]"]
    by (meson rtranclp.rtrancl_into_rtrancl)
  from quiesced_is_drained [OF x(1) this q rtranclp.rtrancl_refl] q show ?thesis by blast
qed

end
