(* ===== verification/Order_Session_Flow.thy ===== *)
theory Order_Session_Flow
  imports Order_Server_Props Order_Gateway_Props
begin

text \<open>
  The session of one well-behaved client among arbitrary others. When the bytes a connection delivers are (a prefix of)
  what a gateway writes, and no other connection sends frames in the name of that client, the order server stages exactly
  the requests of the gateway in order, rejects none, and writes exactly the responses of the matching engine for that
  client, numbered from 1. Together with the gateway this gives the end-to-end theorem.
\<close>

subsection \<open>The client and its streams\<close>

definition of_client :: "ClientId \<Rightarrow> MEClientRequest \<Rightarrow> bool" where
  "of_client c r \<longleftrightarrow> rq_client_id r = c"

definition for_client :: "ClientId \<Rightarrow> MEClientResponse \<Rightarrow> bool" where
  "for_client c r \<longleftrightarrow> rs_client_id r = c"

definition honest_client :: "ClientId \<Rightarrow> u64 \<Rightarrow> MEClientRequest list \<Rightarrow> bool" where
  "honest_client c e qs \<longleftrightarrow> e \<noteq> 0 \<and> (\<forall>r \<in> set qs. req_ok (rq_type r) \<and> side_ok (rq_side r) \<and> i64 (rq_price r) \<and>
     rq_client_id r = c \<and> validate r = Rej_NONE)"

text \<open>A request as the server decodes it: with the numbers of its envelope.\<close>

definition stamped_message :: "OMClientRequest \<Rightarrow> OMClientRequest" where
  "stamped_message m = m\<lparr>omq_request := (omq_request m)\<lparr>rq_session_epoch := omq_session_epoch m, rq_request_seq := omq_seq_num m\<rparr>\<rparr>"

definition stamped :: "u64 \<Rightarrow> MEClientRequest list \<Rightarrow> MEClientRequest list" where
  "stamped e qs = map (omq_request \<circ> stamped_message) (numbered_requests e qs)"

definition request_stream :: "u64 \<Rightarrow> MEClientRequest list \<Rightarrow> u8 list" where
  "request_stream e qs = concat (map encode_request (numbered_requests e qs))"

definition numbered_responses :: "u64 \<Rightarrow> MEClientResponse list \<Rightarrow> OMClientResponse list" where
  "numbered_responses epoch rs =
     map (\<lambda>(n, r). \<lparr>oms_seq_num = of_nat n, oms_response = r, oms_session_epoch = epoch\<rparr>) (enumerate 1 rs)"

text \<open>No complete frame of a stream speaks for the client.\<close>

definition foreign :: "ClientId \<Rightarrow> u8 list \<Rightarrow> bool" where
  "foreign c bs \<longleftrightarrow> (\<forall>n m. RequestSize * n + RequestSize \<le> length bs \<longrightarrow>
     decode_request (take RequestSize (drop (RequestSize * n) bs)) = Some (Some m) \<longrightarrow> rq_client_id (omq_request m) \<noteq> c)"

definition inputs_honest :: "ClientId \<Rightarrow> nat \<Rightarrow> u64 \<Rightarrow> MEClientRequest list \<Rightarrow> TCPServer \<Rightarrow> bool" where
  "inputs_honest c i e qs t \<longleftrightarrow> (\<forall>j < length (tcp_conns t). 0 < j \<longrightarrow>
     (if j = i then prefix (wire_in (tcp_conns t ! j)) (request_stream e qs) else foreign c (wire_in (tcp_conns t ! j))))"

lemma foreign_prefix: "foreign c (bs @ ds) \<Longrightarrow> foreign c bs"
proof (unfold foreign_def, intro allI impI)
  fix n m
  assume f: "\<forall>n m. RequestSize * n + RequestSize \<le> length (bs @ ds) \<longrightarrow>
      decode_request (take RequestSize (drop (RequestSize * n) (bs @ ds))) = Some (Some m) \<longrightarrow> rq_client_id (omq_request m) \<noteq> c"
    and n: "RequestSize * n + RequestSize \<le> length bs" and d: "decode_request (take RequestSize (drop (RequestSize * n) bs)) = Some (Some m)"
  have "take RequestSize (drop (RequestSize * n) (bs @ ds)) = take RequestSize (drop (RequestSize * n) bs)" using n by simp
  then show "rq_client_id (omq_request m) \<noteq> c" using f n d by (metis length_append trans_le_add1)
qed

lemma prefix_mono: "prefix (bs @ ds) x \<Longrightarrow> prefix bs x"
  by (auto simp: prefix_def)

lemma nth_numbered_requests: "k < length qs \<Longrightarrow> numbered_requests e qs ! k = \<lparr>omq_seq_num = of_nat (Suc k), omq_request = qs ! k, omq_session_epoch = e\<rparr>"
  by (simp add: numbered_requests_def nth_enumerate_eq)

lemma length_stamped [simp]: "length (stamped e qs) = length qs"
  by (simp add: stamped_def)

lemma length_concat_frames: "(\<And>x. x \<in> set xs \<Longrightarrow> length (f x) = n) \<Longrightarrow> length (concat (map f xs)) = n * length xs"
  by (induct xs) auto

lemma nth_frame:
  assumes "\<And>x. length (f x) = n" "k < length xs"
  shows "take n (drop (n * k) (concat (map f xs))) = f (xs ! k)"
proof -
  have "xs = take k xs @ xs ! k # drop (Suc k) xs" using assms(2) by (simp add: id_take_nth_drop)
  then have "concat (map f xs) = concat (map f (take k xs)) @ f (xs ! k) @ concat (map f (drop (Suc k) xs))"
    by (metis concat.simps(2) concat_append list.simps(9) map_append)
  moreover have "length (concat (map f (take k xs))) = n * k" using assms by (subst length_concat_frames [where n = n]) auto
  ultimately show ?thesis using assms(1) by simp
qed

text \<open>The next frame of an honest stream.\<close>

lemma honest_next:
  assumes h: "honest_client c e qs" and p: "prefix w (request_stream e qs)" and k: "RequestSize * k + RequestSize \<le> length w"
  shows "k < length qs" "decode_request (take RequestSize (drop (RequestSize * k) w)) = Some (Some (stamped_message (numbered_requests e qs ! k)))"
proof -
  have len: "length (request_stream e qs) = RequestSize * length qs"
    unfolding request_stream_def by (subst length_concat_frames [where n = RequestSize]) auto
  then have "RequestSize * Suc k \<le> RequestSize * length qs" using k prefix_length_le [OF p] by simp
  then show kl: "k < length qs" by (simp add: limits)
  have "take RequestSize (drop (RequestSize * k) w) = take RequestSize (drop (RequestSize * k) (request_stream e qs))"
    using p k by (auto simp: prefix_def)
  also have "\<dots> = encode_request (numbered_requests e qs ! k)"
    unfolding request_stream_def by (rule nth_frame) (use kl in auto)
  finally show "decode_request (take RequestSize (drop (RequestSize * k) w)) = Some (Some (stamped_message (numbered_requests e qs ! k)))"
    using request_on_wire [of "numbered_requests e qs ! k" "[]"] h kl nth_mem [OF kl]
    by (simp add: nth_numbered_requests stamped_message_def honest_client_def)
qed

subsection \<open>The state of the session\<close>

definition session_state :: "ClientId \<Rightarrow> nat \<Rightarrow> u64 \<Rightarrow> nat \<Rightarrow> nat \<Rightarrow> Sessions \<Rightarrow> bool" where
  "session_state c i e k l ss \<longleftrightarrow> cid_next_exp_seq_num ss (unat c) = of_nat (Suc k) \<and>
     cid_tcp_socket ss (unat c) = (if k = 0 then None else Some i) \<and> (k \<noteq> 0 \<longrightarrow> cid_session_epoch ss (unat c) = e) \<and>
     \<not> cid_session_unknown ss (unat c) \<and> socket_client ss i = (if k = 0 then None else Some c) \<and> number_of ss i = of_nat (Suc l)"

definition requests_flow :: "bool \<Rightarrow> ClientId \<Rightarrow> u64 \<Rightarrow> MEClientRequest list \<Rightarrow> nat \<Rightarrow> MEClientRequest list \<Rightarrow> OrderServer \<Rightarrow> bool" where
  "requests_flow ordered c e qs k tk os \<longleftrightarrow> k \<le> length qs \<and>
     mset (filter (of_client c) (tk @ contents (client_requests os)) @
       map recv_request (filter (of_client c \<circ> recv_request) (staged (fifo_sequencer os)))) = mset (take k (stamped e qs)) \<and>
     (ordered \<longrightarrow> filter (of_client c) (tk @ contents (client_requests os)) @
       map recv_request (filter (of_client c \<circ> recv_request) (staged (fifo_sequencer os))) = take k (stamped e qs) \<and>
     sorted (map recv_time (filter (of_client c \<circ> recv_request) (staged (fifo_sequencer os)))))"

definition times_flow :: "ClientId \<Rightarrow> int \<Rightarrow> OrderServer \<Rightarrow> bool" where
  "times_flow c time os \<longleftrightarrow> (\<forall>x \<in> set (staged (fifo_sequencer os)). of_client c (recv_request x) \<longrightarrow> recv_time x \<le> time)"

definition responses_flow :: "ClientId \<Rightarrow> u64 \<Rightarrow> nat \<Rightarrow> MEClientResponse list \<Rightarrow> u8 list \<Rightarrow> OrderServer \<Rightarrow> bool" where
  "responses_flow c e l pt bytes os \<longleftrightarrow> l \<le> length (filter (for_client c) pt) \<and>
     filter (for_client c) (contents (outgoing_responses os)) = drop l (filter (for_client c) pt) \<and>
     bytes = concat (map encode_response (numbered_responses e (take l (filter (for_client c) pt))))"

text \<open>After \<open>k\<close> frames of the client's connection and \<open>l\<close> responses to it.\<close>

definition flow_at :: "bool \<Rightarrow> ClientId \<Rightarrow> nat \<Rightarrow> u64 \<Rightarrow> MEClientRequest list \<Rightarrow> MEClientRequest list \<Rightarrow> MEClientResponse list \<Rightarrow> nat \<Rightarrow> nat \<Rightarrow>
    TCPServer \<Rightarrow> OrderServer \<Rightarrow> bool" where
  "flow_at ordered c i e qs tk pt k l t os \<longleftrightarrow> session_state c i e k l (sessions os) \<and> requests_flow ordered c e qs k tk os \<and>
     responses_flow c e l pt (if i < length (tcp_conns t) then conn_out t i else []) os \<and>
     (if i < length (tcp_conns t) then ordered \<longrightarrow> times_flow c (conn_time t i) os else k = 0)"

subsection \<open>Frames of other clients\<close>

text \<open>Nothing about the client and its connection changed in the tables.\<close>

definition same_client :: "ClientId \<Rightarrow> nat \<Rightarrow> Sessions \<Rightarrow> Sessions \<Rightarrow> bool" where
  "same_client c i ss ss' \<longleftrightarrow> cid_next_exp_seq_num ss' (unat c) = cid_next_exp_seq_num ss (unat c) \<and>
     cid_tcp_socket ss' (unat c) = cid_tcp_socket ss (unat c) \<and> cid_session_epoch ss' (unat c) = cid_session_epoch ss (unat c) \<and>
     cid_session_unknown ss' (unat c) = cid_session_unknown ss (unat c) \<and> socket_client ss' i = socket_client ss i \<and>
     number_of ss' i = number_of ss i"

lemma same_client_state: "same_client c i ss ss' \<Longrightarrow> session_state c i e k l ss \<Longrightarrow> session_state c i e k l ss'"
  by (simp add: same_client_def session_state_def)

lemma same_client_refl [simp]: "same_client c i ss ss"
  by (simp add: same_client_def)

lemma same_client_trans: "same_client c i s t \<Longrightarrow> same_client c i t u \<Longrightarrow> same_client c i s u"
  by (simp add: same_client_def)

lemma same_client_reject_number: "reject_number j ss = (n, ss') \<Longrightarrow> same_client c i ss ss'"
  using reject_number_ok [of j ss n ss'] by (simp add: same_client_def same_tables_def)

lemma same_client_next_number:
  assumes "j \<noteq> i" "socket_client ss j \<noteq> Some c" "socket_client ss i = None \<or> socket_client ss i = Some c"
  shows "same_client c i ss (next_number j n ss)"
  using assms by (auto simp: same_client_def next_number_def number_of_def client_eq_iff split: option.splits)

lemma same_client_take_over:
  assumes "j \<noteq> i" "rq_client_id (omq_request m) \<noteq> c" "socket_client ss i = None \<or> socket_client ss i = Some c"
  shows "same_client c i ss (take_over j m ss)"
  using assms by (auto simp: same_client_def take_over_def number_of_def client_eq_iff Let_def split: option.splits)

lemma same_client_bind:
  assumes "j \<noteq> i" "rq_client_id (omq_request m) \<noteq> c" "socket_client ss i = None \<or> socket_client ss i = Some c"
  shows "same_client c i ss (bind_session j m ss)"
  using assms by (auto simp: same_client_def bind_session_def anonymous_number_def number_of_def client_eq_iff Let_def split: option.splits)

lemma same_client_admission:
  assumes "j \<noteq> i" "rq_client_id (omq_request m) \<noteq> c" "socket_client ss i = None \<or> socket_client ss i = Some c"
    "admission alive j m ss = (reason, ss')"
  shows "same_client c i ss ss'"
proof -
  have "ss' = ss \<or> ss' = take_over j m ss"
    using assms(4) by (auto simp: admission_def check_owner_def Let_def split: if_splits option.splits prod.splits)
  then show ?thesis using same_client_take_over [OF assms(1-3)] by auto
qed

text \<open>What a frame of another connection may change: the tables of others, send buffers of others, and the staging of
  requests of others.\<close>

definition others_only :: "ClientId \<Rightarrow> nat \<Rightarrow> TCPServer \<Rightarrow> OrderServer \<Rightarrow> TCPServer \<Rightarrow> OrderServer \<Rightarrow> bool" where
  "others_only c i t os t' os' \<longleftrightarrow> same_client c i (sessions os) (sessions os') \<and> conn_out t' i = conn_out t i \<and> quiet t t' \<and> same_flags os os' \<and>
     (\<exists>xs. staged (fifo_sequencer os') = staged (fifo_sequencer os) @ xs \<and> (\<forall>x \<in> set xs. \<not> of_client c (recv_request x)))"

lemma others_only_flow:
  assumes o: "others_only c i t os t' os'" and f: "flow_at ordered c i e qs tk pt k l t os"
  shows "flow_at ordered c i e qs tk pt k l t' os'"
proof -
  obtain xs where xs: "staged (fifo_sequencer os') = staged (fifo_sequencer os) @ xs" "\<forall>x \<in> set xs. \<not> of_client c (recv_request x)"
    using o by (auto simp: others_only_def)
  then have st: "filter (of_client c \<circ> recv_request) (staged (fifo_sequencer os')) = filter (of_client c \<circ> recv_request) (staged (fifo_sequencer os))"
    by (simp add: filter_empty_conv)
  have q: "quiet t t'" "same_flags os os'" using o by (simp_all add: others_only_def)
  have len: "length (tcp_conns t') = length (tcp_conns t)" "conn_time t' i = conn_time t i"
    using q(1) quiet_same_frame [OF q(1)] by (simp_all add: quiet_def same_frame_def)
  have "times_flow c (conn_time t i) os \<Longrightarrow> times_flow c (conn_time t' i) os'" using xs len by (auto simp: times_flow_def)
  moreover have "requests_flow ordered c e qs k tk os'" using f st q(2) by (simp add: flow_at_def requests_flow_def same_flags_def)
  moreover have "session_state c i e k l (sessions os')"
    using f o by (auto simp: flow_at_def others_only_def intro: same_client_state)
  ultimately show ?thesis using f o q(2) len by (auto simp: flow_at_def others_only_def responses_flow_def same_flags_def)
qed

lemma reject_other:
  assumes inv: "server_inv t os" and j: "0 < j" "j < length (tcp_conns t)" "j \<noteq> i"
    and nc: "socket_client (sessions os) j \<noteq> Some c" and ic: "socket_client (sessions os) i = None \<or> socket_client (sessions os) i = Some c"
    and r: "reject sys j m reason (t, os) = Some (b, t', os')"
  shows "others_only c i t os t' os'"
proof -
  have ok: "conns_ok t" using inv by (simp add: server_inv_def)
  obtain ss where ss: "reject_number j (sessions os) = (number_of (sessions os) j, ss)" "same_queues os os'" "conns_ok t'" "quiet t t'"
    "\<not> b \<Longrightarrow> t' = t \<and> sessions os' = ss"
    "b \<Longrightarrow> sessions os' = next_number j (number_of (sessions os) j) ss \<and>
       conn_out t' = (conn_out t)(j := conn_out t j @ encode_response \<lparr>oms_seq_num = number_of (sessions os) j,
         oms_response = rejection j (omq_request m) reason (sessions os), oms_session_epoch = omq_session_epoch m\<rparr>)"
    using reject_effect [OF ok j(2) r] by metis
  note N = reject_number_ok(3) [OF ss(1)]
  have a: "same_client c i (sessions os) ss" by (rule same_client_reject_number [OF ss(1)])
  have "same_client c i ss (next_number j n ss)" for n
    using same_client_next_number [OF j(3)] nc ic N by (simp add: same_tables_def)
  then have "same_client c i (sessions os) (sessions os')" using a ss(5,6) by (cases b) (auto intro: same_client_trans)
  moreover have "conn_out t' i = conn_out t i" using ss(5,6) j(3) by (cases b) auto
  moreover have "staged (fifo_sequencer os') = staged (fifo_sequencer os)" using ss(2) by (simp add: same_queues_def)
  ultimately show ?thesis using ss(2,4) by (simp add: others_only_def same_queues_flags)
qed

lemma others_only_trans:
  assumes "others_only c i t os t' os'" "others_only c i t' os' u us"
  shows "others_only c i t os u us"
proof -
  obtain xs ys where "staged (fifo_sequencer us) = staged (fifo_sequencer os) @ xs @ ys" "\<forall>x \<in> set (xs @ ys). \<not> of_client c (recv_request x)"
    using assms unfolding others_only_def by (auto simp: ball_Un)
  then show ?thesis using assms unfolding others_only_def
    by (intro conjI exI [of _ "xs @ ys"]) (auto intro: same_client_trans quiet_trans same_flags_trans)
qed

lemma others_only_sessions:
  "same_client c i (sessions os) ss \<Longrightarrow> others_only c i t os t (os\<lparr>sessions := ss\<rparr>)"
  by (simp add: others_only_def same_flags_def)

lemma others_only_advance:
  "rq_client_id (omq_request m) \<noteq> c \<Longrightarrow> others_only c i t os t (advance m os)"
  by (auto simp: others_only_def same_flags_def same_client_def client_eq_iff)

lemma handle_request_other:
  assumes inv: "server_inv t os" and j: "0 < j" "j < length (tcp_conns t)" "j \<noteq> i"
    and mc: "rq_client_id (omq_request m) \<noteq> c" and ic: "socket_client (sessions os) i = None \<or> socket_client (sessions os) i = Some c"
    and nc: "socket_client (sessions os) j \<noteq> Some c"
    and h: "handle_request sys j rx m (t, os) = Some (b, t', os')"
  shows "others_only c i t os t' os'"
proof -
  have S: "sess_inv (length (tcp_conns t)) (conn_alive t) (conn_out t) (sessions os)"
    using inv by (simp add: server_inv_def tables_inv_def)
  have nj: "socket_client ss j \<noteq> Some c" if "admission (conn_alive t) j m (sessions os) = (r, ss)" for r ss
    using that nc mc by (auto simp: admission_def check_owner_def take_over_def Let_def split: if_splits option.splits prod.splits)
  from h show ?thesis
  proof (cases rule: handle_request_cases)
    case (invalid ss os1)
    note A = admission_ok [OF S j(1,2) invalid(1)]
    have sp: "may_speak j m ss" using A(3) by simp
    note B = sess_inv_bind [OF A(1) j(1,2) sp]
    have a: "same_client c i (sessions os) ss" by (rule same_client_admission [OF j(3) mc ic invalid(1)])
    then have ic': "socket_client ss i = None \<or> socket_client ss i = Some c" using ic by (simp add: same_client_def)
    have b: "same_client c i ss (bind_session j m ss)" by (rule same_client_bind [OF j(3) mc ic'])
    let ?os = "os\<lparr>sessions := bind_session j m ss\<rparr>"
    have "others_only c i t os t ?os" using a b by (intro others_only_sessions) (rule same_client_trans)
    moreover have "others_only c i t ?os t' os1"
      using B(3) mc b ic' by (intro reject_other [OF server_inv_sessions [OF inv B(1)] j _ _ invalid(3)]) (simp_all add: same_client_def)
    ultimately have "others_only c i t os t' os1" by (rule others_only_trans)
    then show ?thesis using invalid(4) others_only_advance [OF mc, of i t' os1] others_only_trans by (auto split: if_splits)
  next
    case (refused reason ss)
    note A = admission_ok [OF S j(1,2) refused(1)]
    have a: "same_client c i (sessions os) ss" by (rule same_client_admission [OF j(3) mc ic refused(1)])
    have "others_only c i t (os\<lparr>sessions := ss\<rparr>) t' os'"
      using nj [OF refused(1)] a ic by (intro reject_other [OF server_inv_sessions [OF inv A(1)] j _ _ refused(3)]) (simp_all add: same_client_def)
    then show ?thesis using others_only_sessions [OF a, of t] others_only_trans by blast
  next
    case (staged ss)
    have a: "same_client c i (sessions os) ss" by (rule same_client_admission [OF j(3) mc ic staged(1)])
    then have ic': "socket_client ss i = None \<or> socket_client ss i = Some c" using ic by (simp add: same_client_def)
    have f: "fifo_ok (fifo_sequencer (os\<lparr>sessions := ss\<rparr>))" using inv by (simp add: server_inv_def queues_inv_def)
    note F = stage_request_effect [OF f staged(3)]
    show ?thesis
    proof (cases b)
      case False then show ?thesis using F(1) others_only_sessions [OF a, of t] staged(4) by simp
    next
      case True
      note G = F(2) [OF True]
      have "same_client c i ss (sessions os')"
        using G same_client_bind [OF j(3) mc ic'] others_only_advance [OF mc, of i t "os\<lparr>sessions := bind_session j m ss\<rparr>"]
        by (auto simp: others_only_def intro: same_client_trans)
      then have "same_client c i (sessions os) (sessions os')" using a by (rule same_client_trans [rotated])
      then show ?thesis using G staged(4) mc by (simp add: others_only_def same_flags_def of_client_def)
    qed
  qed
qed

subsection \<open>Frames of the client\<close>

lemma validate_client: "validate r = Rej_NONE \<Longrightarrow> unat (rq_client_id r) < ME_MAX_NUM_CLIENTS"
  by (auto simp: validate_def split: if_splits)

lemma validate_stamp [simp]: "validate (r\<lparr>rq_session_epoch := a, rq_request_seq := b\<rparr>) = validate r"
  by (simp add: validate_def)

lemma honest_message:
  assumes h: "honest_client c e qs" and k: "k < length qs" and m: "m = stamped_message (numbered_requests e qs ! k)"
  shows "rq_client_id (omq_request m) = c" "omq_session_epoch m = e" "omq_seq_num m = of_nat (Suc k)" "validate (omq_request m) = Rej_NONE"
    "unat c < ME_MAX_NUM_CLIENTS" "e \<noteq> 0" "stamped e qs ! k = omq_request m"
proof -
  have r: "rq_client_id (qs ! k) = c" "validate (qs ! k) = Rej_NONE" "e \<noteq> 0" using h nth_mem [OF k] by (auto simp: honest_client_def)
  show "rq_client_id (omq_request m) = c" "omq_session_epoch m = e" "omq_seq_num m = of_nat (Suc k)" "validate (omq_request m) = Rej_NONE"
    "unat c < ME_MAX_NUM_CLIENTS" "e \<noteq> 0" "stamped e qs ! k = omq_request m"
    using r validate_client [OF r(2)] k by (simp_all add: m stamped_message_def nth_numbered_requests stamped_def)
qed

lemma honest_admitted:
  assumes h: "honest_client c e qs" and k: "k < length qs" and m: "m = stamped_message (numbered_requests e qs ! k)"
    and st: "session_state c i e k l ss"
  shows "admission alive i m ss = (Rej_NONE, ss)"
  using honest_message [OF h k m] st
  by (auto simp: admission_def check_owner_def check_session_def bound_elsewhere_def session_state_def Let_def split: if_splits)

lemma session_state_staged:
  assumes h: "honest_client c e qs" and k: "k < length qs" and m: "m = stamped_message (numbered_requests e qs ! k)"
    and st: "session_state c i e k l ss"
  shows "session_state c i e (Suc k) l (sessions (advance m (os\<lparr>sessions := bind_session i m ss\<rparr>)))"
proof (cases "k = 0")
  case False
  then have "bind_session i m ss = ss" using st honest_message(1) [OF h k m] by (simp add: bind_session_def session_state_def)
  then show ?thesis using st honest_message(1) [OF h k m] False by (simp add: session_state_def)
next
  case True
  have "number_of ss i = of_nat (Suc l)" "socket_client ss i = None" "cid_tcp_socket ss (unat c) = None" "cid_next_exp_seq_num ss (unat c) = 1"
    "\<not> cid_session_unknown ss (unat c)"
    using st True by (simp_all add: session_state_def)
  then show ?thesis using honest_message(1,2) [OF h k m] True
    by (auto simp: session_state_def bind_session_def anonymous_number_def number_of_def Let_def split: option.splits)
qed

lemma honest_request:
  assumes inv: "server_inv t os" and h: "honest_client c e qs" and fl: "flow_at ordered c i e qs tk pt k l t os" and k: "k < length qs"
    and i: "i < length (tcp_conns t)" and m: "m = stamped_message (numbered_requests e qs ! k)"
    and x: "handle_request sys i (conn_time t i) m (t, os) = Some (b, t', os')"
  shows "t' = t \<and> flow_at ordered c i e qs tk pt (if b then Suc k else k) l t' os' \<and> same_flags os os'"
proof -
  note M = honest_message [OF h k m]
  have st: "session_state c i e k l (sessions os)" using fl by (simp add: flow_at_def)
  note A = honest_admitted [OF h k m st, of "conn_alive t"]
  from x show ?thesis
  proof (cases rule: handle_request_cases)
    case (staged ss)
    have ss: "ss = sessions os" using staged(1) A by simp
    have f: "fifo_ok (fifo_sequencer (os\<lparr>sessions := ss\<rparr>))" using inv by (simp add: server_inv_def queues_inv_def)
    note F = stage_request_effect [OF f staged(3)]
    show ?thesis
    proof (cases b)
      case False
      then show ?thesis using F(1) fl staged(4) ss by simp
    next
      case True
      note G = F(2) [OF True]
      have "session_state c i e (Suc k) l (sessions os')"
        using session_state_staged [OF h k m st, of "os\<lparr>sessions := ss\<rparr>"] G ss by simp
      moreover have "requests_flow ordered c e qs (Suc k) tk os'"
        using fl i G M(1,7) k unfolding flow_at_def requests_flow_def times_flow_def
        by (auto simp: of_client_def sorted_append take_Suc_conv_app_nth)
      moreover have "ordered \<longrightarrow> times_flow c (conn_time t i) os'" using fl i G by (auto simp: flow_at_def times_flow_def)
      moreover have "responses_flow c e l pt (conn_out t i) os'" using fl i G by (simp add: flow_at_def responses_flow_def)
      ultimately show ?thesis using True i staged(4) G by (simp add: flow_at_def same_flags_def)
    qed
  qed (use A M(4) in auto)
qed

subsection \<open>The receive callback\<close>

definition handled :: "TCPServer \<Rightarrow> nat \<Rightarrow> nat" where
  "handled t i = (if i < length (tcp_conns t) then length (parsed_in (tcp_conns t ! i)) div RequestSize else 0)"

definition flow_inv :: "bool \<Rightarrow> ClientId \<Rightarrow> nat \<Rightarrow> u64 \<Rightarrow> MEClientRequest list \<Rightarrow> MEClientRequest list \<Rightarrow> MEClientResponse list \<Rightarrow>
    TCPServer \<Rightarrow> OrderServer \<Rightarrow> bool" where
  "flow_inv ordered c i e qs tk pt t os \<longleftrightarrow> (honest_client c e qs \<and> 0 < i \<and> inputs_honest c i e qs t \<longrightarrow>
     (\<exists>l. flow_at ordered c i e qs tk pt (handled t i) l t os))"

lemma session_state_not_other:
  assumes "binding_inv n alive ss" "session_state c i e k l ss" "j \<noteq> i"
  shows "socket_client ss j \<noteq> Some c"
proof
  assume "socket_client ss j = Some c"
  from binding_client [OF assms(1) this] assms(2,3) show False by (auto simp: session_state_def split: if_splits)
qed

text \<open>The frame after \<open>n\<close> handled bytes of the buffer, seen in the stream.\<close>

lemma buffer_frame:
  assumes ok: "sock_ok s" and n: "n + RequestSize \<le> next_rcv_valid_index s"
  shows "decode_request (drop n (inbound_data s)) = decode_request (take RequestSize (drop (length (parsed_in s) + n) (wire_in s)))"
    "length (parsed_in s) + n + RequestSize \<le> length (wire_in s)"
proof -
  have w: "wire_in s = parsed_in s @ in_bytes s" and len: "length (in_bytes s) = next_rcv_valid_index s"
    using ok by (simp_all add: sock_ok_def in_bytes_def)
  have "take RequestSize (drop n (inbound_data s)) = take RequestSize (drop n (in_bytes s))" using n by (simp add: in_bytes_def drop_take min_def)
  moreover have "RequestSize \<le> length (drop n (inbound_data s))" using n ok by (auto simp: sock_ok_def)
  ultimately show "decode_request (drop n (inbound_data s)) = decode_request (take RequestSize (drop (length (parsed_in s) + n) (wire_in s)))"
    using decode_request_take by (metis add_diff_cancel_left' append_Nil drop_append drop_all le_add1 w)
  show "length (parsed_in s) + n + RequestSize \<le> length (wire_in s)" using n w len by simp
qed

lemma handle_frame_flow:
  assumes inv: "server_inv t os" and h: "honest_client c e qs" and i: "0 < i" and ih: "inputs_honest c i e qs t"
    and j: "0 < j" "j < length (tcp_conns t)" and n: "RequestSize dvd n" "n + RequestSize \<le> next_rcv_valid_index (tcp_conns t ! j)"
    and fl: "flow_at ordered c i e qs tk pt (if j = i then handled t i + n div RequestSize else handled t i) l t os"
    and x: "handle_frame sys j (conn_time t j) (drop n (inbound_data (tcp_conns t ! j))) (t, os) = Some (b, t', os')"
  shows "flow_at ordered c i e qs tk pt (if j = i then handled t i + (if b then n + RequestSize else n) div RequestSize else handled t i) l t' os'"
proof -
  let ?s = "tcp_conns t ! j"
  have ok: "sock_ok ?s" and wf: "RequestSize dvd length (parsed_in ?s)"
    using inv j(2) by (simp_all add: server_inv_def conns_ok_def whole_frames_def)
  note B = buffer_frame [OF ok n(2)]
  obtain q where q: "length (parsed_in ?s) + n = RequestSize * q" using wf n(1) by (metis dvdE dvd_add)
  have RS: "0 < RequestSize" by (simp add: limits)
  then have q': "q = length (parsed_in ?s) div RequestSize + n div RequestSize"
    using q wf by (metis div_plus_div_distrib_dvd_left nonzero_mult_div_cancel_left not_gr_zero)
  have bind: "binding_inv (length (tcp_conns t)) (conn_alive t) (sessions os)"
    using inv by (simp add: server_inv_def tables_inv_def sess_inv_def)
  show ?thesis
  proof (cases "j = i")
    case True
    have "prefix (wire_in ?s) (request_stream e qs)" using ih j True by (auto simp: inputs_honest_def)
    note N = honest_next [OF h this, of q]
    have k: "q = handled t i + n div RequestSize" using q' True j by (simp add: handled_def)
    have d: "decode_request (drop n (inbound_data ?s)) = Some (Some (stamped_message (numbered_requests e qs ! q)))" and ql: "q < length qs"
      using B N q by simp_all
    have "handle_request sys i (conn_time t i) (stamped_message (numbered_requests e qs ! q)) (t, os) = Some (b, t', os')"
      using x d True by (simp add: handle_frame_def)
    moreover have "flow_at ordered c i e qs tk pt q l t os" using fl True k by simp
    ultimately have "flow_at ordered c i e qs tk pt (if b then Suc q else q) l t' os'"
      using honest_request [OF inv h _ ql _ refl, of ordered i tk pt l] j True by blast
    moreover have "(n + RequestSize) div RequestSize = Suc (n div RequestSize)"
      using RS div_add_self2 [of RequestSize n] by simp
    ultimately show ?thesis using True k by (simp split: if_splits)
  next
    case False
    have st: "session_state c i e (handled t i) l (sessions os)" using fl False by (simp add: flow_at_def)
    then have ic: "socket_client (sessions os) i = None \<or> socket_client (sessions os) i = Some c" by (simp add: session_state_def split: if_splits)
    have nc: "socket_client (sessions os) j \<noteq> Some c" by (rule session_state_not_other [OF bind st False])
    obtain d where d: "decode_request (drop n (inbound_data ?s)) = Some d" using x by (auto simp: handle_frame_def bind_Some_conv)
    have "others_only c i t os t' os'"
    proof (cases d)
      case None
      then have "reject sys j OMClientRequest_default Rej_VERSION (t, os) = Some (b, t', os')" using x d by (simp add: handle_frame_def)
      then show ?thesis by (rule reject_other [OF inv j False nc ic])
    next
      case (Some m)
      have "foreign c (wire_in ?s)" using ih j False by (auto simp: inputs_honest_def)
      then have "rq_client_id (omq_request m) \<noteq> c" using B q d Some unfolding foreign_def by (metis mult.commute)
      moreover have "handle_request sys j (conn_time t j) m (t, os) = Some (b, t', os')" using x d Some by (simp add: handle_frame_def)
      ultimately show ?thesis using handle_request_other [OF inv j False _ ic nc] by blast
    qed
    then show ?thesis using others_only_flow fl False by auto
  qed
qed

lemma inputs_honest_quiet: "quiet t t' \<Longrightarrow> inputs_honest c i e qs t' = inputs_honest c i e qs t"
  by (simp add: quiet_def same_input_def inputs_honest_def)

lemma handled_quiet: "quiet t t' \<Longrightarrow> handled t' i = handled t i"
  by (simp add: quiet_def same_input_def handled_def)

lemma frame_loop_flow:
  assumes inv: "server_inv t os" and acc: "accepting os" and h: "honest_client c e qs" and i: "0 < i" and ih: "inputs_honest c i e qs t"
    and j: "0 < j" "j < length (tcp_conns t)" and fl: "flow_at ordered c i e qs tk pt (handled t i) l t os"
    and x: "frame_loop sys j (conn_time t j) fuel 0 (t, os) = Some (n, u, us)"
  shows "loop_inv j (t, os) n (u, us) \<and> flow_at ordered c i e qs tk pt (if j = i then handled t i + n div RequestSize else handled t i) l u us"
proof -
  define P where "P n x \<longleftrightarrow> loop_inv j (t, os) n x \<and>
    flow_at ordered c i e qs tk pt (if j = i then handled t i + n div RequestSize else handled t i) l (fst x) (snd x)" for n x
  have "P n (u, us)"
  proof (rule frame_loop_rule [where P = P, OF _ _ x])
    show "P 0 (t, os)" using inv acc fl by (simp add: P_def loop_inv_def)
  next
    fix n x b x'
    assume p: "P n x" and le: "n + RequestSize \<le> next_rcv_valid_index (tcp_conns (fst x) ! j)"
      and f: "handle_frame sys j (conn_time t j) (drop n (inbound_data (tcp_conns (fst x) ! j))) x = Some (b, x')"
    have L: "loop_inv j (t, os) n x" using p by (simp add: P_def)
    have q: "quiet t (fst x)" "server_inv (fst x) (snd x)" "RequestSize dvd n" using L by (simp_all add: loop_inv_def)
    have ct: "conn_time (fst x) j = conn_time t j" using quiet_same_frame [OF q(1)] by (simp add: same_frame_def)
    have jl: "j < length (tcp_conns (fst x))" using q(1) j by (simp add: quiet_def)
    have "flow_at ordered c i e qs tk pt (if j = i then handled t i + n div RequestSize else handled t i) l (fst x) (snd x)" using p by (simp add: P_def)
    then have "flow_at ordered c i e qs tk pt (if j = i then handled t i + (if b then n + RequestSize else n) div RequestSize else handled t i) l (fst x') (snd x')"
      using handle_frame_flow [OF q(2) h i _ j(1) jl q(3) le, of ordered tk pt l sys b "fst x'" "snd x'", unfolded ct handled_quiet [OF q(1)]
          inputs_honest_quiet [OF q(1)] prod.collapse] f ih by blast
    moreover have "loop_inv j (t, os) (if b then n + RequestSize else n) x'"
      using loop_inv_step [OF j(1) _ L le f] j acc by simp
    ultimately show "P (if b then n + RequestSize else n) x'" by (simp add: P_def)
  qed
  then show ?thesis by (simp add: P_def)
qed

lemma recvCallback_flow:
  assumes inv: "server_inv t os" and j: "0 < j" "j < length (tcp_conns t)" and fl: "flow_inv ordered c i e qs tk pt t os"
    and r: "server_recvCallback sys j (conn_time t j) (t, os) = Some (t', os')"
  shows "flow_inv ordered c i e qs tk pt t' os'"
proof (cases "accepting os")
  case False then show ?thesis using r fl by (simp add: server_recvCallback_def)
next
  case True
  obtain n u where u: "frame_loop sys j (conn_time t j) (next_rcv_valid_index (tcp_conns t ! j)) 0 (t, os) = Some (n, u, os')"
      "t' = set_conn j (consume n (tcp_conns u ! j)) u"
    using r True by (auto simp: server_recvCallback_def bind_Some_conv)
  show ?thesis unfolding flow_inv_def
  proof (intro impI)
    assume a: "honest_client c e qs \<and> 0 < i \<and> inputs_honest c i e qs t'"
    have "loop_inv j (t, os) 0 (t, os)" using inv True by (simp add: loop_inv_def)
    then have LL: "loop_inv j (t, os) n (u, os')"
      using frame_loop_rule [where P = "loop_inv j (t, os)", OF loop_inv_step] u(1) j True by force
    then have q: "quiet t u" "server_inv u os'" "n \<le> next_rcv_valid_index (tcp_conns u ! j)" "RequestSize dvd n" by (simp_all add: loop_inv_def)
    have ju: "j < length (tcp_conns u)" using q(1) j by (simp add: quiet_def)
    have ok: "sock_ok (tcp_conns u ! j)" using q(2) ju by (simp add: server_inv_def conns_ok_def)
    note C = consume_ok [OF ok q(3)]
    have same: "wire_in (tcp_conns t' ! m) = wire_in (tcp_conns u ! m)" "conn_out t' m = conn_out u m" "conn_time t' m = conn_time u m" for m
      using C ju by (cases "m = j"; simp add: u(2) conn_out_def conn_time_def)+
    have len: "length (tcp_conns t') = length (tcp_conns u)" by (simp add: u(2))
    have "inputs_honest c i e qs t' = inputs_honest c i e qs u" by (simp only: inputs_honest_def same len)
    then have "inputs_honest c i e qs t" using a inputs_honest_quiet [OF q(1), of c i e qs] by simp
    then obtain l where "flow_at ordered c i e qs tk pt (handled t i) l t os" using fl a by (auto simp: flow_inv_def)
    then have f: "flow_at ordered c i e qs tk pt (if j = i then handled t i + n div RequestSize else handled t i) l u os'"
      using frame_loop_flow [OF inv True _ _ _ j _ u(1)] a \<open>inputs_honest c i e qs t\<close> by blast
    have "handled t' i = (if j = i then handled t i + n div RequestSize else handled t i)"
    proof (cases "j = i")
      case True
      have "length (take n (in_bytes (tcp_conns u ! i))) = n" using q(3) ok True by (simp add: in_bytes_def sock_ok_def)
      moreover have "parsed_in (tcp_conns u ! i) = parsed_in (tcp_conns t ! i)" using q(1) by (simp add: quiet_def same_input_def)
      ultimately show ?thesis using True C(4) ju len q(1,4) by (simp add: handled_def u(2) quiet_def div_plus_div_distrib_dvd_right)
    next
      case False
      then have "handled t' i = handled u i" by (simp add: handled_def u(2))
      then show ?thesis using handled_quiet [OF q(1), of i] False by simp
    qed
    moreover have "flow_at ordered c i e qs tk pt k l t' os' = flow_at ordered c i e qs tk pt k l u os'" for k by (simp only: flow_at_def same len)
    ultimately show "\<exists>l. flow_at ordered c i e qs tk pt (handled t' i) l t' os'" using f by metis
  qed
qed

lemma flow_at_transport:
  assumes "flow_at ordered c i e qs tk pt k l t os" "j < length (tcp_conns t)" "transport ordered (tcp_conns t ! j) s"
  shows "flow_at ordered c i e qs tk pt k l (set_conn j s t) os"
proof -
  have "conn_out (set_conn j s t) i = conn_out t i" "ordered \<Longrightarrow> conn_time t i \<le> conn_time (set_conn j s t) i"
    using assms(2,3) by (cases "i = j"; simp add: conn_out_def conn_time_def transport_def)+
  moreover from this(2) have "ordered \<Longrightarrow> times_flow c (conn_time t i) os \<Longrightarrow> times_flow c (conn_time (set_conn j s t) i) os"
    by (fastforce simp: times_flow_def)
  ultimately show ?thesis using assms(1) by (auto simp: flow_at_def)
qed

lemma flow_inv_transport:
  assumes fl: "flow_inv ordered c i e qs tk pt t os" and j: "j < length (tcp_conns t)" and s: "transport ordered (tcp_conns t ! j) s"
  shows "flow_inv ordered c i e qs tk pt (set_conn j s t) os"
proof -
  obtain bs where bs: "wire_in s = wire_in (tcp_conns t ! j) @ bs" "parsed_in s = parsed_in (tcp_conns t ! j)" using s by (auto simp: transport_def)
  have "inputs_honest c i e qs t" if "inputs_honest c i e qs (set_conn j s t)"
    unfolding inputs_honest_def
  proof (intro allI impI)
    fix m assume m: "m < length (tcp_conns t)" "0 < m"
    have "if m = i then prefix (wire_in (tcp_conns (set_conn j s t) ! m)) (request_stream e qs) else foreign c (wire_in (tcp_conns (set_conn j s t) ! m))"
      using that m unfolding inputs_honest_def by simp
    then show "if m = i then prefix (wire_in (tcp_conns t ! m)) (request_stream e qs) else foreign c (wire_in (tcp_conns t ! m))"
      using bs(1) j prefix_mono foreign_prefix by (cases "m = j") (auto split: if_splits)
  qed
  moreover have "handled (set_conn j s t) i = handled t i" using bs(2) j by (cases "i = j") (simp_all add: handled_def)
  ultimately show ?thesis using fl flow_at_transport [OF _ j s] unfolding flow_inv_def by metis
qed

text \<open>The order server is an owner of its connections for the session, too.\<close>

interpretation flo: server_owner "server_recvCallback sys"
  "\<lambda>t os. server_inv t os \<and> same_flags os0 os \<and> flow_inv ordered c i e qs tk pt t os" ordered for sys os0 ordered c i e qs tk pt
proof
  fix t os j t' os'
  assume a: "server_inv t os \<and> same_flags os0 os \<and> flow_inv ordered c i e qs tk pt t os" and j: "j < length (tcp_conns t)" "j \<noteq> 0"
    and r: "server_recvCallback sys j (conn_time t j) (t, os) = Some (t', os')"
  note R = recvCallback_inv [OF _ _ j(1) r]
  show "server_inv t' os' \<and> same_flags os0 os' \<and> flow_inv ordered c i e qs tk pt t' os'"
    using R recvCallback_flow [OF _ _ j(1) _ r] a j(2) by (auto intro: same_flags_trans)
  show "same_frame t t'" using R a j(2) by blast
next
  fix t os j s
  assume "server_inv t os \<and> same_flags os0 os \<and> flow_inv ordered c i e qs tk pt t os" "j < length (tcp_conns t)" "transport ordered (tcp_conns t ! j) s"
  then show "server_inv (set_conn j s t) os \<and> same_flags os0 os \<and> flow_inv ordered c i e qs tk pt (set_conn j s t) os"
    using server_inv_transport flow_inv_transport by blast
qed

subsection \<open>The session along every step of the server\<close>

lemma numbered_snoc_response:
  "numbered_responses e (rs @ [r]) = numbered_responses e rs @ [\<lparr>oms_seq_num = of_nat (Suc (length rs)), oms_response = r, oms_session_epoch = e\<rparr>]"
  by (simp add: numbered_responses_def enumerate_append_eq)

lemma flow_sequence:
  assumes q: "queues_inv os" and fl: "flow_at ordered c i e qs tk pt k l t os"
  shows "flow_at ordered c i e qs tk pt k l t (recvFinishedCallback os)"
proof -
  obtain f p where r: "sequenceAndPublish (fifo_sequencer os) (client_requests os) = (f, p)"
    by (cases "sequenceAndPublish (fifo_sequencer os) (client_requests os)")
  have o: "recvFinishedCallback os = os\<lparr>fifo_sequencer := f, client_requests := p\<rparr>" using r by (simp add: recvFinishedCallback_def)
  have k: "fifo_ok (fifo_sequencer os)" "queue_ok (client_requests os)" using q by (simp_all add: queues_inv_def)
  have R: "requests_flow ordered c e qs k tk os" using fl by (simp add: flow_at_def)
  note S = sequence_kept(1) [OF k r, of "of_client c"] sequence_kept(2) [OF k r] sequence_kind [OF k r, of "of_client c"]
  have "requests_flow ordered c e qs k tk (recvFinishedCallback os)" using S(1,3,4) R by (simp add: o requests_flow_def)
  moreover have "times_flow c T os \<Longrightarrow> times_flow c T (recvFinishedCallback os)" for T
    using S(2) by (auto simp: o times_flow_def)
  ultimately show ?thesis using fl by (auto simp: flow_at_def responses_flow_def o)
qed

lemma flow_respond:
  assumes inv: "server_inv t os" and p: "peek (outgoing_responses os) = Some r" and s: "send_response r (t, os) = Some (b, t', os')"
    and fl: "flow_at ordered c i e qs tk pt k l t os"
  shows "\<exists>l'. flow_at ordered c i e qs tk pt k l' t' os'"
proof (cases b)
  case False
  then have "t' = t \<and> os' = os" using send_response_effect [OF inv p s] by metis
  then show ?thesis using fl by blast
next
  case True
  let ?d = "rs_client_id r" and ?ss = "sessions os"
  obtain j q where E: "cid_tcp_socket ?ss (unat ?d) = Some j" "j < length (tcp_conns t)" "quiet t t'"
    "conn_out t' = (conn_out t)(j := conn_out t j @ encode_response \<lparr>oms_seq_num = cid_next_outgoing_seq_num ?ss (unat ?d),
        oms_response = r, oms_session_epoch = cid_session_epoch ?ss (unat ?d)\<rparr>)"
    "contents (outgoing_responses os) = r # contents q"
    "os' = os\<lparr>outgoing_responses := q, sessions := ?ss\<lparr>cid_next_outgoing_seq_num :=
        (cid_next_outgoing_seq_num ?ss)(unat ?d := cid_next_outgoing_seq_num ?ss (unat ?d) + 1)\<rparr>\<rparr>"
    using send_response_effect [OF inv p s] True by metis
  have bind: "binding_inv (length (tcp_conns t)) (conn_alive t) ?ss"
    using inv by (simp add: server_inv_def tables_inv_def sess_inv_def)
  note B = binding_tcp [OF bind E(1)]
  have st: "session_state c i e k l ?ss" using fl by (simp add: flow_at_def)
  have len: "length (tcp_conns t') = length (tcp_conns t)" "conn_time t' i = conn_time t i"
    using E(3) quiet_same_frame [OF E(3)] by (simp_all add: quiet_def same_frame_def)
  have RF: "requests_flow ordered c e qs k tk os'" "times_flow c T os \<Longrightarrow> times_flow c T os'" for T
    using fl by (simp_all add: E(6) flow_at_def requests_flow_def times_flow_def)
  let ?pt = "filter (for_client c) pt"
  show ?thesis
  proof (cases "?d = c")
    case True
    then have k0: "k \<noteq> 0" and j: "j = i" using st E(1) by (auto simp: session_state_def split: if_splits)
    have ns: "number_of ?ss i = cid_next_outgoing_seq_num ?ss (unat c)" using st k0 by (simp add: session_state_def number_of_def)
    have il: "i < length (tcp_conns t)" using E(2) j by simp
    have F: "responses_flow c e l pt (conn_out t i) os" using fl il by (simp add: flow_at_def)
    have dr: "drop l ?pt = r # filter (for_client c) (contents q)" using F E(5) True by (simp add: responses_flow_def for_client_def)
    then have l: "l < length ?pt" "?pt ! l = r" "drop (Suc l) ?pt = filter (for_client c) (contents q)"
      by (metis drop_eq_Nil2 list.distinct(1) not_le, metis nth_via_drop, metis drop_Suc list.sel(3) tl_drop)
    then have tk: "take (Suc l) ?pt = take l ?pt @ [r]" by (simp add: take_Suc_conv_app_nth)
    have st': "number_of ?ss i = of_nat (Suc l)" "socket_client ?ss i = Some c" "cid_next_exp_seq_num ?ss (unat c) = of_nat (Suc k)"
        "cid_tcp_socket ?ss (unat c) = Some i" "cid_session_epoch ?ss (unat c) = e" "\<not> cid_session_unknown ?ss (unat c)"
      using st k0 by (simp_all add: session_state_def)
    have "session_state c i e k (Suc l) (sessions os')"
      using st' k0 True ns by (simp add: E(6) session_state_def number_of_def)
    moreover have "responses_flow c e (Suc l) pt (conn_out t' i) os'"
      using F l tk st ns k0 True j unfolding responses_flow_def E(4,6) by (simp add: numbered_snoc_response session_state_def)
    ultimately show ?thesis using fl RF il len by (intro exI [of _ "Suc l"]) (simp add: flow_at_def)
  next
    case False
    then have ud: "unat ?d \<noteq> unat c" by (simp add: client_eq_iff)
    have ji: "j \<noteq> i" using B st False by (auto simp: session_state_def split: if_splits)
    have "session_state c i e k l (sessions os')"
      using st ud by (auto simp: E(6) session_state_def number_of_def split: if_splits option.splits)
    moreover have "conn_out t' i = conn_out t i" using E(4) ji by simp
    moreover have "responses_flow c e l pt bs os \<Longrightarrow> responses_flow c e l pt bs os'" for bs
      using E(5) False by (simp add: E(6) responses_flow_def for_client_def)
    ultimately show ?thesis using fl RF len by (intro exI [of _ l]) (auto simp: flow_at_def)
  qed
qed

lemma flow_inv_cong:
  assumes "flow_inv ordered c i e qs tk pt t os" "\<And>l. flow_at ordered c i e qs tk pt (handled t i) l t os \<Longrightarrow> \<exists>l. flow_at ordered c i e qs tk' pt' (handled t i) l t os'"
  shows "flow_inv ordered c i e qs tk' pt' t os'"
  using assms unfolding flow_inv_def by blast

lemma flow_poll:
  assumes inv: "server_inv t os" and p: "server_poll es acc t = Some t'" "\<forall>e \<in> set es. ev_socket e < length (tcp_conns t)"
    and fl: "flow_inv ordered c i e qs tk pt t os"
  shows "flow_inv ordered c i e qs tk pt t' os"
  unfolding flow_inv_def
proof (intro impI)
  assume a: "honest_client c e qs \<and> 0 < i \<and> inputs_honest c i e qs t'"
  have ck: "conns_ok t" using inv by (simp add: server_inv_def)
  obtain new where n: "tcp_conns t' = tcp_conns t @ new" "\<forall>s \<in> set new. fresh_conn s" using server_poll_ok [OF p(1) ck p(2)] by blast
  have "inputs_honest c i e qs t" using a n(1) unfolding inputs_honest_def by (auto simp: nth_append split: if_splits)
  then obtain l where l: "flow_at ordered c i e qs tk pt (handled t i) l t os" using fl a by (auto simp: flow_inv_def)
  show "\<exists>l. flow_at ordered c i e qs tk pt (handled t' i) l t' os"
  proof (cases "i < length (tcp_conns t)")
    case True
    then have "handled t' i = handled t i" "conn_out t' i = conn_out t i" "conn_time t' i = conn_time t i" "i < length (tcp_conns t')"
      using n(1) by (simp_all add: handled_def conn_out_def conn_time_def nth_append)
    then show ?thesis using l True by (auto simp: flow_at_def)
  next
    case out: False
    then have k0: "handled t i = 0" by (simp add: handled_def)
    show ?thesis
    proof (cases "i < length (tcp_conns t')")
      case True
      then have "fresh_conn (tcp_conns t' ! i)" using out n by (auto simp: nth_append)
      then have f: "handled t' i = 0" "conn_out t' i = []" by (simp_all add: handled_def conn_out_def fresh_conn_def)
      have "filter (of_client c \<circ> recv_request) (staged (fifo_sequencer os)) = []" using l k0 by (simp add: flow_at_def requests_flow_def)
      then have "times_flow c (conn_time t' i) os" by (auto simp: times_flow_def filter_empty_conv)
      then show ?thesis using l out True f k0 by (auto simp: flow_at_def)
    next
      case False then show ?thesis using l out k0 by (auto simp: flow_at_def handled_def)
    qed
  qed
qed

definition net_flow :: "bool \<Rightarrow> ClientId \<Rightarrow> nat \<Rightarrow> u64 \<Rightarrow> MEClientRequest list \<Rightarrow> ServerNet \<Rightarrow> bool" where
  "net_flow ordered c i e qs = (\<lambda>(t, os, tk, pt). server_inv t os \<and> flow_inv ordered c i e qs tk pt t os)"

lemma flow_inv_conns:
  assumes "flow_inv ordered c i e qs tk pt t os" "length (tcp_conns t') = length (tcp_conns t)" "\<And>j. 0 < j \<Longrightarrow> tcp_conns t' ! j = tcp_conns t ! j"
  shows "flow_inv ordered c i e qs tk pt t' os"
  using assms by (auto simp: flow_inv_def inputs_honest_def flow_at_def handled_def conn_out_def conn_time_def)

lemma flow_at_flags:
  "flow_at ordered c i e qs tk pt k l t (os\<lparr>server_run := b\<rparr>) = flow_at ordered c i e qs tk pt k l t os"
  "flow_at ordered c i e qs tk pt k l t (os\<lparr>server_audit := jn\<rparr>) = flow_at ordered c i e qs tk pt k l t os"
  "flow_at ordered c i e qs tk pt k l t (quiesce_check os) = flow_at ordered c i e qs tk pt k l t os"
  "flow_at ordered c i e qs tk pt k l t (quiesce_begin os) = flow_at ordered c i e qs tk pt k l t os"
  "flow_at ordered c i e qs tk pt k l t (server_stop now os) = flow_at ordered c i e qs tk pt k l t os"
  by (simp_all add: flow_at_def requests_flow_def times_flow_def responses_flow_def quiesce_check_def quiesce_begin_def server_stop_def)

lemma server_step_flow:
  assumes "server_step ordered sys x y" "net_flow ordered c i e qs x"
  shows "net_flow ordered c i e qs y"
proof -
  have "net_inv x" using assms(2) by (auto simp: net_flow_def net_inv_def split: prod.splits)
  then have inv: "net_inv y" using server_step_inv [OF assms(1)] by blast
  have "case y of (t, os, tk, pt) \<Rightarrow> flow_inv ordered c i e qs tk pt t os" using assms
  proof (induct rule: server_step.induct)
    case (sv_start efd fd err added t os t' os' tk pt)
    then have iv: "server_inv t os" and fl: "flow_inv ordered c i e qs tk pt t os" by (simp_all add: net_flow_def)
    note S = server_start_inv [OF iv sv_start(1)]
    have "tcp_conns t' ! j = tcp_conns t ! j" if "0 < j" for j
      using sv_start(1) that by (auto simp: server_start_def tcp_listen_def Let_def set_conn_def split: if_splits prod.splits)
    then have "flow_inv ordered c i e qs tk pt t' os" using flow_inv_conns [OF fl S(3)] by blast
    then show ?case by (simp add: S(2) flow_inv_def flow_at_flags)
  next
    case (sv_poll es acc t t' os tk pt)
    then show ?case using flow_poll [of t os es acc t'] by (simp add: net_flow_def)
  next
    case (sv_conn j t inp out os t' os' tk pt)
    then show ?case using flo.conn_io_inv [of t os os ordered c i e qs tk pt j inp sys out t' os'] by (simp add: net_flow_def)
  next
    case (sv_sequence t os tk pt)
    then have "queues_inv os" "flow_inv ordered c i e qs tk pt t os" by (simp_all add: net_flow_def server_inv_def)
    then have "flow_inv ordered c i e qs tk pt t (recvFinishedCallback os)" using flow_sequence unfolding flow_inv_def by blast
    then show ?case by simp
  next
    case (sv_check t os tk pt)
    then show ?case by (simp add: net_flow_def flow_inv_def flow_at_flags)
  next
    case (sv_respond os r t b t' os' tk pt)
    then have iv: "server_inv t os" and fl: "flow_inv ordered c i e qs tk pt t os" by (simp_all add: net_flow_def)
    have "quiet t t'" using send_response_effect [OF iv sv_respond(1,2)] by metis
    then show ?case using fl flow_respond [OF iv sv_respond(1,2)] inputs_honest_quiet handled_quiet unfolding flow_inv_def by auto
  next
    case (sv_flush j t os tk pt out)
    then show ?case using flow_inv_transport [of ordered c i e qs tk pt t os j] flushSend_transport [of ordered "tcp_conns t ! j" out]
      by (simp add: net_flow_def)
  next
    case (sv_quiesce t os tk pt)
    then show ?case by (simp add: net_flow_def flow_inv_def flow_at_flags)
  next
    case (sv_stop t os tk pt now)
    then show ?case by (simp add: net_flow_def flow_inv_def flow_at_flags)
  next
    case (sv_audit t os tk pt jn)
    then show ?case by (simp add: net_flow_def flow_inv_def flow_at_flags)
  next
    case (sv_take os r q t tk pt)
    then have "contents (client_requests os) = r # contents q"
      using pop_contents [of "client_requests os" "Some r" q] by (simp add: net_flow_def server_inv_def queues_inv_def)
    then have "flow_at ordered c i e qs tk pt k l t os \<Longrightarrow> flow_at ordered c i e qs (tk @ [r]) pt k l t (os\<lparr>client_requests := q\<rparr>)" for k l
      by (auto simp: flow_at_def requests_flow_def responses_flow_def times_flow_def)
    then show ?case using sv_take by (auto simp: net_flow_def flow_inv_def)
  next
    case (sv_put r os q t tk pt)
    then have "contents q = contents (outgoing_responses os) @ [r]"
      using push_contents [of "outgoing_responses os" r True q] by (simp add: net_flow_def server_inv_def queues_inv_def)
    then have "flow_at ordered c i e qs tk pt k l t os \<Longrightarrow> flow_at ordered c i e qs tk (pt @ [r]) k l t (os\<lparr>outgoing_responses := q\<rparr>)" for k l
      by (auto simp: flow_at_def requests_flow_def responses_flow_def times_flow_def)
    then show ?case using sv_put by (auto simp: net_flow_def flow_inv_def)
  qed
  then show ?thesis using inv by (auto simp: net_flow_def net_inv_def split: prod.splits)
qed

lemma server_begin_flow:
  assumes "server_begin n1 n2 z1 z2 jn = Some x"
  shows "net_flow ordered c i e qs x"
proof -
  obtain t q1 q2 where q: "TCPServer_new = Some t" "LFQueue_new z1 n1 = Some q1" "LFQueue_new z2 n2 = Some q2"
    and x: "x = (t, OrderServer_new q1 q2 jn, [], [])" using assms by (auto simp: server_begin_def bind_Some_conv)
  have len: "length (tcp_conns t) = 1" using q(1) by (auto simp: TCPServer_new_def bind_Some_conv)
  have "flow_at ordered c i e qs [] [] (handled t i) 0 t (OrderServer_new q1 q2 jn)" if "0 < i"
    using that len queue_new_ok [OF q(2)] queue_new_ok [OF q(3)] FIFOSequencer_new_ok(2)
    by (simp add: flow_at_def handled_def session_state_def requests_flow_def responses_flow_def OrderServer_new_def Sessions_new_def
        number_of_def numbered_responses_def)
  then show ?thesis using server_begin_inv [OF assms] by (auto simp: x net_flow_def net_inv_def flow_inv_def)
qed

lemma server_session:
  assumes b: "server_begin n1 n2 z1 z2 jn = Some x" and r: "(server_step ordered sys)\<^sup>*\<^sup>* x (t, os, tk, pt)"
    and h: "honest_client c e qs" "0 < i" "inputs_honest c i e qs t"
  shows "\<exists>l. flow_at ordered c i e qs tk pt (handled t i) l t os"
proof -
  have "net_flow ordered c i e qs (t, os, tk, pt)"
    using r server_begin_flow [OF b] by (induct rule: rtranclp_induct) (auto intro: server_step_flow)
  then show ?thesis using h by (simp add: net_flow_def flow_inv_def)
qed

subsection \<open>Gateway and server\<close>

definition response_wire_ok :: "MEClientResponse \<Rightarrow> bool" where
  "response_wire_ok r \<longleftrightarrow> resp_ok (rs_type r) \<and> side_ok (rs_side r) \<and> rej_ok (rs_reject_reason r) \<and> i64 (rs_price r) \<and> i64 (rs_position r)"

lemma session_view_numbered:
  assumes "\<forall>r \<in> set rs. response_wire_ok r"
  shows "session_view n (concat (map encode_response (map (\<lambda>(n, r). \<lparr>oms_seq_num = of_nat n, oms_response = r, oms_session_epoch = e\<rparr>) (enumerate n rs)))) = rs"
  using assms
proof (induct rs arbitrary: n)
  case Nil then show ?case by (simp add: session_view_short limits)
next
  case (Cons r rs)
  let ?m = "\<lparr>oms_seq_num = of_nat n, oms_response = r, oms_session_epoch = e\<rparr>"
  have "decode_response (encode_response ?m) = Some (Some ?m)"
    using response_on_wire [of ?m "[]"] Cons.prems by (simp add: response_wire_ok_def)
  then show ?case using Cons.hyps [of "Suc n"] Cons.prems session_view_frame [of "encode_response ?m" n]
    by simp
qed

lemma take_enumerate: "take k (enumerate n xs) = enumerate n (take k xs)"
  by (induct xs arbitrary: k n) (auto simp: take_Cons')

lemma numbered_responses_take: "numbered_responses e (take k rs) = take k (numbered_responses e rs)"
  by (simp add: numbered_responses_def take_map take_enumerate)

lemma numbered_requests_take: "numbered_requests e (take k qs) = take k (numbered_requests e qs)"
  by (simp add: numbered_requests_def take_map take_enumerate)

lemma concat_take_prefix: "prefix (concat (map f (take k xs))) (concat (map f xs))"
  by (metis append_take_drop_id concat_append map_append prefix_def)

text \<open>A whole number of frames at the front of a stream.\<close>

lemma frames_prefix:
  assumes "\<And>x. length (f x) = n" "0 < n" "n dvd length p" "prefix p (concat (map f xs))"
  shows "\<exists>k \<le> length xs. p = concat (map f (take k xs))"
proof -
  have l: "length (concat (map f ys)) = n * length ys" for ys using assms(1) by (intro length_concat_frames) simp
  obtain k where k: "length p = n * k" using assms(3) by auto
  then have kl: "k \<le> length xs" using prefix_length_le [OF assms(4)] assms(2) l [of xs] by simp
  have "p = take (n * k) (concat (map f xs))" using assms(4) k by (auto simp: prefix_def)
  also have "\<dots> = take (n * k) (concat (map f (take k xs)) @ concat (map f (drop k xs)))"
    by (metis append_take_drop_id concat_append map_append)
  also have "\<dots> = concat (map f (take k xs))" using l [of "take k xs"] kl by (simp add: min_absorb2)
  finally show ?thesis using kl by blast
qed

text \<open>An order session end to end. A gateway and the server run with any interleaving, loss of buffers to backpressure,
  short writes and other clients; TCP delivers to each side a prefix of what the other side has written; the requests are
  valid requests of the client, and no other connection speaks for it. Then the requests of that client that the
  matching engine has taken are requests the trading engine gave to the gateway, each once, and a prefix of them when the
  receive times of a connection never go back; and the responses the gateway has handed over are a prefix of those the matching
  engine has issued for that client, in order, each once, with no rejection of the server in between.\<close>

lemma session_prefixes:
  assumes gw: "gwn_inv c e (s, g, qs, rs)"
    and sv: "server_begin n1 n2 z1 z2 jn = Some y" "(server_step ordered sys)\<^sup>*\<^sup>* y (t, os, tk, pt)"
    and i: "0 < i" "i < length (tcp_conns t)"
    and tcp: "prefix (wire_in (tcp_conns t ! i)) (wire_out s)" "prefix (wire_in s) (wire_out (tcp_conns t ! i))"
    and honest: "honest_client c e qs" "\<forall>j < length (tcp_conns t). 0 < j \<and> j \<noteq> i \<longrightarrow> foreign c (wire_in (tcp_conns t ! j))"
    and engine: "\<forall>r \<in> set pt. response_wire_ok r"
  shows "mset (filter (of_client c) tk) \<subseteq># mset (stamped e qs) \<and> (ordered \<longrightarrow> prefix (filter (of_client c) tk) (stamped e qs)) \<and>
     prefix (rs @ contents (incoming_responses g)) (filter (for_client c) pt)"
proof -
  have G: "gateway_inv c e qs rs 0 s g" using gw by (simp add: gwn_inv_def)
  obtain k where k: "out_stream s = concat (map encode_request (numbered_requests e (take k qs)))"
    using G by (auto simp: gateway_inv_def sent_inv_def)
  have "prefix (out_stream s) (request_stream e qs)" unfolding k request_stream_def numbered_requests_take by (rule concat_take_prefix)
  moreover have "prefix (wire_out s) (out_stream s)" by (simp add: out_stream_def)
  ultimately have "prefix (wire_in (tcp_conns t ! i)) (request_stream e qs)" using tcp(1) by (meson prefix_order.trans)
  then have "inputs_honest c i e qs t" using honest(2) by (auto simp: inputs_honest_def)
  then obtain l where F: "flow_at ordered c i e qs tk pt (handled t i) l t os" using server_session [OF sv honest(1) i(1)] by blast
  let ?k = "take (handled t i) (stamped e qs)" and ?rest = "filter (of_client c) (contents (client_requests os)) @
      map recv_request (filter (of_client c \<circ> recv_request) (staged (fifo_sequencer os)))"
  have R: "mset (filter (of_client c) tk @ ?rest) = mset ?k" "ordered \<longrightarrow> filter (of_client c) tk @ ?rest = ?k"
    using F by (simp_all add: flow_at_def requests_flow_def)
  have "mset ?k \<subseteq># mset (stamped e qs)" by (metis append_take_drop_id mset_append mset_subset_eq_add_left)
  then have one: "mset (filter (of_client c) tk) \<subseteq># mset (stamped e qs)"
    using R(1) by (metis mset_append mset_subset_eq_add_left subset_mset.order_trans)
  have two: "ordered \<longrightarrow> prefix (filter (of_client c) tk) (stamped e qs)" using R(2) take_is_prefix prefix_mono by metis
  let ?ms = "numbered_responses e (filter (for_client c) pt)"
  have "out_stream (tcp_conns t ! i) = concat (map encode_response (take l ?ms))"
    using F i by (simp add: flow_at_def responses_flow_def conn_out_def numbered_responses_take)
  moreover have "prefix (wire_out (tcp_conns t ! i)) (out_stream (tcp_conns t ! i))" by (simp add: out_stream_def)
  moreover have p: "wire_in s = parsed_in s @ in_bytes s" "ResponseSize dvd length (parsed_in s)"
      "rs @ contents (incoming_responses g) = session_view 1 (parsed_in s)"
    using G by (simp_all add: gateway_inv_def view_inv_def handled_view_def gw_base_def sock_ok_def)
  moreover have "prefix (parsed_in s) (wire_out (tcp_conns t ! i))" by (rule prefix_mono [OF tcp(2) [unfolded p(1)]])
  ultimately have "prefix (parsed_in s) (concat (map encode_response ?ms))"
    using concat_take_prefix [of encode_response l ?ms] by (auto intro: prefix_order.trans)
  then obtain m where "parsed_in s = concat (map encode_response (take m ?ms))"
    using frames_prefix [of encode_response ResponseSize "parsed_in s" ?ms] p(2) by (auto simp: limits)
  then have pp: "parsed_in s = concat (map encode_response (numbered_responses e (take m (filter (for_client c) pt))))"
    by (simp only: numbered_responses_take)
  have w: "\<forall>r \<in> set (take m (filter (for_client c) pt)). response_wire_ok r" using engine by (auto dest: in_set_takeD)
  have "session_view 1 (parsed_in s) = take m (filter (for_client c) pt)"
    unfolding pp numbered_responses_def by (rule session_view_numbered [OF w])
  then show ?thesis using one two p(3) by (simp add: take_is_prefix)
qed

lemma sample_honest: "honest_client 3 77 [sample_request]"
proof -
  have "req_ok (rq_type sample_request)" "side_ok (rq_side sample_request)" "rq_client_id sample_request = 3"
    by (simp_all add: sample_request_def MEClientRequest_default_def req_ok_def side_ok_def)
  moreover have "i64 (rq_price sample_request)" by (simp add: sample_request_def i64_def)
  moreover have "validate sample_request = Rej_NONE"
    by (simp add: sample_request_def MEClientRequest_default_def validate_def limits)
  ultimately show ?thesis by (simp add: honest_client_def)
qed

end
