(* ===== verification/Order_Admission.thy ===== *)
theory Order_Admission
  imports Order_Server_Props
begin

text \<open>
  What the order server promises to the matching engine: every request it stages, queues or has handed over is valid and
  belongs to a client that has a session on one of the connections. The promise is an invariant along every step of the
  server, so the engine may rely on it in any interleaving.
\<close>

definition admissible :: "Sessions \<Rightarrow> MEClientRequest \<Rightarrow> bool" where
  "admissible ss r \<longleftrightarrow> validate r = Rej_NONE \<and> i64 (rq_price r) \<and> side_ok (rq_side r) \<and>
     cid_tcp_socket ss (unat (rq_client_id r)) \<noteq> None"

lemma admissible_keeps: "admissible ss r \<Longrightarrow> keeps ss ss' \<Longrightarrow> admissible ss' r"
  by (simp add: admissible_def keeps_def)

definition admitted :: "OrderServer \<Rightarrow> bool" where
  "admitted os \<longleftrightarrow> (\<forall>r \<in> recv_request ` set (staged (fifo_sequencer os)) \<union> set (contents (client_requests os)). admissible (sessions os) r)"

lemma admitted_keeps:
  assumes "admitted os" "keeps (sessions os) (sessions os')" "staged (fifo_sequencer os') = staged (fifo_sequencer os)"
    "client_requests os' = client_requests os"
  shows "admitted os'"
  using assms admissible_keeps unfolding admitted_def by metis

lemma same_queues_staged: "same_queues os os' \<Longrightarrow> staged (fifo_sequencer os') = staged (fifo_sequencer os) \<and> client_requests os' = client_requests os"
  by (simp add: same_queues_def)

lemma decoded_fields:
  assumes "decode_request p = Some (Some m)"
  shows "i64 (rq_price (omq_request m)) \<and> side_ok (rq_side (omq_request m))"
proof -
  have "i64 (sint (w :: u64))" for w using sint_range_size [of w] by (auto simp: i64_def word_size)
  then show ?thesis using assms
    by (auto simp: decode_request_def bind_Some_conv get_i64_def split: option.splits)
qed

subsection \<open>One frame\<close>

lemma handle_request_admitted:
  assumes inv: "server_inv t os" and i: "0 < i" "i < length (tcp_conns t)" and acc: "accepting os"
    and h: "handle_request sys i rx m (t, os) = Some (b, t', os')" and a: "admitted os"
    and d: "i64 (rq_price (omq_request m)) \<and> side_ok (rq_side (omq_request m))"
  shows "admitted os'"
proof -
  have k: "keeps (sessions os) (sessions os')" using handle_request_inv [OF inv i acc h] by blast
  have S: "sess_inv (length (tcp_conns t)) (conn_alive t) (conn_out t) (sessions os)"
    using inv by (simp add: server_inv_def tables_inv_def)
  from h show ?thesis
  proof (cases rule: handle_request_cases)
    case (invalid ss os1)
    note A = admission_ok [OF S i invalid(1)]
    have "server_inv t (os\<lparr>sessions := bind_session i m ss\<rparr>)"
      by (rule server_inv_sessions [OF inv sess_inv_bind(1) [OF A(1) i]]) (use A(3) in simp)
    note R = reject_inv [OF this i invalid(3)]
    show ?thesis using same_queues_staged [OF R(3)] invalid(4) by (intro admitted_keeps [OF a k]) simp_all
  next
    case (refused reason ss)
    note A = admission_ok [OF S i refused(1)]
    note R = reject_inv [OF server_inv_sessions [OF inv A(1)] i refused(3)]
    show ?thesis using same_queues_staged [OF R(3)] by (intro admitted_keeps [OF a k]) simp_all
  next
    case (staged ss)
    note A = admission_ok [OF S i staged(1)]
    have sp: "may_speak i m ss" using A(3) by simp
    have f: "fifo_ok (fifo_sequencer (os\<lparr>sessions := ss\<rparr>))" using inv by (simp add: server_inv_def queues_inv_def)
    note F = stage_request_effect [OF f staged(3)]
    show ?thesis
    proof (cases b)
      case False
      then show ?thesis using F(1) by (intro admitted_keeps [OF a k]) simp_all
    next
      case True
      note G = F(2) [OF True]
      have "cid_tcp_socket (sessions os') (unat (rq_client_id (omq_request m))) \<noteq> None"
        using sess_inv_bind(2) [OF A(1) i sp] G by simp
      then have "admissible (sessions os') (omq_request m)" using d staged(2) by (simp add: admissible_def)
      moreover have "staged (fifo_sequencer os') = staged (fifo_sequencer os) @ [\<lparr>recv_time = rx, recv_request = omq_request m\<rparr>]"
        "client_requests os' = client_requests os" using G by simp_all
      ultimately show ?thesis using a k admissible_keeps unfolding admitted_def by auto
    qed
  qed
qed

lemma handle_frame_admitted:
  assumes inv: "server_inv t os" and i: "0 < i" "i < length (tcp_conns t)" and acc: "accepting os"
    and h: "handle_frame sys i rx bytes (t, os) = Some (b, t', os')" and a: "admitted os"
  shows "admitted os'"
proof -
  obtain d where d: "decode_request bytes = Some d" using h by (auto simp: handle_frame_def bind_Some_conv)
  show ?thesis
  proof (cases d)
    case None
    then have r: "reject sys i OMClientRequest_default Rej_VERSION (t, os) = Some (b, t', os')"
      using h d by (simp add: handle_frame_def)
    note R = reject_inv [OF inv i r]
    show ?thesis using same_queues_staged [OF R(3)] by (intro admitted_keeps [OF a same_tables_keeps [OF R(4)]]) simp_all
  next
    case (Some m)
    have "i64 (rq_price (omq_request m)) \<and> side_ok (rq_side (omq_request m))" using decoded_fields d Some by blast
    moreover have "handle_request sys i rx m (t, os) = Some (b, t', os')" using h d Some by (simp add: handle_frame_def)
    ultimately show ?thesis using handle_request_admitted [OF inv i acc _ a] by blast
  qed
qed

lemma recvCallback_admitted:
  assumes inv: "server_inv t os" and i: "0 < i" "i < length (tcp_conns t)" and a: "admitted os"
    and r: "server_recvCallback sys i rx (t, os) = Some (t', os')"
  shows "admitted os'"
proof (cases "accepting os")
  case False then show ?thesis using r a by (simp add: server_recvCallback_def)
next
  case True
  obtain n u where u: "frame_loop sys i rx (next_rcv_valid_index (tcp_conns t ! i)) 0 (t, os) = Some (n, u, os')"
    using r True by (auto simp: server_recvCallback_def bind_Some_conv)
  let ?P = "\<lambda>n x. loop_inv i (t, os) n x \<and> admitted (snd x)"
  have "?P n (u, os')"
  proof (rule frame_loop_rule [where P = ?P, OF _ _ u])
    show "?P 0 (t, os)" using inv True a by (simp add: loop_inv_def)
    fix n x b x'
    assume P: "?P n x" and n: "n + RequestSize \<le> next_rcv_valid_index (tcp_conns (fst x) ! i)"
      and h: "handle_frame sys i rx (drop n (inbound_data (tcp_conns (fst x) ! i))) x = Some (b, x')"
    have "server_inv (fst x) (snd x)" "i < length (tcp_conns (fst x))" "accepting (snd x)"
      using P i True by (simp_all add: loop_inv_def quiet_def same_flags_def)
    then have "admitted (snd x')" using handle_frame_admitted [OF _ i(1)] P h by (metis prod.collapse)
    then show "?P (if b then n + RequestSize else n) x'" using loop_inv_step [OF i(1) _ _ n h] P i True by simp
  qed
  then show ?thesis by simp
qed

interpretation adm: server_owner "server_recvCallback sys"
  "\<lambda>t os. server_inv t os \<and> keeps (sessions os0) (sessions os) \<and> same_flags os0 os \<and> admitted os" m for sys os0 m
  by unfold_locales (use recvCallback_inv recvCallback_admitted server_inv_transport in \<open>auto intro: keeps_trans same_flags_trans\<close>)

subsection \<open>Every step\<close>

definition net_admitted :: "ServerNet \<Rightarrow> bool" where
  "net_admitted = (\<lambda>(t, os, tk, pt). admitted os \<and> (\<forall>r \<in> set tk. admissible (sessions os) r))"

lemma admitted_sequence:
  assumes "queues_inv os" "admitted os"
  shows "admitted (recvFinishedCallback os)"
proof -
  obtain f q where r: "sequenceAndPublish (fifo_sequencer os) (client_requests os) = (f, q)"
    by (cases "sequenceAndPublish (fifo_sequencer os) (client_requests os)")
  have k: "fifo_ok (fifo_sequencer os)" "queue_ok (client_requests os)" using assms(1) by (simp_all add: queues_inv_def)
  obtain n where "staged f = drop n (sort_key recv_time (staged (fifo_sequencer os)))"
      "contents q = contents (client_requests os) @ map recv_request (take n (sort_key recv_time (staged (fifo_sequencer os))))"
    using sequence_ok(1) [OF k r] by blast
  then have "set (staged f) \<subseteq> set (staged (fifo_sequencer os))"
    "set (contents q) \<subseteq> set (contents (client_requests os)) \<union> recv_request ` set (staged (fifo_sequencer os))"
    by (auto dest!: in_set_dropD in_set_takeD)
  then show ?thesis using assms(2) unfolding admitted_def recvFinishedCallback_def r by auto
qed

lemma server_step_admitted:
  assumes s: "server_step m sys x y" and inv: "net_inv x" and a: "net_admitted x"
  shows "net_admitted y"
proof -
  have k: "net_keeps x y" using server_step_inv [OF s inv] by blast
  have "case y of (t, os, tk, pt) \<Rightarrow> admitted os \<and> (\<forall>r \<in> set tk. admissible (sessions os) r)" using s inv a k
  proof (induct rule: server_step.induct)
    case (sv_start efd fd err added t os t' os' tk pt)
    then have "os' = os\<lparr>server_run := True\<rparr>" using server_start_inv(2) [of t os efd fd err added t' os'] by (simp add: net_inv_def)
    then show ?case using sv_start by (simp add: net_admitted_def admitted_def)
  next
    case (sv_conn i t inp out os t' os' tk pt)
    then have "admitted os'" using adm.conn_io_inv [of t os os i m inp sys out t' os'] by (simp add: net_inv_def net_admitted_def)
    then show ?case using sv_conn admissible_keeps by (auto simp: net_keeps_def net_admitted_def)
  next
    case (sv_sequence t os tk pt)
    then have "queues_inv os" by (simp add: net_inv_def server_inv_def)
    then show ?case using admitted_sequence sv_sequence recvFinished_inv(2) [of os] by (simp add: net_admitted_def)
  next
    case (sv_check t os tk pt)
    then show ?case by (simp add: net_admitted_def admitted_def quiesce_check_def)
  next
    case (sv_respond os r t b t' os' tk pt)
    then have "server_inv t os" by (simp add: net_inv_def)
    then have "fifo_sequencer os' = fifo_sequencer os \<and> client_requests os' = client_requests os"
      using send_response_inv [OF _ sv_respond(1,2)] by blast
    moreover have k: "keeps (sessions os) (sessions os')" "admitted os" "\<forall>r \<in> set tk. admissible (sessions os) r"
      using sv_respond(4,5) by (simp_all add: net_admitted_def net_keeps_def)
    ultimately have "admitted os'" using admitted_keeps by simp
    then show ?case using k admissible_keeps by auto
  next
    case (sv_take os r q t tk pt)
    then have "contents (client_requests os) = r # contents q"
      using pop_contents [of "client_requests os" "Some r" q] by (simp add: net_inv_def server_inv_def queues_inv_def)
    then show ?case using sv_take by (auto simp: net_admitted_def admitted_def)
  qed (simp_all add: net_admitted_def admitted_def quiesce_begin_def server_stop_def)
  then show ?thesis by (simp add: net_admitted_def split: prod.splits)
qed

lemma server_steps_admitted:
  assumes "(server_step m sys)\<^sup>*\<^sup>* x y" "net_inv x" "net_admitted x"
  shows "net_inv y \<and> net_admitted y"
  using assms by (induct rule: rtranclp_induct) (use server_step_inv server_step_admitted in blast)+

lemma server_begin_admitted:
  assumes "server_begin n1 n2 z1 z2 jn = Some x"
  shows "net_admitted x"
proof -
  obtain t q1 q2 where q: "LFQueue_new z1 n1 = Some q1" "x = (t, OrderServer_new q1 q2 jn, [], [])"
    using assms by (auto simp: server_begin_def bind_Some_conv)
  then show ?thesis using queue_new_ok [OF q(1)] FIFOSequencer_new_ok
    by (simp add: net_admitted_def admitted_def OrderServer_new_def)
qed

end
