(* ===== verification/ME_Book_Clients.thy ===== *)
theory ME_Book_Clients
  imports Matching_Engine_Props
begin

text \<open>
  Whom the matching engine answers. With the callers of the books in a set \<open>C\<close> of clients, every resting order, every
  remembered response and every response issued belongs to a client in \<open>C\<close>, and the responses have the form the
  order protocol can carry and the order gateway accepts.
\<close>

subsection \<open>One book\<close>

definition resp_for :: "ClientId set \<Rightarrow> MEClientResponse \<Rightarrow> bool" where
  "resp_for C r \<longleftrightarrow> rs_client_id r \<in> C \<and> unat (rs_ticker_id r) < ME_MAX_TICKERS \<and>
     rs_type r \<in> {Resp_ACCEPTED, Resp_CANCELED, Resp_FILLED, Resp_CANCEL_REJECTED, Resp_REJECTED, Resp_STATE} \<and>
     side_ok (rs_side r) \<and> i64 (rs_price r) \<and>
     rs_reject_reason r \<in> {Rej_NONE, Rej_INVALID_ID, Rej_INVALID_SIDE, Rej_INVALID_PRICE, Rej_INVALID_QTY, Rej_INVALID_TYPE,
       Rej_DUPLICATE_ID, Rej_CAPACITY} \<and>
     (rs_type r = Resp_FILLED \<longrightarrow> rs_side r \<in> sides \<and> rs_exec_qty r \<noteq> 0 \<and>
        unat (rs_exec_qty r) \<le> INT32_MAX \<and> 0 < rs_price r \<and> rs_price r \<noteq> Price_INVALID)"

definition order_for :: "ClientId set \<Rightarrow> MEOrder \<Rightarrow> bool" where
  "order_for C v \<longleftrightarrow> mo_client_id v \<in> C \<and> i64 (mo_price v)"

definition speakers :: "ClientId set \<Rightarrow> SpecBook \<Rightarrow> bool" where
  "speakers C A \<longleftrightarrow> (\<forall>s. \<forall>v \<in> set (sb_orders A s). order_for C v) \<and> (\<forall>c i r. sb_last A c i = Some r \<longrightarrow> resp_for C r)"

fun call_from :: "ClientId set \<Rightarrow> BookCall \<Rightarrow> bool" where
  "call_from C (CallAdd c i t s p q) \<longleftrightarrow> c \<in> C \<and> unat t < ME_MAX_TICKERS \<and> i64 p \<and> side_ok s"
| "call_from C (CallCancel c i t) \<longleftrightarrow> c \<in> C \<and> unat t < ME_MAX_TICKERS"
| "call_from C (CallQuery c i) \<longleftrightarrow> c \<in> C"

lemma resp_for_mono: "resp_for C r \<Longrightarrow> C \<subseteq> D \<Longrightarrow> resp_for D r"
  by (auto simp: resp_for_def)

lemma speakers_mono: "speakers C A \<Longrightarrow> C \<subseteq> D \<Longrightarrow> speakers D A"
  using resp_for_mono unfolding speakers_def order_for_def by blast

lemma side_ok_sides: "s \<in> sides \<Longrightarrow> side_ok s"
  by (auto simp: sides_def side_ok_def)

lemma spec_record_for: "spec_record x lst c i = Some r \<Longrightarrow> lst c i = Some r \<or> r \<in> set (responses [x])"
  by (cases x) (auto split: if_splits)

lemma speakers_emit:
  assumes "speakers C A" "\<forall>r \<in> set (responses ms). resp_for C r"
  shows "speakers C (spec_emit ms A)"
proof -
  have "\<forall>c i r. fold spec_record ms lst c i = Some r \<longrightarrow> resp_for C r"
    if "\<forall>c i r. lst c i = Some r \<longrightarrow> resp_for C r" for lst
    using that assms(2)
  proof (induct ms arbitrary: lst)
    case (Cons x ms)
    have "\<forall>r \<in> set (responses [x]). resp_for C r" using Cons.prems(2) by (cases x) auto
    then have "\<forall>c i r. spec_record x lst c i = Some r \<longrightarrow> resp_for C r" using Cons.prems(1) spec_record_for by blast
    moreover have "\<forall>r \<in> set (responses ms). resp_for C r" using Cons.prems(2) by (cases x) auto
    ultimately show ?case unfolding fold_simps comp_apply by (rule Cons.hyps)
  qed (simp only: fold_simps id_apply)
  from this [of "sb_last A"] show ?thesis using assms(1) unfolding speakers_def spec_emit_def by simp
qed

lemma match_speakers:
  assumes "spec_match c i t s p m q os = (q', os', ms)" "c \<in> C" "s \<in> sides" "unat t < ME_MAX_TICKERS" "unat q \<le> INT32_MAX"
    "\<And>v. v \<in> set os \<Longrightarrow> order_for C v \<and> order_good A (opp s) v \<and> qty_good v"
  shows "(\<forall>r \<in> set (responses ms). resp_for C r) \<and> (\<forall>v \<in> set os'. order_for C v)"
  using assms
proof (induct os arbitrary: q q' os' ms)
  case (Cons v os)
  have v: "order_for C v" "mo_side v = opp s" "0 < mo_price v" "mo_price v \<noteq> Price_INVALID" "mo_qty v \<noteq> 0" "unat (mo_qty v) \<le> INT32_MAX"
    using Cons.prems(6) [of v] by (auto simp: order_good_def qty_good_def)
  have os: "\<forall>v \<in> set os. order_for C v" using Cons.prems(6) by simp
  show ?case
  proof (cases "q = 0 \<or> no_cross s p (mo_price v)")
    case True then show ?thesis using Cons.prems(1) v(1) os by auto
  next
    case False
    let ?f = "min q (mo_qty v)"
    have f: "?f \<noteq> 0" "unat ?f \<le> INT32_MAX" using False v(5,6) Cons.prems(5) by (auto simp: min_def)
    have "resp_for C (mk_response Resp_FILLED d t j k u (mo_price v) ?f l Rej_NONE)" if "d \<in> C" "u \<in> sides" for d j k u l
      using that f v(1,3,4) Cons.prems(4) side_ok_sides [OF that(2)] by (simp add: resp_for_def mk_response_def order_for_def)
    then have fm: "\<forall>r \<in> set (responses (fill_msgs c i t s m ?f (q - ?f) v)). resp_for C r"
      using v(1,2) Cons.prems(2,3) opp_sides(1) [of s] by (simp add: fill_msgs_def order_for_def)
    obtain r1 os1 ms1 where m1: "spec_match c i t s p m (q - ?f) os = (r1, os1, ms1)"
      by (cases "spec_match c i t s p m (q - ?f) os")
    have "unat (q - ?f) \<le> INT32_MAX" using Cons.prems(5) unat_sub [of ?f q] by (simp add: min_def word_le_nat_alt)
    then have "(\<forall>r \<in> set (responses ms1). resp_for C r) \<and> (\<forall>v \<in> set os1. order_for C v)"
      using Cons.hyps [OF m1] Cons.prems(2-4,6) by simp
    moreover have "order_for C (v\<lparr>mo_qty := n\<rparr>)" for n using v(1) by (simp add: order_for_def)
    ultimately show ?thesis using Cons.prems(1) False m1 fm os by (auto simp: Let_def split: if_splits)
  qed
qed simp

lemma reject_reason_for:
  "spec_reject_reason c i t s p q A \<in> {Rej_NONE, Rej_INVALID_ID, Rej_INVALID_SIDE, Rej_INVALID_PRICE, Rej_INVALID_QTY, Rej_INVALID_TYPE,
     Rej_DUPLICATE_ID, Rej_CAPACITY}"
  by (simp add: spec_reject_reason_def)

lemma i64_invalid [simp]: "i64 Price_INVALID"
  by (simp add: i64_def limits)

lemma add_speakers:
  assumes inv: "spec_inv A" and sp: "speakers C A" and c: "c \<in> C" "i64 p" "side_ok s" and t: "unat t < ME_MAX_TICKERS"
  shows "\<exists>ms. sb_out (spec_add c i t s p q A) = sb_out A @ ms \<and> (\<forall>r \<in> set (responses ms). resp_for C r) \<and>
     speakers C (spec_add c i t s p q A)"
proof (cases "spec_reject_reason c i t s p q A = Rej_NONE")
  case False
  let ?r = "mk_response Resp_REJECTED c t i OrderId_INVALID s p 0 0 (spec_reject_reason c i t s p q A)"
  have e: "spec_add c i t s p q A = spec_emit [SinkResponse ?r] A" using False by (simp add: spec_add_def)
  have "resp_for C ?r" using c t reject_reason_for [of c i t s p q A] by (simp add: resp_for_def mk_response_def)
  then show ?thesis using speakers_emit [OF sp, of "[SinkResponse ?r]"] unfolding e by (simp add: spec_emit_def)
next
  case True
  have facts: "s \<in> sides" "t = sb_ticker A" "unat q \<le> INT32_MAX"
    using True by (auto simp: spec_reject_reason_def sides_def split: if_splits)
  let ?m = "sb_next_id A"
  obtain q' os' ms where sm: "spec_match c i t s p ?m q (sb_orders A (opp s)) = (q', os', ms)"
    by (cases "spec_match c i t s p ?m q (sb_orders A (opp s))") auto
  have M: "(\<forall>r \<in> set (responses ms). resp_for C r) \<and> (\<forall>v \<in> set os'. order_for C v)"
    using match_speakers [OF sm c(1) facts(1) t facts(3), of A] sp spec_invD(2) [OF inv opp_sides(1), of _ s]
    by (auto simp: speakers_def)
  let ?A1 = "A\<lparr>sb_used := (sb_used A)(c := insert i (sb_used A c)), sb_next_id := ?m + 1,
      sb_orders := (sb_orders A)(opp s := os')\<rparr>"
  let ?r = "mk_response Resp_ACCEPTED c t i ?m s p 0 q Rej_NONE"
  let ?v = "MEOrder_make t c i ?m s p q' (spec_next_priority p (sb_orders ?A1 s)) None None"
  let ?B = "?A1\<lparr>sb_orders := (sb_orders ?A1)(s := insert_order ?v (sb_orders ?A1 s))\<rparr>"
  let ?u = "SinkMarket (mk_update Mkt_ADD ?m t s p q' (mo_priority ?v))"
  have eq: "spec_add c i t s p q A = (if q' = 0 then spec_emit (SinkResponse ?r # ms) ?A1
     else spec_emit [?u] (spec_emit (SinkResponse ?r # ms) ?B))"
    using True sm by (simp add: spec_add_def Let_def MEOrder_make_def)
  have rs: "\<forall>r \<in> set (responses (SinkResponse ?r # ms)). resp_for C r"
    using M c t by (simp add: resp_for_def mk_response_def)
  have A1: "speakers C ?A1" using sp M by (simp add: speakers_def)
  have "order_for C ?v" using c by (simp add: order_for_def MEOrder_make_def)
  moreover have "\<forall>v \<in> set (sb_orders A s). order_for C v" using sp by (simp add: speakers_def)
  moreover have "opp s \<noteq> s" using facts(1) by (auto simp: opp_def sides_def)
  ultimately have B: "speakers C ?B" using A1 by (simp add: speakers_def set_insert_order)
  show ?thesis using speakers_emit [OF A1 rs] speakers_emit [OF speakers_emit [OF B rs], of "[?u]"] rs unfolding eq
    by (auto simp: spec_emit_def)
qed

lemma cancel_speakers:
  assumes sp: "speakers C A" and c: "c \<in> C" "unat t < ME_MAX_TICKERS" and inv: "spec_inv A"
  shows "\<exists>ms. sb_out (spec_cancel c i t A) = sb_out A @ ms \<and> (\<forall>r \<in> set (responses ms). resp_for C r) \<and> speakers C (spec_cancel c i t A)"
proof (cases "if unat c < ME_MAX_NUM_CLIENTS \<and> t = sb_ticker A then spec_find c i A else None")
  case None
  let ?r = "mk_response Resp_CANCEL_REJECTED c t i OrderId_INVALID Side_INVALID Price_INVALID 0 0 Rej_INVALID_ID"
  have "resp_for C ?r" using c by (simp add: resp_for_def mk_response_def side_ok_def)
  then show ?thesis using speakers_emit [OF sp, of "[SinkResponse ?r]"] None unfolding spec_cancel_def by (simp add: spec_emit_def)
next
  case (Some v)
  let ?u = "SinkMarket (mk_update Mkt_CANCEL (mo_market_order_id v) t (mo_side v) (mo_price v) 0 (mo_priority v))"
  let ?r = "mk_response Resp_CANCELED c t i (mo_market_order_id v) (mo_side v) (mo_price v) Qty_INVALID (mo_qty v) Rej_NONE"
  let ?B = "A\<lparr>sb_orders := (\<lambda>s. filter (\<lambda>y. order_key y \<noteq> (c, i)) (sb_orders A s))\<rparr>"
  have "v \<in> set (sb_orders A BUY @ sb_orders A SELL)" using Some by (auto simp: spec_find_def split: if_splits dest: find_SomeD)
  then have "mo_side v \<in> sides" "order_for C v" using spec_invD(2) [OF inv] sp by (auto simp: order_good_def sides_def speakers_def)
  then have "resp_for C ?r" using c by (auto simp: resp_for_def mk_response_def order_for_def side_ok_def sides_def)
  moreover have "speakers C ?B" using sp by (auto simp: speakers_def)
  ultimately show ?thesis using speakers_emit [of C ?B "[?u, SinkResponse ?r]"] Some unfolding spec_cancel_def
    by (simp add: spec_emit_def)
qed

lemma query_speakers:
  assumes sp: "speakers C A" and c: "c \<in> C" "unat (sb_ticker A) < ME_MAX_TICKERS"
  shows "\<exists>ms. sb_out (spec_query c i A) = sb_out A @ ms \<and> (\<forall>r \<in> set (responses ms). resp_for C r) \<and> speakers C (spec_query c i A)"
proof (cases "unat c \<ge> ME_MAX_NUM_CLIENTS")
  case True then show ?thesis using sp by (intro exI [of _ "[]"]) (simp add: spec_query_def)
next
  case False
  have "\<exists>r. spec_query c i A = spec_emit [SinkResponse r] A \<and> resp_for C r"
  proof (cases "i = 0 \<or> sb_last A c i = None")
    case True
    then show ?thesis using False c by (auto simp: spec_query_def resp_for_def mk_response_def side_ok_def)
  next
    case ne: False
    then obtain r where r: "sb_last A c i = Some r" by auto
    then have "resp_for C r" using sp unfolding speakers_def by blast
    then have "resp_for C (r\<lparr>rs_type := Resp_STATE, rs_exec_qty := 0, rs_leaves_qty := l\<rparr>)" for l by (simp add: resp_for_def)
    moreover have "spec_query c i A = spec_emit [SinkResponse (r\<lparr>rs_type := Resp_STATE, rs_exec_qty := 0,
        rs_leaves_qty := (if rs_type r = Resp_CANCELED then 0 else rs_leaves_qty r)\<rparr>)] A"
      using False ne r by (simp only: spec_query_def if_False option.case de_Morgan_disj)
    ultimately show ?thesis by blast
  qed
  then obtain r where "spec_query c i A = spec_emit [SinkResponse r] A" "resp_for C r" by blast
  then show ?thesis using speakers_emit [OF sp, of "[SinkResponse r]"] by (simp add: spec_emit_def)
qed

lemma call_speakers:
  assumes "spec_inv A" "speakers C A" "call_from C r" "unat (sb_ticker A) < ME_MAX_TICKERS"
  shows "(\<forall>x \<in> set (responses (call_msgs r A)). resp_for C x) \<and> speakers C (spec_call r A)"
proof -
  have "\<exists>ms. sb_out (spec_call r A) = sb_out A @ ms \<and> (\<forall>r \<in> set (responses ms). resp_for C r) \<and> speakers C (spec_call r A)"
    using assms add_speakers cancel_speakers query_speakers by (cases r) auto
  then show ?thesis unfolding call_msgs_def by (auto simp del: spec_call.simps)
qed

subsection \<open>All books of the engine\<close>

definition book_speaks :: "ClientId set \<Rightarrow> TickerId \<Rightarrow> MEOrderBook \<Rightarrow> bool" where
  "book_speaks C t b \<longleftrightarrow> (\<exists>g. book_ok b g \<and> spec_inv (abs_book b g) \<and> sb_ticker (abs_book b g) = t \<and> speakers C (abs_book b g))"

definition engine_speaks :: "ClientId set \<Rightarrow> MatchingEngine \<Rightarrow> bool" where
  "engine_speaks C e \<longleftrightarrow> length (ticker_order_book e) = ME_MAX_TICKERS \<and>
     (\<forall>t < ME_MAX_TICKERS. book_speaks C (of_nat t) (ticker_order_book e ! t))"

lemma book_speaks_mono: "book_speaks C t b \<Longrightarrow> C \<subseteq> D \<Longrightarrow> book_speaks D t b"
  using speakers_mono unfolding book_speaks_def by metis

lemma engine_speaks_mono: "engine_speaks C e \<Longrightarrow> C \<subseteq> D \<Longrightarrow> engine_speaks D e"
  using book_speaks_mono unfolding engine_speaks_def by metis

lemma new_book_speaks: "book_speaks C t (new_book t)"
proof -
  have "book_ok (new_book t) (\<lambda>_. [])" "abs_book (new_book t) (\<lambda>_. []) = spec_new ME_MAX_PRICE_LEVELS ME_MAX_ORDER_IDS t"
    using make_ok [OF limits_ok, of t] new_book(1) [of t] by (auto simp: MEOrderBook_new_def)
  moreover have "speakers C (spec_new a b t)" for a b by (simp add: speakers_def spec_new_def)
  ultimately show ?thesis unfolding book_speaks_def using spec_inv_new by (metis spec_new_def SpecBook.select_convs(1))
qed

lemma book_call_speaks:
  assumes "book_speaks C t b" "call_from C r" "unat t < ME_MAX_TICKERS" "book_call r b = Some b'"
  shows "\<exists>ms. sink b' = sink b @ ms \<and> book_speaks C t b' \<and> (\<forall>x \<in> set (responses ms). resp_for C x)"
proof -
  obtain g where g: "book_ok b g" "spec_inv (abs_book b g)" "sb_ticker (abs_book b g) = t" "speakers C (abs_book b g)"
    using assms(1) by (auto simp: book_speaks_def)
  obtain g' where g': "book_ok b' g'" "abs_book b' g' = spec_call r (abs_book b g)"
    using book_call_ok [OF g(1,2)] assms(4) by (metis option.inject)
  have "sb_out (abs_book b' g') = sb_out (abs_book b g) @ call_msgs r (abs_book b g)" unfolding g'(2) by (rule call_out)
  then have "sink b' = sink b @ call_msgs r (abs_book b g)" by (simp add: abs_book_def)
  moreover have "sb_ticker (abs_book b' g') = t" using spec_call_frame(1) g(3) g'(2) by simp
  ultimately show ?thesis
    using g' call_speakers [OF g(2,4) assms(2)] assms(3) g(3) spec_inv_call [OF g(2)] unfolding book_speaks_def by metis
qed

lemma unstamp_fields:
  "rs_client_id (unstamp r) = rs_client_id r" "rs_type (unstamp r) = rs_type r" "rs_side (unstamp r) = rs_side r"
  "rs_price (unstamp r) = rs_price r" "rs_reject_reason (unstamp r) = rs_reject_reason r"
  "rs_ticker_id (unstamp r) = rs_ticker_id r" "rs_exec_qty (unstamp r) = rs_exec_qty r"
  by (simp_all add: unstamp_def)

lemma resp_for_unstamp: "unstamp x = unstamp y \<Longrightarrow> resp_for C x = resp_for C y"
  proof -
  assume "unstamp x = unstamp y"
  then have "rs_client_id x = rs_client_id y" "rs_type x = rs_type y" "rs_side x = rs_side y" "rs_price x = rs_price y"
    "rs_reject_reason x = rs_reject_reason y" "rs_ticker_id x = rs_ticker_id y" "rs_exec_qty x = rs_exec_qty y"
    using unstamp_fields by metis+
  then show ?thesis by (simp only: resp_for_def)
qed

lemma responses_for:
  assumes "map unstamp ns = map unstamp rs" "\<forall>x \<in> set rs. resp_for C x"
  shows "\<forall>x \<in> set ns. resp_for C x"
  using assms
proof (induct ns arbitrary: rs)
  case (Cons n ns)
  then obtain y ys where y: "rs = y # ys" "unstamp n = unstamp y" "map unstamp ns = map unstamp ys" by (cases rs) auto
  have "\<forall>x \<in> set ns. resp_for C x" using Cons.hyps [OF y(3)] Cons.prems(2) y(1) by simp
  moreover have "resp_for C n" using Cons.prems(2) y(1) resp_for_unstamp [OF y(2), of C] by simp
  ultimately show ?case by simp
qed simp

lemma deliver_speaks:
  assumes "deliver sys ms e = Some e'" "engine_inv (e0, rs, us)" "outgoing_ogw_responses e = outgoing_ogw_responses e0"
    "outgoing_md_updates e = outgoing_md_updates e0" "incoming_requests e = incoming_requests e0"
    "next_response_id e = next_response_id e0" "client_positions e = client_positions e0" "\<forall>x \<in> set (responses ms). resp_for C x"
  shows "\<exists>ns. contents (outgoing_ogw_responses e') = contents (outgoing_ogw_responses e0) @ ns \<and> (\<forall>x \<in> set ns. resp_for C x) \<and>
     ticker_order_book e' = ticker_order_book e"
proof -
  have "queues_ok e" "resp_inv e (rs @ contents (outgoing_ogw_responses e))"
    using assms(2-7) by (simp_all add: engine_inv_def queues_ok_def resp_inv_def)
  from deliver_ok [OF assms(1) this] show ?thesis using assms(3,8) responses_for by metis
qed

lemma request_call_from:
  assumes "request_call r = Some call" "rq_client_id r \<in> C" "i64 (rq_price r)" "side_ok (rq_side r)" "unat (rq_ticker_id r) < ME_MAX_TICKERS"
  shows "call_from C call"
  using assms by (auto simp: request_call_def split: ClientRequestType.splits)

lemma process_speaks:
  assumes inv: "engine_inv (e, rs, us)" and sp: "engine_speaks C e" and p: "processClientRequest sys r e = Some e'"
    and r: "rq_client_id r \<in> C" "i64 (rq_price r)" "side_ok (rq_side r)" and v: "validate r = Rej_NONE"
  shows "engine_speaks C e' \<and> (\<exists>ns. contents (outgoing_ogw_responses e') = contents (outgoing_ogw_responses e) @ ns \<and>
     (\<forall>x \<in> set ns. resp_for C x))"
proof -
  obtain e1 where e1: "audit_with (journal_request sys ''APPLY'' r) e = Some e1" and p1:
    "(case request_call r of None \<Rightarrow> Some e1 | Some call \<Rightarrow> call_book sys (unat (rq_ticker_id r)) call e1) = Some e'"
    using p v by (auto simp: processClientRequest_def bind_Some_conv Let_def)
  obtain a where a: "e1 = e\<lparr>audit := a\<rparr>" using audit_with_frame [OF e1] by blast
  have sp1: "engine_speaks C e1" using sp by (simp add: a engine_speaks_def)
  have t: "unat (rq_ticker_id r) < ME_MAX_TICKERS" using v by (auto simp: validate_def split: if_splits)
  show ?thesis
  proof (cases "request_call r")
    case None then show ?thesis using p1 sp1 by (auto simp: a)
  next
    case (Some call)
    let ?t = "rq_ticker_id r" and ?b = "ticker_order_book e1 ! unat (rq_ticker_id r)"
    obtain b where b: "book_call call ?b = Some b"
        "deliver sys (drop (length (sink ?b)) (sink b)) (e1\<lparr>ticker_order_book := (ticker_order_book e1)[unat ?t := b]\<rparr>) = Some e'"
      using p1 Some by (auto simp: call_book_def bind_Some_conv)
    have "book_speaks C (of_nat (unat ?t)) ?b" using sp1 t unfolding engine_speaks_def by blast
    then have "book_speaks C ?t ?b" by simp
    then obtain ms where ms: "sink b = sink ?b @ ms" "book_speaks C ?t b" "\<forall>x \<in> set (responses ms). resp_for C x"
      using book_call_speaks [OF _ request_call_from [OF Some r t] t b(1)] by blast
    obtain ns where ns: "contents (outgoing_ogw_responses e') = contents (outgoing_ogw_responses e) @ ns" "\<forall>x \<in> set ns. resp_for C x"
        "ticker_order_book e' = (ticker_order_book e1)[unat ?t := b]"
      using deliver_speaks [OF b(2) inv, of C] ms(1,3) by (auto simp: a)
    have "book_speaks C (of_nat u) (ticker_order_book e' ! u)" if "u < ME_MAX_TICKERS" for u
      using sp1 that ms(2) t unfolding ns(3) engine_speaks_def by (cases "u = unat ?t") simp_all
    then have "engine_speaks C e'" using sp1 ns(3) by (simp add: engine_speaks_def)
    then show ?thesis using ns(1,2) by blast
  qed
qed

end
