(* ===== verification/Exchange_Process.thy ===== *)
theory Exchange_Process
  imports Order_Session_Flow Order_Admission ME_Book_Clients
begin

text \<open>
  The exchange process of \<^verbatim>\<open>src/exchange/exchange_main.cpp\<close>: the order server and the matching engine on the same queues and
  the same journal, with the publisher taking the market updates. A step is a step of one thread; what it leaves in a
  shared object is what the other thread sees. The lists of a state are its history: updates taken by the publisher,
  requests the engine has processed and responses it has issued.
\<close>

type_synonym ExchangeNet = "TCPServer \<times> OrderServer \<times> MatchingEngine \<times> MEMarketUpdate list \<times> MEClientRequest list \<times> MEClientResponse list"

definition engine_sees :: "OrderServer \<Rightarrow> MatchingEngine \<Rightarrow> MatchingEngine" where
  "engine_sees os e = e\<lparr>incoming_requests := client_requests os, outgoing_ogw_responses := outgoing_responses os, audit := server_audit os\<rparr>"

definition server_sees :: "MatchingEngine \<Rightarrow> OrderServer \<Rightarrow> OrderServer" where
  "server_sees e os = os\<lparr>outgoing_responses := outgoing_ogw_responses e, client_requests := incoming_requests e, server_audit := audit e\<rparr>"

inductive exchange_step :: "bool \<Rightarrow> (nat \<Rightarrow> WriteResult) \<Rightarrow> ExchangeNet \<Rightarrow> ExchangeNet \<Rightarrow> bool" for m sys where
  ex_server: "server_step m sys (t, os, tk, pt) (t', os', tk, pt) \<Longrightarrow>
    exchange_step m sys (t, os, e, us, tk, pt) (t', os', engine_sees os' e, us, tk, pt)"
| ex_engine: "peek (incoming_requests e) = Some r \<Longrightarrow> engine_step sys e = Some e' \<Longrightarrow>
    contents (outgoing_ogw_responses e') = contents (outgoing_ogw_responses e) @ ns \<Longrightarrow>
    exchange_step m sys (t, os, e, us, tk, pt) (t, server_sees e' os, e', us, tk @ [r], pt @ ns)"
| ex_publish: "try_pop (outgoing_md_updates e) = (Some u, q) \<Longrightarrow>
    exchange_step m sys (t, os, e, us, tk, pt) (t, os, e\<lparr>outgoing_md_updates := q\<rparr>, us @ [u], tk, pt)"

definition exchange_begin :: "u64 \<Rightarrow> u64 \<Rightarrow> u64 \<Rightarrow> MEClientRequest \<Rightarrow> MEClientResponse \<Rightarrow> MEMarketUpdate \<Rightarrow> Journal option \<Rightarrow>
    ExchangeNet option" where
  "exchange_begin n1 n2 n3 z1 z2 z3 jn = do {
     requests \<leftarrow> LFQueue_new z1 n1; responses \<leftarrow> LFQueue_new z2 n2; updates \<leftarrow> LFQueue_new z3 n3;
     e \<leftarrow> MatchingEngine_new requests responses updates jn;
     t \<leftarrow> TCPServer_new;
     Some (t, OrderServer_new requests responses jn, e, [], [], []) }"

subsection \<open>The exchange as its order server sees it\<close>

definition server_view :: "ExchangeNet \<Rightarrow> ServerNet" where
  "server_view = (\<lambda>(t, os, e, us, tk, pt). (t, os, tk, pt))"

lemma deliver_puts:
  assumes "deliver sys ms e = Some e'" "queue_ok (outgoing_ogw_responses e)"
  shows "\<exists>ns. contents (outgoing_ogw_responses e') = contents (outgoing_ogw_responses e) @ ns \<and>
     (server_step m sys')\<^sup>*\<^sup>* (t, os\<lparr>outgoing_responses := outgoing_ogw_responses e\<rparr>, tk, pt)
       (t, os\<lparr>outgoing_responses := outgoing_ogw_responses e'\<rparr>, tk, pt @ ns)"
  using assms
proof (induct sys ms e arbitrary: pt rule: deliver.induct)
  case (1 sys e)
  then show ?case by (intro exI [of _ "[]"]) simp
next
  case (2 sys r ms e)
  from 2(2) obtain e1 where e1: "sendClientResponse sys r e = Some e1" "deliver sys ms e1 = Some e'"
    by (auto simp: bind_Some_conv)
  obtain x a where x: "stamp r e = (x, a)" by fastforce
  have a: "outgoing_ogw_responses a = outgoing_ogw_responses e" using x by (auto simp: stamp_def Let_def split: if_splits)
  obtain a' where a': "audit_with (journal_response sys x) a = Some a'"
      "(let (ok, q) = try_push x (outgoing_ogw_responses a') in
        if ok then Some (a'\<lparr>outgoing_ogw_responses := q, response_count := response_count a' + 1\<rparr>) else None) = Some e1"
    using e1(1) x by (auto simp: sendClientResponse_def bind_Some_conv)
  have "outgoing_ogw_responses a' = outgoing_ogw_responses e" using audit_with_frame [OF a'(1)] a by auto
  then have p: "try_push x (outgoing_ogw_responses e) = (True, outgoing_ogw_responses e1)"
    using a'(2) by (auto simp: Let_def split: prod.splits if_splits)
  note P = push_contents [OF 2(3) p]
  obtain ns where ns: "contents (outgoing_ogw_responses e') = contents (outgoing_ogw_responses e1) @ ns"
      "(server_step m sys')\<^sup>*\<^sup>* (t, os\<lparr>outgoing_responses := outgoing_ogw_responses e1\<rparr>, tk, pt @ [x])
        (t, os\<lparr>outgoing_responses := outgoing_ogw_responses e'\<rparr>, tk, (pt @ [x]) @ ns)"
    using 2(1) [OF e1] P by blast
  have "server_step m sys' (t, os\<lparr>outgoing_responses := outgoing_ogw_responses e\<rparr>, tk, pt)
      (t, os\<lparr>outgoing_responses := outgoing_ogw_responses e1\<rparr>, tk, pt @ [x])"
    using sv_put [of x "os\<lparr>outgoing_responses := outgoing_ogw_responses e\<rparr>"] p by simp
  from converse_rtranclp_into_rtranclp [of "server_step m sys'", OF this ns(2)] show ?case
    using ns(1) P by (intro exI [of _ "x # ns"]) simp
next
  case (3 sys u ms e)
  from 3(2) obtain e1 where e1: "sendMarketUpdate u e = Some e1" "deliver sys ms e1 = Some e'"
    by (auto simp: bind_Some_conv)
  have "outgoing_ogw_responses e1 = outgoing_ogw_responses e"
    using e1(1) by (auto simp: sendMarketUpdate_def Let_def split: prod.splits if_splits)
  then show ?case using 3(1) [OF e1, of pt] 3(3) by simp
qed

lemma process_puts:
  assumes p: "processClientRequest sys r e = Some e'" and q: "queue_ok (outgoing_ogw_responses e)"
  shows "\<exists>ns. contents (outgoing_ogw_responses e') = contents (outgoing_ogw_responses e) @ ns \<and>
     (server_step m sys')\<^sup>*\<^sup>* (t, os\<lparr>outgoing_responses := outgoing_ogw_responses e\<rparr>, tk, pt)
       (t, os\<lparr>outgoing_responses := outgoing_ogw_responses e'\<rparr>, tk, pt @ ns)"
proof -
  obtain e1 where e1: "audit_with (journal_request sys ''APPLY'' r) e = Some e1" and p1:
    "(if validate r \<noteq> Rej_NONE then
       sendClientResponse sys (mk_response Resp_REJECTED (rq_client_id r) (rq_ticker_id r) (rq_order_id r)
         OrderId_INVALID (rq_side r) (rq_price r) 0 0 (validate r)) e1
     else case request_call r of None \<Rightarrow> Some e1
     | Some call \<Rightarrow> call_book sys (unat (rq_ticker_id r)) call e1) = Some e'"
    using p by (auto simp: processClientRequest_def bind_Some_conv Let_def)
  have o: "outgoing_ogw_responses e1 = outgoing_ogw_responses e" using audit_with_frame [OF e1] by auto
  have "\<exists>ms e2. outgoing_ogw_responses e2 = outgoing_ogw_responses e \<and> deliver sys ms e2 = Some e'"
  proof (cases "validate r = Rej_NONE \<and> request_call r \<noteq> None")
    case True
    then obtain call where c: "call_book sys (unat (rq_ticker_id r)) call e1 = Some e'" using p1 by auto
    then obtain b where "deliver sys (drop (length (sink (ticker_order_book e1 ! unat (rq_ticker_id r)))) (sink b))
        (e1\<lparr>ticker_order_book := (ticker_order_book e1)[unat (rq_ticker_id r) := b]\<rparr>) = Some e'"
      by (auto simp: call_book_def bind_Some_conv)
    then show ?thesis using o by (metis MatchingEngine.select_convs(3) MatchingEngine.surjective MatchingEngine.update_convs(1))
  next
    case False
    let ?m = "mk_response Resp_REJECTED (rq_client_id r) (rq_ticker_id r) (rq_order_id r) OrderId_INVALID (rq_side r) (rq_price r) 0 0 (validate r)"
    have "deliver sys (if validate r = Rej_NONE then [] else [SinkResponse ?m]) e1 = Some e'" using p1 False by auto
    then show ?thesis using o by blast
  qed
  then obtain ms e2 where "outgoing_ogw_responses e2 = outgoing_ogw_responses e" "deliver sys ms e2 = Some e'" by blast
  then show ?thesis using deliver_puts [of sys ms e2 e' m sys' t os tk pt] q by simp
qed

lemma peek_try_pop:
  assumes "queue_ok q" "peek q = Some r" "pop q = Some q'"
  shows "try_pop q = (Some r, q')"
proof -
  obtain k H where "queue_rep q k H (contents q)" using assms(1) contents_rep unfolding queue_ok_def by metis
  then show ?thesis using assms(2,3) try_pop_rep [of q k H] by (cases "contents q") (auto simp: prod_eq_iff)
qed

text \<open>One iteration of the engine: the responses are put, then the request is taken.\<close>

lemma engine_step_view:
  assumes l: "incoming_requests e = client_requests os" "outgoing_ogw_responses e = outgoing_responses os"
    and q: "queue_ok (incoming_requests e)" "queue_ok (outgoing_ogw_responses e)"
    and p: "peek (incoming_requests e) = Some r" "processClientRequest sys r e = Some e1" "pop (incoming_requests e) = Some p"
      "incoming_requests e1 = incoming_requests e" "contents (outgoing_ogw_responses e1) = contents (outgoing_ogw_responses e) @ ns"
  shows "(server_step m sys')\<^sup>*\<^sup>* (t, os, tk, pt) (t, server_sees (e1\<lparr>incoming_requests := p\<rparr>) os, tk @ [r], pt @ ns)"
proof -
  let ?o = "os\<lparr>outgoing_responses := outgoing_ogw_responses e1\<rparr>"
  have "(server_step m sys')\<^sup>*\<^sup>* (t, os\<lparr>outgoing_responses := outgoing_ogw_responses e\<rparr>, tk, pt) (t, ?o, tk, pt @ ns)"
    using process_puts [OF p(2) q(2), of m sys' t os tk pt] p(5) by auto
  then have "(server_step m sys')\<^sup>*\<^sup>* (t, os, tk, pt) (t, ?o, tk, pt @ ns)" by (simp add: l(2))
  also have "server_step m sys' (t, ?o, tk, pt @ ns) (t, ?o\<lparr>client_requests := p\<rparr>, tk @ [r], pt @ ns)"
    using peek_try_pop [OF q(1) p(1,3)] l(1) by (intro sv_take) simp
  also have "server_step m sys' (t, ?o\<lparr>client_requests := p\<rparr>, tk @ [r], pt @ ns)
      (t, ?o\<lparr>client_requests := p, server_audit := audit e1\<rparr>, tk @ [r], pt @ ns)"
    using sv_audit [of m sys' t "?o\<lparr>client_requests := p\<rparr>"] by simp
  finally show ?thesis by (simp add: server_sees_def)
qed

text \<open>Without a put, the response queue of the server only shrinks.\<close>

lemma server_step_outgoing:
  assumes "server_step m sys x y" "net_inv x"
  shows "case x of (t, os, tk, pt) \<Rightarrow> case y of (t', os', tk', pt') \<Rightarrow> pt' = pt \<longrightarrow>
     (\<exists>xs. contents (outgoing_responses os) = xs @ contents (outgoing_responses os'))"
  using assms
proof (induct rule: server_step.induct)
  case (sv_start efd fd err added t os t' os' tk pt)
  then show ?case using server_start_inv(2) [of t os efd fd err added t' os'] by (simp add: net_inv_def)
next
  case (sv_conn i t inp out os t' os' tk pt)
  then have "same_flags os os'" using srv.conn_io_inv [of t os os i m inp sys out t' os'] by (simp add: net_inv_def)
  then show ?case by (simp add: same_flags_def)
next
  case (sv_sequence t os tk pt)
  then show ?case by (simp add: recvFinishedCallback_def split: prod.split)
next
  case (sv_respond os r t b t' os' tk pt)
  then have "server_inv t os" by (simp add: net_inv_def)
  then have "contents (outgoing_responses os') = drop (if b then 1 else 0) (contents (outgoing_responses os))"
    using send_response_inv [OF _ sv_respond(1,2)] by blast
  then show ?case using append_take_drop_id [of "if b then 1 else 0" "contents (outgoing_responses os)"] unfolding prod.case by metis
qed (simp_all add: quiesce_check_def quiesce_begin_def server_stop_def)

subsection \<open>The invariant\<close>

definition clients_of :: "Sessions \<Rightarrow> ClientId set" where
  "clients_of ss = {c. unat c < ME_MAX_NUM_CLIENTS \<and> cid_tcp_socket ss (unat c) \<noteq> None}"

lemma clients_of_keeps: "keeps ss ss' \<Longrightarrow> clients_of ss \<subseteq> clients_of ss'"
  by (auto simp: clients_of_def keeps_def)

lemma admissible_client: "admissible ss r \<Longrightarrow> rq_client_id r \<in> clients_of ss"
  using validate_client by (simp add: admissible_def clients_of_def)

definition exchange_inv :: "ExchangeNet \<Rightarrow> bool" where
  "exchange_inv = (\<lambda>(t, os, e, us, tk, pt). net_inv (t, os, tk, pt) \<and> net_admitted (t, os, tk, pt) \<and>
     incoming_requests e = client_requests os \<and> outgoing_ogw_responses e = outgoing_responses os \<and>
     (\<exists>rs. pt = rs @ contents (outgoing_responses os) \<and> engine_inv (e, rs, us)) \<and>
     engine_speaks (clients_of (sessions os)) e \<and> (\<forall>r \<in> set pt. resp_for (clients_of (sessions os)) r))"

lemma exchange_begin_inv:
  assumes "exchange_begin n1 n2 n3 z1 z2 z3 jn = Some x"
  shows "exchange_inv x" "\<exists>y. server_begin n1 n2 z1 z2 jn = Some y \<and> server_view x = y"
proof -
  obtain q1 q2 q3 e t where q: "LFQueue_new z1 n1 = Some q1" "LFQueue_new z2 n2 = Some q2" "LFQueue_new z3 n3 = Some q3"
    and e: "MatchingEngine_new q1 q2 q3 jn = Some e" and t: "TCPServer_new = Some t" and x: "x = (t, OrderServer_new q1 q2 jn, e, [], [], [])"
    using assms by (auto simp: exchange_begin_def bind_Some_conv)
  have s: "server_begin n1 n2 z1 z2 jn = Some (t, OrderServer_new q1 q2 jn, [], [])" unfolding server_begin_def t using q by simp
  show "\<exists>y. server_begin n1 n2 z1 z2 jn = Some y \<and> server_view x = y" using s by (simp add: server_view_def x)
  have es: "engine_start n1 n2 n3 jn z1 z2 z3 = Some e" using q e by (simp add: engine_start_def)
  note E = engine_start_inv [OF es]
  have l: "incoming_requests e = q1" "outgoing_ogw_responses e = q2" using e by (auto simp: MatchingEngine_new_def bind_Some_conv)
  have "length (ticker_order_book e) = ME_MAX_TICKERS" using E(1) by (simp add: engine_inv_def)
  then have "engine_speaks C e" for C using E(9) new_book_speaks by (simp add: engine_speaks_def)
  moreover have "contents q2 = []" using E(4) l by simp
  ultimately show "exchange_inv x" using E(1) l server_begin_inv [OF s] server_begin_admitted [OF s]
    by (simp add: x exchange_inv_def OrderServer_new_def)
qed

lemma exchange_step_inv:
  assumes "exchange_step m sys x y" "exchange_inv x"
  shows "exchange_inv y \<and> (server_step m sys)\<^sup>*\<^sup>* (server_view x) (server_view y)"
  using assms
proof (induct rule: exchange_step.induct)
  case (ex_server t os tk pt t' os' e us)
  then have I: "net_inv (t, os, tk, pt)" "net_admitted (t, os, tk, pt)" "engine_speaks (clients_of (sessions os)) e"
      "\<forall>r \<in> set pt. resp_for (clients_of (sessions os)) r" "incoming_requests e = client_requests os" "outgoing_ogw_responses e = outgoing_responses os"
    by (simp_all add: exchange_inv_def)
  obtain rs where rs: "pt = rs @ contents (outgoing_responses os)" "engine_inv (e, rs, us)" using ex_server(2) by (auto simp: exchange_inv_def)
  have N: "net_inv (t', os', tk, pt)" "keeps (sessions os) (sessions os')" "net_admitted (t', os', tk, pt)"
    using server_step_inv [OF ex_server(1) I(1)] server_step_admitted [OF ex_server(1) I(1,2)] by (simp_all add: net_keeps_def)
  note mono = clients_of_keeps [OF N(2)]
  obtain xs where xs: "contents (outgoing_responses os) = xs @ contents (outgoing_responses os')"
    using server_step_outgoing [OF ex_server(1) I(1)] by auto
  have "queue_ok (client_requests os')" "queue_ok (outgoing_responses os')" using N(1) by (simp_all add: net_inv_def server_inv_def queues_inv_def)
  then have "engine_inv (engine_sees os' e, rs @ xs, us)"
    using rs(2) xs I(6) by (intro engine_inv_frame [OF rs(2)]) (simp_all add: engine_sees_def engine_inv_def queues_ok_def)
  moreover have "engine_speaks (clients_of (sessions os')) (engine_sees os' e)"
    using engine_speaks_mono [OF I(3) mono] by (simp add: engine_speaks_def engine_sees_def)
  moreover have "\<forall>r \<in> set pt. resp_for (clients_of (sessions os')) r" using I(4) resp_for_mono [OF _ mono] by blast
  moreover have "\<exists>rs'. pt = rs' @ contents (outgoing_responses os') \<and> engine_inv (engine_sees os' e, rs', us)"
    using rs(1) xs calculation(1) by (intro exI [of _ "rs @ xs"]) simp
  moreover have "(server_step m sys)\<^sup>*\<^sup>* (t, os, tk, pt) (t', os', tk, pt)" using ex_server(1) by blast
  ultimately show ?case using N by (simp add: exchange_inv_def server_view_def engine_sees_def)
next
  case (ex_engine e r e' ns t os us tk pt)
  then have I: "net_inv (t, os, tk, pt)" "net_admitted (t, os, tk, pt)" "engine_speaks (clients_of (sessions os)) e"
      "\<forall>r \<in> set pt. resp_for (clients_of (sessions os)) r" "incoming_requests e = client_requests os" "outgoing_ogw_responses e = outgoing_responses os"
    by (simp_all add: exchange_inv_def)
  obtain rs where rs: "pt = rs @ contents (outgoing_responses os)" "engine_inv (e, rs, us)" using ex_engine(4) by (auto simp: exchange_inv_def)
  have Q: "queue_ok (incoming_requests e)" "queue_ok (outgoing_ogw_responses e)" using rs(2) by (simp_all add: engine_inv_def queues_ok_def)
  obtain e1 p where p: "processClientRequest sys r e = Some e1" "pop (incoming_requests e1) = Some p" "e' = e1\<lparr>incoming_requests := p\<rparr>"
    using ex_engine(1,2) by (auto simp: engine_step_def bind_Some_conv)
  have i1: "incoming_requests e1 = incoming_requests e" using process_inv [OF rs(2) p(1)] by simp
  have c1: "contents (outgoing_ogw_responses e1) = contents (outgoing_ogw_responses e) @ ns" using ex_engine(3) p(3) by simp
  have "r \<in> set (contents (client_requests os))" using ex_engine(1) peek_pop(1) [OF Q(1)] I(5) by (auto split: list.splits)
  then have a: "admissible (sessions os) r" using I(2) by (simp add: net_admitted_def admitted_def)
  have S: "engine_speaks (clients_of (sessions os)) e1" "\<forall>x \<in> set ns. resp_for (clients_of (sessions os)) x"
    using process_speaks [OF rs(2) I(3) p(1) admissible_client [OF a]] a c1 by (auto simp: admissible_def)
  have V: "(server_step m sys)\<^sup>*\<^sup>* (t, os, tk, pt) (t, server_sees e' os, tk @ [r], pt @ ns)"
    unfolding p(3) using engine_step_view [OF I(5,6) Q ex_engine(1) p(1) _ i1 c1] p(2) i1 by simp
  have N: "net_inv (t, server_sees e' os, tk @ [r], pt @ ns) \<and> net_admitted (t, server_sees e' os, tk @ [r], pt @ ns)"
    using server_steps_admitted [OF V I(1,2)] .
  have "engine_inv (e', rs, us)" using event_inv [OF rs(2), of sys Work "(e', rs, us)"] ex_engine(2) by simp
  moreover have "pt @ ns = rs @ contents (outgoing_ogw_responses e')" using rs(1) ex_engine(3) I(6) by simp
  ultimately have "\<exists>rs. pt @ ns = rs @ contents (outgoing_responses (server_sees e' os)) \<and> engine_inv (e', rs, us)" by (auto simp: server_sees_def)
  then show ?case using N S I(4) V by (auto simp: exchange_inv_def server_view_def server_sees_def p(3) engine_speaks_def)
next
  case (ex_publish e u q t os us tk pt)
  then obtain rs where rs: "pt = rs @ contents (outgoing_responses os)" "engine_inv (e, rs, us)" by (auto simp: exchange_inv_def)
  have "engine_inv (e\<lparr>outgoing_md_updates := q\<rparr>, rs, us @ [u])"
    using event_inv [OF rs(2), of sys TakeUpdate] ex_publish(1) by simp
  then show ?case using ex_publish(2) rs(1) by (auto simp: exchange_inv_def server_view_def engine_speaks_def)
qed

lemma exchange_steps_inv:
  assumes "(exchange_step m sys)\<^sup>*\<^sup>* x y" "exchange_inv x"
  shows "exchange_inv y \<and> (server_step m sys)\<^sup>*\<^sup>* (server_view x) (server_view y)"
  using assms
proof (induct rule: rtranclp_induct)
  case (step y z)
  then show ?case using exchange_step_inv [of m sys y z] by (auto intro: rtranclp_trans)
qed simp

end
