(* ===== verification/Exchange_Sample.thy ===== *)
theory Exchange_Sample
  imports Exchange_Process
begin

text \<open>
  A concrete run of the exchange: a client connects, its first order arrives on the wire, is staged, published, matched and
  answered. It shows that the hypotheses of the properties of the exchange can be met by a run in which something happens.
\<close>

definition first_message :: OMClientRequest where
  "first_message = \<lparr>omq_seq_num = 1, omq_request = sample_request, omq_session_epoch = 77\<rparr>"

definition first_request :: MEClientRequest where
  "first_request = sample_request\<lparr>rq_session_epoch := 77, rq_request_seq := 1\<rparr>"

lemma first_frame:
  "length (encode_request first_message) = 50"
  "decode_request (encode_request first_message @ rest) = Some (Some (first_message\<lparr>omq_request := first_request\<rparr>))"
proof -
  have "req_ok (rq_type (omq_request first_message))" "side_ok (rq_side (omq_request first_message))" "i64 (rq_price (omq_request first_message))"
    by (simp_all add: first_message_def sample_request_def MEClientRequest_default_def req_ok_def side_ok_def i64_def)
  from request_on_wire [OF this, of rest]
  show "length (encode_request first_message) = 50"
    "decode_request (encode_request first_message @ rest) = Some (Some (first_message\<lparr>omq_request := first_request\<rparr>))"
    by (simp_all add: limits first_message_def first_request_def)
qed

lemma first_valid: "validate first_request = Rej_NONE" "rq_client_id first_request = 3" "rq_ticker_id first_request = 1"
  "request_call first_request = Some (CallAdd 3 1 1 BUY 100 5)"
  by (simp_all add: first_request_def sample_request_def MEClientRequest_default_def validate_def limits request_call_def)

lemma first_admitted:
  assumes "sessions os = Sessions_new"
  shows "admission alive 1 (first_message\<lparr>omq_request := first_request\<rparr>) (sessions os) = (Rej_NONE, sessions os)"
  using assms first_valid(2)
  by (simp add: admission_def check_owner_def check_session_def bound_elsewhere_def Sessions_new_def first_message_def limits)

lemma first_staged:
  assumes s: "sessions os = Sessions_new" "fifo_sequencer os = FIFOSequencer_new" "server_audit os = None"
  obtains os' where "handle_frame sys 1 0 (encode_request first_message @ rest) (t, os) = Some (True, t, os')"
    "staged (fifo_sequencer os') = [\<lparr>recv_time = 0, recv_request = first_request\<rparr>]" "server_audit os' = None"
    "client_requests os' = client_requests os" "outgoing_responses os' = outgoing_responses os" "server_run os' = server_run os"
    "accepting os' = accepting os"
proof -
  let ?m = "first_message\<lparr>omq_request := first_request\<rparr>"
  have can: "fifo_canAccept FIFOSequencer_new" by (simp add: fifo_canAccept_def FIFOSequencer_new_def limits)
  obtain f where f: "addClientRequest 0 first_request FIFOSequencer_new = (True, f)"
    by (simp add: addClientRequest_def FIFOSequencer_new_def limits)
  have st: "staged f = [\<lparr>recv_time = 0, recv_request = first_request\<rparr>]"
    using addClientRequest_ok(3) [OF FIFOSequencer_new_ok(1) f] FIFOSequencer_new_ok(2) by simp
  obtain os' where os': "stage_request sys 1 0 ?m os = Some (True, os')" "fifo_sequencer os' = f" "server_audit os' = None"
    "client_requests os' = client_requests os" "outgoing_responses os' = outgoing_responses os" "server_run os' = server_run os"
    "accepting os' = accepting os"
    using can f s(2,3) by (simp add: stage_request_def server_audit_with_def Let_def advance_def)
  have "handle_request sys 1 0 ?m (t, os) = Some (True, t, os')"
    using first_admitted [OF s(1)] os'(1) first_valid(1) by (simp add: handle_request_def)
  then have "handle_frame sys 1 0 (encode_request first_message @ rest) (t, os) = Some (True, t, os')"
    by (simp add: handle_frame_def first_frame(2))
  then show thesis using that [of os'] os' st by simp
qed

text \<open>The frame arrives on connection 1, on which nothing has happened yet.\<close>

lemma first_received:
  assumes s: "sessions os = Sessions_new" "fifo_sequencer os = FIFOSequencer_new" "server_audit os = None" "accepting os"
    and l: "TCPSocket_new TCPBufferSize = Some l" "tcp_conns t = [k, l\<lparr>socket_fd := 7\<rparr>]"
  obtains t' os' where "conn_io (server_recvCallback sys) (\<lambda>_. Io_Again)
      (\<lambda>n. if n = 7 then Rc_Data (encode_request first_message) 0 else Rc_Again) 1 (t, os) = Some (t', os')"
    "length (tcp_conns t') = 2" "receive_sockets t' = receive_sockets t" "wire_in (tcp_conns t' ! 1) = encode_request first_message"
    "pending_bytes (tcp_conns t' ! 1) = 0" "parsed_in (tcp_conns t' ! 1) = encode_request first_message"
    "healthy (tcp_conns t' ! 1)" "socket_fd (tcp_conns t' ! 1) = 7"
    "staged (fifo_sequencer os') = [\<lparr>recv_time = 0, recv_request = first_request\<rparr>]" "server_audit os' = None"
    "client_requests os' = client_requests os" "outgoing_responses os' = outgoing_responses os" "server_run os' = server_run os"
proof -
  let ?F = "encode_request first_message" and ?cb = "conn_cb (server_recvCallback sys) 1"
  let ?inp = "\<lambda>n :: nat. if n = 7 then Rc_Data ?F 0 else Rc_Again"
  let ?s = "l\<lparr>socket_fd := 7\<rparr>"
  have lv: "conn_state ?s = Open" "next_send_valid_index ?s = 0" "next_rcv_valid_index ?s = 0" "wire_in ?s = []" "parsed_in ?s = []"
      "inbound_data ?s = replicate TCPBufferSize 0" "socket_fd ?s = 7"
    using l(1) by (auto simp: TCPSocket_new_def split: if_splits)
  have big: "50 < TCPBufferSize" by (simp add: limits)
  have nF: "?F \<noteq> []" using first_frame(1) by auto
  let ?z = "?s\<lparr>send_begin := 0\<rparr>"
  have fl: "flushSend (\<lambda>_. Io_Again) ?s = (True, ?z)" using lv by (simp add: flushSend_def healthy_def eval_nat_numeral)
  let ?r = "receive_bytes ?F 0 ?z"
  have rb: "inbound_data ?r = ?F @ replicate (TCPBufferSize - 50) 0" "next_rcv_valid_index ?r = 50" "wire_in ?r = ?F" "conn_state ?r = Open"
      "parsed_in ?r = []" "next_send_valid_index ?r = 0" "socket_fd ?r = 7"
    using lv big first_frame(1) by (simp_all add: receive_bytes_def write_at_def)
  let ?t = "set_conn 1 ?r t"
  have tt: "tcp_conns ?t ! 1 = ?r" "length (tcp_conns ?t) = 2" using l(2) by (simp_all add: set_conn_def)
  obtain os' where os': "handle_frame sys 1 0 (?F @ replicate (TCPBufferSize - 50) 0) (?t, os) = Some (True, ?t, os')"
    "staged (fifo_sequencer os') = [\<lparr>recv_time = 0, recv_request = first_request\<rparr>]" "server_audit os' = None"
    "client_requests os' = client_requests os" "outgoing_responses os' = outgoing_responses os" "server_run os' = server_run os"
    using first_staged [OF s(1-3)] by metis
  have "frame_loop sys 1 0 n 50 (?t, os') = Some (50, ?t, os')" for n
    by (cases n) (simp_all add: tt(1) rb(2) RequestSize_def Let_def del: One_nat_def)
  then have "frame_loop sys 1 0 (Suc n) 0 (?t, os) = Some (50, ?t, os')" for n
    using os'(1) by (simp add: tt(1) rb(1,2) RequestSize_def Let_def del: One_nat_def)
  from this [of 49] have "frame_loop sys 1 0 50 0 (?t, os) = Some (50, ?t, os')" by simp
  then have rc: "server_recvCallback sys 1 0 (?t, os) = Some (set_conn 1 (consume 50 ?r) ?t, os')"
    using s(4) tt rb(2) by (simp add: server_recvCallback_def del: One_nat_def)
  let ?u = "set_conn 1 (consume 50 ?r) ?t"
  have uu: "tcp_conns ?u ! 1 = consume 50 ?r" using l(2) by (simp add: set_conn_def)
  have cv: "healthy (consume 50 ?r)" "next_rcv_valid_index (consume 50 ?r) = 0" "wire_in (consume 50 ?r) = ?F"
      "parsed_in (consume 50 ?r) = ?F" "next_send_valid_index (consume 50 ?r) = 0" "socket_fd (consume 50 ?r) = 7"
    using rb first_frame(1) by (simp_all add: consume_def healthy_def)
  have "?cb 0 (?r, t, os) = Some (consume 50 ?r, ?u, os')" using rc uu by (simp add: conn_cb_def del: One_nat_def)
  then have cb: "?cb 0 (receive_bytes (take (TCPBufferSize - 0) ?F) 0 ?z, t, os) = Some (consume 50 ?r, ?u, os')"
    using big first_frame(1) by simp
  have len: "length (inbound_data (consume 50 ?r)) \<noteq> 0" using rb(1,2) big first_frame(1) by (simp add: consume_def write_at_def)
  have "recv_loop ?cb ?inp (Suc 6) True (consume 50 ?r, ?u, os') = Some (True, consume 50 ?r, ?u, os')"
    using cv(1,2) len by (subst recv_loop.simps) (simp only: simp_thms if_False, simp)
  moreover have "recv_loop ?cb ?inp (Suc 7) False (?z, t, os) = Option.bind (?cb 0 (receive_bytes (take (TCPBufferSize - 0) ?F) 0 ?z, t, os)) (recv_loop ?cb ?inp 7 True)"
    using lv big nF by (subst recv_loop.simps) (simp add: healthy_def Let_def del: conn_cb_def)
  ultimately have "recv_loop ?cb ?inp 8 False (?z, t, os) = Some (True, consume 50 ?r, ?u, os')"
    unfolding cb by simp
  then have "sendAndRecv ?cb (\<lambda>_. Io_Again) ?inp (?s, t, os) = Some (True, consume 50 ?r, ?u, os')"
    using lv(3) unfolding sendAndRecv_def prod.case fl Let_def by simp
  then have io: "conn_io (server_recvCallback sys) (\<lambda>_. Io_Again) ?inp 1 (t, os) = Some (set_conn 1 (consume 50 ?r) ?u, os')"
    unfolding conn_io_def l(2) prod.case by simp
  show thesis
  proof (rule that [OF io])
    show "length (tcp_conns (set_conn 1 (consume 50 ?r) ?u)) = 2" using l(2) by simp
    show "wire_in (tcp_conns (set_conn 1 (consume 50 ?r) ?u) ! 1) = ?F" "parsed_in (tcp_conns (set_conn 1 (consume 50 ?r) ?u) ! 1) = ?F"
      "pending_bytes (tcp_conns (set_conn 1 (consume 50 ?r) ?u) ! 1) = 0"
      "healthy (tcp_conns (set_conn 1 (consume 50 ?r) ?u) ! 1)" "socket_fd (tcp_conns (set_conn 1 (consume 50 ?r) ?u) ! 1) = 7"
      using l(2) cv by (simp_all add: pending_bytes_def del: One_nat_def)
  qed (use os' in simp_all)
qed

subsection \<open>The engine answers\<close>

lemma add_responds: "responses (call_msgs (CallAdd c i t s p q) A) \<noteq> []"
proof -
  obtain q' os' ms where sm: "spec_match c i t s p (sb_next_id A) q (sb_orders A (opp s)) = (q', os', ms)"
    by (cases "spec_match c i t s p (sb_next_id A) q (sb_orders A (opp s))") auto
  then show ?thesis by (simp add: call_msgs_def spec_add_def Let_def spec_emit_def)
qed

lemma order_answered:
  assumes inv: "engine_inv (e, rs, us)" and n: "validate r = Rej_NONE" "request_call r = Some (CallAdd c i t s p q)"
    and e': "processClientRequest sys r e = Some e'"
  shows "\<exists>ns. ns \<noteq> [] \<and> contents (outgoing_ogw_responses e') = contents (outgoing_ogw_responses e) @ ns \<and>
     length ns \<le> 2 * length (live_orders (ticker_order_book e ! unat (rq_ticker_id r))) + 1"
proof -
  let ?t = "unat (rq_ticker_id r)" and ?call = "CallAdd c i t s p q"
  have t: "?t < ME_MAX_TICKERS" using n(1) by (auto simp: validate_def split: if_splits)
  obtain e1 where e1: "audit_with (journal_request sys ''APPLY'' r) e = Some e1" "call_book sys ?t ?call e1 = Some e'"
    using e' n by (auto simp: processClientRequest_def bind_Some_conv Let_def)
  obtain a where a: "e1 = e\<lparr>audit := a\<rparr>" using audit_with_frame [OF e1(1)] by blast
  let ?b = "ticker_order_book e1 ! ?t"
  have I: "queues_ok e" "resp_inv e (rs @ contents (outgoing_ogw_responses e))"
      "\<forall>t < ME_MAX_TICKERS. reachable_book (of_nat t) (ticker_order_book e1 ! t)"
    using inv by (simp_all add: engine_inv_def a)
  obtain b where b: "book_call ?call ?b = Some b"
      "deliver sys (drop (length (sink ?b)) (sink b)) (e1\<lparr>ticker_order_book := (ticker_order_book e1)[?t := b]\<rparr>) = Some e'"
    using e1(2) by (auto simp: call_book_def bind_Some_conv)
  obtain g where g: "book_ok ?b g" "spec_inv (abs_book ?b g)" using reachable_ok I(3) t by blast
  obtain g' where g': "abs_book b g' = spec_call ?call (abs_book ?b g)" using book_call_ok [OF g] b(1) by (metis option.inject)
  have "sb_out (abs_book b g') = sb_out (abs_book ?b g) @ call_msgs ?call (abs_book ?b g)" unfolding g' by (rule call_out)
  then have ms: "drop (length (sink ?b)) (sink b) = call_msgs ?call (abs_book ?b g)" by (simp add: abs_book_def)
  let ?e = "e1\<lparr>ticker_order_book := (ticker_order_book e1)[?t := b]\<rparr>"
  have "queues_ok ?e" "resp_inv ?e (rs @ contents (outgoing_ogw_responses ?e))" using I(1,2) by (simp_all add: a queues_ok_def resp_inv_def)
  from deliver_ok [OF b(2) this] obtain ns where "contents (outgoing_ogw_responses e') = contents (outgoing_ogw_responses e) @ ns"
      "map unstamp ns = map unstamp (responses (call_msgs ?call (abs_book ?b g)))" unfolding ms by (auto simp: a)
  moreover from this(2) have "length ns = length (responses (call_msgs ?call (abs_book ?b g)))" using map_eq_imp_length_eq by blast
  moreover have "length (responses (call_msgs ?call (abs_book ?b g))) \<le> 2 * length (live_orders ?b) + 1"
    using call_count [OF g(2), of ?call] live_count [OF g] by simp
  ultimately show ?thesis using add_responds [of c i t s p q "abs_book ?b g"] by (intro exI [of _ ns]) (auto simp: a)
qed

lemma staged_published:
  assumes q: "queues_inv os" and s: "staged (fifo_sequencer os) = [x]" and c: "contents (client_requests os) = []" "1 < length (store (client_requests os))"
  shows "contents (client_requests (recvFinishedCallback os)) = [recv_request x]" "staged (fifo_sequencer (recvFinishedCallback os)) = []"
proof -
  obtain f p where r: "sequenceAndPublish (fifo_sequencer os) (client_requests os) = (f, p)"
    by (cases "sequenceAndPublish (fifo_sequencer os) (client_requests os)")
  have k: "fifo_ok (fifo_sequencer os)" "queue_ok (client_requests os)" using q by (simp_all add: queues_inv_def)
  obtain n where n: "staged f = drop n [x]" "contents p = map recv_request (take n [x])" "n = 1 \<or> length (contents p) = length (store (client_requests os))"
    using sequence_ok(1) [OF k r] s c(1) by auto
  then have "n = 1" using c(2) by (cases n) auto
  then show "contents (client_requests (recvFinishedCallback os)) = [recv_request x]" "staged (fifo_sequencer (recvFinishedCallback os)) = []"
    using n r by (simp_all add: recvFinishedCallback_def)
qed

subsection \<open>The run\<close>

lemma exchange_sample:
  obtains y t os e pt where "exchange_begin 4 4 4 z1 z2 z3 None = Some y"
    "(exchange_step True sys)\<^sup>*\<^sup>* y (t, os, e, [], [first_request], pt)" "pt \<noteq> []" "contents (outgoing_responses os) = pt" "length pt = 1"
    "length (tcp_conns t) = 2" "receive_sockets t = [1]" "wire_in (tcp_conns t ! 1) = encode_request first_message"
    "parsed_in (tcp_conns t ! 1) = encode_request first_message" "pending_bytes (tcp_conns t ! 1) = 0"
    "contents (client_requests os) = []" "staged (fifo_sequencer os) = []" "\<not> server_run os"
    "healthy (tcp_conns t ! 1)" "socket_fd (tcp_conns t ! 1) = 7"
proof -
  obtain q1 where q1: "LFQueue_new z1 4 = Some q1" using small_queue [of z1] by (elim exE)
  obtain q2 where q2: "LFQueue_new z2 4 = Some q2" using small_queue [of z2] by (elim exE)
  obtain q3 where q3: "LFQueue_new z3 4 = Some q3" using small_queue [of z3] by (elim exE)
  obtain l where l: "TCPSocket_new TCPBufferSize = Some l" using buffer_size_pos by (simp add: TCPSocket_new_def)
  define t0 where "t0 = \<lparr>epoll_fd = - 1, tcp_conns = [l], receive_sockets = [], send_sockets = []\<rparr>"
  define os0 where "os0 = OrderServer_new q1 q2 None"
  obtain e0 where e0: "engine_start 4 4 4 None z1 z2 z3 = Some e0" using sample_engine [of z1 z2 z3] by blast
  note S = engine_start_inv [OF e0]
  have me: "MatchingEngine_new q1 q2 q3 None = Some e0" using e0 q1 q2 q3 by (simp add: engine_start_def)
  have y: "exchange_begin 4 4 4 z1 z2 z3 None = Some (t0, os0, e0, [], [], [])"
    using q1 q2 q3 l me by (simp add: exchange_begin_def TCPServer_new_def t0_def os0_def)
  note Y = exchange_begin_inv(1) [OF y]
  have "(0 :: nat) < ME_MAX_NUM_CLIENTS" by (simp add: limits)
  then obtain t1 where t1: "server_poll [\<lparr>ev_socket = 0, ev_in = True, ev_out = False, ev_err = False\<rparr>] [(7, True)] t0 = Some t1"
      "tcp_conns t1 = [l, l\<lparr>socket_fd := 7\<rparr>]" "receive_sockets t1 = [1]"
    using l by (simp add: server_poll_def t0_def Let_def note_receive_def)
  have s1: "exchange_step True sys (t0, os0, e0, [], [], []) (t1, os0, engine_sees os0 e0, [], [], [])"
    by (intro ex_server sv_poll [OF t1(1)]) (simp add: t0_def)
  obtain t os2 where io: "conn_io (server_recvCallback sys) (\<lambda>_. Io_Again)
      (\<lambda>n. if n = 7 then Rc_Data (encode_request first_message) 0 else Rc_Again) 1 (t1, os0) = Some (t, os2)"
    and tt: "length (tcp_conns t) = 2" "receive_sockets t = [1]" "wire_in (tcp_conns t ! 1) = encode_request first_message"
    "pending_bytes (tcp_conns t ! 1) = 0" "parsed_in (tcp_conns t ! 1) = encode_request first_message"
    "healthy (tcp_conns t ! 1)" "socket_fd (tcp_conns t ! 1) = 7"
    and o2: "staged (fifo_sequencer os2) = [\<lparr>recv_time = 0, recv_request = first_request\<rparr>]" "server_audit os2 = None"
    "client_requests os2 = q1" "outgoing_responses os2 = q2" "\<not> server_run os2"
    using first_received [of os0 l t1 l sys] l t1(2,3) by (auto simp: os0_def OrderServer_new_def)
  have s2: "exchange_step True sys (t1, os0, engine_sees os0 e0, [], [], []) (t, os2, engine_sees os2 (engine_sees os0 e0), [], [], [])"
    using t1(2) l by (intro ex_server sv_conn [OF _ _ io]) (auto simp: conn_time_def TCPSocket_new_def eval_nat_numeral split: if_splits)
  note r2 = rtranclp.rtrancl_into_rtrancl [OF r_into_rtranclp [of "exchange_step True sys", OF s1] s2]
  let ?e2 = "engine_sees os2 (engine_sees os0 e0)" and ?os = "recvFinishedCallback os2"
  have s3: "exchange_step True sys (t, os2, ?e2, [], [], []) (t, ?os, engine_sees ?os ?e2, [], [], [])"
    by (intro ex_server sv_sequence)
  have r3: "(exchange_step True sys)\<^sup>*\<^sup>* (t0, os0, e0, [], [], []) (t, ?os, engine_sees ?os ?e2, [], [], [])"
    by (rule rtranclp.rtrancl_into_rtrancl [OF r2 s3])
  have q2': "queues_inv os2" using exchange_steps_inv [OF r2 Y] by (simp add: exchange_inv_def net_inv_def server_inv_def)
  note P = staged_published [OF q2' o2(1)]
  have N: "contents q1 = []" "length (store q1) = 4" "contents q2 = []" "length (store q2) = 4" using queue_new_ok [OF q1] queue_new_ok [OF q2] by simp_all
  have os: "contents (client_requests ?os) = [first_request]" "staged (fifo_sequencer ?os) = []" using P N o2(3) by simp_all
  have os': "outgoing_responses ?os = q2" "server_audit ?os = None" "\<not> server_run ?os"
    using o2 by (simp_all add: recvFinishedCallback_def split: prod.split)
  let ?e = "engine_sees ?os ?e2"
  have X: "exchange_inv (t, ?os, ?e, [], [], [])" using exchange_steps_inv [OF r3 Y] by blast
  have ei: "engine_inv (?e, [], [])" using X by (auto simp: exchange_inv_def os' N)
  have ev: "outgoing_ogw_responses ?e = q2" "audit ?e = None" "outgoing_md_updates ?e = outgoing_md_updates e0" "ticker_order_book ?e = ticker_order_book e0"
      "incoming_requests ?e = client_requests ?os"
    by (simp_all add: engine_sees_def os')
  have roomy: "2 * length (live_orders (ticker_order_book ?e ! t)) + 1 \<le> room (outgoing_ogw_responses ?e) \<and>
      2 * length (live_orders (ticker_order_book ?e ! t)) + 1 \<le> room (outgoing_md_updates ?e)" if "t < ME_MAX_TICKERS" for t
    using S(5,8) S(9) [OF that] new_book_empty N by (simp add: room_def ev)
  obtain e where st: "engine_step sys ?e = Some e" using step_total [OF ei _ roomy] ev(2) by (auto simp: audit_live_def)
  have qo: "queue_ok (client_requests ?os)" using X by (simp add: exchange_inv_def net_inv_def server_inv_def queues_inv_def)
  have pk: "peek (incoming_requests ?e) = Some first_request" using peek_pop(1) [OF qo] os(1) by (simp add: ev(5))
  then obtain e1 p where e1: "processClientRequest sys first_request ?e = Some e1" "pop (incoming_requests e1) = Some p" "e = e1\<lparr>incoming_requests := p\<rparr>"
    using st by (auto simp: engine_step_def bind_Some_conv)
  have "incoming_requests e1 = client_requests ?os" using process_inv [OF ei e1(1)] ev(5) by simp
  then have p: "contents p = []" using peek_pop(2) [OF qo] os(1) e1(2) by simp
  obtain ns where ns: "ns \<noteq> []" "contents (outgoing_ogw_responses e1) = contents (outgoing_ogw_responses ?e) @ ns"
      "length ns \<le> 2 * length (live_orders (ticker_order_book ?e ! unat (rq_ticker_id first_request))) + 1"
    using order_answered [OF ei first_valid(1,4) e1(1)] by blast
  have "unat (rq_ticker_id first_request) < ME_MAX_TICKERS" by (simp add: first_valid(3) limits)
  then have "live_orders (ticker_order_book ?e ! unat (rq_ticker_id first_request)) = []" using S(9) new_book_empty by (simp add: ev(4))
  then have len: "length ns = 1" using ns(1,3) by (cases ns) simp_all
  have "exchange_step True sys (t, ?os, ?e, [], [], []) (t, server_sees e ?os, e, [], [] @ [first_request], [] @ ns)"
    using ns(2) by (intro ex_engine [OF pk st]) (simp add: e1(3))
  then have run: "(exchange_step True sys)\<^sup>*\<^sup>* (t0, os0, e0, [], [], []) (t, server_sees e ?os, e, [], [first_request], ns)"
    using r3 by (simp add: rtranclp.rtrancl_into_rtrancl)
  show thesis
    by (rule that [OF y run ns(1)]) (use tt ns(2) len N(3) os(2) os'(3) p in \<open>simp_all add: server_sees_def e1(3) ev(1)\<close>)
qed

subsection \<open>The client of the run\<close>

lemma gateway_flushed_value:
  "(case gateway_sample of None \<Rightarrow> False | Some (s, g, qs, rs) \<Rightarrow>
     (case sendAndRecv (gateway_recvCallback 0) (\<lambda>_. Io_Count 50) (\<lambda>_. Rc_Again) (s, g) of None \<Rightarrow> False | Some (b, s', g') \<Rightarrow>
        wire_out s' = encode_request first_message \<and> wire_in s' = []))"
  by code_simp

lemma gateway_flushed:
  obtains x s g where "gateway_begin 64 4 4 MEClientRequest_default (mk_response Resp_INVALID 0 0 0 0 BUY 0 0 0 Rej_NONE) 3 77 5 = Some x"
    "gateway_step\<^sup>*\<^sup>* x (s, g, [sample_request], [])" "wire_out s = encode_request first_message" "wire_in s = []"
proof -
  obtain x s g where x: "gateway_begin 64 4 4 MEClientRequest_default (mk_response Resp_INVALID 0 0 0 0 BUY 0 0 0 Rej_NONE) 3 77 5 = Some x"
    "gateway_step\<^sup>*\<^sup>* x (s, g, [sample_request], [])" "gateway_sample = Some (s, g, [sample_request], [])"
    using gateway_sample_reachable by blast
  obtain b s' g' where io: "sendAndRecv (gateway_recvCallback 0) (\<lambda>_. Io_Count 50) (\<lambda>_. Rc_Again) (s, g) = Some (b, s', g')"
      "wire_out s' = encode_request first_message" "wire_in s' = []"
    using gateway_flushed_value unfolding x(3) by (auto split: option.splits)
  have "gateway_step\<^sup>*\<^sup>* x (s', g', [sample_request], [])" using x(2) gw_io [OF io(1)] by (rule rtranclp.rtrancl_into_rtrancl)
  then show thesis using that [OF x(1)] io(2,3) by blast
qed

end
