(* ===== verification/Exchange_Props.thy ===== *)
theory Exchange_Props
  imports Exchange_Sample
begin

text \<open>
  Properties of the whole exchange process and of a client connected to it: every response of the matching engine has a
  session to go to, the order flow between the trading engine of a client and the matching engine is exact in both
  directions, and an orderly shutdown leaves nothing undelivered inside the process.
\<close>

subsection \<open>What the engine issues can be carried\<close>

lemma signed_fill_bound:
  assumes "resp_for C r" shows "\<bar>signed_fill r\<bar> \<le> 2 ^ 31"
proof (cases "rs_type r = Resp_FILLED")
  case True
  then have "rs_side r = BUY \<or> rs_side r = SELL" "unat (rs_exec_qty r) \<le> INT32_MAX" using assms by (auto simp: resp_for_def sides_def)
  moreover from this have "uint (rs_exec_qty r) \<le> 2147483647" by (simp add: limits uint_nat del: of_nat_unat)
  ultimately show ?thesis by (auto simp: signed_fill_def)
qed (simp add: signed_fill_def)

lemma position_bound: "\<forall>r \<in> set rs. resp_for C r \<Longrightarrow> \<bar>position_of c t rs\<bar> \<le> int (length rs) * 2 ^ 31"
proof (induct rs)
  case (Cons r rs)
  then have "\<bar>signed_fill r\<bar> \<le> 2 ^ 31" "\<bar>position_of c t rs\<bar> \<le> int (length rs) * 2 ^ 31" using signed_fill_bound by auto
  then show ?case by (auto simp: algebra_simps)
qed simp

lemma issued_wire_ok:
  assumes inv: "exchange_inv (t, os, e, us, tk, pt)" and len: "length pt < 2 ^ 31" and r: "r \<in> set pt"
  shows "response_wire_ok r"
proof -
  obtain rs where rs: "pt = rs @ contents (outgoing_ogw_responses e)" "engine_inv (e, rs, us)"
    using inv by (auto simp: exchange_inv_def)
  have F: "\<forall>r \<in> set pt. resp_for (clients_of (sessions os)) r" using inv by (simp add: exchange_inv_def)
  then have f: "resp_for (clients_of (sessions os)) r" using r by blast
  obtain k where k: "k < length pt" "r = pt ! k" using r by (auto simp: in_set_conv_nth)
  let ?c = "unat (rs_client_id r)" and ?t = "unat (rs_ticker_id r)"
  have "resp_inv e pt" using rs by (simp add: engine_inv_def)
  moreover have "?c < ME_MAX_NUM_CLIENTS" "?t < ME_MAX_TICKERS" using f by (simp_all add: resp_for_def clients_of_def)
  ultimately have p: "rs_position r = position_of ?c ?t (take (Suc k) pt)" using k by (simp add: resp_inv_def Let_def)
  have "int (length (take (Suc k) pt)) * 2 ^ 31 \<le> 2 ^ 31 * 2 ^ 31" using len by (intro mult_right_mono) simp_all
  moreover have "\<bar>position_of ?c ?t (take (Suc k) pt)\<bar> \<le> int (length (take (Suc k) pt)) * 2 ^ 31"
    using F by (intro position_bound [of _ "clients_of (sessions os)"]) (auto dest: in_set_takeD)
  ultimately have "\<bar>rs_position r\<bar> \<le> 2 ^ 31 * 2 ^ 31" unfolding p by (rule order_trans [rotated])
  then have "i64 (rs_position r)" by (simp add: i64_def abs_le_iff)
  then show ?thesis using f by (auto simp: response_wire_ok_def resp_for_def resp_ok_def rej_ok_def)
qed

lemma tcp_send_invalid: "fst (tcp_send data s) = Invalid \<longleftrightarrow> \<not> healthy s \<or> data = []"
  by (simp add: tcp_send_def Let_def)

lemma head_response:
  assumes inv: "exchange_inv (t, os, e, us, tk, pt)" and p: "peek (outgoing_responses os) = Some r"
  shows "\<exists>i sk st. cid_tcp_socket (sessions os) (unat (rs_client_id r)) = Some i \<and> 0 < i \<and> i < length (tcp_conns t) \<and>
     tcp_send (encode_response \<lparr>oms_seq_num = cid_next_outgoing_seq_num (sessions os) (unat (rs_client_id r)), oms_response = r,
       oms_session_epoch = cid_session_epoch (sessions os) (unat (rs_client_id r))\<rparr>) (tcp_conns t ! i) = (st, sk) \<and>
     (st = Accepted \<longrightarrow> (\<exists>os'. send_response r (t, os) = Some (True, set_conn i sk t, os') \<and> server_run os' = server_run os)) \<and>
     (send_response r (t, os) = None \<longleftrightarrow> \<not> healthy (tcp_conns t ! i))"
proof -
  have si: "server_inv t os" and pt: "set (contents (outgoing_responses os)) \<subseteq> set pt"
    using inv by (auto simp: exchange_inv_def net_inv_def)
  have q: "queue_ok (outgoing_responses os)" using si by (simp add: server_inv_def queues_inv_def)
  have ne: "contents (outgoing_responses os) \<noteq> []" "r \<in> set (contents (outgoing_responses os))"
    using p peek_pop(1) [OF q] by (auto split: list.splits)
  then have "resp_for (clients_of (sessions os)) r" using inv pt by (auto simp: exchange_inv_def)
  then have c: "unat (rs_client_id r) < ME_MAX_NUM_CLIENTS" "cid_tcp_socket (sessions os) (unat (rs_client_id r)) \<noteq> None"
    by (simp_all add: resp_for_def clients_of_def)
  then obtain i where i: "cid_tcp_socket (sessions os) (unat (rs_client_id r)) = Some i" by auto
  have "binding_inv (length (tcp_conns t)) (conn_alive t) (sessions os)" using si by (simp add: server_inv_def tables_inv_def sess_inv_def)
  note B = binding_tcp [OF this i]
  let ?f = "encode_response \<lparr>oms_seq_num = cid_next_outgoing_seq_num (sessions os) (unat (rs_client_id r)), oms_response = r,
      oms_session_epoch = cid_session_epoch (sessions os) (unat (rs_client_id r))\<rparr>"
  obtain st sk where sk: "tcp_send ?f (tcp_conns t ! i) = (st, sk)" by (cases "tcp_send ?f (tcp_conns t ! i)")
  obtain q' where q': "pop (outgoing_responses os) = Some q'" using peek_pop(2) [OF q ne(1)] by blast
  have st: "(st = Invalid) = (\<not> healthy (tcp_conns t ! i))"
    using tcp_send_invalid [of ?f "tcp_conns t ! i"] sk encode_response_ne by simp
  have "send_response r (t, os) = (if st = Full then Some (False, set_conn i sk t, os) else if st \<noteq> Accepted then None
      else map_option (\<lambda>q. (True, set_conn i sk t, os\<lparr>outgoing_responses := q, sessions := (sessions os)\<lparr>cid_next_outgoing_seq_num :=
        (cid_next_outgoing_seq_num (sessions os))(unat (rs_client_id r) := cid_next_outgoing_seq_num (sessions os) (unat (rs_client_id r)) + 1)\<rparr>\<rparr>))
        (pop (outgoing_responses os)))"
    using c(1) i sk by (simp add: send_response_def Let_def)
  then have "(send_response r (t, os) = None) = (st = Invalid)"
      "st = Accepted \<longrightarrow> (\<exists>os'. send_response r (t, os) = Some (True, set_conn i sk t, os') \<and> server_run os' = server_run os)" unfolding q' by (cases st; simp)+
  then show ?thesis using i B st sk by (intro exI [of _ i] exI [of _ sk] exI [of _ st]) simp
qed

subsection \<open>Properties\<close>

text \<open>C4: every response finds its session. Whatever the clients, the network and the threads do, the response at the head of
  the queue belongs to a client whose session is bound to an accepted connection, so the assertions on the client id and
  on the connection never fail; sending it stops the process exactly when that connection is broken.\<close>

theorem responses_have_sessions:
  assumes b: "exchange_begin n1 n2 n3 z1 z2 z3 jn = Some x" and r: "(exchange_step m sys)\<^sup>*\<^sup>* x (t, os, e, us, tk, pt)"
    and p: "peek (outgoing_responses os) = Some r"
  shows "\<exists>i. cid_tcp_socket (sessions os) (unat (rs_client_id r)) = Some i \<and> 0 < i \<and> i < length (tcp_conns t) \<and>
     (send_response r (t, os) = None \<longleftrightarrow> \<not> healthy (tcp_conns t ! i))"
  using head_response [OF _ p] exchange_steps_inv [OF r exchange_begin_inv(1) [OF b]] by meson

text \<open>A client and the exchange, end to end. The gateway of a client and the exchange process run in any interleaving, with
  backpressure, short writes and other clients; TCP delivers to each side a prefix of what the other has written, the
  client queues valid requests of its own, and no other connection speaks for it. Then the requests of the client that
  the matching engine has processed are among those its trading engine queued, each once and unchanged, and a prefix of
  them when the receive times of a connection never go back; the responses its trading engine gets are a prefix of those
  the matching engine issued to it.\<close>

theorem exchange_serves_client:
  assumes gw: "gateway_begin cap g1 g2 a1 a2 c ep fd = Some x" "gateway_step\<^sup>*\<^sup>* x (s, g, qs, rs)"
    and ex: "exchange_begin n1 n2 n3 z1 z2 z3 jn = Some y" "(exchange_step ordered sys)\<^sup>*\<^sup>* y (t, os, e, us, tk, pt)"
    and i: "0 < i" "i < length (tcp_conns t)"
    and tcp: "prefix (wire_in (tcp_conns t ! i)) (wire_out s)" "prefix (wire_in s) (wire_out (tcp_conns t ! i))"
    and honest: "honest_client c ep qs" "\<forall>j < length (tcp_conns t). 0 < j \<and> j \<noteq> i \<longrightarrow> foreign c (wire_in (tcp_conns t ! j))"
    and len: "length pt < 2 ^ 31"
  shows "mset (filter (of_client c) tk) \<subseteq># mset (stamped ep qs) \<and> (ordered \<longrightarrow> prefix (filter (of_client c) tk) (stamped ep qs)) \<and>
     prefix (rs @ contents (incoming_responses g)) (filter (for_client c) pt)"
proof -
  obtain y' where y: "server_begin n1 n2 z1 z2 jn = Some y'" "server_view y = y'" using exchange_begin_inv(2) [OF ex(1)] by blast
  note E = exchange_steps_inv [OF ex(2) exchange_begin_inv(1) [OF ex(1)]]
  have sv: "(server_step ordered sys)\<^sup>*\<^sup>* y' (t, os, tk, pt)" using E y(2) by (simp add: server_view_def)
  have "\<forall>r \<in> set pt. response_wire_ok r" using E issued_wire_ok [OF _ len] by blast
  from session_prefixes [OF gateway_steps_inv [OF gw(2) gateway_begin_inv [OF gw(1)]] y(1) sv i tcp honest this] show ?thesis .
qed

text \<open>C5: the orderly shutdown, for a client that sends valid requests of its own on a connection registered for reading, while
  no other connection speaks for it. When the order server has confirmed \<open>quiesced_\<close>, the matching engine has emptied its
  queue and the loop of the server has ended, every request of the client that the server accepted has been processed, once,
  and in the order it was sent when the receive times of a connection never go back; nothing of any client is left in the
  sequencer; and every response the engine issued to the client has been handed to the kernel on its connection, numbered
  and in order.\<close>

theorem shutdown_leaves_nothing:
  assumes ex: "exchange_begin n1 n2 n3 z1 z2 z3 jn = Some y" "(exchange_step ordered sys)\<^sup>*\<^sup>* y (t, os, e, us, tk, pt)"
    and stop: "quiesced os" "peek (incoming_requests e) = None" "\<not> server_active (t, os)"
    and i: "0 < i" "i \<in> set (receive_sockets t)"
    and honest: "honest_client c ep qs" "inputs_honest c i ep qs t"
  shows "mset (filter (of_client c) tk) = mset (take (handled t i) (stamped ep qs)) \<and>
     (ordered \<longrightarrow> filter (of_client c) tk = take (handled t i) (stamped ep qs)) \<and> staged (fifo_sequencer os) = [] \<and>
     wire_out (tcp_conns t ! i) = concat (map encode_response (numbered_responses ep (filter (for_client c) pt)))"
proof -
  obtain y' where y: "server_begin n1 n2 z1 z2 jn = Some y'" "server_view y = y'" using exchange_begin_inv(2) [OF ex(1)] by blast
  have E: "exchange_inv (t, os, e, us, tk, pt)" and sv: "(server_step ordered sys)\<^sup>*\<^sup>* y' (t, os, tk, pt)"
    using exchange_steps_inv [OF ex(2) exchange_begin_inv(1) [OF ex(1)]] y(2) by (simp_all add: server_view_def)
  have si: "conns_ok t" "queue_ok (client_requests os)" "queue_ok (outgoing_responses os)" "staged (fifo_sequencer os) = []"
    "incoming_requests e = client_requests os"
    using E stop(1) by (simp_all add: exchange_inv_def net_inv_def server_inv_def queues_inv_def)
  have il: "i < length (tcp_conns t)" using si(1) i(2) by (auto simp: conns_ok_def)
  have empty: "contents (client_requests os) = []" "contents (outgoing_responses os) = []"
    using stop(2,3) peek_pop(1) [OF si(2)] peek_pop(1) [OF si(3)] si(5) by (auto simp: server_active_def split: list.splits)
  have "pending_bytes (tcp_conns t ! i) = 0" using stop(3) i(2) by (auto simp: server_active_def pendingBytes_def)
  then have w: "wire_out (tcp_conns t ! i) = out_stream (tcp_conns t ! i)" by (simp add: out_stream_def pending_bytes_def)
  obtain l where F: "flow_at ordered c i ep qs tk pt (handled t i) l t os" using server_session [OF y(1) sv honest(1) i(1) honest(2)] by blast
  then have "l \<le> length (filter (for_client c) pt)" "drop l (filter (for_client c) pt) = []"
    using empty(2) by (simp_all add: flow_at_def responses_flow_def)
  then have "take l (filter (for_client c) pt) = filter (for_client c) pt" by simp
  then have "out_stream (tcp_conns t ! i) = concat (map encode_response (numbered_responses ep (filter (for_client c) pt)))"
    using F il by (simp add: flow_at_def responses_flow_def conn_out_def)
  moreover have "mset (filter (of_client c) tk) = mset (take (handled t i) (stamped ep qs))"
    "ordered \<longrightarrow> filter (of_client c) tk = take (handled t i) (stamped ep qs)"
    using F empty(1) si(4) by (simp_all add: flow_at_def requests_flow_def)
  ultimately show ?thesis using w si(4) by simp
qed

subsection \<open>Witnesses\<close>

lemma responses_have_sessions_witness:
  "\<exists>(t :: TCPServer) (os :: OrderServer) r i. peek (outgoing_responses os) = Some r \<and>
     cid_tcp_socket (sessions os) (unat (rs_client_id r)) = Some i \<and> 0 < i \<and> i < length (tcp_conns t)"
proof -
  obtain y t os e pt where x: "exchange_begin 4 4 4 MEClientRequest_default (mk_response Resp_INVALID 0 0 0 0 BUY 0 0 0 Rej_NONE)
      (mk_update Mkt_INVALID 0 0 BUY 0 0 0) None = Some y"
    "(exchange_step True (\<lambda>_. Wr_Fail))\<^sup>*\<^sup>* y (t, os, e, [], [first_request], pt)" "pt \<noteq> []" "contents (outgoing_responses os) = pt"
    using exchange_sample by metis
  have "queue_ok (outgoing_responses os)" using exchange_steps_inv [OF x(2) exchange_begin_inv(1) [OF x(1)]]
    by (simp add: exchange_inv_def net_inv_def server_inv_def queues_inv_def)
  then obtain r where "peek (outgoing_responses os) = Some r" using peek_pop(1) [of "outgoing_responses os"] x(3,4) by (cases pt) auto
  with responses_have_sessions [OF x(1,2) this] show ?thesis by blast
qed

lemma exchange_serves_client_witness:
  "\<exists>(s :: TCPSocket) pt tk. wire_out s = encode_request first_message \<and> pt \<noteq> [] \<and> filter (of_client 3) tk = [first_request] \<and>
     prefix (filter (of_client 3) tk) (stamped 77 [sample_request]) \<and> prefix [] (filter (for_client 3) pt)"
proof -
  obtain x s g where g: "gateway_begin 64 4 4 MEClientRequest_default (mk_response Resp_INVALID 0 0 0 0 BUY 0 0 0 Rej_NONE) 3 77 5 = Some x"
    "gateway_step\<^sup>*\<^sup>* x (s, g, [sample_request], [])" "wire_out s = encode_request first_message" "wire_in s = []"
    using gateway_flushed by blast
  obtain y t os e pt where x: "exchange_begin 4 4 4 MEClientRequest_default (mk_response Resp_INVALID 0 0 0 0 BUY 0 0 0 Rej_NONE)
      (mk_update Mkt_INVALID 0 0 BUY 0 0 0) None = Some y"
    "(exchange_step True (\<lambda>_. Wr_Fail))\<^sup>*\<^sup>* y (t, os, e, [], [first_request], pt)" "pt \<noteq> []" "contents (outgoing_responses os) = pt"
    "length (tcp_conns t) = 2" "wire_in (tcp_conns t ! 1) = encode_request first_message" "length pt = 1"
    using exchange_sample by metis
  have f: "\<forall>j < length (tcp_conns t). 0 < j \<and> j \<noteq> 1 \<longrightarrow> foreign 3 (wire_in (tcp_conns t ! j))" using x(5) by auto
  have "prefix (filter (of_client 3) [first_request]) (stamped 77 [sample_request]) \<and> prefix ([] @ contents (incoming_responses g)) (filter (for_client 3) pt)"
    using exchange_serves_client [OF g(1,2) x(1,2), of 1] g(3,4) x(5,6,7) sample_honest f by simp
  moreover have "filter (of_client 3) [first_request] = [first_request]" using first_valid(2) by (simp add: of_client_def)
  ultimately show ?thesis using g(3) x(3) by (intro exI [of _ s] exI [of _ pt] exI [of _ "[first_request]"]) simp
qed

text \<open>The run goes on: the answer is sent, and the server quiesces.\<close>

lemma tcp_send_room:
  "healthy s \<Longrightarrow> data \<noteq> [] \<Longrightarrow> next_send_valid_index s = 0 \<Longrightarrow> length data \<le> length (outbound_data s) \<Longrightarrow> fst (tcp_send data s) = Accepted"
  by (simp add: tcp_send_def Let_def)

lemma flush_all:
  assumes "healthy s" "0 \<le> socket_fd s"
  shows "next_send_valid_index (snd (flushSend (\<lambda>_. Io_Count (next_send_valid_index s)) s)) = 0"
  using assms by (simp add: flushSend_def healthy_def eval_nat_numeral Let_def)

lemma flushSend_wire_in: "wire_in (snd (flushSend sys s)) = wire_in s"
proof -
  have "wire_in (snd (flush_loop sys n s)) = wire_in s" for n
    by (induct sys n s rule: flush_loop.induct) (auto simp: Let_def split: IoResult.split)
  from this [of 8] show ?thesis by (auto simp: flushSend_def Let_def split: prod.splits)
qed

lemma tcp_send_fd: "tcp_send data s = (st, s') \<Longrightarrow> socket_fd s' = socket_fd s"
  by (auto simp: tcp_send_def Let_def compact_def split: if_splits)

lemma shutdown_sample:
  obtains y t os e pt where "exchange_begin 4 4 4 z1 z2 z3 None = Some y" "(exchange_step True sys)\<^sup>*\<^sup>* y (t, os, e, [], [first_request], pt)"
    "quiesced os" "peek (incoming_requests e) = None" "\<not> server_active (t, os)" "receive_sockets t = [1]" "length pt = 1"
    "length (tcp_conns t) = 2" "wire_in (tcp_conns t ! 1) = encode_request first_message" "handled t 1 = 1"
proof -
  obtain y t os e pt where x: "exchange_begin 4 4 4 z1 z2 z3 None = Some y"
    "(exchange_step True sys)\<^sup>*\<^sup>* y (t, os, e, [], [first_request], pt)" "contents (outgoing_responses os) = pt" "length pt = 1"
    "length (tcp_conns t) = 2" "receive_sockets t = [1]" "wire_in (tcp_conns t ! 1) = encode_request first_message"
    "parsed_in (tcp_conns t ! 1) = encode_request first_message" "pending_bytes (tcp_conns t ! 1) = 0"
    "contents (client_requests os) = []" "staged (fifo_sequencer os) = []" "\<not> server_run os"
    "healthy (tcp_conns t ! 1)" "socket_fd (tcp_conns t ! 1) = 7"
    using exchange_sample by metis
  have X: "exchange_inv (t, os, e, [], [first_request], pt)" using exchange_steps_inv [OF x(2) exchange_begin_inv(1) [OF x(1)]] by blast
  then have si: "server_inv t os" "incoming_requests e = client_requests os" by (simp_all add: exchange_inv_def net_inv_def)
  then have Q: "queue_ok (outgoing_responses os)" "queue_ok (client_requests os)" "conns_ok t" by (simp_all add: server_inv_def queues_inv_def)
  obtain r where r: "pt = [r]" using x(4) by (cases pt) auto
  then have pk: "peek (outgoing_responses os) = Some r" using peek_pop(1) [OF Q(1)] x(3) by simp
  have c1: "length (outbound_data (tcp_conns t ! 1)) = TCPBufferSize" "sock_ok (tcp_conns t ! 1)" using Q(3) x(5) by (simp_all add: conns_ok_def)
  obtain sk st os1 where s1: "send_response r (t, os) = Some (True, set_conn 1 sk t, os1)" "same_input (tcp_conns t ! 1) sk"
      "socket_fd sk = 7" "server_run os1 = server_run os"
  proof -
    let ?f = "encode_response \<lparr>oms_seq_num = cid_next_outgoing_seq_num (sessions os) (unat (rs_client_id r)), oms_response = r,
       oms_session_epoch = cid_session_epoch (sessions os) (unat (rs_client_id r))\<rparr>"
    obtain j sk st where j: "0 < j" "j < 2" "tcp_send ?f (tcp_conns t ! j) = (st, sk)"
        "st = Accepted \<longrightarrow> (\<exists>os'. send_response r (t, os) = Some (True, set_conn j sk t, os') \<and> server_run os' = server_run os)"
      using head_response [OF X pk] x(5) by (metis (no_types, lifting))
    then have j1: "j = 1" by simp
    have "fst (tcp_send ?f (tcp_conns t ! 1)) = Accepted"
      using x(9,13) c1(1) by (intro tcp_send_room) (simp_all add: pending_bytes_def limits)
    then show thesis using that j(3,4) tcp_send_accepted(3) [OF c1(2)] tcp_send_fd x(14) unfolding j1
      by (metis fst_conv)
  qed
  let ?t1 = "set_conn 1 sk t"
  note R = send_response_inv [OF si(1) pk s1(1)]
  have a: "exchange_step True sys (t, os, e, [], [first_request], pt) (?t1, os1, engine_sees os1 e, [], [first_request], pt)"
    by (rule ex_server [OF sv_respond [OF pk s1(1)]])
  let ?out = "\<lambda>_ :: nat. Io_Count (next_send_valid_index (tcp_conns ?t1 ! 1))"
  let ?t2 = "set_conn 1 (snd (flushSend ?out (tcp_conns ?t1 ! 1))) ?t1"
  have b: "exchange_step True sys (?t1, os1, engine_sees os1 e, [], [first_request], pt)
      (?t2, os1, engine_sees os1 (engine_sees os1 e), [], [first_request], pt)"
    by (rule ex_server [OF sv_flush]) (simp add: x(5))
  let ?e = "engine_sees os1 (engine_sees os1 e)" and ?os = "quiesce_check (quiesce_begin os1)"
  have c: "exchange_step True sys (?t2, os1, ?e, [], [first_request], pt)
      (?t2, quiesce_begin os1, engine_sees (quiesce_begin os1) ?e, [], [first_request], pt)"
    by (rule ex_server [OF sv_quiesce])
  have d: "exchange_step True sys (?t2, quiesce_begin os1, engine_sees (quiesce_begin os1) ?e, [], [first_request], pt)
      (?t2, ?os, engine_sees ?os (engine_sees (quiesce_begin os1) ?e), [], [first_request], pt)"
    by (rule ex_server [OF sv_check])
  note into = rtranclp.rtrancl_into_rtrancl [of "exchange_step True sys"]
  note run = into [OF into [OF into [OF into [OF x(2) a] b] c] d]
  have o1: "client_requests os1 = client_requests os" "fifo_sequencer os1 = fifo_sequencer os" "contents (outgoing_responses os1) = []"
      "server_inv ?t1 os1"
    using R x(3) r by simp_all
  note o = o1 s1(4)
  have fifo: "fifo_ok (fifo_sequencer os)" using si(1) by (simp add: server_inv_def queues_inv_def)
  then have q: "quiesced ?os" using x(11) o(2) length_staged [OF fifo] by (simp add: quiesce_check_def quiesce_begin_def fifo_pending_def)
  have qo: "queue_ok (outgoing_responses os1)" using o(4) by (simp add: server_inv_def queues_inv_def)
  have sk: "healthy sk" "socket_fd sk = 7" "wire_in sk = encode_request first_message" "parsed_in sk = encode_request first_message"
    using s1(2,3) x(7,8,13) by (simp_all add: same_input_def healthy_def)
  have t1: "tcp_conns ?t1 ! 1 = sk" by (simp add: x(5))
  have p0: "pending_bytes (tcp_conns ?t2 ! 1) = 0"
    using flush_all [OF sk(1)] sk(2) x(5) by (simp add: t1 pending_bytes_def del: One_nat_def)
  have tr: "transport True sk (snd (flushSend ?out sk))" by (rule flushSend_transport)
  show thesis
  proof (rule that [OF x(1) run q])
    show "peek (incoming_requests (engine_sees ?os (engine_sees (quiesce_begin os1) ?e))) = None"
      using peek_pop(1) [OF Q(2)] x(10) o(1) by (simp add: engine_sees_def quiesce_check_def quiesce_begin_def)
    show "\<not> server_active (?t2, ?os)" using p0 x(6,12) o peek_pop(1) [OF qo]
      by (simp add: server_active_def pendingBytes_def quiesce_check_def quiesce_begin_def del: One_nat_def)
    show "wire_in (tcp_conns ?t2 ! 1) = encode_request first_message" "handled ?t2 1 = 1"
      using tr flushSend_wire_in [of ?out sk] sk(3,4) x(5) first_frame(1) by (simp_all add: t1 transport_def handled_def limits del: One_nat_def)
  qed (simp_all add: x)
qed

lemma shutdown_leaves_nothing_witness:
  "\<exists>(t :: TCPServer) pt tk. length pt = 1 \<and> filter (of_client 3) tk = take 1 (stamped 77 [sample_request]) \<and>
     wire_out (tcp_conns t ! 1) = concat (map encode_response (numbered_responses 77 (filter (for_client 3) pt)))"
proof -
  obtain y t os e pt where x: "exchange_begin 4 4 4 MEClientRequest_default (mk_response Resp_INVALID 0 0 0 0 BUY 0 0 0 Rej_NONE)
      (mk_update Mkt_INVALID 0 0 BUY 0 0 0) None = Some y" "(exchange_step True (\<lambda>_. Wr_Fail))\<^sup>*\<^sup>* y (t, os, e, [], [first_request], pt)"
    "quiesced os" "peek (incoming_requests e) = None" "\<not> server_active (t, os)" "receive_sockets t = [1]" "length pt = 1"
    "length (tcp_conns t) = 2" "wire_in (tcp_conns t ! 1) = encode_request first_message" "handled t 1 = 1"
    using shutdown_sample by metis
  have "request_stream 77 [sample_request] = encode_request first_message"
    by (simp add: request_stream_def numbered_requests_def first_message_def)
  then have "inputs_honest 3 1 77 [sample_request] t" using x(8,9) less_2_cases by (fastforce simp: inputs_honest_def)
  with shutdown_leaves_nothing [OF x(1-5), of 1 3 77 "[sample_request]"] sample_honest x(6,7,10) show ?thesis
    by (intro exI [of _ t] exI [of _ pt] exI [of _ "[first_request]"]) simp
qed

end
