(* ===== verification/Trading_System.thy ===== *)
theory Trading_System
  imports Client_Process Exchange_Props
begin

text \<open>
  A trading client and the exchange as one system: the processes of \<^verbatim>\<open>src/trading/trading_main.cpp\<close> and
  \<^verbatim>\<open>src/exchange/exchange_main.cpp\<close> joined by a TCP connection that delivers to each side a prefix of what the other has
  written. Here the requests of the client are those its trading engine lets through, so that they are known to be
  well formed, and the fills the client has booked are compared with the ledger of the exchange.
\<close>

subsection \<open>Requests of the engine are honest\<close>

text \<open>Values of the C++ types: a price of 64 bits, a side in its canonical form.\<close>

definition typed_request :: "MEClientRequest \<Rightarrow> bool" where
  "typed_request r \<longleftrightarrow> i64 (rq_price r) \<and> side_ok (rq_side r)"

lemma validate_type: "validate r = Rej_NONE \<Longrightarrow> req_ok (rq_type r)"
  by (auto simp: validate_def req_ok_def split: if_splits)

lemma client_requests_honest:
  assumes "client_inv client ep (e, s, g, qs, rs)" "ep \<noteq> 0" "list_all typed_request qs"
  shows "honest_client (fst client) ep qs"
proof -
  have "list_all (request_ok client) qs" using assms(1) by (auto simp: client_inv_def eng_ok_False)
  then show ?thesis using assms(2,3) by (auto simp: honest_client_def request_ok_def typed_request_def list_all_iff validate_type)
qed

subsection \<open>The two ledgers\<close>

lemma validated_client_id: "validateClientConfig getIfaceIP c = None \<Longrightarrow> unat (cc_client_id c) < ME_MAX_NUM_CLIENTS"
  by (simp add: validateClientConfig_def split: if_splits)

lemma issued_fresh:
  assumes "resp_inv m pt" "length pt < 2 ^ 31"
  shows "sorted_wrt (<) (0 # map rs_response_id pt)"
proof -
  have "sorted_wrt (<) (map (of_nat :: nat \<Rightarrow> u64) [0..<Suc (length pt)])"
    unfolding sorted_wrt_map
  proof (rule sorted_wrt_mono_rel [of _ "(<)"])
    show "(of_nat x :: u64) < of_nat y" if "x \<in> set [0..<Suc (length pt)]" "y \<in> set [0..<Suc (length pt)]" "x < y" for x y
    proof -
      have "x < 2 ^ 64" "y < 2 ^ 64" using that assms(2) by auto
      then show ?thesis using that(3) by (simp add: word_less_nat_alt unsigned_of_nat take_bit_nat_eq_self)
    qed
  qed (simp add: sorted_wrt_upt del: upt_Suc)
  moreover have "map (of_nat :: nat \<Rightarrow> u64) [0..<Suc (length pt)] = 0 # map rs_response_id pt"
    using assms(1) by (simp add: resp_inv_def upt_conv_Cons del: upt_Suc)
  ultimately show ?thesis by simp
qed

lemma prefix_fresh:
  assumes "sorted_wrt (<) (0 # map rs_response_id pt)" "prefix rs (filter P pt)"
  shows "fresh_ids rs"
proof -
  obtain zs where z: "filter P pt = rs @ zs" using assms(2) by (auto simp: prefix_def)
  have "sorted_wrt (<) (map rs_response_id (filter P pt))" "\<forall>r \<in> set (filter P pt). 0 < rs_response_id r"
    using assms(1) by (auto simp: sorted_wrt_map intro: sorted_wrt_filter)
  then show ?thesis unfolding z by (auto simp: fresh_ids_def sorted_wrt_append)
qed

lemma position_of_filter: "position_of (unat c) t (filter (for_client c) pt) = position_of (unat c) t pt"
  by (auto simp: position_of_def for_client_def word_unat_eq_iff intro!: arg_cong [where f = sum_list] arg_cong [where f = "map signed_fill"] filter_cong)

text \<open>C2: orders and accounts, end to end. A client started from a validated configuration and the exchange run in any
  interleaving of their threads, with backpressure, short writes and other clients; TCP delivers a prefix of what was
  written, and no other connection speaks for the client. Then the requests of the client that the matching engine has
  processed are requests its trading engine let through, unchanged and each once; they are a prefix of those when the
  receive times of a connection never go back (they are wall-clock times, and a step back lets the sequencer swap two
  requests). The responses the client has processed are a prefix of those the engine issued to it. As long as the client
  counts as reconciled, its position in every ticker is the sum of the fills it has processed, and once it has processed
  all of them, it is the position in the ledger of the exchange.\<close>

theorem orders_and_accounts_agree:
  assumes v: "validateClientConfig getIfaceIP c = None"
    and cl: "client_begin cap k1 k2 k3 a1 a2 a3 c ep fd = Some x" "trading_step\<^sup>*\<^sup>* x (e, s, g, qs, rs)"
    and ex: "exchange_begin n1 n2 n3 z1 z2 z3 jn = Some y" "(exchange_step ordered sys)\<^sup>*\<^sup>* y (t, os, m, us, tk, pt)"
    and i: "0 < i" "i < length (tcp_conns t)"
    and tcp: "prefix (wire_in (tcp_conns t ! i)) (wire_out s)" "prefix (wire_in s) (wire_out (tcp_conns t ! i))"
    and typed: "ep \<noteq> 0" "list_all typed_request qs"
    and other: "\<forall>j < length (tcp_conns t). 0 < j \<and> j \<noteq> i \<longrightarrow> foreign (cc_client_id c) (wire_in (tcp_conns t ! j))"
    and len: "length pt < 2 ^ 31"
  shows "mset (filter (of_client (cc_client_id c)) tk) \<subseteq># mset (stamped ep qs) \<and>
     (ordered \<longrightarrow> prefix (filter (of_client (cc_client_id c)) tk) (stamped ep qs)) \<and> prefix rs (filter (for_client (cc_client_id c)) pt) \<and>
     (reconciled e \<longrightarrow> (\<forall>u < ME_MAX_TICKERS. position (position_keeper e u) = position_of (unat (cc_client_id c)) u rs \<and>
        (rs = filter (for_client (cc_client_id c)) pt \<longrightarrow> position (position_keeper e u) = client_positions m (unat (cc_client_id c)) u)))"
proof -
  let ?c = "cc_client_id c"
  have C: "client_inv (account_of c) ep (e, s, g, qs, rs)" by (rule trading_steps_inv [OF cl(2) client_begin_inv [OF cl(1) v]])
  have h: "honest_client ?c ep qs" using client_requests_honest [OF C typed] by simp
  have G: "gwn_inv ?c ep (s, g, qs, rs)" and A: "account_inv rs e" and id: "te_client_id e = ?c"
    using C by (auto simp: client_inv_def eng_ok_False te_ok_def)
  obtain y' where y: "server_begin n1 n2 z1 z2 jn = Some y'" "server_view y = y'" using exchange_begin_inv(2) [OF ex(1)] by blast
  note E = exchange_steps_inv [OF ex(2) exchange_begin_inv(1) [OF ex(1)]]
  have sv: "(server_step ordered sys)\<^sup>*\<^sup>* y' (t, os, tk, pt)" using E y(2) by (simp add: server_view_def)
  have "\<forall>r \<in> set pt. response_wire_ok r" using E issued_wire_ok [OF _ len] by blast
  from session_prefixes [OF G y(1) sv i tcp h other this]
  have P: "mset (filter (of_client ?c) tk) \<subseteq># mset (stamped ep qs)" "ordered \<longrightarrow> prefix (filter (of_client ?c) tk) (stamped ep qs)"
      "prefix rs (filter (for_client ?c) pt)"
    by (auto simp: append_prefixD)
  have R: "resp_inv m pt" using E by (auto simp: exchange_inv_def engine_inv_def)
  have F: "fresh_ids rs" by (rule prefix_fresh [OF issued_fresh [OF R len] P(3)])
  have "position (position_keeper e u) = position_of (unat ?c) u rs" if "reconciled e" for u
    using A F that id by (simp add: account_inv_def)
  moreover have "client_positions m (unat ?c) u = position_of (unat ?c) u (filter (for_client ?c) pt)" if "u < ME_MAX_TICKERS" for u
    using R that v by (simp add: resp_inv_def position_of_filter validated_client_id)
  ultimately show ?thesis using P by simp
qed

subsection \<open>A run of the whole system\<close>

definition sample_client :: ClientConfig where
  "sample_client = demo_config\<lparr>cc_client_id := 3\<rparr>"

lemma sample_client_values:
  "cc_client_id sample_client = 3" "strategyType sample_client = Algo_MAKER" "tickerConfig sample_client = tickerConfig demo_config"
  "validateClientConfig (\<lambda>_. ''127.0.0.1'') sample_client = None"
proof -
  show "cc_client_id sample_client = 3" "tickerConfig sample_client = tickerConfig demo_config"
    by (simp_all add: sample_client_def tickerConfig_def)
  show t: "strategyType sample_client = Algo_MAKER" using demo_type by (simp add: sample_client_def strategyType_def)
  have "strategyType demo_config = strategyType sample_client" by (simp add: sample_client_def strategyType_def)
  then show "validateClientConfig (\<lambda>_. ''127.0.0.1'') sample_client = None"
    using demo_validated unfolding validateClientConfig_def sample_client_def by (simp add: runtimeConfig_def limits split: if_splits)
qed

abbreviation sample_z1 :: MEClientRequest where "sample_z1 \<equiv> MEClientRequest_default"
abbreviation sample_z2 :: MEClientResponse where "sample_z2 \<equiv> mk_response Resp_INVALID 0 0 0 0 BUY 0 0 0 Rej_NONE"
abbreviation sample_z3 :: MEMarketUpdate where "sample_z3 \<equiv> mk_update Mkt_INVALID 0 0 BUY 0 0 0"

text \<open>The gateway on its way to \<open>gateway_sample\<close>.\<close>

lemma gateway_sample_parts:
  obtains s0 g0 q s g b where "gateway_begin 64 4 4 sample_z1 sample_z2 3 77 5 = Some (s0, g0, [], [])"
    "try_push sample_request (outgoing_requests g0) = (True, q)" "peek q = Some sample_request"
    "send_request sample_request (s0, g0\<lparr>outgoing_requests := q\<rparr>) = Some (b, s, g)"
    "gateway_sample = Some (s, g, [sample_request], [])"
proof -
  obtain s0 g0 s g b r where x: "gateway_begin 64 4 4 sample_z1 sample_z2 3 77 5 = Some (s0, g0, [], [])"
    and r: "peek (snd (try_push sample_request (outgoing_requests g0))) = Some r"
    "send_request r (s0, g0\<lparr>outgoing_requests := snd (try_push sample_request (outgoing_requests g0))\<rparr>) = Some (b, s, g)"
    "gateway_sample = Some (s, g, [sample_request], [])"
    using gateway_sample_value
    by (auto simp: gateway_sample_def Let_def bind_Some_conv gateway_begin_def split: option.splits)
  have I: "gwn_inv 3 77 (s0, g0, [], [])" by (rule gateway_begin_inv [OF x])
  have qk: "queue_ok (outgoing_requests g0)" "contents (outgoing_requests g0) = []"
    using gwn_queues [OF I] by auto
  obtain ok q where q: "try_push sample_request (outgoing_requests g0) = (ok, q)" by fastforce
  note P = push_contents [OF qk(1) q]
  have "ok" using r(1) q P qk(2) peek_pop(1) [of q] by (cases ok) auto
  then have "contents q = [sample_request]" "queue_ok q" using P qk(2) by simp_all
  then show thesis using that [OF x] r q \<open>ok\<close> peek_pop(1) [of q] by simp
qed

lemma sample_allowed:
  "\<exists>m. reserve PositionKeeper_new sample_request (RiskManager_new (tickerConfig demo_config)) = (ALLOWED, m)"
proof -
  have "risk_cfg (tickerConfig demo_config t) = \<lparr>max_order_size = 100, max_position = 1000, max_loss = Finite (- 100)\<rparr>" for t
    by (simp add: tickerConfig_def demo_config_def demo_parameters_def ticker_config_def)
  then have "checkPreTradeRisk PositionKeeper_new 1 BUY 5 (RiskManager_new (tickerConfig demo_config)) = ALLOWED"
    by (simp add: checkPreTradeRisk_def info_checkPreTradeRisk_def RiskManager_new_def PositionKeeper_new_def PositionInfo_default_def
        limits is_finite_def Let_def)
  then show ?thesis by (simp add: reserve_def sample_request_def RiskManager_new_def Let_def)
qed

text \<open>The trading engine: the market data is trusted, then an order is let through.\<close>

lemma trader_sample:
  assumes e: "TradeEngine_new 3 Algo_MAKER (tickerConfig demo_config) q1 q2 q3 = Some e0"
    and q: "queue_ok q3" "contents q3 = []" "0 < length (store q3)" and p: "try_push sample_request q1 = (True, p)"
  obtains u e1 e2 e3 where "trader_event (ArriveUpdate u)"
    "trade_event (ArriveUpdate u) (e0\<lparr>order_session := Some True\<rparr>, []) = Some (e1, [])" "trade_event WorkMarket (e1, []) = Some (e2, [])"
    "trade_event (SendRequest sample_request) (e2, []) = Some (e3, [])"
    "outgoing_ogw_requests e1 = q1" "outgoing_ogw_requests e2 = q1" "outgoing_ogw_requests e3 = p"
    "incoming_ogw_responses e1 = q2" "incoming_ogw_responses e2 = q2" "incoming_ogw_responses e3 = q2" "reconciled e3"
proof -
  let ?u = "mk_update Mkt_RECOVERY_COMMIT 0 0 Side_INVALID 0 0 1"
  obtain q3' where q3': "try_push ?u q3 = (True, q3')" "queue_ok q3'" "contents q3' = [?u]"
    using push_contents [OF q(1), of ?u] q(2,3) by (cases "try_push ?u q3") auto
  obtain q4 where q4: "peek q3' = Some ?u" "pop q3' = Some q4" using peek_pop [OF q3'(2)] q3'(3) by auto
  let ?e1 = "e0\<lparr>order_session := Some True, incoming_md_updates := q3'\<rparr>"
  let ?e2 = "e0\<lparr>order_session := Some True, incoming_md_updates := q4, applied_generation := 1\<rparr>"
  have v: "outgoing_ogw_requests e0 = q1" "incoming_ogw_responses e0 = q2" "incoming_md_updates e0 = q3" "market_generation e0 = 1" "reconciled e0"
      "admitting e0" "te_client_id e0 = 3" "position_keeper e0 = PositionKeeper_new" "risk_manager e0 = RiskManager_new (tickerConfig demo_config)"
    using e by (auto simp: TradeEngine_new_def bind_Some_conv)
  have w: "trade_event WorkMarket (?e1, []) = Some (?e2, [])"
    using q4 v by (simp add: market_iteration_def market_event_def mk_update_def)
  have "validate sample_request = Rej_NONE" "rq_client_id sample_request = 3"
    using sample_honest by (simp_all add: honest_client_def)
  then have "\<not> admission_refused sample_request ?e2" using v by (simp add: admission_refused_def marketReady_def)
  moreover obtain m where "reserve PositionKeeper_new sample_request (RiskManager_new (tickerConfig demo_config)) = (ALLOWED, m)"
    using sample_allowed by blast
  ultimately have "sendClientRequest sample_request ?e2 =
      (True, ?e2\<lparr>risk_manager := m, outgoing_ogw_requests := p, accepted_requests := accepted_requests ?e2 + 1\<rparr>)"
    using v p by (simp add: sendClientRequest_def)
  then show thesis using v w q3'(1)
    by (intro that [of ?u ?e1 ?e2 "?e2\<lparr>risk_manager := m, outgoing_ogw_requests := p, accepted_requests := accepted_requests ?e2 + 1\<rparr>"])
      (simp_all add: trader_event_def update_known_def mk_update_def)
qed

lemma client_sample:
  obtains x e s g where "client_begin 64 4 4 4 sample_z1 sample_z2 sample_z3 sample_client 77 5 = Some x"
    "trading_step\<^sup>*\<^sup>* x (e, s, g, [sample_request], [])" "wire_out s = encode_request first_message" "wire_in s = []" "reconciled e"
proof -
  obtain s0 g0 q s g b where P: "gateway_begin 64 4 4 sample_z1 sample_z2 3 77 5 = Some (s0, g0, [], [])"
    "try_push sample_request (outgoing_requests g0) = (True, q)" "peek q = Some sample_request"
    "send_request sample_request (s0, g0\<lparr>outgoing_requests := q\<rparr>) = Some (b, s, g)"
    "gateway_sample = Some (s, g, [sample_request], [])" by (rule gateway_sample_parts)
  obtain b' s' g' where io: "sendAndRecv (gateway_recvCallback 0) (\<lambda>_. Io_Count 50) (\<lambda>_. Rc_Again) (s, g) = Some (b', s', g')"
      "wire_out s' = encode_request first_message" "wire_in s' = []"
    using gateway_flushed_value unfolding P(5) by (auto split: option.splits)
  obtain s1 q1 q2 where q: "TCPSocket_new 64 = Some s1" "LFQueue_new sample_z1 4 = Some q1" "LFQueue_new sample_z2 4 = Some q2"
      "gateway_start 5 0 (s1, OrderGateway_new 3 77 q1 q2) = Some (s0, g0)"
    using P(1) by (auto simp: gateway_begin_def bind_Some_conv)
  have "LFQueue_new sample_z3 4 = LFQueue_new sample_z3 4 \<and> has_single_bit 4" by code_simp
  then obtain q3 where q3: "LFQueue_new sample_z3 4 = Some q3" by (simp add: LFQueue_new_def checkedCapacity_queue_def limits)
  note Q = queue_new_ok [OF q(2)] queue_new_ok [OF q(3)] queue_new_ok [OF q3]
  have q3k: "queue_ok q3" "contents q3 = []" "0 < length (store q3)" using Q by simp_all
  have qe: "queue_empty q1" "queue_empty q2" "queue_empty q3" using Q by (simp_all add: queue_empty_def)
  obtain e0 where e0: "TradeEngine_new 3 Algo_MAKER (tickerConfig demo_config) q1 q2 q3 = Some e0"
    using validated_starts [OF sample_client_values(4) qe] unfolding sample_client_values(1-3) by blast
  have g0: "outgoing_requests g0 = q1" "incoming_responses g0 = q2"
    using q(4) by (auto simp: gateway_start_def Let_def OrderGateway_new_def split: prod.splits if_splits)
  obtain u e1 e2 e3 where E: "trader_event (ArriveUpdate u)"
    "trade_event (ArriveUpdate u) (e0\<lparr>order_session := Some True\<rparr>, []) = Some (e1, [])" "trade_event WorkMarket (e1, []) = Some (e2, [])"
    "trade_event (SendRequest sample_request) (e2, []) = Some (e3, [])"
    "outgoing_ogw_requests e1 = q1" "outgoing_ogw_requests e2 = q1" "outgoing_ogw_requests e3 = q"
    "incoming_ogw_responses e1 = q2" "incoming_ogw_responses e2 = q2" "incoming_ogw_responses e3 = q2" "reconciled e3"
    by (rule trader_sample [OF e0 q3k P(2) [unfolded g0(1)]])
  let ?x = "(e0\<lparr>order_session := Some True\<rparr>, s0, g0, [], [])"
  have x: "client_begin 64 4 4 4 sample_z1 sample_z2 sample_z3 sample_client 77 5 = Some ?x"
    unfolding client_begin_def sample_client_values(1-3) using q q3 e0 by (simp add: OrderGateway_new_def)
  have same: "gateway_sees e1 g0 = g0" "gateway_sees e2 g0 = g0" "gateway_sees e3 g0 = g0\<lparr>outgoing_requests := q\<rparr>"
    by (rule OrderGateway.equality; simp add: gateway_sees_def E(5-10) g0)+
  have o0: "outgoing_ogw_requests e0 = q1" using e0 by (auto simp: TradeEngine_new_def bind_Some_conv)
  have cq: "contents q1 = []" "contents q = [sample_request]" using Q push_contents [of q1 sample_request True q] P(2) by (simp_all add: g0(1))
  have "trading_step ?x (e1, s0, g0, [], [])" using cl_event [OF E(1,2), of "[]" s0 g0 "[]" "[]"] same(1) E(5) o0 by simp
  moreover have "trading_step (e1, s0, g0, [], []) (e2, s0, g0, [], [])"
    using cl_event [OF _ E(3), of "[]" s0 g0 "[]" "[]"] same(2) E(5,6) by (simp add: trader_event_def)
  moreover have "trading_step (e2, s0, g0, [], []) (e3, s0, g0\<lparr>outgoing_requests := q\<rparr>, [sample_request], [])"
    using cl_event [OF _ E(4), of "[sample_request]" s0 g0 "[]" "[]"] same(3) E(6,7) cq by (simp add: trader_event_def)
  moreover have "trading_step (e3, s0, g0\<lparr>outgoing_requests := q\<rparr>, [sample_request], []) (trader_sees g e3, s, g, [sample_request], [])"
    using P(3,4) by (intro cl_gateway gw_send) simp_all
  moreover have "trading_step (trader_sees g e3, s, g, [sample_request], []) (trader_sees g' (trader_sees g e3), s', g', [sample_request], [])"
    by (rule cl_gateway [OF gw_io [OF io(1)]])
  ultimately have "trading_step\<^sup>*\<^sup>* ?x (trader_sees g' (trader_sees g e3), s', g', [sample_request], [])" by (meson rtranclp.intros)
  moreover have "reconciled (trader_sees g' (trader_sees g e3))" using E(11) by (simp add: trader_sees_def)
  ultimately show thesis using that [OF x] io(2,3) by blast
qed

lemma orders_and_accounts_agree_witness:
  "\<exists>(e :: TradeEngine) tk (pt :: MEClientResponse list). reconciled e \<and> length pt = 1 \<and> filter (of_client 3) tk = [first_request] \<and>
     prefix (filter (of_client 3) tk) (stamped 77 [sample_request]) \<and> position (position_keeper e 1) = position_of 3 1 []"
proof -
  obtain x e s g where x: "client_begin 64 4 4 4 sample_z1 sample_z2 sample_z3 sample_client 77 5 = Some x"
    "trading_step\<^sup>*\<^sup>* x (e, s, g, [sample_request], [])" "wire_out s = encode_request first_message" "wire_in s = []" "reconciled e"
    by (rule client_sample)
  obtain y t os m pt where y: "exchange_begin 4 4 4 sample_z1 sample_z2 sample_z3 None = Some y"
    "(exchange_step True (\<lambda>_. Wr_Fail))\<^sup>*\<^sup>* y (t, os, m, [], [first_request], pt)"
    "length (tcp_conns t) = 2" "wire_in (tcp_conns t ! 1) = encode_request first_message" "length pt = 1"
    using exchange_sample by metis
  have f: "\<forall>j < length (tcp_conns t). 0 < j \<and> j \<noteq> 1 \<longrightarrow> foreign (cc_client_id sample_client) (wire_in (tcp_conns t ! j))" using y(3) by auto
  have tr: "list_all typed_request [sample_request]" using sample_honest by (simp add: honest_client_def typed_request_def)
  have "prefix (filter (of_client 3) [first_request]) (stamped 77 [sample_request]) \<and> position (position_keeper e 1) = position_of 3 1 []"
    using orders_and_accounts_agree [OF sample_client_values(4) x(1,2) y(1,2), of 1] x(3-5) y(3-5) f tr
    unfolding sample_client_values(1) by (simp add: limits)
  moreover have "filter (of_client 3) [first_request] = [first_request]" using first_valid(2) by (simp add: of_client_def)
  ultimately show ?thesis using x(5) y(5) by (intro exI [of _ e] exI [of _ "[first_request]"] exI [of _ pt]) simp
qed

end
