(* ===== verification/Market_View.thy ===== *)
theory Market_View
  imports Client_Process Market_Data_Consumer Exchange_Props
begin

text \<open>
  Market data end to end: the matching engine of the exchange, the consumer thread of a client and its trading engine
  (\<^verbatim>\<open>src/trading/trading_main.cpp\<close> gives both the same queue and the same generation counter). The trading engine may trade
  only while \<open>marketReady\<close> holds: the generation it has applied is the current one. A gap, a damaged datagram, a full
  queue or an update a book refuses raises the counter; only the marker behind a whole recovery batch makes the engine
  ready again. Here the protocol is shown to work: an engine that is ready has exactly the books the exchange had after
  some number of its updates. A step needs the counter below \<open>2 ^ 63\<close>, so that it does not come round to an old value.
\<close>

subsection \<open>Generations\<close>

text \<open>The generations of the markers in a stretch of the stream, and the stretch without its markers.\<close>

definition marker_gens :: "MEMarketUpdate list \<Rightarrow> u64 list" where
  "marker_gens us = map mu_priority (filter (\<lambda>u. mu_type u = Mkt_RECOVERY_COMMIT) us)"

definition book_updates :: "MEMarketUpdate list \<Rightarrow> MEMarketUpdate list" where
  "book_updates us = filter (\<lambda>u. mu_type u \<noteq> Mkt_RECOVERY_COMMIT) us"

lemma marker_gens_simps [simp]:
  "marker_gens [] = []" "marker_gens (us @ vs) = marker_gens us @ marker_gens vs"
  "marker_gens (u # us) = (if mu_type u = Mkt_RECOVERY_COMMIT then [mu_priority u] else []) @ marker_gens us"
  by (simp_all add: marker_gens_def)

lemma book_updates_simps [simp]:
  "book_updates [] = []" "book_updates (us @ vs) = book_updates us @ book_updates vs"
  "book_updates (u # us) = (if mu_type u = Mkt_RECOVERY_COMMIT then [] else [u]) @ book_updates us"
  by (simp_all add: book_updates_def)



text \<open>\<open>a\<close> is the generation the engine has applied: neither it nor a marker on its way is ahead of the consumer, and at most
  one of them is the current one, none while the consumer is recovering. \<open>N\<close> bounds the counter.\<close>

definition gen_ok :: "MEMarketUpdate list \<Rightarrow> nat \<Rightarrow> u64 \<Rightarrow> MarketDataConsumer \<Rightarrow> bool" where
  "gen_ok U N a c \<longleftrightarrow> cs_observed c \<le> cs_generation c \<and> unat (cs_generation c) \<le> N \<and>
     (cs_candidate c \<noteq> None \<longrightarrow> mr_recovering (cs_recovery c)) \<and>
     set (book_updates (contents (cs_output c))) \<subseteq> published U \<and>
     (\<forall>g \<in> set (a # marker_gens (contents (cs_output c))). g \<le> cs_observed c) \<and>
     count_list (a # marker_gens (contents (cs_output c))) (cs_observed c) \<le> (if mr_recovering (cs_recovery c) then 0 else 1)"











lemma gen_socket [simp]: "gen_ok U N a (set_socket snap s c) = gen_ok U N a c"
  by (simp add: gen_ok_def set_socket_def)




text \<open>After a round the consumer has seen the current generation.\<close>

lemma publish_generation [simp]:
  "cs_generation (publishRecovery c) = cs_generation c" "cs_observed (publishRecovery c) = cs_observed c"
  by (simp_all add: publishRecovery_def Let_def split: option.split prod.split)

lemma recover_generation [simp]:
  "cs_generation (recover_with s f c) = cs_generation c" "cs_observed (recover_with s f c) = cs_observed c"
  by (simp_all add: recover_with_def Let_def split: option.split prod.split)

lemma stale_generation [simp]:
  "cs_generation (stale c) = cs_observed (stale c)" "cs_generation (new_generation c) = cs_observed (new_generation c)"
  by (simp_all add: stale_def new_generation_def)





subsection \<open>The consumer and the trading engine\<close>





subsection \<open>The invariant\<close>





















subsection \<open>Ready means right\<close>







end
