(* ===== verification/Spec2Isabelle.thy ===== *)
theory Spec2Isabelle
  imports Matching_Engine_Props Market_Data_Consumer Market_Data_Publisher Unordered_Map_Book Diagnostic_Log Random_Load Socket_Utils
    Trading_System Market_View
begin

text \<open>
  A verification library for the trading system under \<^verbatim>\<open>src/\<close>: an exchange with a matching engine, and trading clients that
  connect to it. Functions of the sources are HOL functions with the source's names; classes are records, enumerations
  are datatypes with a constructor for the values outside the enumeration where a byte from the network can hold them;
  machine integers are words where they wrap; prices and the positions of a client are integers with their 64-bit range
  written out where a signed overflow would be undefined, while the ledger of the exchange is an unbounded integer (more than
  \<open>2 ^ 32\<close> fills would be needed to leave the range). An \<open>option\<close> result \<open>None\<close> is a failed \<open>ASSERT\<close>, an invalid access or a signed
  overflow, so a theorem that gives \<open>Some\<close> also says that none of these happens.

  \<^bold>\<open>The programs.\<close> The exchange (\<^verbatim>\<open>exchange/exchange_main.cpp\<close>) runs three threads: the order server reads requests from TCP
  connections, checks sessions, stages them and hands them over in the order of their receive times; the matching engine
  keeps an order book per ticker and answers with responses and market updates; the publisher sends the updates as a
  numbered multicast stream and feeds a synthesizer that sends whole snapshots on a second stream. A client
  (\<^verbatim>\<open>trading/trading_main.cpp\<close>) runs a market data consumer, which joins both streams and recovers from gaps, an order
  gateway, and a trading engine with its books, position keeper, risk manager, order manager and strategies. Threads
  exchange messages over single-producer single-consumer queues only.

  \<^bold>\<open>Data structures.\<close>
  \<^item> \<open>Prelude\<close>, \<open>Types\<close>, \<open>Messages\<close>, \<open>Ordered_Map\<close>, \<open>Linked_Ring\<close>, \<open>Doubles\<close>: limits and identifiers of \<^verbatim>\<open>common/types.h\<close>, requests,
    responses and updates, \<open>std::map\<close> as sorted association lists, intrusive circular lists, and IEEE doubles with
    rounding to nearest even.
  \<^item> \<open>Mem_Pool\<close> (\<^verbatim>\<open>common/mem_pool.h\<close>) and \<open>Price_Ladder\<close>, \<open>Ladder_Invariant\<close>, \<open>Ladder_Ops\<close>, \<open>Ladder_Lists\<close>: price levels and
    orders at a price as linked rings in pools, the invariant that ties the pointers to lists, and each operation as an
    operation on these lists.
  \<^item> \<open>LF_Queue\<close> (\<^verbatim>\<open>common/lf_queue.h\<close>): sequentially a bounded list; under every interleaving of the two threads a prefix arrives
    in order and no slot is read while it is written.
  \<^item> \<open>Wire\<close>, \<open>Wire_Frames\<close> (\<^verbatim>\<open>common/order_protocol.h\<close>, \<^verbatim>\<open>common/market_protocol.h\<close>): encoding and decoding, which are inverse to each
    other; streams of frames of a fixed size. \<open>Book_Hash\<close> is the digest of a book.

  \<^bold>\<open>The exchange.\<close>
  \<^item> \<open>ME_Order_Book\<close> (\<^verbatim>\<open>exchange/matcher/me_order_book.h\<close>, \<^verbatim>\<open>.cpp\<close>) with its abstract specification \<open>ME_Book_Spec\<close>, the refinement
    \<open>ME_Book_Refinement\<close>, and \<open>ME_Book_Props\<close>: price-time order, never crossed, conservation of quantity, limits, identifiers,
    pools. \<open>ME_Market_Stream\<close> shows that the published updates rebuild the book. \<open>Unordered_Map_Book\<close> is the variant with a
    hash table, equivalent for add and cancel.
  \<^item> \<open>Matching_Engine\<close>, \<open>Matching_Engine_Props\<close>, \<open>ME_Book_Clients\<close> (\<^verbatim>\<open>exchange/matcher/matching_engine.h\<close>, \<^verbatim>\<open>.cpp\<close>): all books together,
    response identifiers, the ledger of positions, progress, and whom the engine may answer.
  \<^item> \<open>Tcp_Socket\<close>, \<open>Tcp_Server\<close> (\<^verbatim>\<open>common/tcp_socket.*\<close>, \<^verbatim>\<open>common/tcp_server.*\<close>), \<open>FIFO_Sequencer\<close>, \<open>Order_Server\<close> with \<open>Order_Sessions\<close>,
    \<open>Order_Server_Inv\<close>, \<open>Order_Server_Props\<close>, \<open>Order_Admission\<close> (\<^verbatim>\<open>exchange/order_server/\<close>): buffers and their budgets, sessions,
    numbering, the shutdown handshake, what is admitted.
  \<^item> \<open>Snapshot_Synthesizer\<close>, \<open>Market_Data_Publisher\<close>, \<open>Mcast_Socket\<close> (\<^verbatim>\<open>exchange/market_data/\<close>, \<^verbatim>\<open>common/mcast_socket.*\<close>): the two
    streams. \<open>Critical_Journal\<close> (\<^verbatim>\<open>common/critical_journal.h\<close>): records written whole under short writes.
  \<^item> \<open>Exchange_Process\<close>, \<open>Exchange_Sample\<close>, \<open>Exchange_Props\<close>: the process as a whole. Order server and engine share queues and
    journal; its runs project to runs of the server, every response finds a session, and an orderly shutdown leaves
    nothing undelivered.

  \<^bold>\<open>The client.\<close>
  \<^item> \<open>Market_Recovery\<close>, \<open>Market_Recovery_Props\<close>, \<open>Market_Recovery_Live\<close>, \<open>Market_Data_Consumer\<close> (\<^verbatim>\<open>trading/market_data/\<close>): recovery
    from loss, repetition, reordering, truncation and damage; what is handed over rebuilds the books of the exchange. Snapshot
    frames may be damaged and still decode, as far as their digest can show it (\<open>damage_ok\<close>: a damaged frame numbered 0 keeps the
    numbers of its cycle, and the orders received do not collide with the digest of the resting ones). Increments carry no
    digest, only the checksum of UDP: those that decode are taken to be the published ones.
  \<^item> \<open>Market_Order_Book\<close>, \<open>Market_Book_Props\<close>, \<open>Quotes\<close>, \<open>Feature_Engine\<close>, \<open>Position_Keeper\<close>, \<open>Risk_Manager\<close>, \<open>Order_Manager\<close>,
    \<open>Trade_Engine\<close>, \<open>Trade_Engine_Props\<close> (\<^verbatim>\<open>trading/strategy/\<close>): the books follow the stream, positions stay within limits under
    every interleaving, refused requests leave no trace.
  \<^item> \<open>Order_Gateway\<close>, \<open>Order_Gateway_Props\<close> (\<^verbatim>\<open>trading/order_gw/\<close>) and \<open>Order_Session_Flow\<close>: the network thread, and its session with
    the order server over TCP.
  \<^item> \<open>Runtime_Config\<close>, \<open>Trade_Startup\<close>, \<open>Program_Start\<close>, \<open>Random_Load\<close> (\<^verbatim>\<open>common/runtime_config.h\<close>, \<^verbatim>\<open>common/startup_options.h\<close>,
    \<^verbatim>\<open>trading/trading_main.cpp\<close>): configuration, start-up, the first wait for market data and the load generator on the
    main thread. \<open>Client_Process\<close>: trading engine and gateway
    on shared queues, with the bookkeeping of fills.
  \<^item> \<open>Trading_System\<close>: a client and the exchange together. Requests arrive unchanged and each once, in order as long as the
    receive times of a connection never go back (the first argument of \<open>server_step\<close> and \<open>exchange_step\<close> says whether they may:
    they are wall-clock times); responses arrive in order, each once, and the
    positions of a reconciled client are those of the exchange. \<open>Market_View\<close>: market data from the matching engine through
    the consumer thread to the books of the trading engine. An engine that counts its market data as ready, and so lets
    new orders through, has the books the exchange had after some number of its updates.
  \<^item> \<open>Socket_Utils\<close> (\<^verbatim>\<open>common/socket_utils.h\<close>) and \<open>Diagnostic_Log\<close> (\<^verbatim>\<open>common/logging.h\<close>).

  \<^bold>\<open>Interfaces.\<close> The laws one component relies on are locales, interpreted on the model's definitions: the bounded queue
  (\<open>bounded_fifo\<close>, \<open>LF_Queue\<close>), the memory pool (\<open>object_pool\<close>, \<open>Mem_Pool\<close>), a replica of the order books fed by updates
  (\<open>replica\<close>, \<open>Quotes\<close>; interpreted by the synthesizer, the recovery and the books of the client), a socket with its receive
  callback (\<open>socket_owner\<close>, \<open>total_socket_owner\<close>, \<open>Tcp_Socket\<close>; the gateway) and a server with its connections
  (\<open>server_owner\<close>, \<open>Tcp_Server\<close>; the order server, for its invariant, its admission and its order flow).

  \<^bold>\<open>Threads.\<close> A process is a step relation; a step is one operation of one thread, and what it leaves in a shared object is
  what the next step sees. The queue is the only object two threads use at the same time; \<open>LF_Queue\<close> covers its
  interleavings at the level of single loads and stores, under sequential consistency. Lists in a state next to the
  program's own state, such as the requests taken so far or the bytes a socket has sent (\<open>wire_out\<close>, \<open>wire_in\<close>,
  \<open>parsed_in\<close>), are history and are not read by any operation.

  \<^bold>\<open>Bounds and loops.\<close> Loops over data are structural recursions. The send and receive loops of a socket have the budget of
  8 attempts the code gives them. The frame loops of server and gateway get the number of bytes in the buffer as fuel,
  and each frame takes at least one, so the fuel never ends first. Loops that depend on the environment (writing the journal,
  draining a queue, \<open>poll\<close>, the retries of a shutdown) are partial functions; that they return is proved under the
  progress they need. The generation counter of the market data is taken to stay below \<open>2 ^ 63\<close>. Pool and queue capacities are those of \<^verbatim>\<open>common/types.h\<close>; witnesses use smaller queues.

  \<^bold>\<open>Arguments.\<close> What the kernel answers, clock readings, the environment, the file system, the list of interfaces, random
  numbers and the JSON reader (Glaze, third party) are arguments of the definitions that use them.

  \<^bold>\<open>Not modelled.\<close> Memory orderings weaker than sequential consistency, the text forms that feed the diagnostic log, measuring
  macros, thread creation and pinning, object lifetimes, benchmarks, examples, tests and scripts. Adaptation of the
  third-party reader (the \<open>glz::meta\<close> declarations) belongs to its argument.
\<close>

end
